(* ===== verification/Prelude.thy ===== *)
theory Prelude
  imports Main "HOL-Library.Word"
begin

text \<open>
  Shared vocabulary of the development: the machine integer types of
  \<^verbatim>\<open>kernel/types.h\<close>, the outcome of code that can panic, and the theory of
  null-terminated chains of nodes that every intrusive queue, free list and
  doubly linked list of the kernel is an instance of.
\<close>

unbundle bit_operations_syntax

section \<open>Machine integers\<close>

type_synonym u8 = "8 word"
type_synonym u16 = "16 word"
type_synonym u32 = "32 word"
type_synonym u64 = "64 word"
type_synonym i32 = "32 word"
type_synonym i64 = "64 word"

section \<open>Code that can stop the machine\<close>

text \<open>
  \<^verbatim>\<open>Console::panic\<close> prints its message and stops the emulation, so a call that
  panics never returns. An access through a null pointer traps, and
  \<^verbatim>\<open>TrapHandler::handleTrap\<close> turns that trap into a panic. An access outside an
  array has no defined result in C++; the model stops there with \<open>Undefined\<close>
  instead of inventing one. All three are the left summand of the result type.
\<close>

datatype fault = Panic string | NullDeref | Undefined

type_synonym 'a res = "fault + 'a"

definition bindE :: "'a res \<Rightarrow> ('a \<Rightarrow> 'b res) \<Rightarrow> 'b res" where
  "bindE m f = (case m of Inl e \<Rightarrow> Inl e | Inr x \<Rightarrow> f x)"

lemma bindE_simps [simp]:
  "bindE (Inl e) f = Inl e"
  "bindE (Inr x) f = f x"
  by (simp_all add: bindE_def)

lemma bindE_eq_Inr [simp]:
  "bindE m f = Inr y \<longleftrightarrow> (\<exists>x. m = Inr x \<and> f x = Inr y)"
  by (cases m) auto

text \<open>
  Code that may also fail to return: \<open>None\<close> is a computation that does not end, and
  otherwise its result is a fault or a value.
\<close>

type_synonym 'a run = "'a res option"

definition bindR :: "'a run \<Rightarrow> ('a \<Rightarrow> 'b run) \<Rightarrow> 'b run" where
  "bindR m f = Option.bind m (\<lambda>r. case r of Inl e \<Rightarrow> Some (Inl e) | Inr x \<Rightarrow> f x)"

lemma bindR_simps [simp]:
  "bindR None f = None"
  "bindR (Some (Inl e)) f = Some (Inl e)"
  "bindR (Some (Inr x)) f = f x"
  by (simp_all add: bindR_def)

lemma bindR_eq_Inr [simp]:
  "bindR m f = Some (Inr y) \<longleftrightarrow> (\<exists>x. m = Some (Inr x) \<and> f x = Some (Inr y))"
  by (cases m; cases "the m") (auto simp: bindR_def)

lemma bindR_mono [partial_function_mono]:
  assumes "mono_option B" and "\<And>y. mono_option (\<lambda>f. C y f)"
  shows "mono_option (\<lambda>f. bindR (B f) (\<lambda>y. C y f))"
proof -
  have "mono_option (\<lambda>f. case r of Inl e \<Rightarrow> Some (Inl e) | Inr x \<Rightarrow> C x f)" for r :: "'c res"
    using assms(2) by (cases r) (auto simp: monotone_def flat_ord_def)
  then show ?thesis unfolding bindR_def by (rule bind_mono [OF assms(1)])
qed

section \<open>Chains of nodes\<close>

text \<open>
  \<open>seg nx p xs q\<close>: following \<open>nx\<close> from the pointer \<open>p\<close> one visits the nodes
  \<open>xs\<close> in order and arrives at the pointer \<open>q\<close>. A pointer is an \<open>option\<close>, with
  \<open>None\<close> for the null pointer (or for the end marker \<open>-1\<close> of a free list).
\<close>

primrec seg :: "('p \<Rightarrow> 'p option) \<Rightarrow> 'p option \<Rightarrow> 'p list \<Rightarrow> 'p option \<Rightarrow> bool" where
  "seg nx p [] q = (p = q)"
| "seg nx p (x # xs) q = (p = Some x \<and> seg nx (nx x) xs q)"

text \<open>A whole list is a segment that ends at the null pointer.\<close>

abbreviation chain :: "('p \<Rightarrow> 'p option) \<Rightarrow> 'p option \<Rightarrow> 'p list \<Rightarrow> bool" where
  "chain nx p xs \<equiv> seg nx p xs None"

named_theorems chain_simps

lemma seg_append [chain_simps]:
  "seg nx p (xs @ ys) q \<longleftrightarrow> (\<exists>m. seg nx p xs m \<and> seg nx m ys q)"
  by (induction xs arbitrary: p) auto

lemma seg_None_left [simp]: "seg nx None xs q \<longleftrightarrow> xs = [] \<and> q = None"
  by (cases xs) auto

lemma chain_Some_left:
  "chain nx (Some a) xs \<longleftrightarrow> (\<exists>ys. xs = a # ys \<and> chain nx (nx a) ys)"
  by (cases xs) auto

lemma seg_frame [simp]:
  "a \<notin> set xs \<Longrightarrow> seg (nx(a := v)) p xs q = seg nx p xs q"
  by (induction xs arbitrary: p) auto

lemma seg_cong:
  "(\<And>a. a \<in> set xs \<Longrightarrow> nx a = nx' a) \<Longrightarrow> seg nx p xs q = seg nx' p xs q"
  by (induction xs arbitrary: p) auto

lemma chain_unique: "chain nx p xs \<Longrightarrow> chain nx p ys \<Longrightarrow> xs = ys"
proof (induction xs arbitrary: p ys)
  case Nil
  then show ?case by simp
next
  case (Cons x xs)
  then obtain ys' where "ys = x # ys'" and "chain nx (nx x) ys'"
    by (auto simp: chain_Some_left)
  with Cons.IH [of "nx x" ys'] Cons.prems show ?case by simp
qed

lemma chain_head_fresh: "chain nx (nx a) xs \<Longrightarrow> a \<notin> set xs"
proof
  assume c: "chain nx (nx a) xs" and "a \<in> set xs"
  then obtain us vs where xs: "xs = us @ a # vs"
    by (auto simp: in_set_conv_decomp)
  with c have "chain nx (nx a) vs" by (auto simp: seg_append)
  with c have "xs = vs" by (rule chain_unique)
  with xs show False by simp
qed

lemma chain_distinct: "chain nx p xs \<Longrightarrow> distinct xs"
  by (induction xs arbitrary: p) (auto dest: chain_head_fresh)

lemma chain_hd: "chain nx p xs \<Longrightarrow> p = (if xs = [] then None else Some (hd xs))"
  by (cases xs) auto

lemma chain_None_iff: "chain nx p xs \<Longrightarrow> p = None \<longleftrightarrow> xs = []"
  by (cases xs) auto

lemma seg_last:
  "seg nx p xs q \<Longrightarrow> xs \<noteq> [] \<Longrightarrow> nx (last xs) = q"
  by (induction xs arbitrary: p) auto

lemma chain_split_at:
  assumes "chain nx p (us @ a # vs)"
  shows "seg nx p us (Some a)" and "chain nx (nx a) vs"
  using assms by (auto simp: seg_append)

lemma chain_next_in:
  assumes "chain nx p xs" and "a \<in> set xs" and "nx a = Some b"
  shows "b \<in> set xs"
proof -
  obtain us vs where xs: "xs = us @ a # vs"
    using assms(2) by (auto simp: in_set_conv_decomp)
  with assms have "chain nx (Some b) vs" by (auto simp: seg_append)
  then have "b \<in> set vs" by (auto simp: chain_Some_left)
  with xs show ?thesis by simp
qed

text \<open>Appending a fresh node behind the last one, as every queue's push does.\<close>

lemma chain_snoc:
  assumes "chain nx p xs" and "a \<notin> set xs" and "xs \<noteq> []"
  shows "chain (nx(a := None, last xs := Some a)) p (xs @ [a])"
proof -
  obtain ys z where xs: "xs = ys @ [z]" using assms(3) by (cases xs rule: rev_cases) auto
  have "distinct xs" using assms(1) by (rule chain_distinct)
  then have z: "z \<notin> set ys" using xs by simp
  moreover have "seg nx p ys (Some z)" using assms(1) xs by (auto simp: seg_append)
  moreover have "a \<notin> set ys" "a \<noteq> z" using assms(2) xs by auto
  ultimately show ?thesis by (auto simp: xs seg_append)
qed

text \<open>Unlinking an inner node: its predecessor skips over it.\<close>

lemma chain_unlink:
  assumes "chain nx p (us @ [b, a] @ vs)"
  shows "chain (nx(b := nx a)) p (us @ b # vs)"
proof -
  have "distinct (us @ [b, a] @ vs)" using assms by (rule chain_distinct)
  with assms show ?thesis by (auto simp: seg_append)
qed

lemma chain_unlink_frame:
  assumes "chain nx p (us @ [b, a] @ vs)"
  shows "chain (nx(b := nx a, a := v)) p (us @ b # vs)"
proof -
  have "distinct (us @ [b, a] @ vs)" using assms by (rule chain_distinct)
  with assms show ?thesis by (auto simp: seg_append)
qed

text \<open>The pointer a chain starts with, and the node some steps before its end.\<close>

primrec first_of :: "'a list \<Rightarrow> 'a option" where
  "first_of [] = None"
| "first_of (x # xs) = Some x"

definition nth_last :: "nat \<Rightarrow> 'a list \<Rightarrow> 'a option" where
  "nth_last k xs = (if k < length xs then Some (rev xs ! k) else None)"

lemma nth_last_simps [simp]:
  "nth_last k [] = None" "nth_last 0 (xs @ [x]) = Some x"
  "nth_last (Suc k) (xs @ [x]) = nth_last k xs"
  by (simp_all add: nth_last_def)

lemma chain_first: "chain nx p xs \<Longrightarrow> p = first_of xs"
  by (cases xs) auto

section \<open>Options, lists and arrays\<close>

lemma option_eqI: "(\<And>v. a = Some v \<longleftrightarrow> b = Some v) \<Longrightarrow> a = b"
  by (cases a; cases b) auto

text \<open>Extending a bounded search by the index it has just passed.\<close>

lemma all_from_Suc:
  "P i \<Longrightarrow> (\<forall>j. i + 1 \<le> j \<and> j < n \<longrightarrow> P j) \<Longrightarrow> (\<forall>j. i \<le> j \<and> j < (n :: nat) \<longrightarrow> P j)"
  by (metis Suc_eq_plus1 Suc_leI le_neq_implies_less)

lemma set_take_subset_nth: "x \<in> set (take n xs) \<Longrightarrow> \<exists>i < n. i < length xs \<and> xs ! i = x"
  by (auto simp: in_set_conv_nth)

lemma remove1_middle:
  "distinct (us @ a # vs) \<Longrightarrow> remove1 a (us @ a # vs) = us @ vs"
  by (simp add: remove1_append)

end
