(* ===== verification/KList.thy ===== *)
theory KList
  imports Prelude
begin

text \<open>
  The doubly linked list \<^verbatim>\<open>List<T>\<close> of \<^verbatim>\<open>kernel/lib/list.h\<close> on an explicit node
  memory. A node address is a natural number; \<open>new Node\<close> receives the address
  its slab cache hands out as an argument, and \<open>delete\<close> leaves the node's slot
  holding what the slab allocator's free-list bookkeeping makes of it (the
  parameter \<open>scrub\<close>), so that a read after the \<open>delete\<close> is visible in the model.
\<close>

section \<open>Nodes and the list record\<close>

record 'a node =
  nvalue :: 'a
  nnext :: "nat option"
  nprev :: "nat option"

type_synonym 'a nodes = "nat \<Rightarrow> 'a node"

record klist =
  m_head :: "nat option"
  m_tail :: "nat option"
  m_size :: nat

definition set_next :: "'a nodes \<Rightarrow> nat \<Rightarrow> nat option \<Rightarrow> 'a nodes" where
  "set_next h p q = h(p := (h p)\<lparr>nnext := q\<rparr>)"

definition set_prev :: "'a nodes \<Rightarrow> nat \<Rightarrow> nat option \<Rightarrow> 'a nodes" where
  "set_prev h p q = h(p := (h p)\<lparr>nprev := q\<rparr>)"

definition new_node :: "'a nodes \<Rightarrow> nat \<Rightarrow> 'a \<Rightarrow> 'a nodes" where
  "new_node h p v = h(p := \<lparr>nvalue = v, nnext = None, nprev = None\<rparr>)"

definition delete_node :: "('a node \<Rightarrow> 'a node) \<Rightarrow> 'a nodes \<Rightarrow> nat \<Rightarrow> 'a nodes" where
  "delete_node scrub h p = h(p := scrub (h p))"

section \<open>Operations\<close>

definition List_ctor :: klist where
  "List_ctor = \<lparr>m_head = None, m_tail = None, m_size = 0\<rparr>"

definition addLast :: "nat \<Rightarrow> 'a \<Rightarrow> 'a nodes \<Rightarrow> klist \<Rightarrow> 'a nodes \<times> klist" where
  "addLast p v h l =
     (let h1 = new_node h p v in
      case m_tail l of
        Some t \<Rightarrow> (set_prev (set_next h1 t (Some p)) p (Some t),
                   l\<lparr>m_tail := Some p, m_size := m_size l + 1\<rparr>)
      | None \<Rightarrow> (h1, l\<lparr>m_head := Some p, m_tail := Some p, m_size := m_size l + 1\<rparr>))"

definition addFirst :: "nat \<Rightarrow> 'a \<Rightarrow> 'a nodes \<Rightarrow> klist \<Rightarrow> 'a nodes \<times> klist" where
  "addFirst p v h l =
     (let h1 = new_node h p v in
      case m_head l of
        Some t \<Rightarrow> (set_prev (set_next h1 p (Some t)) t (Some p),
                   l\<lparr>m_head := Some p, m_size := m_size l + 1\<rparr>)
      | None \<Rightarrow> (h1, l\<lparr>m_tail := Some p, m_head := Some p, m_size := m_size l + 1\<rparr>))"

text \<open>
  \<open>removeLast\<close> and \<open>removeFirst\<close> bind a reference to the value, delete the node
  and only then copy the value out of it.
\<close>

definition removeLast ::
  "('a node \<Rightarrow> 'a node) \<Rightarrow> 'a nodes \<Rightarrow> klist \<Rightarrow> ('a \<times> 'a nodes \<times> klist) res" where
  "removeLast scrub h l =
     (case m_tail l of
        Some t \<Rightarrow>
          (let new_tail = nprev (h t);
               h1 = delete_node scrub h t in
           case new_tail of
             Some t' \<Rightarrow> let h2 = set_next h1 t' None in
               Inr (nvalue (h2 t), h2, l\<lparr>m_tail := Some t', m_size := m_size l - 1\<rparr>)
           | None \<Rightarrow>
               Inr (nvalue (h1 t), h1, l\<lparr>m_tail := None, m_head := None, m_size := m_size l - 1\<rparr>))
      | None \<Rightarrow> Inl (Panic ''List::removeLast(): list is empty''))"

definition removeFirst ::
  "('a node \<Rightarrow> 'a node) \<Rightarrow> 'a nodes \<Rightarrow> klist \<Rightarrow> ('a \<times> 'a nodes \<times> klist) res" where
  "removeFirst scrub h l =
     (case m_head l of
        Some t \<Rightarrow>
          (let new_head = nnext (h t);
               h1 = delete_node scrub h t in
           case new_head of
             Some t' \<Rightarrow> let h2 = set_prev h1 t' None in
               Inr (nvalue (h2 t), h2, l\<lparr>m_head := Some t', m_size := m_size l - 1\<rparr>)
           | None \<Rightarrow>
               Inr (nvalue (h1 t), h1, l\<lparr>m_head := None, m_tail := None, m_size := m_size l - 1\<rparr>))
      | None \<Rightarrow> Inl (Panic ''List::removeFirst(): list is empty''))"

definition list_remove ::
  "('a node \<Rightarrow> 'a node) \<Rightarrow> nat \<Rightarrow> 'a nodes \<Rightarrow> klist \<Rightarrow> 'a \<times> 'a nodes \<times> klist" where
  "list_remove scrub p h l =
     (let (h1, l1) = (case nprev (h p) of
                        Some q \<Rightarrow> (set_next h q (nnext (h p)), l)
                      | None \<Rightarrow> (h, l\<lparr>m_head := nnext (h p)\<rparr>));
          (h2, l2) = (case nnext (h1 p) of
                        Some q \<Rightarrow> (set_prev h1 q (nprev (h1 p)), l1)
                      | None \<Rightarrow> (h1, l1\<lparr>m_tail := nprev (h1 p)\<rparr>));
          ret = nvalue (h2 p)
      in (ret, delete_node scrub h2 p, l2\<lparr>m_size := m_size l2 - 1\<rparr>))"

definition list_first :: "'a nodes \<Rightarrow> klist \<Rightarrow> 'a res" where
  "list_first h l = (case m_head l of Some p \<Rightarrow> Inr (nvalue (h p)) | None \<Rightarrow> Inl NullDeref)"

definition list_back :: "'a nodes \<Rightarrow> klist \<Rightarrow> 'a res" where
  "list_back h l = (case m_tail l of Some p \<Rightarrow> Inr (nvalue (h p)) | None \<Rightarrow> Inl NullDeref)"

partial_function (option) clear_loop ::
  "('a node \<Rightarrow> 'a node) \<Rightarrow> 'a nodes \<Rightarrow> nat option \<Rightarrow> 'a nodes option" where
  "clear_loop scrub h it =
     (case it of
        None \<Rightarrow> Some h
      | Some p \<Rightarrow> clear_loop scrub (delete_node scrub h p) (nnext (h p)))"

definition list_clear ::
  "('a node \<Rightarrow> 'a node) \<Rightarrow> 'a nodes \<Rightarrow> klist \<Rightarrow> ('a nodes \<times> klist) option" where
  "list_clear scrub h l =
     map_option (\<lambda>h'. (h', \<lparr>m_head = None, m_tail = None, m_size = 0\<rparr>))
       (clear_loop scrub h (m_head l))"

definition moveFront :: "nat option \<Rightarrow> 'a nodes \<Rightarrow> klist \<Rightarrow> 'a nodes \<times> klist" where
  "moveFront it h l =
     (case it of
        None \<Rightarrow> (h, l)
      | Some p \<Rightarrow>
          if m_head l = Some p then (h, l)
          else
            let h1 = (case nprev (h p) of Some q \<Rightarrow> set_next h q (nnext (h p)) | None \<Rightarrow> h);
                h2 = (case nnext (h1 p) of Some q \<Rightarrow> set_prev h1 q (nprev (h1 p)) | None \<Rightarrow> h1);
                l1 = (if m_tail l = Some p then l\<lparr>m_tail := nprev (h2 p)\<rparr> else l);
                h3 = set_prev (set_next h2 p (m_head l1)) p None;
                h4 = (case m_head l1 of Some q \<Rightarrow> set_prev h3 q (Some p) | None \<Rightarrow> h3);
                l2 = l1\<lparr>m_head := Some p\<rparr>
            in (h4, if m_tail l2 = None then l2\<lparr>m_tail := m_head l2\<rparr> else l2))"

section \<open>The representation invariant\<close>

definition nx :: "'a nodes \<Rightarrow> nat \<Rightarrow> nat option" where "nx h = (\<lambda>p. nnext (h p))"
definition pv :: "'a nodes \<Rightarrow> nat \<Rightarrow> nat option" where "pv h = (\<lambda>p. nprev (h p))"
definition vl :: "'a nodes \<Rightarrow> nat \<Rightarrow> 'a" where "vl h = (\<lambda>p. nvalue (h p))"

lemma node_fields:
  "nnext (h p) = nx h p" "nprev (h p) = pv h p" "nvalue (h p) = vl h p"
  by (simp_all add: nx_def pv_def vl_def)

named_theorems node_upd

lemma set_next_upd [node_upd]:
  "nx (set_next h p q) = (nx h)(p := q)" "pv (set_next h p q) = pv h"
  "vl (set_next h p q) = vl h"
  by (auto simp: nx_def pv_def vl_def set_next_def)

lemma set_prev_upd [node_upd]:
  "nx (set_prev h p q) = nx h" "pv (set_prev h p q) = (pv h)(p := q)"
  "vl (set_prev h p q) = vl h"
  by (auto simp: nx_def pv_def vl_def set_prev_def)

lemma new_node_upd [node_upd]:
  "nx (new_node h p v) = (nx h)(p := None)" "pv (new_node h p v) = (pv h)(p := None)"
  "vl (new_node h p v) = (vl h)(p := v)"
  by (auto simp: nx_def pv_def vl_def new_node_def)

lemma delete_node_upd [node_upd]:
  "nx (delete_node s h p) = (nx h)(p := nnext (s (h p)))"
  "pv (delete_node s h p) = (pv h)(p := nprev (s (h p)))"
  "vl (delete_node s h p) = (vl h)(p := nvalue (s (h p)))"
  by (auto simp: nx_def pv_def vl_def delete_node_def)

text \<open>
  The nodes \<open>ps\<close> hang together forwards from the head and backwards from the
  tail, and the stored size counts them.
\<close>

definition dll :: "'a nodes \<Rightarrow> klist \<Rightarrow> nat list \<Rightarrow> bool" where
  "dll h l ps \<longleftrightarrow>
     chain (nx h) (m_head l) ps \<and> chain (pv h) (m_tail l) (rev ps) \<and> m_size l = length ps"

abbreviation contents :: "'a nodes \<Rightarrow> nat list \<Rightarrow> 'a list" where
  "contents h ps \<equiv> map (vl h) ps"

lemma dll_distinct: "dll h l ps \<Longrightarrow> distinct ps"
  by (auto simp: dll_def dest: chain_distinct)

lemma dll_ends:
  assumes "dll h l ps"
  shows "m_head l = (if ps = [] then None else Some (hd ps))"
    and "m_tail l = (if ps = [] then None else Some (last ps))"
  using assms chain_hd [of "nx h"] chain_hd [of "pv h" "m_tail l" "rev ps"]
  by (auto simp: dll_def hd_rev)

lemma dll_unique: "dll h l ps \<Longrightarrow> dll h l qs \<Longrightarrow> ps = qs"
  by (auto simp: dll_def intro: chain_unique)

lemma dll_neighbours:
  assumes "dll h l (us @ p # vs)"
  shows "nx h p = (if vs = [] then None else Some (hd vs))"
    and "pv h p = (if us = [] then None else Some (last us))"
proof -
  have "chain (nx h) (nx h p) vs" and "chain (pv h) (pv h p) (rev us)"
    using assms by (auto simp: dll_def seg_append)
  then show "nx h p = (if vs = [] then None else Some (hd vs))"
    and "pv h p = (if us = [] then None else Some (last us))"
    by (auto dest: chain_hd simp: hd_rev)
qed

section \<open>Every operation implements its list counterpart\<close>

lemma dll_ctor: "dll h List_ctor []"
  by (simp add: dll_def List_ctor_def)

lemma addLast_dll:
  assumes "dll h l ps" and "p \<notin> set ps" and "addLast p v h l = (h', l')"
  shows "dll h' l' (ps @ [p]) \<and> contents h' (ps @ [p]) = contents h ps @ [v]"
proof (cases ps rule: rev_cases)
  case Nil
  with assms dll_ends [OF assms(1)] show ?thesis
    by (auto simp: addLast_def dll_def node_upd)
next
  case (snoc qs t)
  have "distinct ps" using assms(1) by (rule dll_distinct)
  moreover have "m_tail l = Some t" using dll_ends [OF assms(1)] snoc by simp
  ultimately show ?thesis using assms snoc
    by (auto simp: addLast_def dll_def node_upd seg_append)
qed

lemma addFirst_dll:
  assumes "dll h l ps" and "p \<notin> set ps" and "addFirst p v h l = (h', l')"
  shows "dll h' l' (p # ps) \<and> contents h' (p # ps) = v # contents h ps"
proof (cases ps)
  case Nil
  with assms dll_ends [OF assms(1)] show ?thesis
    by (auto simp: addFirst_def dll_def node_upd)
next
  case (Cons t qs)
  have "distinct ps" using assms(1) by (rule dll_distinct)
  moreover have "m_head l = Some t" using dll_ends [OF assms(1)] Cons by simp
  ultimately show ?thesis using assms Cons
    by (auto simp: addFirst_def dll_def node_upd seg_append)
qed

lemma list_remove_dll:
  assumes d: "dll h l (us @ p # vs)" and r: "list_remove scrub p h l = (x, h', l')"
  shows "x = vl h p \<and> dll h' l' (us @ vs) \<and> contents h' (us @ vs) = contents h (us @ vs)"
proof -
  have dis: "distinct (us @ p # vs)" using d by (rule dll_distinct)
  note nb = dll_neighbours [OF d]
  show ?thesis
    using d r dis nb
    by (cases us rule: rev_cases; cases vs)
      (auto simp: list_remove_def dll_def node_upd node_fields seg_append)
qed

lemma removeLast_dll:
  assumes d: "dll h l (us @ [p])"
  shows "\<exists>h' l'. removeLast scrub h l = Inr (nvalue (scrub (h p)), h', l') \<and> dll h' l' us
           \<and> contents h' us = contents h us"
proof -
  have dis: "distinct (us @ [p])" using d by (rule dll_distinct)
  note nb = dll_neighbours [OF d]
  show ?thesis using d dis nb
    by (cases us rule: rev_cases)
      (auto simp: removeLast_def dll_def node_upd node_fields seg_append Let_def)
qed

lemma removeFirst_dll:
  assumes d: "dll h l (p # vs)"
  shows "\<exists>h' l'. removeFirst scrub h l = Inr (nvalue (scrub (h p)), h', l') \<and> dll h' l' vs
           \<and> contents h' vs = contents h vs"
proof -
  have dis: "distinct (p # vs)" using d by (rule dll_distinct)
  note nb = dll_neighbours [of h l "[]", simplified, OF d]
  show ?thesis using d dis nb
    by (cases vs)
      (auto simp: removeFirst_def dll_def node_upd node_fields seg_append Let_def)
qed

lemma moveFront_dll:
  assumes d: "dll h l (us @ p # vs)" and r: "moveFront (Some p) h l = (h', l')"
  shows "dll h' l' (p # us @ vs) \<and> vl h' = vl h"
proof -
  have dis: "distinct (us @ p # vs)" using d by (rule dll_distinct)
  note nb = dll_neighbours [OF d] and en = dll_ends [OF d]
  consider "us = []" | a where "us = [a]" | a ws b where "us = a # ws @ [b]"
    by (cases us; cases "tl us" rule: rev_cases) auto
  then show ?thesis
  proof cases
    case 1
    with d r en show ?thesis by (auto simp: moveFront_def)
  next
    case 2
    with r dis nb en have "(h', l') =
      (set_prev (set_prev (set_next (case vs of [] \<Rightarrow> set_next h a None
          | v # _ \<Rightarrow> set_prev (set_next h a (Some v)) v (Some a)) p (Some a)) p None) a (Some p),
       l\<lparr>m_tail := if vs = [] then Some a else m_tail l, m_head := Some p\<rparr>)"
      by (cases vs) (auto simp: moveFront_def node_upd node_fields Let_def)
    with 2 d dis show ?thesis
      by (cases vs) (auto simp: dll_def node_upd seg_append)
  next
    case 3
    with r dis nb en have "(h', l') =
      (set_prev (set_prev (set_next (case vs of [] \<Rightarrow> set_next h b None
          | v # _ \<Rightarrow> set_prev (set_next h b (Some v)) v (Some b)) p (Some a)) p None) a (Some p),
       l\<lparr>m_tail := if vs = [] then Some b else m_tail l, m_head := Some p\<rparr>)"
      by (cases vs) (auto simp: moveFront_def node_upd node_fields Let_def)
    with 3 d dis show ?thesis
      by (cases vs) (auto simp: dll_def node_upd seg_append)
  qed
qed

lemma clear_loop_returns:
  "chain (nx h) it ps \<Longrightarrow> \<exists>h'. clear_loop scrub h it = Some h'"
proof (induction ps arbitrary: h it)
  case Nil
  then show ?case by (simp add: clear_loop.simps)
next
  case (Cons p ps)
  then have "p \<notin> set ps" and "chain (nx h) (nx h p) ps"
    by (auto dest: chain_head_fresh)
  then have "chain (nx (delete_node scrub h p)) (nx h p) ps"
    by (simp add: node_upd)
  with Cons.IH Cons.prems show ?case
    by (subst clear_loop.simps) (simp add: node_fields)
qed

lemma list_clear_dll:
  assumes "dll h l ps"
  shows "\<exists>h' l'. list_clear scrub h l = Some (h', l') \<and> dll h' l' []"
  using assms clear_loop_returns [of h "m_head l" ps scrub]
  by (auto simp: list_clear_def dll_def)

section \<open>Properties\<close>

text \<open>A list of three nodes.\<close>

definition demo_nodes :: "nat nodes" where
  "demo_nodes = (\<lambda>p. \<lparr>nvalue = 10 * p, nnext = (if p < 3 then Some (p + 1) else None),
      nprev = (if 1 < p then Some (p - 1) else None)\<rparr>)"

definition demo_list :: klist where
  "demo_list = \<lparr>m_head = Some 1, m_tail = Some 3, m_size = 3\<rparr>"

lemma demo_dll: "dll demo_nodes demo_list [1, 2, 3]" and demo_values: "vl demo_nodes p = 10 * p"
  by (simp_all add: dll_def demo_nodes_def demo_list_def nx_def pv_def vl_def)

text \<open>
  \<^verbatim>\<open>List::moveFront\<close> moves the node to the head and keeps the order of all the others and
  every value: the head, the tail, both link directions and the size stay consistent wherever
  the node stood.
\<close>
theorem moveFront_refines:
  assumes "dll h l (us @ p # vs)"
  shows "dll (fst (moveFront (Some p) h l)) (snd (moveFront (Some p) h l)) (p # us @ vs)
     \<and> contents (fst (moveFront (Some p) h l)) (p # us @ vs) = vl h p # contents h us @ contents h vs"
proof -
  obtain h' l' where r: "moveFront (Some p) h l = (h', l')" by fastforce
  from moveFront_dll [OF assms r] r show ?thesis by simp
qed

theorem moveFront_refines_witness:
  "contents (fst (moveFront (Some 3) demo_nodes demo_list)) [3, 1, 2] = [30, 10, 20]"
  using moveFront_refines [of demo_nodes demo_list "[1, 2]" 3 "[]"] demo_dll
  by (simp add: demo_values)

text \<open>
  \<^verbatim>\<open>List::remove\<close> of a node in any position returns its value and leaves a well-formed list
  of the others in order.
\<close>
theorem remove_refines:
  assumes "dll h l (us @ p # vs)"
  shows "\<exists>h' l'. list_remove scrub p h l = (vl h p, h', l') \<and> dll h' l' (us @ vs)
     \<and> contents h' (us @ vs) = contents h us @ contents h vs"
proof -
  obtain x h' l' where r: "list_remove scrub p h l = (x, h', l')" by (metis prod_cases3)
  from list_remove_dll [OF assms r] r show ?thesis by simp
qed

theorem remove_refines_witness:
  "\<exists>h' l'. list_remove (\<lambda>n. n\<lparr>nnext := None\<rparr>) 2 demo_nodes demo_list = (20, h', l')
     \<and> contents h' [1, 3] = [10, 30]"
  using remove_refines [of demo_nodes demo_list "[1]" 2 "[3]" "\<lambda>n. n\<lparr>nnext := None\<rparr>"] demo_dll
  by (auto simp: demo_values)

text \<open>
  \<^verbatim>\<open>List::removeFirst\<close> and \<^verbatim>\<open>List::removeLast\<close> read the value out of the node after
  \<^verbatim>\<open>delete\<close>: what they return is what the allocator has left in the freed memory, while the
  list itself is correct. They return the element only if freeing a node keeps the value.
\<close>
theorem removeFirst_reads_freed_node:
  assumes "dll h l (p # vs)"
  shows "\<exists>h' l'. removeFirst scrub h l = Inr (nvalue (scrub (h p)), h', l') \<and> dll h' l' vs
     \<and> contents h' vs = contents h vs"
  using removeFirst_dll [OF assms] .

theorem removeFirst_reads_freed_node_witness:
  "(\<exists>h' l'. removeFirst (\<lambda>n. n\<lparr>nvalue := 0\<rparr>) demo_nodes demo_list = Inr (0, h', l'))
   \<and> vl demo_nodes 1 = 10"
  using removeFirst_reads_freed_node [of demo_nodes demo_list 1 "[2, 3]" "\<lambda>n. n\<lparr>nvalue := 0\<rparr>"] demo_dll
  by (auto simp: demo_values)

end
