(* ===== verification/MemLayout.thy ===== *)
theory MemLayout
  imports Prelude
begin

text \<open>
  The address arithmetic of \<^verbatim>\<open>kernel/hw/memlayout.h\<close> and the \<^verbatim>\<open>satp\<close> encoding of
  \<^verbatim>\<open>kernel/hw/riscv.h\<close>, at their 64-bit width: rounding to pages and the two
  directions of the kernel's linear map of physical memory.
\<close>

definition PHYS_BASE :: u64 where "PHYS_BASE = 0x80000000"
definition PHYS_END :: u64 where "PHYS_END = 0x88000000"
definition KERNEL_BASE :: u64 where "KERNEL_BASE = 0xFFFFFFC080000000"
definition KERNEL_OFFSET :: u64 where "KERNEL_OFFSET = KERNEL_BASE - PHYS_BASE"
definition PAGE_SIZE :: u64 where "PAGE_SIZE = 0x1000"
definition PAGE_SHIFT :: nat where "PAGE_SHIFT = 12"
definition MEM_LIMIT_SHIFT :: nat where "MEM_LIMIT_SHIFT = 27"

definition pageRoundDown :: "u64 \<Rightarrow> u64" where
  "pageRoundDown addr = addr AND NOT (PAGE_SIZE - 1)"

definition pageRoundUp :: "u64 \<Rightarrow> u64" where
  "pageRoundUp addr = (addr + PAGE_SIZE - 1) AND NOT (PAGE_SIZE - 1)"

definition p2v :: "u64 \<Rightarrow> u64" where
  "p2v phys = phys + KERNEL_OFFSET"

definition v2p :: "u64 \<Rightarrow> u64" where
  "v2p virt = virt - KERNEL_OFFSET"

definition makeSatp :: "u64 \<Rightarrow> u64" where
  "makeSatp pmtAddress = push_bit 60 8 OR drop_bit 12 pmtAddress"

section \<open>Rounding as arithmetic on naturals\<close>

lemma page_mask: "NOT (PAGE_SIZE - 1) = NOT (mask 12 :: u64)"
  by (simp add: PAGE_SIZE_def mask_eq_exp_minus_1)

lemma and_not_mask_nat:
  fixes a :: u64
  assumes "n < 64"
  shows "unat (a AND NOT (mask n)) = unat a div 2 ^ n * 2 ^ n"
proof -
  have eq: "a AND NOT (mask n) = push_bit n (drop_bit n a)"
    using assms by (intro bit_eqI) (auto simp: bit_simps)
  have "unat a div 2 ^ n * 2 ^ n \<le> unat a" by simp
  also have "\<dots> < 2 ^ 64" using unsigned_less [of a] by simp
  finally have lt: "unat a div 2 ^ n * 2 ^ n < 2 ^ 64" .
  have "unat (push_bit n (drop_bit n a)) = take_bit 64 (push_bit n (unat (drop_bit n a)))"
    by (simp add: unsigned_push_bit_eq)
  also have "\<dots> = unat a div 2 ^ n * 2 ^ n mod 2 ^ 64"
    by (simp add: unat_drop_bit_eq push_bit_eq_mult take_bit_eq_mod flip: drop_bit_eq_div)
  finally show ?thesis using lt unfolding eq by simp
qed

lemma unat_pageRoundDown: "unat (pageRoundDown a) = unat a div 4096 * 4096"
  by (simp add: pageRoundDown_def page_mask and_not_mask_nat)

lemma pageRoundDown_le: "pageRoundDown a \<le> a"
  by (simp add: word_le_nat_alt unat_pageRoundDown)

lemma pageRoundDown_idem [simp]: "pageRoundDown (pageRoundDown a) = pageRoundDown a"
  by (simp add: pageRoundDown_def and.assoc)

text \<open>A rounded address is exactly one that rounding leaves alone.\<close>

abbreviation page_aligned :: "u64 \<Rightarrow> bool" where
  "page_aligned a \<equiv> pageRoundDown a = a"

lemma page_aligned_iff: "page_aligned a \<longleftrightarrow> 4096 dvd unat a"
proof -
  have "page_aligned a \<longleftrightarrow> unat a div 4096 * 4096 = unat a"
    by (simp only: word_unat_eq_iff unat_pageRoundDown)
  also have "\<dots> \<longleftrightarrow> 4096 dvd unat a"
    by (metis dvd_div_mult_self dvd_triv_right)
  finally show ?thesis .
qed

lemma pageRoundUp_aligned [simp]: "page_aligned (pageRoundUp a)"
  by (simp add: pageRoundUp_def pageRoundDown_def and.assoc)

lemma unat_pageRoundUp:
  assumes "unat a + 4095 < 2 ^ 64"
  shows "unat (pageRoundUp a) = (unat a + 4095) div 4096 * 4096"
proof -
  have *: "a + PAGE_SIZE - 1 = a + 4095" by (simp add: PAGE_SIZE_def)
  have "unat (a + 4095) = unat a + 4095"
    using assms by (simp add: unat_word_ariths)
  then show ?thesis
    unfolding pageRoundUp_def page_mask * by (simp add: and_not_mask_nat)
qed

lemma pageRoundUp_wraps:
  assumes "2 ^ 64 \<le> unat a + 4095"
  shows "pageRoundUp a = 0"
proof -
  have "unat a < 2 ^ 64" using unsigned_less [of a] by simp
  moreover have "unat (a + 4095) = (unat a + 4095) mod 2 ^ 64"
    by (simp add: unat_word_ariths)
  ultimately have "unat (a + 4095) < 4096"
    using assms by (simp add: le_mod_geq)
  then have "unat (a + 4095) div 4096 = 0" by simp
  moreover have *: "a + PAGE_SIZE - 1 = a + 4095" by (simp add: PAGE_SIZE_def)
  ultimately have "unat (pageRoundUp a) = 0"
    unfolding pageRoundUp_def page_mask * by (simp add: and_not_mask_nat)
  then show ?thesis by (simp add: unat_eq_zero)
qed

lemma v2p_p2v [simp]: "v2p (p2v a) = a"
  by (simp add: v2p_def p2v_def)

lemma p2v_v2p [simp]: "p2v (v2p a) = a"
  by (simp add: v2p_def p2v_def)

lemma p2v_inj: "p2v a = p2v b \<longleftrightarrow> a = b"
  by (simp add: p2v_def)

section \<open>The offset in a page\<close>

lemma unat_page_offset: "unat (take_bit 12 (c :: u64)) = unat c mod 4096"
  unfolding unsigned_take_bit_eq by (simp add: take_bit_eq_mod)

lemma pageRoundDown_take_bit: "pageRoundDown c = c - take_bit 12 c"
proof -
  have "take_bit 12 c \<le> c" by (simp add: word_le_nat_alt unat_page_offset)
  then have "unat (c - take_bit 12 c) = unat c - unat c mod 4096" by (simp add: unat_sub unat_page_offset)
  also have "\<dots> = unat (pageRoundDown c)" by (simp add: unat_pageRoundDown minus_mod_eq_div_mult)
  finally show ?thesis by (simp add: word_unat_eq_iff)
qed

lemma page_aligned_take_bit: "page_aligned a \<longleftrightarrow> take_bit 12 a = 0"
  by (simp add: pageRoundDown_take_bit)

lemma take_bit_aligned:
  assumes "page_aligned a"
  shows "take_bit 12 (a + b) = take_bit 12 b"
proof -
  have "unat (a + b) = (unat a + unat b) mod 2 ^ 64" by (simp add: unat_word_ariths)
  then have "unat (a + b) mod 4096 = (unat a + unat b) mod 4096" by (simp add: mod_mod_cancel)
  also have "\<dots> = unat b mod 4096" using assms page_aligned_iff [of a] by (metis mod_add_left_eq add_0 dvd_imp_mod_0)
  finally show ?thesis by (simp add: word_unat_eq_iff unat_page_offset)
qed

lemma pageRoundDown_aligned: "page_aligned a \<Longrightarrow> pageRoundDown (a + b) = a + pageRoundDown b"
  by (simp add: pageRoundDown_take_bit [of "a + b"] take_bit_aligned) (simp add: pageRoundDown_take_bit)

section \<open>Properties\<close>

text \<open>
  \<^verbatim>\<open>MemoryLayout::pageRoundUp\<close> gives the least multiple of the page size that is not
  below its argument, except for the last page of the address space: there the addition
  wraps around and the result is \<open>0\<close>. Every caller that rounds a length taken from user space
  inherits this second case.
\<close>
theorem pageRoundUp_least_or_zero:
  "if unat a + 4095 < 2 ^ 64
   then a \<le> pageRoundUp a \<and> page_aligned (pageRoundUp a)
        \<and> (\<forall>b. page_aligned b \<and> a \<le> b \<longrightarrow> pageRoundUp a \<le> b)
   else pageRoundUp a = 0"
proof (cases "unat a + 4095 < 2 ^ 64")
  case True
  note u = unat_pageRoundUp [OF True]
  have "pageRoundUp a \<le> b" if b: "page_aligned b" "a \<le> b" for b
  proof -
    obtain k where k: "unat b = 4096 * k" using b(1) page_aligned_iff [of b] unfolding dvd_def by blast
    have "unat a \<le> 4096 * k" using b(2) k by (simp add: word_le_nat_alt)
    then have "(unat a + 4095) div 4096 \<le> k" by linarith
    then show ?thesis using k by (simp add: word_le_nat_alt u)
  qed
  moreover have "a \<le> pageRoundUp a" unfolding word_le_nat_alt u by linarith
  ultimately show ?thesis using True pageRoundUp_aligned by simp
next
  case False
  then show ?thesis using pageRoundUp_wraps [of a] by simp
qed

theorem pageRoundUp_least_or_zero_witness:
  "pageRoundUp 0x1001 \<le> 0x5000 \<and> 0x1001 \<le> pageRoundUp 0x1001 \<and> pageRoundUp 0xFFFFFFFFFFFFF001 = 0"
proof -
  have "page_aligned 0x5000" by (simp add: pageRoundDown_def PAGE_SIZE_def)
  then show ?thesis
    using pageRoundUp_least_or_zero [of "0x1001"] pageRoundUp_least_or_zero [of "0xFFFFFFFFFFFFF001"] by simp
qed

end
