(* ===== verification/MemUtil.thy ===== *)
theory MemUtil
  imports MemLayout
begin

text \<open>
  The freestanding memory and string routines of \<^verbatim>\<open>kernel/mm/mem.h\<close> over an
  explicit byte memory. Pointers are 64-bit and advance with wrap-around; a
  \<^verbatim>\<open>size_t\<close> count is a natural number. The unbounded string loops are partial
  functions whose value \<open>None\<close> means that the loop does not end; a C string in
  memory makes them total.
\<close>

type_synonym mem = "u64 \<Rightarrow> u8"

section \<open>The routines\<close>

function memset_loop :: "mem \<Rightarrow> u64 \<Rightarrow> i32 \<Rightarrow> nat \<Rightarrow> mem" where
  "memset_loop m ptr val len =
     (if len > 0 then memset_loop (m(ptr := ucast val)) (ptr + 1) val (len - 1) else m)"
  by auto
termination by (relation "measure (\<lambda>(_, _, _, len). len)") auto

definition memset :: "mem \<Rightarrow> u64 \<Rightarrow> i32 \<Rightarrow> nat \<Rightarrow> mem" where
  "memset m dest val len = memset_loop m dest val len"

function memcpy_loop :: "mem \<Rightarrow> u64 \<Rightarrow> u64 \<Rightarrow> nat \<Rightarrow> nat \<Rightarrow> mem" where
  "memcpy_loop m dest src i len =
     (if i < len
      then memcpy_loop (m(dest + of_nat i := m (src + of_nat i))) dest src (i + 1) len
      else m)"
  by auto
termination by (relation "measure (\<lambda>(_, _, _, i, len). len - i)") auto

definition memcpy :: "mem \<Rightarrow> u64 \<Rightarrow> u64 \<Rightarrow> nat \<Rightarrow> mem" where
  "memcpy m dest source len = memcpy_loop m dest source 0 len"

function memcmp_loop :: "mem \<Rightarrow> u64 \<Rightarrow> u64 \<Rightarrow> nat \<Rightarrow> nat \<Rightarrow> int" where
  "memcmp_loop m p1 p2 i len =
     (if i < len
      then if m (p1 + of_nat i) \<noteq> m (p2 + of_nat i)
           then if m (p1 + of_nat i) < m (p2 + of_nat i) then - 1 else 1
           else memcmp_loop m p1 p2 (i + 1) len
      else 0)"
  by auto
termination by (relation "measure (\<lambda>(_, _, _, i, len). len - i)") auto

definition memcmp :: "mem \<Rightarrow> u64 \<Rightarrow> u64 \<Rightarrow> nat \<Rightarrow> int" where
  "memcmp m src1 src2 len = memcmp_loop m src1 src2 0 len"

partial_function (option) strcmp :: "mem \<Rightarrow> u64 \<Rightarrow> u64 \<Rightarrow> int option" where
  "strcmp m src1 src2 =
     (if m src1 \<noteq> 0 \<and> m src1 = m src2
      then strcmp m (src1 + 1) (src2 + 1)
      else Some (uint (m src1) - uint (m src2)))"

partial_function (option) strlen_loop :: "mem \<Rightarrow> u64 \<Rightarrow> nat \<Rightarrow> nat option" where
  "strlen_loop m s n =
     (if m (s + of_nat n) \<noteq> 0 then strlen_loop m s (n + 1) else Some n)"

definition strlen :: "mem \<Rightarrow> u64 \<Rightarrow> nat option" where
  "strlen m s = strlen_loop m s 0"

partial_function (option) strcpy :: "mem \<Rightarrow> u64 \<Rightarrow> u64 \<Rightarrow> mem option" where
  "strcpy m dest src =
     (if m src \<noteq> 0
      then strcpy (m(dest := m src)) (dest + 1) (src + 1)
      else Some (m(dest := 0)))"

function strncmp_loop :: "mem \<Rightarrow> u64 \<Rightarrow> u64 \<Rightarrow> nat \<Rightarrow> nat \<Rightarrow> int" where
  "strncmp_loop m s1 s2 i n =
     (if i < n
      then if m (s1 + of_nat i) \<noteq> m (s2 + of_nat i)
           then uint (m (s1 + of_nat i)) - uint (m (s2 + of_nat i))
           else if m (s1 + of_nat i) = 0 then 0
           else strncmp_loop m s1 s2 (i + 1) n
      else 0)"
  by auto
termination by (relation "measure (\<lambda>(_, _, _, i, n). n - i)") auto

definition strncmp :: "mem \<Rightarrow> u64 \<Rightarrow> u64 \<Rightarrow> nat \<Rightarrow> int" where
  "strncmp m s1 s2 n = strncmp_loop m s1 s2 0 n"

function strncpy_pad :: "mem \<Rightarrow> u64 \<Rightarrow> nat \<Rightarrow> nat \<Rightarrow> mem" where
  "strncpy_pad m dest i n =
     (if i < n then strncpy_pad (m(dest + of_nat i := 0)) dest (i + 1) n else m)"
  by auto
termination by (relation "measure (\<lambda>(_, _, i, n). n - i)") auto

function strncpy_copy :: "mem \<Rightarrow> u64 \<Rightarrow> u64 \<Rightarrow> nat \<Rightarrow> nat \<Rightarrow> mem" where
  "strncpy_copy m dest src i n =
     (if i < n \<and> m (src + of_nat i) \<noteq> 0
      then strncpy_copy (m(dest + of_nat i := m (src + of_nat i))) dest src (i + 1) n
      else strncpy_pad m dest i n)"
  by auto
termination by (relation "measure (\<lambda>(_, _, _, i, n). n - i)") auto

definition strncpy :: "mem \<Rightarrow> u64 \<Rightarrow> u64 \<Rightarrow> nat \<Rightarrow> mem" where
  "strncpy m dest src n = strncpy_copy m dest src 0 n"

declare memset_loop.simps [simp del] memcpy_loop.simps [simp del]
declare memcmp_loop.simps [simp del] strncmp_loop.simps [simp del]
declare strncpy_pad.simps [simp del] strncpy_copy.simps [simp del]

section \<open>C strings in memory\<close>

primrec cstr :: "mem \<Rightarrow> u64 \<Rightarrow> u8 list \<Rightarrow> bool" where
  "cstr m p [] = (m p = 0)"
| "cstr m p (c # cs) = (m p = c \<and> c \<noteq> 0 \<and> cstr m (p + 1) cs)"

lemma cstr_frame:
  "(\<And>i. i \<le> length cs \<Longrightarrow> p + of_nat i \<noteq> a) \<Longrightarrow> cstr (m(a := v)) p cs = cstr m p cs"
proof (induction cs arbitrary: p)
  case Nil
  from Nil [of 0] show ?case by simp
next
  case (Cons c cs)
  have "p \<noteq> a" using Cons.prems [of 0] by simp
  moreover have "p + 1 + of_nat i \<noteq> a" if "i \<le> length cs" for i
    using Cons.prems [of "Suc i"] that by (simp add: algebra_simps)
  ultimately show ?case using Cons.IH [of "p + 1"] by simp
qed

lemma strlen_loop_cstr:
  "cstr m (s + of_nat n) cs \<Longrightarrow> strlen_loop m s n = Some (n + length cs)"
proof (induction cs arbitrary: n)
  case Nil
  then show ?case by (simp add: strlen_loop.simps)
next
  case (Cons c cs)
  then have "strlen_loop m s (n + 1) = Some (n + 1 + length cs)"
    by (intro Cons.IH) (simp add: algebra_simps)
  with Cons.prems show ?case by (subst strlen_loop.simps) simp
qed

lemma strcmp_cstr:
  "cstr m a xs \<Longrightarrow> cstr m b ys \<Longrightarrow> \<exists>r. strcmp m a b = Some r \<and> (r = 0 \<longleftrightarrow> xs = ys)"
proof (induction xs arbitrary: a b ys)
  case Nil
  then show ?case by (cases ys) (auto simp: strcmp.simps uint_0_iff)
next
  case (Cons x xs)
  show ?case
  proof (cases "\<exists>ys'. ys = x # ys'")
    case True
    then obtain ys' where ys: "ys = x # ys'" by blast
    with Cons.prems Cons.IH [of "a + 1" "b + 1" ys'] show ?thesis
      by (subst strcmp.simps) auto
  next
    case False
    then have "m b \<noteq> x" using Cons.prems by (cases ys) auto
    with Cons.prems False show ?thesis
      by (subst strcmp.simps) (auto dest: unsigned_word_eqI)
  qed
qed

lemma strcpy_frame:
  "strcpy m d s = Some m' \<Longrightarrow> cstr m s cs \<Longrightarrow>
   (\<And>i. i \<le> length cs \<Longrightarrow> d + of_nat i \<noteq> a) \<Longrightarrow>
   (\<And>i j. i \<le> length cs \<Longrightarrow> j \<le> length cs \<Longrightarrow> d + of_nat i \<noteq> s + of_nat j) \<Longrightarrow>
   m' a = m a"
proof (induction cs arbitrary: m d s)
  case Nil
  from Nil.prems(1,2) Nil.prems(3) [of 0] show ?case by (auto simp: strcpy.simps)
next
  case (Cons c cs)
  have run: "strcpy (m(d := m s)) (d + 1) (s + 1) = Some m'"
    using Cons.prems(1,2) by (subst (asm) strcpy.simps) simp
  have "s + 1 + of_nat i \<noteq> d" if "i \<le> length cs" for i
    using Cons.prems(4) [of 0 "Suc i"] that by (auto simp: algebra_simps)
  then have str: "cstr (m(d := m s)) (s + 1) cs"
    using Cons.prems(2) by (subst cstr_frame) auto
  have "m' a = (m(d := m s)) a"
  proof (rule Cons.IH [OF run str])
    show "d + 1 + of_nat i \<noteq> a" if "i \<le> length cs" for i
      using Cons.prems(3) [of "Suc i"] that by (simp add: algebra_simps)
    show "d + 1 + of_nat i \<noteq> s + 1 + of_nat j" if "i \<le> length cs" "j \<le> length cs" for i j
      using Cons.prems(4) [of "Suc i" "Suc j"] that by (simp add: algebra_simps)
  qed
  with Cons.prems(3) [of 0] show ?case by auto
qed

lemma of_nat_u64_neq_0:
  assumes "0 < i" and "i < 2 ^ 64"
  shows "of_nat i \<noteq> (0 :: u64)"
proof
  assume "of_nat i = (0 :: u64)"
  then have "unat (of_nat i :: u64) = 0" by simp
  with assms show False by (simp add: unat_of_nat)
qed

lemma strcpy_cstr:
  "cstr m s cs \<Longrightarrow> length cs < 2 ^ 64 \<Longrightarrow>
   (\<And>i j. i \<le> length cs \<Longrightarrow> j \<le> length cs \<Longrightarrow> d + of_nat i \<noteq> s + of_nat j) \<Longrightarrow>
   \<exists>m'. strcpy m d s = Some m' \<and> cstr m' d cs"
proof (induction cs arbitrary: m d s)
  case Nil
  then show ?case by (auto simp: strcpy.simps)
next
  case (Cons c cs)
  have "s + 1 + of_nat i \<noteq> d" if "i \<le> length cs" for i
    using Cons.prems(3) [of 0 "Suc i"] that by (auto simp: algebra_simps)
  then have str: "cstr (m(d := m s)) (s + 1) cs"
    using Cons.prems(1) by (subst cstr_frame) auto
  have dis: "d + 1 + of_nat i \<noteq> s + 1 + of_nat j" if "i \<le> length cs" "j \<le> length cs" for i j
    using Cons.prems(3) [of "Suc i" "Suc j"] that by (simp add: algebra_simps)
  obtain m' where run: "strcpy (m(d := m s)) (d + 1) (s + 1) = Some m'"
    and res: "cstr m' (d + 1) cs"
    by (rule exE [OF Cons.IH [OF str _ dis]]) (use Cons.prems(2) in auto)
  have ne: "d + 1 + of_nat i \<noteq> d" if "i \<le> length cs" for i
    using of_nat_u64_neq_0 [of "Suc i"] that Cons.prems(2) by (auto simp: algebra_simps)
  have "m' d = (m(d := m s)) d"
    by (rule strcpy_frame [OF run str]) (use ne dis in auto)
  with run res Cons.prems(1) show ?case by (subst strcpy.simps) auto
qed

section \<open>Block copies\<close>

lemma memcpy_loop_frame:
  "(\<And>k. i \<le> k \<Longrightarrow> k < len \<Longrightarrow> d + of_nat k \<noteq> a) \<Longrightarrow> memcpy_loop m d s i len a = m a"
proof (induction m d s i len rule: memcpy_loop.induct)
  case (1 m d s i len)
  show ?case
  proof (cases "i < len")
    case True
    have "memcpy_loop (m(d + of_nat i := m (s + of_nat i))) d s (i + 1) len a
        = (m(d + of_nat i := m (s + of_nat i))) a"
      using "1.prems" by (intro "1.IH" [OF True]) auto
    with True "1.prems" [of i] show ?thesis by (subst memcpy_loop.simps) auto
  qed (simp add: memcpy_loop.simps)
qed

lemma of_nat_u64_inj:
  assumes "i < 2 ^ 64" and "j < 2 ^ 64" and "(of_nat i :: u64) = of_nat j"
  shows "i = j"
proof -
  have "unat (of_nat i :: u64) = unat (of_nat j :: u64)" using assms(3) by simp
  with assms(1,2) show ?thesis by (simp add: unat_of_nat)
qed

lemma memcpy_loop_copies:
  "i \<le> k \<Longrightarrow> k < len \<Longrightarrow> len \<le> 2 ^ 64 \<Longrightarrow>
   (\<And>a b. a < len \<Longrightarrow> b < len \<Longrightarrow> d + of_nat a \<noteq> s + of_nat b) \<Longrightarrow>
   memcpy_loop m d s i len (d + of_nat k) = m (s + of_nat k)"
proof (induction m d s i len rule: memcpy_loop.induct)
  case (1 m d s i len)
  let ?m = "m(d + of_nat i := m (s + of_nat i))"
  have i: "i < len" using "1.prems" by simp
  have src: "?m (s + of_nat k) = m (s + of_nat k)"
    using "1.prems"(4) [of i k] i "1.prems"(2) by auto
  show ?case
  proof (cases "i = k")
    case True
    have "memcpy_loop ?m d s (i + 1) len (d + of_nat i) = ?m (d + of_nat i)"
    proof (rule memcpy_loop_frame)
      fix l assume "i + 1 \<le> l" and "l < len"
      then show "d + of_nat l \<noteq> d + of_nat i"
        using of_nat_u64_inj [of l i] "1.prems"(3) by auto
    qed
    with True i show ?thesis by (subst memcpy_loop.simps) simp
  next
    case False
    then have "i + 1 \<le> k" using "1.prems"(1) by simp
    from "1.IH" [OF i this "1.prems"(2-4)] src
    have "memcpy_loop ?m d s (i + 1) len (d + of_nat k) = m (s + of_nat k)" by (rule trans)
    with i show ?thesis by (subst memcpy_loop.simps) simp
  qed
qed

lemma memset_loop_frame:
  "(\<And>k. k < len \<Longrightarrow> p + of_nat k \<noteq> a) \<Longrightarrow> memset_loop m p v len a = m a"
proof (induction len arbitrary: m p)
  case 0
  then show ?case by (simp add: memset_loop.simps)
next
  case (Suc len)
  have "p \<noteq> a" using Suc.prems [of 0] by simp
  moreover have "p + 1 + of_nat k \<noteq> a" if "k < len" for k
    using Suc.prems [of "Suc k"] that by (simp add: algebra_simps)
  ultimately show ?case using Suc.IH [of "p + 1"] by (subst memset_loop.simps) auto
qed

lemma memset_loop_fills:
  "k < len \<Longrightarrow> len \<le> 2 ^ 64 \<Longrightarrow> memset_loop m p v len (p + of_nat k) = ucast v"
proof (induction len arbitrary: m p k)
  case 0
  then show ?case by simp
next
  case (Suc len)
  show ?case
  proof (cases k)
    case 0
    have "p + 1 + of_nat j \<noteq> p" if "j < len" for j
      using of_nat_u64_neq_0 [of "Suc j"] that Suc.prems(2) by (auto simp: algebra_simps)
    then show ?thesis using 0 by (subst memset_loop.simps) (simp add: memset_loop_frame)
  next
    case (Suc j)
    then have "memset_loop (m(p := ucast v)) (p + 1) v len (p + 1 + of_nat j) = ucast v"
      using Suc.prems by (intro Suc.IH) auto
    then show ?thesis using Suc by (subst memset_loop.simps) (simp add: algebra_simps)
  qed
qed

section \<open>Properties\<close>

lemma cstr_same:
  "(\<And>i. i \<le> length cs \<Longrightarrow> m' (p + of_nat i) = m (p + of_nat i)) \<Longrightarrow> cstr m p cs \<Longrightarrow> cstr m' p cs"
proof (induction cs arbitrary: p)
  case Nil
  then show ?case using Nil.prems(1) [of 0] by simp
next
  case (Cons c cs)
  have "m' (p + 1 + of_nat i) = m (p + 1 + of_nat i)" if "i \<le> length cs" for i
    using Cons.prems(1) [of "Suc i"] that by (simp add: add.assoc)
  then have "cstr m' (p + 1) cs" using Cons.IH Cons.prems(2) by simp
  then show ?case using Cons.prems(1) [of 0] Cons.prems(2) by simp
qed

text \<open>
  \<^verbatim>\<open>strcpy\<close> on strings that do not overlap returns; the destination then holds the string,
  so that \<^verbatim>\<open>strcmp\<close> of source and destination gives \<open>0\<close> and \<^verbatim>\<open>strlen\<close> gives its length, and no
  byte outside the destination has changed.
\<close>
theorem strcpy_copies_string:
  assumes s: "cstr m s cs" and n: "length cs < 2 ^ 64"
    and apart: "\<And>i j. i \<le> length cs \<Longrightarrow> j \<le> length cs \<Longrightarrow> d + of_nat i \<noteq> s + of_nat j"
  shows "\<exists>m'. strcpy m d s = Some m' \<and> strcmp m' d s = Some 0 \<and> strlen m' d = Some (length cs)
     \<and> (\<forall>a. (\<forall>i \<le> length cs. d + of_nat i \<noteq> a) \<longrightarrow> m' a = m a)"
proof -
  obtain m' where m': "strcpy m d s = Some m'" "cstr m' d cs"
    using strcpy_cstr [OF s n apart] by blast
  have frame: "m' a = m a" if "\<forall>i \<le> length cs. d + of_nat i \<noteq> a" for a
    using strcpy_frame [OF m'(1) s _ apart] that by blast
  have "cstr m' s cs" using cstr_same [OF _ s] frame apart by metis
  then have "strcmp m' d s = Some 0" using strcmp_cstr [OF m'(2)] by blast
  moreover have "strlen m' d = Some (length cs)"
    using strlen_loop_cstr [of m' d 0 cs] m'(2) by (simp add: strlen_def)
  ultimately show ?thesis using m'(1) frame by blast
qed

theorem strcpy_copies_string_witness:
  "\<exists>m'. strcpy ((\<lambda>_. 0)(0 := 104, 1 := 105)) 16 0 = Some m' \<and> strcmp m' 16 0 = Some 0"
proof -
  have "(16 :: u64) + of_nat i \<noteq> 0 + of_nat j" if "i \<le> 2" "j \<le> 2" for i j
  proof -
    from that have "i \<in> {0, 1, 2}" "j \<in> {0, 1, 2}" by auto
    then show ?thesis by auto
  qed
  then show ?thesis
    using strcpy_copies_string [of "(\<lambda>_. 0)(0 := 104, 1 := 105)" 0 "[104, 105]" 16] by auto
qed

text \<open>
  \<^verbatim>\<open>memcpy\<close> on ranges that do not overlap: the destination holds the source's bytes and no
  other byte has changed.
\<close>
theorem memcpy_copies:
  assumes "len \<le> 2 ^ 64" and "\<And>a b. a < len \<Longrightarrow> b < len \<Longrightarrow> d + of_nat a \<noteq> s + of_nat b"
  shows "(\<forall>k < len. memcpy m d s len (d + of_nat k) = m (s + of_nat k))
     \<and> (\<forall>a. (\<forall>k < len. d + of_nat k \<noteq> a) \<longrightarrow> memcpy m d s len a = m a)"
  using memcpy_loop_copies [OF _ _ assms] memcpy_loop_frame [of 0 len d _ m s]
  by (simp add: memcpy_def)

theorem memcpy_copies_witness:
  "memcpy (\<lambda>a. ucast a) 32 8 2 33 = 9 \<and> memcpy (\<lambda>a. ucast a) 32 8 2 7 = 7"
proof -
  have ap: "(32 :: u64) + of_nat a \<noteq> 8 + of_nat b" if "a < 2" "b < 2" for a b
    using that by (auto simp: less_2_cases_iff)
  have c: "\<forall>k < 2. memcpy (\<lambda>a. ucast a) 32 8 2 (32 + of_nat k) = ucast ((8 :: u64) + of_nat k)"
    "\<forall>a. (\<forall>k < 2. (32 :: u64) + of_nat k \<noteq> a) \<longrightarrow> memcpy (\<lambda>a. ucast a) 32 8 2 a = ucast a"
    using memcpy_copies [of 2 32 8 "\<lambda>a. ucast a", OF _ ap] by simp_all
  have "(32 :: u64) + of_nat k \<noteq> 7" if "k < 2" for k using that by (auto simp: less_2_cases_iff)
  then show ?thesis using c(1) [rule_format, of "Suc 0"] c(2) [rule_format, of 7] by simp
qed

end
