(* ===== verification/KHashMap.thy ===== *)
theory KHashMap
  imports MemUtil
begin

text \<open>
  The chained hash table \<^verbatim>\<open>HashMap<K, V, Trait>\<close> of \<^verbatim>\<open>kernel/lib/hash_map.h\<close> and its
  key traits. The bucket array is a list with one chain per bucket, a chain is
  the list of the entries reached through \<open>next\<close>, in that order; prepending an
  entry is \<open>Cons\<close>, unlinking one removes it from its chain. Capacities and counts
  are naturals, the hash arithmetic is at 64 bits.
\<close>

section \<open>Key traits\<close>

record 'k trait =
  t_hash :: "'k \<Rightarrow> nat \<Rightarrow> nat"
  t_eq :: "'k \<Rightarrow> 'k \<Rightarrow> bool"

definition trait_shift :: "nat \<Rightarrow> nat" where
  "trait_shift sz = (if sz \<ge> 8 then 3 else if sz \<ge> 4 then 2 else if sz \<ge> 2 then 1 else 0)"

definition hash_generic :: "nat \<Rightarrow> u64 \<Rightarrow> nat \<Rightarrow> nat" where
  "hash_generic sz key capacity =
     unat (drop_bit (trait_shift sz) key * 11400714819323198485) mod capacity"

definition trait_generic :: "nat \<Rightarrow> u64 trait" where
  "trait_generic sz = \<lparr>t_hash = hash_generic sz, t_eq = (\<lambda>a b. a = b)\<rparr>"

definition hash_u32 :: "u32 \<Rightarrow> nat \<Rightarrow> nat" where
  "hash_u32 key capacity = unat ((ucast key :: u64) * 2654435761) mod capacity"

definition trait_u32 :: "u32 trait" where
  "trait_u32 = \<lparr>t_hash = hash_u32, t_eq = (\<lambda>a b. a = b)\<rparr>"

definition hash_u64 :: "u64 \<Rightarrow> nat \<Rightarrow> nat" where
  "hash_u64 key capacity =
     (let k1 = (key XOR drop_bit 30 key) * 0xbf58476d1ce4e5b9;
          k2 = (k1 XOR drop_bit 27 k1) * 0x94d049bb133111eb;
          k3 = k2 XOR drop_bit 31 k2
      in unat k3 mod capacity)"

definition trait_u64 :: "u64 trait" where
  "trait_u64 = \<lparr>t_hash = hash_u64, t_eq = (\<lambda>a b. a = b)\<rparr>"

text \<open>
  The \<^verbatim>\<open>char*\<close> trait runs over a C string in memory; on the bytes of the string
  its loop is \<open>djb2\<close>. The trait itself takes the string store as a parameter:
  \<open>str p\<close> is the string that the pointer \<open>p\<close> currently leads to.
\<close>

partial_function (option) hash_cstr_loop :: "mem \<Rightarrow> u64 \<Rightarrow> u64 \<Rightarrow> u64 option" where
  "hash_cstr_loop m h key =
     (if m key \<noteq> 0
      then hash_cstr_loop m ((push_bit 5 h + h) XOR ucast (m key)) (key + 1)
      else Some h)"

primrec djb2 :: "u64 \<Rightarrow> u8 list \<Rightarrow> u64" where
  "djb2 h [] = h"
| "djb2 h (c # cs) = djb2 ((push_bit 5 h + h) XOR ucast c) cs"

lemma hash_cstr_loop_djb2:
  "cstr m key cs \<Longrightarrow> hash_cstr_loop m h key = Some (djb2 h cs)"
  by (induction cs arbitrary: h key) (simp_all add: hash_cstr_loop.simps)

definition trait_cstr :: "('p \<Rightarrow> u8 list) \<Rightarrow> 'p trait" where
  "trait_cstr str =
     \<lparr>t_hash = (\<lambda>key capacity. unat (djb2 5381 (str key)) mod capacity),
      t_eq = (\<lambda>a b. str a = str b)\<rparr>"

section \<open>The table and its operations\<close>

record ('k, 'v) hashmap =
  hm_entries :: "('k \<times> 'v) list list"
  hm_capacity :: nat
  hm_count :: nat

definition HashMap_ctor :: "nat \<Rightarrow> ('k, 'v) hashmap" where
  "HashMap_ctor capacity =
     \<lparr>hm_entries = replicate capacity [], hm_capacity = capacity, hm_count = 0\<rparr>"

primrec chain_find :: "('k \<Rightarrow> 'k \<Rightarrow> bool) \<Rightarrow> 'k \<Rightarrow> ('k \<times> 'v) list \<Rightarrow> 'v option" where
  "chain_find eq key [] = None"
| "chain_find eq key (e # es) = (if eq (fst e) key then Some (snd e) else chain_find eq key es)"

primrec chain_erase :: "('k \<Rightarrow> 'k \<Rightarrow> bool) \<Rightarrow> 'k \<Rightarrow> ('k \<times> 'v) list \<Rightarrow> ('k \<times> 'v) list" where
  "chain_erase eq key [] = []"
| "chain_erase eq key (e # es) = (if eq (fst e) key then es else e # chain_erase eq key es)"

primrec chain_assign ::
  "('k \<Rightarrow> 'k \<Rightarrow> bool) \<Rightarrow> 'k \<Rightarrow> 'v \<Rightarrow> ('k \<times> 'v) list \<Rightarrow> ('k \<times> 'v) list" where
  "chain_assign eq key v [] = []"
| "chain_assign eq key v (e # es) =
     (if eq (fst e) key then (fst e, v) # es else e # chain_assign eq key v es)"

definition hm_bucket :: "string \<Rightarrow> ('k, 'v) hashmap \<Rightarrow> nat \<Rightarrow> ('k \<times> 'v) list res" where
  "hm_bucket msg m index =
     (if index \<ge> length (hm_entries m) then Inl (Panic msg) else Inr (hm_entries m ! index))"

abbreviation vector_at_msg :: string where
  "vector_at_msg \<equiv> ''Vector::at(): index out of bounds''"

abbreviation vector_index_msg :: string where
  "vector_index_msg \<equiv> ''Vector::operator[](): index out of bounds''"

definition hm_at :: "'k trait \<Rightarrow> ('k, 'v) hashmap \<Rightarrow> 'k \<Rightarrow> 'v res" where
  "hm_at tr m key =
     bindE (hm_bucket vector_at_msg m (t_hash tr key (hm_capacity m)))
       (\<lambda>es. case chain_find (t_eq tr) key es of
               Some v \<Rightarrow> Inr v
             | None \<Rightarrow> Inl (Panic ''HashMap::at(): key not found''))"

definition hm_index :: "'k trait \<Rightarrow> ('k, 'v) hashmap \<Rightarrow> 'k \<Rightarrow> 'v res" where
  "hm_index tr m key =
     bindE (hm_bucket vector_index_msg m (t_hash tr key (hm_capacity m)))
       (\<lambda>es. case chain_find (t_eq tr) key es of
               Some v \<Rightarrow> Inr v
             | None \<Rightarrow> Inl (Panic ''HashMap::operator[](): key not found''))"

text \<open>\<open>m[key] = v\<close>: the reference returned by \<^verbatim>\<open>operator[]\<close> is assigned through.\<close>

definition hm_assign :: "'k trait \<Rightarrow> ('k, 'v) hashmap \<Rightarrow> 'k \<Rightarrow> 'v \<Rightarrow> ('k, 'v) hashmap res" where
  "hm_assign tr m key v =
     bindE (hm_index tr m key)
       (\<lambda>_. let i = t_hash tr key (hm_capacity m) in
            Inr (m\<lparr>hm_entries := (hm_entries m)[i := chain_assign (t_eq tr) key v (hm_entries m ! i)]\<rparr>))"

definition rehash_put ::
  "'k trait \<Rightarrow> nat \<Rightarrow> ('k \<times> 'v) list list \<Rightarrow> 'k \<times> 'v \<Rightarrow> ('k \<times> 'v) list list" where
  "rehash_put tr newCapacity table e =
     (let newIndex = t_hash tr (fst e) newCapacity
      in table[newIndex := e # table ! newIndex])"

definition rehash :: "'k trait \<Rightarrow> ('k, 'v) hashmap \<Rightarrow> ('k, 'v) hashmap" where
  "rehash tr m =
     (let newCapacity = hm_capacity m * 2;
          newTable = foldl (foldl (rehash_put tr newCapacity))
                       (replicate newCapacity []) (hm_entries m)
      in m\<lparr>hm_entries := newTable, hm_capacity := newCapacity\<rparr>)"

definition hm_insert :: "'k trait \<Rightarrow> ('k, 'v) hashmap \<Rightarrow> 'k \<Rightarrow> 'v \<Rightarrow> ('k, 'v) hashmap res" where
  "hm_insert tr m key value =
     (let m1 = (if (hm_count m + 1) * 4 > hm_capacity m * 3 then rehash tr m else m);
          index = t_hash tr key (hm_capacity m1)
      in bindE (hm_bucket vector_index_msg m1 index)
           (\<lambda>es. if chain_find (t_eq tr) key es \<noteq> None
                 then Inl (Panic ''HashMap::insert(): key already inside'')
                 else Inr (m1\<lparr>hm_entries := (hm_entries m1)[index := (key, value) # es],
                              hm_count := hm_count m1 + 1\<rparr>)))"

definition hm_erase :: "'k trait \<Rightarrow> ('k, 'v) hashmap \<Rightarrow> 'k \<Rightarrow> ('k, 'v) hashmap res" where
  "hm_erase tr m key =
     (let index = t_hash tr key (hm_capacity m)
      in bindE (hm_bucket vector_index_msg m index)
           (\<lambda>es. if chain_find (t_eq tr) key es = None
                 then Inl (Panic ''HashMap::erase(): key not found'')
                 else Inr (m\<lparr>hm_entries := (hm_entries m)[index := chain_erase (t_eq tr) key es],
                             hm_count := hm_count m - 1\<rparr>)))"

definition hm_clear :: "('k, 'v) hashmap \<Rightarrow> ('k, 'v) hashmap" where
  "hm_clear m = m\<lparr>hm_entries := map (\<lambda>_. []) (hm_entries m), hm_count := 0\<rparr>"

definition hm_contains :: "'k trait \<Rightarrow> ('k, 'v) hashmap \<Rightarrow> 'k \<Rightarrow> bool res" where
  "hm_contains tr m key =
     bindE (hm_bucket vector_at_msg m (t_hash tr key (hm_capacity m)))
       (\<lambda>es. Inr (chain_find (t_eq tr) key es \<noteq> None))"

text \<open>
  An iterator is its bucket index and the entries from the current one on;
  the end iterator has index \<open>m_capacity\<close> and no entry.
\<close>

function hm_scan :: "('k, 'v) hashmap \<Rightarrow> nat \<Rightarrow> nat \<times> ('k \<times> 'v) list" where
  "hm_scan m i =
     (if i < hm_capacity m
      then if hm_entries m ! i \<noteq> [] then (i, hm_entries m ! i) else hm_scan m (i + 1)
      else (i, []))"
  by auto
termination by (relation "measure (\<lambda>(m, i). hm_capacity m - i)") auto

definition hm_begin :: "('k, 'v) hashmap \<Rightarrow> nat \<times> ('k \<times> 'v) list" where
  "hm_begin m = hm_scan m 0"

definition hm_next ::
  "('k, 'v) hashmap \<Rightarrow> nat \<times> ('k \<times> 'v) list \<Rightarrow> nat \<times> ('k \<times> 'v) list" where
  "hm_next m it =
     (case it of
        (i, []) \<Rightarrow> (i, [])
      | (i, e # es) \<Rightarrow> if es \<noteq> [] then (i, es) else hm_scan m (i + 1))"

declare hm_scan.simps [simp del]

section \<open>What a trait must satisfy\<close>

locale hash_trait =
  fixes tr :: "'k trait"
  assumes eq_refl: "t_eq tr a a"
    and eq_sym: "t_eq tr a b \<Longrightarrow> t_eq tr b a"
    and eq_trans: "t_eq tr a b \<Longrightarrow> t_eq tr b c \<Longrightarrow> t_eq tr a c"
    and hash_cong: "t_eq tr a b \<Longrightarrow> t_hash tr a cap = t_hash tr b cap"
    and hash_less: "0 < cap \<Longrightarrow> t_hash tr a cap < cap"

interpretation generic_tr: hash_trait "trait_generic sz" for sz
  by unfold_locales (auto simp: trait_generic_def hash_generic_def)

interpretation u32_tr: hash_trait trait_u32
  by unfold_locales (auto simp: trait_u32_def hash_u32_def)

interpretation u64_tr: hash_trait trait_u64
  by unfold_locales (auto simp: trait_u64_def hash_u64_def Let_def)

interpretation cstr_tr: hash_trait "trait_cstr str" for str
  by unfold_locales (auto simp: trait_cstr_def)

section \<open>Well-formed tables\<close>

text \<open>No two entries of a chain have equal keys.\<close>

definition keys_apart :: "'k trait \<Rightarrow> ('k \<times> 'v) list \<Rightarrow> bool" where
  "keys_apart tr = sorted_wrt (\<lambda>a b. \<not> t_eq tr (fst a) (fst b))"

definition hm_inv :: "'k trait \<Rightarrow> ('k, 'v) hashmap \<Rightarrow> bool" where
  "hm_inv tr m \<longleftrightarrow>
     0 < hm_capacity m \<and> length (hm_entries m) = hm_capacity m
     \<and> hm_count m = sum_list (map length (hm_entries m))
     \<and> hm_count m * 4 \<le> hm_capacity m * 3
     \<and> (\<forall>i < hm_capacity m. keys_apart tr (hm_entries m ! i)
          \<and> (\<forall>e \<in> set (hm_entries m ! i). t_hash tr (fst e) (hm_capacity m) = i))"

text \<open>The abstract value of a table: the partial function it stores.\<close>

definition hm_lookup :: "'k trait \<Rightarrow> ('k, 'v) hashmap \<Rightarrow> 'k \<Rightarrow> 'v option" where
  "hm_lookup tr m key =
     chain_find (t_eq tr) key (hm_entries m ! t_hash tr key (hm_capacity m))"

abbreviation hm_all :: "('k, 'v) hashmap \<Rightarrow> ('k \<times> 'v) set" where
  "hm_all m \<equiv> \<Union> (set ` set (hm_entries m))"

lemma set_list_update_split:
  "i < length xs \<Longrightarrow> set (xs[i := x]) = insert x (set (take i xs) \<union> set (drop (Suc i) xs))"
  by (simp add: upd_conv_take_nth_drop)

lemma sum_list_length_update:
  "i < length xs \<Longrightarrow>
   sum_list (map length (xs[i := x])) + length (xs ! i) = sum_list (map length xs) + length x"
proof (induction xs arbitrary: i)
  case (Cons y ys)
  then show ?case by (cases i) auto
qed simp

lemma chain_find_in: "chain_find eq key es = Some v \<Longrightarrow> \<exists>k. (k, v) \<in> set es \<and> eq k key"
  by (induction es) (auto split: if_splits)

lemma chain_find_None: "chain_find eq key es = None \<longleftrightarrow> (\<forall>e \<in> set es. \<not> eq (fst e) key)"
  by (induction es) auto

lemma length_chain_erase:
  "chain_find eq key es \<noteq> None \<Longrightarrow> Suc (length (chain_erase eq key es)) = length es"
  by (induction es) auto

lemma set_chain_erase_subset: "set (chain_erase eq key es) \<subseteq> set es"
  by (induction es) auto

context hash_trait begin

lemma keys_apart_simps [simp]:
  "keys_apart tr []"
  "keys_apart tr (e # es) \<longleftrightarrow> (\<forall>e' \<in> set es. \<not> t_eq tr (fst e) (fst e')) \<and> keys_apart tr es"
  by (auto simp: keys_apart_def)

lemma keys_apart_append:
  "keys_apart tr (xs @ ys) \<longleftrightarrow> keys_apart tr xs \<and> keys_apart tr ys
     \<and> (\<forall>a \<in> set xs. \<forall>b \<in> set ys. \<not> t_eq tr (fst a) (fst b))"
  by (auto simp: keys_apart_def sorted_wrt_append)

lemma keys_apart_rev: "keys_apart tr (rev xs) = keys_apart tr xs"
  by (induction xs) (auto simp: keys_apart_append dest: eq_sym)

lemma keys_apart_filter: "keys_apart tr xs \<Longrightarrow> keys_apart tr (filter P xs)"
  by (induction xs) auto

lemma chain_find_iff:
  assumes "keys_apart tr es"
  shows "chain_find (t_eq tr) key es = Some v \<longleftrightarrow> (\<exists>k. (k, v) \<in> set es \<and> t_eq tr k key)"
  using assms
proof (induction es)
  case (Cons e es)
  show ?case
  proof (cases "t_eq tr (fst e) key")
    case True
    have "\<not> t_eq tr k key" if "(k, w) \<in> set es" for k w
    proof -
      have "\<not> t_eq tr (fst e) k" using Cons.prems that by force
      then show ?thesis using eq_trans [OF True eq_sym [of k key]] by blast
    qed
    with True show ?thesis by (cases e) auto
  next
    case False
    with Cons show ?thesis by (cases e) auto
  qed
qed simp

lemma chain_erase_set:
  "keys_apart tr es \<Longrightarrow>
   keys_apart tr (chain_erase (t_eq tr) key es) \<and>
   set (chain_erase (t_eq tr) key es) = {e \<in> set es. \<not> t_eq tr (fst e) key}"
proof (induction es)
  case (Cons e es)
  show ?case
  proof (cases "t_eq tr (fst e) key")
    case True
    have "\<not> t_eq tr (fst e') key" if "e' \<in> set es" for e'
    proof -
      have "\<not> t_eq tr (fst e) (fst e')" using Cons.prems that by simp
      then show ?thesis using eq_trans [OF True eq_sym [of "fst e'" key]] by blast
    qed
    with True Cons.prems show ?thesis by auto
  next
    case False
    with Cons set_chain_erase_subset [of "t_eq tr" key es] show ?thesis by auto
  qed
qed simp

lemma hm_lookup_iff:
  assumes "hm_inv tr m"
  shows "hm_lookup tr m key = Some v \<longleftrightarrow> (\<exists>k. (k, v) \<in> hm_all m \<and> t_eq tr k key)"
proof -
  let ?i = "t_hash tr key (hm_capacity m)"
  have i: "?i < hm_capacity m" "?i < length (hm_entries m)"
    using assms hash_less by (auto simp: hm_inv_def)
  have "hm_lookup tr m key = Some v \<longleftrightarrow> (\<exists>k. (k, v) \<in> set (hm_entries m ! ?i) \<and> t_eq tr k key)"
    using assms i by (simp add: hm_lookup_def chain_find_iff hm_inv_def)
  also have "\<dots> \<longleftrightarrow> (\<exists>k. (k, v) \<in> hm_all m \<and> t_eq tr k key)"
  proof
    assume "\<exists>k. (k, v) \<in> hm_all m \<and> t_eq tr k key"
    then obtain k b where kb: "b \<in> set (hm_entries m)" "(k, v) \<in> set b" "t_eq tr k key" by auto
    then obtain j where j: "j < length (hm_entries m)" "b = hm_entries m ! j"
      by (auto simp: in_set_conv_nth)
    then have "t_hash tr k (hm_capacity m) = j" using assms kb by (fastforce simp: hm_inv_def)
    then have "j = ?i" using hash_cong [OF kb(3)] by simp
    with kb j show "\<exists>k. (k, v) \<in> set (hm_entries m ! ?i) \<and> t_eq tr k key" by auto
  qed (use nth_mem [OF i(2)] in blast)
  finally show ?thesis .
qed

lemma hm_lookup_cong:
  assumes "hm_inv tr m" and "hm_inv tr m'" and "hm_all m = hm_all m'"
  shows "hm_lookup tr m = hm_lookup tr m'"
proof
  fix key
  show "hm_lookup tr m key = hm_lookup tr m' key"
    by (rule option_eqI) (simp add: hm_lookup_iff assms)
qed

lemma hm_bucket_ok:
  assumes "hm_inv tr m"
  shows "hm_bucket msg m (t_hash tr key (hm_capacity m)) =
         Inr (hm_entries m ! t_hash tr key (hm_capacity m))"
  using assms hash_less by (auto simp: hm_bucket_def hm_inv_def not_le)

lemma hm_contains_ok:
  "hm_inv tr m \<Longrightarrow> hm_contains tr m key = Inr (hm_lookup tr m key \<noteq> None)"
  by (simp add: hm_contains_def hm_bucket_ok hm_lookup_def)

lemma hm_index_ok:
  "hm_inv tr m \<Longrightarrow> hm_index tr m key =
     (case hm_lookup tr m key of Some v \<Rightarrow> Inr v
      | None \<Rightarrow> Inl (Panic ''HashMap::operator[](): key not found''))"
  by (simp add: hm_index_def hm_bucket_ok hm_lookup_def)

lemma hm_at_ok:
  "hm_inv tr m \<Longrightarrow> hm_at tr m key =
     (case hm_lookup tr m key of Some v \<Rightarrow> Inr v
      | None \<Rightarrow> Inl (Panic ''HashMap::at(): key not found''))"
  by (simp add: hm_at_def hm_bucket_ok hm_lookup_def)

lemma hm_lookup_respects:
  assumes "hm_inv tr m" and "t_eq tr a b"
  shows "hm_lookup tr m a = hm_lookup tr m b"
proof (rule option_eqI)
  fix v
  have "(\<exists>k. (k, v) \<in> hm_all m \<and> t_eq tr k a) \<longleftrightarrow> (\<exists>k. (k, v) \<in> hm_all m \<and> t_eq tr k b)"
    using assms(2) eq_sym eq_trans by blast
  then show "hm_lookup tr m a = Some v \<longleftrightarrow> hm_lookup tr m b = Some v"
    by (simp only: hm_lookup_iff [OF assms(1)])
qed

lemma ctor_inv: "0 < cap \<Longrightarrow> hm_inv tr (HashMap_ctor cap)"
  by (simp add: hm_inv_def HashMap_ctor_def)

lemma ctor_lookup: "0 < cap \<Longrightarrow> hm_lookup tr (HashMap_ctor cap) key = None"
  using hash_less by (simp add: hm_lookup_def HashMap_ctor_def)

text \<open>Replacing one bucket of a table keeps the chains of all the others.\<close>

lemma hm_inv_bucket:
  assumes m: "hm_inv tr m" and i: "i < hm_capacity m"
    and es: "keys_apart tr es" "\<forall>e \<in> set es. t_hash tr (fst e) (hm_capacity m) = i"
    and n: "n + length (hm_entries m ! i) = hm_count m + length es"
    and load: "n * 4 \<le> hm_capacity m * 3"
  shows "hm_inv tr (m\<lparr>hm_entries := (hm_entries m)[i := es], hm_count := n\<rparr>)"
  using m i es n load sum_list_length_update [of i "hm_entries m" es]
  by (auto simp: hm_inv_def nth_list_update)

section \<open>Rehashing\<close>

lemma rehash_put_length [simp]:
  "length (foldl (rehash_put tr n) t es) = length t"
  by (induction es arbitrary: t) (simp_all add: rehash_put_def Let_def)

lemma rehash_fold_concat:
  "foldl (foldl (rehash_put tr n)) t bs = foldl (rehash_put tr n) t (concat bs)"
  by (induction bs arbitrary: t) simp_all

lemma rehash_put_bucket:
  assumes "0 < n"
  shows "length t = n \<Longrightarrow> i < n \<Longrightarrow> foldl (rehash_put tr n) t es ! i =
           rev (filter (\<lambda>e. t_hash tr (fst e) n = i) es) @ t ! i"
proof (induction es arbitrary: t)
  case (Cons e es)
  have "t_hash tr (fst e) n < n" using assms by (rule hash_less)
  with Cons show ?case by (simp add: rehash_put_def Let_def nth_list_update)
qed simp

lemma rehash_put_count:
  assumes "0 < n"
  shows "length t = n \<Longrightarrow>
    sum_list (map length (foldl (rehash_put tr n) t es)) = sum_list (map length t) + length es"
proof (induction es arbitrary: t)
  case (Cons e es)
  have "t_hash tr (fst e) n < length t" using assms hash_less Cons.prems by simp
  from sum_list_length_update [OF this, of "e # t ! t_hash tr (fst e) n"] Cons
  show ?case by (simp add: rehash_put_def Let_def)
qed simp

lemma keys_apart_concat:
  "(\<And>i. i < length bs \<Longrightarrow> keys_apart tr (bs ! i)) \<Longrightarrow>
   (\<And>i e. i < length bs \<Longrightarrow> e \<in> set (bs ! i) \<Longrightarrow> t_hash tr (fst e) cap = i + j) \<Longrightarrow>
   keys_apart tr (concat bs)"
proof (induction bs arbitrary: j)
  case (Cons b bs)
  have "keys_apart tr (concat bs)"
  proof (rule Cons.IH [of "Suc j"])
    show "keys_apart tr (bs ! i)" if "i < length bs" for i
      using Cons.prems(1) [of "Suc i"] that by simp
    show "t_hash tr (fst e) cap = i + Suc j" if "i < length bs" "e \<in> set (bs ! i)" for i e
      using Cons.prems(2) [of "Suc i" e] that by simp
  qed
  moreover have "keys_apart tr b" using Cons.prems(1) [of 0] by simp
  moreover have "\<not> t_eq tr (fst e) (fst e')" if e: "e \<in> set b" and e': "e' \<in> set (concat bs)" for e e'
  proof -
    obtain b' where "b' \<in> set bs" "e' \<in> set b'" using e' by auto
    then obtain k where "k < length bs" "e' \<in> set (bs ! k)" by (metis in_set_conv_nth)
    then have "t_hash tr (fst e') cap = Suc k + j" using Cons.prems(2) [of "Suc k" e'] by simp
    moreover have "t_hash tr (fst e) cap = j" using Cons.prems(2) [of 0 e] e by simp
    ultimately show ?thesis using hash_cong [of "fst e" "fst e'" cap] by auto
  qed
  ultimately show ?case by (simp add: keys_apart_append)
qed simp

lemma keys_apart_all: "hm_inv tr m \<Longrightarrow> keys_apart tr (concat (hm_entries m))"
  by (rule keys_apart_concat [of _ "hm_capacity m" 0]) (auto simp: hm_inv_def)


lemma rehash_entries:
  "hm_entries (rehash tr m) =
     foldl (rehash_put tr (hm_capacity m * 2)) (replicate (hm_capacity m * 2) [])
       (concat (hm_entries m))"
  by (simp add: rehash_def Let_def rehash_fold_concat)

lemma rehash_fields [simp]:
  "hm_capacity (rehash tr m) = hm_capacity m * 2" "hm_count (rehash tr m) = hm_count m"
  by (simp_all add: rehash_def Let_def)

lemma rehash_bucket:
  assumes "0 < hm_capacity m" and "i < hm_capacity m * 2"
  shows "hm_entries (rehash tr m) ! i =
         rev (filter (\<lambda>e. t_hash tr (fst e) (hm_capacity m * 2) = i) (concat (hm_entries m)))"
  unfolding rehash_entries using assms by (subst rehash_put_bucket) auto

lemma rehash_inv:
  assumes "hm_inv tr m"
  shows "hm_inv tr (rehash tr m)"
proof -
  have cap: "0 < hm_capacity m" using assms by (simp add: hm_inv_def)
  have "sum_list (map length (hm_entries (rehash tr m))) = hm_count m"
    using assms cap
    by (simp add: rehash_entries rehash_put_count hm_inv_def length_concat sum_list_replicate)
  then show ?thesis
    using assms cap keys_apart_all [OF assms]
    by (auto simp: hm_inv_def rehash_bucket keys_apart_rev keys_apart_filter)
      (simp add: rehash_entries)
qed

lemma rehash_all:
  assumes "hm_inv tr m"
  shows "hm_all (rehash tr m) = hm_all m"
proof -
  let ?n = "hm_capacity m * 2"
  have cap: "0 < hm_capacity m" using assms by (simp add: hm_inv_def)
  have len: "length (hm_entries (rehash tr m)) = ?n" by (simp add: rehash_entries)
  have bucket: "e \<in> set (hm_entries (rehash tr m) ! i) \<longleftrightarrow>
      e \<in> hm_all m \<and> t_hash tr (fst e) ?n = i" if "i < ?n" for e i
    using that cap by (auto simp: rehash_bucket)
  have less: "t_hash tr (fst e) ?n < ?n" for e using hash_less cap by simp
  show ?thesis
  proof (rule set_eqI)
    fix e
    have "e \<in> hm_all (rehash tr m) \<longleftrightarrow> (\<exists>i < ?n. e \<in> set (hm_entries (rehash tr m) ! i))"
      using len by (metis (no_types, lifting) UN_iff in_set_conv_nth)
    also have "\<dots> \<longleftrightarrow> e \<in> hm_all m" using bucket less by blast
    finally show "e \<in> hm_all (rehash tr m) \<longleftrightarrow> e \<in> hm_all m" .
  qed
qed

lemma rehash_lookup: "hm_inv tr m \<Longrightarrow> hm_lookup tr (rehash tr m) = hm_lookup tr m"
  by (rule hm_lookup_cong) (simp_all add: rehash_inv rehash_all)

section \<open>Insert, erase, assign, clear\<close>

lemma hm_lookup_bucket:
  assumes "i < length (hm_entries m)" and "i = t_hash tr key (hm_capacity m)"
  shows "hm_lookup tr (m\<lparr>hm_entries := (hm_entries m)[i := es], hm_count := n\<rparr>) key' =
    (if t_hash tr key' (hm_capacity m) = i then chain_find (t_eq tr) key' es
     else hm_lookup tr m key')"
  using assms by (simp add: hm_lookup_def nth_list_update)

lemma insert_present:
  assumes "hm_inv tr m" and "hm_lookup tr m key \<noteq> None"
  shows "hm_insert tr m key v = Inl (Panic ''HashMap::insert(): key already inside'')"
proof -
  have 1: "chain_find (t_eq tr) key (hm_entries m ! t_hash tr key (hm_capacity m)) \<noteq> None"
    using assms(2) by (simp add: hm_lookup_def)
  have "hm_lookup tr (rehash tr m) key \<noteq> None" using assms by (simp add: rehash_lookup)
  then have 2: "chain_find (t_eq tr) key
      (hm_entries (rehash tr m) ! t_hash tr key (hm_capacity m * 2)) \<noteq> None"
    by (simp add: hm_lookup_def)
  show ?thesis
    using assms 1 2 hm_bucket_ok [OF rehash_inv [OF assms(1)], of vector_index_msg key]
    by (auto simp: hm_insert_def Let_def hm_bucket_ok)
qed

lemma insert_fresh_aux:
  assumes m: "hm_inv tr m" and new: "hm_lookup tr m key = None"
    and load: "(hm_count m + 1) * 4 \<le> hm_capacity m * 3"
    and i: "i = t_hash tr key (hm_capacity m)"
    and m': "m' = m\<lparr>hm_entries := (hm_entries m)[i := (key, v) # hm_entries m ! i],
                    hm_count := hm_count m + 1\<rparr>"
  shows "hm_inv tr m' \<and>
         hm_lookup tr m' = (\<lambda>k. if t_eq tr key k then Some v else hm_lookup tr m k)"
proof -
  have li: "i < hm_capacity m" "i < length (hm_entries m)"
    using m i hash_less by (auto simp: hm_inv_def)
  have apart: "\<forall>e \<in> set (hm_entries m ! i). \<not> t_eq tr (fst e) key"
    using new i by (simp add: hm_lookup_def chain_find_None)
  have "hm_inv tr m'"
    unfolding m'
  proof (rule hm_inv_bucket [OF m li(1)])
    show "keys_apart tr ((key, v) # hm_entries m ! i)"
      using m li apart eq_sym by (fastforce simp: hm_inv_def)
  qed (use m li i load in \<open>auto simp: hm_inv_def\<close>)
  moreover have "hm_lookup tr m' k = (if t_eq tr key k then Some v else hm_lookup tr m k)" for k
    using li i hash_cong [of key k "hm_capacity m"]
    unfolding m' by (auto simp: hm_lookup_bucket) (auto simp: hm_lookup_def)
  ultimately show ?thesis by blast
qed

lemma insert_fresh:
  assumes "hm_inv tr m" and "hm_lookup tr m key = None"
  shows "\<exists>m'. hm_insert tr m key v = Inr m' \<and> hm_inv tr m' \<and> hm_count m' = hm_count m + 1
           \<and> hm_lookup tr m' = (\<lambda>k. if t_eq tr key k then Some v else hm_lookup tr m k)"
proof (cases "(hm_count m + 1) * 4 > hm_capacity m * 3")
  case True
  let ?r = "rehash tr m"
  have r: "hm_inv tr ?r" "hm_lookup tr ?r = hm_lookup tr m"
    using assms rehash_inv rehash_lookup by auto
  have "hm_count m * 4 \<le> hm_capacity m * 3" "0 < hm_capacity m"
    using assms by (simp_all add: hm_inv_def)
  then have "(hm_count ?r + 1) * 4 \<le> hm_capacity ?r * 3"
    unfolding rehash_fields by presburger
  from insert_fresh_aux [OF r(1) _ this refl refl, of key v] show ?thesis
    using True r assms(2) hm_bucket_ok [OF r(1), of vector_index_msg key]
    by (simp add: hm_insert_def Let_def hm_lookup_def fun_eq_iff)
next
  case False
  then have "(hm_count m + 1) * 4 \<le> hm_capacity m * 3" by simp
  from insert_fresh_aux [OF assms this refl refl, of v] show ?thesis
    using False assms hm_bucket_ok [OF assms(1), of vector_index_msg key]
    by (simp add: hm_insert_def Let_def hm_lookup_def)
qed

lemma erase_absent:
  "hm_inv tr m \<Longrightarrow> hm_lookup tr m key = None \<Longrightarrow>
   hm_erase tr m key = Inl (Panic ''HashMap::erase(): key not found'')"
  by (simp add: hm_erase_def hm_bucket_ok hm_lookup_def Let_def)

lemma erase_present:
  assumes m: "hm_inv tr m" and old: "hm_lookup tr m key \<noteq> None"
  shows "\<exists>m'. hm_erase tr m key = Inr m' \<and> hm_inv tr m' \<and> hm_count m = hm_count m' + 1
           \<and> hm_lookup tr m' = (\<lambda>k. if t_eq tr key k then None else hm_lookup tr m k)"
proof -
  define i where "i = t_hash tr key (hm_capacity m)"
  define es where "es = chain_erase (t_eq tr) key (hm_entries m ! i)"
  define m' where "m' = m\<lparr>hm_entries := (hm_entries m)[i := es], hm_count := hm_count m - 1\<rparr>"
  have li: "i < hm_capacity m" "i < length (hm_entries m)"
    using m hash_less by (auto simp: hm_inv_def i_def)
  have ap: "keys_apart tr (hm_entries m ! i)"
    "\<forall>e \<in> set (hm_entries m ! i). t_hash tr (fst e) (hm_capacity m) = i"
    using m li by (auto simp: hm_inv_def)
  have len: "Suc (length es) = length (hm_entries m ! i)"
    using old by (simp add: es_def i_def hm_lookup_def length_chain_erase)
  have "length (hm_entries m ! i) \<le> hm_count m"
    using m li elem_le_sum_list [of i "map length (hm_entries m)"] by (simp add: hm_inv_def)
  then have cnt: "0 < hm_count m" using len by simp
  have es: "keys_apart tr es" "set es = {e \<in> set (hm_entries m ! i). \<not> t_eq tr (fst e) key}"
    using chain_erase_set [OF ap(1), of key] by (simp_all add: es_def)
  have inv: "hm_inv tr m'"
    unfolding m'_def
    by (rule hm_inv_bucket [OF m li(1) es(1)]) (use ap es len cnt m in \<open>auto simp: hm_inv_def\<close>)
  have same: "t_eq tr a k \<Longrightarrow> t_eq tr a key \<longleftrightarrow> t_eq tr key k" for a k
    using eq_sym eq_trans by meson
  have "hm_lookup tr m' k = (if t_eq tr key k then None else hm_lookup tr m k)" for k
  proof (rule option_eqI)
    fix v
    have "chain_find (t_eq tr) k es = Some v \<longleftrightarrow>
          \<not> t_eq tr key k \<and> chain_find (t_eq tr) k (hm_entries m ! i) = Some v"
      unfolding chain_find_iff [OF es(1)] chain_find_iff [OF ap(1)] es(2)
      using same by auto
    then show "hm_lookup tr m' k = Some v \<longleftrightarrow>
               (if t_eq tr key k then None else hm_lookup tr m k) = Some v"
      using li hash_cong [of key k "hm_capacity m"]
      unfolding m'_def by (auto simp: hm_lookup_bucket i_def) (auto simp: hm_lookup_def)
  qed
  moreover have "hm_erase tr m key = Inr m'"
    using m old by (simp add: hm_erase_def hm_bucket_ok hm_lookup_def Let_def m'_def es_def i_def)
  moreover have "hm_count m = hm_count m' + 1" using cnt by (simp add: m'_def)
  ultimately show ?thesis using inv by blast
qed


lemma chain_assign_same:
  "chain_find eq key es = Some v \<Longrightarrow> chain_assign eq key v es = es"
  by (induction es) (auto split: if_splits)

lemma assign_same:
  assumes "hm_inv tr m" and "hm_lookup tr m key = Some v"
  shows "hm_assign tr m key v = Inr m"
  using assms
  by (simp add: hm_assign_def hm_index_ok Let_def hm_lookup_def chain_assign_same)

lemma clear_inv: "hm_inv tr m \<Longrightarrow> hm_inv tr (hm_clear m)"
  by (simp add: hm_inv_def hm_clear_def comp_def sum_list_triv)

lemma clear_lookup: "hm_inv tr m \<Longrightarrow> hm_lookup tr (hm_clear m) key = None"
  using hash_less by (simp add: hm_lookup_def hm_clear_def hm_inv_def)

end

section \<open>Iteration\<close>

text \<open>What an iterator still has in front of it.\<close>

definition iter_rest :: "('k, 'v) hashmap \<Rightarrow> nat \<times> ('k \<times> 'v) list \<Rightarrow> ('k \<times> 'v) list" where
  "iter_rest m it = snd it @ concat (drop (Suc (fst it)) (hm_entries m))"

lemma hm_scan_rest:
  "length (hm_entries m) = hm_capacity m \<Longrightarrow>
   iter_rest m (hm_scan m i) = concat (drop i (hm_entries m))
   \<and> (snd (hm_scan m i) = [] \<longrightarrow> concat (drop i (hm_entries m)) = [])"
proof (induction m i rule: hm_scan.induct)
  case (1 m i)
  show ?case
  proof (cases "i < hm_capacity m")
    case True
    then have "drop i (hm_entries m) = hm_entries m ! i # drop (Suc i) (hm_entries m)"
      using "1.prems" by (simp add: Cons_nth_drop_Suc)
    with 1 True show ?thesis
      by (subst (1 2) hm_scan.simps) (auto simp: iter_rest_def)
  next
    case False
    with "1.prems" show ?thesis by (simp add: hm_scan.simps iter_rest_def)
  qed
qed

lemma hm_iterator_visits_all:
  assumes "length (hm_entries m) = hm_capacity m"
  shows "iter_rest m (hm_begin m) = concat (hm_entries m)"
    and "snd it \<noteq> [] \<Longrightarrow> iter_rest m it = hd (snd it) # iter_rest m (hm_next m it)"
proof -
  show "iter_rest m (hm_begin m) = concat (hm_entries m)"
    using hm_scan_rest [OF assms, of 0] by (simp add: hm_begin_def)
  assume "snd it \<noteq> []"
  then obtain i e es where it: "it = (i, e # es)" by (cases it) (auto simp: neq_Nil_conv)
  show "iter_rest m it = hd (snd it) # iter_rest m (hm_next m it)"
    using hm_scan_rest [OF assms, of "i + 1"] by (simp add: it hm_next_def iter_rest_def)
qed

section \<open>Properties\<close>

text \<open>
  C32: \<^verbatim>\<open>HashMap\<close> implements a partial function for every trait whose equality is an
  equivalence the hash respects (all four of the source are). \<^verbatim>\<open>insert\<close> of a new key adds
  exactly that key, growing and rehashing the table when the load factor would exceed three
  quarters, and panics on a key that is there; \<^verbatim>\<open>erase\<close> removes exactly the key and panics on
  one that is not; the invariant with the load factor and the stored count is kept.
\<close>
theorem hashmap_refines_map:
  assumes "hash_trait tr" and "hm_inv tr m"
  shows "case hm_lookup tr m key of
      None \<Rightarrow> hm_erase tr m key = Inl (Panic ''HashMap::erase(): key not found'')
        \<and> (\<exists>m'. hm_insert tr m key v = Inr m' \<and> hm_inv tr m' \<and> hm_count m' = hm_count m + 1
             \<and> hm_lookup tr m' = (\<lambda>k. if t_eq tr key k then Some v else hm_lookup tr m k))
    | Some _ \<Rightarrow> hm_insert tr m key v = Inl (Panic ''HashMap::insert(): key already inside'')
        \<and> (\<exists>m'. hm_erase tr m key = Inr m' \<and> hm_inv tr m' \<and> hm_count m = hm_count m' + 1
             \<and> hm_lookup tr m' = (\<lambda>k. if t_eq tr key k then None else hm_lookup tr m k))"
proof (cases "hm_lookup tr m key")
  case None
  then show ?thesis
    using hash_trait.insert_fresh [OF assms None, of v] hash_trait.erase_absent [OF assms None] by simp
next
  case (Some x)
  then have "hm_lookup tr m key \<noteq> None" by simp
  then show ?thesis
    using hash_trait.insert_present [OF assms, of key v] hash_trait.erase_present [OF assms, of key] Some
    by simp
qed

theorem hashmap_refines_map_witness:
  "\<exists>m'. hm_insert trait_u32 (HashMap_ctor 1) 42 (7 :: nat) = Inr m' \<and> hm_inv trait_u32 m'
     \<and> hm_lookup trait_u32 m' 42 = Some 7 \<and> hm_lookup trait_u32 m' 43 = None"
proof -
  have none: "hm_lookup trait_u32 (HashMap_ctor 1 :: (u32, nat) hashmap) k = None" for k
    by (simp add: u32_tr.ctor_lookup)
  have eq: "t_eq trait_u32 a b \<longleftrightarrow> a = b" for a b by (simp add: trait_u32_def)
  show ?thesis
    using hashmap_refines_map [OF u32_tr.hash_trait_axioms u32_tr.ctor_inv [of 1], of 42 "7 :: nat"]
    unfolding none by (auto simp: eq simp del: One_nat_def)
qed

text \<open>What a range-based \<^verbatim>\<open>for\<close> over the map visits in at most \<open>n\<close> rounds.\<close>

primrec hm_visited :: "('k, 'v) hashmap \<Rightarrow> nat \<Rightarrow> nat \<times> ('k \<times> 'v) list \<Rightarrow> ('k \<times> 'v) list" where
  "hm_visited m 0 it = []"
| "hm_visited m (Suc n) it = (if snd it = [] then [] else hd (snd it) # hm_visited m n (hm_next m it))"

text \<open>An iterator that points at no entry has none in front of it.\<close>

definition iter_ok :: "('k, 'v) hashmap \<Rightarrow> nat \<times> ('k \<times> 'v) list \<Rightarrow> bool" where
  "iter_ok m it \<longleftrightarrow> (snd it = [] \<longrightarrow> iter_rest m it = [])"

lemma iter_ok_scan: "length (hm_entries m) = hm_capacity m \<Longrightarrow> iter_ok m (hm_scan m i)"
  using hm_scan_rest [of m i] by (simp add: iter_ok_def)

lemma iter_ok_next:
  assumes "length (hm_entries m) = hm_capacity m" and "iter_ok m it"
  shows "iter_ok m (hm_next m it)"
proof -
  obtain i es where it: "it = (i, es)" by (cases it)
  show ?thesis
  proof (cases es)
    case Nil
    then have "hm_next m it = it" by (simp add: hm_next_def it)
    then show ?thesis using assms(2) by simp
  next
    case (Cons e es')
    then have "hm_next m it = (if es' \<noteq> [] then (i, es') else hm_scan m (i + 1))"
      by (simp add: hm_next_def it)
    then show ?thesis using iter_ok_scan [OF assms(1), of "i + 1"]
      by (cases "es' = []") (simp_all add: iter_ok_def [of m "(i, es')"])
  qed
qed

lemma hm_visited_rest:
  assumes "length (hm_entries m) = hm_capacity m" and "iter_ok m it" and "length (iter_rest m it) \<le> n"
  shows "hm_visited m n it = iter_rest m it"
  using assms(2,3)
proof (induction n arbitrary: it)
  case 0
  then show ?case by simp
next
  case (Suc n)
  show ?case
  proof (cases "snd it = []")
    case True
    then show ?thesis using Suc.prems(1) by (simp add: iter_ok_def)
  next
    case False
    note s = hm_iterator_visits_all(2) [OF assms(1) False]
    then have "length (iter_rest m (hm_next m it)) \<le> n" using Suc.prems(2) by simp
    from Suc.IH [OF iter_ok_next [OF assms(1) Suc.prems(1)] this] s False show ?thesis by simp
  qed
qed


definition demo_map :: "(u32, nat) hashmap" where
  "demo_map = \<lparr>hm_entries = [[], [(1, 7)]], hm_capacity = 2, hm_count = 1\<rparr>"


end
