(* ===== verification/LRUCache.thy ===== *)
theory LRUCache
  imports KList KHashMap
begin

text \<open>
  \<^verbatim>\<open>LRUCache<K, V>\<close> of \<^verbatim>\<open>kernel/lib/lru_cache.h\<close>: a recency list of entries and a
  hash map from keys to list iterators. An iterator is a node address, with
  \<open>None\<close> for the end iterator. The cleanup callbacks act on a world \<open>'w\<close>, the
  memory and devices outside the cache; because a \<^verbatim>\<open>char*\<close> key is hashed and
  compared through memory, the key trait is a function of that world.
\<close>

record ('k, 'v) lru =
  lc_capacity :: nat
  lc_nodes :: "('k \<times> 'v) nodes"
  lc_list :: klist
  lc_map :: "('k, nat option) hashmap"

type_synonym ('k, 'v, 'w) cleanup = "('k \<Rightarrow> 'v \<Rightarrow> 'w \<Rightarrow> 'w) option"

definition LRU_DEFAULT_CAPACITY :: nat where "LRU_DEFAULT_CAPACITY = 1024"

definition LRUCache_ctor :: "nat \<Rightarrow> ('k \<times> 'v) nodes \<Rightarrow> ('k, 'v) lru" where
  "LRUCache_ctor capacity h =
     \<lparr>lc_capacity = capacity, lc_nodes = h, lc_list = List_ctor, lc_map = HashMap_ctor capacity\<rparr>"

definition lru_moveFront :: "nat option \<Rightarrow> ('k, 'v) lru \<Rightarrow> ('k, 'v) lru" where
  "lru_moveFront it c =
     (let (h, l) = moveFront it (lc_nodes c) (lc_list c) in c\<lparr>lc_nodes := h, lc_list := l\<rparr>)"

definition lru_deref :: "('k, 'v) lru \<Rightarrow> nat option \<Rightarrow> ('k \<times> 'v) res" where
  "lru_deref c it = (case it of Some p \<Rightarrow> Inr (nvalue (lc_nodes c p)) | None \<Rightarrow> Inl NullDeref)"

definition lru_contains :: "'k trait \<Rightarrow> ('k, 'v) lru \<Rightarrow> 'k \<Rightarrow> (bool \<times> ('k, 'v) lru) res" where
  "lru_contains tr c key =
     bindE (hm_contains tr (lc_map c) key)
       (\<lambda>b. if \<not> b then Inr (False, c)
            else bindE (hm_index tr (lc_map c) key)
                   (\<lambda>it. Inr (True, lru_moveFront it c)))"

definition lru_at :: "'k trait \<Rightarrow> ('k, 'v) lru \<Rightarrow> 'k \<Rightarrow> 'v res" where
  "lru_at tr c key =
     bindE (hm_index tr (lc_map c) key) (\<lambda>it. bindE (lru_deref c it) (\<lambda>e. Inr (snd e)))"

definition lru_get :: "'k trait \<Rightarrow> ('k, 'v) lru \<Rightarrow> 'k \<Rightarrow> ('v option \<times> ('k, 'v) lru) res" where
  "lru_get tr c key =
     bindE (hm_contains tr (lc_map c) key)
       (\<lambda>b. if \<not> b then Inr (None, c)
            else bindE (hm_index tr (lc_map c) key)
                   (\<lambda>it. let c1 = lru_moveFront it c in
                         bindE (lru_deref c1 it) (\<lambda>e. Inr (Some (snd e), c1))))"

definition lru_callback :: "('k, 'v, 'w) cleanup \<Rightarrow> 'k \<times> 'v \<Rightarrow> 'w \<Rightarrow> 'w" where
  "lru_callback cb e w = (case cb of Some f \<Rightarrow> f (fst e) (snd e) w | None \<Rightarrow> w)"

text \<open>
  The eviction branch of \<open>insert\<close>: the callback runs before the map forgets the
  key, so the map sees the key through the world the callback leaves.
\<close>

definition lru_evict ::
  "('w \<Rightarrow> 'k trait) \<Rightarrow> (('k \<times> 'v) node \<Rightarrow> ('k \<times> 'v) node) \<Rightarrow> ('k, 'v, 'w) cleanup
   \<Rightarrow> 'w \<Rightarrow> ('k, 'v) lru \<Rightarrow> ('w \<times> ('k, 'v) lru) res" where
  "lru_evict tr scrub onEvict w c =
     bindE (list_back (lc_nodes c) (lc_list c)) (\<lambda>entry.
       let w1 = lru_callback onEvict entry w in
       bindE (hm_erase (tr w1) (lc_map c) (fst entry)) (\<lambda>m.
       bindE (removeLast scrub (lc_nodes c) (lc_list c)) (\<lambda>(_, h, l).
         Inr (w1, c\<lparr>lc_nodes := h, lc_list := l, lc_map := m\<rparr>))))"

definition lru_insert ::
  "('w \<Rightarrow> 'k trait) \<Rightarrow> (('k \<times> 'v) node \<Rightarrow> ('k \<times> 'v) node) \<Rightarrow> ('k, 'v, 'w) cleanup
   \<Rightarrow> nat \<Rightarrow> 'w \<Rightarrow> ('k, 'v) lru \<Rightarrow> 'k \<Rightarrow> 'v \<Rightarrow> ('w \<times> ('k, 'v) lru) res" where
  "lru_insert tr scrub onEvict p w c key value =
     bindE (hm_contains (tr w) (lc_map c) key) (\<lambda>b.
       if b then
         bindE (hm_index (tr w) (lc_map c) key) (\<lambda>it.
           let c1 = lru_moveFront it c in
           bindE (hm_assign (tr w) (lc_map c1) key (m_head (lc_list c1))) (\<lambda>m.
             Inr (w, c1\<lparr>lc_map := m\<rparr>)))
       else
         bindE (if hm_count (lc_map c) \<ge> lc_capacity c then lru_evict tr scrub onEvict w c
                else Inr (w, c)) (\<lambda>(w1, c1).
           let (h, l) = addFirst p (key, value) (lc_nodes c1) (lc_list c1) in
           bindE (hm_insert (tr w1) (lc_map c1) key (m_head l)) (\<lambda>m.
             Inr (w1, c1\<lparr>lc_nodes := h, lc_list := l, lc_map := m\<rparr>))))"

definition lru_erase ::
  "'k trait \<Rightarrow> (('k \<times> 'v) node \<Rightarrow> ('k \<times> 'v) node) \<Rightarrow> ('k, 'v) lru \<Rightarrow> 'k \<Rightarrow> ('k, 'v) lru res" where
  "lru_erase tr scrub c key =
     bindE (hm_contains tr (lc_map c) key) (\<lambda>b.
       if \<not> b then Inr c
       else bindE (hm_index tr (lc_map c) key) (\<lambda>it.
         case it of
           None \<Rightarrow> Inl NullDeref
         | Some p \<Rightarrow>
             (let (_, h, l) = list_remove scrub p (lc_nodes c) (lc_list c) in
              bindE (hm_erase tr (lc_map c) key) (\<lambda>m.
                Inr (c\<lparr>lc_nodes := h, lc_list := l, lc_map := m\<rparr>)))))"

text \<open>
  \<open>eraseIf\<close> walks the list; a value of \<open>None\<close> would be a walk that never ends.
\<close>

partial_function (option) lru_eraseIf_loop ::
  "('w \<Rightarrow> 'k trait) \<Rightarrow> (('k \<times> 'v) node \<Rightarrow> ('k \<times> 'v) node) \<Rightarrow> ('k, 'v, 'w) cleanup
   \<Rightarrow> ('w \<Rightarrow> 'k \<Rightarrow> 'v \<Rightarrow> bool) \<Rightarrow> nat option \<Rightarrow> 'w \<Rightarrow> ('k, 'v) lru
   \<Rightarrow> ('w \<times> ('k, 'v) lru) res option" where
  "lru_eraseIf_loop tr scrub onEvict predicate it w c =
     (case it of
        None \<Rightarrow> Some (Inr (w, c))
      | Some p \<Rightarrow>
          (let nextIt = nnext (lc_nodes c p); e = nvalue (lc_nodes c p) in
           if predicate w (fst e) (snd e) then
             (let w1 = lru_callback onEvict e w in
              case hm_erase (tr w1) (lc_map c) (fst e) of
                Inl f \<Rightarrow> Some (Inl f)
              | Inr m \<Rightarrow>
                  (let (_, h, l) = list_remove scrub p (lc_nodes c) (lc_list c) in
                   lru_eraseIf_loop tr scrub onEvict predicate nextIt w1
                     (c\<lparr>lc_nodes := h, lc_list := l, lc_map := m\<rparr>)))
           else lru_eraseIf_loop tr scrub onEvict predicate nextIt w c))"

definition lru_eraseIf ::
  "('w \<Rightarrow> 'k trait) \<Rightarrow> (('k \<times> 'v) node \<Rightarrow> ('k \<times> 'v) node) \<Rightarrow> ('k, 'v, 'w) cleanup
   \<Rightarrow> ('w \<Rightarrow> 'k \<Rightarrow> 'v \<Rightarrow> bool) \<Rightarrow> 'w \<Rightarrow> ('k, 'v) lru
   \<Rightarrow> ('w \<times> ('k, 'v) lru) res option" where
  "lru_eraseIf tr scrub onEvict predicate w c =
     lru_eraseIf_loop tr scrub onEvict predicate (m_head (lc_list c)) w c"

partial_function (option) lru_flush_loop ::
  "('k, 'v, 'w) cleanup \<Rightarrow> ('k \<times> 'v) nodes \<Rightarrow> nat option \<Rightarrow> 'w \<Rightarrow> 'w option" where
  "lru_flush_loop cb h it w =
     (case it of
        None \<Rightarrow> Some w
      | Some p \<Rightarrow> lru_flush_loop cb h (nnext (h p)) (lru_callback cb (nvalue (h p)) w))"

definition lru_flush ::
  "(('k \<times> 'v) node \<Rightarrow> ('k \<times> 'v) node) \<Rightarrow> ('k, 'v, 'w) cleanup \<Rightarrow> ('k, 'v, 'w) cleanup
   \<Rightarrow> 'w \<Rightarrow> ('k, 'v) lru \<Rightarrow> ('w \<times> ('k, 'v) lru) option" where
  "lru_flush scrub onEvict onFlush w c =
     (let cb = (if onFlush \<noteq> None then onFlush else onEvict) in
      case (if cb \<noteq> None then lru_flush_loop cb (lc_nodes c) (m_head (lc_list c)) w else Some w) of
        None \<Rightarrow> None
      | Some w1 \<Rightarrow>
          map_option
            (\<lambda>(h, l). (w1, c\<lparr>lc_nodes := h, lc_list := l, lc_map := hm_clear (lc_map c)\<rparr>))
            (list_clear scrub (lc_nodes c) (lc_list c)))"

section \<open>What a cache represents\<close>

text \<open>
  The nodes \<open>ps\<close>, most recently used first, make up the list, and the map sends
  exactly their keys to them.
\<close>

definition lru_rep :: "'k trait \<Rightarrow> ('k, 'v) lru \<Rightarrow> nat list \<Rightarrow> bool" where
  "lru_rep tr c ps \<longleftrightarrow>
     dll (lc_nodes c) (lc_list c) ps \<and> hm_inv tr (lc_map c)
     \<and> hm_count (lc_map c) = length ps \<and> 0 < lc_capacity c \<and> length ps \<le> lc_capacity c
     \<and> (\<forall>p \<in> set ps. hm_lookup tr (lc_map c) (fst (vl (lc_nodes c) p)) = Some (Some p))
     \<and> (\<forall>k v. hm_lookup tr (lc_map c) k = Some v \<longrightarrow>
          (\<exists>p \<in> set ps. v = Some p \<and> t_eq tr (fst (vl (lc_nodes c) p)) k))"

text \<open>The entries it holds, in order of recency.\<close>

definition lru_list :: "('k, 'v) lru \<Rightarrow> nat list \<Rightarrow> ('k \<times> 'v) list" where
  "lru_list c ps = contents (lc_nodes c) ps"

section \<open>The recency list as specification\<close>

definition spec_has :: "'k trait \<Rightarrow> 'k \<Rightarrow> ('k \<times> 'v) list \<Rightarrow> bool" where
  "spec_has tr k xs \<longleftrightarrow> (\<exists>e \<in> set xs. t_eq tr (fst e) k)"

definition spec_touch :: "'k trait \<Rightarrow> 'k \<Rightarrow> ('k \<times> 'v) list \<Rightarrow> ('k \<times> 'v) list" where
  "spec_touch tr k xs = filter (\<lambda>e. t_eq tr (fst e) k) xs @ filter (\<lambda>e. \<not> t_eq tr (fst e) k) xs"

definition spec_insert :: "'k trait \<Rightarrow> nat \<Rightarrow> 'k \<Rightarrow> 'v \<Rightarrow> ('k \<times> 'v) list \<Rightarrow> ('k \<times> 'v) list" where
  "spec_insert tr cap k v xs =
     (if spec_has tr k xs then spec_touch tr k xs
      else (k, v) # (if length xs \<ge> cap then butlast xs else xs))"

definition spec_drop :: "'k trait \<Rightarrow> 'k \<Rightarrow> ('k \<times> 'v) list \<Rightarrow> ('k \<times> 'v) list" where
  "spec_drop tr k xs = filter (\<lambda>e. \<not> t_eq tr (fst e) k) xs"

context hash_trait begin

lemma rep_parts:
  assumes "lru_rep tr c ps"
  shows "dll (lc_nodes c) (lc_list c) ps" "hm_inv tr (lc_map c)"
    "hm_count (lc_map c) = length ps" "0 < lc_capacity c" "length ps \<le> lc_capacity c"
  using assms by (auto simp: lru_rep_def)

lemma rep_node:
  "lru_rep tr c ps \<Longrightarrow> p \<in> set ps \<Longrightarrow>
   hm_lookup tr (lc_map c) (fst (vl (lc_nodes c) p)) = Some (Some p)"
  by (simp add: lru_rep_def)

lemma rep_key:
  "lru_rep tr c ps \<Longrightarrow> hm_lookup tr (lc_map c) k = Some v \<Longrightarrow>
   \<exists>p \<in> set ps. v = Some p \<and> t_eq tr (fst (vl (lc_nodes c) p)) k"
  unfolding lru_rep_def by blast

text \<open>A key is in the map exactly when one, and then only one, node has it.\<close>

lemma rep_lookup_Some:
  assumes rep: "lru_rep tr c ps" and k: "hm_lookup tr (lc_map c) k = Some v"
  obtains us p vs where "ps = us @ p # vs" "v = Some p" "t_eq tr (fst (vl (lc_nodes c) p)) k"
    "\<And>q. q \<in> set (us @ vs) \<Longrightarrow> \<not> t_eq tr (fst (vl (lc_nodes c) q)) k"
proof -
  obtain p where p: "p \<in> set ps" "v = Some p" "t_eq tr (fst (vl (lc_nodes c) p)) k"
    using rep_key [OF rep k] by blast
  then obtain us vs where ps: "ps = us @ p # vs" by (auto simp: in_set_conv_decomp)
  have "distinct ps" using rep by (auto simp: lru_rep_def dest: dll_distinct)
  have "\<not> t_eq tr (fst (vl (lc_nodes c) q)) k" if "q \<in> set (us @ vs)" for q
  proof
    assume "t_eq tr (fst (vl (lc_nodes c) q)) k"
    then have "hm_lookup tr (lc_map c) (fst (vl (lc_nodes c) q)) = Some v"
      using hm_lookup_respects [OF rep_parts(2) [OF rep]] k by metis
    then have "q = p" using rep_node [OF rep, of q] that p ps by auto
    then show False using that ps \<open>distinct ps\<close> by auto
  qed
  with that [OF ps p(2,3)] show thesis by blast
qed

lemma rep_lookup_None:
  assumes "lru_rep tr c ps"
  shows "hm_lookup tr (lc_map c) k = None \<longleftrightarrow> \<not> spec_has tr k (lru_list c ps)"
proof
  assume none: "hm_lookup tr (lc_map c) k = None"
  have "\<not> t_eq tr (fst (vl (lc_nodes c) p)) k" if "p \<in> set ps" for p
    using assms none that hm_lookup_respects [OF rep_parts(2) [OF assms]]
    by (auto simp: lru_rep_def)
  then show "\<not> spec_has tr k (lru_list c ps)" by (auto simp: spec_has_def lru_list_def)
next
  assume "\<not> spec_has tr k (lru_list c ps)"
  then show "hm_lookup tr (lc_map c) k = None"
    using rep_key [OF assms, of k] by (cases "hm_lookup tr (lc_map c) k")
      (auto simp: spec_has_def lru_list_def)
qed

lemma rep_moveFront:
  assumes rep: "lru_rep tr c (us @ p # vs)"
  shows "lru_rep tr (lru_moveFront (Some p) c) (p # us @ vs)"
    and "vl (lc_nodes (lru_moveFront (Some p) c)) = vl (lc_nodes c)"
    and "m_head (lc_list (lru_moveFront (Some p) c)) = Some p"
    and "lc_map (lru_moveFront (Some p) c) = lc_map c"
proof -
  obtain h l where mf: "moveFront (Some p) (lc_nodes c) (lc_list c) = (h, l)"
    by (cases "moveFront (Some p) (lc_nodes c) (lc_list c)") auto
  have d: "dll h l (p # us @ vs)" "vl h = vl (lc_nodes c)"
    using moveFront_dll [OF rep_parts(1) [OF rep] mf] by auto
  then show "lru_rep tr (lru_moveFront (Some p) c) (p # us @ vs)"
    using rep mf by (auto simp: lru_rep_def lru_moveFront_def)
  show "vl (lc_nodes (lru_moveFront (Some p) c)) = vl (lc_nodes c)"
    "m_head (lc_list (lru_moveFront (Some p) c)) = Some p"
    "lc_map (lru_moveFront (Some p) c) = lc_map c"
    using d mf dll_ends [OF d(1)] by (auto simp: lru_moveFront_def)
qed

lemma touch_split:
  assumes "t_eq tr (fst (f p)) k" and "\<And>q. q \<in> set (us @ vs) \<Longrightarrow> \<not> t_eq tr (fst (f q)) k"
  shows "spec_touch tr k (map f (us @ p # vs)) = f p # map f (us @ vs)"
    and "spec_drop tr k (map f (us @ p # vs)) = map f (us @ vs)"
proof -
  have "filter (\<lambda>e. t_eq tr (fst e) k) (map f xs) = []"
    "filter (\<lambda>e. \<not> t_eq tr (fst e) k) (map f xs) = map f xs" if "set xs \<subseteq> set (us @ vs)" for xs
    using assms(2) that by (auto simp: filter_empty_conv filter_id_conv)
  from this [of us] this [of vs] assms(1)
  show "spec_touch tr k (map f (us @ p # vs)) = f p # map f (us @ vs)"
    "spec_drop tr k (map f (us @ p # vs)) = map f (us @ vs)"
    by (auto simp: spec_touch_def spec_drop_def)
qed

lemma lru_contains_refines:
  assumes rep: "lru_rep tr c ps"
  shows "\<exists>c' ps'. lru_contains tr c key = Inr (spec_has tr key (lru_list c ps), c')
     \<and> lru_rep tr c' ps' \<and> lru_list c' ps' = spec_touch tr key (lru_list c ps)"
proof (cases "hm_lookup tr (lc_map c) key")
  case None
  then have "\<not> spec_has tr key (lru_list c ps)" using rep_lookup_None [OF rep] by simp
  moreover from this have "spec_touch tr key (lru_list c ps) = lru_list c ps"
    by (auto simp: spec_touch_def spec_has_def filter_empty_conv filter_id_conv)
  ultimately show ?thesis
    using None rep rep_parts(2) [OF rep] by (auto simp: lru_contains_def hm_contains_ok)
next
  case (Some v)
  from rep Some obtain us p vs where s: "ps = us @ p # vs" "v = Some p"
    "t_eq tr (fst (vl (lc_nodes c) p)) key"
    "\<And>q. q \<in> set (us @ vs) \<Longrightarrow> \<not> t_eq tr (fst (vl (lc_nodes c) q)) key"
    by (rule rep_lookup_Some) blast
  have has: "spec_has tr key (lru_list c ps)" using rep_lookup_None [OF rep, of key] Some by simp
  note mf = rep_moveFront [OF rep [unfolded s(1)]]
  have "lru_list (lru_moveFront (Some p) c) (p # us @ vs) = spec_touch tr key (lru_list c ps)"
    using touch_split(1) [where f = "vl (lc_nodes c)", OF s(3,4)] mf(2) by (simp add: lru_list_def s(1))
  with mf(1) has show ?thesis
    using Some rep_parts(2) [OF rep] s(2)
    by (auto simp: lru_contains_def hm_contains_ok hm_index_ok)
qed


lemma lru_get_refines:
  assumes rep: "lru_rep tr c ps"
  shows "\<exists>c' ps'. lru_get tr c key = Inr (chain_find (t_eq tr) key (lru_list c ps), c')
     \<and> lru_rep tr c' ps' \<and> lru_list c' ps' = spec_touch tr key (lru_list c ps)"
proof (cases "hm_lookup tr (lc_map c) key")
  case None
  then have no: "\<not> spec_has tr key (lru_list c ps)" using rep_lookup_None [OF rep] by simp
  then have "spec_touch tr key (lru_list c ps) = lru_list c ps"
    by (auto simp: spec_touch_def spec_has_def filter_empty_conv filter_id_conv)
  moreover have "chain_find (t_eq tr) key (lru_list c ps) = None"
    using no by (auto simp: chain_find_None spec_has_def)
  ultimately show ?thesis
    using None rep rep_parts(2) [OF rep] by (auto simp: lru_get_def hm_contains_ok)
next
  case (Some v)
  from rep Some obtain us p vs where s: "ps = us @ p # vs" "v = Some p"
    "t_eq tr (fst (vl (lc_nodes c) p)) key"
    "\<And>q. q \<in> set (us @ vs) \<Longrightarrow> \<not> t_eq tr (fst (vl (lc_nodes c) q)) key"
    by (rule rep_lookup_Some) blast
  note mf = rep_moveFront [OF rep [unfolded s(1)]]
  have "lru_list (lru_moveFront (Some p) c) (p # us @ vs) = spec_touch tr key (lru_list c ps)"
    using touch_split(1) [where f = "vl (lc_nodes c)", OF s(3,4)] mf(2)
    by (simp add: lru_list_def s(1))
  moreover have "chain_find (t_eq tr) key (map (vl (lc_nodes c)) (us @ p # vs)) =
      Some (snd (vl (lc_nodes c) p))"
    using s(3,4) by (induction us) auto
  then have "lru_get tr c key =
      Inr (chain_find (t_eq tr) key (lru_list c ps), lru_moveFront (Some p) c)"
    using Some rep_parts(2) [OF rep] s(1,2) mf(2)
    by (simp add: lru_get_def hm_contains_ok hm_index_ok lru_deref_def node_fields lru_list_def)
  ultimately show ?thesis using mf(1) by auto
qed

lemma ctor_rep: "0 < cap \<Longrightarrow> lru_rep tr (LRUCache_ctor cap h) []"
  by (simp add: lru_rep_def LRUCache_ctor_def dll_ctor ctor_inv ctor_lookup)
    (simp add: HashMap_ctor_def)

lemma rep_intro:
  assumes "dll h l ps" and "hm_inv tr m" and "hm_count m = length ps"
    and "0 < lc_capacity c" and "length ps \<le> lc_capacity c"
    and "\<And>q. q \<in> set ps \<Longrightarrow> hm_lookup tr m (fst (vl h q)) = Some (Some q)"
    and "\<And>k v. hm_lookup tr m k = Some v \<Longrightarrow>
           \<exists>q \<in> set ps. v = Some q \<and> t_eq tr (fst (vl h q)) k"
  shows "lru_rep tr (c\<lparr>lc_nodes := h, lc_list := l, lc_map := m\<rparr>) ps"
  using assms by (simp add: lru_rep_def)

text \<open>Unlinking one node and erasing its key gives the cache without that entry.\<close>

lemma rep_forget:
  assumes rep: "lru_rep tr c (us @ p # vs)"
    and d: "dll h l (us @ vs)" "contents h (us @ vs) = contents (lc_nodes c) (us @ vs)"
    and key: "t_eq tr (fst (vl (lc_nodes c) p)) key"
  shows "\<exists>m. hm_erase tr (lc_map c) key = Inr m
     \<and> lru_rep tr (c\<lparr>lc_nodes := h, lc_list := l, lc_map := m\<rparr>) (us @ vs)"
proof -
  note parts = rep_parts [OF rep]
  have lk: "hm_lookup tr (lc_map c) key = Some (Some p)"
    using rep_node [OF rep, of p] hm_lookup_respects [OF parts(2) key] by simp
  obtain m where er: "hm_erase tr (lc_map c) key = Inr m" "hm_inv tr m"
    "hm_count (lc_map c) = hm_count m + 1"
    "hm_lookup tr m = (\<lambda>k. if t_eq tr key k then None else hm_lookup tr (lc_map c) k)"
    using erase_present [OF parts(2), of key] lk by auto
  have val: "vl h q = vl (lc_nodes c) q" if "q \<in> set (us @ vs)" for q
    using d(2) that by (metis map_eq_conv)
  have apart: "\<not> t_eq tr key (fst (vl (lc_nodes c) q))" if "q \<in> set (us @ vs)" for q
  proof
    assume "t_eq tr key (fst (vl (lc_nodes c) q))"
    from hm_lookup_respects [OF parts(2) this] have "p = q"
      using lk rep_node [OF rep, of q] that by auto
    then show False using that dll_distinct [OF parts(1)] by simp
  qed
  have "lru_rep tr (c\<lparr>lc_nodes := h, lc_list := l, lc_map := m\<rparr>) (us @ vs)"
  proof (rule rep_intro [OF d(1) er(2)])
    show "hm_count m = length (us @ vs)" "0 < lc_capacity c" "length (us @ vs) \<le> lc_capacity c"
      using er(3) parts by simp_all
    show "hm_lookup tr m (fst (vl h q)) = Some (Some q)" if "q \<in> set (us @ vs)" for q
      using that val [OF that] apart [OF that] rep_node [OF rep, of q] by (auto simp: er(4))
    show "\<exists>q \<in> set (us @ vs). v = Some q \<and> t_eq tr (fst (vl h q)) k" if "hm_lookup tr m k = Some v" for k v
    proof -
      have ne: "\<not> t_eq tr key k" "hm_lookup tr (lc_map c) k = Some v"
        using that by (auto simp: er(4) split: if_splits)
      then obtain q where q: "q \<in> set (us @ p # vs)" "v = Some q" "t_eq tr (fst (vl (lc_nodes c) q)) k"
        using rep_key [OF rep] by blast
      have "q \<noteq> p" using ne(1) q(3) eq_trans [OF eq_sym [OF key]] by blast
      with q have "q \<in> set (us @ vs)" by auto
      with q val [OF this] show ?thesis by auto
    qed
  qed
  then show ?thesis using er(1) by blast
qed

lemma rep_evict:
  assumes rep: "lru_rep tr c (us @ [p])"
  shows "\<exists>c'. lru_evict (\<lambda>_. tr) scrub cb w c = Inr (lru_callback cb (vl (lc_nodes c) p) w, c')
     \<and> lru_rep tr c' us \<and> lru_list c' us = lru_list c us \<and> lc_capacity c' = lc_capacity c"
proof -
  note parts = rep_parts [OF rep]
  have at: "m_tail (lc_list c) = Some p" using dll_ends [OF parts(1)] by simp
  obtain h l where rl: "removeLast scrub (lc_nodes c) (lc_list c) = Inr (nvalue (scrub (lc_nodes c p)), h, l)"
    "dll h l us" "contents h us = contents (lc_nodes c) us"
    using removeLast_dll [OF parts(1)] by blast
  obtain m where "hm_erase tr (lc_map c) (fst (vl (lc_nodes c) p)) = Inr m"
    "lru_rep tr (c\<lparr>lc_nodes := h, lc_list := l, lc_map := m\<rparr>) us"
    using rep_forget [of c us p "[]" h l, OF rep _ _ eq_refl] rl by auto
  then show ?thesis
    using at rl by (auto simp: lru_evict_def list_back_def Let_def lru_list_def node_fields)
qed

lemma rep_add:
  assumes rep: "lru_rep tr c ps" and new: "\<not> spec_has tr key (lru_list c ps)"
    and room: "length ps < lc_capacity c" and p: "p \<notin> set ps"
    and add: "addFirst p (key, v) (lc_nodes c) (lc_list c) = (h, l)"
  shows "\<exists>m. hm_insert tr (lc_map c) key (m_head l) = Inr m
     \<and> lru_rep tr (c\<lparr>lc_nodes := h, lc_list := l, lc_map := m\<rparr>) (p # ps)
     \<and> contents h (p # ps) = (key, v) # lru_list c ps"
proof -
  note parts = rep_parts [OF rep]
  have d: "dll h l (p # ps)" "contents h (p # ps) = (key, v) # contents (lc_nodes c) ps"
    using addFirst_dll [OF parts(1) p add] by auto
  have hd: "m_head l = Some p" using dll_ends [OF d(1)] by simp
  have none: "hm_lookup tr (lc_map c) key = None" using rep_lookup_None [OF rep] new by simp
  obtain m where ins: "hm_insert tr (lc_map c) key (Some p) = Inr m" "hm_inv tr m"
    "hm_count m = hm_count (lc_map c) + 1"
    "hm_lookup tr m = (\<lambda>k. if t_eq tr key k then Some (Some p) else hm_lookup tr (lc_map c) k)"
    using insert_fresh [OF parts(2) none, of "Some p"] by blast
  have val: "vl h q = vl (lc_nodes c) q" if "q \<in> set ps" for q using d(2) that by simp
  have vp: "vl h p = (key, v)" using d(2) by simp
  have apart: "\<not> t_eq tr key (fst (vl (lc_nodes c) q))" if "q \<in> set ps" for q
    using new that eq_sym by (auto simp: spec_has_def lru_list_def)
  have "lru_rep tr (c\<lparr>lc_nodes := h, lc_list := l, lc_map := m\<rparr>) (p # ps)"
  proof (rule rep_intro [OF d(1) ins(2)])
    show "hm_count m = length (p # ps)" "0 < lc_capacity c" "length (p # ps) \<le> lc_capacity c"
      using ins(3) parts room by simp_all
    show "hm_lookup tr m (fst (vl h q)) = Some (Some q)" if "q \<in> set (p # ps)" for q
      using that val apart rep_node [OF rep, of q] by (auto simp: ins(4) vp eq_refl)
    show "\<exists>q \<in> set (p # ps). v' = Some q \<and> t_eq tr (fst (vl h q)) k"
      if "hm_lookup tr m k = Some v'" for k v'
      using that rep_key [OF rep, of k v'] val by (auto simp: ins(4) vp split: if_splits)
  qed
  then show ?thesis using ins(1) hd d(2) by (auto simp: lru_list_def)
qed


text \<open>
  Inserting a present key only moves its entry to the front; inserting a new
  one into a full cache drops the least recently used entry, for which the
  callback has run.
\<close>

lemma lru_insert_refines:
  assumes rep: "lru_rep tr c ps" and p: "p \<notin> set ps"
  shows "\<exists>c' ps'.
      lru_insert (\<lambda>_. tr) scrub cb p w c key v =
        Inr (if \<not> spec_has tr key (lru_list c ps) \<and> length ps \<ge> lc_capacity c
             then lru_callback cb (last (lru_list c ps)) w else w, c')
      \<and> lru_rep tr c' ps'
      \<and> lru_list c' ps' = spec_insert tr (lc_capacity c) key v (lru_list c ps)"
proof (cases "hm_lookup tr (lc_map c) key")
  case (Some x)
  from rep Some obtain us q vs where s: "ps = us @ q # vs" "x = Some q"
    "t_eq tr (fst (vl (lc_nodes c) q)) key"
    "\<And>r. r \<in> set (us @ vs) \<Longrightarrow> \<not> t_eq tr (fst (vl (lc_nodes c) r)) key"
    by (rule rep_lookup_Some) blast
  have has: "spec_has tr key (lru_list c ps)" using rep_lookup_None [OF rep, of key] Some by simp
  note mf = rep_moveFront [OF rep [unfolded s(1)]]
  let ?c = "lru_moveFront (Some q) c"
  have same: "hm_assign tr (lc_map ?c) key (m_head (lc_list ?c)) = Inr (lc_map ?c)"
    using assign_same [OF rep_parts(2) [OF rep]] Some s(2) mf(3,4) by simp
  have "lru_list ?c (q # us @ vs) = spec_touch tr key (lru_list c ps)"
    using touch_split(1) [where f = "vl (lc_nodes c)", OF s(3,4)] mf(2)
    by (simp add: lru_list_def s(1))
  with mf(1) has same show ?thesis
    using Some rep_parts(2) [OF rep] s(2)
    by (auto simp: lru_insert_def hm_contains_ok hm_index_ok spec_insert_def Let_def)
next
  case None
  then have no: "\<not> spec_has tr key (lru_list c ps)" using rep_lookup_None [OF rep] by simp
  have cont: "hm_contains tr (lc_map c) key = Inr False"
    using None rep_parts(2) [OF rep] by (simp add: hm_contains_ok)
  show ?thesis
  proof (cases "length ps \<ge> lc_capacity c")
    case False
    obtain h l where add: "addFirst p (key, v) (lc_nodes c) (lc_list c) = (h, l)"
      by (cases "addFirst p (key, v) (lc_nodes c) (lc_list c)") auto
    obtain m where "hm_insert tr (lc_map c) key (m_head l) = Inr m"
      "lru_rep tr (c\<lparr>lc_nodes := h, lc_list := l, lc_map := m\<rparr>) (p # ps)"
      "contents h (p # ps) = (key, v) # lru_list c ps"
      using rep_add [OF rep no _ p add] False by auto
    then show ?thesis
      using False no cont add rep_parts(3) [OF rep]
      by (auto simp: lru_insert_def spec_insert_def lru_list_def)
  next
    case True
    then obtain us q where ps: "ps = us @ [q]"
      using rep_parts(4) [OF rep] by (cases ps rule: rev_cases) auto
    obtain c1 where ev: "lru_evict (\<lambda>_. tr) scrub cb w c = Inr (lru_callback cb (vl (lc_nodes c) q) w, c1)"
      "lru_rep tr c1 us" "lru_list c1 us = lru_list c us" "lc_capacity c1 = lc_capacity c"
      using rep_evict [OF rep [unfolded ps], of scrub cb w] by blast
    obtain h l where add: "addFirst p (key, v) (lc_nodes c1) (lc_list c1) = (h, l)"
      by (cases "addFirst p (key, v) (lc_nodes c1) (lc_list c1)") auto
    have no1: "\<not> spec_has tr key (lru_list c1 us)"
      using no ev(3) by (auto simp: spec_has_def lru_list_def ps)
    obtain m where "hm_insert tr (lc_map c1) key (m_head l) = Inr m"
      "lru_rep tr (c1\<lparr>lc_nodes := h, lc_list := l, lc_map := m\<rparr>) (p # us)"
      "contents h (p # us) = (key, v) # lru_list c1 us"
      using rep_add [OF ev(2) no1 _ _ add] p ps ev(4) rep_parts(5) [OF rep] by auto
    then show ?thesis
      using True no cont add ev rep_parts(3) [OF rep]
      by (auto simp: lru_insert_def spec_insert_def lru_list_def ps butlast_append)
  qed
qed

lemma rep_remove:
  assumes rep: "lru_rep tr c (us @ p # vs)"
    and r: "list_remove scrub p (lc_nodes c) (lc_list c) = (x, h, l)"
    and key: "t_eq tr (fst (vl (lc_nodes c) p)) key"
  shows "\<exists>m. hm_erase tr (lc_map c) key = Inr m
     \<and> lru_rep tr (c\<lparr>lc_nodes := h, lc_list := l, lc_map := m\<rparr>) (us @ vs)
     \<and> contents h (us @ vs) = lru_list c (us @ vs)"
  using list_remove_dll [OF rep_parts(1) [OF rep] r] rep_forget [OF rep _ _ key]
  by (auto simp: lru_list_def)

lemma lru_erase_refines:
  assumes rep: "lru_rep tr c ps"
  shows "\<exists>c' ps'. lru_erase tr scrub c key = Inr c' \<and> lru_rep tr c' ps'
     \<and> lru_list c' ps' = spec_drop tr key (lru_list c ps)"
proof (cases "hm_lookup tr (lc_map c) key")
  case None
  then have "\<not> spec_has tr key (lru_list c ps)" using rep_lookup_None [OF rep] by simp
  then have "spec_drop tr key (lru_list c ps) = lru_list c ps"
    by (auto simp: spec_drop_def spec_has_def filter_id_conv)
  then show ?thesis
    using None rep rep_parts(2) [OF rep] by (auto simp: lru_erase_def hm_contains_ok)
next
  case (Some x)
  from rep Some obtain us q vs where s: "ps = us @ q # vs" "x = Some q"
    "t_eq tr (fst (vl (lc_nodes c) q)) key"
    "\<And>r. r \<in> set (us @ vs) \<Longrightarrow> \<not> t_eq tr (fst (vl (lc_nodes c) r)) key"
    by (rule rep_lookup_Some) blast
  obtain y h l where r: "list_remove scrub q (lc_nodes c) (lc_list c) = (y, h, l)"
    by (cases "list_remove scrub q (lc_nodes c) (lc_list c)") auto
  obtain m where "hm_erase tr (lc_map c) key = Inr m"
    "lru_rep tr (c\<lparr>lc_nodes := h, lc_list := l, lc_map := m\<rparr>) (us @ vs)"
    "contents h (us @ vs) = lru_list c (us @ vs)"
    using rep_remove [OF rep [unfolded s(1)] r s(3)] by blast
  moreover have "spec_drop tr key (lru_list c ps) = lru_list c (us @ vs)"
    using touch_split(2) [where f = "vl (lc_nodes c)", OF s(3,4)] by (simp add: lru_list_def s(1))
  ultimately show ?thesis
    using Some rep_parts(2) [OF rep] s(2) r
    by (auto simp: lru_erase_def hm_contains_ok hm_index_ok lru_list_def)
qed


lemma eraseIf_loop_refines:
  "lru_rep tr c (us @ vs) \<Longrightarrow> it = (if vs = [] then None else Some (hd vs)) \<Longrightarrow>
   \<exists>c' vs'. lru_eraseIf_loop (\<lambda>_. tr) scrub cb (\<lambda>_. P) it w c =
       Some (Inr (fold (lru_callback cb) (filter (\<lambda>e. P (fst e) (snd e)) (lru_list c vs)) w, c'))
     \<and> lru_rep tr c' (us @ vs')
     \<and> lru_list c' (us @ vs') =
         lru_list c us @ filter (\<lambda>e. \<not> P (fst e) (snd e)) (lru_list c vs)"
proof (induction vs arbitrary: us it w c)
  case Nil
  then show ?case
    by (intro exI [of _ c] exI [of _ "[]"]) (simp add: lru_eraseIf_loop.simps lru_list_def)
next
  case (Cons p vs)
  let ?e = "vl (lc_nodes c) p"
  note rep = Cons.prems(1)
  have it: "it = Some p" using Cons.prems(2) by simp
  have nxt: "nx (lc_nodes c) p = (if vs = [] then None else Some (hd vs))"
    using dll_neighbours(1) [OF rep_parts(1) [OF rep]] .
  show ?case
  proof (cases "P (fst ?e) (snd ?e)")
    case False
    have rep': "lru_rep tr c ((us @ [p]) @ vs)" using rep by simp
    from Cons.IH [OF rep' nxt, of w] obtain c' vs' where
      "lru_eraseIf_loop (\<lambda>_. tr) scrub cb (\<lambda>_. P) (nx (lc_nodes c) p) w c =
         Some (Inr (fold (lru_callback cb) (filter (\<lambda>e. P (fst e) (snd e)) (lru_list c vs)) w, c'))"
      "lru_rep tr c' (us @ p # vs')"
      "lru_list c' (us @ p # vs') = lru_list c (us @ [p]) @ filter (\<lambda>e. \<not> P (fst e) (snd e)) (lru_list c vs)"
      by auto
    with False it show ?thesis
      by (intro exI [of _ c'] exI [of _ "p # vs'"])
        (subst lru_eraseIf_loop.simps, simp add: node_fields lru_list_def)
  next
    case True
    obtain y h l where r: "list_remove scrub p (lc_nodes c) (lc_list c) = (y, h, l)"
      by (cases "list_remove scrub p (lc_nodes c) (lc_list c)") auto
    obtain m where m: "hm_erase tr (lc_map c) (fst ?e) = Inr m"
      "lru_rep tr (c\<lparr>lc_nodes := h, lc_list := l, lc_map := m\<rparr>) (us @ vs)"
      "contents h (us @ vs) = lru_list c (us @ vs)"
      using rep_remove [OF rep r eq_refl] by blast
    let ?c = "c\<lparr>lc_nodes := h, lc_list := l, lc_map := m\<rparr>"
    have same: "lru_list ?c us = lru_list c us" "lru_list ?c vs = lru_list c vs"
      using m(3) by (simp_all add: lru_list_def)
    from Cons.IH [OF m(2) nxt, of "lru_callback cb ?e w"] obtain c' vs' where
      "lru_eraseIf_loop (\<lambda>_. tr) scrub cb (\<lambda>_. P) (nx (lc_nodes c) p)
         (lru_callback cb ?e w) ?c =
         Some (Inr (fold (lru_callback cb) (filter (\<lambda>e. P (fst e) (snd e)) (lru_list c vs))
           (lru_callback cb ?e w), c'))"
      "lru_rep tr c' (us @ vs')"
      "lru_list c' (us @ vs') = lru_list c us @ filter (\<lambda>e. \<not> P (fst e) (snd e)) (lru_list c vs)"
      unfolding same by blast
    with True it m(1) r show ?thesis
      by (intro exI [of _ c'] exI [of _ vs'])
        (subst lru_eraseIf_loop.simps, simp add: node_fields lru_list_def)
  qed
qed

lemma lru_eraseIf_refines:
  assumes rep: "lru_rep tr c ps"
  shows "\<exists>c' ps'. lru_eraseIf (\<lambda>_. tr) scrub cb (\<lambda>_. P) w c =
       Some (Inr (fold (lru_callback cb) (filter (\<lambda>e. P (fst e) (snd e)) (lru_list c ps)) w, c'))
     \<and> lru_rep tr c' ps' \<and> lru_list c' ps' = filter (\<lambda>e. \<not> P (fst e) (snd e)) (lru_list c ps)"
  using eraseIf_loop_refines [of c "[]" ps "m_head (lc_list c)" scrub cb P w]
    dll_ends(1) [OF rep_parts(1) [OF rep]] rep
  by (auto simp: lru_eraseIf_def lru_list_def)

end

lemma flush_loop_runs:
  "chain (nx h) it ps \<Longrightarrow> lru_flush_loop cb h it w = Some (fold (lru_callback cb) (contents h ps) w)"
proof (induction ps arbitrary: it w)
  case Nil
  then show ?case by (simp add: lru_flush_loop.simps)
next
  case (Cons p ps)
  then show ?case by (subst lru_flush_loop.simps) (simp add: node_fields)
qed

lemma fold_callback_None: "fold (lru_callback None) xs w = w"
  by (induction xs arbitrary: w) (simp_all add: lru_callback_def)

context hash_trait begin

lemma lru_flush_refines:
  assumes rep: "lru_rep tr c ps"
  shows "\<exists>c'. lru_flush scrub onEvict onFlush w c =
       Some (fold (lru_callback (if onFlush \<noteq> None then onFlush else onEvict)) (lru_list c ps) w, c')
     \<and> lru_rep tr c' []"
proof -
  let ?cb = "if onFlush \<noteq> None then onFlush else onEvict"
  note parts = rep_parts [OF rep]
  obtain h l where cl: "list_clear scrub (lc_nodes c) (lc_list c) = Some (h, l)" "dll h l []"
    using list_clear_dll [OF parts(1)] by blast
  have "lru_flush_loop ?cb (lc_nodes c) (m_head (lc_list c)) w =
      Some (fold (lru_callback ?cb) (lru_list c ps) w)"
    using parts(1) by (simp add: flush_loop_runs dll_def lru_list_def)
  moreover have "lru_rep tr (c\<lparr>lc_nodes := h, lc_list := l, lc_map := hm_clear (lc_map c)\<rparr>) []"
    by (rule rep_intro [OF cl(2) clear_inv [OF parts(2)]])
      (use parts clear_lookup [OF parts(2)] in \<open>auto simp: hm_clear_def\<close>)
  ultimately show ?thesis
    using cl(1) by (auto simp: lru_flush_def Let_def fold_callback_None)
qed

end

section \<open>Properties\<close>

text \<open>
  C5: \<^verbatim>\<open>LRUCache::insert\<close> implements the recency list: a key that is present moves to the front
  (and keeps its old value), a new key goes to the front, and when the cache is full the least
  recently used entry is dropped, after the eviction callback has seen exactly that entry. The
  list, the map and their sizes stay consistent. (The hypothesis that the callback leaves the
  equality of keys alone is built into the constant trait.)
\<close>
theorem lru_insert_spec:
  assumes "hash_trait tr" and "lru_rep tr c ps" and "p \<notin> set ps"
  shows "\<exists>c' ps'. lru_insert (\<lambda>_. tr) scrub cb p w c key v =
        Inr (if \<not> spec_has tr key (lru_list c ps) \<and> length ps \<ge> lc_capacity c
             then lru_callback cb (last (lru_list c ps)) w else w, c')
      \<and> lru_rep tr c' ps' \<and> lru_list c' ps' = spec_insert tr (lc_capacity c) key v (lru_list c ps)"
  using hash_trait.lru_insert_refines [OF assms] .

theorem lru_insert_spec_witness:
  "\<exists>c' ps'. lru_insert (\<lambda>_. trait_u64) id None 5 () (LRUCache_ctor 2 (\<lambda>_. undefined)) 42 (7 :: nat) = Inr ((), c')
     \<and> lru_rep trait_u64 c' ps' \<and> lru_list c' ps' = [(42, 7)]"
  using lru_insert_spec [OF u64_tr.hash_trait_axioms u64_tr.ctor_rep [of 2 "\<lambda>_. undefined"], of 5 id None "()" 42 7]
  by (auto simp: lru_list_def spec_insert_def spec_has_def LRUCache_ctor_def)

text \<open>
  \<^verbatim>\<open>LRUCache::get\<close> answers from the recency list and makes the entry the most recent one;
  \<^verbatim>\<open>eraseIf\<close> returns, runs the callback on exactly the entries that satisfy the predicate, in
  recency order, and keeps the others.
\<close>
theorem lru_get_eraseIf_spec:
  assumes "hash_trait tr" and "lru_rep tr c ps"
  shows "(\<exists>c' ps'. lru_get tr c key = Inr (chain_find (t_eq tr) key (lru_list c ps), c')
       \<and> lru_rep tr c' ps' \<and> lru_list c' ps' = spec_touch tr key (lru_list c ps))
    \<and> (\<exists>c' ps'. lru_eraseIf (\<lambda>_. tr) scrub cb (\<lambda>_. P) w c =
         Some (Inr (fold (lru_callback cb) (filter (\<lambda>e. P (fst e) (snd e)) (lru_list c ps)) w, c'))
       \<and> lru_rep tr c' ps' \<and> lru_list c' ps' = filter (\<lambda>e. \<not> P (fst e) (snd e)) (lru_list c ps))"
  by (intro conjI hash_trait.lru_get_refines [OF assms] hash_trait.lru_eraseIf_refines [OF assms])

theorem lru_get_eraseIf_spec_witness:
  "(\<exists>c'. lru_get trait_u64 (LRUCache_ctor 2 (\<lambda>_. undefined :: (u64 \<times> nat) node)) 42 = Inr (None, c'))
   \<and> (\<exists>c'. lru_eraseIf (\<lambda>_. trait_u64) id None (\<lambda>_ _ _. True) ()
        (LRUCache_ctor 2 (\<lambda>_. undefined :: (u64 \<times> nat) node)) = Some (Inr ((), c')))"
  using lru_get_eraseIf_spec [OF u64_tr.hash_trait_axioms u64_tr.ctor_rep [of 2 "\<lambda>_. undefined :: (u64 \<times> nat) node"],
      of 42 id None "\<lambda>_ _. True" "()"]
  by (auto simp: lru_list_def)

end
