(* ===== verification/KVector.thy ===== *)
theory KVector
  imports Prelude
begin

text \<open>
  The growable array \<^verbatim>\<open>Vector<T>\<close> of \<^verbatim>\<open>kernel/lib/vector.h\<close>. The data block is a list
  with one element per cell of its capacity. A block fresh from
  \<^verbatim>\<open>MemoryAllocator::kmalloc\<close> holds arbitrary cells, given by the parameter
  \<open>fresh\<close>, and \<open>zero\<close> is the element whose bytes are all zero. Iterators are
  indices into the block.
\<close>

record 'a vec =
  v_data :: "'a list"
  v_capacity :: nat
  v_size :: nat

definition Vector_ctor :: "(nat \<Rightarrow> 'a list) \<Rightarrow> nat \<Rightarrow> 'a vec" where
  "Vector_ctor fresh capacity = \<lparr>v_data = fresh capacity, v_capacity = capacity, v_size = 0\<rparr>"

definition vec_read :: "'a list \<Rightarrow> nat \<Rightarrow> 'a res" where
  "vec_read d i = (if i < length d then Inr (d ! i) else Inl Undefined)"

definition vec_write :: "'a list \<Rightarrow> nat \<Rightarrow> 'a \<Rightarrow> 'a list res" where
  "vec_write d i x = (if i < length d then Inr (d[i := x]) else Inl Undefined)"

definition vec_at :: "'a vec \<Rightarrow> nat \<Rightarrow> 'a res" where
  "vec_at v index =
     (if index \<ge> v_capacity v then Inl (Panic ''Vector::at(): index out of bounds'')
      else vec_read (v_data v) index)"

definition vec_store :: "'a vec \<Rightarrow> nat \<Rightarrow> 'a \<Rightarrow> 'a vec res" where
  "vec_store v index x =
     (if index \<ge> v_capacity v then Inl (Panic ''Vector::operator[](): index out of bounds'')
      else bindE (vec_write (v_data v) index x) (\<lambda>d. Inr (v\<lparr>v_data := d\<rparr>)))"

definition move_cells :: "'a list \<Rightarrow> 'a list \<Rightarrow> nat \<Rightarrow> 'a list" where
  "move_cells new old n = take n old @ drop n new"

definition pushBack :: "(nat \<Rightarrow> 'a list) \<Rightarrow> 'a vec \<Rightarrow> 'a \<Rightarrow> 'a vec res" where
  "pushBack fresh v x =
     (let v1 = (if v_size v = v_capacity v
                then v\<lparr>v_data := move_cells (fresh (v_capacity v * 2)) (v_data v) (v_size v),
                       v_capacity := v_capacity v * 2\<rparr>
                else v)
      in bindE (vec_write (v_data v1) (v_size v1) x)
           (\<lambda>d. Inr (v1\<lparr>v_data := d, v_size := v_size v1 + 1\<rparr>)))"

definition popBack :: "'a vec \<Rightarrow> ('a \<times> 'a vec) res" where
  "popBack v =
     (if v_size v = 0 then Inl (Panic ''Vector::popBack(): vector is empty'')
      else bindE (vec_read (v_data v) (v_size v - 1))
             (\<lambda>x. Inr (x, v\<lparr>v_size := v_size v - 1\<rparr>)))"

definition reserve :: "(nat \<Rightarrow> 'a list) \<Rightarrow> 'a vec \<Rightarrow> nat \<Rightarrow> 'a vec" where
  "reserve fresh v capacity =
     (if capacity \<le> v_capacity v then v
      else v\<lparr>v_data := move_cells (fresh capacity) (v_data v) (v_size v),
             v_capacity := capacity\<rparr>)"

definition resize :: "(nat \<Rightarrow> 'a list) \<Rightarrow> 'a \<Rightarrow> 'a vec \<Rightarrow> nat \<Rightarrow> 'a vec" where
  "resize fresh zero v newSize =
     (let v1 = reserve fresh v newSize;
          v2 = (if newSize > v_size v1
                then v1\<lparr>v_data := take (v_size v1) (v_data v1)
                          @ replicate (newSize - v_size v1) zero
                          @ drop newSize (v_data v1)\<rparr>
                else v1)
      in v2\<lparr>v_size := newSize\<rparr>)"

definition vec_clear :: "'a vec \<Rightarrow> 'a vec" where
  "vec_clear v = v\<lparr>v_size := 0\<rparr>"

definition vec_reset :: "'a vec \<Rightarrow> 'a list \<Rightarrow> nat \<Rightarrow> 'a vec" where
  "vec_reset v newData newCap = v\<lparr>v_data := newData, v_capacity := newCap, v_size := newCap\<rparr>"

definition vec_front :: "'a vec \<Rightarrow> 'a res" where
  "vec_front v = (if v_size v = 0 then Inl (Panic ''Vector::front(): vector is empty'')
                  else vec_read (v_data v) 0)"

definition vec_back :: "'a vec \<Rightarrow> 'a res" where
  "vec_back v = (if v_size v = 0 then Inl (Panic ''Vector::back(): vector is empty'')
                 else vec_read (v_data v) (v_size v - 1))"

function vec_set_loop :: "'a list \<Rightarrow> nat \<Rightarrow> nat \<Rightarrow> 'a \<Rightarrow> 'a list res" where
  "vec_set_loop d it e x =
     (if it < e then bindE (vec_write d it x) (\<lambda>d'. vec_set_loop d' (it + 1) e x) else Inr d)"
  by auto
termination by (relation "measure (\<lambda>(_, it, e, _). e - it)") auto

declare vec_set_loop.simps [simp del]

definition vec_set :: "'a vec \<Rightarrow> nat \<Rightarrow> nat \<Rightarrow> 'a \<Rightarrow> 'a vec res" where
  "vec_set v b e x =
     (if b = e then Inr v
      else if \<not> b < e then Inl (Panic ''Vector::set(): iterator is out of bounds'')
      else bindE (vec_set_loop (v_data v) b e x) (\<lambda>d. Inr (v\<lparr>v_data := d\<rparr>)))"

definition vec_fill :: "'a vec \<Rightarrow> 'a \<Rightarrow> 'a vec res" where
  "vec_fill v x = bindE (vec_set_loop (v_data v) 0 (v_capacity v) x)
                    (\<lambda>d. Inr (v\<lparr>v_data := d\<rparr>))"

section \<open>Invariant and contents\<close>

definition vec_inv :: "'a vec \<Rightarrow> bool" where
  "vec_inv v \<longleftrightarrow> length (v_data v) = v_capacity v \<and> v_size v \<le> v_capacity v \<and> 0 < v_capacity v"

definition vec_list :: "'a vec \<Rightarrow> 'a list" where
  "vec_list v = take (v_size v) (v_data v)"

lemma length_move_cells [simp]:
  "n \<le> length old \<Longrightarrow> n \<le> length new \<Longrightarrow> length (move_cells new old n) = length new"
  by (simp add: move_cells_def)

lemma pushBack_list:
  assumes "vec_inv v" and "\<And>n. length (fresh n) = n"
  shows "\<exists>v'. pushBack fresh v x = Inr v' \<and> vec_inv v' \<and> vec_list v' = vec_list v @ [x]"
  using assms
  by (auto simp: pushBack_def vec_inv_def vec_list_def vec_write_def move_cells_def
      take_Suc_conv_app_nth)

lemma popBack_list:
  assumes "vec_inv v" and "vec_list v \<noteq> []"
  shows "\<exists>v'. popBack v = Inr (last (vec_list v), v') \<and> vec_inv v'
           \<and> vec_list v' = butlast (vec_list v)"
proof -
  have "0 < v_size v" and le: "v_size v \<le> length (v_data v)"
    using assms by (auto simp: vec_inv_def vec_list_def)
  then obtain n where n: "v_size v = Suc n" by (cases "v_size v") auto
  with le have "vec_list v = take n (v_data v) @ [v_data v ! n]"
    by (simp add: vec_list_def take_Suc_conv_app_nth)
  with n le assms(1) show ?thesis
    by (auto simp: popBack_def vec_read_def vec_inv_def vec_list_def)
qed

lemma resize_list:
  assumes "vec_inv v" and "\<And>n. length (fresh n) = n"
  shows "vec_inv (resize fresh zero v n)"
    and "vec_list (resize fresh zero v n) =
         take n (vec_list v) @ replicate (n - v_size v) zero"
  using assms
  by (auto simp: resize_def reserve_def vec_inv_def vec_list_def move_cells_def Let_def min_def)

lemma vec_set_loop_all:
  "i \<le> length d \<Longrightarrow>
   vec_set_loop d i (length d) x = Inr (take i d @ replicate (length d - i) x)"
proof (induction "length d - i" arbitrary: d i)
  case 0
  then show ?case by (simp add: vec_set_loop.simps)
next
  case (Suc k)
  then have i: "i < length d" by simp
  have "vec_set_loop (d[i := x]) (Suc i) (length (d[i := x])) x =
        Inr (take (Suc i) (d[i := x]) @ replicate (length d - Suc i) x)"
    using Suc(2) i by (subst Suc(1)) auto
  with i show ?case
    by (subst vec_set_loop.simps)
      (simp add: vec_write_def take_Suc_conv_app_nth Suc_diff_Suc flip: replicate_Suc)
qed

lemma vec_fill_list:
  assumes "vec_inv v"
  shows "\<exists>v'. vec_fill v x = Inr v' \<and> vec_inv v' \<and> v_data v' = replicate (v_capacity v) x"
  using assms vec_set_loop_all [of 0 "v_data v" x] by (simp add: vec_fill_def vec_inv_def)

section \<open>Properties\<close>

text \<open>
  \<^verbatim>\<open>Vector::pushBack\<close> appends, growing the storage when it is full, and \<^verbatim>\<open>popBack\<close> then
  gives the element back and leaves the vector's contents as they were.
\<close>
theorem pushBack_popBack:
  assumes "vec_inv v" and "\<And>n. length (fresh n) = n"
  shows "\<exists>v1 v2. pushBack fresh v x = Inr v1 \<and> vec_inv v1 \<and> vec_list v1 = vec_list v @ [x]
     \<and> popBack v1 = Inr (x, v2) \<and> vec_inv v2 \<and> vec_list v2 = vec_list v"
proof -
  obtain v1 where v1: "pushBack fresh v x = Inr v1" "vec_inv v1" "vec_list v1 = vec_list v @ [x]"
    using pushBack_list [OF assms] by blast
  from popBack_list [OF v1(2)] v1(3) obtain v2
    where "popBack v1 = Inr (x, v2)" "vec_inv v2" "vec_list v2 = vec_list v" by auto
  with v1 show ?thesis by blast
qed

theorem pushBack_popBack_witness:
  "\<exists>v1 v2. pushBack (\<lambda>n. replicate n 0) \<lparr>v_data = [7], v_capacity = 1, v_size = 1\<rparr> (9 :: nat) = Inr v1
     \<and> vec_list v1 = [7, 9] \<and> popBack v1 = Inr (9, v2)"
  using pushBack_popBack [of "\<lparr>v_data = [7], v_capacity = 1, v_size = 1\<rparr>" "\<lambda>n. replicate n 0" 9]
  by (auto simp: vec_inv_def vec_list_def)

end
