(* ===== verification/Buddy.thy ===== *)
theory Buddy
  imports MemLayout
begin

text \<open>
  The page allocator of \<^verbatim>\<open>kernel/mm/kalloc/buddy.cpp\<close>. Blocks are numbered by pages
  from the start of the heap. \<open>m_buddy[i]\<close> heads the free list of blocks of \<open>2^i\<close>
  pages, and the first word of a free block holds the number of the next one;
  the end marker \<open>-1\<close> is \<open>None\<close>. Each operation holds \<^verbatim>\<open>m_lock\<close> from its first to
  its last line, so it is one step. The loops that follow a free list are
  partial functions; on well-formed lists they return.
\<close>

section \<open>State and operations\<close>

record buddy =
  m_buddy :: "nat \<Rightarrow> nat option"
  b_link :: "nat \<Rightarrow> nat option"
  m_startAddr :: u64
  m_freeSpace :: u64

definition START_POW :: nat where "START_POW = PAGE_SHIFT"
definition END_POW :: nat where "END_POW = MEM_LIMIT_SHIFT"
definition BUDDY_SIZE :: nat where "BUDDY_SIZE = END_POW - START_POW + 1"

lemma BUDDY_SIZE_eq [simp]: "BUDDY_SIZE = 16"
  by (simp add: BUDDY_SIZE_def END_POW_def START_POW_def PAGE_SHIFT_def MEM_LIMIT_SHIFT_def)

definition blockToPtr :: "buddy \<Rightarrow> nat \<Rightarrow> u64" where
  "blockToPtr st block = m_startAddr st + of_nat block * PAGE_SIZE"

definition ptrToBlock :: "buddy \<Rightarrow> u64 \<Rightarrow> nat" where
  "ptrToBlock st ptr = unat ((ptr - m_startAddr st) div PAGE_SIZE)"

definition putAtBlock :: "nat \<Rightarrow> nat option \<Rightarrow> buddy \<Rightarrow> buddy" where
  "putAtBlock block value st = st\<lparr>b_link := (b_link st)(block := value)\<rparr>"

definition getAtBlock :: "buddy \<Rightarrow> nat \<Rightarrow> nat option" where
  "getAtBlock st block = b_link st block"

definition set_head :: "nat \<Rightarrow> nat option \<Rightarrow> buddy \<Rightarrow> buddy" where
  "set_head entry v st = st\<lparr>m_buddy := (m_buddy st)(entry := v)\<rparr>"

text \<open>\<open>init\<close>: the loop index \<open>i\<close> runs down from \<open>BUDDY_SIZE - 1\<close>; here it is one more.\<close>

function init_loop :: "nat \<Rightarrow> nat \<Rightarrow> nat \<Rightarrow> buddy \<Rightarrow> buddy" where
  "init_loop blockNum i1 block st =
     (if blockNum > 0 \<and> i1 > 0 then
        (let i = i1 - 1; sz = 2 ^ i in
         if blockNum \<ge> sz then
           (let st1 = (if m_buddy st i = None
                       then putAtBlock block None (set_head i (Some block) st)
                       else set_head i (Some block) (putAtBlock block (m_buddy st i) st))
            in init_loop (blockNum - sz) i1 (block + sz) st1)
         else init_loop blockNum (i1 - 1) block st)
      else st)"
  by auto
termination by (relation "measure (\<lambda>(n, i, _, _). n + i)") auto

definition buddy_init :: "u64 \<Rightarrow> u64 \<Rightarrow> (nat \<Rightarrow> nat option) \<Rightarrow> buddy" where
  "buddy_init heap_start kernel_end mem =
     (let start = pageRoundUp heap_start;
          blockNum = (kernel_end - start) div PAGE_SIZE
      in init_loop (unat blockNum) BUDDY_SIZE 0
           \<lparr>m_buddy = (\<lambda>_. None), b_link = mem, m_startAddr = start,
            m_freeSpace = blockNum * PAGE_SIZE\<rparr>)"

function alloc_order :: "nat \<Rightarrow> nat \<Rightarrow> nat" where
  "alloc_order sz i = (if sz > 2 ^ (START_POW + i) then alloc_order sz (i + 1) else i)"
  by auto
termination
proof (relation "measure (\<lambda>(sz, i). sz - i)")
  fix sz i :: nat
  assume "2 ^ (START_POW + i) < sz"
  moreover have "i < 2 ^ (START_POW + i)"
    by (rule less_le_trans [OF less_exp]) (simp add: power_increasing)
  ultimately show "((sz, i + 1), sz, i) \<in> measure (\<lambda>(sz, i). sz - i)" by simp
qed simp

function find_nonempty :: "buddy \<Rightarrow> nat \<Rightarrow> nat \<Rightarrow> nat" where
  "find_nonempty st entry diff =
     (if m_buddy st (entry + diff) = None \<and> entry + diff < BUDDY_SIZE
      then find_nonempty st entry (diff + 1) else diff)"
  by auto
termination by (relation "measure (\<lambda>(_, entry, diff). BUDDY_SIZE - (entry + diff))") auto

text \<open>The link of the list head; on an empty list the source would read through \<open>-1\<close>.\<close>

definition pop_head :: "nat \<Rightarrow> buddy \<Rightarrow> buddy" where
  "pop_head l st =
     set_head l (case m_buddy st l of Some b \<Rightarrow> getAtBlock st b | None \<Rightarrow> None) st"

primrec split_loop :: "nat \<Rightarrow> nat \<Rightarrow> buddy \<Rightarrow> buddy" where
  "split_loop entry 0 st = st"
| "split_loop entry (Suc d) st =
     (case m_buddy st (entry + Suc d) of
        None \<Rightarrow> st
      | Some block \<Rightarrow>
          (let st1 = pop_head (entry + Suc d) st;
               st2 = set_head (entry + d) (Some block)
                       (putAtBlock block (m_buddy st1 (entry + d)) st1);
               block2 = block + 2 ^ (START_POW + entry + d) div 4096;
               st3 = set_head (entry + d) (Some block2)
                       (putAtBlock block2 (m_buddy st2 (entry + d)) st2)
           in split_loop entry d st3))"

definition buddy_alloc :: "nat \<Rightarrow> buddy \<Rightarrow> u64 option \<times> buddy" where
  "buddy_alloc sz st =
     (let entry = alloc_order sz 0;
          diff = find_nonempty st entry 0
      in if entry + diff \<ge> BUDDY_SIZE then (None, st)
         else
           let st1 = split_loop entry diff st;
               ptr = map_option (blockToPtr st1) (m_buddy st1 entry);
               st2 = pop_head entry st1
           in (ptr, st2\<lparr>m_freeSpace := m_freeSpace st2 - of_nat sz\<rparr>))"

function order_loop :: "nat \<Rightarrow> nat \<Rightarrow> nat" where
  "order_loop n order = (if n > 2 ^ order then order_loop n (order + 1) else order)"
  by auto
termination
proof (relation "measure (\<lambda>(n, order). n - order)")
  fix n order :: nat
  assume "2 ^ order < n"
  then have "order < n" using less_exp [of order] by (rule less_trans [rotated])
  then show "((n, order + 1), n, order) \<in> measure (\<lambda>(n, order). n - order)" by simp
qed simp

definition getOrder :: "nat \<Rightarrow> nat" where
  "getOrder sz = order_loop ((sz + 4096 - 1) div 4096) 0"

partial_function (option) put_find ::
  "(nat \<Rightarrow> nat option) \<Rightarrow> nat \<Rightarrow> nat option \<Rightarrow> nat option \<Rightarrow> (nat option \<times> nat option) option" where
  "put_find link block cur prev =
     (case cur of
        None \<Rightarrow> Some (prev, cur)
      | Some c \<Rightarrow> if block > c then put_find link block (link c) (Some c) else Some (prev, cur))"

definition putBlock :: "nat \<Rightarrow> nat \<Rightarrow> buddy \<Rightarrow> buddy option" where
  "putBlock entry block st =
     (if entry \<ge> BUDDY_SIZE then Some st
      else case put_find (b_link st) block (m_buddy st entry) None of
        None \<Rightarrow> None
      | Some (None, cur) \<Rightarrow> Some (putAtBlock block cur (set_head entry (Some block) st))
      | Some (Some prev, cur) \<Rightarrow> Some (putAtBlock block cur (putAtBlock prev (Some block) st)))"

text \<open>
  The body of \<open>merge(entry)\<close> from its \<open>do\<close> on, with the four cursors as arguments;
  the recursive call \<open>merge(entry + 1)\<close> restarts it on the next list.
\<close>

partial_function (option) merge_loop ::
  "nat \<Rightarrow> nat option \<Rightarrow> nat option \<Rightarrow> nat option \<Rightarrow> nat option \<Rightarrow> buddy \<Rightarrow> buddy option" where
  "merge_loop entry first second third fourth st =
     (if second \<noteq> None \<and> third \<noteq> None
         \<and> int (the third) - int (the second) = 2 ^ entry
         \<and> the second mod 2 ^ (entry + 1) = 0
      then Option.bind (putBlock (entry + 1) (the second) st)
        (\<lambda>st1.
          let st2 = (case first of
                       None \<Rightarrow> set_head entry fourth st1
                     | Some f \<Rightarrow> putAtBlock f fourth st1)
          in if entry + 1 \<ge> BUDDY_SIZE then Some st2
             else merge_loop (entry + 1) None None None (m_buddy st2 (entry + 1)) st2)
      else case fourth of
        None \<Rightarrow> Some st
      | Some f \<Rightarrow> merge_loop entry second third fourth (getAtBlock st f) st)"

definition merge :: "nat \<Rightarrow> buddy \<Rightarrow> buddy option" where
  "merge entry st =
     (if entry \<ge> BUDDY_SIZE then Some st
      else merge_loop entry None None None (m_buddy st entry) st)"

definition buddy_free :: "u64 \<Rightarrow> nat \<Rightarrow> buddy \<Rightarrow> buddy option" where
  "buddy_free ptr sz st =
     (let block = ptrToBlock st ptr; entry = getOrder sz in
      Option.bind (putBlock entry block st) (\<lambda>st1.
      Option.bind (merge entry st1) (\<lambda>st2.
        Some (st2\<lparr>m_freeSpace := m_freeSpace st2 + of_nat sz\<rparr>))))"

declare init_loop.simps [simp del] alloc_order.simps [simp del]
declare find_nonempty.simps [simp del] order_loop.simps [simp del]

section \<open>Well-formed free lists\<close>

text \<open>The abstract state: for each order the list of its free blocks.\<close>

type_synonym free_lists = "nat \<Rightarrow> nat list"

definition represents :: "buddy \<Rightarrow> free_lists \<Rightarrow> bool" where
  "represents st F \<longleftrightarrow> (\<forall>e < BUDDY_SIZE. chain (b_link st) (m_buddy st e) (F e))"

definition region :: "nat \<Rightarrow> nat \<Rightarrow> nat set" where
  "region e b = {b ..< b + 2 ^ e}"

definition free_pages :: "free_lists \<Rightarrow> nat set" where
  "free_pages F = (\<Union>e < BUDDY_SIZE. \<Union>b \<in> set (F e). region e b)"

text \<open>Blocks are aligned to their size, inside the heap of \<open>N\<close> pages, and disjoint.\<close>

definition geometry :: "nat \<Rightarrow> free_lists \<Rightarrow> bool" where
  "geometry N F \<longleftrightarrow>
     (\<forall>e < BUDDY_SIZE. \<forall>b \<in> set (F e). 2 ^ e dvd b \<and> b + 2 ^ e \<le> N)
     \<and> (\<forall>e < BUDDY_SIZE. \<forall>e' < BUDDY_SIZE. \<forall>b \<in> set (F e). \<forall>b' \<in> set (F e').
          region e b \<inter> region e' b' \<noteq> {} \<longrightarrow> e = e' \<and> b = b')
     \<and> (\<forall>e < BUDDY_SIZE. sorted_wrt (<) (F e))"

definition buddies :: "nat \<Rightarrow> nat \<Rightarrow> nat \<Rightarrow> bool" where
  "buddies e s t \<longleftrightarrow> t = s + 2 ^ e \<and> 2 ^ (e + 1) dvd s"

definition no_pair :: "nat \<Rightarrow> nat list \<Rightarrow> bool" where
  "no_pair e xs \<longleftrightarrow> (\<forall>s \<in> set xs. \<forall>t \<in> set xs. \<not> buddies e s t)"

definition buddy_inv :: "nat \<Rightarrow> buddy \<Rightarrow> free_lists \<Rightarrow> bool" where
  "buddy_inv N st F \<longleftrightarrow>
     represents st F \<and> geometry N F \<and> (\<forall>e < BUDDY_SIZE. no_pair e (F e))"

lemma representsD: "represents st F \<Longrightarrow> e < 16 \<Longrightarrow> chain (b_link st) (m_buddy st e) (F e)"
  by (simp add: represents_def)

lemma region_start [simp]: "b \<in> region e b"
  by (simp add: region_def)

lemma geometryD:
  assumes "geometry N F" and "e < 16" and "b \<in> set (F e)"
  shows "2 ^ e dvd b" and "b + 2 ^ e \<le> N"
  using assms by (auto simp: geometry_def)

lemma geometry_disjoint:
  "geometry N F \<Longrightarrow> e < 16 \<Longrightarrow> e' < 16 \<Longrightarrow> b \<in> set (F e) \<Longrightarrow> b' \<in> set (F e') \<Longrightarrow>
   x \<in> region e b \<Longrightarrow> x \<in> region e' b' \<Longrightarrow> e = e' \<and> b = b'"
  by (simp add: geometry_def) blast

lemma geometry_sorted: "geometry N F \<Longrightarrow> e < 16 \<Longrightarrow> sorted_wrt (<) (F e)"
  by (simp add: geometry_def)

lemma in_free_pages:
  "x \<in> free_pages F \<longleftrightarrow> (\<exists>e < 16. \<exists>b \<in> set (F e). x \<in> region e b)"
  by (auto simp: free_pages_def)

lemma free_pagesI: "e < 16 \<Longrightarrow> b \<in> set (F e) \<Longrightarrow> x \<in> region e b \<Longrightarrow> x \<in> free_pages F"
  by (auto simp: free_pages_def)

lemma free_pagesE:
  assumes "x \<in> free_pages F"
  obtains e b where "e < 16" "b \<in> set (F e)" "x \<in> region e b"
  using assms by (auto simp: free_pages_def)

lemma buddy_inv_fields [simp]: "represents (st\<lparr>m_freeSpace := x\<rparr>) F = represents st F"
  by (simp add: represents_def)

section \<open>Orders\<close>

lemma START_POW_eq [simp]: "START_POW = 12"
  by (simp add: START_POW_def PAGE_SHIFT_def)

lemma alloc_order_bound:
  "sz \<le> 2 ^ (12 + alloc_order sz i) \<and> i \<le> alloc_order sz i
   \<and> (\<forall>j. i \<le> j \<and> j < alloc_order sz i \<longrightarrow> 2 ^ (12 + j) < sz)"
proof (induction sz i rule: alloc_order.induct)
  case (1 sz i)
  show ?case
  proof (cases "sz > 2 ^ (START_POW + i)")
    case True
    have "alloc_order sz i = alloc_order sz (i + 1)" using True by (subst alloc_order.simps) simp
    with 1 [OF True] True all_from_Suc [of "\<lambda>j. 2 ^ (12 + j) < sz" i "alloc_order sz (i + 1)"]
    show ?thesis by simp
  next
    case False
    then show ?thesis by (subst (1 2 3) alloc_order.simps) simp
  qed
qed

lemma order_loop_bound:
  "n \<le> 2 ^ order_loop n i \<and> i \<le> order_loop n i
   \<and> (\<forall>j. i \<le> j \<and> j < order_loop n i \<longrightarrow> 2 ^ j < n)"
proof (induction n i rule: order_loop.induct)
  case (1 n i)
  show ?case
  proof (cases "n > 2 ^ i")
    case True
    have "order_loop n i = order_loop n (i + 1)" using True by (subst order_loop.simps) simp
    with 1 [OF True] True all_from_Suc [of "\<lambda>j. 2 ^ j < n" i "order_loop n (i + 1)"]
    show ?thesis by simp
  next
    case False
    then show ?thesis by (subst (1 2 3) order_loop.simps) simp
  qed
qed

text \<open>The two ways the allocator computes the order of a request agree.\<close>

lemma pages_le_iff: "(sz + 4096 - 1) div 4096 \<le> k \<longleftrightarrow> sz \<le> k * (4096 :: nat)"
  by arith

lemma getOrder_alloc_order: "getOrder sz = alloc_order sz 0"
proof -
  let ?n = "(sz + 4096 - 1) div 4096"
  have le: "?n \<le> 2 ^ j \<longleftrightarrow> sz \<le> 2 ^ (12 + j)" for j
    unfolding pages_le_iff by (simp add: power_add mult.commute)
  note a = alloc_order_bound [of sz 0] and o = order_loop_bound [of ?n 0]
  have "\<not> order_loop ?n 0 < alloc_order sz 0" using a o le by (metis leD le0)
  moreover have "\<not> alloc_order sz 0 < order_loop ?n 0" using a o le by (metis leD le0)
  ultimately show ?thesis by (simp add: getOrder_def)
qed

lemma find_nonempty_spec:
  "entry + diff \<le> 16 \<Longrightarrow>
   diff \<le> find_nonempty st entry diff \<and> entry + find_nonempty st entry diff \<le> 16
   \<and> (\<forall>l. entry + diff \<le> l \<and> l < entry + find_nonempty st entry diff \<longrightarrow> m_buddy st l = None)
   \<and> (entry + find_nonempty st entry diff < 16 \<longrightarrow>
        m_buddy st (entry + find_nonempty st entry diff) \<noteq> None)"
proof (induction st entry diff rule: find_nonempty.induct)
  case (1 st entry diff)
  show ?case
  proof (cases "m_buddy st (entry + diff) = None \<and> entry + diff < BUDDY_SIZE")
    case True
    have eq: "find_nonempty st entry diff = find_nonempty st entry (diff + 1)"
      using True by (subst find_nonempty.simps) simp
    from "1.IH" [OF True] True all_from_Suc [of "\<lambda>l. m_buddy st l = None" "entry + diff"
        "entry + find_nonempty st entry (diff + 1)"]
    show ?thesis unfolding eq by (simp add: add.assoc)
  next
    case False
    then have "find_nonempty st entry diff = diff" by (subst find_nonempty.simps) auto
    with False "1.prems" show ?thesis by auto
  qed
qed

section \<open>Splitting\<close>

lemma putAtBlock_fields [simp]:
  "m_buddy (putAtBlock b v st) = m_buddy st" "b_link (putAtBlock b v st) = (b_link st)(b := v)"
  "m_startAddr (putAtBlock b v st) = m_startAddr st"
  "m_freeSpace (putAtBlock b v st) = m_freeSpace st"
  by (simp_all add: putAtBlock_def)

lemma set_head_fields [simp]:
  "m_buddy (set_head e v st) = (m_buddy st)(e := v)" "b_link (set_head e v st) = b_link st"
  "m_startAddr (set_head e v st) = m_startAddr st"
  "m_freeSpace (set_head e v st) = m_freeSpace st"
  by (simp_all add: set_head_def)

lemma pop_head_fields [simp]:
  "b_link (pop_head e st) = b_link st" "m_startAddr (pop_head e st) = m_startAddr st"
  "m_freeSpace (pop_head e st) = m_freeSpace st"
  by (simp_all add: pop_head_def)

lemma pop_head_represents:
  assumes "represents st F" and "e < 16" and "F e = b # rest"
  shows "represents (pop_head e st) (F(e := rest))" and "m_buddy st e = Some b"
proof -
  have "m_buddy st e = Some b" "chain (b_link st) (b_link st b) rest"
    using representsD [OF assms(1,2)] assms(3) by auto
  then show "represents (pop_head e st) (F(e := rest))" "m_buddy st e = Some b"
    using assms(1) by (auto simp: represents_def pop_head_def getAtBlock_def)
qed

text \<open>Pushing a block that is on no list.\<close>

lemma push_represents:
  assumes "represents st F" and "\<And>l. l < 16 \<Longrightarrow> b \<notin> set (F l)"
  shows "represents (set_head e (Some b) (putAtBlock b (m_buddy st e) st)) (F(e := b # F e))"
  using assms by (auto simp: represents_def)

text \<open>
  Splitting the head \<open>b\<close> of the list of order \<open>L\<close> down to order \<open>entry\<close> leaves one
  block on each order in between; the last upper half is the one handed out.
\<close>

definition split_lists :: "free_lists \<Rightarrow> nat \<Rightarrow> nat \<Rightarrow> nat \<Rightarrow> nat list \<Rightarrow> free_lists" where
  "split_lists F entry L b rest =
     (\<lambda>l. if l = L then rest
          else if entry \<le> l \<and> l < L then [b + 2 ^ L - 2 ^ (l + 1)] else F l)"

lemma split_loop_represents:
  "represents st F \<Longrightarrow> entry + d < 16 \<Longrightarrow> F (entry + d) = b # rest \<Longrightarrow>
   (\<And>l. entry \<le> l \<Longrightarrow> l < entry + d \<Longrightarrow> F l = []) \<Longrightarrow>
   (\<And>l b'. l < 16 \<Longrightarrow> b' \<in> set (F l) \<Longrightarrow> b < b' \<Longrightarrow> b' < b + 2 ^ (entry + d) \<Longrightarrow> False) \<Longrightarrow>
   b \<notin> set rest \<Longrightarrow> (\<And>l. l < 16 \<Longrightarrow> l \<noteq> entry + d \<Longrightarrow> b \<notin> set (F l)) \<Longrightarrow>
   represents (split_loop entry d st)
     ((split_lists F entry (entry + d) b rest)
        (entry := (b + 2 ^ (entry + d) - 2 ^ entry) # split_lists F entry (entry + d) b rest entry))"
proof (induction d arbitrary: st F b rest)
  case 0
  let ?G = "split_lists F entry entry b rest"
  have "?G(entry := b # ?G entry) = F"
    using 0 by (auto simp: split_lists_def)
  with 0 show ?case by (simp only: add_0_right split_loop.simps diff_add_inverse2)
next
  case (Suc d)
  let ?L = "entry + Suc d" and ?M = "entry + d"
  let ?b2 = "b + 2 ^ ?M"
  let ?st1 = "pop_head ?L st" and ?F1 = "F(?L := rest)"
  let ?st2 = "set_head ?M (Some b) (putAtBlock b (m_buddy ?st1 ?M) ?st1)"
  let ?F2 = "?F1(?M := [b])"
  let ?st3 = "set_head ?M (Some ?b2) (putAtBlock ?b2 (m_buddy ?st2 ?M) ?st2)"
  let ?F3 = "?F1(?M := [?b2, b])"
  have hd: "m_buddy st ?L = Some b" and r1: "represents ?st1 ?F1"
    using pop_head_represents [OF Suc.prems(1-3)] by auto
  have emp: "F ?M = []" using Suc.prems(4) [of ?M] by simp
  have "represents ?st2 (?F1(?M := b # ?F1 ?M))"
    by (rule push_represents [OF r1]) (use Suc.prems(6,7) in auto)
  then have r2: "represents ?st2 ?F2" using emp by simp
  have new: "?b2 \<notin> set (F l)" if "l < 16" for l
    using Suc.prems(5) [OF that, of ?b2] by auto
  have "represents ?st3 (?F2(?M := ?b2 # ?F2 ?M))"
  proof (rule push_represents [OF r2])
    fix l :: nat assume "l < 16"
    then show "?b2 \<notin> set (?F2 l)"
      using new [of l] new [of ?L] Suc.prems(2,3) by auto
  qed
  then have r3: "represents ?st3 ?F3" by simp
  have run: "split_loop entry (Suc d) st = split_loop entry d ?st3"
    using hd by (simp add: Let_def power_add)
  let ?G = "split_lists ?F3 entry ?M ?b2 [b]"
  have IH: "represents (split_loop entry d ?st3)
      (?G(entry := (?b2 + 2 ^ ?M - 2 ^ entry) # ?G entry))"
  proof (rule Suc.IH [OF r3])
    show "entry + d < 16" "?F3 ?M = ?b2 # [b]" "?b2 \<notin> set [b]" using Suc.prems(2) by simp_all
    show "?F3 l = []" if "entry \<le> l" "l < ?M" for l
      using Suc.prems(4) [of l] that by simp
    show False if "l < 16" "b' \<in> set (?F3 l)" "?b2 < b'" "b' < ?b2 + 2 ^ ?M" for l b'
      using that Suc.prems(5) [of l b'] Suc.prems(5) [of ?L b'] Suc.prems(2,3)
      by (auto split: if_splits)
    show "?b2 \<notin> set (?F3 l)" if "l < 16" "l \<noteq> ?M" for l
      using that new [of l] new [of ?L] Suc.prems(2,3) by auto
  qed
  have eq: "?G = split_lists F entry ?L b rest"
    by (rule ext) (auto simp: split_lists_def algebra_simps)
  have eq2: "?b2 + 2 ^ ?M - 2 ^ entry = b + 2 ^ ?L - 2 ^ entry" by simp
  show ?case using IH unfolding run eq eq2 .
qed

lemma between_powers:
  "2 ^ e < n \<Longrightarrow> n \<le> 2 ^ L \<Longrightarrow> \<exists>l. e \<le> l \<and> l < L \<and> 2 ^ l < n \<and> n \<le> (2 :: nat) ^ (l + 1)"
proof (induction L)
  case 0
  then have "n \<le> 1" by simp
  moreover have "1 \<le> (2 :: nat) ^ e" by simp
  ultimately show ?case using 0 by linarith
next
  case (Suc L)
  show ?case
  proof (cases "n \<le> 2 ^ L")
    case True
    with Suc show ?thesis using less_SucI by blast
  next
    case False
    have "\<not> L < e" using Suc.prems False power_increasing [of "Suc L" e "2 :: nat"] by fastforce
    with False Suc.prems show ?thesis by (intro exI [of _ L]) auto
  qed
qed

lemma pow_halves_le: "l < L \<Longrightarrow> (2 :: nat) ^ (l + 1) \<le> 2 ^ L"
  by (rule power_increasing) auto

lemma split_lists_mem:
  assumes "F L = b # rest" and "distinct (F L)"
  shows "x \<in> set (split_lists F entry L b rest l) \<longleftrightarrow>
    (if entry \<le> l \<and> l < L then x = b + 2 ^ L - 2 ^ (l + 1)
     else x \<in> set (F l) \<and> \<not> (l = L \<and> x = b))"
  using assms by (auto simp: split_lists_def)

lemma split_region:
  assumes "l < L"
  shows "region l (b + 2 ^ L - 2 ^ (l + 1)) = {b + 2 ^ L - 2 ^ (l + 1) ..< b + 2 ^ L - 2 ^ l}"
    and "region l (b + 2 ^ L - 2 ^ (l + 1)) \<subseteq> region L b"
  using pow_halves_le [OF assms] by (auto simp: region_def)

lemma split_disjoint:
  assumes "l < l'" and "l' < L"
  shows "region l (b + 2 ^ L - 2 ^ (l + 1)) \<inter> region l' (b + 2 ^ L - 2 ^ (l' + 1)) = {}"
proof -
  have "b + 2 ^ L - 2 ^ l' \<le> b + 2 ^ L - 2 ^ (l + 1)"
    using pow_halves_le [OF assms(1)] by (rule diff_le_mono2)
  then show ?thesis
    unfolding split_region(1) [OF assms(2)] split_region(1) [OF less_trans [OF assms]] by auto
qed

lemma split_geometry:
  assumes geo: "geometry N F" and L: "L < 16" and F: "F L = b # rest"
  shows "geometry N (split_lists F entry L b rest)"
proof -
  let ?G = "split_lists F entry L b rest"
  let ?new = "\<lambda>l. entry \<le> l \<and> l < L" and ?x = "\<lambda>l. b + 2 ^ L - 2 ^ (l + 1)"
  have dis: "distinct (F L)"
    using geometry_sorted [OF geo L] by (simp add: strict_sorted_iff)
  note mem = split_lists_mem [of F, OF F dis]
  have b: "b \<in> set (F L)" using F by simp
  note bN = geometryD [OF geo L b]
  have old: "x \<in> region l y \<Longrightarrow> l < 16 \<Longrightarrow> y \<in> set (F l) \<Longrightarrow> \<not> (l = L \<and> y = b) \<Longrightarrow> x \<notin> region L b"
    for l x y using geometry_disjoint [OF geo _ L _ b] by blast
  have al: "2 ^ l dvd y \<and> y + 2 ^ l \<le> N" if l: "l < 16" and y: "y \<in> set (?G l)" for l y
  proof (cases "?new l")
    case True
    then have "(2 :: nat) ^ l dvd 2 ^ L" by (simp add: le_imp_power_dvd)
    then have "2 ^ l dvd ?x l" using bN(1) dvd_trans by (intro dvd_diff_nat dvd_add) auto
    with True y bN(2) pow_halves_le [of l L] show ?thesis by (simp add: mem)
  next
    case False
    with y geometryD [OF geo l, of y] show ?thesis by (simp add: mem)
  qed
  have dj: "l = l' \<and> y = y'" if l: "l < 16" "l' < 16" and y: "y \<in> set (?G l)" "y' \<in> set (?G l')"
    and x: "x \<in> region l y" "x \<in> region l' y'" for l l' y y' x
  proof (cases "?new l"; cases "?new l'")
    assume n: "?new l" "?new l'"
    then have "\<not> l < l'" "\<not> l' < l"
      using y x split_disjoint [of l l' L b] split_disjoint [of l' l L b] by (auto simp: mem)
    with n y show ?thesis by (auto simp: mem)
  next
    assume n: "?new l" "\<not> ?new l'"
    then have "x \<in> region L b" using y x split_region(2) [of l L b] by (auto simp: mem)
    with old [OF x(2) l(2)] y(2) n(2) show ?thesis by (simp add: mem)
  next
    assume n: "\<not> ?new l" "?new l'"
    then have "x \<in> region L b" using y x split_region(2) [of l' L b] by (auto simp: mem)
    with old [OF x(1) l(1)] y(1) n(1) show ?thesis by (simp add: mem)
  next
    assume n: "\<not> ?new l" "\<not> ?new l'"
    with y x geometry_disjoint [OF geo l, of y y' x] show ?thesis by (simp add: mem)
  qed
  have so: "sorted_wrt (<) (?G l)" if "l < 16" for l
    using geometry_sorted [OF geo that] F by (auto simp: split_lists_def)
  show ?thesis unfolding geometry_def using al dj so by auto
qed

lemma split_pages:
  assumes geo: "geometry N F" and L: "L < 16" and F: "F L = b # rest" and e: "entry \<le> L"
    and emp: "\<And>l. entry \<le> l \<Longrightarrow> l < L \<Longrightarrow> F l = []"
  shows "free_pages (split_lists F entry L b rest) =
         free_pages F - region entry (b + 2 ^ L - 2 ^ entry)"
    and "region entry (b + 2 ^ L - 2 ^ entry) \<subseteq> free_pages F"
proof -
  let ?G = "split_lists F entry L b rest" and ?T = "b + 2 ^ L"
  have dis: "distinct (F L)"
    using geometry_sorted [OF geo L] by (simp add: strict_sorted_iff)
  note mem = split_lists_mem [of F, OF F dis]
  have le: "(2 :: nat) ^ entry \<le> 2 ^ L" using e by (simp add: power_increasing)
  have "b \<le> ?T - 2 ^ entry" "?T - 2 ^ entry + 2 ^ entry = ?T" using le by linarith+
  then have out: "region entry (?T - 2 ^ entry) \<subseteq> region L b" by (auto simp: region_def)
  have b: "b \<in> set (F L)" using F by simp
  then show sub: "region entry (?T - 2 ^ entry) \<subseteq> free_pages F"
    using L out free_pagesI by blast
  have old: "x \<in> region l y \<Longrightarrow> l < 16 \<Longrightarrow> y \<in> set (F l) \<Longrightarrow> \<not> (l = L \<and> y = b) \<Longrightarrow> x \<notin> region L b"
    for l x y using geometry_disjoint [OF geo _ L _ b] by blast
  have new: "x \<in> free_pages ?G" if "x \<in> region L b" "x \<notin> region entry (?T - 2 ^ entry)" for x
  proof -
    have "2 ^ entry < ?T - x" "?T - x \<le> 2 ^ L" using that le by (auto simp: region_def)
    from between_powers [OF this] obtain l where
      "entry \<le> l" "l < L" "2 ^ l < ?T - x" "?T - x \<le> 2 ^ (l + 1)" by blast
    then have "x \<in> region l (?T - 2 ^ (l + 1))" unfolding split_region(1) [OF \<open>l < L\<close>] by auto
    with \<open>entry \<le> l\<close> \<open>l < L\<close> L show ?thesis by (intro free_pagesI [of l]) (auto simp: mem)
  qed
  show "free_pages ?G = free_pages F - region entry (?T - 2 ^ entry)"
  proof (intro set_eqI iffI)
    fix x assume "x \<in> free_pages ?G"
    then obtain l y where ly: "l < 16" "y \<in> set (?G l)" "x \<in> region l y"
      by (rule free_pagesE)
    show "x \<in> free_pages F - region entry (?T - 2 ^ entry)"
    proof (cases "entry \<le> l \<and> l < L")
      case True
      then have y: "x \<in> {?T - 2 ^ (l + 1) ..< ?T - 2 ^ l}" "x \<in> region L b"
        using ly split_region [of l L b] by (auto simp: mem)
      have "?T - 2 ^ l \<le> ?T - 2 ^ entry"
        using True by (intro diff_le_mono2) (simp add: power_increasing)
      then have "x \<notin> region entry (?T - 2 ^ entry)" using y(1) by (auto simp: region_def)
      with y(2) L b show ?thesis by (auto intro: free_pagesI)
    next
      case False
      then have y: "y \<in> set (F l)" "\<not> (l = L \<and> y = b)" using ly by (auto simp: mem)
      with old [OF ly(3,1)] out ly show ?thesis by (auto intro: free_pagesI)
    qed
  next
    fix x assume x: "x \<in> free_pages F - region entry (?T - 2 ^ entry)"
    then obtain l y where ly: "l < 16" "y \<in> set (F l)" "x \<in> region l y"
      by (auto elim: free_pagesE)
    show "x \<in> free_pages ?G"
    proof (cases "l = L \<and> y = b")
      case True
      with x ly new show ?thesis by auto
    next
      case False
      with ly emp [of l] have "y \<in> set (?G l)" by (auto simp: mem)
      with ly show ?thesis by (auto intro: free_pagesI)
    qed
  qed
qed

lemma split_no_pair:
  assumes "\<forall>e < 16. no_pair e (F e)" and "F L = b # rest"
  shows "\<forall>e < 16. no_pair e (split_lists F entry L b rest e)"
  using assms by (auto simp: split_lists_def no_pair_def buddies_def)

lemma split_loop_fields [simp]: "m_startAddr (split_loop entry d st) = m_startAddr st"
  by (induction d arbitrary: st) (auto split: option.splits simp: Let_def)

lemma represents_empty: "represents st F \<Longrightarrow> e < 16 \<Longrightarrow> m_buddy st e = None \<longleftrightarrow> F e = []"
  using representsD chain_None_iff by blast

lemma buddy_alloc_some:
  assumes inv: "buddy_inv N st F" and e: "entry = alloc_order sz 0"
    and d: "d = find_nonempty st entry 0" and fit: "entry + d < 16"
  shows "\<exists>b F' st'. buddy_alloc sz st = (Some (blockToPtr st b), st')
     \<and> buddy_inv N st' F' \<and> m_startAddr st' = m_startAddr st
     \<and> 2 ^ entry dvd b \<and> b + 2 ^ entry \<le> N \<and> region entry b \<subseteq> free_pages F
     \<and> free_pages F' = free_pages F - region entry b"
proof -
  let ?L = "entry + d"
  have rep: "represents st F" and geo: "geometry N F" and np: "\<forall>e < 16. no_pair e (F e)"
    using inv by (simp_all add: buddy_inv_def)
  have emp: "F l = []" if "entry \<le> l" "l < ?L" for l
    using find_nonempty_spec [of entry 0 st] that fit d represents_empty [OF rep, of l] by auto
  have "F ?L \<noteq> []"
    using find_nonempty_spec [of entry 0 st] fit d represents_empty [OF rep, of ?L] by auto
  then obtain b rest where F: "F ?L = b # rest" by (cases "F ?L") auto
  have bin: "b \<in> set (F ?L)" using F by simp
  have dis: "distinct (F ?L)" using geometry_sorted [OF geo fit] by (simp add: strict_sorted_iff)
  let ?x = "b + 2 ^ ?L - 2 ^ entry" and ?G = "split_lists F entry ?L b rest"
  let ?st1 = "split_loop entry d st"
  have "represents ?st1 (?G(entry := ?x # ?G entry))"
  proof (rule split_loop_represents [OF rep fit F emp])
    show False if "l < 16" "b' \<in> set (F l)" "b < b'" "b' < b + 2 ^ ?L" for l b'
      using geometry_disjoint [OF geo that(1) fit that(2) bin, of b'] that by (auto simp: region_def)
    show "b \<notin> set (F l)" if "l < 16" "l \<noteq> ?L" for l
      using geometry_disjoint [OF geo that(1) fit _ bin, of b b] that by auto
  qed (use F dis in auto)
  from pop_head_represents [OF this, of entry] fit
  have rep2: "represents (pop_head entry ?st1) ?G" and hd: "m_buddy ?st1 entry = Some ?x" by auto
  have le: "(2 :: nat) ^ entry \<le> 2 ^ ?L" by (simp add: power_increasing)
  have "(2 :: nat) ^ entry dvd 2 ^ ?L" by (simp add: le_imp_power_dvd)
  then have dvd: "2 ^ entry dvd ?x"
    using geometryD(1) [OF geo fit bin] dvd_trans by (intro dvd_diff_nat dvd_add) auto
  have "?x + 2 ^ entry = b + 2 ^ ?L" using le by linarith
  then have bound: "?x + 2 ^ entry \<le> N" using geometryD(2) [OF geo fit bin] by simp
  have "buddy_inv N (pop_head entry ?st1) ?G"
    using rep2 split_geometry [of N F, OF geo fit F] split_no_pair [of F, OF np F]
    by (simp add: buddy_inv_def)
  moreover have "buddy_alloc sz st = (Some (blockToPtr st ?x),
      (pop_head entry ?st1)\<lparr>m_freeSpace := m_freeSpace (pop_head entry ?st1) - of_nat sz\<rparr>)"
    using fit hd by (simp add: buddy_alloc_def Let_def e [symmetric] d [symmetric] blockToPtr_def)
  moreover note split_pages [of N F, OF geo fit F le_add1 emp]
  ultimately show ?thesis
    using dvd bound by (auto simp: buddy_inv_def intro!: exI [of _ ?x] exI [of _ ?G])
qed

lemma buddy_alloc_none:
  assumes inv: "buddy_inv N st F" and e: "entry = alloc_order sz 0"
    and full: "16 \<le> entry + find_nonempty st entry 0"
  shows "buddy_alloc sz st = (None, st)" and "entry \<le> l \<Longrightarrow> l < 16 \<Longrightarrow> F l = []"
proof -
  show "buddy_alloc sz st = (None, st)"
    using full by (simp add: buddy_alloc_def Let_def e [symmetric])
  assume l: "entry \<le> l" "l < 16"
  with full find_nonempty_spec [of entry 0 st] have "m_buddy st l = None" by auto
  with inv l represents_empty [of st F l] show "F l = []" by (simp add: buddy_inv_def)
qed

section \<open>Inserting a freed block\<close>

abbreviation before :: "nat \<Rightarrow> nat list \<Rightarrow> nat list" where
  "before b xs \<equiv> takeWhile (\<lambda>x. x < b) xs"

abbreviation behind :: "nat \<Rightarrow> nat list \<Rightarrow> nat list" where
  "behind b xs \<equiv> dropWhile (\<lambda>x. x < b) xs"

lemma put_find_chain:
  "chain link cur xs \<Longrightarrow>
   put_find link b cur prev =
     Some (if before b xs = [] then prev else Some (last (before b xs)), first_of (behind b xs))"
proof (induction xs arbitrary: cur prev)
  case Nil
  then show ?case by (simp add: put_find.simps)
next
  case (Cons x xs)
  then show ?case by (subst put_find.simps) auto
qed

lemma putBlock_eq:
  assumes "represents st F" and "e < 16"
  shows "putBlock e b st = Some (putAtBlock b (first_of (behind b (F e)))
    (if before b (F e) = [] then set_head e (Some b) st
     else putAtBlock (last (before b (F e))) (Some b) st))"
  using put_find_chain [OF representsD [OF assms]] assms(2) by (simp add: putBlock_def)

lemma chain_insert:
  assumes c: "chain link p (us @ vs)" and b: "b \<notin> set (us @ vs)"
  shows "us = [] \<Longrightarrow> chain (link(b := first_of vs)) (Some b) (b # vs)"
    and "us \<noteq> [] \<Longrightarrow> chain (link(last us := Some b, b := first_of vs)) p (us @ b # vs)"
proof -
  obtain m where m: "seg link p us m" "chain link m vs" using c by (auto simp: seg_append)
  have fo: "m = first_of vs" using m(2) by (rule chain_first)
  have dis: "distinct (us @ vs)" using c by (rule chain_distinct)
  show "us = [] \<Longrightarrow> chain (link(b := first_of vs)) (Some b) (b # vs)"
    using m b fo by simp
  show "us \<noteq> [] \<Longrightarrow> chain (link(last us := Some b, b := first_of vs)) p (us @ b # vs)"
    using m b fo dis by (cases us rule: rev_cases) (auto simp: seg_append)
qed

lemma putBlock_represents:
  assumes rep: "represents st F" and e: "e < 16" and b: "\<And>l. l < 16 \<Longrightarrow> b \<notin> set (F l)"
    and own: "\<And>l x. l < 16 \<Longrightarrow> x \<in> set (F e) \<Longrightarrow> x \<in> set (F l) \<Longrightarrow> l = e"
  shows "\<exists>st'. putBlock e b st = Some st'
     \<and> represents st' (F(e := before b (F e) @ b # behind b (F e)))"
proof -
  let ?us = "before b (F e)" and ?vs = "behind b (F e)"
  let ?st = "putAtBlock b (first_of ?vs)
    (if ?us = [] then set_head e (Some b) st else putAtBlock (last ?us) (Some b) st)"
  have c: "chain (b_link st) (m_buddy st e) (?us @ ?vs)" using representsD [OF rep e] by simp
  have nb: "b \<notin> set (?us @ ?vs)" using b [OF e] by simp
  note ins = chain_insert [OF c nb]
  have "chain (b_link ?st) (m_buddy ?st l) ((F(e := ?us @ b # ?vs)) l)" if l: "l < 16" for l
  proof (cases "l = e")
    case True
    with ins show ?thesis by (cases "?us = []") auto
  next
    case False
    have "last ?us \<notin> set (F l)" if "?us \<noteq> []"
    proof
      assume "last ?us \<in> set (F l)"
      moreover have "last ?us \<in> set (F e)" using that last_in_set set_takeWhileD by fast
      ultimately show False using own l False by blast
    qed
    with False b [OF l] representsD [OF rep l] show ?thesis by auto
  qed
  then show ?thesis using putBlock_eq [OF rep e] by (auto simp: represents_def)
qed

section \<open>Coalescing\<close>

definition adjacent_free :: "nat \<Rightarrow> nat list \<Rightarrow> bool" where
  "adjacent_free e xs \<longleftrightarrow> (\<forall>us s t vs. xs = us @ [s, t] @ vs \<longrightarrow> \<not> buddies e s t)"

lemma buddies_code:
  "int t - int s = 2 ^ e \<and> s mod 2 ^ (e + 1) = 0 \<longleftrightarrow> buddies e s t"
proof -
  have "int t - int s = 2 ^ e \<longleftrightarrow> int t = int (s + 2 ^ e)" by auto
  also have "\<dots> \<longleftrightarrow> t = s + 2 ^ e" by (simp only: of_nat_eq_iff)
  finally show ?thesis by (simp add: buddies_def dvd_eq_mod_eq_0)
qed

text \<open>The test at the top of the loop, for the last two blocks passed.\<close>

definition pair_found :: "nat \<Rightarrow> nat option \<Rightarrow> nat option \<Rightarrow> bool" where
  "pair_found e second third \<longleftrightarrow> second \<noteq> None \<and> third \<noteq> None
     \<and> int (the third) - int (the second) = 2 ^ e \<and> the second mod 2 ^ (e + 1) = 0"

lemma merge_loop_unfold:
  "merge_loop e first second third fourth st =
     (if pair_found e second third
      then Option.bind (putBlock (e + 1) (the second) st)
        (\<lambda>st1. let st2 = (case first of None \<Rightarrow> set_head e fourth st1
                                      | Some f \<Rightarrow> putAtBlock f fourth st1) in merge (e + 1) st2)
      else case fourth of None \<Rightarrow> Some st
           | Some f \<Rightarrow> merge_loop e second third fourth (b_link st f) st)"
  unfolding merge_def pair_found_def getAtBlock_def [symmetric]
  by (rule merge_loop.simps)

lemma pair_found_iff:
  "pair_found e (nth_last (Suc 0) ps) (nth_last 0 ps) \<longleftrightarrow>
   (\<exists>us s t. ps = us @ [s, t] \<and> buddies e s t)"
proof -
  consider "ps = []" | t where "ps = [t]" | us s t where "ps = us @ [s, t]"
    by (metis append.assoc append_Cons append_Nil rev_exhaust)
  then show ?thesis
  proof cases
    case (3 us s t)
    then have "nth_last 0 ps = Some t" "nth_last (Suc 0) ps = Some s"
      using nth_last_simps(3) [of 0 "us @ [s]" t] nth_last_simps(2) [of "us @ [s]" t] by simp_all
    then show ?thesis using 3 buddies_code [of t s e] by (auto simp: pair_found_def)
  qed (auto simp: pair_found_def nth_last_def)
qed

lemma merge_advance:
  assumes "\<not> (\<exists>us s t. ps = us @ [s, t] \<and> buddies e s t)"
  shows "merge_loop e (nth_last (Suc (Suc 0)) ps) (nth_last (Suc 0) ps) (nth_last 0 ps) fourth st =
    (case fourth of None \<Rightarrow> Some st
     | Some f \<Rightarrow> merge_loop e (nth_last (Suc (Suc 0)) (ps @ [f])) (nth_last (Suc 0) (ps @ [f]))
                   (nth_last 0 (ps @ [f])) (b_link st f) st)"
  using assms unfolding pair_found_iff [symmetric]
  by (subst merge_loop_unfold) (simp split: option.splits)

lemma merge_scan_none:
  "chain (b_link st) fourth qs \<Longrightarrow> adjacent_free e (ps @ qs) \<Longrightarrow>
   merge_loop e (nth_last (Suc (Suc 0)) ps) (nth_last (Suc 0) ps) (nth_last 0 ps) fourth st = Some st"
proof (induction qs arbitrary: ps fourth)
  case Nil
  then have "\<not> (\<exists>us s t. ps = us @ [s, t] \<and> buddies e s t)"
    by (auto simp: adjacent_free_def)
  with Nil show ?case by (simp add: merge_advance)
next
  case (Cons q qs)
  have "\<not> buddies e s t" if "ps = us @ [s, t]" for us s t
    using Cons.prems(2) that by (auto simp: adjacent_free_def)
  moreover have "merge_loop e (nth_last (Suc (Suc 0)) (ps @ [q])) (nth_last (Suc 0) (ps @ [q])) (nth_last 0 (ps @ [q]))
      (b_link st q) st = Some st"
    using Cons.prems by (intro Cons.IH) auto
  ultimately show ?case using Cons.prems(1) by (subst merge_advance) auto
qed

text \<open>What the loop does once it meets the first pair of buddies.\<close>

definition merge_step :: "nat \<Rightarrow> nat list \<Rightarrow> nat \<Rightarrow> nat list \<Rightarrow> buddy \<Rightarrow> buddy option" where
  "merge_step e us s vs st =
     Option.bind (putBlock (e + 1) s st)
       (\<lambda>st1. let st2 = (case nth_last 0 us of
                          None \<Rightarrow> set_head e (first_of vs) st1
                        | Some f \<Rightarrow> putAtBlock f (first_of vs) st1)
              in merge (e + 1) st2)"

lemma merge_at_pair:
  assumes "buddies e s t"
  shows "merge_loop e (nth_last (Suc (Suc 0)) (us @ [s, t])) (nth_last (Suc 0) (us @ [s, t]))
           (nth_last 0 (us @ [s, t])) (first_of vs) st = merge_step e us s vs st"
proof -
  have "nth_last (Suc (Suc 0)) (us @ [s, t]) = nth_last 0 us"
    "nth_last (Suc 0) (us @ [s, t]) = Some s"
    using nth_last_simps(3) [of _ "us @ [s]" t] by simp_all
  moreover have "pair_found e (nth_last (Suc 0) (us @ [s, t])) (nth_last 0 (us @ [s, t]))"
    using assms by (auto simp: pair_found_iff)
  ultimately show ?thesis
    by (subst merge_loop_unfold) (simp add: merge_step_def)
qed

lemma merge_scan_pair:
  "chain (b_link st) fourth qs \<Longrightarrow> ps @ qs = us @ [s, t] @ vs \<Longrightarrow> buddies e s t \<Longrightarrow>
   adjacent_free e (us @ [s]) \<Longrightarrow> length ps \<le> length us + 2 \<Longrightarrow>
   merge_loop e (nth_last (Suc (Suc 0)) ps) (nth_last (Suc 0) ps) (nth_last 0 ps) fourth st = merge_step e us s vs st"
proof (induction qs arbitrary: ps fourth)
  case Nil
  then have ps: "ps = us @ [s, t]" and vs: "vs = []" by auto
  with Nil vs merge_at_pair [of e s t us "[]"] show ?case
    by (auto dest: chain_first)
next
  case (Cons q qs)
  show ?case
  proof (cases "length ps = length us + 2")
    case True
    then have ps: "ps = us @ [s, t]" and vs: "vs = q # qs"
      using Cons.prems(2) append_eq_append_conv [of ps "us @ [s, t]" "q # qs" vs] by auto
    with Cons.prems vs merge_at_pair [of e s t us "q # qs"] show ?thesis
      by (auto dest: chain_first)
  next
    case False
    then have len: "length ps \<le> length (us @ [s])" using Cons.prems(5) by simp
    have "ps @ q # qs = (us @ [s]) @ t # vs" using Cons.prems(2) by simp
    with len have "ps = take (length ps) (us @ [s])" by (metis append_eq_append_conv_if)
    then obtain ws where ws: "us @ [s] = ps @ ws" by (metis append_take_drop_id)
    have "\<not> buddies e x y" if "ps = zs @ [x, y]" for zs x y
      using Cons.prems(4) that ws by (auto simp: adjacent_free_def)
    moreover have "merge_loop e (nth_last (Suc (Suc 0)) (ps @ [q])) (nth_last (Suc 0) (ps @ [q]))
        (nth_last 0 (ps @ [q])) (b_link st q) st = merge_step e us s vs st"
      using Cons.prems False by (intro Cons.IH) auto
    ultimately show ?thesis using Cons.prems(1) by (subst merge_advance) auto
  qed
qed

section \<open>Geometry of insertion and removal\<close>

lemma geometryI:
  assumes "\<And>e b. e < 16 \<Longrightarrow> b \<in> set (F e) \<Longrightarrow> 2 ^ e dvd b \<and> b + 2 ^ e \<le> N"
    and "\<And>e e' b b' x. e < 16 \<Longrightarrow> e' < 16 \<Longrightarrow> b \<in> set (F e) \<Longrightarrow> b' \<in> set (F e') \<Longrightarrow>
           x \<in> region e b \<Longrightarrow> x \<in> region e' b' \<Longrightarrow> e = e' \<and> b = b'"
    and "\<And>e. e < 16 \<Longrightarrow> sorted_wrt (<) (F e)"
  shows "geometry N F"
  unfolding geometry_def using assms by auto

lemma sorted_insert:
  assumes "sorted_wrt (<) xs" and "b \<notin> set xs"
  shows "sorted_wrt (<) (before b xs @ b # behind b (xs :: nat list))"
  using assms
proof (induction xs)
  case (Cons x xs)
  show ?case
  proof (cases "x < b")
    case True
    with Cons show ?thesis by (auto dest: set_takeWhileD set_dropWhileD)
  next
    case False
    with Cons.prems show ?thesis by auto
  qed
qed simp

lemma geometry_insert:
  assumes geo: "geometry N F" and l: "l < 16" and al: "2 ^ l dvd b" "b + 2 ^ l \<le> N"
    and dj: "region l b \<inter> free_pages F = {}"
  shows "geometry N (F(l := before b (F l) @ b # behind b (F l)))" (is "geometry N ?F")
    and "free_pages (F(l := before b (F l) @ b # behind b (F l))) = free_pages F \<union> region l b"
    and "e < 16 \<Longrightarrow> b \<notin> set (F e)"
proof -
  have "set (before b (F l)) \<union> set (behind b (F l)) = set (F l)"
    by (metis set_append takeWhile_dropWhile_id)
  then have mem: "set (?F e) = (if e = l then insert b (set (F l)) else set (F e))" for e
    by auto
  have out: "x \<notin> region l b" if "e < 16" "y \<in> set (F e)" "x \<in> region e y" for e x y
    using dj free_pagesI [of e y F x] that by auto
  show nb: "b \<notin> set (F e)" if "e < 16" for e using out [OF that, of b b] by auto
  show "geometry N ?F"
  proof (rule geometryI)
    show "2 ^ e dvd y \<and> y + 2 ^ e \<le> N" if "e < 16" "y \<in> set (?F e)" for e y
      using that geometryD [OF geo that(1), of y] al unfolding mem by (auto split: if_splits)
    show "sorted_wrt (<) (?F e)" if "e < 16" for e
      using geometry_sorted [OF geo that] sorted_insert [OF _ nb [OF that]]
      by (cases "e = l") auto
    show "e = e' \<and> y = y'" if "e < 16" "e' < 16" "y \<in> set (?F e)" "y' \<in> set (?F e')"
      "x \<in> region e y" "x \<in> region e' y'" for e e' y y' x
      using that geometry_disjoint [OF geo that(1,2) _ _ that(5,6)]
        out [OF that(1) _ that(5)] out [OF that(2) _ that(6)]
      unfolding mem by (auto split: if_splits)
  qed
  show "free_pages ?F = free_pages F \<union> region l b"
  proof (rule set_eqI)
    fix x
    have "x \<in> free_pages ?F \<longleftrightarrow> (\<exists>e < 16. \<exists>y \<in> set (?F e). x \<in> region e y)"
      by (rule in_free_pages)
    also have "\<dots> \<longleftrightarrow> x \<in> region l b \<or> (\<exists>e < 16. \<exists>y \<in> set (F e). x \<in> region e y)"
      unfolding mem using l by (auto split: if_splits)
    finally show "x \<in> free_pages ?F \<longleftrightarrow> x \<in> free_pages F \<union> region l b"
      by (auto simp: in_free_pages)
  qed
qed

lemma geometry_remove:
  assumes geo: "geometry N F" and e: "e < 16" and F: "F e = us @ [s, t] @ vs"
  shows "geometry N (F(e := us @ vs))" (is "geometry N ?F")
    and "free_pages (F(e := us @ vs)) = free_pages F - (region e s \<union> region e t)"
    and "region e s \<union> region e t \<subseteq> free_pages F"
proof -
  have so: "sorted_wrt (<) (us @ [s, t] @ vs)" using geometry_sorted [OF geo e] F by simp
  have mem: "y \<in> set (?F l) \<longleftrightarrow> y \<in> set (F l) \<and> \<not> (l = e \<and> (y = s \<or> y = t))" for l y
    using so F by (auto simp: sorted_wrt_append)
  show "geometry N ?F"
  proof (rule geometryI)
    show "2 ^ l dvd y \<and> y + 2 ^ l \<le> N" if "l < 16" "y \<in> set (?F l)" for l y
      using geometryD [OF geo that(1), of y] that(2) unfolding mem by blast
    show "l = l' \<and> y = y'" if "l < 16" "l' < 16" "y \<in> set (?F l)" "y' \<in> set (?F l')"
      "x \<in> region l y" "x \<in> region l' y'" for l l' y y' x
      using geometry_disjoint [OF geo that(1,2) _ _ that(5,6)] that(3,4) unfolding mem by blast
    show "sorted_wrt (<) (?F l)" if "l < 16" for l
      using geometry_sorted [OF geo that] so by (auto simp: sorted_wrt_append)
  qed
  have st: "s \<in> set (F e)" "t \<in> set (F e)" using F by auto
  show "region e s \<union> region e t \<subseteq> free_pages F" using free_pagesI [of e] e st by blast
  show "free_pages ?F = free_pages F - (region e s \<union> region e t)"
  proof (rule set_eqI)
    fix x
    have "x \<in> free_pages ?F \<longleftrightarrow> (\<exists>l < 16. \<exists>y \<in> set (?F l). x \<in> region l y)"
      by (rule in_free_pages)
    also have "\<dots> \<longleftrightarrow> (\<exists>l < 16. \<exists>y \<in> set (F l). x \<in> region l y) \<and> x \<notin> region e s \<and> x \<notin> region e t"
      unfolding Bex_def mem using geometry_disjoint [OF geo _ e _ st(1)]
        geometry_disjoint [OF geo _ e _ st(2)] by blast
    finally show "x \<in> free_pages ?F \<longleftrightarrow> x \<in> free_pages F - (region e s \<union> region e t)"
      by (auto simp: in_free_pages)
  qed
qed

lemma region_halves: "buddies e s t \<Longrightarrow> region (e + 1) s = region e s \<union> region e t"
  by (auto simp: region_def buddies_def)

section \<open>Merging keeps the free pages\<close>

definition unlink_pair :: "nat \<Rightarrow> nat list \<Rightarrow> nat list \<Rightarrow> buddy \<Rightarrow> buddy" where
  "unlink_pair e us vs st =
     (case nth_last 0 us of
        None \<Rightarrow> set_head e (first_of vs) st
      | Some f \<Rightarrow> putAtBlock f (first_of vs) st)"

lemma geometry_owner:
  "geometry N F \<Longrightarrow> l < 16 \<Longrightarrow> e < 16 \<Longrightarrow> x \<in> set (F e) \<Longrightarrow> x \<in> set (F l) \<Longrightarrow> l = e"
  using geometry_disjoint [of N F l e x x x] by simp

lemma unlink_represents:
  assumes rep: "represents st F" and geo: "geometry N F" and e: "e < 16"
    and F: "F e = us @ [s, t] @ vs"
  shows "represents (unlink_pair e us vs st) (F(e := us @ vs))"
proof -
  have c: "chain (b_link st) (m_buddy st e) (us @ [s, t] @ vs)"
    using representsD [OF rep e] F by simp
  then have tail: "chain (b_link st) (b_link st t) vs" by (auto simp: seg_append)
  then have fo: "b_link st t = first_of vs" by (rule chain_first)
  have dis: "distinct (us @ [s, t] @ vs)" using c by (rule chain_distinct)
  show ?thesis
  proof (cases us rule: rev_cases)
    case Nil
    with rep tail fo e show ?thesis by (auto simp: unlink_pair_def represents_def)
  next
    case (snoc ws f)
    have "seg (b_link st) (m_buddy st e) ws (Some f)" using c snoc by (auto simp: seg_append)
    then have "chain ((b_link st)(f := first_of vs)) (m_buddy st e) (us @ vs)"
      using snoc dis tail fo by (auto simp: seg_append)
    moreover have "f \<notin> set (F l)" if "l < 16" "l \<noteq> e" for l
      using geometry_owner [OF geo that(1) e, of f] that F snoc by auto
    ultimately show ?thesis
      using rep snoc by (auto simp: unlink_pair_def represents_def)
  qed
qed

lemma putAtBlock_commute:
  "a \<noteq> b \<Longrightarrow> putAtBlock a x (putAtBlock b y st) = putAtBlock b y (putAtBlock a x st)"
  by (simp add: putAtBlock_def fun_upd_twist)

lemma head_link_commute: "set_head e v (putAtBlock b x st) = putAtBlock b x (set_head e v st)"
  by (simp add: putAtBlock_def set_head_def)

lemma set_head_commute:
  "e \<noteq> l \<Longrightarrow> set_head e v (set_head l w st) = set_head l w (set_head e v st)"
  by (simp add: set_head_def fun_upd_twist)

text \<open>
  The code links the merged block into the next list before it unlinks the pair;
  the result is the same as in the other order.
\<close>

lemma merge_step_swap:
  assumes rep: "represents st F" and geo: "geometry N F" and e: "e + 1 < 16"
    and F: "F e = us @ [s, t] @ vs"
  shows "merge_step e us s vs st =
         Option.bind (putBlock (e + 1) s (unlink_pair e us vs st)) (merge (e + 1))"
proof -
  let ?X = "F (Suc e)" and ?u = "unlink_pair e us vs"
  let ?P = "\<lambda>st. putAtBlock s (first_of (behind s ?X))
    (if before s ?X = [] then set_head (e + 1) (Some s) st
     else putAtBlock (last (before s ?X)) (Some s) st)"
  have e16: "e < 16" using e by simp
  have dis: "distinct (F e)" using geometry_sorted [OF geo e16] by (simp add: strict_sorted_iff)
  have pb: "putBlock (e + 1) s st = Some (?P st)" 
    using putBlock_eq [OF rep e] by simp
  have pu: "putBlock (e + 1) s (?u st) = Some (?P (?u st))"
    using putBlock_eq [OF unlink_represents [of st F, OF rep geo e16 F] e] by simp
  have "?u (?P st) = ?P (?u st)"
  proof (cases us rule: rev_cases)
    case Nil
    then show ?thesis by (simp add: unlink_pair_def head_link_commute set_head_commute)
  next
    case (snoc ws f)
    have fF: "f \<in> set (F e)" "f \<noteq> s" using F snoc dis by auto
    have "f \<noteq> last (before s ?X)" if "before s ?X \<noteq> []"
    proof
      assume "f = last (before s ?X)"
      then have "f \<in> set ?X" using that last_in_set set_takeWhileD by fast
      then show False using geometry_owner [OF geo e e16 fF(1)] by simp
    qed
    with snoc fF(2) show ?thesis
      by (auto simp: unlink_pair_def head_link_commute
          putAtBlock_commute [of f s] putAtBlock_commute [of f "last (before s ?X)"])
  qed
  then show ?thesis
    unfolding merge_step_def pb pu by (simp add: unlink_pair_def Let_def)
qed

text \<open>A block has its one possible buddy next to it in the sorted list.\<close>

lemma buddies_adjacent:
  assumes geo: "geometry N F" and e: "e < 16" and st: "s \<in> set (F e)" "t \<in> set (F e)"
    and bd: "buddies e s t"
  shows "\<exists>us vs. F e = us @ [s, t] @ vs"
proof -
  have so: "sorted_wrt (<) (F e)" by (rule geometry_sorted [OF geo e])
  obtain us ws where F: "F e = us @ s # ws" using st(1) by (auto simp: in_set_conv_decomp)
  have lt: "s < t" using bd by (simp add: buddies_def)
  then have "t \<in> set ws" using F st(2) so by (auto simp: sorted_wrt_append)
  then obtain w vs where ws: "ws = w # vs" by (cases ws) auto
  have "w = t"
  proof (rule ccontr)
    assume "w \<noteq> t"
    then have "s < w" "w < t" using \<open>t \<in> set ws\<close> so F ws by (auto simp: sorted_wrt_append)
    then have "w \<in> region e s" using bd by (simp add: region_def buddies_def)
    moreover have "w \<in> set (F e)" using F ws by simp
    ultimately show False
      using geometry_disjoint [OF geo e e _ st(1), of w w] \<open>s < w\<close> by simp
  qed
  with F ws show ?thesis by auto
qed

lemma putBlock_start:
  "putBlock e b st = Some st' \<Longrightarrow> m_startAddr st' = m_startAddr st"
  by (auto simp: putBlock_def split: if_splits option.splits)

lemma unlink_start [simp]: "m_startAddr (unlink_pair e us vs st) = m_startAddr st"
  by (simp add: unlink_pair_def split: option.splits)

lemma putBlock_ok:
  assumes rep: "represents st F" and geo: "geometry N F" and l: "l < 16"
    and al: "2 ^ l dvd b" "b + 2 ^ l \<le> N" and dj: "region l b \<inter> free_pages F = {}"
  shows "\<exists>st'. putBlock l b st = Some st'
     \<and> represents st' (F(l := before b (F l) @ b # behind b (F l)))"
proof (rule putBlock_represents [OF rep l])
  show "b \<notin> set (F e)" if "e < 16" for e by (rule geometry_insert(3) [OF geo l al dj that])
  show "e = l" if "e < 16" "x \<in> set (F l)" "x \<in> set (F e)" for e x
    by (rule geometry_owner [OF geo that(1) l that(2,3)])
qed

text \<open>Only the block just put on a list can be part of a pair of buddies there.\<close>

definition pairs_with :: "nat \<Rightarrow> nat \<Rightarrow> nat list \<Rightarrow> bool" where
  "pairs_with e b xs \<longleftrightarrow> (\<forall>s \<in> set xs. \<forall>t \<in> set xs. buddies e s t \<longrightarrow> s = b \<or> t = b)"

lemma first_pair_unique:
  assumes so: "sorted_wrt (<) (us @ [s, t] @ vs)" and bd: "buddies e s t"
    and pw: "pairs_with e b (us @ [s, t] @ vs)"
  shows "adjacent_free e (us @ [s])" and "no_pair e (us @ vs)"
proof -
  have st: "s = b \<or> t = b" using pw bd by (simp add: pairs_with_def)
  have nst: "s \<notin> set us" "t \<notin> set us" "s \<noteq> t" "s \<notin> set vs" "t \<notin> set vs"
    using so by (auto simp: sorted_wrt_append)
  have odd: "\<not> buddies e p s" for p
  proof
    assume "buddies e p s"
    then have s: "s = p + 2 ^ e" "2 ^ (e + 1) dvd p" by (simp_all add: buddies_def)
    have "2 ^ (e + 1) dvd s" using bd by (simp add: buddies_def)
    with s have "(2 :: nat) ^ (e + 1) dvd 2 ^ e" by (simp add: dvd_add_right_iff)
    then show False using dvd_imp_le [of "2 ^ (e + 1)" "2 ^ e :: nat"] by simp
  qed
  have in_us: "\<not> buddies e p q" if "p \<in> set (us @ [s])" "q \<in> set (us @ [s])" for p q
  proof
    assume pq: "buddies e p q"
    then have "p = b \<or> q = b" using pw that by (auto simp: pairs_with_def)
    with st that nst have "p = s \<or> q = s" by auto
    with odd pq have "p = s" "q = t" using bd by (auto simp: buddies_def)
    with that nst show False by auto
  qed
  show "adjacent_free e (us @ [s])"
    unfolding adjacent_free_def
  proof (intro allI impI)
    fix xs p q ys assume "us @ [s] = xs @ [p, q] @ ys"
    then have "set (us @ [s]) = set (xs @ [p, q] @ ys)" by simp
    then show "\<not> buddies e p q" by (intro in_us) auto
  qed
  show "no_pair e (us @ vs)"
    using pw st nst by (fastforce simp: no_pair_def pairs_with_def)
qed

lemma merge_none:
  assumes "represents st F" and "e < 16" and "no_pair e (F e)"
  shows "merge e st = Some st"
proof -
  have "adjacent_free e (F e)" using assms(3) by (auto simp: adjacent_free_def no_pair_def)
  with merge_scan_none [OF representsD [OF assms(1,2)], of e "[]"] assms(2) show ?thesis
    by (simp add: merge_def)
qed

lemma merge_pair:
  assumes "represents st F" and "e < 16" and "F e = us @ [s, t] @ vs" and "buddies e s t"
    and "adjacent_free e (us @ [s])"
  shows "merge e st = merge_step e us s vs st"
  using merge_scan_pair [OF representsD [OF assms(1,2)], of "[]" us s t vs e] assms(2-)
  by (simp add: merge_def)

lemma merge_correct:
  "e < 16 \<Longrightarrow> represents st F \<Longrightarrow> geometry N F \<Longrightarrow> N < 2 ^ 16 \<Longrightarrow>
   \<forall>l < 16. l \<noteq> e \<longrightarrow> no_pair l (F l) \<Longrightarrow> pairs_with e b (F e) \<Longrightarrow>
   \<exists>st' F'. merge e st = Some st' \<and> buddy_inv N st' F' \<and> free_pages F' = free_pages F
     \<and> m_startAddr st' = m_startAddr st"
proof (induction "16 - e" arbitrary: e st F b)
  case 0
  then show ?case by simp
next
  case (Suc k)
  note e = Suc.prems(1) and rep = Suc.prems(2) and geo = Suc.prems(3)
  show ?case
  proof (cases "no_pair e (F e)")
    case True
    with Suc.prems(5) rep geo have "buddy_inv N st F" by (auto simp: buddy_inv_def)
    with merge_none [OF rep e True] show ?thesis by blast
  next
    case False
    then obtain s t where st: "s \<in> set (F e)" "t \<in> set (F e)" and bd: "buddies e s t"
      by (auto simp: no_pair_def)
    obtain us vs where F: "F e = us @ [s, t] @ vs" using buddies_adjacent [OF geo e st bd] by blast
    have tN: "s + 2 ^ (e + 1) \<le> N"
      using geometryD(2) [OF geo e st(2)] bd by (simp add: buddies_def)
    have "e \<noteq> 15"
    proof
      assume "e = 15"
      with tN Suc.prems(4) show False by simp
    qed
    with e have e1: "e + 1 < 16" by simp
    note fp = first_pair_unique [OF geometry_sorted [OF geo e, unfolded F] bd Suc.prems(6) [unfolded F]]
    let ?F1 = "F(e := us @ vs)" and ?st1 = "unlink_pair e us vs st"
    note rm = geometry_remove [of N F, OF geo e F]
    have rep1: "represents ?st1 ?F1" by (rule unlink_represents [of st F, OF rep geo e F])
    let ?X = "?F1 (e + 1)"
    let ?F2 = "?F1(e + 1 := before s ?X @ s # behind s ?X)"
    have out: "region (e + 1) s \<inter> free_pages ?F1 = {}"
      using rm(2) region_halves [OF bd] by auto
    have al: "2 ^ (e + 1) dvd s" using bd by (simp add: buddies_def)
    note ins = geometry_insert [OF rm(1) e1 al tN out]
    obtain st2 where put: "putBlock (e + 1) s ?st1 = Some st2" and rep2: "represents st2 ?F2"
      using putBlock_ok [OF rep1 rm(1) e1 al tN out] by blast
    have np: "\<forall>l < 16. l \<noteq> e + 1 \<longrightarrow> no_pair l (?F2 l)"
      using Suc.prems(5) fp(2) by simp
    have "no_pair (e + 1) ?X" using Suc.prems(5) e1 by simp
    moreover have "set (?F2 (e + 1)) = insert s (set ?X)"
      by simp (metis set_append takeWhile_dropWhile_id)
    ultimately have pw: "pairs_with (e + 1) s (?F2 (e + 1))"
      unfolding pairs_with_def no_pair_def by blast
    have pages: "free_pages ?F2 = free_pages F"
      using ins(2) rm(2,3) region_halves [OF bd] by auto
    have k: "k = 16 - (e + 1)" using Suc.hyps(2) by simp
    obtain st' F' where "merge (e + 1) st2 = Some st'" "buddy_inv N st' F'"
      "free_pages F' = free_pages ?F2" "m_startAddr st' = m_startAddr st2"
      using Suc.hyps(1) [OF k e1 rep2 ins(1) Suc.prems(4) np pw] by blast
    moreover have "merge e st = Option.bind (putBlock (e + 1) s ?st1) (merge (e + 1))"
      using merge_pair [of st F, OF rep e F bd fp(1)] merge_step_swap [of st F, OF rep geo e1 F]
      by simp
    ultimately show ?thesis using pages put putBlock_start [OF put] by auto
  qed
qed

section \<open>Freeing\<close>

lemma insert_pairs_with:
  assumes "no_pair e xs"
  shows "pairs_with e b (before b xs @ b # behind b xs)"
proof -
  have "set (before b xs) \<union> set (behind b xs) = set xs"
    by (metis set_append takeWhile_dropWhile_id)
  then have "set (before b xs @ b # behind b xs) = insert b (set xs)" by auto
  with assms show ?thesis unfolding pairs_with_def no_pair_def by blast
qed

lemma ptr_block_roundtrip:
  assumes "block < 2 ^ 52"
  shows "ptrToBlock st (blockToPtr st block) = block"
proof -
  have "unat (of_nat block * (4096 :: u64)) = block * 4096"
    using assms by (simp add: unat_word_ariths unat_of_nat)
  then have "unat (of_nat block * (4096 :: u64) div 4096) = block"
    by (simp add: unat_div)
  then show ?thesis by (simp add: ptrToBlock_def blockToPtr_def PAGE_SIZE_def)
qed

lemma buddy_free_ok:
  assumes inv: "buddy_inv N st F" and N: "N < 2 ^ 16"
    and e: "e = getOrder sz" "e < 16" and b: "2 ^ e dvd b" "b + 2 ^ e \<le> N"
    and used: "region e b \<inter> free_pages F = {}"
  shows "\<exists>st' F'. buddy_free (blockToPtr st b) sz st = Some st' \<and> buddy_inv N st' F'
     \<and> free_pages F' = free_pages F \<union> region e b \<and> m_startAddr st' = m_startAddr st"
proof -
  have rep: "represents st F" and geo: "geometry N F" and np: "\<forall>l < 16. no_pair l (F l)"
    using inv by (simp_all add: buddy_inv_def)
  let ?F1 = "F(e := before b (F e) @ b # behind b (F e))"
  note ins = geometry_insert [OF geo e(2) b used]
  obtain st1 where put: "putBlock e b st = Some st1" and rep1: "represents st1 ?F1"
    using putBlock_ok [OF rep geo e(2) b used] by blast
  have "\<forall>l < 16. l \<noteq> e \<longrightarrow> no_pair l (?F1 l)" using np by simp
  moreover have "pairs_with e b (?F1 e)" using np e(2) insert_pairs_with by simp
  ultimately obtain st2 F' where mg: "merge e st1 = Some st2" "buddy_inv N st2 F'"
    "free_pages F' = free_pages ?F1" "m_startAddr st2 = m_startAddr st1"
    using merge_correct [OF e(2) rep1 ins(1) N] by blast
  have "b < 2 ^ 52" using b(2) N by simp
  then have "buddy_free (blockToPtr st b) sz st =
      Some (st2\<lparr>m_freeSpace := m_freeSpace st2 + of_nat sz\<rparr>)"
    using put mg(1) e(1) by (simp add: buddy_free_def ptr_block_roundtrip)
  then show ?thesis
    using mg ins(2) putBlock_start [OF put] by (auto simp: buddy_inv_def)
qed

section \<open>Initialisation\<close>

lemma init_loop_0 [simp]: "init_loop 0 i b st = st"
  by (subst init_loop.simps) simp

lemma init_loop_skip:
  assumes "n < 2 ^ i"
  shows "init_loop n (Suc i) b st = init_loop n i b st"
proof (cases "n = 0")
  case False
  with assms show ?thesis by (subst init_loop.simps) (simp add: Let_def)
qed simp

lemma init_loop_take:
  assumes "0 < n" and "2 ^ i \<le> n" and "m_buddy st i = None"
  shows "init_loop n (Suc i) b st =
         init_loop (n - 2 ^ i) (Suc i) (b + 2 ^ i) (putAtBlock b None (set_head i (Some b) st))"
  using assms by (subst init_loop.simps) (simp add: Let_def)

lemma init_loop_inv:
  "n < 2 ^ i \<Longrightarrow> 2 ^ i dvd b \<Longrightarrow> i \<le> 16 \<Longrightarrow> buddy_inv N st F \<Longrightarrow> b + n \<le> N \<Longrightarrow>
   free_pages F = {0 ..< b} \<Longrightarrow> \<forall>l < i. F l = [] \<Longrightarrow>
   \<exists>F'. buddy_inv N (init_loop n i b st) F' \<and> free_pages F' = {0 ..< b + n}
     \<and> m_startAddr (init_loop n i b st) = m_startAddr st"
proof (induction i arbitrary: n b st F)
  case 0
  then show ?case by (auto simp: init_loop.simps)
next
  case (Suc i)
  have dvd: "2 ^ i dvd b" using Suc.prems(2) by (rule power_le_dvd) simp
  show ?case
  proof (cases "n < 2 ^ i")
    case True
    have "\<exists>F'. buddy_inv N (init_loop n i b st) F' \<and> free_pages F' = {0 ..< b + n}
        \<and> m_startAddr (init_loop n i b st) = m_startAddr st"
      by (rule Suc.IH [OF True dvd]) (use Suc.prems in auto)
    with True show ?thesis by (simp add: init_loop_skip)
  next
    case False
    let ?st1 = "putAtBlock b None (set_head i (Some b) st)" and ?F1 = "F(i := [b])"
    have i: "i < 16" "F i = []" using Suc.prems by simp_all
    have inv: "represents st F" "geometry N F" "\<forall>l < 16. no_pair l (F l)"
      using Suc.prems(4) by (simp_all add: buddy_inv_def)
    have bN: "b + 2 ^ i \<le> N" using False Suc.prems(5) by simp
    have out: "region i b \<inter> free_pages F = {}" using Suc.prems(6) by (auto simp: region_def)
    note ins = geometry_insert [OF inv(2) i(1) dvd bN out]
    have "represents ?st1 ?F1" using inv(1) ins(3) by (auto simp: represents_def)
    moreover have "geometry N ?F1" using ins(1) i(2) by simp
    moreover have "\<forall>l < 16. no_pair l (?F1 l)" using inv(3) by (auto simp: no_pair_def buddies_def)
    ultimately have inv1: "buddy_inv N ?st1 ?F1" by (simp add: buddy_inv_def)
    have pages: "free_pages ?F1 = {0 ..< b + 2 ^ i}"
      using ins(2) i(2) Suc.prems(6) by (auto simp: region_def)
    have lt: "n - 2 ^ i < 2 ^ i" using Suc.prems(1) False by simp
    have "m_buddy st i = None" using represents_empty [OF inv(1) i(1)] i(2) by simp
    moreover have "0 < n" using False by (cases n) auto
    ultimately have run: "init_loop n (Suc i) b st = init_loop (n - 2 ^ i) i (b + 2 ^ i) ?st1"
      using False lt by (simp add: init_loop_take init_loop_skip)
    have "\<exists>F'. buddy_inv N (init_loop (n - 2 ^ i) i (b + 2 ^ i) ?st1) F'
        \<and> free_pages F' = {0 ..< b + 2 ^ i + (n - 2 ^ i)}
        \<and> m_startAddr (init_loop (n - 2 ^ i) i (b + 2 ^ i) ?st1) = m_startAddr ?st1"
      by (rule Suc.IH [OF lt _ _ inv1 _ pages]) (use dvd Suc.prems False in auto)
    then show ?thesis unfolding run using False by simp
  qed
qed

lemma buddy_init_inv:
  assumes "N = unat ((kernel_end - pageRoundUp heap_start) div PAGE_SIZE)" and "N < 2 ^ 16"
  shows "\<exists>F. buddy_inv N (buddy_init heap_start kernel_end mem) F \<and> free_pages F = {0 ..< N}
     \<and> m_startAddr (buddy_init heap_start kernel_end mem) = pageRoundUp heap_start"
proof -
  let ?st = "\<lparr>m_buddy = (\<lambda>_. None), b_link = mem, m_startAddr = pageRoundUp heap_start,
    m_freeSpace = (kernel_end - pageRoundUp heap_start) div PAGE_SIZE * PAGE_SIZE\<rparr>"
  have "buddy_inv N ?st (\<lambda>_. [])"
    by (auto simp: buddy_inv_def represents_def geometry_def no_pair_def)
  from init_loop_inv [of N 16 0 N ?st "\<lambda>_. []", OF _ _ _ this] assms(2) show ?thesis
    by (simp add: buddy_init_def Let_def assms(1) [symmetric] free_pages_def)
qed

section \<open>Properties\<close>

text \<open>
  C3: \<^verbatim>\<open>Buddy::init\<close> makes every whole page of the heap free exactly once: the free lists it
  builds satisfy the allocator's invariant (aligned, disjoint blocks inside the heap, ordered
  lists, no two free buddies) and cover precisely the pages between the rounded start and the
  end of memory.
\<close>
theorem buddy_init_covers_heap:
  assumes "unat ((kernel_end - pageRoundUp heap_start) div PAGE_SIZE) < 2 ^ 16"
  shows "\<exists>F. buddy_inv (unat ((kernel_end - pageRoundUp heap_start) div PAGE_SIZE))
        (buddy_init heap_start kernel_end mem) F
     \<and> free_pages F = {0 ..< unat ((kernel_end - pageRoundUp heap_start) div PAGE_SIZE)}"
  using buddy_init_inv [OF refl assms] by blast

theorem buddy_init_covers_heap_witness:
  "\<exists>F. buddy_inv 16 (buddy_init 0x100000 0x110000 (\<lambda>_. None)) F \<and> free_pages F = {0 ..< 16}"
  using buddy_init_covers_heap [of "0x110000" "0x100000" "\<lambda>_. None"]
  by (simp add: PAGE_SIZE_def pageRoundUp_def pageRoundDown_def)



text \<open>
  C2: \<^verbatim>\<open>Buddy::free\<close> of a block that is in use returns, puts back exactly its pages, and merges it
  with its free buddy again and again, so that afterwards no two buddies are free side by side.
\<close>
theorem buddy_free_correct:
  assumes "buddy_inv N st F" and "N < 2 ^ 16" and "getOrder sz < 16"
    and "2 ^ getOrder sz dvd b" and "b + 2 ^ getOrder sz \<le> N" and "region (getOrder sz) b \<inter> free_pages F = {}"
  shows "\<exists>st' F'. buddy_free (blockToPtr st b) sz st = Some st' \<and> buddy_inv N st' F'
     \<and> free_pages F' = free_pages F \<union> region (getOrder sz) b"
  using buddy_free_ok [OF assms(1,2) refl assms(3-6)] by blast

definition demo_used :: buddy where
  "demo_used = \<lparr>m_buddy = (\<lambda>_. None), b_link = (\<lambda>_. None), m_startAddr = 0x100000, m_freeSpace = 0\<rparr>"

theorem buddy_free_correct_witness:
  "\<exists>st' F'. buddy_free (blockToPtr demo_used 2) 4096 demo_used = Some st' \<and> buddy_inv 4 st' F'
     \<and> free_pages F' = {2}"
proof -
  have inv: "buddy_inv 4 demo_used (\<lambda>_. [])"
    by (auto simp: buddy_inv_def represents_def geometry_def no_pair_def demo_used_def)
  have g: "getOrder 4096 = 0" by (simp add: getOrder_alloc_order alloc_order.simps)
  have r: "free_pages (\<lambda>_. []) = {}" "region 0 2 = {2}" by (auto simp: free_pages_def region_def)
  from buddy_free_correct [OF inv, of 4096 2] show ?thesis by (simp add: g r)
qed

text \<open>
  Allocating and freeing are inverse: a block that \<^verbatim>\<open>Buddy::alloc\<close> has handed out can be given
  back with \<^verbatim>\<open>Buddy::free\<close> for the same size, and the set of free pages is then what it was.
\<close>
theorem buddy_alloc_free_roundtrip:
  assumes "buddy_inv N st F" and "N < 2 ^ 16" and "buddy_alloc sz st = (Some p, st1)"
  shows "\<exists>st2 F2. buddy_free p sz st1 = Some st2 \<and> buddy_inv N st2 F2 \<and> free_pages F2 = free_pages F"
proof -
  let ?e = "alloc_order sz 0"
  have fit: "?e + find_nonempty st ?e 0 < 16"
    using buddy_alloc_none(1) [OF assms(1) refl] assms(3) by (metis linorder_not_less option.distinct(1) prod.inject)
  obtain b F1 where a: "p = blockToPtr st b" "buddy_inv N st1 F1" "m_startAddr st1 = m_startAddr st"
    "2 ^ ?e dvd b" "b + 2 ^ ?e \<le> N" "region ?e b \<subseteq> free_pages F" "free_pages F1 = free_pages F - region ?e b"
    using buddy_alloc_some [OF assms(1) refl refl fit] assms(3) by auto
  have "blockToPtr st1 b = p" using a(1,3) by (simp add: blockToPtr_def)
  moreover have "region ?e b \<inter> free_pages F1 = {}" using a(7) by blast
  ultimately show ?thesis
    using buddy_free_ok [OF a(2) assms(2) refl, of sz b] a(4-7) fit
    unfolding getOrder_alloc_order by (metis Un_Diff_cancel2 Un_absorb2 add_lessD1)
qed

theorem buddy_alloc_free_roundtrip_witness:
  "\<exists>F p st1 st2 F2. buddy_alloc 4096 (buddy_init 0x100000 0x110000 (\<lambda>_. None)) = (Some p, st1)
     \<and> buddy_free p 4096 st1 = Some st2 \<and> buddy_inv 16 st2 F2 \<and> free_pages F2 = {0 ..< 16}"
proof -
  obtain F where F: "buddy_inv 16 (buddy_init 0x100000 0x110000 (\<lambda>_. None)) F" "free_pages F = {0 ..< 16}"
    using buddy_init_inv [OF refl, of "0x110000" "0x100000" "\<lambda>_. None"]
    by (auto simp: PAGE_SIZE_def pageRoundUp_def pageRoundDown_def)
  have e: "alloc_order 4096 0 = 0" by (simp add: alloc_order.simps)
  have "0 \<in> free_pages F" using F(2) by simp
  then have "\<exists>l < 16. F l \<noteq> []" by (auto elim!: free_pagesE)
  then have "find_nonempty (buddy_init 0x100000 0x110000 (\<lambda>_. None)) 0 0 < 16"
    using buddy_alloc_none(2) [OF F(1) e [symmetric]] by (metis add_0 linorder_not_less zero_le)
  then obtain p st1 where "buddy_alloc 4096 (buddy_init 0x100000 0x110000 (\<lambda>_. None)) = (Some p, st1)"
    using buddy_alloc_some [OF F(1) e [symmetric] refl] by auto
  with buddy_alloc_free_roundtrip [OF F(1) _ this] F(2) show ?thesis by auto
qed

end
