(* ===== verification/Slab.thy ===== *)
theory Slab
  imports Buddy
begin

text \<open>
  Object caches on top of the page allocator: \<^verbatim>\<open>kernel/mm/kalloc/slab.cpp\<close>,
  \<^verbatim>\<open>kmem_cache.cpp\<close> and the size classes of \<^verbatim>\<open>kalloc.cpp\<close>. A slab keeps the numbers
  of its free slots in the slots themselves; \<open>sl_link i\<close> is that word of slot \<open>i\<close>,
  with \<open>None\<close> for \<^verbatim>\<open>FREE_END\<close>. Addresses inside the kernel heap are naturals, and
  \<^verbatim>\<open>Slab*\<close> is the address of the slab header, \<open>None\<close> when null. What
  \<^verbatim>\<open>Buddy::alloc\<close> returned for a new slab is an argument of the operation that
  asks for it.
\<close>

section \<open>Slabs\<close>

record slab =
  sl_next :: "nat option"
  sl_free :: "nat option"
  sl_freeSlots :: nat
  sl_maxSlots :: nat
  sl_start :: nat
  sl_link :: "nat \<Rightarrow> nat option"

definition SLAB_HEADER :: nat where "SLAB_HEADER = 40"
definition OBJ_SIZE_THRESHOLD :: nat where "OBJ_SIZE_THRESHOLD = 4096"

definition slab_links :: "nat \<Rightarrow> (nat \<Rightarrow> nat option) \<Rightarrow> nat \<Rightarrow> nat option" where
  "slab_links maxSlots old =
     (\<lambda>i. if i < maxSlots - 1 then Some (i + 1) else if i = maxSlots - 1 then None else old i)"

definition createSmall :: "nat \<Rightarrow> nat \<Rightarrow> nat \<Rightarrow> (nat \<Rightarrow> nat option) \<Rightarrow> slab" where
  "createSmall slabSize objSize addr old =
     (let maxSlots = (slabSize - SLAB_HEADER) div objSize in
      \<lparr>sl_next = None, sl_free = Some 0, sl_freeSlots = maxSlots, sl_maxSlots = maxSlots,
       sl_start = addr + SLAB_HEADER, sl_link = slab_links maxSlots old\<rparr>)"

definition createLarge :: "nat \<Rightarrow> nat \<Rightarrow> nat \<Rightarrow> (nat \<Rightarrow> nat option) \<Rightarrow> slab" where
  "createLarge slabSize objSize data old =
     (let maxSlots = slabSize div objSize in
      \<lparr>sl_next = None, sl_free = Some 0, sl_freeSlots = maxSlots, sl_maxSlots = maxSlots,
       sl_start = data, sl_link = slab_links maxSlots old\<rparr>)"

definition getSlot :: "nat \<Rightarrow> slab \<Rightarrow> nat option \<times> slab" where
  "getSlot objSize s =
     (if sl_freeSlots s = 0 then (None, s)
      else case sl_free s of
        None \<Rightarrow> (None, s)
      | Some i \<Rightarrow> (Some (sl_start s + i * objSize),
                   s\<lparr>sl_free := sl_link s i, sl_freeSlots := sl_freeSlots s - 1\<rparr>))"

definition freeSlot :: "nat \<Rightarrow> nat \<Rightarrow> slab \<Rightarrow> slab res" where
  "freeSlot objSize slot s =
     (if sl_freeSlots s = sl_maxSlots s then Inl (Panic ''Slab::freeSlot: slab already empty'')
      else
        let idx = (slot - sl_start s) div objSize in
        Inr (s\<lparr>sl_link := (sl_link s)(idx := sl_free s), sl_free := Some idx,
               sl_freeSlots := sl_freeSlots s + 1\<rparr>))"

definition slab_contains :: "nat \<Rightarrow> nat \<Rightarrow> slab \<Rightarrow> bool" where
  "slab_contains slabSize obj s \<longleftrightarrow>
     obj \<ge> sl_start s \<and> obj < (sl_start s + slabSize) div 4096 * 4096"

definition slab_empty :: "slab \<Rightarrow> bool" where
  "slab_empty s \<longleftrightarrow> sl_freeSlots s = sl_maxSlots s"

definition slab_full :: "slab \<Rightarrow> bool" where
  "slab_full s \<longleftrightarrow> sl_freeSlots s = 0"

section \<open>Caches\<close>

record memcache =
  mc_full :: "nat option"
  mc_empty :: "nat option"
  mc_partial :: "nat option"
  mc_slabSize :: nat
  mc_objSize :: nat
  mc_slabs :: "nat \<Rightarrow> slab"

function slab_pow :: "nat \<Rightarrow> nat \<Rightarrow> nat" where
  "slab_pow objSize pow = (if objSize > 2 ^ pow then slab_pow objSize (pow + 1) else pow)"
  by auto
termination
proof (relation "measure (\<lambda>(objSize, pow). objSize - pow)")
  fix n p :: nat
  assume "2 ^ p < n"
  then have "p < n" using less_exp [of p] by (rule less_trans [rotated])
  then show "((n, p + 1), n, p) \<in> measure (\<lambda>(objSize, pow). objSize - pow)" by simp
qed simp

declare slab_pow.simps [simp del]

definition setObjSize :: "nat \<Rightarrow> memcache \<Rightarrow> memcache" where
  "setObjSize objSize c =
     c\<lparr>mc_objSize := objSize, mc_slabSize := 2 ^ slab_pow objSize PAGE_SHIFT\<rparr>"

definition MemCache_ctor :: "nat \<Rightarrow> (nat \<Rightarrow> slab) \<Rightarrow> memcache" where
  "MemCache_ctor objSize mem =
     \<lparr>mc_full = None, mc_empty = None, mc_partial = None,
      mc_slabSize = 2 ^ slab_pow objSize PAGE_SHIFT, mc_objSize = objSize, mc_slabs = mem\<rparr>"

definition upd_slab :: "nat \<Rightarrow> (slab \<Rightarrow> slab) \<Rightarrow> memcache \<Rightarrow> memcache" where
  "upd_slab a f c = c\<lparr>mc_slabs := (mc_slabs c)(a := f (mc_slabs c a))\<rparr>"

text \<open>
  \<open>Slab::create\<close> on the header address and the data address obtained for it; a
  small slab keeps its header in front of the data.
\<close>

definition slab_create :: "memcache \<Rightarrow> nat \<Rightarrow> nat \<Rightarrow> slab" where
  "slab_create c hdr data =
     (if mc_objSize c < OBJ_SIZE_THRESHOLD
      then createSmall (mc_slabSize c) (mc_objSize c) hdr (sl_link (mc_slabs c hdr))
      else createLarge (mc_slabSize c) (mc_objSize c) data (sl_link (mc_slabs c hdr)))"

definition mc_alloc :: "(nat \<times> nat) option \<Rightarrow> memcache \<Rightarrow> (nat option \<times> memcache) res" where
  "mc_alloc fresh c =
     bindE
       (if mc_partial c = None then
          bindE
            (if mc_empty c = None then
               (case fresh of
                  None \<Rightarrow> Inl NullDeref
                | Some (hdr, data) \<Rightarrow>
                    Inr (c\<lparr>mc_slabs := (mc_slabs c)(hdr := slab_create c hdr data),
                           mc_empty := Some hdr\<rparr>))
             else Inr c)
            (\<lambda>c1. case mc_empty c1 of
                    None \<Rightarrow> Inl NullDeref
                  | Some e \<Rightarrow> Inr (c1\<lparr>mc_partial := Some e, mc_empty := sl_next (mc_slabs c1 e)\<rparr>))
        else Inr c)
       (\<lambda>c2. case mc_partial c2 of
               None \<Rightarrow> Inl NullDeref
             | Some p \<Rightarrow>
                 (let (ret, s) = getSlot (mc_objSize c2) (mc_slabs c2 p);
                      c3 = upd_slab p (\<lambda>_. s) c2
                  in if slab_full (mc_slabs c3 p) then
                       let temp = sl_next (mc_slabs c3 p);
                           c4 = upd_slab p (\<lambda>s. s\<lparr>sl_next := mc_full c3\<rparr>) c3
                       in Inr (ret, c4\<lparr>mc_full := Some p, mc_partial := temp\<rparr>)
                     else Inr (ret, c3)))"

text \<open>The two search loops of \<open>free\<close>: the slab that contains the object and its predecessor.\<close>

partial_function (option) mc_find ::
  "memcache \<Rightarrow> nat \<Rightarrow> nat option \<Rightarrow> nat option \<Rightarrow> (nat option \<times> nat option) option" where
  "mc_find c obj it prev =
     (case it of
        None \<Rightarrow> Some (None, prev)
      | Some a \<Rightarrow>
          if slab_contains (mc_slabSize c) obj (mc_slabs c a) then Some (Some a, prev)
          else mc_find c obj (sl_next (mc_slabs c a)) (Some a))"

definition set_slab_next :: "nat \<Rightarrow> nat option \<Rightarrow> memcache \<Rightarrow> memcache" where
  "set_slab_next a v = upd_slab a (\<lambda>s. s\<lparr>sl_next := v\<rparr>)"

definition mc_free_partial :: "nat \<Rightarrow> nat \<Rightarrow> nat option \<Rightarrow> memcache \<Rightarrow> memcache res" where
  "mc_free_partial obj a prev c =
     bindE (freeSlot (mc_objSize c) obj (mc_slabs c a)) (\<lambda>s.
       let c1 = upd_slab a (\<lambda>_. s) c in
       if slab_empty (mc_slabs c1 a) then
         bindE (if mc_partial c1 = Some a
                then Inr (c1\<lparr>mc_partial := sl_next (mc_slabs c1 a)\<rparr>)
                else case prev of
                  None \<Rightarrow> Inl NullDeref
                | Some p \<Rightarrow> Inr (set_slab_next p (sl_next (mc_slabs c1 a)) c1))
           (\<lambda>c2. Inr ((set_slab_next a (mc_empty c2) c2)\<lparr>mc_empty := Some a\<rparr>))
       else Inr c1)"

definition mc_free_full :: "nat \<Rightarrow> nat \<Rightarrow> nat option \<Rightarrow> memcache \<Rightarrow> memcache res" where
  "mc_free_full obj a prev c =
     bindE (freeSlot (mc_objSize c) obj (mc_slabs c a)) (\<lambda>s.
       let c1 = upd_slab a (\<lambda>_. s) c in
       bindE (if mc_full c1 = Some a
              then Inr (c1\<lparr>mc_full := sl_next (mc_slabs c1 a)\<rparr>)
              else case prev of
                None \<Rightarrow> Inl NullDeref
              | Some p \<Rightarrow> Inr (set_slab_next p (sl_next (mc_slabs c1 a)) c1))
         (\<lambda>c2. Inr ((set_slab_next a (mc_partial c2) c2)\<lparr>mc_partial := Some a\<rparr>)))"

definition mc_free :: "nat \<Rightarrow> memcache \<Rightarrow> (int \<times> memcache) res option" where
  "mc_free obj c =
     Option.bind (mc_find c obj (mc_partial c) None) (\<lambda>(it, prev).
       case it of
         Some a \<Rightarrow> Some (bindE (mc_free_partial obj a prev c) (\<lambda>c'. Inr (0, c')))
       | None \<Rightarrow>
           Option.bind (mc_find c obj (mc_full c) None) (\<lambda>(it2, prev2).
             case it2 of
               Some a \<Rightarrow> Some (bindE (mc_free_full obj a prev2 c) (\<lambda>c'. Inr (0, c')))
             | None \<Rightarrow> Some (Inr (- 1, c))))"

text \<open>\<open>shrink\<close> gives every slab of the empty list back; the result lists them in order.\<close>

partial_function (option) mc_shrink_loop ::
  "nat list \<Rightarrow> memcache \<Rightarrow> (nat list \<times> memcache) option" where
  "mc_shrink_loop freed c =
     (case mc_empty c of
        None \<Rightarrow> Some (freed, c)
      | Some a \<Rightarrow> mc_shrink_loop (freed @ [a]) (c\<lparr>mc_empty := sl_next (mc_slabs c a)\<rparr>))"

definition mc_shrink :: "memcache \<Rightarrow> (nat list \<times> memcache) option" where
  "mc_shrink c = mc_shrink_loop [] c"

section \<open>Size classes\<close>

definition SMB_START_POW :: nat where "SMB_START_POW = 5"
definition SMB_SIZE :: nat where "SMB_SIZE = 13"

definition smb_init :: "(nat \<Rightarrow> slab) \<Rightarrow> memcache list" where
  "smb_init mem =
     map (\<lambda>i. setObjSize (2 ^ (SMB_START_POW + i)) (MemCache_ctor 0 mem)) [0 ..< SMB_SIZE]"

definition kmalloc_entry :: "nat \<Rightarrow> nat" where
  "kmalloc_entry sz = slab_pow sz SMB_START_POW - SMB_START_POW"

definition kmalloc ::
  "(nat \<times> nat) option \<Rightarrow> nat \<Rightarrow> memcache list \<Rightarrow> (nat option \<times> memcache list) res" where
  "kmalloc fresh sz m_smb =
     (if sz = 0 then Inr (None, m_smb)
      else if sz > 2 ^ (SMB_START_POW + SMB_SIZE - 1)
      then Inl (Panic ''MemoryAllocator::kmalloc(): allocation too big'')
      else
        let entry = kmalloc_entry sz in
        if entry < length m_smb then
          bindE (mc_alloc fresh (m_smb ! entry)) (\<lambda>(ret, c). Inr (ret, m_smb[entry := c]))
        else Inl Undefined)"

fun kfree_loop :: "nat \<Rightarrow> memcache list \<Rightarrow> memcache list res option" where
  "kfree_loop ptr [] = Some (Inl (Panic ''MemoryAllocator::kfree(): wrong pointer freed''))"
| "kfree_loop ptr (c # cs) =
     (case mc_free ptr c of
        None \<Rightarrow> None
      | Some (Inl f) \<Rightarrow> Some (Inl f)
      | Some (Inr (r, c')) \<Rightarrow>
          if r = 0 then Some (Inr (c' # cs))
          else map_option (\<lambda>m. bindE m (\<lambda>cs'. Inr (c' # cs'))) (kfree_loop ptr cs))"

definition kfree :: "nat \<Rightarrow> memcache list \<Rightarrow> memcache list res option" where
  "kfree ptr m_smb = kfree_loop ptr m_smb"

section \<open>The free list of a slab\<close>

text \<open>The slots \<open>fs\<close> are free, in the order in which they will be handed out.\<close>

definition slab_inv :: "slab \<Rightarrow> nat list \<Rightarrow> bool" where
  "slab_inv s fs \<longleftrightarrow>
     chain (sl_link s) (sl_free s) fs \<and> length fs = sl_freeSlots s \<and> set fs \<subseteq> {..< sl_maxSlots s}"

lemma slab_inv_next [simp]: "slab_inv (s\<lparr>sl_next := x\<rparr>) fs = slab_inv s fs"
  by (simp add: slab_inv_def)

lemma slab_inv_distinct: "slab_inv s fs \<Longrightarrow> distinct fs"
  by (auto simp: slab_inv_def dest: chain_distinct)

lemma slab_links_chain:
  "i < n \<Longrightarrow> chain (slab_links n old) (Some i) [i ..< n]"
proof (induction "n - i" arbitrary: i)
  case (Suc k)
  show ?case
  proof (cases "Suc i < n")
    case True
    with Suc have "chain (slab_links n old) (Some (Suc i)) [Suc i ..< n]" by simp
    moreover have "[i ..< n] = i # [Suc i ..< n]" using Suc.prems by (rule upt_conv_Cons)
    moreover have "slab_links n old i = Some (Suc i)"
      using True by (simp add: slab_links_def less_diff_conv)
    ultimately show ?thesis by simp
  next
    case False
    with Suc.prems have "n = Suc i" by simp
    then show ?thesis by (simp add: slab_links_def)
  qed
qed simp

lemma create_inv:
  "0 < (slabSize - SLAB_HEADER) div objSize \<Longrightarrow>
   slab_inv (createSmall slabSize objSize addr old) [0 ..< (slabSize - SLAB_HEADER) div objSize]"
  "0 < slabSize div objSize \<Longrightarrow>
   slab_inv (createLarge slabSize objSize data old) [0 ..< slabSize div objSize]"
  using slab_links_chain [of 0 _ old]
  by (auto simp: slab_inv_def createSmall_def createLarge_def Let_def)

lemma getSlot_inv:
  assumes "slab_inv s (i # fs)"
  shows "\<exists>s'. getSlot objSize s = (Some (sl_start s + i * objSize), s') \<and> slab_inv s' fs
     \<and> sl_next s' = sl_next s \<and> sl_start s' = sl_start s \<and> sl_maxSlots s' = sl_maxSlots s
     \<and> sl_freeSlots s' = sl_freeSlots s - 1"
  using assms by (auto simp: getSlot_def slab_inv_def)

lemma slab_used_room:
  assumes "slab_inv s fs" and "i < sl_maxSlots s" and "i \<notin> set fs"
  shows "sl_freeSlots s < sl_maxSlots s"
proof -
  have "insert i (set fs) \<subseteq> {..< sl_maxSlots s}" using assms by (auto simp: slab_inv_def)
  from card_mono [OF _ this] have "card (insert i (set fs)) \<le> sl_maxSlots s" by simp
  then show ?thesis
    using assms distinct_card [OF slab_inv_distinct [OF assms(1)]] by (simp add: slab_inv_def)
qed

lemma freeSlot_inv:
  assumes inv: "slab_inv s fs" and i: "i < sl_maxSlots s" "i \<notin> set fs" and "0 < objSize"
  shows "\<exists>s'. freeSlot objSize (sl_start s + i * objSize) s = Inr s' \<and> slab_inv s' (i # fs)
     \<and> sl_next s' = sl_next s \<and> sl_start s' = sl_start s \<and> sl_maxSlots s' = sl_maxSlots s
     \<and> sl_freeSlots s' = sl_freeSlots s + 1"
  using assms slab_used_room [OF inv i] by (auto simp: freeSlot_def slab_inv_def)

section \<open>The three lists of a cache\<close>

text \<open>
  \<open>P\<close>, \<open>E\<close> and \<open>U\<close> are the slabs on the partial, the empty and the full list, and
  \<open>fs a\<close> the free slots of slab \<open>a\<close>.
\<close>

definition mc_next :: "memcache \<Rightarrow> nat \<Rightarrow> nat option" where
  "mc_next c = (\<lambda>a. sl_next (mc_slabs c a))"

definition mc_wf :: "memcache \<Rightarrow> nat list \<Rightarrow> nat list \<Rightarrow> nat list \<Rightarrow> (nat \<Rightarrow> nat list) \<Rightarrow> bool" where
  "mc_wf c P E U fs \<longleftrightarrow>
     chain (mc_next c) (mc_partial c) P \<and> chain (mc_next c) (mc_empty c) E
     \<and> chain (mc_next c) (mc_full c) U \<and> distinct (P @ E @ U)
     \<and> (\<forall>a \<in> set P. slab_inv (mc_slabs c a) (fs a) \<and> fs a \<noteq> [])
     \<and> (\<forall>a \<in> set E. slab_inv (mc_slabs c a) (fs a) \<and> fs a \<noteq> []
          \<and> length (fs a) = sl_maxSlots (mc_slabs c a))
     \<and> (\<forall>a \<in> set U. slab_inv (mc_slabs c a) [] \<and> fs a = [])"

lemma mc_next_upd:
  "mc_next (upd_slab a f c) = (mc_next c)(a := sl_next (f (mc_slabs c a)))"
  "mc_slabs (upd_slab a f c) = (mc_slabs c)(a := f (mc_slabs c a))"
  "mc_partial (upd_slab a f c) = mc_partial c" "mc_empty (upd_slab a f c) = mc_empty c"
  "mc_full (upd_slab a f c) = mc_full c" "mc_objSize (upd_slab a f c) = mc_objSize c"
  "mc_slabSize (upd_slab a f c) = mc_slabSize c"
  by (auto simp: mc_next_def upd_slab_def)

lemma mc_next_heads [simp]:
  "mc_next (c\<lparr>mc_partial := x\<rparr>) = mc_next c" "mc_next (c\<lparr>mc_empty := x\<rparr>) = mc_next c"
  "mc_next (c\<lparr>mc_full := x\<rparr>) = mc_next c"
  by (simp_all add: mc_next_def)

text \<open>The tail of \<open>alloc\<close>, once the head of the partial list is settled.\<close>

definition mc_take :: "memcache \<Rightarrow> (nat option \<times> memcache) res" where
  "mc_take c =
     (case mc_partial c of
        None \<Rightarrow> Inl NullDeref
      | Some p \<Rightarrow>
          (let (ret, s) = getSlot (mc_objSize c) (mc_slabs c p);
               c3 = upd_slab p (\<lambda>_. s) c
           in if slab_full (mc_slabs c3 p) then
                let temp = sl_next (mc_slabs c3 p);
                    c4 = upd_slab p (\<lambda>s. s\<lparr>sl_next := mc_full c3\<rparr>) c3
                in Inr (ret, c4\<lparr>mc_full := Some p, mc_partial := temp\<rparr>)
              else Inr (ret, c3)))"

lemma mc_take_wf:
  assumes wf: "mc_wf c (a # P) E U fs" and fa: "fs a = i # rest"
  shows "\<exists>c' P' U'. mc_take c = Inr (Some (sl_start (mc_slabs c a) + i * mc_objSize c), c')
     \<and> mc_wf c' P' E U' (fs(a := rest)) \<and> set (P' @ U') = set (a # P @ U)"
proof -
  have inv: "slab_inv (mc_slabs c a) (i # rest)"
    and dis: "distinct (a # P @ E @ U)" and pa: "mc_partial c = Some a"
    using wf fa by (auto simp: mc_wf_def)
  obtain s where s: "getSlot (mc_objSize c) (mc_slabs c a) =
      (Some (sl_start (mc_slabs c a) + i * mc_objSize c), s)"
    "slab_inv s rest" "sl_next s = sl_next (mc_slabs c a)"
    "sl_freeSlots s = sl_freeSlots (mc_slabs c a) - 1"
    using getSlot_inv [OF inv] by blast
  have same: "mc_next (upd_slab a (\<lambda>_. s) c) = mc_next c"
    using s(3) by (auto simp: mc_next_def upd_slab_def)
  have len: "sl_freeSlots s = length rest" using s(2) by (simp add: slab_inv_def)
  show ?thesis
  proof (cases "rest = []")
    case True
    let ?c = "(upd_slab a (\<lambda>s. s\<lparr>sl_next := mc_full c\<rparr>) (upd_slab a (\<lambda>_. s) c))
      \<lparr>mc_full := Some a, mc_partial := sl_next s\<rparr>"
    have "mc_take c = Inr (Some (sl_start (mc_slabs c a) + i * mc_objSize c), ?c)"
      using pa s(1) len True by (simp add: mc_take_def slab_full_def mc_next_upd Let_def)
    moreover have "mc_wf ?c P E (a # U) (fs(a := rest))"
    proof -
      have "slab_inv (s\<lparr>sl_next := mc_full c\<rparr>) rest" using s(2) by (simp add: slab_inv_def)
      moreover have "chain (mc_next c) (sl_next s) P" using wf s(3) by (simp add: mc_wf_def mc_next_def)
      ultimately show ?thesis
        using wf dis True by (auto simp: mc_wf_def mc_next_upd same)
    qed
    ultimately show ?thesis by (intro exI [of _ ?c] exI [of _ P] exI [of _ "a # U"]) auto
  next
    case False
    let ?c = "upd_slab a (\<lambda>_. s) c"
    have "mc_take c = Inr (Some (sl_start (mc_slabs c a) + i * mc_objSize c), ?c)"
      using pa s(1) len False by (simp add: mc_take_def slab_full_def mc_next_upd Let_def)
    moreover have "mc_wf ?c (a # P) E U (fs(a := rest))"
      using wf dis False s(2) same by (auto simp: mc_wf_def mc_next_upd)
    ultimately show ?thesis by (intro exI [of _ ?c] exI [of _ "a # P"] exI [of _ U]) auto
  qed
qed

lemma mc_take_run:
  assumes w: "mc_wf d (a # Q) E U gs" and g: "gs a = i # rest"
  shows "\<exists>c' P' U'. mc_take d = Inr (Some (sl_start (mc_slabs c' a) + i * mc_objSize d), c')
      \<and> mc_wf c' P' E U' (gs(a := rest)) \<and> i \<notin> set rest \<and> a \<in> set (P' @ U')"
proof -
  obtain c' P' U' where t: "mc_take d = Inr (Some (sl_start (mc_slabs d a) + i * mc_objSize d), c')"
    "mc_wf c' P' E U' (gs(a := rest))" "set (P' @ U') = set (a # Q @ U)"
    using mc_take_wf [OF w g] by blast
  have inv: "slab_inv (mc_slabs d a) (i # rest)" using w g by (simp add: mc_wf_def)
  have "sl_start (mc_slabs c' a) = sl_start (mc_slabs d a)"
    using t(1) getSlot_inv [OF inv, of "mc_objSize d"] w
    by (auto simp: mc_take_def mc_wf_def mc_next_upd Let_def split: if_splits)
  moreover have "i \<notin> set rest" using slab_inv_distinct [OF inv] by simp
  ultimately show ?thesis using t by (metis list.set_intros(1))
qed

lemma mc_alloc_take:
  "mc_alloc fresh c =
     bindE
       (if mc_partial c = None then
          bindE
            (if mc_empty c = None then
               (case fresh of
                  None \<Rightarrow> Inl NullDeref
                | Some (hdr, data) \<Rightarrow>
                    Inr (c\<lparr>mc_slabs := (mc_slabs c)(hdr := slab_create c hdr data),
                           mc_empty := Some hdr\<rparr>))
             else Inr c)
            (\<lambda>c1. case mc_empty c1 of
                    None \<Rightarrow> Inl NullDeref
                  | Some e \<Rightarrow> Inr (c1\<lparr>mc_partial := Some e, mc_empty := sl_next (mc_slabs c1 e)\<rparr>))
        else Inr c) mc_take"
  unfolding mc_alloc_def mc_take_def ..

lemma slab_create_inv:
  assumes "0 < sl_maxSlots (slab_create c hdr data)"
  shows "slab_inv (slab_create c hdr data) [0 ..< sl_maxSlots (slab_create c hdr data)]"
    and "sl_next (slab_create c hdr data) = None"
  using assms create_inv
  by (auto simp: slab_create_def createSmall_def createLarge_def Let_def)

lemma upt_nonempty: "0 < n \<Longrightarrow> [0 ..< n] = 0 # [1 ..< n]"
  by (simp add: upt_conv_Cons)

text \<open>
  Handing out an object: with at most one slab on the empty list the lists stay
  disjoint, and the slot was free and is now in use.
\<close>

lemma mc_alloc_wf:
  assumes wf: "mc_wf c P E U fs" and one: "length E \<le> 1"
    and fresh: "fresh = Some (hdr, data)" "hdr \<notin> set U" "0 < sl_maxSlots (slab_create c hdr data)"
  shows "\<exists>a i rest c' P' E' U' fs'. mc_alloc fresh c = Inr (Some (sl_start (mc_slabs c' a) + i * mc_objSize c), c')
     \<and> (if P = [] \<and> E = [] then a = hdr \<and> i = 0
         else a \<in> set (P @ E) \<and> fs a = i # rest \<and> fs' = fs(a := rest))
     \<and> mc_wf c' P' E' U' fs' \<and> i \<notin> set (fs' a) \<and> a \<in> set (P' @ U')"
proof -
  show ?thesis
  proof (cases P)
    case (Cons a Q)
    then obtain i rest where fa: "fs a = i # rest"
      using wf by (cases "fs a") (auto simp: mc_wf_def)
    have "mc_alloc fresh c = mc_take c" using wf Cons by (simp add: mc_alloc_take mc_wf_def)
    with mc_take_run [OF wf [unfolded Cons] fa] Cons fa show ?thesis by fastforce
  next
    case Nil
    show ?thesis
    proof (cases E)
      case (Cons a Q)
      with one have E: "E = [a]" by simp
      then obtain i rest where fa: "fs a = i # rest"
        using wf by (cases "fs a") (auto simp: mc_wf_def)
      let ?d = "c\<lparr>mc_partial := Some a, mc_empty := sl_next (mc_slabs c a)\<rparr>"
      have "mc_alloc fresh c = mc_take ?d" using wf Nil E by (simp add: mc_alloc_take mc_wf_def)
      moreover have "mc_wf ?d [a] [] U fs"
        using wf Nil E by (auto simp: mc_wf_def mc_next_def)
      from mc_take_run [OF this fa] obtain c' P' U' where
        "mc_take ?d = Inr (Some (sl_start (mc_slabs c' a) + i * mc_objSize ?d), c')"
        "mc_wf c' P' [] U' (fs(a := rest))" "i \<notin> set rest" "a \<in> set (P' @ U')" by blast
      ultimately show ?thesis using Nil E fa
        by (intro exI [of _ a] exI [of _ i] exI [of _ rest] exI [of _ c'] exI [of _ P']
            exI [of _ "[]"] exI [of _ U'] exI [of _ "fs(a := rest)"]) simp
    next
      case nil2: Nil
      let ?s = "slab_create c hdr data" and ?n = "sl_maxSlots (slab_create c hdr data)"
      let ?d = "c\<lparr>mc_slabs := (mc_slabs c)(hdr := ?s), mc_partial := Some hdr, mc_empty := None\<rparr>"
      note cr = slab_create_inv [OF fresh(3)]
      have "mc_alloc fresh c = mc_take ?d"
        using wf Nil nil2 fresh(1) cr(2) by (simp add: mc_alloc_take mc_wf_def)
      moreover have "mc_next ?d = (mc_next c)(hdr := None)" using cr(2) by (auto simp: mc_next_def)
      then have "mc_wf ?d [hdr] [] U (fs(hdr := [0 ..< ?n]))"
        using wf Nil nil2 fresh cr(1) by (auto simp: mc_wf_def)
      from mc_take_run [OF this, of 0 "[1 ..< ?n]"] fresh(3) obtain c' P' U' where
        "mc_take ?d = Inr (Some (sl_start (mc_slabs c' hdr) + 0 * mc_objSize ?d), c')"
        "mc_wf c' P' [] U' (fs(hdr := [0 ..< ?n], hdr := [1 ..< ?n]))" "hdr \<in> set (P' @ U')"
        by (auto simp: upt_nonempty simp del: upt_rec_numeral)
      ultimately show ?thesis using Nil nil2
        by (intro exI [of _ hdr] exI [of _ 0] exI [of _ "[]"] exI [of _ c'] exI [of _ P']
            exI [of _ "[]"] exI [of _ U'] exI [of _ "fs(hdr := [1 ..< ?n])"]) simp
    qed
  qed
qed

section \<open>Returning an object\<close>

lemma mc_find_none:
  "chain (mc_next c) it xs \<Longrightarrow> \<forall>b \<in> set xs. \<not> slab_contains (mc_slabSize c) obj (mc_slabs c b) \<Longrightarrow>
   \<exists>q. mc_find c obj it prev = Some (None, q)"
proof (induction xs arbitrary: it prev)
  case Nil
  then show ?case by (simp add: mc_find.simps)
next
  case (Cons b xs)
  then show ?case by (subst mc_find.simps) (simp add: mc_next_def)
qed

lemma mc_find_some:
  "chain (mc_next c) it (us @ a # vs) \<Longrightarrow>
   \<forall>b \<in> set us. \<not> slab_contains (mc_slabSize c) obj (mc_slabs c b) \<Longrightarrow>
   slab_contains (mc_slabSize c) obj (mc_slabs c a) \<Longrightarrow>
   mc_find c obj it prev = Some (Some a, if us = [] then prev else Some (last us))"
proof (induction us arbitrary: it prev)
  case Nil
  then show ?case by (simp add: mc_find.simps)
next
  case (Cons b us)
  then show ?case by (subst mc_find.simps) (simp add: mc_next_def)
qed

text \<open>Moving a node from the inside of one chain to the front of another.\<close>

lemma chain_move:
  assumes c: "chain nx p (us @ a # vs)" and d: "chain nx q ys" "set ys \<inter> set (us @ a # vs) = {}"
  shows "us = [] \<Longrightarrow> chain (nx(a := q)) (nx a) vs \<and> chain (nx(a := q)) (Some a) (a # ys)"
    and "us \<noteq> [] \<Longrightarrow> chain (nx(last us := nx a, a := q)) p (us @ vs)
           \<and> chain (nx(last us := nx a, a := q)) (Some a) (a # ys)"
proof -
  have dis: "distinct (us @ a # vs)" using c by (rule chain_distinct)
  have va: "chain nx (nx a) vs" using c by (auto simp: seg_append)
  show "us = [] \<Longrightarrow> chain (nx(a := q)) (nx a) vs \<and> chain (nx(a := q)) (Some a) (a # ys)"
    using va dis d by auto
  show "us \<noteq> [] \<Longrightarrow> chain (nx(last us := nx a, a := q)) p (us @ vs)
      \<and> chain (nx(last us := nx a, a := q)) (Some a) (a # ys)"
    using c dis d by (cases us rule: rev_cases) (auto simp: seg_append)
qed

lemma mc_wf_parts:
  assumes "mc_wf c P E U fs"
  shows "chain (mc_next c) (mc_partial c) P" "chain (mc_next c) (mc_empty c) E"
    "chain (mc_next c) (mc_full c) U" "distinct (P @ E @ U)"
  using assms by (auto simp: mc_wf_def)

lemma freeSlot_slab:
  assumes wf: "mc_wf c P E U fs" and a: "a \<in> set (P @ U)"
    and i: "i < sl_maxSlots (mc_slabs c a)" "i \<notin> set (fs a)" and "0 < mc_objSize c"
  obtains s where
    "freeSlot (mc_objSize c) (sl_start (mc_slabs c a) + i * mc_objSize c) (mc_slabs c a) = Inr s"
    "slab_inv s (i # fs a)" "mc_next (upd_slab a (\<lambda>_. s) c) = mc_next c"
    "sl_next s = mc_next c a" "sl_maxSlots s = sl_maxSlots (mc_slabs c a)"
proof -
  have "slab_inv (mc_slabs c a) (fs a)" using wf a by (auto simp: mc_wf_def)
  from freeSlot_inv [OF this i assms(5)] that show thesis
    by (auto simp: mc_next_def upd_slab_def fun_eq_iff)
qed

lemma mc_free_partial_wf:
  assumes wf: "mc_wf c P E U fs" and P: "P = us @ a # vs"
    and i: "i < sl_maxSlots (mc_slabs c a)" "i \<notin> set (fs a)" and obj: "0 < mc_objSize c"
  shows "\<exists>c' P' E'. mc_free_partial (sl_start (mc_slabs c a) + i * mc_objSize c) a
      (if us = [] then None else Some (last us)) c = Inr c' \<and> mc_wf c' P' E' U (fs(a := i # fs a))"
proof -
  have aP: "a \<in> set (P @ U)" using P by simp
  obtain s where s:
    "freeSlot (mc_objSize c) (sl_start (mc_slabs c a) + i * mc_objSize c) (mc_slabs c a) = Inr s"
    "slab_inv s (i # fs a)" "mc_next (upd_slab a (\<lambda>_. s) c) = mc_next c"
    "sl_next s = mc_next c a" "sl_maxSlots s = sl_maxSlots (mc_slabs c a)"
    using freeSlot_slab [OF wf aP i obj] by blast
  note parts = mc_wf_parts [OF wf]
  let ?c1 = "upd_slab a (\<lambda>_. s) c" and ?fs = "fs(a := i # fs a)"
  show ?thesis
  proof (cases "slab_empty s")
    case False
    have "mc_wf ?c1 P E U ?fs"
      using wf P s(2,3) parts(4) by (auto simp: mc_wf_def mc_next_upd)
    with s(1) False show ?thesis by (auto simp: mc_free_partial_def mc_next_upd)
  next
    case True
    have all: "length (i # fs a) = sl_maxSlots s" using True s(2) by (simp add: slab_empty_def slab_inv_def)
    have dj: "set E \<inter> set (us @ a # vs) = {}" using parts(4) P by auto
    note mv = chain_move [OF parts(1) [unfolded P] parts(2) dj]
    have lu: "last us \<in> set us" if "us \<noteq> []" using that by simp
    have ne: "last us \<noteq> a" "last us \<notin> set E \<union> set U" "a \<notin> set U" "a \<notin> set E" if "us \<noteq> []"
      using lu [OF that] parts(4) P by auto
    show ?thesis
    proof (cases "us = []")
      case us: True
      let ?c = "(set_slab_next a (mc_empty c) (?c1\<lparr>mc_partial := sl_next s\<rparr>))\<lparr>mc_empty := Some a\<rparr>"
      have nx: "mc_next ?c = (mc_next c)(a := mc_empty c)"
        using s(3) by (simp add: set_slab_next_def mc_next_upd)
      have "mc_wf ?c vs (a # E) U ?fs"
        using wf P s(2,4,5) parts(3,4) us all mv(1) [OF us]
        by (auto simp: mc_wf_def nx) (auto simp: set_slab_next_def mc_next_upd)
      moreover have "mc_free_partial (sl_start (mc_slabs c a) + i * mc_objSize c) a None c = Inr ?c"
        using s(1) True us parts(1) P by (simp add: mc_free_partial_def mc_next_upd)
      ultimately show ?thesis using us by auto
    next
      case us: False
      let ?c = "(set_slab_next a (mc_empty c) (set_slab_next (last us) (sl_next s) ?c1))\<lparr>mc_empty := Some a\<rparr>"
      have nx: "mc_next ?c = (mc_next c)(last us := mc_next c a, a := mc_empty c)"
        using s(3,4) by (simp add: set_slab_next_def mc_next_upd)
      have "mc_wf ?c (us @ vs) (a # E) U ?fs"
        using wf P s(2,4,5) parts(3,4) all mv(2) [OF us] ne [OF us]
        by (auto simp: mc_wf_def nx) (auto simp: set_slab_next_def mc_next_upd)
      moreover have "mc_partial c \<noteq> Some a" using parts(1,4) P us by (cases us) auto
      then have "mc_free_partial (sl_start (mc_slabs c a) + i * mc_objSize c) a (Some (last us)) c = Inr ?c"
        using s(1) True by (simp add: mc_free_partial_def mc_next_upd set_slab_next_def)
      ultimately show ?thesis using us by auto
    qed
  qed
qed

lemma mc_free_full_wf:
  assumes wf: "mc_wf c P E U fs" and U: "U = us @ a # vs"
    and i: "i < sl_maxSlots (mc_slabs c a)" and obj: "0 < mc_objSize c"
  shows "\<exists>c'. mc_free_full (sl_start (mc_slabs c a) + i * mc_objSize c) a
      (if us = [] then None else Some (last us)) c = Inr c'
      \<and> mc_wf c' (a # P) E (us @ vs) (fs(a := i # fs a))"
proof -
  have aU: "a \<in> set (P @ U)" and none: "fs a = []" using U wf by (auto simp: mc_wf_def)
  then have nf: "i \<notin> set (fs a)" by simp
  obtain s where s:
    "freeSlot (mc_objSize c) (sl_start (mc_slabs c a) + i * mc_objSize c) (mc_slabs c a) = Inr s"
    "slab_inv s (i # fs a)" "mc_next (upd_slab a (\<lambda>_. s) c) = mc_next c"
    "sl_next s = mc_next c a" "sl_maxSlots s = sl_maxSlots (mc_slabs c a)"
    using freeSlot_slab [OF wf aU i nf obj] by blast
  note parts = mc_wf_parts [OF wf]
  let ?c1 = "upd_slab a (\<lambda>_. s) c" and ?fs = "fs(a := i # fs a)"
  have dj: "set P \<inter> set (us @ a # vs) = {}" using parts(4) U by auto
  note mv = chain_move [OF parts(3) [unfolded U] parts(1) dj]
  have ne: "last us \<noteq> a" "last us \<notin> set E \<union> set P" "a \<notin> set P" "a \<notin> set E" if "us \<noteq> []"
    using last_in_set [OF that] parts(4) U by auto
  show ?thesis
  proof (cases "us = []")
    case us: True
    let ?c = "(set_slab_next a (mc_partial c) (?c1\<lparr>mc_full := sl_next s\<rparr>))\<lparr>mc_partial := Some a\<rparr>"
    have nx: "mc_next ?c = (mc_next c)(a := mc_partial c)"
      using s(3) by (simp add: set_slab_next_def mc_next_upd)
    have "mc_wf ?c (a # P) E (us @ vs) ?fs"
      using wf U s(2,4,5) parts(2,4) us none mv(1) [OF us]
      by (auto simp: mc_wf_def nx) (auto simp: set_slab_next_def mc_next_upd)
    moreover have "mc_free_full (sl_start (mc_slabs c a) + i * mc_objSize c) a None c = Inr ?c"
      using s(1) us parts(3) U by (simp add: mc_free_full_def mc_next_upd)
    ultimately show ?thesis using us by auto
  next
    case us: False
    let ?c = "(set_slab_next a (mc_partial c) (set_slab_next (last us) (sl_next s) ?c1))
      \<lparr>mc_partial := Some a\<rparr>"
    have nx: "mc_next ?c = (mc_next c)(last us := mc_next c a, a := mc_partial c)"
      using s(3,4) by (simp add: set_slab_next_def mc_next_upd)
    have "mc_wf ?c (a # P) E (us @ vs) ?fs"
      using wf U s(2,4,5) parts(2,4) none mv(2) [OF us] ne [OF us]
      by (auto simp: mc_wf_def nx) (auto simp: set_slab_next_def mc_next_upd)
    moreover have "mc_full c \<noteq> Some a" using parts(3,4) U us by (cases us) auto
    then have "mc_free_full (sl_start (mc_slabs c a) + i * mc_objSize c) a (Some (last us)) c = Inr ?c"
      using s(1) by (simp add: mc_free_full_def mc_next_upd set_slab_next_def)
    ultimately show ?thesis using us by auto
  qed
qed

text \<open>
  Returning an object that is in use: the slab it lies in is found, on the partial
  or the full list, and its slot becomes the first free one.
\<close>

lemma mc_free_wf:
  assumes wf: "mc_wf c P E U fs" and a: "a \<in> set (P @ U)"
    and i: "i < sl_maxSlots (mc_slabs c a)" "i \<notin> set (fs a)" and sz: "0 < mc_objSize c"
    and obj: "obj = sl_start (mc_slabs c a) + i * mc_objSize c"
    and own: "\<And>b. b \<in> set (P @ U) \<Longrightarrow> slab_contains (mc_slabSize c) obj (mc_slabs c b) \<longleftrightarrow> b = a"
  shows "\<exists>c' P' E' U'. mc_free obj c = Some (Inr (0, c')) \<and> mc_wf c' P' E' U' (fs(a := i # fs a))"
proof (cases "a \<in> set P")
  case True
  then obtain us vs where P: "P = us @ a # vs" by (auto simp: in_set_conv_decomp)
  note parts = mc_wf_parts [OF wf]
  have "mc_find c obj (mc_partial c) None = Some (Some a, if us = [] then None else Some (last us))"
    by (rule mc_find_some [OF parts(1) [unfolded P]]) (use own parts(4) P in auto)
  moreover obtain c' P' E' where "mc_free_partial obj a (if us = [] then None else Some (last us)) c = Inr c'"
    "mc_wf c' P' E' U (fs(a := i # fs a))"
    using mc_free_partial_wf [OF wf P i sz] obj by blast
  ultimately show ?thesis by (auto simp: mc_free_def)
next
  case False
  with a have aU: "a \<in> set U" by simp
  then obtain us vs where U: "U = us @ a # vs" by (auto simp: in_set_conv_decomp)
  note parts = mc_wf_parts [OF wf]
  obtain q where "mc_find c obj (mc_partial c) None = Some (None, q)"
    using mc_find_none [OF parts(1), of obj None] own False by auto
  moreover have "mc_find c obj (mc_full c) None = Some (Some a, if us = [] then None else Some (last us))"
    by (rule mc_find_some [OF parts(3) [unfolded U]]) (use own parts(4) U in auto)
  moreover obtain c' where "mc_free_full obj a (if us = [] then None else Some (last us)) c = Inr c'"
    "mc_wf c' (a # P) E (us @ vs) (fs(a := i # fs a))"
    using mc_free_full_wf [OF wf U i(1) sz] obj by blast
  ultimately show ?thesis by (auto simp: mc_free_def)
qed

section \<open>A second empty slab ends up on two lists\<close>

text \<open>
  \<open>alloc\<close> promotes the first empty slab with \<open>m_partial = m_empty\<close> and never cuts
  its \<open>next\<close> pointer, so a second empty slab stays reachable from both lists.
\<close>

lemma mc_alloc_shares:
  assumes wf: "mc_wf c [] (a # b # E) U fs" and two: "2 \<le> length (fs a)"
  shows "\<exists>x c'. mc_alloc fresh c = Inr (x, c') \<and> mc_partial c' = Some a \<and> mc_next c' a = Some b
     \<and> mc_empty c' = Some b"
proof -
  let ?d = "c\<lparr>mc_partial := Some a, mc_empty := sl_next (mc_slabs c a)\<rparr>"
  have run: "mc_alloc fresh c = mc_take ?d"
    using wf by (simp add: mc_alloc_take mc_wf_def)
  have nx: "mc_next c a = Some b" using wf by (simp add: mc_wf_def)
  obtain i j rest where fa: "fs a = i # j # rest" using two by (cases "fs a"; cases "tl (fs a)") auto
  have inv: "slab_inv (mc_slabs c a) (i # j # rest)" using wf fa by (simp add: mc_wf_def)
  obtain s where s: "getSlot (mc_objSize c) (mc_slabs c a) =
      (Some (sl_start (mc_slabs c a) + i * mc_objSize c), s)"
    "slab_inv s (j # rest)" "sl_next s = sl_next (mc_slabs c a)"
    using getSlot_inv [OF inv] by blast
  have "sl_freeSlots s \<noteq> 0" using s(2) by (auto simp: slab_inv_def)
  then have "mc_take ?d = Inr (Some (sl_start (mc_slabs c a) + i * mc_objSize c), upd_slab a (\<lambda>_. s) ?d)"
    using s(1) by (simp add: mc_take_def mc_next_upd slab_full_def)
  with nx s(3) show ?thesis unfolding run by (auto simp: mc_next_upd mc_next_def)
qed

section \<open>Choice of the size class\<close>

lemma slab_pow_bound:
  "sz \<le> 2 ^ slab_pow sz p \<and> p \<le> slab_pow sz p
   \<and> (\<forall>j. p \<le> j \<and> j < slab_pow sz p \<longrightarrow> 2 ^ j < sz)"
proof (induction sz p rule: slab_pow.induct)
  case (1 sz p)
  show ?case
  proof (cases "sz > 2 ^ p")
    case True
    have "slab_pow sz p = slab_pow sz (p + 1)" using True by (subst slab_pow.simps) simp
    with 1 [OF True] True all_from_Suc [of "\<lambda>j. 2 ^ j < sz" p "slab_pow sz (p + 1)"]
    show ?thesis by simp
  next
    case False
    then show ?thesis by (subst (1 2 3) slab_pow.simps) simp
  qed
qed

lemma kmalloc_class:
  assumes "0 < sz" and "sz \<le> 2 ^ 17"
  shows "kmalloc_entry sz < SMB_SIZE"
    and "mc_objSize (smb_init mem ! kmalloc_entry sz) = 2 ^ (5 + kmalloc_entry sz)"
    and "sz \<le> mc_objSize (smb_init mem ! kmalloc_entry sz)"
    and "e < kmalloc_entry sz \<Longrightarrow> mc_objSize (smb_init mem ! e) < sz"
proof -
  note sp = slab_pow_bound [of sz 5]
  have "2 ^ 17 < sz" if "17 < slab_pow sz 5"
    using spec [OF conjunct2 [OF conjunct2 [OF sp]], of 17] that by simp
  then have "\<not> 17 < slab_pow sz 5" using assms(2) by linarith
  then show lt: "kmalloc_entry sz < SMB_SIZE"
    by (simp add: kmalloc_entry_def SMB_SIZE_def SMB_START_POW_def)
  have at: "mc_objSize (smb_init mem ! e) = 2 ^ (5 + e)" if "e < SMB_SIZE" for e
    using that by (simp add: smb_init_def setObjSize_def SMB_START_POW_def)
  show "mc_objSize (smb_init mem ! kmalloc_entry sz) = 2 ^ (5 + kmalloc_entry sz)" by (rule at [OF lt])
  have eq: "5 + kmalloc_entry sz = slab_pow sz 5"
    using sp by (simp add: kmalloc_entry_def SMB_START_POW_def)
  then show "sz \<le> mc_objSize (smb_init mem ! kmalloc_entry sz)"
    using at [OF lt] sp by simp
  show "mc_objSize (smb_init mem ! e) < sz" if "e < kmalloc_entry sz"
    using at [of e] that lt sp eq by auto
qed

section \<open>Properties\<close>

text \<open>A slab of two slots and caches made of such slabs.\<close>

definition demo_slab :: "nat \<Rightarrow> nat option \<Rightarrow> nat option \<Rightarrow> nat \<Rightarrow> slab" where
  "demo_slab start nxt free n =
     \<lparr>sl_next = nxt, sl_free = free, sl_freeSlots = n, sl_maxSlots = 2, sl_start = start,
      sl_link = (\<lambda>i. if i = 0 then Some 1 else None)\<rparr>"

definition demo_partial :: memcache where
  "demo_partial = \<lparr>mc_full = None, mc_empty = None, mc_partial = Some 4096, mc_slabSize = 4096,
     mc_objSize = 32, mc_slabs = (\<lambda>_. demo_slab 4136 None (Some 1) 1)\<rparr>"

definition demo_two_empty :: memcache where
  "demo_two_empty = \<lparr>mc_full = None, mc_empty = Some 4096, mc_partial = None, mc_slabSize = 4096,
     mc_objSize = 32, mc_slabs = (\<lambda>a. if a = 4096 then demo_slab 4136 (Some 8192) (Some 0) 2
                                     else demo_slab 8232 None (Some 0) 2)\<rparr>"

lemmas demo_slab_simps =
  demo_slab_def demo_partial_def demo_two_empty_def mc_wf_def mc_next_def slab_inv_def



text \<open>
  \<^verbatim>\<open>MemCache::free\<close> of an object in use finds its slab, makes exactly that slot free again and
  puts the slab on the list it now belongs to, whether it was full, partial or becomes empty.
\<close>
theorem mc_free_correct:
  assumes "mc_wf c P E U fs" and "a \<in> set (P @ U)" and "i < sl_maxSlots (mc_slabs c a)" and "i \<notin> set (fs a)"
    and "0 < mc_objSize c" and "obj = sl_start (mc_slabs c a) + i * mc_objSize c"
    and "\<And>b. b \<in> set (P @ U) \<Longrightarrow> slab_contains (mc_slabSize c) obj (mc_slabs c b) \<longleftrightarrow> b = a"
  shows "\<exists>c' P' E' U'. mc_free obj c = Some (Inr (0, c')) \<and> mc_wf c' P' E' U' (fs(a := i # fs a))"
  using mc_free_wf [OF assms] .

theorem mc_free_correct_witness:
  "\<exists>c' P' E' U'. mc_free 4136 demo_partial = Some (Inr (0, c')) \<and> mc_wf c' P' E' U' ((\<lambda>_. [])(4096 := [0, 1]))"
proof -
  have wf: "mc_wf demo_partial [4096] [] [] ((\<lambda>_. [])(4096 := [1]))" by (simp add: demo_slab_simps)
  have "\<exists>c' P' E' U'. mc_free 4136 demo_partial = Some (Inr (0, c'))
      \<and> mc_wf c' P' E' U' (((\<lambda>_. [])(4096 := [1]))(4096 := 0 # ((\<lambda>_. [])(4096 := [1])) (4096 :: nat)))"
    by (rule mc_free_correct [OF wf]) (simp_all add: demo_partial_def demo_slab_def slab_contains_def)
  then show ?thesis by simp
qed

text \<open>
  With two slabs on the empty list \<^verbatim>\<open>MemCache::alloc\<close> breaks the cache: it moves the first to
  the partial list without cutting its link, so the second is then reachable from the partial
  list and from the empty list at once.
\<close>
theorem mc_alloc_shares_second_empty_slab:
  assumes "mc_wf c [] (a # b # E) U fs" and "2 \<le> length (fs a)"
  shows "\<exists>x c'. mc_alloc fresh c = Inr (x, c') \<and> mc_partial c' = Some a \<and> mc_next c' a = Some b
     \<and> mc_empty c' = Some b"
  using mc_alloc_shares [OF assms] .

theorem mc_alloc_shares_second_empty_slab_witness:
  "\<exists>x c'. mc_alloc None demo_two_empty = Inr (x, c') \<and> mc_partial c' = Some 4096
     \<and> mc_next c' 4096 = Some 8192 \<and> mc_empty c' = Some 8192"
  by (rule mc_alloc_shares_second_empty_slab [where E = "[]" and U = "[]" and fs = "\<lambda>_. [0, 1]"])
    (simp_all add: demo_slab_simps)

text \<open>
  \<^verbatim>\<open>kmalloc\<close> picks the smallest of the power-of-two caches whose objects hold the request,
  for every request up to 128 KiB.
\<close>
theorem kmalloc_picks_smallest_class:
  assumes "0 < sz" and "sz \<le> 2 ^ 17"
  shows "kmalloc_entry sz < SMB_SIZE \<and> sz \<le> mc_objSize (smb_init mem ! kmalloc_entry sz)
     \<and> (\<forall>e < kmalloc_entry sz. mc_objSize (smb_init mem ! e) < sz)"
  using kmalloc_class [OF assms] by blast

theorem kmalloc_picks_smallest_class_witness:
  "kmalloc_entry 100 < SMB_SIZE \<and> 100 \<le> mc_objSize (smb_init (\<lambda>_. undefined) ! kmalloc_entry 100)"
  using kmalloc_picks_smallest_class [of 100 "\<lambda>_. undefined"] by simp

end
