(* ===== verification/PageAlloc.thy ===== *)
theory PageAlloc
  imports Buddy
begin

text \<open>
  The page interface of \<^verbatim>\<open>MemoryAllocator\<close> (\<^verbatim>\<open>kernel/mm/kalloc/kalloc.cpp\<close>) and the
  contract that the page tables and the region managers above it rely on: a page
  that is handed out was free, and is free no longer.
\<close>

section \<open>Page requests\<close>

definition kallocPage :: "buddy \<Rightarrow> u64 option \<times> buddy" where
  "kallocPage st = buddy_alloc (unat PAGE_SIZE) st"

definition kfreePage :: "u64 \<Rightarrow> buddy \<Rightarrow> buddy option" where
  "kfreePage ptr st = buddy_free ptr (unat PAGE_SIZE) st"

definition kallocPages :: "u32 \<Rightarrow> buddy \<Rightarrow> u64 option \<times> buddy" where
  "kallocPages count st = buddy_alloc (unat (ucast count * PAGE_SIZE)) st"

definition kfreePages :: "u64 \<Rightarrow> u32 \<Rightarrow> buddy \<Rightarrow> buddy option" where
  "kfreePages ptr count st = buddy_free ptr (unat (ucast count * PAGE_SIZE)) st"

definition freePages :: "buddy \<Rightarrow> u64" where
  "freePages st = m_freeSpace st div PAGE_SIZE"

section \<open>The contract of a source of pages\<close>

locale page_source =
  fixes take_page :: "'s \<Rightarrow> u64 option \<times> 's"
    and give_page :: "u64 \<Rightarrow> 's \<Rightarrow> 's option"
    and pool :: "'s \<Rightarrow> u64 set"
    and good :: "'s \<Rightarrow> bool"
    and page_of :: "'s \<Rightarrow> u64 \<Rightarrow> bool"
  assumes take_some: "good s \<Longrightarrow> take_page s = (Some p, s') \<Longrightarrow>
      good s' \<and> p \<in> pool s \<and> pool s' = pool s - {p} \<and> page_of s p \<and> page_of s' = page_of s"
    and take_none: "good s \<Longrightarrow> take_page s = (None, s') \<Longrightarrow> s' = s \<and> pool s = {}"
    and give: "good s \<Longrightarrow> page_of s p \<Longrightarrow> p \<notin> pool s \<Longrightarrow>
      \<exists>s'. give_page p s = Some s' \<and> good s' \<and> pool s' = insert p (pool s) \<and> page_of s' = page_of s"
    and page_aligned_of: "good s \<Longrightarrow> page_of s p \<Longrightarrow> page_aligned p"
    and page_nonnull: "good s \<Longrightarrow> page_of s p \<Longrightarrow> p \<noteq> 0"
begin

lemma take_total: "good s \<Longrightarrow> pool s \<noteq> {} \<Longrightarrow> \<exists>p s'. take_page s = (Some p, s')"
  using take_none [of s "snd (take_page s)"]
  by (cases "take_page s"; cases "fst (take_page s)") auto

text \<open>A page that has been taken and given back leaves the pool as it was.\<close>

lemma take_give:
  assumes "good s" and "take_page s = (Some p, s')"
  shows "\<exists>s''. give_page p s' = Some s'' \<and> good s'' \<and> pool s'' = pool s"
proof -
  have t: "good s'" "p \<in> pool s" "pool s' = pool s - {p}" "page_of s' p"
    using take_some [OF assms] by auto
  then obtain s'' where "give_page p s' = Some s''" "good s''" "pool s'' = insert p (pool s')"
    using give [of s' p] by auto
  with t show ?thesis by auto
qed

text \<open>Pages taken one after the other are pairwise different.\<close>

lemma take_twice:
  assumes "good s" and "take_page s = (Some p, s')" and "take_page s' = (Some q, s'')"
  shows "p \<noteq> q"
proof -
  have "good s'" "pool s' = pool s - {p}" using take_some [OF assms(1,2)] by auto
  with take_some [OF _ assms(3)] show ?thesis by auto
qed

end

section \<open>The buddy allocator is one\<close>

text \<open>The heap is shorter than \<open>2^16\<close> pages; its pages are the aligned addresses behind the start.\<close>

definition buddy_good :: "buddy \<Rightarrow> bool" where
  "buddy_good st \<longleftrightarrow> (\<exists>F. buddy_inv (2 ^ 16 - 1) st F) \<and> page_aligned (m_startAddr st)
     \<and> m_startAddr st \<noteq> 0 \<and> unat (m_startAddr st) + 2 ^ 28 \<le> 2 ^ 64"

definition buddy_pool :: "buddy \<Rightarrow> u64 set" where
  "buddy_pool st = {blockToPtr st b | b F. represents st F \<and> b \<in> free_pages F}"

definition buddy_page :: "buddy \<Rightarrow> u64 \<Rightarrow> bool" where
  "buddy_page st p \<longleftrightarrow> (\<exists>b < 2 ^ 16 - 1. p = blockToPtr st b)"

lemma represents_free_pages:
  assumes "represents st F" and "represents st G"
  shows "free_pages F = free_pages G"
proof -
  have "F e = G e" if "e < 16" for e
    using representsD [OF assms(1) that] representsD [OF assms(2) that] by (rule chain_unique)
  then show ?thesis by (simp add: free_pages_def)
qed

lemma buddy_pool_eq:
  assumes "represents st F"
  shows "buddy_pool st = blockToPtr st ` free_pages F"
proof -
  have "buddy_pool st = {blockToPtr st b | b. b \<in> free_pages F}"
    unfolding buddy_pool_def using represents_free_pages [OF assms] assms by blast
  then show ?thesis by (simp only: Setcompr_eq_image)
qed

lemma free_pages_bound:
  assumes "geometry N F" and "x \<in> free_pages F"
  shows "x < N"
proof -
  obtain e b where eb: "e < 16" "b \<in> set (F e)" "x \<in> region e b"
    using assms(2) by (rule free_pagesE)
  with geometryD(2) [OF assms(1) eb(1,2)] show ?thesis by (simp add: region_def)
qed

lemma blockToPtr_inj:
  assumes "a < 2 ^ 16" and "b < 2 ^ 16" and "blockToPtr st a = blockToPtr st b"
  shows "a = b"
proof -
  have "ptrToBlock st (blockToPtr st a) = a" "ptrToBlock st (blockToPtr st b) = b"
    by (rule ptr_block_roundtrip, use assms(1,2) in simp)+
  with assms(3) show ?thesis by metis
qed

lemma unat_blockToPtr:
  assumes "buddy_good st" and "b < 2 ^ 16"
  shows "unat (blockToPtr st b) = unat (m_startAddr st) + b * 4096"
proof -
  have "unat (of_nat b * (4096 :: u64)) = b * 4096"
    using assms(2) by (simp add: unat_word_ariths unat_of_nat)
  with assms show ?thesis
    by (simp add: blockToPtr_def PAGE_SIZE_def buddy_good_def unat_word_ariths)
qed

lemma buddy_page_aligned:
  assumes good: "buddy_good st" and p: "buddy_page st p"
  shows "page_aligned p" and "p \<noteq> 0"
proof -
  obtain b where b: "b < 2 ^ 16 - 1" "p = blockToPtr st b" using p by (auto simp: buddy_page_def)
  then have un: "unat p = unat (m_startAddr st) + b * 4096" using unat_blockToPtr [OF good] by simp
  have "4096 dvd unat (m_startAddr st)" and "0 < unat (m_startAddr st)"
    using good by (auto simp: buddy_good_def page_aligned_iff unat_gt_0)
  then show "page_aligned p" "p \<noteq> 0" by (auto simp: page_aligned_iff un dest: arg_cong [of _ _ unat])
qed

lemma alloc_order_page: "alloc_order 4096 0 = 0"
  by (subst alloc_order.simps) simp

lemma blockToPtr_start: "m_startAddr st' = m_startAddr st \<Longrightarrow> blockToPtr st' = blockToPtr st"
  by (auto simp: blockToPtr_def)

lemma unat_PAGE_SIZE [simp]: "unat PAGE_SIZE = 4096"
  by (simp add: PAGE_SIZE_def)

lemma kallocPage_some:
  assumes good: "buddy_good st" and run: "kallocPage st = (Some p, st')"
  shows "buddy_good st' \<and> p \<in> buddy_pool st \<and> buddy_pool st' = buddy_pool st - {p}
     \<and> buddy_page st p \<and> buddy_page st' = buddy_page st"
proof -
  obtain F where inv: "buddy_inv (2 ^ 16 - 1) st F" using good by (auto simp: buddy_good_def)
  then have rep: "represents st F" and geo: "geometry (2 ^ 16 - 1) F" by (simp_all add: buddy_inv_def)
  let ?d = "find_nonempty st 0 0"
  have "0 + ?d < 16"
    using run buddy_alloc_none(1) [OF inv alloc_order_page [symmetric]]
    by (cases "0 + ?d < 16") (auto simp: kallocPage_def)
  from buddy_alloc_some [OF inv alloc_order_page [symmetric] refl this] run
  obtain b F' where b: "p = blockToPtr st b" "buddy_inv (2 ^ 16 - 1) st' F'"
    "m_startAddr st' = m_startAddr st" "b + 1 \<le> 2 ^ 16 - 1" "region 0 b \<subseteq> free_pages F"
    "free_pages F' = free_pages F - region 0 b"
    by (auto simp: kallocPage_def)
  have r0: "region 0 b = {b}" by (auto simp: region_def)
  have rep': "represents st' F'" using b(2) by (simp add: buddy_inv_def)
  have inj: "inj_on (blockToPtr st) (free_pages F)"
    by (intro inj_onI blockToPtr_inj) (auto dest: free_pages_bound [OF geo])
  have "buddy_pool st' = blockToPtr st ` (free_pages F - {b})"
    using buddy_pool_eq [OF rep'] blockToPtr_start [OF b(3)] b(6) r0 by simp
  also have "\<dots> = buddy_pool st - {p}"
    using inj_on_image_set_diff [OF inj, of "free_pages F" "{b}"] b(1,5) r0
    by (simp add: buddy_pool_eq [OF rep])
  finally show ?thesis
    using good b r0 buddy_pool_eq [OF rep] blockToPtr_start [OF b(3)]
    by (auto simp: buddy_good_def buddy_page_def intro!: exI [of _ b])
qed

lemma kallocPage_none:
  assumes good: "buddy_good st" and run: "kallocPage st = (None, st')"
  shows "st' = st \<and> buddy_pool st = {}"
proof -
  obtain F where inv: "buddy_inv (2 ^ 16 - 1) st F" using good by (auto simp: buddy_good_def)
  let ?d = "find_nonempty st 0 0"
  have full: "16 \<le> 0 + ?d"
  proof (rule ccontr)
    assume "\<not> 16 \<le> 0 + ?d"
    then have "0 + ?d < 16" by simp
    from buddy_alloc_some [OF inv alloc_order_page [symmetric] refl this] run
    show False by (auto simp: kallocPage_def)
  qed
  note none = buddy_alloc_none [OF inv alloc_order_page [symmetric] full]
  have "free_pages F = {}" using none(2) by (auto simp: free_pages_def)
  then show ?thesis
    using inv none(1) run by (auto simp: kallocPage_def buddy_inv_def buddy_pool_eq)
qed

lemma kfreePage_ok:
  assumes good: "buddy_good st" and p: "buddy_page st p" "p \<notin> buddy_pool st"
  shows "\<exists>st'. kfreePage p st = Some st' \<and> buddy_good st' \<and> buddy_pool st' = insert p (buddy_pool st)
     \<and> buddy_page st' = buddy_page st"
proof -
  obtain F where inv: "buddy_inv (2 ^ 16 - 1) st F" using good by (auto simp: buddy_good_def)
  then have rep: "represents st F" by (simp add: buddy_inv_def)
  obtain b where b: "b < 2 ^ 16 - 1" "p = blockToPtr st b" using p(1) by (auto simp: buddy_page_def)
  have r0: "region 0 b = {b}" by (auto simp: region_def)
  have "b \<notin> free_pages F" using p(2) b(2) buddy_pool_eq [OF rep] by auto
  then have used: "region 0 b \<inter> free_pages F = {}" using r0 by simp
  have ord: "0 = getOrder 4096" by (simp add: getOrder_alloc_order alloc_order_page)
  obtain st' F' where "buddy_free p 4096 st = Some st'" "buddy_inv (2 ^ 16 - 1) st' F'"
    "free_pages F' = free_pages F \<union> {b}" "m_startAddr st' = m_startAddr st"
    using buddy_free_ok [OF inv _ ord _ _ _ used] b r0 by auto
  then show ?thesis
    using good buddy_pool_eq [OF rep] buddy_pool_eq [of st' F'] blockToPtr_start [of st' st] b(2)
    by (auto simp: kfreePage_def buddy_good_def buddy_page_def buddy_inv_def)
qed

interpretation buddy_pages: page_source kallocPage kfreePage buddy_pool buddy_good buddy_page
  by unfold_locales
    (rule kallocPage_some kallocPage_none kfreePage_ok buddy_page_aligned; assumption)+

lemma geometry_mono: "geometry N F \<Longrightarrow> N \<le> M \<Longrightarrow> geometry M F"
  by (auto simp: geometry_def intro: le_trans)

lemma buddy_init_good:
  assumes "unat ((kernel_end - pageRoundUp heap_start) div PAGE_SIZE) < 2 ^ 16"
    and "pageRoundUp heap_start \<noteq> 0" and "unat (pageRoundUp heap_start) + 2 ^ 28 \<le> 2 ^ 64"
  shows "buddy_good (buddy_init heap_start kernel_end mem)"
proof -
  let ?st = "buddy_init heap_start kernel_end mem"
  obtain F where F: "buddy_inv (unat ((kernel_end - pageRoundUp heap_start) div PAGE_SIZE)) ?st F"
    "m_startAddr ?st = pageRoundUp heap_start"
    using buddy_init_inv [OF refl assms(1)] by blast
  then have "buddy_inv (2 ^ 16 - 1) ?st F"
    using assms(1) geometry_mono [of _ F "2 ^ 16 - 1"] by (auto simp: buddy_inv_def)
  with F(2) assms(2,3) show ?thesis by (auto simp: buddy_good_def)
qed

lemma buddy_pool_above:
  assumes good: "buddy_good st" and p: "p \<in> buddy_pool st"
  shows "unat (m_startAddr st) \<le> unat p" and buddy_pool_below: "unat p < unat (m_startAddr st) + 2 ^ 28"
proof -
  obtain F where F: "buddy_inv (2 ^ 16 - 1) st F" using good by (auto simp: buddy_good_def)
  then obtain b where b: "b \<in> free_pages F" "p = blockToPtr st b"
    using p buddy_pool_eq [of st F] by (auto simp: buddy_inv_def)
  have "b < 2 ^ 16 - 1" using F free_pages_bound [OF _ b(1)] by (auto simp: buddy_inv_def)
  with b(2) show "unat (m_startAddr st) \<le> unat p" "unat p < unat (m_startAddr st) + 2 ^ 28"
    using unat_blockToPtr [OF good, of b] by simp_all
qed

end
