(* ===== verification/Pmt.thy ===== *)
theory Pmt
  imports PageAlloc
begin

text \<open>
  The three-level Sv39 page tables of \<^verbatim>\<open>kernel/mm/vm/pmt.cpp\<close> on an explicit memory
  of tables: \<open>m t i\<close> is entry \<open>i\<close> of the table page at kernel address \<open>t\<close>, and a
  pointer to an entry is the pair of the two. Pages for new tables come from a
  source of pages, a parameter of every operation that may allocate or free one.
\<close>

section \<open>Entries\<close>

type_synonym ptmem = "u64 \<Rightarrow> nat \<Rightarrow> u64"

definition PAGE_V :: u64 where "PAGE_V = 0x1"
definition PAGE_R :: u64 where "PAGE_R = 0x2"
definition PAGE_W :: u64 where "PAGE_W = 0x4"
definition PAGE_X :: u64 where "PAGE_X = 0x8"
definition PAGE_U :: u64 where "PAGE_U = 0x10"
definition PAGE_G :: u64 where "PAGE_G = 0x20"
definition PAGE_A :: u64 where "PAGE_A = 0x40"
definition PAGE_D :: u64 where "PAGE_D = 0x80"
definition PAGE_COW :: u64 where "PAGE_COW = 0x100"

lemmas page_flag_defs =
  PAGE_V_def PAGE_R_def PAGE_W_def PAGE_X_def PAGE_U_def PAGE_G_def PAGE_A_def PAGE_D_def
  PAGE_COW_def

definition makePte :: "u64 \<Rightarrow> u64 \<Rightarrow> u64" where
  "makePte phys flags = push_bit 10 (drop_bit 12 phys) OR flags"

definition pte2pa :: "u64 \<Rightarrow> u64" where
  "pte2pa pte = push_bit 12 (drop_bit 10 pte)"

definition pteValid :: "u64 \<Rightarrow> bool" where
  "pteValid pte \<longleftrightarrow> pte AND PAGE_V \<noteq> 0"

definition pte2table :: "u64 \<Rightarrow> u64" where
  "pte2table pte = p2v (pte2pa pte)"

definition vpn :: "u64 \<Rightarrow> nat \<Rightarrow> nat" where
  "vpn va level = unat (drop_bit (12 + level * 9) va AND 0x1FF)"

definition set_pte :: "u64 \<Rightarrow> nat \<Rightarrow> u64 \<Rightarrow> ptmem \<Rightarrow> ptmem" where
  "set_pte t i v m = m(t := (m t)(i := v))"

section \<open>Operations\<close>

definition new_PMT :: "u64 \<Rightarrow> ptmem \<Rightarrow> ptmem" where
  "new_PMT t m = m(t := (\<lambda>_. 0))"

primrec walk_loop ::
  "('s \<Rightarrow> u64 option \<times> 's) \<Rightarrow> u64 \<Rightarrow> bool \<Rightarrow> nat \<Rightarrow> u64 \<Rightarrow> ptmem \<Rightarrow> 's
   \<Rightarrow> (u64 \<times> nat) option \<times> ptmem \<times> 's" where
  "walk_loop take_page va alloc 0 table m s = (Some (table, vpn va 0), m, s)"
| "walk_loop take_page va alloc (Suc level) table m s =
     (let pageNum = vpn va (Suc level) in
      if pteValid (m table pageNum)
      then walk_loop take_page va alloc level (pte2table (m table pageNum)) m s
      else if \<not> alloc then (None, m, s)
      else case take_page s of
        (None, s') \<Rightarrow> (None, m, s')
      | (Some newTable, s') \<Rightarrow>
          (let m1 = set_pte table pageNum (makePte (v2p newTable) PAGE_V) (new_PMT newTable m)
           in walk_loop take_page va alloc level newTable m1 s'))"

definition walk ::
  "('s \<Rightarrow> u64 option \<times> 's) \<Rightarrow> u64 \<Rightarrow> u64 \<Rightarrow> bool \<Rightarrow> ptmem \<Rightarrow> 's
   \<Rightarrow> (u64 \<times> nat) option \<times> ptmem \<times> 's" where
  "walk take_page root va alloc m s = walk_loop take_page va alloc 2 root m s"

definition mapPage ::
  "('s \<Rightarrow> u64 option \<times> 's) \<Rightarrow> u64 \<Rightarrow> u64 \<Rightarrow> u64 \<Rightarrow> u64 \<Rightarrow> ptmem \<Rightarrow> 's
   \<Rightarrow> (bool \<times> ptmem \<times> 's) res" where
  "mapPage take_page root va pa flags m s =
     (case walk take_page root va True m s of
        (None, m1, s1) \<Rightarrow> Inr (False, m1, s1)
      | (Some (t, i), m1, s1) \<Rightarrow>
          if pteValid (m1 t i) then Inl (Panic ''PMT::mapPage: page already mapped'')
          else Inr (True, set_pte t i (makePte pa flags) m1, s1))"

function mapPages_loop ::
  "('s \<Rightarrow> u64 option \<times> 's) \<Rightarrow> u64 \<Rightarrow> u64 \<Rightarrow> u64 \<Rightarrow> nat \<Rightarrow> nat \<Rightarrow> u64 \<Rightarrow> ptmem \<Rightarrow> 's
   \<Rightarrow> (bool \<times> ptmem \<times> 's) res" where
  "mapPages_loop take_page root va pa i count flags m s =
     (if i < count then
        bindE (mapPage take_page root (va + of_nat i * PAGE_SIZE) (pa + of_nat i * PAGE_SIZE) flags m s)
          (\<lambda>(b, m1, s1). if \<not> b then Inr (False, m1, s1)
             else mapPages_loop take_page root va pa (i + 1) count flags m1 s1)
      else Inr (True, m, s))"
  by auto
termination by (relation "measure (\<lambda>(_, _, _, _, i, count, _). count - i)") auto

definition mapPages ::
  "('s \<Rightarrow> u64 option \<times> 's) \<Rightarrow> u64 \<Rightarrow> u64 \<Rightarrow> u64 \<Rightarrow> nat \<Rightarrow> u64 \<Rightarrow> ptmem \<Rightarrow> 's
   \<Rightarrow> (bool \<times> ptmem \<times> 's) res" where
  "mapPages take_page root va pa count flags m s =
     mapPages_loop take_page root va pa 0 count flags m s"

text \<open>A walk that may not allocate leaves memory alone: only its result matters.\<close>

definition find_pte :: "u64 \<Rightarrow> u64 \<Rightarrow> ptmem \<Rightarrow> (u64 \<times> nat) option" where
  "find_pte root va m = fst (walk (\<lambda>_. (None, ())) root va False m ())"

definition unmapPage :: "u64 \<Rightarrow> u64 \<Rightarrow> ptmem \<Rightarrow> u64 \<times> ptmem" where
  "unmapPage root va m =
     (case find_pte root va m of
        None \<Rightarrow> (0, m)
      | Some (t, i) \<Rightarrow>
          if \<not> pteValid (m t i) then (0, m) else (pte2pa (m t i), set_pte t i 0 m))"

function unmapPages_loop :: "u64 \<Rightarrow> u64 \<Rightarrow> nat \<Rightarrow> nat \<Rightarrow> u64 \<Rightarrow> ptmem \<Rightarrow> u64 \<times> ptmem" where
  "unmapPages_loop root va i count ret m =
     (if i < count then
        (case unmapPage root (va + of_nat i * PAGE_SIZE) m of
           (r, m1) \<Rightarrow> if r = 0 then (0, m1) else unmapPages_loop root va (i + 1) count ret m1)
      else (ret, m))"
  by auto
termination by (relation "measure (\<lambda>(_, _, i, count, _). count - i)") auto

definition unmapPages :: "u64 \<Rightarrow> u64 \<Rightarrow> nat \<Rightarrow> ptmem \<Rightarrow> u64 \<times> ptmem" where
  "unmapPages root va count m =
     (case unmapPage root va m of
        (ret, m1) \<Rightarrow> if ret = 0 then (0, m1) else unmapPages_loop root va 1 count ret m1)"

definition translate :: "u64 \<Rightarrow> u64 \<Rightarrow> ptmem \<Rightarrow> u64" where
  "translate root va m =
     (case find_pte root va m of
        None \<Rightarrow> 0
      | Some (t, i) \<Rightarrow>
          if \<not> pteValid (m t i) then 0 else pte2pa (m t i) + (va AND (PAGE_SIZE - 1)))"

definition getFlags :: "u64 \<Rightarrow> u64 \<Rightarrow> ptmem \<Rightarrow> u64" where
  "getFlags root va m =
     (case find_pte root va m of
        None \<Rightarrow> 0
      | Some (t, i) \<Rightarrow> if \<not> pteValid (m t i) then 0 else m t i AND 0x3FF)"

definition activate :: "u64 \<Rightarrow> u64" where
  "activate addr =
     makeSatp (if addr \<ge> PHYS_BASE \<and> addr < PHYS_END then addr else v2p addr)"

definition pmt_empty :: "ptmem \<Rightarrow> u64 \<Rightarrow> bool" where
  "pmt_empty m t \<longleftrightarrow> (\<forall>i \<in> {0 ..< 512}. m t i = 0)"

text \<open>
  \<open>clean\<close> descends through every valid entry without access flags. The depth
  argument bounds the recursion, \<open>None\<close> is a descent below it; tables are three
  levels deep.
\<close>

definition clean_entry ::
  "(u64 \<Rightarrow> ptmem \<Rightarrow> 's \<Rightarrow> (ptmem \<times> 's) option) \<Rightarrow> (u64 \<Rightarrow> 's \<Rightarrow> 's option)
   \<Rightarrow> u64 \<Rightarrow> nat \<Rightarrow> ptmem \<times> 's \<Rightarrow> (ptmem \<times> 's) option" where
  "clean_entry descend give_page t i ms =
     (let (m, s) = ms; pte = m t i in
      if pteValid pte \<and> pte AND (PAGE_R OR PAGE_W OR PAGE_X) = 0 then
        let next = pte2table pte in
        Option.bind (descend next m s) (\<lambda>(m1, s1).
          if pmt_empty m1 next
          then Option.bind (give_page next s1) (\<lambda>s2. Some (set_pte t i 0 m1, s2))
          else Some (m1, s1))
      else Some (m, s))"

primrec pmt_clean ::
  "(u64 \<Rightarrow> 's \<Rightarrow> 's option) \<Rightarrow> nat \<Rightarrow> u64 \<Rightarrow> ptmem \<Rightarrow> 's \<Rightarrow> (ptmem \<times> 's) option" where
  "pmt_clean give_page 0 t m s = None"
| "pmt_clean give_page (Suc d) t m s =
     foldl (\<lambda>acc i. Option.bind acc (clean_entry (pmt_clean give_page d) give_page t i))
       (Some (m, s)) [0 ..< 512]"

declare mapPages_loop.simps [simp del] unmapPages_loop.simps [simp del]

section \<open>Encoding of entries\<close>

abbreviation flag_bits :: "u64 \<Rightarrow> bool" where
  "flag_bits f \<equiv> f AND 0x3FF = f"

lemma flag_bits_high: "flag_bits f \<Longrightarrow> 10 \<le> n \<Longrightarrow> \<not> bit f n"
proof -
  assume "flag_bits f" and n: "10 \<le> n"
  then have "bit f n \<longleftrightarrow> bit (f AND mask 10) n" by (simp add: mask_eq_exp_minus_1)
  with n show ?thesis by (simp add: bit_simps)
qed

lemma pageRoundDown_bits: "pageRoundDown a = push_bit 12 (drop_bit 12 a)"
  unfolding pageRoundDown_def page_mask by (rule bit_eqI) (auto simp: bit_simps)

lemma pte2pa_makePte [simp]:
  assumes "flag_bits f"
  shows "pte2pa (makePte pa f) = pageRoundDown pa"
  unfolding pte2pa_def makePte_def pageRoundDown_bits
  by (rule bit_eqI) (use flag_bits_high [OF assms] in \<open>auto simp: bit_simps\<close>)

lemma makePte_flags [simp]:
  assumes "flag_bits f"
  shows "makePte pa f AND 0x3FF = f"
proof -
  have "makePte pa f AND mask 10 = f AND mask 10"
    unfolding makePte_def by (rule bit_eqI) (auto simp: bit_simps)
  then show ?thesis using assms by (simp add: mask_eq_exp_minus_1)
qed

lemma makePte_and:
  assumes "g AND 0x3FF = g"
  shows "makePte pa f AND g = f AND g"
proof -
  have "\<not> (bit g n \<and> 10 \<le> n)" for n using flag_bits_high [OF assms] by blast
  then show ?thesis unfolding makePte_def by (intro bit_eqI) (auto simp: bit_simps)
qed

lemma pteValid_makePte [simp]: "pteValid (makePte pa f) \<longleftrightarrow> f AND PAGE_V \<noteq> 0"
  using makePte_and [of PAGE_V pa f] by (simp add: pteValid_def PAGE_V_def)

lemma PAGE_V_nonzero [simp]: "PAGE_V \<noteq> 0"
  by (simp add: PAGE_V_def)

lemma pteValid_0 [simp]: "\<not> pteValid 0"
  by (simp add: pteValid_def)

lemma v2p_aligned: "page_aligned p \<Longrightarrow> page_aligned (v2p p)"
proof -
  assume "page_aligned p"
  moreover have "v2p p = p + 0x4000000000"
    by (simp add: v2p_def KERNEL_OFFSET_def KERNEL_BASE_def PHYS_BASE_def)
  moreover have "unat (p + 0x4000000000) = (unat p + 0x4000000000) mod 2 ^ 64"
    by (simp add: unat_word_ariths)
  moreover have "(4096 :: nat) dvd 2 ^ 64" "(4096 :: nat) dvd 0x4000000000"
    by simp_all
  ultimately show ?thesis by (simp add: page_aligned_iff dvd_mod_iff)
qed

lemma table_entry [simp]:
  assumes "page_aligned p"
  shows "pte2table (makePte (v2p p) PAGE_V) = p" and "pteValid (makePte (v2p p) PAGE_V)"
  using v2p_aligned [OF assms] by (simp_all add: pte2table_def PAGE_V_def)

lemma vpn_less [simp]: "vpn va l < 512"
proof -
  have "drop_bit (12 + l * 9) va AND 0x1FF \<le> 0x1FF" by (rule word_and_le1)
  then show ?thesis by (simp add: vpn_def word_le_nat_alt)
qed

section \<open>The tree of tables\<close>

text \<open>The tables a root reaches, and the entry that describes an address.\<close>

abbreviation l1_table :: "ptmem \<Rightarrow> u64 \<Rightarrow> nat \<Rightarrow> u64" where
  "l1_table m root i \<equiv> pte2table (m root i)"

abbreviation l0_table :: "ptmem \<Rightarrow> u64 \<Rightarrow> nat \<Rightarrow> nat \<Rightarrow> u64" where
  "l0_table m root i j \<equiv> pte2table (m (l1_table m root i) j)"

definition has1 :: "ptmem \<Rightarrow> u64 \<Rightarrow> nat \<Rightarrow> bool" where
  "has1 m root i \<longleftrightarrow> i < 512 \<and> pteValid (m root i)"

definition has0 :: "ptmem \<Rightarrow> u64 \<Rightarrow> nat \<Rightarrow> nat \<Rightarrow> bool" where
  "has0 m root i j \<longleftrightarrow> has1 m root i \<and> j < 512 \<and> pteValid (m (l1_table m root i) j)"

lemma find_pte_eq:
  "find_pte root va m =
     (if has0 m root (vpn va 2) (vpn va 1)
      then Some (l0_table m root (vpn va 2) (vpn va 1), vpn va 0) else None)"
  by (simp add: find_pte_def walk_def numeral_2_eq_2 has0_def has1_def Let_def)

text \<open>No table is used twice.\<close>

definition tree :: "ptmem \<Rightarrow> u64 \<Rightarrow> bool" where
  "tree m root \<longleftrightarrow>
     (\<forall>i j. has1 m root i \<longrightarrow> has1 m root j \<longrightarrow> l1_table m root i = l1_table m root j \<longrightarrow> i = j)
     \<and> (\<forall>i. has1 m root i \<longrightarrow> l1_table m root i \<noteq> root)
     \<and> (\<forall>i j i' j'. has0 m root i j \<longrightarrow> has0 m root i' j' \<longrightarrow>
          l0_table m root i j = l0_table m root i' j' \<longrightarrow> i = i' \<and> j = j')
     \<and> (\<forall>i j k. has0 m root i j \<longrightarrow> l0_table m root i j \<noteq> root
          \<and> (has1 m root k \<longrightarrow> l0_table m root i j \<noteq> l1_table m root k))"

definition tables :: "ptmem \<Rightarrow> u64 \<Rightarrow> u64 set" where
  "tables m root = {root} \<union> {l1_table m root i | i. has1 m root i}
     \<union> {l0_table m root i j | i j. has0 m root i j}"

lemma treeD:
  assumes "tree m root"
  shows "has1 m root i \<Longrightarrow> has1 m root j \<Longrightarrow> l1_table m root i = l1_table m root j \<Longrightarrow> i = j"
    and "has1 m root i \<Longrightarrow> l1_table m root i \<noteq> root"
    and "has0 m root i j \<Longrightarrow> has0 m root i' j' \<Longrightarrow>
           l0_table m root i j = l0_table m root i' j' \<Longrightarrow> i = i' \<and> j = j'"
    and "has0 m root i j \<Longrightarrow> l0_table m root i j \<noteq> root"
    and "has0 m root i j \<Longrightarrow> has1 m root k \<Longrightarrow> l0_table m root i j \<noteq> l1_table m root k"
  using assms unfolding tree_def by blast+

lemma tables_mem:
  "root \<in> tables m root" "has1 m root i \<Longrightarrow> l1_table m root i \<in> tables m root"
  "has0 m root i j \<Longrightarrow> l0_table m root i j \<in> tables m root"
  by (auto simp: tables_def)

text \<open>Writing an entry of a last-level table changes no part of the tree.\<close>

lemma leaf_write:
  assumes "tree m root" and "has0 m root i j"
    and m'_def: "m' = set_pte (l0_table m root i j) k v m"
  shows "m' root = m root" "has1 m root a \<Longrightarrow> m' (l1_table m root a) = m (l1_table m root a)"
    and "has1 m' root = has1 m root" "has0 m' root = has0 m root"
    and "has0 m root a b \<Longrightarrow> l0_table m' root a b = l0_table m root a b"
    and "tree m' root" and "tables m' root = tables m root"
proof -
  note t = treeD [OF assms(1)]
  show r: "m' root = m root" using t(4) [OF assms(2)] by (simp add: m'_def set_pte_def)
  show l1: "m' (l1_table m root a) = m (l1_table m root a)" if "has1 m root a" for a
    using t(5) [OF assms(2) that] by (simp add: m'_def set_pte_def)
  show h1: "has1 m' root = has1 m root" by (auto simp: has1_def r)
  show h0: "has0 m' root = has0 m root" using l1 by (auto simp: has0_def h1 r fun_eq_iff)
  show l0: "l0_table m' root a b = l0_table m root a b" if "has0 m root a b" for a b
    using l1 that by (simp add: r has0_def)
  show "tree m' root" using assms(1) l0 unfolding tree_def h1 h0 r by auto
  show "tables m' root = tables m root" using l0 unfolding tables_def h1 h0 r by force
qed

text \<open>The entry that governs an address, \<open>0\<close> where there is no table for it.\<close>

definition pte_of :: "ptmem \<Rightarrow> u64 \<Rightarrow> u64 \<Rightarrow> u64" where
  "pte_of m root va =
     (if has0 m root (vpn va 2) (vpn va 1)
      then m (l0_table m root (vpn va 2) (vpn va 1)) (vpn va 0) else 0)"

definition same_page :: "u64 \<Rightarrow> u64 \<Rightarrow> bool" where
  "same_page va va' \<longleftrightarrow> vpn va 0 = vpn va' 0 \<and> vpn va 1 = vpn va' 1 \<and> vpn va 2 = vpn va' 2"

lemma translate_pte:
  "translate root va m =
     (if pteValid (pte_of m root va) then pte2pa (pte_of m root va) + (va AND (PAGE_SIZE - 1)) else 0)"
  by (simp add: translate_def find_pte_eq pte_of_def)

lemma getFlags_pte:
  "getFlags root va m = (if pteValid (pte_of m root va) then pte_of m root va AND 0x3FF else 0)"
  by (simp add: getFlags_def find_pte_eq pte_of_def)

lemma leaf_write_pte:
  assumes t: "tree m root" and h: "has0 m root (vpn va 2) (vpn va 1)"
    and m': "m' = set_pte (l0_table m root (vpn va 2) (vpn va 1)) (vpn va 0) v m"
  shows "pte_of m' root va' = (if same_page va va' then v else pte_of m root va')"
proof (cases "has0 m root (vpn va' 2) (vpn va' 1)")
  case True
  note w = leaf_write [OF t h m']
  let ?t = "l0_table m root (vpn va 2) (vpn va 1)" and ?t' = "l0_table m root (vpn va' 2) (vpn va' 1)"
  have eq: "?t' = ?t \<and> vpn va' 0 = vpn va 0 \<longleftrightarrow> same_page va va'"
    using treeD(3) [OF t True h] by (auto simp: same_page_def)
  have "pte_of m' root va' = m' ?t' (vpn va' 0)"
    using True w(4) w(5) [OF True] by (simp only: pte_of_def if_True)
  also have "\<dots> = (if ?t' = ?t \<and> vpn va' 0 = vpn va 0 then v else m ?t' (vpn va' 0))"
    by (simp add: m' set_pte_def)
  finally show ?thesis using True unfolding eq by (simp add: pte_of_def)
next
  case False
  then have "\<not> same_page va va'" using h by (auto simp: same_page_def)
  with False leaf_write(4) [OF t h m'] show ?thesis by (simp add: pte_of_def)
qed

text \<open>Hanging a fresh, cleared table into an unused entry of the root.\<close>

lemma add_l1:
  assumes t: "tree m root" and i: "i < 512" "\<not> pteValid (m root i)"
    and p: "p \<notin> tables m root" "page_aligned p"
    and m': "m' = set_pte root i (makePte (v2p p) PAGE_V) (new_PMT p m)"
  shows "tree m' root" "tables m' root = insert p (tables m root)" "pte_of m' root = pte_of m root"
    and "has1 m' root i" "l1_table m' root i = p" "m' p = (\<lambda>_. 0)"
proof -
  have pr: "p \<noteq> root" using p(1) tables_mem by metis
  have root: "m' root = (m root)(i := makePte (v2p p) PAGE_V)"
    using pr by (auto simp: m' set_pte_def new_PMT_def)
  have old: "m' a = m a" if "a \<noteq> root" "a \<noteq> p" for a
    using that by (simp add: m' set_pte_def new_PMT_def)
  show zero: "m' p = (\<lambda>_. 0)" using pr by (simp add: m' set_pte_def new_PMT_def)
  show l1i: "l1_table m' root i = p" using p(2) by (simp add: root)
  have n1: "\<not> has1 m root i" using i by (simp add: has1_def)
  have h1: "has1 m' root a \<longleftrightarrow> a = i \<or> has1 m root a" for a
    using i p(2) by (auto simp: has1_def root)
  then show "has1 m' root i" by simp
  have l1: "l1_table m' root a = l1_table m root a" if "has1 m root a" for a
    using that n1 by (auto simp: root)
  have ml1: "m' (l1_table m root a) = m (l1_table m root a)" if "has1 m root a" for a
    using that tables_mem(2) [OF that] treeD(2) [OF t that] p(1) by (metis old)
  have h0: "has0 m' root a b \<longleftrightarrow> has0 m root a b" for a b
  proof (cases "a = i")
    case True
    then show ?thesis using n1 l1i zero by (simp add: has0_def)
  next
    case False
    then show ?thesis using l1 ml1 h1 by (auto simp: has0_def)
  qed
  have l0: "l0_table m' root a b = l0_table m root a b" if "has0 m root a b" for a b
    using that l1 ml1 by (simp add: has0_def)
  have pn: "l1_table m root a \<noteq> p" if "has1 m root a" for a using that tables_mem(2) p(1) by metis
  have pn0: "l0_table m root a b \<noteq> p" if "has0 m root a b" for a b
    using that tables_mem(3) p(1) by metis
  show "tree m' root"
    unfolding tree_def
  proof (intro conjI allI impI)
    fix a b assume "has1 m' root a" "has1 m' root b" "l1_table m' root a = l1_table m' root b"
    then show "a = b" using treeD(1) [OF t] l1 l1i pn by (metis h1)
  next
    fix a assume "has1 m' root a"
    then show "l1_table m' root a \<noteq> root" using treeD(2) [OF t] l1 l1i pr by (metis h1)
  next
    fix a b a' b' assume "has0 m' root a b" "has0 m' root a' b'"
      "l0_table m' root a b = l0_table m' root a' b'"
    then show "a = a'" "b = b'" using treeD(3) [OF t] l0 by (metis h0)+
  next
    fix a b k assume "has0 m' root a b"
    then have hb: "has0 m root a b" by (simp add: h0)
    then show "l0_table m' root a b \<noteq> root" using treeD(4) [OF t] l0 by metis
    assume "has1 m' root k"
    then show "l0_table m' root a b \<noteq> l1_table m' root k"
      using treeD(5) [OF t hb] l0 [OF hb] l1 l1i pn0 [OF hb] by (metis h1)
  qed
  show "tables m' root = insert p (tables m root)"
    unfolding tables_def h0 using h1 l1 l1i l0 by (auto; metis)
  have "m' (l0_table m root a b) = m (l0_table m root a b)" if "has0 m root a b" for a b
    using old [OF treeD(4) [OF t that] pn0 [OF that]] .
  then show "pte_of m' root = pte_of m root"
    using l0 h0 by (auto simp: pte_of_def fun_eq_iff)
qed

text \<open>The same one level below.\<close>

lemma add_l0:
  assumes t: "tree m root" and i: "has1 m root i" "j < 512" "\<not> pteValid (m (l1_table m root i) j)"
    and p: "p \<notin> tables m root" "page_aligned p"
    and m': "m' = set_pte (l1_table m root i) j (makePte (v2p p) PAGE_V) (new_PMT p m)"
  shows "tree m' root" "tables m' root = insert p (tables m root)" "pte_of m' root = pte_of m root"
    and "has0 m' root i j" "l0_table m' root i j = p"
proof -
  let ?l1 = "l1_table m root i"
  have pr: "p \<noteq> root" "p \<noteq> ?l1" using p(1) tables_mem(1,2) i(1) by metis+
  have root: "m' root = m root"
    using treeD(2) [OF t i(1)] pr by (auto simp: m' set_pte_def new_PMT_def)
  have at: "m' ?l1 = (m ?l1)(j := makePte (v2p p) PAGE_V)"
    using pr by (auto simp: m' set_pte_def new_PMT_def)
  have old: "m' a = m a" if "a \<noteq> ?l1" "a \<noteq> p" for a
    using that by (simp add: m' set_pte_def new_PMT_def)
  have zero: "m' p = (\<lambda>_. 0)" using pr by (auto simp: m' set_pte_def new_PMT_def)
  have h1: "has1 m' root = has1 m root" by (auto simp: has1_def root)
  have pn: "l1_table m root a \<noteq> p" if "has1 m root a" for a using that tables_mem(2) p(1) by metis
  have pn0: "l0_table m root a b \<noteq> p" if "has0 m root a b" for a b
    using that tables_mem(3) p(1) by metis
  have ml1: "m' (l1_table m root a) = m (l1_table m root a)" if "has1 m root a" "a \<noteq> i" for a
    using old pn [OF that(1)] treeD(1) [OF t that(1) i(1)] that(2) by metis
  have n0: "\<not> has0 m root i j" using i by (simp add: has0_def)
  have h0: "has0 m' root a b \<longleftrightarrow> a = i \<and> b = j \<or> has0 m root a b" for a b
    using i p(2) ml1 [of a] by (cases "a = i") (auto simp: has0_def h1 root at)
  show l0i: "l0_table m' root i j = p" using p(2) by (simp add: root at)
  show "has0 m' root i j" by (simp add: h0)
  have l0: "l0_table m' root a b = l0_table m root a b" if "has0 m root a b" for a b
    using that n0 ml1 [of a] by (cases "a = i") (auto simp: has0_def root at)
  show "tree m' root"
    unfolding tree_def h1
  proof (intro conjI allI impI)
    fix a b assume "has1 m root a" "has1 m root b" "l1_table m' root a = l1_table m' root b"
    then show "a = b" using treeD(1) [OF t] by (simp add: root)
  next
    fix a assume "has1 m root a"
    then show "l1_table m' root a \<noteq> root" using treeD(2) [OF t] by (simp add: root)
  next
    fix a b a' b' assume "has0 m' root a b" "has0 m' root a' b'"
      "l0_table m' root a b = l0_table m' root a' b'"
    then show "a = a'" "b = b'" using treeD(3) [OF t] l0 l0i pn0 by (metis h0)+
  next
    fix a b k assume hb: "has0 m' root a b"
    then show "l0_table m' root a b \<noteq> root" using treeD(4) [OF t] l0 l0i pr by (metis h0)
    assume "has1 m root k"
    then show "l0_table m' root a b \<noteq> l1_table m' root k"
      using treeD(5) [OF t] l0 l0i pn hb root by (metis h0)
  qed
  show "tables m' root = insert p (tables m root)"
  proof -
    have "{l0_table m' root a b |a b. has0 m' root a b}
        = insert p {l0_table m root a b |a b. has0 m root a b}" (is "?L = ?R")
    proof
      show "?L \<subseteq> ?R"
      proof
        fix x assume "x \<in> ?L"
        then obtain a b where "x = l0_table m' root a b" "has0 m' root a b" by blast
        then show "x \<in> ?R" using h0 [of a b] l0 [of a b] l0i by blast
      qed
      show "?R \<subseteq> ?L"
      proof
        fix x assume "x \<in> ?R"
        then consider "x = p" | a b where "x = l0_table m root a b" "has0 m root a b" by blast
        then show "x \<in> ?L"
        proof cases
          case 1 then show ?thesis using l0i h0 [of i j] by blast
        next
          case 2 then show ?thesis using l0 [OF 2(2)] h0 [of a b] by (metis (mono_tags, lifting) mem_Collect_eq)
        qed
      qed
    qed
    then show ?thesis unfolding tables_def h1 root by auto
  qed
  have same: "m' (l0_table m root a b) = m (l0_table m root a b)" if "has0 m root a b" for a b
    using old [OF treeD(5) [OF t that i(1)] pn0 [OF that]] .
  show "pte_of m' root = pte_of m root"
  proof
    fix va
    show "pte_of m' root va = pte_of m root va"
      using same [of "vpn va 2" "vpn va 1"] l0 [of "vpn va 2" "vpn va 1"] l0i zero n0 h0
      by (auto simp: pte_of_def)
  qed
qed

section \<open>Walking, mapping and unmapping\<close>

context page_source begin

definition pt_ok :: "ptmem \<Rightarrow> u64 \<Rightarrow> 's \<Rightarrow> bool" where
  "pt_ok m root s \<longleftrightarrow> tree m root \<and> good s \<and> tables m root \<inter> pool s = {}"

lemma fresh_table:
  assumes "pt_ok m root s" and "take_page s = (Some p, s')"
  shows "p \<notin> tables m root" "page_aligned p" "good s'" "pool s' = pool s - {p}"
  using assms take_some [of s p s'] page_aligned_of [of s p] by (auto simp: pt_ok_def)

lemma walk_level1:
  assumes ok: "pt_ok m root s" and h: "has1 m root (vpn va 2)"
    and run: "walk_loop take_page va True (Suc 0) (l1_table m root (vpn va 2)) m s = (r, m', s')"
  shows "pt_ok m' root s' \<and> pte_of m' root = pte_of m root \<and> pool s' \<subseteq> pool s
     \<and> (case r of None \<Rightarrow> pool s' = {} \<and> pool s = {}
         | Some (t, i) \<Rightarrow> has0 m' root (vpn va 2) (vpn va 1)
             \<and> t = l0_table m' root (vpn va 2) (vpn va 1) \<and> i = vpn va 0)"
proof (cases "pteValid (m (l1_table m root (vpn va 2)) (vpn va 1))")
  case True
  with run ok h show ?thesis by (auto simp: has0_def)
next
  case False
  have t: "tree m root" "good s" using ok by (simp_all add: pt_ok_def)
  show ?thesis
  proof (cases "take_page s")
    case (Pair x s1)
    show ?thesis
    proof (cases x)
      case None
      with Pair take_none [OF t(2)] have "s1 = s" "pool s = {}" by auto
      with None Pair False run ok show ?thesis by auto
    next
      case (Some p)
      with Pair have tk: "take_page s = (Some p, s1)" by simp
      note f = fresh_table [OF ok tk]
      let ?m = "set_pte (l1_table m root (vpn va 2)) (vpn va 1) (makePte (v2p p) PAGE_V) (new_PMT p m)"
      note a = add_l0 [OF t(1) h vpn_less False f(1,2) refl]
      have "pt_ok ?m root s1" using a(1,2) f ok by (auto simp: pt_ok_def)
      moreover have "r = Some (p, vpn va 0)" "m' = ?m" "s' = s1"
        using run False tk by (auto simp: Let_def)
      ultimately show ?thesis using a f(4) by auto
    qed
  qed
qed

lemma walk_alloc:
  assumes ok: "pt_ok m root s" and run: "walk take_page root va True m s = (r, m', s')"
  shows "pt_ok m' root s' \<and> pte_of m' root = pte_of m root \<and> pool s' \<subseteq> pool s
     \<and> (case r of None \<Rightarrow> pool s' = {} \<and> (\<exists>p. pool s \<subseteq> {p})
         | Some (t, i) \<Rightarrow> has0 m' root (vpn va 2) (vpn va 1)
             \<and> t = l0_table m' root (vpn va 2) (vpn va 1) \<and> i = vpn va 0)"
proof (cases "pteValid (m root (vpn va 2))")
  case True
  then have "has1 m root (vpn va 2)" by (simp add: has1_def)
  moreover have "walk_loop take_page va True (Suc 0) (l1_table m root (vpn va 2)) m s = (r, m', s')"
    using run True by (simp add: walk_def numeral_2_eq_2 Let_def)
  ultimately show ?thesis using walk_level1 [OF ok, of va r m' s'] by (cases r) auto
next
  case False
  have t: "tree m root" "good s" using ok by (simp_all add: pt_ok_def)
  obtain x s1 where x: "take_page s = (x, s1)" by (cases "take_page s")
  show ?thesis
  proof (cases x)
    case None
    with x take_none [OF t(2)] have "s1 = s" "pool s = {}" by auto
    with None x False run ok show ?thesis by (auto simp: walk_def numeral_2_eq_2 Let_def)
  next
    case (Some p)
    with x have tk: "take_page s = (Some p, s1)" by simp
    note f = fresh_table [OF ok tk]
    let ?m = "set_pte root (vpn va 2) (makePte (v2p p) PAGE_V) (new_PMT p m)"
    note a = add_l1 [OF t(1) vpn_less False f(1,2) refl]
    have ok1: "pt_ok ?m root s1" using a(1,2) f ok by (auto simp: pt_ok_def)
    have "walk_loop take_page va True (Suc 0) (l1_table ?m root (vpn va 2)) ?m s1 = (r, m', s')"
      using run False tk a(5) by (simp add: walk_def numeral_2_eq_2 Let_def)
    from walk_level1 [OF ok1 a(4) this] show ?thesis using a(3) f(4) by (cases r) auto
  qed
qed

lemma mapPage_cases:
  assumes ok: "pt_ok m root s"
  shows "case mapPage take_page root va pa flags m s of
      Inl f \<Rightarrow> f = Panic ''PMT::mapPage: page already mapped'' \<and> pteValid (pte_of m root va)
    | Inr (b, m', s') \<Rightarrow> pt_ok m' root s' \<and> pool s' \<subseteq> pool s
        \<and> (if b then \<not> pteValid (pte_of m root va)
             \<and> (\<forall>va'. pte_of m' root va' = (if same_page va va' then makePte pa flags else pte_of m root va'))
           else pool s' = {} \<and> (\<exists>p. pool s \<subseteq> {p}) \<and> pte_of m' root = pte_of m root)"
proof -
  obtain r m1 s1 where run: "walk take_page root va True m s = (r, m1, s1)" by (metis prod_cases3)
  note w = walk_alloc [OF ok run]
  show ?thesis
  proof (cases r)
    case None
    with w run show ?thesis by (auto simp: mapPage_def)
  next
    case (Some ti)
    let ?t = "l0_table m1 root (vpn va 2) (vpn va 1)"
    have ti: "ti = (?t, vpn va 0)" and h: "has0 m1 root (vpn va 2) (vpn va 1)"
      and ok1: "pt_ok m1 root s1" and same: "pte_of m1 root = pte_of m root" and sub: "pool s1 \<subseteq> pool s"
      using w Some by (auto split: prod.splits)
    have tr: "tree m1 root" using ok1 by (simp add: pt_ok_def)
    have e: "m1 ?t (vpn va 0) = pte_of m root va" using h same by (metis pte_of_def)
    define m2 where "m2 = set_pte ?t (vpn va 0) (makePte pa flags) m1"
    note l = leaf_write [OF tr h m2_def]
    have "pt_ok m2 root s1" using l(6,7) ok1 by (simp add: pt_ok_def)
    moreover have "pte_of m2 root va' = (if same_page va va' then makePte pa flags else pte_of m root va')" for va'
      using leaf_write_pte [OF tr h m2_def] same by simp
    moreover have "mapPage take_page root va pa flags m s =
        (if pteValid (pte_of m root va) then Inl (Panic ''PMT::mapPage: page already mapped'')
         else Inr (True, m2, s1))"
      using run Some ti e by (simp add: mapPage_def m2_def)
    ultimately show ?thesis using sub by auto
  qed
qed

lemma mapPages_loop_cases:
  assumes "pt_ok m root s" and "flags AND PAGE_V \<noteq> 0"
    and "mapPages_loop take_page root va pa i count flags m s = Inr (b, m', s')"
  shows "pt_ok m' root s' \<and> pool s' \<subseteq> pool s
    \<and> (\<forall>va'. pteValid (pte_of m root va') \<longrightarrow> pte_of m' root va' = pte_of m root va')
    \<and> (\<forall>va'. (\<forall>j. i \<le> j \<and> j < count \<longrightarrow> \<not> same_page (va + of_nat j * PAGE_SIZE) va')
          \<longrightarrow> pte_of m' root va' = pte_of m root va')
    \<and> (if b then \<forall>j va'. i \<le> j \<and> j < count \<and> same_page (va + of_nat j * PAGE_SIZE) va'
            \<longrightarrow> pte_of m' root va' = makePte (pa + of_nat j * PAGE_SIZE) flags
       else pool s' = {})"
  using assms
proof (induction "count - i" arbitrary: i m s)
  case 0
  then have "count \<le> i" by simp
  with 0(4) have "m' = m" "s' = s" b by (simp_all add: mapPages_loop.simps)
  moreover from \<open>count \<le> i\<close> have "\<not> (i \<le> j \<and> j < count)" for j by linarith
  ultimately show ?case using 0(2) by (simp only: if_True) blast
next
  case (Suc n)
  have i: "i < count" using Suc.hyps(2) by simp
  let ?va = "va + of_nat i * PAGE_SIZE" and ?pa = "pa + of_nat i * PAGE_SIZE"
  have run: "bindE (mapPage take_page root ?va ?pa flags m s)
      (\<lambda>(b, m1, s1). if \<not> b then Inr (False, m1, s1)
         else mapPages_loop take_page root va pa (i + 1) count flags m1 s1) = Inr (b, m', s')"
    using Suc.prems(3) i by (subst (asm) mapPages_loop.simps) simp
  then obtain b1 m1 s1 where one: "mapPage take_page root ?va ?pa flags m s = Inr (b1, m1, s1)"
    by (cases "mapPage take_page root ?va ?pa flags m s") auto
  note c = mapPage_cases [OF Suc.prems(1), of ?va ?pa flags, unfolded one sum.case prod.case]
  show ?case
  proof (cases b1)
    case False
    then have "m' = m1" "s' = s1" "\<not> b" using run one by auto
    moreover have "pt_ok m1 root s1" "pool s1 \<subseteq> pool s" "pool s1 = {}" "pte_of m1 root = pte_of m root"
      using c False by simp_all
    ultimately show ?thesis by simp
  next
    case True
    have rest: "mapPages_loop take_page root va pa (Suc i) count flags m1 s1 = Inr (b, m', s')"
      using run one True by simp
    have pt1: "pte_of m1 root va' = (if same_page ?va va' then makePte ?pa flags else pte_of m root va')"
      and inv: "\<not> pteValid (pte_of m root ?va)" for va' using c True by auto
    note IH = Suc.hyps(1) [OF _ _ Suc.prems(2) rest]
    have IH': "pt_ok m' root s'" "pool s' \<subseteq> pool s1"
      and keep: "\<And>va'. pteValid (pte_of m1 root va') \<Longrightarrow> pte_of m' root va' = pte_of m1 root va'"
      and out: "\<And>va'. (\<forall>j. Suc i \<le> j \<and> j < count \<longrightarrow> \<not> same_page (va + of_nat j * PAGE_SIZE) va')
          \<Longrightarrow> pte_of m' root va' = pte_of m1 root va'"
      and res: "if b then \<forall>j va'. Suc i \<le> j \<and> j < count \<and> same_page (va + of_nat j * PAGE_SIZE) va'
            \<longrightarrow> pte_of m' root va' = makePte (pa + of_nat j * PAGE_SIZE) flags else pool s' = {}"
      using IH Suc.hyps(2) c True by simp_all
    have here: "pte_of m' root va' = makePte ?pa flags" if "same_page ?va va'" for va'
      using keep [of va'] pt1 [of va'] that Suc.prems(2) by simp
    have old: "pte_of m' root va' = pte_of m root va'" if v: "pteValid (pte_of m root va')" for va'
    proof -
      have "pte_of m root va' = pte_of m root ?va" if "same_page ?va va'"
        using that by (simp add: pte_of_def same_page_def)
      then have "\<not> same_page ?va va'" using v inv by metis
      then show ?thesis using keep [of va'] pt1 [of va'] v by simp
    qed
    have outside: "pte_of m' root va' = pte_of m root va'"
      if "\<forall>j. i \<le> j \<and> j < count \<longrightarrow> \<not> same_page (va + of_nat j * PAGE_SIZE) va'" for va'
      using that out [of va'] pt1 [of va'] i by simp
    have all: "pte_of m' root va' = makePte (pa + of_nat j * PAGE_SIZE) flags"
      if b: b and j: "i \<le> j" "j < count" and sp: "same_page (va + of_nat j * PAGE_SIZE) va'" for j va'
    proof (cases "j = i")
      case True
      with here sp show ?thesis by simp
    next
      case False
      with j res b sp show ?thesis by simp
    qed
    have sub: "pool s' \<subseteq> pool s" using IH'(2) c True by auto
    have fin: "if b then \<forall>j va'. i \<le> j \<and> j < count \<and> same_page (va + of_nat j * PAGE_SIZE) va'
          \<longrightarrow> pte_of m' root va' = makePte (pa + of_nat j * PAGE_SIZE) flags else pool s' = {}"
      using all res by (cases b) (simp_all only: if_True if_False, blast)
    show ?thesis using IH'(1) sub old outside fin by blast
  qed
qed

end

text \<open>Removing the entry of an address.\<close>

lemma unmapPage_cases:
  assumes t: "tree m root" and run: "unmapPage root va m = (r, m')"
  shows "r = (if pteValid (pte_of m root va) then pte2pa (pte_of m root va) else 0)"
    and "tree m' root" "tables m' root = tables m root"
    and "pte_of m' root va' =
      (if same_page va va' \<and> pteValid (pte_of m root va) then 0 else pte_of m root va')"
proof -
  let ?t = "l0_table m root (vpn va 2) (vpn va 1)"
  let ?v = "pteValid (pte_of m root va)"
  have h: "has0 m root (vpn va 2) (vpn va 1)" if ?v using that by (auto simp: pte_of_def split: if_splits)
  have e: "m ?t (vpn va 0) = pte_of m root va" if ?v using h [OF that] by (simp add: pte_of_def)
  have u: "unmapPage root va m =
      (if ?v then (pte2pa (pte_of m root va), set_pte ?t (vpn va 0) 0 m) else (0, m))"
  proof (cases ?v)
    case True
    show ?thesis using h [OF True] True
      by (simp add: unmapPage_def find_pte_eq e [OF True] del: One_nat_def)
  next
    case False
    show ?thesis using False by (auto simp: unmapPage_def find_pte_eq pte_of_def)
  qed
  show "r = (if ?v then pte2pa (pte_of m root va) else 0)" using run unfolding u by (cases ?v) simp_all
  have m': "m' = (if ?v then set_pte ?t (vpn va 0) 0 m else m)" using run unfolding u by (cases ?v) simp_all
  show "tree m' root" "tables m' root = tables m root"
    using t leaf_write(6,7) [OF t h refl] unfolding m' by (cases ?v; simp only: if_True if_False)+
  show "pte_of m' root va' = (if same_page va va' \<and> ?v then 0 else pte_of m root va')"
  proof (cases ?v)
    case True
    with m' have "m' = set_pte ?t (vpn va 0) 0 m" by (simp only: if_True)
    from leaf_write_pte [OF t h [OF True] this] True show ?thesis by simp
  next
    case False
    with m' show ?thesis by (simp only: if_False) simp
  qed
qed

lemma same_page_refl [simp]: "same_page va va"
  by (simp add: same_page_def)

lemma pageRoundDown_same_page: "pageRoundDown a = pageRoundDown b \<Longrightarrow> same_page a b"
proof -
  assume "pageRoundDown a = pageRoundDown b"
  moreover have "drop_bit 12 (pageRoundDown c) = drop_bit 12 c" for c
    unfolding pageRoundDown_bits by (rule bit_word_eqI) (auto simp: bit_simps dest: bit_imp_le_length)
  ultimately have d: "drop_bit 12 a = drop_bit 12 b" by metis
  have "vpn a l = vpn b l" for l
  proof -
    have "drop_bit (12 + l * 9) a = drop_bit (l * 9) (drop_bit 12 a)" "drop_bit (12 + l * 9) b = drop_bit (l * 9) (drop_bit 12 b)"
      by (simp_all add: add.commute)
    then show ?thesis using d by (simp add: vpn_def)
  qed
  then show ?thesis by (simp add: same_page_def)
qed

lemma same_page_pte: "same_page va va' \<Longrightarrow> pte_of m root va' = pte_of m root va"
  by (simp add: same_page_def pte_of_def)

lemma unmapPages_loop_cases:
  assumes "tree m root" and "unmapPages_loop root va i count ret m = (r, m')" and "ret \<noteq> 0"
  shows "tree m' root \<and> tables m' root = tables m root
    \<and> (\<forall>va'. pte_of m' root va' = pte_of m root va' \<or> pte_of m' root va' = 0)
    \<and> (r \<noteq> 0 \<longrightarrow> r = ret \<and> (\<forall>j. i \<le> j \<and> j < count \<longrightarrow> pte_of m' root (va + of_nat j * PAGE_SIZE) = 0))"
  using assms
proof (induction "count - i" arbitrary: i m)
  case 0
  then have "count \<le> i" by simp
  with 0(3) have "m' = m" "r = ret" by (simp_all add: unmapPages_loop.simps)
  moreover from \<open>count \<le> i\<close> have "\<not> (i \<le> j \<and> j < count)" for j by linarith
  ultimately show ?case using 0(2) by blast
next
  case (Suc n)
  have i: "i < count" using Suc.hyps(2) by simp
  let ?va = "va + of_nat i * PAGE_SIZE"
  obtain r1 m1 where one: "unmapPage root ?va m = (r1, m1)" by (cases "unmapPage root ?va m")
  note c = unmapPage_cases [OF Suc.prems(1) one]
  have run: "(if r1 = 0 then (0, m1) else unmapPages_loop root va (Suc i) count ret m1) = (r, m')"
    using Suc.prems(2) i one unmapPages_loop.simps [of root va i count ret m] by (simp split: if_splits)
  show ?case
  proof (cases "r1 = 0")
    case True
    with run have "m' = m1" "r = 0" by simp_all
    with c(2,3) c(4) show ?thesis by simp
  next
    case False
    with run have "unmapPages_loop root va (Suc i) count ret m1 = (r, m')" by simp
    note IH = Suc.hyps(1) [OF _ c(2) this Suc.prems(3)]
    have v: "pteValid (pte_of m root ?va)" using False c(1) by (simp split: if_splits)
    have z: "pte_of m1 root ?va = 0" using c(4) [of ?va] v by simp
    have IH1: "tree m' root" "tables m' root = tables m1 root"
      and IH2: "\<And>va'. pte_of m' root va' = pte_of m1 root va' \<or> pte_of m' root va' = 0"
      and IH3: "r \<noteq> 0 \<Longrightarrow> r = ret"
        "\<And>j. r \<noteq> 0 \<Longrightarrow> Suc i \<le> j \<Longrightarrow> j < count \<Longrightarrow> pte_of m' root (va + of_nat j * PAGE_SIZE) = 0"
      using IH Suc.hyps(2) by simp_all
    have all: "pte_of m' root (va + of_nat j * PAGE_SIZE) = 0" if "r \<noteq> 0" "i \<le> j" "j < count" for j
      using IH3(2) [of j] IH2 [of ?va] z that by (cases "j = i") auto
    have same: "pte_of m' root va' = pte_of m root va' \<or> pte_of m' root va' = 0" for va'
      using IH2 [of va'] c(4) [of va'] by presburger
    show ?thesis using IH1 c(3) same IH3(1) all by blast
  qed
qed

section \<open>The page tables above the buddy allocator\<close>

text \<open>
  The state the kernel keeps: a proper tree of tables, a sound allocator, and no table
  among the free pages.
\<close>

definition pt_wf :: "ptmem \<Rightarrow> u64 \<Rightarrow> buddy \<Rightarrow> bool" where
  "pt_wf m root s \<longleftrightarrow> tree m root \<and> buddy_good s \<and> tables m root \<inter> buddy_pool s = {}"

lemma pt_wf_ok: "buddy_pages.pt_ok m root s \<longleftrightarrow> pt_wf m root s"
  by (simp add: buddy_pages.pt_ok_def pt_wf_def)

text \<open>A new, empty root table is in that state.\<close>

lemma tree_empty: "tree (new_PMT root m) root" "tables (new_PMT root m) root = {root}"
  by (simp_all add: tree_def tables_def has0_def has1_def new_PMT_def)

lemma pt_wf_empty:
  assumes "buddy_good s" and "root \<notin> buddy_pool s"
  shows "pt_wf (new_PMT root m) root s"
  using assms tree_empty by (simp add: pt_wf_def)

definition demo_heap :: buddy where
  "demo_heap = buddy_init 0x100000 0x110000 (\<lambda>_. None)"

lemma demo_heap_good: "buddy_good demo_heap" and demo_heap_start: "unat (m_startAddr demo_heap) = 0x100000"
proof -
  have r: "pageRoundUp 0x100000 = 0x100000"
    by (simp add: pageRoundUp_def pageRoundDown_def PAGE_SIZE_def)
  show "buddy_good demo_heap"
    unfolding demo_heap_def by (rule buddy_init_good) (simp_all add: r PAGE_SIZE_def)
  show "unat (m_startAddr demo_heap) = 0x100000"
    using buddy_init_inv [OF refl, of "0x110000" "0x100000" "\<lambda>_. None"]
    by (auto simp: r demo_heap_def PAGE_SIZE_def)
qed

definition demo_pt :: ptmem where
  "demo_pt = new_PMT 0x1000 (\<lambda>_ _. 0)"

lemma demo_wf: "pt_wf demo_pt 0x1000 demo_heap"
  unfolding demo_pt_def
  using pt_wf_empty [OF demo_heap_good] buddy_pool_above [OF demo_heap_good, of "0x1000"]
  by (auto simp: demo_heap_start)

lemma demo_pte: "pte_of demo_pt 0x1000 va = 0"
  by (simp add: pte_of_def has0_def has1_def new_PMT_def demo_pt_def)

lemma demo_pool: "{0x100000, 0x101000} \<subseteq> buddy_pool demo_heap"
proof -
  obtain F where F: "buddy_inv 16 demo_heap F" "free_pages F = {0 ..< 16}" "m_startAddr demo_heap = 0x100000"
    using buddy_init_inv [OF refl, of "0x110000" "0x100000" "\<lambda>_. None"]
    by (auto simp: demo_heap_def PAGE_SIZE_def pageRoundUp_def pageRoundDown_def)
  then have "buddy_pool demo_heap = blockToPtr demo_heap ` {0 ..< 16}"
    using buddy_pool_eq [of demo_heap F] by (simp add: buddy_inv_def)
  moreover have "blockToPtr demo_heap 0 = 0x100000" "blockToPtr demo_heap (Suc 0) = 0x101000"
    using F(3) by (simp_all add: blockToPtr_def PAGE_SIZE_def)
  ultimately show ?thesis by (metis atLeastLessThan_iff image_eqI insert_subset empty_subsetI zero_le
      one_less_numeral_iff semiring_norm(76) zero_less_numeral One_nat_def)
qed

lemma demo_map:
  "\<exists>m' s'. mapPage kallocPage 0x1000 va pa flags demo_pt demo_heap = Inr (True, m', s')"
proof -
  note c = buddy_pages.mapPage_cases [unfolded pt_wf_ok, OF demo_wf, of va pa flags]
  have "\<not> buddy_pool demo_heap \<subseteq> {p}" for p
  proof
    assume "buddy_pool demo_heap \<subseteq> {p}"
    with demo_pool have "(0x100000 :: u64) = 0x101000" by blast
    then show False by simp
  qed
  then show ?thesis using c demo_pte
    by (cases "mapPage kallocPage 0x1000 va pa flags demo_pt demo_heap") (auto split: if_splits)
qed

text \<open>
  C4: \<^verbatim>\<open>PMT::mapPage\<close>. An address that is already mapped makes the kernel panic. If it
  is not, and there is memory for the tables on the way, the call makes \<^verbatim>\<open>translate\<close> give the
  physical page with the offset of the address and \<^verbatim>\<open>getFlags\<close> give the flags, and no address
  of another page translates differently; it reports failure only when the allocator has run
  dry, and then no translation has changed. In every case the tables stay a tree that is
  disjoint from free memory.
\<close>
theorem mapPage_translates:
  assumes "pt_wf m root s" and "flag_bits flags" and "flags AND PAGE_V \<noteq> 0"
  shows "case mapPage kallocPage root va pa flags m s of
      Inl f \<Rightarrow> f = Panic ''PMT::mapPage: page already mapped'' \<and> getFlags root va m \<noteq> 0
    | Inr (b, m', s') \<Rightarrow> pt_wf m' root s' \<and>
       (if b then getFlags root va m = 0
            \<and> translate root va m' = pageRoundDown pa + (va AND (PAGE_SIZE - 1))
            \<and> getFlags root va m' = flags
            \<and> (\<forall>va'. \<not> same_page va va' \<longrightarrow>
                 translate root va' m' = translate root va' m \<and> getFlags root va' m' = getFlags root va' m)
        else buddy_pool s' = {} \<and> (\<exists>p. buddy_pool s \<subseteq> {p})
            \<and> (\<forall>va'. translate root va' m' = translate root va' m))"
proof -
  note c = buddy_pages.mapPage_cases [unfolded pt_wf_ok, OF assms(1), of va pa flags]
  have valid: "pteValid x \<Longrightarrow> x AND 0x3FF \<noteq> 0" for x
  proof -
    have "x AND PAGE_V = (x AND 0x3FF) AND PAGE_V" by (simp add: PAGE_V_def and.assoc)
    then show "pteValid x \<Longrightarrow> x AND 0x3FF \<noteq> 0" by (auto simp: pteValid_def)
  qed
  show ?thesis
  proof (cases "mapPage kallocPage root va pa flags m s")
    case (Inl f)
    with c show ?thesis by (simp add: getFlags_pte valid)
  next
    case (Inr x)
    obtain b m' s' where x: "x = (b, m', s')" by (cases x)
    have c': "pt_wf m' root s'" "if b then \<not> pteValid (pte_of m root va)
             \<and> (\<forall>va'. pte_of m' root va' = (if same_page va va' then makePte pa flags else pte_of m root va'))
           else buddy_pool s' = {} \<and> (\<exists>p. buddy_pool s \<subseteq> {p}) \<and> pte_of m' root = pte_of m root"
      using c unfolding Inr x by simp_all
    with assms(2,3) show ?thesis
      by (cases b) (simp_all add: Inr x translate_pte getFlags_pte)
  qed
qed

theorem mapPage_translates_witness:
  "\<exists>m' s'. mapPage kallocPage 0x1000 0x400123 0x80300000 0x13 demo_pt demo_heap = Inr (True, m', s')
     \<and> translate 0x1000 0x400123 m' = 0x80300123 \<and> getFlags 0x1000 0x400123 m' = 0x13"
proof -
  obtain m' s' where run: "mapPage kallocPage 0x1000 0x400123 0x80300000 0x13 demo_pt demo_heap = Inr (True, m', s')"
    using demo_map by blast
  from mapPage_translates [OF demo_wf, of "0x13" "0x400123" "0x80300000"] show ?thesis
    unfolding run by (auto simp: page_flag_defs pageRoundDown_def PAGE_SIZE_def)
qed

text \<open>
  Mapping and unmapping are inverse. After a successful \<^verbatim>\<open>mapPage\<close>, \<^verbatim>\<open>unmapPage\<close> of an
  address of the same page returns the physical page that was mapped, and every address
  translates as it did before the mapping.
\<close>
theorem map_unmap_roundtrip:
  assumes "pt_wf m root s" and "flag_bits flags" and "flags AND PAGE_V \<noteq> 0" and "page_aligned pa"
    and "mapPage kallocPage root va pa flags m s = Inr (True, m1, s1)" and "same_page va va1"
    and "unmapPage root va1 m1 = (r, m2)"
  shows "r = pa \<and> (\<forall>va'. translate root va' m2 = translate root va' m) \<and> pt_wf m2 root s1"
proof -
  have c: "pt_wf m1 root s1" "\<not> pteValid (pte_of m root va)"
    "\<And>va'. pte_of m1 root va' = (if same_page va va' then makePte pa flags else pte_of m root va')"
    using buddy_pages.mapPage_cases [unfolded pt_wf_ok, OF assms(1), of va pa flags]
    unfolding assms(5) by simp_all
  have t: "tree m1 root" using c(1) by (simp add: pt_wf_def)
  note u = unmapPage_cases [OF t assms(7)]
  have e: "pte_of m1 root va1 = makePte pa flags" using c(3) assms(6) by simp
  have r: "r = pa" using u(1) assms(2,3,4) by (simp add: e)
  have "translate root va' m2 = translate root va' m" for va'
  proof (cases "same_page va va'")
    case True
    then have "same_page va1 va'" using assms(6) by (simp add: same_page_def)
    then have "pte_of m2 root va' = 0" using u(4) assms(3) by (simp add: e)
    moreover have "\<not> pteValid (pte_of m root va')" using c(2) same_page_pte [OF True] by metis
    ultimately show ?thesis by (simp add: translate_pte)
  next
    case False
    then have "\<not> same_page va1 va'" using assms(6) by (simp add: same_page_def)
    then show ?thesis using u(4) c(3) False by (simp add: translate_pte)
  qed
  moreover have "pt_wf m2 root s1" using u(2,3) c(1) by (simp add: pt_wf_def)
  ultimately show ?thesis using r by blast
qed

theorem map_unmap_roundtrip_witness:
  "\<exists>m1 s1. mapPage kallocPage 0x1000 0x400123 0x80300000 0x13 demo_pt demo_heap = Inr (True, m1, s1)
     \<and> fst (unmapPage 0x1000 0x400FFF m1) = 0x80300000
     \<and> translate 0x1000 0x400123 (snd (unmapPage 0x1000 0x400FFF m1)) = 0"
proof -
  obtain m1 s1 where run: "mapPage kallocPage 0x1000 0x400123 0x80300000 0x13 demo_pt demo_heap = Inr (True, m1, s1)"
    using demo_map by blast
  obtain r m2 where un: "unmapPage 0x1000 0x400FFF m1 = (r, m2)" by (cases "unmapPage 0x1000 0x400FFF m1")
  have "r = 0x80300000 \<and> (\<forall>va'. translate 0x1000 va' m2 = translate 0x1000 va' demo_pt)"
    using map_unmap_roundtrip [OF demo_wf _ _ _ run _ un]
    by (simp add: page_flag_defs pageRoundDown_def PAGE_SIZE_def same_page_def vpn_def)
  moreover have "translate 0x1000 0x400123 demo_pt = 0" by (simp add: translate_pte demo_pte)
  ultimately show ?thesis using run un by simp
qed

text \<open>
  \<^verbatim>\<open>PMT::mapPages\<close> maps a range page by page: when it succeeds every address of the
  \<open>j\<close>-th virtual page carries the entry of the \<open>j\<close>-th physical page, addresses outside the range
  translate as before, and whatever was mapped before is never overwritten, even when the
  call fails half-way.
\<close>
theorem mapPages_range:
  assumes "pt_wf m root s" and "flag_bits flags" and "flags AND PAGE_V \<noteq> 0"
    and "mapPages kallocPage root va pa count flags m s = Inr (b, m', s')"
  shows "pt_wf m' root s'
    \<and> (\<forall>va'. translate root va' m \<noteq> 0 \<longrightarrow> translate root va' m' = translate root va' m)
    \<and> (\<forall>va'. (\<forall>j < count. \<not> same_page (va + of_nat j * PAGE_SIZE) va') \<longrightarrow>
          translate root va' m' = translate root va' m)
    \<and> (if b then \<forall>j < count. \<forall>va'. same_page (va + of_nat j * PAGE_SIZE) va' \<longrightarrow>
          translate root va' m' = pageRoundDown (pa + of_nat j * PAGE_SIZE) + (va' AND (PAGE_SIZE - 1))
       else buddy_pool s' = {})"
proof -
  note c = buddy_pages.mapPages_loop_cases
    [unfolded pt_wf_ok, OF assms(1,3) assms(4) [unfolded mapPages_def]]
  have keep: "pte_of m' root va' = pte_of m root va'" if "pteValid (pte_of m root va')" for va'
    using c that by blast
  have out: "pte_of m' root va' = pte_of m root va'"
    if "\<forall>j < count. \<not> same_page (va + of_nat j * PAGE_SIZE) va'" for va'
    using c that by blast
  have hit: "pte_of m' root va' = makePte (pa + of_nat j * PAGE_SIZE) flags"
    if b "j < count" "same_page (va + of_nat j * PAGE_SIZE) va'" for j va'
    using c that by (simp only: if_True) blast
  have "translate root va' m' = translate root va' m" if "translate root va' m \<noteq> 0" for va'
    using keep [of va'] that unfolding translate_pte by metis
  moreover have "translate root va' m' = translate root va' m"
    if "\<forall>j < count. \<not> same_page (va + of_nat j * PAGE_SIZE) va'" for va'
    using out [OF that] unfolding translate_pte by simp
  moreover have "translate root va' m' = pageRoundDown (pa + of_nat j * PAGE_SIZE) + (va' AND (PAGE_SIZE - 1))"
    if "b" "j < count" "same_page (va + of_nat j * PAGE_SIZE) va'" for j va'
    using hit [OF that] assms(2,3) unfolding translate_pte by simp
  moreover have "pt_wf m' root s'" "\<not> b \<Longrightarrow> buddy_pool s' = {}" using c by simp_all
  ultimately show ?thesis by (cases b) (simp_all only: if_True if_False, blast+)
qed

theorem mapPages_range_witness:
  "\<exists>m' s'. mapPages kallocPage 0x1000 0x400000 0x80300000 1 0x13 demo_pt demo_heap = Inr (True, m', s')
     \<and> translate 0x1000 0x400FFF m' = 0x80300FFF"
proof -
  obtain m' s' where "mapPage kallocPage 0x1000 0x400000 0x80300000 0x13 demo_pt demo_heap = Inr (True, m', s')"
    using demo_map by blast
  then have run: "mapPages kallocPage 0x1000 0x400000 0x80300000 1 0x13 demo_pt demo_heap = Inr (True, m', s')"
    by (simp add: mapPages_def mapPages_loop.simps)
  have "translate 0x1000 0x400FFF m' = 0x80300FFF"
    using mapPages_range [OF demo_wf _ _ run]
    by (auto simp: page_flag_defs pageRoundDown_def PAGE_SIZE_def same_page_def vpn_def)
  with run show ?thesis by blast
qed

text \<open>
  \<^verbatim>\<open>PMT::clean\<close> takes an entry with none of the access flags for a pointer to a table.
  A user page mapped without access (\<^verbatim>\<open>PROT_NONE\<close>: only \<^verbatim>\<open>PAGE_V\<close> and \<^verbatim>\<open>PAGE_U\<close>) whose words are
  all zero is therefore given back to the allocator and unmapped while its process still owns it.
\<close>
theorem clean_frees_prot_none_page:
  assumes "page_aligned pa" and "m t i = makePte pa (PAGE_V OR PAGE_U)" and "\<forall>k < 512. m (p2v pa) k = 0"
    and "give_page (p2v pa) s = Some s'"
  shows "clean_entry (pmt_clean give_page (Suc d)) give_page t i (m, s) = Some (set_pte t i 0 m, s')"
proof -
  have fl: "flag_bits (PAGE_V OR PAGE_U)" "(PAGE_V OR PAGE_U) AND PAGE_V \<noteq> 0"
    "(PAGE_V OR PAGE_U) AND (PAGE_R OR PAGE_W OR PAGE_X) = 0"
    and g: "(PAGE_R OR PAGE_W OR PAGE_X) AND 0x3FF = PAGE_R OR PAGE_W OR PAGE_X"
    by (simp_all add: page_flag_defs)
  have nt: "pte2table (m t i) = p2v pa"
    using assms(1,2) fl(1) by (simp add: pte2table_def)
  have "foldl (\<lambda>acc k. Option.bind acc (clean_entry (pmt_clean give_page d) give_page (p2v pa) k)) (Some (m, s)) ks
      = Some (m, s)" if "\<forall>k \<in> set ks. m (p2v pa) k = 0" for ks
    using that by (induction ks) (simp_all add: clean_entry_def Let_def)
  then have "pmt_clean give_page (Suc d) (p2v pa) m s = Some (m, s)" using assms(3) by simp
  moreover have "pmt_empty m (p2v pa)" using assms(3) by (simp add: pmt_empty_def)
  moreover have "pteValid (m t i)" "m t i AND (PAGE_R OR PAGE_W OR PAGE_X) = 0"
    using assms(2) fl makePte_and [OF g] by simp_all
  ultimately show ?thesis using assms(4) by (simp add: clean_entry_def nt del: pmt_clean.simps)
qed

theorem clean_frees_prot_none_page_witness:
  "clean_entry (pmt_clean (\<lambda>p (s :: u64 list). Some (p # s)) (Suc 0)) (\<lambda>p s. Some (p # s)) 0x1000 7
     (set_pte 0x1000 7 (makePte 0x80300000 (PAGE_V OR PAGE_U)) (\<lambda>_ _. 0), [])
   = Some (set_pte 0x1000 7 0 (set_pte 0x1000 7 (makePte 0x80300000 (PAGE_V OR PAGE_U)) (\<lambda>_ _. 0)),
       [p2v 0x80300000])"
  by (rule clean_frees_prot_none_page)
    (simp_all add: set_pte_def pageRoundDown_def PAGE_SIZE_def p2v_def KERNEL_OFFSET_def KERNEL_BASE_def PHYS_BASE_def)

end
