(* ===== verification/Segment.thy ===== *)
theory Segment
  imports Pmt
begin

text \<open>
  The segment table of a process (\<^verbatim>\<open>kernel/mm/vm/segment.cpp\<close>): at most one
  descriptor for each kind of segment, looked up in a fixed order, and the check
  of an address range against their access flags. A descriptor is the value its
  pointer refers to; a failed allocation is a missing descriptor.
\<close>

section \<open>Descriptors and tables\<close>

datatype SegType = TEXT | RO_DATA | DATA | BSS | HEAP | STACK

record SegmentDesc =
  sd_type :: SegType
  sd_flags :: u8
  sd_start :: u64
  sd_end :: u64

definition seg_contains :: "SegmentDesc \<Rightarrow> u64 \<Rightarrow> bool" where
  "seg_contains d va \<longleftrightarrow> va \<ge> sd_start d \<and> va < sd_end d"

record SegmentTable =
  m_text :: "SegmentDesc option"
  m_roData :: "SegmentDesc option"
  m_data :: "SegmentDesc option"
  m_bss :: "SegmentDesc option"
  m_heap :: "SegmentDesc option"
  m_stack :: "SegmentDesc option"

definition SegmentTable_ctor :: SegmentTable where
  "SegmentTable_ctor =
     \<lparr>m_text = None, m_roData = None, m_data = None, m_bss = None, m_heap = None, m_stack = None\<rparr>"

text \<open>\<open>room\<close> says whether the descriptor cache hands out memory.\<close>

definition allocDesc :: "bool \<Rightarrow> SegType \<Rightarrow> u8 \<Rightarrow> u64 \<Rightarrow> u64 \<Rightarrow> SegmentDesc option" where
  "allocDesc room ty fl va_start va_end =
     (if \<not> room then None
      else Some \<lparr>sd_type = ty, sd_flags = fl, sd_start = va_start, sd_end = va_end\<rparr>)"

definition setText :: "bool \<Rightarrow> u8 \<Rightarrow> u64 \<Rightarrow> u64 \<Rightarrow> SegmentTable \<Rightarrow> SegmentTable" where
  "setText room fl a b t = t\<lparr>m_text := allocDesc room TEXT fl a b\<rparr>"

definition setRoData :: "bool \<Rightarrow> u8 \<Rightarrow> u64 \<Rightarrow> u64 \<Rightarrow> SegmentTable \<Rightarrow> SegmentTable" where
  "setRoData room fl a b t = t\<lparr>m_roData := allocDesc room RO_DATA fl a b\<rparr>"

definition setData :: "bool \<Rightarrow> u8 \<Rightarrow> u64 \<Rightarrow> u64 \<Rightarrow> SegmentTable \<Rightarrow> SegmentTable" where
  "setData room fl a b t = t\<lparr>m_data := allocDesc room DATA fl a b\<rparr>"

definition setBss :: "bool \<Rightarrow> u8 \<Rightarrow> u64 \<Rightarrow> u64 \<Rightarrow> SegmentTable \<Rightarrow> SegmentTable" where
  "setBss room fl a b t = t\<lparr>m_bss := allocDesc room BSS fl a b\<rparr>"

definition setHeap :: "bool \<Rightarrow> u8 \<Rightarrow> u64 \<Rightarrow> u64 \<Rightarrow> SegmentTable \<Rightarrow> SegmentTable" where
  "setHeap room fl a b t = t\<lparr>m_heap := allocDesc room HEAP fl a b\<rparr>"

definition setStack :: "bool \<Rightarrow> u8 \<Rightarrow> u64 \<Rightarrow> u64 \<Rightarrow> SegmentTable \<Rightarrow> SegmentTable" where
  "setStack room fl a b t = t\<lparr>m_stack := allocDesc room STACK fl a b\<rparr>"

definition seg_hit :: "SegmentDesc option \<Rightarrow> u64 \<Rightarrow> bool" where
  "seg_hit d va \<longleftrightarrow> (case d of None \<Rightarrow> False | Some s \<Rightarrow> seg_contains s va)"

definition seg_find :: "SegmentTable \<Rightarrow> u64 \<Rightarrow> SegmentDesc option" where
  "seg_find t va =
     (if seg_hit (m_text t) va then m_text t
      else if seg_hit (m_roData t) va then m_roData t
      else if seg_hit (m_data t) va then m_data t
      else if seg_hit (m_bss t) va then m_bss t
      else if seg_hit (m_heap t) va then m_heap t
      else if seg_hit (m_stack t) va then m_stack t
      else None)"

definition seg_clear :: "SegmentTable \<Rightarrow> SegmentTable" where
  "seg_clear t =
     t\<lparr>m_text := None, m_roData := None, m_data := None, m_bss := None, m_heap := None, m_stack := None\<rparr>"

text \<open>One line of \<^verbatim>\<open>copy\<close>: a present descriptor of the source is set in the copy.\<close>

definition copy_desc ::
  "(u8 \<Rightarrow> u64 \<Rightarrow> u64 \<Rightarrow> SegmentTable \<Rightarrow> SegmentTable) \<Rightarrow> SegmentDesc option \<Rightarrow> SegmentTable \<Rightarrow> SegmentTable" where
  "copy_desc put d dst =
     (case d of None \<Rightarrow> dst | Some s \<Rightarrow> put (sd_flags s) (sd_start s) (sd_end s) dst)"

definition seg_copy :: "bool \<Rightarrow> SegmentTable \<Rightarrow> SegmentTable" where
  "seg_copy room src =
     copy_desc (setStack room) (m_stack src)
       (copy_desc (setHeap room) (m_heap src)
         (copy_desc (setBss room) (m_bss src)
           (copy_desc (setData room) (m_data src)
             (copy_desc (setRoData room) (m_roData src)
               (copy_desc (setText room) (m_text src) SegmentTable_ctor)))))"

lemma seg_find_contains: "seg_find t va = Some d \<Longrightarrow> seg_contains d va"
  by (auto simp: seg_find_def seg_hit_def split: if_splits option.splits)

text \<open>The loop of \<^verbatim>\<open>checkOperation\<close> steps to the end of the segment it is in.\<close>

function seg_checkOperation :: "SegmentTable \<Rightarrow> u64 \<Rightarrow> u64 \<Rightarrow> u32 \<Rightarrow> bool" where
  "seg_checkOperation t va_start va_end op =
     (if va_start < va_end then
        (case seg_find t va_start of
           None \<Rightarrow> False
         | Some d \<Rightarrow>
             if ucast (sd_flags d) AND op = 0 then False
             else seg_checkOperation t (sd_end d) va_end op)
      else True)"
  by auto

termination
  by (relation "measure (\<lambda>(_, va_start, va_end, _). unat va_end - unat va_start)")
    (auto dest!: seg_find_contains simp: seg_contains_def word_less_nat_alt)

declare seg_checkOperation.simps [simp del]

section \<open>Properties\<close>

lemma check_sound:
  "seg_checkOperation t a b op \<Longrightarrow> a \<le> va \<Longrightarrow> va < b \<Longrightarrow>
   \<exists>d a'. a' \<le> va \<and> seg_find t a' = Some d \<and> seg_contains d va \<and> ucast (sd_flags d) AND op \<noteq> 0"
proof (induction t a b op rule: seg_checkOperation.induct)
  case (1 t a b op)
  have lt: "a < b" using "1.prems"(2,3) by simp
  then obtain d where d: "seg_find t a = Some d" "ucast (sd_flags d) AND op \<noteq> 0"
    "seg_checkOperation t (sd_end d) b op"
    using "1.prems"(1) by (subst (asm) seg_checkOperation.simps) (auto split: option.splits if_splits)
  have in_d: "sd_start d \<le> a" "a < sd_end d"
    using seg_find_contains [OF d(1)] by (simp_all add: seg_contains_def)
  show ?case
  proof (cases "va < sd_end d")
    case True
    then have "seg_contains d va" using in_d "1.prems"(2) by (simp add: seg_contains_def)
    then show ?thesis using d(1,2) "1.prems"(2) by blast
  next
    case False
    then have "sd_end d \<le> va" by simp
    from "1.IH" [OF lt d(1,2) d(3) this "1.prems"(3)] show ?thesis .
  qed
qed

lemma check_complete:
  "(\<And>va. a \<le> va \<Longrightarrow> va < b \<Longrightarrow> \<exists>d. seg_find t va = Some d \<and> ucast (sd_flags d) AND op \<noteq> 0) \<Longrightarrow>
   seg_checkOperation t a b op"
proof (induction t a b op rule: seg_checkOperation.induct)
  case (1 t a b op)
  show ?case
  proof (cases "a < b")
    case True
    then obtain d where d: "seg_find t a = Some d" "ucast (sd_flags d) AND op \<noteq> 0"
      using "1.prems" [of a] by auto
    have "a < sd_end d" using seg_find_contains [OF d(1)] by (simp add: seg_contains_def)
    then have "seg_checkOperation t (sd_end d) b op" using "1.prems" by (intro "1.IH" [OF True d]) auto
    with True d show ?thesis by (subst seg_checkOperation.simps) simp
  next
    case False
    then show ?thesis by (subst seg_checkOperation.simps) simp
  qed
qed


definition demo_segments :: SegmentTable where
  "demo_segments = setHeap True 6 0x2000 0x4000 (setText True 10 0x1000 0x2000 SegmentTable_ctor)"


text \<open>A copied table answers every lookup like the source, up to the kind of the segment.\<close>

lemma seg_copy_contents:
  assumes "\<And>d. m_text t = Some d \<Longrightarrow> sd_type d = TEXT" "\<And>d. m_roData t = Some d \<Longrightarrow> sd_type d = RO_DATA"
    "\<And>d. m_data t = Some d \<Longrightarrow> sd_type d = DATA" "\<And>d. m_bss t = Some d \<Longrightarrow> sd_type d = BSS"
    "\<And>d. m_heap t = Some d \<Longrightarrow> sd_type d = HEAP" "\<And>d. m_stack t = Some d \<Longrightarrow> sd_type d = STACK"
  shows "seg_copy True t = t"
  using assms
  by (cases t; simp add: seg_copy_def copy_desc_def setText_def setRoData_def setData_def setBss_def
      setHeap_def setStack_def allocDesc_def SegmentTable_ctor_def split: option.splits)

end
