(* ===== verification/PageRef.thy ===== *)
theory PageRef
  imports MemLayout
begin

text \<open>
  The reference counts of shared physical pages, \<^verbatim>\<open>PageRefCount\<close> of
  \<^verbatim>\<open>kernel/mm/vm/page_meta.cpp\<close>: a table of 1024 buckets, each a chain of
  \<^verbatim>\<open>PageMeta\<close> nodes. A page without a node has one owner. A bucket's chain is the
  list of its nodes' physical addresses and counts, newest first.
\<close>

unbundle bit_operations_syntax

section \<open>The table and its operations\<close>

definition BUCKET_COUNT :: nat where "BUCKET_COUNT = 1024"
definition BUCKET_MASK :: u64 where "BUCKET_MASK = of_nat BUCKET_COUNT - 1"

record pageref =
  s_buckets :: "nat \<Rightarrow> (u64 \<times> u32) list"
  s_initialized :: bool

definition ref_hash :: "u64 \<Rightarrow> nat" where
  "ref_hash pa =
     (let key = drop_bit PAGE_SHIFT pa;
          key1 = key XOR drop_bit 16 key;
          key2 = key1 * 0x45d9f3b
      in unat (key2 AND BUCKET_MASK))"

primrec ref_find_chain :: "u64 \<Rightarrow> (u64 \<times> u32) list \<Rightarrow> u32 option" where
  "ref_find_chain pa [] = None"
| "ref_find_chain pa (nd # ns) = (if fst nd = pa then Some (snd nd) else ref_find_chain pa ns)"

definition ref_find :: "u64 \<Rightarrow> pageref \<Rightarrow> u32 option" where
  "ref_find pa r = ref_find_chain pa (s_buckets r (ref_hash pa))"

primrec ref_erase_chain :: "u64 \<Rightarrow> (u64 \<times> u32) list \<Rightarrow> (u64 \<times> u32) list" where
  "ref_erase_chain pa [] = []"
| "ref_erase_chain pa (nd # ns) = (if fst nd = pa then ns else nd # ref_erase_chain pa ns)"

definition ref_erase :: "u64 \<Rightarrow> pageref \<Rightarrow> pageref" where
  "ref_erase pa r =
     r\<lparr>s_buckets := (s_buckets r)(ref_hash pa := ref_erase_chain pa (s_buckets r (ref_hash pa)))\<rparr>"

text \<open>Assignment to the count of the node that \<^verbatim>\<open>find\<close> returns.\<close>

primrec ref_set_chain :: "u64 \<Rightarrow> u32 \<Rightarrow> (u64 \<times> u32) list \<Rightarrow> (u64 \<times> u32) list" where
  "ref_set_chain pa v [] = []"
| "ref_set_chain pa v (nd # ns) =
     (if fst nd = pa then (fst nd, v) # ns else nd # ref_set_chain pa v ns)"

definition ref_set :: "u64 \<Rightarrow> u32 \<Rightarrow> pageref \<Rightarrow> pageref" where
  "ref_set pa v r =
     r\<lparr>s_buckets := (s_buckets r)(ref_hash pa := ref_set_chain pa v (s_buckets r (ref_hash pa)))\<rparr>"

definition ref_init :: "pageref \<Rightarrow> pageref" where
  "ref_init r =
     (if s_initialized r then r else \<lparr>s_buckets = (\<lambda>_. []), s_initialized = True\<rparr>)"

definition incRef :: "u64 \<Rightarrow> pageref \<Rightarrow> pageref" where
  "incRef pa r =
     (case ref_find pa r of
        Some c \<Rightarrow> ref_set pa (c + 1) r
      | None \<Rightarrow> r\<lparr>s_buckets := (s_buckets r)(ref_hash pa := (pa, 2) # s_buckets r (ref_hash pa))\<rparr>)"

definition decRef :: "u64 \<Rightarrow> pageref \<Rightarrow> bool \<times> pageref" where
  "decRef pa r =
     (case ref_find pa r of
        None \<Rightarrow> (True, r)
      | Some c \<Rightarrow>
          let r1 = ref_set pa (c - 1) r in
          if c - 1 = 0 then (True, ref_erase pa r1) else (False, r1))"

definition getRef :: "u64 \<Rightarrow> pageref \<Rightarrow> u32" where
  "getRef pa r = (case ref_find pa r of Some c \<Rightarrow> c | None \<Rightarrow> 1)"

section \<open>The table as a function from pages to counts\<close>

definition ref_inv :: "pageref \<Rightarrow> bool" where
  "ref_inv r \<longleftrightarrow> (\<forall>i. distinct (map fst (s_buckets r i)) \<and> (\<forall>nd \<in> set (s_buckets r i). snd nd \<noteq> 0))"

lemma find_chain_set:
  "ref_find_chain pa (ref_set_chain pb v ns) =
     (if pa = pb then map_option (\<lambda>_. v) (ref_find_chain pa ns) else ref_find_chain pa ns)"
  by (induction ns) auto

lemma find_chain_None: "ref_find_chain pa ns = None \<longleftrightarrow> pa \<notin> fst ` set ns"
  by (induction ns) auto

lemma find_chain_erase:
  "distinct (map fst ns) \<Longrightarrow>
   ref_find_chain pa (ref_erase_chain pb ns) = (if pa = pb then None else ref_find_chain pa ns)"
  by (induction ns) (auto simp: find_chain_None [symmetric])

lemma set_chain_keys [simp]: "map fst (ref_set_chain pa v ns) = map fst ns"
  by (induction ns) auto

lemma set_chain_nodes: "set (ref_set_chain pa v ns) \<subseteq> insert (pa, v) (set ns)"
  by (induction ns) auto

lemma erase_chain_nodes: "set (ref_erase_chain pa ns) \<subseteq> set ns"
  by (induction ns) auto

lemma erase_chain_distinct: "distinct (map fst ns) \<Longrightarrow> distinct (map fst (ref_erase_chain pa ns))"
  using erase_chain_nodes by (induction ns) (fastforce simp: image_iff)+

lemma find_chain_positive:
  "ref_find_chain pa ns = Some c \<Longrightarrow> \<forall>nd \<in> set ns. snd nd \<noteq> 0 \<Longrightarrow> c \<noteq> 0"
  by (induction ns) (auto split: if_splits)

lemma ref_set_find:
  "ref_find pa (ref_set pb v r) =
     (if pa = pb then map_option (\<lambda>_. v) (ref_find pa r) else ref_find pa r)"
  by (simp add: ref_find_def ref_set_def find_chain_set)

lemma ref_set_inv: "ref_inv r \<Longrightarrow> v \<noteq> 0 \<Longrightarrow> ref_inv (ref_set pa v r)"
  using set_chain_nodes by (fastforce simp: ref_inv_def ref_set_def)

lemma ref_erase_find:
  "ref_inv r \<Longrightarrow> ref_find pa (ref_erase pb r) = (if pa = pb then None else ref_find pa r)"
  by (auto simp: ref_find_def ref_erase_def ref_inv_def find_chain_erase)

lemma ref_erase_inv: "ref_inv r \<Longrightarrow> ref_inv (ref_erase pa r)"
  using erase_chain_nodes erase_chain_distinct by (fastforce simp: ref_inv_def ref_erase_def)

lemma ref_find_positive: "ref_inv r \<Longrightarrow> ref_find pa r = Some c \<Longrightarrow> c \<noteq> 0"
  using find_chain_positive [of pa "s_buckets r (ref_hash pa)" c] by (simp add: ref_inv_def ref_find_def)

lemma getRef_positive: "ref_inv r \<Longrightarrow> 0 < unat (getRef pa r)"
  using ref_find_positive [of r pa] by (auto simp: getRef_def unat_gt_0 split: option.splits)

lemma ref_cons_find:
  "ref_find pa (r\<lparr>s_buckets := (s_buckets r)(ref_hash pb := (pb, v) # s_buckets r (ref_hash pb))\<rparr>) =
     (if pa = pb then Some v else ref_find pa r)"
  by (simp add: ref_find_def)

text \<open>The node whose count has reached zero is the one that leaves.\<close>

lemma erase_set_chain: "ref_erase_chain pa (ref_set_chain pa v ns) = ref_erase_chain pa ns"
  by (induction ns) auto

lemma erase_set_inv: "ref_inv r \<Longrightarrow> ref_inv (ref_erase pa (ref_set pa v r))"
proof -
  have "ref_erase pa (ref_set pa v r) = ref_erase pa r"
    by (simp add: ref_erase_def ref_set_def erase_set_chain)
  then show "ref_inv r \<Longrightarrow> ref_inv (ref_erase pa (ref_set pa v r))" by (simp add: ref_erase_inv)
qed

lemma incRef_inv:
  assumes "ref_inv r" and "unat (getRef pa r) < 2 ^ 32 - 1"
  shows "ref_inv (incRef pa r)"
    and "unat (getRef q (incRef pa r)) = (if q = pa then unat (getRef pa r) + 1 else unat (getRef q r))"
proof -
  have c: "c + 1 \<noteq> 0" "unat (c + 1) = unat c + 1" if "ref_find pa r = Some c" for c
  proof -
    show u: "unat (c + 1) = unat c + 1" using assms(2) that by (simp add: getRef_def unat_word_ariths)
    then show "c + 1 \<noteq> 0" by (metis add_is_0 unat_0 zero_neq_one)
  qed
  show "ref_inv (incRef pa r)"
  proof (cases "ref_find pa r")
    case None
    then have "pa \<notin> fst ` set (s_buckets r (ref_hash pa))" by (simp add: ref_find_def find_chain_None)
    with None assms(1) show ?thesis by (auto simp: incRef_def ref_inv_def)
  next
    case (Some c)
    with assms(1) c [OF Some] show ?thesis by (simp add: incRef_def ref_set_inv)
  qed
  show "unat (getRef q (incRef pa r)) = (if q = pa then unat (getRef pa r) + 1 else unat (getRef q r))"
    using c by (cases "ref_find pa r") (auto simp: incRef_def getRef_def ref_set_find ref_cons_find)
qed

lemma decRef_cases:
  assumes inv: "ref_inv r" and run: "decRef pa r = (b, r')"
  shows "ref_inv r'" and "b \<longleftrightarrow> unat (getRef pa r) = 1"
    and "unat (getRef q r') = (if q = pa then (if b then 1 else unat (getRef pa r) - 1) else unat (getRef q r))"
proof -
  have one: "unat c = 1 \<longleftrightarrow> c = 1" for c :: u32 by (metis unat_1 unsigned_word_eqI)
  then have suc: "unat c = Suc 0 \<longleftrightarrow> c = 1" for c :: u32 by simp
  have "ref_inv r' \<and> (b \<longleftrightarrow> unat (getRef pa r) = 1) \<and>
    unat (getRef q r') = (if q = pa then (if b then 1 else unat (getRef pa r) - 1) else unat (getRef q r))"
  proof (cases "ref_find pa r")
    case None
    with run inv show ?thesis by (auto simp: decRef_def getRef_def)
  next
    case (Some c)
    have pos: "c \<noteq> 0" using ref_find_positive [OF inv Some] .
    show ?thesis
    proof (cases "c = 1")
      case True
      have "distinct (map fst (s_buckets (ref_set pa 0 r) i))" for i
        using inv by (simp add: ref_inv_def ref_set_def)
      then have "ref_find q (ref_erase pa (ref_set pa 0 r)) = (if q = pa then None else ref_find q r)" for q
        using ref_set_find [of q pa 0 r]
        by (auto simp: ref_find_def ref_erase_def find_chain_erase)
      moreover have "ref_inv (ref_erase pa (ref_set pa 0 r))"
        using inv by (rule erase_set_inv)
      ultimately show ?thesis using run True Some by (auto simp: decRef_def getRef_def)
    next
      case False
      then have "c - 1 \<noteq> 0" "unat (c - 1) = unat c - 1"
        using pos by (auto simp: unat_minus_one)
      then show ?thesis using run Some inv False
        by (auto simp: decRef_def getRef_def ref_set_find ref_set_inv suc)
    qed
  qed
  then show "ref_inv r'" "b \<longleftrightarrow> unat (getRef pa r) = 1"
    "unat (getRef q r') = (if q = pa then (if b then 1 else unat (getRef pa r) - 1) else unat (getRef q r))"
    by blast+
qed

section \<open>The contract of shared ownership\<close>

text \<open>The answers of releasing one page several times in a row.\<close>

primrec releases :: "('s \<Rightarrow> bool \<times> 's) \<Rightarrow> nat \<Rightarrow> 's \<Rightarrow> bool list \<times> 's" where
  "releases rel 0 s = ([], s)"
| "releases rel (Suc n) s = (case rel s of (b, s1) \<Rightarrow> case releases rel n s1 of (bs, s2) \<Rightarrow> (b # bs, s2))"

locale ref_counter =
  fixes share :: "'p \<Rightarrow> 's \<Rightarrow> 's"
    and release :: "'p \<Rightarrow> 's \<Rightarrow> bool \<times> 's"
    and owners :: "'p \<Rightarrow> 's \<Rightarrow> nat"
    and sound :: "'s \<Rightarrow> bool"
    and limit :: nat
  assumes share_sound: "sound s \<Longrightarrow> owners p s < limit \<Longrightarrow> sound (share p s)"
    and share_owners: "sound s \<Longrightarrow> owners p s < limit \<Longrightarrow>
      owners q (share p s) = (if q = p then owners p s + 1 else owners q s)"
    and release_sound: "sound s \<Longrightarrow> release p s = (b, s') \<Longrightarrow> sound s'"
    and release_last: "sound s \<Longrightarrow> release p s = (b, s') \<Longrightarrow> b \<longleftrightarrow> owners p s = 1"
    and release_owners: "sound s \<Longrightarrow> release p s = (b, s') \<Longrightarrow>
      owners q s' = (if q = p then (if b then 1 else owners p s - 1) else owners q s)"
    and owners_positive: "sound s \<Longrightarrow> 0 < owners p s"
begin

lemma share_many:
  "sound s \<Longrightarrow> owners p s + k \<le> limit \<Longrightarrow>
   sound ((share p ^^ k) s) \<and> owners q ((share p ^^ k) s) = (if q = p then owners p s + k else owners q s)"
proof (induction k arbitrary: q)
  case (Suc k)
  then have IH: "sound ((share p ^^ k) s)"
    "\<And>q. owners q ((share p ^^ k) s) = (if q = p then owners p s + k else owners q s)" by simp_all
  then have "owners p ((share p ^^ k) s) < limit" using Suc.prems(2) by simp
  then show ?case using IH share_sound share_owners by simp
qed simp

text \<open>Only the last of the owners is told to free the page.\<close>

lemma last_owner_frees:
  "sound s \<Longrightarrow> owners p s = Suc n \<Longrightarrow>
   fst (releases (release p) (Suc n) s) = replicate n False @ [True]"
proof (induction n arbitrary: s)
  case 0
  obtain b s1 where r: "release p s = (b, s1)" by (cases "release p s")
  with release_last [OF 0(1) r] 0(2) show ?case by simp
next
  case (Suc n)
  obtain b s1 where r: "release p s = (b, s1)" by (cases "release p s")
  have "\<not> b" using release_last [OF Suc.prems(1) r] Suc.prems(2) by simp
  moreover from this have "owners p s1 = Suc n"
    using release_owners [OF Suc.prems(1) r, of p] Suc.prems(2) by simp
  ultimately show ?case
    using Suc.IH [OF release_sound [OF Suc.prems(1) r]] r by (simp split: prod.splits)
qed

lemma share_then_release:
  assumes "sound s" and "owners p s + k \<le> limit"
  shows "fst (releases (release p) (owners p s + k) ((share p ^^ k) s))
     = replicate (owners p s + k - 1) False @ [True]"
  using last_owner_frees [of "(share p ^^ k) s" p "owners p s + k - 1"] share_many [OF assms, of p]
    owners_positive [OF assms(1), of p] by simp

end

interpretation page_refs: ref_counter incRef decRef "\<lambda>pa r. unat (getRef pa r)" ref_inv "2 ^ 32 - 1"
  by unfold_locales (rule incRef_inv decRef_cases getRef_positive; assumption)+

lemma ref_init_inv: "\<not> s_initialized r \<Longrightarrow> ref_inv (ref_init r)"
  by (simp add: ref_init_def ref_inv_def)

section \<open>Properties\<close>

text \<open>
  A physical page is freed exactly once, by its last owner: after \<open>k\<close> calls of \<^verbatim>\<open>incRef\<close> on a
  page that has \<open>n\<close> owners, the next \<open>n + k\<close> calls of \<^verbatim>\<open>decRef\<close> answer \<open>false\<close> all but the last,
  which answers \<open>true\<close>. Counts of other pages never change.
\<close>
theorem last_release_frees_page:
  assumes "ref_inv r" and "unat (getRef pa r) + k < 2 ^ 32"
  shows "fst (releases (decRef pa) (unat (getRef pa r) + k) ((incRef pa ^^ k) r))
       = replicate (unat (getRef pa r) + k - 1) False @ [True]
     \<and> (\<forall>q. q \<noteq> pa \<longrightarrow> getRef q ((incRef pa ^^ k) r) = getRef q r)"
proof -
  have le: "unat (getRef pa r) + k \<le> 2 ^ 32 - 1" using assms(2) by simp
  have "getRef q ((incRef pa ^^ k) r) = getRef q r" if "q \<noteq> pa" for q
    using page_refs.share_many [OF assms(1) le, of q] that by (auto intro: unsigned_word_eqI)
  then show ?thesis using page_refs.share_then_release [OF assms(1) le] by blast
qed

theorem last_release_frees_page_witness:
  "fst (releases (decRef 0x80001000) 3 ((incRef 0x80001000 ^^ 2) \<lparr>s_buckets = (\<lambda>_. []), s_initialized = True\<rparr>))
     = [False, False, True]"
proof -
  let ?r = "\<lparr>s_buckets = (\<lambda>_. []), s_initialized = True\<rparr>"
  have inv: "ref_inv ?r" by (simp add: ref_inv_def)
  have one: "unat (getRef 0x80001000 ?r) = 1" by (simp add: getRef_def ref_find_def)
  have "replicate 2 False = [False, False]" by (simp add: numeral_2_eq_2)
  with last_release_frees_page [OF inv, of "0x80001000" 2, unfolded one] show ?thesis
    by (simp add: numeral_3_eq_3)
qed

end
