(* ===== verification/VM.thy ===== *)
theory VM
  imports Segment PageRef MemUtil
begin

text \<open>
  Address spaces, \<^verbatim>\<open>kernel/mm/vm/vm.cpp\<close>: building a page table over the boot
  mappings, sharing one copy-on-write with a child, resolving a copy-on-write
  fault and tearing a table down. The state holds the tables, the bytes behind
  the kernel's linear mapping, the buddy allocator and the page reference counts.
\<close>

unbundle bit_operations_syntax

section \<open>State\<close>

record vmstate =
  vs_pt :: ptmem
  vs_data :: mem
  vs_heap :: buddy
  vs_refs :: pageref

definition vs_take :: "vmstate \<Rightarrow> u64 option \<times> vmstate" where
  "vs_take st = (case kallocPage (vs_heap st) of (p, h) \<Rightarrow> (p, st\<lparr>vs_heap := h\<rparr>))"

definition vs_give :: "u64 \<Rightarrow> vmstate \<Rightarrow> vmstate option" where
  "vs_give p st = Option.bind (kfreePage p (vs_heap st)) (\<lambda>h. Some (st\<lparr>vs_heap := h\<rparr>))"

primrec for_each :: "('i \<Rightarrow> 's \<Rightarrow> 's option) \<Rightarrow> 'i list \<Rightarrow> 's \<Rightarrow> 's option" where
  "for_each f [] s = Some s"
| "for_each f (i # is) s = Option.bind (f i s) (for_each f is)"

section \<open>Boot mappings and new tables\<close>

definition PMT_SIZE :: nat where "PMT_SIZE = 512"
definition USER_THRESHOLD :: nat where "USER_THRESHOLD = 256"
definition MMIO_BASE :: u64 where "MMIO_BASE = 0xFFFFFFD000000000"
definition PAGE_KERN :: u64 where "PAGE_KERN = PAGE_V OR PAGE_R OR PAGE_W OR PAGE_G"
definition PAGE_KERN_X :: u64 where "PAGE_KERN_X = PAGE_KERN OR PAGE_X"
definition PAGE_MMIO :: u64 where "PAGE_MMIO = PAGE_V OR PAGE_R OR PAGE_W OR PAGE_G"

definition level2Index :: "u64 \<Rightarrow> nat" where
  "level2Index va = unat (drop_bit 30 va AND 0x1FF)"

text \<open>The root table that \<^verbatim>\<open>bootstrap\<close> fills with four leaf entries of one gigabyte.\<close>

definition bootPmt :: "nat \<Rightarrow> u64" where
  "bootPmt = (\<lambda>_. 0)
     (level2Index PHYS_BASE := push_bit 10 (drop_bit 12 PHYS_BASE) OR (PAGE_KERN_X OR PAGE_A),
      level2Index KERNEL_BASE := push_bit 10 (drop_bit 12 PHYS_BASE) OR (PAGE_KERN_X OR PAGE_A),
      level2Index KERNEL_OFFSET := push_bit 10 (drop_bit 12 0) OR (PAGE_KERN OR PAGE_A OR PAGE_D),
      level2Index MMIO_BASE := push_bit 10 (drop_bit 12 0) OR (PAGE_MMIO OR PAGE_A OR PAGE_D))"

definition createPMT :: "vmstate \<Rightarrow> u64 option \<times> vmstate" where
  "createPMT st =
     (case vs_take st of
        (None, st1) \<Rightarrow> (None, st1)
      | (Some p, st1) \<Rightarrow>
          let m = new_PMT p (vs_pt st1) in
          (Some p, st1\<lparr>vs_pt := m(p := (\<lambda>i. if USER_THRESHOLD \<le> i \<and> i < PMT_SIZE then bootPmt i else m p i))\<rparr>))"

section \<open>Tearing down\<close>

definition free_leaf :: "u64 \<Rightarrow> vmstate \<Rightarrow> vmstate option" where
  "free_leaf pte st =
     (if \<not> pteValid pte then Some st
      else let pa = pte2pa pte; (last, refs) = decRef pa (vs_refs st); st1 = st\<lparr>vs_refs := refs\<rparr> in
           if last then vs_give (p2v pa) st1 else Some st1)"

definition free_l0 :: "u64 \<Rightarrow> vmstate \<Rightarrow> vmstate option" where
  "free_l0 l1pte st =
     (if \<not> pteValid l1pte then Some st
      else let l0 = p2v (pte2pa l1pte) in
           Option.bind (for_each (\<lambda>k s. free_leaf (vs_pt s l0 k) s) [0 ..< PMT_SIZE] st) (vs_give l0))"

definition free_l1 :: "u64 \<Rightarrow> vmstate \<Rightarrow> vmstate option" where
  "free_l1 l1 st =
     Option.bind (for_each (\<lambda>j s. free_l0 (vs_pt s l1 j) s) [0 ..< PMT_SIZE] st) (vs_give l1)"

definition destroyPMT :: "u64 \<Rightarrow> vmstate \<Rightarrow> vmstate option" where
  "destroyPMT pmt st =
     (if pmt = 0 then Some st
      else Option.bind
        (for_each (\<lambda>i s. if \<not> pteValid (vs_pt s pmt i) then Some s
                         else free_l1 (p2v (pte2pa (vs_pt s pmt i))) s) [0 ..< USER_THRESHOLD] st)
        (vs_give pmt))"

definition clearUserPages :: "u64 \<Rightarrow> vmstate \<Rightarrow> vmstate option" where
  "clearUserPages pmt st =
     for_each (\<lambda>i s. if \<not> pteValid (vs_pt s pmt i) then Some s
                     else Option.bind (free_l1 (p2v (pte2pa (vs_pt s pmt i))) s)
                            (\<lambda>s1. Some (s1\<lparr>vs_pt := set_pte pmt i 0 (vs_pt s1)\<rparr>)))
       [0 ..< USER_THRESHOLD] st"

section \<open>Copying an address space\<close>

definition pte_va :: "nat \<Rightarrow> nat \<Rightarrow> nat \<Rightarrow> u64" where
  "pte_va i j k = push_bit 30 (of_nat i) OR push_bit 21 (of_nat j) OR push_bit 12 (of_nat k)"

text \<open>
  The innermost loop body. \<open>skip\<close> is \<^verbatim>\<open>skipMmap && skipMmap->find(va)\<close>; the flag tells
  whether an entry has been copied.
\<close>

definition cow_pte :: "u64 \<Rightarrow> u64" where
  "cow_pte pte = makePte (pte2pa pte) ((pte AND 0x3FF AND NOT PAGE_W) OR PAGE_COW)"

definition copy_leaf ::
  "(u64 \<Rightarrow> bool) \<Rightarrow> u64 \<Rightarrow> u64 \<Rightarrow> nat \<Rightarrow> nat \<Rightarrow> nat \<Rightarrow> bool \<times> vmstate \<Rightarrow> bool \<times> vmstate" where
  "copy_leaf skip l0src l0dst i j k bs =
     (let (has, st) = bs; srcPte = vs_pt st l0src k in
      if \<not> pteValid srcPte then (has, st)
      else if skip (pte_va i j k) then (has, st)
      else
        let st1 = (if srcPte AND 0x3FF AND PAGE_W \<noteq> 0
                   then st\<lparr>vs_pt := set_pte l0dst k (cow_pte srcPte) (set_pte l0src k (cow_pte srcPte) (vs_pt st))\<rparr>
                   else st\<lparr>vs_pt := set_pte l0dst k srcPte (vs_pt st)\<rparr>)
        in (True, st1\<lparr>vs_refs := incRef (pte2pa srcPte) (vs_refs st1)\<rparr>))"

datatype copy_result = CopyDone bool vmstate | CopyFailed vmstate

definition copy_l0 ::
  "(u64 \<Rightarrow> bool) \<Rightarrow> u64 \<Rightarrow> u64 \<Rightarrow> nat \<Rightarrow> nat \<Rightarrow> copy_result \<Rightarrow> copy_result option" where
  "copy_l0 skip l1src l1dst i j acc =
     (case acc of
        CopyFailed st \<Rightarrow> Some acc
      | CopyDone has st \<Rightarrow>
          if \<not> pteValid (vs_pt st l1src j) then Some acc
          else let l0src = pte2table (vs_pt st l1src j) in
            case vs_take st of
              (None, st1) \<Rightarrow> Option.bind (vs_give l1dst st1) (\<lambda>st2. Some (CopyFailed st2))
            | (Some l0dst, st1) \<Rightarrow>
                let (l0_has, st2) = fold (copy_leaf skip l0src l0dst i j) [0 ..< PMT_SIZE]
                                   (False, st1\<lparr>vs_pt := new_PMT l0dst (vs_pt st1)\<rparr>) in
                if \<not> l0_has then Option.bind (vs_give l0dst st2) (\<lambda>st3. Some (CopyDone has st3))
                else Some (CopyDone True
                  (st2\<lparr>vs_pt := set_pte l1dst j (makePte (v2p l0dst) PAGE_V) (vs_pt st2)\<rparr>)))"

definition copy_l1 ::
  "(u64 \<Rightarrow> bool) \<Rightarrow> u64 \<Rightarrow> u64 \<Rightarrow> nat \<Rightarrow> copy_result \<Rightarrow> copy_result option" where
  "copy_l1 skip src dst i acc =
     (case acc of
        CopyFailed st \<Rightarrow> Some acc
      | CopyDone ok st \<Rightarrow>
          if \<not> pteValid (vs_pt st src i) then Some acc
          else let l1src = pte2table (vs_pt st src i) in
            case vs_take st of
              (None, st1) \<Rightarrow> Some (CopyFailed st1)
            | (Some l1dst, st1) \<Rightarrow>
                Option.bind
                  (for_each (copy_l0 skip l1src l1dst i) [0 ..< PMT_SIZE]
                    (CopyDone False (st1\<lparr>vs_pt := new_PMT l1dst (vs_pt st1)\<rparr>)))
                  (\<lambda>r. case r of
                     CopyFailed st2 \<Rightarrow> Some (CopyFailed st2)
                   | CopyDone l1_has st2 \<Rightarrow>
                       if \<not> l1_has then Option.bind (vs_give l1dst st2) (\<lambda>st3. Some (CopyDone ok st3))
                       else Some (CopyDone ok
                         (st2\<lparr>vs_pt := set_pte dst i (makePte (v2p l1dst) PAGE_V) (vs_pt st2)\<rparr>))))"

definition copyPMT :: "(u64 \<Rightarrow> bool) \<Rightarrow> u64 \<Rightarrow> u64 \<Rightarrow> vmstate \<Rightarrow> (bool \<times> vmstate) option" where
  "copyPMT skip dst src st =
     Option.bind
       (for_each (copy_l1 skip src dst) [0 ..< USER_THRESHOLD]
         (CopyDone True (st\<lparr>vs_refs := ref_init (vs_refs st)\<rparr>)))
       (\<lambda>r. case r of CopyFailed st1 \<Rightarrow> Some (False, st1) | CopyDone _ st1 \<Rightarrow> Some (True, st1))"

section \<open>Copy-on-write faults\<close>

definition vs_unmap :: "u64 \<Rightarrow> u64 \<Rightarrow> vmstate \<Rightarrow> vmstate" where
  "vs_unmap pmt va st = st\<lparr>vs_pt := snd (unmapPage pmt va (vs_pt st))\<rparr>"

definition vs_map :: "u64 \<Rightarrow> u64 \<Rightarrow> u64 \<Rightarrow> u64 \<Rightarrow> vmstate \<Rightarrow> (bool \<times> vmstate) res" where
  "vs_map pmt va pa flags st =
     bindE (mapPage kallocPage pmt va pa flags (vs_pt st) (vs_heap st))
       (\<lambda>(b, m, h). Inr (b, st\<lparr>vs_pt := m, vs_heap := h\<rparr>))"

text \<open>\<open>None\<close> stands for a \<^verbatim>\<open>kfreePage\<close> that does not return.\<close>

definition handleCowFault :: "u64 option \<Rightarrow> u64 \<Rightarrow> vmstate \<Rightarrow> (bool \<times> vmstate) res option" where
  "handleCowFault proc_pmt faultVa st =
     (case proc_pmt of
        None \<Rightarrow> Some (Inr (False, st))
      | Some pmt \<Rightarrow>
          let flags = getFlags pmt faultVa (vs_pt st) in
          if flags AND PAGE_COW = 0 then Some (Inr (False, st))
          else
            let va = pageRoundDown faultVa; pa = translate pmt va (vs_pt st) in
            if pa = 0 then Some (Inr (False, st))
            else
              let newFlags = (flags AND NOT PAGE_COW) OR PAGE_W in
              if getRef pa (vs_refs st) \<le> 1 then
                Some (bindE (vs_map pmt va pa newFlags (vs_unmap pmt va st))
                  (\<lambda>(_, st1). Inr (True, st1\<lparr>vs_refs := snd (decRef pa (vs_refs st1))\<rparr>)))
              else case vs_take st of
                (None, st1) \<Rightarrow> Some (Inr (False, st1))
              | (Some newPage, st1) \<Rightarrow>
                  let st2 = st1\<lparr>vs_data := memcpy (vs_data st1) newPage (p2v pa) (unat PAGE_SIZE)\<rparr>;
                      newPa = v2p newPage
                  in case vs_map pmt va newPa newFlags (vs_unmap pmt va st2) of
                       Inl f \<Rightarrow> Some (Inl f)
                     | Inr (_, st3) \<Rightarrow>
                         let (last, refs) = decRef pa (vs_refs st3); st4 = st3\<lparr>vs_refs := refs\<rparr> in
                         if last then Option.bind (vs_give (p2v pa) st4) (\<lambda>st5. Some (Inr (True, st5)))
                         else Some (Inr (True, st4)))"

section \<open>Replacing the entry of a mapped page\<close>

lemma walk_present:
  assumes "has0 m root (vpn va 2) (vpn va 1)"
  shows "walk take_page root va True m s = (Some (l0_table m root (vpn va 2) (vpn va 1), vpn va 0), m, s)"
  using assms by (simp add: walk_def numeral_2_eq_2 has0_def has1_def Let_def)

lemma remap:
  assumes t: "tree m root" and v: "pteValid (pte_of m root va)"
  obtains m' where "mapPage take_page root va pa fl (snd (unmapPage root va m)) s = Inr (True, m', s)"
    and "tree m' root" and "tables m' root = tables m root"
    and "\<And>va'. pte_of m' root va' = (if same_page va va' then makePte pa fl else pte_of m root va')"
proof -
  obtain r m1 where u: "unmapPage root va m = (r, m1)" by (cases "unmapPage root va m")
  note c = unmapPage_cases [OF t u]
  let ?t = "l0_table m root (vpn va 2) (vpn va 1)"
  have h: "has0 m root (vpn va 2) (vpn va 1)" using v by (auto simp: pte_of_def split: if_splits)
  have m1: "m1 = set_pte ?t (vpn va 0) 0 m"
    using u h v by (auto simp: unmapPage_def find_pte_eq pte_of_def split: if_splits)
  have h1: "has0 m1 root (vpn va 2) (vpn va 1)" using leaf_write(4) [OF t h m1] h by simp
  define m2 where "m2 = set_pte (l0_table m1 root (vpn va 2) (vpn va 1)) (vpn va 0) (makePte pa fl) m1"
  have e: "m1 (l0_table m1 root (vpn va 2) (vpn va 1)) (vpn va 0) = 0"
    using c(4) [of va] v h1 by (simp add: pte_of_def)
  have "mapPage take_page root va pa fl m1 s = Inr (True, m2, s)"
    unfolding mapPage_def walk_present [OF h1] prod.case option.case e m2_def by simp
  moreover have "pte_of m2 root va' = (if same_page va va' then makePte pa fl else pte_of m root va')" for va'
    using leaf_write_pte [OF c(2) h1 m2_def] c(4) [of va'] v by simp
  moreover have "tree m2 root" "tables m2 root = tables m root"
    using leaf_write(6,7) [OF c(2) h1 m2_def] c(3) by simp_all
  ultimately show thesis using that u by simp
qed

section \<open>Sharing a table copy-on-write\<close>

abbreviation copied :: "(u64 \<Rightarrow> bool) \<Rightarrow> nat \<Rightarrow> nat \<Rightarrow> (nat \<Rightarrow> u64) \<Rightarrow> nat \<Rightarrow> bool" where
  "copied skip i j ps k \<equiv> pteValid (ps k) \<and> \<not> skip (pte_va i j k)"

definition shared_pte :: "u64 \<Rightarrow> u64" where
  "shared_pte p = (if p AND 0x3FF AND PAGE_W \<noteq> 0 then cow_pte p else p)"

lemma flag_and: "flag_bits g \<Longrightarrow> p AND 0x3FF AND g = p AND g" for p g :: u64
proof -
  assume "flag_bits g"
  then have "p AND g = p AND (0x3FF AND g)" by (simp add: and.commute)
  then show "p AND 0x3FF AND g = p AND g" by (simp add: and.assoc)
qed

lemma cow_flags: "flag_bits ((p AND 0x3FF AND NOT PAGE_W) OR PAGE_COW)" for p :: u64
proof -
  have "(p AND 0x3FF AND NOT PAGE_W) AND 0x3FF = p AND 0x3FF AND NOT PAGE_W" for p :: u64
    by (rule bit_eqI) (auto simp: bit_simps)
  moreover have "PAGE_COW AND 0x3FF = PAGE_COW" by (simp add: PAGE_COW_def)
  ultimately show ?thesis by (simp add: bit.conj_disj_distrib2)
qed

lemma cow_pte_facts:
  "pte2pa (cow_pte p) = pte2pa p" "cow_pte p AND PAGE_W = 0" "cow_pte p AND PAGE_COW \<noteq> 0"
  "pteValid (cow_pte p) = pteValid p"
proof -
  have b: "flag_bits PAGE_W" "flag_bits PAGE_COW" "flag_bits PAGE_V" by (simp_all add: page_flag_defs)
  have al: "pageRoundDown (pte2pa p) = pte2pa p"
    unfolding pte2pa_def pageRoundDown_bits by (rule bit_eqI) (auto simp: bit_simps)
  show "pte2pa (cow_pte p) = pte2pa p" unfolding cow_pte_def using cow_flags al by simp
  show "cow_pte p AND PAGE_W = 0"
    unfolding cow_pte_def makePte_and [OF b(1)]
    by (simp add: bit.conj_disj_distrib2 page_flag_defs and.assoc)
  show "cow_pte p AND PAGE_COW \<noteq> 0"
    unfolding cow_pte_def makePte_and [OF b(2)]
    by (simp add: bit.conj_disj_distrib2 page_flag_defs and.assoc)
  show "pteValid (cow_pte p) = pteValid p"
    unfolding pteValid_def cow_pte_def makePte_and [OF b(3)]
    by (simp add: bit.conj_disj_distrib2 page_flag_defs and.assoc)
qed

lemma shared_pte_facts:
  "pte2pa (shared_pte p) = pte2pa p" "shared_pte p AND PAGE_W = 0"
  "p AND PAGE_W \<noteq> 0 \<Longrightarrow> shared_pte p AND PAGE_COW \<noteq> 0" "pteValid (shared_pte p) = pteValid p"
  using cow_pte_facts [of p] flag_and [of PAGE_W p]
  by (auto simp: shared_pte_def PAGE_W_def)

lemma copy_leaf_step:
  assumes "l0src \<noteq> l0dst"
  shows "copy_leaf skip l0src l0dst i j k (b, st) =
     (if copied skip i j (vs_pt st l0src) k
      then (True, st\<lparr>vs_pt := (vs_pt st)(l0src := (vs_pt st l0src)(k := shared_pte (vs_pt st l0src k)),
                                       l0dst := (vs_pt st l0dst)(k := shared_pte (vs_pt st l0src k))),
                      vs_refs := incRef (pte2pa (vs_pt st l0src k)) (vs_refs st)\<rparr>)
      else (b, st))"
  using assms by (auto simp: copy_leaf_def shared_pte_def set_pte_def Let_def)

lemma copy_leaves:
  assumes ne: "l0src \<noteq> l0dst" and zero: "vs_pt st l0dst = (\<lambda>_. 0)" and ps: "ps = vs_pt st l0src"
    and run: "fold (copy_leaf skip l0src l0dst i j) [0 ..< n] (False, st) = (b, st')"
  shows "vs_pt st' = (vs_pt st)
       (l0src := (\<lambda>k. if k < n \<and> copied skip i j ps k then shared_pte (ps k) else ps k),
        l0dst := (\<lambda>k. if k < n \<and> copied skip i j ps k then shared_pte (ps k) else 0))
     \<and> (b \<longleftrightarrow> (\<exists>k < n. copied skip i j ps k)) \<and> vs_heap st' = vs_heap st \<and> vs_data st' = vs_data st
     \<and> vs_refs st' = fold incRef (map (\<lambda>k. pte2pa (ps k)) (filter (copied skip i j ps) [0 ..< n])) (vs_refs st)"
  using run
proof (induction n arbitrary: b st')
  case 0
  then show ?case using zero ps by (auto simp: fun_eq_iff)
next
  case (Suc n)
  obtain b1 st1 where r1: "fold (copy_leaf skip l0src l0dst i j) [0 ..< n] (False, st) = (b1, st1)" by fastforce
  note IH = Suc.IH [OF r1]
  have src: "vs_pt st1 l0src = (\<lambda>k. if k < n \<and> copied skip i j ps k then shared_pte (ps k) else ps k)"
    and dst: "vs_pt st1 l0dst = (\<lambda>k. if k < n \<and> copied skip i j ps k then shared_pte (ps k) else 0)"
    using IH ne by auto
  have at: "vs_pt st1 l0src n = ps n" by (simp add: src)
  have run: "copy_leaf skip l0src l0dst i j n (b1, st1) = (b, st')" using Suc.prems r1 by simp
  show ?case
  proof (cases "copied skip i j ps n")
    case True
    with run have b: b and st': "st' = st1\<lparr>vs_pt := (vs_pt st1)(l0src := (vs_pt st1 l0src)(n := shared_pte (ps n)),
             l0dst := (vs_pt st1 l0dst)(n := shared_pte (ps n))),
           vs_refs := incRef (pte2pa (ps n)) (vs_refs st1)\<rparr>"
      by (simp_all add: copy_leaf_step [OF ne] at)
    have "(vs_pt st1 l0src)(n := shared_pte (ps n)) =
        (\<lambda>k. if k < Suc n \<and> copied skip i j ps k then shared_pte (ps k) else ps k)"
      "(vs_pt st1 l0dst)(n := shared_pte (ps n)) =
        (\<lambda>k. if k < Suc n \<and> copied skip i j ps k then shared_pte (ps k) else 0)"
      using True by (auto simp: src dst fun_eq_iff less_Suc_eq)
    then show ?thesis using IH b True unfolding st' by (auto simp: fun_eq_iff less_Suc_eq)
  next
    case False
    with run have "b = b1" "st' = st1" by (auto simp: copy_leaf_step [OF ne] at)
    moreover have "k < Suc n \<and> copied skip i j ps k \<longleftrightarrow> k < n \<and> copied skip i j ps k" for k
      using False by (auto simp: less_Suc_eq)
    ultimately show ?thesis using IH False by auto
  qed
qed

section \<open>Pages\<close>

lemma pageRoundDown_offset:
  assumes "page_aligned x" and "a < 4096"
  shows "pageRoundDown (x + of_nat a) = x"
proof -
  obtain q where q: "unat x = 4096 * q" using assms(1) page_aligned_iff [of x] unfolding dvd_def by blast
  have "unat x < 2 ^ 64" using unsigned_less [of x] by simp
  then have "4096 * q + a < 2 ^ 64" using assms(2) q by simp
  then have "unat (x + of_nat a) = 4096 * q + a"
    using q assms(2) by (simp add: unat_word_ariths unat_of_nat)
  then have "unat (pageRoundDown (x + of_nat a)) = unat x"
    using q assms(2) by (simp add: unat_pageRoundDown)
  then show ?thesis by (rule unsigned_word_eqI)
qed

lemma pages_apart:
  assumes "page_aligned x" "page_aligned y" "x \<noteq> y" "a < 4096" "b < 4096"
  shows "x + of_nat a \<noteq> y + of_nat b"
  using pageRoundDown_offset [OF assms(1,4)] pageRoundDown_offset [OF assms(2,5)] assms(3) by metis

lemma pte2pa_aligned: "page_aligned (pte2pa p)"
  unfolding pte2pa_def pageRoundDown_bits by (rule bit_eqI) (auto simp: bit_simps)

lemma p2v_aligned: "page_aligned x \<Longrightarrow> page_aligned (p2v x)"
proof -
  assume "page_aligned x"
  then have "4096 dvd unat x" by (simp only: page_aligned_iff)
  moreover have "4096 dvd unat KERNEL_OFFSET" by (simp add: KERNEL_OFFSET_def KERNEL_BASE_def PHYS_BASE_def)
  moreover have "(4096 :: nat) dvd 2 ^ 64" by simp
  ultimately have "4096 dvd unat (p2v x)"
    unfolding p2v_def unat_word_ariths by (intro dvd_mod) (auto intro: dvd_add)
  then show "page_aligned (p2v x)" by (simp only: page_aligned_iff)
qed

lemma same_page_roundDown: "same_page va (pageRoundDown va)"
proof -
  have "drop_bit 12 (pageRoundDown va) = drop_bit 12 va"
    unfolding pageRoundDown_bits by (rule bit_eqI) (auto simp: bit_simps dest: bit_imp_le_length)
  then have "drop_bit (n + 12) (pageRoundDown va) = drop_bit (n + 12) va" for n
    by (metis drop_bit_drop_bit)
  from this [of 0] this [of 9] this [of 18] show ?thesis by (simp add: same_page_def vpn_def)
qed

lemma roundDown_offset: "pageRoundDown va AND (PAGE_SIZE - 1) = 0"
  unfolding pageRoundDown_def by (simp add: and.assoc)

lemma same_page_sym: "same_page va va' \<Longrightarrow> same_page va' va"
  by (simp add: same_page_def)

lemma same_page_trans: "same_page va va' \<Longrightarrow> same_page va' va'' \<Longrightarrow> same_page va va''"
  by (simp add: same_page_def)

lemma translate_roundDown:
  "pteValid (pte_of m root va) \<Longrightarrow> translate root (pageRoundDown va) m = pte2pa (pte_of m root va)"
  using same_page_pte [OF same_page_roundDown, of m root va] by (simp add: translate_pte roundDown_offset)

lemma cow_new_flags:
  fixes p :: u64
  assumes "fl = ((p AND 0x3FF) AND NOT PAGE_COW) OR PAGE_W" and "pteValid p"
  shows "flag_bits fl" "fl AND PAGE_V \<noteq> 0" "fl AND PAGE_W \<noteq> 0" "fl AND PAGE_COW = 0"
proof -
  have "((p AND 0x3FF) AND NOT PAGE_COW) AND 0x3FF = (p AND 0x3FF) AND NOT PAGE_COW"
    by (rule bit_eqI) (auto simp: bit_simps)
  moreover have "PAGE_W AND 0x3FF = PAGE_W" by (simp add: PAGE_W_def)
  ultimately show "flag_bits fl" by (simp add: assms(1) bit.conj_disj_distrib2)
  have "fl AND PAGE_V = p AND PAGE_V"
    by (simp add: assms(1) bit.conj_disj_distrib2 page_flag_defs and.assoc)
  then show "fl AND PAGE_V \<noteq> 0" using assms(2) by (simp add: pteValid_def)
  show "fl AND PAGE_W \<noteq> 0" "fl AND PAGE_COW = 0"
    by (simp_all add: assms(1) bit.conj_disj_distrib2 page_flag_defs and.assoc)
qed

section \<open>Properties\<close>



lemma cow_fault_unfold:
  assumes t: "tree (vs_pt st) pmt" and v: "pteValid (pte_of (vs_pt st) pmt va)"
    and cow: "getFlags pmt va (vs_pt st) AND PAGE_COW \<noteq> 0"
    and pa: "pa = pte2pa (pte_of (vs_pt st) pmt va)" "pa \<noteq> 0"
    and shared: "1 < getRef pa (vs_refs st)" and ri: "ref_inv (vs_refs st)"
    and take: "kallocPage (vs_heap st) = (Some new, h)"
    and fl: "fl = (getFlags pmt va (vs_pt st) AND NOT PAGE_COW) OR PAGE_W"
  obtains m' where "handleCowFault (Some pmt) va st = Some (Inr (True,
      st\<lparr>vs_pt := m', vs_data := memcpy (vs_data st) new (p2v pa) 4096, vs_heap := h,
         vs_refs := snd (decRef pa (vs_refs st))\<rparr>))"
    and "tree m' pmt" and "tables m' pmt = tables (vs_pt st) pmt"
    and "\<And>va'. pte_of m' pmt va' = (if same_page va va' then makePte (v2p new) fl else pte_of (vs_pt st) pmt va')"
proof -
  let ?va = "pageRoundDown va"
  have same: "pte_of (vs_pt st) pmt ?va = pte_of (vs_pt st) pmt va"
    by (rule same_page_pte [OF same_page_roundDown])
  have tr: "translate pmt ?va (vs_pt st) = pa" using translate_roundDown [OF v] pa(1) by simp
  obtain m' where m': "mapPage kallocPage pmt ?va (v2p new) fl (snd (unmapPage pmt ?va (vs_pt st))) h = Inr (True, m', h)"
    "tree m' pmt" "tables m' pmt = tables (vs_pt st) pmt"
    "\<And>va'. pte_of m' pmt va' = (if same_page ?va va' then makePte (v2p new) fl else pte_of (vs_pt st) pmt va')"
    using remap [OF t, of ?va kallocPage "v2p new" fl h] v same by metis
  have sp: "same_page ?va va' \<longleftrightarrow> same_page va va'" for va'
    using same_page_roundDown same_page_sym same_page_trans by blast
  obtain b refs where d: "decRef pa (vs_refs st) = (b, refs)" by (cases "decRef pa (vs_refs st)")
  have "unat (getRef pa (vs_refs st)) \<noteq> 1" using shared by (simp add: word_less_nat_alt)
  then have nb: "\<not> b" using decRef_cases(2) [OF ri d] by simp
  have nle: "\<not> getRef pa (vs_refs st) \<le> 1" using shared by simp
  have "handleCowFault (Some pmt) va st = Some (Inr (True,
      st\<lparr>vs_pt := m', vs_data := memcpy (vs_data st) new (p2v pa) 4096, vs_heap := h, vs_refs := refs\<rparr>))"
    using cow pa(2) nle take m'(1) d nb
    by (simp add: handleCowFault_def Let_def tr vs_take_def vs_map_def vs_unmap_def fl [symmetric] unat_PAGE_SIZE)
  with m' sp d show thesis using that by simp
qed

text \<open>
  C35: A write to a copy-on-write page that other address spaces share (\<^verbatim>\<open>VM::handleCowFault\<close>) gives
  the faulting process a page of its own: a page that was free, with the same bytes, mapped
  writable and no longer copy-on-write for every address of the page. The shared page keeps its
  bytes and loses one reference, and no other address of the process translates differently. It
  fails only when there is no free page.
\<close>
theorem cow_fault_gives_private_copy:
  assumes wf: "pt_wf (vs_pt st) pmt (vs_heap st)" and ri: "ref_inv (vs_refs st)"
    and cow: "getFlags pmt va (vs_pt st) AND PAGE_COW \<noteq> 0"
    and pa: "pa = translate pmt (pageRoundDown va) (vs_pt st)" "pa \<noteq> 0"
    and shared: "1 < getRef pa (vs_refs st)" and out: "p2v pa \<notin> buddy_pool (vs_heap st)"
    and room: "buddy_pool (vs_heap st) \<noteq> {}"
  shows "\<exists>st' new. handleCowFault (Some pmt) va st = Some (Inr (True, st'))
     \<and> new \<in> buddy_pool (vs_heap st) \<and> new \<notin> buddy_pool (vs_heap st')
     \<and> (\<forall>va'. same_page va va' \<longrightarrow> translate pmt va' (vs_pt st') = v2p new + (va' AND (PAGE_SIZE - 1)))
     \<and> getFlags pmt va (vs_pt st') AND PAGE_W \<noteq> 0 \<and> getFlags pmt va (vs_pt st') AND PAGE_COW = 0
     \<and> (\<forall>va'. \<not> same_page va va' \<longrightarrow> translate pmt va' (vs_pt st') = translate pmt va' (vs_pt st))
     \<and> (\<forall>k < 4096. vs_data st' (new + of_nat k) = vs_data st (p2v pa + of_nat k)
          \<and> vs_data st' (p2v pa + of_nat k) = vs_data st (p2v pa + of_nat k))
     \<and> unat (getRef pa (vs_refs st')) = unat (getRef pa (vs_refs st)) - 1"
proof -
  let ?p = "pte_of (vs_pt st) pmt va"
  have t: "tree (vs_pt st) pmt" and good: "buddy_good (vs_heap st)" using wf by (simp_all add: pt_wf_def)
  have v: "pteValid ?p" using cow by (auto simp: getFlags_pte split: if_splits)
  have pa': "pa = pte2pa ?p" using pa(1) translate_roundDown [OF v] by simp
  have fl0: "getFlags pmt va (vs_pt st) = ?p AND 0x3FF" using v by (simp add: getFlags_pte)
  define fl where "fl = (getFlags pmt va (vs_pt st) AND NOT PAGE_COW) OR PAGE_W"
  note nf = cow_new_flags [OF fl_def [unfolded fl0] v]
  obtain new h where take: "kallocPage (vs_heap st) = (Some new, h)"
    using buddy_pages.take_total [OF good room] by blast
  have tk: "new \<in> buddy_pool (vs_heap st)" "buddy_pool h = buddy_pool (vs_heap st) - {new}" "page_aligned new"
    using buddy_pages.take_some [OF good take] buddy_pages.page_aligned_of [OF good] by auto
  have apart: "new + of_nat a \<noteq> p2v pa + of_nat b" if "a < 4096" "b < 4096" for a b
    using pages_apart [OF tk(3) p2v_aligned [OF pte2pa_aligned, of ?p] _ that] tk(1) out pa' by metis
  obtain m' where m': "handleCowFault (Some pmt) va st = Some (Inr (True,
      st\<lparr>vs_pt := m', vs_data := memcpy (vs_data st) new (p2v pa) 4096, vs_heap := h,
         vs_refs := snd (decRef pa (vs_refs st))\<rparr>))" (is "_ = Some (Inr (True, ?st'))")
    "\<And>va'. pte_of m' pmt va' = (if same_page va va' then makePte (v2p new) fl else pte_of (vs_pt st) pmt va')"
    using cow_fault_unfold [OF t v cow pa' pa(2) shared ri take fl_def] by metis
  obtain b refs where d: "decRef pa (vs_refs st) = (b, refs)" by (cases "decRef pa (vs_refs st)")
  have "unat (getRef pa (vs_refs st)) \<noteq> 1" using shared by (simp add: word_less_nat_alt)
  then have cnt: "unat (getRef pa refs) = unat (getRef pa (vs_refs st)) - 1"
    using decRef_cases(2,3) [OF ri d] by simp
  have "translate pmt va' m' = v2p new + (va' AND (PAGE_SIZE - 1))" if "same_page va va'" for va'
    using that nf(1,2) v2p_aligned [OF tk(3)] by (simp add: translate_pte m'(2))
  moreover have "getFlags pmt va m' = fl" using nf(1,2) by (simp add: getFlags_pte m'(2))
  moreover have "translate pmt va' m' = translate pmt va' (vs_pt st)" if "\<not> same_page va va'" for va'
    using that by (simp add: translate_pte m'(2))
  moreover have "memcpy (vs_data st) new (p2v pa) 4096 (new + of_nat k) = vs_data st (p2v pa + of_nat k)"
    "memcpy (vs_data st) new (p2v pa) 4096 (p2v pa + of_nat k) = vs_data st (p2v pa + of_nat k)"
    if "k < 4096" for k
    using memcpy_loop_copies [of 0 k 4096 new "p2v pa" "vs_data st"] memcpy_loop_frame [of 0 4096 new "p2v pa + of_nat k"]
      apart that by (simp_all add: memcpy_def)
  ultimately show ?thesis
    using m'(1) tk(1,2) nf(3,4) cnt d by (intro exI [of _ ?st'] exI [of _ new]) simp
qed

text \<open>A process with one shared page: a root, one table on each level below it, one entry.\<close>

definition demo_cow_pt :: ptmem where
  "demo_cow_pt = (\<lambda>t i.
     if t = 0x1000 \<and> i = 0 then makePte 0x80001000 PAGE_V
     else if t = 0xFFFFFFC080001000 \<and> i = 0 then makePte 0x80002000 PAGE_V
     else if t = 0xFFFFFFC080002000 \<and> i = 1 then makePte 0x80300000 0x113 else 0)"

definition demo_cow :: vmstate where
  "demo_cow = \<lparr>vs_pt = demo_cow_pt, vs_data = (\<lambda>_. 0), vs_heap = demo_heap,
     vs_refs = incRef 0x80300000 \<lparr>s_buckets = (\<lambda>_. []), s_initialized = True\<rparr>\<rparr>"

lemma demo_cow_tables:
  "has1 demo_cow_pt 0x1000 i \<longleftrightarrow> i = 0" "has0 demo_cow_pt 0x1000 i j \<longleftrightarrow> i = 0 \<and> j = 0"
  "pte2table (demo_cow_pt 0x1000 0) = 0xFFFFFFC080001000"
  "pte2table (demo_cow_pt 0xFFFFFFC080001000 0) = 0xFFFFFFC080002000"
proof -
  have al: "pageRoundDown 0x80001000 = 0x80001000" "pageRoundDown 0x80002000 = 0x80002000"
    by (simp_all add: pageRoundDown_def PAGE_SIZE_def)
  have f: "flag_bits PAGE_V" by (simp add: PAGE_V_def)
  show h1: "has1 demo_cow_pt 0x1000 i \<longleftrightarrow> i = 0" for i
    by (auto simp: has1_def demo_cow_pt_def)
  show l1: "pte2table (demo_cow_pt 0x1000 0) = 0xFFFFFFC080001000"
    using f al by (simp add: demo_cow_pt_def pte2table_def p2v_def KERNEL_OFFSET_def KERNEL_BASE_def PHYS_BASE_def)
  show "pte2table (demo_cow_pt 0xFFFFFFC080001000 0) = 0xFFFFFFC080002000"
    using f al by (simp add: demo_cow_pt_def pte2table_def p2v_def KERNEL_OFFSET_def KERNEL_BASE_def PHYS_BASE_def)
  have e: "pteValid (demo_cow_pt 0xFFFFFFC080001000 j) \<longleftrightarrow> j = 0" for j
    by (auto simp: demo_cow_pt_def)
  show "has0 demo_cow_pt 0x1000 i j \<longleftrightarrow> i = 0 \<and> j = 0"
  proof (cases "i = 0")
    case True
    show ?thesis unfolding has0_def True l1 using h1 [of 0] e [of j] by auto
  next
    case False
    then show ?thesis using h1 [of i] by (simp add: has0_def)
  qed
qed

lemma demo_cow_wf: "pt_wf demo_cow_pt 0x1000 demo_heap"
proof -
  have tb: "tables demo_cow_pt 0x1000 = {0x1000, 0xFFFFFFC080001000, 0xFFFFFFC080002000}"
    by (auto simp: tables_def demo_cow_tables)
  have "p \<notin> buddy_pool demo_heap" if "unat p < 0x100000 \<or> 0x100000 + 2 ^ 28 \<le> unat p" for p
    using buddy_pool_above [OF demo_heap_good, of p] buddy_pool_below [OF demo_heap_good, of p] that
    by (auto simp: demo_heap_start)
  then have "tables demo_cow_pt 0x1000 \<inter> buddy_pool demo_heap = {}" by (simp add: tb)
  moreover have "tree demo_cow_pt 0x1000"
    unfolding tree_def by (auto simp: demo_cow_tables)
  ultimately show ?thesis by (simp add: pt_wf_def demo_heap_good)
qed

lemma demo_cow_pte: "pte_of demo_cow_pt 0x1000 0x1234 = makePte 0x80300000 0x113"
  by (simp add: pte_of_def vpn_def demo_cow_tables) (simp add: demo_cow_pt_def)

theorem cow_fault_gives_private_copy_witness:
  "\<exists>st' new. handleCowFault (Some 0x1000) 0x1234 demo_cow = Some (Inr (True, st'))
     \<and> translate 0x1000 0x1FFF (vs_pt st') = v2p new + 0xFFF \<and> new \<in> buddy_pool demo_heap
     \<and> vs_data st' (new + 5) = 0"
proof -
  have fl: "getFlags 0x1000 0x1234 demo_cow_pt = 0x113"
    by (simp add: getFlags_pte demo_cow_pte page_flag_defs)
  have tr: "translate 0x1000 (pageRoundDown 0x1234) demo_cow_pt = 0x80300000"
    using translate_roundDown [of demo_cow_pt "0x1000" "0x1234"]
    by (simp add: demo_cow_pte page_flag_defs) (simp add: pageRoundDown_def PAGE_SIZE_def)
  let ?r = "\<lparr>s_buckets = (\<lambda>_. []), s_initialized = True\<rparr>"
  have r0: "ref_inv ?r" "getRef 0x80300000 ?r = 1" by (simp_all add: ref_inv_def getRef_def ref_find_def)
  have r1: "ref_inv (incRef 0x80300000 ?r)" "unat (getRef 0x80300000 (incRef 0x80300000 ?r)) = 2"
    using incRef_inv [OF r0(1), of "0x80300000"] r0(2) by simp_all
  have "unat (p2v 0x80300000) \<ge> 0x100000 + 2 ^ 28"
    by (simp add: p2v_def KERNEL_OFFSET_def KERNEL_BASE_def PHYS_BASE_def)
  then have out: "p2v 0x80300000 \<notin> buddy_pool demo_heap"
    using buddy_pool_below [OF demo_heap_good, of "p2v 0x80300000"] by (auto simp: demo_heap_start)
  have sh: "1 < getRef 0x80300000 (incRef 0x80300000 ?r)" using r1(2) by (simp add: word_less_nat_alt)
  have sp: "same_page 0x1234 0x1FFF" by (simp add: same_page_def vpn_def)
  have ne: "buddy_pool demo_heap \<noteq> {}" using demo_pool by blast
  have pc: "vs_pt demo_cow = demo_cow_pt" "vs_heap demo_cow = demo_heap" "vs_refs demo_cow = incRef 0x80300000 ?r"
    "vs_data demo_cow = (\<lambda>_. 0)" by (simp_all add: demo_cow_def)
  have cw: "getFlags 0x1000 0x1234 demo_cow_pt AND PAGE_COW \<noteq> 0" unfolding fl by (simp add: PAGE_COW_def)
  have nz: "(0x80300000 :: u64) \<noteq> 0" by simp
  note c = cow_fault_gives_private_copy [of demo_cow "0x1000" "0x1234" "0x80300000", unfolded pc,
      OF demo_cow_wf r1(1) cw tr [symmetric] nz sh out ne]
  obtain st' new where res: "handleCowFault (Some 0x1000) 0x1234 demo_cow = Some (Inr (True, st'))"
    "new \<in> buddy_pool demo_heap"
    "\<forall>va'. same_page 0x1234 va' \<longrightarrow> translate 0x1000 va' (vs_pt st') = v2p new + (va' AND (PAGE_SIZE - 1))"
    "\<forall>k < 4096. vs_data st' (new + of_nat k) = 0"
    using c by (elim exE conjE) (rule that, assumption+, blast)
  moreover have "translate 0x1000 0x1FFF (vs_pt st') = v2p new + 0xFFF"
    using res(3) sp by (simp add: PAGE_SIZE_def)
  moreover have "vs_data st' (new + 5) = 0" using res(4) [rule_format, of 5] by simp
  ultimately show ?thesis by blast
qed

end
