(* ===== verification/Mmap.thy ===== *)
theory Mmap
  imports VM
begin

text \<open>
  Memory mappings of a process, \<^verbatim>\<open>kernel/mm/vm/mmap.cpp\<close>: a singly linked list of
  regions ordered by address, the search for free virtual ranges, and mapping,
  unmapping, protecting and cloning regions on the page tables. The linked list of
  regions is the list of their records. The counters behind \<^verbatim>\<open>sharedRef\<close> live in a
  memory of their own, in which a deleted counter is \<open>None\<close>; touching it afterwards is
  a fault.
\<close>

unbundle bit_operations_syntax

section \<open>Constants and state\<close>

definition MMAP_PROT_READ :: u32 where "MMAP_PROT_READ = 0x1"
definition MMAP_PROT_WRITE :: u32 where "MMAP_PROT_WRITE = 0x2"
definition MMAP_PROT_EXEC :: u32 where "MMAP_PROT_EXEC = 0x4"
definition MMAP_MAP_SHARED :: u32 where "MMAP_MAP_SHARED = 0x01"
definition MMAP_MAP_PRIVATE :: u32 where "MMAP_MAP_PRIVATE = 0x02"
definition MMAP_MAP_FIXED :: u32 where "MMAP_MAP_FIXED = 0x10"
definition MMAP_MAP_ANONYMOUS :: u32 where "MMAP_MAP_ANONYMOUS = 0x20"
definition MMAP_FAILED :: u64 where "MMAP_FAILED = NOT 0"
definition MMAP_TOP :: u64 where "MMAP_TOP = 0x0000003F00000000"
definition MMAP_BASE :: u64 where "MMAP_BASE = 0x0000002000000000"

lemmas mmap_consts = MMAP_PROT_READ_def MMAP_PROT_WRITE_def MMAP_PROT_EXEC_def MMAP_MAP_SHARED_def
  MMAP_MAP_PRIVATE_def MMAP_MAP_FIXED_def MMAP_MAP_ANONYMOUS_def

record region =
  vaStart :: u64
  vaEnd :: u64
  r_prot :: u32
  r_flags :: u32
  r_fd :: int
  fileOffset :: u64
  r_shared :: bool
  sharedRef :: "nat option"

record mmap =
  mm_pmt :: u64
  mm_head :: "region list"
  mm_nextHint :: u64

text \<open>What a mapping operation works on besides its own record.\<close>

record mworld =
  mw_vm :: vmstate
  mw_refs :: "nat \<Rightarrow> u32 option"

definition Mmap_ctor :: "u64 \<Rightarrow> mmap" where
  "Mmap_ctor pmt = \<lparr>mm_pmt = pmt, mm_head = [], mm_nextHint = MMAP_TOP\<rparr>"

section \<open>Looking up and choosing ranges\<close>

primrec mm_find :: "region list \<Rightarrow> u64 \<Rightarrow> region option" where
  "mm_find [] va = None"
| "mm_find (r # rs) va = (if va \<ge> vaStart r \<and> va < vaEnd r then Some r else mm_find rs va)"

primrec isFree_loop :: "region list \<Rightarrow> u64 \<Rightarrow> u64 \<Rightarrow> bool" where
  "isFree_loop [] addr end = True"
| "isFree_loop (r # rs) addr end =
     (if vaStart r \<ge> end then True
      else if vaEnd r > addr then False
      else isFree_loop rs addr end)"

definition isFree :: "region list \<Rightarrow> u64 \<Rightarrow> u64 \<Rightarrow> bool" where
  "isFree rs addr len = isFree_loop rs addr (addr + len)"

function allocVA_loop :: "region list \<Rightarrow> u64 \<Rightarrow> u64 \<Rightarrow> u64 option" where
  "allocVA_loop rs len candidate =
     (if candidate < MMAP_BASE then None
      else if isFree rs candidate len then Some candidate
      else if candidate < PAGE_SIZE then None
      else allocVA_loop rs len (candidate - PAGE_SIZE))"
  by auto
termination
  by (relation "measure (\<lambda>(_, _, c). unat c)") (auto simp: PAGE_SIZE_def word_less_nat_alt not_less unat_sub word_le_nat_alt)

declare allocVA_loop.simps [simp del]

definition allocVA :: "u64 \<Rightarrow> u64 \<Rightarrow> bool \<Rightarrow> mmap \<Rightarrow> u64 \<times> mmap" where
  "allocVA hint pages fixed mm =
     (let len = pages * PAGE_SIZE in
      if fixed then
        (if hint = 0 then (MMAP_FAILED, mm)
         else if hint mod PAGE_SIZE \<noteq> 0 then (MMAP_FAILED, mm)
         else if hint < MMAP_BASE \<or> hint + len > MMAP_TOP then (MMAP_FAILED, mm)
         else (hint, mm))
      else if hint \<noteq> 0 \<and> hint mod PAGE_SIZE = 0 \<and> hint \<ge> MMAP_BASE \<and> hint + len \<le> MMAP_TOP
              \<and> isFree (mm_head mm) hint len
      then (hint, mm)
      else if mm_nextHint mm < len + MMAP_BASE then (MMAP_FAILED, mm)
      else case allocVA_loop (mm_head mm) len ((mm_nextHint mm - len) AND NOT (PAGE_SIZE - 1)) of
             None \<Rightarrow> (MMAP_FAILED, mm)
           | Some candidate \<Rightarrow> (candidate, mm\<lparr>mm_nextHint := candidate\<rparr>))"

definition protToPte :: "u32 \<Rightarrow> u64" where
  "protToPte prot =
     (let flags = PAGE_V OR PAGE_U;
          flags1 = (if prot AND MMAP_PROT_READ \<noteq> 0 then flags OR PAGE_R else flags);
          flags2 = (if prot AND MMAP_PROT_WRITE \<noteq> 0 then flags1 OR PAGE_W else flags1)
      in if prot AND MMAP_PROT_EXEC \<noteq> 0 then flags2 OR PAGE_X else flags2)"

primrec insertRegion :: "region \<Rightarrow> region list \<Rightarrow> region list" where
  "insertRegion r [] = [r]"
| "insertRegion r (c # cs) = (if vaStart c < vaStart r then c # insertRegion r cs else r # c # cs)"

lemma mm_find_contains: "mm_find rs va = Some d \<Longrightarrow> d \<in> set rs \<and> vaStart d \<le> va \<and> va < vaEnd d"
  by (induction rs) (auto split: if_splits)

function mm_checkOperation :: "region list \<Rightarrow> u64 \<Rightarrow> u64 \<Rightarrow> u32 \<Rightarrow> bool" where
  "mm_checkOperation rs va_start va_end op =
     (if va_start < va_end then
        (case mm_find rs va_start of
           None \<Rightarrow> False
         | Some d \<Rightarrow>
             if r_prot d AND op = 0 then False else mm_checkOperation rs (vaEnd d) va_end op)
      else True)"
  by auto

termination
  by (relation "measure (\<lambda>(_, va_start, va_end, _). unat va_end - unat va_start)")
    (auto dest!: mm_find_contains simp: word_less_nat_alt)

declare mm_checkOperation.simps [simp del]

section \<open>Physical pages\<close>

definition vs_unmapPage :: "u64 \<Rightarrow> u64 \<Rightarrow> vmstate \<Rightarrow> u64 \<times> vmstate" where
  "vs_unmapPage pmt va st = (case unmapPage pmt va (vs_pt st) of (pa, m) \<Rightarrow> (pa, st\<lparr>vs_pt := m\<rparr>))"

definition give_if :: "u64 \<Rightarrow> vmstate \<Rightarrow> vmstate option" where
  "give_if pa st = (if pa \<noteq> 0 then vs_give (p2v pa) st else Some st)"

partial_function (option) unmapPhysical :: "u64 \<Rightarrow> u64 \<Rightarrow> u64 \<Rightarrow> vmstate \<Rightarrow> vmstate option" where
  "unmapPhysical pmt va va_end st =
     (if va < va_end then
        (case vs_unmapPage pmt va st of
           (pa, st1) \<Rightarrow> Option.bind (give_if pa st1) (unmapPhysical pmt (va + PAGE_SIZE) va_end))
      else Some st)"

partial_function (option) unmapPhysicalShared :: "u64 \<Rightarrow> u64 \<Rightarrow> u64 \<Rightarrow> vmstate \<Rightarrow> vmstate option" where
  "unmapPhysicalShared pmt va va_end st =
     (if va < va_end
      then unmapPhysicalShared pmt (va + PAGE_SIZE) va_end (snd (vs_unmapPage pmt va st))
      else Some st)"

text \<open>Undoing the first \<open>n\<close> pages of a mapping that could not be completed.\<close>

primrec mm_rollback :: "u64 \<Rightarrow> u64 \<Rightarrow> nat list \<Rightarrow> vmstate \<Rightarrow> vmstate option" where
  "mm_rollback pmt va0 [] st = Some st"
| "mm_rollback pmt va0 (j # js) st =
     (let va = va0 + of_nat j * PAGE_SIZE; pa = translate pmt va (vs_pt st) in
      Option.bind (give_if pa (snd (vs_unmapPage pmt va st))) (mm_rollback pmt va0 js))"

function mm_mapPages_loop :: "u64 \<Rightarrow> u64 \<Rightarrow> nat \<Rightarrow> nat \<Rightarrow> u64 \<Rightarrow> vmstate \<Rightarrow> (bool \<times> vmstate) run" where
  "mm_mapPages_loop pmt va0 i pages pteFlags st =
     (if i < pages then
        (case vs_take st of
           (None, st1) \<Rightarrow>
             Option.bind (mm_rollback pmt va0 [0 ..< i] st1) (\<lambda>st2. Some (Inr (False, st2)))
         | (Some page, st1) \<Rightarrow>
             let st2 = st1\<lparr>vs_data := memset (vs_data st1) page 0 (unat PAGE_SIZE)\<rparr> in
             bindR (Some (vs_map pmt (va0 + of_nat i * PAGE_SIZE) (v2p page) pteFlags st2))
               (\<lambda>(ok, st3).
                 if ok then mm_mapPages_loop pmt va0 (i + 1) pages pteFlags st3
                 else Option.bind (vs_give page st3) (\<lambda>st4.
                        Option.bind (mm_rollback pmt va0 [0 ..< i] st4) (\<lambda>st5. Some (Inr (False, st5))))))
      else Some (Inr (True, st)))"
  by auto
termination by (relation "measure (\<lambda>(_, _, i, pages, _, _). pages - i)") auto

declare mm_mapPages_loop.simps [simp del]

definition mm_mapPages :: "u64 \<Rightarrow> u64 \<Rightarrow> u64 \<Rightarrow> u64 \<Rightarrow> vmstate \<Rightarrow> (bool \<times> vmstate) run" where
  "mm_mapPages pmt va0 pages pteFlags st = mm_mapPages_loop pmt va0 0 (unat pages) pteFlags st"

section \<open>Files behind mappings\<close>

text \<open>
  The open file is a state \<open>'f\<close> with the calls \<^verbatim>\<open>File::seek\<close> and \<^verbatim>\<open>File::read\<close>; a read
  gives its result and the bytes it stores.
\<close>

primrec store_bytes :: "u64 \<Rightarrow> u8 list \<Rightarrow> mem \<Rightarrow> mem" where
  "store_bytes a [] m = m"
| "store_bytes a (b # bs) m = store_bytes (a + 1) bs (m(a := b))"

function fillFromFile_loop ::
  "(u64 \<Rightarrow> 'f \<Rightarrow> int \<times> 'f) \<Rightarrow> (u64 \<Rightarrow> 'f \<Rightarrow> int \<times> u8 list \<times> 'f) \<Rightarrow> u64 \<Rightarrow> u64 \<Rightarrow> nat \<Rightarrow> nat \<Rightarrow> u64 \<Rightarrow> u64
   \<Rightarrow> 'f \<Rightarrow> vmstate \<Rightarrow> int \<times> 'f \<times> vmstate" where
  "fillFromFile_loop f_seek f_read pmt va i pages offset remaining f st =
     (if i < pages \<and> remaining > 0 then
        let pa = translate pmt va (vs_pt st) in
        if pa = 0 then (- 1, f, st)
        else
          let toRead = (if remaining < PAGE_SIZE then remaining else PAGE_SIZE);
              (n, f1) = f_seek (offset + of_nat i * PAGE_SIZE) f in
          if n < 0 then (- 1, f1, st)
          else
            let (n1, bs, f2) = f_read toRead f1; st1 = st\<lparr>vs_data := store_bytes (p2v pa) bs (vs_data st)\<rparr> in
            if n1 < 0 then (- 1, f2, st1)
            else fillFromFile_loop f_seek f_read pmt (va + PAGE_SIZE) (i + 1) pages offset
                   (remaining - of_int n1) f2 st1
      else (0, f, st))"
  by auto
termination by (relation "measure (\<lambda>(_, _, _, _, i, pages, _). pages - i)") auto

declare fillFromFile_loop.simps [simp del]

definition fillFromFile ::
  "(u64 \<Rightarrow> 'f \<Rightarrow> int \<times> 'f) \<Rightarrow> (u64 \<Rightarrow> 'f \<Rightarrow> int \<times> u8 list \<times> 'f) \<Rightarrow> 'f option \<Rightarrow> u64 \<Rightarrow> u64 \<Rightarrow> u64
   \<Rightarrow> u64 \<Rightarrow> u64 \<Rightarrow> vmstate \<Rightarrow> int \<times> 'f option \<times> vmstate" where
  "fillFromFile f_seek f_read file pmt va0 pages offset fileLen st =
     (case file of
        None \<Rightarrow> (- 1, None, st)
      | Some f \<Rightarrow>
          let (r, f1, st1) = fillFromFile_loop f_seek f_read pmt va0 0 (unat pages) offset fileLen f st
          in (r, Some f1, st1))"

section \<open>Unmapping\<close>

text \<open>Giving up a region's pages: the block that the destructor and \<^verbatim>\<open>unmap\<close> share.\<close>

definition release_region :: "u64 \<Rightarrow> region \<Rightarrow> mworld \<Rightarrow> mworld run" where
  "release_region pmt r w =
     (case (r_shared r, sharedRef r) of
        (True, Some p) \<Rightarrow>
          (case mw_refs w p of
             None \<Rightarrow> Some (Inl Undefined)
           | Some c \<Rightarrow>
               if c - 1 = 0
               then Option.bind (unmapPhysical pmt (vaStart r) (vaEnd r) (mw_vm w))
                      (\<lambda>st. Some (Inr (w\<lparr>mw_vm := st, mw_refs := (mw_refs w)(p := None)\<rparr>)))
               else Option.bind (unmapPhysicalShared pmt (vaStart r) (vaEnd r) (mw_vm w))
                      (\<lambda>st. Some (Inr (w\<lparr>mw_vm := st, mw_refs := (mw_refs w)(p := Some (c - 1))\<rparr>))))
      | _ \<Rightarrow> Option.bind (unmapPhysical pmt (vaStart r) (vaEnd r) (mw_vm w))
               (\<lambda>st. Some (Inr (w\<lparr>mw_vm := st\<rparr>))))"

primrec Mmap_dtor :: "u64 \<Rightarrow> region list \<Rightarrow> mworld \<Rightarrow> mworld run" where
  "Mmap_dtor pmt [] w = Some (Inr w)"
| "Mmap_dtor pmt (r # rs) w = bindR (release_region pmt r w) (Mmap_dtor pmt rs)"

text \<open>What becomes of one region that overlaps the range; its successors follow.\<close>

definition trim_region :: "u64 \<Rightarrow> u64 \<Rightarrow> region \<Rightarrow> region list" where
  "trim_region addr end r =
     (let overlapStart = (if vaStart r > addr then vaStart r else addr);
          trimLeft = vaStart r < addr;
          trimRight = vaEnd r > end in
      if \<not> trimLeft \<and> \<not> trimRight then []
      else if trimLeft \<and> trimRight then
        [r\<lparr>vaEnd := addr\<rparr>,
         r\<lparr>vaStart := end, fileOffset := fileOffset r + (end - vaStart r), sharedRef := None\<rparr>]
      else if trimLeft then [r\<lparr>vaEnd := addr\<rparr>]
      else [r\<lparr>vaStart := end, fileOffset := fileOffset r + (end - overlapStart)\<rparr>])"

primrec unmap_loop :: "u64 \<Rightarrow> u64 \<Rightarrow> u64 \<Rightarrow> region list \<Rightarrow> mworld \<Rightarrow> (region list \<times> mworld) run" where
  "unmap_loop pmt addr end [] w = Some (Inr ([], w))"
| "unmap_loop pmt addr end (r # rs) w =
     (if \<not> vaStart r < end then Some (Inr (r # rs, w))
      else if vaEnd r \<le> addr then
        bindR (unmap_loop pmt addr end rs w) (\<lambda>(rs1, w1). Some (Inr (r # rs1, w1)))
      else
        bindR (release_region pmt r w) (\<lambda>w1.
        bindR (unmap_loop pmt addr end rs w1) (\<lambda>(rs1, w2).
          Some (Inr (trim_region addr end r @ rs1, w2)))))"

definition mm_unmap :: "u64 \<Rightarrow> u64 \<Rightarrow> mmap \<Rightarrow> mworld \<Rightarrow> (int \<times> mmap \<times> mworld) run" where
  "mm_unmap addr len mm w =
     (if len = 0 then Some (Inr (- 1, mm, w))
      else if addr mod PAGE_SIZE \<noteq> 0 then Some (Inr (- 1, mm, w))
      else bindR (unmap_loop (mm_pmt mm) addr (addr + pageRoundUp len) (mm_head mm) w)
             (\<lambda>(rs, w1). Some (Inr (0, mm\<lparr>mm_head := rs\<rparr>, w1))))"

section \<open>Mapping\<close>

definition mm_map ::
  "(u64 \<Rightarrow> 'f \<Rightarrow> int \<times> 'f) \<Rightarrow> (u64 \<Rightarrow> 'f \<Rightarrow> int \<times> u8 list \<times> 'f) \<Rightarrow> 'f option \<Rightarrow> nat
   \<Rightarrow> u64 \<Rightarrow> u64 \<Rightarrow> u32 \<Rightarrow> u32 \<Rightarrow> int \<Rightarrow> u64 \<Rightarrow> mmap \<Rightarrow> mworld \<Rightarrow> (u64 \<times> mmap \<times> mworld \<times> 'f option) run" where
  "mm_map f_seek f_read file fresh hint len prot flags fd offset mm w =
     (let failed = (\<lambda>mm w file. Some (Inr (MMAP_FAILED, mm, w, file))) in
      if len = 0 then failed mm w file
      else if flags AND MMAP_MAP_PRIVATE = 0 \<and> flags AND MMAP_MAP_SHARED = 0 then failed mm w file
      else if flags AND MMAP_MAP_ANONYMOUS \<noteq> 0 \<and> fd \<noteq> - 1 then failed mm w file
      else if flags AND MMAP_MAP_ANONYMOUS = 0 \<and> fd < 0 then failed mm w file
      else
        let roundedLen = pageRoundUp len; pages = roundedLen div PAGE_SIZE;
            fixed = (flags AND MMAP_MAP_FIXED \<noteq> 0);
            (va, mm1) = allocVA hint pages fixed mm in
        if va = MMAP_FAILED then failed mm1 w file
        else bindR (if fixed then mm_unmap va roundedLen mm1 w else Some (Inr (0, mm1, w))) (\<lambda>(_, mm2, w2).
          bindR (mm_mapPages (mm_pmt mm2) va pages (protToPte prot) (mw_vm w2)) (\<lambda>(ok, st).
            let w3 = w2\<lparr>mw_vm := st\<rparr> in
            if \<not> ok then failed mm2 w3 file
            else
              let (rc, file1, st1) =
                    (if flags AND MMAP_MAP_ANONYMOUS = 0
                     then fillFromFile f_seek f_read file (mm_pmt mm2) va pages offset len (mw_vm w3)
                     else (0, file, mw_vm w3));
                  w4 = w3\<lparr>mw_vm := st1\<rparr> in
              if rc < 0 then
                Option.bind (unmapPhysical (mm_pmt mm2) va (va + roundedLen) (mw_vm w4))
                  (\<lambda>st2. failed mm2 (w4\<lparr>mw_vm := st2\<rparr>) file1)
              else
                let shared = (flags AND MMAP_MAP_SHARED \<noteq> 0);
                    r = \<lparr>vaStart = va, vaEnd = va + roundedLen, r_prot = prot, r_flags = flags, r_fd = fd,
                         fileOffset = offset, r_shared = shared,
                         sharedRef = (if shared then Some fresh else None)\<rparr>;
                    w5 = (if shared then w4\<lparr>mw_refs := (mw_refs w4)(fresh := Some 1)\<rparr> else w4)
                in Some (Inr (va, mm2\<lparr>mm_head := insertRegion r (mm_head mm2)\<rparr>, w5, file1)))))"

section \<open>Protection\<close>

partial_function (option) protect_loop :: "u64 \<Rightarrow> u64 \<Rightarrow> u64 \<Rightarrow> u64 \<Rightarrow> vmstate \<Rightarrow> vmstate run" where
  "protect_loop pmt va va_end pteFlags st =
     (if va < va_end then
        let pa = translate pmt va (vs_pt st) in
        if pa = 0 then protect_loop pmt (va + PAGE_SIZE) va_end pteFlags st
        else bindR (Some (vs_map pmt va pa pteFlags (snd (vs_unmapPage pmt va st))))
               (\<lambda>x. protect_loop pmt (va + PAGE_SIZE) va_end pteFlags (snd x))
      else Some (Inr st))"

definition mm_protect :: "u64 \<Rightarrow> u64 \<Rightarrow> u32 \<Rightarrow> mmap \<Rightarrow> vmstate \<Rightarrow> (int \<times> vmstate) run" where
  "mm_protect addr len prot mm st =
     (if addr mod PAGE_SIZE \<noteq> 0 then Some (Inr (- 1, st))
      else if len = 0 then Some (Inr (- 1, st))
      else
        let pages = pageRoundUp len div PAGE_SIZE in
        bindR (protect_loop (mm_pmt mm) addr (addr + pages * PAGE_SIZE) (protToPte prot) st)
          (\<lambda>st1. Some (Inr (0, st1))))"

section \<open>Cloning\<close>

text \<open>The two page loops of \<^verbatim>\<open>clone\<close>; the second one stops when there is no page left.\<close>

primrec clone_shared :: "u64 \<Rightarrow> u64 \<Rightarrow> u64 \<Rightarrow> u64 \<Rightarrow> nat list \<Rightarrow> vmstate \<Rightarrow> vmstate res" where
  "clone_shared pmt newPmt va0 pteFlags [] st = Inr st"
| "clone_shared pmt newPmt va0 pteFlags (i # is) st =
     (let va = va0 + of_nat i * PAGE_SIZE; pa = translate pmt va (vs_pt st) in
      if pa = 0 then clone_shared pmt newPmt va0 pteFlags is st
      else bindE (vs_map newPmt va pa pteFlags st)
             (\<lambda>(_, st1). clone_shared pmt newPmt va0 pteFlags is st1))"

primrec clone_private :: "u64 \<Rightarrow> u64 \<Rightarrow> u64 \<Rightarrow> u64 \<Rightarrow> nat list \<Rightarrow> vmstate \<Rightarrow> (bool \<times> vmstate) res" where
  "clone_private pmt newPmt va0 pteFlags [] st = Inr (True, st)"
| "clone_private pmt newPmt va0 pteFlags (i # is) st =
     (let va = va0 + of_nat i * PAGE_SIZE; srcPa = translate pmt va (vs_pt st) in
      if srcPa = 0 then clone_private pmt newPmt va0 pteFlags is st
      else case vs_take st of
        (None, st1) \<Rightarrow> Inr (False, st1)
      | (Some newPage, st1) \<Rightarrow>
          let st2 = st1\<lparr>vs_data := memcpy (vs_data st1) newPage (p2v srcPa) (unat PAGE_SIZE)\<rparr> in
          bindE (vs_map newPmt va (v2p newPage) pteFlags st2)
            (\<lambda>(_, st3). clone_private pmt newPmt va0 pteFlags is st3))"

definition clone_region :: "u64 \<Rightarrow> u64 \<Rightarrow> region \<Rightarrow> vmstate \<Rightarrow> (bool \<times> vmstate) res" where
  "clone_region pmt newPmt r st =
     (let pages = unat ((vaEnd r - vaStart r) div PAGE_SIZE); pteFlags = protToPte (r_prot r) in
      if r_shared r
      then bindE (clone_shared pmt newPmt (vaStart r) pteFlags [0 ..< pages] st) (\<lambda>st1. Inr (True, st1))
      else clone_private pmt newPmt (vaStart r) pteFlags [0 ..< pages] st)"

text \<open>\<open>child\<close> is the list built so far; on failure the child is destroyed.\<close>

primrec clone_loop ::
  "u64 \<Rightarrow> u64 \<Rightarrow> region list \<Rightarrow> region list \<Rightarrow> mworld \<Rightarrow> (region list option \<times> mworld) run" where
  "clone_loop pmt newPmt [] child w = Some (Inr (Some child, w))"
| "clone_loop pmt newPmt (r # rs) child w =
     bindR (Some (clone_region pmt newPmt r (mw_vm w))) (\<lambda>(ok, st).
       let w1 = w\<lparr>mw_vm := st\<rparr> in
       if \<not> ok then bindR (Mmap_dtor newPmt child w1) (\<lambda>w2. Some (Inr (None, w2)))
       else case sharedRef r of
         None \<Rightarrow> clone_loop pmt newPmt rs (insertRegion r child) w1
       | Some p \<Rightarrow>
           (case mw_refs w1 p of
              None \<Rightarrow> Some (Inl Undefined)
            | Some c \<Rightarrow> clone_loop pmt newPmt rs (insertRegion r child)
                          (w1\<lparr>mw_refs := (mw_refs w1)(p := Some (c + 1))\<rparr>)))"

definition mm_clone :: "u64 \<Rightarrow> mmap \<Rightarrow> mworld \<Rightarrow> (mmap option \<times> mworld) run" where
  "mm_clone newPmt mm w =
     bindR (clone_loop (mm_pmt mm) newPmt (mm_head mm) [] w) (\<lambda>(child, w1).
       Some (Inr (case child of
           None \<Rightarrow> None
         | Some rs \<Rightarrow> Some \<lparr>mm_pmt = newPmt, mm_head = rs, mm_nextHint = mm_nextHint mm\<rparr>, w1)))"

section \<open>Well-formed lists of regions\<close>

definition region_ok :: "region \<Rightarrow> bool" where
  "region_ok r \<longleftrightarrow> vaStart r < vaEnd r \<and> page_aligned (vaStart r) \<and> page_aligned (vaEnd r)
     \<and> MMAP_BASE \<le> vaStart r \<and> vaEnd r \<le> MMAP_TOP"

definition regions_wf :: "region list \<Rightarrow> bool" where
  "regions_wf rs \<longleftrightarrow> sorted_wrt (\<lambda>r r'. vaEnd r \<le> vaStart r') rs \<and> (\<forall>r \<in> set rs. region_ok r)"

definition cover :: "region list \<Rightarrow> u64 set" where
  "cover rs = (\<Union>r \<in> set rs. {vaStart r ..< vaEnd r})"

lemma regions_wf_simps [simp]:
  "regions_wf []"
  "regions_wf (r # rs) \<longleftrightarrow> region_ok r \<and> (\<forall>r' \<in> set rs. vaEnd r \<le> vaStart r') \<and> regions_wf rs"
  by (auto simp: regions_wf_def)

lemma cover_simps [simp]:
  "cover [] = {}" "cover (r # rs) = {vaStart r ..< vaEnd r} \<union> cover rs" "cover (xs @ ys) = cover xs \<union> cover ys"
  by (auto simp: cover_def)

lemma region_ok_order: "region_ok r \<Longrightarrow> vaStart r < vaEnd r"
  by (simp add: region_ok_def)

lemma isFree_loop_iff:
  "regions_wf rs \<Longrightarrow> addr < end \<Longrightarrow>
   isFree_loop rs addr end \<longleftrightarrow> (\<forall>r \<in> set rs. vaEnd r \<le> addr \<or> end \<le> vaStart r)"
proof (induction rs)
  case (Cons r rs)
  have o: "vaStart r < vaEnd r" and later: "\<forall>r' \<in> set rs. vaEnd r \<le> vaStart r'"
    using Cons.prems(1) region_ok_order by auto
  show ?case
  proof (cases "end \<le> vaStart r")
    case True
    then have "end \<le> vaStart r'" if "r' \<in> set rs" for r' using later o that by fastforce
    with True show ?thesis by auto
  next
    case False
    with Cons show ?thesis by auto
  qed
qed simp

lemma mod_add_less:
  fixes a b m n :: nat
  assumes "n = (a + b) mod m" and "a < n" and "a < m" and "b < m"
  shows "a + b < m"
proof (rule ccontr)
  assume "\<not> a + b < m"
  then have "n = a + b - m" using assms(1,3,4) by (simp add: mod_if)
  then show False using assms(2,4) by simp
qed

lemma insertRegion_set: "set (insertRegion r rs) = insert r (set rs)"
  by (induction rs) auto

lemma insertRegion_wf:
  "regions_wf rs \<Longrightarrow> region_ok r \<Longrightarrow> \<forall>c \<in> set rs. vaEnd c \<le> vaStart r \<or> vaEnd r \<le> vaStart c \<Longrightarrow>
   regions_wf (insertRegion r rs)"
proof (induction rs)
  case (Cons c cs)
  have rc: "vaStart r < vaEnd r" "vaStart c < vaEnd c" using Cons.prems region_ok_order by auto
  show ?case
  proof (cases "vaStart c < vaStart r")
    case True
    then have "vaEnd c \<le> vaStart r" using Cons.prems(3) rc by auto
    with True Cons show ?thesis by (auto simp: insertRegion_set)
  next
    case False
    then have "vaEnd r \<le> vaStart c" using Cons.prems(3) rc by auto
    moreover from this have "vaEnd r \<le> vaStart c'" if "c' \<in> set cs" for c'
      using Cons.prems(1) rc that by fastforce
    ultimately show ?thesis using False Cons.prems by auto
  qed
qed simp

lemma insertRegion_cover: "cover (insertRegion r rs) = {vaStart r ..< vaEnd r} \<union> cover rs"
  by (auto simp: cover_def insertRegion_set)

lemma trim_region_ok:
  assumes "region_ok r" "page_aligned addr" "page_aligned end" "addr < end" "vaStart r < end" "addr < vaEnd r"
  shows "regions_wf (trim_region addr end r)"
    and "cover (trim_region addr end r) = {vaStart r ..< vaEnd r} - {addr ..< end}"
    and "\<forall>x \<in> set (trim_region addr end r). vaStart r \<le> vaStart x \<and> vaEnd x \<le> vaEnd r"
  using assms by (auto simp: trim_region_def region_ok_def Let_def)

lemma unmap_loop_regions:
  assumes "page_aligned addr" "page_aligned end" "addr < end"
  shows "regions_wf rs \<Longrightarrow> unmap_loop pmt addr end rs w = Some (Inr (rs', w')) \<Longrightarrow>
    regions_wf rs' \<and> cover rs' = cover rs - {addr ..< end}
    \<and> (\<forall>x \<in> set rs'. \<exists>r \<in> set rs. vaStart r \<le> vaStart x \<and> vaEnd x \<le> vaEnd r)"
proof (induction rs arbitrary: w rs' w')
  case (Cons r rs)
  have ok: "region_ok r" "regions_wf rs" "\<forall>r' \<in> set rs. vaEnd r \<le> vaStart r'" using Cons.prems(1) by auto
  have o: "vaStart r < vaEnd r" using ok(1) by (rule region_ok_order)
  show ?case
  proof (cases "vaStart r < end")
    case False
    then have "end \<le> vaStart x" if "x \<in> set (r # rs)" for x using that ok(3) o by fastforce
    then have "cover (r # rs) \<inter> {addr ..< end} = {}" by (fastforce simp: cover_def)
    with False Cons.prems show ?thesis by auto
  next
    case start: True
    show ?thesis
    proof (cases "vaEnd r \<le> addr")
      case True
      then obtain rs1 where r1: "unmap_loop pmt addr end rs w = Some (Inr (rs1, w'))" "rs' = r # rs1"
        using Cons.prems(2) start by auto
      note IH = Cons.IH [OF ok(2) r1(1)]
      have "\<forall>x \<in> set rs1. vaEnd r \<le> vaStart x" using IH ok(3) by fastforce
      then show ?thesis using IH ok(1) r1(2) True by auto
    next
      case False
      then obtain w1 rs1 where r1: "unmap_loop pmt addr end rs w1 = Some (Inr (rs1, w'))"
        "rs' = trim_region addr end r @ rs1"
        using Cons.prems(2) start by auto
      note IH = Cons.IH [OF ok(2) r1(1)]
      note t = trim_region_ok [OF ok(1) assms start, simplified, OF False [unfolded not_le]]
      have "\<forall>x \<in> set (trim_region addr end r). \<forall>y \<in> set rs1. vaEnd x \<le> vaStart y"
        using t(3) IH ok(3) by fastforce
      then have "regions_wf rs'" using t(1) IH r1(2) by (auto simp: regions_wf_def sorted_wrt_append)
      then show ?thesis using t(2,3) IH r1(2) by auto
    qed
  qed
qed simp

section \<open>The chosen range\<close>

lemma mod_PAGE_SIZE: "a mod PAGE_SIZE = 0 \<longleftrightarrow> page_aligned a"
proof -
  have "a mod PAGE_SIZE = 0 \<longleftrightarrow> unat a mod 4096 = 0"
    using unat_mod [of a PAGE_SIZE] by (simp add: unat_PAGE_SIZE unat_eq_zero [symmetric])
  then show ?thesis by (simp only: page_aligned_iff dvd_eq_mod_eq_0)
qed

lemma page_aligned_sub:
  assumes "page_aligned c" and "PAGE_SIZE \<le> c"
  shows "page_aligned (c - PAGE_SIZE)"
proof -
  have "unat (c - PAGE_SIZE) = unat c - 4096" using assms(2) by (simp add: unat_sub unat_PAGE_SIZE)
  moreover have "4096 dvd unat c" using assms(1) by (simp only: page_aligned_iff)
  ultimately show ?thesis by (simp only: page_aligned_iff) (simp add: dvd_diff_nat)
qed

lemma page_aligned_add:
  assumes "page_aligned a" and "page_aligned b" and "unat a + unat b < 2 ^ 64"
  shows "page_aligned (a + b)"
proof -
  have "unat (a + b) = unat a + unat b" using assms(3) by (simp add: unat_word_ariths)
  then show ?thesis using assms(1,2) by (simp only: page_aligned_iff) (simp add: dvd_add)
qed

lemma allocVA_loop_some:
  "allocVA_loop rs len c = Some d \<Longrightarrow> page_aligned c \<Longrightarrow>
   page_aligned d \<and> MMAP_BASE \<le> d \<and> d \<le> c \<and> isFree rs d len"
proof (induction rs len c rule: allocVA_loop.induct)
  case (1 rs len c)
  show ?case
  proof (cases "c < MMAP_BASE \<or> isFree rs c len \<or> c < PAGE_SIZE")
    case True
    with 1 show ?thesis by (subst (asm) (2) allocVA_loop.simps) (auto split: if_splits)
  next
    case False
    then have le: "PAGE_SIZE \<le> c" by (simp add: not_less)
    then have "c - PAGE_SIZE \<le> c" by (simp add: word_le_nat_alt unat_sub)
    moreover have "allocVA_loop rs len (c - PAGE_SIZE) = Some d"
      using "1.prems"(1) False by (subst (asm) allocVA_loop.simps) simp
    ultimately show ?thesis using "1.IH" False page_aligned_sub [OF "1.prems"(2) le] by fastforce
  qed
qed

lemma allocVA_range:
  assumes wf: "regions_wf (mm_head mm)" and hint: "mm_nextHint mm \<le> MMAP_TOP"
    and len: "unat (pages * PAGE_SIZE) = unat pages * 4096" "0 < pages" "pages * PAGE_SIZE \<le> MMAP_TOP"
    and wrap: "unat h + unat pages * 4096 < 2 ^ 64"
    and run: "allocVA h pages fixed mm = (va, mm')" and ok: "va \<noteq> MMAP_FAILED"
  shows "page_aligned va \<and> MMAP_BASE \<le> va \<and> va < va + pages * PAGE_SIZE \<and> va + pages * PAGE_SIZE \<le> MMAP_TOP
    \<and> mm_head mm' = mm_head mm \<and> mm_pmt mm' = mm_pmt mm \<and> mm_nextHint mm' \<le> MMAP_TOP
    \<and> (\<not> fixed \<longrightarrow> (\<forall>r \<in> set (mm_head mm). vaEnd r \<le> va \<or> va + pages * PAGE_SIZE \<le> vaStart r))"
proof -
  let ?len = "pages * PAGE_SIZE"
  have pos: "0 < unat pages" using len(2) by (simp add: word_less_nat_alt)
  have up: "c < c + ?len" if "unat c + unat pages * 4096 < 2 ^ 64" for c
    using that len(1) pos by (simp add: word_less_nat_alt unat_word_ariths)
  have free: "\<forall>r \<in> set (mm_head mm). vaEnd r \<le> c \<or> c + ?len \<le> vaStart r"
    if "isFree (mm_head mm) c ?len" "c < c + ?len" for c
    using isFree_loop_iff [OF wf that(2)] that(1) by (simp add: isFree_def)
  show ?thesis
  proof (cases "fixed \<or> h \<noteq> 0 \<and> h mod PAGE_SIZE = 0 \<and> h \<ge> MMAP_BASE \<and> h + ?len \<le> MMAP_TOP
      \<and> isFree (mm_head mm) h ?len")
    case True
    then have "va = h" "mm' = mm" "h mod PAGE_SIZE = 0" "h \<ge> MMAP_BASE" "h + ?len \<le> MMAP_TOP"
      and "\<not> fixed \<Longrightarrow> isFree (mm_head mm) h ?len"
      using run ok by (auto simp: allocVA_def Let_def split: if_splits)
    then show ?thesis using up [OF wrap] free [of h] hint by (simp add: mod_PAGE_SIZE)
  next
    case False
    define c where "c = (mm_nextHint mm - ?len) AND NOT (PAGE_SIZE - 1)"
    have nf: "\<not> fixed" using False by blast
    have nh: "\<not> (h \<noteq> 0 \<and> h mod PAGE_SIZE = 0 \<and> h \<ge> MMAP_BASE
        \<and> h + ?len \<le> MMAP_TOP \<and> isFree (mm_head mm) h ?len)"
      using False unfolding de_Morgan_disj by (rule conjunct2)
    have "(if mm_nextHint mm < ?len + MMAP_BASE then (MMAP_FAILED, mm)
       else case allocVA_loop (mm_head mm) ?len c of None \<Rightarrow> (MMAP_FAILED, mm)
            | Some d \<Rightarrow> (d, mm\<lparr>mm_nextHint := d\<rparr>)) = (va, mm')"
      using run unfolding allocVA_def Let_def c_def if_not_P [OF nf] if_not_P [OF nh] .
    with ok obtain d where ge: "\<not> mm_nextHint mm < ?len + MMAP_BASE"
      and d: "allocVA_loop (mm_head mm) ?len c = Some d" "va = d" "mm' = mm\<lparr>mm_nextHint := d\<rparr>"
      by (cases "allocVA_loop (mm_head mm) ?len c") (auto split: if_splits)
    have T: "unat MMAP_TOP = 0x3F00000000" "unat MMAP_BASE = 0x2000000000"
      by (simp_all add: MMAP_TOP_def MMAP_BASE_def)
    have "unat (?len + MMAP_BASE) = unat ?len + unat MMAP_BASE"
      using len(3) T by (simp add: unat_word_ariths word_le_nat_alt)
    then have lh: "unat ?len \<le> unat (mm_nextHint mm)" using ge by (simp add: word_less_nat_alt)
    have c: "c = pageRoundDown (mm_nextHint mm - ?len)" by (simp add: c_def pageRoundDown_def)
    have "unat c \<le> unat (mm_nextHint mm) - unat ?len"
      using lh by (simp add: c unat_pageRoundDown unat_sub word_le_nat_alt)
    moreover have al: "page_aligned c"
      unfolding c pageRoundDown_bits by (rule bit_eqI) (auto simp: bit_simps)
    note s = allocVA_loop_some [OF d(1) al]
    ultimately have sum: "unat d + unat ?len \<le> unat (mm_nextHint mm)"
      using lh unfolding word_le_nat_alt by linarith
    have "unat (mm_nextHint mm) \<le> unat MMAP_TOP" using hint by (simp add: word_le_nat_alt)
    with sum T have le: "unat d + unat pages * 4096 \<le> 0x3F00000000" using len(1) by linarith
    then have "d < d + ?len" "d + ?len \<le> MMAP_TOP" "d \<le> MMAP_TOP"
      using up [of d] len(1) T by (simp_all add: word_le_nat_alt unat_word_ariths)
    then show ?thesis using s free [of d] d(2,3) by simp
  qed
qed

text \<open>
  Without the bound on \<^verbatim>\<open>hint + len\<close> the range check is void: the sum wraps around, and a fixed
  mapping of two pages at the very top of the address space, the second of which is the page at
  address \<open>0\<close>, is accepted.
\<close>

lemma allocVA_accepts_wrapped_range:
  "allocVA 0xFFFFFFFFFFFFF000 2 True mm = (0xFFFFFFFFFFFFF000, mm)"
  by (simp add: allocVA_def MMAP_BASE_def MMAP_TOP_def PAGE_SIZE_def Let_def)

section \<open>Clearing the pages of a range\<close>

lemma unmapPhysical_clears:
  assumes "tree (vs_pt st) pmt" and "unmapPhysical pmt va va_end st = Some st'"
    and "unat va_end + 4096 \<le> 2 ^ 64" and "unat va + n * 4096 < unat va_end"
  shows "tree (vs_pt st') pmt" "pte_of (vs_pt st') pmt x = pte_of (vs_pt st) pmt x \<or> \<not> pteValid (pte_of (vs_pt st') pmt x)"
    and "\<not> pteValid (pte_of (vs_pt st') pmt (va + of_nat n * PAGE_SIZE))"
proof -
  have "tree (vs_pt st') pmt \<and> (\<forall>x. pte_of (vs_pt st') pmt x = pte_of (vs_pt st) pmt x \<or> \<not> pteValid (pte_of (vs_pt st') pmt x))
    \<and> (\<forall>n. unat va + n * 4096 < unat va_end \<longrightarrow> \<not> pteValid (pte_of (vs_pt st') pmt (va + of_nat n * PAGE_SIZE)))"
    using assms(1,2)
  proof (induction "unat va_end - unat va" arbitrary: va st rule: less_induct)
    case less
    show ?case
    proof (cases "va < va_end")
      case False
      then have "st' = st" using less.prems(2) by (subst (asm) unmapPhysical.simps) simp
      with False less.prems(1) show ?thesis by (auto simp: word_less_nat_alt)
    next
      case True
      obtain pa m1 where u: "unmapPage pmt va (vs_pt st) = (pa, m1)" by (cases "unmapPage pmt va (vs_pt st)")
      note c = unmapPage_cases [OF less.prems(1) u]
      obtain st2 where g: "give_if pa (st\<lparr>vs_pt := m1\<rparr>) = Some st2"
        and r: "unmapPhysical pmt (va + PAGE_SIZE) va_end st2 = Some st'"
        using less.prems(2) True u
        by (subst (asm) unmapPhysical.simps) (auto simp: vs_unmapPage_def bind_eq_Some_conv)
      have m1: "vs_pt st2 = m1"
        using g by (auto simp: give_if_def vs_give_def bind_eq_Some_conv split: if_splits)
      have un: "unat (va + PAGE_SIZE) = unat va + 4096"
        using True assms(3) by (simp add: unat_word_ariths unat_PAGE_SIZE word_less_nat_alt)
      have "unat va_end - unat (va + PAGE_SIZE) < unat va_end - unat va"
        using True un by (simp add: word_less_nat_alt)
      note IH = less.hyps [OF this _ r, unfolded m1, OF c(2)]
      have old: "pte_of m1 pmt x = pte_of (vs_pt st) pmt x \<or> \<not> pteValid (pte_of m1 pmt x)" for x
        using c(4) [of x] by simp
      have zero: "\<not> pteValid (pte_of m1 pmt va)" using c(4) [of va] by (auto split: if_splits)
      have "\<not> pteValid (pte_of (vs_pt st') pmt (va + of_nat n * PAGE_SIZE))"
        if "unat va + n * 4096 < unat va_end" for n
      proof (cases n)
        case 0
        then show ?thesis using IH zero by (metis add.right_neutral mult_zero_left of_nat_0)
      next
        case (Suc k)
        then have "unat (va + PAGE_SIZE) + k * 4096 < unat va_end" using that un by simp
        then have "\<not> pteValid (pte_of (vs_pt st') pmt (va + PAGE_SIZE + of_nat k * PAGE_SIZE))" using IH by blast
        then show ?thesis using Suc by (simp add: algebra_simps)
      qed
      then show ?thesis using IH old by metis
    qed
  qed
  then show "tree (vs_pt st') pmt" "pte_of (vs_pt st') pmt x = pte_of (vs_pt st) pmt x \<or> \<not> pteValid (pte_of (vs_pt st') pmt x)"
    "\<not> pteValid (pte_of (vs_pt st') pmt (va + of_nat n * PAGE_SIZE))"
    using assms(4) by blast+
qed

section \<open>Exclusively owned pages\<close>

text \<open>
  An address space that shares none of its pages: every mapped page is an allocated page of the
  heap, none is a table, and no two addresses of different pages map the same one.
\<close>

definition owned :: "u64 \<Rightarrow> vmstate \<Rightarrow> bool" where
  "owned pmt st \<longleftrightarrow> pt_wf (vs_pt st) pmt (vs_heap st)
     \<and> (\<forall>x. pteValid (pte_of (vs_pt st) pmt x) \<longrightarrow>
          (let p = p2v (pte2pa (pte_of (vs_pt st) pmt x)) in
           buddy_page (vs_heap st) p \<and> p \<notin> buddy_pool (vs_heap st) \<and> p \<notin> tables (vs_pt st) pmt))
     \<and> (\<forall>x y. pteValid (pte_of (vs_pt st) pmt x) \<and> pteValid (pte_of (vs_pt st) pmt y)
          \<and> pte2pa (pte_of (vs_pt st) pmt x) = pte2pa (pte_of (vs_pt st) pmt y) \<longrightarrow> same_page x y)"

lemma ownedI:
  assumes "pt_wf (vs_pt st) pmt (vs_heap st)"
    and "\<And>x. pteValid (pte_of (vs_pt st) pmt x) \<Longrightarrow> buddy_page (vs_heap st) (p2v (pte2pa (pte_of (vs_pt st) pmt x)))"
    and "\<And>x. pteValid (pte_of (vs_pt st) pmt x) \<Longrightarrow> p2v (pte2pa (pte_of (vs_pt st) pmt x)) \<notin> buddy_pool (vs_heap st)"
    and "\<And>x. pteValid (pte_of (vs_pt st) pmt x) \<Longrightarrow> p2v (pte2pa (pte_of (vs_pt st) pmt x)) \<notin> tables (vs_pt st) pmt"
    and "\<And>x y. pteValid (pte_of (vs_pt st) pmt x) \<Longrightarrow> pteValid (pte_of (vs_pt st) pmt y) \<Longrightarrow>
      pte2pa (pte_of (vs_pt st) pmt x) = pte2pa (pte_of (vs_pt st) pmt y) \<Longrightarrow> same_page x y"
  shows "owned pmt st"
  unfolding owned_def Let_def using assms by blast

lemma owned_page:
  assumes "owned pmt st" and "pteValid (pte_of (vs_pt st) pmt x)"
  shows "buddy_page (vs_heap st) (p2v (pte2pa (pte_of (vs_pt st) pmt x)))"
    and "p2v (pte2pa (pte_of (vs_pt st) pmt x)) \<notin> buddy_pool (vs_heap st)"
    and "p2v (pte2pa (pte_of (vs_pt st) pmt x)) \<notin> tables (vs_pt st) pmt"
    and "pteValid (pte_of (vs_pt st) pmt y) \<Longrightarrow>
      pte2pa (pte_of (vs_pt st) pmt x) = pte2pa (pte_of (vs_pt st) pmt y) \<Longrightarrow> same_page x y"
  using assms unfolding owned_def Let_def by blast+

lemma owned_step:
  assumes own: "owned pmt st"
  obtains st' where "Option.bind (give_if (fst (vs_unmapPage pmt va st)) (snd (vs_unmapPage pmt va st))) f = f st'"
    and "owned pmt st'"
proof -
  let ?p = "pte_of (vs_pt st) pmt va"
  obtain pa m1 where u: "unmapPage pmt va (vs_pt st) = (pa, m1)" by (cases "unmapPage pmt va (vs_pt st)")
  have t: "tree (vs_pt st) pmt" and good: "buddy_good (vs_heap st)" using own by (auto simp: owned_def pt_wf_def)
  note c = unmapPage_cases [OF t u]
  define st1 where "st1 = st\<lparr>vs_pt := m1\<rparr>"
  have un: "vs_unmapPage pmt va st = (pa, st1)" using u by (simp add: vs_unmapPage_def st1_def)
  have old: "pteValid (pte_of m1 pmt x) \<Longrightarrow> pte_of m1 pmt x = pte_of (vs_pt st) pmt x" for x
    using c(4) [of x] by (auto split: if_splits)
  have wf1: "pt_wf m1 pmt (vs_heap st)" using own c(2,3) by (simp add: owned_def pt_wf_def)
  have each: "buddy_page (vs_heap st) (p2v (pte2pa (pte_of m1 pmt x)))
      \<and> p2v (pte2pa (pte_of m1 pmt x)) \<notin> buddy_pool (vs_heap st)
      \<and> p2v (pte2pa (pte_of m1 pmt x)) \<notin> tables m1 pmt" if "pteValid (pte_of m1 pmt x)" for x
    using owned_page(1-3) [OF own, of x] old [OF that] that c(3) by simp
  have own1: "owned pmt st1"
  proof (rule ownedI)
    show "same_page x y" if "pteValid (pte_of (vs_pt st1) pmt x)" "pteValid (pte_of (vs_pt st1) pmt y)"
      "pte2pa (pte_of (vs_pt st1) pmt x) = pte2pa (pte_of (vs_pt st1) pmt y)" for x y
      using that old [of x] old [of y] owned_page(4) [OF own, of x y] by (simp add: st1_def)
  qed (use wf1 each in \<open>simp_all add: st1_def\<close>)
  show thesis
  proof (cases "pa = 0")
    case True
    then show thesis using that [of st1] own1 un by (simp add: give_if_def)
  next
    case False
    then have v: "pteValid ?p" and pa: "pa = pte2pa ?p" using c(1) by (auto split: if_splits)
    have out: "p2v pa \<notin> buddy_pool (vs_heap st)" using owned_page(2) [OF own v] pa by simp
    obtain h where h: "kfreePage (p2v pa) (vs_heap st) = Some h" "buddy_good h"
      "buddy_pool h = insert (p2v pa) (buddy_pool (vs_heap st))" "buddy_page h = buddy_page (vs_heap st)"
      using buddy_pages.give [OF good, of "p2v pa"] owned_page(1) [OF own v] pa out by auto
    have ne: "p2v (pte2pa (pte_of m1 pmt x)) \<noteq> p2v pa" if "pteValid (pte_of m1 pmt x)" for x
    proof
      assume "p2v (pte2pa (pte_of m1 pmt x)) = p2v pa"
      then have "pte2pa (pte_of (vs_pt st) pmt x) = pte2pa ?p" using old [OF that] pa p2v_inj by metis
      then have "same_page va x" using owned_page(4) [OF own v, of x] that old [OF that] by simp
      then show False using c(4) [of x] v that by simp
    qed
    have wf2: "pt_wf m1 pmt h"
      using wf1 h(2,3) owned_page(3) [OF own v] pa c(3) by (auto simp: pt_wf_def)
    have "owned pmt (st1\<lparr>vs_heap := h\<rparr>)"
      by (rule ownedI) (use wf2 h(3,4) ne owned_page [OF own1] in \<open>simp_all add: st1_def\<close>)
    then show thesis using that [of "st1\<lparr>vs_heap := h\<rparr>"] un False h(1)
      by (simp add: give_if_def vs_give_def st1_def)
  qed
qed

lemma unmapPhysical_returns:
  assumes "owned pmt st" and "unat va_end + 4096 \<le> 2 ^ 64"
  shows "\<exists>st'. unmapPhysical pmt va va_end st = Some st' \<and> owned pmt st'"
  using assms(1)
proof (induction "unat va_end - unat va" arbitrary: va st rule: less_induct)
  case less
  show ?case
  proof (cases "va < va_end")
    case False
    then show ?thesis using less.prems by (subst unmapPhysical.simps) simp
  next
    case True
    obtain st1 where st1: "Option.bind (give_if (fst (vs_unmapPage pmt va st)) (snd (vs_unmapPage pmt va st)))
        (unmapPhysical pmt (va + PAGE_SIZE) va_end) = unmapPhysical pmt (va + PAGE_SIZE) va_end st1" "owned pmt st1"
      using owned_step [OF less.prems, of va "unmapPhysical pmt (va + PAGE_SIZE) va_end"] by blast
    have "unat va_end - unat (va + PAGE_SIZE) < unat va_end - unat va"
      using True assms(2) by (simp add: unat_word_ariths unat_PAGE_SIZE word_less_nat_alt)
    from less.hyps [OF this st1(2)] show ?thesis
      using True st1(1) by (subst unmapPhysical.simps) (simp add: case_prod_beta)
  qed
qed

lemma unmap_loop_returns:
  "\<forall>r \<in> set rs. region_ok r \<and> \<not> r_shared r \<Longrightarrow> owned pmt (mw_vm w) \<Longrightarrow>
   \<exists>rs' w'. unmap_loop pmt addr end rs w = Some (Inr (rs', w')) \<and> owned pmt (mw_vm w')"
proof (induction rs arbitrary: w)
  case (Cons r rs)
  have "unat (vaEnd r) + 4096 \<le> 2 ^ 64"
    using Cons.prems(1) by (simp add: region_ok_def MMAP_TOP_def word_le_nat_alt)
  from unmapPhysical_returns [OF Cons.prems(2) this, of "vaStart r"] obtain st where
    "release_region pmt r w = Some (Inr (w\<lparr>mw_vm := st\<rparr>))" "owned pmt st"
    using Cons.prems(1) by (auto simp: release_region_def split: option.splits)
  moreover from this obtain rs1 w1 where
    "unmap_loop pmt addr end rs (w\<lparr>mw_vm := st\<rparr>) = Some (Inr (rs1, w1))" "owned pmt (mw_vm w1)"
    using Cons.IH [of "w\<lparr>mw_vm := st\<rparr>"] Cons.prems(1) by auto
  moreover obtain rs2 w2 where "unmap_loop pmt addr end rs w = Some (Inr (rs2, w2))" "owned pmt (mw_vm w2)"
    using Cons.IH [of w] Cons.prems by auto
  ultimately show ?case using Cons.prems(2) by auto
qed simp

section \<open>Properties\<close>

text \<open>
  C37: \<^verbatim>\<open>Mmap::unmap\<close> of private regions always returns; it keeps the list of regions sorted,
  disjoint and page aligned, takes exactly the unmapped range out of what the list covers,
  splitting and trimming the regions it meets, and leaves an address space that owns its pages.
\<close>
theorem unmap_removes_range:
  assumes "regions_wf (mm_head mm)" and "\<forall>r \<in> set (mm_head mm). \<not> r_shared r" and "owned (mm_pmt mm) (mw_vm w)"
    and "page_aligned addr" and "0 < len" and "unat len + 4095 < 2 ^ 64"
    and "unat addr + unat (pageRoundUp len) < 2 ^ 64"
  shows "\<exists>mm' w'. mm_unmap addr len mm w = Some (Inr (0, mm', w')) \<and> regions_wf (mm_head mm')
     \<and> cover (mm_head mm') = cover (mm_head mm) - {addr ..< addr + pageRoundUp len}
     \<and> owned (mm_pmt mm) (mw_vm w')"
proof -
  let ?stop = "addr + pageRoundUp len"
  have pos: "0 < unat (pageRoundUp len)"
    using assms(5) by (simp add: unat_pageRoundUp [OF assms(6)] word_less_nat_alt)
  then have lt: "addr < ?stop" using assms(7) by (simp add: word_less_nat_alt unat_word_ariths)
  have al: "page_aligned ?stop" using page_aligned_add [OF assms(4) pageRoundUp_aligned assms(7)] .
  have "\<forall>r \<in> set (mm_head mm). region_ok r \<and> \<not> r_shared r" using assms(1,2) by (simp add: regions_wf_def)
  then obtain rs w' where rs: "unmap_loop (mm_pmt mm) addr ?stop (mm_head mm) w = Some (Inr (rs, w'))"
    "owned (mm_pmt mm) (mw_vm w')"
    using unmap_loop_returns [OF _ assms(3), of "mm_head mm" addr ?stop] by blast
  moreover have "len \<noteq> 0" using assms(5) by auto
  ultimately show ?thesis
    using unmap_loop_regions [OF assms(4) al lt assms(1) rs(1)] assms(4)
    by (simp add: mm_unmap_def mod_PAGE_SIZE)
qed

definition demo_vm :: vmstate where
  "demo_vm = \<lparr>vs_pt = demo_pt, vs_data = (\<lambda>_. 0), vs_heap = demo_heap,
     vs_refs = \<lparr>s_buckets = (\<lambda>_. []), s_initialized = True\<rparr>\<rparr>"

definition demo_region :: "u64 \<Rightarrow> u64 \<Rightarrow> region" where
  "demo_region a b = \<lparr>vaStart = a, vaEnd = b, r_prot = 3, r_flags = 0x22, r_fd = - 1, fileOffset = 0,
     r_shared = False, sharedRef = None\<rparr>"

definition demo_mmap :: mmap where
  "demo_mmap = \<lparr>mm_pmt = 0x1000, mm_head = [demo_region 0x2000000000 0x2000003000], mm_nextHint = MMAP_TOP\<rparr>"

lemma demo_vm_owned: "owned 0x1000 demo_vm"
  using demo_wf by (simp add: owned_def demo_vm_def demo_pte)

lemma demo_region_ok: "region_ok (demo_region 0x2000000000 0x2000003000)"
  by (simp add: region_ok_def demo_region_def MMAP_BASE_def MMAP_TOP_def pageRoundDown_def PAGE_SIZE_def)

theorem unmap_removes_range_witness:
  "\<exists>mm' w'. mm_unmap 0x2000001000 5 demo_mmap \<lparr>mw_vm = demo_vm, mw_refs = (\<lambda>_. None)\<rparr> = Some (Inr (0, mm', w'))
     \<and> 0x2000001000 \<notin> cover (mm_head mm') \<and> 0x2000002000 \<in> cover (mm_head mm')"
proof -
  have p5: "pageRoundUp 5 = 0x1000" by (simp add: pageRoundUp_def pageRoundDown_def PAGE_SIZE_def)
  have "cover (mm_head demo_mmap) = {0x2000000000 ..< 0x2000003000}"
    by (simp add: demo_mmap_def demo_region_def)
  moreover have "page_aligned 0x2000001000" by (simp add: pageRoundDown_def PAGE_SIZE_def)
  ultimately show ?thesis
    using unmap_removes_range [of demo_mmap "\<lparr>mw_vm = demo_vm, mw_refs = (\<lambda>_. None)\<rparr>" "0x2000001000" 5]
      demo_vm_owned demo_region_ok p5
    by (auto simp: demo_mmap_def demo_region_def)
qed

text \<open>
  \<^verbatim>\<open>Mmap::unmap\<close> of part of a region loses the rest of it: the physical pages of the whole
  region are unmapped and freed, while the list keeps the part outside the range, so that an
  address the process still owns according to the list no longer translates.
\<close>
theorem partial_unmap_drops_whole_region:
  assumes "tree (vs_pt (mw_vm w)) pmt" and "region_ok r" and "\<not> r_shared r" and "vaStart r < addr"
    and "addr < vaEnd r" and "addr < end" and "page_aligned addr"
    and "unmap_loop pmt addr end [r] w = Some (Inr (rs', w'))"
  shows "vaStart r \<in> cover rs' \<and> translate pmt (vaStart r) (vs_pt (mw_vm w')) = 0"
proof -
  have s: "vaStart r < end" using assms(4,6) by simp
  obtain st where st: "unmapPhysical pmt (vaStart r) (vaEnd r) (mw_vm w) = Some st"
    "rs' = trim_region addr end r" "w' = w\<lparr>mw_vm := st\<rparr>"
    using assms(3,8) s not_le [THEN iffD2, OF assms(5)]
    by (auto simp: release_region_def bind_eq_Some_conv split: option.splits)
  have top: "unat (vaEnd r) + 4096 \<le> 2 ^ 64"
    using assms(2) by (simp add: region_ok_def MMAP_TOP_def word_le_nat_alt)
  have "\<not> pteValid (pte_of (vs_pt st) pmt (vaStart r + of_nat 0 * PAGE_SIZE))"
    using unmapPhysical_clears(3) [OF assms(1) st(1) top, of 0] region_ok_order [OF assms(2)]
    by (simp add: word_less_nat_alt)
  moreover have "vaStart r \<in> cover rs'" using assms(4-6) by (auto simp: st(2) trim_region_def Let_def)
  ultimately show ?thesis using st(3) by (simp add: translate_pte)
qed

theorem partial_unmap_drops_whole_region_witness:
  "\<exists>rs' w'. unmap_loop 0x1000 0x2000001000 0x2000002000 [demo_region 0x2000000000 0x2000003000]
       \<lparr>mw_vm = demo_vm, mw_refs = (\<lambda>_. None)\<rparr> = Some (Inr (rs', w'))
     \<and> 0x2000000000 \<in> cover rs' \<and> translate 0x1000 0x2000000000 (vs_pt (mw_vm w')) = 0"
proof -
  let ?r = "demo_region 0x2000000000 0x2000003000" and ?w = "\<lparr>mw_vm = demo_vm, mw_refs = (\<lambda>_. None)\<rparr>"
  obtain rs' w' where run: "unmap_loop 0x1000 0x2000001000 0x2000002000 [?r] ?w = Some (Inr (rs', w'))"
    using unmap_loop_returns [of "[?r]" "0x1000" ?w "0x2000001000" "0x2000002000"] demo_vm_owned demo_region_ok
    by (auto simp: demo_region_def)
  have t: "tree (vs_pt (mw_vm ?w)) 0x1000" using demo_wf by (simp add: demo_vm_def pt_wf_def)
  have "page_aligned 0x2000001000" by (simp add: pageRoundDown_def PAGE_SIZE_def)
  then show ?thesis
    using partial_unmap_drops_whole_region [OF t demo_region_ok _ _ _ _ _ run] run
    by (simp add: demo_region_def)
qed

text \<open>
  C38: \<^verbatim>\<open>Mmap::allocVA\<close> for a request that does not wrap around the address space either fails or
  chooses a page-aligned range between \<^verbatim>\<open>MMAP_BASE\<close> and \<^verbatim>\<open>MMAP_TOP\<close>; unless the address was
  fixed by the caller, the range overlaps no region, so that inserting it keeps the regions
  sorted and disjoint.
\<close>
theorem allocVA_free_range:
  assumes "regions_wf (mm_head mm)" and "mm_nextHint mm \<le> MMAP_TOP"
    and "unat pages * 4096 < 2 ^ 64" and "0 < pages" and "pages * PAGE_SIZE \<le> MMAP_TOP"
    and "unat h + unat pages * 4096 < 2 ^ 64"
  shows "case allocVA h pages fixed mm of (va, mm') \<Rightarrow>
     va = MMAP_FAILED \<or>
     (page_aligned va \<and> MMAP_BASE \<le> va \<and> va < va + pages * PAGE_SIZE \<and> va + pages * PAGE_SIZE \<le> MMAP_TOP
      \<and> mm_head mm' = mm_head mm \<and> mm_nextHint mm' \<le> MMAP_TOP
      \<and> (fixed \<or> {va ..< va + pages * PAGE_SIZE} \<inter> cover (mm_head mm) = {}
           \<and> (\<forall>r. vaStart r = va \<and> vaEnd r = va + pages * PAGE_SIZE \<longrightarrow> regions_wf (insertRegion r (mm_head mm)))))"
proof -
  obtain va mm' where run: "allocVA h pages fixed mm = (va, mm')" by (cases "allocVA h pages fixed mm")
  have len: "unat (pages * PAGE_SIZE) = unat pages * 4096"
    using assms(3) by (simp add: unat_word_ariths unat_PAGE_SIZE)
  show ?thesis
  proof (cases "va = MMAP_FAILED")
    case False
    note r = allocVA_range [OF assms(1,2) len assms(4,5,6) run False]
    let ?stop = "va + pages * PAGE_SIZE"
    have al: "page_aligned ?stop"
    proof (rule page_aligned_add)
      show "page_aligned va" using r by blast
      show "page_aligned (pages * PAGE_SIZE)" using len by (simp only: page_aligned_iff) simp
      have "unat ?stop = (unat va + unat pages * 4096) mod 2 ^ 64" using len by (simp add: unat_word_ariths)
      moreover have "unat va < unat ?stop" using r by (simp add: word_less_nat_alt)
      moreover have "unat va < 2 ^ 64" using unsigned_less [of va] by simp
      ultimately show "unat va + unat (pages * PAGE_SIZE) < 2 ^ 64"
        using assms(3) len mod_add_less [of "unat ?stop" "unat va" "unat pages * 4096" "2 ^ 64"] by simp
    qed
    then have "regions_wf (insertRegion x (mm_head mm))" if "\<not> fixed" "vaStart x = va" "vaEnd x = ?stop" for x
      using insertRegion_wf [OF assms(1), of x] r that by (simp add: region_ok_def)
    moreover have "{va ..< ?stop} \<inter> cover (mm_head mm) = {}" if "\<not> fixed"
      using r that by (fastforce simp: cover_def)
    ultimately show ?thesis using r run by (cases fixed) simp_all
  qed (simp add: run)
qed

theorem allocVA_free_range_witness:
  "allocVA 0 2 False demo_mmap = (0x3EFFFFE000, demo_mmap\<lparr>mm_nextHint := 0x3EFFFFE000\<rparr>)
   \<and> {0x3EFFFFE000 ..< 0x3EFFFFE000 + 2 * PAGE_SIZE} \<inter> cover (mm_head demo_mmap) = {}"
proof -
  have run: "allocVA 0 2 False demo_mmap = (0x3EFFFFE000, demo_mmap\<lparr>mm_nextHint := 0x3EFFFFE000\<rparr>)"
    by (simp add: allocVA_def demo_mmap_def demo_region_def MMAP_TOP_def MMAP_BASE_def PAGE_SIZE_def
        allocVA_loop.simps isFree_def Let_def)
  have "regions_wf (mm_head demo_mmap)" using demo_region_ok by (simp add: demo_mmap_def)
  moreover have "mm_nextHint demo_mmap \<le> MMAP_TOP" by (simp add: demo_mmap_def)
  ultimately have "{0x3EFFFFE000 ..< 0x3EFFFFE000 + 2 * PAGE_SIZE} \<inter> cover (mm_head demo_mmap) = {}"
    using allocVA_free_range [of demo_mmap 2 0 False] run
    by (simp add: PAGE_SIZE_def MMAP_TOP_def MMAP_FAILED_def)
  with run show ?thesis by blast
qed

end
