(* ===== verification/Sched.thy ===== *)
theory Sched
  imports Pmt
begin

text \<open>
  Spin locks, process control blocks, the ready queue and the sleep queue
  (\<^verbatim>\<open>kernel/proc/sync/lock.cpp\<close>, \<^verbatim>\<open>kernel/proc/pcb.cpp\<close>, \<^verbatim>\<open>kernel/proc/list/proclist.cpp\<close>,
  \<^verbatim>\<open>kernel/proc/scheduler.cpp\<close>). The kernel runs on one hart and a held lock has
  interrupts disabled, so a second \<^verbatim>\<open>acquire\<close> of a held lock spins for ever: it is the
  outcome \<open>None\<close>. Process control blocks live in a store indexed by their address and are
  linked through their own fields, one per queue.
\<close>

section \<open>Locks\<close>

record Lock =
  m_locked :: bool
  m_pie :: bool

definition Lock_ctor :: Lock where
  "Lock_ctor = \<lparr>m_locked = False, m_pie = False\<rparr>"

text \<open>The second argument is \<^verbatim>\<open>SSTATUS_SIE\<close>, the interrupt enable bit of the hart.\<close>

definition acquire :: "Lock \<Rightarrow> bool \<Rightarrow> (Lock \<times> bool) option" where
  "acquire l sie = (if m_locked l then None else Some (\<lparr>m_locked = True, m_pie = sie\<rparr>, False))"

definition release :: "Lock \<Rightarrow> bool \<Rightarrow> Lock \<times> bool" where
  "release l sie = (l\<lparr>m_locked := False\<rparr>, sie \<or> m_pie l)"

section \<open>Process control blocks and the state of the scheduler\<close>

type_synonym pcbp = nat
type_synonym semp = nat

datatype ProcState = READY | RUNNING | BLOCKED | SLEEPING | STOPPED | ZOMBIE

definition DEFAULT_TIME_SLICE :: u64 where "DEFAULT_TIME_SLICE = 2"
definition KERNEL_STACK_SIZE :: u64 where "KERNEL_STACK_SIZE = 4096 * 4"

record PCB =
  m_state :: ProcState
  m_pmt :: u64
  m_next :: "pcbp option"
  m_nextSleep :: "pcbp option"
  m_semNext :: "pcbp option"
  m_futexNext :: "pcbp option"
  m_waitingOn :: "semp option"
  m_waitingOnFutexKey :: u64
  m_relativeSleepTime :: u64
  m_usermode :: bool
  m_kstack :: u64
  tf_kstack :: u64

record ProcList =
  pl_head :: "pcbp option"
  pl_tail :: "pcbp option"
  pl_lock :: Lock

definition ProcList_ctor :: ProcList where
  "ProcList_ctor = \<lparr>pl_head = None, pl_tail = None, pl_lock = Lock_ctor\<rparr>"

text \<open>
  The hart (its interrupt enable bit, \<^verbatim>\<open>sscratch\<close> and the active page table), the process
  control blocks, and the static members of \<^verbatim>\<open>PCB\<close> and \<^verbatim>\<open>Scheduler\<close>.
\<close>

record kstate =
  k_sie :: bool
  k_sscratch :: u64
  k_satp :: u64
  k_pcb :: "pcbp \<Rightarrow> PCB"
  s_running :: pcbp
  s_timeSliceCounter :: u64
  m_list :: "ProcList option"
  m_sleepHead :: "pcbp option"
  m_sleepTail :: "pcbp option"
  k_lock :: Lock

definition upd_pcb :: "pcbp \<Rightarrow> (PCB \<Rightarrow> PCB) \<Rightarrow> 'k kstate_scheme \<Rightarrow> 'k kstate_scheme" where
  "upd_pcb p f k = k\<lparr>k_pcb := (k_pcb k)(p := f (k_pcb k p))\<rparr>"

definition setState :: "pcbp \<Rightarrow> ProcState \<Rightarrow> 'k kstate_scheme \<Rightarrow> 'k kstate_scheme" where
  "setState p st = upd_pcb p (m_state_update (\<lambda>_. st))"

section \<open>The ready list\<close>

definition pl_append :: "pcbp \<Rightarrow> ProcList \<times> 'k kstate_scheme \<Rightarrow> ProcList \<times> 'k kstate_scheme" where
  "pl_append p lk =
     (let (l, k) = lk; k1 = upd_pcb p (m_next_update (\<lambda>_. None)) k in
      case pl_tail l of
        None \<Rightarrow> (l\<lparr>pl_head := Some p, pl_tail := Some p\<rparr>, k1)
      | Some t \<Rightarrow> (l\<lparr>pl_tail := Some p\<rparr>, upd_pcb t (m_next_update (\<lambda>_. Some p)) k1))"

definition pl_take :: "ProcList \<times> 'k kstate_scheme \<Rightarrow> pcbp option \<times> ProcList \<times> 'k kstate_scheme" where
  "pl_take lk =
     (let (l, k) = lk in
      case pl_head l of
        None \<Rightarrow> (None, lk)
      | Some p \<Rightarrow>
          let h = m_next (k_pcb k p); l1 = l\<lparr>pl_head := h\<rparr>;
              l2 = (if h = None then l1\<lparr>pl_tail := None\<rparr> else l1) in
          (Some p, l2, upd_pcb p (m_next_update (\<lambda>_. None)) k))"

definition lock_list :: "ProcList \<times> 'k kstate_scheme \<Rightarrow> (ProcList \<times> 'k kstate_scheme) run" where
  "lock_list lk =
     (let (l, k) = lk in
      case acquire (pl_lock l) (k_sie k) of
        None \<Rightarrow> None
      | Some (lk', sie) \<Rightarrow> Some (Inr (l\<lparr>pl_lock := lk'\<rparr>, k\<lparr>k_sie := sie\<rparr>)))"

definition unlock_list :: "ProcList \<times> 'k kstate_scheme \<Rightarrow> ProcList \<times> 'k kstate_scheme" where
  "unlock_list lk =
     (let (l, k) = lk; (lk', sie) = release (pl_lock l) (k_sie k) in (l\<lparr>pl_lock := lk'\<rparr>, k\<lparr>k_sie := sie\<rparr>))"

definition ProcList_put ::
  "pcbp option \<Rightarrow> ProcList \<times> 'k kstate_scheme \<Rightarrow> (ProcList \<times> 'k kstate_scheme) run" where
  "ProcList_put pcb lk =
     (case pcb of
        None \<Rightarrow> Some (Inr lk)
      | Some p \<Rightarrow> bindR (lock_list lk) (\<lambda>lk1. Some (Inr (unlock_list (pl_append p lk1)))))"

definition ProcList_get ::
  "ProcList \<times> 'k kstate_scheme \<Rightarrow> (pcbp option \<times> ProcList \<times> 'k kstate_scheme) run" where
  "ProcList_get lk =
     bindR (lock_list lk) (\<lambda>lk1. case pl_take lk1 of (r, lk2) \<Rightarrow> Some (Inr (r, unlock_list lk2)))"

section \<open>The scheduler\<close>

definition lock_sched :: "'k kstate_scheme \<Rightarrow> 'k kstate_scheme run" where
  "lock_sched k =
     (case acquire (k_lock k) (k_sie k) of
        None \<Rightarrow> None
      | Some (l, sie) \<Rightarrow> Some (Inr (k\<lparr>k_lock := l, k_sie := sie\<rparr>)))"

definition unlock_sched :: "'k kstate_scheme \<Rightarrow> 'k kstate_scheme" where
  "unlock_sched k = (case release (k_lock k) (k_sie k) of (l, sie) \<Rightarrow> k\<lparr>k_lock := l, k_sie := sie\<rparr>)"

definition Scheduler_put :: "pcbp option \<Rightarrow> 'k kstate_scheme \<Rightarrow> 'k kstate_scheme run" where
  "Scheduler_put pcb k =
     bindR (lock_sched k) (\<lambda>k1.
       let l = (case m_list k1 of None \<Rightarrow> ProcList_ctor | Some l \<Rightarrow> l) in
       bindR (ProcList_put pcb (l, k1)) (\<lambda>(l1, k2). Some (Inr (unlock_sched (k2\<lparr>m_list := Some l1\<rparr>)))))"

definition Scheduler_get :: "'k kstate_scheme \<Rightarrow> (pcbp option \<times> 'k kstate_scheme) run" where
  "Scheduler_get k =
     bindR (lock_sched k) (\<lambda>k1.
       case m_list k1 of
         None \<Rightarrow> Some (Inr (None, unlock_sched k1))
       | Some l \<Rightarrow>
           bindR (ProcList_get (l, k1)) (\<lambda>(r, l1, k2). Some (Inr (r, unlock_sched (k2\<lparr>m_list := Some l1\<rparr>)))))"

definition Scheduler_empty :: "'k kstate_scheme \<Rightarrow> bool" where
  "Scheduler_empty k = (case m_list k of None \<Rightarrow> True | Some l \<Rightarrow> pl_head l = None)"

definition getSleep :: "'k kstate_scheme \<Rightarrow> pcbp option \<times> 'k kstate_scheme" where
  "getSleep k =
     (case m_sleepHead k of
        None \<Rightarrow> (None, k)
      | Some p \<Rightarrow>
          let h = m_nextSleep (k_pcb k p); k1 = k\<lparr>m_sleepHead := h\<rparr>;
              k2 = (if h = None then k1\<lparr>m_sleepTail := None\<rparr> else k1) in
          (Some p, upd_pcb p (m_nextSleep_update (\<lambda>_. None)) k2))"

text \<open>The search of \<^verbatim>\<open>putSleep\<close>: the sleeper to insert before, the one to insert behind, and the
  time the sleepers in front take.\<close>

partial_function (option) putSleep_find ::
  "(pcbp \<Rightarrow> PCB) \<Rightarrow> u64 \<Rightarrow> pcbp option \<Rightarrow> pcbp option \<Rightarrow> u64 \<Rightarrow> (pcbp option \<times> pcbp option \<times> u64) run" where
  "putSleep_find h sleepTime cur prev elapsed =
     (case cur of
        None \<Rightarrow> Some (Inr (cur, prev, elapsed))
      | Some c \<Rightarrow>
          if elapsed + m_relativeSleepTime (h c) \<le> sleepTime
          then putSleep_find h sleepTime (m_nextSleep (h c)) cur (elapsed + m_relativeSleepTime (h c))
          else Some (Inr (cur, prev, elapsed)))"

definition putSleep_link ::
  "pcbp \<Rightarrow> u64 \<Rightarrow> pcbp option \<times> pcbp option \<times> u64 \<Rightarrow> 'k kstate_scheme \<Rightarrow> 'k kstate_scheme" where
  "putSleep_link pcb sleepTime at k =
     (let (cur, prev, elapsed) = at; d = sleepTime - elapsed;
          k1 = upd_pcb pcb (\<lambda>x. x\<lparr>m_relativeSleepTime := d, m_nextSleep := cur\<rparr>) k;
          k2 = (case cur of None \<Rightarrow> k1
                | Some c \<Rightarrow> upd_pcb c (\<lambda>x. x\<lparr>m_relativeSleepTime := m_relativeSleepTime x - d\<rparr>) k1);
          k3 = (case prev of None \<Rightarrow> k2\<lparr>m_sleepHead := Some pcb\<rparr>
                | Some q \<Rightarrow> upd_pcb q (m_nextSleep_update (\<lambda>_. Some pcb)) k2) in
      if cur = None then k3\<lparr>m_sleepTail := Some pcb\<rparr> else k3)"

definition putSleep :: "pcbp \<Rightarrow> u64 \<Rightarrow> 'k kstate_scheme \<Rightarrow> 'k kstate_scheme run" where
  "putSleep pcb sleepTime k =
     bindR (lock_sched k) (\<lambda>k1.
       if m_sleepHead k1 = None then
         Some (Inr (unlock_sched (upd_pcb pcb (\<lambda>x. x\<lparr>m_relativeSleepTime := sleepTime, m_nextSleep := None\<rparr>)
           (k1\<lparr>m_sleepHead := Some pcb, m_sleepTail := Some pcb\<rparr>))))
       else
         bindR (putSleep_find (k_pcb k1) sleepTime (m_sleepHead k1) None 0) (\<lambda>at.
           Some (Inr (unlock_sched (putSleep_link pcb sleepTime at k1)))))"

partial_function (option) awake_loop :: "'k kstate_scheme \<Rightarrow> 'k kstate_scheme run" where
  "awake_loop k =
     (case m_sleepHead k of
        None \<Rightarrow> Some (Inr k)
      | Some h \<Rightarrow>
          if m_relativeSleepTime (k_pcb k h) = 0 then
            (case getSleep k of (_, k1) \<Rightarrow>
               bindR (Scheduler_put (Some h) (unlock_sched (setState h READY k1))) (\<lambda>k2.
                 bindR (lock_sched k2) awake_loop))
          else Some (Inr k))"

definition awake :: "'k kstate_scheme \<Rightarrow> 'k kstate_scheme run" where
  "awake k =
     bindR (lock_sched k) (\<lambda>k1.
       case m_sleepHead k1 of
         None \<Rightarrow> Some (Inr (unlock_sched k1))
       | Some h \<Rightarrow>
           bindR (awake_loop (upd_pcb h (\<lambda>x. x\<lparr>m_relativeSleepTime := m_relativeSleepTime x - 1\<rparr>) k1))
             (\<lambda>k2. Some (Inr (unlock_sched k2))))"

partial_function (option) wakeUp_find ::
  "(pcbp \<Rightarrow> PCB) \<Rightarrow> pcbp \<Rightarrow> pcbp option \<Rightarrow> pcbp option \<Rightarrow> (pcbp option \<times> pcbp option) run" where
  "wakeUp_find h pcb cur prev =
     (case cur of
        None \<Rightarrow> Some (Inr (cur, prev))
      | Some c \<Rightarrow> if c \<noteq> pcb then wakeUp_find h pcb (m_nextSleep (h c)) cur else Some (Inr (cur, prev)))"

definition wakeUp_unlink :: "pcbp \<Rightarrow> pcbp option \<Rightarrow> 'k kstate_scheme \<Rightarrow> 'k kstate_scheme" where
  "wakeUp_unlink pcb prev k =
     (let nx = m_nextSleep (k_pcb k pcb); rel = m_relativeSleepTime (k_pcb k pcb) in
      case prev of
        None \<Rightarrow>
          (case nx of
             None \<Rightarrow> k\<lparr>m_sleepHead := None, m_sleepTail := None\<rparr>
           | Some h \<Rightarrow> upd_pcb h (\<lambda>x. x\<lparr>m_relativeSleepTime := m_relativeSleepTime x + rel\<rparr>) (k\<lparr>m_sleepHead := nx\<rparr>))
      | Some q \<Rightarrow>
          if nx = None then upd_pcb q (m_nextSleep_update (\<lambda>_. None)) (k\<lparr>m_sleepTail := Some q\<rparr>)
          else upd_pcb pcb (\<lambda>x. x\<lparr>m_relativeSleepTime := m_relativeSleepTime x + rel\<rparr>)
                 (upd_pcb q (m_nextSleep_update (\<lambda>_. nx)) k))"

definition wakeUp :: "pcbp \<Rightarrow> 'k kstate_scheme \<Rightarrow> 'k kstate_scheme run" where
  "wakeUp pcb k =
     bindR (lock_sched k) (\<lambda>k1.
       bindR (wakeUp_find (k_pcb k1) pcb (m_sleepHead k1) None) (\<lambda>(cur, prev).
         case cur of
           None \<Rightarrow> Some (Inr k1)
         | Some _ \<Rightarrow>
             Some (Inr (unlock_sched (upd_pcb pcb (\<lambda>x. x\<lparr>m_nextSleep := None, m_relativeSleepTime := 0\<rparr>)
               (wakeUp_unlink pcb prev k1))))))"

section \<open>Dispatching\<close>

partial_function (option) next_ready :: "'k kstate_scheme \<Rightarrow> (pcbp option \<times> 'k kstate_scheme) run" where
  "next_ready k =
     bindR (Scheduler_get k) (\<lambda>(n, k1).
       case n of
         None \<Rightarrow> Some (Inr (None, k1))
       | Some p \<Rightarrow> if m_state (k_pcb k1 p) \<noteq> READY then next_ready k1 else Some (Inr (n, k1)))"

text \<open>
  The state that \<^verbatim>\<open>switchContext\<close> hands to the chosen process. The registers it saves and
  loads are not part of the state: from here on the code of that process runs.
\<close>

definition switch_to :: "pcbp \<Rightarrow> 'k kstate_scheme \<Rightarrow> 'k kstate_scheme" where
  "switch_to p k =
     (let k1 = setState p RUNNING (k\<lparr>s_running := p\<rparr>);
          k2 = (if m_pmt (k_pcb k1 p) \<noteq> 0 then k1\<lparr>k_satp := activate (m_pmt (k_pcb k1 p))\<rparr> else k1);
          top = m_kstack (k_pcb k2 p) + KERNEL_STACK_SIZE in
      if m_usermode (k_pcb k2 p) then upd_pcb p (tf_kstack_update (\<lambda>_. top)) (k2\<lparr>k_sscratch := top\<rparr>)
      else k2)"

definition dispatch :: "'k kstate_scheme \<Rightarrow> 'k kstate_scheme run" where
  "dispatch k =
     (if Scheduler_empty k \<and> m_state (k_pcb k (s_running k)) = RUNNING then Some (Inr k)
      else
        let k1 = k\<lparr>k_sie := False, s_timeSliceCounter := 0\<rparr>; current = s_running k1 in
        bindR (if m_state (k_pcb k1 current) = RUNNING
               then Scheduler_put (Some current) (setState current READY k1)
               else Some (Inr k1)) (\<lambda>k2.
        bindR (next_ready k2) (\<lambda>(n, k3).
          case n of
            None \<Rightarrow> Some (Inl (Panic ''PCB::dispatch(): No ready processes''))
          | Some p \<Rightarrow> Some (Inr (switch_to p k3)))))"

text \<open>\<^verbatim>\<open>yield\<close> saves \<^verbatim>\<open>sstatus\<close> and \<^verbatim>\<open>sepc\<close> around \<^verbatim>\<open>dispatch\<close>; the thread that called it
  continues with \<open>yield_resume\<close> when it is dispatched again.\<close>

definition yield :: "'k kstate_scheme \<Rightarrow> 'k kstate_scheme run" where
  "yield k = dispatch k"

definition yield_resume :: "bool \<Rightarrow> 'k kstate_scheme \<Rightarrow> 'k kstate_scheme" where
  "yield_resume sie k = k\<lparr>k_sie := sie\<rparr>"

definition pcb_sleep :: "u64 \<Rightarrow> 'k kstate_scheme \<Rightarrow> 'k kstate_scheme run" where
  "pcb_sleep sleepTime k =
     bindR (putSleep (s_running k) sleepTime (setState (s_running k) SLEEPING k)) yield"

section \<open>Intrusive queues\<close>

text \<open>
  \<open>queue_of nx h t xs\<close>: the queue with head \<open>h\<close> and tail \<open>t\<close>, linked by \<open>nx\<close>, holds \<open>xs\<close>
  in order. The kernel writes the same push and pop three times, for the ready list, the
  waiters of a semaphore and the waiters of a futex; the locale is their common contract.
\<close>

definition queue_of :: "('p \<Rightarrow> 'p option) \<Rightarrow> 'p option \<Rightarrow> 'p option \<Rightarrow> 'p list \<Rightarrow> bool" where
  "queue_of nx h t xs \<longleftrightarrow> chain nx h xs \<and> t = nth_last 0 xs"

lemma nth_last_0: "nth_last 0 xs = (if xs = [] then None else Some (last xs))"
  by (cases xs rule: rev_cases) auto

lemma queue_of_Nil [simp]: "queue_of nx h t [] \<longleftrightarrow> h = None \<and> t = None"
  by (auto simp: queue_of_def)

lemma queue_of_head: "queue_of nx h t xs \<Longrightarrow> h = first_of xs"
  by (auto simp: queue_of_def dest: chain_first)

lemma queue_of_frame: "(\<And>x. x \<in> set xs \<Longrightarrow> nx x = nx' x) \<Longrightarrow> queue_of nx h t xs = queue_of nx' h t xs"
  by (simp add: queue_of_def cong: seg_cong)

locale intrusive_queue =
  fixes nx :: "'s \<Rightarrow> 'p \<Rightarrow> 'p option"
    and qhead :: "'s \<Rightarrow> 'p option"
    and qtail :: "'s \<Rightarrow> 'p option"
    and push :: "'p \<Rightarrow> 's \<Rightarrow> 's"
    and pop :: "'s \<Rightarrow> 'p option \<times> 's"
  assumes push_links: "nx (push p s) =
      (case qtail s of None \<Rightarrow> (nx s)(p := None) | Some t \<Rightarrow> (nx s)(p := None, t := Some p))"
    and push_head: "qhead (push p s) = (if qtail s = None then Some p else qhead s)"
    and push_tail: "qtail (push p s) = Some p"
    and pop_empty: "qhead s = None \<Longrightarrow> pop s = (None, s)"
    and pop_result: "qhead s = Some p \<Longrightarrow> fst (pop s) = Some p"
    and pop_links: "qhead s = Some p \<Longrightarrow> nx (snd (pop s)) = (nx s)(p := None)"
    and pop_head: "qhead s = Some p \<Longrightarrow> qhead (snd (pop s)) = nx s p"
    and pop_tail: "qhead s = Some p \<Longrightarrow> qtail (snd (pop s)) = (if nx s p = None then None else qtail s)"
begin

lemma push_queue:
  assumes "queue_of (nx s) (qhead s) (qtail s) xs" and "p \<notin> set xs"
  shows "queue_of (nx (push p s)) (qhead (push p s)) (qtail (push p s)) (xs @ [p])"
proof (cases "xs = []")
  case True
  with assms show ?thesis by (simp add: queue_of_def push_links push_head push_tail nth_last_0)
next
  case False
  then have t: "qtail s = Some (last xs)" and c: "chain (nx s) (qhead s) xs"
    using assms(1) by (auto simp: queue_of_def nth_last_0)
  show ?thesis
    using chain_snoc [OF c assms(2) False] by (simp add: queue_of_def push_links push_head push_tail t)
qed

lemma pop_queue:
  assumes "queue_of (nx s) (qhead s) (qtail s) (x # xs)"
  shows "fst (pop s) = Some x"
    and "queue_of (nx (snd (pop s))) (qhead (snd (pop s))) (qtail (snd (pop s))) xs"
proof -
  have c: "chain (nx s) (nx s x) xs" and h: "qhead s = Some x" and t: "qtail s = nth_last 0 (x # xs)"
    using assms by (auto simp: queue_of_def)
  show "fst (pop s) = Some x" by (rule pop_result [OF h])
  have "x \<notin> set xs" using c by (rule chain_head_fresh)
  then have "chain ((nx s)(x := None)) (nx s x) xs" using c by simp
  moreover have "(if nx s x = None then None else qtail s) = nth_last 0 xs"
    using t c by (cases xs) (auto simp: nth_last_0)
  ultimately show "queue_of (nx (snd (pop s))) (qhead (snd (pop s))) (qtail (snd (pop s))) xs"
    by (simp add: queue_of_def pop_links [OF h] pop_head [OF h] pop_tail [OF h])
qed

lemma pop_queue_Nil: "queue_of (nx s) (qhead s) (qtail s) [] \<Longrightarrow> pop s = (None, s)"
  by (simp add: pop_empty)

end

text \<open>Queues that can also drop a member in the middle.\<close>

locale removable_queue = intrusive_queue +
  fixes remove :: "'p \<Rightarrow> 's \<Rightarrow> 's"
  assumes remove_first: "queue_of (nx s) (qhead s) (qtail s) (p # xs) \<Longrightarrow>
      nx (remove p s) = (nx s)(p := None) \<and> qhead (remove p s) = nx s p \<and>
      qtail (remove p s) = (if nx s p = None then None else qtail s)"
    and remove_inner: "queue_of (nx s) (qhead s) (qtail s) (us @ [q, p] @ vs) \<Longrightarrow>
      nx (remove p s) = (nx s)(q := nx s p, p := None) \<and> qhead (remove p s) = qhead s \<and>
      qtail (remove p s) = (if qtail s = Some p then Some q else qtail s)"
begin

lemma remove_queue:
  assumes q: "queue_of (nx s) (qhead s) (qtail s) xs" and p: "p \<in> set xs"
  shows "queue_of (nx (remove p s)) (qhead (remove p s)) (qtail (remove p s)) (remove1 p xs)"
proof -
  obtain us vs where xs: "xs = us @ p # vs" using p by (auto simp: in_set_conv_decomp)
  have d: "distinct xs" using q by (auto simp: queue_of_def dest: chain_distinct)
  then have r: "remove1 p xs = us @ vs" using xs by (simp add: remove1_append)
  show ?thesis
  proof (cases us rule: rev_cases)
    case Nil
    have c: "chain (nx s) (nx s p) vs" and t: "qtail s = nth_last 0 (p # vs)"
      using q by (auto simp: queue_of_def xs Nil)
    have "p \<notin> set vs" using d xs by simp
    moreover have "(if nx s p = None then None else qtail s) = nth_last 0 vs"
      using t c by (cases vs) (auto simp: nth_last_0)
    ultimately show ?thesis
      using remove_first [of s p vs] q c by (simp add: queue_of_def r xs Nil)
  next
    case (snoc ws w)
    have x2: "xs = ws @ [w, p] @ vs" using xs snoc by simp
    have q2: "queue_of (nx s) (qhead s) (qtail s) (ws @ [w, p] @ vs)" using q unfolding x2 .
    have "chain ((nx s)(w := nx s p, p := None)) (qhead s) (ws @ w # vs)"
      using q2 by (auto simp: queue_of_def intro: chain_unlink_frame)
    moreover have "(if qtail s = Some p then Some w else qtail s) = nth_last 0 (ws @ w # vs)"
      using q2 d x2 by (cases vs rule: rev_cases) (auto simp: queue_of_def nth_last_0)
    ultimately show ?thesis
      using remove_inner [OF q2] by (simp add: queue_of_def r snoc)
  qed
qed

end

interpretation ready_q: intrusive_queue
  "\<lambda>(l, k) p. m_next (k_pcb k p)" "\<lambda>(l, k). pl_head l" "\<lambda>(l, k). pl_tail l" pl_append pl_take
  by unfold_locales
    (auto simp: pl_append_def pl_take_def upd_pcb_def Let_def fun_eq_iff split: prod.splits option.splits)

section \<open>The ready list as a sequence\<close>

text \<open>
  \<open>sched_ready k xs\<close>: the scheduler's locks are free and the ready list holds \<open>xs\<close>.
  \<open>ready_frame k k'\<close>: the two states differ at most in the ready list and its links.
\<close>

definition sched_ready :: "'k kstate_scheme \<Rightarrow> pcbp list \<Rightarrow> bool" where
  "sched_ready k xs \<longleftrightarrow>
     \<not> m_locked (k_lock k) \<and>
     (case m_list k of
        None \<Rightarrow> xs = []
      | Some l \<Rightarrow> \<not> m_locked (pl_lock l) \<and>
                 queue_of (\<lambda>p. m_next (k_pcb k p)) (pl_head l) (pl_tail l) xs)"

definition unlinked :: "PCB \<Rightarrow> PCB" where
  "unlinked x = x\<lparr>m_next := None\<rparr>"

lemma unlinked_set [simp]: "unlinked (x\<lparr>m_next := n\<rparr>) = unlinked x"
  by (simp add: unlinked_def)

lemma unlinkedD:
  assumes "unlinked x = unlinked y"
  shows "m_state x = m_state y" "m_nextSleep x = m_nextSleep y" "m_semNext x = m_semNext y"
    "m_futexNext x = m_futexNext y" "m_relativeSleepTime x = m_relativeSleepTime y"
    "m_waitingOn x = m_waitingOn y" "m_waitingOnFutexKey x = m_waitingOnFutexKey y"
  using assms by (cases x; cases y; simp add: unlinked_def)+

definition ready_frame :: "'k kstate_scheme \<Rightarrow> 'k kstate_scheme \<Rightarrow> bool" where
  "ready_frame k k' \<longleftrightarrow>
     k' = k\<lparr>m_list := m_list k', k_pcb := k_pcb k', k_lock := k_lock k'\<rparr> \<and>
     (\<forall>q. unlinked (k_pcb k' q) = unlinked (k_pcb k q))"

lemma ready_frame_refl [simp]: "ready_frame k k"
  by (simp add: ready_frame_def)

lemma ready_frame_trans [trans]:
  assumes "ready_frame k k1" and "ready_frame k1 k2"
  shows "ready_frame k k2"
proof -
  have 1: "k1 = k\<lparr>m_list := m_list k1, k_pcb := k_pcb k1, k_lock := k_lock k1\<rparr>"
    and 2: "k2 = k1\<lparr>m_list := m_list k2, k_pcb := k_pcb k2, k_lock := k_lock k2\<rparr>"
    and 3: "\<forall>q. unlinked (k_pcb k2 q) = unlinked (k_pcb k q)"
    using assms by (simp_all add: ready_frame_def)
  have "k2 = k\<lparr>m_list := m_list k2, k_pcb := k_pcb k2, k_lock := k_lock k2\<rparr>"
    by (subst 2, subst 1) simp
  with 3 show ?thesis by (simp add: ready_frame_def)
qed

lemma ready_frame_upd:
  "(\<And>q. unlinked (pcb q) = unlinked (k_pcb k q)) \<Longrightarrow>
   ready_frame k (k\<lparr>m_list := ml, k_pcb := pcb, k_lock := l\<rparr>)"
  by (simp add: ready_frame_def)

lemma ready_frameD:
  assumes "ready_frame k k'"
  shows "m_state (k_pcb k' q) = m_state (k_pcb k q)"
    and "m_nextSleep (k_pcb k' q) = m_nextSleep (k_pcb k q)"
    and "m_semNext (k_pcb k' q) = m_semNext (k_pcb k q)"
    and "m_futexNext (k_pcb k' q) = m_futexNext (k_pcb k q)"
    and "m_relativeSleepTime (k_pcb k' q) = m_relativeSleepTime (k_pcb k q)"
    and "m_waitingOn (k_pcb k' q) = m_waitingOn (k_pcb k q)"
    and "s_running k' = s_running k" and "k_sie k' = k_sie k"
    and "m_sleepHead k' = m_sleepHead k" and "m_sleepTail k' = m_sleepTail k"
    and "kstate.more k' = kstate.more k"
proof -
  have u: "unlinked (k_pcb k' q) = unlinked (k_pcb k q)" using assms by (simp add: ready_frame_def)
  show "m_state (k_pcb k' q) = m_state (k_pcb k q)"
    "m_nextSleep (k_pcb k' q) = m_nextSleep (k_pcb k q)"
    "m_semNext (k_pcb k' q) = m_semNext (k_pcb k q)"
    "m_futexNext (k_pcb k' q) = m_futexNext (k_pcb k q)"
    "m_relativeSleepTime (k_pcb k' q) = m_relativeSleepTime (k_pcb k q)"
    "m_waitingOn (k_pcb k' q) = m_waitingOn (k_pcb k q)"
    using unlinkedD [OF u] by simp_all
  have k': "k' = k\<lparr>m_list := m_list k', k_pcb := k_pcb k', k_lock := k_lock k'\<rparr>"
    using assms by (simp add: ready_frame_def)
  show "s_running k' = s_running k" "k_sie k' = k_sie k"
    "m_sleepHead k' = m_sleepHead k" "m_sleepTail k' = m_sleepTail k"
    "kstate.more k' = kstate.more k"
    by (subst k', simp)+
qed

text \<open>The critical sections of the list touch only the links.\<close>

lemma pl_append_eq:
  "pl_append p (l, k) = (l\<lparr>pl_head := (if pl_tail l = None then Some p else pl_head l), pl_tail := Some p\<rparr>,
     k\<lparr>k_pcb := k_pcb (snd (pl_append p (l, k)))\<rparr>)"
  by (simp add: pl_append_def upd_pcb_def Let_def split: option.split)

lemma pl_append_unlinked: "unlinked (k_pcb (snd (pl_append p (l, k))) q) = unlinked (k_pcb k q)"
  by (simp add: pl_append_def upd_pcb_def Let_def split: option.split)

lemma pl_take_eq:
  "pl_take (l, k) = (pl_head l, fst (snd (pl_take (l, k))), k\<lparr>k_pcb := k_pcb (snd (snd (pl_take (l, k))))\<rparr>)"
  by (simp add: pl_take_def upd_pcb_def Let_def split: option.split)

lemma pl_take_lock: "pl_lock (fst (snd (pl_take (l, k)))) = pl_lock l"
  by (simp add: pl_take_def upd_pcb_def Let_def split: option.split)

lemma pl_take_unlinked: "unlinked (k_pcb (snd (snd (pl_take (l, k)))) q) = unlinked (k_pcb k q)"
  by (simp add: pl_take_def upd_pcb_def Let_def split: option.split)

definition the_list :: "'k kstate_scheme \<Rightarrow> ProcList" where
  "the_list k = (case m_list k of None \<Rightarrow> ProcList_ctor | Some l \<Rightarrow> l)"

lemma sched_readyD:
  assumes "sched_ready k xs"
  shows "\<not> m_locked (k_lock k)" and "\<not> m_locked (pl_lock (the_list k))"
    and "queue_of (\<lambda>p. m_next (k_pcb k p)) (pl_head (the_list k)) (pl_tail (the_list k)) xs"
  using assms by (auto simp: sched_ready_def the_list_def ProcList_ctor_def Lock_ctor_def split: option.splits)

lemma Scheduler_put_ready:
  assumes "sched_ready k xs" and "p \<notin> set xs"
  obtains k' where "Scheduler_put (Some p) k = Some (Inr k')" and "sched_ready k' (xs @ [p])"
    and "ready_frame k k'"
proof -
  define l where "l = the_list k"
  define l2 where "l2 = l\<lparr>pl_lock := \<lparr>m_locked = True, m_pie = False\<rparr>\<rparr>"
  define k1 where "k1 = k\<lparr>k_lock := \<lparr>m_locked = True, m_pie = k_sie k\<rparr>, k_sie := False\<rparr>"
  define ap where "ap = pl_append p (l2, k1)"
  note free = sched_readyD [OF assms(1), folded l_def]
  have q: "queue_of (\<lambda>q. m_next (k_pcb (snd ap) q)) (pl_head (fst ap)) (pl_tail (fst ap)) (xs @ [p])"
    using ready_q.push_queue [of "(l2, k1)" xs p] free(3) assms(2)
    by (simp add: ap_def l2_def k1_def case_prod_beta)
  have apk: "snd ap = k1\<lparr>k_pcb := k_pcb (snd ap)\<rparr>"
    unfolding ap_def by (subst pl_append_eq) simp
  have apl: "pl_lock (fst ap) = \<lparr>m_locked = True, m_pie = False\<rparr>"
    unfolding ap_def by (subst pl_append_eq) (simp add: l2_def)
  define k' where "k' = k\<lparr>m_list := Some ((fst ap)\<lparr>pl_lock := \<lparr>m_locked = False, m_pie = False\<rparr>\<rparr>),
    k_pcb := k_pcb (snd ap), k_lock := \<lparr>m_locked = False, m_pie = k_sie k\<rparr>\<rparr>"
  have ll: "lock_list (l, k1) = Some (Inr (l2, k1))"
    using free(2) by (simp add: lock_list_def acquire_def l2_def k1_def)
  have ul: "unlock_list ap = ((fst ap)\<lparr>pl_lock := \<lparr>m_locked = False, m_pie = False\<rparr>\<rparr>, snd ap)"
    using apk apl by (cases ap) (simp add: unlock_list_def release_def k1_def)
  have us: "unlock_sched ((snd ap)\<lparr>m_list := Some ((fst ap)\<lparr>pl_lock := \<lparr>m_locked = False, m_pie = False\<rparr>\<rparr>)\<rparr>) = k'"
    by (subst apk) (simp add: unlock_sched_def release_def k1_def k'_def)
  have lk: "lock_sched k = Some (Inr k1)"
    using free(1) by (simp add: lock_sched_def acquire_def k1_def)
  have "(case m_list k1 of None \<Rightarrow> ProcList_ctor | Some l \<Rightarrow> l) = l"
    by (simp add: k1_def l_def the_list_def)
  then have "Scheduler_put (Some p) k = Some (Inr k')"
    by (simp add: Scheduler_put_def lk ProcList_put_def ll ul us Let_def flip: ap_def)
  moreover have "sched_ready k' (xs @ [p])"
    using q by (simp add: sched_ready_def k'_def)
  moreover have "ready_frame k k'"
    unfolding k'_def using pl_append_unlinked [of p l2 k1]
    by (intro ready_frame_upd) (simp add: ap_def k1_def)
  ultimately show thesis by (rule that)
qed

lemma Scheduler_get_ready:
  assumes "sched_ready k xs"
  obtains k' where "Scheduler_get k = Some (Inr (first_of xs, k'))" and "sched_ready k' (tl xs)"
    and "ready_frame k k'"
proof (cases "m_list k")
  case None
  let ?k' = "k\<lparr>m_list := None, k_pcb := k_pcb k, k_lock := \<lparr>m_locked = False, m_pie = k_sie k\<rparr>\<rparr>"
  have "?k' = k\<lparr>k_lock := \<lparr>m_locked = False, m_pie = k_sie k\<rparr>\<rparr>" using None by (cases k) simp
  then have "Scheduler_get k = Some (Inr (first_of xs, ?k'))" and "sched_ready ?k' (tl xs)"
    using assms None
    by (auto simp: Scheduler_get_def lock_sched_def acquire_def unlock_sched_def release_def sched_ready_def)
  moreover have "ready_frame k ?k'" by (rule ready_frame_upd) simp
  ultimately show thesis by (rule that)
next
  case (Some l)
  define l2 where "l2 = l\<lparr>pl_lock := \<lparr>m_locked = True, m_pie = False\<rparr>\<rparr>"
  define k1 where "k1 = k\<lparr>k_lock := \<lparr>m_locked = True, m_pie = k_sie k\<rparr>, k_sie := False\<rparr>"
  define tk where "tk = snd (pl_take (l2, k1))"
  have free: "\<not> m_locked (k_lock k)" "\<not> m_locked (pl_lock l)"
    "queue_of (\<lambda>p. m_next (k_pcb k p)) (pl_head l) (pl_tail l) xs"
    using assms Some by (simp_all add: sched_ready_def)
  have q: "queue_of (\<lambda>q. m_next (k_pcb (snd tk) q)) (pl_head (fst tk)) (pl_tail (fst tk)) (tl xs)"
  proof (cases xs)
    case Nil
    then show ?thesis using ready_q.pop_queue_Nil [of "(l2, k1)"] free(3)
      by (simp add: tk_def l2_def k1_def)
  next
    case (Cons x ys)
    then show ?thesis using ready_q.pop_queue(2) [of "(l2, k1)" x ys] free(3)
      by (simp add: tk_def l2_def k1_def case_prod_beta)
  qed
  have hd: "pl_head l2 = first_of xs" using queue_of_head [OF free(3)] by (simp add: l2_def)
  have tke: "pl_take (l2, k1) = (first_of xs, tk)" unfolding tk_def
    by (subst (1 2) pl_take_eq) (simp add: hd)
  have tkk: "snd tk = k1\<lparr>k_pcb := k_pcb (snd tk)\<rparr>"
    unfolding tk_def by (subst pl_take_eq) simp
  have tkl: "pl_lock (fst tk) = \<lparr>m_locked = True, m_pie = False\<rparr>"
    unfolding tk_def by (simp add: pl_take_lock l2_def)
  define k' where "k' = k\<lparr>m_list := Some ((fst tk)\<lparr>pl_lock := \<lparr>m_locked = False, m_pie = False\<rparr>\<rparr>),
    k_pcb := k_pcb (snd tk), k_lock := \<lparr>m_locked = False, m_pie = k_sie k\<rparr>\<rparr>"
  have ll: "lock_list (l, k1) = Some (Inr (l2, k1))"
    using free(2) by (simp add: lock_list_def acquire_def l2_def k1_def)
  have ul: "unlock_list tk = ((fst tk)\<lparr>pl_lock := \<lparr>m_locked = False, m_pie = False\<rparr>\<rparr>, snd tk)"
    using tkk tkl by (cases tk) (simp add: unlock_list_def release_def k1_def)
  have us: "unlock_sched ((snd tk)\<lparr>m_list := Some ((fst tk)\<lparr>pl_lock := \<lparr>m_locked = False, m_pie = False\<rparr>\<rparr>)\<rparr>) = k'"
    by (subst tkk) (simp add: unlock_sched_def release_def k1_def k'_def)
  have lk: "lock_sched k = Some (Inr k1)"
    using free(1) by (simp add: lock_sched_def acquire_def k1_def)
  have "m_list k1 = Some l" using Some by (simp add: k1_def)
  then have "Scheduler_get k = Some (Inr (first_of xs, k'))"
    by (simp add: Scheduler_get_def lk ProcList_get_def ll tke ul us)
  moreover have "sched_ready k' (tl xs)" using q by (simp add: sched_ready_def k'_def)
  moreover have "ready_frame k k'"
    unfolding k'_def using pl_take_unlinked [of l2 k1]
    by (intro ready_frame_upd) (simp add: tk_def k1_def)
  ultimately show thesis by (rule that)
qed

lemma next_ready_some:
  assumes "sched_ready k (us @ p # vs)" and "\<And>u. u \<in> set us \<Longrightarrow> m_state (k_pcb k u) \<noteq> READY"
    and "m_state (k_pcb k p) = READY"
  obtains k' where "next_ready k = Some (Inr (Some p, k'))" and "sched_ready k' vs" and "ready_frame k k'"
  using assms
proof (induction us arbitrary: k thesis)
  case Nil
  obtain k1 where g: "Scheduler_get k = Some (Inr (Some p, k1))" "sched_ready k1 vs" "ready_frame k k1"
    using Scheduler_get_ready [OF Nil.prems(2)] by auto
  then have "next_ready k = Some (Inr (Some p, k1))"
    using Nil.prems(4) by (simp add: next_ready.simps ready_frameD(1))
  with g(2,3) show ?case by (intro Nil.prems(1))
next
  case (Cons u us)
  obtain k1 where g: "Scheduler_get k = Some (Inr (Some u, k1))" "sched_ready k1 (us @ p # vs)" "ready_frame k k1"
    using Scheduler_get_ready [OF Cons.prems(2)] by auto
  have "m_state (k_pcb k1 u) \<noteq> READY" using Cons.prems(3) by (simp add: ready_frameD(1) [OF g(3)])
  then have n: "next_ready k = next_ready k1" using g(1) by (subst next_ready.simps) simp
  obtain k2 where "next_ready k1 = Some (Inr (Some p, k2))" "sched_ready k2 vs" "ready_frame k1 k2"
    using Cons.IH [OF _ g(2)] Cons.prems(3,4) by (auto simp: ready_frameD(1) [OF g(3)])
  then show ?case using Cons.prems(1) [of k2] n ready_frame_trans [OF g(3)] by simp
qed

lemma next_ready_none:
  assumes "sched_ready k us" and "\<And>u. u \<in> set us \<Longrightarrow> m_state (k_pcb k u) \<noteq> READY"
  obtains k' where "next_ready k = Some (Inr (None, k'))" and "sched_ready k' []" and "ready_frame k k'"
  using assms
proof (induction us arbitrary: k thesis)
  case Nil
  obtain k1 where g: "Scheduler_get k = Some (Inr (None, k1))" "sched_ready k1 []" "ready_frame k k1"
    using Scheduler_get_ready [OF Nil.prems(2)] by auto
  then have "next_ready k = Some (Inr (None, k1))" by (simp add: next_ready.simps)
  with g(2,3) show ?case by (intro Nil.prems(1))
next
  case (Cons u us)
  obtain k1 where g: "Scheduler_get k = Some (Inr (Some u, k1))" "sched_ready k1 us" "ready_frame k k1"
    using Scheduler_get_ready [OF Cons.prems(2)] by auto
  have "m_state (k_pcb k1 u) \<noteq> READY" using Cons.prems(3) by (simp add: ready_frameD(1) [OF g(3)])
  then have n: "next_ready k = next_ready k1" using g(1) by (subst next_ready.simps) simp
  obtain k2 where "next_ready k1 = Some (Inr (None, k2))" "sched_ready k2 []" "ready_frame k1 k2"
    using Cons.IH [OF _ g(2)] Cons.prems(3) by (auto simp: ready_frameD(1) [OF g(3)])
  then show ?case using Cons.prems(1) [of k2] n ready_frame_trans [OF g(3)] by simp
qed

lemma setState_simps [simp]:
  "k_pcb (setState p st k) q = (if q = p then k_pcb k q\<lparr>m_state := st\<rparr> else k_pcb k q)"
  "s_running (setState p st k) = s_running k" "k_lock (setState p st k) = k_lock k"
  "m_list (setState p st k) = m_list k" "k_sie (setState p st k) = k_sie k"
  "m_sleepHead (setState p st k) = m_sleepHead k" "m_sleepTail (setState p st k) = m_sleepTail k"
  "kstate.more (setState p st k) = kstate.more k"
  by (simp_all add: setState_def upd_pcb_def)

lemma sched_ready_cong:
  "k_lock k' = k_lock k \<Longrightarrow> m_list k' = m_list k \<Longrightarrow>
   (\<And>q. m_next (k_pcb k' q) = m_next (k_pcb k q)) \<Longrightarrow> sched_ready k' xs = sched_ready k xs"
  by (simp add: sched_ready_def split: option.split)

lemma sched_ready_setState [simp]: "sched_ready (setState p st k) xs = sched_ready k xs"
  by (rule sched_ready_cong) simp_all

lemma switch_to_simps [simp]:
  "s_running (switch_to p k) = p" "k_lock (switch_to p k) = k_lock k" "m_list (switch_to p k) = m_list k"
  "k_sie (switch_to p k) = k_sie k"
  "kstate.more (switch_to p k) = kstate.more k"
  "m_sleepHead (switch_to p k) = m_sleepHead k" "m_sleepTail (switch_to p k) = m_sleepTail k"
  "m_state (k_pcb (switch_to p k) q) = (if q = p then RUNNING else m_state (k_pcb k q))"
  "m_next (k_pcb (switch_to p k) q) = m_next (k_pcb k q)"
  "m_nextSleep (k_pcb (switch_to p k) q) = m_nextSleep (k_pcb k q)"
  "m_semNext (k_pcb (switch_to p k) q) = m_semNext (k_pcb k q)"
  "m_futexNext (k_pcb (switch_to p k) q) = m_futexNext (k_pcb k q)"
  "m_relativeSleepTime (k_pcb (switch_to p k) q) = m_relativeSleepTime (k_pcb k q)"
  by (simp_all add: switch_to_def Let_def upd_pcb_def setState_def)

lemma Scheduler_empty_ready: "sched_ready k xs \<Longrightarrow> Scheduler_empty k \<longleftrightarrow> xs = []"
  by (cases xs) (auto simp: sched_ready_def Scheduler_empty_def queue_of_def split: option.splits)

text \<open>
  What \<^verbatim>\<open>dispatch\<close> chooses from: the ready list, behind which a preempted process is put back.
\<close>

definition preempted :: "'k kstate_scheme \<Rightarrow> bool" where
  "preempted k \<longleftrightarrow> m_state (k_pcb k (s_running k)) = RUNNING"

definition runnable :: "'k kstate_scheme \<Rightarrow> pcbp \<Rightarrow> bool" where
  "runnable k q \<longleftrightarrow> m_state (k_pcb k q) = READY \<or> (preempted k \<and> q = s_running k)"

definition candidates :: "'k kstate_scheme \<Rightarrow> pcbp list \<Rightarrow> pcbp list" where
  "candidates k xs = dropWhile (\<lambda>q. \<not> runnable k q) (if preempted k then xs @ [s_running k] else xs)"

lemma dropWhile_split:
  "dropWhile P xs = p # vs \<Longrightarrow> \<exists>us. xs = us @ p # vs \<and> (\<forall>u \<in> set us. P u) \<and> \<not> P p"
  by (metis dropWhile_eq_Cons_conv set_takeWhileD takeWhile_dropWhile_id)

lemma dispatch_enter:
  assumes "sched_ready k xs" and "preempted k \<longrightarrow> s_running k \<notin> set xs" and "\<not> (xs = [] \<and> preempted k)"
  obtains k2 where
    "dispatch k = bindR (next_ready k2) (\<lambda>(n, k3). case n of
        None \<Rightarrow> Some (Inl (Panic ''PCB::dispatch(): No ready processes''))
      | Some p \<Rightarrow> Some (Inr (switch_to p k3)))"
    "sched_ready k2 (if preempted k then xs @ [s_running k] else xs)"
    "\<And>q. m_state (k_pcb k2 q) = (if preempted k \<and> q = s_running k then READY else m_state (k_pcb k q))"
    "\<And>q. m_semNext (k_pcb k2 q) = m_semNext (k_pcb k q)"
    "\<And>q. m_futexNext (k_pcb k2 q) = m_futexNext (k_pcb k q)"
    "kstate.more k2 = kstate.more k"
proof -
  let ?k1 = "k\<lparr>k_sie := False, s_timeSliceCounter := 0\<rparr>"
  have e: "\<not> (Scheduler_empty k \<and> m_state (k_pcb k (s_running k)) = RUNNING)"
    using assms(3) Scheduler_empty_ready [OF assms(1)] by (auto simp: preempted_def)
  have r1: "sched_ready ?k1 xs" using assms(1) by (simp add: sched_ready_def split: option.splits)
  show thesis
  proof (cases "preempted k")
    case True
    obtain k2 where k2: "Scheduler_put (Some (s_running k)) (setState (s_running k) READY ?k1) = Some (Inr k2)"
      "sched_ready k2 (xs @ [s_running k])" "ready_frame (setState (s_running k) READY ?k1) k2"
      using Scheduler_put_ready [of "setState (s_running k) READY ?k1" xs "s_running k"] r1 assms(2) True by auto
    show thesis
    proof (rule that)
      show "dispatch k = bindR (next_ready k2) (\<lambda>(n, k3). case n of
          None \<Rightarrow> Some (Inl (Panic ''PCB::dispatch(): No ready processes''))
        | Some p \<Rightarrow> Some (Inr (switch_to p k3)))"
        unfolding dispatch_def if_not_P [OF e] using True k2(1) by (simp add: Let_def preempted_def)
    qed (use True k2(2) ready_frameD [OF k2(3)] in auto)
  next
    case False
    show thesis
    proof (rule that)
      show "dispatch k = bindR (next_ready ?k1) (\<lambda>(n, k3). case n of
          None \<Rightarrow> Some (Inl (Panic ''PCB::dispatch(): No ready processes''))
        | Some p \<Rightarrow> Some (Inr (switch_to p k3)))"
        unfolding dispatch_def if_not_P [OF e] using False by (simp add: Let_def preempted_def)
    qed (use False r1 in auto)
  qed
qed

lemma dispatch_to:
  assumes "sched_ready k xs" and "preempted k \<longrightarrow> s_running k \<notin> set xs" and "\<not> (xs = [] \<and> preempted k)"
    and "candidates k xs = p # vs"
  obtains k' where "dispatch k = Some (Inr k')" "s_running k' = p" "sched_ready k' vs"
    "\<And>q. m_state (k_pcb k' q) = (if q = p then RUNNING
       else if preempted k \<and> q = s_running k then READY else m_state (k_pcb k q))"
    "\<And>q. m_semNext (k_pcb k' q) = m_semNext (k_pcb k q)"
    "\<And>q. m_futexNext (k_pcb k' q) = m_futexNext (k_pcb k q)"
    "kstate.more k' = kstate.more k"
proof -
  obtain k2 where k2:
    "dispatch k = bindR (next_ready k2) (\<lambda>(n, k3). case n of
        None \<Rightarrow> Some (Inl (Panic ''PCB::dispatch(): No ready processes''))
      | Some p \<Rightarrow> Some (Inr (switch_to p k3)))"
    "sched_ready k2 (if preempted k then xs @ [s_running k] else xs)"
    "\<And>q. m_state (k_pcb k2 q) = (if preempted k \<and> q = s_running k then READY else m_state (k_pcb k q))"
    "\<And>q. m_semNext (k_pcb k2 q) = m_semNext (k_pcb k q)"
    "\<And>q. m_futexNext (k_pcb k2 q) = m_futexNext (k_pcb k q)"
    "kstate.more k2 = kstate.more k"
    using dispatch_enter [OF assms(1-3)] by blast
  have rn: "runnable k q \<longleftrightarrow> m_state (k_pcb k2 q) = READY" for q by (auto simp: runnable_def k2(3))
  obtain us where us: "(if preempted k then xs @ [s_running k] else xs) = us @ p # vs"
    "\<forall>u \<in> set us. \<not> runnable k u" "runnable k p"
    using dropWhile_split [OF assms(4) [unfolded candidates_def]] by blast
  obtain k3 where k3: "next_ready k2 = Some (Inr (Some p, k3))" "sched_ready k3 vs" "ready_frame k2 k3"
    using next_ready_some [of k2 us p vs] k2(2) us by (auto simp: rn)
  show thesis
  proof (rule that)
    show "dispatch k = Some (Inr (switch_to p k3))" by (simp add: k2(1) k3(1))
    show "sched_ready (switch_to p k3) vs"
      using k3(2) by (subst sched_ready_cong [of _ k3]) simp_all
  qed (auto simp: ready_frameD [OF k3(3)] k2)
qed

text \<open>
  C7: \<^verbatim>\<open>PCB::dispatch\<close> keeps the running process when it can run and nothing else is ready.
  Otherwise it puts a preempted process behind the ready list and runs the first process of the
  list that is \<^verbatim>\<open>READY\<close>, dropping those in front of it that are not; the rest of the list and
  the state of every other process stay as they are. It panics exactly when no process is left to run.
\<close>

theorem dispatch_runs_first_ready:
  assumes "sched_ready k xs" and "preempted k \<longrightarrow> s_running k \<notin> set xs"
  shows "if xs = [] \<and> preempted k then dispatch k = Some (Inr k)
         else case candidates k xs of
           [] \<Rightarrow> dispatch k = Some (Inl (Panic ''PCB::dispatch(): No ready processes''))
         | p # vs \<Rightarrow> \<exists>k'. dispatch k = Some (Inr k') \<and> s_running k' = p \<and> sched_ready k' vs \<and>
             (\<forall>q. m_state (k_pcb k' q) = (if q = p then RUNNING
                else if preempted k \<and> q = s_running k then READY else m_state (k_pcb k q)))"
proof (cases "xs = [] \<and> preempted k")
  case True
  then show ?thesis
    using Scheduler_empty_ready [OF assms(1)] by (simp add: dispatch_def preempted_def)
next
  case False
  show ?thesis
  proof (cases "candidates k xs")
    case (Cons p vs)
    obtain k' where "dispatch k = Some (Inr k')" "s_running k' = p" "sched_ready k' vs"
      "\<And>q. m_state (k_pcb k' q) = (if q = p then RUNNING
         else if preempted k \<and> q = s_running k then READY else m_state (k_pcb k q))"
      by (rule dispatch_to [OF assms False Cons]) (rule that; assumption)
    then show ?thesis unfolding if_not_P [OF False] Cons list.case by blast
  next
    case Nil
    obtain k2 where k2:
      "dispatch k = bindR (next_ready k2) (\<lambda>(n, k3). case n of
          None \<Rightarrow> Some (Inl (Panic ''PCB::dispatch(): No ready processes''))
        | Some p \<Rightarrow> Some (Inr (switch_to p k3)))"
      "sched_ready k2 (if preempted k then xs @ [s_running k] else xs)"
      "\<And>q. m_state (k_pcb k2 q) = (if preempted k \<and> q = s_running k then READY else m_state (k_pcb k q))"
      by (rule dispatch_enter [OF assms False]) (rule that; assumption)
    have "m_state (k_pcb k2 u) \<noteq> READY" if "u \<in> set (if preempted k then xs @ [s_running k] else xs)" for u
      using that Nil unfolding candidates_def dropWhile_eq_Nil_conv by (auto simp: runnable_def k2(3))
    then obtain k3 where "next_ready k2 = Some (Inr (None, k3))"
      using next_ready_none [OF k2(2)] by blast
    then show ?thesis using False Nil by (simp add: k2(1))
  qed
qed

section \<open>The sleep queue as a sequence of deadlines\<close>

lemma first_of_None [simp]: "first_of xs = None \<longleftrightarrow> xs = []"
  by (cases xs) auto

text \<open>
  The queue stores for each sleeper the ticks that follow the sleeper in front of it. Its
  meaning is the sequence of sleepers with the ticks each of them still has to wait.
\<close>

primrec deltas :: "(pcbp \<Rightarrow> PCB) \<Rightarrow> nat \<Rightarrow> (pcbp \<times> nat) list \<Rightarrow> bool" where
  "deltas h e [] \<longleftrightarrow> True"
| "deltas h e (x # xs) \<longleftrightarrow>
     e \<le> snd x \<and> unat (m_relativeSleepTime (h (fst x))) = snd x - e \<and> deltas h (snd x) xs"

definition sleepers :: "'k kstate_scheme \<Rightarrow> (pcbp \<times> nat) list \<Rightarrow> bool" where
  "sleepers k xs \<longleftrightarrow>
     queue_of (\<lambda>p. m_nextSleep (k_pcb k p)) (m_sleepHead k) (m_sleepTail k) (map fst xs) \<and>
     deltas (k_pcb k) 0 xs \<and> (\<forall>x \<in> set xs. snd x < 2 ^ 64)"

definition sleep_insert :: "pcbp \<Rightarrow> nat \<Rightarrow> (pcbp \<times> nat) list \<Rightarrow> (pcbp \<times> nat) list" where
  "sleep_insert p t xs = takeWhile (\<lambda>x. snd x \<le> t) xs @ (p, t) # dropWhile (\<lambda>x. snd x \<le> t) xs"

definition end_time :: "nat \<Rightarrow> (pcbp \<times> nat) list \<Rightarrow> nat" where
  "end_time e us = (if us = [] then e else snd (last us))"

lemma end_time_simps [simp]:
  "end_time e [] = e" "end_time e (u # us) = end_time (snd u) us" "end_time e (us @ [u]) = snd u"
  by (simp_all add: end_time_def)

lemma deltas_append [simp]: "deltas h e (us @ vs) \<longleftrightarrow> deltas h e us \<and> deltas h (end_time e us) vs"
  by (induction us arbitrary: e) auto

lemma deltas_cong:
  "(\<And>p. p \<in> fst ` set xs \<Longrightarrow> m_relativeSleepTime (h' p) = m_relativeSleepTime (h p)) \<Longrightarrow>
   deltas h' e xs = deltas h e xs"
  by (induction xs arbitrary: e) auto

lemma deltas_frame:
  assumes "deltas h e xs" and "p \<notin> fst ` set xs"
    and "\<And>x. x \<noteq> p \<Longrightarrow> x \<in> fst ` set xs \<Longrightarrow> m_relativeSleepTime (h' x) = m_relativeSleepTime (h x)"
  shows "deltas h' e xs"
proof -
  have "deltas h' e xs = deltas h e xs"
  proof (rule deltas_cong)
    fix x assume x: "x \<in> fst ` set xs"
    with assms(2) have "x \<noteq> p" by blast
    then show "m_relativeSleepTime (h' x) = m_relativeSleepTime (h x)" using x by (rule assms(3))
  qed
  with assms(1) show ?thesis by simp
qed

lemma sleepers_cong:
  assumes "m_sleepHead k' = m_sleepHead k" and "m_sleepTail k' = m_sleepTail k"
    and "\<And>p. p \<in> fst ` set xs \<Longrightarrow> m_nextSleep (k_pcb k' p) = m_nextSleep (k_pcb k p)"
    and "\<And>p. p \<in> fst ` set xs \<Longrightarrow> m_relativeSleepTime (k_pcb k' p) = m_relativeSleepTime (k_pcb k p)"
  shows "sleepers k' xs = sleepers k xs"
proof -
  have "queue_of (\<lambda>p. m_nextSleep (k_pcb k' p)) h t (map fst xs) =
        queue_of (\<lambda>p. m_nextSleep (k_pcb k p)) h t (map fst xs)" for h t
    using assms(3) by (intro queue_of_frame) simp
  moreover have "deltas (k_pcb k') 0 xs = deltas (k_pcb k) 0 xs" by (rule deltas_cong) (rule assms(4))
  ultimately show ?thesis unfolding sleepers_def assms(1,2) by simp
qed

lemma putSleep_find_spec:
  assumes "chain (\<lambda>p. m_nextSleep (h p)) cur (map fst (us @ vs))" and "deltas h (unat e) (us @ vs)"
    and "\<And>x. x \<in> set (us @ vs) \<Longrightarrow> snd x < 2 ^ 64" and "\<And>x. x \<in> set us \<Longrightarrow> snd x \<le> unat t"
    and "vs \<noteq> [] \<Longrightarrow> unat t < snd (hd vs)"
  shows "putSleep_find h t cur prev e =
     Some (Inr (first_of (map fst vs), if us = [] then prev else Some (fst (last us)),
                of_nat (end_time (unat e) us)))"
  using assms
proof (induction us arbitrary: cur prev e)
  case Nil
  show ?case
  proof (cases vs)
    case Nil
    with Nil.prems(1) show ?thesis by (simp add: putSleep_find.simps)
  next
    case (Cons v ws)
    then have c: "cur = Some (fst v)" and d: "unat e + unat (m_relativeSleepTime (h (fst v))) = snd v"
      using Nil.prems(1,2) by auto
    have "unat (e + m_relativeSleepTime (h (fst v))) = snd v"
      using Nil.prems(3) [of v] Cons d by (simp add: unat_word_ariths)
    then have "\<not> e + m_relativeSleepTime (h (fst v)) \<le> t"
      using Nil.prems(5) Cons by (simp add: word_le_nat_alt)
    then show ?thesis by (simp add: putSleep_find.simps c Cons)
  qed
next
  case (Cons u us)
  let ?e = "e + m_relativeSleepTime (h (fst u))"
  have c: "cur = Some (fst u)" and d: "unat e + unat (m_relativeSleepTime (h (fst u))) = snd u"
    using Cons.prems(1,2) by auto
  have e: "unat ?e = snd u" using Cons.prems(3) [of u] d by (simp add: unat_word_ariths)
  then have "?e \<le> t" using Cons.prems(4) [of u] by (simp add: word_le_nat_alt)
  then have "putSleep_find h t cur prev e = putSleep_find h t (m_nextSleep (h (fst u))) cur ?e"
    by (subst putSleep_find.simps) (simp add: c)
  also have "\<dots> = Some (Inr (first_of (map fst vs), if us = [] then cur else Some (fst (last us)),
                of_nat (end_time (unat ?e) us)))"
    using Cons.prems by (intro Cons.IH) (auto simp: e)
  finally show ?case by (simp add: c e)
qed

text \<open>Linking a node between two parts of a chain.\<close>

lemma chain_insert_between:
  assumes "chain nx h (us @ vs)" and "p \<notin> set (us @ vs)"
  shows "chain ((case nth_last 0 us of None \<Rightarrow> nx | Some q \<Rightarrow> nx(q := Some p))(p := first_of vs))
     (if us = [] then Some p else h) (us @ p # vs)"
proof -
  obtain m where m: "seg nx h us m" "chain nx m vs" using assms(1) by (auto simp: seg_append)
  have mv: "m = first_of vs" using m(2) by (rule chain_first)
  show ?thesis
  proof (cases us rule: rev_cases)
    case Nil
    then show ?thesis using m(2) assms(2) by (simp add: mv)
  next
    case (snoc ws w)
    have "distinct (us @ vs)" using assms(1) by (rule chain_distinct)
    then show ?thesis using m assms(2) by (auto simp: snoc seg_append mv)
  qed
qed

lemma putSleep_link_fields:
  assumes "p \<noteq> c0" "p \<noteq> q0" "cur = map_option (\<lambda>_. c0) cur" "prev = map_option (\<lambda>_. q0) prev"
    and "k' = putSleep_link p t (cur, prev, e) k"
  shows "(\<lambda>x. m_nextSleep (k_pcb k' x)) =
       (case prev of None \<Rightarrow> \<lambda>x. m_nextSleep (k_pcb k x)
        | Some q \<Rightarrow> (\<lambda>x. m_nextSleep (k_pcb k x))(q := Some p))(p := cur)"
    and "m_relativeSleepTime (k_pcb k' x) =
       (if x = p then t - e else if Some x = cur then m_relativeSleepTime (k_pcb k x) - (t - e)
        else m_relativeSleepTime (k_pcb k x))"
    and "m_sleepHead k' = (if prev = None then Some p else m_sleepHead k)"
    and "m_sleepTail k' = (if cur = None then Some p else m_sleepTail k)"
    and "m_next (k_pcb k' x) = m_next (k_pcb k x)" and "m_state (k_pcb k' x) = m_state (k_pcb k x)"
    and "m_list k' = m_list k" and "k_lock k' = k_lock k" and "k_sie k' = k_sie k"
  using assms
  by (cases cur; cases prev; simp add: putSleep_link_def Let_def upd_pcb_def fun_eq_iff)+

lemma unlock_sched_simps [simp]:
  "k_pcb (unlock_sched k) = k_pcb k" "m_list (unlock_sched k) = m_list k"
  "m_sleepHead (unlock_sched k) = m_sleepHead k" "m_sleepTail (unlock_sched k) = m_sleepTail k"
  "\<not> m_locked (k_lock (unlock_sched k))" "s_running (unlock_sched k) = s_running k"
  "kstate.more (unlock_sched k) = kstate.more k"
  by (simp_all add: unlock_sched_def release_def)

lemma sleepers_unlock [simp]: "sleepers (unlock_sched k) xs = sleepers k xs"
  by (rule sleepers_cong) simp_all

lemma lock_sched_free:
  "\<not> m_locked (k_lock k) \<Longrightarrow>
   lock_sched k = Some (Inr (k\<lparr>k_lock := \<lparr>m_locked = True, m_pie = k_sie k\<rparr>, k_sie := False\<rparr>))"
  by (simp add: lock_sched_def acquire_def)

lemma lock_sched_held: "m_locked (k_lock k) \<Longrightarrow> lock_sched k = None"
  by (simp add: lock_sched_def acquire_def)

lemma sleep_link_deltas:
  assumes d: "deltas h 0 (us @ vs)" and dist: "distinct (map fst (us @ vs))" and p: "p \<notin> set (map fst (us @ vs))"
    and us: "\<And>x. x \<in> set us \<Longrightarrow> snd x \<le> unat t" and vs: "vs \<noteq> [] \<Longrightarrow> unat t < snd (hd vs)"
    and h': "\<And>x. m_relativeSleepTime (h' x) =
       (if x = p then t - of_nat (end_time 0 us)
        else if Some x = first_of (map fst vs) then m_relativeSleepTime (h x) - (t - of_nat (end_time 0 us))
        else m_relativeSleepTime (h x))"
  shows "deltas h' 0 (us @ (p, unat t) # vs)"
proof -
  have le: "end_time 0 us \<le> unat t" using us by (cases us rule: rev_cases) auto
  have "unat t < 2 ^ 64" using unsigned_less [of t] by simp
  with le have "end_time 0 us < 2 ^ 64" by linarith
  then have "unat (of_nat (end_time 0 us) :: u64) = end_time 0 us" by (simp add: unat_of_nat)
  then have ts: "unat (t - of_nat (end_time 0 us)) = unat t - end_time 0 us"
    using le by (subst unat_sub) (simp_all add: word_le_nat_alt)
  have "deltas h' 0 us" using d
  proof (subst deltas_cong [of us h' h])
    fix x assume x: "x \<in> fst ` set us"
    then have "Some x \<noteq> first_of (map fst vs)" using dist by (cases vs) force+
    then show "m_relativeSleepTime (h' x) = m_relativeSleepTime (h x)" using x p by (auto simp: h')
  qed simp
  moreover have "deltas h' (unat t) vs"
  proof (cases vs)
    case (Cons v ws)
    have v: "end_time 0 us \<le> snd v" "unat (m_relativeSleepTime (h (fst v))) = snd v - end_time 0 us" "deltas h (snd v) ws"
      using d Cons by simp_all
    have lt: "unat t < snd v" using vs Cons by simp
    have "unat (m_relativeSleepTime (h (fst v)) - (t - of_nat (end_time 0 us))) = snd v - unat t"
      using lt le v(2) by (subst unat_sub) (simp_all add: word_le_nat_alt ts)
    moreover have "fst v \<noteq> p" using p Cons by auto
    moreover have "deltas h' (snd v) ws" using v(3)
    proof (subst deltas_cong [of ws h' h])
      fix x assume x: "x \<in> fst ` set ws"
      have "fst v \<notin> fst ` set ws" "p \<notin> fst ` set ws" using p dist Cons by simp_all
      with x have "x \<noteq> p" "x \<noteq> fst v" by blast+
      then show "m_relativeSleepTime (h' x) = m_relativeSleepTime (h x)" by (simp add: h' Cons)
    qed simp
    ultimately show ?thesis using lt by (simp add: Cons h')
  qed simp
  ultimately show ?thesis using le by (simp add: h' ts)
qed

lemma putSleep_sleepers:
  assumes sl: "sleepers k xs" and free: "\<not> m_locked (k_lock k)" and p: "p \<notin> fst ` set xs"
  obtains k' where "putSleep p t k = Some (Inr k')" "sleepers k' (sleep_insert p (unat t) xs)"
    "\<not> m_locked (k_lock k')" "m_list k' = m_list k"
    "\<And>x. m_next (k_pcb k' x) = m_next (k_pcb k x)" "\<And>x. m_state (k_pcb k' x) = m_state (k_pcb k x)"
proof -
  define k1 where "k1 = k\<lparr>k_lock := \<lparr>m_locked = True, m_pie = k_sie k\<rparr>, k_sie := False\<rparr>"
  note lk = lock_sched_free [OF free, folded k1_def]
  define us where "us = takeWhile (\<lambda>x. snd x \<le> unat t) xs"
  define vs where "vs = dropWhile (\<lambda>x. snd x \<le> unat t) xs"
  have xs: "xs = us @ vs" by (simp add: us_def vs_def)
  have us: "snd x \<le> unat t" if "x \<in> set us" for x using that by (auto simp: us_def dest: set_takeWhileD)
  have vs: "unat t < snd (hd vs)" if "vs \<noteq> []"
    using that hd_dropWhile [of "\<lambda>x. snd x \<le> unat t" xs] by (simp add: vs_def)
  have q: "chain (\<lambda>p. m_nextSleep (k_pcb k p)) (m_sleepHead k) (map fst (us @ vs))"
    and tl: "m_sleepTail k = nth_last 0 (map fst (us @ vs))"
    and d: "deltas (k_pcb k) 0 (us @ vs)" and b: "\<And>x. x \<in> set (us @ vs) \<Longrightarrow> snd x < 2 ^ 64"
    using sl by (auto simp: sleepers_def queue_of_def xs)
  show thesis
  proof (cases xs)
    case Nil
    then have "m_sleepHead k1 = None" using q xs by (simp add: k1_def)
    then show thesis using unsigned_less [of t]
      by (intro that [of "unlock_sched (upd_pcb p (\<lambda>x. x\<lparr>m_relativeSleepTime := t, m_nextSleep := None\<rparr>)
           (k1\<lparr>m_sleepHead := Some p, m_sleepTail := Some p\<rparr>))"])
        (simp_all add: putSleep_def lk Nil sleep_insert_def sleepers_def queue_of_def upd_pcb_def nth_last_0 k1_def)
  next
    case (Cons y ys)
    define at where "at = (first_of (map fst vs), if us = [] then None else Some (fst (last us)), of_nat (end_time 0 us) :: u64)"
    define k2 where "k2 = putSleep_link p t at k1"
    have hd: "m_sleepHead k1 \<noteq> None" using chain_None_iff [OF q] Cons xs by (auto simp: k1_def)
    have "putSleep_find (k_pcb k1) t (m_sleepHead k1) None 0 = Some (Inr at)"
      unfolding at_def using q d b us vs by (subst putSleep_find_spec) (simp_all add: k1_def)
    then have run: "putSleep p t k = Some (Inr (unlock_sched k2))"
      using hd by (auto simp: putSleep_def lk k2_def)
    have np: "p \<notin> set (map fst (us @ vs))" using p by (auto simp: xs)
    have dist: "distinct (map fst (us @ vs))" using q by (rule chain_distinct)
    let ?c = "if vs = [] then Suc p else fst (hd vs)" and ?q = "if us = [] then Suc p else fst (last us)"
    have fields: "p \<noteq> ?c" "p \<noteq> ?q"
      "first_of (map fst vs) = map_option (\<lambda>_. ?c) (first_of (map fst vs))"
      "(if us = [] then None else Some (fst (last us))) =
        map_option (\<lambda>_. ?q) (if us = [] then None else Some (fst (last us)))"
      using np by (auto simp: neq_Nil_conv)
    note f = putSleep_link_fields [OF fields k2_def [unfolded at_def]]
    have "sleepers k2 (us @ (p, unat t) # vs)"
      unfolding sleepers_def queue_of_def
    proof (intro conjI)
      have "nth_last 0 (map fst us) = (if us = [] then None else Some (fst (last us)))"
        by (simp add: nth_last_0 last_map)
      then show "chain (\<lambda>p. m_nextSleep (k_pcb k2 p)) (m_sleepHead k2) (map fst (us @ (p, unat t) # vs))"
        using chain_insert_between [OF q [unfolded map_append] np [unfolded map_append]]
        by (cases "us = []") (simp_all add: f k1_def)
      show "m_sleepTail k2 = nth_last 0 (map fst (us @ (p, unat t) # vs))"
        using tl by (cases vs rule: rev_cases) (auto simp: f k1_def nth_last_0)
      show "deltas (k_pcb k2) 0 (us @ (p, unat t) # vs)"
        by (rule sleep_link_deltas [OF d dist np us vs]) (assumption | simp add: f(2) k1_def)+
      show "\<forall>x \<in> set (us @ (p, unat t) # vs). snd x < 2 ^ 64"
      proof
        fix x assume "x \<in> set (us @ (p, unat t) # vs)"
        then consider "x \<in> set (us @ vs)" | "x = (p, unat t)" by auto
        then show "snd x < 2 ^ 64"
        proof cases
          case 1
          then show ?thesis by (rule b)
        next
          case 2
          then show ?thesis using unsigned_less [of t] by simp
        qed
      qed
    qed
    then show thesis
      using run by (intro that [of "unlock_sched k2"]) (simp_all add: sleep_insert_def us_def vs_def f k1_def)
  qed
qed

abbreviation earlier :: "nat \<Rightarrow> (pcbp \<times> nat) list \<Rightarrow> (pcbp \<times> nat) list" where
  "earlier d xs \<equiv> map (\<lambda>x. (fst x, snd x - d)) xs"

lemma deltas_earlier: "deltas h t vs \<Longrightarrow> d \<le> t \<Longrightarrow> deltas h (t - d) (earlier d vs)"
  by (induction vs arbitrary: t) (simp_all add: diff_le_mono)

lemma map_fst_earlier [simp]: "map fst (earlier d xs) = map fst xs"
  by (induction xs) auto

text \<open>One pass of the loop of \<^verbatim>\<open>awake\<close> moves the first sleeper to the ready list.\<close>

lemma getSleep_sleepers:
  assumes "sleepers k ((p, 0) # xs)"
  shows "getSleep k = (Some p, snd (getSleep k))" and "sleepers (snd (getSleep k)) xs"
    and "m_state (k_pcb (snd (getSleep k)) q) = m_state (k_pcb k q)"
    and "m_next (k_pcb (snd (getSleep k)) q) = m_next (k_pcb k q)"
    and "m_list (snd (getSleep k)) = m_list k" and "k_lock (snd (getSleep k)) = k_lock k"
    and "k_sie (snd (getSleep k)) = k_sie k"
proof -
  have q: "chain (\<lambda>p. m_nextSleep (k_pcb k p)) (m_nextSleep (k_pcb k p)) (map fst xs)"
    and h: "m_sleepHead k = Some p" and t: "m_sleepTail k = nth_last 0 (p # map fst xs)"
    and d: "deltas (k_pcb k) 0 xs" and b: "\<forall>x \<in> set xs. snd x < 2 ^ 64"
    using assms by (auto simp: sleepers_def queue_of_def)
  have np: "p \<notin> set (map fst xs)" using q by (rule chain_head_fresh)
  have g: "snd (getSleep k) = upd_pcb p (m_nextSleep_update (\<lambda>_. None))
     (k\<lparr>m_sleepHead := m_nextSleep (k_pcb k p),
        m_sleepTail := (if xs = [] then None else m_sleepTail k)\<rparr>)"
    using chain_None_iff [OF q] h by (cases xs) (auto simp: getSleep_def Let_def)
  show "getSleep k = (Some p, snd (getSleep k))" by (simp add: getSleep_def h Let_def)
  have "chain ((\<lambda>p. m_nextSleep (k_pcb k p))(p := None)) (m_nextSleep (k_pcb k p)) (map fst xs)"
    using q np by simp
  moreover have "(\<lambda>x. m_nextSleep (k_pcb (snd (getSleep k)) x)) = (\<lambda>p. m_nextSleep (k_pcb k p))(p := None)"
    by (simp add: g upd_pcb_def fun_eq_iff)
  moreover have "deltas (k_pcb (snd (getSleep k))) 0 xs"
    using d by (subst deltas_cong [of xs _ "k_pcb k"]) (simp_all add: g upd_pcb_def)
  moreover have "m_sleepTail (snd (getSleep k)) = nth_last 0 (map fst xs)"
    using t by (simp add: g upd_pcb_def nth_last_0)
  ultimately show "sleepers (snd (getSleep k)) xs"
    using b by (simp add: sleepers_def queue_of_def g upd_pcb_def)
  show "m_state (k_pcb (snd (getSleep k)) q) = m_state (k_pcb k q)"
    "m_next (k_pcb (snd (getSleep k)) q) = m_next (k_pcb k q)"
    "m_list (snd (getSleep k)) = m_list k" "k_lock (snd (getSleep k)) = k_lock k"
    "k_sie (snd (getSleep k)) = k_sie k"
    by (simp_all add: g upd_pcb_def)
qed

lemma sleepers_setState [simp]: "sleepers (setState p st k) xs = sleepers k xs"
  by (rule sleepers_cong) simp_all

lemma sleepers_ready_frame: "ready_frame k k' \<Longrightarrow> sleepers k' xs = sleepers k xs"
  by (rule sleepers_cong) (simp_all add: ready_frameD)

lemma sched_ready_unlock_cong:
  "m_list k' = m_list k \<Longrightarrow> (\<And>q. m_next (k_pcb k' q) = m_next (k_pcb k q)) \<Longrightarrow>
   sched_ready (unlock_sched k') ys = sched_ready (unlock_sched k) ys"
  by (simp add: sched_ready_def split: option.split)

lemma sleepers_head_fresh: "sleepers k ((p, t) # xs) \<Longrightarrow> p \<notin> fst ` set xs"
  using chain_head_fresh [of "\<lambda>p. m_nextSleep (k_pcb k p)" p "map fst xs"]
  by (simp add: sleepers_def queue_of_def)

lemma awake_loop_sleepers:
  assumes "sched_ready (unlock_sched k) ys" and "sleepers k xs" and "set ys \<inter> fst ` set xs = {}"
  obtains k' where "awake_loop k = Some (Inr k')"
    "sleepers k' (dropWhile (\<lambda>x. snd x = 0) xs)"
    "sched_ready (unlock_sched k') (ys @ map fst (takeWhile (\<lambda>x. snd x = 0) xs))"
    "\<And>q. m_state (k_pcb k' q) = (if q \<in> fst ` set (takeWhile (\<lambda>x. snd x = 0) xs) then READY else m_state (k_pcb k q))"
  using assms
proof (induction xs arbitrary: k ys thesis)
  case Nil
  then have "awake_loop k = Some (Inr k)" by (simp add: awake_loop.simps sleepers_def)
  then show ?case using Nil.prems by simp
next
  case (Cons x xs)
  obtain p t where x: "x = (p, t)" by (cases x)
  have h: "m_sleepHead k = Some p" and rel: "unat (m_relativeSleepTime (k_pcb k p)) = t"
    using Cons.prems(3) by (simp_all add: x sleepers_def queue_of_def)
  show ?case
  proof (cases "t = 0")
    case False
    then have "m_relativeSleepTime (k_pcb k p) \<noteq> 0" using rel by auto
    then have "awake_loop k = Some (Inr k)" by (simp add: awake_loop.simps h)
    then show ?thesis using Cons.prems False by (simp add: x)
  next
    case True
    have r0: "m_relativeSleepTime (k_pcb k p) = 0" using rel True by (simp add: unat_eq_0)
    define k1 where "k1 = snd (getSleep k)"
    note g = getSleep_sleepers [OF Cons.prems(3) [unfolded x True], folded k1_def]
    define ku where "ku = unlock_sched (setState p READY k1)"
    have ur: "sched_ready ku ys"
      unfolding ku_def using Cons.prems(2) by (subst sched_ready_unlock_cong [of _ k]) (simp_all add: g)
    have pf: "p \<notin> set ys" using Cons.prems(4) by (auto simp: x)
    obtain k2 where k2: "Scheduler_put (Some p) ku = Some (Inr k2)" "sched_ready k2 (ys @ [p])" "ready_frame ku k2"
      using Scheduler_put_ready [OF ur pf] by blast
    define k3 where "k3 = k2\<lparr>k_lock := \<lparr>m_locked = True, m_pie = k_sie k2\<rparr>, k_sie := False\<rparr>"
    have l3: "lock_sched k2 = Some (Inr k3)"
      using lock_sched_free sched_readyD(1) [OF k2(2)] by (simp add: k3_def)
    have run: "awake_loop k = awake_loop k3"
      using k2(1) by (subst awake_loop.simps) (simp add: h r0 g(1) ku_def l3)
    have s3: "sleepers k3 xs"
    proof -
      have "sleepers ku xs" using g(2) by (simp add: ku_def)
      then have "sleepers k2 xs" by (simp add: sleepers_ready_frame [OF k2(3)])
      then show ?thesis by (subst sleepers_cong [of _ k2]) (simp_all add: k3_def)
    qed
    have r3: "sched_ready (unlock_sched k3) (ys @ [p])"
      using k2(2) by (simp add: sched_ready_def k3_def split: option.splits)
    have np: "p \<notin> fst ` set xs" using sleepers_head_fresh Cons.prems(3) by (simp add: x)
    have disj: "set (ys @ [p]) \<inter> fst ` set xs = {}" using Cons.prems(4) np by auto
    have st3: "m_state (k_pcb k3 q) = (if q = p then READY else m_state (k_pcb k q))" for q
      by (simp add: k3_def ready_frameD(1) [OF k2(3)] ku_def g(3))
    obtain k' where k': "awake_loop k3 = Some (Inr k')"
      "sleepers k' (dropWhile (\<lambda>x. snd x = 0) xs)"
      "sched_ready (unlock_sched k') ((ys @ [p]) @ map fst (takeWhile (\<lambda>x. snd x = 0) xs))"
      "\<And>q. m_state (k_pcb k' q) = (if q \<in> fst ` set (takeWhile (\<lambda>x. snd x = 0) xs) then READY else m_state (k_pcb k3 q))"
      using Cons.IH [OF _ r3 s3 disj] by blast
    show ?thesis
      by (rule Cons.prems(1) [of k']) (use run k' True in \<open>simp_all add: x st3\<close>)
  qed
qed

lemma awake_sleepers:
  assumes r: "sched_ready k ys" and sl: "sleepers k xs" and disj: "set ys \<inter> fst ` set xs = {}"
    and pos: "\<And>x. x \<in> set xs \<Longrightarrow> 0 < snd x"
  obtains k' where "awake k = Some (Inr k')"
    "sleepers k' (earlier 1 (dropWhile (\<lambda>x. snd x = 1) xs))"
    "sched_ready k' (ys @ map fst (takeWhile (\<lambda>x. snd x = 1) xs))"
    "\<And>q. m_state (k_pcb k' q) = (if q \<in> fst ` set (takeWhile (\<lambda>x. snd x = 1) xs) then READY else m_state (k_pcb k q))"
proof -
  define k1 where "k1 = k\<lparr>k_lock := \<lparr>m_locked = True, m_pie = k_sie k\<rparr>, k_sie := False\<rparr>"
  note lk = lock_sched_free [OF sched_readyD(1) [OF r], folded k1_def]
  have s1: "sleepers k1 xs" using sl by (subst sleepers_cong [of _ k]) (simp_all add: k1_def)
  have r1: "sched_ready (unlock_sched k1) ys" using r by (auto simp: sched_ready_def k1_def split: option.splits)
  show thesis
  proof (cases xs)
    case Nil
    then have "m_sleepHead k1 = None" using s1 by (simp add: sleepers_def)
    then show thesis using that [of "unlock_sched k1"] s1 r1
      by (simp add: awake_def lk Nil) (simp add: k1_def)
  next
    case (Cons x ws)
    obtain p t where x: "x = (p, t)" by (cases x)
    define k2 where "k2 = upd_pcb p (\<lambda>x. x\<lparr>m_relativeSleepTime := m_relativeSleepTime x - 1\<rparr>) k1"
    have h: "m_sleepHead k1 = Some p" and rel: "unat (m_relativeSleepTime (k_pcb k1 p)) = t"
      and d: "deltas (k_pcb k1) t ws"
      using s1 by (auto simp: Cons x sleepers_def queue_of_def)
    have np: "p \<notin> fst ` set ws" using sleepers_head_fresh s1 by (simp add: Cons x)
    have t: "0 < t" using pos [of x] by (simp add: Cons x)
    have one: "unat (m_relativeSleepTime (k_pcb k1 p) - 1) = t - 1"
      using rel t by (subst unat_sub) (simp_all add: word_le_nat_alt)
    have "m_relativeSleepTime (k_pcb k2 q) = m_relativeSleepTime (k_pcb k1 q)" if "q \<in> fst ` set ws" for q
    proof -
      have "q \<noteq> p" using np that by blast
      then show ?thesis by (simp add: k2_def upd_pcb_def)
    qed
    then have "deltas (k_pcb k2) t ws" using d deltas_cong [of ws "k_pcb k2" "k_pcb k1"] by blast
    then have "deltas (k_pcb k2) (t - 1) (earlier 1 ws)" using t by (intro deltas_earlier) simp_all
    then have d2: "deltas (k_pcb k2) 0 (earlier 1 xs)"
      using one by (simp add: Cons x) (simp add: k2_def upd_pcb_def)
    have nx: "(\<lambda>q. m_nextSleep (k_pcb k2 q)) = (\<lambda>q. m_nextSleep (k_pcb k1 q))"
      by (simp add: k2_def upd_pcb_def fun_eq_iff)
    have s2: "sleepers k2 (earlier 1 xs)"
      unfolding sleepers_def map_fst_earlier nx
      using s1 d2 by (simp add: sleepers_def) (auto simp: k2_def upd_pcb_def)
    have r2: "sched_ready (unlock_sched k2) ys"
      using r1 by (subst sched_ready_unlock_cong [of _ k1]) (simp_all add: k2_def upd_pcb_def)
    have one_iff: "x \<in> set xs \<Longrightarrow> (snd x - 1 = 0) = (snd x = 1)" for x using pos [of x] by linarith
    have tw: "takeWhile (\<lambda>x. snd x = 0) (earlier 1 xs) = earlier 1 (takeWhile (\<lambda>x. snd x = 1) xs)"
      "dropWhile (\<lambda>x. snd x = 0) (earlier 1 xs) = earlier 1 (dropWhile (\<lambda>x. snd x = 1) xs)"
      unfolding takeWhile_map dropWhile_map o_def snd_conv
      by (rule arg_cong [where f = "earlier 1"], rule takeWhile_cong [OF refl one_iff], assumption,
          rule arg_cong [where f = "earlier 1"], rule dropWhile_cong [OF refl one_iff], assumption)
    have fs: "fst ` set (earlier 1 zs) = fst ` set zs" for zs by force
    have st: "m_state (k_pcb k2 q) = m_state (k_pcb k q)" for q by (simp add: k2_def k1_def upd_pcb_def)
    obtain k' where "awake_loop k2 = Some (Inr k')"
      "sleepers k' (earlier 1 (dropWhile (\<lambda>x. snd x = 1) xs))"
      "sched_ready (unlock_sched k') (ys @ map fst (takeWhile (\<lambda>x. snd x = 1) xs))"
      "\<And>q. m_state (k_pcb k' q) = (if q \<in> fst ` set (takeWhile (\<lambda>x. snd x = 1) xs) then READY else m_state (k_pcb k q))"
      using awake_loop_sleepers [OF r2 s2] disj unfolding tw map_fst_earlier fs st by blast
    then show thesis using that [of "unlock_sched k'"] by (simp add: awake_def lk h flip: k2_def)
  qed
qed

lemma wakeUp_find_spec:
  assumes "chain (\<lambda>p. m_nextSleep (h p)) cur (us @ vs)" and "p \<notin> set us" and "vs \<noteq> [] \<Longrightarrow> hd vs = p"
  shows "wakeUp_find h p cur prev = Some (Inr (first_of vs, if us = [] then prev else Some (last us)))"
  using assms
proof (induction us arbitrary: cur prev)
  case Nil
  then show ?case by (cases vs) (simp_all add: wakeUp_find.simps)
next
  case (Cons u us)
  have "wakeUp_find h p cur prev = wakeUp_find h p (m_nextSleep (h u)) (Some u)"
    using Cons.prems(1,2) by (subst wakeUp_find.simps) simp
  also have "\<dots> = Some (Inr (first_of vs, if us = [] then Some u else Some (last us)))"
    using Cons.prems by (intro Cons.IH) simp_all
  finally show ?case by simp
qed

definition wakeUp_done :: "pcbp \<Rightarrow> pcbp option \<Rightarrow> 'k kstate_scheme \<Rightarrow> 'k kstate_scheme" where
  "wakeUp_done p prev k =
     upd_pcb p (\<lambda>x. x\<lparr>m_nextSleep := None, m_relativeSleepTime := 0\<rparr>) (wakeUp_unlink p prev k)"

lemma wakeUp_done_first:
  assumes "m_nextSleep (k_pcb k p) \<noteq> Some p" and "k' = wakeUp_done p None k"
  shows "(\<lambda>x. m_nextSleep (k_pcb k' x)) = (\<lambda>x. m_nextSleep (k_pcb k x))(p := None)"
    and "x \<noteq> p \<Longrightarrow> m_relativeSleepTime (k_pcb k' x) = m_relativeSleepTime (k_pcb k x) +
       (if m_nextSleep (k_pcb k p) = Some x then m_relativeSleepTime (k_pcb k p) else 0)"
    and "m_sleepHead k' = m_nextSleep (k_pcb k p)"
    and "m_sleepTail k' = (if m_nextSleep (k_pcb k p) = None then None else m_sleepTail k)"
  using assms
  by (cases "m_nextSleep (k_pcb k p)"; simp add: wakeUp_done_def wakeUp_unlink_def Let_def upd_pcb_def fun_eq_iff)+

lemma wakeUp_done_inner:
  assumes "q \<noteq> p" and "k' = wakeUp_done p (Some q) k"
  shows "(\<lambda>x. m_nextSleep (k_pcb k' x)) = (\<lambda>x. m_nextSleep (k_pcb k x))(q := m_nextSleep (k_pcb k p), p := None)"
    and "x \<noteq> p \<Longrightarrow> m_relativeSleepTime (k_pcb k' x) = m_relativeSleepTime (k_pcb k x)"
    and "m_sleepHead k' = m_sleepHead k"
    and "m_sleepTail k' = (if m_nextSleep (k_pcb k p) = None then Some q else m_sleepTail k)"
  using assms
  by (cases "m_nextSleep (k_pcb k p)"; simp add: wakeUp_done_def wakeUp_unlink_def Let_def upd_pcb_def fun_eq_iff)+

lemma wakeUp_run:
  assumes "sleepers k (us @ (p, t) # vs)" and "\<not> m_locked (k_lock k)"
  shows "wakeUp p k = Some (Inr (unlock_sched (wakeUp_done p (nth_last 0 (map fst us))
     (k\<lparr>k_lock := \<lparr>m_locked = True, m_pie = k_sie k\<rparr>, k_sie := False\<rparr>))))"
proof -
  have c: "chain (\<lambda>p. m_nextSleep (k_pcb k p)) (m_sleepHead k) (map fst us @ p # map fst vs)"
    using assms(1) by (simp add: sleepers_def queue_of_def)
  have "p \<notin> set (map fst us)" using chain_distinct [OF c] by auto
  then have "wakeUp_find (k_pcb k) p (m_sleepHead k) None = Some (Inr (Some p, nth_last 0 (map fst us)))"
    using wakeUp_find_spec [OF c] by (simp add: nth_last_0)
  then show ?thesis
    using lock_sched_free [OF assms(2)] by (simp add: wakeUp_def wakeUp_done_def)
qed

lemma wakeUp_first_sleepers:
  assumes "sleepers k ((p, t) # vs)"
  shows "sleepers (wakeUp_done p None k) vs"
proof -
  have c: "chain (\<lambda>p. m_nextSleep (k_pcb k p)) (m_nextSleep (k_pcb k p)) (map fst vs)"
    and tl: "m_sleepTail k = nth_last 0 (p # map fst vs)"
    and d: "unat (m_relativeSleepTime (k_pcb k p)) = t" "deltas (k_pcb k) t vs"
    and b: "\<forall>x \<in> set vs. snd x < 2 ^ 64"
    using assms by (auto simp: sleepers_def queue_of_def)
  have np: "p \<notin> set (map fst vs)" using c by (rule chain_head_fresh)
  have hd: "m_nextSleep (k_pcb k p) = first_of (map fst vs)" using c by (rule chain_first)
  have ne: "m_nextSleep (k_pcb k p) \<noteq> Some p" using np hd by (cases vs) auto
  note f = wakeUp_done_first [OF ne refl]
  have "deltas (k_pcb (wakeUp_done p None k)) 0 vs"
  proof (cases vs)
    case (Cons v ws)
    let ?r = "m_relativeSleepTime (k_pcb k (fst v))" and ?s = "m_relativeSleepTime (k_pcb k p)"
    have v: "t \<le> snd v" "unat ?r = snd v - t" "deltas (k_pcb k) (snd v) ws" "snd v < 2 ^ 64"
      using d(2) b Cons by auto
    have "unat (?r + ?s) = snd v" using v d(1) by (simp add: unat_word_ariths)
    moreover have "fst v \<noteq> p" and "p \<notin> fst ` set ws" using np Cons by auto
    moreover have "deltas (k_pcb (wakeUp_done p None k)) (snd v) ws"
    proof (rule deltas_frame [OF v(3) \<open>p \<notin> fst ` set ws\<close>])
      fix x assume x: "x \<noteq> p" "x \<in> fst ` set ws"
      have "fst v \<notin> fst ` set ws" using chain_distinct [OF c] Cons by simp
      with x have "x \<noteq> fst v" by blast
      then show "m_relativeSleepTime (k_pcb (wakeUp_done p None k) x) = m_relativeSleepTime (k_pcb k x)"
        using f(2) [OF x(1)] hd Cons by simp
    qed
    ultimately show ?thesis using f(2) [of "fst v"] hd by (simp add: Cons)
  qed simp
  moreover have "chain ((\<lambda>x. m_nextSleep (k_pcb k x))(p := None)) (m_nextSleep (k_pcb k p)) (map fst vs)"
    using c np by simp
  moreover have "(if m_nextSleep (k_pcb k p) = None then None else m_sleepTail k) = nth_last 0 (map fst vs)"
    using tl hd by (cases vs) (simp_all add: nth_last_0)
  ultimately show ?thesis using b by (simp add: sleepers_def queue_of_def f)
qed

lemma wakeUp_inner_sleepers:
  assumes s: "sleepers k (us @ (q, e) # (p, t) # vs)"
  shows "sleepers (wakeUp_done p (Some q) k) (us @ (q, e) # earlier (t - e) vs)"
proof -
  let ?k' = "wakeUp_done p (Some q) k"
  have c: "chain (\<lambda>p. m_nextSleep (k_pcb k p)) (m_sleepHead k) (map fst us @ [q, p] @ map fst vs)"
    and tl: "m_sleepTail k = nth_last 0 (map fst us @ [q, p] @ map fst vs)"
    and d: "deltas (k_pcb k) 0 (us @ [(q, e)])" "e \<le> t" "deltas (k_pcb k) t vs"
    and b: "\<forall>x \<in> set (us @ (q, e) # vs). snd x < 2 ^ 64"
    using s by (auto simp: sleepers_def queue_of_def)
  have dist: "distinct (map fst us @ [q, p] @ map fst vs)" using c by (rule chain_distinct)
  then have ne: "q \<noteq> p" by auto
  note f = wakeUp_done_inner [OF ne refl, where k = k]
  have np: "p \<notin> fst ` set (us @ [(q, e)])" "p \<notin> fst ` set vs" using dist by auto
  have hd: "m_nextSleep (k_pcb k p) = first_of (map fst vs)"
    using c by (auto simp: seg_append dest: chain_first)
  have same: "m_relativeSleepTime (k_pcb ?k' x) = m_relativeSleepTime (k_pcb k x)" if "x \<noteq> p" for x
    using f(2) that .
  have "deltas (k_pcb ?k') 0 (us @ [(q, e)])" "deltas (k_pcb ?k') t vs"
    by (rule deltas_frame [OF d(1) np(1)], erule same, rule deltas_frame [OF d(3) np(2)], erule same)
  moreover from this(2) have "deltas (k_pcb ?k') e (earlier (t - e) vs)"
    using deltas_earlier [of "k_pcb ?k'" t vs "t - e"] d(2) by simp
  ultimately have "deltas (k_pcb ?k') 0 (us @ (q, e) # earlier (t - e) vs)" by simp
  moreover have "chain (\<lambda>x. m_nextSleep (k_pcb ?k' x)) (m_sleepHead ?k') (map fst us @ q # map fst vs)"
    unfolding f(1,3) by (rule chain_unlink_frame [OF c])
  moreover have "m_sleepTail ?k' = nth_last 0 (map fst us @ q # map fst vs)"
    using tl hd by (cases vs rule: rev_cases) (auto simp: f(4) nth_last_0)
  moreover have "\<forall>x \<in> set (us @ (q, e) # earlier (t - e) vs). snd x < 2 ^ 64"
  proof
    fix x assume "x \<in> set (us @ (q, e) # earlier (t - e) vs)"
    then consider "x \<in> set (us @ (q, e) # vs)" | v where "v \<in> set vs" "snd x \<le> snd v" by auto
    then show "snd x < 2 ^ 64"
    proof cases
      case 1
      then show ?thesis using b by blast
    next
      case 2
      then have "snd v < 2 ^ 64" using b by simp
      with 2(2) show ?thesis by linarith
    qed
  qed
  ultimately show ?thesis by (simp add: sleepers_def queue_of_def o_def)
qed

lemma wakeUp_done_simps [simp]:
  "m_state (k_pcb (wakeUp_done p prev k) x) = m_state (k_pcb k x)"
  "m_next (k_pcb (wakeUp_done p prev k) x) = m_next (k_pcb k x)"
  "m_semNext (k_pcb (wakeUp_done p prev k) x) = m_semNext (k_pcb k x)"
  "m_futexNext (k_pcb (wakeUp_done p prev k) x) = m_futexNext (k_pcb k x)"
  "m_list (wakeUp_done p prev k) = m_list k" "k_lock (wakeUp_done p prev k) = k_lock k"
  "s_running (wakeUp_done p prev k) = s_running k" "kstate.more (wakeUp_done p prev k) = kstate.more k"
  by (simp_all add: wakeUp_done_def wakeUp_unlink_def Let_def upd_pcb_def split: option.split)

lemma wakeUp_sleepers:
  assumes "sleepers k (us @ (p, t) # vs)" and "\<not> m_locked (k_lock k)"
  shows "wakeUp p k = Some (Inr (unlock_sched (wakeUp_done p (nth_last 0 (map fst us))
       (k\<lparr>k_lock := \<lparr>m_locked = True, m_pie = k_sie k\<rparr>, k_sie := False\<rparr>))))"
    and "sleepers (unlock_sched (wakeUp_done p (nth_last 0 (map fst us))
       (k\<lparr>k_lock := \<lparr>m_locked = True, m_pie = k_sie k\<rparr>, k_sie := False\<rparr>)))
       (us @ (if us = [] then vs else earlier (t - end_time 0 us) vs))"
proof -
  let ?k1 = "k\<lparr>k_lock := \<lparr>m_locked = True, m_pie = k_sie k\<rparr>, k_sie := False\<rparr>"
  have s1: "sleepers ?k1 (us @ (p, t) # vs)" using assms(1) by (subst sleepers_cong [of _ k]) simp_all
  have "sleepers (wakeUp_done p (nth_last 0 (map fst us)) ?k1)
      (us @ (if us = [] then vs else earlier (t - end_time 0 us) vs))"
  proof (cases us rule: rev_cases)
    case Nil
    then show ?thesis using wakeUp_first_sleepers s1 by simp
  next
    case (snoc ws w)
    then show ?thesis using wakeUp_inner_sleepers [of ?k1 ws "fst w" "snd w" p t vs] s1 by simp
  qed
  then show "sleepers (unlock_sched (wakeUp_done p (nth_last 0 (map fst us)) ?k1))
       (us @ (if us = [] then vs else earlier (t - end_time 0 us) vs))" by simp
  show "wakeUp p k = Some (Inr (unlock_sched (wakeUp_done p (nth_last 0 (map fst us)) ?k1)))"
    by (rule wakeUp_run [OF assms])
qed

text \<open>
  A small system: process 0 runs, 1 and 2 are ready, and 3, 4 and 5 sleep for 1, 4 and 9 ticks.
\<close>

definition demo_pcb :: PCB where
  "demo_pcb = \<lparr>m_state = READY, m_pmt = 0, m_next = None, m_nextSleep = None, m_semNext = None, m_futexNext = None,
     m_waitingOn = None, m_waitingOnFutexKey = 0, m_relativeSleepTime = 0, m_usermode = False, m_kstack = 0, tf_kstack = 0\<rparr>"

definition demo_sched :: kstate where
  "demo_sched = \<lparr>k_sie = True, k_sscratch = 0, k_satp = 0,
     k_pcb = (\<lambda>_. demo_pcb)
       (0 := demo_pcb\<lparr>m_state := RUNNING\<rparr>,
        1 := demo_pcb\<lparr>m_next := Some 2\<rparr>,
        3 := demo_pcb\<lparr>m_state := SLEEPING, m_nextSleep := Some 4, m_relativeSleepTime := 1\<rparr>,
        4 := demo_pcb\<lparr>m_state := SLEEPING, m_nextSleep := Some 5, m_relativeSleepTime := 3\<rparr>,
        5 := demo_pcb\<lparr>m_state := SLEEPING, m_relativeSleepTime := 5\<rparr>),
     s_running = 0, s_timeSliceCounter = 0,
     m_list = Some \<lparr>pl_head = Some 1, pl_tail = Some 2, pl_lock = Lock_ctor\<rparr>,
     m_sleepHead = Some 3, m_sleepTail = Some 5, k_lock = Lock_ctor\<rparr>"

lemma demo_sched_ready: "sched_ready demo_sched [1, 2]"
  by (simp add: sched_ready_def demo_sched_def demo_pcb_def Lock_ctor_def queue_of_def nth_last_def)

lemma demo_sleepers: "sleepers demo_sched [(3, 1), (4, 4), (5, 9)]"
  by (simp add: sleepers_def demo_sched_def demo_pcb_def queue_of_def nth_last_def)

theorem dispatch_runs_first_ready_witness:
  "\<exists>k'. dispatch demo_sched = Some (Inr k') \<and> s_running k' = 1 \<and> sched_ready k' [2, 0] \<and>
     m_state (k_pcb k' 0) = READY \<and> m_state (k_pcb k' 1) = RUNNING"
proof -
  have pre: "preempted demo_sched" "s_running demo_sched = 0"
    by (simp_all add: preempted_def demo_sched_def)
  have "candidates demo_sched [1, 2] = [1, 2, 0]"
    by (simp add: candidates_def pre runnable_def) (simp add: demo_sched_def demo_pcb_def)
  then show ?thesis
    using dispatch_runs_first_ready [OF demo_sched_ready] pre by auto
qed

text \<open>
  C6: the sleep queue, which stores differences of ticks, implements a sequence of deadlines.
  \<^verbatim>\<open>putSleep\<close> inserts the new sleeper behind all that wake no later. \<^verbatim>\<open>awake\<close>, called on
  every tick, brings every deadline one tick closer and moves exactly the sleepers whose deadline is reached,
  in order and \<^verbatim>\<open>READY\<close>, to the end of the ready list. Both return with the locks free.
\<close>

theorem sleep_queue_refines_deadlines:
  assumes "sched_ready k ys" and "sleepers k xs" and "set ys \<inter> fst ` set xs = {}"
    and "\<forall>x \<in> set xs. 0 < snd x"
  shows "(p \<notin> fst ` set xs \<longrightarrow>
      (\<exists>k'. putSleep p t k = Some (Inr k') \<and> sleepers k' (sleep_insert p (unat t) xs) \<and> sched_ready k' ys)) \<and>
    (\<exists>k'. awake k = Some (Inr k') \<and>
      sleepers k' (earlier 1 (dropWhile (\<lambda>x. snd x = 1) xs)) \<and>
      sched_ready k' (ys @ map fst (takeWhile (\<lambda>x. snd x = 1) xs)) \<and>
      (\<forall>q. m_state (k_pcb k' q) =
        (if q \<in> fst ` set (takeWhile (\<lambda>x. snd x = 1) xs) then READY else m_state (k_pcb k q))))"
proof
  show "p \<notin> fst ` set xs \<longrightarrow>
      (\<exists>k'. putSleep p t k = Some (Inr k') \<and> sleepers k' (sleep_insert p (unat t) xs) \<and> sched_ready k' ys)"
  proof
    assume "p \<notin> fst ` set xs"
    then obtain k' where k': "putSleep p t k = Some (Inr k')" "sleepers k' (sleep_insert p (unat t) xs)"
      "\<not> m_locked (k_lock k')" "m_list k' = m_list k" "\<And>x. m_next (k_pcb k' x) = m_next (k_pcb k x)"
      by (rule putSleep_sleepers [OF assms(2) sched_readyD(1) [OF assms(1)]]) (rule that; assumption)
    have "sched_ready k' ys" using assms(1) k'(3-5) by (simp add: sched_ready_def split: option.splits)
    with k'(1,2) show "\<exists>k'. putSleep p t k = Some (Inr k') \<and> sleepers k' (sleep_insert p (unat t) xs) \<and> sched_ready k' ys"
      by blast
  qed
  have pos: "0 < snd x" if "x \<in> set xs" for x using assms(4) that by blast
  show "\<exists>k'. awake k = Some (Inr k') \<and>
      sleepers k' (earlier 1 (dropWhile (\<lambda>x. snd x = 1) xs)) \<and>
      sched_ready k' (ys @ map fst (takeWhile (\<lambda>x. snd x = 1) xs)) \<and>
      (\<forall>q. m_state (k_pcb k' q) =
        (if q \<in> fst ` set (takeWhile (\<lambda>x. snd x = 1) xs) then READY else m_state (k_pcb k q)))"
    by (rule awake_sleepers [OF assms(1-3) pos], assumption) blast
qed

theorem sleep_queue_refines_deadlines_witness:
  "(\<exists>k'. putSleep 6 4 demo_sched = Some (Inr k') \<and> sleepers k' [(3, 1), (4, 4), (6, 4), (5, 9)] \<and> sched_ready k' [1, 2]) \<and>
   (\<exists>k'. awake demo_sched = Some (Inr k') \<and> sleepers k' [(4, 3), (5, 8)] \<and> sched_ready k' [1, 2, 3] \<and>
      m_state (k_pcb k' 3) = READY)"
  using sleep_queue_refines_deadlines [OF demo_sched_ready demo_sleepers, where p = 6 and t = 4]
  by (auto simp: sleep_insert_def)

text \<open>
  \<^verbatim>\<open>Scheduler::wakeUp\<close> takes a sleeper out of the queue. The first or the last sleeper leaves
  the deadlines of the others as they are. For a sleeper in the middle the code adds its ticks to the sleeper
  itself and not to the one behind it, so everyone behind wakes earlier by the ticks between the
  woken sleeper and the one in front of it.
\<close>

theorem wakeUp_shortens_followers:
  assumes "sleepers k (us @ (p, t) # vs)" and "\<not> m_locked (k_lock k)"
  shows "\<exists>k'. wakeUp p k = Some (Inr k') \<and> \<not> m_locked (k_lock k') \<and>
     sleepers k' (us @ (if us = [] then vs else earlier (t - end_time 0 us) vs))"
  using wakeUp_sleepers [OF assms] unlock_sched_simps(5) by blast

theorem wakeUp_shortens_followers_witness:
  "\<exists>k'. wakeUp 4 demo_sched = Some (Inr k') \<and> \<not> m_locked (k_lock k') \<and> sleepers k' [(3, 1), (5, 6)]"
  using wakeUp_shortens_followers [of demo_sched "[(3, 1)]" 4 4 "[(5, 9)]"] demo_sleepers
  by (simp add: sched_readyD(1) [OF demo_sched_ready])

text \<open>
  \<^verbatim>\<open>Scheduler::wakeUp\<close> of a process that does not sleep returns without releasing the
  scheduler's lock. After it, no operation of the scheduler returns.
\<close>

theorem wakeUp_absent_blocks_scheduler:
  assumes "sleepers k xs" and "\<not> m_locked (k_lock k)" and "p \<notin> fst ` set xs"
  shows "\<exists>k'. wakeUp p k = Some (Inr k') \<and> Scheduler_put q k' = None \<and> Scheduler_get k' = None \<and>
     putSleep r t k' = None \<and> awake k' = None \<and> wakeUp r k' = None"
proof -
  let ?k1 = "k\<lparr>k_lock := \<lparr>m_locked = True, m_pie = k_sie k\<rparr>, k_sie := False\<rparr>"
  have c: "chain (\<lambda>p. m_nextSleep (k_pcb k p)) (m_sleepHead k) (map fst xs @ [])"
    using assms(1) by (simp add: sleepers_def queue_of_def)
  have "wakeUp p k = Some (Inr ?k1)"
    using wakeUp_find_spec [OF c, of p None] assms(3) lock_sched_free [OF assms(2)] by (simp add: wakeUp_def)
  moreover have "lock_sched ?k1 = None" by (rule lock_sched_held) simp
  then have "Scheduler_put q ?k1 = None" "Scheduler_get ?k1 = None" "putSleep r t ?k1 = None"
    "awake ?k1 = None" "wakeUp r ?k1 = None"
    by (simp_all add: Scheduler_put_def Scheduler_get_def putSleep_def awake_def wakeUp_def)
  ultimately show ?thesis by blast
qed

theorem wakeUp_absent_blocks_scheduler_witness:
  "\<exists>k'. wakeUp 1 demo_sched = Some (Inr k') \<and> Scheduler_put (Some 0) k' = None \<and> Scheduler_get k' = None \<and>
     putSleep 3 5 k' = None \<and> awake k' = None \<and> wakeUp 3 k' = None"
  using wakeUp_absent_blocks_scheduler [OF demo_sleepers sched_readyD(1) [OF demo_sched_ready], of 1 "Some 0" 3 5]
  by simp

end
