(* ===== verification/Sync.thy ===== *)
theory Sync
  imports Sched
begin

text \<open>
  Semaphores, conditions and futexes (\<^verbatim>\<open>kernel/proc/sync/sem.cpp\<close>, \<^verbatim>\<open>cond.cpp\<close>,
  \<^verbatim>\<open>futex.cpp\<close>). An operation that gives up the processor ends, in the model, with the
  dispatched process running; the statements behind the call of \<^verbatim>\<open>PCB::yield\<close> are the
  operation's \<open>resume\<close> part, which runs when the process is dispatched again.
\<close>

section \<open>State\<close>

record Semaphore =
  m_value :: u32
  m_blockedHead :: "pcbp option"
  m_blockedTail :: "pcbp option"
  sem_mlock :: Lock

definition Semaphore_ctor :: "u32 \<Rightarrow> Semaphore" where
  "Semaphore_ctor v = \<lparr>m_value = v, m_blockedHead = None, m_blockedTail = None, sem_mlock = Lock_ctor\<rparr>"

record FutexQueue =
  waitersHead :: "pcbp option"
  waitersTail :: "pcbp option"
  refCount :: u32

definition FUTEX_WAIT :: int where "FUTEX_WAIT = 0"
definition FUTEX_WAKE :: int where "FUTEX_WAKE = 1"
definition FUTEX_OK :: i64 where "FUTEX_OK = 0"
definition FUTEX_EAGAIN :: i64 where "FUTEX_EAGAIN = - 11"
definition FUTEX_EINVAL :: i64 where "FUTEX_EINVAL = - 22"
definition FUTEX_ETIMEDOUT :: i64 where "FUTEX_ETIMEDOUT = - 110"

text \<open>
  The table of futex queues is a hash map from physical addresses to queues; it appears here as the finite
  map it implements. A queue stays in the table while a waiter counts on it, so the pointer a waiter keeps is
  the entry at its key. \<open>k_uword\<close> is the user memory of the running process.
\<close>

record sstate = kstate +
  sems :: "semp \<Rightarrow> Semaphore"
  sem_slock :: Lock
  s_table :: "(u64 \<rightharpoonup> FutexQueue) option"
  fx_lock :: Lock
  k_pt :: ptmem
  k_uword :: "u64 \<Rightarrow> u32"

definition upd_sem :: "semp \<Rightarrow> (Semaphore \<Rightarrow> Semaphore) \<Rightarrow> sstate \<Rightarrow> sstate" where
  "upd_sem i f k = k\<lparr>sems := (sems k)(i := f (sems k i))\<rparr>"

definition lock_sem :: "semp \<Rightarrow> sstate \<Rightarrow> sstate run" where
  "lock_sem i k =
     (case acquire (sem_mlock (sems k i)) (k_sie k) of
        None \<Rightarrow> None
      | Some (l, sie) \<Rightarrow> Some (Inr ((upd_sem i (sem_mlock_update (\<lambda>_. l)) k)\<lparr>k_sie := sie\<rparr>)))"

definition unlock_sem :: "semp \<Rightarrow> sstate \<Rightarrow> sstate" where
  "unlock_sem i k =
     (case release (sem_mlock (sems k i)) (k_sie k) of
        (l, sie) \<Rightarrow> (upd_sem i (sem_mlock_update (\<lambda>_. l)) k)\<lparr>k_sie := sie\<rparr>)"

section \<open>Semaphores\<close>

definition pushBlocked :: "semp \<Rightarrow> pcbp \<Rightarrow> sstate \<Rightarrow> sstate" where
  "pushBlocked i p k =
     (let k1 = upd_pcb p (m_semNext_update (\<lambda>_. None)) k in
      case m_blockedTail (sems k1 i) of
        None \<Rightarrow> upd_sem i (\<lambda>s. s\<lparr>m_blockedHead := Some p, m_blockedTail := Some p\<rparr>) k1
      | Some t \<Rightarrow> upd_sem i (m_blockedTail_update (\<lambda>_. Some p)) (upd_pcb t (m_semNext_update (\<lambda>_. Some p)) k1))"

definition popBlocked :: "semp \<Rightarrow> sstate \<Rightarrow> pcbp option \<times> sstate" where
  "popBlocked i k =
     (case m_blockedHead (sems k i) of
        None \<Rightarrow> (None, k)
      | Some p \<Rightarrow>
          let h = m_semNext (k_pcb k p);
              k1 = upd_sem i (\<lambda>s. s\<lparr>m_blockedHead := h,
                     m_blockedTail := (if h = None then None else m_blockedTail s)\<rparr>) k in
          (Some p, upd_pcb p (\<lambda>x. x\<lparr>m_semNext := None, m_waitingOn := None\<rparr>) k1))"

definition unblock :: "semp \<Rightarrow> sstate \<Rightarrow> sstate run" where
  "unblock i k =
     (case popBlocked i k of
        (None, _) \<Rightarrow> Some (Inl NullDeref)
      | (Some p, k1) \<Rightarrow> Scheduler_put (Some p) (setState p READY k1))"

definition signalUnlocked :: "semp \<Rightarrow> sstate \<Rightarrow> sstate run" where
  "signalUnlocked i k =
     (if m_blockedHead (sems k i) = None then Some (Inr (upd_sem i (\<lambda>s. s\<lparr>m_value := m_value s + 1\<rparr>) k))
      else unblock i k)"

definition sem_signal :: "semp \<Rightarrow> sstate \<Rightarrow> sstate run" where
  "sem_signal i k =
     bindR (lock_sem i k) (\<lambda>k1.
       bindR (if m_blockedHead (sems k1 i) = None
              then Some (Inr (upd_sem i (\<lambda>s. s\<lparr>m_value := m_value s + 1\<rparr>) k1))
              else unblock i k1)
         (\<lambda>k2. Some (Inr (unlock_sem i k2))))"

definition sem_block :: "semp \<Rightarrow> sstate \<Rightarrow> sstate run" where
  "sem_block i k =
     (let running = s_running k;
          k1 = upd_pcb running (m_waitingOn_update (\<lambda>_. Some i)) (setState running BLOCKED k) in
      yield (unlock_sem i (pushBlocked i running k1)))"

definition sem_block_resume :: "pcbp \<Rightarrow> sstate \<Rightarrow> sstate" where
  "sem_block_resume running k = upd_pcb running (m_waitingOn_update (\<lambda>_. None)) k"

definition sem_wait :: "semp \<Rightarrow> sstate \<Rightarrow> sstate run" where
  "sem_wait i k =
     bindR (lock_sem i k) (\<lambda>k1.
       if m_value (sems k1 i) = 0 then sem_block i k1
       else Some (Inr (unlock_sem i (upd_sem i (\<lambda>s. s\<lparr>m_value := m_value s - 1\<rparr>) k1))))"

definition waitUnlocked :: "semp \<Rightarrow> sstate \<Rightarrow> sstate run" where
  "waitUnlocked i k =
     (if m_value (sems k i) = 0 then
        let running = s_running k in yield (pushBlocked i running (setState running BLOCKED k))
      else Some (Inr (upd_sem i (\<lambda>s. s\<lparr>m_value := m_value s - 1\<rparr>) k)))"

definition lock_semstatic :: "sstate \<Rightarrow> sstate run" where
  "lock_semstatic k =
     (case acquire (sem_slock k) (k_sie k) of
        None \<Rightarrow> None
      | Some (l, sie) \<Rightarrow> Some (Inr (k\<lparr>sem_slock := l, k_sie := sie\<rparr>)))"

definition unlock_semstatic :: "sstate \<Rightarrow> sstate" where
  "unlock_semstatic k = (case release (sem_slock k) (k_sie k) of (l, sie) \<Rightarrow> k\<lparr>sem_slock := l, k_sie := sie\<rparr>)"

definition signalWaitAtomic :: "semp \<Rightarrow> semp \<Rightarrow> sstate \<Rightarrow> sstate run" where
  "signalWaitAtomic toSignal toWait k =
     bindR (lock_semstatic k) (\<lambda>k1.
     bindR (signalUnlocked toSignal k1) (\<lambda>k2.
     bindR (lock_sem toWait k2) (\<lambda>k3.
       if m_value (sems k3 toWait) = 0 then
         let running = s_running k3;
             k4 = pushBlocked toWait running (setState running BLOCKED k3) in
         yield (unlock_semstatic (unlock_sem toWait k4))
       else
         Some (Inr (unlock_semstatic (unlock_sem toWait
           (upd_sem toWait (\<lambda>s. s\<lparr>m_value := m_value s - 1\<rparr>) k3)))))))"

text \<open>The search for the member of a queue in front of a given one.\<close>

partial_function (option) find_before :: "(pcbp \<Rightarrow> pcbp option) \<Rightarrow> pcbp \<Rightarrow> pcbp option \<Rightarrow> pcbp option run" where
  "find_before nx pcb cur =
     (case cur of
        None \<Rightarrow> Some (Inr None)
      | Some c \<Rightarrow> if nx c \<noteq> Some pcb then find_before nx pcb (nx c) else Some (Inr (Some c)))"

definition sem_forceRemove :: "semp \<Rightarrow> pcbp \<Rightarrow> sstate \<Rightarrow> sstate run" where
  "sem_forceRemove i pcb k =
     (let nx = m_semNext (k_pcb k pcb) in
      if m_blockedHead (sems k i) = Some pcb then
        Some (Inr (upd_pcb pcb (m_semNext_update (\<lambda>_. None))
          (upd_sem i (\<lambda>s. s\<lparr>m_blockedHead := nx,
             m_blockedTail := (if nx = None then None else m_blockedTail s)\<rparr>) k)))
      else
        bindR (find_before (\<lambda>p. m_semNext (k_pcb k p)) pcb (m_blockedHead (sems k i))) (\<lambda>cur.
          case cur of
            None \<Rightarrow> Some (Inr k)
          | Some c \<Rightarrow>
              Some (Inr (upd_pcb pcb (m_semNext_update (\<lambda>_. None))
                (upd_sem i (\<lambda>s. s\<lparr>m_blockedTail := (if m_blockedTail s = Some pcb then Some c else m_blockedTail s)\<rparr>)
                  (upd_pcb c (m_semNext_update (\<lambda>_. nx)) k))))))"

section \<open>Conditions\<close>

record Condition =
  m_mutex :: semp
  m_cond :: semp

definition cond_wait :: "Condition \<Rightarrow> sstate \<Rightarrow> sstate run" where
  "cond_wait c k = signalWaitAtomic (m_mutex c) (m_cond c) k"

definition cond_signal :: "Condition \<Rightarrow> sstate \<Rightarrow> sstate run" where
  "cond_signal c k =
     (if m_blockedHead (sems k (m_cond c)) \<noteq> None
      then bindR (sem_signal (m_cond c) k) (sem_wait (m_mutex c))
      else Some (Inr k))"

definition CondMutex_ctor :: "semp \<Rightarrow> sstate \<Rightarrow> sstate run" where
  "CondMutex_ctor mutex k = sem_wait mutex k"

definition CondMutex_dtor :: "semp \<Rightarrow> sstate \<Rightarrow> sstate run" where
  "CondMutex_dtor mutex k = sem_signal mutex k"

section \<open>Futexes\<close>

definition lock_fx :: "sstate \<Rightarrow> sstate run" where
  "lock_fx k =
     (case acquire (fx_lock k) (k_sie k) of
        None \<Rightarrow> None
      | Some (l, sie) \<Rightarrow> Some (Inr (k\<lparr>fx_lock := l, k_sie := sie\<rparr>)))"

definition unlock_fx :: "sstate \<Rightarrow> sstate" where
  "unlock_fx k = (case release (fx_lock k) (k_sie k) of (l, sie) \<Rightarrow> k\<lparr>fx_lock := l, k_sie := sie\<rparr>)"

definition fx_queue :: "u64 \<Rightarrow> sstate \<Rightarrow> FutexQueue option" where
  "fx_queue key k = (case s_table k of None \<Rightarrow> None | Some m \<Rightarrow> m key)"

definition set_fx :: "u64 \<Rightarrow> FutexQueue option \<Rightarrow> sstate \<Rightarrow> sstate" where
  "set_fx key q k = k\<lparr>s_table := Some ((case s_table k of None \<Rightarrow> Map.empty | Some m \<Rightarrow> m)(key := q))\<rparr>"

definition FutexQueue_push :: "pcbp \<Rightarrow> FutexQueue \<times> sstate \<Rightarrow> FutexQueue \<times> sstate" where
  "FutexQueue_push p qk =
     (let (q, k) = qk; k1 = upd_pcb p (m_futexNext_update (\<lambda>_. None)) k in
      case waitersTail q of
        None \<Rightarrow> (q\<lparr>waitersHead := Some p, waitersTail := Some p\<rparr>, k1)
      | Some t \<Rightarrow> (q\<lparr>waitersTail := Some p\<rparr>, upd_pcb t (m_futexNext_update (\<lambda>_. Some p)) k1))"

definition FutexQueue_pop :: "FutexQueue \<times> sstate \<Rightarrow> pcbp option \<times> FutexQueue \<times> sstate" where
  "FutexQueue_pop qk =
     (let (q, k) = qk in
      case waitersHead q of
        None \<Rightarrow> (None, qk)
      | Some p \<Rightarrow>
          let h = m_futexNext (k_pcb k p);
              q1 = q\<lparr>waitersHead := h, waitersTail := (if h = None then None else waitersTail q)\<rparr> in
          (Some p, q1, upd_pcb p (m_futexNext_update (\<lambda>_. None)) k))"

definition fx_push :: "u64 \<Rightarrow> pcbp \<Rightarrow> sstate \<Rightarrow> sstate" where
  "fx_push key p k =
     (case fx_queue key k of
        None \<Rightarrow> k
      | Some q \<Rightarrow> case FutexQueue_push p (q, k) of (q1, k1) \<Rightarrow> set_fx key (Some q1) k1)"

definition fx_pop :: "u64 \<Rightarrow> sstate \<Rightarrow> pcbp option \<times> sstate" where
  "fx_pop key k =
     (case fx_queue key k of
        None \<Rightarrow> (None, k)
      | Some q \<Rightarrow> case FutexQueue_pop (q, k) of (r, q1, k1) \<Rightarrow> (r, set_fx key (Some q1) k1))"

definition toPhysKey :: "u64 \<Rightarrow> sstate \<Rightarrow> u64" where
  "toPhysKey uaddr k =
     (if uaddr = 0 then 0
      else if uaddr AND 0x3 \<noteq> 0 then 0
      else let pmt = m_pmt (k_pcb k (s_running k)) in
           if pmt = 0 then 0 else translate pmt uaddr (k_pt k))"

definition getQueue :: "u64 \<Rightarrow> sstate \<Rightarrow> sstate" where
  "getQueue key k =
     (case fx_queue key k of
        Some q \<Rightarrow> k
      | None \<Rightarrow> set_fx key (Some \<lparr>waitersHead = None, waitersTail = None, refCount = 0\<rparr>) k)"

definition tryFreeQueue :: "u64 \<Rightarrow> sstate \<Rightarrow> sstate" where
  "tryFreeQueue key k =
     (case fx_queue key k of
        None \<Rightarrow> k
      | Some q \<Rightarrow> if refCount q = 0 \<and> waitersHead q = None then set_fx key None k else k)"

definition add_ref :: "u64 \<Rightarrow> u32 \<Rightarrow> sstate \<Rightarrow> sstate" where
  "add_ref key d k =
     (case fx_queue key k of None \<Rightarrow> k | Some q \<Rightarrow> set_fx key (Some (q\<lparr>refCount := refCount q + d\<rparr>)) k)"

text \<open>The result is the value returned, or \<open>None\<close> when the process waits.\<close>

definition futex_wait :: "u64 \<Rightarrow> u64 \<Rightarrow> u32 \<Rightarrow> u64 \<Rightarrow> sstate \<Rightarrow> (i64 option \<times> sstate) run" where
  "futex_wait key uaddr val timeout k =
     bindR (lock_fx k) (\<lambda>k1.
       if k_uword k1 uaddr \<noteq> val then Some (Inr (Some FUTEX_EAGAIN, unlock_fx k1))
       else
         let me = s_running k1;
             k2 = add_ref key 1 (getQueue key k1);
             k3 = setState me BLOCKED (upd_pcb me (m_waitingOnFutexKey_update (\<lambda>_. key)) k2);
             k4 = unlock_fx (fx_push key me k3) in
         bindR (if timeout > 0 then putSleep me timeout (setState me SLEEPING k4) else Some (Inr k4)) (\<lambda>k5.
         bindR (yield k5) (\<lambda>k6. Some (Inr (None, k6)))))"

definition futex_wait_resume :: "u64 \<Rightarrow> u64 \<Rightarrow> u32 \<Rightarrow> u64 \<Rightarrow> pcbp \<Rightarrow> sstate \<Rightarrow> (i64 \<times> sstate) run" where
  "futex_wait_resume key uaddr val timeout me k =
     bindR (lock_fx (upd_pcb me (m_waitingOnFutexKey_update (\<lambda>_. 0)) k)) (\<lambda>k1.
       let k2 = unlock_fx (tryFreeQueue key (add_ref key (- 1) k1)) in
       Some (Inr (if timeout > 0 \<and> k_uword k2 uaddr = val then FUTEX_ETIMEDOUT else FUTEX_OK, k2)))"

primrec wake_loop :: "nat \<Rightarrow> u64 \<Rightarrow> nat \<Rightarrow> sstate \<Rightarrow> (nat \<times> sstate) run" where
  "wake_loop 0 key woken k = Some (Inr (woken, k))"
| "wake_loop (Suc n) key woken k =
     (case fx_pop key k of
        (None, k1) \<Rightarrow> Some (Inr (woken, k1))
      | (Some p, k1) \<Rightarrow>
          bindR (if m_state (k_pcb k1 p) = SLEEPING then wakeUp p k1 else Some (Inr (setState p READY k1))) (\<lambda>k2.
          bindR (Scheduler_put (Some p) (unlock_fx k2)) (\<lambda>k3.
          bindR (lock_fx k3) (wake_loop n key (woken + 1)))))"

definition futex_wake :: "u64 \<Rightarrow> u32 \<Rightarrow> sstate \<Rightarrow> (i64 \<times> sstate) run" where
  "futex_wake key count k =
     bindR (lock_fx k) (\<lambda>k1.
       case fx_queue key k1 of
         None \<Rightarrow> Some (Inr (0, unlock_fx k1))
       | Some _ \<Rightarrow>
           bindR (wake_loop (unat count) key 0 k1) (\<lambda>(woken, k2).
             Some (Inr (of_nat woken, unlock_fx (tryFreeQueue key k2)))))"

definition futex_syscall :: "u64 \<Rightarrow> int \<Rightarrow> u32 \<Rightarrow> u64 \<Rightarrow> sstate \<Rightarrow> (i64 option \<times> sstate) run" where
  "futex_syscall uaddr op val timeout k =
     (let key = toPhysKey uaddr k in
      if key = 0 then Some (Inr (Some FUTEX_EINVAL, k))
      else if op = FUTEX_WAIT then futex_wait key uaddr val timeout k
      else if op = FUTEX_WAKE then bindR (futex_wake key val k) (\<lambda>(r, k1). Some (Inr (Some r, k1)))
      else Some (Inr (Some FUTEX_EINVAL, k)))"

definition fx_unlink :: "pcbp \<Rightarrow> FutexQueue \<times> sstate \<Rightarrow> (FutexQueue \<times> sstate) run" where
  "fx_unlink pcb qk =
     (let (q, k) = qk; nx = m_futexNext (k_pcb k pcb);
          clear = upd_pcb pcb (m_futexNext_update (\<lambda>_. None)) in
      if waitersHead q = Some pcb then
        Some (Inr (q\<lparr>waitersHead := nx, waitersTail := (if nx = None then None else waitersTail q)\<rparr>, clear k))
      else
        bindR (find_before (\<lambda>p. m_futexNext (k_pcb k p)) pcb (waitersHead q)) (\<lambda>cur.
          case cur of
            None \<Rightarrow> Some (Inr (q, clear k))
          | Some c \<Rightarrow>
              Some (Inr (q\<lparr>waitersTail := (if waitersTail q = Some pcb then Some c else waitersTail q)\<rparr>,
                clear (upd_pcb c (m_futexNext_update (\<lambda>_. nx)) k)))))"

definition futex_forceRemove :: "u64 \<Rightarrow> pcbp \<Rightarrow> sstate \<Rightarrow> sstate run" where
  "futex_forceRemove key pcb k =
     bindR (lock_fx k) (\<lambda>k1.
       case fx_queue key k1 of
         None \<Rightarrow> Some (Inr (unlock_fx k1))
       | Some q \<Rightarrow> bindR (fx_unlink pcb (q, k1)) (\<lambda>(q1, k2). Some (Inr (unlock_fx (set_fx key (Some q1) k2)))))"

section \<open>The queues of waiters\<close>

lemma find_before_spec:
  assumes "chain nx h (us @ [q, p] @ vs)"
  shows "find_before nx p h = Some (Inr (Some q))"
  using assms
proof (induction us arbitrary: h)
  case Nil
  then show ?case by (simp add: find_before.simps)
next
  case (Cons u us)
  have "nx u \<noteq> Some p"
    using chain_distinct [OF Cons.prems] Cons.prems by (cases us) auto
  then have "find_before nx p h = find_before nx p (nx u)"
    using Cons.prems by (subst find_before.simps) simp
  then show ?case using Cons.IH [of "nx u"] Cons.prems by simp
qed

text \<open>The state an operation that returns leaves behind.\<close>

definition left_by :: "'s \<Rightarrow> 's run \<Rightarrow> 's" where
  "left_by s r = (case r of Some (Inr s') \<Rightarrow> s' | _ \<Rightarrow> s)"

lemma left_by_simps [simp]: "left_by s (Some (Inr s')) = s'"
  by (simp add: left_by_def)

lemma inner_not_first: "queue_of nx h t (us @ [q, p] @ vs) \<Longrightarrow> h \<noteq> Some p"
  using chain_distinct [of nx h "us @ [q, p] @ vs"] by (cases us) (auto simp: queue_of_def)

lemma sem_forceRemove_inner:
  assumes "queue_of (\<lambda>p. m_semNext (k_pcb k p)) (m_blockedHead (sems k i)) (m_blockedTail (sems k i)) (us @ [q, p] @ vs)"
  shows "sem_forceRemove i p k =
    Some (Inr (upd_pcb p (m_semNext_update (\<lambda>_. None))
      (upd_sem i (\<lambda>s. s\<lparr>m_blockedTail := (if m_blockedTail s = Some p then Some q else m_blockedTail s)\<rparr>)
        (upd_pcb q (m_semNext_update (\<lambda>_. m_semNext (k_pcb k p))) k))))"
  using inner_not_first [OF assms] find_before_spec [of "\<lambda>p. m_semNext (k_pcb k p)" "m_blockedHead (sems k i)" us q p vs]
    assms
  by (simp add: sem_forceRemove_def Let_def queue_of_def)

interpretation sem_q: removable_queue
  "\<lambda>k p. m_semNext (k_pcb k p)" "\<lambda>k. m_blockedHead (sems k i)" "\<lambda>k. m_blockedTail (sems k i)"
  "pushBlocked i" "popBlocked i" "\<lambda>p k. left_by k (sem_forceRemove i p k)"
  for i
proof unfold_locales
  fix k :: sstate and p xs
  assume "queue_of (\<lambda>p. m_semNext (k_pcb k p)) (m_blockedHead (sems k i)) (m_blockedTail (sems k i)) (p # xs)"
  then have "m_blockedHead (sems k i) = Some p" by (simp add: queue_of_def)
  then show "(\<lambda>pa. m_semNext (k_pcb (left_by k (sem_forceRemove i p k)) pa)) = (\<lambda>p. m_semNext (k_pcb k p))(p := None) \<and>
    m_blockedHead (sems (left_by k (sem_forceRemove i p k)) i) = m_semNext (k_pcb k p) \<and>
    m_blockedTail (sems (left_by k (sem_forceRemove i p k)) i) =
      (if m_semNext (k_pcb k p) = None then None else m_blockedTail (sems k i))"
    by (simp add: sem_forceRemove_def Let_def upd_pcb_def upd_sem_def fun_eq_iff)
next
  fix k :: sstate and us q p vs
  assume "queue_of (\<lambda>p. m_semNext (k_pcb k p)) (m_blockedHead (sems k i)) (m_blockedTail (sems k i)) (us @ [q, p] @ vs)"
  from sem_forceRemove_inner [OF this]
  show "(\<lambda>pa. m_semNext (k_pcb (left_by k (sem_forceRemove i p k)) pa)) =
      (\<lambda>p. m_semNext (k_pcb k p))(q := m_semNext (k_pcb k p), p := None) \<and>
    m_blockedHead (sems (left_by k (sem_forceRemove i p k)) i) = m_blockedHead (sems k i) \<and>
    m_blockedTail (sems (left_by k (sem_forceRemove i p k)) i) =
      (if m_blockedTail (sems k i) = Some p then Some q else m_blockedTail (sems k i))"
    by (simp add: upd_pcb_def upd_sem_def fun_eq_iff)
qed (auto simp: pushBlocked_def popBlocked_def upd_pcb_def upd_sem_def Let_def fun_eq_iff split: option.splits)

lemma fx_unlink_inner:
  assumes "queue_of (\<lambda>p. m_futexNext (k_pcb k p)) (waitersHead w) (waitersTail w) (us @ [q, p] @ vs)"
  shows "fx_unlink p (w, k) =
    Some (Inr (w\<lparr>waitersTail := (if waitersTail w = Some p then Some q else waitersTail w)\<rparr>,
      upd_pcb p (m_futexNext_update (\<lambda>_. None)) (upd_pcb q (m_futexNext_update (\<lambda>_. m_futexNext (k_pcb k p))) k)))"
  using inner_not_first [OF assms] find_before_spec [of "\<lambda>p. m_futexNext (k_pcb k p)" "waitersHead w" us q p vs] assms
  by (simp add: fx_unlink_def Let_def queue_of_def)

interpretation fx_q: removable_queue
  "\<lambda>(q, k) p. m_futexNext (k_pcb k p)" "\<lambda>(q, k). waitersHead q" "\<lambda>(q, k). waitersTail q"
  FutexQueue_push FutexQueue_pop "\<lambda>p qk. left_by qk (fx_unlink p qk)"
proof unfold_locales
  fix s :: "FutexQueue \<times> sstate" and p xs
  assume a: "queue_of ((\<lambda>(q, k) p. m_futexNext (k_pcb k p)) s) ((\<lambda>(q, k). waitersHead q) s) ((\<lambda>(q, k). waitersTail q) s) (p # xs)"
  obtain w k where s: "s = (w, k)" by (cases s)
  have "waitersHead w = Some p" using a by (simp add: s queue_of_def)
  then show "(\<lambda>(q, k) p. m_futexNext (k_pcb k p)) (left_by s (fx_unlink p s)) = ((\<lambda>(q, k) p. m_futexNext (k_pcb k p)) s)(p := None) \<and>
    (\<lambda>(q, k). waitersHead q) (left_by s (fx_unlink p s)) = (\<lambda>(q, k) p. m_futexNext (k_pcb k p)) s p \<and>
    (\<lambda>(q, k). waitersTail q) (left_by s (fx_unlink p s)) =
      (if (\<lambda>(q, k) p. m_futexNext (k_pcb k p)) s p = None then None else (\<lambda>(q, k). waitersTail q) s)"
    by (simp add: s fx_unlink_def Let_def upd_pcb_def fun_eq_iff)
next
  fix s :: "FutexQueue \<times> sstate" and us q p vs
  assume a: "queue_of ((\<lambda>(q, k) p. m_futexNext (k_pcb k p)) s) ((\<lambda>(q, k). waitersHead q) s) ((\<lambda>(q, k). waitersTail q) s) (us @ [q, p] @ vs)"
  obtain w k where s: "s = (w, k)" by (cases s)
  from fx_unlink_inner [OF a [unfolded s prod.case]]
  show "(\<lambda>(q, k) p. m_futexNext (k_pcb k p)) (left_by s (fx_unlink p s)) =
      ((\<lambda>(q, k) p. m_futexNext (k_pcb k p)) s)(q := (\<lambda>(q, k) p. m_futexNext (k_pcb k p)) s p, p := None) \<and>
    (\<lambda>(q, k). waitersHead q) (left_by s (fx_unlink p s)) = (\<lambda>(q, k). waitersHead q) s \<and>
    (\<lambda>(q, k). waitersTail q) (left_by s (fx_unlink p s)) =
      (if (\<lambda>(q, k). waitersTail q) s = Some p then Some q else (\<lambda>(q, k). waitersTail q) s)"
    by (simp add: s upd_pcb_def fun_eq_iff)
qed (auto simp: FutexQueue_push_def FutexQueue_pop_def upd_pcb_def Let_def fun_eq_iff split: prod.splits option.splits)

section \<open>What the semaphore operations do\<close>

text \<open>
  \<open>sem_waiters i xs k\<close>: semaphore \<open>i\<close> is not locked, \<open>xs\<close> wait on it in this order, and it has
  no units left while someone waits.
\<close>

definition sem_queue :: "semp \<Rightarrow> pcbp list \<Rightarrow> sstate \<Rightarrow> bool" where
  "sem_queue i xs k \<longleftrightarrow>
     queue_of (\<lambda>p. m_semNext (k_pcb k p)) (m_blockedHead (sems k i)) (m_blockedTail (sems k i)) xs"

definition sem_waiters :: "semp \<Rightarrow> pcbp list \<Rightarrow> sstate \<Rightarrow> bool" where
  "sem_waiters i xs k \<longleftrightarrow>
     \<not> m_locked (sem_mlock (sems k i)) \<and> (xs \<noteq> [] \<longrightarrow> m_value (sems k i) = 0) \<and> sem_queue i xs k"

lemma more_eqD:
  assumes "kstate.more k' = kstate.more k"
  shows "sems k' = sems k" "sem_slock k' = sem_slock k" "s_table k' = s_table k" "fx_lock k' = fx_lock k"
    "k_pt k' = k_pt k" "k_uword k' = k_uword k"
  using assms by (cases k; cases k'; simp)+

lemma sem_queue_cong:
  "sems k' i = sems k i \<Longrightarrow> (\<And>q. m_semNext (k_pcb k' q) = m_semNext (k_pcb k q)) \<Longrightarrow> sem_queue i xs k' = sem_queue i xs k"
  by (simp add: sem_queue_def)

lemma pushBlocked_simps [simp]:
  "m_state (k_pcb (pushBlocked i p k) x) = m_state (k_pcb k x)"
  "m_next (k_pcb (pushBlocked i p k) x) = m_next (k_pcb k x)"
  "k_lock (pushBlocked i p k) = k_lock k" "m_list (pushBlocked i p k) = m_list k"
  "s_running (pushBlocked i p k) = s_running k" "k_sie (pushBlocked i p k) = k_sie k"
  "m_value (sems (pushBlocked i p k) i) = m_value (sems k i)"
  "sem_mlock (sems (pushBlocked i p k) i) = sem_mlock (sems k i)"
  by (simp_all add: pushBlocked_def Let_def upd_pcb_def upd_sem_def split: option.split)

lemma popBlocked_simps [simp]:
  "m_state (k_pcb (snd (popBlocked i k)) x) = m_state (k_pcb k x)"
  "m_next (k_pcb (snd (popBlocked i k)) x) = m_next (k_pcb k x)"
  "k_lock (snd (popBlocked i k)) = k_lock k" "m_list (snd (popBlocked i k)) = m_list k"
  "s_running (snd (popBlocked i k)) = s_running k" "k_sie (snd (popBlocked i k)) = k_sie k"
  "m_value (sems (snd (popBlocked i k)) i) = m_value (sems k i)"
  "sem_mlock (sems (snd (popBlocked i k)) i) = sem_mlock (sems k i)"
  by (simp_all add: popBlocked_def Let_def upd_pcb_def upd_sem_def split: option.split)

lemma upd_sem_simps [simp]:
  "k_pcb (upd_sem i f k) = k_pcb k" "k_lock (upd_sem i f k) = k_lock k" "m_list (upd_sem i f k) = m_list k"
  "s_running (upd_sem i f k) = s_running k" "k_sie (upd_sem i f k) = k_sie k"
  "sems (upd_sem i f k) = (sems k)(i := f (sems k i))"
  by (simp_all add: upd_sem_def)

lemma unlock_sem_simps [simp]:
  "k_pcb (unlock_sem i k) = k_pcb k" "k_lock (unlock_sem i k) = k_lock k" "m_list (unlock_sem i k) = m_list k"
  "s_running (unlock_sem i k) = s_running k"
  "\<not> m_locked (sem_mlock (sems (unlock_sem i k) i))"
  "m_value (sems (unlock_sem i k) i) = m_value (sems k i)"
  "m_blockedHead (sems (unlock_sem i k) i) = m_blockedHead (sems k i)"
  "m_blockedTail (sems (unlock_sem i k) i) = m_blockedTail (sems k i)"
  by (simp_all add: unlock_sem_def release_def)

lemma sem_queue_unlock [simp]: "sem_queue i xs (unlock_sem i k) = sem_queue i xs k"
  by (simp add: sem_queue_def)

lemma sched_ready_unlock_sem [simp]: "sched_ready (unlock_sem i k) ys = sched_ready k ys"
  by (rule sched_ready_cong) simp_all

lemma lock_sem_free:
  assumes "\<not> m_locked (sem_mlock (sems k i))"
  obtains k1 where "lock_sem i k = Some (Inr k1)" "k_pcb k1 = k_pcb k" "k_lock k1 = k_lock k" "m_list k1 = m_list k"
    "s_running k1 = s_running k" "m_value (sems k1 i) = m_value (sems k i)"
    "m_blockedHead (sems k1 i) = m_blockedHead (sems k i)" "m_blockedTail (sems k1 i) = m_blockedTail (sems k i)"
  using assms that by (simp add: lock_sem_def acquire_def)

lemma sem_signal_idle:
  assumes "sem_waiters i [] k" and "sched_ready k ys"
  obtains k' where "sem_signal i k = Some (Inr k')" "m_value (sems k' i) = m_value (sems k i) + 1"
    "sem_waiters i [] k'" "sched_ready k' ys"
proof -
  have free: "\<not> m_locked (sem_mlock (sems k i))" using assms(1) by (simp add: sem_waiters_def)
  obtain k1 where k1: "lock_sem i k = Some (Inr k1)" "k_pcb k1 = k_pcb k" "k_lock k1 = k_lock k" "m_list k1 = m_list k"
    "s_running k1 = s_running k" "m_value (sems k1 i) = m_value (sems k i)"
    "m_blockedHead (sems k1 i) = m_blockedHead (sems k i)" "m_blockedTail (sems k1 i) = m_blockedTail (sems k i)"
    by (rule lock_sem_free [OF free])
  let ?k' = "unlock_sem i (upd_sem i (\<lambda>s. s\<lparr>m_value := m_value s + 1\<rparr>) k1)"
  have q: "m_blockedHead (sems k i) = None" "m_blockedTail (sems k i) = None"
    using assms(1) by (simp_all add: sem_waiters_def sem_queue_def)
  have "sem_signal i k = Some (Inr ?k')" by (simp add: sem_signal_def k1 q)
  moreover have "sem_waiters i [] ?k'" by (simp add: sem_waiters_def sem_queue_def k1 q)
  moreover have "sched_ready ?k' ys" using assms(2) by (subst sched_ready_cong [of _ k]) (simp_all add: k1)
  ultimately show thesis using that [of ?k'] by (simp add: k1)
qed

lemma sem_signal_wakes:
  assumes "sem_waiters i (x # xs) k" and "sched_ready k ys" and "x \<notin> set ys"
  obtains k' where "sem_signal i k = Some (Inr k')" "m_value (sems k' i) = 0"
    "sem_waiters i xs k'" "sched_ready k' (ys @ [x])"
    "\<And>q. m_state (k_pcb k' q) = (if q = x then READY else m_state (k_pcb k q))"
proof -
  have free: "\<not> m_locked (sem_mlock (sems k i))" using assms(1) by (simp add: sem_waiters_def)
  obtain k1 where k1: "lock_sem i k = Some (Inr k1)" "k_pcb k1 = k_pcb k" "k_lock k1 = k_lock k" "m_list k1 = m_list k"
    "s_running k1 = s_running k" "m_value (sems k1 i) = m_value (sems k i)"
    "m_blockedHead (sems k1 i) = m_blockedHead (sems k i)" "m_blockedTail (sems k1 i) = m_blockedTail (sems k i)"
    by (rule lock_sem_free [OF free])
  have q1: "queue_of (\<lambda>p. m_semNext (k_pcb k1 p)) (m_blockedHead (sems k1 i)) (m_blockedTail (sems k1 i)) (x # xs)"
    and v1: "m_value (sems k1 i) = 0"
    using assms(1) by (simp_all add: sem_waiters_def sem_queue_def k1)
  define k2 where "k2 = snd (popBlocked i k1)"
  have p2: "popBlocked i k1 = (Some x, k2)" and q2: "sem_queue i xs k2"
    using sem_q.pop_queue [OF q1] by (simp_all add: k2_def sem_queue_def prod_eq_iff)
  have h1: "m_blockedHead (sems k1 i) \<noteq> None" using q1 by (simp add: queue_of_def)
  have r2: "sched_ready (setState x READY k2) ys"
    using assms(2) by (subst sched_ready_setState, subst sched_ready_cong [of _ k]) (simp_all add: k2_def k1)
  obtain k3 where k3: "Scheduler_put (Some x) (setState x READY k2) = Some (Inr k3)" "sched_ready k3 (ys @ [x])"
    "ready_frame (setState x READY k2) k3"
    by (rule Scheduler_put_ready [OF r2 assms(3)])
  have s3: "sems k3 = sems k2"
    using more_eqD(1) [OF ready_frameD(11) [OF k3(3)]] by (simp add: setState_def upd_pcb_def)
  have "sem_queue i xs k3"
    using q2 by (subst sem_queue_cong [of _ i k2]) (simp_all add: s3 ready_frameD(3) [OF k3(3)])
  moreover have "sem_signal i k = Some (Inr (unlock_sem i k3))"
    using k1(1) h1 by (auto simp add: sem_signal_def unblock_def p2 k3(1))
  moreover have "m_value (sems k3 i) = 0" by (simp add: s3 k2_def v1)
  ultimately show thesis
    using k3(2) that [of "unlock_sem i k3"] by (simp add: sem_waiters_def ready_frameD(1) [OF k3(3)] k2_def k1(2))
qed

lemma sem_wait_takes:
  assumes "sem_waiters i xs k" and "sched_ready k ys" and "m_value (sems k i) \<noteq> 0"
  obtains k' where "sem_wait i k = Some (Inr k')" "m_value (sems k' i) = m_value (sems k i) - 1"
    "sem_waiters i xs k'" "sched_ready k' ys" "s_running k' = s_running k"
proof -
  have free: "\<not> m_locked (sem_mlock (sems k i))" and xs: "xs = []" using assms(1,3) by (auto simp: sem_waiters_def)
  obtain k1 where k1: "lock_sem i k = Some (Inr k1)" "k_pcb k1 = k_pcb k" "k_lock k1 = k_lock k" "m_list k1 = m_list k"
    "s_running k1 = s_running k" "m_value (sems k1 i) = m_value (sems k i)"
    "m_blockedHead (sems k1 i) = m_blockedHead (sems k i)" "m_blockedTail (sems k1 i) = m_blockedTail (sems k i)"
    by (rule lock_sem_free [OF free])
  let ?k' = "unlock_sem i (upd_sem i (\<lambda>s. s\<lparr>m_value := m_value s - 1\<rparr>) k1)"
  have "sem_waiters i xs ?k'" using assms(1) by (simp add: sem_waiters_def sem_queue_def k1 xs)
  moreover have "sem_wait i k = Some (Inr ?k')" by (simp add: sem_wait_def k1 assms(3))
  moreover have "sched_ready ?k' ys" using assms(2) by (subst sched_ready_cong [of _ k]) (simp_all add: k1)
  ultimately show thesis using that [of ?k'] by (simp add: k1)
qed

lemma sem_wait_blocks:
  assumes "sem_waiters i xs k" and "sched_ready k ys" and "m_value (sems k i) = 0"
    and "s_running k \<notin> set xs"
    and "dropWhile (\<lambda>q. q = s_running k \<or> m_state (k_pcb k q) \<noteq> READY) ys = p # vs"
  obtains k' where "sem_wait i k = Some (Inr k')" "m_value (sems k' i) = 0"
    "sem_waiters i (xs @ [s_running k]) k'" "sched_ready k' vs" "s_running k' = p"
    "\<And>q. m_state (k_pcb k' q) = (if q = p then RUNNING else if q = s_running k then BLOCKED else m_state (k_pcb k q))"
proof -
  have free: "\<not> m_locked (sem_mlock (sems k i))" using assms(1) by (simp add: sem_waiters_def)
  obtain k1 where k1: "lock_sem i k = Some (Inr k1)" "k_pcb k1 = k_pcb k" "k_lock k1 = k_lock k" "m_list k1 = m_list k"
    "s_running k1 = s_running k" "m_value (sems k1 i) = m_value (sems k i)"
    "m_blockedHead (sems k1 i) = m_blockedHead (sems k i)" "m_blockedTail (sems k1 i) = m_blockedTail (sems k i)"
    by (rule lock_sem_free [OF free])
  let ?r = "s_running k"
  define k2 where "k2 = upd_pcb ?r (m_waitingOn_update (\<lambda>_. Some i)) (setState ?r BLOCKED k1)"
  define k3 where "k3 = unlock_sem i (pushBlocked i ?r k2)"
  have f2: "sems k2 = sems k1" "s_running k2 = ?r" "k_lock k2 = k_lock k" "m_list k2 = m_list k"
    "\<And>q. m_semNext (k_pcb k2 q) = m_semNext (k_pcb k q)" "\<And>q. m_next (k_pcb k2 q) = m_next (k_pcb k q)"
    "\<And>q. m_state (k_pcb k2 q) = (if q = ?r then BLOCKED else m_state (k_pcb k q))"
    by (simp_all add: k2_def upd_pcb_def setState_def k1)
  have q2: "queue_of (\<lambda>p. m_semNext (k_pcb k2 p)) (m_blockedHead (sems k2 i)) (m_blockedTail (sems k2 i)) xs"
    using assms(1) by (simp add: sem_waiters_def sem_queue_def f2 k1)
  have q3: "sem_queue i (xs @ [?r]) k3"
    using sem_q.push_queue [OF q2 assms(4)] by (simp add: k3_def sem_queue_def)
  have r3: "sched_ready k3 ys"
    unfolding k3_def using assms(2) by (subst sched_ready_unlock_sem, subst sched_ready_cong [of _ k]) (simp_all add: f2)
  have st3: "m_state (k_pcb k3 q) = (if q = ?r then BLOCKED else m_state (k_pcb k q))" for q
    by (simp add: k3_def f2)
  have run3: "s_running k3 = ?r" by (simp add: k3_def f2)
  have np: "\<not> preempted k3" by (simp add: preempted_def run3 st3)
  have "(\<lambda>q. \<not> runnable k3 q) = (\<lambda>q. q = ?r \<or> m_state (k_pcb k q) \<noteq> READY)"
    by (auto simp: runnable_def np st3 fun_eq_iff)
  then have cand: "candidates k3 ys = p # vs" using assms(5) np by (simp add: candidates_def)
  have e: "preempted k3 \<longrightarrow> s_running k3 \<notin> set ys" "\<not> (ys = [] \<and> preempted k3)" using np by simp_all
  obtain k' where k': "dispatch k3 = Some (Inr k')" "s_running k' = p" "sched_ready k' vs"
    "\<And>q. m_state (k_pcb k' q) = (if q = p then RUNNING
       else if preempted k3 \<and> q = s_running k3 then READY else m_state (k_pcb k3 q))"
    "\<And>q. m_semNext (k_pcb k' q) = m_semNext (k_pcb k3 q)" "kstate.more k' = kstate.more k3"
    by (rule dispatch_to [OF r3 e cand]) (rule that; assumption)
  have s': "sems k' = sems k3" by (rule more_eqD(1) [OF k'(6)])
  have v3: "m_value (sems k3 i) = 0" "\<not> m_locked (sem_mlock (sems k3 i))"
    using assms(3) by (simp_all add: k3_def f2 k1)
  have "sem_queue i (xs @ [?r]) k'" using q3 by (subst sem_queue_cong [of _ i k3]) (simp_all add: s' k'(5))
  moreover have "sem_wait i k = Some (Inr k')"
    using k'(1) by (simp add: sem_wait_def k1 assms(3) sem_block_def yield_def Let_def flip: k2_def k3_def)
  ultimately show thesis
    using that [of k'] k'(2,3) v3 by (simp add: sem_waiters_def s' k'(4) np st3)
qed

text \<open>A semaphore nobody uses, one with a unit, and one that process 6 waits on.\<close>

definition demo_sync :: sstate where
  "demo_sync = kstate.extend
     (demo_sched\<lparr>k_pcb := (k_pcb demo_sched)
        (6 := demo_pcb\<lparr>m_state := BLOCKED, m_waitingOn := Some 3\<rparr>,
         7 := demo_pcb\<lparr>m_state := BLOCKED, m_futexNext := Some 8\<rparr>,
         8 := demo_pcb\<lparr>m_state := BLOCKED\<rparr>)\<rparr>)
     (sstate.fields ((\<lambda>_. Semaphore_ctor 0)(2 := Semaphore_ctor 3,
        3 := \<lparr>m_value = 0, m_blockedHead = Some 6, m_blockedTail = Some 6, sem_mlock = Lock_ctor\<rparr>))
       Lock_ctor
       (Some [0x80001000 \<mapsto> \<lparr>waitersHead = Some 7, waitersTail = Some 8, refCount = 2\<rparr>,
              0x80002000 \<mapsto> \<lparr>waitersHead = Some 4, waitersTail = Some 4, refCount = 1\<rparr>])
       Lock_ctor (\<lambda>_ _. 0) (\<lambda>_. 0))"

lemmas demo_sync_defs = demo_sync_def demo_sched_def demo_pcb_def Lock_ctor_def Semaphore_ctor_def
  kstate.defs sstate.defs

lemma demo_sync_facts:
  "sched_ready demo_sync [1, 2]" "sem_waiters 2 [] demo_sync" "sem_waiters 3 [6] demo_sync"
  "s_running demo_sync = 0" "m_value (sems demo_sync 2) = 3" "m_value (sems demo_sync 3) = 0"
  by (simp_all add: sched_ready_def sem_waiters_def sem_queue_def demo_sync_defs queue_of_def nth_last_def)

text \<open>
  C8: a semaphore hands its units out in the order in which they were asked for.
  \<^verbatim>\<open>signal\<close> adds a unit when nobody waits and otherwise makes the longest waiting process ready,
  behind the processes that are ready already. \<^verbatim>\<open>wait\<close> takes a unit when there is one and otherwise puts the
  running process behind the other waiters and runs the next ready process.
  Each of them keeps the invariant that no unit is left while a process waits, and returns with the lock free.
\<close>

theorem semaphore_first_come_first_served:
  assumes "sem_waiters i xs k" and "sched_ready k ys"
  shows "(case xs of
      [] \<Rightarrow> \<exists>k'. sem_signal i k = Some (Inr k') \<and> m_value (sems k' i) = m_value (sems k i) + 1 \<and>
             sem_waiters i [] k' \<and> sched_ready k' ys
    | x # ws \<Rightarrow> x \<notin> set ys \<longrightarrow>
        (\<exists>k'. sem_signal i k = Some (Inr k') \<and> m_value (sems k' i) = 0 \<and>
              sem_waiters i ws k' \<and> sched_ready k' (ys @ [x]) \<and>
              (\<forall>q. m_state (k_pcb k' q) = (if q = x then READY else m_state (k_pcb k q))))) \<and>
    (if m_value (sems k i) \<noteq> 0 then
       \<exists>k'. sem_wait i k = Some (Inr k') \<and> m_value (sems k' i) = m_value (sems k i) - 1 \<and>
             sem_waiters i xs k' \<and> sched_ready k' ys \<and> s_running k' = s_running k
     else s_running k \<notin> set xs \<longrightarrow>
       (\<forall>p vs. dropWhile (\<lambda>q. q = s_running k \<or> m_state (k_pcb k q) \<noteq> READY) ys = p # vs \<longrightarrow>
         (\<exists>k'. sem_wait i k = Some (Inr k') \<and> m_value (sems k' i) = 0 \<and>
               sem_waiters i (xs @ [s_running k]) k' \<and> sched_ready k' vs \<and> s_running k' = p \<and>
               (\<forall>q. m_state (k_pcb k' q) =
                 (if q = p then RUNNING else if q = s_running k then BLOCKED else m_state (k_pcb k q))))))"
proof
  show "case xs of
      [] \<Rightarrow> \<exists>k'. sem_signal i k = Some (Inr k') \<and> m_value (sems k' i) = m_value (sems k i) + 1 \<and>
             sem_waiters i [] k' \<and> sched_ready k' ys
    | x # ws \<Rightarrow> x \<notin> set ys \<longrightarrow>
        (\<exists>k'. sem_signal i k = Some (Inr k') \<and> m_value (sems k' i) = 0 \<and>
              sem_waiters i ws k' \<and> sched_ready k' (ys @ [x]) \<and>
              (\<forall>q. m_state (k_pcb k' q) = (if q = x then READY else m_state (k_pcb k q))))"
  proof (cases xs)
    case Nil
    show ?thesis unfolding Nil list.case
      by (rule sem_signal_idle [OF assms [unfolded Nil]]) blast
  next
    case (Cons x ws)
    show ?thesis unfolding Cons list.case
      by (rule impI, rule sem_signal_wakes [OF assms [unfolded Cons]], assumption) blast
  qed
next
  show "if m_value (sems k i) \<noteq> 0 then
       \<exists>k'. sem_wait i k = Some (Inr k') \<and> m_value (sems k' i) = m_value (sems k i) - 1 \<and>
             sem_waiters i xs k' \<and> sched_ready k' ys \<and> s_running k' = s_running k
     else s_running k \<notin> set xs \<longrightarrow>
       (\<forall>p vs. dropWhile (\<lambda>q. q = s_running k \<or> m_state (k_pcb k q) \<noteq> READY) ys = p # vs \<longrightarrow>
         (\<exists>k'. sem_wait i k = Some (Inr k') \<and> m_value (sems k' i) = 0 \<and>
               sem_waiters i (xs @ [s_running k]) k' \<and> sched_ready k' vs \<and> s_running k' = p \<and>
               (\<forall>q. m_state (k_pcb k' q) =
                 (if q = p then RUNNING else if q = s_running k then BLOCKED else m_state (k_pcb k q)))))"
  proof (cases "m_value (sems k i) = 0")
    case False
    then show ?thesis unfolding if_P [OF False] by (rule sem_wait_takes [OF assms]) blast
  next
    case True
    have nz: "\<not> m_value (sems k i) \<noteq> 0" using True by simp
    show ?thesis unfolding if_not_P [OF nz]
      by (intro impI allI, rule sem_wait_blocks [OF assms True], assumption, assumption) blast
  qed
qed

theorem semaphore_first_come_first_served_witness:
  "(\<exists>k'. sem_signal 3 demo_sync = Some (Inr k') \<and> sem_waiters 3 [] k' \<and> sched_ready k' [1, 2, 6]) \<and>
   (\<exists>k'. sem_wait 2 demo_sync = Some (Inr k') \<and> m_value (sems k' 2) = 2) \<and>
   (\<exists>k'. sem_wait 3 demo_sync = Some (Inr k') \<and> sem_waiters 3 [6, 0] k' \<and> s_running k' = 1)"
proof -
  have d: "dropWhile (\<lambda>q. q = 0 \<or> m_state (k_pcb demo_sync q) \<noteq> READY) [1, 2] = [1, 2]"
    by (simp add: demo_sync_defs del: One_nat_def)
  show ?thesis
    using semaphore_first_come_first_served [OF demo_sync_facts(3,1)]
      semaphore_first_come_first_served [OF demo_sync_facts(2,1)] d
    by (auto simp: demo_sync_facts simp del: One_nat_def)
qed

section \<open>What the futex operations do\<close>

definition fx_waiters :: "u64 \<Rightarrow> pcbp list \<Rightarrow> u32 \<Rightarrow> sstate \<Rightarrow> bool" where
  "fx_waiters key ws rc k \<longleftrightarrow>
     (\<exists>q. fx_queue key k = Some q \<and> refCount q = rc \<and>
        queue_of (\<lambda>p. m_futexNext (k_pcb k p)) (waitersHead q) (waitersTail q) ws)"

lemma fx_waiters_cong:
  "s_table k' = s_table k \<Longrightarrow> (\<And>q. m_futexNext (k_pcb k' q) = m_futexNext (k_pcb k q)) \<Longrightarrow>
   fx_waiters key ws rc k' = fx_waiters key ws rc k"
  by (simp add: fx_waiters_def fx_queue_def)

lemma set_fx_simps [simp]:
  "k_pcb (set_fx key q k) = k_pcb k" "k_lock (set_fx key q k) = k_lock k" "m_list (set_fx key q k) = m_list k"
  "s_running (set_fx key q k) = s_running k" "k_sie (set_fx key q k) = k_sie k" "fx_lock (set_fx key q k) = fx_lock k"
  "m_sleepHead (set_fx key q k) = m_sleepHead k" "m_sleepTail (set_fx key q k) = m_sleepTail k"
  "fx_queue key (set_fx key q k) = q"
  by (simp_all add: set_fx_def fx_queue_def)

lemma unlock_fx_simps [simp]:
  "k_pcb (unlock_fx k) = k_pcb k" "k_lock (unlock_fx k) = k_lock k" "m_list (unlock_fx k) = m_list k"
  "s_running (unlock_fx k) = s_running k" "s_table (unlock_fx k) = s_table k" "\<not> m_locked (fx_lock (unlock_fx k))"
  "m_sleepHead (unlock_fx k) = m_sleepHead k" "m_sleepTail (unlock_fx k) = m_sleepTail k"
  by (simp_all add: unlock_fx_def release_def)

lemma lock_fx_free:
  assumes "\<not> m_locked (fx_lock k)"
  obtains k1 where "lock_fx k = Some (Inr k1)" "k_pcb k1 = k_pcb k" "k_lock k1 = k_lock k" "m_list k1 = m_list k"
    "s_running k1 = s_running k" "s_table k1 = s_table k" "m_sleepHead k1 = m_sleepHead k" "m_sleepTail k1 = m_sleepTail k"
  using assms that by (simp add: lock_fx_def acquire_def)

lemma setState_sync [simp]:
  "s_table (setState p st k) = s_table k" "fx_lock (setState p st k) = fx_lock k" "sems (setState p st k) = sems k"
  by (simp_all add: setState_def upd_pcb_def)

lemma fx_pop_some:
  assumes "fx_waiters key (x # ws) rc k"
  obtains k1 where "fx_pop key k = (Some x, k1)" "fx_waiters key ws rc k1"
    "\<And>q. m_state (k_pcb k1 q) = m_state (k_pcb k q)" "\<And>q. m_next (k_pcb k1 q) = m_next (k_pcb k q)"
    "\<And>q. m_nextSleep (k_pcb k1 q) = m_nextSleep (k_pcb k q)"
    "\<And>q. m_relativeSleepTime (k_pcb k1 q) = m_relativeSleepTime (k_pcb k q)"
    "k_lock k1 = k_lock k" "m_list k1 = m_list k" "s_running k1 = s_running k"
    "m_sleepHead k1 = m_sleepHead k" "m_sleepTail k1 = m_sleepTail k"
proof -
  obtain q where q: "fx_queue key k = Some q" "refCount q = rc"
    "queue_of (\<lambda>p. m_futexNext (k_pcb k p)) (waitersHead q) (waitersTail q) (x # ws)"
    using assms by (auto simp: fx_waiters_def)
  have h: "waitersHead q = Some x" using q(3) by (simp add: queue_of_def)
  obtain r q1 k1 where pop: "FutexQueue_pop (q, k) = (r, q1, k1)" by (cases "FutexQueue_pop (q, k)")
  have r: "r = Some x" and q1: "queue_of (\<lambda>p. m_futexNext (k_pcb k1 p)) (waitersHead q1) (waitersTail q1) ws"
    using fx_q.pop_queue [of "(q, k)" x ws] q(3) by (simp_all add: pop)
  have f: "refCount q1 = refCount q" "k1 = upd_pcb x (m_futexNext_update (\<lambda>_. None)) k"
    using pop h by (auto simp: FutexQueue_pop_def Let_def)
  show thesis
  proof (rule that)
    show "fx_pop key k = (Some x, set_fx key (Some q1) k1)" by (simp add: fx_pop_def q(1) pop r)
    show "fx_waiters key ws rc (set_fx key (Some q1) k1)" using q1 f(1) q(2) by (simp add: fx_waiters_def)
  qed (simp_all add: f(2) upd_pcb_def)
qed

lemma fx_pop_none:
  assumes "fx_waiters key [] rc k"
  shows "fx_pop key k = (None, k)"
proof -
  obtain q m where q: "s_table k = Some m" "m key = Some q" "waitersHead q = None"
    using assms by (auto simp: fx_waiters_def fx_queue_def split: option.splits)
  then have "set_fx key (Some q) k = k" by (cases k) (simp add: set_fx_def fun_upd_idem)
  with q show ?thesis by (simp add: fx_pop_def fx_queue_def FutexQueue_pop_def)
qed

lemma wake_loop_blocked:
  assumes "fx_waiters key ws rc k" and "sched_ready k ys" and "set ws \<inter> set ys = {}" and "distinct ws"
    and "\<And>w. w \<in> set ws \<Longrightarrow> m_state (k_pcb k w) \<noteq> SLEEPING"
  obtains k' where "wake_loop n key m k = Some (Inr (m + min n (length ws), k'))"
    "fx_waiters key (drop n ws) rc k'" "sched_ready k' (ys @ take n ws)" "s_running k' = s_running k"
    "\<And>q. m_state (k_pcb k' q) = (if q \<in> set (take n ws) then READY else m_state (k_pcb k q))"
  using assms
proof (induction n arbitrary: m k ws ys thesis)
  case 0
  then show ?case by simp
next
  case (Suc n)
  show ?case
  proof (cases ws)
    case Nil
    then have "wake_loop (Suc n) key m k = Some (Inr (m, k))"
      using fx_pop_none Suc.prems(2) by simp
    then show ?thesis using Suc.prems(1) [of k] Suc.prems(2,3) Nil by simp
  next
    case (Cons x us)
    obtain k1 where k1: "fx_pop key k = (Some x, k1)" "fx_waiters key us rc k1"
      "\<And>q. m_state (k_pcb k1 q) = m_state (k_pcb k q)" "\<And>q. m_next (k_pcb k1 q) = m_next (k_pcb k q)"
      "k_lock k1 = k_lock k" "m_list k1 = m_list k" "s_running k1 = s_running k"
      by (rule fx_pop_some [OF Suc.prems(2) [unfolded Cons]]) (rule that; assumption)
    have ns: "m_state (k_pcb k1 x) \<noteq> SLEEPING" using Suc.prems(6) [of x] by (simp add: Cons k1)
    define k2 where "k2 = unlock_fx (setState x READY k1)"
    have r2: "sched_ready k2 ys"
      using Suc.prems(3) by (subst sched_ready_cong [of _ k]) (simp_all add: k2_def k1)
    have xy: "x \<notin> set ys" using Suc.prems(4) Cons by auto
    obtain k3 where k3: "Scheduler_put (Some x) k2 = Some (Inr k3)" "sched_ready k3 (ys @ [x])" "ready_frame k2 k3"
      by (rule Scheduler_put_ready [OF r2 xy])
    note m3 = more_eqD [OF ready_frameD(11) [OF k3(3)]]
    have free3: "\<not> m_locked (fx_lock k3)" using m3(4) by (simp add: k2_def)
    obtain k4 where k4: "lock_fx k3 = Some (Inr k4)" "k_pcb k4 = k_pcb k3" "k_lock k4 = k_lock k3" "m_list k4 = m_list k3"
      "s_running k4 = s_running k3" "s_table k4 = s_table k3"
      by (rule lock_fx_free [OF free3]) (rule that; assumption)
    have run: "wake_loop (Suc n) key m k = wake_loop n key (m + 1) k4"
      by (simp add: k1(1) ns k3(1) k4(1) flip: k2_def)
    have t1: "s_table k2 = s_table k1" by (simp add: k2_def setState_def upd_pcb_def)
    have w4: "fx_waiters key us rc k4"
      using k1(2) by (subst fx_waiters_cong [of _ k1]) (simp_all add: k4 m3 t1 ready_frameD(4) [OF k3(3)] k2_def)
    have r4: "sched_ready k4 (ys @ [x])" using k3(2) by (subst sched_ready_cong [of _ k3]) (simp_all add: k4)
    have st4: "m_state (k_pcb k4 q) = (if q = x then READY else m_state (k_pcb k q))" for q
      by (simp add: k4 ready_frameD(1) [OF k3(3)] k2_def k1)
    have disj: "set us \<inter> set (ys @ [x]) = {}" "distinct us" "x \<notin> set us" using Suc.prems(4,5) Cons by auto
    have blk: "m_state (k_pcb k4 w) \<noteq> SLEEPING" if "w \<in> set us" for w
      using Suc.prems(6) [of w] that disj(3) by (auto simp: st4 Cons)
    obtain k' where k': "wake_loop n key (m + 1) k4 = Some (Inr (m + 1 + min n (length us), k'))"
      "fx_waiters key (drop n us) rc k'" "sched_ready k' ((ys @ [x]) @ take n us)" "s_running k' = s_running k4"
      "\<And>q. m_state (k_pcb k' q) = (if q \<in> set (take n us) then READY else m_state (k_pcb k4 q))"
      using Suc.IH [OF _ w4 r4 disj(1,2) blk] by blast
    show ?thesis
    proof (rule Suc.prems(1))
      show "wake_loop (Suc n) key m k = Some (Inr (m + min (Suc n) (length ws), k'))"
        unfolding run k'(1) Cons by simp
      show "s_running k' = s_running k" using k'(4) k4(5) ready_frameD(7) [OF k3(3)] by (simp add: k2_def k1)
    qed (use k' in \<open>auto simp: Cons st4\<close>)
  qed
qed

lemma tryFreeQueue_simps [simp]:
  "k_pcb (tryFreeQueue key k) = k_pcb k" "k_lock (tryFreeQueue key k) = k_lock k" "m_list (tryFreeQueue key k) = m_list k"
  "s_running (tryFreeQueue key k) = s_running k" "m_sleepHead (tryFreeQueue key k) = m_sleepHead k"
  "m_sleepTail (tryFreeQueue key k) = m_sleepTail k"
  by (simp_all add: tryFreeQueue_def split: option.split)

lemma tryFreeQueue_kept:
  assumes "fx_waiters key ws rc k" and "ws \<noteq> [] \<or> rc \<noteq> 0"
  shows "fx_waiters key ws rc (unlock_fx (tryFreeQueue key k))"
proof -
  obtain q where q: "fx_queue key k = Some q" "refCount q = rc"
    "queue_of (\<lambda>p. m_futexNext (k_pcb k p)) (waitersHead q) (waitersTail q) ws"
    using assms(1) by (auto simp: fx_waiters_def)
  have "waitersHead q \<noteq> None \<or> rc \<noteq> 0" using assms(2) q(3) chain_None_iff by (auto simp: queue_of_def)
  then have "tryFreeQueue key k = k" using q(1,2) by (auto simp: tryFreeQueue_def)
  then show ?thesis using assms(1) by (subst fx_waiters_cong [of _ k]) simp_all
qed

lemma fx_waiters_distinct: "fx_waiters key ws rc k \<Longrightarrow> distinct ws"
  by (auto simp: fx_waiters_def queue_of_def dest: chain_distinct)

lemma demo_fx_waiters:
  "fx_waiters 0x80001000 [7, 8] 2 demo_sync" "fx_waiters 0x80002000 [4] 1 demo_sync"
  "\<not> m_locked (fx_lock demo_sync)" "sleepers demo_sync [(3, 1), (4, 4), (5, 9)]"
  by (simp_all add: fx_waiters_def fx_queue_def sleepers_def demo_sync_defs queue_of_def nth_last_def)

text \<open>
  \<^verbatim>\<open>Futex::wake\<close> wakes as many waiters as asked for, at most all of them, in the order in
  which they began to wait, and returns their number. They become \<^verbatim>\<open>READY\<close> and join the end of the ready
  list; the others keep waiting, and the queue goes away only when nobody uses it.
\<close>

theorem futex_wake_in_order:
  assumes "fx_waiters key ws rc k" and "\<not> m_locked (fx_lock k)" and "sched_ready k ys" and "set ws \<inter> set ys = {}"
    and "\<forall>w \<in> set ws. m_state (k_pcb k w) = BLOCKED"
  shows "\<exists>k'. futex_wake key n k = Some (Inr (of_nat (min (unat n) (length ws)), k')) \<and>
     sched_ready k' (ys @ take (unat n) ws) \<and> s_running k' = s_running k \<and>
     (\<forall>q. m_state (k_pcb k' q) = (if q \<in> set (take (unat n) ws) then READY else m_state (k_pcb k q))) \<and>
     (drop (unat n) ws \<noteq> [] \<or> rc \<noteq> 0 \<longrightarrow> fx_waiters key (drop (unat n) ws) rc k')"
proof -
  obtain k1 where k1: "lock_fx k = Some (Inr k1)" "k_pcb k1 = k_pcb k" "k_lock k1 = k_lock k" "m_list k1 = m_list k"
    "s_running k1 = s_running k" "s_table k1 = s_table k"
    by (rule lock_fx_free [OF assms(2)]) (rule that; assumption)
  have w1: "fx_waiters key ws rc k1" using assms(1) by (subst fx_waiters_cong [of _ k]) (simp_all add: k1)
  have r1: "sched_ready k1 ys" using assms(3) by (subst sched_ready_cong [of _ k]) (simp_all add: k1)
  have b1: "m_state (k_pcb k1 w) \<noteq> SLEEPING" if "w \<in> set ws" for w using assms(5) that by (simp add: k1)
  obtain k2 where k2: "wake_loop (unat n) key 0 k1 = Some (Inr (0 + min (unat n) (length ws), k2))"
    "fx_waiters key (drop (unat n) ws) rc k2" "sched_ready k2 (ys @ take (unat n) ws)" "s_running k2 = s_running k1"
    "\<And>q. m_state (k_pcb k2 q) = (if q \<in> set (take (unat n) ws) then READY else m_state (k_pcb k1 q))"
    by (rule wake_loop_blocked [OF w1 r1 assms(4) fx_waiters_distinct [OF w1] b1, of "unat n" 0])
      (assumption, (rule that; assumption))
  obtain q where "fx_queue key k1 = Some q" using w1 by (auto simp: fx_waiters_def)
  then have "futex_wake key n k = Some (Inr (of_nat (min (unat n) (length ws)), unlock_fx (tryFreeQueue key k2)))"
    using k2(1) by (simp add: futex_wake_def k1(1))
  moreover have "sched_ready (unlock_fx (tryFreeQueue key k2)) (ys @ take (unat n) ws)"
    using k2(3) by (subst sched_ready_cong [of _ k2]) simp_all
  ultimately show ?thesis
    using tryFreeQueue_kept [OF k2(2)] k2(4,5) by (auto simp: k1)
qed

theorem futex_wake_in_order_witness:
  "\<exists>k'. futex_wake 0x80001000 1 demo_sync = Some (Inr (1, k')) \<and> sched_ready k' [1, 2, 7] \<and>
     m_state (k_pcb k' 7) = READY \<and> m_state (k_pcb k' 8) = BLOCKED \<and> fx_waiters 0x80001000 [8] 2 k'"
proof -
  have "\<forall>w \<in> set [7, 8]. m_state (k_pcb demo_sync w) = BLOCKED" by (simp add: demo_sync_defs)
  then show ?thesis
    using futex_wake_in_order [OF demo_fx_waiters(1,3) demo_sync_facts(1), of 1]
    by (simp add: demo_sync_defs split: if_splits)
qed

text \<open>
  a process that waits on a futex with a timeout is \<^verbatim>\<open>SLEEPING\<close> and in the sleep queue.
  \<^verbatim>\<open>Futex::wake\<close> counts it as woken and takes it out of both queues, but leaves its
  state \<^verbatim>\<open>SLEEPING\<close> when it puts it on the ready list. A process of the ready list in that state is
  never chosen by \<^verbatim>\<open>PCB::dispatch\<close>, so no queue is left from which it could be woken.
\<close>

theorem futex_wake_loses_timed_waiter:
  assumes "fx_waiters key (p # ws) rc k" and "\<not> m_locked (fx_lock k)" and "sched_ready k ys" and "p \<notin> set ys"
    and "sleepers k (us @ (p, t) # vs)" and "m_state (k_pcb k p) = SLEEPING" and "rc \<noteq> 0" and "p \<noteq> s_running k"
  shows "\<exists>k' xs. futex_wake key 1 k = Some (Inr (1, k')) \<and> sched_ready k' (ys @ [p]) \<and> \<not> runnable k' p \<and>
     fx_waiters key ws rc k' \<and> p \<notin> set ws \<and> sleepers k' xs \<and> p \<notin> fst ` set xs"
proof -
  obtain k1 where k1: "lock_fx k = Some (Inr k1)" "k_pcb k1 = k_pcb k" "k_lock k1 = k_lock k" "m_list k1 = m_list k"
    "s_running k1 = s_running k" "s_table k1 = s_table k" "m_sleepHead k1 = m_sleepHead k" "m_sleepTail k1 = m_sleepTail k"
    by (rule lock_fx_free [OF assms(2)])
  have w1: "fx_waiters key (p # ws) rc k1" using assms(1) by (subst fx_waiters_cong [of _ k]) (simp_all add: k1)
  obtain k2 where k2: "fx_pop key k1 = (Some p, k2)" "fx_waiters key ws rc k2"
    "\<And>q. m_state (k_pcb k2 q) = m_state (k_pcb k1 q)" "\<And>q. m_next (k_pcb k2 q) = m_next (k_pcb k1 q)"
    "\<And>q. m_nextSleep (k_pcb k2 q) = m_nextSleep (k_pcb k1 q)"
    "\<And>q. m_relativeSleepTime (k_pcb k2 q) = m_relativeSleepTime (k_pcb k1 q)"
    "k_lock k2 = k_lock k1" "m_list k2 = m_list k1" "s_running k2 = s_running k1"
    "m_sleepHead k2 = m_sleepHead k1" "m_sleepTail k2 = m_sleepTail k1"
    by (rule fx_pop_some [OF w1]) (rule that; assumption)
  have s2: "sleepers k2 (us @ (p, t) # vs)"
    using assms(5) by (subst sleepers_cong [of _ k]) (simp_all add: k1 k2)
  have l2: "\<not> m_locked (k_lock k2)" using sched_readyD(1) [OF assms(3)] by (simp add: k1 k2)
  define kw where "kw = wakeUp_done p (nth_last 0 (map fst us)) (k2\<lparr>k_lock := \<lparr>m_locked = True, m_pie = k_sie k2\<rparr>, k_sie := False\<rparr>)"
  define xs where "xs = us @ (if us = [] then vs else earlier (t - end_time 0 us) vs)"
  note w = wakeUp_sleepers [OF s2 l2, folded kw_def xs_def]
  have mw: "s_table kw = s_table k2" "fx_lock kw = fx_lock k2"
    using more_eqD [OF wakeUp_done_simps(8) [of p "nth_last 0 (map fst us)" "k2\<lparr>k_lock := \<lparr>m_locked = True, m_pie = k_sie k2\<rparr>, k_sie := False\<rparr>"]]
    by (simp_all add: kw_def)
  define k3 where "k3 = unlock_fx (unlock_sched kw)"
  have r3: "sched_ready k3 ys"
  proof -
    have "sched_ready (unlock_sched kw) ys"
      using assms(3) by (simp add: sched_ready_def kw_def k2 k1 split: option.splits)
    then show ?thesis unfolding k3_def by (subst sched_ready_cong [of _ "unlock_sched kw"]) simp_all
  qed
  obtain k4 where k4: "Scheduler_put (Some p) k3 = Some (Inr k4)" "sched_ready k4 (ys @ [p])" "ready_frame k3 k4"
    by (rule Scheduler_put_ready [OF r3 assms(4)])
  note m4 = more_eqD [OF ready_frameD(11) [OF k4(3)]]
  have free4: "\<not> m_locked (fx_lock k4)" using m4(4) by (simp add: k3_def)
  obtain k5 where k5: "lock_fx k4 = Some (Inr k5)" "k_pcb k5 = k_pcb k4" "k_lock k5 = k_lock k4" "m_list k5 = m_list k4"
    "s_running k5 = s_running k4" "s_table k5 = s_table k4" "m_sleepHead k5 = m_sleepHead k4" "m_sleepTail k5 = m_sleepTail k4"
    by (rule lock_fx_free [OF free4])
  define k' where "k' = unlock_fx (tryFreeQueue key k5)"
  have st: "m_state (k_pcb k2 p) = SLEEPING" using assms(6) by (simp add: k2 k1)
  have "wake_loop (unat (1 :: u32)) key 0 k1 = Some (Inr (1, k5))"
    using k2(1) st w(1) k4(1) k5(1) by (simp add: k3_def)
  moreover obtain q where "fx_queue key k1 = Some q" using w1 by (auto simp: fx_waiters_def)
  ultimately have run: "futex_wake key 1 k = Some (Inr (1, k'))"
    by (simp add: futex_wake_def k1(1) k'_def)
  have ut: "s_table (unlock_sched kw) = s_table k2"
    using more_eqD(3) [OF unlock_sched_simps(7) [of kw]] mw(1) by simp
  have w5: "fx_waiters key ws rc k5"
    using k2(2) by (subst fx_waiters_cong [of _ k2])
      (simp_all add: k5 m4 k3_def ut ready_frameD(4) [OF k4(3)], simp add: kw_def)
  have "fx_waiters key ws rc k'" unfolding k'_def by (rule tryFreeQueue_kept [OF w5]) (simp add: assms(7))
  moreover have "sched_ready k' (ys @ [p])"
    using k4(2) by (subst sched_ready_cong [of _ k4]) (simp_all add: k'_def k5)
  moreover have "\<not> runnable k' p"
    using st assms(8) by (simp add: runnable_def k'_def k5 ready_frameD [OF k4(3)] k3_def kw_def k2 k1 assms(6))
  moreover have "sleepers k' xs"
    using w(2) by (subst sleepers_cong [of _ "unlock_sched kw"])
      (simp_all add: k'_def k5 ready_frameD [OF k4(3)] k3_def)
  moreover have "p \<notin> fst ` set xs"
  proof -
    have "chain (\<lambda>p. m_nextSleep (k_pcb k p)) (m_sleepHead k) (map fst us @ p # map fst vs)"
      using assms(5) by (simp add: sleepers_def queue_of_def)
    then have "distinct (map fst us @ p # map fst vs)" by (rule chain_distinct)
    then have "p \<notin> set (map fst us)" "p \<notin> set (map fst vs)" by auto
    moreover have "map fst xs = map fst us @ map fst vs" by (simp add: xs_def o_def)
    ultimately have "p \<notin> set (map fst xs)" by simp
    then show ?thesis by simp
  qed
  moreover have "p \<notin> set ws" using fx_waiters_distinct [OF assms(1)] by simp
  ultimately show ?thesis using run by blast
qed

theorem futex_wake_loses_timed_waiter_witness:
  "\<exists>k' xs. futex_wake 0x80002000 1 demo_sync = Some (Inr (1, k')) \<and> sched_ready k' [1, 2, 4] \<and>
     \<not> runnable k' 4 \<and> fx_waiters 0x80002000 [] 1 k' \<and> sleepers k' xs \<and> 4 \<notin> fst ` set xs"
proof -
  have "sleepers demo_sync ([(3, 1)] @ (4, 4) # [(5, 9)])" "m_state (k_pcb demo_sync 4) = SLEEPING"
    using demo_fx_waiters(4) by (simp_all add: demo_sync_defs)
  from futex_wake_loses_timed_waiter [OF demo_fx_waiters(2,3) demo_sync_facts(1) _ this]
  show ?thesis by (simp add: demo_sync_facts)
qed

end
