(* ===== verification/UserAccess.thy ===== *)
theory UserAccess
  imports Mmap
begin

text \<open>
  What the kernel checks before it touches the memory of a process
  (\<^verbatim>\<open>Process::checkOperation\<close> in \<^verbatim>\<open>kernel/proc/process/process.h\<close>), and that memory seen as
  machine words, which is how the kernel copies structures to and from it.
\<close>

definition SEG_R :: u32 where "SEG_R = 0x2"
definition SEG_W :: u32 where "SEG_W = 0x4"
definition SEG_X :: u32 where "SEG_X = 0x8"

definition mmapOp :: "u32 \<Rightarrow> u32" where
  "mmapOp op =
     (if op AND SEG_R \<noteq> 0 then MMAP_PROT_READ else 0) OR
     (if op AND SEG_W \<noteq> 0 then MMAP_PROT_WRITE else 0) OR
     (if op AND SEG_X \<noteq> 0 then MMAP_PROT_EXEC else 0)"

definition checkOperation :: "SegmentTable \<Rightarrow> region list \<Rightarrow> u64 \<Rightarrow> u64 \<Rightarrow> u32 \<Rightarrow> bool" where
  "checkOperation segTable regions addr len op =
     (if addr > addr + len then False
      else if seg_checkOperation segTable addr (addr + len) op then True
      else mm_checkOperation regions addr (addr + len) (mmapOp op))"

section \<open>User memory as words\<close>

type_synonym umem = "u64 \<Rightarrow> u64"

primrec write_words :: "u64 \<Rightarrow> u64 list \<Rightarrow> umem \<Rightarrow> umem" where
  "write_words a [] m = m"
| "write_words a (w # ws) m = write_words (a + 8) ws (m(a := w))"

primrec read_words :: "u64 \<Rightarrow> nat \<Rightarrow> umem \<Rightarrow> u64 list" where
  "read_words a 0 m = []"
| "read_words a (Suc n) m = m a # read_words (a + 8) n m"

lemma length_read_words [simp]: "length (read_words a n m) = n"
  by (induction n arbitrary: a) auto

lemma read_words_nth: "i < n \<Longrightarrow> read_words a n m ! i = m (a + 8 * of_nat i)"
proof (induction n arbitrary: a i)
  case (Suc n)
  then show ?case by (cases i) (simp_all add: algebra_simps)
qed simp

lemma word_step_inj:
  assumes "i < 2 ^ 61" "j < 2 ^ 61" "8 * of_nat i = (8 * of_nat j :: u64)"
  shows "i = j"
proof -
  have "unat (8 * of_nat n :: u64) = 8 * n" if "n < 2 ^ 61" for n
    using that by (simp add: unat_word_ariths unat_of_nat)
  then have "8 * i = unat (8 * of_nat i :: u64)" "unat (8 * of_nat j :: u64) = 8 * j"
    using assms(1,2) by simp_all
  then have "8 * i = 8 * j" by (simp only: assms(3))
  then show ?thesis by simp
qed

lemma write_words_other:
  "(\<And>i. i < length ws \<Longrightarrow> b \<noteq> a + 8 * of_nat i) \<Longrightarrow> write_words a ws m b = m b"
proof (induction ws arbitrary: a m)
  case (Cons w ws)
  have "b \<noteq> a + 8 + 8 * of_nat i" if "i < length ws" for i
    using Cons.prems [of "Suc i"] that by (simp add: algebra_simps)
  moreover have "b \<noteq> a" using Cons.prems [of 0] by simp
  ultimately have "write_words (a + 8) ws (m(a := w)) b = (m(a := w)) b" by (intro Cons.IH)
  with \<open>b \<noteq> a\<close> show ?case by simp
qed simp

lemma write_words_nth:
  "length ws \<le> 2 ^ 61 \<Longrightarrow> i < length ws \<Longrightarrow> write_words a ws m (a + 8 * of_nat i) = ws ! i"
proof (induction ws arbitrary: a m i)
  case (Cons w ws)
  show ?case
  proof (cases i)
    case 0
    have "a \<noteq> a + 8 + 8 * of_nat j" if "j < length ws" for j
    proof
      assume "a = a + 8 + 8 * of_nat j"
      then have "8 * of_nat 0 = (8 * of_nat (Suc j) :: u64)" by (simp add: algebra_simps)
      then have "0 = Suc j" using Cons.prems(1) that by (intro word_step_inj) simp_all
      then show False by simp
    qed
    then have "write_words (a + 8) ws (m(a := w)) a = (m(a := w)) a" by (intro write_words_other)
    then show ?thesis by (simp add: 0)
  next
    case (Suc j)
    have "write_words (a + 8) ws (m(a := w)) (a + 8 + 8 * of_nat j) = ws ! j"
      using Cons.prems Suc by (intro Cons.IH) simp_all
    then show ?thesis by (simp add: Suc algebra_simps)
  qed
qed simp

lemma read_write_words:
  assumes "length ws \<le> 2 ^ 61"
  shows "read_words a (length ws) (write_words a ws m) = ws"
  using assms by (intro nth_equalityI) (simp_all add: read_words_nth write_words_nth)

end
