(* ===== verification/Signal.thy ===== *)
theory Signal
  imports UserAccess Sched
begin

text \<open>
  Signals: actions, pending and blocked signals, the delivery to a user handler and the return from it
  (\<^verbatim>\<open>kernel/proc/signal/\<close>, \<^verbatim>\<open>Process::sigprocmask\<close>, and the four signal system calls of
  \<^verbatim>\<open>kernel/trap/syscall/syscall.cpp\<close>). Every operation of \<^verbatim>\<open>SignalHandler\<close> holds its lock from
  its first to its last access, so each is one step here.
\<close>

section \<open>Signals and their default actions\<close>

definition SIGHUP :: int where "SIGHUP = 1"
definition SIGINT :: int where "SIGINT = 2"
definition SIGQUIT :: int where "SIGQUIT = 3"
definition SIGILL :: int where "SIGILL = 4"
definition SIGTRAP :: int where "SIGTRAP = 5"
definition SIGABRT :: int where "SIGABRT = 6"
definition SIGBUS :: int where "SIGBUS = 7"
definition SIGFPE :: int where "SIGFPE = 8"
definition SIGKILL :: int where "SIGKILL = 9"
definition SIGUSR1 :: int where "SIGUSR1 = 10"
definition SIGSEGV :: int where "SIGSEGV = 11"
definition SIGUSR2 :: int where "SIGUSR2 = 12"
definition SIGPIPE :: int where "SIGPIPE = 13"
definition SIGALRM :: int where "SIGALRM = 14"
definition SIGTERM :: int where "SIGTERM = 15"
definition SIGCHLD :: int where "SIGCHLD = 17"
definition SIGCONT :: int where "SIGCONT = 18"
definition SIGSTOP :: int where "SIGSTOP = 19"
definition SIGTSTP :: int where "SIGTSTP = 20"
definition SIGTTIN :: int where "SIGTTIN = 21"
definition SIGTTOU :: int where "SIGTTOU = 22"
definition NSIG :: nat where "NSIG = 32"

lemmas signal_numbers = SIGHUP_def SIGINT_def SIGQUIT_def SIGILL_def SIGTRAP_def SIGABRT_def SIGBUS_def SIGFPE_def
  SIGKILL_def SIGUSR1_def SIGSEGV_def SIGUSR2_def SIGPIPE_def SIGALRM_def SIGTERM_def SIGCHLD_def SIGCONT_def
  SIGSTOP_def SIGTSTP_def SIGTTIN_def SIGTTOU_def NSIG_def

definition SIG_DFL :: u64 where "SIG_DFL = 0"
definition SIG_IGN :: u64 where "SIG_IGN = 1"
definition SA_RESTORER :: u64 where "SA_RESTORER = push_bit 26 1"
definition USER_TRAMPOLINE_ADDR :: u64 where "USER_TRAMPOLINE_ADDR = 0x1000000000"

datatype SigDefaultAction = ActTERM | ActIGN | ActCORE | ActSTOP | ActCONT

definition sigDefaultAction :: "int \<Rightarrow> SigDefaultAction" where
  "sigDefaultAction signum =
     (if signum \<in> {SIGHUP, SIGINT} then ActTERM
      else if signum \<in> {SIGQUIT, SIGILL, SIGTRAP, SIGABRT, SIGBUS, SIGFPE} then ActCORE
      else if signum \<in> {SIGKILL, SIGUSR1} then ActTERM
      else if signum = SIGSEGV then ActCORE
      else if signum \<in> {SIGUSR2, SIGPIPE, SIGALRM, SIGTERM} then ActTERM
      else if signum = SIGCHLD then ActIGN
      else if signum = SIGCONT then ActCONT
      else if signum \<in> {SIGSTOP, SIGTSTP, SIGTTIN, SIGTTOU} then ActSTOP
      else ActTERM)"

definition sigUnblockable :: "int \<Rightarrow> bool" where
  "sigUnblockable signum \<longleftrightarrow> signum = SIGKILL \<or> signum = SIGSTOP"

definition sigBit :: "int \<Rightarrow> u64" where
  "sigBit signum = (if 1 \<le> signum \<and> signum < int NSIG then push_bit (nat (signum - 1)) 1 else 0)"

definition unblockable_bits :: u64 where
  "unblockable_bits = sigBit SIGKILL OR sigBit SIGSTOP"

section \<open>The signal state of a process\<close>

record SignalAction =
  sa_handler :: u64
  sa_flags :: u64
  sa_restorer :: u64
  sa_mask :: u64

definition default_action :: SignalAction where
  "default_action = \<lparr>sa_handler = SIG_DFL, sa_flags = 0, sa_restorer = 0, sa_mask = 0\<rparr>"

record SignalHandler =
  sh_refCount :: u32
  m_pending :: u64
  m_defaultMask :: u64
  m_actions :: "SignalAction list"

definition SignalHandler_ctor :: SignalHandler where
  "SignalHandler_ctor =
     \<lparr>sh_refCount = 1, m_pending = 0, m_defaultMask = 0, m_actions = replicate NSIG default_action\<rparr>"

definition sh_acquire :: "SignalHandler \<Rightarrow> SignalHandler" where
  "sh_acquire sh = sh\<lparr>sh_refCount := sh_refCount sh + 1\<rparr>"

definition sh_release :: "SignalHandler \<Rightarrow> bool \<times> SignalHandler" where
  "sh_release sh = (sh_refCount sh - 1 = 0, sh\<lparr>sh_refCount := sh_refCount sh - 1\<rparr>)"

definition sh_clone :: "SignalHandler \<Rightarrow> SignalHandler" where
  "sh_clone sh = SignalHandler_ctor\<lparr>m_actions := m_actions sh, m_defaultMask := m_defaultMask sh, m_pending := 0\<rparr>"

definition valid_signal :: "int \<Rightarrow> bool" where
  "valid_signal signum \<longleftrightarrow> \<not> (signum < 1 \<or> signum \<ge> int NSIG)"

definition sh_send :: "int \<Rightarrow> SignalHandler \<Rightarrow> SignalHandler" where
  "sh_send signum sh =
     (if \<not> valid_signal signum then sh
      else if \<not> sigUnblockable signum \<and> sa_handler (m_actions sh ! nat signum) = SIG_IGN then sh
      else sh\<lparr>m_pending := m_pending sh OR sigBit signum\<rparr>)"

definition hasPending :: "u64 \<Rightarrow> SignalHandler \<Rightarrow> bool" where
  "hasPending threadMask sh \<longleftrightarrow> m_pending sh AND NOT threadMask \<noteq> 0"

function first_bit :: "u64 \<Rightarrow> nat \<Rightarrow> nat" where
  "first_bit deliverable b =
     (if b < NSIG - 1 \<and> deliverable AND push_bit b 1 = 0 then first_bit deliverable (b + 1) else b)"
  by auto
termination
  by (relation "measure (\<lambda>(_, b). NSIG - b)") (rule wf_measure, simp only: in_measure prod.case, linarith)

definition dequeue :: "u64 \<Rightarrow> SignalHandler \<Rightarrow> int \<times> SignalHandler" where
  "dequeue threadMask sh =
     (let deliverable = m_pending sh AND NOT threadMask in
      if deliverable = 0 then (0, sh)
      else let b = first_bit deliverable 0 in
           (int b + 1, sh\<lparr>m_pending := m_pending sh AND NOT (push_bit b 1)\<rparr>))"

text \<open>\<open>setAction\<close> also gives the old action, which the caller stores where it was asked to.\<close>

definition setAction :: "int \<Rightarrow> SignalAction option \<Rightarrow> SignalHandler \<Rightarrow> int \<times> SignalAction option \<times> SignalHandler" where
  "setAction signum act sh =
     (if \<not> valid_signal signum then (- 1, None, sh)
      else if sigUnblockable signum \<and> act \<noteq> None then (- 1, None, sh)
      else (0, Some (m_actions sh ! nat signum),
        case act of
          None \<Rightarrow> sh
        | Some a \<Rightarrow> sh\<lparr>m_actions := (m_actions sh)[nat signum := a\<lparr>sa_mask := sa_mask a AND NOT unblockable_bits\<rparr>]\<rparr>))"

definition getAction :: "int \<Rightarrow> SignalHandler \<Rightarrow> SignalAction option" where
  "getAction signum sh = (if \<not> valid_signal signum then None else Some (m_actions sh ! nat signum))"

definition resetForExec :: "SignalHandler \<Rightarrow> SignalHandler" where
  "resetForExec sh =
     sh\<lparr>m_actions := map (\<lambda>a. if sa_handler a \<noteq> SIG_IGN then default_action else a) (m_actions sh)\<rparr>"

section \<open>Delivery and return\<close>

text \<open>The fields of \<^verbatim>\<open>TrapFrame\<close>, in the order of the structure.\<close>

datatype reg = SEPC | RA | SP | GP | TP | T0 | T1 | T2 | S0 | S1 | A0 | A1 | A2 | A3 | A4 | A5 | A6 | A7
  | S2 | S3 | S4 | S5 | S6 | S7 | S8 | S9 | S10 | S11 | T3 | T4 | T5 | T6 | KSTACK

definition TrapFrame_fields :: "reg list" where
  "TrapFrame_fields = [SEPC, RA, SP, GP, TP, T0, T1, T2, S0, S1, A0, A1, A2, A3, A4, A5, A6, A7,
     S2, S3, S4, S5, S6, S7, S8, S9, S10, S11, T3, T4, T5, T6, KSTACK]"

type_synonym TrapFrame = "reg \<Rightarrow> u64"

text \<open>\<^verbatim>\<open>SignalFrame\<close>: the signal, the fields of the trap frame, the mask to restore.\<close>

definition SignalFrame_words :: "u64 \<Rightarrow> TrapFrame \<Rightarrow> u64 \<Rightarrow> u64 list" where
  "SignalFrame_words signum tf saved_mask = signum # map tf TrapFrame_fields @ [saved_mask]"

definition sizeof_SignalFrame :: u64 where
  "sizeof_SignalFrame = 280"

text \<open>What the running thread and its process own of the state.\<close>

record sigstate =
  g_seg :: SegmentTable
  g_regions :: "region list"
  g_handler :: "SignalHandler option"
  g_mask :: u64
  g_mem :: umem

abbreviation g_check :: "sigstate \<Rightarrow> u64 \<Rightarrow> u64 \<Rightarrow> u32 \<Rightarrow> bool" where
  "g_check st \<equiv> checkOperation (g_seg st) (g_regions st)"

definition pushSignalFrame :: "u64 \<Rightarrow> u64 list \<Rightarrow> sigstate \<Rightarrow> (u64 \<times> sigstate) option" where
  "pushSignalFrame userSp frame st =
     (let sp = (userSp - sizeof_SignalFrame) AND NOT 15 in
      if \<not> g_check st sp sizeof_SignalFrame SEG_W then None
      else Some (sp, st\<lparr>g_mem := write_words sp frame (g_mem st)\<rparr>))"

text \<open>
  What \<^verbatim>\<open>signalDispatch\<close> asks of the process: nothing, to end because of the signal, to stop, or
  to exit with a code.
\<close>

datatype sig_effect = SigNone | SigExit int | SigStop int | SigKill int

definition executeDefault :: "int \<Rightarrow> sig_effect" where
  "executeDefault signum =
     (case sigDefaultAction signum of
        ActIGN \<Rightarrow> SigNone
      | ActTERM \<Rightarrow> SigExit signum
      | ActCORE \<Rightarrow> SigExit signum
      | ActSTOP \<Rightarrow> SigStop signum
      | ActCONT \<Rightarrow> SigNone)"

definition signalDispatch :: "TrapFrame \<Rightarrow> sigstate \<Rightarrow> sig_effect \<times> TrapFrame \<times> sigstate" where
  "signalDispatch tf st =
     (case g_handler st of
        None \<Rightarrow> (SigNone, tf, st)
      | Some sh \<Rightarrow>
          let threadMask = g_mask st; (signum, sh1) = dequeue threadMask sh; st1 = st\<lparr>g_handler := Some sh1\<rparr> in
          if signum = 0 then (SigNone, tf, st1)
          else
            (case getAction signum sh1 of
               None \<Rightarrow> (SigNone, tf, st1)
             | Some action \<Rightarrow>
                 if sa_handler action = SIG_DFL then (executeDefault signum, tf, st1)
                 else if sa_handler action = SIG_IGN then (SigNone, tf, st1)
                 else
                   (case pushSignalFrame (tf SP) (SignalFrame_words (of_int signum) tf threadMask) st1 of
                      None \<Rightarrow> (SigKill (- SIGSEGV), tf, st1)
                    | Some (newSp, st2) \<Rightarrow>
                        let restorerAddr =
                              (if sa_flags action AND SA_RESTORER \<noteq> 0 \<and> sa_restorer action \<noteq> 0
                               then sa_restorer action else USER_TRAMPOLINE_ADDR) in
                        (SigNone,
                         tf(SP := newSp, A0 := of_int signum, RA := restorerAddr, SEPC := sa_handler action),
                         st2\<lparr>g_mask := threadMask OR (sa_mask action AND NOT unblockable_bits)\<rparr>))))"

primrec load_fields :: "reg list \<Rightarrow> u64 list \<Rightarrow> TrapFrame \<Rightarrow> TrapFrame" where
  "load_fields [] ws tf = tf"
| "load_fields (r # rs) ws tf = load_fields rs (tl ws) (tf(r := hd ws))"

definition sys_rt_sigreturn :: "TrapFrame \<Rightarrow> sigstate \<Rightarrow> u64 \<times> TrapFrame \<times> sigstate" where
  "sys_rt_sigreturn tf st =
     (let sp = tf SP in
      if \<not> g_check st sp sizeof_SignalFrame SEG_R then (- 14, tf, st)
      else
        let frame = read_words sp 35 (g_mem st);
            tf1 = load_fields TrapFrame_fields (tl frame) tf in
        (tf1 A0, tf1, st\<lparr>g_mask := frame ! 34\<rparr>))"

definition sigprocmask :: "int \<Rightarrow> u64 option \<Rightarrow> u64 \<Rightarrow> int \<times> u64" where
  "sigprocmask how newset m_sigMask =
     (case newset of
        None \<Rightarrow> (0, m_sigMask)
      | Some s \<Rightarrow>
          let newMask = (if how = 0 then Some (m_sigMask OR s)
                         else if how = 1 then Some (m_sigMask AND NOT s)
                         else if how = 2 then Some s else None) in
          (case newMask of None \<Rightarrow> (- 1, m_sigMask) | Some m \<Rightarrow> (0, m AND NOT unblockable_bits)))"

definition sys_rt_sigprocmask :: "TrapFrame \<Rightarrow> sigstate \<Rightarrow> u64 \<times> sigstate" where
  "sys_rt_sigprocmask tf st =
     (let how = sint (ucast (tf A0) :: i32); setPtr = tf A1; oldPtr = tf A2 in
      if setPtr \<noteq> 0 \<and> \<not> g_check st setPtr 8 SEG_R then (- 14, st)
      else
        let kold = g_mask st;
            (ret, newMask) = sigprocmask how (if setPtr \<noteq> 0 then Some (g_mem st setPtr) else None) (g_mask st);
            st1 = st\<lparr>g_mask := newMask\<rparr> in
        if ret \<noteq> 0 then (of_int ret, st1)
        else if oldPtr \<noteq> 0 then
          if \<not> g_check st1 oldPtr 8 SEG_W then (- 14, st1)
          else (0, st1\<lparr>g_mem := (g_mem st1)(oldPtr := kold)\<rparr>)
        else (0, st1))"

definition SignalAction_words :: "SignalAction \<Rightarrow> u64 list" where
  "SignalAction_words a = [sa_handler a, sa_flags a, sa_restorer a, sa_mask a]"

definition SignalAction_of :: "u64 list \<Rightarrow> SignalAction" where
  "SignalAction_of ws = \<lparr>sa_handler = ws ! 0, sa_flags = ws ! 1, sa_restorer = ws ! 2, sa_mask = ws ! 3\<rparr>"

definition sys_rt_sigaction :: "TrapFrame \<Rightarrow> sigstate \<Rightarrow> u64 \<times> sigstate" where
  "sys_rt_sigaction tf st =
     (let signum = sint (ucast (tf A0) :: i32); actPtr = tf A1; oldPtr = tf A2 in
      if actPtr \<noteq> 0 \<and> \<not> g_check st actPtr 32 SEG_R then (- 14, st)
      else
        let kact = (if actPtr \<noteq> 0 then Some (SignalAction_of (read_words actPtr 4 (g_mem st))) else None) in
        (case g_handler st of
           None \<Rightarrow> (- 1, st)
         | Some sh \<Rightarrow>
             let (ret, kold, sh1) = setAction signum kact sh; st1 = st\<lparr>g_handler := Some sh1\<rparr> in
             if ret \<noteq> 0 then (of_int ret, st1)
             else if oldPtr \<noteq> 0 then
               if \<not> g_check st1 oldPtr 32 SEG_W then (- 14, st1)
               else (0, st1\<lparr>g_mem := write_words oldPtr (SignalAction_words (the kold)) (g_mem st1)\<rparr>)
             else (0, st1)))"

definition sys_rt_sigpending :: "TrapFrame \<Rightarrow> u64 \<Rightarrow> sigstate \<Rightarrow> u64 \<times> sigstate" where
  "sys_rt_sigpending tf procMask st =
     (let setPtr = tf A0 in
      if setPtr = 0 then (- 1, st)
      else if \<not> g_check st setPtr 8 SEG_W then (- 14, st)
      else
        let pending = (case g_handler st of
               None \<Rightarrow> 0
             | Some sh \<Rightarrow> if hasPending procMask sh then procMask else 0) in
        (0, st\<lparr>g_mem := (g_mem st)(setPtr := pending)\<rparr>))"

section \<open>Well-formed signal states\<close>

text \<open>
  A handler has one action per signal, only signals 1 to 31 pending, and no action that blocks
  \<^verbatim>\<open>SIGKILL\<close> or \<^verbatim>\<open>SIGSTOP\<close>.
\<close>

definition sh_wf :: "SignalHandler \<Rightarrow> bool" where
  "sh_wf sh \<longleftrightarrow> length (m_actions sh) = NSIG \<and> (\<forall>b. bit (m_pending sh) b \<longrightarrow> b < 31) \<and>
     (\<forall>a \<in> set (m_actions sh). sa_mask a AND unblockable_bits = 0)"

declare first_bit.simps [simp del]

lemma bit_push_one: "bit (2 ^ n :: u64) b \<longleftrightarrow> b = n \<and> n < 64"
  by (auto simp: bit_simps)

lemma nonzero_bit: "(w :: u64) \<noteq> 0 \<longleftrightarrow> (\<exists>n. bit w n)"
  by (metis bit_0_eq bit_eqI bot_apply bot_bool_def)

lemma and_push_bit: "w AND push_bit b 1 \<noteq> 0 \<longleftrightarrow> bit (w :: u64) b"
  by (auto simp: nonzero_bit bit_and_iff bit_push_one dest: bit_imp_le_length)

lemma bit_sigBit: "bit (sigBit s) b \<longleftrightarrow> valid_signal s \<and> b = nat (s - 1)"
  by (auto simp: sigBit_def valid_signal_def bit_push_one NSIG_def)

lemma SignalHandler_ctor_wf: "sh_wf SignalHandler_ctor"
  by (simp add: sh_wf_def SignalHandler_ctor_def default_action_def)

lemma sh_clone_wf: "sh_wf sh \<Longrightarrow> sh_wf (sh_clone sh)"
  by (simp add: sh_wf_def sh_clone_def)

lemma resetForExec_wf: "sh_wf sh \<Longrightarrow> sh_wf (resetForExec sh)"
  by (auto simp: sh_wf_def resetForExec_def default_action_def)

lemma sh_send_wf: "sh_wf sh \<Longrightarrow> sh_wf (sh_send s sh)"
  by (auto simp: sh_wf_def sh_send_def bit_or_iff bit_sigBit valid_signal_def NSIG_def)

lemma and_not_and: "(x AND NOT u) AND u = (0 :: u64)"
  by (rule bit_eqI) (auto simp: bit_simps)

lemma setAction_wf:
  assumes "sh_wf sh"
  shows "sh_wf (snd (snd (setAction s act sh)))"
proof (cases act)
  case (Some a)
  let ?a = "a\<lparr>sa_mask := sa_mask a AND NOT unblockable_bits\<rparr>"
  have "set ((m_actions sh)[nat s := ?a]) \<subseteq> insert ?a (set (m_actions sh))" by (rule set_update_subset_insert)
  moreover have "sa_mask ?a AND unblockable_bits = 0" by (simp add: and_not_and)
  ultimately have "\<forall>x \<in> set ((m_actions sh)[nat s := ?a]). sa_mask x AND unblockable_bits = 0"
    using assms unfolding sh_wf_def by blast
  then show ?thesis using assms by (simp add: setAction_def Some sh_wf_def)
qed (use assms in \<open>simp add: setAction_def\<close>)

lemma first_bit_spec:
  assumes "bit w c" and "b \<le> c" and "c < 31" and "\<And>j. j < b \<Longrightarrow> \<not> bit w j"
  shows "bit w (first_bit w b) \<and> first_bit w b < 31 \<and> (\<forall>j < first_bit w b. \<not> bit w j)"
  using assms
proof (induction w b rule: first_bit.induct)
  case (1 w b)
  show ?case
  proof (cases "bit w b")
    case True
    then have "w AND push_bit b 1 \<noteq> 0" by (simp only: and_push_bit)
    then have "first_bit w b = b" by (subst first_bit.simps) simp
    then show ?thesis using True "1.prems" by auto
  next
    case False
    then have lt: "b < c" using "1.prems"(1,2) by (metis le_neq_implies_less)
    have cond: "b < NSIG - 1 \<and> w AND push_bit b 1 = 0"
      using False lt "1.prems"(3) and_push_bit [of w b] by (auto simp: NSIG_def)
    then have "first_bit w b = first_bit w (b + 1)" by (subst first_bit.simps) simp
    moreover have "\<not> bit w j" if "j < b + 1" for j
      using that False "1.prems"(4) [of j] by (cases "j = b") auto
    ultimately show ?thesis using "1.IH" [OF cond "1.prems"(1)] lt "1.prems"(3) by simp
  qed
qed

lemma dequeue_spec:
  assumes "sh_wf sh" and "m_pending sh AND NOT threadMask \<noteq> 0"
  obtains n where "dequeue threadMask sh = (int n + 1, sh\<lparr>m_pending := m_pending sh AND NOT (push_bit n 1)\<rparr>)"
    "n < 31" "bit (m_pending sh) n" "\<not> bit threadMask n"
    "\<And>j. j < n \<Longrightarrow> bit (m_pending sh) j \<Longrightarrow> bit threadMask j"
proof -
  let ?w = "m_pending sh AND NOT threadMask"
  obtain c where c: "bit ?w c" using assms(2) unfolding nonzero_bit by blast
  have "c < 31" using c assms(1) by (auto simp: sh_wf_def bit_and_iff)
  then have f: "bit ?w (first_bit ?w 0) \<and> first_bit ?w 0 < 31 \<and> (\<forall>j < first_bit ?w 0. \<not> bit ?w j)"
    using first_bit_spec [of ?w c 0] c by simp
  show thesis
  proof (rule that)
    show "dequeue threadMask sh =
        (int (first_bit ?w 0) + 1, sh\<lparr>m_pending := m_pending sh AND NOT (push_bit (first_bit ?w 0) 1)\<rparr>)"
      unfolding dequeue_def Let_def if_not_P [OF assms(2)] ..
    show "first_bit ?w 0 < 31" "bit (m_pending sh) (first_bit ?w 0)" "\<not> bit threadMask (first_bit ?w 0)"
      using f by (simp_all add: bit_and_iff bit_not_iff)
    fix j assume "j < first_bit ?w 0" "bit (m_pending sh) j"
    moreover from this have "j < 64" using f by simp
    ultimately show "bit threadMask j" using f by (auto simp: bit_and_iff bit_not_iff)
  qed
qed

lemma dequeue_wf: "sh_wf sh \<Longrightarrow> sh_wf (snd (dequeue m sh))"
  by (simp add: dequeue_def sh_wf_def Let_def bit_and_iff)

section \<open>Properties\<close>

lemma load_fields_map:
  "load_fields rs (map tf rs @ ys) tf2 r = (if r \<in> set rs then tf r else tf2 r)"
  by (induction rs arbitrary: tf2) auto

lemma TrapFrame_fields_all: "r \<in> set TrapFrame_fields"
  by (cases r) (simp_all add: TrapFrame_fields_def)

lemma length_frame: "length (SignalFrame_words s tf m) = 35"
  by (simp add: SignalFrame_words_def TrapFrame_fields_def)

lemma sigreturn_of_frame:
  assumes "tf2 SP = sp" and "g_check st2 sp sizeof_SignalFrame SEG_R"
    and "read_words sp 35 (g_mem st2) = SignalFrame_words s tf m"
  shows "sys_rt_sigreturn tf2 st2 = (tf A0, tf, st2\<lparr>g_mask := m\<rparr>)"
proof -
  have "load_fields TrapFrame_fields (map tf TrapFrame_fields @ [m]) tf2 = tf"
    by (rule ext) (simp add: load_fields_map TrapFrame_fields_all)
  moreover have "SignalFrame_words s tf m ! 34 = m"
    by (simp add: SignalFrame_words_def nth_append TrapFrame_fields_def)
  ultimately show ?thesis
    using assms by (simp add: sys_rt_sigreturn_def Let_def) (simp add: SignalFrame_words_def)
qed

definition demo_signal :: sigstate where
  "demo_signal = \<lparr>g_seg = SegmentTable_ctor\<lparr>m_stack := Some \<lparr>sd_type = STACK, sd_flags = 6, sd_start = 0x10000, sd_end = 0x20000\<rparr>\<rparr>,
     g_regions = [],
     g_handler = Some (SignalHandler_ctor\<lparr>m_pending := 0x206,
       m_actions := (replicate NSIG default_action)[3 := \<lparr>sa_handler = 0x4000, sa_flags = 0, sa_restorer = 0, sa_mask = 0xE00\<rparr>]\<rparr>),
     g_mask = 2, g_mem = (\<lambda>_. 0)\<rparr>"

lemma demo_check:
  assumes "op = SEG_R \<or> op = SEG_W"
  shows "g_check demo_signal 0x17EE0 sizeof_SignalFrame op"
proof -
  have "seg_checkOperation (g_seg demo_signal) 0x17FF8 0x17FF8 op" for op
    by (subst seg_checkOperation.simps) simp
  then have "seg_checkOperation (g_seg demo_signal) 0x17EE0 0x17FF8 op"
    using assms
    by (subst seg_checkOperation.simps)
      (auto simp: demo_signal_def SegmentTable_ctor_def seg_find_def seg_hit_def seg_contains_def SEG_R_def SEG_W_def
        seg_checkOperation.simps [of _ "0x20000"])
  then show ?thesis by (simp add: checkOperation_def sizeof_SignalFrame_def)
qed

lemma demo_dequeue:
  "g_handler demo_signal = Some (the (g_handler demo_signal))"
  "fst (dequeue (g_mask demo_signal) (the (g_handler demo_signal))) = 3"
  "getAction 3 (snd (dequeue (g_mask demo_signal) (the (g_handler demo_signal)))) =
     Some \<lparr>sa_handler = 0x4000, sa_flags = 0, sa_restorer = 0, sa_mask = 0xE00\<rparr>"
  by (simp_all add: demo_signal_def dequeue_def first_bit.simps NSIG_def getAction_def valid_signal_def SignalHandler_ctor_def)

text \<open>
  C19: a signal with a user handler interrupts the program and leaves no trace. \<^verbatim>\<open>signalDispatch\<close>
  starts the handler with the signal as argument on a fresh, aligned frame below the stack pointer, with the mask of the
  action added to the blocked signals. When the handler comes back through \<^verbatim>\<open>rt_sigreturn\<close> with the
  frame untouched, every register and the mask of blocked signals are what they were before the signal.
\<close>

theorem signal_delivery_roundtrip:
  assumes "g_handler st = Some sh" and "fst (dequeue (g_mask st) sh) = signum" and "signum \<noteq> 0"
    and "getAction signum (snd (dequeue (g_mask st) sh)) = Some a"
    and "sa_handler a \<noteq> SIG_DFL" and "sa_handler a \<noteq> SIG_IGN"
    and "sp = (tf SP - sizeof_SignalFrame) AND NOT 15" and "g_check st sp sizeof_SignalFrame SEG_W"
  shows "\<exists>tf1 st1. signalDispatch tf st = (SigNone, tf1, st1) \<and>
     tf1 SEPC = sa_handler a \<and> tf1 A0 = of_int signum \<and> tf1 SP = sp \<and>
     g_mask st1 = g_mask st OR (sa_mask a AND NOT unblockable_bits) \<and>
     (\<forall>tf2 st2. tf2 SP = sp \<and> g_check st2 sp sizeof_SignalFrame SEG_R \<and>
        read_words sp 35 (g_mem st2) = read_words sp 35 (g_mem st1) \<longrightarrow>
        sys_rt_sigreturn tf2 st2 = (tf A0, tf, st2\<lparr>g_mask := g_mask st\<rparr>))"
proof -
  obtain sh1 where dq: "dequeue (g_mask st) sh = (signum, sh1)" using assms(2) by (cases "dequeue (g_mask st) sh") auto
  let ?st1 = "st\<lparr>g_handler := Some sh1\<rparr>" and ?fr = "SignalFrame_words (of_int signum) tf (g_mask st)"
  let ?st2 = "?st1\<lparr>g_mem := write_words sp ?fr (g_mem ?st1)\<rparr>"
  let ?st3 = "?st2\<lparr>g_mask := g_mask st OR (sa_mask a AND NOT unblockable_bits)\<rparr>"
  let ?ra = "if sa_flags a AND SA_RESTORER \<noteq> 0 \<and> sa_restorer a \<noteq> 0 then sa_restorer a else USER_TRAMPOLINE_ADDR"
  have push: "pushSignalFrame (tf SP) ?fr ?st1 = Some (sp, ?st2)"
    unfolding pushSignalFrame_def Let_def assms(7) [symmetric] using assms(8) by simp
  have ga: "getAction signum sh1 = Some a" using assms(4) by (simp add: dq)
  have run: "signalDispatch tf st = (SigNone, tf(SP := sp, A0 := of_int signum, RA := ?ra, SEPC := sa_handler a), ?st3)"
    unfolding signalDispatch_def assms(1) option.case Let_def dq prod.case
    using assms(3,5,6) ga push by simp
  have "read_words sp 35 (g_mem ?st3) = ?fr"
    using read_write_words [of ?fr sp "g_mem ?st1"] by (simp add: length_frame)
  then have "sys_rt_sigreturn tf2 st2 = (tf A0, tf, st2\<lparr>g_mask := g_mask st\<rparr>)"
    if "tf2 SP = sp" "g_check st2 sp sizeof_SignalFrame SEG_R"
      "read_words sp 35 (g_mem st2) = read_words sp 35 (g_mem ?st3)" for tf2 st2
    using that by (intro sigreturn_of_frame) simp_all
  then show ?thesis using run by auto
qed

theorem signal_delivery_roundtrip_witness:
  "\<exists>tf1 st1. signalDispatch (\<lambda>r. if r = SP then 0x18000 else 7) demo_signal = (SigNone, tf1, st1) \<and>
     tf1 SEPC = 0x4000 \<and> tf1 A0 = 3 \<and> tf1 SP = 0x17EE0 \<and> g_mask st1 = 0xE02 \<and>
     snd (sys_rt_sigreturn tf1 (demo_signal\<lparr>g_mem := g_mem st1\<rparr>)) =
       (\<lambda>r. if r = SP then 0x18000 else 7, demo_signal\<lparr>g_mem := g_mem st1, g_mask := 2\<rparr>)"
proof -
  let ?tf = "\<lambda>r. if r = SP then 0x18000 else 7 :: u64"
  have s: "0x17EE0 = (?tf SP - sizeof_SignalFrame) AND NOT 15"
    by (simp add: sizeof_SignalFrame_def)
  have u: "2 OR (0xE00 AND NOT unblockable_bits) = 0xE02"
    by (simp add: unblockable_bits_def sigBit_def SIGKILL_def SIGSTOP_def NSIG_def)
  have c: "g_check (demo_signal\<lparr>g_mem := m\<rparr>) 0x17EE0 sizeof_SignalFrame SEG_R" for m
    using demo_check [of SEG_R] by simp
  have m: "g_mask demo_signal = 2" by (simp add: demo_signal_def)
  obtain tf1 st1 where t: "signalDispatch ?tf demo_signal = (SigNone, tf1, st1)"
    "tf1 SEPC = 0x4000" "tf1 A0 = 3" "tf1 SP = 0x17EE0" "g_mask st1 = 0xE02"
    and ret: "\<forall>tf2 st2. tf2 SP = 0x17EE0 \<and> g_check st2 0x17EE0 sizeof_SignalFrame SEG_R \<and>
        read_words 0x17EE0 35 (g_mem st2) = read_words 0x17EE0 35 (g_mem st1) \<longrightarrow>
        sys_rt_sigreturn tf2 st2 = (?tf A0, ?tf, st2\<lparr>g_mask := 2\<rparr>)"
    using signal_delivery_roundtrip [where tf = ?tf and sp = "0x17EE0", OF demo_dequeue(1,2) _ demo_dequeue(3) _ _ s]
      demo_check [of SEG_W] by (auto simp: SIG_DFL_def SIG_IGN_def m u)
  have "sys_rt_sigreturn tf1 (demo_signal\<lparr>g_mem := g_mem st1\<rparr>) =
      (?tf A0, ?tf, demo_signal\<lparr>g_mem := g_mem st1, g_mask := 2\<rparr>)"
    using ret t(4) c by simp
  then show ?thesis using t by simp
qed

text \<open>
  \<^verbatim>\<open>dequeue\<close> takes the deliverable signal with the smallest number: it is pending and not
  blocked, every smaller pending signal is blocked, and only it stops being pending. Without a deliverable
  signal it returns 0 and changes nothing.
\<close>

theorem dequeue_smallest_deliverable:
  assumes "sh_wf sh"
  shows "if hasPending threadMask sh
    then \<exists>n. dequeue threadMask sh = (int n + 1, sh\<lparr>m_pending := m_pending sh AND NOT (sigBit (int n + 1))\<rparr>) \<and>
           n < 31 \<and> bit (m_pending sh) n \<and> \<not> bit threadMask n \<and>
           (\<forall>j < n. bit (m_pending sh) j \<longrightarrow> bit threadMask j)
    else dequeue threadMask sh = (0, sh)"
proof -
  show ?thesis
  proof (cases "hasPending threadMask sh")
    case True
    then have "m_pending sh AND NOT threadMask \<noteq> 0" by (simp add: hasPending_def)
    then obtain n where n: "dequeue threadMask sh = (int n + 1, sh\<lparr>m_pending := m_pending sh AND NOT (push_bit n 1)\<rparr>)"
      "n < 31" "bit (m_pending sh) n" "\<not> bit threadMask n"
      "\<And>j. j < n \<Longrightarrow> bit (m_pending sh) j \<Longrightarrow> bit threadMask j"
      using dequeue_spec [OF assms] by blast
    moreover have "sigBit (int n + 1) = push_bit n 1" using n(2) by (simp add: sigBit_def NSIG_def)
    ultimately show ?thesis using True by auto
  next
    case False
    then show ?thesis by (simp add: hasPending_def dequeue_def)
  qed
qed

theorem dequeue_smallest_deliverable_witness:
  "dequeue 2 (the (g_handler demo_signal)) = (3, (the (g_handler demo_signal))\<lparr>m_pending := 0x202\<rparr>)"
proof -
  let ?sh = "the (g_handler demo_signal)"
  have b: "b < 31" if "bit (0x206 :: u64) b" for b
    using that bit_imp_le_length [of "0x206 :: u64" b]
    by (auto simp: numeral_eq_Suc less_Suc_eq bit_simps)
  have p: "m_pending ?sh = 0x206" by (simp add: demo_signal_def)
  have "sh_wf ?sh"
    using b SignalHandler_ctor_wf
    by (auto simp: sh_wf_def demo_signal_def NSIG_def default_action_def unblockable_bits_def
        sigBit_def SIGKILL_def SIGSTOP_def dest!: set_update_subset_insert [THEN subsetD])
  then show ?thesis
    using dequeue_smallest_deliverable [of ?sh 2] demo_dequeue(2)
    by (auto simp: hasPending_def p demo_signal_def sigBit_def NSIG_def)
qed

lemma or_and_zero: "x AND u = 0 \<Longrightarrow> y AND u = 0 \<Longrightarrow> (x OR y) AND u = (0 :: u64)"
  by (simp add: bit.conj_disj_distrib2)

lemma signalDispatch_mask:
  assumes "g_mask st AND unblockable_bits = 0"
  shows "g_mask (snd (snd (signalDispatch tf st))) AND unblockable_bits = 0"
  using assms or_and_zero [OF assms and_not_and]
  by (auto simp: signalDispatch_def pushSignalFrame_def Let_def split: option.splits prod.splits)



text \<open>
  The frame \<^verbatim>\<open>rt_sigreturn\<close> reads lies in user memory and none of it is checked: a program can load the
  kernel stack pointer of its trap frame and a mask that blocks \<^verbatim>\<open>SIGKILL\<close> with any value.
\<close>

lemma sigreturn_loads_any_kernel_stack:
  assumes "g_check st (tf SP) sizeof_SignalFrame SEG_R"
  shows "\<exists>mem. snd (sys_rt_sigreturn tf (st\<lparr>g_mem := mem\<rparr>)) =
     (tf(KSTACK := kstack), st\<lparr>g_mem := mem, g_mask := newMask\<rparr>)"
proof -
  let ?mem = "write_words (tf SP) (SignalFrame_words 0 (tf(KSTACK := kstack)) newMask) (g_mem st)"
  have "read_words (tf SP) 35 ?mem = SignalFrame_words 0 (tf(KSTACK := kstack)) newMask"
    using read_write_words [of "SignalFrame_words 0 (tf(KSTACK := kstack)) newMask" "tf SP" "g_mem st"]
    by (simp add: length_frame)
  then have "sys_rt_sigreturn tf (st\<lparr>g_mem := ?mem\<rparr>) =
      ((tf(KSTACK := kstack)) A0, tf(KSTACK := kstack), (st\<lparr>g_mem := ?mem\<rparr>)\<lparr>g_mask := newMask\<rparr>)"
    using assms by (intro sigreturn_of_frame [where s = 0 and sp = "tf SP" and tf = "tf(KSTACK := kstack)"]) simp_all
  then show ?thesis by (intro exI [of _ ?mem]) simp
qed

end
