(* ===== verification/Pipe.thy ===== *)
theory Pipe
  imports Prelude
begin

text \<open>
  Pipes (\<^verbatim>\<open>kernel/fs/pipe/pipe.cpp\<close>): a ring buffer of 4096 bytes with the numbers of its readers and
  writers. A call that finds nothing to do yields the processor and tries again, so the model of a call is
  what it does until it returns or has to wait; a waiting call is repeated with what is left of its work.
\<close>

definition PIPE_BUF_SIZE :: nat where "PIPE_BUF_SIZE = 4096"

record PipeInode =
  p_buf :: "u8 list"
  p_head :: nat
  p_tail :: nat
  p_count :: nat
  p_readers :: u32
  p_writers :: u32

definition PipeInode_ctor :: "u8 list \<Rightarrow> PipeInode" where
  "PipeInode_ctor buf = \<lparr>p_buf = buf, p_head = 0, p_tail = 0, p_count = 0, p_readers = 1, p_writers = 1\<rparr>"

primrec take_bytes :: "nat \<Rightarrow> PipeInode \<Rightarrow> u8 list \<times> PipeInode" where
  "take_bytes 0 p = ([], p)"
| "take_bytes (Suc n) p =
     (let b = p_buf p ! p_tail p;
          (bs, p1) = take_bytes n (p\<lparr>p_tail := (p_tail p + 1) mod PIPE_BUF_SIZE\<rparr>) in
      (b # bs, p1))"

primrec put_bytes :: "u8 list \<Rightarrow> PipeInode \<Rightarrow> PipeInode" where
  "put_bytes [] p = p"
| "put_bytes (b # bs) p =
     put_bytes bs (p\<lparr>p_buf := (p_buf p)[p_head p := b], p_head := (p_head p + 1) mod PIPE_BUF_SIZE\<rparr>)"

text \<open>A call returns a value (a read also its bytes), or waits with the number of bytes it has moved.\<close>

datatype 'r pipe_result = Returns 'r | Waits nat

definition pipe_read :: "bool \<Rightarrow> nat \<Rightarrow> PipeInode \<Rightarrow> (int \<times> u8 list) pipe_result \<times> PipeInode" where
  "pipe_read nonNull len p =
     (if \<not> nonNull \<or> len = 0 then (Returns (0, []), p)
      else if p_count p > 0 then
        let toRead = (if len < p_count p then len else p_count p); (bs, p1) = take_bytes toRead p in
        (Returns (int toRead, bs), p1\<lparr>p_count := p_count p1 - toRead\<rparr>)
      else if p_writers p = 0 then (Returns (0, []), p)
      else (Waits 0, p))"

text \<open>The result of a write that finds no reader also asks for \<^verbatim>\<open>SIGPIPE\<close>.\<close>

datatype write_end = WriteDone int | BrokenPipe int

partial_function (option) pipe_write_loop ::
  "u8 list \<Rightarrow> nat \<Rightarrow> nat \<Rightarrow> PipeInode \<Rightarrow> (write_end pipe_result \<times> PipeInode) option" where
  "pipe_write_loop src len written p =
     (if written < len then
        if p_readers p = 0 then Some (Returns (BrokenPipe (if written > 0 then sint (of_nat written :: i32) else - 1)), p)
        else
          let freeSpace = PIPE_BUF_SIZE - p_count p in
          if freeSpace = 0 then Some (Waits written, p)
          else
            let want = unat (of_nat (len - written) :: u32);
                toWrite = (if want > freeSpace then freeSpace else want);
                p1 = put_bytes (take toWrite (drop written src)) p in
            pipe_write_loop src len (written + toWrite) (p1\<lparr>p_count := p_count p1 + toWrite\<rparr>)
      else Some (Returns (WriteDone (sint (of_nat written :: i32))), p))"

definition pipe_write :: "bool \<Rightarrow> u8 list \<Rightarrow> nat \<Rightarrow> PipeInode \<Rightarrow> (write_end pipe_result \<times> PipeInode) option" where
  "pipe_write nonNull src len p =
     (if \<not> nonNull then Some (Returns (WriteDone (- 1)), p)
      else if len = 0 then Some (Returns (WriteDone 0), p)
      else pipe_write_loop src len 0 p)"

definition pipe_size :: "PipeInode \<Rightarrow> nat" where
  "pipe_size p = p_count p"

definition pipe_onOpen :: "u32 \<Rightarrow> PipeInode \<Rightarrow> PipeInode" where
  "pipe_onOpen flags p =
     (if flags AND 0x3 = 1 then p\<lparr>p_writers := p_writers p + 1\<rparr> else p\<lparr>p_readers := p_readers p + 1\<rparr>)"

text \<open>The flag tells that the pipe is deleted.\<close>

definition pipe_onClose :: "u32 \<Rightarrow> PipeInode \<Rightarrow> bool \<times> PipeInode" where
  "pipe_onClose flags p =
     (let p1 = (if flags AND 0x3 = 1 then if p_writers p > 0 then p\<lparr>p_writers := p_writers p - 1\<rparr> else p
                else if p_readers p > 0 then p\<lparr>p_readers := p_readers p - 1\<rparr> else p) in
      (p_readers p1 = 0 \<and> p_writers p1 = 0, p1))"

section \<open>The ring buffer as a queue of bytes\<close>

definition pipe_wf :: "PipeInode \<Rightarrow> bool" where
  "pipe_wf p \<longleftrightarrow> length (p_buf p) = PIPE_BUF_SIZE \<and> p_tail p < PIPE_BUF_SIZE \<and> p_count p \<le> PIPE_BUF_SIZE \<and>
     p_head p = (p_tail p + p_count p) mod PIPE_BUF_SIZE"

definition window :: "u8 list \<Rightarrow> nat \<Rightarrow> nat \<Rightarrow> u8 list" where
  "window buf t n = map (\<lambda>i. buf ! ((t + i) mod PIPE_BUF_SIZE)) [0 ..< n]"

definition contents :: "PipeInode \<Rightarrow> u8 list" where
  "contents p = window (p_buf p) (p_tail p) (p_count p)"

lemma length_window [simp]: "length (window buf t n) = n"
  by (simp add: window_def)

lemma length_contents [simp]: "length (contents p) = p_count p"
  by (simp add: contents_def)

lemma window_mod [simp]: "window buf (t mod PIPE_BUF_SIZE) n = window buf t n"
  by (simp add: window_def mod_add_left_eq)

lemma window_Suc: "t < PIPE_BUF_SIZE \<Longrightarrow> window buf t (Suc n) = buf ! t # window buf (t + 1) n"
  by (rule nth_equalityI) (auto simp: window_def nth_Cons' less_Suc_eq_0_disj simp del: upt_Suc)

lemma window_add: "window buf t (m + n) = window buf t m @ window buf (t + m) n"
  by (rule nth_equalityI) (auto simp: window_def nth_append add.assoc)

lemma take_bytes_window:
  "p_tail p < PIPE_BUF_SIZE \<Longrightarrow>
   take_bytes n p = (window (p_buf p) (p_tail p) n, p\<lparr>p_tail := (p_tail p + n) mod PIPE_BUF_SIZE\<rparr>)"
proof (induction n arbitrary: p)
  case 0
  then show ?case by (simp add: window_def)
next
  case (Suc n)
  let ?p = "p\<lparr>p_tail := (p_tail p + 1) mod PIPE_BUF_SIZE\<rparr>"
  have "p_tail ?p < PIPE_BUF_SIZE" by (simp add: PIPE_BUF_SIZE_def)
  from Suc.IH [OF this] show ?case
    using Suc.prems by (simp add: window_Suc Let_def mod_add_left_eq)
qed

text \<open>Writing a byte behind the window leaves the window alone.\<close>

lemma mod_window_distinct:
  "i < n \<Longrightarrow> n < PIPE_BUF_SIZE \<Longrightarrow> (t + i) mod PIPE_BUF_SIZE \<noteq> (t + n) mod PIPE_BUF_SIZE"
proof
  assume "i < n" "n < PIPE_BUF_SIZE" "(t + i) mod PIPE_BUF_SIZE = (t + n) mod PIPE_BUF_SIZE"
  then have "(t + n - (t + i)) mod PIPE_BUF_SIZE = 0" by (metis mod_eq_dvd_iff_nat add_le_mono le_refl less_imp_le dvd_imp_mod_0)
  then show False using \<open>i < n\<close> \<open>n < PIPE_BUF_SIZE\<close> by simp
qed

lemma window_snoc:
  assumes "length buf = PIPE_BUF_SIZE" and "n < PIPE_BUF_SIZE"
  shows "window (buf[(t + n) mod PIPE_BUF_SIZE := b]) t (Suc n) = window buf t n @ [b]"
proof -
  have pos: "(t + n) mod PIPE_BUF_SIZE < PIPE_BUF_SIZE" by (simp add: PIPE_BUF_SIZE_def)
  have "window (buf[(t + n) mod PIPE_BUF_SIZE := b]) t n = window buf t n"
    unfolding window_def
  proof (rule map_cong [OF refl], rule nth_list_update_neq)
    fix i assume "i \<in> set [0 ..< n]"
    then show "(t + n) mod PIPE_BUF_SIZE \<noteq> (t + i) mod PIPE_BUF_SIZE"
      using mod_window_distinct [OF _ assms(2), of i t] by (metis atLeastLessThan_upt atLeastLessThan_iff)
  qed
  then show ?thesis using pos assms(1) by (simp add: window_def)
qed

lemma put_bytes_window:
  assumes "length (p_buf p) = PIPE_BUF_SIZE" and "n + length bs \<le> PIPE_BUF_SIZE"
    and "p_head p = (t + n) mod PIPE_BUF_SIZE"
  shows "p_tail (put_bytes bs p) = p_tail p \<and> p_count (put_bytes bs p) = p_count p \<and>
     p_readers (put_bytes bs p) = p_readers p \<and> p_writers (put_bytes bs p) = p_writers p \<and>
     length (p_buf (put_bytes bs p)) = PIPE_BUF_SIZE \<and>
     p_head (put_bytes bs p) = (t + n + length bs) mod PIPE_BUF_SIZE \<and>
     window (p_buf (put_bytes bs p)) t (n + length bs) = window (p_buf p) t n @ bs"
  using assms
proof (induction bs arbitrary: p n)
  case Nil
  then show ?case by simp
next
  case (Cons b bs)
  let ?p = "p\<lparr>p_buf := (p_buf p)[p_head p := b], p_head := (p_head p + 1) mod PIPE_BUF_SIZE\<rparr>"
  have "p_head ?p = (t + Suc n) mod PIPE_BUF_SIZE"
    using Cons.prems(3) by (simp add: mod_Suc_eq)
  moreover have "window (p_buf ?p) t (Suc n) = window (p_buf p) t n @ [b]"
    using window_snoc [of "p_buf p" n t b] Cons.prems by simp
  ultimately show ?case
    using Cons.IH [of ?p "Suc n"] Cons.prems(1,2) by simp
qed

lemma pipe_read_contents:
  assumes "pipe_wf p" and "contents p \<noteq> []" and "0 < len"
  shows "\<exists>p'. pipe_read True len p = (Returns (int (length (take len (contents p))), take len (contents p)), p') \<and>
     contents p' = drop len (contents p) \<and> pipe_wf p' \<and> p_readers p' = p_readers p \<and> p_writers p' = p_writers p"
proof -
  let ?n = "min len (p_count p)"
  let ?t = "(p_tail p + ?n) mod PIPE_BUF_SIZE"
  have c: "0 < p_count p" using assms(2) length_contents [of p] by (metis length_greater_0_conv)
  have wf: "length (p_buf p) = PIPE_BUF_SIZE" "p_tail p < PIPE_BUF_SIZE" "p_count p \<le> PIPE_BUF_SIZE"
    "p_head p = (p_tail p + p_count p) mod PIPE_BUF_SIZE"
    using assms(1) by (simp_all add: pipe_wf_def)
  have pos: "?t < PIPE_BUF_SIZE" by (simp add: PIPE_BUF_SIZE_def)
  have sum: "?n + (p_count p - ?n) = p_count p" by simp
  have win: "contents p = window (p_buf p) (p_tail p) ?n @ window (p_buf p) (p_tail p + ?n) (p_count p - ?n)"
    unfolding contents_def using window_add [of "p_buf p" "p_tail p" ?n "p_count p - ?n"] by (simp only: sum)
  have cut: "take len xs = take (min len (length xs)) xs" "drop len xs = drop (min len (length xs)) xs" for xs :: "u8 list"
    by (cases "len \<le> length xs"; simp)+
  have tk: "take len (contents p) = window (p_buf p) (p_tail p) ?n"
    and dr: "drop len (contents p) = window (p_buf p) (p_tail p + ?n) (p_count p - ?n)"
    unfolding cut length_contents using append_eq_conv_conj [THEN iffD1, OF win [symmetric]] by simp_all
  let ?p = "p\<lparr>p_tail := ?t, p_count := p_count p - ?n\<rparr>"
  have "(if len < p_count p then len else p_count p) = ?n" by auto
  then have "pipe_read True len p = (Returns (int ?n, window (p_buf p) (p_tail p) ?n), ?p)"
    using c assms(3) by (simp add: pipe_read_def take_bytes_window [OF wf(2)] Let_def)
  moreover have "contents ?p = drop len (contents p)" unfolding dr by (simp add: contents_def)
  moreover have "(?t + (p_count p - ?n)) mod PIPE_BUF_SIZE = (p_tail p + p_count p) mod PIPE_BUF_SIZE"
    unfolding mod_add_left_eq add.assoc sum ..
  then have "pipe_wf ?p"
    unfolding pipe_wf_def using wf pos by (simp add: le_trans [OF diff_le_self])
  moreover have "length (take len (contents p)) = ?n" by simp
  ultimately show ?thesis by (intro exI [of _ ?p]) (simp add: tk)
qed

lemma pipe_put_contents:
  assumes "pipe_wf p" and "p_count p + length bs \<le> PIPE_BUF_SIZE"
  shows "pipe_wf ((put_bytes bs p)\<lparr>p_count := p_count (put_bytes bs p) + length bs\<rparr>)"
    and "contents ((put_bytes bs p)\<lparr>p_count := p_count (put_bytes bs p) + length bs\<rparr>) = contents p @ bs"
    and "p_readers (put_bytes bs p) = p_readers p" and "p_writers (put_bytes bs p) = p_writers p"
    and "p_count (put_bytes bs p) = p_count p"
proof -
  have wf: "length (p_buf p) = PIPE_BUF_SIZE" "p_tail p < PIPE_BUF_SIZE" "p_head p = (p_tail p + p_count p) mod PIPE_BUF_SIZE"
    using assms(1) by (simp_all add: pipe_wf_def)
  note f = put_bytes_window [OF wf(1) assms(2) wf(3)]
  show "p_readers (put_bytes bs p) = p_readers p" "p_writers (put_bytes bs p) = p_writers p"
    and c: "p_count (put_bytes bs p) = p_count p"
    using f by blast+
  have f1: "p_tail (put_bytes bs p) = p_tail p" "length (p_buf (put_bytes bs p)) = PIPE_BUF_SIZE"
    "p_head (put_bytes bs p) = (p_tail p + p_count p + length bs) mod PIPE_BUF_SIZE"
    "window (p_buf (put_bytes bs p)) (p_tail p) (p_count p + length bs) = window (p_buf p) (p_tail p) (p_count p) @ bs"
    using f by blast+
  show "contents ((put_bytes bs p)\<lparr>p_count := p_count (put_bytes bs p) + length bs\<rparr>) = contents p @ bs"
    by (simp add: contents_def c f1(1,4))
  show "pipe_wf ((put_bytes bs p)\<lparr>p_count := p_count (put_bytes bs p) + length bs\<rparr>)"
    using wf(2) assms(2) by (simp add: pipe_wf_def c f1(1-3) add.assoc)
qed

lemma pipe_write_contents:
  assumes "pipe_wf p" and "p_readers p \<noteq> 0" and "src \<noteq> []" and "length src < 2 ^ 31"
    and "free = PIPE_BUF_SIZE - length (contents p)"
  shows "\<exists>p'. pipe_write True src (length src) p =
       Some (if length src \<le> free then Returns (WriteDone (int (length src))) else Waits free, p') \<and>
     contents p' = contents p @ take free src \<and> pipe_wf p' \<and> p_readers p' = p_readers p \<and> p_writers p' = p_writers p"
proof -
  have free: "p_count p + free = PIPE_BUF_SIZE" using assms(1,5) by (simp add: pipe_wf_def)
  have w0: "pipe_write True src (length src) p = pipe_write_loop src (length src) 0 p"
    using assms(3) by (simp add: pipe_write_def)
  have want: "unat (of_nat (length src) :: u32) = length src" using assms(4) by (simp add: unat_of_nat)
  have dn: "sint (of_nat (length src) :: i32) = int (length src)"
    using assms(4) by (simp add: signed_of_nat signed_take_bit_int_eq_self)
  show ?thesis
  proof (cases "free = 0")
    case True
    then have "pipe_write_loop src (length src) 0 p = Some (Waits 0, p)"
      using assms(2,3,5) by (subst pipe_write_loop.simps) (simp add: Let_def)
    then show ?thesis using w0 True assms(1,3) by simp
  next
    case False
    let ?bs = "take free src"
    let ?p = "(put_bytes ?bs p)\<lparr>p_count := p_count (put_bytes ?bs p) + length ?bs\<rparr>"
    have fit: "p_count p + length ?bs \<le> PIPE_BUF_SIZE" using free by simp
    note f = pipe_put_contents [OF assms(1) fit]
    have step: "pipe_write_loop src (length src) 0 p = pipe_write_loop src (length src) (length ?bs) ?p"
      using assms(2,3) False free want
      by (subst pipe_write_loop.simps) (auto simp: Let_def min_def assms(5))
    have "pipe_write_loop src (length src) (length ?bs) ?p =
       Some (if length src \<le> free then Returns (WriteDone (int (length src))) else Waits free, ?p)"
      using assms(2) f(3,5) free dn by (subst pipe_write_loop.simps) (auto simp: Let_def)
    then show ?thesis using f w0 step by auto
  qed
qed

text \<open>
  C21: a pipe is a queue of bytes. A read of a pipe that is not empty returns the oldest bytes, as many as asked
  for and available, and removes them; on an empty pipe it waits while there is a writer and otherwise reports the end.
  A write appends its bytes in order and returns their number; bytes that do not fit wait, and the pipe is then full.
\<close>

theorem pipe_is_a_queue:
  assumes "pipe_wf p" and "p_readers p \<noteq> 0" and "src \<noteq> []" and "length src < 2 ^ 31" and "0 < len"
    and "free = PIPE_BUF_SIZE - length (contents p)"
  shows "(if contents p \<noteq> [] then
        \<exists>p'. pipe_read True len p = (Returns (int (length (take len (contents p))), take len (contents p)), p') \<and>
          contents p' = drop len (contents p) \<and> pipe_wf p'
      else pipe_read True len p = (if p_writers p = 0 then Returns (0, []) else Waits 0, p)) \<and>
    (\<exists>p'. pipe_write True src (length src) p =
       Some (if length src \<le> free then Returns (WriteDone (int (length src))) else Waits free, p') \<and>
       contents p' = contents p @ take free src \<and> pipe_wf p')"
proof
  show "if contents p \<noteq> [] then
        \<exists>p'. pipe_read True len p = (Returns (int (length (take len (contents p))), take len (contents p)), p') \<and>
          contents p' = drop len (contents p) \<and> pipe_wf p'
      else pipe_read True len p = (if p_writers p = 0 then Returns (0, []) else Waits 0, p)"
  proof (cases "contents p = []")
    case True
    then have "p_count p = 0" using length_contents [of p] by simp
    then show ?thesis using True assms(5) by (simp add: pipe_read_def)
  next
    case False
    then show ?thesis using pipe_read_contents [OF assms(1) False assms(5)] by auto
  qed
  show "\<exists>p'. pipe_write True src (length src) p =
       Some (if length src \<le> free then Returns (WriteDone (int (length src))) else Waits free, p') \<and>
       contents p' = contents p @ take free src \<and> pipe_wf p'"
    using pipe_write_contents [OF assms(1-4,6)] by blast
qed

theorem pipe_is_a_queue_witness:
  "\<exists>p'. pipe_write True [7, 8, 9] 3 (PipeInode_ctor (replicate 4096 0)) = Some (Returns (WriteDone 3), p') \<and>
     contents p' = [7, 8, 9]"
proof -
  let ?p = "PipeInode_ctor (replicate 4096 0)"
  have "pipe_wf ?p" "p_readers ?p \<noteq> 0" "contents ?p = []"
    by (simp_all add: pipe_wf_def PipeInode_ctor_def PIPE_BUF_SIZE_def contents_def window_def)
  with pipe_is_a_queue [of ?p "[7, 8, 9]" 1 4096] show ?thesis
    by (auto simp: PIPE_BUF_SIZE_def numeral_3_eq_3)
qed

end
