(* ===== verification/FileTable.thy ===== *)
theory FileTable
  imports Prelude
begin

text \<open>
  Open files and file descriptor tables (\<^verbatim>\<open>kernel/fs/file.cpp\<close>, \<^verbatim>\<open>kernel/fs/fd_table.cpp\<close>).
  The virtual functions of \<^verbatim>\<open>VfsInode\<close> and the calls into the inode cache and the mounted file
  system are fields of a record of functions on a world \<open>'w\<close>; files refer to inodes by a handle \<open>'i\<close> and to
  mounts by a handle \<open>'m\<close>. The operations of a table hold its lock around their accesses.
\<close>

record ('i, 'm, 'w) file_env =
  i_read :: "'i \<Rightarrow> u64 \<Rightarrow> u64 \<Rightarrow> 'w \<Rightarrow> int \<times> u8 list \<times> 'w"
  i_write :: "'i \<Rightarrow> u64 \<Rightarrow> u8 list \<Rightarrow> 'w \<Rightarrow> int \<times> 'w"
  i_size :: "'i \<Rightarrow> 'w \<Rightarrow> u64"
  i_inodeNum :: "'i \<Rightarrow> u32"
  i_onOpen :: "'i \<Rightarrow> u32 \<Rightarrow> 'w \<Rightarrow> 'w"
  i_onClose :: "'i \<Rightarrow> u32 \<Rightarrow> 'w \<Rightarrow> 'w"
  cache_acquire :: "'m option \<Rightarrow> u32 \<Rightarrow> 'w \<Rightarrow> 'w"
  cache_release :: "'m option \<Rightarrow> u32 \<Rightarrow> 'w \<Rightarrow> 'w"
  m_putInode :: "'m \<Rightarrow> 'i \<Rightarrow> 'w \<Rightarrow> 'w"

section \<open>Files\<close>

definition O_RDONLY :: u32 where "O_RDONLY = 0x0"
definition O_WRONLY :: u32 where "O_WRONLY = 0x1"
definition O_RDWR :: u32 where "O_RDWR = 0x2"
definition O_CREAT :: u32 where "O_CREAT = 0x40"
definition O_TRUNC :: u32 where "O_TRUNC = 0x200"
definition O_APPEND :: u32 where "O_APPEND = 0x400"
definition SEEK_SET :: u32 where "SEEK_SET = 0x0"
definition SEEK_CUR :: u32 where "SEEK_CUR = 0x1"
definition SEEK_END :: u32 where "SEEK_END = 0x2"

record ('i, 'm) File =
  f_inode :: "'i option"
  f_mount :: "'m option"
  f_flags :: u32
  f_offset :: u64

definition File_ctor :: "'i option \<Rightarrow> 'm option \<Rightarrow> u32 \<Rightarrow> ('i, 'm) File" where
  "File_ctor inode mnt flags = \<lparr>f_inode = inode, f_mount = mnt, f_flags = flags, f_offset = 0\<rparr>"

definition File_copy ::
  "('i, 'm, 'w) file_env \<Rightarrow> ('i, 'm) File \<Rightarrow> bool \<Rightarrow> 'w \<Rightarrow> ('i, 'm) File \<times> 'w" where
  "File_copy env other copyOffset w =
     (let f = other\<lparr>f_offset := (if copyOffset then f_offset other else 0)\<rparr> in
      case f_inode f of
        None \<Rightarrow> (f, w)
      | Some i \<Rightarrow>
          if i_inodeNum env i \<noteq> 0 then (f, cache_acquire env (f_mount f) (i_inodeNum env i) w)
          else (f, i_onOpen env i (f_flags f) w))"

definition file_read ::
  "('i, 'm, 'w) file_env \<Rightarrow> u64 \<Rightarrow> ('i, 'm) File \<Rightarrow> 'w \<Rightarrow> int \<times> u8 list \<times> ('i, 'm) File \<times> 'w" where
  "file_read env len f w =
     (let mode = f_flags f AND 0x3 in
      if mode \<noteq> O_RDONLY \<and> mode \<noteq> O_RDWR then (- 1, [], f, w)
      else case f_inode f of
        None \<Rightarrow> (- 1, [], f, w)
      | Some i \<Rightarrow>
          let (n, bytes, w1) = i_read env i (f_offset f) len w in
          if n = - 1 then (- 1, bytes, f, w1)
          else (n, bytes, f\<lparr>f_offset := f_offset f + of_int n\<rparr>, w1))"

definition file_write ::
  "('i, 'm, 'w) file_env \<Rightarrow> u8 list \<Rightarrow> ('i, 'm) File \<Rightarrow> 'w \<Rightarrow> int \<times> ('i, 'm) File \<times> 'w" where
  "file_write env buf f w =
     (let mode = f_flags f AND 0x3 in
      if mode \<noteq> O_WRONLY \<and> mode \<noteq> O_RDWR then (- 1, f, w)
      else case f_inode f of
        None \<Rightarrow> (- 1, f, w)
      | Some i \<Rightarrow>
          let (n, w1) = i_write env i (if f_flags f AND O_APPEND \<noteq> 0 then - 1 else f_offset f) buf w in
          (n, if n > 0 then f\<lparr>f_offset := f_offset f + of_int n\<rparr> else f, w1))"

definition file_seek ::
  "('i, 'm, 'w) file_env \<Rightarrow> i64 \<Rightarrow> u32 \<Rightarrow> 'w \<Rightarrow> ('i, 'm) File \<Rightarrow> i64 \<times> ('i, 'm) File" where
  "file_seek env offset whence w f =
     (case f_inode f of
        None \<Rightarrow> (- 1, f)
      | Some i \<Rightarrow>
          let target = (if whence = SEEK_SET then Some offset
                        else if whence = SEEK_CUR then Some (f_offset f + offset)
                        else if whence = SEEK_END then Some (i_size env i w + offset) else None) in
          (case target of
             None \<Rightarrow> (- 1, f)
           | Some newOffset \<Rightarrow> if sint newOffset < 0 then (- 1, f) else (newOffset, f\<lparr>f_offset := newOffset\<rparr>)))"

definition file_tell :: "('i, 'm) File \<Rightarrow> u64" where
  "file_tell f = f_offset f"

definition file_close :: "('i, 'm, 'w) file_env \<Rightarrow> ('i, 'm) File \<Rightarrow> 'w \<Rightarrow> ('i, 'm) File \<times> 'w" where
  "file_close env f w =
     (case f_inode f of
        None \<Rightarrow> (f, w)
      | Some i \<Rightarrow>
          let num = i_inodeNum env i;
              w1 = (if num \<noteq> 0 then cache_release env (f_mount f) num w
                    else case f_mount f of
                      Some m \<Rightarrow> m_putInode env m i w
                    | None \<Rightarrow> i_onClose env i (f_flags f) w) in
          (f\<lparr>f_inode := None, f_mount := None\<rparr>, w1))"

section \<open>Descriptor tables\<close>

definition MAX_FDS :: nat where "MAX_FDS = 16"

record 'f FdTable =
  m_fds :: "'f option list"
  fd_refCount :: u32

definition FdTable_ctor :: "'f FdTable" where
  "FdTable_ctor = \<lparr>m_fds = replicate MAX_FDS None, fd_refCount = 1\<rparr>"

primrec clone_fds ::
  "('i, 'm, 'w) file_env \<Rightarrow> ('i, 'm) File option list \<Rightarrow> 'w \<Rightarrow> ('i, 'm) File option list \<times> 'w" where
  "clone_fds env [] w = ([], w)"
| "clone_fds env (x # xs) w =
     (let (y, w1) = (case x of None \<Rightarrow> (None, w) | Some f \<Rightarrow> let (g, w') = File_copy env f True w in (Some g, w'));
          (ys, w2) = clone_fds env xs w1 in
      (y # ys, w2))"

definition fd_clone ::
  "('i, 'm, 'w) file_env \<Rightarrow> ('i, 'm) File FdTable \<Rightarrow> 'w \<Rightarrow> ('i, 'm) File FdTable \<times> 'w" where
  "fd_clone env t w = (let (fs, w1) = clone_fds env (m_fds t) w in (FdTable_ctor\<lparr>m_fds := fs\<rparr>, w1))"

definition fd_acquire :: "'f FdTable \<Rightarrow> 'f FdTable" where
  "fd_acquire t = t\<lparr>fd_refCount := fd_refCount t + 1\<rparr>"

text \<open>
  The search starts at \<open>min\<close>, which is an \<^verbatim>\<open>int\<close> the caller chooses; below 0 it reads in front of
  the array.
\<close>

function fd_scan :: "'f option list \<Rightarrow> nat \<Rightarrow> int" where
  "fd_scan fds i = (if i < MAX_FDS then if fds ! i = None then int i else fd_scan fds (i + 1) else - 1)"
  by auto
termination by (relation "measure (\<lambda>(_, i). MAX_FDS - i)") auto

definition fd_alloc :: "'f \<Rightarrow> int \<Rightarrow> 'f FdTable \<Rightarrow> (int \<times> 'f FdTable) res" where
  "fd_alloc file low t =
     (if low < 0 then Inl Undefined
      else let i = fd_scan (m_fds t) (nat low) in
           if i = - 1 then Inr (- 1, t) else Inr (i, t\<lparr>m_fds := (m_fds t)[nat i := Some file]\<rparr>))"

definition fd_get :: "int \<Rightarrow> 'f FdTable \<Rightarrow> 'f option" where
  "fd_get fd t = (if fd < 0 \<or> fd \<ge> int MAX_FDS then None else m_fds t ! nat fd)"

definition fd_close :: "('f \<Rightarrow> 'w \<Rightarrow> 'w) \<Rightarrow> int \<Rightarrow> 'f FdTable \<Rightarrow> 'w \<Rightarrow> int \<times> 'f FdTable \<times> 'w" where
  "fd_close closeFile fd t w =
     (if fd < 0 \<or> fd \<ge> int MAX_FDS then (- 1, t, w)
      else case m_fds t ! nat fd of
        None \<Rightarrow> (- 1, t, w)
      | Some f \<Rightarrow> (0, t\<lparr>m_fds := (m_fds t)[nat fd := None]\<rparr>, closeFile f w))"

primrec close_all :: "('f \<Rightarrow> 'w \<Rightarrow> 'w) \<Rightarrow> 'f option list \<Rightarrow> 'w \<Rightarrow> 'f option list \<times> 'w" where
  "close_all closeFile [] w = ([], w)"
| "close_all closeFile (x # xs) w =
     (let w1 = (case x of None \<Rightarrow> w | Some f \<Rightarrow> closeFile f w); (ys, w2) = close_all closeFile xs w1 in
      (None # ys, w2))"

definition fd_closeAll :: "('f \<Rightarrow> 'w \<Rightarrow> 'w) \<Rightarrow> 'f FdTable \<Rightarrow> 'w \<Rightarrow> 'f FdTable \<times> 'w" where
  "fd_closeAll closeFile t w = (let (fs, w1) = close_all closeFile (m_fds t) w in (t\<lparr>m_fds := fs\<rparr>, w1))"

text \<open>Releasing the last reference closes every file and deletes the table.\<close>

definition fd_release :: "('f \<Rightarrow> 'w \<Rightarrow> 'w) \<Rightarrow> 'f FdTable \<Rightarrow> 'w \<Rightarrow> 'f FdTable option \<times> 'w" where
  "fd_release closeFile t w =
     (let t1 = t\<lparr>fd_refCount := fd_refCount t - 1\<rparr> in
      if fd_refCount t1 = 0 then (None, snd (fd_closeAll closeFile t1 w)) else (Some t1, w))"

definition fd_allocAt :: "('f \<Rightarrow> 'w \<Rightarrow> 'w) \<Rightarrow> int \<Rightarrow> 'f option \<Rightarrow> 'f FdTable \<Rightarrow> 'w \<Rightarrow> int \<times> 'f FdTable \<times> 'w" where
  "fd_allocAt closeFile fd file t w =
     (if fd < 0 \<or> fd \<ge> int MAX_FDS \<or> file = None then (- 1, t, w)
      else
        let w1 = (case m_fds t ! nat fd of None \<Rightarrow> w | Some old \<Rightarrow> closeFile old w) in
        (fd, t\<lparr>m_fds := (m_fds t)[nat fd := file]\<rparr>, w1))"

section \<open>Properties\<close>

definition fd_wf :: "'f FdTable \<Rightarrow> bool" where
  "fd_wf t \<longleftrightarrow> length (m_fds t) = MAX_FDS"

declare fd_scan.simps [simp del]

lemma fd_scan_spec:
  "fd_scan fds i = - 1 \<and> (\<forall>j. i \<le> j \<and> j < MAX_FDS \<longrightarrow> fds ! j \<noteq> None) \<or>
   (\<exists>n. fd_scan fds i = int n \<and> i \<le> n \<and> n < MAX_FDS \<and> fds ! n = None \<and> (\<forall>j. i \<le> j \<and> j < n \<longrightarrow> fds ! j \<noteq> None))"
proof (induction fds i rule: fd_scan.induct)
  case (1 fds i)
  consider "\<not> i < MAX_FDS" | "i < MAX_FDS" "fds ! i = None" | "i < MAX_FDS" "fds ! i \<noteq> None" by blast
  then show ?case
  proof cases
    case 1
    then show ?thesis by (subst fd_scan.simps) auto
  next
    case 2
    then have "fd_scan fds i = int i" by (subst fd_scan.simps) simp
    with 2 show ?thesis by auto
  next
    case 3
    then have s: "fd_scan fds i = fd_scan fds (i + 1)" by (subst fd_scan.simps) auto
    from "1.IH" [OF 3] show ?thesis
    proof (elim disjE exE conjE)
      assume "fd_scan fds (i + 1) = - 1" and a: "\<forall>j. i + 1 \<le> j \<and> j < MAX_FDS \<longrightarrow> fds ! j \<noteq> None"
      then show ?thesis unfolding s using all_from_Suc [OF 3(2) a] by blast
    next
      fix n assume n: "fd_scan fds (i + 1) = int n" "i + 1 \<le> n" "n < MAX_FDS" "fds ! n = None"
        and a: "\<forall>j. i + 1 \<le> j \<and> j < n \<longrightarrow> fds ! j \<noteq> None"
      then show ?thesis unfolding s using all_from_Suc [OF 3(2) a] by (intro disjI2 exI [of _ n]) simp
    qed
  qed
qed

lemma fd_alloc_spec:
  assumes "fd_wf t" and "0 \<le> low"
  shows "\<exists>i t'. fd_alloc file low t = Inr (i, t') \<and> fd_wf t' \<and>
      (if i = - 1 then t' = t \<and> (\<forall>j. low \<le> j \<and> j < int MAX_FDS \<longrightarrow> fd_get j t \<noteq> None)
       else low \<le> i \<and> i < int MAX_FDS \<and> fd_get i t = None \<and> (\<forall>j. low \<le> j \<and> j < i \<longrightarrow> fd_get j t \<noteq> None) \<and>
         fd_get i t' = Some file \<and> (\<forall>j. j \<noteq> i \<longrightarrow> fd_get j t' = fd_get j t))"
proof -
  have len: "length (m_fds t) = MAX_FDS" using assms(1) by (simp add: fd_wf_def)
  consider (full) "fd_scan (m_fds t) (nat low) = - 1" "\<forall>j. nat low \<le> j \<and> j < MAX_FDS \<longrightarrow> m_fds t ! j \<noteq> None"
    | (found) n where "fd_scan (m_fds t) (nat low) = int n" "nat low \<le> n" "n < MAX_FDS" "m_fds t ! n = None"
        "\<forall>j. nat low \<le> j \<and> j < n \<longrightarrow> m_fds t ! j \<noteq> None"
    using fd_scan_spec [of "m_fds t" "nat low"] by blast
  then show ?thesis
  proof cases
    case full
    have "fd_get j t \<noteq> None" if "low \<le> j" "j < int MAX_FDS" for j
      using full(2) [rule_format, of "nat j"] that assms(2) by (simp add: fd_get_def nat_le_iff)
    then show ?thesis using full(1) assms by (simp add: fd_alloc_def)
  next
    case (found n)
    let ?t = "t\<lparr>m_fds := (m_fds t)[n := Some file]\<rparr>"
    have "fd_get j t \<noteq> None" if "low \<le> j" "j < int n" for j
      using found(5) [rule_format, of "nat j"] that assms(2) found(3) by (simp add: fd_get_def nat_le_iff)
    moreover have "fd_get j ?t = fd_get j t" if "j \<noteq> int n" for j
      using that by (auto simp: fd_get_def nth_list_update)
    moreover have "fd_get (int n) ?t = Some file" "fd_get (int n) t = None" "low \<le> int n" "fd_wf ?t"
      using found(2-4) len by (simp_all add: fd_get_def fd_wf_def nat_le_iff)
    moreover have "fd_alloc file low t = Inr (int n, ?t)"
      using found(1) assms(2) by (simp add: fd_alloc_def)
    ultimately show ?thesis using found(3) by (intro exI [of _ "int n"] exI [of _ ?t]) simp
  qed
qed

lemma fd_close_spec:
  assumes "fd_wf t"
  shows "case fd_get fd t of
       None \<Rightarrow> fd_close cl fd t w = (- 1, t, w)
     | Some f \<Rightarrow> \<exists>t'. fd_close cl fd t w = (0, t', cl f w) \<and> fd_wf t' \<and> fd_get fd t' = None \<and>
         (\<forall>j. j \<noteq> fd \<longrightarrow> fd_get j t' = fd_get j t)"
  using assms by (auto simp: fd_get_def fd_close_def fd_wf_def nth_list_update split: option.splits if_splits)

text \<open>
  C22: a descriptor table gives out the smallest free descriptor from the one asked for upwards, or -1 when there is none.
  The file is found under its descriptor until it is closed, a close ends it exactly once and frees the
  descriptor, a second close and a descriptor out of range give -1, and no operation touches another descriptor.
\<close>

theorem fd_table_operations:
  assumes "fd_wf t" and "0 \<le> low"
  shows "(\<exists>i t'. fd_alloc file low t = Inr (i, t') \<and> fd_wf t' \<and>
      (if i = - 1 then t' = t \<and> (\<forall>j. low \<le> j \<and> j < int MAX_FDS \<longrightarrow> fd_get j t \<noteq> None)
       else low \<le> i \<and> i < int MAX_FDS \<and> fd_get i t = None \<and> (\<forall>j. low \<le> j \<and> j < i \<longrightarrow> fd_get j t \<noteq> None) \<and>
         fd_get i t' = Some file \<and> (\<forall>j. j \<noteq> i \<longrightarrow> fd_get j t' = fd_get j t))) \<and>
    (\<forall>fd. case fd_get fd t of
       None \<Rightarrow> fd_close cl fd t w = (- 1, t, w)
     | Some f \<Rightarrow> \<exists>t'. fd_close cl fd t w = (0, t', cl f w) \<and> fd_wf t' \<and> fd_get fd t' = None \<and>
         (\<forall>j. j \<noteq> fd \<longrightarrow> fd_get j t' = fd_get j t))"
  by (intro conjI allI fd_alloc_spec [OF assms] fd_close_spec [OF assms(1)])

theorem fd_table_operations_witness:
  "\<exists>i t'. fd_alloc (7 :: nat) 3 (FdTable_ctor :: nat FdTable) = Inr (i, t') \<and> i = 3 \<and> fd_get 3 t' = Some 7"
proof -
  have "fd_wf (FdTable_ctor :: nat FdTable)" by (simp add: fd_wf_def FdTable_ctor_def)
  moreover have "fd_get j (FdTable_ctor :: nat FdTable) = None" for j
    by (auto simp: fd_get_def FdTable_ctor_def nat_less_iff)
  moreover have "fd_alloc (7 :: nat) 3 (FdTable_ctor :: nat FdTable) \<noteq> Inr (- 1, t')" for t' :: "nat FdTable"
    by (simp add: fd_alloc_def fd_scan.simps FdTable_ctor_def MAX_FDS_def)
  ultimately show ?thesis
    using fd_table_operations [of "FdTable_ctor :: nat FdTable" 3 7 "\<lambda>_ (w :: unit). w" "()"]
    by (auto simp: fd_alloc_def fd_scan.simps FdTable_ctor_def MAX_FDS_def split: if_splits)
qed

end
