(* ===== verification/Disk.thy ===== *)
theory Disk
  imports LRUCache Sched
begin

text \<open>
  The block cache and the virtio disk driver (\<^verbatim>\<open>kernel/io/disk/block_cache.cpp\<close>, \<^verbatim>\<open>disk.cpp\<close>).
  The \<^verbatim>\<open>LRUCache\<close> of the block cache appears as the recency list it refines. The driver runs for
  one process at a time here: a semaphore whose value is zero has nobody left to signal it, and waiting on it is
  the outcome \<open>None\<close>. The device is not part of the sources: it is the parameter \<open>dev\<close>, a
  function of the queues it shares with the driver and of the buffer a request points to.
\<close>

section \<open>State\<close>

definition SECTOR_SIZE :: nat where "SECTOR_SIZE = 512"
definition QUEUE_SIZE :: nat where "QUEUE_SIZE = 8"
definition VIRTQ_DESC_F_NEXT :: u16 where "VIRTQ_DESC_F_NEXT = 1"
definition VIRTQ_DESC_F_WRITE :: u16 where "VIRTQ_DESC_F_WRITE = 2"

definition SLOTS :: nat where "SLOTS = QUEUE_SIZE div 3"

type_synonym sector = u64
type_synonym block = "u8 list"

record CachedBlock =
  sectorNum :: sector
  cb_data :: block
  dirty :: bool

text \<open>The addresses a descriptor can hold: a request header, the caller's buffer, a status byte.\<close>

datatype dma = ReqAddr nat | BufAddr | StatusAddr nat | NoAddr

record VirtqDesc =
  vd_addr :: dma
  vd_len :: u32
  vd_flags :: u16
  vd_next :: u16

record VirtioBlkReqHeader =
  rq_type :: u32
  rq_reserved :: u32
  rq_sector :: sector

datatype opType = READ | WRITE

definition op_code :: "opType \<Rightarrow> u32" where
  "op_code op = (case op of READ \<Rightarrow> 0 | WRITE \<Rightarrow> 1)"

text \<open>\<open>medium\<close> is what the device stores; the driver never touches it.\<close>

record drv =
  d_sie :: bool
  bc_cache :: "(sector \<times> CachedBlock) list option"
  bc_lock :: Lock
  s_flushing :: bool
  d_usedIdx :: u16
  av_idx :: u16
  av_ring :: "u16 list"
  us_idx :: u16
  us_ring :: "u32 list"
  d_desc :: "VirtqDesc list"
  d_req :: "VirtioBlkReqHeader list"
  d_status :: "u8 list"
  d_free :: "u8 list"
  d_slotSem :: "u32 list"
  d_lock :: Lock
  m_interruptMode :: bool
  d_allocSem :: u32
  d_slotSector :: "sector list"
  d_coalesceSem :: "u32 list"
  medium :: "sector \<Rightarrow> block"

section \<open>The block cache\<close>

definition bc_acquire :: "drv \<Rightarrow> drv run" where
  "bc_acquire d =
     (case acquire (bc_lock d) (d_sie d) of
        None \<Rightarrow> None
      | Some (l, sie) \<Rightarrow> Some (Inr (d\<lparr>bc_lock := l, d_sie := sie\<rparr>)))"

definition bc_release :: "drv \<Rightarrow> drv" where
  "bc_release d = (case release (bc_lock d) (d_sie d) of (l, sie) \<Rightarrow> d\<lparr>bc_lock := l, d_sie := sie\<rparr>)"

definition BlockCache_lookup :: "sector \<Rightarrow> drv \<Rightarrow> (block option \<times> drv) run" where
  "BlockCache_lookup s d =
     bindR (bc_acquire d) (\<lambda>d1.
       case bc_cache d1 of
         None \<Rightarrow> Some (Inr (None, bc_release d1))
       | Some xs \<Rightarrow>
           (case map_of xs s of
              None \<Rightarrow> Some (Inr (None, bc_release d1))
            | Some cb \<Rightarrow> Some (Inr (Some (cb_data cb), bc_release (d1\<lparr>bc_cache := Some (spec_touch trait_u64 s xs)\<rparr>)))))"

text \<open>Writing through the pointer that \<open>lookup\<close> returned, or through \<open>at\<close>, changes the entry in place.\<close>

definition bc_poke :: "sector \<Rightarrow> (CachedBlock \<Rightarrow> CachedBlock) \<Rightarrow> (sector \<times> CachedBlock) list \<Rightarrow> (sector \<times> CachedBlock) list" where
  "bc_poke s f xs = map (\<lambda>(k, cb). (k, if k = s then f cb else cb)) xs"

text \<open>
  \<open>wr\<close> is \<^verbatim>\<open>Disk::write\<close> with \<open>force\<close> set. The callback runs inside \<^verbatim>\<open>LRUCache::insert\<close>,
  with the lock of the cache held.
\<close>

definition freeCachedBlock :: "(sector \<Rightarrow> block \<Rightarrow> drv \<Rightarrow> drv run) \<Rightarrow> CachedBlock \<Rightarrow> drv \<Rightarrow> drv run" where
  "freeCachedBlock wr cb d = (if dirty cb then wr (sectorNum cb) (cb_data cb) d else Some (Inr d))"

definition bc_evict :: "(sector \<Rightarrow> block \<Rightarrow> drv \<Rightarrow> drv run) \<Rightarrow> (sector \<times> CachedBlock) list \<Rightarrow> drv \<Rightarrow> drv run" where
  "bc_evict wr xs d =
     (if length xs \<ge> LRU_DEFAULT_CAPACITY then
        bindR (freeCachedBlock wr (snd (last xs)) d)
          (\<lambda>d1. Some (Inr (d1\<lparr>bc_cache := map_option butlast (bc_cache d1)\<rparr>)))
      else Some (Inr d))"

definition BlockCache_insert :: "(sector \<Rightarrow> block \<Rightarrow> drv \<Rightarrow> drv run) \<Rightarrow> sector \<Rightarrow> block \<Rightarrow> drv \<Rightarrow> drv run" where
  "BlockCache_insert wr s data d =
     (if s_flushing d then Some (Inr d)
      else bindR (bc_acquire d) (\<lambda>d1.
        let xs = (case bc_cache d1 of None \<Rightarrow> [] | Some ys \<Rightarrow> ys);
            d2 = d1\<lparr>bc_cache := Some xs\<rparr> in
        if spec_has trait_u64 s xs then
          Some (Inr (bc_release (d2\<lparr>bc_cache := Some (bc_poke s (cb_data_update (\<lambda>_. data)) (spec_touch trait_u64 s xs))\<rparr>)))
        else
          bindR (bc_evict wr xs d2) (\<lambda>d3.
            Some (Inr (bc_release (d3\<lparr>bc_cache :=
              map_option (\<lambda>ys. (s, \<lparr>sectorNum = s, cb_data = data, dirty = False\<rparr>) # ys) (bc_cache d3)\<rparr>))))))"

definition BlockCache_invalidate :: "sector \<Rightarrow> drv \<Rightarrow> drv run" where
  "BlockCache_invalidate s d =
     bindR (bc_acquire d) (\<lambda>d1.
       case bc_cache d1 of
         None \<Rightarrow> Some (Inr (bc_release d1))
       | Some xs \<Rightarrow> Some (Inr (bc_release (d1\<lparr>bc_cache := Some (spec_drop trait_u64 s xs)\<rparr>))))"

definition BlockCache_markDirty :: "sector \<Rightarrow> drv \<Rightarrow> drv run" where
  "BlockCache_markDirty s d =
     (case bc_cache d of
        None \<Rightarrow> Some (Inl NullDeref)
      | Some xs \<Rightarrow>
          if spec_has trait_u64 s xs then Some (Inr (d\<lparr>bc_cache := Some (bc_poke s (dirty_update (\<lambda>_. True)) xs)\<rparr>))
          else Some (Inl (Panic ''HashMap::operator[](): key not found'')))"
section \<open>The driver\<close>

definition disk_lock :: "drv \<Rightarrow> drv run" where
  "disk_lock d =
     (case acquire (d_lock d) (d_sie d) of
        None \<Rightarrow> None
      | Some (l, sie) \<Rightarrow> Some (Inr (d\<lparr>d_lock := l, d_sie := sie\<rparr>)))"

definition disk_unlock :: "drv \<Rightarrow> drv" where
  "disk_unlock d = (case release (d_lock d) (d_sie d) of (l, sie) \<Rightarrow> d\<lparr>d_lock := l, d_sie := sie\<rparr>)"

text \<open>The first free slot from \<open>i\<close> on.\<close>

function slot_scan :: "nat \<Rightarrow> u8 list \<Rightarrow> nat option" where
  "slot_scan i fr = (if i < SLOTS then (if fr ! i = 0 then Some i else slot_scan (i + 1) fr) else None)"
  by pat_completeness auto
termination by (relation "measure (\<lambda>(i, _). SLOTS - i)") auto

declare slot_scan.simps [simp del]

definition Disk_allocSlot :: "drv \<Rightarrow> (nat option \<times> drv) run" where
  "Disk_allocSlot d =
     (if d_allocSem d = 0 then None
      else bindR (disk_lock (d\<lparr>d_allocSem := d_allocSem d - 1\<rparr>)) (\<lambda>d1.
        case slot_scan 0 (d_free d1) of
          Some i \<Rightarrow> Some (Inr (Some i, disk_unlock (d1\<lparr>d_free := (d_free d1)[i := 1]\<rparr>)))
        | None \<Rightarrow> Some (Inr (None, disk_unlock d1))))"

definition Disk_freeSlot :: "nat \<Rightarrow> drv \<Rightarrow> drv run" where
  "Disk_freeSlot slot d =
     bindR (disk_lock d) (\<lambda>d1.
       let d2 = disk_unlock (d1\<lparr>d_free := (d_free d1)[slot := 0], d_slotSector := (d_slotSector d1)[slot := - 1]\<rparr>) in
       Some (Inr (d2\<lparr>d_allocSem := d_allocSem d2 + 1\<rparr>)))"

text \<open>The scan for a request in flight on the same sector; \<open>Some buf\<close> is the early return.\<close>

function coalesce :: "nat \<Rightarrow> sector \<Rightarrow> opType \<Rightarrow> drv \<Rightarrow> (block option \<times> drv) run" where
  "coalesce i s op d =
     (if i < SLOTS then
        if d_free d ! i \<noteq> 0 \<and> d_slotSector d ! i = s then
          if d_coalesceSem d ! i = 0 then None
          else bindR (BlockCache_lookup s (d\<lparr>d_coalesceSem := (d_coalesceSem d)[i := d_coalesceSem d ! i - 1]\<rparr>))
                 (\<lambda>(cached, d1). if cached \<noteq> None \<and> op = READ then Some (Inr (cached, d1)) else coalesce (i + 1) s op d1)
        else coalesce (i + 1) s op d
      else Some (Inr (None, d)))"
  by pat_completeness auto
termination by (relation "measure (\<lambda>(i, _). SLOTS - i)") auto

declare coalesce.simps [simp del]

text \<open>The request is written down and made available.\<close>

definition post_request :: "nat \<Rightarrow> sector \<Rightarrow> opType \<Rightarrow> drv \<Rightarrow> drv" where
  "post_request slot s op d =
     (let d0 = slot * 3; d1 = slot * 3 + 1; d2 = slot * 3 + 2 in
      d\<lparr>d_req := (d_req d)[slot := \<lparr>rq_type = op_code op, rq_reserved = 0, rq_sector = s\<rparr>],
        d_status := (d_status d)[slot := 0xFF],
        d_desc := (d_desc d)
          [d0 := \<lparr>vd_addr = ReqAddr slot, vd_len = 16, vd_flags = VIRTQ_DESC_F_NEXT, vd_next = of_nat d1\<rparr>,
           d1 := \<lparr>vd_addr = BufAddr, vd_len = 512,
                  vd_flags = VIRTQ_DESC_F_NEXT OR (if op = READ then VIRTQ_DESC_F_WRITE else 0), vd_next = of_nat d2\<rparr>,
           d2 := \<lparr>vd_addr = StatusAddr slot, vd_len = 1, vd_flags = VIRTQ_DESC_F_WRITE, vd_next = 0\<rparr>],
        av_ring := (av_ring d)[unat (av_idx d) mod QUEUE_SIZE := of_nat d0],
        av_idx := av_idx d + 1\<rparr>)"

text \<open>The handler signals the slot of every used element; its loop ends when it has caught up.\<close>

lemma gap_decreases: "i \<noteq> u \<Longrightarrow> unat (u - (i + 1) :: u16) < unat (u - i)"
proof -
  assume "i \<noteq> u"
  then have "u - i \<noteq> 0" by simp
  then have "unat (u - i - 1) < unat (u - i)" by (rule measure_unat)
  moreover have "u - (i + 1) = u - i - 1" by (simp only: diff_diff_eq)
  ultimately show ?thesis by (simp only:)
qed

function Disk_interruptHandler :: "drv \<Rightarrow> drv run" where
  "Disk_interruptHandler d =
     (if d_usedIdx d = us_idx d then Some (Inr d)
      else
        let i = us_ring d ! (unat (d_usedIdx d) mod QUEUE_SIZE); slot = unat i div 3 in
        if SLOTS \<le> slot then Some (Inl Undefined)
        else if d_status d ! slot = 0xFF then None
        else Disk_interruptHandler (d\<lparr>d_usedIdx := d_usedIdx d + 1,
               d_slotSem := (d_slotSem d)[slot := d_slotSem d ! slot + 1]\<rparr>))"
  by pat_completeness auto
termination
  by (relation "measure (\<lambda>d. unat (us_idx d - d_usedIdx d))") (auto simp: gap_decreases)

declare Disk_interruptHandler.simps [simp del]

text \<open>Waiting for the slot: its semaphore with interrupts, its status byte without.\<close>

definition await_slot :: "nat \<Rightarrow> drv \<Rightarrow> drv run" where
  "await_slot slot d =
     (if m_interruptMode d then
        bindR (Disk_interruptHandler d) (\<lambda>d1.
          if d_slotSem d1 ! slot = 0 then None
          else Some (Inr (d1\<lparr>d_slotSem := (d_slotSem d1)[slot := d_slotSem d1 ! slot - 1]\<rparr>)))
      else if d_status d ! slot = 0xFF then None else Some (Inr d))"

text \<open>
  \<^verbatim>\<open>sendRequest\<close> returns what the caller's buffer holds afterwards. It inserts the block into the cache, whose
  eviction callback calls it again. Nobody waits on the slot's coalescing semaphore at the end,
  since only one process is inside the driver.
\<close>

type_synonym device = "block \<Rightarrow> drv \<Rightarrow> block \<times> drv"

definition finish_request ::
  "(sector \<Rightarrow> block \<Rightarrow> drv \<Rightarrow> drv run) \<Rightarrow> device \<Rightarrow> nat option \<Rightarrow> sector \<Rightarrow> block \<Rightarrow> opType \<Rightarrow> drv \<Rightarrow> (block \<times> drv) run" where
  "finish_request wr dev slot s buf op d =
     bindR (disk_lock d) (\<lambda>d1.
       case slot of
         None \<Rightarrow> Some (Inl Undefined)
       | Some i \<Rightarrow>
           let d2 = disk_unlock (d1\<lparr>d_slotSector := (d_slotSector d1)[i := s]\<rparr>);
               (buf1, d3) = dev buf (post_request i s op d2) in
           bindR (await_slot i d3) (\<lambda>d4.
             if d_status d4 ! i \<noteq> 0 then Some (Inl (Panic ''Disk::sendRequest(): request failed''))
             else bindR (BlockCache_insert wr s buf1 d4) (\<lambda>d5.
                  bindR (Disk_freeSlot i d5) (\<lambda>d6. Some (Inr (buf1, d6))))))"

lemma BlockCache_insert_mono [partial_function_mono]:
  assumes "\<And>a b c. mono_option (\<lambda>f. wr f a b c)"
  shows "mono_option (\<lambda>f. BlockCache_insert (wr f) s data d)"
  unfolding BlockCache_insert_def bc_evict_def freeCachedBlock_def Let_def
  by (intro partial_function_mono assms)

lemma finish_request_mono [partial_function_mono]:
  assumes "\<And>a b c. mono_option (\<lambda>f. wr f a b c)"
  shows "mono_option (\<lambda>f. finish_request (wr f) dev slot s buf op d)"
proof (cases slot)
  case (Some i)
  have "mono_option (\<lambda>f. case p of (buf1, d3) \<Rightarrow>
          bindR (await_slot i d3) (\<lambda>d4.
             if d_status d4 ! i \<noteq> 0 then Some (Inl (Panic ''Disk::sendRequest(): request failed''))
             else bindR (BlockCache_insert (wr f) s buf1 d4) (\<lambda>d5.
                  bindR (Disk_freeSlot i d5) (\<lambda>d6. Some (Inr (buf1, d6))))))" for p
    by (cases p) (simp; intro partial_function_mono assms)
  then show ?thesis
    unfolding finish_request_def Let_def Some option.case by (intro partial_function_mono)
qed (simp add: finish_request_def; intro partial_function_mono)

partial_function (option) sendRequest :: "device \<Rightarrow> sector \<Rightarrow> block \<Rightarrow> opType \<Rightarrow> drv \<Rightarrow> (block \<times> drv) run" where
  "sendRequest dev s buf op d =
     bindR (coalesce 0 s op d) (\<lambda>(early, d1).
       case early of
         Some b \<Rightarrow> Some (Inr (b, d1))
       | None \<Rightarrow>
           bindR (Disk_allocSlot d1) (\<lambda>(slot, d2).
             finish_request (\<lambda>s' b' d'. bindR (sendRequest dev s' b' WRITE d') (\<lambda>(_, d''). Some (Inr d'')))
               dev slot s buf op d2))"
definition Disk_read :: "device \<Rightarrow> sector \<Rightarrow> block \<Rightarrow> drv \<Rightarrow> (block \<times> drv) run" where
  "Disk_read dev s buf d =
     bindR (BlockCache_lookup s d) (\<lambda>(cached, d1).
       case cached of Some b \<Rightarrow> Some (Inr (b, d1)) | None \<Rightarrow> sendRequest dev s buf READ d1)"

definition Disk_write :: "device \<Rightarrow> sector \<Rightarrow> block \<Rightarrow> bool \<Rightarrow> drv \<Rightarrow> drv run" where
  "Disk_write dev s buf force d =
     (let send = (\<lambda>d'. bindR (sendRequest dev s buf WRITE d') (\<lambda>(_, d''). Some (Inr d''))) in
      if force then send d
      else bindR (BlockCache_lookup s d) (\<lambda>(cached, d1).
        case cached of
          Some _ \<Rightarrow>
            BlockCache_markDirty s
              (d1\<lparr>bc_cache := map_option (bc_poke s (cb_data_update (\<lambda>_. buf))) (bc_cache d1)\<rparr>)
        | None \<Rightarrow> send d1))"

text \<open>\<open>LRUCache::flush\<close> runs the callback on every entry, then the cache object is deleted.\<close>

primrec flush_entries :: "device \<Rightarrow> (sector \<times> CachedBlock) list \<Rightarrow> drv \<Rightarrow> drv run" where
  "flush_entries dev [] d = Some (Inr d)"
| "flush_entries dev (e # es) d =
     bindR (freeCachedBlock (\<lambda>s b d'. Disk_write dev s b True d') (snd e) d) (flush_entries dev es)"

definition BlockCache_flush :: "device \<Rightarrow> drv \<Rightarrow> drv run" where
  "BlockCache_flush dev d =
     bindR (bc_acquire d) (\<lambda>d1.
       case bc_cache d1 of
         None \<Rightarrow> Some (Inr (bc_release d1))
       | Some xs \<Rightarrow>
           bindR (flush_entries dev xs (d1\<lparr>s_flushing := True\<rparr>)) (\<lambda>d2.
             Some (Inr (bc_release (d2\<lparr>bc_cache := None, s_flushing := False\<rparr>)))))"

definition enableInterruptMode :: "drv \<Rightarrow> drv" where
  "enableInterruptMode d = d\<lparr>d_usedIdx := us_idx d, d_slotSem := replicate SLOTS 0, m_interruptMode := True\<rparr>"

definition disableInterruptMode :: "drv \<Rightarrow> drv" where
  "disableInterruptMode d = d\<lparr>m_interruptMode := False\<rparr>"

section \<open>Initialisation\<close>

text \<open>
  The registers of the device are outside the program: \<open>rd\<close> gives what reading a register returns after the
  writes made so far, and the writes are the result. The three queue pages are what \<^verbatim>\<open>kallocPage\<close> returned.
\<close>

type_synonym mmio = "(u32 \<times> u32) list"

definition VIRTIO_MAGIC :: u32 where "VIRTIO_MAGIC = 0x000"
definition VIRTIO_MAGIC_VALUE :: u32 where "VIRTIO_MAGIC_VALUE = 0x74726976"
definition VIRTIO_VERSION :: u32 where "VIRTIO_VERSION = 0x004"
definition VIRTIO_VERSION_VALUE :: u32 where "VIRTIO_VERSION_VALUE = 0x002"
definition VIRTIO_DEVICE_ID :: u32 where "VIRTIO_DEVICE_ID = 0x008"
definition VIRTIO_DEVICE_ID_VALUE :: u32 where "VIRTIO_DEVICE_ID_VALUE = 0x002"
definition VIRTIO_DEVICE_FEATURES_SEL :: u32 where "VIRTIO_DEVICE_FEATURES_SEL = 0x014"
definition VIRTIO_DRIVER_FEATURES :: u32 where "VIRTIO_DRIVER_FEATURES = 0x020"
definition VIRTIO_DRIVER_FEATURES_SEL :: u32 where "VIRTIO_DRIVER_FEATURES_SEL = 0x024"
definition VIRTIO_QUEUE_SEL :: u32 where "VIRTIO_QUEUE_SEL = 0x030"
definition VIRTIO_QUEUE_NUM :: u32 where "VIRTIO_QUEUE_NUM = 0x038"
definition VIRTIO_QUEUE_READY :: u32 where "VIRTIO_QUEUE_READY = 0x044"
definition VIRTIO_STATUS :: u32 where "VIRTIO_STATUS = 0x070"
definition VIRTIO_STATUS_ACK :: u32 where "VIRTIO_STATUS_ACK = 0x001"
definition VIRTIO_STATUS_DRIVER :: u32 where "VIRTIO_STATUS_DRIVER = 0x002"
definition VIRTIO_STATUS_DRIVER_OK :: u32 where "VIRTIO_STATUS_DRIVER_OK = 0x004"
definition VIRTIO_STATUS_FEATURES_OK :: u32 where "VIRTIO_STATUS_FEATURES_OK = 0x008"
definition VIRTIO_QUEUE_DESC :: u32 where "VIRTIO_QUEUE_DESC = 0x080"
definition VIRTIO_QUEUE_AVAIL :: u32 where "VIRTIO_QUEUE_AVAIL = 0x090"
definition VIRTIO_QUEUE_USED :: u32 where "VIRTIO_QUEUE_USED = 0x0A0"

definition writeReg64 :: "u32 \<Rightarrow> u64 \<Rightarrow> mmio" where
  "writeReg64 offset v = [(offset, ucast (v AND 0xFFFFFFFF)), (offset + 4, ucast (drop_bit 32 v))]"

definition Disk_init :: "(mmio \<Rightarrow> u32 \<Rightarrow> u32) \<Rightarrow> u64 \<Rightarrow> u64 \<Rightarrow> u64 \<Rightarrow> drv \<Rightarrow> (mmio \<times> drv) res" where
  "Disk_init rd descPage availPage usedPage d =
     (if rd [] VIRTIO_MAGIC \<noteq> VIRTIO_MAGIC_VALUE then Inl (Panic ''Disk::init(): wrong magic value'')
      else if rd [] VIRTIO_VERSION \<noteq> VIRTIO_VERSION_VALUE then Inl (Panic ''Disk::init(): wrong version value'')
      else if rd [] VIRTIO_DEVICE_ID \<noteq> VIRTIO_DEVICE_ID_VALUE then Inl (Panic ''Disk::init(): wrong device id'')
      else
        let status1 = VIRTIO_STATUS_ACK; status2 = status1 OR VIRTIO_STATUS_DRIVER;
            status3 = status2 OR VIRTIO_STATUS_FEATURES_OK;
            w = [(VIRTIO_STATUS, status1), (VIRTIO_STATUS, status2),
                 (VIRTIO_DEVICE_FEATURES_SEL, 0), (VIRTIO_DRIVER_FEATURES_SEL, 0), (VIRTIO_DRIVER_FEATURES, 0),
                 (VIRTIO_DEVICE_FEATURES_SEL, 1), (VIRTIO_DRIVER_FEATURES_SEL, 1), (VIRTIO_DRIVER_FEATURES, 1),
                 (VIRTIO_STATUS, status3)] in
        if rd w VIRTIO_STATUS AND VIRTIO_STATUS_FEATURES_OK = 0 then Inl (Panic ''Disk::init(): features not accepted'')
        else Inr
          (w @ [(VIRTIO_QUEUE_SEL, 0), (VIRTIO_QUEUE_NUM, of_nat QUEUE_SIZE)]
             @ writeReg64 VIRTIO_QUEUE_DESC (v2p descPage) @ writeReg64 VIRTIO_QUEUE_AVAIL (v2p availPage)
             @ writeReg64 VIRTIO_QUEUE_USED (v2p usedPage)
             @ [(VIRTIO_QUEUE_READY, 1), (VIRTIO_STATUS, status3 OR VIRTIO_STATUS_DRIVER_OK)],
           d\<lparr>d_desc := replicate QUEUE_SIZE \<lparr>vd_addr = NoAddr, vd_len = 0, vd_flags = 0, vd_next = 0\<rparr>,
             av_idx := 0, av_ring := replicate QUEUE_SIZE 0, us_idx := 0, us_ring := replicate QUEUE_SIZE 0,
             d_allocSem := of_nat SLOTS, d_coalesceSem := replicate SLOTS 0, d_slotSector := replicate SLOTS (- 1)\<rparr>))"

section \<open>What the device does\<close>

definition drv_shape :: "drv \<Rightarrow> bool" where
  "drv_shape d \<longleftrightarrow>
     length (av_ring d) = QUEUE_SIZE \<and> length (us_ring d) = QUEUE_SIZE \<and> length (d_desc d) = QUEUE_SIZE
     \<and> length (d_req d) = SLOTS \<and> length (d_status d) = SLOTS \<and> length (d_free d) = SLOTS
     \<and> length (d_slotSem d) = SLOTS \<and> length (d_slotSector d) = SLOTS \<and> length (d_coalesceSem d) = SLOTS"

text \<open>
  A virtio block device serves the chain that was made available last: a read fills the buffer from
  the medium, a write stores the buffer, the status byte becomes \<open>VIRTIO_BLK_S_OK\<close> and the
  chain's head is entered into the used ring.
\<close>

definition served :: "nat \<Rightarrow> sector \<Rightarrow> opType \<Rightarrow> block \<Rightarrow> drv \<Rightarrow> block \<times> drv" where
  "served slot s op buf e =
     (if op = READ then medium e s else buf,
      e\<lparr>d_status := (d_status e)[slot := 0],
        us_ring := (us_ring e)[unat (us_idx e) mod QUEUE_SIZE := of_nat (slot * 3)],
        us_idx := us_idx e + 1,
        medium := (if op = WRITE then (medium e)(s := buf) else medium e)\<rparr>)"

definition virtio_blk :: "device \<Rightarrow> bool" where
  "virtio_blk dev \<longleftrightarrow>
     (\<forall>slot s op buf d. slot < SLOTS \<longrightarrow> drv_shape d \<longrightarrow>
        dev buf (post_request slot s op d) = served slot s op buf (post_request slot s op d))"

section \<open>One request\<close>

text \<open>The driver between requests, and what the two kinds of slots look like.\<close>

definition queue_idle :: "drv \<Rightarrow> bool" where
  "queue_idle d \<longleftrightarrow>
     drv_shape d \<and> \<not> m_locked (d_lock d) \<and> d_free d = [0, 0] \<and> d_slotSem d = [0, 0] \<and> d_allocSem d = 2
     \<and> (m_interruptMode d \<longrightarrow> d_usedIdx d = us_idx d)"

definition queue_busy :: "drv \<Rightarrow> bool" where
  "queue_busy d \<longleftrightarrow>
     drv_shape d \<and> \<not> m_locked (d_lock d) \<and> d_free d = [1, 0] \<and> d_slotSem d = [0, 0] \<and> d_allocSem d = 1
     \<and> (m_interruptMode d \<longrightarrow> d_usedIdx d = us_idx d)"

lemma SLOTS_2 [simp]: "SLOTS = 2" by (simp add: SLOTS_def QUEUE_SIZE_def)

lemma list_of_two: "length xs = 2 \<Longrightarrow> \<exists>a b. xs = [a, b]"
  by (metis One_nat_def Suc_1 length_0_conv length_Suc_conv)

lemma coalesce_idle:
  assumes "queue_idle d"
  shows "coalesce 0 s op d = Some (Inr (None, d))"
  using assms
  by (simp add: queue_idle_def coalesce.simps [of 0] coalesce.simps [of "Suc 0"] coalesce.simps [of "Suc (Suc 0)"])

abbreviation freed_lock :: "drv \<Rightarrow> Lock" where
  "freed_lock d \<equiv> \<lparr>m_locked = False, m_pie = d_sie d\<rparr>"

lemma disk_lock_roundtrip:
  assumes "\<not> m_locked (d_lock d)"
  shows "disk_lock d = Some (Inr (d\<lparr>d_lock := \<lparr>m_locked = True, m_pie = d_sie d\<rparr>, d_sie := False\<rparr>))"
  using assms by (simp add: disk_lock_def acquire_def)

lemma allocSlot_idle:
  assumes "queue_idle d"
  shows "Disk_allocSlot d = Some (Inr (Some 0, d\<lparr>d_allocSem := 1, d_free := [1, 0], d_lock := freed_lock d\<rparr>))"
  using assms
  by (simp add: queue_idle_def Disk_allocSlot_def disk_lock_roundtrip disk_unlock_def release_def slot_scan.simps [of 0])

definition slot_freed :: "drv \<Rightarrow> drv" where
  "slot_freed d = d\<lparr>d_lock := freed_lock d, d_free := [0, 0], d_slotSector := (d_slotSector d)[0 := - 1], d_allocSem := 2\<rparr>"

lemma freeSlot_busy:
  assumes "queue_busy d"
  shows "Disk_freeSlot 0 d = Some (Inr (slot_freed d))" and "queue_idle (slot_freed d)"
  using assms
  by (simp_all add: queue_busy_def queue_idle_def Disk_freeSlot_def disk_lock_roundtrip disk_unlock_def release_def
      drv_shape_def slot_freed_def)
definition writeback :: "device \<Rightarrow> sector \<Rightarrow> block \<Rightarrow> drv \<Rightarrow> drv run" where
  "writeback dev s b d = bindR (sendRequest dev s b WRITE d) (\<lambda>(_, d'). Some (Inr d'))"

lemma Disk_write_force: "Disk_write dev s b True d = writeback dev s b d"
  by (simp add: Disk_write_def writeback_def)

text \<open>The part of the state that belongs to the block cache.\<close>

definition same_cache :: "drv \<Rightarrow> drv \<Rightarrow> bool" where
  "same_cache d e \<longleftrightarrow>
     bc_cache e = bc_cache d \<and> bc_lock e = bc_lock d \<and> s_flushing e = s_flushing d \<and> d_sie e = d_sie d"

lemma slot_of_head: "i < SLOTS \<Longrightarrow> unat (of_nat (i * 3) :: u32) div 3 = i"
  by (auto simp: less_2_cases_iff)

lemma handler_one:
  assumes "us_idx d = d_usedIdx d + 1" and ring: "us_ring d ! (unat (d_usedIdx d) mod QUEUE_SIZE) = of_nat (i * 3)"
    and st: "d_status d ! i = 0" and i: "i < SLOTS"
  shows "Disk_interruptHandler d =
    Some (Inr (d\<lparr>d_usedIdx := us_idx d, d_slotSem := (d_slotSem d)[i := d_slotSem d ! i + 1]\<rparr>))"
proof -
  let ?e = "d\<lparr>d_usedIdx := us_idx d, d_slotSem := (d_slotSem d)[i := d_slotSem d ! i + 1]\<rparr>"
  have "Disk_interruptHandler ?e = Some (Inr ?e)" by (simp add: Disk_interruptHandler.simps [of ?e])
  then show ?thesis
    using assms slot_of_head [OF i]
    by (subst Disk_interruptHandler.simps) (simp add: Let_def del: of_nat_mult)
qed

lemma await_served:
  assumes "drv_shape d" and "d_slotSem d = [0, 0]" and "m_interruptMode d \<longrightarrow> d_usedIdx d = us_idx d"
    and i: "i < SLOTS" and e: "e = snd (served i s op buf (post_request i s op d))"
  shows "\<exists>f. await_slot i e = Some (Inr f) \<and> d_status f ! i = 0 \<and> drv_shape f \<and> d_slotSem f = [0, 0]
    \<and> (m_interruptMode f \<longrightarrow> d_usedIdx f = us_idx f) \<and> same_cache d f \<and> d_lock f = d_lock d \<and> d_free f = d_free d
    \<and> d_allocSem f = d_allocSem d \<and> d_slotSector f = d_slotSector d
    \<and> medium f = (if op = WRITE then (medium d)(s := buf) else medium d)"
proof -
  have shape: "drv_shape e" and st: "d_status e ! i = 0" and sem: "d_slotSem e = [0, 0]"
    and cache: "same_cache d e" and rest: "d_lock e = d_lock d" "d_free e = d_free d" "d_allocSem e = d_allocSem d"
      "d_slotSector e = d_slotSector d"
    and md: "medium e = (if op = WRITE then (medium d)(s := buf) else medium d)"
    and mode: "m_interruptMode e = m_interruptMode d"
    using assms by (simp_all add: served_def post_request_def drv_shape_def same_cache_def Let_def)
  show ?thesis
  proof (cases "m_interruptMode d")
    case True
    have ix: "us_idx e = d_usedIdx e + 1"
      using True assms(3) by (simp add: e served_def post_request_def Let_def)
    have ring: "us_ring e ! (unat (d_usedIdx e) mod QUEUE_SIZE) = of_nat (i * 3)"
      using True assms(1,3) by (simp add: e served_def post_request_def Let_def drv_shape_def QUEUE_SIZE_def)
    let ?f = "e\<lparr>d_usedIdx := us_idx e, d_slotSem := [0, 0]\<rparr>"
    have "await_slot i e = Some (Inr ?f)"
      using True sem i
      by (auto simp: await_slot_def mode handler_one [OF ix ring st i] less_2_cases_iff)
    moreover have "drv_shape ?f" using shape by (simp add: drv_shape_def)
    moreover have "same_cache d ?f" using cache by (simp add: same_cache_def)
    ultimately show ?thesis using st rest md by (intro exI [of _ ?f]) simp
  next
    case False
    then have "await_slot i e = Some (Inr e)" using st by (simp add: await_slot_def mode)
    with False show ?thesis using st rest md cache shape sem mode by (intro exI [of _ e]) simp
  qed
qed

text \<open>A request in slot \<open>i\<close>, from the moment the slot is its own to the insertion into the cache.\<close>

lemma finish_idle:
  assumes dev: "virtio_blk dev" and shape: "drv_shape a" and lock: "\<not> m_locked (d_lock a)"
    and sem: "d_slotSem a = [0, 0]" and mode: "m_interruptMode a \<longrightarrow> d_usedIdx a = us_idx a" and i: "i < SLOTS"
    and b: "b = (if op = READ then medium a s else buf)"
  shows "\<exists>f. finish_request wr dev (Some i) s buf op a =
      bindR (BlockCache_insert wr s b f) (\<lambda>d5. bindR (Disk_freeSlot i d5) (\<lambda>d6. Some (Inr (b, d6))))
    \<and> drv_shape f \<and> d_slotSem f = [0, 0] \<and> (m_interruptMode f \<longrightarrow> d_usedIdx f = us_idx f) \<and> same_cache a f
    \<and> \<not> m_locked (d_lock f) \<and> d_free f = d_free a \<and> d_allocSem f = d_allocSem a
    \<and> d_slotSector f = (d_slotSector a)[i := s]
    \<and> medium f = (if op = WRITE then (medium a)(s := buf) else medium a)"
proof -
  let ?c = "a\<lparr>d_lock := freed_lock a, d_slotSector := (d_slotSector a)[i := s]\<rparr>"
  let ?e = "served i s op buf (post_request i s op ?c)"
  have shape': "drv_shape ?c" and sem': "d_slotSem ?c = [0, 0]"
    and mode': "m_interruptMode ?c \<longrightarrow> d_usedIdx ?c = us_idx ?c"
    using shape sem mode by (simp_all add: drv_shape_def)
  have served: "dev buf (post_request i s op ?c) = ?e"
    using dev shape' i unfolding virtio_blk_def by blast
  obtain f where f: "await_slot i (snd ?e) = Some (Inr f)" "d_status f ! i = 0" "drv_shape f" "d_slotSem f = [0, 0]"
      "m_interruptMode f \<longrightarrow> d_usedIdx f = us_idx f" "same_cache ?c f" "d_lock f = d_lock ?c" "d_free f = d_free ?c"
      "d_allocSem f = d_allocSem ?c" "d_slotSector f = d_slotSector ?c"
      "medium f = (if op = WRITE then (medium ?c)(s := buf) else medium ?c)"
    using await_served [OF shape' sem' mode' i refl] by blast
  have "fst ?e = b" by (simp add: served_def b post_request_def Let_def)
  with served have pair: "dev buf (post_request i s op ?c) = (b, snd ?e)" by (metis prod.collapse)
  have un: "disk_unlock (a\<lparr>d_lock := \<lparr>m_locked = True, m_pie = d_sie a\<rparr>,
       d_sie := False, d_slotSector := (d_slotSector a)[i := s]\<rparr>) = ?c"
    by (simp add: disk_unlock_def release_def)
  have "finish_request wr dev (Some i) s buf op a =
      bindR (BlockCache_insert wr s b f) (\<lambda>d5. bindR (Disk_freeSlot i d5) (\<lambda>d6. Some (Inr (b, d6))))"
    using f(1,2) by (simp add: finish_request_def disk_lock_roundtrip [OF lock] un pair Let_def)
  moreover have "same_cache a f" using f(6) by (simp add: same_cache_def)
  ultimately show ?thesis using f(3-5,7-11) by (intro exI [of _ f]) simp
qed

lemma send_starts:
  assumes "queue_idle d"
  shows "sendRequest dev s buf op d = finish_request (writeback dev) dev (Some 0) s buf op
    (d\<lparr>d_allocSem := 1, d_free := [1, 0], d_lock := freed_lock d\<rparr>)"
proof -
  have wr: "(\<lambda>s' b' d'. bindR (sendRequest dev s' b' WRITE d') (\<lambda>(_, d''). Some (Inr d''))) = writeback dev"
    by (intro ext) (simp add: writeback_def)
  show ?thesis
    by (subst sendRequest.simps) (simp add: coalesce_idle [OF assms] allocSlot_idle [OF assms] wr)
qed

lemma send_idle:
  assumes dev: "virtio_blk dev" and idle: "queue_idle d" and b: "b = (if op = READ then medium d s else buf)"
  shows "\<exists>e. sendRequest dev s buf op d =
      bindR (BlockCache_insert (writeback dev) s b e) (\<lambda>d5. bindR (Disk_freeSlot 0 d5) (\<lambda>d6. Some (Inr (b, d6))))
    \<and> queue_busy e \<and> same_cache d e \<and> d_slotSector e ! 0 = s
    \<and> medium e = (if op = WRITE then (medium d)(s := buf) else medium d)"
proof -
  let ?a = "d\<lparr>d_allocSem := 1, d_free := [1, 0], d_lock := freed_lock d\<rparr>"
  have "drv_shape ?a" "\<not> m_locked (d_lock ?a)" "d_slotSem ?a = [0, 0]" "m_interruptMode ?a \<longrightarrow> d_usedIdx ?a = us_idx ?a"
    "0 < SLOTS" "b = (if op = READ then medium ?a s else buf)"
    using idle b by (simp_all add: queue_idle_def drv_shape_def)
  from finish_idle [OF dev this, of "writeback dev"] obtain f where f:
    "sendRequest dev s buf op d =
      bindR (BlockCache_insert (writeback dev) s b f) (\<lambda>d5. bindR (Disk_freeSlot 0 d5) (\<lambda>d6. Some (Inr (b, d6))))"
    "drv_shape f" "d_slotSem f = [0, 0]" "m_interruptMode f \<longrightarrow> d_usedIdx f = us_idx f" "same_cache ?a f"
    "\<not> m_locked (d_lock f)" "d_free f = [1, 0]" "d_allocSem f = 1" "d_slotSector f = (d_slotSector d)[0 := s]"
    "medium f = (if op = WRITE then (medium d)(s := buf) else medium d)"
    unfolding send_starts [OF idle] by auto
  have "queue_busy f" using f(2-4,6-8) by (simp add: queue_busy_def)
  moreover have "same_cache d f" using f(5) by (simp add: same_cache_def)
  moreover have "d_slotSector f ! 0 = s" using f(9) idle by (simp add: queue_idle_def drv_shape_def)
  ultimately show ?thesis using f(1,10) by blast
qed

section \<open>The cache as a view of the medium\<close>

definition entries :: "drv \<Rightarrow> (sector \<times> CachedBlock) list" where
  "entries d = (case bc_cache d of None \<Rightarrow> [] | Some xs \<Rightarrow> xs)"

definition view :: "(sector \<times> CachedBlock) list \<Rightarrow> (sector \<Rightarrow> block) \<Rightarrow> sector \<Rightarrow> block" where
  "view xs md s = (case map_of xs s of Some cb \<Rightarrow> cb_data cb | None \<Rightarrow> md s)"

text \<open>A clean block agrees with the medium.\<close>

definition blocks_ok :: "(sector \<times> CachedBlock) list \<Rightarrow> (sector \<Rightarrow> block) \<Rightarrow> bool" where
  "blocks_ok xs md \<longleftrightarrow>
     distinct (map fst xs)
     \<and> (\<forall>e \<in> set xs. sectorNum (snd e) = fst e \<and> (\<not> dirty (snd e) \<longrightarrow> cb_data (snd e) = md (fst e)))"

definition evicts_clean :: "(sector \<times> CachedBlock) list \<Rightarrow> bool" where
  "evicts_clean xs \<longleftrightarrow> length xs < LRU_DEFAULT_CAPACITY \<or> \<not> dirty (snd (last xs))"

definition disk_ok :: "drv \<Rightarrow> bool" where
  "disk_ok d \<longleftrightarrow>
     queue_idle d \<and> \<not> m_locked (bc_lock d) \<and> \<not> s_flushing d \<and> blocks_ok (entries d) (medium d)"

definition disk_view :: "drv \<Rightarrow> sector \<Rightarrow> block" where
  "disk_view d = view (entries d) (medium d)"

lemma eq_u64 [simp]: "t_eq trait_u64 a b \<longleftrightarrow> a = b"
  by (simp add: trait_u64_def)

lemma touch_keys: "distinct (map fst xs) \<Longrightarrow> distinct (map fst (spec_touch trait_u64 s xs))"
  by (auto simp: spec_touch_def distinct_map_filter)

lemma touch_set [simp]: "set (spec_touch trait_u64 s xs) = set xs"
  by (auto simp: spec_touch_def)

lemma map_of_touch: "distinct (map fst xs) \<Longrightarrow> map_of (spec_touch trait_u64 s xs) = map_of xs"
  using map_of_inject_set [of "spec_touch trait_u64 s xs" xs] touch_keys [of xs s] by simp

lemma touch_ok: "blocks_ok xs md \<Longrightarrow> blocks_ok (spec_touch trait_u64 s xs) md"
  by (simp add: blocks_ok_def touch_keys)

lemma view_touch: "blocks_ok xs md \<Longrightarrow> view (spec_touch trait_u64 s xs) md = view xs md"
  by (rule ext) (simp add: view_def blocks_ok_def map_of_touch)

lemma has_iff: "spec_has trait_u64 s xs \<longleftrightarrow> map_of xs s \<noteq> None"
  by (force simp: spec_has_def map_of_eq_None_iff)

lemma keys_poke [simp]: "map fst (bc_poke s f xs) = map fst xs"
  by (simp add: bc_poke_def case_prod_unfold comp_def)

lemma map_of_poke: "map_of (bc_poke s f xs) k = (if k = s then map_option f (map_of xs k) else map_of xs k)"
  by (induction xs) (auto simp: bc_poke_def)

lemma view_poke:
  assumes "map_of xs s \<noteq> None"
  shows "view (bc_poke s (dirty_update (\<lambda>_. True)) (bc_poke s (cb_data_update (\<lambda>_. b)) xs)) md = (view xs md)(s := b)"
  using assms by (intro ext) (auto simp: view_def map_of_poke split: option.split)

lemma poke_ok:
  assumes "blocks_ok xs md"
  shows "blocks_ok (bc_poke s (dirty_update (\<lambda>_. True)) (bc_poke s (cb_data_update (\<lambda>_. b)) xs)) md"
  using assms unfolding blocks_ok_def keys_poke by (fastforce simp: bc_poke_def)

text \<open>Eviction of a clean block and insertion of one that agrees with the medium change nothing in the view.\<close>

lemma view_butlast:
  assumes ok: "blocks_ok xs md" and "xs \<noteq> []" and "\<not> dirty (snd (last xs))"
  shows "view (butlast xs) md = view xs md" and "blocks_ok (butlast xs) md"
proof -
  obtain ys e where xs: "xs = ys @ [e]" using assms(2) by (metis append_butlast_last_id)
  have e: "cb_data (snd e) = md (fst e)" and fresh: "map_of ys (fst e) = None"
    using ok assms(3) by (auto simp: blocks_ok_def xs map_of_eq_None_iff)
  show "view (butlast xs) md = view xs md"
    using e fresh by (intro ext) (cases e, auto simp: view_def xs map_add_def split: option.split)
  show "blocks_ok (butlast xs) md" using ok by (auto simp: blocks_ok_def xs)
qed

lemma view_cons:
  assumes "blocks_ok xs md" and "map_of xs s = None"
  shows "view ((s, \<lparr>sectorNum = s, cb_data = md s, dirty = False\<rparr>) # xs) md = view xs md"
    and "blocks_ok ((s, \<lparr>sectorNum = s, cb_data = md s, dirty = False\<rparr>) # xs) md"
  using assms by (auto simp: view_def fun_eq_iff blocks_ok_def map_of_eq_None_iff [symmetric] split: option.split)

lemma ok_medium_upd:
  assumes "blocks_ok xs md" and "map_of xs s = None"
  shows "blocks_ok xs (md(s := b))" and "view xs (md(s := b)) = (view xs md)(s := b)"
  using assms by (auto simp: blocks_ok_def view_def fun_eq_iff split: option.split dest: weak_map_of_SomeI)
section \<open>Reads and writes through the cache\<close>

lemma lookup_free:
  assumes "\<not> m_locked (bc_lock d)"
  shows "BlockCache_lookup s d = Some (Inr (map_option cb_data (map_of (entries d) s),
    d\<lparr>bc_lock := freed_lock d, bc_cache := (if map_of (entries d) s = None then bc_cache d
       else Some (spec_touch trait_u64 s (entries d)))\<rparr>))"
  using assms
  by (auto simp: BlockCache_lookup_def bc_acquire_def bc_release_def acquire_def release_def entries_def
      split: option.split)

lemma insert_miss:
  assumes "\<not> m_locked (bc_lock d)" and "\<not> s_flushing d" and "map_of (entries d) s = None"
    and "evicts_clean (entries d)"
  shows "BlockCache_insert wr s b d = Some (Inr (d\<lparr>bc_lock := freed_lock d,
     bc_cache := Some ((s, \<lparr>sectorNum = s, cb_data = b, dirty = False\<rparr>) #
       (if length (entries d) \<ge> LRU_DEFAULT_CAPACITY then butlast (entries d) else entries d))\<rparr>))"
proof -
  have xs: "(case bc_cache d of None \<Rightarrow> [] | Some ys \<Rightarrow> ys) = entries d" by (simp add: entries_def)
  have "\<not> spec_has trait_u64 s (entries d)" using assms(3) by (simp add: has_iff)
  then show ?thesis
    using assms(1,2,4)
    by (auto simp: BlockCache_insert_def bc_acquire_def bc_release_def acquire_def release_def xs bc_evict_def
        freeCachedBlock_def evicts_clean_def)
qed

text \<open>A request for a sector that is not in the cache.\<close>

lemma send_miss:
  assumes dev: "virtio_blk dev" and ok: "disk_ok d" and miss: "map_of (entries d) s = None"
    and room: "evicts_clean (entries d)"
  shows "\<exists>d'. sendRequest dev s buf op d = Some (Inr (if op = READ then medium d s else buf, d')) \<and> disk_ok d'
    \<and> disk_view d' = (if op = WRITE then (disk_view d)(s := buf) else disk_view d)"
proof -
  define md where "md = (if op = WRITE then (medium d)(s := buf) else medium d)"
  have idle: "queue_idle d" and free: "\<not> m_locked (bc_lock d)" "\<not> s_flushing d"
    and blocks: "blocks_ok (entries d) (medium d)"
    using ok by (simp_all add: disk_ok_def)
  obtain e where e: "sendRequest dev s buf op d =
      bindR (BlockCache_insert (writeback dev) s (md s) e) (\<lambda>d5. bindR (Disk_freeSlot 0 d5) (\<lambda>d6. Some (Inr (md s, d6))))"
      "queue_busy e" "same_cache d e" "medium e = md"
    using send_idle [OF dev idle, of "md s" op s buf] unfolding md_def by (cases op) auto
  have ent: "entries e = entries d" using e(3) by (simp add: same_cache_def entries_def)
  have blocks': "blocks_ok (entries d) md" and view': "view (entries d) md = (if op = WRITE then (disk_view d)(s := buf) else disk_view d)"
    using ok_medium_upd [OF blocks miss] blocks by (simp_all add: md_def disk_view_def)
  define ys where "ys = (if length (entries d) \<ge> LRU_DEFAULT_CAPACITY then butlast (entries d) else entries d)"
  have ne: "LRU_DEFAULT_CAPACITY \<le> length (entries d) \<Longrightarrow> entries d \<noteq> []" by (auto simp: LRU_DEFAULT_CAPACITY_def)
  have ys: "blocks_ok ys md" "view ys md = view (entries d) md" "map_of ys s = None"
    using view_butlast [OF blocks' ne] room blocks' miss
    by (auto simp: ys_def evicts_clean_def map_of_eq_None_iff dest: in_set_butlastD)
  define f where "f = e\<lparr>bc_lock := freed_lock e,
     bc_cache := Some ((s, \<lparr>sectorNum = s, cb_data = md s, dirty = False\<rparr>) # ys)\<rparr>"
  have "BlockCache_insert (writeback dev) s (md s) e = Some (Inr f)"
    using insert_miss [of e s "writeback dev" "md s"] free miss room e(3)
    by (simp add: f_def ys_def ent same_cache_def)
  moreover have busy: "queue_busy f" using e(2) by (simp add: f_def queue_busy_def drv_shape_def)
  ultimately have run: "sendRequest dev s buf op d = Some (Inr (md s, slot_freed f))"
    using e(1) freeSlot_busy(1) [OF busy] by simp
  have ent': "entries (slot_freed f) = (s, \<lparr>sectorNum = s, cb_data = md s, dirty = False\<rparr>) # ys"
    and med': "medium (slot_freed f) = md"
    by (simp_all add: slot_freed_def f_def entries_def e(4))
  have "disk_ok (slot_freed f)"
    using freeSlot_busy(2) [OF busy] free e(3) view_cons(2) [OF ys(1,3)]
    unfolding disk_ok_def ent' med' by (simp add: slot_freed_def f_def same_cache_def)
  moreover have "disk_view (slot_freed f) = (if op = WRITE then (disk_view d)(s := buf) else disk_view d)"
    using view_cons(1) [OF ys(1,3)] ys(2) view' unfolding disk_view_def ent' med' by simp
  moreover have "md s = (if op = READ then medium d s else buf)" by (cases op) (simp_all add: md_def)
  ultimately show ?thesis using run by auto
qed

lemma lookup_ok:
  assumes "disk_ok d" and "map_of (entries d) s = None"
  shows "disk_ok (d\<lparr>bc_lock := freed_lock d\<rparr>)" "disk_view (d\<lparr>bc_lock := freed_lock d\<rparr>) = disk_view d"
    "entries (d\<lparr>bc_lock := freed_lock d\<rparr>) = entries d"
  using assms by (simp_all add: disk_ok_def disk_view_def entries_def queue_idle_def drv_shape_def)

lemma Disk_read_view:
  assumes dev: "virtio_blk dev" and ok: "disk_ok d" and room: "evicts_clean (entries d)"
  shows "\<exists>d'. Disk_read dev s buf d = Some (Inr (disk_view d s, d')) \<and> disk_ok d' \<and> disk_view d' = disk_view d"
proof -
  have free: "\<not> m_locked (bc_lock d)" and blocks: "blocks_ok (entries d) (medium d)"
    using ok by (simp_all add: disk_ok_def)
  show ?thesis
  proof (cases "map_of (entries d) s")
    case None
    note l = lookup_ok [OF ok None]
    have "map_of (entries (d\<lparr>bc_lock := freed_lock d\<rparr>)) s = None" "evicts_clean (entries (d\<lparr>bc_lock := freed_lock d\<rparr>))"
      using None room by (simp_all add: l(3))
    from send_miss [OF dev l(1) this, of buf READ] show ?thesis
      using None by (auto simp: Disk_read_def lookup_free [OF free] l(2)) (simp add: disk_view_def view_def None)
  next
    case (Some cb)
    let ?d = "d\<lparr>bc_lock := freed_lock d, bc_cache := Some (spec_touch trait_u64 s (entries d))\<rparr>"
    have "Disk_read dev s buf d = Some (Inr (disk_view d s, ?d))"
      by (simp add: Disk_read_def lookup_free [OF free] Some disk_view_def view_def)
    moreover have "disk_ok ?d" "disk_view ?d = disk_view d"
      using ok touch_ok [OF blocks] view_touch [OF blocks]
      by (simp_all add: disk_ok_def disk_view_def entries_def queue_idle_def drv_shape_def)
    ultimately show ?thesis by blast
  qed
qed
lemma Disk_write_view:
  assumes dev: "virtio_blk dev" and ok: "disk_ok d" and room: "evicts_clean (entries d)"
  shows "\<exists>d'. Disk_write dev s buf False d = Some (Inr d') \<and> disk_ok d' \<and> disk_view d' = (disk_view d)(s := buf)"
proof -
  have free: "\<not> m_locked (bc_lock d)" and blocks: "blocks_ok (entries d) (medium d)"
    using ok by (simp_all add: disk_ok_def)
  show ?thesis
  proof (cases "map_of (entries d) s")
    case None
    note l = lookup_ok [OF ok None]
    have "map_of (entries (d\<lparr>bc_lock := freed_lock d\<rparr>)) s = None" "evicts_clean (entries (d\<lparr>bc_lock := freed_lock d\<rparr>))"
      using None room by (simp_all add: l(3))
    from send_miss [OF dev l(1) this, of buf WRITE] show ?thesis
      using None by (auto simp: Disk_write_def Let_def lookup_free [OF free] l(2))
  next
    case (Some cb)
    let ?t = "spec_touch trait_u64 s (entries d)"
    let ?xs = "bc_poke s (dirty_update (\<lambda>_. True)) (bc_poke s (cb_data_update (\<lambda>_. buf)) ?t)"
    let ?d = "d\<lparr>bc_lock := freed_lock d, bc_cache := Some ?xs\<rparr>"
    have hit: "map_of ?t s \<noteq> None" using Some blocks by (simp add: map_of_touch blocks_ok_def)
    then have has: "spec_has trait_u64 s (bc_poke s (cb_data_update (\<lambda>_. buf)) ?t)"
      by (simp add: has_iff map_of_poke)
    have "Disk_write dev s buf False d = Some (Inr ?d)"
      using has by (simp add: Disk_write_def Let_def lookup_free [OF free] Some BlockCache_markDirty_def)
    moreover have "disk_ok ?d"
      using ok poke_ok [OF touch_ok [OF blocks]]
      by (simp add: disk_ok_def entries_def queue_idle_def drv_shape_def)
    moreover have "disk_view ?d = (disk_view d)(s := buf)"
      using view_poke [OF hit] view_touch [OF blocks] by (simp add: disk_view_def entries_def)
    ultimately show ?thesis by blast
  qed
qed

section \<open>Flushing\<close>

lemma writeback_flushing:
  assumes dev: "virtio_blk dev" and idle: "queue_idle d" and fl: "s_flushing d"
  shows "\<exists>d'. writeback dev s b d = Some (Inr d') \<and> queue_idle d' \<and> same_cache d d' \<and> medium d' = (medium d)(s := b)"
proof -
  obtain e where e: "sendRequest dev s b WRITE d =
      bindR (BlockCache_insert (writeback dev) s b e) (\<lambda>d5. bindR (Disk_freeSlot 0 d5) (\<lambda>d6. Some (Inr (b, d6))))"
      "queue_busy e" "same_cache d e" "medium e = (medium d)(s := b)"
    using send_idle [OF dev idle, of b WRITE s b] by auto
  have "BlockCache_insert (writeback dev) s b e = Some (Inr e)"
    using e(3) fl by (simp add: BlockCache_insert_def same_cache_def)
  then have "writeback dev s b d = Some (Inr (slot_freed e))"
    using e(1) freeSlot_busy(1) [OF e(2)] by (simp add: writeback_def)
  moreover have "same_cache d (slot_freed e)" using e(3) by (simp add: same_cache_def slot_freed_def)
  moreover have "medium (slot_freed e) = (medium d)(s := b)" using e(4) by (simp add: slot_freed_def)
  ultimately show ?thesis using freeSlot_busy(2) [OF e(2)] by blast
qed

lemma flush_entries_writes:
  assumes dev: "virtio_blk dev"
  shows "queue_idle d \<Longrightarrow> s_flushing d \<Longrightarrow> blocks_ok xs (medium d) \<Longrightarrow>
    \<exists>d'. flush_entries dev xs d = Some (Inr d') \<and> queue_idle d' \<and> same_cache d d' \<and> medium d' = view xs (medium d)"
proof (induction xs arbitrary: d)
  case Nil
  then show ?case by (simp add: view_def same_cache_def)
next
  case (Cons e xs)
  have fresh: "map_of xs (fst e) = None" and rest: "blocks_ok xs (medium d)"
    and num: "sectorNum (snd e) = fst e" and clean: "\<not> dirty (snd e) \<longrightarrow> cb_data (snd e) = medium d (fst e)"
    using Cons.prems(3) by (auto simp: blocks_ok_def map_of_eq_None_iff)
  let ?md = "(medium d)(fst e := cb_data (snd e))"
  have "\<exists>d1. freeCachedBlock (\<lambda>s b d'. Disk_write dev s b True d') (snd e) d = Some (Inr d1) \<and> queue_idle d1
      \<and> same_cache d d1 \<and> medium d1 = ?md"
  proof (cases "dirty (snd e)")
    case True
    then show ?thesis
      using writeback_flushing [OF dev Cons.prems(1,2), of "fst e" "cb_data (snd e)"] num
      by (simp add: freeCachedBlock_def Disk_write_force)
  next
    case False
    then show ?thesis using Cons.prems(1) clean by (simp add: freeCachedBlock_def same_cache_def)
  qed
  then obtain d1 where d1: "freeCachedBlock (\<lambda>s b d'. Disk_write dev s b True d') (snd e) d = Some (Inr d1)"
    "queue_idle d1" "same_cache d d1" "medium d1 = ?md" by blast
  have "s_flushing d1" using d1(3) Cons.prems(2) by (simp add: same_cache_def)
  moreover have "blocks_ok xs (medium d1)" using ok_medium_upd(1) [OF rest fresh] by (simp add: d1(4))
  ultimately obtain d2 where d2: "flush_entries dev xs d1 = Some (Inr d2)" "queue_idle d2" "same_cache d1 d2"
    "medium d2 = view xs ?md"
    using Cons.IH [OF d1(2)] unfolding d1(4) by blast
  have "view xs ?md = view (e # xs) (medium d)"
    using fresh by (cases e) (auto simp: fun_eq_iff view_def split: option.split)
  then show ?case
    using d1(1,3) d2 by (intro exI [of _ d2]) (simp add: same_cache_def)
qed

lemma BlockCache_flush_view:
  assumes dev: "virtio_blk dev" and ok: "disk_ok d"
  shows "\<exists>d'. BlockCache_flush dev d = Some (Inr d') \<and> disk_ok d' \<and> medium d' = disk_view d \<and> bc_cache d' = None"
proof (cases "bc_cache d")
  case None
  then show ?thesis
    using ok by (simp add: BlockCache_flush_def bc_acquire_def bc_release_def acquire_def release_def disk_ok_def
        disk_view_def entries_def view_def [abs_def] queue_idle_def drv_shape_def)
next
  case (Some xs)
  let ?d = "d\<lparr>bc_lock := \<lparr>m_locked = True, m_pie = d_sie d\<rparr>, d_sie := False, s_flushing := True\<rparr>"
  have acq: "bc_acquire d = Some (Inr (d\<lparr>bc_lock := \<lparr>m_locked = True, m_pie = d_sie d\<rparr>, d_sie := False\<rparr>))"
    using ok by (simp add: bc_acquire_def acquire_def disk_ok_def)
  have "queue_idle ?d" "s_flushing ?d" "blocks_ok xs (medium ?d)"
    using ok Some by (simp_all add: disk_ok_def queue_idle_def drv_shape_def entries_def)
  from flush_entries_writes [OF dev this] obtain d2 where d2: "flush_entries dev xs ?d = Some (Inr d2)" "queue_idle d2"
    "same_cache ?d d2" "medium d2 = view xs (medium d)" by auto
  let ?e = "bc_release (d2\<lparr>bc_cache := None, s_flushing := False\<rparr>)"
  have "BlockCache_flush dev d = Some (Inr ?e)" using Some d2(1) by (simp add: BlockCache_flush_def acq)
  moreover have "disk_ok ?e"
    using d2(2) by (simp add: disk_ok_def bc_release_def release_def queue_idle_def drv_shape_def entries_def blocks_ok_def)
  moreover have "medium ?e = disk_view d" using d2(4) Some by (simp add: bc_release_def release_def disk_view_def entries_def)
  moreover have "bc_cache ?e = None" by (simp add: bc_release_def release_def)
  ultimately show ?thesis by blast
qed
text \<open>Initialisation makes the zeroed static members an idle driver with an empty cache.\<close>

definition drv_static :: "bool \<Rightarrow> (sector \<Rightarrow> block) \<Rightarrow> drv" where
  "drv_static sie md =
     \<lparr>d_sie = sie, bc_cache = None, bc_lock = Lock_ctor, s_flushing = False, d_usedIdx = 0, av_idx = 0, av_ring = [],
      us_idx = 0, us_ring = [], d_desc = [], d_req = replicate SLOTS \<lparr>rq_type = 0, rq_reserved = 0, rq_sector = 0\<rparr>,
      d_status = replicate SLOTS 0, d_free = replicate SLOTS 0, d_slotSem = replicate SLOTS 0, d_lock = Lock_ctor,
      m_interruptMode = False, d_allocSem = 0, d_slotSector = replicate SLOTS 0, d_coalesceSem = replicate SLOTS 0,
      medium = md\<rparr>"

lemma Disk_init_ok:
  assumes "Disk_init rd a b c (drv_static sie md) = Inr (w, d)"
  shows "disk_ok d \<and> disk_ok (enableInterruptMode d) \<and> disk_view d = md \<and> entries d = []"
  using assms
  by (auto simp: Disk_init_def Let_def drv_static_def disk_ok_def queue_idle_def drv_shape_def entries_def blocks_ok_def
      disk_view_def view_def [abs_def] enableInterruptMode_def Lock_ctor_def numeral_2_eq_2 split: if_splits)

section \<open>Evicting a dirty block\<close>

lemma send_holding_cache:
  assumes dev: "virtio_blk dev" and busy: "queue_busy d" and other: "d_slotSector d ! 0 \<noteq> s"
    and held: "m_locked (bc_lock d)" "\<not> s_flushing d"
  shows "sendRequest dev s buf WRITE d = None"
proof -
  let ?a = "d\<lparr>d_allocSem := 0, d_free := [1, 1], d_lock := freed_lock d\<rparr>"
  have co: "coalesce 0 s WRITE d = Some (Inr (None, d))"
    using busy other
    by (simp add: queue_busy_def coalesce.simps [of 0] coalesce.simps [of "Suc 0"] coalesce.simps [of "Suc (Suc 0)"])
  have al: "Disk_allocSlot d = Some (Inr (Some 1, ?a))"
    using busy
    by (simp add: queue_busy_def Disk_allocSlot_def disk_lock_roundtrip disk_unlock_def release_def slot_scan.simps [of 0]
        slot_scan.simps [of "Suc 0"])
  have "drv_shape ?a" "\<not> m_locked (d_lock ?a)" "d_slotSem ?a = [0, 0]" "m_interruptMode ?a \<longrightarrow> d_usedIdx ?a = us_idx ?a"
    "1 < SLOTS" "buf = (if WRITE = READ then medium ?a s else buf)"
    using busy by (simp_all add: queue_busy_def drv_shape_def)
  from finish_idle [OF dev this, of
      "\<lambda>s' b' d'. bindR (sendRequest dev s' b' WRITE d') (\<lambda>(_, d''). Some (Inr d''))"]
  obtain f where f: "finish_request (\<lambda>s' b' d'. bindR (sendRequest dev s' b' WRITE d') (\<lambda>(_, d''). Some (Inr d'')))
        dev (Some 1) s buf WRITE ?a =
      bindR (BlockCache_insert (\<lambda>s' b' d'. bindR (sendRequest dev s' b' WRITE d') (\<lambda>(_, d''). Some (Inr d''))) s buf f)
        (\<lambda>d5. bindR (Disk_freeSlot 1 d5) (\<lambda>d6. Some (Inr (buf, d6))))"
    "same_cache ?a f" by blast
  have "bc_acquire f = None" "\<not> s_flushing f"
    using held f(2) by (simp_all add: bc_acquire_def acquire_def same_cache_def)
  then show ?thesis
    by (subst sendRequest.simps) (simp add: co al f(1) [simplified] BlockCache_insert_def)
qed

lemma evict_dirty_stuck:
  assumes dev: "virtio_blk dev" and ok: "disk_ok d" and full: "LRU_DEFAULT_CAPACITY \<le> length (entries d)"
    and dirty: "dirty (snd (last (entries d)))" and miss: "map_of (entries d) s = None"
  shows "Disk_read dev s buf d = None"
proof -
  let ?d = "d\<lparr>bc_lock := freed_lock d\<rparr>" and ?xs = "entries d" and ?v = "snd (last (entries d))"
  have free: "\<not> m_locked (bc_lock d)" "\<not> s_flushing d" and idle: "queue_idle ?d"
    using ok lookup_ok(1) [OF ok miss] by (simp_all add: disk_ok_def)
  obtain e where e: "sendRequest dev s buf READ ?d =
      bindR (BlockCache_insert (writeback dev) s (medium d s) e)
        (\<lambda>d5. bindR (Disk_freeSlot 0 d5) (\<lambda>d6. Some (Inr (medium d s, d6))))"
      "queue_busy e" "same_cache ?d e" "d_slotSector e ! 0 = s"
    using send_idle [OF dev idle, of "medium d s" READ s buf] by auto
  have ent: "(case bc_cache d of None \<Rightarrow> [] | Some ys \<Rightarrow> ys) = ?xs" by (simp add: entries_def)
  let ?f = "e\<lparr>bc_lock := \<lparr>m_locked = True, m_pie = d_sie e\<rparr>, d_sie := False, bc_cache := Some ?xs\<rparr>"
  have "?xs \<noteq> []" using full by (auto simp: LRU_DEFAULT_CAPACITY_def)
  then have last: "last ?xs \<in> set ?xs" by simp
  then have "sectorNum ?v = fst (last ?xs)" using ok by (simp add: disk_ok_def blocks_ok_def)
  with last miss have "sectorNum ?v \<noteq> s" by (auto simp: map_of_eq_None_iff)
  then have "writeback dev (sectorNum ?v) (cb_data ?v) ?f = None"
    using send_holding_cache [OF dev, of ?f "sectorNum ?v" "cb_data ?v"] e(2-4) free
    by (simp add: writeback_def queue_busy_def drv_shape_def same_cache_def)
  then have "BlockCache_insert (writeback dev) s (medium d s) e = None"
    using e(3) free full dirty miss
    by (simp add: BlockCache_insert_def same_cache_def bc_acquire_def acquire_def ent has_iff bc_evict_def freeCachedBlock_def)
  then have "sendRequest dev s buf READ ?d = None" using e(1) by simp
  then show ?thesis using miss by (simp add: Disk_read_def lookup_free [OF free(1)])
qed
section \<open>Properties\<close>

text \<open>A device that takes the newest chain of the available ring, and an idle driver with \<open>xs\<close> in its cache.\<close>

definition demo_dev :: device where
  "demo_dev buf e =
     (let slot = unat (av_ring e ! (unat (av_idx e - 1) mod QUEUE_SIZE)) div 3; rq = d_req e ! slot in
      served slot (rq_sector rq) (if rq_type rq = 0 then READ else WRITE) buf e)"

lemma demo_dev_ok: "virtio_blk demo_dev"
  by (auto simp: virtio_blk_def demo_dev_def post_request_def Let_def drv_shape_def QUEUE_SIZE_def op_code_def
      less_2_cases_iff split: opType.split)

definition demo_drv :: "(sector \<times> CachedBlock) list option \<Rightarrow> drv" where
  "demo_drv c =
     \<lparr>d_sie = True, bc_cache = c, bc_lock = Lock_ctor, s_flushing = False, d_usedIdx = 0, av_idx = 0,
      av_ring = replicate 8 0, us_idx = 0, us_ring = replicate 8 0,
      d_desc = replicate 8 \<lparr>vd_addr = NoAddr, vd_len = 0, vd_flags = 0, vd_next = 0\<rparr>,
      d_req = replicate 2 \<lparr>rq_type = 0, rq_reserved = 0, rq_sector = 0\<rparr>, d_status = [0, 0], d_free = [0, 0],
      d_slotSem = [0, 0], d_lock = Lock_ctor, m_interruptMode = True, d_allocSem = 2, d_slotSector = [- 1, - 1],
      d_coalesceSem = [0, 0], medium = (\<lambda>s. [ucast s])\<rparr>"

lemma demo_drv_idle: "queue_idle (demo_drv c) \<and> \<not> m_locked (bc_lock (demo_drv c)) \<and> \<not> s_flushing (demo_drv c)"
  by (simp add: demo_drv_def queue_idle_def drv_shape_def QUEUE_SIZE_def Lock_ctor_def)



text \<open>
  A full cache whose least recently used block is dirty stops the machine at the next sector that is
  not cached: \<^verbatim>\<open>BlockCache::insert\<close> holds its lock while the eviction callback writes the block back,
  and that write ends in \<^verbatim>\<open>BlockCache::insert\<close> again, which spins on the lock for ever.
\<close>

theorem dirty_eviction_never_returns:
  assumes "virtio_blk dev" and "disk_ok d" and "LRU_DEFAULT_CAPACITY \<le> length (entries d)"
    and "dirty (snd (last (entries d)))" and "map_of (entries d) s = None"
  shows "Disk_read dev s buf d = None"
  using assms by (rule evict_dirty_stuck)

definition demo_full :: "(sector \<times> CachedBlock) list" where
  "demo_full = map (\<lambda>i. (of_nat i, \<lparr>sectorNum = of_nat i, cb_data = [], dirty = True\<rparr>)) [0..<1024]"

theorem dirty_eviction_never_returns_witness: "Disk_read demo_dev 5000 [] (demo_drv (Some demo_full)) = None"
proof -
  let ?d = "demo_drv (Some demo_full)"
  have ent: "entries ?d = demo_full" by (simp add: entries_def demo_drv_def)
  have un: "unat (of_nat i :: u64) = i" if "i < 1024" for i
    using that by (simp add: unat_of_nat take_bit_nat_eq_self)
  have inj: "inj_on (\<lambda>i. of_nat i :: u64) (set [0..<1024])"
    by (rule inj_on_inverseI [where g = unat]) (use un in simp)
  have "5000 \<notin> (\<lambda>i. of_nat i :: u64) ` set [0..<1024]"
  proof
    assume "5000 \<in> (\<lambda>i. of_nat i :: u64) ` set [0..<1024]"
    then obtain i where "i < 1024" "(5000 :: u64) = of_nat i" by auto
    then show False using un [of i] by simp
  qed
  then have miss: "map_of (entries ?d) 5000 = None"
    unfolding ent by (simp add: map_of_eq_None_iff demo_full_def image_image)
  have "blocks_ok demo_full (medium ?d)"
    using inj unfolding blocks_ok_def demo_full_def map_map comp_def fst_conv
    by (simp add: distinct_map)
  then have ok: "disk_ok ?d" using demo_drv_idle by (simp add: disk_ok_def ent)
  have full: "LRU_DEFAULT_CAPACITY \<le> length (entries ?d)"
    unfolding ent by (simp add: demo_full_def LRU_DEFAULT_CAPACITY_def)
  have dirty: "dirty (snd (last (entries ?d)))"
    unfolding ent by (simp add: demo_full_def last_map)
  show ?thesis by (rule dirty_eviction_never_returns [OF demo_dev_ok ok full dirty miss])
qed

end
