(* ===== verification/Ext2Disk.thy ===== *)
theory Ext2Disk
  imports Disk
begin

text \<open>
  The on-disk structures of the ext2 file system and its allocators (\<^verbatim>\<open>kernel/fs/ext2/ext2_disk.h\<close> and the first
  part of \<^verbatim>\<open>ext2.cpp\<close>). The disk is the array of sectors that the driver with its cache implements
  (\<open>disk_view\<close> of the disk theory). The structures are copied to and from blocks byte by byte in the code, so they
  are byte lists here, with little-endian fields at the offsets of the C structs.
\<close>

section \<open>Little-endian fields\<close>

type_synonym bytes = "u8 list"

definition rd8 :: "bytes \<Rightarrow> nat \<Rightarrow> u8" where
  "rd8 bs o' = bs ! o'"

definition rd16 :: "bytes \<Rightarrow> nat \<Rightarrow> u16" where
  "rd16 bs o' = ucast (bs ! o') OR push_bit 8 (ucast (bs ! (o' + 1)))"

definition rd32 :: "bytes \<Rightarrow> nat \<Rightarrow> u32" where
  "rd32 bs o' =
     ((ucast (bs ! o') OR push_bit 8 (ucast (bs ! (o' + 1)))) OR push_bit 16 (ucast (bs ! (o' + 2))))
       OR push_bit 24 (ucast (bs ! (o' + 3)))"

text \<open>Copying bytes into a buffer at an offset, as \<^verbatim>\<open>memcpy\<close> does.\<close>

definition put :: "bytes \<Rightarrow> nat \<Rightarrow> bytes \<Rightarrow> bytes" where
  "put bs o' v = take o' bs @ v @ drop (o' + length v) bs"

definition le16 :: "u16 \<Rightarrow> bytes" where
  "le16 v = [ucast v, ucast (drop_bit 8 v)]"

definition le32 :: "u32 \<Rightarrow> bytes" where
  "le32 v = [ucast v, ucast (drop_bit 8 v), ucast (drop_bit 16 v), ucast (drop_bit 24 v)]"

definition sub_bytes :: "bytes \<Rightarrow> nat \<Rightarrow> nat \<Rightarrow> bytes" where
  "sub_bytes bs o' n = take n (drop o' bs)"

lemma length_le16 [simp]: "length (le16 v) = 2"
  by (simp add: le16_def)

lemma length_le32 [simp]: "length (le32 v) = 4"
  by (simp add: le32_def)

lemma length_put [simp]: "o' + length v \<le> length bs \<Longrightarrow> length (put bs o' v) = length bs"
  by (simp add: put_def)

lemma nth_put:
  "o' + length v \<le> length bs \<Longrightarrow> i < length bs \<Longrightarrow>
   put bs o' v ! i = (if o' \<le> i \<and> i < o' + length v then v ! (i - o') else bs ! i)"
  by (auto simp: put_def nth_append)

lemma bytes_of_u32:
  fixes v :: u32
  shows "((ucast (ucast v :: u8) OR push_bit 8 (ucast (ucast (drop_bit 8 v) :: u8)))
      OR push_bit 16 (ucast (ucast (drop_bit 16 v) :: u8))) OR push_bit 24 (ucast (ucast (drop_bit 24 v) :: u8)) = v"
proof (rule bit_word_eqI)
  fix n
  assume n: "n < LENGTH(32)"
  consider "n < 8" | "8 \<le> n" "n < 16" | "16 \<le> n" "n < 24" | "24 \<le> n" by linarith
  then show "bit (((ucast (ucast v :: u8) OR push_bit 8 (ucast (ucast (drop_bit 8 v) :: u8)))
      OR push_bit 16 (ucast (ucast (drop_bit 16 v) :: u8))) OR push_bit 24 (ucast (ucast (drop_bit 24 v) :: u8)) :: u32) n = bit v n"
    using n by cases (auto simp: bit_simps)
qed

lemma bytes_of_u16:
  fixes v :: u16
  shows "ucast (ucast v :: u8) OR push_bit 8 (ucast (ucast (drop_bit 8 v) :: u8)) = v"
  by (rule bit_word_eqI) (auto simp: bit_simps)

lemma rd32_put_same [simp]:
  assumes "o' + 4 \<le> length bs"
  shows "rd32 (put bs o' (le32 v)) o' = v"
  using assms bytes_of_u32 [of v] by (simp add: rd32_def nth_put) (simp add: le32_def)

lemma rd16_put_same [simp]:
  assumes "o' + 2 \<le> length bs"
  shows "rd16 (put bs o' (le16 v)) o' = v"
  using assms bytes_of_u16 [of v] by (simp add: rd16_def nth_put) (simp add: le16_def)

lemma rd32_put_other:
  assumes "o' + length v \<le> length bs" and "q + 4 \<le> length bs" and "q + 4 \<le> o' \<or> o' + length v \<le> q"
  shows "rd32 (put bs o' v) q = rd32 bs q"
  using assms by (auto simp: rd32_def nth_put)

lemma rd16_put_other:
  assumes "o' + length v \<le> length bs" and "q + 2 \<le> length bs" and "q + 2 \<le> o' \<or> o' + length v \<le> q"
  shows "rd16 (put bs o' v) q = rd16 bs q"
  using assms by (auto simp: rd16_def nth_put)

lemma sub_bytes_put_same: "o' + length v \<le> length bs \<Longrightarrow> sub_bytes (put bs o' v) o' (length v) = v"
  by (simp add: sub_bytes_def put_def)

lemma sub_bytes_put_other:
  assumes "o' + length v \<le> length bs" and "q + n \<le> length bs" and "q + n \<le> o' \<or> o' + length v \<le> q"
  shows "sub_bytes (put bs o' v) q n = sub_bytes bs q n"
  using assms by (intro nth_equalityI) (auto simp: sub_bytes_def nth_put)

lemma length_sub_bytes [simp]: "o' + n \<le> length bs \<Longrightarrow> length (sub_bytes bs o' n) = n"
  by (simp add: sub_bytes_def)
section \<open>The mount and its blocks\<close>

definition BLOCK_BUF_SIZE :: u32 where "BLOCK_BUF_SIZE = 4096"
definition EXT2_MAGIC :: u16 where "EXT2_MAGIC = 0xEF53"
definition EXT2_ROOT_INODE :: u32 where "EXT2_ROOT_INODE = 2"
definition EXT2_S_IFREG :: u16 where "EXT2_S_IFREG = 0x8000"
definition EXT2_S_IFDIR :: u16 where "EXT2_S_IFDIR = 0x4000"
definition EXT2_S_IFLNK :: u16 where "EXT2_S_IFLNK = 0xA000"
definition EXT2_FT_REG :: u8 where "EXT2_FT_REG = 1"
definition EXT2_FT_DIR :: u8 where "EXT2_FT_DIR = 2"
definition EXT2_FT_SYMLINK :: u8 where "EXT2_FT_SYMLINK = 7"

text \<open>\<^verbatim>\<open>Ext2SuperBlock\<close>, of which the two sectors read at mount time hold the first 1024 bytes.\<close>

definition s_inodes_count :: "bytes \<Rightarrow> u32" where "s_inodes_count sb = rd32 sb 0"
definition s_blocks_count :: "bytes \<Rightarrow> u32" where "s_blocks_count sb = rd32 sb 4"
definition s_free_blocks_count :: "bytes \<Rightarrow> u32" where "s_free_blocks_count sb = rd32 sb 12"
definition s_free_inodes_count :: "bytes \<Rightarrow> u32" where "s_free_inodes_count sb = rd32 sb 16"
definition s_first_data_block :: "bytes \<Rightarrow> u32" where "s_first_data_block sb = rd32 sb 20"
definition s_log_block_size :: "bytes \<Rightarrow> u32" where "s_log_block_size sb = rd32 sb 24"
definition s_blocks_per_group :: "bytes \<Rightarrow> u32" where "s_blocks_per_group sb = rd32 sb 32"
definition s_inodes_per_group :: "bytes \<Rightarrow> u32" where "s_inodes_per_group sb = rd32 sb 40"
definition s_magic :: "bytes \<Rightarrow> u16" where "s_magic sb = rd16 sb 56"
definition s_inode_size :: "bytes \<Rightarrow> u16" where "s_inode_size sb = rd16 sb 88"

text \<open>\<^verbatim>\<open>Ext2BlockGroupDesc\<close>, 32 bytes.\<close>

definition bg_block_bitmap :: "bytes \<Rightarrow> u32" where "bg_block_bitmap g = rd32 g 0"
definition bg_inode_bitmap :: "bytes \<Rightarrow> u32" where "bg_inode_bitmap g = rd32 g 4"
definition bg_inode_table :: "bytes \<Rightarrow> u32" where "bg_inode_table g = rd32 g 8"
definition bg_free_blocks_count :: "bytes \<Rightarrow> u16" where "bg_free_blocks_count g = rd16 g 12"
definition bg_free_inodes_count :: "bytes \<Rightarrow> u16" where "bg_free_inodes_count g = rd16 g 14"

text \<open>\<^verbatim>\<open>Ext2InodeDisk\<close>, 128 bytes.\<close>

definition i_mode :: "bytes \<Rightarrow> u16" where "i_mode r = rd16 r 0"
definition i_uid :: "bytes \<Rightarrow> u16" where "i_uid r = rd16 r 2"
definition i_size :: "bytes \<Rightarrow> u32" where "i_size r = rd32 r 4"
definition i_atime :: "bytes \<Rightarrow> u32" where "i_atime r = rd32 r 8"
definition i_ctime :: "bytes \<Rightarrow> u32" where "i_ctime r = rd32 r 12"
definition i_mtime :: "bytes \<Rightarrow> u32" where "i_mtime r = rd32 r 16"
definition i_gid :: "bytes \<Rightarrow> u16" where "i_gid r = rd16 r 24"
definition i_links_count :: "bytes \<Rightarrow> u16" where "i_links_count r = rd16 r 26"
definition i_blocks :: "bytes \<Rightarrow> u32" where "i_blocks r = rd32 r 28"
definition i_block :: "bytes \<Rightarrow> nat \<Rightarrow> u32" where "i_block r k = rd32 r (40 + 4 * k)"
definition set_i_block :: "nat \<Rightarrow> u32 \<Rightarrow> bytes \<Rightarrow> bytes" where "set_i_block k v r = put r (40 + 4 * k) (le32 v)"
definition set_i_size :: "u32 \<Rightarrow> bytes \<Rightarrow> bytes" where "set_i_size v r = put r 4 (le32 v)"
definition set_i_mode :: "u16 \<Rightarrow> bytes \<Rightarrow> bytes" where "set_i_mode v r = put r 0 (le16 v)"
definition set_i_links_count :: "u16 \<Rightarrow> bytes \<Rightarrow> bytes" where "set_i_links_count v r = put r 26 (le16 v)"
definition set_i_blocks :: "u32 \<Rightarrow> bytes \<Rightarrow> bytes" where "set_i_blocks v r = put r 28 (le32 v)"

record ext2 =
  e_dsk :: "sector \<Rightarrow> bytes"
  m_sb :: bytes
  m_blockSize :: u32
  m_groupCount :: u32

definition sectorsPerBlock :: "ext2 \<Rightarrow> u32" where
  "sectorsPerBlock m = m_blockSize m div of_nat SECTOR_SIZE"

definition Ext2Mount_ctor :: "(sector \<Rightarrow> bytes) \<Rightarrow> ext2 res" where
  "Ext2Mount_ctor dsk =
     (let sb = dsk 2 @ dsk 3 in
      if s_magic sb \<noteq> EXT2_MAGIC then Inl (Panic ''Ext2Mount: bad magic number'')
      else
        let bs = push_bit (unat (s_log_block_size sb)) 1024 in
        if bs > BLOCK_BUF_SIZE then Inl (Panic ''Ext2: block size > 4096 not supported'')
        else Inr \<lparr>e_dsk = dsk, m_sb = sb, m_blockSize = bs,
                   m_groupCount = (s_blocks_count sb + s_blocks_per_group sb - 1) div s_blocks_per_group sb\<rparr>)"

text \<open>Sector numbers are computed with 32 bits and widened by the call.\<close>

definition sector_of :: "ext2 \<Rightarrow> u32 \<Rightarrow> nat \<Rightarrow> sector" where
  "sector_of m block i = ucast (block * sectorsPerBlock m + of_nat i)"

definition readBlock :: "ext2 \<Rightarrow> u32 \<Rightarrow> bytes" where
  "readBlock m block = concat (map (\<lambda>i. e_dsk m (sector_of m block i)) [0..<unat (sectorsPerBlock m)])"

definition write_sectors :: "ext2 \<Rightarrow> u32 \<Rightarrow> bytes \<Rightarrow> nat list \<Rightarrow> (sector \<Rightarrow> bytes) \<Rightarrow> sector \<Rightarrow> bytes" where
  "write_sectors m block buf is d =
     fold (\<lambda>i d. d(sector_of m block i := sub_bytes buf (i * SECTOR_SIZE) SECTOR_SIZE)) is d"

definition writeBlock :: "u32 \<Rightarrow> bytes \<Rightarrow> ext2 \<Rightarrow> ext2" where
  "writeBlock block buf m = m\<lparr>e_dsk := write_sectors m block buf [0..<unat (sectorsPerBlock m)] (e_dsk m)\<rparr>"

definition write_sb :: "ext2 \<Rightarrow> ext2" where
  "write_sb m = m\<lparr>e_dsk := (e_dsk m)(2 := sub_bytes (m_sb m) 0 SECTOR_SIZE, 3 := sub_bytes (m_sb m) SECTOR_SIZE SECTOR_SIZE)\<rparr>"

section \<open>Group descriptors and raw inodes\<close>

definition desc_block :: "ext2 \<Rightarrow> u32 \<Rightarrow> u32" where
  "desc_block m grp = (s_first_data_block (m_sb m) + 1) + grp div (m_blockSize m div 32)"

definition desc_offset :: "ext2 \<Rightarrow> u32 \<Rightarrow> nat" where
  "desc_offset m grp = unat (grp mod (m_blockSize m div 32)) * 32"

definition readGroupDesc :: "ext2 \<Rightarrow> u32 \<Rightarrow> bytes" where
  "readGroupDesc m grp = sub_bytes (readBlock m (desc_block m grp)) (desc_offset m grp) 32"

definition writeGroupDesc :: "u32 \<Rightarrow> bytes \<Rightarrow> ext2 \<Rightarrow> ext2" where
  "writeGroupDesc grp desc m =
     writeBlock (desc_block m grp) (put (readBlock m (desc_block m grp)) (desc_offset m grp) desc) m"

definition inode_group :: "ext2 \<Rightarrow> u32 \<Rightarrow> u32" where
  "inode_group m num = (num - 1) div s_inodes_per_group (m_sb m)"

definition inode_index :: "ext2 \<Rightarrow> u32 \<Rightarrow> u32" where
  "inode_index m num = (num - 1) mod s_inodes_per_group (m_sb m)"

definition inode_block :: "ext2 \<Rightarrow> u32 \<Rightarrow> u32" where
  "inode_block m num =
     (let inodeSize = ucast (s_inode_size (m_sb m)); inodesPerBlock = m_blockSize m div inodeSize in
      bg_inode_table (readGroupDesc m (inode_group m num)) + inode_index m num div inodesPerBlock)"

definition inode_offset :: "ext2 \<Rightarrow> u32 \<Rightarrow> nat" where
  "inode_offset m num =
     (let inodeSize = ucast (s_inode_size (m_sb m)); inodesPerBlock = m_blockSize m div inodeSize in
      unat ((inode_index m num mod inodesPerBlock) * inodeSize))"

definition readRawInode :: "ext2 \<Rightarrow> u32 \<Rightarrow> bytes" where
  "readRawInode m num = sub_bytes (readBlock m (inode_block m num)) (inode_offset m num) 128"

definition writeRawInode :: "u32 \<Rightarrow> bytes \<Rightarrow> ext2 \<Rightarrow> ext2" where
  "writeRawInode num raw m =
     writeBlock (inode_block m num) (put (readBlock m (inode_block m num)) (inode_offset m num) raw) m"

section \<open>Bitmaps\<close>

definition bitmap_test :: "bytes \<Rightarrow> nat \<Rightarrow> bool" where
  "bitmap_test bm i = (bm ! (i div 8) AND push_bit (i mod 8) 1 \<noteq> 0)"

definition bitmap_set :: "nat \<Rightarrow> bytes \<Rightarrow> bytes" where
  "bitmap_set i bm = bm[i div 8 := bm ! (i div 8) OR push_bit (i mod 8) 1]"

definition bitmap_clear :: "nat \<Rightarrow> bytes \<Rightarrow> bytes" where
  "bitmap_clear i bm = bm[i div 8 := bm ! (i div 8) AND (NOT (push_bit (i mod 8) 1))]"

text \<open>The first clear bit below a limit.\<close>

function bitmap_scan :: "bytes \<Rightarrow> nat \<Rightarrow> nat \<Rightarrow> nat option" where
  "bitmap_scan bm n i = (if i < n then (if bitmap_test bm i then bitmap_scan bm n (i + 1) else Some i) else None)"
  by pat_completeness auto
termination by (relation "measure (\<lambda>(_, n, i). n - i)") auto

declare bitmap_scan.simps [simp del]
section \<open>The allocators\<close>

definition set_free_blocks :: "u16 \<Rightarrow> bytes \<Rightarrow> bytes" where
  "set_free_blocks v desc = put desc 12 (le16 v)"

definition set_free_inodes :: "u16 \<Rightarrow> bytes \<Rightarrow> bytes" where
  "set_free_inodes v desc = put desc 14 (le16 v)"

definition add_free_blocks :: "u32 \<Rightarrow> ext2 \<Rightarrow> ext2" where
  "add_free_blocks v m = m\<lparr>m_sb := put (m_sb m) 12 (le32 (s_free_blocks_count (m_sb m) + v))\<rparr>"

definition add_free_inodes :: "u32 \<Rightarrow> ext2 \<Rightarrow> ext2" where
  "add_free_inodes v m = m\<lparr>m_sb := put (m_sb m) 16 (le32 (s_free_inodes_count (m_sb m) + v))\<rparr>"

definition block_number :: "ext2 \<Rightarrow> u32 \<Rightarrow> nat \<Rightarrow> u32" where
  "block_number m grp i = s_first_data_block (m_sb m) + grp * s_blocks_per_group (m_sb m) + of_nat i"

text \<open>The body of the inner loop of \<^verbatim>\<open>allocBlock\<close> at the first clear bit.\<close>

definition take_block :: "u32 \<Rightarrow> nat \<Rightarrow> ext2 \<Rightarrow> u32 \<times> ext2" where
  "take_block grp i m =
     (let desc = readGroupDesc m grp;
          bitmap = readBlock m (bg_block_bitmap desc);
          m1 = writeBlock (bg_block_bitmap desc) (bitmap_set i bitmap) m;
          m2 = writeGroupDesc grp (set_free_blocks (bg_free_blocks_count desc - 1) desc) m1;
          m3 = write_sb (add_free_blocks (- 1) m2);
          block = block_number m3 grp i in
      (block, writeBlock block (replicate (unat BLOCK_BUF_SIZE) 0) m3))"

function alloc_block_from :: "nat \<Rightarrow> u32 \<Rightarrow> ext2 \<Rightarrow> u32 \<times> ext2" where
  "alloc_block_from g preferGroup m =
     (if g < unat (m_groupCount m) then
        let grp = (preferGroup + of_nat g) mod m_groupCount m; desc = readGroupDesc m grp in
        if bg_free_blocks_count desc = 0 then alloc_block_from (g + 1) preferGroup m
        else case bitmap_scan (readBlock m (bg_block_bitmap desc)) (unat (s_blocks_per_group (m_sb m))) 0 of
               None \<Rightarrow> alloc_block_from (g + 1) preferGroup m
             | Some i \<Rightarrow> take_block grp i m
      else (0, m))"
  by pat_completeness auto
termination by (relation "measure (\<lambda>(g, _, m). unat (m_groupCount m) - g)") auto

declare alloc_block_from.simps [simp del]

definition allocBlock :: "u32 \<Rightarrow> ext2 \<Rightarrow> u32 \<times> ext2" where
  "allocBlock = alloc_block_from 0"

definition freeBlock :: "u32 \<Rightarrow> ext2 \<Rightarrow> ext2" where
  "freeBlock block m =
     (let rel = block - s_first_data_block (m_sb m);
          grp = rel div s_blocks_per_group (m_sb m); index = rel mod s_blocks_per_group (m_sb m);
          desc = readGroupDesc m grp;
          bitmap = readBlock m (bg_block_bitmap desc);
          m1 = writeBlock (bg_block_bitmap desc) (bitmap_clear (unat index) bitmap) m;
          m2 = writeGroupDesc grp (set_free_blocks (bg_free_blocks_count desc + 1) desc) m1 in
      write_sb (add_free_blocks 1 m2))"

definition take_inode :: "u32 \<Rightarrow> nat \<Rightarrow> ext2 \<Rightarrow> u32 \<times> ext2" where
  "take_inode grp i m =
     (let desc = readGroupDesc m grp;
          bitmap = readBlock m (bg_inode_bitmap desc);
          m1 = writeBlock (bg_inode_bitmap desc) (bitmap_set i bitmap) m;
          m2 = writeGroupDesc grp (set_free_inodes (bg_free_inodes_count desc - 1) desc) m1;
          m3 = write_sb (add_free_inodes (- 1) m2);
          num = s_inodes_per_group (m_sb m3) * grp + of_nat i + 1 in
      (num, writeRawInode num (replicate 128 0) m3))"

function alloc_inode_from :: "nat \<Rightarrow> u32 \<Rightarrow> ext2 \<Rightarrow> u32 \<times> ext2" where
  "alloc_inode_from g preferGroup m =
     (if g < unat (m_groupCount m) then
        let grp = (preferGroup + of_nat g) mod m_groupCount m; desc = readGroupDesc m grp in
        if bg_free_inodes_count desc = 0 then alloc_inode_from (g + 1) preferGroup m
        else case bitmap_scan (readBlock m (bg_inode_bitmap desc)) (unat (s_inodes_per_group (m_sb m))) 0 of
               None \<Rightarrow> alloc_inode_from (g + 1) preferGroup m
             | Some i \<Rightarrow> take_inode grp i m
      else (0, m))"
  by pat_completeness auto
termination by (relation "measure (\<lambda>(g, _, m). unat (m_groupCount m) - g)") auto

declare alloc_inode_from.simps [simp del]

definition allocInode :: "u32 \<Rightarrow> ext2 \<Rightarrow> u32 \<times> ext2" where
  "allocInode = alloc_inode_from 0"

definition freeInode :: "u32 \<Rightarrow> ext2 \<Rightarrow> ext2" where
  "freeInode num m =
     (let grp = inode_group m num; index = inode_index m num;
          desc = readGroupDesc m grp;
          bitmap = readBlock m (bg_inode_bitmap desc);
          m1 = writeBlock (bg_inode_bitmap desc) (bitmap_clear (unat index) bitmap) m;
          m2 = writeGroupDesc grp (set_free_inodes (bg_free_inodes_count desc + 1) desc) m1 in
      write_sb (add_free_inodes 1 m2))"

section \<open>Blocks are independent\<close>

text \<open>
  The geometry: a block size the mount accepts, sectors of 512 bytes, and block numbers whose sectors
  fit 32 bits.
\<close>

definition geom :: "ext2 \<Rightarrow> bool" where
  "geom m \<longleftrightarrow>
     m_blockSize m \<in> {1024, 2048, 4096} \<and> length (m_sb m) = 1024 \<and> (\<forall>s. length (e_dsk m s) = SECTOR_SIZE)"

definition valid_block :: "ext2 \<Rightarrow> u32 \<Rightarrow> bool" where
  "valid_block m b \<longleftrightarrow> unat b * unat (sectorsPerBlock m) + unat (sectorsPerBlock m) \<le> 2 ^ 32"

lemma spb_cases: "geom m \<Longrightarrow> sectorsPerBlock m \<in> {2, 4, 8}"
  by (auto simp: geom_def sectorsPerBlock_def SECTOR_SIZE_def)

lemma spb_bytes: "geom m \<Longrightarrow> unat (sectorsPerBlock m) * SECTOR_SIZE = unat (m_blockSize m)"
  by (auto simp: geom_def sectorsPerBlock_def SECTOR_SIZE_def)

lemma unat_widen: "unat (ucast (x :: u32) :: u64) = unat x"
  by transfer (simp add: take_bit_take_bit)

lemma unat_sector:
  assumes "valid_block m b" and "i < unat (sectorsPerBlock m)"
  shows "unat (sector_of m b i) = unat b * unat (sectorsPerBlock m) + i"
proof -
  have "unat (b * sectorsPerBlock m + of_nat i) = unat b * unat (sectorsPerBlock m) + i"
    using assms by (simp add: valid_block_def unat_word_ariths unat_of_nat take_bit_eq_mod)
  then show ?thesis by (simp add: sector_of_def unat_widen)
qed

lemma sector_inj:
  assumes "valid_block m b" "valid_block m c" and "i < unat (sectorsPerBlock m)" "j < unat (sectorsPerBlock m)"
    and "sector_of m b i = sector_of m c j"
  shows "b = c \<and> i = j"
proof -
  let ?n = "unat (sectorsPerBlock m)"
  have eq: "unat b * ?n + i = unat c * ?n + j"
    using assms(5) unat_sector [OF assms(1,3)] unat_sector [OF assms(2,4)] by simp
  have "(unat b * ?n + i) div ?n = (unat c * ?n + j) div ?n" "(unat b * ?n + i) mod ?n = (unat c * ?n + j) mod ?n"
    by (simp_all only: eq)
  then show ?thesis using assms(3,4) by (simp add: word_unat_eq_iff)
qed
lemma write_sectors_other:
  "(\<And>i. i \<in> set is \<Longrightarrow> sector_of m b i \<noteq> s) \<Longrightarrow> write_sectors m b buf is d s = d s"
  by (induction "is" arbitrary: d) (auto simp: write_sectors_def)

lemma write_sectors_at:
  assumes "valid_block m b" and "i < n" and "n \<le> unat (sectorsPerBlock m)"
  shows "write_sectors m b buf [0..<n] d (sector_of m b i) = sub_bytes buf (i * SECTOR_SIZE) SECTOR_SIZE"
  using assms(2,3)
proof (induction n)
  case (Suc n)
  have step: "write_sectors m b buf [0..<Suc n] d =
      (write_sectors m b buf [0..<n] d)(sector_of m b n := sub_bytes buf (n * SECTOR_SIZE) SECTOR_SIZE)"
    by (simp add: write_sectors_def)
  show ?case
  proof (cases "i = n")
    case False
    then have "sector_of m b i \<noteq> sector_of m b n"
      using sector_inj [OF assms(1,1), of i n] Suc.prems by auto
    then show ?thesis using Suc False unfolding step by simp
  next
    case True
    then show ?thesis unfolding step by simp
  qed
qed simp

text \<open>Writing a block leaves the mount's own members alone.\<close>

lemma writeBlock_fields [simp]:
  "m_sb (writeBlock b buf m) = m_sb m" "m_blockSize (writeBlock b buf m) = m_blockSize m"
  "m_groupCount (writeBlock b buf m) = m_groupCount m" "sectorsPerBlock (writeBlock b buf m) = sectorsPerBlock m"
  "sector_of (writeBlock b buf m) = sector_of m" "valid_block (writeBlock b buf m) = valid_block m"
  by (simp_all add: writeBlock_def sectorsPerBlock_def sector_of_def fun_eq_iff valid_block_def)

lemma concat_slices:
  "n * k \<le> length buf \<Longrightarrow> concat (map (\<lambda>i. sub_bytes buf (i * k) k) [0..<n]) = take (n * k) buf"
proof (induction n)
  case (Suc n)
  have "take (Suc n * k) buf = take (n * k) buf @ take k (drop (n * k) buf)"
    by (metis add.commute mult_Suc take_add)
  with Suc show ?case by (simp add: sub_bytes_def)
qed simp

lemma writeBlock_geometry:
  assumes "geom m" and "unat (m_blockSize m) \<le> length buf"
  shows "geom (writeBlock b buf m)"
proof -
  have "length (write_sectors m b buf [0..<n] (e_dsk m) s) = SECTOR_SIZE" if "n \<le> unat (sectorsPerBlock m)" for n s
    using that
  proof (induction n)
    case (Suc n)
    have "n * SECTOR_SIZE + SECTOR_SIZE \<le> unat (sectorsPerBlock m) * SECTOR_SIZE"
      using Suc.prems by (metis add.commute mult_Suc mult_le_mono1)
    with Suc show ?case
      using assms spb_bytes [OF assms(1)] by (simp add: write_sectors_def fun_upd_def)
  qed (use assms in \<open>simp add: write_sectors_def geom_def\<close>)
  with assms show ?thesis by (simp add: geom_def writeBlock_def)
qed

lemma readBlock_length:
  assumes "geom m"
  shows "length (readBlock m b) = unat (m_blockSize m)"
proof -
  have "length (concat (map f [0..<n])) = n * SECTOR_SIZE" if "\<forall>i. length (f i) = SECTOR_SIZE" for f :: "nat \<Rightarrow> bytes" and n
    using that by (induction n) simp_all
  then show ?thesis
    using assms spb_bytes [OF assms] by (simp add: readBlock_def geom_def)
qed

lemma read_written:
  assumes "geom m" and "valid_block m b" and "unat (m_blockSize m) \<le> length buf"
  shows "readBlock (writeBlock b buf m) b = take (unat (m_blockSize m)) buf"
proof -
  have "map (\<lambda>i. e_dsk (writeBlock b buf m) (sector_of m b i)) [0..<unat (sectorsPerBlock m)] =
      map (\<lambda>i. sub_bytes buf (i * SECTOR_SIZE) SECTOR_SIZE) [0..<unat (sectorsPerBlock m)]"
    by (intro map_cong refl) (simp add: writeBlock_def write_sectors_at [OF assms(2)])
  then show ?thesis
    using concat_slices [of "unat (sectorsPerBlock m)" SECTOR_SIZE buf] assms spb_bytes [OF assms(1)]
    unfolding readBlock_def writeBlock_fields by (simp only:)
qed

lemma read_other:
  assumes "valid_block m b" and "valid_block m c" and "b \<noteq> c"
  shows "readBlock (writeBlock b buf m) c = readBlock m c"
proof -
  have "e_dsk (writeBlock b buf m) (sector_of m c i) = e_dsk m (sector_of m c i)"
    if "i < unat (sectorsPerBlock m)" for i
    using sector_inj [OF assms(1,2) _ that] assms(3)
    by (simp add: writeBlock_def) (rule write_sectors_other, auto)
  then show ?thesis unfolding readBlock_def writeBlock_fields
    by (intro arg_cong [where f = concat] map_cong) auto
qed

text \<open>The block that holds the superblock, and the effect of writing the superblock on the others.\<close>

definition sb_block :: "ext2 \<Rightarrow> u32" where
  "sb_block m = (if m_blockSize m = 1024 then 1 else 0)"

lemma write_sb_fields [simp]:
  "m_sb (write_sb m) = m_sb m" "m_blockSize (write_sb m) = m_blockSize m" "m_groupCount (write_sb m) = m_groupCount m"
  "sectorsPerBlock (write_sb m) = sectorsPerBlock m" "sector_of (write_sb m) = sector_of m"
  "valid_block (write_sb m) = valid_block m"
  by (simp_all add: write_sb_def sectorsPerBlock_def sector_of_def fun_eq_iff valid_block_def)

lemma write_sb_geometry: "geom m \<Longrightarrow> geom (write_sb m)"
  by (simp add: geom_def write_sb_def SECTOR_SIZE_def)

lemma read_after_sb:
  assumes "geom m" and "valid_block m b" and "b \<noteq> sb_block m"
  shows "readBlock (write_sb m) b = readBlock m b"
proof -
  have "sector_of m b i \<noteq> 2 \<and> sector_of m b i \<noteq> 3" if i: "i < unat (sectorsPerBlock m)" for i
  proof -
    have "unat (sector_of m b i) = unat b * unat (sectorsPerBlock m) + i" by (rule unat_sector [OF assms(2) i])
    moreover have "unat b * unat (sectorsPerBlock m) + i \<noteq> 2 \<and> unat b * unat (sectorsPerBlock m) + i \<noteq> 3"
    proof (cases "m_blockSize m = 1024")
      case True
      then have "unat (sectorsPerBlock m) = 2" "b \<noteq> 1"
        using assms(3) by (simp_all add: sectorsPerBlock_def SECTOR_SIZE_def sb_block_def)
      then have "unat b \<noteq> 1" by (metis unat_1 word_unat_eq_iff)
      with \<open>unat (sectorsPerBlock m) = 2\<close> show ?thesis using i by (cases "unat b") auto
    next
      case False
      then have "unat (sectorsPerBlock m) \<ge> 4" "unat b \<noteq> 0"
        using assms(1,3) by (auto simp: geom_def sectorsPerBlock_def SECTOR_SIZE_def sb_block_def unat_eq_0)
      then show ?thesis by (cases "unat b") auto
    qed
    ultimately show ?thesis by auto
  qed
  then show ?thesis unfolding readBlock_def write_sb_fields
    by (intro arg_cong [where f = concat] map_cong) (auto simp: write_sb_def)
qed
section \<open>The layout of a well-formed file system\<close>

abbreviation bitmap_block :: "ext2 \<Rightarrow> u32 \<Rightarrow> u32" where
  "bitmap_block m g \<equiv> bg_block_bitmap (readGroupDesc m g)"

definition block_used :: "ext2 \<Rightarrow> u32 \<Rightarrow> nat \<Rightarrow> bool" where
  "block_used m g i = bitmap_test (readBlock m (bitmap_block m g)) i"

text \<open>The blocks the allocator itself works with.\<close>

definition meta_block :: "ext2 \<Rightarrow> u32 \<Rightarrow> bool" where
  "meta_block m b \<longleftrightarrow> b = sb_block m \<or> (\<exists>g < m_groupCount m. b = desc_block m g \<or> b = bitmap_block m g)"

definition free_blocks :: "ext2 \<Rightarrow> u32 set" where
  "free_blocks m =
     {block_number m g i | g i. g < m_groupCount m \<and> i < unat (s_blocks_per_group (m_sb m)) \<and> \<not> block_used m g i}"

definition layout :: "ext2 \<Rightarrow> bool" where
  "layout m \<longleftrightarrow>
     geom m \<and> 0 < m_groupCount m \<and> 0 < s_blocks_per_group (m_sb m)
     \<and> unat (s_blocks_per_group (m_sb m)) \<le> 8 * unat (m_blockSize m)
     \<and> unat (s_first_data_block (m_sb m)) + unat (m_groupCount m) * unat (s_blocks_per_group (m_sb m)) \<le> 2 ^ 32
     \<and> (\<forall>g < m_groupCount m.
          valid_block m (desc_block m g) \<and> desc_block m g \<noteq> sb_block m
          \<and> valid_block m (bitmap_block m g) \<and> bitmap_block m g \<noteq> sb_block m
          \<and> (\<forall>h < m_groupCount m. bitmap_block m g \<noteq> desc_block m h
               \<and> (bitmap_block m g = bitmap_block m h \<longrightarrow> g = h)))
     \<and> (\<forall>b \<in> free_blocks m. b \<noteq> 0 \<and> valid_block m b \<and> \<not> meta_block m b)"

definition in_group :: "ext2 \<Rightarrow> u32 \<Rightarrow> nat \<Rightarrow> bool" where
  "in_group m g i \<longleftrightarrow> g < m_groupCount m \<and> i < unat (s_blocks_per_group (m_sb m))"

lemma block_number_unat:
  assumes "layout m" and "in_group m g i"
  shows "unat (block_number m g i) = unat (s_first_data_block (m_sb m)) + unat g * unat (s_blocks_per_group (m_sb m)) + i"
proof -
  let ?n = "unat (s_blocks_per_group (m_sb m))"
  have g: "unat g < unat (m_groupCount m)" using assms(2) by (simp add: in_group_def word_less_nat_alt)
  have "unat g * ?n + ?n \<le> unat (m_groupCount m) * ?n"
    using g by (metis Suc_leI add.commute mult_Suc mult_le_mono1)
  then have "unat (s_first_data_block (m_sb m)) + unat g * ?n + i < 2 ^ 32"
    using assms by (simp add: layout_def in_group_def)
  then show ?thesis
    by (simp add: block_number_def unat_word_ariths unat_of_nat take_bit_eq_mod)
qed

lemma block_number_inj:
  assumes "layout m" and "in_group m g i" and "in_group m h j" and "block_number m g i = block_number m h j"
  shows "g = h \<and> i = j"
proof -
  let ?n = "unat (s_blocks_per_group (m_sb m))"
  have "unat g * ?n + i = unat h * ?n + j"
    using block_number_unat [OF assms(1,2)] block_number_unat [OF assms(1,3)] assms(4) by simp
  then have "(unat g * ?n + i) div ?n = (unat h * ?n + j) div ?n" "(unat g * ?n + i) mod ?n = (unat h * ?n + j) mod ?n"
    by simp_all
  then show ?thesis using assms(2,3) by (simp add: in_group_def word_unat_eq_iff)
qed

lemma block_number_split:
  assumes "layout m" and "in_group m g i"
  defines "rel \<equiv> block_number m g i - s_first_data_block (m_sb m)"
  shows "rel div s_blocks_per_group (m_sb m) = g" "unat (rel mod s_blocks_per_group (m_sb m)) = i"
proof -
  let ?n = "unat (s_blocks_per_group (m_sb m))"
  have "unat rel = unat g * ?n + i"
    using block_number_unat [OF assms(1,2)] by (simp add: rel_def unat_sub_if' word_le_nat_alt)
  then show "rel div s_blocks_per_group (m_sb m) = g" "unat (rel mod s_blocks_per_group (m_sb m)) = i"
    using assms(2) by (simp_all add: in_group_def word_unat_eq_iff unat_div unat_mod)
qed

text \<open>Descriptors of different groups do not overlap.\<close>

lemma desc_fits:
  assumes "geom m"
  shows "desc_offset m g + 32 \<le> unat (m_blockSize m)"
proof -
  let ?k = "m_blockSize m div 32"
  have k: "unat ?k * 32 = unat (m_blockSize m)" "0 < unat ?k"
    using assms by (auto simp: geom_def)
  have "unat (g mod ?k) < unat ?k" using k(2) by (simp add: unat_mod)
  then show ?thesis using k(1) unfolding desc_offset_def by linarith
qed

lemma desc_apart:
  assumes "geom m" and "g \<noteq> h" and "desc_block m g = desc_block m h"
  shows "desc_offset m g + 32 \<le> desc_offset m h \<or> desc_offset m h + 32 \<le> desc_offset m g"
proof -
  let ?k = "m_blockSize m div 32"
  have "g div ?k = h div ?k" using assms(3) by (simp add: desc_block_def)
  then have "g mod ?k \<noteq> h mod ?k" using assms(2) by (metis word_mod_div_equality)
  then show ?thesis by (auto simp: desc_offset_def word_unat_eq_iff)
qed
section \<open>Changing one bitmap\<close>

text \<open>The part that taking and freeing a block have in common.\<close>

definition upd_bitmap :: "u32 \<Rightarrow> (bytes \<Rightarrow> bytes) \<Rightarrow> u16 \<Rightarrow> u32 \<Rightarrow> ext2 \<Rightarrow> ext2" where
  "upd_bitmap grp f c d m =
     (let desc = readGroupDesc m grp;
          m1 = writeBlock (bg_block_bitmap desc) (f (readBlock m (bg_block_bitmap desc))) m;
          m2 = writeGroupDesc grp (set_free_blocks (bg_free_blocks_count desc + c) desc) m1 in
      write_sb (add_free_blocks d m2))"

lemma take_block_upd:
  "take_block grp i m =
     (let m3 = upd_bitmap grp (bitmap_set i) (- 1) (- 1) m; block = block_number m3 grp i in
      (block, writeBlock block (replicate 4096 0) m3))"
  by (simp add: take_block_def upd_bitmap_def Let_def BLOCK_BUF_SIZE_def)

lemma freeBlock_upd:
  "freeBlock block m =
     (let rel = block - s_first_data_block (m_sb m) in
      upd_bitmap (rel div s_blocks_per_group (m_sb m))
        (bitmap_clear (unat (rel mod s_blocks_per_group (m_sb m)))) 1 1 m)"
  by (simp add: freeBlock_def upd_bitmap_def Let_def)

lemma add_free_fields [simp]:
  "e_dsk (add_free_blocks d m) = e_dsk m" "m_blockSize (add_free_blocks d m) = m_blockSize m"
  "m_groupCount (add_free_blocks d m) = m_groupCount m" "sectorsPerBlock (add_free_blocks d m) = sectorsPerBlock m"
  "sector_of (add_free_blocks d m) = sector_of m" "valid_block (add_free_blocks d m) = valid_block m"
  "readBlock (add_free_blocks d m) = readBlock m"
  by (simp_all add: add_free_blocks_def sectorsPerBlock_def sector_of_def fun_eq_iff valid_block_def readBlock_def)

lemma add_free_sb:
  assumes "length (m_sb m) = 1024"
  shows "s_first_data_block (m_sb (add_free_blocks d m)) = s_first_data_block (m_sb m)"
    "s_blocks_per_group (m_sb (add_free_blocks d m)) = s_blocks_per_group (m_sb m)"
    "s_inodes_per_group (m_sb (add_free_blocks d m)) = s_inodes_per_group (m_sb m)"
    "s_inode_size (m_sb (add_free_blocks d m)) = s_inode_size (m_sb m)"
    "length (m_sb (add_free_blocks d m)) = 1024"
  using assms
  by (simp_all add: add_free_blocks_def s_first_data_block_def s_blocks_per_group_def s_inodes_per_group_def
      s_inode_size_def rd32_put_other rd16_put_other)

lemma same_desc_place:
  assumes "s_first_data_block (m_sb n) = s_first_data_block (m_sb m)" and "m_blockSize n = m_blockSize m"
  shows "desc_block n = desc_block m" "desc_offset n = desc_offset m"
  using assms by (simp_all add: desc_block_def desc_offset_def fun_eq_iff)

text \<open>What does not change: the geometry and the members that say where things are.\<close>

definition same_shape :: "ext2 \<Rightarrow> ext2 \<Rightarrow> bool" where
  "same_shape m n \<longleftrightarrow>
     m_blockSize n = m_blockSize m \<and> m_groupCount n = m_groupCount m
     \<and> s_first_data_block (m_sb n) = s_first_data_block (m_sb m) \<and> s_blocks_per_group (m_sb n) = s_blocks_per_group (m_sb m)
     \<and> s_inodes_per_group (m_sb n) = s_inodes_per_group (m_sb m) \<and> s_inode_size (m_sb n) = s_inode_size (m_sb m)"

lemma same_shape_places:
  assumes "same_shape m n"
  shows "sectorsPerBlock n = sectorsPerBlock m" "sector_of n = sector_of m" "valid_block n = valid_block m"
    "desc_block n = desc_block m" "desc_offset n = desc_offset m" "sb_block n = sb_block m"
    "block_number n = block_number m" "in_group n = in_group m"
  using assms
  by (simp_all add: same_shape_def sectorsPerBlock_def sector_of_def valid_block_def desc_block_def desc_offset_def
      sb_block_def block_number_def in_group_def fun_eq_iff)

lemma same_shape_write: "same_shape m (writeBlock b buf m)"
  by (simp add: same_shape_def)

lemma same_shape_trans: "same_shape m n \<Longrightarrow> same_shape n k \<Longrightarrow> same_shape m k"
  by (simp add: same_shape_def)

lemma length_set_free [simp]: "length desc = 32 \<Longrightarrow> length (set_free_blocks v desc) = 32"
  by (simp add: set_free_blocks_def)

lemma bitmap_of_set_free:
  assumes "length desc = 32"
  shows "bg_block_bitmap (set_free_blocks v desc) = bg_block_bitmap desc"
    "bg_inode_table (set_free_blocks v desc) = bg_inode_table desc"
  using assms by (simp_all add: set_free_blocks_def bg_block_bitmap_def bg_inode_table_def rd32_put_other)

lemma readGroupDesc_length: "geom m \<Longrightarrow> length (readGroupDesc m g) = 32"
  using desc_fits [of m g] by (simp add: readGroupDesc_def readBlock_length)

lemma writeGroupDesc_effect:
  assumes geom: "geom m" and vg: "valid_block m (desc_block m g)" and len: "length desc = 32"
  shows "geom (writeGroupDesc g desc m)" and "same_shape m (writeGroupDesc g desc m)"
    and "readGroupDesc (writeGroupDesc g desc m) g = desc"
    and "h \<noteq> g \<Longrightarrow> valid_block m (desc_block m h) \<Longrightarrow> readGroupDesc (writeGroupDesc g desc m) h = readGroupDesc m h"
    and "valid_block m b \<Longrightarrow> b \<noteq> desc_block m g \<Longrightarrow> readBlock (writeGroupDesc g desc m) b = readBlock m b"
proof -
  let ?b = "desc_block m g" and ?buf = "put (readBlock m (desc_block m g)) (desc_offset m g) desc"
  have fits: "desc_offset m g + length desc \<le> length (readBlock m ?b)"
    using desc_fits [OF geom] by (simp add: readBlock_length [OF geom] len)
  then have lbuf: "length ?buf = unat (m_blockSize m)" by (simp add: readBlock_length [OF geom])
  show "geom (writeGroupDesc g desc m)" unfolding writeGroupDesc_def
    by (rule writeBlock_geometry [OF geom]) (simp add: lbuf)
  show same: "same_shape m (writeGroupDesc g desc m)"
    unfolding writeGroupDesc_def by (rule same_shape_write)
  note place = same_shape_places [OF same]
  have rd: "readBlock (writeGroupDesc g desc m) ?b = ?buf"
    unfolding writeGroupDesc_def using read_written [OF geom vg, of ?buf] lbuf by simp
  show "readGroupDesc (writeGroupDesc g desc m) g = desc"
    using sub_bytes_put_same [OF fits] len unfolding readGroupDesc_def place rd by simp
  show other: "readBlock (writeGroupDesc g desc m) b = readBlock m b" if "valid_block m b" "b \<noteq> ?b" for b
    using that vg unfolding writeGroupDesc_def by (intro read_other) auto
  show "readGroupDesc (writeGroupDesc g desc m) h = readGroupDesc m h" if "h \<noteq> g" "valid_block m (desc_block m h)"
  proof (cases "desc_block m h = ?b")
    case True
    have "desc_offset m h + 32 \<le> desc_offset m g \<or> desc_offset m g + length desc \<le> desc_offset m h"
      using desc_apart [OF geom \<open>h \<noteq> g\<close> True] len by auto
    then show ?thesis
      using sub_bytes_put_other [OF fits] desc_fits [OF geom, of h]
      unfolding readGroupDesc_def place True rd by (simp add: readBlock_length [OF geom])
  next
    case False
    then show ?thesis using other [OF that(2)] unfolding readGroupDesc_def place by simp
  qed
qed
lemma bitmap_test_bit: "bitmap_test bm i = bit (bm ! (i div 8)) (i mod 8)"
  by (simp add: bitmap_test_def bit_iff_and_push_bit_not_eq_0)

lemma bitmap_places: "i \<noteq> j \<Longrightarrow> i div 8 = j div 8 \<Longrightarrow> i mod 8 \<noteq> (j mod 8 :: nat)"
  by (metis div_mult_mod_eq)

lemma bitmap_test_set:
  assumes "i div 8 < length bm"
  shows "bitmap_test (bitmap_set i bm) j \<longleftrightarrow> j = i \<or> bitmap_test bm j"
  using assms bitmap_places [of i j]
  by (cases "i = j") (auto simp: bitmap_test_bit bitmap_set_def nth_list_update bit_simps)

lemma bitmap_test_clear:
  assumes "i div 8 < length bm"
  shows "bitmap_test (bitmap_clear i bm) j \<longleftrightarrow> j \<noteq> i \<and> bitmap_test bm j"
  using assms bitmap_places [of i j]
  by (cases "i = j") (auto simp: bitmap_test_bit bitmap_clear_def nth_list_update bit_simps)

lemma bitmap_lengths [simp]: "length (bitmap_set i bm) = length bm" "length (bitmap_clear i bm) = length bm"
  by (simp_all add: bitmap_set_def bitmap_clear_def)

lemma layoutD:
  assumes "layout m" and "g < m_groupCount m"
  shows "geom m" "valid_block m (desc_block m g)" "desc_block m g \<noteq> sb_block m" "valid_block m (bitmap_block m g)"
    "bitmap_block m g \<noteq> sb_block m" "h < m_groupCount m \<Longrightarrow> bitmap_block m g \<noteq> desc_block m h"
    "h < m_groupCount m \<Longrightarrow> bitmap_block m g = bitmap_block m h \<Longrightarrow> g = h"
  using assms by (auto simp: layout_def)

lemma upd_bitmap_effect:
  assumes lay: "layout m" and g: "g < m_groupCount m" and f: "\<And>bm. length (f bm) = length bm"
    and n_def: "n = upd_bitmap g f c d m"
  shows "geom n" "same_shape m n"
    "h < m_groupCount m \<Longrightarrow> bitmap_block n h = bitmap_block m h"
    "readBlock n (bitmap_block m g) = f (readBlock m (bitmap_block m g))"
    "valid_block m b \<Longrightarrow> b \<noteq> sb_block m \<Longrightarrow> b \<noteq> desc_block m g \<Longrightarrow> b \<noteq> bitmap_block m g \<Longrightarrow> readBlock n b = readBlock m b"
    "h < m_groupCount m \<Longrightarrow> bg_inode_table (readGroupDesc n h) = bg_inode_table (readGroupDesc m h)"
proof -
  note L = layoutD [OF lay g]
  let ?bb = "bitmap_block m g" and ?desc = "readGroupDesc m g"
  let ?bm = "f (readBlock m ?bb)"
  let ?m1 = "writeBlock ?bb ?bm m"
  let ?d' = "set_free_blocks (bg_free_blocks_count ?desc + c) ?desc"
  let ?m2 = "writeGroupDesc g ?d' ?m1"
  let ?m3 = "add_free_blocks d ?m2"
  have lbm: "length ?bm = unat (m_blockSize m)" by (simp add: f readBlock_length [OF L(1)])
  have g1: "geom ?m1" by (rule writeBlock_geometry [OF L(1)]) (simp add: lbm)
  have p1: "desc_block ?m1 = desc_block m" "desc_offset ?m1 = desc_offset m"
    by (rule same_desc_place; simp)+
  have v1: "valid_block ?m1 (desc_block ?m1 g)" using L(2) by (simp add: p1)
  have len: "length ?d' = 32" by (simp add: readGroupDesc_length [OF L(1)])
  note W = writeGroupDesc_effect [OF g1 v1 len]
  have n: "n = write_sb ?m3" by (simp add: n_def upd_bitmap_def Let_def)
  have sb2: "length (m_sb ?m2) = 1024" using W(1) by (simp add: geom_def)
  note S = add_free_sb [OF sb2, of d]
  have g3: "geom ?m3" using W(1) S(5) by (simp add: geom_def)
  show "geom n" unfolding n by (rule write_sb_geometry [OF g3])
  have s2: "same_shape m ?m2" by (rule same_shape_trans [OF same_shape_write W(2)])
  then show same: "same_shape m n" unfolding n same_shape_def write_sb_fields using S by simp
  note P = same_shape_places [OF same] and P2 = same_shape_places [OF s2]
  have rd: "readBlock n b = readBlock ?m2 b" if "valid_block m b" "b \<noteq> sb_block m" for b
  proof -
    have "valid_block ?m3 b" "b \<noteq> sb_block ?m3"
      using that P2(3,6) by (simp_all add: sb_block_def)
    then show ?thesis unfolding n using read_after_sb [OF g3] by simp
  qed
  have rd1: "readBlock ?m1 b = readBlock m b" if "valid_block m b" "b \<noteq> ?bb" for b
    using that L(4) by (intro read_other) auto
  show "readBlock n ?bb = ?bm"
    using rd [OF L(4,5)] W(5) [of ?bb] L(4) L(6) [OF g] read_written [OF L(1,4), of ?bm] lbm by (simp add: p1)
  show other: "readBlock n b = readBlock m b" if "valid_block m b" "b \<noteq> sb_block m" "b \<noteq> desc_block m g" "b \<noteq> ?bb" for b
    using rd [OF that(1,2)] W(5) [of b] rd1 [OF that(1,4)] that by (simp add: p1)
  have desc: "readGroupDesc n h = (if h = g then ?d' else readGroupDesc m h)" if h: "h < m_groupCount m" for h
  proof -
    note H = layoutD [OF lay h]
    have "readGroupDesc n h = readGroupDesc ?m2 h"
      using rd [OF H(2,3)] by (simp only: readGroupDesc_def [of n h] readGroupDesc_def [of ?m2 h] P P2)
    moreover have "readGroupDesc ?m1 h = readGroupDesc m h"
      using rd1 [OF H(2)] L(6) [OF h] by (simp only: readGroupDesc_def [of ?m1 h] readGroupDesc_def [of m h] p1)
    ultimately show ?thesis using W(3) W(4) [of h] H(2) by (cases "h = g") (simp_all add: p1)
  qed
  note F = bitmap_of_set_free [OF readGroupDesc_length [OF L(1)]]
  show "bitmap_block n h = bitmap_block m h" if "h < m_groupCount m"
    using desc [OF that] F by simp
  show "bg_inode_table (readGroupDesc n h) = bg_inode_table (readGroupDesc m h)" if "h < m_groupCount m"
    using desc [OF that] F by simp
qed
text \<open>How the set of free blocks and the layout follow.\<close>

lemma upd_bitmap_used:
  assumes lay: "layout m" and g: "g < m_groupCount m" and f: "\<And>bm. length (f bm) = length bm"
    and n: "n = upd_bitmap g f c d m" and h: "h < m_groupCount m"
  shows "block_used n h j = (if h = g then bitmap_test (f (readBlock m (bitmap_block m g))) j else block_used m h j)"
proof (cases "h = g")
  case True
  then show ?thesis
    using upd_bitmap_effect(3) [OF lay g f n h] upd_bitmap_effect(4) [OF lay g f n] by (simp add: block_used_def)
next
  case False
  note H = layoutD [OF lay h]
  have "bitmap_block m h \<noteq> bitmap_block m g" using H(7) [OF g] False by blast
  then have "readBlock n (bitmap_block m h) = readBlock m (bitmap_block m h)"
    using upd_bitmap_effect(5) [OF lay g f n H(4,5)] H(6) [OF g] by blast
  then show ?thesis using False upd_bitmap_effect(3) [OF lay g f n h] by (simp add: block_used_def)
qed

lemma same_meta:
  assumes "same_shape m n" and "\<And>h. h < m_groupCount m \<Longrightarrow> bitmap_block n h = bitmap_block m h"
  shows "meta_block n = meta_block m"
proof -
  have gc: "m_groupCount n = m_groupCount m" using assms(1) by (simp add: same_shape_def)
  show ?thesis
    unfolding meta_block_def [abs_def] gc same_shape_places [OF assms(1)] using assms(2) by (intro ext) auto
qed

lemma layout_transfer:
  assumes lay: "layout m" and geom: "geom n" and same: "same_shape m n"
    and bb: "\<And>h. h < m_groupCount m \<Longrightarrow> bitmap_block n h = bitmap_block m h"
    and fr: "\<And>b. b \<in> free_blocks n \<Longrightarrow> b \<noteq> 0 \<and> valid_block m b \<and> \<not> meta_block m b"
  shows "layout n"
proof -
  have f: "m_groupCount n = m_groupCount m" "s_blocks_per_group (m_sb n) = s_blocks_per_group (m_sb m)"
    "m_blockSize n = m_blockSize m" "s_first_data_block (m_sb n) = s_first_data_block (m_sb m)"
    using same by (simp_all add: same_shape_def)
  have "valid_block m (desc_block m g) \<and> desc_block m g \<noteq> sb_block m \<and> valid_block m (bitmap_block n g)
      \<and> bitmap_block n g \<noteq> sb_block m
      \<and> (\<forall>h<m_groupCount m. bitmap_block n g \<noteq> desc_block m h \<and> (bitmap_block n g = bitmap_block n h \<longrightarrow> g = h))"
    if "g < m_groupCount m" for g
    using layoutD [OF lay that] bb that by simp
  moreover have "meta_block n = meta_block m" by (rule same_meta [OF same]) (rule bb)
  ultimately show ?thesis
    using lay geom fr unfolding layout_def same_shape_places [OF same] f by simp
qed

lemma free_blocks_change:
  assumes lay: "layout m" and gi: "in_group m g i" and same: "same_shape m n"
    and used: "\<And>h j. h < m_groupCount m \<Longrightarrow> block_used n h j = (if h = g \<and> j = i then v else block_used m h j)"
  shows "free_blocks n = (if v then free_blocks m - {block_number m g i} else insert (block_number m g i) (free_blocks m))"
proof -
  have f: "m_groupCount n = m_groupCount m" "s_blocks_per_group (m_sb n) = s_blocks_per_group (m_sb m)"
    "block_number n = block_number m"
    using same same_shape_places [OF same] by (simp_all add: same_shape_def)
  have fr: "b \<in> free_blocks k \<longleftrightarrow> (\<exists>h j. in_group k h j \<and> b = block_number k h j \<and> \<not> block_used k h j)" for b k
    by (auto simp: free_blocks_def in_group_def)
  have ig: "in_group n = in_group m" using same_shape_places [OF same] by simp
  have mem: "b \<in> free_blocks n \<longleftrightarrow> (if b = block_number m g i then \<not> v else b \<in> free_blocks m)" for b
  proof (cases "b = block_number m g i")
    case True
    have "\<not> block_used n h j \<longleftrightarrow> \<not> v" if "in_group m h j" "b = block_number m h j" for h j
      using block_number_inj [OF lay that(1) gi] used [of h j] that True by (simp add: in_group_def)
    then show ?thesis using True gi unfolding fr f ig by auto
  next
    case False
    have "block_used n h j = block_used m h j" if "in_group m h j" "b = block_number m h j" for h j
      using used [of h j] that False by (auto simp: in_group_def)
    then show ?thesis using False unfolding fr [of b n] fr [of b m] f ig by auto
  qed
  show ?thesis by (auto simp: mem split: if_splits)
qed

lemma bitmap_room:
  assumes "layout m" and "in_group m g i"
  shows "i div 8 < length (readBlock m b)"
proof -
  have "length (readBlock m b) = unat (m_blockSize m)" using assms(1) by (intro readBlock_length) (simp add: layout_def)
  moreover have "i < 8 * unat (m_blockSize m)" using assms by (simp add: layout_def in_group_def)
  ultimately show ?thesis by (simp add: div_less_iff_less_mult mult.commute)
qed
lemma scan_finds:
  "bitmap_scan bm n i = Some k \<Longrightarrow> i \<le> k \<and> k < n \<and> \<not> bitmap_test bm k \<and> (\<forall>j. i \<le> j \<and> j < k \<longrightarrow> bitmap_test bm j)"
proof (induction bm n i rule: bitmap_scan.induct)
  case (1 bm n i)
  have step: "bitmap_scan bm n i = (if i < n then (if bitmap_test bm i then bitmap_scan bm n (i + 1) else Some i) else None)"
    by (rule bitmap_scan.simps)
  show ?case
  proof (cases "i < n \<and> bitmap_test bm i")
    case True
    with 1 step have "i + 1 \<le> k \<and> k < n \<and> \<not> bitmap_test bm k \<and> (\<forall>j. i + 1 \<le> j \<and> j < k \<longrightarrow> bitmap_test bm j)" by simp
    then show ?thesis using True by (metis Suc_eq_plus1 Suc_leD Suc_leI le_neq_implies_less)
  qed (use 1(2) step in \<open>auto split: if_splits\<close>)
qed

lemma scan_fails: "bitmap_scan bm n i = None \<Longrightarrow> i \<le> j \<Longrightarrow> j < n \<Longrightarrow> bitmap_test bm j"
proof (induction bm n i rule: bitmap_scan.induct)
  case (1 bm n i)
  then show ?case by (subst (asm) (2) bitmap_scan.simps) (cases "i = j"; auto split: if_splits)
qed

text \<open>One block changes hands: it was free, it is zeroed, and nothing outside the allocator's own blocks moves.\<close>

lemma take_block_correct:
  assumes lay: "layout m" and gi: "in_group m g i" and free: "\<not> block_used m g i"
    and run: "take_block g i m = (b, m')"
  shows "b = block_number m g i" "b \<in> free_blocks m" "free_blocks m' = free_blocks m - {b}" "layout m'"
    "same_shape m m'" "readBlock m' b = replicate (unat (m_blockSize m)) 0"
    "valid_block m c \<Longrightarrow> \<not> meta_block m c \<Longrightarrow> c \<noteq> b \<Longrightarrow> readBlock m' c = readBlock m c"
    "meta_block m' = meta_block m"
    "h < m_groupCount m \<Longrightarrow> bg_inode_table (readGroupDesc m' h) = bg_inode_table (readGroupDesc m h)"
proof -
  have g: "g < m_groupCount m" using gi by (simp add: in_group_def)
  define n where "n = upd_bitmap g (bitmap_set i) (- 1) (- 1) m"
  have len: "\<And>bm. length (bitmap_set i bm) = length bm" by simp
  note E = upd_bitmap_effect [OF lay g len n_def]
  note P = same_shape_places [OF E(2)]
  show b: "b = block_number m g i" and fb: "b \<in> free_blocks m"
    using run gi free P by (auto simp: take_block_upd Let_def n_def [symmetric] free_blocks_def in_group_def)
  have m': "m' = writeBlock b (replicate 4096 0) n"
    using run b P by (simp add: take_block_upd Let_def n_def [symmetric])
  have vb: "valid_block m b" "\<not> meta_block m b" using lay fb by (simp_all add: layout_def)
  have zeros: "unat (m_blockSize n) \<le> length (replicate 4096 (0 :: u8))" "unat (m_blockSize n) \<le> 4096"
    using E(1) by (auto simp: geom_def)
  have g': "geom m'" unfolding m' by (rule writeBlock_geometry [OF E(1) zeros(1)])
  show same: "same_shape m m'" unfolding m' by (rule same_shape_trans [OF E(2) same_shape_write])
  have other: "readBlock m' c = readBlock n c" if "valid_block m c" "c \<noteq> b" for c
    unfolding m' using that vb(1) P by (intro read_other) auto
  have used: "block_used n h j = (if h = g \<and> j = i then True else block_used m h j)" if "h < m_groupCount m" for h j
    using upd_bitmap_used [OF lay g len n_def that, of j] bitmap_test_set [OF bitmap_room [OF lay gi]]
    by (auto simp: block_used_def)
  have keep: "bitmap_block m' h = bitmap_block m h \<and> readBlock m' (bitmap_block m h) = readBlock n (bitmap_block m h)
      \<and> bg_inode_table (readGroupDesc m' h) = bg_inode_table (readGroupDesc m h)"
    if h: "h < m_groupCount m" for h
  proof -
    note H = layoutD [OF lay h]
    have ne: "desc_block m h \<noteq> b" "bitmap_block m h \<noteq> b" using vb(2) h by (auto simp: meta_block_def)
    have "readGroupDesc m' h = readGroupDesc n h"
      using other [OF H(2) ne(1)] by (simp only: readGroupDesc_def same_shape_places [OF same] P)
    then show ?thesis using E(3,6) [OF h] other [OF H(4) ne(2)] by simp
  qed
  have used': "block_used m' h j = (if h = g \<and> j = i then True else block_used m h j)" if "h < m_groupCount m" for h j
    using used [OF that, of j] keep [OF that] E(3) [OF that] by (simp add: block_used_def)
  show fr: "free_blocks m' = free_blocks m - {b}"
    using free_blocks_change [OF lay gi same used'] b by simp
  show "layout m'"
    by (rule layout_transfer [OF lay g' same]) (use keep fr lay in \<open>auto simp: layout_def\<close>)
  show "readBlock m' b = replicate (unat (m_blockSize m)) 0"
    unfolding m' using read_written [OF E(1), of b "replicate 4096 0"] zeros vb(1) P E(2)
    by (simp add: same_shape_def take_replicate)
  show "readBlock m' c = readBlock m c" if "valid_block m c" "\<not> meta_block m c" "c \<noteq> b"
    using other [OF that(1,3)] E(5) [OF that(1)] that(2) g by (auto simp: meta_block_def)
  show "meta_block m' = meta_block m" by (rule same_meta [OF same]) (use keep in blast)
  show "bg_inode_table (readGroupDesc m' h) = bg_inode_table (readGroupDesc m h)" if "h < m_groupCount m"
    using keep [OF that] by blast
qed
lemma free_block_data: "layout m \<Longrightarrow> b \<in> free_blocks m \<Longrightarrow> b \<noteq> 0 \<and> valid_block m b \<and> \<not> meta_block m b"
  unfolding layout_def by blast

lemma alloc_block_from_correct:
  assumes "layout m" and "alloc_block_from k p m = (b, m')"
  shows "(b = 0 \<and> m' = m) \<or> (\<exists>g i. in_group m g i \<and> \<not> block_used m g i \<and> take_block g i m = (b, m'))"
  using assms
proof (induction k p m rule: alloc_block_from.induct)
  case (1 k p m)
  let ?g = "(p + of_nat k) mod m_groupCount m"
  let ?scan = "bitmap_scan (readBlock m (bitmap_block m ?g)) (unat (s_blocks_per_group (m_sb m))) 0"
  have step: "alloc_block_from k p m =
     (if k < unat (m_groupCount m) then
        if bg_free_blocks_count (readGroupDesc m ?g) = 0 then alloc_block_from (k + 1) p m
        else case ?scan of None \<Rightarrow> alloc_block_from (k + 1) p m | Some i \<Rightarrow> take_block ?g i m
      else (0, m))"
    by (subst alloc_block_from.simps) (simp add: Let_def)
  have "0 < m_groupCount m" using 1(3) by (simp add: layout_def)
  then have g: "?g < m_groupCount m"
    by (metis word_coorder.not_eq_extremum word_mod_less_divisor)
  show ?case
  proof (cases "k < unat (m_groupCount m) \<and> bg_free_blocks_count (readGroupDesc m ?g) \<noteq> 0 \<and> ?scan \<noteq> None")
    case True
    then obtain i where i: "?scan = Some i" by auto
    with True step 1(4) have "take_block ?g i m = (b, m')" by simp
    moreover have "in_group m ?g i" "\<not> block_used m ?g i"
      using scan_finds [OF i] g by (simp_all add: in_group_def block_used_def)
    ultimately show ?thesis by blast
  next
    case False
    show ?thesis
    proof (cases "k < unat (m_groupCount m)")
      case True
      with False step have "alloc_block_from (k + 1) p m = (b, m')" using 1(4) by auto
      with True False 1(1) [OF True refl refl _ 1(3)] 1(2) [OF True refl refl _ _ 1(3)] show ?thesis by auto
    next
      case out: False
      with step 1(4) show ?thesis by simp
    qed
  qed
qed

text \<open>When it fails, every group claims to be full or is full.\<close>

lemma alloc_block_from_fails:
  assumes "layout m" and "alloc_block_from k p m = (0, m')"
  shows "\<forall>j. k \<le> j \<and> j < unat (m_groupCount m) \<longrightarrow>
    (let g = (p + of_nat j) mod m_groupCount m in
     bg_free_blocks_count (readGroupDesc m g) = 0 \<or> (\<forall>i. in_group m g i \<longrightarrow> block_used m g i))"
  using assms
proof (induction k p m rule: alloc_block_from.induct)
  case (1 k p m)
  let ?g = "(p + of_nat k) mod m_groupCount m"
  let ?scan = "bitmap_scan (readBlock m (bitmap_block m ?g)) (unat (s_blocks_per_group (m_sb m))) 0"
  have step: "alloc_block_from k p m =
     (if k < unat (m_groupCount m) then
        if bg_free_blocks_count (readGroupDesc m ?g) = 0 then alloc_block_from (k + 1) p m
        else case ?scan of None \<Rightarrow> alloc_block_from (k + 1) p m | Some i \<Rightarrow> take_block ?g i m
      else (0, m))"
    by (subst alloc_block_from.simps) (simp add: Let_def)
  have "0 < m_groupCount m" using 1(3) by (simp add: layout_def)
  then have g: "?g < m_groupCount m"
    by (metis word_coorder.not_eq_extremum word_mod_less_divisor)
  show ?case
  proof (cases "k < unat (m_groupCount m)")
    case in_range: True
    have none: "bg_free_blocks_count (readGroupDesc m ?g) = 0 \<or> ?scan = None"
    proof (rule ccontr)
      assume "\<not> ?thesis"
      then obtain i where i: "?scan = Some i" and run: "take_block ?g i m = (0, m')"
        using step in_range 1(4) by auto
      have "in_group m ?g i" "\<not> block_used m ?g i"
        using scan_finds [OF i] g by (simp_all add: in_group_def block_used_def)
      from take_block_correct(2) [OF 1(3) this run] show False using 1(3) free_block_data by blast
    qed
    then have "alloc_block_from (k + 1) p m = (0, m')" using step in_range 1(4) by auto
    then have rest: "\<forall>j. k + 1 \<le> j \<and> j < unat (m_groupCount m) \<longrightarrow>
        (let g = (p + of_nat j) mod m_groupCount m in
         bg_free_blocks_count (readGroupDesc m g) = 0 \<or> (\<forall>i. in_group m g i \<longrightarrow> block_used m g i))"
      using none 1(1) [OF in_range refl refl _ 1(3)] 1(2) [OF in_range refl refl _ _ 1(3)] by blast
    have here: "bg_free_blocks_count (readGroupDesc m ?g) = 0 \<or> (\<forall>i. in_group m ?g i \<longrightarrow> block_used m ?g i)"
      using none scan_fails [of _ _ 0] by (auto simp: in_group_def block_used_def)
    show ?thesis
    proof (intro allI impI)
      fix j assume j: "k \<le> j \<and> j < unat (m_groupCount m)"
      show "let g = (p + of_nat j) mod m_groupCount m in
         bg_free_blocks_count (readGroupDesc m g) = 0 \<or> (\<forall>i. in_group m g i \<longrightarrow> block_used m g i)"
        using j rest here by (cases "j = k") (simp_all add: Let_def)
    qed
  qed auto
qed

lemma freeBlock_correct:
  assumes lay: "layout m" and gi: "in_group m g i" and b: "b = block_number m g i"
    and data: "b \<noteq> 0" "valid_block m b" "\<not> meta_block m b"
  shows "free_blocks (freeBlock b m) = insert b (free_blocks m)" "layout (freeBlock b m)" "same_shape m (freeBlock b m)"
    "valid_block m c \<Longrightarrow> \<not> meta_block m c \<Longrightarrow> readBlock (freeBlock b m) c = readBlock m c"
proof -
  have g: "g < m_groupCount m" using gi by (simp add: in_group_def)
  have n: "freeBlock b m = upd_bitmap g (bitmap_clear i) 1 1 m"
    using block_number_split [OF lay gi] by (simp add: freeBlock_upd Let_def b)
  have len: "\<And>bm. length (bitmap_clear i bm) = length bm" by simp
  note E = upd_bitmap_effect [OF lay g len n]
  show same: "same_shape m (freeBlock b m)" by (rule E(2))
  have used: "block_used (freeBlock b m) h j = (if h = g \<and> j = i then False else block_used m h j)"
    if "h < m_groupCount m" for h j
    using upd_bitmap_used [OF lay g len n that, of j] bitmap_test_clear [OF bitmap_room [OF lay gi]]
    by (auto simp: block_used_def)
  show fr: "free_blocks (freeBlock b m) = insert b (free_blocks m)"
    using free_blocks_change [OF lay gi same used] b by simp
  show "layout (freeBlock b m)"
    by (rule layout_transfer [OF lay E(1) same E(3)]) (use fr lay data in \<open>auto simp: layout_def\<close>)
  show "readBlock (freeBlock b m) c = readBlock m c" if "valid_block m c" "\<not> meta_block m c"
    using E(5) [OF that(1)] that(2) g by (auto simp: meta_block_def)
qed
lemma allocBlock_correct:
  assumes lay: "layout m" and run: "allocBlock p m = (b, m')" and b: "b \<noteq> 0"
  shows "b \<in> free_blocks m" "free_blocks m' = free_blocks m - {b}" "layout m'" "same_shape m m'"
    "readBlock m' b = replicate (unat (m_blockSize m)) 0"
    "valid_block m c \<Longrightarrow> \<not> meta_block m c \<Longrightarrow> c \<noteq> b \<Longrightarrow> readBlock m' c = readBlock m c"
    "meta_block m' = meta_block m"
    "h < m_groupCount m \<Longrightarrow> bg_inode_table (readGroupDesc m' h) = bg_inode_table (readGroupDesc m h)"
proof -
  obtain g i where gi: "in_group m g i" "\<not> block_used m g i" "take_block g i m = (b, m')"
    using alloc_block_from_correct [OF lay, of 0 p b m'] run b by (auto simp: allocBlock_def)
  note T = take_block_correct [OF lay gi]
  show "b \<in> free_blocks m" "free_blocks m' = free_blocks m - {b}" "layout m'" "same_shape m m'"
    "readBlock m' b = replicate (unat (m_blockSize m)) 0"
    "valid_block m c \<Longrightarrow> \<not> meta_block m c \<Longrightarrow> c \<noteq> b \<Longrightarrow> readBlock m' c = readBlock m c"
    using T by blast+
  show "meta_block m' = meta_block m" by (rule T(8))
  show "bg_inode_table (readGroupDesc m' h) = bg_inode_table (readGroupDesc m h)" if "h < m_groupCount m"
    by (rule T(9) [OF that])
qed

text \<open>A free block's number says where its bit is.\<close>

lemma freeBlock_after_alloc:
  assumes lay: "layout m" and run: "allocBlock p m = (b, m')" and b: "b \<noteq> 0"
  shows "free_blocks (freeBlock b m') = free_blocks m" "layout (freeBlock b m')"
proof -
  note A = allocBlock_correct [OF lay run b]
  note P = same_shape_places [OF A(4)]
  obtain g i where gi: "in_group m g i" "b = block_number m g i"
    using A(1) by (auto simp: free_blocks_def in_group_def)
  have d: "b \<noteq> 0" "valid_block m' b" "\<not> meta_block m' b" using free_block_data [OF lay A(1)] P A(7) by auto
  have "in_group m' g i" "b = block_number m' g i" using gi P by simp_all
  note F = freeBlock_correct [OF A(3) this d]
  show "free_blocks (freeBlock b m') = free_blocks m" using F(1) A(1,2) by auto
  show "layout (freeBlock b m')" by (rule F(2))
qed

section \<open>Properties\<close>

text \<open>
  \<^verbatim>\<open>Ext2Mount::allocBlock\<close> on a well-formed file system either finds no block, in which case it changes nothing and
  every group says that it is full or has no clear bit, or it returns a free block that is then no longer free and holds
  zeros, with all other free blocks and the contents of every other data block as they were and the file system well
  formed. \<^verbatim>\<open>Ext2Mount::freeBlock\<close> of that block restores the set of free blocks.
\<close>

theorem ext2_alloc_free_block:
  assumes "layout m" and "allocBlock p m = (b, m')"
  shows "if b = 0 then m' = m \<and> (\<forall>j < unat (m_groupCount m).
        let g = (p + of_nat j) mod m_groupCount m in
        bg_free_blocks_count (readGroupDesc m g) = 0 \<or> (\<forall>i. in_group m g i \<longrightarrow> block_used m g i))
    else b \<in> free_blocks m \<and> free_blocks m' = free_blocks m - {b} \<and> layout m'
      \<and> readBlock m' b = replicate (unat (m_blockSize m)) 0
      \<and> (\<forall>c. valid_block m c \<and> \<not> meta_block m c \<and> c \<noteq> b \<longrightarrow> readBlock m' c = readBlock m c)
      \<and> free_blocks (freeBlock b m') = free_blocks m \<and> layout (freeBlock b m')"
proof (cases "b = 0")
  case True
  then have run: "alloc_block_from 0 p m = (0, m')" using assms(2) by (simp add: allocBlock_def)
  then have "m' = m"
    using alloc_block_from_correct [OF assms(1) run] take_block_correct(2) [OF assms(1)] free_block_data [OF assms(1)]
    by blast
  then show ?thesis using True alloc_block_from_fails [OF assms(1) run] by simp
next
  case False
  have "\<forall>c. valid_block m c \<and> \<not> meta_block m c \<and> c \<noteq> b \<longrightarrow> readBlock m' c = readBlock m c"
    using allocBlock_correct(6) [OF assms False] by blast
  then show ?thesis
    using False allocBlock_correct(1-3,5) [OF assms False] freeBlock_after_alloc [OF assms False] by simp
qed

text \<open>A file system of one group with eight blocks of 1024 bytes: the superblock, the descriptors, two bitmaps, the inode
  table, and three free blocks.\<close>

definition zeros :: "nat \<Rightarrow> bytes" where
  "zeros n = replicate n 0"

lemma length_zeros [simp]: "length (zeros n) = n"
  by (simp add: zeros_def)

lemma rd_zeros [simp]: "q + 4 \<le> n \<Longrightarrow> rd32 (zeros n) q = 0" "q + 2 \<le> n \<Longrightarrow> rd16 (zeros n) q = 0"
  by (simp_all add: zeros_def rd32_def rd16_def)

definition demo_sb :: bytes where
  "demo_sb =
     put (put (put (put (put (put (put (put (zeros 1024) 0 (le32 8)) 4 (le32 8)) 12 (le32 3)) 16 (le32 6)) 20 (le32 1))
       32 (le32 8)) 40 (le32 8)) 88 (le16 128)"

definition demo_desc :: bytes where
  "demo_desc = put (put (put (put (put (zeros 512) 0 (le32 3)) 4 (le32 4)) 8 (le32 5)) 12 (le16 3)) 14 (le16 6)"

definition demo_dsk :: "sector \<Rightarrow> bytes" where
  "demo_dsk s =
     (if s = 2 then take 512 demo_sb else if s = 3 then drop 512 demo_sb
      else if s = 4 then demo_desc
      else if s = 6 then put (zeros 512) 0 [0x1F]
      else if s = 8 then put (zeros 512) 0 [0x03]
      else zeros 512)"

definition demo_ext2 :: ext2 where
  "demo_ext2 = \<lparr>e_dsk = demo_dsk, m_sb = demo_sb, m_blockSize = 1024, m_groupCount = 1\<rparr>"

lemma demo_sb_fields:
  "length demo_sb = 1024" "s_first_data_block demo_sb = 1" "s_blocks_per_group demo_sb = 8"
  "s_inodes_per_group demo_sb = 8" "s_inode_size demo_sb = 128"
  by (simp_all add: demo_sb_def s_first_data_block_def s_blocks_per_group_def s_inodes_per_group_def
      s_inode_size_def rd32_put_other rd16_put_other)

lemma demo_desc_fields:
  "length demo_desc = 512" "bg_block_bitmap demo_desc = 3" "bg_inode_bitmap demo_desc = 4" "bg_inode_table demo_desc = 5"
  "bg_free_blocks_count demo_desc = 3" "bg_free_inodes_count demo_desc = 6"
  by (simp_all add: demo_desc_def bg_block_bitmap_def bg_inode_bitmap_def bg_inode_table_def bg_free_blocks_count_def
      bg_free_inodes_count_def rd32_put_other rd16_put_other)

lemma demo_read: "readBlock demo_ext2 b = demo_dsk (ucast (b * 2)) @ demo_dsk (ucast (b * 2 + 1))"
proof -
  have "unat (sectorsPerBlock demo_ext2) = 2" by (simp add: demo_ext2_def sectorsPerBlock_def SECTOR_SIZE_def)
  moreover have "[0..<2] = [0, Suc 0]" by (simp add: upt_conv_Cons)
  moreover have "sector_of demo_ext2 b i = ucast (b * 2 + of_nat i)" for i
    by (simp add: sector_of_def demo_ext2_def sectorsPerBlock_def SECTOR_SIZE_def)
  ultimately show ?thesis unfolding readBlock_def by (simp add: demo_ext2_def)
qed
lemma rd_append:
  "q + 4 \<le> length xs \<Longrightarrow> rd32 (xs @ ys) q = rd32 xs q" "q + 2 \<le> length xs \<Longrightarrow> rd16 (xs @ ys) q = rd16 xs q"
  by (simp_all add: rd32_def rd16_def nth_append)

lemma rd_sub_bytes:
  "o' + n \<le> length bs \<Longrightarrow> q + 4 \<le> n \<Longrightarrow> rd32 (sub_bytes bs o' n) q = rd32 bs (o' + q)"
  "o' + n \<le> length bs \<Longrightarrow> q + 2 \<le> n \<Longrightarrow> rd16 (sub_bytes bs o' n) q = rd16 bs (o' + q)"
  by (simp_all add: rd32_def rd16_def sub_bytes_def add.assoc)

lemma demo_group:
  "desc_block demo_ext2 0 = 2" "readGroupDesc demo_ext2 0 = sub_bytes demo_desc 0 32"
  "bitmap_block demo_ext2 0 = 3" "bg_free_blocks_count (readGroupDesc demo_ext2 0) = 3"
proof -
  show d: "desc_block demo_ext2 0 = 2" by (simp add: desc_block_def demo_ext2_def demo_sb_fields)
  have "desc_offset demo_ext2 0 = 0" by (simp add: desc_offset_def)
  moreover have "readBlock demo_ext2 2 = demo_desc @ zeros 512" by (simp add: demo_read demo_dsk_def)
  ultimately show r: "readGroupDesc demo_ext2 0 = sub_bytes demo_desc 0 32"
    by (simp add: readGroupDesc_def d sub_bytes_def demo_desc_fields)
  show "bitmap_block demo_ext2 0 = 3" "bg_free_blocks_count (readGroupDesc demo_ext2 0) = 3"
    using demo_desc_fields unfolding r bg_block_bitmap_def bg_free_blocks_count_def
    by (simp_all add: rd_sub_bytes)
qed

lemma demo_block_used: "i < 8 \<Longrightarrow> block_used demo_ext2 0 i \<longleftrightarrow> i < 5"
proof -
  assume i: "i < 8"
  have "readBlock demo_ext2 3 ! 0 = 0x1F"
    by (simp add: demo_read demo_dsk_def nth_append nth_put)
  then have "block_used demo_ext2 0 i \<longleftrightarrow> bit (0x1F :: u8) i"
    using i by (simp add: block_used_def demo_group(3) bitmap_test_bit)
  moreover have "(0x1F :: u8) = mask 5" by (simp add: mask_eq_exp_minus_1)
  ultimately show ?thesis using i by (simp add: bit_mask_iff del: mask_numeral)
qed

lemma demo_geom: "geom demo_ext2"
  by (auto simp: geom_def demo_ext2_def demo_sb_fields SECTOR_SIZE_def demo_dsk_def demo_desc_fields)

lemma demo_layout: "layout demo_ext2"
proof -
  have sb: "m_sb demo_ext2 = demo_sb" "m_blockSize demo_ext2 = 1024" "m_groupCount demo_ext2 = 1"
    by (simp_all add: demo_ext2_def)
  have one: "g < (1 :: u32) \<longleftrightarrow> g = 0" for g by (simp add: word_less_1)
  have v: "valid_block demo_ext2 b \<longleftrightarrow> unat b * 2 + 2 \<le> 2 ^ 32" for b
    by (simp add: valid_block_def sectorsPerBlock_def sb SECTOR_SIZE_def)
  have free: "\<exists>i. i < 8 \<and> 5 \<le> i \<and> b = 1 + of_nat i" if "b \<in> free_blocks demo_ext2" for b
    using that demo_block_used by (auto simp: free_blocks_def sb demo_sb_fields one block_number_def not_less)
  have "b \<noteq> 0 \<and> valid_block demo_ext2 b \<and> \<not> meta_block demo_ext2 b" if b: "b \<in> free_blocks demo_ext2" for b
  proof -
    obtain i where i: "i < 8" "5 \<le> i" "b = 1 + of_nat i" using free [OF b] by blast
    then have "i = 5 \<or> i = 6 \<or> i = 7" by arith
    then have "b = 6 \<or> b = 7 \<or> b = 8" using i(3) by auto
    then show ?thesis by (auto simp: v meta_block_def sb_block_def sb one demo_group(1,3))
  qed
  then show ?thesis
    unfolding layout_def sb demo_sb_fields one using demo_geom
    by (simp add: v demo_group(1,3) sb_block_def sb)
qed

theorem ext2_alloc_free_block_witness:
  "fst (allocBlock 0 demo_ext2) \<in> free_blocks demo_ext2
   \<and> free_blocks (snd (allocBlock 0 demo_ext2)) = free_blocks demo_ext2 - {fst (allocBlock 0 demo_ext2)}"
proof -
  let ?b = "fst (allocBlock 0 demo_ext2)" and ?m = "snd (allocBlock 0 demo_ext2)"
  have t: "if ?b = 0 then ?m = demo_ext2 \<and> (\<forall>j < unat (m_groupCount demo_ext2).
        let g = (0 + of_nat j) mod m_groupCount demo_ext2 in
        bg_free_blocks_count (readGroupDesc demo_ext2 g) = 0
        \<or> (\<forall>i. in_group demo_ext2 g i \<longrightarrow> block_used demo_ext2 g i))
    else ?b \<in> free_blocks demo_ext2 \<and> free_blocks ?m = free_blocks demo_ext2 - {?b} \<and> layout ?m
      \<and> readBlock ?m ?b = replicate (unat (m_blockSize demo_ext2)) 0
      \<and> (\<forall>c. valid_block demo_ext2 c \<and> \<not> meta_block demo_ext2 c \<and> c \<noteq> ?b \<longrightarrow> readBlock ?m c = readBlock demo_ext2 c)
      \<and> free_blocks (freeBlock ?b ?m) = free_blocks demo_ext2 \<and> layout (freeBlock ?b ?m)"
    by (rule ext2_alloc_free_block [OF demo_layout]) simp
  have "in_group demo_ext2 0 5" "\<not> block_used demo_ext2 0 5"
    using demo_block_used [of 5] by (simp_all add: in_group_def demo_ext2_def demo_sb_fields)
  moreover have "unat (m_groupCount demo_ext2) = 1" by (simp add: demo_ext2_def)
  ultimately show ?thesis using t demo_group(4) by (auto simp: Let_def split: if_splits)
qed

end
