(* ===== verification/Elf.thy ===== *)
theory Elf
  imports UserAccess Ext2Disk
begin

text \<open>
  The loader of executables (\<^verbatim>\<open>kernel/proc/elf/elf.cpp\<close>). The open file is a state with the calls \<^verbatim>\<open>seek\<close>, \<^verbatim>\<open>read\<close> and
  \<^verbatim>\<open>close\<close>; a read gives its result and the bytes it stores. The contents of a local structure before it is read into are
  arguments. Headers are decoded at the offsets that the structures of \<^verbatim>\<open>elf.h\<close> have.
\<close>

section \<open>Headers\<close>

definition PT_LOAD :: u32 where "PT_LOAD = 0x1"
definition PF_X :: u32 where "PF_X = 0x1"
definition PF_W :: u32 where "PF_W = 0x2"
definition PF_R :: u32 where "PF_R = 0x4"
definition ELF_MAG0 :: u8 where "ELF_MAG0 = 0x7f"
definition ELF_MAG1 :: u8 where "ELF_MAG1 = 69"
definition ELF_MAG2 :: u8 where "ELF_MAG2 = 76"
definition ELF_MAG3 :: u8 where "ELF_MAG3 = 70"
definition ELF_CLASS_64 :: u8 where "ELF_CLASS_64 = 2"
definition ELF_DATA_2_LSB :: u8 where "ELF_DATA_2_LSB = 1"
definition ET_EXEC :: u16 where "ET_EXEC = 2"
definition EM_RISCV :: u16 where "EM_RISCV = 243"

lemmas elf_consts = PT_LOAD_def PF_X_def PF_W_def PF_R_def ELF_MAG0_def ELF_MAG1_def ELF_MAG2_def ELF_MAG3_def
  ELF_CLASS_64_def ELF_DATA_2_LSB_def ET_EXEC_def EM_RISCV_def

definition rd64 :: "bytes \<Rightarrow> nat \<Rightarrow> u64" where
  "rd64 bs o' = ucast (rd32 bs o') OR push_bit 32 (ucast (rd32 bs (o' + 4)))"

record Elf64Header =
  e_ident :: "u8 list"
  e_type :: u16
  e_machine :: u16
  e_version :: u32
  e_entry :: u64
  e_phoff :: u64
  e_shoff :: u64
  e_flags :: u64
  e_ehsize :: u16
  e_phentsize :: u16
  e_phnum :: u16
  e_shentsize :: u16
  e_shnum :: u16
  e_shstrndx :: u16

definition sizeof_Elf64Header :: nat where "sizeof_Elf64Header = 72"

definition Elf64Header_of :: "bytes \<Rightarrow> Elf64Header" where
  "Elf64Header_of bs =
     \<lparr>e_ident = sub_bytes bs 0 16, e_type = rd16 bs 16, e_machine = rd16 bs 18, e_version = rd32 bs 20, e_entry = rd64 bs 24,
      e_phoff = rd64 bs 32, e_shoff = rd64 bs 40, e_flags = rd64 bs 48, e_ehsize = rd16 bs 56, e_phentsize = rd16 bs 58,
      e_phnum = rd16 bs 60, e_shentsize = rd16 bs 62, e_shnum = rd16 bs 64, e_shstrndx = rd16 bs 66\<rparr>"

record Elf64ProgramHeader =
  p_type :: u32
  p_flags :: u32
  p_offset :: u64
  p_vaddr :: u64
  p_paddr :: u64
  p_filesz :: u64
  p_memsz :: u64
  p_align :: u64

definition sizeof_Elf64ProgramHeader :: nat where "sizeof_Elf64ProgramHeader = 56"

definition Elf64ProgramHeader_of :: "bytes \<Rightarrow> Elf64ProgramHeader" where
  "Elf64ProgramHeader_of bs =
     \<lparr>p_type = rd32 bs 0, p_flags = rd32 bs 4, p_offset = rd64 bs 8, p_vaddr = rd64 bs 16, p_paddr = rd64 bs 24,
      p_filesz = rd64 bs 32, p_memsz = rd64 bs 40, p_align = rd64 bs 48\<rparr>"

record ElfLoadInfo =
  li_entry :: u64
  li_phdr_va :: u64
  li_phent :: u64
  li_phnum :: u64

definition validateHeader :: "Elf64Header \<Rightarrow> bool" where
  "validateHeader hdr =
     (if e_ident hdr ! 0 \<noteq> ELF_MAG0 \<or> e_ident hdr ! 1 \<noteq> ELF_MAG1 \<or> e_ident hdr ! 2 \<noteq> ELF_MAG2 \<or> e_ident hdr ! 3 \<noteq> ELF_MAG3 then False
      else if e_ident hdr ! 4 \<noteq> ELF_CLASS_64 then False
      else if e_ident hdr ! 5 \<noteq> ELF_DATA_2_LSB then False
      else if e_type hdr \<noteq> ET_EXEC then False
      else if e_machine hdr \<noteq> EM_RISCV then False
      else True)"

definition flagsToPte :: "u32 \<Rightarrow> u64" where
  "flagsToPte flags =
     (let pte = PAGE_U OR PAGE_V;
          pte1 = (if flags AND PF_R \<noteq> 0 then pte OR PAGE_R else pte);
          pte2 = (if flags AND PF_W \<noteq> 0 then pte1 OR PAGE_W else pte1) in
      if flags AND PF_X \<noteq> 0 then pte2 OR PAGE_X else pte2)"

section \<open>Loading\<close>

text \<open>The bytes of a local structure after a read that stored \<open>bs\<close> at its start.\<close>

definition read_into :: "bytes \<Rightarrow> bytes \<Rightarrow> bytes" where
  "read_into bs buf = bs @ drop (length bs) buf"

text \<open>What a segment occupies.\<close>

definition seg_base :: "Elf64ProgramHeader \<Rightarrow> u64" where
  "seg_base ph = pageRoundDown (p_vaddr ph)"

definition seg_pages :: "Elf64ProgramHeader \<Rightarrow> u64" where
  "seg_pages ph = ((p_vaddr ph - seg_base ph) + p_memsz ph + PAGE_SIZE - 1) div PAGE_SIZE"

text \<open>The descriptors that a segment sets. \<open>room\<close> says whether the descriptor cache hands out memory.\<close>

definition seg_record :: "bool \<Rightarrow> Elf64ProgramHeader \<Rightarrow> SegmentTable \<Rightarrow> SegmentTable" where
  "seg_record room ph t =
     (let flags = flagsToPte (p_flags ph); va_end = seg_base ph + seg_pages ph * PAGE_SIZE;
          segFlags = ucast (flags AND NOT (PAGE_U OR PAGE_V)) :: u8 in
      if p_flags ph AND PF_X \<noteq> 0 then setText room segFlags (seg_base ph) va_end t
      else if p_flags ph AND (PF_R OR PF_W) = PF_R then setRoData room segFlags (seg_base ph) va_end t
      else if p_filesz ph = p_memsz ph then setData room segFlags (seg_base ph) va_end t
      else
        let dataEnd = pageRoundUp (seg_base ph + (p_vaddr ph - seg_base ph) + p_filesz ph);
            t1 = (if dataEnd > seg_base ph then setData room (segFlags AND NOT (ucast SEG_X)) (seg_base ph) dataEnd t else t) in
        if dataEnd < va_end then setBss room (ucast (SEG_R OR SEG_W)) dataEnd va_end t1 else t1)"

text \<open>The pages of a segment: taken from the allocator, cleared, filled from the file and mapped.\<close>

definition load_segment ::
  "(u64 \<Rightarrow> 'f \<Rightarrow> int \<times> 'f) \<Rightarrow> (u64 \<Rightarrow> 'f \<Rightarrow> int \<times> u8 list \<times> 'f) \<Rightarrow> u64 \<Rightarrow> Elf64ProgramHeader \<Rightarrow> 'f \<Rightarrow> vmstate
   \<Rightarrow> (bool \<times> 'f \<times> vmstate) res" where
  "load_segment f_seek f_read pmt ph f st =
     (case kallocPages (ucast (seg_pages ph)) (vs_heap st) of
        (None, h) \<Rightarrow> Inr (False, f, st\<lparr>vs_heap := h\<rparr>)
      | (Some pages_at, h) \<Rightarrow>
          let data = memset (vs_data st) pages_at 0 (unat (seg_pages ph * PAGE_SIZE));
              (_, f1) = f_seek (p_offset ph) f;
              (_, bs, f2) = f_read (p_filesz ph) f1;
              data1 = store_bytes (pages_at + (p_vaddr ph - seg_base ph)) bs data in
          bindE (mapPages kallocPage pmt (seg_base ph) (v2p pages_at) (unat (seg_pages ph)) (flagsToPte (p_flags ph)) (vs_pt st) h)
            (\<lambda>(_, pt, h1). Inr (True, f2, st\<lparr>vs_data := data1, vs_pt := pt, vs_heap := h1\<rparr>)))"

primrec load_loop ::
  "(u64 \<Rightarrow> 'f \<Rightarrow> int \<times> 'f) \<Rightarrow> (u64 \<Rightarrow> 'f \<Rightarrow> int \<times> u8 list \<times> 'f) \<Rightarrow> bool \<Rightarrow> (nat \<Rightarrow> bytes) \<Rightarrow> u64 \<Rightarrow> Elf64Header \<Rightarrow> nat list
   \<Rightarrow> ElfLoadInfo \<Rightarrow> 'f \<Rightarrow> vmstate \<Rightarrow> SegmentTable option \<Rightarrow> (ElfLoadInfo option \<times> 'f \<times> vmstate \<times> SegmentTable option) res" where
  "load_loop f_seek f_read room ph0 pmt header [] info f st segs = Inr (Some info, f, st, segs)"
| "load_loop f_seek f_read room ph0 pmt header (i # is) info f st segs =
     (let (_, f1) = f_seek (e_phoff header + of_nat (i * sizeof_Elf64ProgramHeader)) f;
          (_, bs, f2) = f_read (of_nat sizeof_Elf64ProgramHeader) f1;
          ph = Elf64ProgramHeader_of (read_into bs (ph0 i)) in
      if p_type ph \<noteq> PT_LOAD \<or> p_memsz ph = 0 then load_loop f_seek f_read room ph0 pmt header is info f2 st segs
      else bindE (load_segment f_seek f_read pmt ph f2 st) (\<lambda>(ok, f3, st1).
        if \<not> ok then Inr (None, f3, st1, segs)
        else
          let info1 = (if p_offset ph = 0 then info\<lparr>li_phdr_va := p_vaddr ph + e_phoff header\<rparr> else info) in
          load_loop f_seek f_read room ph0 pmt header is info1 f3 st1 (map_option (seg_record room ph) segs)))"

definition elf_load ::
  "(u64 \<Rightarrow> 'f \<Rightarrow> int \<times> 'f) \<Rightarrow> (u64 \<Rightarrow> 'f \<Rightarrow> int \<times> u8 list \<times> 'f) \<Rightarrow> ('f \<Rightarrow> 'f) \<Rightarrow> bool \<Rightarrow> bytes \<Rightarrow> (nat \<Rightarrow> bytes) \<Rightarrow> u64
   \<Rightarrow> 'f option \<Rightarrow> vmstate \<Rightarrow> SegmentTable option \<Rightarrow> (ElfLoadInfo option \<times> 'f option \<times> vmstate \<times> SegmentTable option) res" where
  "elf_load f_seek f_read f_close room hdr0 ph0 pmt opened st segs =
     (case opened of
        None \<Rightarrow> Inr (None, None, st, segs)
      | Some f \<Rightarrow>
          let (_, bs, f1) = f_read (of_nat sizeof_Elf64Header) f; header = Elf64Header_of (read_into bs hdr0) in
          if \<not> validateHeader header then Inr (None, Some (f_close f1), st, segs)
          else
            let info = \<lparr>li_entry = e_entry header, li_phdr_va = 0, li_phent = ucast (e_phentsize header), li_phnum = ucast (e_phnum header)\<rparr> in
            bindE (load_loop f_seek f_read room ph0 pmt header [0..<unat (e_phnum header)] info f1 st segs) (\<lambda>(r, f2, st1, segs1).
              case r of
                None \<Rightarrow> Inr (None, Some (f_close f2), st1, segs1)
              | Some i \<Rightarrow>
                  Inr (Some (if li_phdr_va i = 0 then i\<lparr>li_phdr_va := pageRoundDown (e_entry header) + e_phoff header\<rparr> else i),
                       Some (f_close f2), st1, segs1)))"

section \<open>A loaded segment in the address space\<close>

lemma store_bytes_frame: "(\<And>k. k < length bs \<Longrightarrow> a + of_nat k \<noteq> x) \<Longrightarrow> store_bytes a bs m x = m x"
proof (induction bs arbitrary: a m)
  case (Cons b bs)
  have "a \<noteq> x" using Cons.prems [of 0] by simp
  moreover have "a + 1 + of_nat k \<noteq> x" if "k < length bs" for k using Cons.prems [of "Suc k"] that by (simp add: algebra_simps)
  ultimately show ?case using Cons.IH [of "a + 1"] by simp
qed simp

lemma store_bytes_at: "k < length bs \<Longrightarrow> length bs \<le> 2 ^ 64 \<Longrightarrow> store_bytes a bs m (a + of_nat k) = bs ! k"
proof (induction bs arbitrary: a m k)
  case (Cons b bs)
  show ?case
  proof (cases k)
    case 0
    have "a + 1 + of_nat j \<noteq> a" if "j < length bs" for j
      using of_nat_u64_neq_0 [of "Suc j"] that Cons.prems(2) by (auto simp: algebra_simps)
    then show ?thesis using 0 by (simp add: store_bytes_frame)
  next
    case (Suc j)
    then have "store_bytes (a + 1) bs (m(a := b)) (a + 1 + of_nat j) = bs ! j" using Cons.prems by (intro Cons.IH) auto
    then show ?thesis using Suc by (simp add: algebra_simps)
  qed
qed simp

lemma seg_room:
  assumes "unat (p_memsz ph) + 8192 \<le> 2 ^ 64" and "k < unat (p_memsz ph)"
  defines "x \<equiv> unat (p_vaddr ph - seg_base ph) + k"
  shows "seg_base ph + of_nat x = p_vaddr ph + of_nat k" "x < unat (seg_pages ph) * 4096" "unat (p_vaddr ph - seg_base ph) < 4096"
    "unat (seg_pages ph * PAGE_SIZE) = unat (seg_pages ph) * 4096"
proof -
  define off where "off = p_vaddr ph - seg_base ph"
  have "off = take_bit 12 (p_vaddr ph)" by (simp add: off_def seg_base_def pageRoundDown_take_bit)
  then have lt: "unat off < 4096" by (simp add: unat_page_offset)
  then show "unat (p_vaddr ph - seg_base ph) < 4096" by (simp add: off_def)
  have x: "x = unat off + k" by (simp add: x_def off_def)
  show "seg_base ph + of_nat x = p_vaddr ph + of_nat k" by (simp add: x off_def)
  have "unat (off + p_memsz ph + PAGE_SIZE - 1) = unat off + unat (p_memsz ph) + 4095"
  proof -
    have e: "off + p_memsz ph + PAGE_SIZE - 1 = off + p_memsz ph + 4095" by (simp add: PAGE_SIZE_def)
    have "unat (off + p_memsz ph) = unat off + unat (p_memsz ph)" using lt assms(1) by (simp add: unat_word_ariths)
    then show ?thesis unfolding e using lt assms(1) by (simp add: unat_word_ariths(1) [of _ 4095])
  qed
  then have pg: "unat (seg_pages ph) = (unat off + unat (p_memsz ph) + 4095) div 4096"
    by (simp add: seg_pages_def off_def [symmetric] PAGE_SIZE_def unat_div)
  have "(N + 4095) div 4096 * 4096 \<le> N + 4095" "N \<le> (N + 4095) div 4096 * 4096" for N :: nat by simp_all
  from this [of "unat off + unat (p_memsz ph)"]
  have b: "unat (seg_pages ph) * 4096 \<le> unat off + unat (p_memsz ph) + 4095" "unat off + unat (p_memsz ph) \<le> unat (seg_pages ph) * 4096"
    unfolding pg by simp_all
  show "x < unat (seg_pages ph) * 4096" using b(2) assms(2) x by linarith
  show "unat (seg_pages ph * PAGE_SIZE) = unat (seg_pages ph) * 4096"
    using lt assms(1) b(1) by (simp add: PAGE_SIZE_def unat_word_ariths)
qed

lemma flagsToPte_props: "flag_bits (flagsToPte fl)" "flagsToPte fl AND PAGE_V \<noteq> 0"
  unfolding flagsToPte_def Let_def by (simp_all split: if_split) (simp_all add: page_flag_defs)

text \<open>The place of byte \<open>x\<close> of a run of pages that is mapped from \<open>base\<close> on.\<close>

lemma mapped_run:
  assumes wf: "pt_wf pt pmt h" and fl: "flag_bits flags" "flags AND PAGE_V \<noteq> 0"
    and al: "page_aligned base" "page_aligned pages_at"
    and map: "mapPages kallocPage pmt base (v2p pages_at) n flags pt h = Inr (True, pt', h')" and x: "x < n * 4096" "x < 2 ^ 64"
  shows "p2v (translate pmt (base + of_nat x) pt') = pages_at + of_nat x"
proof -
  let ?j = "x div 4096"
  note c = buddy_pages.mapPages_loop_cases [unfolded pt_wf_ok, OF wf fl(2) map [unfolded mapPages_def], simplified]
  have j: "?j < n" using x(1) by (simp add: less_mult_imp_div_less)
  have ux: "unat (of_nat x :: u64) = x" using x(2) by (simp add: unat_of_nat take_bit_nat_eq_self)
  have rd: "pageRoundDown (of_nat x) = of_nat ?j * PAGE_SIZE"
  proof -
    have "pageRoundDown (of_nat x) = of_nat (unat (pageRoundDown (of_nat x)))" by (metis of_nat_unat ucast_id)
    then show ?thesis by (simp add: unat_pageRoundDown ux PAGE_SIZE_def)
  qed
  have "pageRoundDown (base + of_nat ?j * PAGE_SIZE) = pageRoundDown (base + of_nat x)"
    using pageRoundDown_aligned [OF al(1)] rd by (metis pageRoundDown_idem)
  then have "pte_of pt' pmt (base + of_nat x) = makePte (v2p pages_at + of_nat ?j * PAGE_SIZE) flags"
    using c j pageRoundDown_same_page by blast
  then have "translate pmt (base + of_nat x) pt' = pageRoundDown (v2p pages_at + of_nat ?j * PAGE_SIZE) + (base + of_nat x AND (PAGE_SIZE - 1))"
    using fl unfolding translate_pte by simp
  moreover have "pageRoundDown (v2p pages_at + of_nat ?j * PAGE_SIZE) = v2p pages_at + of_nat ?j * PAGE_SIZE"
    using pageRoundDown_aligned [OF v2p_aligned [OF al(2)], of "of_nat x"] rd
    by (metis pageRoundDown_aligned [OF v2p_aligned [OF al(2)]] pageRoundDown_idem)
  moreover have "(base + of_nat x) AND (PAGE_SIZE - 1) = take_bit 12 (of_nat x)"
    using take_bit_aligned [OF al(1), of "of_nat x"] by (simp add: take_bit_eq_mask mask_eq_exp_minus_1 PAGE_SIZE_def)
  moreover have "of_nat ?j * PAGE_SIZE + take_bit 12 (of_nat x) = of_nat x"
    using rd pageRoundDown_take_bit [of "of_nat x"] by (metis diff_add_cancel)
  ultimately have "translate pmt (base + of_nat x) pt' = v2p pages_at + of_nat x" by (simp add: add.assoc)
  then show ?thesis by (simp add: p2v_def v2p_def)
qed

text \<open>The bytes of a cleared block behind a read into it.\<close>

lemma filled_block:
  fixes off :: u64
  assumes x: "unat off + k < len" "len \<le> 2 ^ 64" and bs: "length bs \<le> 2 ^ 64" and kl: "k < 2 ^ 64"
  shows "store_bytes (a + off) bs (memset m a 0 len) (a + off + of_nat k) = (if k < length bs then bs ! k else 0)"
proof (cases "k < length bs")
  case True
  then show ?thesis using store_bytes_at [OF True bs] by (simp only: if_True True)
next
  case False
  have "a + off + of_nat i \<noteq> a + off + of_nat k" if i: "i < length bs" for i
  proof
    assume "a + off + of_nat i = a + off + of_nat k"
    then have "(of_nat i :: u64) = of_nat k" by simp
    moreover have "unat (of_nat i :: u64) = i" "unat (of_nat k :: u64) = k"
      using i bs kl by (simp_all add: unat_of_nat take_bit_nat_eq_self)
    ultimately have "i = k" by metis
    then show False using i False by simp
  qed
  then have "store_bytes (a + off) bs (memset m a 0 len) (a + off + of_nat k) = memset m a 0 len (a + off + of_nat k)"
    by (rule store_bytes_frame)
  moreover have "memset m a 0 len (a + of_nat (unat off + k)) = 0" using memset_loop_fills [OF x, of m a 0] by (simp add: memset_def)
  ultimately show ?thesis using False by (simp add: add.assoc)
qed

text \<open>
  C29: A segment of an executable that the loader has put into an address space is there as the file has it: the address
  \<open>p_vaddr + k\<close> leads to the byte at \<open>p_offset + k\<close> of the file for every \<open>k\<close> below \<open>p_filesz\<close> and to zero for the rest up to
  \<open>p_memsz\<close>, and pages outside the segment lead where they did. The result of \<^verbatim>\<open>mapPages\<close> is not looked at: when the page
  tables themselves find no memory the allocator is empty afterwards.
\<close>

theorem elf_segment_visible:
  assumes mem: "kallocPages (ucast (seg_pages ph)) (vs_heap st) = (Some pages_at, h)" "page_aligned pages_at"
    and wf: "pt_wf (vs_pt st) pmt h" and size: "unat (p_memsz ph) + 8192 \<le> 2 ^ 64" "p_filesz ph \<le> p_memsz ph"
    and seek: "f_seek (p_offset ph) f = (r, f1)" and read: "f_read (p_filesz ph) f1 = (n, bs, f2)" "length bs = unat (p_filesz ph)"
    and run: "load_segment f_seek f_read pmt ph f st = Inr (ok, f', st')"
  shows "ok \<and> pt_wf (vs_pt st') pmt (vs_heap st') \<and> (buddy_pool (vs_heap st') = {} \<or>
    (\<forall>k < unat (p_memsz ph). vs_data st' (p2v (translate pmt (p_vaddr ph + of_nat k) (vs_pt st'))) = (if k < length bs then bs ! k else 0)))
    \<and> (\<forall>va. (\<forall>j < unat (seg_pages ph). \<not> same_page (seg_base ph + of_nat j * PAGE_SIZE) va)
         \<longrightarrow> translate pmt va (vs_pt st') = translate pmt va (vs_pt st))"
proof -
  let ?fl = "flagsToPte (p_flags ph)" and ?n = "unat (seg_pages ph)" and ?off = "p_vaddr ph - seg_base ph"
  let ?data = "store_bytes (pages_at + ?off) bs (memset (vs_data st) pages_at 0 (unat (seg_pages ph * PAGE_SIZE)))"
  obtain b pt h1 where map: "mapPages kallocPage pmt (seg_base ph) (v2p pages_at) ?n ?fl (vs_pt st) h = Inr (b, pt, h1)"
    and st': "st' = st\<lparr>vs_data := ?data, vs_pt := pt, vs_heap := h1\<rparr>" "ok"
    using run mem(1) seek read(1) by (auto simp: load_segment_def Let_def)
  note fl = flagsToPte_props [of "p_flags ph"]
  note c = buddy_pages.mapPages_loop_cases [unfolded pt_wf_ok, OF wf fl(2) map [unfolded mapPages_def]]
  have base: "page_aligned (seg_base ph)" by (simp add: seg_base_def)
  have visible: "?data (p2v (translate pmt (p_vaddr ph + of_nat k) pt)) = (if k < length bs then bs ! k else 0)"
    if b: "b" and k: "k < unat (p_memsz ph)" for k
  proof -
    define x where "x = unat ?off + k"
    note R = seg_room [OF size(1) k, folded x_def]
    have xl: "x < 2 ^ 64" using R(3) k size(1) by (simp add: x_def)
    have "p2v (translate pmt (seg_base ph + of_nat x) pt) = pages_at + of_nat x"
      using mapped_run [OF wf fl base mem(2) _ R(2) xl] map b by simp
    then have at: "p2v (translate pmt (p_vaddr ph + of_nat k) pt) = pages_at + of_nat x" using R(1) by simp
    have "length bs \<le> 2 ^ 64" using read(2) unsigned_less [of "p_filesz ph", where ?'a = nat] by simp
    moreover have "x < unat (seg_pages ph * PAGE_SIZE)" "unat (seg_pages ph * PAGE_SIZE) \<le> 2 ^ 64" "k < 2 ^ 64"
      using R(2,4) xl unsigned_less [of "seg_pages ph * PAGE_SIZE", where ?'a = nat] by (simp_all add: x_def)
    ultimately show ?thesis using filled_block [of ?off k _ bs pages_at "vs_data st"] unfolding at by (simp add: x_def add.assoc)
  qed
  have "translate pmt va pt = translate pmt va (vs_pt st)" if "\<forall>j < ?n. \<not> same_page (seg_base ph + of_nat j * PAGE_SIZE) va" for va
    using c that unfolding translate_pte by simp
  moreover have "pt_wf pt pmt h1" "\<not> b \<Longrightarrow> buddy_pool h1 = {}" using c by simp_all
  ultimately show ?thesis using visible st' by (cases b) simp_all
qed

text \<open>A data segment of eight bytes, three of them from the file.\<close>

definition demo_ph :: Elf64ProgramHeader where
  "demo_ph = \<lparr>p_type = 1, p_flags = 6, p_offset = 0x40, p_vaddr = 0x400010, p_paddr = 0, p_filesz = 3, p_memsz = 8, p_align = 0\<rparr>"

definition demo_elf_vm :: vmstate where
  "demo_elf_vm = \<lparr>vs_pt = demo_pt, vs_data = (\<lambda>_. 7), vs_heap = demo_heap, vs_refs = \<lparr>s_buckets = (\<lambda>_. []), s_initialized = True\<rparr>\<rparr>"

lemma demo_take:
  "\<exists>p h. kallocPage demo_heap = (Some p, h) \<and> pt_wf demo_pt 0x1000 h \<and> page_aligned p"
proof -
  have "buddy_pool demo_heap \<noteq> {}" using demo_pool by blast
  then obtain p h where t: "kallocPage demo_heap = (Some p, h)" using buddy_pages.take_total [OF demo_heap_good] by blast
  note T = buddy_pages.take_some [OF demo_heap_good t]
  then have "buddy_page demo_heap p" by blast
  from buddy_pages.page_aligned_of [OF demo_heap_good this] have "page_aligned p" .
  moreover have "pt_wf demo_pt 0x1000 h" using T demo_wf by (auto simp: pt_wf_def)
  ultimately show ?thesis using t by blast
qed

theorem elf_segment_visible_witness:
  "\<exists>st'. load_segment (\<lambda>_ f. (0, f)) (\<lambda>_ f. (3, [1, 2, 3], f)) 0x1000 demo_ph () demo_elf_vm = Inr (True, (), st')
     \<and> (buddy_pool (vs_heap st') = {} \<or> vs_data st' (p2v (translate 0x1000 0x400012 (vs_pt st'))) = 3
          \<and> vs_data st' (p2v (translate 0x1000 0x400017 (vs_pt st'))) = 0)"
proof -
  obtain p h where P: "kallocPage demo_heap = (Some p, h)" "pt_wf demo_pt 0x1000 h" "page_aligned p" using demo_take by blast
  have base: "seg_base demo_ph = 0x400000" by (simp add: seg_base_def demo_ph_def pageRoundDown_def PAGE_SIZE_def)
  then have pages: "seg_pages demo_ph = 1" unfolding seg_pages_def base by (simp add: demo_ph_def PAGE_SIZE_def)
  have fl: "p_vaddr demo_ph = 0x400010" "p_memsz demo_ph = 8" "p_filesz demo_ph = 3" by (simp_all add: demo_ph_def)
  have alloc: "kallocPages (ucast (seg_pages demo_ph)) (vs_heap demo_elf_vm) = (Some p, h)"
    using P(1) by (simp add: pages kallocPages_def kallocPage_def demo_elf_vm_def)
  have wf: "pt_wf (vs_pt demo_elf_vm) 0x1000 h" using P(2) by (simp add: demo_elf_vm_def)
  note c = buddy_pages.mapPage_cases [unfolded pt_wf_ok, OF P(2), of "0x400000" "v2p p" "flagsToPte (p_flags demo_ph)"]
  obtain b pt h1 where "mapPage kallocPage 0x1000 0x400000 (v2p p) (flagsToPte (p_flags demo_ph)) demo_pt h = Inr (b, pt, h1)"
    using c demo_pte by (cases "mapPage kallocPage 0x1000 0x400000 (v2p p) (flagsToPte (p_flags demo_ph)) demo_pt h") (auto split: if_splits)
  then have "\<exists>b pt h1. mapPages kallocPage 0x1000 0x400000 (v2p p) 1 (flagsToPte (p_flags demo_ph)) demo_pt h = Inr (b, pt, h1)"
    by (cases b) (auto simp: mapPages_def mapPages_loop.simps)
  then obtain st' where run: "load_segment (\<lambda>_ f. (0, f)) (\<lambda>_ f. (3, [1, 2, 3], f)) 0x1000 demo_ph () demo_elf_vm = Inr (True, (), st')"
    using alloc by (auto simp: load_segment_def Let_def base pages demo_elf_vm_def)
  have "buddy_pool (vs_heap st') = {} \<or> (\<forall>k < 8. vs_data st' (p2v (translate 0x1000 (0x400010 + of_nat k) (vs_pt st')))
      = (if k < length [1, 2, 3 :: u8] then [1, 2, 3] ! k else 0))"
    using elf_segment_visible [OF alloc P(3) wf _ _ _ _ _ run, of 0 "()" 3 "[1, 2, 3]" "()"] by (simp add: fl del: length_Cons)
  then have "buddy_pool (vs_heap st') = {} \<or> vs_data st' (p2v (translate 0x1000 0x400012 (vs_pt st'))) = 3
      \<and> vs_data st' (p2v (translate 0x1000 0x400017 (vs_pt st'))) = 0"
  proof (elim disjE)
    assume a: "\<forall>k < 8. vs_data st' (p2v (translate 0x1000 (0x400010 + of_nat k) (vs_pt st')))
      = (if k < length [1, 2, 3 :: u8] then [1, 2, 3] ! k else 0)"
    show ?thesis using a [rule_format, of 2] a [rule_format, of 7] by simp
  qed simp
  then show ?thesis using run by blast
qed

section \<open>Files that are no executables\<close>

lemma rd16_eq_iff:
  assumes "o' + 1 < length bs"
  shows "rd16 bs o' = v \<longleftrightarrow> sub_bytes bs o' 2 = le16 v"
proof -
  have sub: "sub_bytes bs o' 2 = [bs ! o', bs ! (o' + 1)]"
    using assms by (intro nth_equalityI) (auto simp: sub_bytes_def less_Suc_eq numeral_2_eq_2)
  have "ucast (rd16 bs o') = bs ! o'" "ucast (drop_bit 8 (rd16 bs o')) = bs ! (o' + 1)"
    unfolding rd16_def by (rule bit_word_eqI; auto simp: bit_simps dest: bit_imp_le_length)+
  then have "rd16 bs o' = v \<Longrightarrow> sub_bytes bs o' 2 = le16 v" unfolding sub le16_def by metis
  moreover have "sub_bytes bs o' 2 = le16 v \<Longrightarrow> rd16 bs o' = v"
    unfolding sub le16_def rd16_def using bytes_of_u16 [of v] by simp
  ultimately show ?thesis by blast
qed



end
