(* ===== verification/Paths.thy ===== *)
theory Paths
  imports Prelude
begin

text \<open>
  Path strings: the helpers of \<^verbatim>\<open>kernel/fs/path_utils.h\<close> and the normalisation of paths against the working directory
  in \<^verbatim>\<open>Process::resolveRelative\<close>. A path is the list of its bytes without the terminating zero. Memory for the copies
  is always available here; a null result of \<^verbatim>\<open>kmalloc\<close> is not modelled.
\<close>

type_synonym path = "u8 list"

definition PATH_MAX :: nat where "PATH_MAX = 4096"

abbreviation slash :: u8 where "slash \<equiv> 47"
abbreviation dot :: u8 where "dot \<equiv> 46"

section \<open>Copying and combining\<close>

definition kstrdup :: "path option \<Rightarrow> nat \<Rightarrow> path option" where
  "kstrdup src maxLen = (case src of None \<Rightarrow> None | Some s \<Rightarrow> if maxLen < length s then None else Some s)"

definition path_combine :: "path option \<Rightarrow> path option \<Rightarrow> nat \<Rightarrow> path option" where
  "path_combine base relative maxLen =
     (if base = None \<and> relative = None then None
      else if base = None \<or> base = Some [] then kstrdup relative maxLen
      else if relative = None \<or> relative = Some [] then kstrdup base maxLen
      else
        let b = the base; r = the relative in
        if hd r = slash then kstrdup relative maxLen
        else
          let full = b @ (if last b \<noteq> slash then [slash] else []) @ r in
          if maxLen < length full then None else Some full)"

section \<open>Normalising a path\<close>

text \<open>The inner loop that cuts off one component, at most \<open>PATH_MAX\<close> bytes, and the slash behind it.\<close>

definition component :: "path \<Rightarrow> path" where
  "component p = take PATH_MAX (takeWhile (\<lambda>c. c \<noteq> slash) p)"

definition after_component :: "path \<Rightarrow> path" where
  "after_component p =
     (let q = drop (length (component p)) p in if q \<noteq> [] \<and> hd q = slash then tl q else q)"

lemma after_component_shorter: "p \<noteq> [] \<Longrightarrow> length (after_component p) < length p"
proof (cases "component p = []")
  case True
  assume "p \<noteq> []"
  then obtain c q where p: "p = c # q" by (cases p) auto
  then have "c = slash" using True by (auto simp: component_def PATH_MAX_def split: if_splits)
  then show ?thesis using True p by (simp add: after_component_def)
next
  case False
  assume "p \<noteq> []"
  moreover have "0 < length (component p)" using False by simp
  ultimately have "length (drop (length (component p)) p) < length p" by simp
  then show ?thesis by (auto simp: after_component_def Let_def intro: le_less_trans)
qed

text \<open>
  The result so far is \<open>t\<close>, the bytes of \<^verbatim>\<open>temp\<close> up to \<^verbatim>\<open>len\<close>. For \<^verbatim>\<open>..\<close> the length is taken back to the last
  slash, but not below one.
\<close>

fun rr_back :: "path \<Rightarrow> nat \<Rightarrow> nat" where
  "rr_back t 0 = 0"
| "rr_back t (Suc i) = (if t ! Suc i = slash then Suc i else rr_back t i)"

definition rr_up :: "path \<Rightarrow> path" where
  "rr_up t =
     (if length t > 1 then let len = rr_back t (length t - 1) in take (if len = 0 then 1 else len) t else t)"

definition rr_push :: "path \<Rightarrow> path \<Rightarrow> path option" where
  "rr_push c t =
     (let t1 = (if t \<noteq> [] \<and> last t \<noteq> slash then t @ [slash] else t) in
      if length t1 + length c \<le> PATH_MAX then Some (t1 @ c) else None)"

function rr_loop :: "path \<Rightarrow> path \<Rightarrow> path option" where
  "rr_loop p t =
     (if p = [] then Some t
      else
        let c = component p; q = after_component p in
        if c = [] \<or> c = [dot] then rr_loop q t
        else if c = [dot, dot] then rr_loop q (rr_up t)
        else case rr_push c t of None \<Rightarrow> None | Some t1 \<Rightarrow> rr_loop q t1)"
  by pat_completeness auto
termination by (relation "measure (\<lambda>(p, _). length p)") (auto simp: after_component_shorter)

declare rr_loop.simps [simp del]

text \<open>\<open>cwd\<close> is the process' \<^verbatim>\<open>m_cwdPath\<close>.\<close>

definition resolveRelative :: "path \<Rightarrow> path \<Rightarrow> path option" where
  "resolveRelative cwd p =
     (let absolute = (p \<noteq> [] \<and> hd p = slash) in
      if \<not> absolute \<and> PATH_MAX < length cwd then None
      else case rr_loop (if absolute then tl p else p) (if absolute then [slash] else cwd) of
        None \<Rightarrow> None
      | Some t \<Rightarrow> kstrdup (Some (if t = [] then [slash] else t)) PATH_MAX)"

definition process_cwd :: "path option \<Rightarrow> path option" where
  "process_cwd cwdPath = kstrdup (Some (case cwdPath of None \<Rightarrow> [slash] | Some c \<Rightarrow> c)) PATH_MAX"

text \<open>\<^verbatim>\<open>findLastSlash\<close> and the same search in \<^verbatim>\<open>resolveParent\<close>: the place of the last slash.\<close>

definition findLastSlash :: "path \<Rightarrow> nat option" where
  "findLastSlash s = (case filter (\<lambda>i. s ! i = slash) [0..<length s] of [] \<Rightarrow> None | is \<Rightarrow> Some (last is))"

section \<open>The reference: a stack of names\<close>

fun split_slash :: "path \<Rightarrow> path list" where
  "split_slash [] = [[]]"
| "split_slash (c # p) =
     (if c = slash then [] # split_slash p else (c # hd (split_slash p)) # tl (split_slash p))"

definition path_names :: "path \<Rightarrow> path list" where
  "path_names p = filter (\<lambda>c. c \<noteq> []) (split_slash p)"

definition render :: "path list \<Rightarrow> path" where
  "render cs = (if cs = [] then [slash] else concat (map (\<lambda>c. slash # c) cs))"

text \<open>A dot stays, two dots go up and stop at the root, anything else goes down, as long as the path fits.\<close>

definition norm_step :: "path list \<Rightarrow> path \<Rightarrow> path list option" where
  "norm_step cs c =
     (if c = [dot] then Some cs
      else if c = [dot, dot] then Some (butlast cs)
      else if length (render (cs @ [c])) \<le> PATH_MAX then Some (cs @ [c]) else None)"

fun norm_path :: "path list \<Rightarrow> path list \<Rightarrow> path list option" where
  "norm_path cs [] = Some cs"
| "norm_path cs (c # ds) = (case norm_step cs c of None \<Rightarrow> None | Some cs1 \<Rightarrow> norm_path cs1 ds)"

text \<open>Where the walk starts.\<close>

definition start_stack :: "path \<Rightarrow> path list \<Rightarrow> path list" where
  "start_stack p cs = (if p \<noteq> [] \<and> hd p = slash then [] else cs)"

text \<open>Names that can stand in a normalised path.\<close>

definition proper :: "path list \<Rightarrow> bool" where
  "proper cs \<longleftrightarrow> (\<forall>c \<in> set cs. c \<noteq> [] \<and> slash \<notin> set c \<and> c \<noteq> [dot] \<and> c \<noteq> [dot, dot])"

section \<open>The loop follows the reference\<close>

lemma split_slash_ne [simp]: "split_slash p \<noteq> []"
  by (cases p) simp_all

lemma split_slash_append:
  "slash \<notin> set c \<Longrightarrow> split_slash (c @ q) = (c @ hd (split_slash q)) # tl (split_slash q)"
  by (induction c) auto

lemma path_names_simps:
  "path_names [] = []" "path_names (slash # p) = path_names p"
  "c \<noteq> [] \<Longrightarrow> slash \<notin> set c \<Longrightarrow> path_names c = [c]"
  "c \<noteq> [] \<Longrightarrow> slash \<notin> set c \<Longrightarrow> path_names (c @ slash # p) = c # path_names p"
  using split_slash_append [of c "[]"] split_slash_append [of c "slash # p"] by (simp_all add: path_names_def)

lemma path_names_split: "c \<in> set (path_names p) \<Longrightarrow> c \<noteq> [] \<and> slash \<notin> set c"
proof -
  have "c \<in> set (split_slash p) \<Longrightarrow> slash \<notin> set c" for c
  proof (induction p arbitrary: c)
    case (Cons x p)
    have "hd (split_slash p) \<in> set (split_slash p)" "set (tl (split_slash p)) \<subseteq> set (split_slash p)"
      by (simp, cases "split_slash p") auto
    then show ?case using Cons by (auto split: if_splits)
  qed simp
  then show "c \<in> set (path_names p) \<Longrightarrow> c \<noteq> [] \<and> slash \<notin> set c" by (auto simp: path_names_def)
qed

lemma render_snoc: "render (cs @ [c]) = (if cs = [] then [] else render cs) @ slash # c"
  by (simp add: render_def)

lemma render_last:
  assumes "proper cs" and "cs \<noteq> []"
  shows "last (render cs) \<noteq> slash"
proof -
  obtain ds c where cs: "cs = ds @ [c]" using assms(2) by (cases cs rule: rev_cases) auto
  then have "c \<noteq> []" "slash \<notin> set c" using assms(1) by (auto simp: proper_def)
  then have "last c \<noteq> slash" using last_in_set [of c] by metis
  then show ?thesis using cs \<open>c \<noteq> []\<close> by (simp add: render_snoc)
qed

lemma render_ne [simp]: "render cs \<noteq> []"
  by (cases cs rule: rev_cases) (simp_all add: render_snoc, simp add: render_def)

lemma rr_push_render:
  assumes "proper cs" 
  shows "rr_push c (render cs) = (if length (render (cs @ [c])) \<le> PATH_MAX then Some (render (cs @ [c])) else None)"
proof (cases "cs = []")
  case True
  then show ?thesis by (simp add: rr_push_def render_def Let_def)
next
  case False
  then show ?thesis using render_last [OF assms False] by (simp add: rr_push_def render_snoc Let_def)
qed

lemma rr_back_to:
  assumes "slash \<notin> set c"
  shows "i \<le> length c \<Longrightarrow> rr_back (pre @ slash # c) (length pre + i) = length pre"
proof (induction i)
  case 0
  have "(pre @ slash # c) ! length pre = slash" by simp
  then show ?case by (cases "length pre") auto
next
  case (Suc i)
  have "(pre @ slash # c) ! (length pre + Suc i) = c ! i" by (simp add: nth_append)
  moreover have "c ! i \<noteq> slash" using assms Suc.prems by (metis Suc_le_lessD nth_mem)
  ultimately show ?case using Suc by simp
qed

lemma rr_up_render: "proper cs \<Longrightarrow> rr_up (render cs) = render (butlast cs)"
proof (cases cs rule: rev_cases)
  case Nil
  then show ?thesis by (simp add: rr_up_def render_def)
next
  case (snoc ds c)
  assume "proper cs"
  then have c: "c \<noteq> []" "slash \<notin> set c" using snoc by (auto simp: proper_def)
  let ?pre = "if ds = [] then [] else render ds"
  have r: "render cs = ?pre @ slash # c" using snoc by (simp add: render_snoc)
  have "rr_back (render cs) (length (render cs) - 1) = length ?pre"
    using rr_back_to [OF c(2), of "length c" ?pre] by (simp add: r)
  then show ?thesis using c(1) snoc r by (auto simp: rr_up_def Let_def) (simp add: render_def)
qed

lemma proper_butlast: "proper cs \<Longrightarrow> proper (butlast cs)"
  unfolding proper_def by (meson in_set_butlastD)

lemma norm_step_proper:
  assumes "proper cs" and "norm_step cs c = Some ds" and "c \<noteq> []" and "slash \<notin> set c"
  shows "proper ds"
proof -
  consider "ds = cs" | "ds = butlast cs" | "ds = cs @ [c]" "c \<noteq> [dot]" "c \<noteq> [dot, dot]"
    using assms(2) unfolding norm_step_def by (metis option.discI option.inject)
  then show ?thesis
  proof cases
    case 3
    then show ?thesis using assms by (simp add: proper_def)
  qed (use assms(1) proper_butlast in simp_all)
qed

lemma norm_step_fits:
  assumes "length (render cs) \<le> PATH_MAX" and "norm_step cs c = Some ds"
  shows "length (render ds) \<le> PATH_MAX"
proof -
  have "length (render (butlast cs)) \<le> length (render cs)"
    by (cases cs rule: rev_cases) (simp_all add: render_snoc, simp add: render_def)
  then show ?thesis using assms by (auto simp: norm_step_def split: if_splits)
qed

lemma first_name:
  assumes "p \<noteq> []"
  shows "component p = [] \<Longrightarrow> path_names p = path_names (after_component p)"
    "component p \<noteq> [] \<Longrightarrow> length (component p) < PATH_MAX \<Longrightarrow> path_names p = component p # path_names (after_component p)"
    "length (component p) = PATH_MAX \<Longrightarrow> \<exists>c ds. path_names p = c # ds \<and> PATH_MAX \<le> length c"
    "slash \<notin> set (component p)" "length (component p) \<le> PATH_MAX"
proof -
  let ?c = "takeWhile (\<lambda>c. c \<noteq> slash) p"
  define Q where "Q = dropWhile (\<lambda>c. c \<noteq> slash) p"
  have ns: "slash \<notin> set ?c" by (auto dest: set_takeWhileD)
  show "slash \<notin> set (component p)" using ns by (auto simp: component_def dest: in_set_takeD)
  show "length (component p) \<le> PATH_MAX" by (simp add: component_def)
  have p: "p = ?c @ Q" by (simp add: Q_def)
  have q: "Q = [] \<or> (\<exists>r. Q = slash # r)" by (cases Q) (auto simp: Q_def dropWhile_eq_Cons_conv)
  have names: "?c \<noteq> [] \<Longrightarrow> path_names p = ?c # path_names (tl Q)"
    using q path_names_simps(1,3,4) ns by (metis append_Nil2 list.sel(2,3) p)
  show "path_names p = path_names (after_component p)" if "component p = []"
  proof -
    have "hd p = slash" using that assms by (cases p) (auto simp: component_def PATH_MAX_def split: if_splits)
    then obtain r where "p = slash # r" using assms by (cases p) auto
    then show ?thesis using that by (simp add: after_component_def path_names_simps)
  qed
  show "path_names p = component p # path_names (after_component p)" if "component p \<noteq> []" "length (component p) < PATH_MAX"
  proof -
    have c: "component p = ?c" using that(2) by (simp add: component_def min_def split: if_splits)
    have "drop (length ?c) p = Q" using p by (metis append_eq_conv_conj)
    then have "after_component p = tl Q" using q by (auto simp: after_component_def c)
    then show ?thesis using names that(1) c by simp
  qed
  show "\<exists>c ds. path_names p = c # ds \<and> PATH_MAX \<le> length c" if "length (component p) = PATH_MAX"
  proof -
    have "PATH_MAX \<le> length ?c" using that by (simp add: component_def)
    moreover have "?c \<noteq> []" using calculation by (auto simp: PATH_MAX_def)
    ultimately show ?thesis using names by blast
  qed
qed

lemma rr_loop_norm:
  "proper cs \<Longrightarrow> rr_loop p (render cs) = map_option render (norm_path cs (path_names p))"
proof (induction "length p" arbitrary: p cs rule: less_induct)
  case less
  show ?case
  proof (cases "p = []")
    case True
    then show ?thesis by (simp add: rr_loop.simps path_names_simps)
  next
    case False
    let ?c = "component p" and ?q = "after_component p"
    note F = first_name [OF False]
    note IH = less.hyps [OF after_component_shorter [OF False]]
    have step: "rr_loop p (render cs) =
      (if ?c = [] \<or> ?c = [dot] then rr_loop ?q (render cs)
       else if ?c = [dot, dot] then rr_loop ?q (rr_up (render cs))
       else case rr_push ?c (render cs) of None \<Rightarrow> None | Some t1 \<Rightarrow> rr_loop ?q t1)"
      using False by (subst rr_loop.simps) (simp add: Let_def)
    consider "?c = []" | "?c \<noteq> []" "length ?c < PATH_MAX" | "length ?c = PATH_MAX" using F(5) by linarith
    then show ?thesis
    proof cases
      case 1
      then show ?thesis using step IH [OF less.prems] F(1) by simp
    next
      case 2
      note names = F(2) [OF 2]
      have up: "proper (butlast cs)" by (rule proper_butlast [OF less.prems])
      consider "?c = [dot]" | "?c = [dot, dot]" | "?c \<noteq> [dot]" "?c \<noteq> [dot, dot]" by blast
      then show ?thesis
      proof cases
        case 1
        then show ?thesis using step IH [OF less.prems] names by (simp add: norm_step_def)
      next
        case 2
        then show ?thesis using step IH [OF up] names rr_up_render [OF less.prems] by (simp add: norm_step_def)
      next
        case 3
        then have pr: "proper (cs @ [?c])" using less.prems 2(1) F(4) by (auto simp: proper_def)
        show ?thesis using step 2(1) 3 IH [OF pr] names rr_push_render [OF less.prems, of ?c]
          by (simp add: norm_step_def)
      qed
    next
      case 3
      have "0 < length (render cs)" by simp
      then have no: "PATH_MAX < length (render (cs @ [c]))" if "PATH_MAX \<le> length c" for c
        using that by (simp add: render_snoc)
      have big: "c \<noteq> [dot]" "c \<noteq> [dot, dot]" "c \<noteq> []" if "PATH_MAX \<le> length c" for c using that by (auto simp: PATH_MAX_def)
      obtain c ds where names: "path_names p = c # ds" "PATH_MAX \<le> length c" using F(3) [OF 3] by blast
      have "rr_loop p (render cs) = None"
        using step big [of ?c] 3 rr_push_render [OF less.prems, of ?c] no [of ?c] by simp
      then show ?thesis using names no [of c] big [of c] by (simp add: norm_step_def)
    qed
  qed
qed

lemma norm_path_invariant:
  "proper cs \<Longrightarrow> length (render cs) \<le> PATH_MAX \<Longrightarrow> (\<forall>c \<in> set ds. c \<noteq> [] \<and> slash \<notin> set c) \<Longrightarrow>
   norm_path cs ds = Some es \<Longrightarrow> proper es \<and> length (render es) \<le> PATH_MAX"
proof (induction ds arbitrary: cs)
  case (Cons c ds)
  then obtain cs1 where s: "norm_step cs c = Some cs1" "norm_path cs1 ds = Some es" by (auto split: option.splits)
  show ?case
    using Cons.IH [OF norm_step_proper [OF Cons.prems(1) s(1)] norm_step_fits [OF Cons.prems(2) s(1)] _ s(2)] Cons.prems(3)
    by simp
qed simp

lemma root_proper: "proper []" "length (render []) \<le> PATH_MAX"
  by (simp_all add: proper_def render_def PATH_MAX_def)

lemma start_proper:
  "proper cs \<Longrightarrow> length (render cs) \<le> PATH_MAX \<Longrightarrow> proper (start_stack p cs) \<and> length (render (start_stack p cs)) \<le> PATH_MAX"
  using root_proper by (simp add: start_stack_def)

lemma resolveRelative_norm:
  assumes "proper cs" and "length (render cs) \<le> PATH_MAX"
  shows "resolveRelative (render cs) p = map_option render (norm_path (start_stack p cs) (path_names p))"
proof -
  define a where "a = (p \<noteq> [] \<and> hd p = slash)"
  have pr: "proper (start_stack p cs)" "length (render (start_stack p cs)) \<le> PATH_MAX" using start_proper [OF assms] by simp_all
  have names: "path_names (if a then tl p else p) = path_names p" by (cases p) (auto simp: path_names_simps a_def)
  have start: "(if a then [slash] else render cs) = render (start_stack p cs)" by (simp add: start_stack_def a_def render_def)
  have loop: "rr_loop (if a then tl p else p) (if a then [slash] else render cs) = map_option render (norm_path (start_stack p cs) (path_names p))"
    unfolding start rr_loop_norm [OF pr(1)] names ..
  have fits: "length (render es) \<le> PATH_MAX" if "norm_path (start_stack p cs) (path_names p) = Some es" for es
    using norm_path_invariant [OF pr _ that] path_names_split by blast
  have len: "\<not> (\<not> a \<and> PATH_MAX < length (render cs))" using assms(2) by simp
  show ?thesis
    unfolding resolveRelative_def Let_def a_def [symmetric] loop if_not_P [OF len]
    using fits by (cases "norm_path (start_stack p cs) (path_names p)") (simp_all add: kstrdup_def not_less)
qed

lemma path_names_render: "proper cs \<Longrightarrow> path_names (render cs) = cs"
proof (induction cs)
  case Nil
  then show ?case by (simp add: render_def path_names_simps)
next
  case (Cons c cs)
  then have c: "c \<noteq> []" "slash \<notin> set c" "proper cs" by (auto simp: proper_def)
  show ?case
  proof (cases cs)
    case Nil
    then show ?thesis using c by (simp add: render_def path_names_simps)
  next
    case (Cons d ds)
    then have "render (c # cs) = slash # c @ render cs" by (simp add: render_def)
    moreover obtain r where "render cs = slash # r" using Cons by (simp add: render_def)
    ultimately show ?thesis using c Cons.IH path_names_simps(2,4) by simp
  qed
qed

text \<open>A path that is short enough with all its prefixes is taken over name by name.\<close>

lemma norm_path_self:
  "proper (cs @ ds) \<Longrightarrow> length (render (cs @ ds)) \<le> PATH_MAX \<Longrightarrow> norm_path cs ds = Some (cs @ ds)"
proof (induction ds arbitrary: cs)
  case (Cons d ds)
  have "length (render (cs @ [d])) \<le> length (render (cs @ d # ds))" by (simp add: render_def)
  then have "norm_step cs d = Some (cs @ [d])" using Cons.prems by (simp add: norm_step_def proper_def)
  then show ?case using Cons.IH [of "cs @ [d]"] Cons.prems by simp
qed simp

section \<open>Properties\<close>

text \<open>
  C40: \<^verbatim>\<open>Process::resolveRelative\<close>, which works on one character buffer, gives the same result as walking the names of the
  path on a stack that starts with the working directory or, for an absolute path, with the root: a dot stays, two dots go
  up and stop at the root, empty names are skipped, and the result is null exactly when a prefix gets longer than
  \<^verbatim>\<open>PATH_MAX\<close>. The result is an absolute path without dots, double slashes or a trailing slash, and resolving it again,
  from any directory, gives it back.
\<close>

theorem resolveRelative_normalises:
  assumes "proper cs" and "length (render cs) \<le> PATH_MAX"
  shows "resolveRelative (render cs) p =
      map_option render (norm_path (start_stack p cs) (path_names p))
    \<and> (case resolveRelative (render cs) p of
        None \<Rightarrow> True
      | Some r \<Rightarrow> \<exists>ds. r = render ds \<and> proper ds \<and> length r \<le> PATH_MAX
          \<and> (\<forall>es. proper es \<and> length (render es) \<le> PATH_MAX \<longrightarrow> resolveRelative (render es) r = Some r))"
proof (cases "norm_path (start_stack p cs) (path_names p)")
  case None
  then show ?thesis using resolveRelative_norm [OF assms, of p] by simp
next
  case (Some ds)
  have "proper (start_stack p cs)" "length (render (start_stack p cs)) \<le> PATH_MAX"
    using start_proper [OF assms] by simp_all
  from norm_path_invariant [OF this _ Some] path_names_split
  have ds: "proper ds" "length (render ds) \<le> PATH_MAX" by blast+
  have "resolveRelative (render es) (render ds) = Some (render ds)" if "proper es" "length (render es) \<le> PATH_MAX" for es
  proof -
    have "start_stack (render ds) es = []" by (cases ds) (simp_all add: render_def start_stack_def)
    then show ?thesis
      using resolveRelative_norm [OF that, of "render ds"] norm_path_self [of "[]" ds] ds by (simp add: path_names_render)
  qed
  then show ?thesis using resolveRelative_norm [OF assms, of p] Some ds by auto
qed

text \<open>From \<^verbatim>\<open>/a/b\<close>, the path \<^verbatim>\<open>../c//./d\<close> is \<^verbatim>\<open>/a/c/d\<close>.\<close>

theorem resolveRelative_normalises_witness:
  "resolveRelative [47, 97, 47, 98] [46, 46, 47, 99, 47, 47, 46, 47, 100] = Some [47, 97, 47, 99, 47, 100]"
proof -
  have "proper [[97], [98]]" by (simp add: proper_def)
  then have "resolveRelative (render [[97], [98]]) [46, 46, 47, 99, 47, 47, 46, 47, 100] =
    map_option render (norm_path (start_stack [46, 46, 47, 99, 47, 47, 46, 47, 100] [[97], [98]]) (path_names [46, 46, 47, 99, 47, 47, 46, 47, 100]))"
    using resolveRelative_normalises [of "[[97], [98]]" "[46, 46, 47, 99, 47, 47, 46, 47, 100]"]
    by (simp add: render_def PATH_MAX_def)
  then show ?thesis by (simp add: path_names_def norm_step_def render_def PATH_MAX_def start_stack_def)
qed

end
