(* ===== verification/ExecStack.thy ===== *)
theory ExecStack
  imports Elf Paths
begin

text \<open>
  The stack that a new program starts on (\<^verbatim>\<open>Process::setupInitialStack\<close> in \<^verbatim>\<open>kernel/proc/process/process.cpp\<close>). The stack
  pages are written through the kernel's mapping at \<open>ustack\<close>; the program sees them below \<open>USER_STACK_TOP\<close>. Strings are
  lists of bytes without the terminating zero, a null \<^verbatim>\<open>argv\<close> or \<^verbatim>\<open>envp\<close> is \<open>None\<close>, and \<open>junk\<close> is what the local array of
  environment addresses holds before it is written.
\<close>

definition USER_STACK_SIZE :: u64 where "USER_STACK_SIZE = 4096 * 4"
definition USER_STACK_TOP :: u64 where "USER_STACK_TOP = 0x0000003FFFFFF000"

type_synonym cursor = "u64 \<times> mem"

definition le64 :: "u64 \<Rightarrow> bytes" where
  "le64 v = le32 (ucast v) @ le32 (ucast (drop_bit 32 v))"

definition push_bytes :: "bytes \<Rightarrow> cursor \<Rightarrow> cursor" where
  "push_bytes bs pm = (case pm of (p, m) \<Rightarrow> let p1 = p - of_nat (length bs) in (p1, store_bytes p1 bs m))"

definition push8 :: "u64 \<Rightarrow> cursor \<Rightarrow> cursor" where
  "push8 val = push_bytes (le64 val)"

definition getVirtAddr :: "u64 \<Rightarrow> u64 \<Rightarrow> u64" where
  "getVirtAddr stackTop ptr = USER_STACK_TOP - (stackTop - ptr)"

text \<open>The loops that copy strings run from the last one to the first.\<close>

definition push_strings :: "u64 \<Rightarrow> path list \<Rightarrow> cursor \<Rightarrow> u64 list \<times> cursor" where
  "push_strings stackTop ss pm =
     foldr (\<lambda>s (addrs, pm). let pm1 = push_bytes (s @ [0]) pm in (getVirtAddr stackTop (fst pm1) # addrs, pm1)) ss ([], pm)"

text \<open>The auxiliary vector, in the order in which it is pushed.\<close>

definition auxv_words :: "ElfLoadInfo \<Rightarrow> u64 \<Rightarrow> u64 list" where
  "auxv_words info at_random_addr =
     [0, 0, 0, 23, 0, 14, 0, 13, 0, 12, 0, 11, li_entry info, 9, at_random_addr, 25, 0, 16, 4096, 6,
      li_phnum info, 5, li_phent info, 4, li_phdr_va info, 3]"

text \<open>The random bytes, the alignment and the words below the strings.\<close>

definition place_vectors :: "u64 \<Rightarrow> ElfLoadInfo \<Rightarrow> bytes \<Rightarrow> u64 list \<Rightarrow> u64 list \<Rightarrow> cursor \<Rightarrow> cursor" where
  "place_vectors stackTop elfInfo randomBytes16 argv_addrs envp_addrs pm =
     (let argc = length argv_addrs; envc = length envp_addrs;
          (p2, m2) = push_bytes randomBytes16 (fst pm AND NOT 0xF, snd pm);
          at_random_addr = getVirtAddr stackTop p2;
          wordsCount = 15 * 2 + (envc + 1) + (argc + 1) + 1;
          targetSp = p2 - of_nat (wordsCount * 8);
          p3 = (if targetSp mod 16 \<noteq> 0 then p2 - 8 else p2) in
      fold push8 (auxv_words elfInfo at_random_addr @ [0] @ rev envp_addrs @ [0] @ rev argv_addrs @ [of_nat argc]) (p3, m2))"

definition setupInitialStack ::
  "u64 \<Rightarrow> path \<Rightarrow> ElfLoadInfo \<Rightarrow> bytes \<Rightarrow> path list option \<Rightarrow> path list option \<Rightarrow> (nat \<Rightarrow> u64) \<Rightarrow> mem \<Rightarrow> u64 \<times> mem" where
  "setupInitialStack ustack p elfInfo randomBytes16 argv envp junk m =
     (let stackTop = ustack + USER_STACK_SIZE;
          args = (case argv of None \<Rightarrow> [] | Some xs \<Rightarrow> xs); envs = (case envp of None \<Rightarrow> [] | Some xs \<Rightarrow> xs);
          (argv_addrs, envp_addrs, pm) =
            (if args = [] then
               let pm1 = push_bytes (p @ [0]) (stackTop, m) in ([getVirtAddr stackTop (fst pm1)], map junk [0..<length envs], pm1)
             else
               let (es, pm1) = push_strings stackTop envs (stackTop, m); (as, pm2) = push_strings stackTop args pm1 in (as, es, pm2));
          (p4, m4) = place_vectors stackTop elfInfo randomBytes16 argv_addrs envp_addrs pm in
      (USER_STACK_TOP - (stackTop - p4), m4))"

section \<open>The bytes from a place up to the top\<close>

definition holds_at :: "mem \<Rightarrow> u64 \<Rightarrow> bytes \<Rightarrow> bool" where
  "holds_at m p bs \<longleftrightarrow> (\<forall>k < length bs. m (p + of_nat k) = bs ! k)"

lemma imageD: "holds_at m p bs \<Longrightarrow> k < length bs \<Longrightarrow> m (p + of_nat k) = bs ! k"
  by (simp add: holds_at_def)

lemma image_push:
  assumes "holds_at m p L" and "length bs + length L < 2 ^ 64"
  shows "holds_at (snd (push_bytes bs (p, m))) (p - of_nat (length bs)) (bs @ L)"
proof -
  let ?q = "p - of_nat (length bs)"
  have "store_bytes ?q bs m (?q + of_nat k) = (bs @ L) ! k" if k: "k < length (bs @ L)" for k
  proof (cases "k < length bs")
    case True
    then show ?thesis using store_bytes_at [OF True] assms(2) by (simp add: nth_append)
  next
    case False
    have "?q + of_nat i \<noteq> ?q + of_nat k" if "i < length bs" for i
      using of_nat_u64_inj [of i k] that False k assms(2) by auto
    then have "store_bytes ?q bs m (?q + of_nat k) = m (?q + of_nat k)" by (rule store_bytes_frame)
    moreover have "?q + of_nat k = p + of_nat (k - length bs)" using False by (simp add: of_nat_diff)
    moreover have "m (p + of_nat (k - length bs)) = L ! (k - length bs)" by (rule imageD [OF assms(1)]) (use False k in simp)
    moreover have "(bs @ L) ! k = L ! (k - length bs)" using False by (simp add: nth_append)
    ultimately show ?thesis by metis
  qed
  then show ?thesis by (simp add: holds_at_def push_bytes_def Let_def)
qed

lemma image_pad:
  assumes "holds_at m p L" and "d + length L < 2 ^ 64"
  shows "\<exists>old. length old = d \<and> holds_at m (p - of_nat d) (old @ L)"
proof (intro exI conjI)
  let ?old = "map (\<lambda>k. m (p - of_nat d + of_nat k)) [0..<d]"
  show "length ?old = d" by simp
  have "m (p - of_nat d + of_nat k) = (?old @ L) ! k" if "k < d + length L" for k
  proof (cases "k < d")
    case False
    have "p - of_nat d + of_nat k = p + of_nat (k - d)" using False by (simp add: of_nat_diff)
    moreover have "m (p + of_nat (k - d)) = L ! (k - d)" by (rule imageD [OF assms(1)]) (use False that in simp)
    moreover have "(?old @ L) ! k = L ! (k - d)" using False by (simp add: nth_append)
    ultimately show ?thesis by metis
  qed (simp add: nth_append)
  then show "holds_at m (p - of_nat d) (?old @ L)" by (simp add: holds_at_def)
qed

lemma image_drop: "holds_at m p (A @ B) \<Longrightarrow> holds_at m (p + of_nat (length A)) B"
  unfolding holds_at_def
proof (intro allI impI)
  fix k assume a: "\<forall>k < length (A @ B). m (p + of_nat k) = (A @ B) ! k" and "k < length B"
  then show "m (p + of_nat (length A) + of_nat k) = B ! k"
    using a [rule_format, of "length A + k"] by (simp add: add.assoc)
qed

lemma image_cstr: "holds_at m p (s @ 0 # R) \<Longrightarrow> 0 \<notin> set s \<Longrightarrow> cstr m p s"
proof (induction s arbitrary: p)
  case Nil
  then have "m (p + of_nat 0) = (0 # R) ! 0" unfolding holds_at_def by (metis append_Nil length_Cons zero_less_Suc)
  then show ?case by simp
next
  case (Cons c s)
  have "m (p + of_nat 0) = (c # s @ 0 # R) ! 0" using Cons.prems(1) unfolding holds_at_def by (metis append_Cons length_Cons zero_less_Suc)
  then have "m p = c" by simp
  moreover have "holds_at m (p + 1) (s @ 0 # R)" using image_drop [of m p "[c]"] Cons.prems(1) by simp
  ultimately show ?case using Cons by simp
qed

section \<open>Reading words\<close>

definition ld64 :: "mem \<Rightarrow> u64 \<Rightarrow> u64" where
  "ld64 m a = rd64 (map (\<lambda>k. m (a + of_nat k)) [0..<8]) 0"

lemma length_le64 [simp]: "length (le64 v) = 8"
  by (simp add: le64_def)

lemma rd64_le64: "rd64 (le64 v) 0 = v"
proof -
  have a: "rd32 (le32 w @ x) 0 = w" for w x
  proof -
    have "rd32 (le32 w @ x) 0 = rd32 (le32 w) 0" by (simp add: rd32_def le32_def)
    then show ?thesis using bytes_of_u32 [of w] by (simp add: rd32_def le32_def)
  qed
  have "rd32 (le32 w @ le32 u) 4 = u" for w u
    using bytes_of_u32 [of u] by (simp add: rd32_def le32_def)
  then have "rd64 (le64 v) 0 = ucast (ucast v :: u32) OR push_bit 32 (ucast (ucast (drop_bit 32 v) :: u32))"
    using a by (simp add: rd64_def le64_def)
  also have "\<dots> = v" by (rule bit_word_eqI) (auto simp: bit_simps)
  finally show ?thesis .
qed

lemma image_word:
  assumes "holds_at m p (le64 v @ R)"
  shows "ld64 m p = v"
proof -
  have "map (\<lambda>k. m (p + of_nat k)) [0..<8] = le64 v"
    using assms by (intro nth_equalityI) (auto simp: holds_at_def nth_append)
  then show ?thesis by (simp add: ld64_def rd64_le64)
qed

lemma image_words:
  assumes "holds_at m p (concat (map le64 W) @ R)" and "i < length W"
  shows "ld64 m (p + of_nat (8 * i)) = W ! i"
proof -
  have "concat (map le64 W) = concat (map le64 (take i W)) @ le64 (W ! i) @ concat (map le64 (drop (Suc i) W))"
    using assms(2) by (metis append.assoc concat.simps(2) concat_append id_take_nth_drop list.simps(9) map_append)
  moreover have "length (concat (map le64 (take i W))) = 8 * i"
    using assms(2) by (simp add: length_concat comp_def sum_list_triv)
  ultimately show ?thesis using assms(1) image_drop image_word by (metis append.assoc)
qed

section \<open>What the pushes leave\<close>

text \<open>A cursor behind pushes that left \<open>L\<close> between it and the top.\<close>

definition stacked :: "u64 \<Rightarrow> bytes \<Rightarrow> cursor \<Rightarrow> bool" where
  "stacked tp L pm \<longleftrightarrow> fst pm = tp - of_nat (length L) \<and> holds_at (snd pm) (fst pm) L"

lemma minus_of_nat: "(x :: u64) - of_nat a - of_nat b = x - of_nat (b + a)"
  by (simp add: algebra_simps)

lemma stacked_push:
  assumes "stacked tp L pm" and "length bs + length L < 2 ^ 64"
  shows "stacked tp (bs @ L) (push_bytes bs pm)"
proof -
  obtain p m where pm: "pm = (p, m)" by force
  have p: "p = tp - of_nat (length L)" "holds_at m p L" using assms(1) by (auto simp: stacked_def pm)
  have "p - of_nat (length bs) = tp - of_nat (length (bs @ L))" unfolding p(1) minus_of_nat by simp
  then show ?thesis using image_push [OF p(2) assms(2)] by (simp add: stacked_def pm push_bytes_def Let_def)
qed

lemma stacked_pad:
  assumes "stacked tp L (p, m)" and "d + length L < 2 ^ 64"
  shows "\<exists>old. length old = d \<and> stacked tp (old @ L) (p - of_nat d, m)"
proof -
  have p: "p = tp - of_nat (length L)" "holds_at m p L" using assms(1) by (auto simp: stacked_def)
  obtain old where old: "length old = d" "holds_at m (p - of_nat d) (old @ L)" using image_pad [OF p(2) assms(2)] by blast
  have "p - of_nat d = tp - of_nat (length (old @ L))" unfolding p(1) minus_of_nat by (simp add: old(1))
  then show ?thesis using old by (auto simp: stacked_def)
qed

lemma stacked_virt: "stacked tp L pm \<Longrightarrow> getVirtAddr tp (fst pm) = USER_STACK_TOP - of_nat (length L)"
  by (simp add: stacked_def getVirtAddr_def)

definition cz :: "path \<Rightarrow> bytes" where "cz s = s @ [0]"

lemma stacked_strings:
  assumes "stacked tp L pm" and "length (concat (map cz ss)) + length L < 2 ^ 64"
  shows "fst (push_strings tp ss pm) = map (\<lambda>i. USER_STACK_TOP - of_nat (length (concat (map cz (drop i ss)) @ L))) [0..<length ss]
    \<and> stacked tp (concat (map cz ss) @ L) (snd (push_strings tp ss pm))"
  using assms(2)
proof (induction ss)
  case Nil
  then show ?case using assms(1) by (simp add: push_strings_def)
next
  case (Cons s ss)
  let ?r = "push_strings tp ss pm" and ?R = "concat (map cz ss) @ L"
  have I: "fst ?r = map (\<lambda>i. USER_STACK_TOP - of_nat (length (concat (map cz (drop i ss)) @ L))) [0..<length ss]" "stacked tp ?R (snd ?r)"
    using Cons by simp_all
  have st: "stacked tp (cz s @ ?R) (push_bytes (cz s) (snd ?r))" using stacked_push [OF I(2), of "cz s"] Cons.prems by simp
  have "push_strings tp (s # ss) pm = (getVirtAddr tp (fst (push_bytes (cz s) (snd ?r))) # fst ?r, push_bytes (cz s) (snd ?r))"
    by (simp add: push_strings_def cz_def Let_def split: prod.split)
  then show ?case using I(1) st stacked_virt [OF st] by (simp add: map_upt_Suc del: upt_Suc)
qed

lemma stacked_words:
  "stacked tp L pm \<Longrightarrow> 8 * length ws + length L < 2 ^ 64 \<Longrightarrow> stacked tp (concat (map le64 (rev ws)) @ L) (fold push8 ws pm)"
proof (induction ws arbitrary: pm L)
  case (Cons w ws)
  have "stacked tp (le64 w @ L) (push8 w pm)" using stacked_push [OF Cons.prems(1), of "le64 w"] Cons.prems(2) by (simp add: push8_def)
  from Cons.IH [OF this] Cons.prems(2) show ?case by simp
qed simp

lemma below_top:
  fixes tp :: u64
  assumes "n \<le> unat tp"
  shows "unat (tp - of_nat n) = unat tp - n"
proof -
  have "n < 2 ^ 64" using assms unsigned_less [of tp, where ?'a = nat] by simp
  then have "unat (of_nat n :: u64) = n" by (simp add: unat_of_nat take_bit_nat_eq_self)
  then show ?thesis using assms by (simp add: unat_sub word_le_nat_alt)
qed

lemma pad16: "n \<le> 16 * t \<Longrightarrow> 16 dvd (16 * t - n) mod 16 + n" for n t :: nat
proof -
  assume "n \<le> 16 * t"
  then have "(16 * t - n) mod 16 + n = 16 * t - (16 * t - n) div 16 * 16" using div_mult_mod_eq [of "16 * t - n" 16] by linarith
  then show ?thesis by simp
qed

lemma stacked_align:
  assumes st: "stacked tp L (p, m)" and T: "16 dvd unat tp" "length L + 15 \<le> unat tp"
  shows "\<exists>pad. stacked tp (pad @ L) (p AND NOT 0xF, m) \<and> length pad \<le> 15 \<and> 16 dvd length (pad @ L)"
proof -
  let ?n = "length L" and ?d = "(unat tp - length L) mod 16"
  have d: "?d \<le> 15" using mod_less_divisor [of 16 "unat tp - length L"] by linarith
  have "(15 :: u64) = mask 4" by (simp add: mask_eq_exp_minus_1)
  then have "unat (p AND NOT 0xF) = (unat tp - ?n) div 16 * 16"
    using and_not_mask_nat [of 4 p] below_top [of ?n tp] st T(2) by (simp add: stacked_def)
  also have "\<dots> = unat tp - ?n - ?d" by (metis minus_mod_eq_div_mult)
  also have "\<dots> = unat (p - of_nat ?d)"
  proof -
    have "p - of_nat ?d = tp - of_nat (?d + ?n)" using st minus_of_nat [of tp ?n ?d] by (simp only: stacked_def fst_conv)
    then show ?thesis using below_top [of "?d + ?n" tp] T(2) d by (simp only:)
  qed
  finally have p: "p AND NOT 0xF = p - of_nat ?d" by (simp add: word_unat_eq_iff)
  have "?d + ?n < 2 ^ 64" using d T(2) unsigned_less [of tp, where ?'a = nat] by simp
  then obtain pad where pad: "length pad = ?d" "stacked tp (pad @ L) (p - of_nat ?d, m)" using stacked_pad [OF st] by blast
  obtain t where "unat tp = 16 * t" using T(1) by blast
  then have "16 dvd ?d + ?n" using T(2) pad16 [of ?n t] by simp
  then show ?thesis using pad d p by auto
qed

lemma even16: "c * 8 + 16 * u \<le> 16 * t \<Longrightarrow> (16 * t - (c * 8 + 16 * u)) mod 16 = 0 \<longleftrightarrow> even c" for c t u :: nat
proof (cases "even c")
  case True
  then obtain k where k: "c = 2 * k" by (rule evenE)
  assume "c * 8 + 16 * u \<le> 16 * t"
  then have "16 * t - (c * 8 + 16 * u) = 16 * (t - (k + u))" using k by simp
  then show ?thesis using True by simp
next
  case False
  then obtain k where k: "c = 2 * k + 1" by (rule oddE)
  assume "c * 8 + 16 * u \<le> 16 * t"
  then have "16 * t - (c * 8 + 16 * u) = 8 + 16 * (t - (k + u + 1))" using k by simp
  then have "(16 * t - (c * 8 + 16 * u)) mod 16 = 8" by simp
  then show ?thesis using False by simp
qed

lemma stacked_target:
  assumes st: "stacked tp L (p, m)" and T: "16 dvd unat tp" "16 dvd length L" "length L + 8 * c \<le> unat tp"
  shows "(p - of_nat (c * 8)) mod 16 \<noteq> 0 \<longleftrightarrow> odd c"
proof -
  have "p - of_nat (c * 8) = tp - of_nat (c * 8 + length L)" using st minus_of_nat [of tp "length L" "c * 8"] by (simp only: stacked_def fst_conv)
  moreover have "unat (tp - of_nat (c * 8 + length L)) = unat tp - (c * 8 + length L)" by (rule below_top) (use T(3) in simp)
  ultimately have "unat (p - of_nat (c * 8)) = unat tp - (c * 8 + length L)" by (simp only:)
  moreover have "unat (x mod 16) = unat x mod 16" for x :: u64 by (simp add: unat_mod_distrib)
  moreover obtain t u where "unat tp = 16 * t" "length L = 16 * u" using T(1,2) by blast
  ultimately have "unat ((p - of_nat (c * 8)) mod 16) = 0 \<longleftrightarrow> even c" using T(3) even16 [of c u t] by simp
  then show ?thesis by (simp add: unat_eq_zero)
qed

section \<open>The finished stack\<close>

definition string_addrs :: "path list \<Rightarrow> bytes \<Rightarrow> u64 list" where
  "string_addrs ss L = map (\<lambda>i. USER_STACK_TOP - of_nat (length (concat (map cz (drop i ss)) @ L))) [0..<length ss]"

definition stack_words :: "ElfLoadInfo \<Rightarrow> u64 \<Rightarrow> u64 list \<Rightarrow> u64 list \<Rightarrow> u64 list" where
  "stack_words info at_random as es = of_nat (length as) # as @ 0 # es @ 0 # rev (auxv_words info at_random)"

lemma length_stack_words: "length (stack_words info r as es) = 29 + length as + length es"
  by (simp add: stack_words_def auxv_words_def)

lemma place_vectors_stacked:
  assumes st: "stacked tp L pm" and rnd: "length rnd = 16" and T: "16 dvd unat tp"
    and fits: "length L + 8 * (length as + length es) + 303 \<le> unat tp"
  shows "\<exists>pad1 pad2. let R = rnd @ pad2 @ L; B = concat (map le64 (stack_words info (USER_STACK_TOP - of_nat (length R)) as es)) @ pad1 @ R in
    stacked tp B (place_vectors tp info rnd as es pm) \<and> 16 dvd length B \<and> length pad1 \<le> 8 \<and> length pad2 \<le> 15"
proof -
  have U: "unat tp < 2 ^ 64" using unsigned_less [of tp, where ?'a = nat] by simp
  have "stacked tp L (fst pm, snd pm)" using st by simp
  then obtain pad2 where P2: "stacked tp (pad2 @ L) (fst pm AND NOT 0xF, snd pm)" "length pad2 \<le> 15" "16 dvd length (pad2 @ L)"
    using stacked_align [OF _ T] fits by fastforce
  let ?R = "rnd @ pad2 @ L"
  obtain p2 m2 where pm2: "push_bytes rnd (fst pm AND NOT 0xF, snd pm) = (p2, m2)" by force
  have R: "stacked tp ?R (p2, m2)" using stacked_push [OF P2(1), of rnd] P2(2) rnd fits U unfolding pm2 by simp
  have dR: "16 dvd length ?R" using P2(3) rnd by simp
  let ?c = "15 * 2 + (length es + 1) + (length as + 1) + 1"
  have tgt: "(p2 - of_nat (?c * 8)) mod 16 \<noteq> 0 \<longleftrightarrow> odd ?c"
    by (rule stacked_target [OF R T dR]) (use P2(2) rnd fits in simp)
  define e where "e = (if odd ?c then 8 else 0 :: nat)"
  have e8: "e \<le> 8" by (simp add: e_def)
  then have "e + length ?R < 2 ^ 64" using P2(2) rnd fits U by simp
  then obtain pad1 where P1: "length pad1 = e" "stacked tp (pad1 @ ?R) (p2 - of_nat e, m2)"
    using stacked_pad [OF R, of e] by blast
  have p3: "(if (p2 - of_nat (?c * 8)) mod 16 \<noteq> 0 then p2 - 8 else p2) = p2 - of_nat e" unfolding tgt e_def by simp
  let ?r = "USER_STACK_TOP - of_nat (length ?R)"
  let ?ws = "auxv_words info ?r @ [0] @ rev es @ [0] @ rev as @ [of_nat (length as)]"
  have W: "rev ?ws = stack_words info ?r as es" by (simp add: stack_words_def)
  have lw: "length ?ws = 29 + length as + length es" by (simp add: auxv_words_def)
  have "8 * length ?ws + length (pad1 @ ?R) < 2 ^ 64" unfolding lw using P1(1) e8 P2(2) rnd fits U by simp
  then have B: "stacked tp (concat (map le64 (stack_words info ?r as es)) @ pad1 @ ?R) (fold push8 ?ws (p2 - of_nat e, m2))"
    using stacked_words [OF P1(2)] unfolding W [symmetric] by blast
  have "place_vectors tp info rnd as es pm = fold push8 ?ws (p2 - of_nat e, m2)"
    using stacked_virt [OF R] pm2 p3 by (simp add: place_vectors_def Let_def)
  moreover have "16 dvd length (concat (map le64 (stack_words info ?r as es)) @ pad1 @ ?R)"
  proof -
    obtain u where "length ?R = 16 * u" using dR by blast
    moreover have "length (concat (map le64 (stack_words info ?r as es)) @ pad1 @ ?R) = 8 * (29 + length as + length es) + e + length ?R"
      using P1(1) by (simp add: length_concat comp_def sum_list_triv length_stack_words)
    moreover have "16 dvd 8 * (29 + a + b) + (if odd (15 * 2 + (b + 1) + (a + 1) + 1) then 8 else 0) + 16 * u" for a b u :: nat
      by presburger
    ultimately show ?thesis unfolding e_def by (simp only:)
  qed
  ultimately show ?thesis using B P1(1) e8 P2(2) by (intro exI [of _ pad1] exI [of _ pad2]) (simp add: Let_def)
qed

lemma setup_stacked:
  assumes T: "16 dvd unat (ustack + USER_STACK_SIZE)" and args: "args \<noteq> []" and rnd: "length rnd = 16"
    and fits: "length (concat (map cz (args @ envs))) + 8 * (length args + length envs) + 303 \<le> unat (ustack + USER_STACK_SIZE)"
  shows "\<exists>pad1 pad2. let R = rnd @ pad2 @ concat (map cz args) @ concat (map cz envs);
      B = concat (map le64 (stack_words info (USER_STACK_TOP - of_nat (length R))
            (string_addrs args (concat (map cz envs))) (string_addrs envs []))) @ pad1 @ R in
    \<exists>m'. setupInitialStack ustack p info rnd (Some args) (Some envs) junk m = (USER_STACK_TOP - of_nat (length B), m')
      \<and> holds_at m' (ustack + USER_STACK_SIZE - of_nat (length B)) B \<and> 16 dvd length B \<and> length pad1 \<le> 8 \<and> length pad2 \<le> 15"
proof -
  let ?tp = "ustack + USER_STACK_SIZE" and ?E = "concat (map cz envs)" and ?A = "concat (map cz args)"
  have U: "unat ?tp < 2 ^ 64" using unsigned_less [of ?tp, where ?'a = nat] by simp
  have F: "length ?A + length ?E + 8 * (length args + length envs) + 303 \<le> unat ?tp" using fits by simp
  obtain es pm1 where pe: "push_strings ?tp envs (?tp, m) = (es, pm1)" by (rule prod.exhaust)
  have "stacked ?tp [] (?tp, m)" by (simp add: stacked_def holds_at_def)
  from stacked_strings [OF this, of envs] F U
  have E: "es = string_addrs envs []" "stacked ?tp ?E pm1" by (simp_all add: string_addrs_def pe)
  obtain as pm2 where pa: "push_strings ?tp args pm1 = (as, pm2)" by (rule prod.exhaust)
  have A: "as = string_addrs args ?E" "stacked ?tp (?A @ ?E) pm2"
    using stacked_strings [OF E(2), of args] F U by (simp_all add: string_addrs_def pa)
  have la: "length as = length args" "length es = length envs" by (simp_all add: A(1) E(1) string_addrs_def)
  have "length (?A @ ?E) + 8 * (length as + length es) + 303 \<le> unat ?tp" using F by (simp add: la)
  from place_vectors_stacked [OF A(2) rnd T this, of info]
  obtain pad1 pad2 where P: "let R = rnd @ pad2 @ ?A @ ?E; B = concat (map le64 (stack_words info (USER_STACK_TOP - of_nat (length R)) as es)) @ pad1 @ R in
    stacked ?tp B (place_vectors ?tp info rnd as es pm2) \<and> 16 dvd length B \<and> length pad1 \<le> 8 \<and> length pad2 \<le> 15" by blast
  define B where "B = concat (map le64 (stack_words info (USER_STACK_TOP - of_nat (length (rnd @ pad2 @ ?A @ ?E))) as es)) @ pad1 @ rnd @ pad2 @ ?A @ ?E"
  obtain p4 m4 where pv: "place_vectors ?tp info rnd as es pm2 = (p4, m4)" by (rule prod.exhaust)
  have Q: "p4 = ?tp - of_nat (length B)" "holds_at m4 p4 B" "16 dvd length B" "length pad1 \<le> 8" "length pad2 \<le> 15"
    using P [unfolded Let_def, folded B_def] unfolding pv stacked_def fst_conv snd_conv by blast+
  have "setupInitialStack ustack p info rnd (Some args) (Some envs) junk m = (USER_STACK_TOP - (?tp - p4), m4)"
    using args pe pa pv by (simp add: setupInitialStack_def Let_def)
  also have "?tp - p4 = of_nat (length B)" by (simp add: Q(1))
  finally have "\<exists>m'. setupInitialStack ustack p info rnd (Some args) (Some envs) junk m = (USER_STACK_TOP - of_nat (length B), m')
      \<and> holds_at m' (?tp - of_nat (length B)) B \<and> 16 dvd length B \<and> length pad1 \<le> 8 \<and> length pad2 \<le> 15"
    using Q by blast
  then show ?thesis unfolding Let_def A(1) [symmetric] E(1) [symmetric] B_def by blast
qed

section \<open>What the program finds\<close>

text \<open>The stack pages at their user addresses.\<close>

definition stack_view :: "u64 \<Rightarrow> mem \<Rightarrow> mem" where
  "stack_view ustack m va = m (ustack + (va - (USER_STACK_TOP - USER_STACK_SIZE)))"

lemma holds_view:
  "holds_at m (ustack + USER_STACK_SIZE - of_nat n) B \<Longrightarrow> holds_at (stack_view ustack m) (USER_STACK_TOP - of_nat n) B"
  by (simp add: holds_at_def stack_view_def algebra_simps)

lemma holds_suffix:
  assumes "holds_at m (t - of_nat (length (X @ Y))) (X @ Y)"
  shows "holds_at m (t - of_nat (length Y)) Y"
  using image_drop [OF assms] by (simp add: algebra_simps)

lemma string_found:
  assumes "holds_at v (USER_STACK_TOP - of_nat (length (X @ concat (map cz ss) @ L))) (X @ concat (map cz ss) @ L)"
    and i: "i < length ss" and z: "0 \<notin> set (ss ! i)"
  shows "cstr v (string_addrs ss L ! i) (ss ! i)"
proof -
  let ?Y = "concat (map cz (drop i ss)) @ L"
  have "concat (map cz ss) = concat (map cz (take i ss)) @ concat (map cz (drop i ss))"
    by (metis append_take_drop_id concat_append map_append)
  then have "X @ concat (map cz ss) @ L = (X @ concat (map cz (take i ss))) @ ?Y" by simp
  then have "holds_at v (USER_STACK_TOP - of_nat (length ?Y)) ?Y" using holds_suffix assms(1) by metis
  moreover have "?Y = ss ! i @ 0 # (concat (map cz (drop (Suc i) ss)) @ L)"
    using i by (simp add: cz_def flip: Cons_nth_drop_Suc)
  moreover have "string_addrs ss L ! i = USER_STACK_TOP - of_nat (length ?Y)" using i by (simp add: string_addrs_def)
  ultimately show ?thesis using image_cstr [OF _ z] by metis
qed

lemma stack_words_nth:
  "stack_words info r as es ! 0 = of_nat (length as)"
  "i < length as \<Longrightarrow> stack_words info r as es ! (1 + i) = as ! i"
  "stack_words info r as es ! (1 + length as) = 0"
  "i < length es \<Longrightarrow> stack_words info r as es ! (2 + length as + i) = es ! i"
  "stack_words info r as es ! (2 + length as + length es) = 0"
  "stack_words info r as es ! (3 + length as + length es + i) = rev (auxv_words info r) ! i"
proof -
  let ?W = "stack_words info r as es"
  have W: "?W = (of_nat (length as) # as) @ (0 # es) @ 0 # rev (auxv_words info r)" by (simp add: stack_words_def)
  show "?W ! 0 = of_nat (length as)" "i < length as \<Longrightarrow> ?W ! (1 + i) = as ! i" "?W ! (1 + length as) = 0"
    by (simp_all add: stack_words_def nth_append)
  have n: "2 + length as + i = length (of_nat (length as) # as) + (1 + i)"
    "3 + length as + length es + i = length ((of_nat (length as) # as) @ (0 # es)) + (1 + i)"
    "2 + length as + length es = length ((of_nat (length as) # as) @ (0 # es)) + 0" by simp_all
  show "i < length es \<Longrightarrow> ?W ! (2 + length as + i) = es ! i" unfolding W n(1) nth_append_length_plus by (simp add: nth_append)
  show "?W ! (2 + length as + length es) = 0" unfolding n(3) W append_assoc [symmetric] nth_append_length_plus by simp
  show "?W ! (3 + length as + length es + i) = rev (auxv_words info r) ! i"
    unfolding n(2) W append_assoc [symmetric] nth_append_length_plus by simp
qed

text \<open>What a stack image holds, read through words and strings.\<close>

lemma finished_stack:
  fixes args envs rnd info r pad1 pad2
  defines "E \<equiv> concat (map cz envs)" and "W \<equiv> stack_words info r (string_addrs args (concat (map cz envs))) (string_addrs envs [])"
  defines "R \<equiv> rnd @ pad2 @ concat (map cz args) @ E" and "B \<equiv> concat (map le64 W) @ pad1 @ rnd @ pad2 @ concat (map cz args) @ E"
  assumes sp: "sp = USER_STACK_TOP - of_nat (length B)" and h: "holds_at v sp B" and r: "r = USER_STACK_TOP - of_nat (length R)"
    and strings: "\<And>s. s \<in> set (args @ envs) \<Longrightarrow> 0 \<notin> set s"
  shows "ld64 v sp = of_nat (length args)" "i < length args \<Longrightarrow> cstr v (ld64 v (sp + of_nat (8 * (1 + i)))) (args ! i)"
    "ld64 v (sp + of_nat (8 * (1 + length args))) = 0"
    "i < length envs \<Longrightarrow> cstr v (ld64 v (sp + of_nat (8 * (2 + length args + i)))) (envs ! i)"
    "ld64 v (sp + of_nat (8 * (2 + length args + length envs))) = 0"
    "i < 26 \<Longrightarrow> ld64 v (sp + of_nat (8 * (3 + length args + length envs + i))) = rev (auxv_words info r) ! i"
    "i < length rnd \<Longrightarrow> v (r + of_nat i) = rnd ! i"
proof -
  let ?as = "string_addrs args E" and ?es = "string_addrs envs []"
  have la: "length ?as = length args" "length ?es = length envs" by (simp_all add: string_addrs_def)
  have W: "W = stack_words info r ?as ?es" by (simp add: W_def E_def)
  have lW: "length W = 29 + length args + length envs" unfolding W length_stack_words la ..
  have word: "ld64 v (sp + of_nat (8 * j)) = W ! j" if "j < length W" for j using image_words [of v sp W _ j] h that by (simp add: B_def)
  note N = stack_words_nth [where info = info and r = r and as = ?as and es = ?es, unfolded la, folded W]
  show "ld64 v sp = of_nat (length args)" using word [of 0] N(1) by (simp add: lW)
  show "ld64 v (sp + of_nat (8 * (1 + length args))) = 0" "ld64 v (sp + of_nat (8 * (2 + length args + length envs))) = 0"
    using word [of "1 + length args"] word [of "2 + length args + length envs"] N(3,5) by (simp_all only: lW)
  show "i < 26 \<Longrightarrow> ld64 v (sp + of_nat (8 * (3 + length args + length envs + i))) = rev (auxv_words info r) ! i"
    using word [of "3 + length args + length envs + i"] N(6) [of i] by (simp only: lW)
  have B1: "B = (concat (map le64 W) @ pad1 @ rnd @ pad2) @ concat (map cz args) @ E"
    and B2: "B = (concat (map le64 W) @ pad1 @ rnd @ pad2 @ concat (map cz args)) @ concat (map cz envs) @ []"
    and B3: "B = (concat (map le64 W) @ pad1) @ R" by (simp_all add: B_def E_def R_def)
  show "cstr v (ld64 v (sp + of_nat (8 * (1 + i)))) (args ! i)" if i: "i < length args"
    using string_found [OF h [unfolded sp B1] i] strings i word [of "1 + i"] N(2) [OF i] by (simp only: lW) simp
  show "cstr v (ld64 v (sp + of_nat (8 * (2 + length args + i)))) (envs ! i)" if i: "i < length envs"
    using string_found [OF h [unfolded sp B2] i] strings i word [of "2 + length args + i"] N(4) [OF i] by (simp only: lW) simp
  have "holds_at v r R" using holds_suffix [OF h [unfolded sp B3]] by (simp only: r)
  then show "i < length rnd \<Longrightarrow> v (r + of_nat i) = rnd ! i" using imageD [of v r R i] by (simp add: R_def nth_append)
qed

text \<open>
  C28: A program finds its arguments. Behind \<^verbatim>\<open>setupInitialStack\<close> the initial stack pointer is a multiple of 16 inside the
  stack and points to \<^verbatim>\<open>argc\<close>; then come \<^verbatim>\<open>argc\<close> addresses of zero-terminated strings, which are the arguments in their
  order, a zero, the addresses of the environment strings, a zero, and the auxiliary vector with the program headers, the
  entry point and the address of the random bytes. This holds as long as everything fits into the stack; the code does not
  check that it does.
\<close>

theorem initial_stack_layout:
  assumes ustack: "page_aligned ustack" "unat ustack + 16384 < 2 ^ 64"
    and args: "args \<noteq> []" and rnd: "length rnd = 16" and strings: "\<And>s. s \<in> set (args @ envs) \<Longrightarrow> 0 \<notin> set s"
    and fits: "length (concat (map cz (args @ envs))) + 8 * (length args + length envs) + 303 \<le> 16384"
    and run: "setupInitialStack ustack p info rnd (Some args) (Some envs) junk m = (sp, m')"
  defines "v \<equiv> stack_view ustack m'" and "word \<equiv> (\<lambda>i. ld64 (stack_view ustack m') (sp + of_nat (8 * i)))"
  shows "unat sp mod 16 = 0 \<and> unat USER_STACK_TOP - 16384 \<le> unat sp \<and> unat sp < unat USER_STACK_TOP
    \<and> word 0 = of_nat (length args) \<and> (\<forall>i < length args. cstr v (word (1 + i)) (args ! i)) \<and> word (1 + length args) = 0
    \<and> (\<forall>i < length envs. cstr v (word (2 + length args + i)) (envs ! i)) \<and> word (2 + length args + length envs) = 0
    \<and> (\<exists>r. (\<forall>i < 26. word (3 + length args + length envs + i) = rev (auxv_words info r) ! i) \<and> (\<forall>k < 16. v (r + of_nat k) = rnd ! k))"
proof -
  let ?E = "concat (map cz envs)" and ?A = "concat (map cz args)" and ?as = "string_addrs args (concat (map cz envs))" and ?es = "string_addrs envs []"
  have tp: "unat (ustack + USER_STACK_SIZE) = unat ustack + 16384" using ustack(2) by (simp add: USER_STACK_SIZE_def unat_word_ariths)
  have "4096 dvd unat ustack" using ustack(1) page_aligned_iff by blast
  then have T: "16 dvd unat (ustack + USER_STACK_SIZE)" unfolding tp using dvd_trans [of 16 4096 "unat ustack"] by (intro dvd_add) simp_all
  obtain pad1 pad2 where S: "let R = rnd @ pad2 @ ?A @ ?E; B = concat (map le64 (stack_words info (USER_STACK_TOP - of_nat (length R)) ?as ?es)) @ pad1 @ R in
      \<exists>m'. setupInitialStack ustack p info rnd (Some args) (Some envs) junk m = (USER_STACK_TOP - of_nat (length B), m')
      \<and> holds_at m' (ustack + USER_STACK_SIZE - of_nat (length B)) B \<and> 16 dvd length B \<and> length pad1 \<le> 8 \<and> length pad2 \<le> 15"
    using setup_stacked [OF T args rnd, of envs info p junk m] fits unfolding tp by fastforce
  define r where "r = USER_STACK_TOP - of_nat (length (rnd @ pad2 @ ?A @ ?E))"
  define W where "W = stack_words info r ?as ?es"
  define B where "B = concat (map le64 W) @ pad1 @ rnd @ pad2 @ ?A @ ?E"
  obtain m1 where B: "setupInitialStack ustack p info rnd (Some args) (Some envs) junk m = (USER_STACK_TOP - of_nat (length B), m1)"
    "holds_at m1 (ustack + USER_STACK_SIZE - of_nat (length B)) B" "16 dvd length B" "length pad1 \<le> 8" "length pad2 \<le> 15"
    using S [unfolded Let_def, folded r_def, folded W_def, folded B_def] by blast
  have sp: "sp = USER_STACK_TOP - of_nat (length B)" "m' = m1" using run B(1) by simp_all
  have h: "holds_at v sp B" using holds_view [OF B(2)] by (simp add: v_def sp)
  have lB: "length B = 8 * (29 + length args + length envs) + length pad1 + 16 + length pad2 + (length ?A + length ?E)"
    using rnd by (simp add: B_def W_def length_concat comp_def sum_list_triv length_stack_words string_addrs_def)
  have lB': "length B \<le> 16384" "0 < length B" using lB B(4,5) fits by simp_all
  have top: "unat USER_STACK_TOP = 0x3FFFFFF000" by (simp add: USER_STACK_TOP_def)
  have usp: "unat sp = 0x3FFFFFF000 - length B" using below_top [of "length B" USER_STACK_TOP] lB' top by (simp add: sp)
  obtain t where "length B = 16 * t" using B(3) by blast
  then have "unat sp = 16 * (0x3FFFFFF00 - t)" using usp by simp
  then have "unat sp mod 16 = 0" by simp
  moreover note finished_stack [OF sp(1) [unfolded B_def W_def] h [unfolded B_def W_def] r_def strings]
  ultimately show ?thesis using usp lB' top rnd by (auto simp: word_def v_def intro!: exI [of _ r])
qed

theorem initial_stack_layout_witness:
  "\<exists>sp m'. setupInitialStack 0x100000 [47] \<lparr>li_entry = 0x10000, li_phdr_va = 0x10040, li_phent = 56, li_phnum = 2\<rparr> (replicate 16 0)
       (Some [[97], [98]]) (Some [[99, 61]]) (\<lambda>_. 0) (\<lambda>_. 0) = (sp, m')
     \<and> unat sp mod 16 = 0 \<and> ld64 (stack_view 0x100000 m') sp = 2
     \<and> cstr (stack_view 0x100000 m') (ld64 (stack_view 0x100000 m') (sp + 16)) [98]
     \<and> cstr (stack_view 0x100000 m') (ld64 (stack_view 0x100000 m') (sp + 32)) [99, 61]"
proof -
  let ?info = "\<lparr>li_entry = 0x10000, li_phdr_va = 0x10040, li_phent = 56, li_phnum = 2\<rparr> :: ElfLoadInfo"
  obtain sp m' where run: "setupInitialStack 0x100000 [47] ?info (replicate 16 0) (Some [[97], [98]]) (Some [[99, 61]]) (\<lambda>_. 0) (\<lambda>_. 0) = (sp, m')"
    by (rule prod.exhaust)
  have P: "page_aligned 0x100000" "unat (0x100000 :: u64) + 16384 < 2 ^ 64" "[[97], [98 :: u8]] \<noteq> []" "length (replicate 16 (0 :: u8)) = 16"
    "s \<in> set ([[97], [98]] @ [[99, 61]]) \<Longrightarrow> 0 \<notin> set s"
    "length (concat (map cz ([[97], [98]] @ [[99, 61]]))) + 8 * (length [[97], [98 :: u8]] + length [[99, 61 :: u8]]) + 303 \<le> 16384" for s :: path
    by (auto simp: pageRoundDown_def PAGE_SIZE_def cz_def)
  note L = initial_stack_layout [OF P run]
  have a: "\<forall>i < length [[97], [98 :: u8]]. cstr (stack_view 0x100000 m') (ld64 (stack_view 0x100000 m') (sp + of_nat (8 * (1 + i)))) ([[97], [98]] ! i)"
    and e: "\<forall>i < length [[99, 61 :: u8]]. cstr (stack_view 0x100000 m') (ld64 (stack_view 0x100000 m') (sp + of_nat (8 * (2 + length [[97], [98 :: u8]] + i)))) ([[99, 61]] ! i)"
    and "unat sp mod 16 = 0" "ld64 (stack_view 0x100000 m') (sp + of_nat (8 * 0)) = of_nat (length [[97], [98 :: u8]])"
    using L by blast+
  then show ?thesis using run a [rule_format, of 1] e [rule_format, of 0] by auto
qed

end
