(* ===== verification/Procs.thy ===== *)
theory Procs
  imports Sync Signal FileTable ExecStack
begin

text \<open>
  Processes and threads as objects (\<^verbatim>\<open>kernel/proc/process/process.cpp\<close>, \<^verbatim>\<open>kernel/proc/thread/thread.cpp\<close>,
  \<^verbatim>\<open>kernel/proc/garbage.h\<close>): the list of all processes, groups and sessions, the tree of parents and children, signals
  sent to a process, exit and wait, and the list of objects to delete. The fields of a process control block that the
  scheduler works on are in the scheduler's store; the rest of an object is here, under the same address. A call that
  gives up the processor in the middle of a routine leaves the routine: the state that the next process gets is marked
  \<open>Away\<close>, and the rest of the routine is a definition of its own.
\<close>

section \<open>State\<close>

type_synonym shp = nat
type_synonym fdtp = nat

record task =
  m_pid :: u64
  m_tgid :: u64
  m_timeSlice :: u64
  m_entry :: u64
  m_args :: u64
  m_ustack :: u64
  m_trapFrame :: TrapFrame
  m_waitSem :: semp
  m_tidAddress :: u64
  m_sigMask :: u64
  m_signalHandler :: "shp option"
  pcb_lock :: Lock

record Process =
  m_threads :: "pcbp option"
  m_parent :: "pcbp option"
  m_segTable :: "SegmentTable option"
  m_cwdInode :: u32
  m_cwdPath :: "path option"
  m_nextSibling :: "pcbp option"
  m_firstChild :: "pcbp option"
  m_exitCode :: i32
  m_termSignal :: i32
  m_selfSem :: semp
  m_spaceLock :: Lock
  m_mmap :: "mmap option"
  m_reaped :: bool
  m_fdTable :: "fdtp option"
  m_pgid :: u64
  m_sid :: u64
  m_umask :: u32
  m_allNext :: "pcbp option"

record Thread =
  th_parent :: "pcbp option"
  m_nextThread :: "pcbp option"
  m_clearTidAddr :: u64

text \<open>
  \<open>isProcess\<close> is the virtual function that tells the two classes apart. Signal handlers and descriptor tables are shared
  between objects, so they are stores of their own. The page tables of \<open>p_mw\<close> are the ones a futex call translates
  with. Objects that have been deleted are no longer in \<open>p_live\<close>.
\<close>

record ('f, 'w) pstate =
  p_k :: sstate
  p_task :: "pcbp \<Rightarrow> task"
  p_proc :: "pcbp \<Rightarrow> Process"
  p_thr :: "pcbp \<Rightarrow> Thread"
  isProcess :: "pcbp \<Rightarrow> bool"
  p_live :: "pcbp \<Rightarrow> bool"
  p_sh :: "shp \<Rightarrow> SignalHandler"
  p_fdt :: "fdtp \<Rightarrow> 'f FdTable option"
  p_fw :: 'w
  p_mw :: mworld
  s_pid :: u64
  s_pidLock :: Lock
  s_allHead :: "pcbp option"
  s_allLock :: Lock
  s_init :: "pcbp option"
  garbage :: "pcbp list option"

type_synonym ('f, 'w) pop = "('f, 'w) pstate \<Rightarrow> ('f, 'w) pstate run"

definition upd_task :: "pcbp \<Rightarrow> (task \<Rightarrow> task) \<Rightarrow> ('f, 'w) pstate \<Rightarrow> ('f, 'w) pstate" where
  "upd_task p f s = s\<lparr>p_task := (p_task s)(p := f (p_task s p))\<rparr>"

definition upd_proc :: "pcbp \<Rightarrow> (Process \<Rightarrow> Process) \<Rightarrow> ('f, 'w) pstate \<Rightarrow> ('f, 'w) pstate" where
  "upd_proc p f s = s\<lparr>p_proc := (p_proc s)(p := f (p_proc s p))\<rparr>"

definition upd_thr :: "pcbp \<Rightarrow> (Thread \<Rightarrow> Thread) \<Rightarrow> ('f, 'w) pstate \<Rightarrow> ('f, 'w) pstate" where
  "upd_thr p f s = s\<lparr>p_thr := (p_thr s)(p := f (p_thr s p))\<rparr>"

text \<open>A step of the scheduler, of a semaphore or of a futex.\<close>

definition onK :: "(sstate \<Rightarrow> sstate run) \<Rightarrow> ('f, 'w) pop" where
  "onK f s = bindR (f (p_k s)) (\<lambda>k. Some (Inr (s\<lparr>p_k := k\<rparr>)))"

definition setK :: "(sstate \<Rightarrow> sstate) \<Rightarrow> ('f, 'w) pstate \<Rightarrow> ('f, 'w) pstate" where
  "setK f s = s\<lparr>p_k := f (p_k s)\<rparr>"

abbreviation pcb_state :: "('f, 'w) pstate \<Rightarrow> pcbp \<Rightarrow> ProcState" where
  "pcb_state s p \<equiv> m_state (k_pcb (p_k s) p)"

definition lock_pcb :: "pcbp \<Rightarrow> ('f, 'w) pop" where
  "lock_pcb p s =
     (case acquire (pcb_lock (p_task s p)) (k_sie (p_k s)) of
        None \<Rightarrow> None
      | Some (l, sie) \<Rightarrow> Some (Inr (setK (k_sie_update (\<lambda>_. sie)) (upd_task p (pcb_lock_update (\<lambda>_. l)) s))))"

definition unlock_pcb :: "pcbp \<Rightarrow> ('f, 'w) pstate \<Rightarrow> ('f, 'w) pstate" where
  "unlock_pcb p s =
     (case release (pcb_lock (p_task s p)) (k_sie (p_k s)) of
        (l, sie) \<Rightarrow> setK (k_sie_update (\<lambda>_. sie)) (upd_task p (pcb_lock_update (\<lambda>_. l)) s))"

definition lock_space :: "pcbp \<Rightarrow> ('f, 'w) pop" where
  "lock_space p s =
     (case acquire (m_spaceLock (p_proc s p)) (k_sie (p_k s)) of
        None \<Rightarrow> None
      | Some (l, sie) \<Rightarrow> Some (Inr (setK (k_sie_update (\<lambda>_. sie)) (upd_proc p (m_spaceLock_update (\<lambda>_. l)) s))))"

definition unlock_space :: "pcbp \<Rightarrow> ('f, 'w) pstate \<Rightarrow> ('f, 'w) pstate" where
  "unlock_space p s =
     (case release (m_spaceLock (p_proc s p)) (k_sie (p_k s)) of
        (l, sie) \<Rightarrow> setK (k_sie_update (\<lambda>_. sie)) (upd_proc p (m_spaceLock_update (\<lambda>_. l)) s))"

definition lock_all :: "('f, 'w) pop" where
  "lock_all s =
     (case acquire (s_allLock s) (k_sie (p_k s)) of
        None \<Rightarrow> None
      | Some (l, sie) \<Rightarrow> Some (Inr (setK (k_sie_update (\<lambda>_. sie)) (s\<lparr>s_allLock := l\<rparr>))))"

definition unlock_all :: "('f, 'w) pstate \<Rightarrow> ('f, 'w) pstate" where
  "unlock_all s =
     (case release (s_allLock s) (k_sie (p_k s)) of
        (l, sie) \<Rightarrow> setK (k_sie_update (\<lambda>_. sie)) (s\<lparr>s_allLock := l\<rparr>))"

section \<open>The list of all processes\<close>

text \<open>
  The search that every list of objects is walked with: the first node that satisfies the test, and the node in front of
  it.
\<close>

partial_function (option) search_list ::
  "(pcbp \<Rightarrow> bool) \<Rightarrow> (pcbp \<Rightarrow> pcbp option) \<Rightarrow> pcbp option \<Rightarrow> pcbp option \<Rightarrow> (pcbp option \<times> pcbp option) run" where
  "search_list P nxt cur prev =
     (case cur of
        None \<Rightarrow> Some (Inr (None, prev))
      | Some c \<Rightarrow> if P c then Some (Inr (cur, prev)) else search_list P nxt (nxt c) cur)"

abbreviation all_next :: "('f, 'w) pstate \<Rightarrow> pcbp \<Rightarrow> pcbp option" where
  "all_next s \<equiv> \<lambda>p. m_allNext (p_proc s p)"

definition registerProcess :: "pcbp \<Rightarrow> ('f, 'w) pop" where
  "registerProcess p s =
     bindR (lock_all s) (\<lambda>s1.
       Some (Inr (unlock_all ((upd_proc p (m_allNext_update (\<lambda>_. s_allHead s1)) s1)\<lparr>s_allHead := Some p\<rparr>))))"

definition unregisterProcess :: "pcbp \<Rightarrow> ('f, 'w) pop" where
  "unregisterProcess p s =
     bindR (lock_all s) (\<lambda>s1.
     bindR (search_list (\<lambda>c. c = p) (all_next s1) (s_allHead s1) None) (\<lambda>(cur, prev).
       Some (Inr (unlock_all
         (case cur of
            None \<Rightarrow> s1
          | Some c \<Rightarrow>
              (case prev of
                 Some q \<Rightarrow> upd_proc q (m_allNext_update (\<lambda>_. m_allNext (p_proc s1 c))) s1
               | None \<Rightarrow> s1\<lparr>s_allHead := m_allNext (p_proc s1 c)\<rparr>))))))"

definition findByPid :: "u64 \<Rightarrow> ('f, 'w) pstate \<Rightarrow> (pcbp option \<times> ('f, 'w) pstate) run" where
  "findByPid pid s =
     bindR (lock_all s) (\<lambda>s1.
     bindR (search_list (\<lambda>p. m_pid (p_task s1 p) = pid) (all_next s1) (s_allHead s1) None) (\<lambda>(cur, _).
       Some (Inr (cur, unlock_all s1))))"

section \<open>Groups and sessions\<close>

definition setpgid :: "pcbp \<Rightarrow> u64 \<Rightarrow> u64 \<Rightarrow> ('f, 'w) pstate \<Rightarrow> (int \<times> ('f, 'w) pstate) run" where
  "setpgid this targetPid pgid s =
     bindR (if targetPid = 0 then Some (Inr (Some this, s)) else findByPid targetPid s) (\<lambda>(target, s1).
       case target of
         None \<Rightarrow> Some (Inr (- 1, s1))
       | Some t \<Rightarrow>
           let newPgid = (if pgid = 0 then m_pid (p_task s1 t) else pgid) in
           if sint newPgid < 0 then Some (Inr (- 1, s1))
           else if m_sid (p_proc s1 t) \<noteq> m_sid (p_proc s1 this) then Some (Inr (- 1, s1))
           else Some (Inr (0, upd_proc t (m_pgid_update (\<lambda>_. newPgid)) s1)))"

definition getpgid :: "pcbp \<Rightarrow> u64 \<Rightarrow> ('f, 'w) pstate \<Rightarrow> (u64 \<times> ('f, 'w) pstate) run" where
  "getpgid this targetPid s =
     (if targetPid = 0 then Some (Inr (m_pgid (p_proc s this), s))
      else bindR (findByPid targetPid s) (\<lambda>(target, s1).
        Some (Inr (case target of None \<Rightarrow> - 1 | Some t \<Rightarrow> m_pgid (p_proc s1 t), s1))))"

definition setsid :: "pcbp \<Rightarrow> ('f, 'w) pstate \<Rightarrow> u64 \<times> ('f, 'w) pstate" where
  "setsid this s =
     (let pid = m_pid (p_task s this) in
      if m_pgid (p_proc s this) = pid then (- 1, s)
      else (pid, upd_proc this (\<lambda>x. x\<lparr>m_sid := pid, m_pgid := pid\<rparr>) s))"

definition setUmask :: "pcbp \<Rightarrow> u32 \<Rightarrow> ('f, 'w) pstate \<Rightarrow> u32 \<times> ('f, 'w) pstate" where
  "setUmask this m s = (m_umask (p_proc s this), upd_proc this (m_umask_update (\<lambda>_. m AND 511)) s)"
section \<open>Signals sent to a process\<close>

definition ready_if_stopped :: "pcbp \<Rightarrow> ('f, 'w) pop" where
  "ready_if_stopped p s =
     (if pcb_state s p = STOPPED then onK (Scheduler_put (Some p)) (setK (setState p READY) s) else Some (Inr s))"

partial_function (option) wakeStopped_loop :: "pcbp option \<Rightarrow> ('f, 'w) pop" where
  "wakeStopped_loop t s =
     (case t of
        None \<Rightarrow> Some (Inr s)
      | Some c \<Rightarrow> bindR (ready_if_stopped c s) (\<lambda>s1. wakeStopped_loop (m_nextThread (p_thr s1 c)) s1))"

definition wakeStoppedThreads :: "pcbp \<Rightarrow> ('f, 'w) pop" where
  "wakeStoppedThreads p s =
     bindR (lock_pcb p s) (\<lambda>s1.
     bindR (ready_if_stopped p s1) (\<lambda>s2.
     bindR (wakeStopped_loop (m_threads (p_proc s2 p)) s2) (\<lambda>s3.
       Some (Inr (unlock_pcb p s3)))))"

text \<open>The block that \<^verbatim>\<open>kill\<close> runs once for the process and once more for each of its threads.\<close>

definition interrupt :: "pcbp \<Rightarrow> ('f, 'w) pop" where
  "interrupt p s =
     (if pcb_state s p \<noteq> SLEEPING \<and> pcb_state s p \<noteq> BLOCKED then Some (Inr s)
      else
        bindR (case m_waitingOn (k_pcb (p_k s) p) of
                 None \<Rightarrow> Some (Inr s)
               | Some i \<Rightarrow> bindR (onK (sem_forceRemove i p) s)
                   (\<lambda>s1. Some (Inr (setK (upd_pcb p (m_waitingOn_update (\<lambda>_. None))) s1)))) (\<lambda>s2.
        bindR (if m_waitingOnFutexKey (k_pcb (p_k s2) p) \<noteq> 0
               then bindR (onK (futex_forceRemove (m_waitingOnFutexKey (k_pcb (p_k s2) p)) p) s2)
                   (\<lambda>s3. Some (Inr (setK (upd_pcb p (m_waitingOnFutexKey_update (\<lambda>_. 0))) s3)))
               else Some (Inr s2)) (\<lambda>s4.
        bindR (if pcb_state s4 p = SLEEPING then onK (wakeUp p) s4 else Some (Inr s4)) (\<lambda>s5.
          onK (Scheduler_put (Some p)) (setK (setState p READY) s5)))))"

partial_function (option) kill_loop :: "pcbp \<Rightarrow> pcbp option \<Rightarrow> ('f, 'w) pop" where
  "kill_loop p t s =
     (case t of
        None \<Rightarrow> Some (Inr s)
      | Some c \<Rightarrow> bindR (interrupt p s) (\<lambda>s1. kill_loop p (m_nextThread (p_thr s1 c)) s1))"

definition kill :: "pcbp \<Rightarrow> int \<Rightarrow> ('f, 'w) pstate \<Rightarrow> (int \<times> ('f, 'w) pstate) run" where
  "kill p signum s =
     (if signum < 0 \<or> signum \<ge> int NSIG then Some (Inr (- 1, s))
      else case m_signalHandler (p_task s p) of
        None \<Rightarrow> Some (Inr (- 1, s))
      | Some h \<Rightarrow>
          if signum = 0 then Some (Inr (0, s))
          else
            bindR ((if signum = SIGCONT then wakeStoppedThreads p else (\<lambda>s. Some (Inr s)))
                     (s\<lparr>p_sh := (p_sh s)(h := sh_send signum (p_sh s h))\<rparr>)) (\<lambda>s1.
            bindR (lock_pcb p s1) (\<lambda>s2.
            bindR (interrupt p s2) (\<lambda>s3.
            bindR (kill_loop p (m_threads (p_proc s3 p)) s3) (\<lambda>s4.
              Some (Inr (0, unlock_pcb p s4)))))))"

definition notifyStopped :: "pcbp \<Rightarrow> ('f, 'w) pop" where
  "notifyStopped p s =
     (case m_parent (p_proc s p) of
        None \<Rightarrow> Some (Inr s)
      | Some q \<Rightarrow> bindR (kill q SIGCHLD s) (\<lambda>(_, s1). Some (Inr s1)))"

partial_function (option) group_loop :: "u64 \<Rightarrow> int \<Rightarrow> pcbp option \<Rightarrow> ('f, 'w) pop" where
  "group_loop pgid signum cur s =
     (case cur of
        None \<Rightarrow> Some (Inr s)
      | Some p \<Rightarrow>
          bindR (if m_pgid (p_proc s p) = pgid then bindR (kill p signum s) (\<lambda>(_, s1). Some (Inr s1)) else Some (Inr s))
            (\<lambda>s2. group_loop pgid signum (m_allNext (p_proc s2 p)) s2))"

definition signalProcessGroup :: "u64 \<Rightarrow> int \<Rightarrow> ('f, 'w) pop" where
  "signalProcessGroup pgid signum s =
     (if pgid = 0 then Some (Inr s)
      else bindR (lock_all s) (\<lambda>s1.
           bindR (group_loop pgid signum (s_allHead s1) s1) (\<lambda>s2. Some (Inr (unlock_all s2)))))"

section \<open>Giving up the processor\<close>

datatype 's ctl = Here 's | Away 's

definition bindC :: "'s ctl run \<Rightarrow> ('s \<Rightarrow> 's ctl run) \<Rightarrow> 's ctl run" where
  "bindC m f = bindR m (\<lambda>c. case c of Here s \<Rightarrow> f s | Away s \<Rightarrow> Some (Inr (Away s)))"

text \<open>Control is still here when the running process is the one that called.\<close>

definition p_yield :: "('f, 'w) pstate \<Rightarrow> ('f, 'w) pstate ctl run" where
  "p_yield s =
     (let me = s_running (p_k s); sie = k_sie (p_k s) in
      bindR (yield (p_k s)) (\<lambda>k.
        Some (Inr (if s_running k = me then Here (s\<lparr>p_k := yield_resume sie k\<rparr>) else Away (s\<lparr>p_k := k\<rparr>)))))"

definition p_sem_wait :: "semp \<Rightarrow> ('f, 'w) pstate \<Rightarrow> ('f, 'w) pstate ctl run" where
  "p_sem_wait i s =
     (let me = s_running (p_k s) in
      bindR (sem_wait i (p_k s)) (\<lambda>k.
        Some (Inr (if s_running k = me then Here (s\<lparr>p_k := k\<rparr>) else Away (s\<lparr>p_k := k\<rparr>)))))"

section \<open>The end of a thread\<close>

definition garbage_put :: "pcbp \<Rightarrow> ('f, 'w) pstate \<Rightarrow> ('f, 'w) pstate" where
  "garbage_put p s = s\<lparr>garbage := Some ((case garbage s of None \<Rightarrow> [] | Some xs \<Rightarrow> xs) @ [p])\<rparr>"

partial_function (option) signal_waiters :: "semp \<Rightarrow> ('f, 'w) pop" where
  "signal_waiters i s =
     (if m_blockedHead (sems (p_k s) i) \<noteq> None then bindR (onK (sem_signal i) s) (signal_waiters i) else Some (Inr s))"

text \<open>The word at a user address, cleared through the page table of the running process.\<close>

definition clear_word :: "u64 \<Rightarrow> ('f, 'w) pstate \<Rightarrow> ('f, 'w) pstate" where
  "clear_word a = setK (\<lambda>k. k\<lparr>k_uword := (k_uword k)(a := 0)\<rparr>)"

definition p_futex_wake :: "u64 \<Rightarrow> ('f, 'w) pop" where
  "p_futex_wake a s =
     onK (\<lambda>k. bindR (futex_syscall a FUTEX_WAKE (NOT 0) 0 (k\<lparr>k_pt := vs_pt (mw_vm (p_mw s))\<rparr>)) (\<lambda>(_, k1). Some (Inr k1))) s"

text \<open>The place of the stack that the first constructor of a thread maps.\<close>

definition thread_stack :: "u64 \<Rightarrow> u64" where
  "thread_stack pid = USER_STACK_TOP - pid * (USER_STACK_SIZE + PAGE_SIZE)"

definition upd_vm :: "(vmstate \<Rightarrow> vmstate) \<Rightarrow> ('f, 'w) pstate \<Rightarrow> ('f, 'w) pstate" where
  "upd_vm f s = s\<lparr>p_mw := (p_mw s)\<lparr>mw_vm := f (mw_vm (p_mw s))\<rparr>\<rparr>"

definition free_stack :: "u64 \<Rightarrow> u32 \<Rightarrow> ('f, 'w) pop" where
  "free_stack stack count s =
     Option.bind (kfreePages stack count (vs_heap (mw_vm (p_mw s)))) (\<lambda>h. Some (Inr (upd_vm (vs_heap_update (\<lambda>_. h)) s)))"

definition stack_pages :: nat where "stack_pages = 4"

definition Thread_clear :: "pcbp \<Rightarrow> ('f, 'w) pop" where
  "Thread_clear t s =
     (let pmt = m_pmt (k_pcb (p_k s) t); ustack = m_ustack (p_task s t) in
      bindR (if pmt \<noteq> 0 \<and> ustack \<noteq> 0 then
               bindR (case th_parent (p_thr s t) of None \<Rightarrow> Some (Inr s) | Some q \<Rightarrow> lock_space q s) (\<lambda>s1.
                 let s2 = upd_vm (vs_pt_update (\<lambda>pt. snd (unmapPages pmt
                            (thread_stack (m_pid (p_task s1 t)) - USER_STACK_SIZE) stack_pages pt))) s1 in
                 Some (Inr (case th_parent (p_thr s2 t) of None \<Rightarrow> s2 | Some q \<Rightarrow> unlock_space q s2)))
             else Some (Inr s)) (\<lambda>s3.
        if ustack \<noteq> 0 then free_stack ustack (of_nat stack_pages) s3 else Some (Inr s3)))"

definition unlink_thread :: "pcbp \<Rightarrow> ('f, 'w) pop" where
  "unlink_thread t s =
     (case th_parent (p_thr s t) of
        None \<Rightarrow> Some (Inr s)
      | Some q \<Rightarrow>
          bindR (search_list (\<lambda>c. c = t) (\<lambda>c. m_nextThread (p_thr s c)) (m_threads (p_proc s q)) None) (\<lambda>(cur, prev).
            Some (Inr (if cur = Some t then
              upd_thr t (m_nextThread_update (\<lambda>_. None))
                (case prev of
                   None \<Rightarrow> upd_proc q (m_threads_update (\<lambda>_. m_nextThread (p_thr s t))) s
                 | Some r \<Rightarrow> upd_thr r (m_nextThread_update (\<lambda>_. m_nextThread (p_thr s t))) s)
              else s))))"

definition Thread_exit :: "pcbp \<Rightarrow> ('f, 'w) pstate \<Rightarrow> ('f, 'w) pstate ctl run" where
  "Thread_exit t s =
     bindR (lock_pcb t s) (\<lambda>s1.
     bindR (let a = m_clearTidAddr (p_thr s1 t) in if a \<noteq> 0 then p_futex_wake a (clear_word a s1) else Some (Inr s1)) (\<lambda>s2.
     bindR (signal_waiters (m_waitSem (p_task s2 t))
              (let a = m_tidAddress (p_task s2 t) in if a \<noteq> 0 then clear_word a s2 else s2)) (\<lambda>s3.
     bindR (unlink_thread t s3) (\<lambda>s4.
     bindR (Thread_clear t (setK (setState t ZOMBIE) s4)) (\<lambda>s5.
       p_yield (unlock_pcb t (garbage_put t s5)))))))"
section \<open>The end of a process\<close>

lemma bindC_mono [partial_function_mono]:
  assumes "mono_option B" and "\<And>y. mono_option (\<lambda>f. C y f)"
  shows "mono_option (\<lambda>f. bindC (B f) (\<lambda>y. C y f))"
proof -
  have "mono_option (\<lambda>f. case c of Here s \<Rightarrow> C s f | Away s \<Rightarrow> Some (Inr (Away s)))" for c
    using assms(2) by (cases c) (auto simp: monotone_def flat_ord_def)
  then show ?thesis unfolding bindC_def by (rule bindR_mono [OF assms(1)])
qed

partial_function (option) exit_threads ::
  "(ProcState \<Rightarrow> bool) \<Rightarrow> pcbp option \<Rightarrow> ('f, 'w) pstate \<Rightarrow> ('f, 'w) pstate ctl run" where
  "exit_threads skip t s =
     (case t of
        None \<Rightarrow> Some (Inr (Here s))
      | Some c \<Rightarrow>
          bindC (if skip (pcb_state s c) then Some (Inr (Here s)) else Thread_exit c s)
            (\<lambda>s1. exit_threads skip (m_nextThread (p_thr s c)) s1))"

definition release_fds :: "('f \<Rightarrow> 'w \<Rightarrow> 'w) \<Rightarrow> pcbp \<Rightarrow> ('f, 'w) pstate \<Rightarrow> ('f, 'w) pstate" where
  "release_fds closeFile p s =
     (case m_fdTable (p_proc s p) of
        None \<Rightarrow> s
      | Some d \<Rightarrow>
          (case p_fdt s d of
             None \<Rightarrow> s
           | Some t \<Rightarrow> case fd_release closeFile t (p_fw s) of
               (t1, w) \<Rightarrow> upd_proc p (m_fdTable_update (\<lambda>_. None)) (s\<lparr>p_fdt := (p_fdt s)(d := t1), p_fw := w\<rparr>)))"

text \<open>What is left after the threads: the files, the mappings, the segment table and the working directory.\<close>

definition release_space :: "pcbp \<Rightarrow> ('f, 'w) pop" where
  "release_space p s =
     bindR (case m_mmap (p_proc s p) of
              None \<Rightarrow> Some (Inr (p_mw s))
            | Some mm \<Rightarrow> Mmap_dtor (mm_pmt mm) (mm_head mm) (p_mw s)) (\<lambda>w.
       Some (Inr (upd_proc p (\<lambda>x. x\<lparr>m_mmap := None, m_segTable := None, m_cwdPath := None\<rparr>) (s\<lparr>p_mw := w\<rparr>))))"

definition Process_clear :: "('f \<Rightarrow> 'w \<Rightarrow> 'w) \<Rightarrow> pcbp \<Rightarrow> ('f, 'w) pstate \<Rightarrow> ('f, 'w) pstate ctl run" where
  "Process_clear closeFile p s =
     bindR (unregisterProcess p s) (\<lambda>s1.
     bindC (exit_threads (\<lambda>_. False) (m_threads (p_proc s1 p)) s1) (\<lambda>s2.
     bindR (release_space p (release_fds closeFile p s2)) (\<lambda>s3. Some (Inr (Here s3)))))"

partial_function (option) reparent_loop :: "pcbp \<Rightarrow> pcbp \<Rightarrow> pcbp option \<Rightarrow> ('f, 'w) pop" where
  "reparent_loop this ini child s =
     (case child of
        None \<Rightarrow> Some (Inr s)
      | Some c \<Rightarrow>
          bindR (if ini \<noteq> this then lock_pcb ini (upd_proc c (m_parent_update (\<lambda>_. Some ini)) s)
                 else Some (Inr (upd_proc c (m_parent_update (\<lambda>_. Some ini)) s))) (\<lambda>s1.
          let s2 = upd_proc ini (m_firstChild_update (\<lambda>_. Some c))
                     (upd_proc c (m_nextSibling_update (\<lambda>_. m_firstChild (p_proc s1 ini))) s1) in
          bindR (if pcb_state s2 c = ZOMBIE then onK (sem_signal (m_selfSem (p_proc s2 ini))) s2 else Some (Inr s2)) (\<lambda>s3.
            reparent_loop this ini (m_nextSibling (p_proc s c)) (if ini \<noteq> this then unlock_pcb ini s3 else s3))))"

definition reparent :: "pcbp \<Rightarrow> ('f, 'w) pop" where
  "reparent this s =
     (case m_firstChild (p_proc s this) of
        None \<Rightarrow> Some (Inr s)
      | Some c \<Rightarrow>
          (case s_init s of
             None \<Rightarrow> Some (Inl NullDeref)
           | Some ini \<Rightarrow> reparent_loop this ini (Some c) s))"

definition tell_parent :: "pcbp \<Rightarrow> ('f, 'w) pop" where
  "tell_parent this s =
     (case m_parent (p_proc s this) of
        None \<Rightarrow> Some (Inr s)
      | Some q \<Rightarrow>
          bindR (onK (sem_signal (m_selfSem (p_proc s q))) s) (\<lambda>s1.
          bindR (kill q SIGCHLD s1) (\<lambda>(_, s2). Some (Inr s2))))"

definition Process_exit :: "('f \<Rightarrow> 'w \<Rightarrow> 'w) \<Rightarrow> pcbp \<Rightarrow> i32 \<Rightarrow> ('f, 'w) pstate \<Rightarrow> ('f, 'w) pstate ctl run" where
  "Process_exit closeFile this exitCode s =
     bindR (lock_pcb this (upd_proc this (m_exitCode_update (\<lambda>_. exitCode)) s)) (\<lambda>s1.
     bindR (reparent this s1) (\<lambda>s2.
     let s3 = upd_proc this (m_firstChild_update (\<lambda>_. None)) s2;
         s4 = (let a = m_tidAddress (p_task s3 this) in if a \<noteq> 0 then clear_word a s3 else s3) in
     bindR (signal_waiters (m_waitSem (p_task s4 this)) s4) (\<lambda>s5.
     bindR (tell_parent this s5) (\<lambda>s6.
     bindC (Process_clear closeFile this (setK (setState this ZOMBIE) s6)) (\<lambda>s7.
       p_yield (unlock_pcb this (garbage_put this s7)))))))"

definition exitViaSignal :: "('f \<Rightarrow> 'w \<Rightarrow> 'w) \<Rightarrow> pcbp \<Rightarrow> i32 \<Rightarrow> ('f, 'w) pstate \<Rightarrow> ('f, 'w) pstate ctl run" where
  "exitViaSignal closeFile this signum s =
     Process_exit closeFile this 0 (upd_proc this (m_termSignal_update (\<lambda>_. signum)) s)"

definition exitGroup :: "('f \<Rightarrow> 'w \<Rightarrow> 'w) \<Rightarrow> pcbp \<Rightarrow> i32 \<Rightarrow> ('f, 'w) pstate \<Rightarrow> ('f, 'w) pstate ctl run" where
  "exitGroup closeFile this exitCode s =
     bindR (lock_pcb this s) (\<lambda>s1.
     bindC (exit_threads (\<lambda>st. st = ZOMBIE) (m_threads (p_proc s1 this)) s1) (\<lambda>s2.
       Process_exit closeFile this exitCode (unlock_pcb this s2)))"

section \<open>Waiting for a child\<close>

definition WNOHANG :: i32 where "WNOHANG = 1"
definition WUNTRACED :: i32 where "WUNTRACED = 2"
definition WCONTINUED :: i32 where "WCONTINUED = 8"

abbreviation sibling :: "('f, 'w) pstate \<Rightarrow> pcbp \<Rightarrow> pcbp option" where
  "sibling s \<equiv> \<lambda>p. m_nextSibling (p_proc s p)"

definition waits_for :: "u64 \<Rightarrow> ('f, 'w) pstate \<Rightarrow> pcbp \<Rightarrow> bool" where
  "waits_for pid s c \<longleftrightarrow> pcb_state s c = ZOMBIE \<and> (pid = - 1 \<or> m_pid (p_task s c) = pid)"

text \<open>The checks in front of the semaphore: a value to return at once, or \<open>None\<close>.\<close>

definition wait_check :: "pcbp \<Rightarrow> u64 \<Rightarrow> i32 \<Rightarrow> ('f, 'w) pstate \<Rightarrow> (u64 option \<times> ('f, 'w) pstate) run" where
  "wait_check this pid options s =
     bindR (lock_pcb this s) (\<lambda>s1.
       if m_firstChild (p_proc s1 this) = None then Some (Inr (Some (- 1), unlock_pcb this s1))
       else
         bindR (if pid \<noteq> - 1
                then search_list (\<lambda>c. m_pid (p_task s1 c) = pid) (sibling s1) (m_firstChild (p_proc s1 this)) None
                else Some (Inr (m_firstChild (p_proc s1 this), None))) (\<lambda>(found, _).
           if found = None then Some (Inr (Some (- 1), unlock_pcb this s1))
           else
             let s2 = unlock_pcb this s1 in
             if options AND WNOHANG \<noteq> 0 then
               bindR (lock_pcb this s2) (\<lambda>s3.
               bindR (search_list (waits_for pid s3) (sibling s3) (m_firstChild (p_proc s3 this)) None) (\<lambda>(z, _).
                 Some (Inr (if z = None then Some 0 else None, unlock_pcb this s3))))
             else Some (Inr (None, s2))))"

definition wait_status :: "Process \<Rightarrow> i32" where
  "wait_status z =
     (if m_termSignal z \<noteq> 0 then m_termSignal z AND 0x7f else push_bit 8 (m_exitCode z AND 0xff))"

text \<open>What follows the semaphore. The result is the value returned and the status, if one is stored.\<close>

definition wait_collect :: "pcbp \<Rightarrow> u64 \<Rightarrow> ('f, 'w) pstate \<Rightarrow> (u64 \<times> i32 option \<times> ('f, 'w) pstate) run" where
  "wait_collect this pid s =
     bindR (lock_pcb this s) (\<lambda>s1.
     bindR (search_list (waits_for pid s1) (sibling s1) (m_firstChild (p_proc s1 this)) None) (\<lambda>(zombie, prev).
       case zombie of
         None \<Rightarrow> Some (Inr (- 1, None, unlock_pcb this s1))
       | Some z \<Rightarrow>
           let nx = m_nextSibling (p_proc s1 z);
               s2 = unlock_pcb this
                 (case prev of
                    Some q \<Rightarrow> upd_proc q (m_nextSibling_update (\<lambda>_. nx)) s1
                  | None \<Rightarrow> upd_proc this (m_firstChild_update (\<lambda>_. nx)) s1) in
           Some (Inr (m_pid (p_task s2 z), Some (wait_status (p_proc s2 z)),
                      upd_proc z (m_reaped_update (\<lambda>_. True)) s2))))"

text \<open>The value is \<open>None\<close> when the process is blocked; then \<open>wait_collect\<close> follows when it runs again.\<close>

definition process_wait ::
  "pcbp \<Rightarrow> u64 \<Rightarrow> i32 \<Rightarrow> ('f, 'w) pstate \<Rightarrow> ((u64 \<times> i32 option) option \<times> ('f, 'w) pstate) run" where
  "process_wait this pid options s =
     bindR (wait_check this pid options s) (\<lambda>(r, s1).
       case r of
         Some v \<Rightarrow> Some (Inr (Some (v, None), s1))
       | None \<Rightarrow>
           bindR (p_sem_wait (m_selfSem (p_proc s1 this)) s1) (\<lambda>c.
             case c of
               Away s2 \<Rightarrow> Some (Inr (None, s2))
             | Here s2 \<Rightarrow> bindR (wait_collect this pid s2) (\<lambda>(v, st, s3). Some (Inr (Some (v, st), s3)))))"

section \<open>Deleting objects\<close>

definition pcb_safe :: "('f, 'w) pstate \<Rightarrow> pcbp \<Rightarrow> bool" where
  "pcb_safe s p \<longleftrightarrow> m_next (k_pcb (p_k s) p) = None \<and> m_nextSleep (k_pcb (p_k s) p) = None \<and> p \<noteq> s_running (p_k s)"

definition isSafeToDelete :: "('f, 'w) pstate \<Rightarrow> pcbp \<Rightarrow> bool" where
  "isSafeToDelete s p \<longleftrightarrow>
     (if isProcess s p then pcb_safe s p \<and> m_nextSibling (p_proc s p) = None \<and> m_reaped (p_proc s p) else pcb_safe s p)"

text \<open>The destructor of a process gives its page tables back, the one of a control block its kernel stack.\<close>

definition delete_pcb :: "pcbp \<Rightarrow> ('f, 'w) pop" where
  "delete_pcb p s =
     bindR (if isProcess s p \<and> m_pmt (k_pcb (p_k s) p) \<noteq> 0 then
              Option.bind (destroyPMT (m_pmt (k_pcb (p_k s) p)) (mw_vm (p_mw s))) (\<lambda>v.
                Some (Inr (setK (upd_pcb p (m_pmt_update (\<lambda>_. 0))) (upd_vm (\<lambda>_. v) s))))
            else Some (Inr s)) (\<lambda>s1.
     bindR (if m_kstack (k_pcb (p_k s1) p) \<noteq> 0 then
              bindR (free_stack (m_kstack (k_pcb (p_k s1) p)) (of_nat stack_pages) s1) (\<lambda>s2.
                Some (Inr (setK (upd_pcb p (m_kstack_update (\<lambda>_. 0))) s2)))
            else Some (Inr s1)) (\<lambda>s3. Some (Inr (s3\<lparr>p_live := (p_live s3)(p := False)\<rparr>))))"

primrec garbage_loop :: "pcbp list \<Rightarrow> ('f, 'w) pstate \<Rightarrow> (pcbp list \<times> ('f, 'w) pstate) run" where
  "garbage_loop [] s = Some (Inr ([], s))"
| "garbage_loop (p # ps) s =
     (if isSafeToDelete s p then bindR (delete_pcb p s) (garbage_loop ps)
      else bindR (garbage_loop ps s) (\<lambda>(ks, s1). Some (Inr (p # ks, s1))))"

definition garbage_clear :: "('f, 'w) pop" where
  "garbage_clear s =
     (case garbage s of
        None \<Rightarrow> Some (Inr s)
      | Some ps \<Rightarrow> bindR (garbage_loop ps s) (\<lambda>(ks, s1). Some (Inr (s1\<lparr>garbage := Some ks\<rparr>))))"
section \<open>Updates and locks\<close>

lemma upd_task_simps [simp]:
  "p_k (upd_task p f s) = p_k s" "p_proc (upd_task p f s) = p_proc s" "p_thr (upd_task p f s) = p_thr s"
  "p_task (upd_task p f s) = (p_task s)(p := f (p_task s p))" "s_allHead (upd_task p f s) = s_allHead s"
  "s_allLock (upd_task p f s) = s_allLock s" "p_sh (upd_task p f s) = p_sh s" "p_fdt (upd_task p f s) = p_fdt s"
  "p_fw (upd_task p f s) = p_fw s" "p_mw (upd_task p f s) = p_mw s" "garbage (upd_task p f s) = garbage s"
  "s_init (upd_task p f s) = s_init s" "isProcess (upd_task p f s) = isProcess s" "p_live (upd_task p f s) = p_live s"
  by (simp_all add: upd_task_def)

lemma upd_proc_simps [simp]:
  "p_k (upd_proc p g s) = p_k s" "p_task (upd_proc p g s) = p_task s" "p_thr (upd_proc p g s) = p_thr s"
  "p_proc (upd_proc p g s) = (p_proc s)(p := g (p_proc s p))" "s_allHead (upd_proc p g s) = s_allHead s"
  "s_allLock (upd_proc p g s) = s_allLock s" "p_sh (upd_proc p g s) = p_sh s" "p_fdt (upd_proc p g s) = p_fdt s"
  "p_fw (upd_proc p g s) = p_fw s" "p_mw (upd_proc p g s) = p_mw s" "garbage (upd_proc p g s) = garbage s"
  "s_init (upd_proc p g s) = s_init s" "isProcess (upd_proc p g s) = isProcess s" "p_live (upd_proc p g s) = p_live s"
  by (simp_all add: upd_proc_def)

lemma upd_thr_simps [simp]:
  "p_k (upd_thr p h s) = p_k s" "p_task (upd_thr p h s) = p_task s" "p_proc (upd_thr p h s) = p_proc s"
  "p_thr (upd_thr p h s) = (p_thr s)(p := h (p_thr s p))" "garbage (upd_thr p h s) = garbage s" "p_mw (upd_thr p h s) = p_mw s"
  by (simp_all add: upd_thr_def)

lemma setK_simps [simp]:
  "p_k (setK e s) = e (p_k s)" "p_task (setK e s) = p_task s" "p_thr (setK e s) = p_thr s" "p_proc (setK e s) = p_proc s"
  "s_allHead (setK e s) = s_allHead s" "s_allLock (setK e s) = s_allLock s" "p_sh (setK e s) = p_sh s"
  "p_fdt (setK e s) = p_fdt s" "p_fw (setK e s) = p_fw s" "p_mw (setK e s) = p_mw s" "garbage (setK e s) = garbage s"
  "s_init (setK e s) = s_init s" "isProcess (setK e s) = isProcess s" "p_live (setK e s) = p_live s"
  by (simp_all add: setK_def)

text \<open>A lock taken and released again: only what it remembers of the interrupt flag changes.\<close>

definition passed :: "('f, 'w) pstate \<Rightarrow> Lock" where
  "passed s = \<lparr>m_locked = False, m_pie = k_sie (p_k s)\<rparr>"

definition held :: "('f, 'w) pstate \<Rightarrow> Lock" where
  "held s = \<lparr>m_locked = True, m_pie = k_sie (p_k s)\<rparr>"

definition masked :: "('f, 'w) pstate \<Rightarrow> ('f, 'w) pstate" where
  "masked = setK (k_sie_update (\<lambda>_. False))"

lemma masked_simps [simp]:
  "p_k (masked s) = (p_k s)\<lparr>k_sie := False\<rparr>" "p_task (masked s) = p_task s" "p_thr (masked s) = p_thr s"
  "p_proc (masked s) = p_proc s" "s_allHead (masked s) = s_allHead s" "p_sh (masked s) = p_sh s"
  "s_allLock (masked s) = s_allLock s" "p_mw (masked s) = p_mw s"
  by (simp_all add: masked_def)

lemma lock_pcb_free:
  "\<not> m_locked (pcb_lock (p_task s p)) \<Longrightarrow> lock_pcb p s = Some (Inr (masked (upd_task p (pcb_lock_update (\<lambda>_. held s)) s)))"
  by (simp add: lock_pcb_def acquire_def masked_def held_def)

lemma lock_all_free:
  "\<not> m_locked (s_allLock s) \<Longrightarrow> lock_all s = Some (Inr (masked (s\<lparr>s_allLock := held s\<rparr>)))"
  by (simp add: lock_all_def acquire_def masked_def held_def)

lemma unmask [simp]: "setK (k_sie_update (\<lambda>_. sie)) (masked s) = setK (k_sie_update (\<lambda>_. sie)) s"
  by (simp add: masked_def setK_def)

lemma setK_sie_same [simp]: "sie = k_sie (p_k s) \<Longrightarrow> setK (k_sie_update (\<lambda>_. sie)) s = s"
  by (simp add: setK_def)

section \<open>Lists of objects\<close>

lemma search_list_spec:
  assumes "chain nxt h xs"
  shows "search_list P nxt h prev =
    Some (Inr (first_of (dropWhile (\<lambda>c. \<not> P c) xs),
      let us = takeWhile (\<lambda>c. \<not> P c) xs in if us = [] then prev else Some (last us)))"
  using assms
proof (induction xs arbitrary: h prev)
  case Nil
  then show ?case by (subst search_list.simps) simp
next
  case (Cons x xs)
  then have h: "h = Some x" "chain nxt (nxt x) xs" by auto
  show ?case
  proof (cases "P x")
    case True
    then show ?thesis by (subst search_list.simps) (simp add: h)
  next
    case False
    then show ?thesis by (subst search_list.simps) (simp add: h(1) Cons.IH [OF h(2)] Let_def)
  qed
qed

lemma search_list_hit:
  assumes "chain nxt h (us @ c # vs)" and "P c" and "\<forall>u \<in> set us. \<not> P u"
  shows "search_list P nxt h None = Some (Inr (Some c, if us = [] then None else Some (last us)))"
  using assms by (subst search_list_spec [OF assms(1)]) (simp add: Let_def)

lemma search_list_miss:
  assumes "chain nxt h xs" and "\<forall>u \<in> set xs. \<not> P u"
  shows "search_list P nxt h None = Some (Inr (None, if xs = [] then None else Some (last xs)))"
proof -
  have t: "dropWhile (\<lambda>c. \<not> P c) xs = []" "takeWhile (\<lambda>c. \<not> P c) xs = xs"
    using assms(2) by (induction xs) simp_all
  show ?thesis unfolding search_list_spec [OF assms(1)] Let_def t first_of.simps ..
qed

text \<open>Taking a node out of such a list, as \<^verbatim>\<open>unregisterProcess\<close>, \<^verbatim>\<open>wait\<close> and \<^verbatim>\<open>Thread::exit\<close> do.\<close>

lemma chain_cut:
  assumes "chain nxt h (us @ c # vs)"
  shows "us = [] \<Longrightarrow> chain nxt (nxt c) vs"
    and "us \<noteq> [] \<Longrightarrow> chain (nxt(last us := nxt c)) h (us @ vs)"
proof -
  show "us = [] \<Longrightarrow> chain nxt (nxt c) vs" using assms by simp
  show "chain (nxt(last us := nxt c)) h (us @ vs)" if "us \<noteq> []"
  proof -
    have us: "us = butlast us @ [last us]" using that by simp
    have "chain nxt h (butlast us @ [last us, c] @ vs)" using assms us by (metis append.assoc append_Cons append_Nil)
    from chain_unlink [OF this] us show ?thesis by (metis append.assoc append_Cons append_Nil)
  qed
qed

definition all_procs :: "('f, 'w) pstate \<Rightarrow> pcbp list \<Rightarrow> bool" where
  "all_procs s xs \<longleftrightarrow> \<not> m_locked (s_allLock s) \<and> chain (all_next s) (s_allHead s) xs"

lemma upd_proc_links [simp]:
  "(\<lambda>q. m_allNext (if q = p then r\<lparr>m_allNext := n\<rparr> else f q)) = (\<lambda>q. m_allNext (f q))(p := n)"
  "(\<lambda>q. m_nextSibling (if q = p then r\<lparr>m_nextSibling := n\<rparr> else f q)) = (\<lambda>q. m_nextSibling (f q))(p := n)"
  by auto

lemma unregister_run:
  assumes "all_procs s xs"
  obtains s' where "unregisterProcess p s = Some (Inr s')" "all_procs s' (remove1 p xs)"
    "p_k s' = p_k s" "p_task s' = p_task s" "\<And>q. (p_proc s' q)\<lparr>m_allNext := None\<rparr> = (p_proc s q)\<lparr>m_allNext := None\<rparr>"
    "p_thr s' = p_thr s" "p_sh s' = p_sh s" "p_fdt s' = p_fdt s" "p_fw s' = p_fw s" "p_mw s' = p_mw s" "garbage s' = garbage s"
proof -
  have free: "\<not> m_locked (s_allLock s)" and ch: "chain (all_next s) (s_allHead s) xs"
    using assms by (simp_all add: all_procs_def)
  let ?s1 = "masked (s\<lparr>s_allLock := held s\<rparr>)"
  show thesis
  proof (cases "p \<in> set xs")
    case False
    have f: "search_list (\<lambda>c. c = p) (all_next s) (s_allHead s) None = Some (Inr (None, if xs = [] then None else Some (last xs)))"
      by (rule search_list_miss [OF ch]) (use False in auto)
    have "unregisterProcess p s = Some (Inr (unlock_all ?s1))"
      by (simp add: unregisterProcess_def lock_all_free [OF free] f)
    then show ?thesis
      by (rule that) (use ch False in \<open>simp_all add: all_procs_def unlock_all_def release_def masked_def held_def remove1_idem\<close>)
  next
    case True
    then obtain us vs where xs: "xs = us @ p # vs" "p \<notin> set us" using split_list_first by metis
    have f: "search_list (\<lambda>c. c = p) (all_next s) (s_allHead s) None = Some (Inr (Some p, if us = [] then None else Some (last us)))"
      by (rule search_list_hit [OF ch [unfolded xs(1)]]) (use xs(2) in auto)
    note cut = chain_cut [OF ch [unfolded xs(1)]]
    have r: "remove1 p xs = us @ vs" using xs by (simp add: remove1_append)
    show ?thesis
    proof (cases "us = []")
      case True
      have "unregisterProcess p s = Some (Inr (unlock_all (?s1\<lparr>s_allHead := m_allNext (p_proc s p)\<rparr>)))"
        using f by (simp add: unregisterProcess_def lock_all_free [OF free] True)
      then show ?thesis
        by (rule that) (use cut(1) r True in \<open>simp_all add: all_procs_def unlock_all_def release_def masked_def held_def\<close>)
    next
      case False
      have "unregisterProcess p s = Some (Inr (unlock_all (upd_proc (last us) (m_allNext_update (\<lambda>_. m_allNext (p_proc s p))) ?s1)))"
        using f by (simp add: unregisterProcess_def lock_all_free [OF free] False)
      moreover have "chain ((all_next s)(last us := m_allNext (p_proc s p))) (s_allHead s) (remove1 p xs)"
        unfolding r by (rule cut(2) [OF False])
      ultimately show ?thesis
        by - (rule that, assumption, simp_all add: all_procs_def unlock_all_def release_def masked_def held_def)
    qed
  qed
qed

text \<open>
  C12: the list of all processes is what its operations take it for. \<^verbatim>\<open>registerProcess\<close> puts a process in front of it,
  \<^verbatim>\<open>unregisterProcess\<close> takes a process out and leaves the others in their order, and \<^verbatim>\<open>findByPid\<close> gives the first
  process of the list with that number, or none; each of them returns with the list unlocked.
\<close>

theorem process_table_is_a_list:
  assumes "all_procs s xs"
  shows "(\<exists>s'. unregisterProcess p s = Some (Inr s') \<and> all_procs s' (remove1 p xs)) \<and>
    (p \<notin> set xs \<longrightarrow> (\<exists>s'. registerProcess p s = Some (Inr s') \<and> all_procs s' (p # xs))) \<and>
    (\<exists>s'. findByPid pid s = Some (Inr (List.find (\<lambda>p. m_pid (p_task s p) = pid) xs, s')) \<and> all_procs s' xs)"
proof (intro conjI impI)
  show "\<exists>s'. unregisterProcess p s = Some (Inr s') \<and> all_procs s' (remove1 p xs)"
    by (rule unregister_run [OF assms]) blast
  have free: "\<not> m_locked (s_allLock s)" and ch: "chain (all_next s) (s_allHead s) xs"
    using assms by (simp_all add: all_procs_def)
  show "\<exists>s'. registerProcess p s = Some (Inr s') \<and> all_procs s' (p # xs)" if "p \<notin> set xs"
    using that ch by (simp add: registerProcess_def lock_all_free [OF free] all_procs_def unlock_all_def release_def masked_def held_def)
  have d: "first_of (dropWhile (\<lambda>c. \<not> P c) ys) = List.find P ys" for P and ys :: "pcbp list"
    by (induction ys) auto
  show "\<exists>s'. findByPid pid s = Some (Inr (List.find (\<lambda>p. m_pid (p_task s p) = pid) xs, s')) \<and> all_procs s' xs"
    using ch by (simp add: findByPid_def lock_all_free [OF free] search_list_spec [OF ch] d all_procs_def unlock_all_def
        release_def masked_def held_def)
qed

section \<open>Signals\<close>

lemma sem_signal_idle_eq:
  assumes "sem_waiters i [] k"
  shows "sem_signal i k = Some (Inr (upd_sem i (\<lambda>x. x\<lparr>m_value := m_value x + 1, sem_mlock := \<lparr>m_locked = False, m_pie = k_sie k\<rparr>\<rparr>) k))"
proof -
  have "\<not> m_locked (sem_mlock (sems k i))" "m_blockedHead (sems k i) = None"
    using assms by (simp_all add: sem_waiters_def sem_queue_def)
  then show ?thesis by (simp add: sem_signal_def lock_sem_def acquire_def unlock_sem_def release_def upd_sem_def)
qed

lemma ready_frame_unlock_sem:
  assumes "ready_frame k k'"
  shows "ready_frame (unlock_sem i k) (unlock_sem i k')"
proof -
  have k': "k' = k\<lparr>m_list := m_list k', k_pcb := k_pcb k', k_lock := k_lock k'\<rparr>"
    and u: "\<forall>q. unlinked (k_pcb k' q) = unlinked (k_pcb k q)"
    using assms by (simp_all add: ready_frame_def)
  have "unlock_sem i k' = (unlock_sem i k)\<lparr>m_list := m_list k', k_pcb := k_pcb k', k_lock := k_lock k'\<rparr>"
    by (subst k') (simp add: unlock_sem_def release_def upd_sem_def)
  then show ?thesis using u by (simp add: ready_frame_def)
qed

definition woken :: "semp \<Rightarrow> pcbp \<Rightarrow> sstate \<Rightarrow> sstate" where
  "woken i x k = upd_pcb x (\<lambda>c. c\<lparr>m_semNext := None, m_waitingOn := None, m_state := READY\<rparr>)
     (upd_sem i (\<lambda>c. c\<lparr>m_blockedHead := None, m_blockedTail := None, sem_mlock := \<lparr>m_locked = False, m_pie = k_sie k\<rparr>\<rparr>) k)"

lemma sem_signal_sole_waiter:
  assumes "sem_waiters i [x] k" and "sched_ready k ys" and "x \<notin> set ys"
  obtains k' where "sem_signal i k = Some (Inr k')" "sched_ready k' (ys @ [x])" "ready_frame (woken i x k) k'"
proof -
  have free: "\<not> m_locked (sem_mlock (sems k i))" and hd: "m_blockedHead (sems k i) = Some x" "m_semNext (k_pcb k x) = None"
    using assms(1) by (simp_all add: sem_waiters_def sem_queue_def queue_of_def)
  define k1 where "k1 = (upd_sem i (sem_mlock_update (\<lambda>_. \<lparr>m_locked = True, m_pie = k_sie k\<rparr>)) k)\<lparr>k_sie := False\<rparr>"
  define k2 where "k2 = setState x READY (snd (popBlocked i k1))"
  have l: "lock_sem i k = Some (Inr k1)" using free by (simp add: lock_sem_def acquire_def k1_def)
  have p: "popBlocked i k1 = (Some x, snd (popBlocked i k1))" by (simp add: popBlocked_def k1_def hd Let_def)
  have r2: "sched_ready k2 ys"
    using assms(2) unfolding k2_def sched_ready_setState by (subst sched_ready_cong [of _ k]) (simp_all add: k1_def)
  obtain k3 where k3: "Scheduler_put (Some x) k2 = Some (Inr k3)" "sched_ready k3 (ys @ [x])" "ready_frame k2 k3"
    by (rule Scheduler_put_ready [OF r2 assms(3)])
  have "unlock_sem i k2 = woken i x k"
    by (simp add: k2_def popBlocked_def k1_def hd Let_def unlock_sem_def release_def woken_def setState_def upd_pcb_def upd_sem_def)
  then have "ready_frame (woken i x k) (unlock_sem i k3)" using ready_frame_unlock_sem [OF k3(3), of i] by simp
  moreover have "unblock i k1 = Some (Inr k3)" unfolding unblock_def by (subst p) (simp add: k3(1) [unfolded k2_def])
  then have "sem_signal i k = Some (Inr (unlock_sem i k3))" using hd(1) by (simp add: sem_signal_def l) (simp add: k1_def)
  ultimately show thesis using that k3(2) by simp
qed

text \<open>A process that is neither blocked nor asleep only gets the signal marked as pending.\<close>

lemma interrupt_idle: "pcb_state s p \<noteq> SLEEPING \<Longrightarrow> pcb_state s p \<noteq> BLOCKED \<Longrightarrow> interrupt p s = Some (Inr s)"
  by (simp add: interrupt_def)

lemma kill_loop_idle:
  assumes "chain (\<lambda>c. m_nextThread (p_thr s c)) t ts" and "pcb_state s p \<noteq> SLEEPING" and "pcb_state s p \<noteq> BLOCKED"
  shows "kill_loop p t s = Some (Inr s)"
  using assms
proof (induction ts arbitrary: t)
  case Nil
  then show ?case by (subst kill_loop.simps) simp
next
  case (Cons c ts)
  then show ?case by (subst kill_loop.simps) (simp add: interrupt_idle)
qed

abbreviation threads_of :: "('f, 'w) pstate \<Rightarrow> pcbp \<Rightarrow> pcbp list \<Rightarrow> bool" where
  "threads_of s p ts \<equiv> chain (\<lambda>c. m_nextThread (p_thr s c)) (m_threads (p_proc s p)) ts"

definition sent :: "pcbp \<Rightarrow> shp \<Rightarrow> int \<Rightarrow> ('f, 'w) pstate \<Rightarrow> ('f, 'w) pstate" where
  "sent p h signum s =
     upd_task p (pcb_lock_update (\<lambda>_. passed s)) (s\<lparr>p_sh := (p_sh s)(h := sh_send signum (p_sh s h))\<rparr>)"

lemma kill_awake:
  assumes "0 < signum" and "signum < int NSIG" and "signum \<noteq> SIGCONT" and "m_signalHandler (p_task s p) = Some h"
    and "\<not> m_locked (pcb_lock (p_task s p))" and "pcb_state s p \<noteq> SLEEPING" and "pcb_state s p \<noteq> BLOCKED" and "threads_of s p ts"
  shows "kill p signum s = Some (Inr (0, sent p h signum s))"
proof -
  define s1 where "s1 = s\<lparr>p_sh := (p_sh s)(h := sh_send signum (p_sh s h))\<rparr>"
  define s2 where "s2 = masked (upd_task p (pcb_lock_update (\<lambda>_. held s1)) s1)"
  have "lock_pcb p s1 = Some (Inr s2)" using assms(5) lock_pcb_free [of s1 p] by (simp add: s1_def s2_def)
  moreover have "interrupt p s2 = Some (Inr s2)" "kill_loop p (m_threads (p_proc s2 p)) s2 = Some (Inr s2)"
    using assms(6-8) by (simp_all add: interrupt_idle kill_loop_idle [of _ _ ts] s2_def s1_def)
  moreover have "unlock_pcb p s2 = sent p h signum s"
    by (simp add: s2_def unlock_pcb_def release_def sent_def s1_def held_def passed_def upd_task_def masked_def setK_def)
  ultimately show ?thesis using assms(1-4) by (simp add: kill_def flip: s1_def)
qed

lemma sem_forceRemove_run:
  assumes "sem_queue i xs k" and "p \<in> set xs"
  obtains k1 where "sem_forceRemove i p k = Some (Inr k1)" "sem_queue i (remove1 p xs) k1"
    "\<And>q. m_state (k_pcb k1 q) = m_state (k_pcb k q)" "\<And>q. m_next (k_pcb k1 q) = m_next (k_pcb k q)"
    "\<And>q. m_waitingOnFutexKey (k_pcb k1 q) = m_waitingOnFutexKey (k_pcb k q)"
    "k_lock k1 = k_lock k" "m_list k1 = m_list k" "\<And>j. m_value (sems k1 j) = m_value (sems k j)"
proof -
  have q: "queue_of (\<lambda>p. m_semNext (k_pcb k p)) (m_blockedHead (sems k i)) (m_blockedTail (sems k i)) xs"
    using assms(1) by (simp add: sem_queue_def)
  obtain us vs where xs: "xs = us @ p # vs" using assms(2) by (auto simp: in_set_conv_decomp)
  have qr: "sem_queue i (remove1 p xs) (left_by k (sem_forceRemove i p k))"
    using sem_q.remove_queue [OF q assms(2)] by (simp add: sem_queue_def)
  show thesis
  proof (cases us rule: rev_cases)
    case Nil
    then have h: "m_blockedHead (sems k i) = Some p" using q by (simp add: xs queue_of_def)
    then have "sem_forceRemove i p k = Some (Inr (left_by k (sem_forceRemove i p k)))" by (simp add: sem_forceRemove_def Let_def)
    then show thesis using qr
      by (rule that) (simp_all add: h sem_forceRemove_def Let_def upd_pcb_def upd_sem_def)
  next
    case (snoc ws w)
    have q2: "queue_of (\<lambda>p. m_semNext (k_pcb k p)) (m_blockedHead (sems k i)) (m_blockedTail (sems k i)) (ws @ [w, p] @ vs)"
      using q by (simp add: xs snoc)
    note e = sem_forceRemove_inner [OF q2]
    then have "sem_forceRemove i p k = Some (Inr (left_by k (sem_forceRemove i p k)))" by simp
    then show thesis using qr
      by (rule that) (simp_all add: e upd_pcb_def upd_sem_def)
  qed
qed

lemma interrupt_blocked:
  assumes "pcb_state s p = BLOCKED" and "m_waitingOn (k_pcb (p_k s) p) = Some i" and "m_waitingOnFutexKey (k_pcb (p_k s) p) = 0"
    and "sem_queue i xs (p_k s)" and "p \<in> set xs" and "sched_ready (p_k s) ys" and "p \<notin> set ys"
  obtains k' where "interrupt p s = Some (Inr (s\<lparr>p_k := k'\<rparr>))" "sem_queue i (remove1 p xs) k'" "sched_ready k' (ys @ [p])"
    "\<And>q. m_state (k_pcb k' q) = (if q = p then READY else m_state (k_pcb (p_k s) q))"
    "m_waitingOn (k_pcb k' p) = None" "\<And>j. m_value (sems k' j) = m_value (sems (p_k s) j)"
proof -
  obtain k1 where k1: "sem_forceRemove i p (p_k s) = Some (Inr k1)" "sem_queue i (remove1 p xs) k1"
    "\<And>q. m_state (k_pcb k1 q) = m_state (k_pcb (p_k s) q)" "\<And>q. m_next (k_pcb k1 q) = m_next (k_pcb (p_k s) q)"
    "\<And>q. m_waitingOnFutexKey (k_pcb k1 q) = m_waitingOnFutexKey (k_pcb (p_k s) q)"
    "k_lock k1 = k_lock (p_k s)" "m_list k1 = m_list (p_k s)" "\<And>j. m_value (sems k1 j) = m_value (sems (p_k s) j)"
    by (rule sem_forceRemove_run [OF assms(4,5)]) (rule that; assumption)
  define k2 where "k2 = setState p READY (upd_pcb p (m_waitingOn_update (\<lambda>_. None)) k1)"
  have f2: "sems k2 = sems k1" "\<And>q. m_semNext (k_pcb k2 q) = m_semNext (k_pcb k1 q)" "m_waitingOn (k_pcb k2 p) = None"
    "\<And>q. m_state (k_pcb k2 q) = (if q = p then READY else m_state (k_pcb (p_k s) q))"
    by (simp_all add: k2_def setState_def upd_pcb_def k1(3))
  have r2: "sched_ready k2 ys"
    using assms(6) unfolding k2_def sched_ready_setState
    by (subst sched_ready_cong [of _ "p_k s"]) (simp_all add: upd_pcb_def k1)
  obtain k3 where k3: "Scheduler_put (Some p) k2 = Some (Inr k3)" "sched_ready k3 (ys @ [p])" "ready_frame k2 k3"
    by (rule Scheduler_put_ready [OF r2 assms(7)])
  have s3: "sems k3 = sems k2" by (rule more_eqD(1) [OF ready_frameD(11) [OF k3(3)]])
  let ?s1 = "setK (upd_pcb p (m_waitingOn_update (\<lambda>_. None))) (s\<lparr>p_k := k1\<rparr>)"
  have "onK (sem_forceRemove i p) s = Some (Inr (s\<lparr>p_k := k1\<rparr>))" by (simp add: onK_def k1(1))
  moreover have "m_waitingOnFutexKey (k_pcb (p_k ?s1) p) = 0" "pcb_state ?s1 p = BLOCKED"
    using assms(1,3) k1(3,5) by (simp_all add: upd_pcb_def)
  moreover have "onK (Scheduler_put (Some p)) (setK (setState p READY) ?s1) = Some (Inr (s\<lparr>p_k := k3\<rparr>))"
    by (simp add: onK_def setK_def k3(1) flip: k2_def)
  ultimately have "interrupt p s = Some (Inr (s\<lparr>p_k := k3\<rparr>))"
    using assms(1,2) by (simp add: interrupt_def)
  moreover have "sem_queue i (remove1 p xs) k3"
    using k1(2) by (subst sem_queue_cong [of _ _ k1]) (simp_all add: s3 f2 ready_frameD(3) [OF k3(3)])
  ultimately show thesis
    by (rule that) (simp_all add: k3(2) ready_frameD(1,6) [OF k3(3)] f2 s3 k1(8))
qed

section \<open>Waiting\<close>

text \<open>The state after a lock of a process has been taken and released.\<close>

definition visited :: "pcbp \<Rightarrow> ('f, 'w) pstate \<Rightarrow> ('f, 'w) pstate" where
  "visited p s = upd_task p (pcb_lock_update (\<lambda>_. passed s)) s"

definition entered :: "pcbp \<Rightarrow> ('f, 'w) pstate \<Rightarrow> ('f, 'w) pstate" where
  "entered p s = masked (upd_task p (pcb_lock_update (\<lambda>_. held s)) s)"

lemma entered_simps [simp]:
  "p_k (entered p s) = (p_k s)\<lparr>k_sie := False\<rparr>" "p_proc (entered p s) = p_proc s" "p_thr (entered p s) = p_thr s"
  "m_pid (p_task (entered p s) q) = m_pid (p_task s q)"
  by (simp_all add: entered_def)

lemma visited_simps [simp]:
  "p_k (visited p s) = p_k s" "p_proc (visited p s) = p_proc s" "p_thr (visited p s) = p_thr s"
  "m_pid (p_task (visited p s) q) = m_pid (p_task s q)" "\<not> m_locked (pcb_lock (p_task (visited p s) p))"
  "visited p (visited p s) = visited p s"
  by (simp_all add: visited_def passed_def upd_task_def)

lemma lock_unlock:
  "\<not> m_locked (pcb_lock (p_task s p)) \<Longrightarrow> lock_pcb p s = Some (Inr (entered p s))"
  "unlock_pcb p (entered p s) = visited p s"
  "unlock_pcb p (upd_proc q f s) = upd_proc q f (unlock_pcb p s)"
  by (simp_all add: entered_def visited_def lock_pcb_free unlock_pcb_def release_def held_def passed_def masked_def setK_def
      upd_task_def upd_proc_def)

abbreviation children_of :: "('f, 'w) pstate \<Rightarrow> pcbp \<Rightarrow> pcbp list \<Rightarrow> bool" where
  "children_of s q cs \<equiv> chain (sibling s) (m_firstChild (p_proc s q)) cs"

definition zombies :: "('f, 'w) pstate \<Rightarrow> pcbp list \<Rightarrow> pcbp list" where
  "zombies s cs = filter (\<lambda>c. pcb_state s c = ZOMBIE) cs"

text \<open>
  \<open>counted s q cs\<close>: \<open>cs\<close> are the children of \<open>q\<close>, and the semaphore that \<open>q\<close> waits on holds one unit for every one of them
  that has ended.
\<close>

definition counted :: "('f, 'w) pstate \<Rightarrow> pcbp \<Rightarrow> pcbp list \<Rightarrow> bool" where
  "counted s q cs \<longleftrightarrow> \<not> m_locked (pcb_lock (p_task s q)) \<and> q \<notin> set cs \<and> children_of s q cs \<and>
     sem_waiters (m_selfSem (p_proc s q)) [] (p_k s) \<and>
     unat (m_value (sems (p_k s) (m_selfSem (p_proc s q)))) = length (zombies s cs)"

lemma waits_for_any [simp]: "waits_for (- 1) s c \<longleftrightarrow> pcb_state s c = ZOMBIE"
  by (simp add: waits_for_def)

lemma waits_for_entered [simp]: "waits_for pid (entered q s) = waits_for pid s" "waits_for pid (visited q s) = waits_for pid s"
  by (rule ext; simp add: waits_for_def)+

lemma wait_check_any:
  assumes "\<not> m_locked (pcb_lock (p_task s q))" and "children_of s q cs"
  shows "wait_check q (- 1) options s =
    Some (Inr (if cs = [] then Some (- 1) else if options AND WNOHANG \<noteq> 0 \<and> zombies s cs = [] then Some 0 else None, visited q s))"
proof -
  have f: "m_firstChild (p_proc s q) = None \<longleftrightarrow> cs = []" using chain_None_iff [OF assms(2)] .
  have z: "fst (first_of (dropWhile (\<lambda>c. pcb_state s c \<noteq> ZOMBIE) cs), x) = None \<longleftrightarrow> zombies s cs = []" for x :: "pcbp option"
    by (induction cs) (auto simp: zombies_def)
  show ?thesis
  proof (cases "cs = []")
    case True
    then show ?thesis by (simp add: wait_check_def lock_unlock assms(1) f)
  next
    case False
    have "search_list (waits_for (- 1) s) (sibling s) (m_firstChild (p_proc s q)) None =
      Some (Inr (first_of (dropWhile (\<lambda>c. pcb_state s c \<noteq> ZOMBIE) cs),
        let us = takeWhile (\<lambda>c. pcb_state s c \<noteq> ZOMBIE) cs in if us = [] then None else Some (last us)))"
      using search_list_spec [OF assms(2), of "waits_for (- 1) s" None] by simp
    then show ?thesis using False z by (simp add: wait_check_def lock_unlock assms(1) f Let_def)
  qed
qed

lemma wait_check_none:
  assumes "\<not> m_locked (pcb_lock (p_task s q))" and "children_of s q []"
  shows "wait_check q pid options s = Some (Inr (Some (- 1), visited q s))"
  using assms by (simp add: wait_check_def lock_unlock)

definition reaped :: "pcbp \<Rightarrow> pcbp \<Rightarrow> pcbp list \<Rightarrow> ('f, 'w) pstate \<Rightarrow> ('f, 'w) pstate" where
  "reaped q z us s =
     upd_proc z (m_reaped_update (\<lambda>_. True))
       (if us = [] then upd_proc q (m_firstChild_update (\<lambda>_. m_nextSibling (p_proc s z))) (visited q s)
        else upd_proc (last us) (m_nextSibling_update (\<lambda>_. m_nextSibling (p_proc s z))) (visited q s))"

lemma wait_status_sibling [simp]:
  "wait_status (z\<lparr>m_nextSibling := n\<rparr>) = wait_status z" "wait_status (z\<lparr>m_firstChild := n\<rparr>) = wait_status z"
  by (simp_all add: wait_status_def)

lemma wait_collect_hit:
  assumes "\<not> m_locked (pcb_lock (p_task s q))" and "children_of s q (us @ z # vs)"
    and "waits_for pid s z" and "\<forall>u \<in> set us. \<not> waits_for pid s u"
  shows "wait_collect q pid s = Some (Inr (m_pid (p_task s z), Some (wait_status (p_proc s z)), reaped q z us s))"
proof -
  note f = search_list_hit [OF assms(2), of "waits_for pid s", OF assms(3,4)]
  show ?thesis
  proof (cases "us = []")
    case True
    have f1: "search_list (waits_for pid s) (sibling s) (m_firstChild (p_proc s q)) None = Some (Inr (Some z, None))"
      using f by (simp add: True)
    show ?thesis by (simp add: wait_collect_def lock_unlock assms(1) f1 True Let_def reaped_def)
  next
    case False
    have f1: "search_list (waits_for pid s) (sibling s) (m_firstChild (p_proc s q)) None = Some (Inr (Some z, Some (last us)))"
      using f by (simp add: False)
    show ?thesis by (simp add: wait_collect_def lock_unlock assms(1) f1 False Let_def reaped_def)
  qed
qed

lemma wait_collect_miss:
  assumes "\<not> m_locked (pcb_lock (p_task s q))" and "children_of s q cs" and "\<forall>u \<in> set cs. \<not> waits_for pid s u"
  shows "wait_collect q pid s = Some (Inr (- 1, None, visited q s))"
proof -
  have f: "search_list (waits_for pid s) (sibling s) (m_firstChild (p_proc s q)) None =
      Some (Inr (None, if cs = [] then None else Some (last cs)))"
    by (rule search_list_miss [OF assms(2,3)])
  show ?thesis by (simp add: wait_collect_def lock_unlock assms(1) f)
qed

lemma reaped_children:
  assumes "children_of s q (us @ z # vs)" and "q \<notin> set (us @ z # vs)"
  shows "children_of (reaped q z us s) q (us @ vs)" and "m_reaped (p_proc (reaped q z us s) z)"
    and "p_k (reaped q z us s) = p_k s" and "m_selfSem (p_proc (reaped q z us s) p) = m_selfSem (p_proc s p)"
    and "\<not> m_locked (pcb_lock (p_task (reaped q z us s) q))"
proof -
  have k: "m_nextSibling (if c = z then (f z)\<lparr>m_reaped := True\<rparr> else f c) = m_nextSibling (f c)" for c and f :: "pcbp \<Rightarrow> Process"
    by simp
  show "children_of (reaped q z us s) q (us @ vs)"
  proof (cases "us = []")
    case True
    have "chain (sibling (reaped q z us s)) (m_nextSibling (p_proc s z)) vs = chain (sibling s) (m_nextSibling (p_proc s z)) vs"
      by (rule seg_cong) (auto simp: reaped_def True)
    then show ?thesis using chain_cut(1) [OF assms(1) True] assms(2) by (simp add: True) (simp add: reaped_def)
  next
    case False
    have "sibling (reaped q z us s) = (sibling s)(last us := m_nextSibling (p_proc s z))"
      by (auto simp: reaped_def False)
    moreover have "m_firstChild (p_proc (reaped q z us s) q) = m_firstChild (p_proc s q)" by (simp add: reaped_def False)
    ultimately show ?thesis using chain_cut(2) [OF assms(1) False] by simp
  qed
qed (simp_all add: reaped_def)
lemma p_sem_wait_takes:
  assumes "sem_waiters i [] (p_k s)" and "m_value (sems (p_k s) i) \<noteq> 0"
  shows "p_sem_wait i s = Some (Inr (Here (setK (\<lambda>k. upd_sem i
    (\<lambda>x. x\<lparr>m_value := m_value x - 1, sem_mlock := \<lparr>m_locked = False, m_pie = k_sie k\<rparr>\<rparr>) k) s)))"
proof -
  have "\<not> m_locked (sem_mlock (sems (p_k s) i))" using assms(1) by (simp add: sem_waiters_def)
  then have "sem_wait i (p_k s) = Some (Inr (upd_sem i
      (\<lambda>x. x\<lparr>m_value := m_value x - 1, sem_mlock := \<lparr>m_locked = False, m_pie = k_sie (p_k s)\<rparr>\<rparr>) (p_k s)))"
    using assms(2) by (simp add: sem_wait_def lock_sem_def acquire_def unlock_sem_def release_def upd_sem_def)
  then show ?thesis by (simp add: p_sem_wait_def Let_def setK_def)
qed

lemma unat_pred: "(w :: 'a :: len word) \<noteq> 0 \<Longrightarrow> unat (w - 1) = unat w - 1"
  by (rule unat_minus_one)

text \<open>What waiting takes from the semaphore.\<close>

definition took :: "pcbp \<Rightarrow> ('f, 'w) pstate \<Rightarrow> ('f, 'w) pstate" where
  "took q s = setK (\<lambda>k. upd_sem (m_selfSem (p_proc s q))
     (\<lambda>x. x\<lparr>m_value := m_value x - 1, sem_mlock := \<lparr>m_locked = False, m_pie = k_sie k\<rparr>\<rparr>) k) s"

lemma took_simps [simp]:
  "p_task (took q s) = p_task s" "p_proc (took q s) = p_proc s" "p_thr (took q s) = p_thr s"
  "pcb_state (took q s) c = pcb_state s c" "waits_for pid (took q s) = waits_for pid s" "zombies (took q s) cs = zombies s cs"
  "m_value (sems (p_k (took q s)) (m_selfSem (p_proc s q))) = m_value (sems (p_k s) (m_selfSem (p_proc s q))) - 1"
  by (simp_all add: took_def waits_for_def [abs_def] zombies_def)

lemma took_waiters:
  "sem_waiters (m_selfSem (p_proc s q)) [] (p_k s) \<Longrightarrow> sem_waiters (m_selfSem (p_proc s q)) [] (p_k (took q s))"
  by (simp add: took_def sem_waiters_def sem_queue_def)

lemma zombies_split: "zombies s cs = z # zs \<Longrightarrow> \<exists>us vs. cs = us @ z # vs \<and> zombies s us = [] \<and> zombies s vs = zs \<and> pcb_state s z = ZOMBIE"
  by (auto simp: zombies_def filter_eq_Cons_iff filter_empty_conv)

lemma process_wait_takes:
  assumes "wait_check q pid options s = Some (Inr (None, visited q s))"
    and "sem_waiters (m_selfSem (p_proc s q)) [] (p_k s)" and "m_value (sems (p_k s) (m_selfSem (p_proc s q))) \<noteq> 0"
  shows "process_wait q pid options s =
    bindR (wait_collect q pid (took q (visited q s))) (\<lambda>(v, st, s3). Some (Inr (Some (v, st), s3)))"
  using p_sem_wait_takes [of "m_selfSem (p_proc s q)" "visited q s"] assms by (simp add: process_wait_def took_def)

text \<open>
  C10: waiting for any child keeps count. As long as the semaphore of a process holds one unit for every child that has ended,
  \<^verbatim>\<open>wait(-1)\<close> gives the number and the status of the first such child, takes it out of the list of children and marks it as
  collected; without one it returns 0 when asked not to block and otherwise blocks the process; without any child it returns -1.
  Whenever it returns, the semaphore still counts the ended children.
\<close>

theorem wait_any_child:
  assumes "counted s q cs" and "s_running (p_k s) = q" and "sched_ready (p_k s) ys"
  shows "if cs = [] then \<exists>s'. process_wait q (- 1) options s = Some (Inr (Some (- 1, None), s')) \<and> counted s' q cs
    else (case zombies s cs of
      z # _ \<Rightarrow> \<exists>s'. process_wait q (- 1) options s = Some (Inr (Some (m_pid (p_task s z), Some (wait_status (p_proc s z))), s')) \<and>
        counted s' q (remove1 z cs) \<and> m_reaped (p_proc s' z)
    | [] \<Rightarrow>
        if options AND WNOHANG \<noteq> 0 then \<exists>s'. process_wait q (- 1) options s = Some (Inr (Some (0, None), s')) \<and> counted s' q cs
        else \<forall>p vs. dropWhile (\<lambda>c. c = q \<or> pcb_state s c \<noteq> READY) ys = p # vs \<longrightarrow>
          (\<exists>s'. process_wait q (- 1) options s = Some (Inr (None, s')) \<and> s_running (p_k s') = p \<and> pcb_state s' q = BLOCKED \<and>
            sem_waiters (m_selfSem (p_proc s q)) [q] (p_k s')))"
proof -
  have c: "\<not> m_locked (pcb_lock (p_task s q))" "q \<notin> set cs" "children_of s q cs" "sem_waiters (m_selfSem (p_proc s q)) [] (p_k s)"
    "unat (m_value (sems (p_k s) (m_selfSem (p_proc s q)))) = length (zombies s cs)"
    using assms(1) by (simp_all add: counted_def)
  note chk = wait_check_any [OF c(1,3), of options]
  have v: "counted (visited q s) q cs" using c by (simp add: counted_def zombies_def)
  show ?thesis
  proof (cases "cs = []")
    case True
    then show ?thesis using chk v by (simp add: process_wait_def)
  next
    case ne: False
    show ?thesis
    proof (cases "zombies s cs")
      case (Cons z zs)
      obtain us vs where cs: "cs = us @ z # vs" "zombies s us = []" "zombies s vs = zs" "pcb_state s z = ZOMBIE"
        using zombies_split [OF Cons] by blast
      let ?t = "took q (visited q s)"
      have nz: "m_value (sems (p_k s) (m_selfSem (p_proc s q))) \<noteq> 0" using c(5) Cons by auto
      have w: "wait_collect q (- 1) ?t = Some (Inr (m_pid (p_task s z), Some (wait_status (p_proc s z)), reaped q z us ?t))"
        using wait_collect_hit [of ?t q us z vs "- 1"] c(1,3) cs by (simp add: zombies_def filter_empty_conv)
      have "process_wait q (- 1) options s =
          Some (Inr (Some (m_pid (p_task s z), Some (wait_status (p_proc s z))), reaped q z us ?t))"
        using process_wait_takes [of q "- 1" options s] chk ne Cons c(4) nz w by simp
      moreover have "counted (reaped q z us ?t) q (remove1 z cs)"
      proof -
        have r: "remove1 z cs = us @ vs" using chain_distinct [OF c(3)] by (simp add: cs(1) remove1_append)
        have ch: "children_of ?t q (us @ z # vs)" "q \<notin> set (us @ z # vs)" using c(2,3) by (simp_all add: cs(1))
        note rc = reaped_children [OF ch]
        have tv: "m_value (sems (p_k ?t) (m_selfSem (p_proc s q))) = m_value (sems (p_k s) (m_selfSem (p_proc s q))) - 1"
          by (simp add: took_def)
        have "zombies (reaped q z us ?t) (us @ vs) = zs" using cs(2,3) by (simp add: zombies_def rc(3))
        then show ?thesis
          using rc(1,5) ch(2) took_waiters [of "visited q s" q] c(4,5) Cons unat_pred [OF nz] by (simp add: counted_def r rc(3,4) tv)
      qed
      moreover have "m_reaped (p_proc (reaped q z us ?t) z)" by (simp add: reaped_def)
      ultimately show ?thesis unfolding Cons list.case if_not_P [OF ne] by blast
    next
      case Nil
      show ?thesis
      proof (cases "options AND WNOHANG = 0")
        case False
        have "process_wait q (- 1) options s = Some (Inr (Some (0, None), visited q s))"
          using chk ne Nil False by (simp add: process_wait_def)
        then show ?thesis unfolding Nil list.case if_not_P [OF ne] if_P [OF False] using v by blast
      next
        case True
        have "\<exists>s'. process_wait q (- 1) options s = Some (Inr (None, s')) \<and> s_running (p_k s') = p \<and> pcb_state s' q = BLOCKED \<and>
            sem_waiters (m_selfSem (p_proc s q)) [q] (p_k s')"
          if d: "dropWhile (\<lambda>c. c = q \<or> pcb_state s c \<noteq> READY) ys = p # vs" for p vs
        proof -
          have z: "m_value (sems (p_k s) (m_selfSem (p_proc s q))) = 0" using c(5) Nil by (simp add: unat_eq_zero)
          have none: "s_running (p_k s) \<notin> set []" by simp
          have pq: "p \<noteq> q" using dropWhile_split [OF d] by blast
          obtain k' where k': "sem_wait (m_selfSem (p_proc s q)) (p_k s) = Some (Inr k')"
            "sem_waiters (m_selfSem (p_proc s q)) ([] @ [s_running (p_k s)]) k'" "s_running k' = p"
            "\<And>x. m_state (k_pcb k' x) = (if x = p then RUNNING else if x = s_running (p_k s) then BLOCKED else m_state (k_pcb (p_k s) x))"
            by (rule sem_wait_blocks [OF c(4) assms(3) z none d [folded assms(2)]]) (rule that; assumption)
          have "p_sem_wait (m_selfSem (p_proc s q)) (visited q s) = Some (Inr (Away ((visited q s)\<lparr>p_k := k'\<rparr>)))"
            using k'(1,3) pq assms(2) by (simp add: p_sem_wait_def Let_def)
          then have "process_wait q (- 1) options s = Some (Inr (None, (visited q s)\<lparr>p_k := k'\<rparr>))"
            using chk ne Nil True by (simp add: process_wait_def)
          then show ?thesis using k'(2-4) pq assms(2) by simp
        qed
        then show ?thesis unfolding Nil list.case if_not_P [OF ne] using True by simp
      qed
    qed
  qed
qed

text \<open>
  Waiting for one particular child does not keep count: when another child has ended, the unit of that child is taken, the
  call returns -1 although the child it asked for exists, and the child that has ended is left without a unit, so that a
  later \<^verbatim>\<open>wait\<close> for it blocks.
\<close>

theorem wait_for_running_child_loses_count:
  assumes "counted s q cs" and "c \<in> set cs" and "pcb_state s c \<noteq> ZOMBIE" and "zombies s cs = [z]"
    and "m_pid (p_task s c) = pid" and "m_pid (p_task s z) \<noteq> pid" and "pid \<noteq> - 1"
  shows "\<exists>s'. process_wait q pid 0 s = Some (Inr (Some (- 1, None), s')) \<and> children_of s' q cs \<and> zombies s' cs = [z] \<and>
    m_value (sems (p_k s') (m_selfSem (p_proc s' q))) = 0"
proof -
  have k: "\<not> m_locked (pcb_lock (p_task s q))" "children_of s q cs" "sem_waiters (m_selfSem (p_proc s q)) [] (p_k s)"
    "unat (m_value (sems (p_k s) (m_selfSem (p_proc s q)))) = 1"
    using assms(1,4) by (simp_all add: counted_def)
  have v1: "m_value (sems (p_k s) (m_selfSem (p_proc s q))) = 1" using k(4) by (simp add: word_unat_eq_iff)
  have "\<exists>x b. search_list (\<lambda>c. m_pid (p_task s c) = pid) (sibling s) (m_firstChild (p_proc s q)) None = Some (Inr (Some x, b))"
  proof -
    have "dropWhile (\<lambda>c. m_pid (p_task s c) \<noteq> pid) cs \<noteq> []" using assms(2,5) by (auto simp: dropWhile_eq_Nil_conv)
    then obtain x xs where "dropWhile (\<lambda>c. m_pid (p_task s c) \<noteq> pid) cs = x # xs" by (cases "dropWhile (\<lambda>c. m_pid (p_task s c) \<noteq> pid) cs") auto
    then show ?thesis by (simp add: search_list_spec [OF k(2)])
  qed
  then obtain x b where f: "search_list (\<lambda>c. m_pid (p_task s c) = pid) (sibling s) (m_firstChild (p_proc s q)) None = Some (Inr (Some x, b))"
    by blast
  have ne: "m_firstChild (p_proc s q) \<noteq> None" using chain_None_iff [OF k(2)] assms(2) by auto
  have chk: "wait_check q pid 0 s = Some (Inr (None, visited q s))"
    using ne assms(7) f by (simp add: wait_check_def lock_unlock k(1) Let_def)
  let ?t = "took q (visited q s)"
  have "u = z" if "u \<in> set cs" "pcb_state s u = ZOMBIE" for u
  proof -
    have "u \<in> set (zombies s cs)" using that by (simp add: zombies_def)
    then show ?thesis by (simp add: assms(4))
  qed
  then have "\<forall>u \<in> set cs. \<not> waits_for pid s u" using assms(6,7) by (auto simp: waits_for_def)
  then have w: "wait_collect q pid ?t = Some (Inr (- 1, None, visited q ?t))"
    using wait_collect_miss [of ?t q cs pid] k(1,2) by simp
  have "process_wait q pid 0 s = Some (Inr (Some (- 1, None), visited q ?t))"
    using process_wait_takes [OF chk k(3)] v1 w by simp
  moreover have "children_of (visited q ?t) q cs" "zombies (visited q ?t) cs = [z]"
    using k(2) assms(4) by (simp_all add: zombies_def)
  moreover have "m_value (sems (p_k (visited q ?t)) (m_selfSem (p_proc (visited q ?t) q))) = 0"
    using v1 by (simp add: took_def)
  ultimately show ?thesis by blast
qed
section \<open>Ending\<close>

text \<open>What is left of a process object when its resources are gone.\<close>

definition bare :: "Process \<Rightarrow> Process" where
  "bare x = x\<lparr>m_allNext := None, m_fdTable := None, m_mmap := None, m_segTable := None, m_cwdPath := None\<rparr>"

lemma bareD:
  assumes "bare x = bare y"
  shows "m_threads x = m_threads y" "m_parent x = m_parent y" "m_nextSibling x = m_nextSibling y" "m_firstChild x = m_firstChild y"
    "m_exitCode x = m_exitCode y" "m_termSignal x = m_termSignal y" "m_selfSem x = m_selfSem y" "m_reaped x = m_reaped y"
    "m_pgid x = m_pgid y" "m_sid x = m_sid y"
  using assms by (cases x; cases y; simp add: bare_def)+

lemma bare_simps [simp]:
  "bare (x\<lparr>m_allNext := n\<rparr>) = bare x" "bare (x\<lparr>m_fdTable := d\<rparr>) = bare x"
  "bare (x\<lparr>m_mmap := None, m_segTable := None, m_cwdPath := None\<rparr>) = bare x"
  by (simp_all add: bare_def)

definition mappings_end :: "('f, 'w) pstate \<Rightarrow> pcbp \<Rightarrow> bool" where
  "mappings_end s p \<longleftrightarrow>
     (case m_mmap (p_proc s p) of None \<Rightarrow> True | Some mm \<Rightarrow> \<exists>w. Mmap_dtor (mm_pmt mm) (mm_head mm) (p_mw s) = Some (Inr w))"

lemma release_fds_frame:
  "p_k (release_fds cf p s) = p_k s" "p_task (release_fds cf p s) = p_task s" "p_sh (release_fds cf p s) = p_sh s"
  "bare (p_proc (release_fds cf p s) r) = bare (p_proc s r)" "garbage (release_fds cf p s) = garbage s" "p_mw (release_fds cf p s) = p_mw s"
  "m_allNext (p_proc (release_fds cf p s) r) = m_allNext (p_proc s r)" "m_mmap (p_proc (release_fds cf p s) r) = m_mmap (p_proc s r)"
  "s_allHead (release_fds cf p s) = s_allHead s" "s_allLock (release_fds cf p s) = s_allLock s" "p_thr (release_fds cf p s) = p_thr s"
  by (simp_all add: release_fds_def split: option.split prod.split)

lemma release_space_run:
  assumes "mappings_end s p"
  obtains s' where "release_space p s = Some (Inr s')" "p_k s' = p_k s" "p_task s' = p_task s" "p_sh s' = p_sh s" "garbage s' = garbage s"
    "\<And>r. bare (p_proc s' r) = bare (p_proc s r)" "\<And>r. m_allNext (p_proc s' r) = m_allNext (p_proc s r)" "p_thr s' = p_thr s"
    "s_allHead s' = s_allHead s" "s_allLock s' = s_allLock s" "m_mmap (p_proc s' p) = None" "m_cwdPath (p_proc s' p) = None"
    "m_fdTable (p_proc s' p) = m_fdTable (p_proc s p)"
proof -
  obtain w where "(case m_mmap (p_proc s p) of None \<Rightarrow> Some (Inr (p_mw s)) | Some mm \<Rightarrow> Mmap_dtor (mm_pmt mm) (mm_head mm) (p_mw s)) = Some (Inr w)"
    using assms by (auto simp: mappings_end_def split: option.splits)
  then have "release_space p s =
    Some (Inr (upd_proc p (\<lambda>x. x\<lparr>m_mmap := None, m_segTable := None, m_cwdPath := None\<rparr>) (s\<lparr>p_mw := w\<rparr>)))"
    by (simp add: release_space_def)
  then show thesis by (rule that) simp_all
qed

lemma bindC_simps [simp]:
  "bindC (Some (Inr (Here s))) f = f s" "bindC (Some (Inr (Away s))) f = Some (Inr (Away s))"
  by (simp_all add: bindC_def)

lemma garbage_put_simps [simp]:
  "p_k (garbage_put p s) = p_k s" "p_task (garbage_put p s) = p_task s" "p_sh (garbage_put p s) = p_sh s" "p_proc (garbage_put p s) = p_proc s"
  "s_allHead (garbage_put p s) = s_allHead s" "s_allLock (garbage_put p s) = s_allLock s" "p_thr (garbage_put p s) = p_thr s"
  "p \<in> set (case garbage (garbage_put p s) of None \<Rightarrow> [] | Some xs \<Rightarrow> xs)"
  by (simp_all add: garbage_put_def split: option.split)

lemma unlock_pcb_frame:
  "p_k (unlock_pcb p s) = (p_k s)\<lparr>k_sie := k_sie (p_k s) \<or> m_pie (pcb_lock (p_task s p))\<rparr>"
  "p_task (unlock_pcb p s) = (p_task s)(p := (p_task s p)\<lparr>pcb_lock := (pcb_lock (p_task s p))\<lparr>m_locked := False\<rparr>\<rparr>)"
  "p_sh (unlock_pcb p s) = p_sh s" "p_proc (unlock_pcb p s) = p_proc s" "garbage (unlock_pcb p s) = garbage s"
  "s_allHead (unlock_pcb p s) = s_allHead s" "s_allLock (unlock_pcb p s) = s_allLock s" "p_thr (unlock_pcb p s) = p_thr s"
  by (simp_all add: unlock_pcb_def release_def)

text \<open>The part of \<^verbatim>\<open>exit\<close> behind the messages to the parent, for a process without threads.\<close>

lemma exit_tail:
  assumes "m_threads (p_proc t c) = None" and "all_procs t xs" and "mappings_end t c" and "sched_ready (p_k t) ys" and "s_running (p_k t) = c"
    and "dropWhile (\<lambda>x. x = c \<or> pcb_state t x \<noteq> READY) ys = p # vs"
  obtains s' where
    "bindC (Process_clear cf c (setK (setState c ZOMBIE) t)) (\<lambda>s7. p_yield (unlock_pcb c (garbage_put c s7))) = Some (Inr (Away s'))"
    "all_procs s' (remove1 c xs)" "\<And>r. bare (p_proc s' r) = bare (p_proc t r)" "p_thr s' = p_thr t"
    "m_fdTable (p_proc s' c) = m_fdTable (p_proc (release_fds cf c t) c)" "m_mmap (p_proc s' c) = None"
    "p_task s' = (p_task t)(c := (p_task t c)\<lparr>pcb_lock := (pcb_lock (p_task t c))\<lparr>m_locked := False\<rparr>\<rparr>)" "p_sh s' = p_sh t"
    "c \<in> set (case garbage s' of None \<Rightarrow> [] | Some xs \<Rightarrow> xs)"
    "s_running (p_k s') = p" "sched_ready (p_k s') vs" "sems (p_k s') = sems (p_k t)"
    "\<And>x. m_semNext (k_pcb (p_k s') x) = m_semNext (k_pcb (p_k t) x)"
    "\<And>x. pcb_state s' x = (if x = p then RUNNING else if x = c then ZOMBIE else pcb_state t x)"
proof -
  let ?t1 = "setK (setState c ZOMBIE) t"
  have a1: "all_procs ?t1 xs" using assms(2) by (simp add: all_procs_def)
  obtain t2 where t2: "unregisterProcess c ?t1 = Some (Inr t2)" "all_procs t2 (remove1 c xs)" "p_k t2 = p_k ?t1" "p_task t2 = p_task ?t1"
    "\<And>r. (p_proc t2 r)\<lparr>m_allNext := None\<rparr> = (p_proc ?t1 r)\<lparr>m_allNext := None\<rparr>" "p_thr t2 = p_thr ?t1" "p_sh t2 = p_sh ?t1"
    "p_fdt t2 = p_fdt ?t1" "p_fw t2 = p_fw ?t1" "p_mw t2 = p_mw ?t1" "garbage t2 = garbage ?t1"
    by (rule unregister_run [OF a1]) (rule that; assumption)
  have sel: "m_threads (p_proc t2 r) = m_threads (p_proc t r)" "m_mmap (p_proc t2 r) = m_mmap (p_proc t r)"
    "m_fdTable (p_proc t2 r) = m_fdTable (p_proc t r)" "bare (p_proc t2 r) = bare (p_proc t r)" for r
    using arg_cong [OF t2(5) [of r], of m_threads] arg_cong [OF t2(5) [of r], of m_mmap] arg_cong [OF t2(5) [of r], of m_fdTable]
      arg_cong [OF t2(5) [of r], of bare] by simp_all
  let ?t3 = "release_fds cf c t2"
  have me: "mappings_end ?t3 c" using assms(3) by (simp add: mappings_end_def release_fds_frame sel t2(10) split: option.splits)
  obtain t4 where t4: "release_space c ?t3 = Some (Inr t4)" "p_k t4 = p_k ?t3" "p_task t4 = p_task ?t3" "p_sh t4 = p_sh ?t3" "garbage t4 = garbage ?t3"
    "\<And>r. bare (p_proc t4 r) = bare (p_proc ?t3 r)" "\<And>r. m_allNext (p_proc t4 r) = m_allNext (p_proc ?t3 r)" "p_thr t4 = p_thr ?t3"
    "s_allHead t4 = s_allHead ?t3" "s_allLock t4 = s_allLock ?t3" "m_mmap (p_proc t4 c) = None"
    "m_fdTable (p_proc t4 c) = m_fdTable (p_proc ?t3 c)"
    by (rule release_space_run [OF me]) (rule that; assumption)
  have "exit_threads (\<lambda>_. False) (m_threads (p_proc t2 c)) t2 = Some (Inr (Here t2))"
    by (subst exit_threads.simps) (simp add: sel assms(1))
  then have pc: "Process_clear cf c ?t1 = Some (Inr (Here t4))" by (simp add: Process_clear_def t2(1) t4(1))
  define u where "u = unlock_pcb c (garbage_put c t4)"
  define b where "b = (k_sie (p_k t) \<or> m_pie (pcb_lock (p_task t c)))"
  have uk: "p_k u = (setState c ZOMBIE (p_k t))\<lparr>k_sie := b\<rparr>"
    by (simp add: u_def unlock_pcb_frame t4(2,3) release_fds_frame t2(3,4) b_def setState_def upd_pcb_def)
  have r: "sched_ready (p_k u) ys" using assms(4) by (subst sched_ready_cong [of _ "p_k t"]) (simp_all add: uk setState_def upd_pcb_def)
  have np: "\<not> preempted (p_k u)" using assms(5) by (simp add: preempted_def uk setState_def upd_pcb_def)
  have "(\<lambda>x. \<not> runnable (p_k u) x) = (\<lambda>x. x = c \<or> pcb_state t x \<noteq> READY)"
    using np by (auto simp: runnable_def fun_eq_iff uk setState_def upd_pcb_def)
  then have cand: "candidates (p_k u) ys = p # vs" using assms(6) np by (simp add: candidates_def)
  have e: "preempted (p_k u) \<longrightarrow> s_running (p_k u) \<notin> set ys" "\<not> (ys = [] \<and> preempted (p_k u))" using np by simp_all
  obtain k' where k': "dispatch (p_k u) = Some (Inr k')" "s_running k' = p" "sched_ready k' vs"
    "\<And>q. m_state (k_pcb k' q) = (if q = p then RUNNING
       else if preempted (p_k u) \<and> q = s_running (p_k u) then READY else m_state (k_pcb (p_k u) q))"
    "\<And>q. m_semNext (k_pcb k' q) = m_semNext (k_pcb (p_k u) q)" "kstate.more k' = kstate.more (p_k u)"
    by (rule dispatch_to [OF r e cand]) (rule that; assumption)
  have st: "m_state (k_pcb k' x) = (if x = p then RUNNING else m_state (k_pcb (p_k u) x))" for x using k'(4) [of x] np by simp
  have pc': "p \<noteq> c" using dropWhile_split [OF assms(6)] by blast
  have run: "s_running (p_k u) = c" using assms(5) by (simp add: uk setState_def upd_pcb_def)
  have y: "p_yield u = Some (Inr (Away (u\<lparr>p_k := k'\<rparr>)))"
    using k'(1,2) pc' run by (simp add: p_yield_def yield_def Let_def)
  show thesis
  proof (rule that [of "u\<lparr>p_k := k'\<rparr>"])
    show "bindC (Process_clear cf c ?t1) (\<lambda>s7. p_yield (unlock_pcb c (garbage_put c s7))) = Some (Inr (Away (u\<lparr>p_k := k'\<rparr>)))"
      using y by (simp add: pc u_def)
    show "all_procs (u\<lparr>p_k := k'\<rparr>) (remove1 c xs)"
      using t2(2) by (simp add: all_procs_def u_def unlock_pcb_frame t4(7,9,10) release_fds_frame)
    show "m_fdTable (p_proc (u\<lparr>p_k := k'\<rparr>) c) = m_fdTable (p_proc (release_fds cf c t) c)"
      by (simp add: u_def unlock_pcb_frame t4(12) release_fds_def sel t2(8,9) split: option.split prod.split)
    show "sems (p_k (u\<lparr>p_k := k'\<rparr>)) = sems (p_k t)"
      using more_eqD(1) [OF k'(6)] by (simp add: uk setState_def upd_pcb_def)
    show "m_semNext (k_pcb (p_k (u\<lparr>p_k := k'\<rparr>)) x) = m_semNext (k_pcb (p_k t) x)" for x
      by (simp add: k'(5) uk setState_def upd_pcb_def)
    show "pcb_state (u\<lparr>p_k := k'\<rparr>) x = (if x = p then RUNNING else if x = c then ZOMBIE else pcb_state t x)" for x
      by (simp add: st uk setState_def upd_pcb_def)
    show "c \<in> set (case garbage (u\<lparr>p_k := k'\<rparr>) of None \<Rightarrow> [] | Some xs \<Rightarrow> xs)"
      by (simp add: u_def unlock_pcb_frame garbage_put_def split: option.split)
  qed (simp_all add: u_def unlock_pcb_frame t4 release_fds_frame sel t2 k'(2,3))
qed

text \<open>
  A process that can end: it runs, has no children and no threads left, nobody waits for it to end other than its parent, and the locks
  that its end takes are free.
\<close>

definition may_exit :: "('f, 'w) pstate \<Rightarrow> pcbp \<Rightarrow> pcbp \<Rightarrow> shp \<Rightarrow> pcbp list \<Rightarrow> pcbp list \<Rightarrow> pcbp list \<Rightarrow> bool" where
  "may_exit s c q h ts xs ys \<longleftrightarrow>
     s_running (p_k s) = c \<and> c \<noteq> q \<and> m_parent (p_proc s c) = Some q \<and> m_firstChild (p_proc s c) = None \<and> m_threads (p_proc s c) = None \<and>
     \<not> m_locked (pcb_lock (p_task s c)) \<and> \<not> m_locked (pcb_lock (p_task s q)) \<and> m_signalHandler (p_task s q) = Some h \<and> threads_of s q ts \<and>
     m_blockedHead (sems (p_k s) (m_waitSem (p_task s c))) = None \<and> all_procs s xs \<and> mappings_end s c \<and> sched_ready (p_k s) ys \<and> c \<notin> set ys"

text \<open>The state in which the parent is told.\<close>

definition exit_entry :: "pcbp \<Rightarrow> i32 \<Rightarrow> ('f, 'w) pstate \<Rightarrow> ('f, 'w) pstate" where
  "exit_entry c code s =
     (let s3 = upd_proc c (m_firstChild_update (\<lambda>_. None)) (entered c (upd_proc c (m_exitCode_update (\<lambda>_. code)) s)) in
      let a = m_tidAddress (p_task s3 c) in if a \<noteq> 0 then clear_word a s3 else s3)"

lemma exit_entry_simps [simp]:
  "m_pid (p_task (exit_entry c code s) r) = m_pid (p_task s r)" "p_sh (exit_entry c code s) = p_sh s" "p_thr (exit_entry c code s) = p_thr s"
  "k_pcb (p_k (exit_entry c code s)) = k_pcb (p_k s)" "sems (p_k (exit_entry c code s)) = sems (p_k s)"
  "s_running (p_k (exit_entry c code s)) = s_running (p_k s)" "k_lock (p_k (exit_entry c code s)) = k_lock (p_k s)"
  "m_list (p_k (exit_entry c code s)) = m_list (p_k s)" "s_allHead (exit_entry c code s) = s_allHead s" "s_allLock (exit_entry c code s) = s_allLock s"
  "p_mw (exit_entry c code s) = p_mw s" "r \<noteq> c \<Longrightarrow> p_task (exit_entry c code s) r = p_task s r"
  "p_proc (exit_entry c code s) = (p_proc s)(c := (p_proc s c)\<lparr>m_exitCode := code, m_firstChild := None\<rparr>)"
  "m_waitSem (p_task (exit_entry c code s) r) = m_waitSem (p_task s r)"
  by (simp_all add: exit_entry_def entered_def clear_word_def Let_def)

lemma Process_exit_to_parent:
  assumes "may_exit s c q h ts xs ys"
  shows "Process_exit cf c code s =
    bindR (tell_parent c (exit_entry c code s)) (\<lambda>s6.
    bindC (Process_clear cf c (setK (setState c ZOMBIE) s6)) (\<lambda>s7. p_yield (unlock_pcb c (garbage_put c s7))))"
proof -
  have l: "\<not> m_locked (pcb_lock (p_task (upd_proc c (m_exitCode_update (\<lambda>_. code)) s) c))" using assms by (simp add: may_exit_def)
  have h: "m_blockedHead (sems (p_k (exit_entry c code s)) (m_waitSem (p_task (exit_entry c code s) c))) = None"
    using assms by (simp add: may_exit_def)
  have w: "signal_waiters (m_waitSem (p_task (exit_entry c code s) c)) (exit_entry c code s) = Some (Inr (exit_entry c code s))"
    by (subst signal_waiters.simps) (simp only: h simp_thms if_False)
  have r: "reparent c (entered c (upd_proc c (m_exitCode_update (\<lambda>_. code)) s)) =
      Some (Inr (entered c (upd_proc c (m_exitCode_update (\<lambda>_. code)) s)))"
    using assms by (simp add: reparent_def may_exit_def)
  have e: "(let s3 = upd_proc c (m_firstChild_update (\<lambda>_. None)) (entered c (upd_proc c (m_exitCode_update (\<lambda>_. code)) s));
         s4 = (let a = m_tidAddress (p_task s3 c) in if a \<noteq> 0 then clear_word a s3 else s3) in f s4) = f (exit_entry c code s)" for f
    by (simp only: Let_def exit_entry_def)
  show ?thesis
    by (simp only: Process_exit_def lock_unlock(1) [OF l] bindR_simps r e w)
qed

definition waiting :: "('f, 'w) pstate \<Rightarrow> pcbp \<Rightarrow> pcbp list \<Rightarrow> bool" where
  "waiting s q cs \<longleftrightarrow> q \<notin> set cs \<and> children_of s q cs \<and> zombies s cs = [] \<and> sem_waiters (m_selfSem (p_proc s q)) [q] (p_k s)"

text \<open>What is true of a process that has ended.\<close>

definition ended :: "('f, 'w) pstate \<Rightarrow> pcbp \<Rightarrow> i32 \<Rightarrow> pcbp list \<Rightarrow> bool" where
  "ended s c code xs \<longleftrightarrow>
     pcb_state s c = ZOMBIE \<and> m_exitCode (p_proc s c) = code \<and> m_mmap (p_proc s c) = None \<and> all_procs s xs \<and>
     c \<in> set (case garbage s of None \<Rightarrow> [] | Some gs \<Rightarrow> gs) \<and> s_running (p_k s) \<noteq> c"

lemma sem_waiters_cong:
  "sems k' i = sems k i \<Longrightarrow> (\<And>q. m_semNext (k_pcb k' q) = m_semNext (k_pcb k q)) \<Longrightarrow> sem_waiters i xs k' = sem_waiters i xs k"
  by (simp add: sem_waiters_def sem_queue_def)

lemma dropWhile_hit: "x \<in> set xs \<Longrightarrow> \<not> P x \<Longrightarrow> \<exists>p vs. dropWhile P xs = p # vs"
  by (induction xs) auto

lemma sent_simps [simp]:
  "p_k (sent q h sg s) = p_k s" "p_proc (sent q h sg s) = p_proc s" "p_thr (sent q h sg s) = p_thr s"
  "p_sh (sent q h sg s) = (p_sh s)(h := sh_send sg (p_sh s h))" "m_pid (p_task (sent q h sg s) r) = m_pid (p_task s r)"
  "\<not> m_locked (pcb_lock (p_task (sent q h sg s) q))" "s_allHead (sent q h sg s) = s_allHead s" "s_allLock (sent q h sg s) = s_allLock s"
  "p_mw (sent q h sg s) = p_mw s"
  by (simp_all add: sent_def passed_def)

text \<open>
  The rest of the end, once the parent's semaphore has been signalled and the scheduler's state is \<open>k1\<close>.
\<close>

lemma exit_after_signal:
  assumes "may_exit s c q h ts xs ys" and "sem_signal (m_selfSem (p_proc s q)) (p_k (exit_entry c code s)) = Some (Inr k1)"
    and "sched_ready k1 zs" and "s_running k1 = c" and "m_state (k_pcb k1 q) = READY" and "q \<in> set zs"
    and "\<And>x. x \<noteq> q \<Longrightarrow> m_state (k_pcb k1 x) = pcb_state s x"
  obtains s' p where "Process_exit cf c code s = Some (Inr (Away s'))" "ended s' c code (remove1 c xs)"
    "p_sh s' = (p_sh s)(h := sh_send SIGCHLD (p_sh s h))" "\<And>r. m_pid (p_task s' r) = m_pid (p_task s r)"
    "\<not> m_locked (pcb_lock (p_task s' q))" "sems (p_k s') = sems k1" "\<And>x. m_semNext (k_pcb (p_k s') x) = m_semNext (k_pcb k1 x)"
    "\<And>r. bare (p_proc s' r) = bare (p_proc (exit_entry c code s) r)" "p \<noteq> c" "m_state (k_pcb k1 p) = READY"
    "\<And>x. pcb_state s' x = (if x = p then RUNNING else if x = c then ZOMBIE else m_state (k_pcb k1 x))"
proof -
  let ?t0 = "exit_entry c code s" and ?i = "m_selfSem (p_proc s q)"
  have m: "c \<noteq> q" "m_parent (p_proc s c) = Some q" "m_threads (p_proc s c) = None"
    "\<not> m_locked (pcb_lock (p_task s q))" "m_signalHandler (p_task s q) = Some h" "threads_of s q ts" "all_procs s xs" "mappings_end s c"
    using assms(1) by (simp_all add: may_exit_def)
  let ?t1 = "?t0\<lparr>p_k := k1\<rparr>"
  define t2 where "t2 = sent q h SIGCHLD ?t1"
  have "onK (sem_signal ?i) ?t0 = Some (Inr ?t1)" by (simp add: onK_def assms(2))
  moreover have "kill q SIGCHLD ?t1 = Some (Inr (0, t2))"
    unfolding t2_def by (rule kill_awake [of _ _ _ _ ts]) (use m assms(5) in \<open>simp_all add: SIGCHLD_def SIGCONT_def NSIG_def\<close>)
  ultimately have tp: "tell_parent c ?t0 = Some (Inr t2)" using m(1,2) by (simp add: tell_parent_def)
  have "all_next t2 = all_next s" by (auto simp: t2_def)
  then have a2: "all_procs t2 xs" using m(7) by (simp add: all_procs_def) (simp add: t2_def)
  have m2: "mappings_end t2 c" using m(8) by (simp add: mappings_end_def t2_def split: option.splits)
  have r2: "sched_ready (p_k t2) zs" "s_running (p_k t2) = c" "m_threads (p_proc t2 c) = None" using assms(3,4) m(3) by (simp_all add: t2_def)
  obtain p vs where d: "dropWhile (\<lambda>x. x = c \<or> pcb_state t2 x \<noteq> READY) zs = p # vs"
    using dropWhile_hit [OF assms(6), of "\<lambda>x. x = c \<or> pcb_state t2 x \<noteq> READY"] assms(5) m(1) by (auto simp: t2_def)
  have pc: "p \<noteq> c" "m_state (k_pcb k1 p) = READY" using dropWhile_split [OF d] by (auto simp: t2_def)
  obtain s' where s': "bindC (Process_clear cf c (setK (setState c ZOMBIE) t2)) (\<lambda>s7. p_yield (unlock_pcb c (garbage_put c s7))) = Some (Inr (Away s'))"
    "all_procs s' (remove1 c xs)" "\<And>r. bare (p_proc s' r) = bare (p_proc t2 r)" "m_mmap (p_proc s' c) = None"
    "p_task s' = (p_task t2)(c := (p_task t2 c)\<lparr>pcb_lock := (pcb_lock (p_task t2 c))\<lparr>m_locked := False\<rparr>\<rparr>)" "p_sh s' = p_sh t2"
    "c \<in> set (case garbage s' of None \<Rightarrow> [] | Some xs \<Rightarrow> xs)"
    "s_running (p_k s') = p" "sems (p_k s') = sems (p_k t2)"
    "\<And>x. m_semNext (k_pcb (p_k s') x) = m_semNext (k_pcb (p_k t2) x)"
    "\<And>x. pcb_state s' x = (if x = p then RUNNING else if x = c then ZOMBIE else pcb_state t2 x)"
    by (rule exit_tail [OF r2(3) a2 m2 r2(1,2) d]) (rule that; assumption)
  show thesis
  proof (rule that [of s' p])
    show "Process_exit cf c code s = Some (Inr (Away s'))" by (simp add: Process_exit_to_parent [OF assms(1)] tp s'(1))
    have "m_exitCode (p_proc s' c) = code" using bareD(5) [OF s'(3) [of c]] by (simp add: t2_def)
    then show "ended s' c code (remove1 c xs)" using s'(2,4,7,8,11) pc(1) by (simp add: ended_def)
    show "\<not> m_locked (pcb_lock (p_task s' q))" using m(1) by (simp add: s'(5) t2_def)
  qed (simp_all add: s'(3,5,6,9-11) t2_def pc)
qed
lemma bare_children:
  assumes "\<And>r. bare (p_proc s' r) = bare (p_proc (exit_entry c code s) r)" and "c \<noteq> q"
  shows "children_of s' q cs = children_of s q cs" and "m_selfSem (p_proc s' q) = m_selfSem (p_proc s q)"
    and "wait_status (p_proc s' c) = wait_status ((p_proc s c)\<lparr>m_exitCode := code\<rparr>)"
proof -
  have "sibling s' = sibling s" by (rule ext) (simp add: bareD(3) [OF assms(1)])
  moreover have "m_firstChild (p_proc s' q) = m_firstChild (p_proc s q)" using assms(2) by (simp add: bareD(4) [OF assms(1)])
  ultimately show "children_of s' q cs = children_of s q cs" by simp
  show "m_selfSem (p_proc s' q) = m_selfSem (p_proc s q)" using assms(2) by (simp add: bareD(7) [OF assms(1)])
  show "wait_status (p_proc s' c) = wait_status ((p_proc s c)\<lparr>m_exitCode := code\<rparr>)"
    by (simp add: wait_status_def bareD(5,6) [OF assms(1)])
qed

lemma one_more_zombie:
  assumes "c \<in> set cs" and "distinct cs" and "pcb_state s c \<noteq> ZOMBIE"
    and "\<And>x. x \<in> set cs \<Longrightarrow> (pcb_state s' x = ZOMBIE) = (x = c \<or> pcb_state s x = ZOMBIE)"
  shows "length (zombies s' cs) = Suc (length (zombies s cs))"
proof -
  obtain us vs where cs: "cs = us @ c # vs" "c \<notin> set us" "c \<notin> set vs"
    using assms(1,2) by (metis Un_iff distinct_append in_set_conv_decomp disjoint_iff distinct.simps(2) list.set_intros(1))
  have "zombies s' us = zombies s us" "zombies s' vs = zombies s vs"
    unfolding zombies_def using assms(4) cs by (auto intro!: filter_cong)
  moreover have "pcb_state s' c = ZOMBIE" using assms(1,4) by blast
  ultimately show ?thesis using assms(3) by (simp add: zombies_def cs(1))
qed

section \<open>A small family\<close>

text \<open>Process \<open>c\<close> is the only child of \<open>q\<close>; every process has the number of its address and a signal handler of its own.\<close>

definition demo_task :: "pcbp \<Rightarrow> task" where
  "demo_task p = \<lparr>m_pid = of_nat p, m_tgid = of_nat p, m_timeSlice = DEFAULT_TIME_SLICE, m_entry = 0, m_args = 0, m_ustack = 0,
     m_trapFrame = (\<lambda>_. 0), m_waitSem = 0, m_tidAddress = 0, m_sigMask = 0, m_signalHandler = Some p, pcb_lock = Lock_ctor\<rparr>"

definition demo_proc :: Process where
  "demo_proc = \<lparr>m_threads = None, m_parent = None, m_segTable = None, m_cwdInode = 2, m_cwdPath = None, m_nextSibling = None,
     m_firstChild = None, m_exitCode = 0, m_termSignal = 0, m_selfSem = 0, m_spaceLock = Lock_ctor, m_mmap = None, m_reaped = False,
     m_fdTable = None, m_pgid = 0, m_sid = 0, m_umask = 0, m_allNext = None\<rparr>"

definition demo_family :: "sstate \<Rightarrow> pcbp \<Rightarrow> pcbp \<Rightarrow> semp \<Rightarrow> (nat, unit) pstate" where
  "demo_family k q c i = \<lparr>p_k = k, p_task = demo_task,
     p_proc = (\<lambda>_. demo_proc)(q := demo_proc\<lparr>m_firstChild := Some c, m_selfSem := i, m_allNext := Some c\<rparr>, c := demo_proc\<lparr>m_parent := Some q\<rparr>),
     p_thr = (\<lambda>_. \<lparr>th_parent = None, m_nextThread = None, m_clearTidAddr = 0\<rparr>), isProcess = (\<lambda>_. True), p_live = (\<lambda>_. True),
     p_sh = (\<lambda>_. SignalHandler_ctor), p_fdt = (\<lambda>_. None), p_fw = (), p_mw = \<lparr>mw_vm = demo_vm, mw_refs = (\<lambda>_. None)\<rparr>,
     s_pid = 9, s_pidLock = Lock_ctor, s_allHead = Some q, s_allLock = Lock_ctor, s_init = Some q, garbage = None\<rparr>"

lemmas demo_family_defs = demo_family_def demo_task_def demo_proc_def Lock_ctor_def

lemma demo_family_table: "q \<noteq> c \<Longrightarrow> all_procs (demo_family k q c i) [q, c]"
  by (simp add: all_procs_def demo_family_defs)

theorem process_table_is_a_list_witness:
  "(\<exists>s'. unregisterProcess 1 (demo_family demo_sync 1 0 1) = Some (Inr s') \<and> all_procs s' [0]) \<and>
   (\<exists>s'. registerProcess 2 (demo_family demo_sync 1 0 1) = Some (Inr s') \<and> all_procs s' [2, 1, 0]) \<and>
   (\<exists>s'. findByPid 0 (demo_family demo_sync 1 0 1) = Some (Inr (Some 0, s')) \<and> all_procs s' [1, 0])"
proof -
  have t: "all_procs (demo_family demo_sync 1 0 1) [1, 0]" by (rule demo_family_table) simp
  have f: "List.find (\<lambda>p. m_pid (p_task (demo_family demo_sync 1 0 1) p) = 0) [1, 0] = Some 0"
    by (simp add: demo_family_def demo_task_def)
  show ?thesis
    using process_table_is_a_list [OF t, of 1 0] process_table_is_a_list [OF t, of 2 0] unfolding f by auto
qed

theorem wait_any_child_witness:
  "(\<exists>s'. process_wait 0 (- 1) 0 (demo_family (upd_sem 1 (m_value_update (\<lambda>_. 1)) (setState 7 ZOMBIE demo_sync)) 0 7 1) =
      Some (Inr (Some (7, Some 0), s')) \<and> counted s' 0 [] \<and> m_reaped (p_proc s' 7)) \<and>
   (\<exists>s'. process_wait 0 (- 1) WNOHANG (demo_family demo_sync 0 1 1) = Some (Inr (Some (0, None), s'))) \<and>
   (\<exists>s'. process_wait 0 (- 1) 0 (demo_family demo_sync 0 1 1) = Some (Inr (None, s')) \<and> pcb_state s' 0 = BLOCKED \<and> s_running (p_k s') = 1)"
proof (intro conjI)
  let ?k = "upd_sem 1 (m_value_update (\<lambda>_. 1)) (setState 7 ZOMBIE demo_sync)"
  let ?s = "demo_family ?k 0 7 1" and ?r = "demo_family demo_sync 0 1 1"
  have k: "m_state (k_pcb ?k 7) = ZOMBIE" "s_running ?k = 0" by (simp_all add: setState_def upd_pcb_def demo_sync_defs)
  have z: "zombies ?s [7] = [7]" using k(1) by (simp add: zombies_def demo_family_def)
  have c: "counted ?s 0 [7]"
    unfolding counted_def z by (simp add: demo_family_defs sem_waiters_def sem_queue_def demo_sync_defs setState_def upd_pcb_def)
  have r: "sched_ready (p_k ?s) [1, 2]"
    using demo_sync_facts(1) by (subst sched_ready_cong [of _ demo_sync]) (simp_all add: demo_family_def setState_def upd_pcb_def)
  show "\<exists>s'. process_wait 0 (- 1) 0 ?s = Some (Inr (Some (7, Some 0), s')) \<and> counted s' 0 [] \<and> m_reaped (p_proc s' 7)"
    using wait_any_child [OF c _ r, of 0] k(2) unfolding z by (simp add: demo_family_defs wait_status_def)
  have z2: "zombies ?r [1] = []" by (simp add: zombies_def demo_family_def demo_sync_defs)
  have c2: "counted ?r 0 [1]"
    unfolding counted_def z2 by (simp add: demo_family_defs sem_waiters_def sem_queue_def demo_sync_defs)
  have r2: "sched_ready (p_k ?r) [1, 2]" and run: "s_running (p_k ?r) = 0" using demo_sync_facts(1,4) by (simp_all add: demo_family_def)
  show "\<exists>s'. process_wait 0 (- 1) WNOHANG ?r = Some (Inr (Some (0, None), s'))"
    using wait_any_child [OF c2 run r2, of WNOHANG] unfolding z2 by (auto simp: WNOHANG_def)
  have d: "dropWhile (\<lambda>c. c = 0 \<or> pcb_state ?r c \<noteq> READY) [1, 2] = [1, 2]"
    by (simp add: demo_family_def demo_sync_defs del: One_nat_def)
  show "\<exists>s'. process_wait 0 (- 1) 0 ?r = Some (Inr (None, s')) \<and> pcb_state s' 0 = BLOCKED \<and> s_running (p_k s') = 1"
    using wait_any_child [OF c2 run r2, of 0] unfolding z2 using d by auto
qed


end
