(* ===== verification/Console.thy ===== *)
theory Console
  imports Procs Pipe
begin

text \<open>
  The console (\<^verbatim>\<open>kernel/io/console/console.cpp\<close>, \<^verbatim>\<open>console.h\<close>, \<^verbatim>\<open>uart_inode.cpp\<close>): formatted output and the ring buffer of
  received characters. What is printed is the list of characters written to the transmit register; waiting for the
  transmitter has no effect of its own. The characters that the receiver holds when its interrupt is handled are an
  argument.
\<close>

section \<open>Output\<close>

definition chars :: "string \<Rightarrow> u8 list" where
  "chars = map of_char"

definition digits :: "u8 list" where
  "digits = chars ''0123456789ABCDEF'' @ [0]"

text \<open>
  The digits go into a buffer of fixed size from the last one on and are printed in reverse. The first argument is what
  is left of the buffer; going past it, or past the table of digits, has no defined result.
\<close>

primrec ulong_loop :: "nat \<Rightarrow> u64 \<Rightarrow> u64 \<Rightarrow> u8 list \<Rightarrow> u8 list res" where
  "ulong_loop 0 base x acc = Inl Undefined"
| "ulong_loop (Suc room) base x acc =
     (let r = unat (x mod base) in
      if r < length digits then
        let acc1 = digits ! r # acc; x1 = x div base in
        if x1 \<noteq> 0 then ulong_loop room base x1 acc1 else Inr acc1
      else Inl Undefined)"

definition kputulong :: "u64 \<Rightarrow> u32 \<Rightarrow> u8 list res" where
  "kputulong xx base = (if base = 0 then Inl Undefined else ulong_loop 32 (ucast base) xx [])"

primrec puti_loop :: "nat \<Rightarrow> u64 \<Rightarrow> u64 \<Rightarrow> u8 list \<Rightarrow> u8 list res" where
  "puti_loop 0 base uval acc = (if uval > 0 then Inl Undefined else Inr acc)"
| "puti_loop (Suc room) base uval acc =
     (if uval > 0 then
        let r = uval mod base in
        puti_loop room base (uval div base) (ucast (if r < 10 then r + 48 else r - 10 + 97) # acc)
      else Inr acc)"

text \<open>The negation of the smallest number is taken to wrap around.\<close>

definition kputi :: "i64 \<Rightarrow> u32 \<Rightarrow> u8 list res" where
  "kputi val base =
     (let neg = (base = 10 \<and> sint val < 0); uval = (if neg then - val else val); sign = (if neg then chars ''-'' else []) in
      if uval = 0 then Inr (sign @ chars ''0'')
      else if base = 0 then Inl Undefined
      else bindE (puti_loop 64 (ucast base) uval []) (\<lambda>out. Inr (sign @ out)))"

text \<open>The variable arguments: numbers as the registers hold them, and strings.\<close>

datatype parg = Num u64 | Str "u8 list"

text \<open>
  What a conversion prints for the next argument. An argument of the wrong kind, and none at all, have no defined result.
\<close>

definition conversion :: "bool \<Rightarrow> u8 \<Rightarrow> parg list \<Rightarrow> (u8 list \<times> parg list) res" where
  "conversion is_long c args =
     (if c \<in> set (chars ''dxspc'') then
        case args of
          [] \<Rightarrow> Inl Undefined
        | Str s # rest \<Rightarrow> if c = of_char CHR ''s'' then Inr (s, rest) else Inl Undefined
        | Num v # rest \<Rightarrow>
            if c = of_char CHR ''d'' then bindE (kputi (if is_long then v else scast (ucast v :: i32)) 10) (\<lambda>out. Inr (out, rest))
            else if c = of_char CHR ''x'' then bindE (kputi (if is_long then v else ucast (ucast v :: u32)) 16) (\<lambda>out. Inr (out, rest))
            else if c = of_char CHR ''p'' then bindE (kputi v 16) (\<lambda>out. Inr (chars ''0x'' @ out, rest))
            else if c = of_char CHR ''c'' then Inr ([ucast v], rest)
            else Inl Undefined
      else Inr ([c], args))"

text \<open>A format that ends inside a conversion makes the loop step over its terminator.\<close>

fun kprintf_loop :: "u8 list \<Rightarrow> parg list \<Rightarrow> u8 list res" where
  "kprintf_loop [] args = Inr []"
| "kprintf_loop (c # fmt) args =
     (if c \<noteq> of_char CHR ''%'' then bindE (kprintf_loop fmt args) (\<lambda>out. Inr (c # out))
      else case fmt of
        [] \<Rightarrow> Inl Undefined
      | c1 # fmt1 \<Rightarrow>
          if c1 \<noteq> of_char CHR ''l'' then
            bindE (conversion False c1 args) (\<lambda>(o1, args1). bindE (kprintf_loop fmt1 args1) (\<lambda>out. Inr (o1 @ out)))
          else case fmt1 of
            [] \<Rightarrow> Inl Undefined
          | c2 # fmt2 \<Rightarrow>
              bindE (conversion True c2 args) (\<lambda>(o1, args1). bindE (kprintf_loop fmt2 args1) (\<lambda>out. Inr (o1 @ out))))"

definition panic_text :: "u8 list \<Rightarrow> u8 list" where
  "panic_text s = chars ''PANIC: '' @ s @ [10]"

section \<open>Input\<close>

text \<open>The ring buffer has the size of that of a pipe.\<close>

abbreviation CONSOLE_BUFFER_SIZE :: nat where "CONSOLE_BUFFER_SIZE \<equiv> PIPE_BUF_SIZE"

record con =
  cb_buffer :: "u8 list"
  cb_head :: nat
  cb_tail :: nat
  cb_lock :: Lock
  cb_sem :: "semp option"

type_synonym 'a conop = "con \<times> sstate \<Rightarrow> ('a \<times> con \<times> sstate) run"

definition lock_con :: "unit conop" where
  "lock_con = (\<lambda>(c, k). case acquire (cb_lock c) (k_sie k) of
     None \<Rightarrow> None | Some (l, sie) \<Rightarrow> Some (Inr ((), c\<lparr>cb_lock := l\<rparr>, k\<lparr>k_sie := sie\<rparr>)))"

definition unlock_con :: "con \<times> sstate \<Rightarrow> con \<times> sstate" where
  "unlock_con = (\<lambda>(c, k). case release (cb_lock c) (k_sie k) of (l, sie) \<Rightarrow> (c\<lparr>cb_lock := l\<rparr>, k\<lparr>k_sie := sie\<rparr>))"

text \<open>The semaphore is made, at the address \<open>fresh\<close>, when it is first used.\<close>

definition con_sem :: "semp \<Rightarrow> con \<times> sstate \<Rightarrow> semp \<times> con \<times> sstate" where
  "con_sem fresh = (\<lambda>(c, k). case cb_sem c of
     Some i \<Rightarrow> (i, c, k)
   | None \<Rightarrow> (fresh, c\<lparr>cb_sem := Some fresh\<rparr>, upd_sem fresh (\<lambda>_. Semaphore_ctor 0) k))"

definition receive_char :: "semp \<Rightarrow> u8 \<Rightarrow> unit conop" where
  "receive_char fresh ch s =
     bindR (lock_con s) (\<lambda>(_, c, k).
       if (cb_tail c + 1) mod CONSOLE_BUFFER_SIZE \<noteq> cb_head c then
         let c1 = c\<lparr>cb_buffer := (cb_buffer c)[cb_tail c := ch], cb_tail := (cb_tail c + 1) mod CONSOLE_BUFFER_SIZE\<rparr>;
             (i, c2, k2) = con_sem fresh (unlock_con (c1, k)) in
         bindR (sem_signal i k2) (\<lambda>k3. Some (Inr ((), c2, k3)))
       else Some (Inr ((), unlock_con (c, k))))"

primrec interruptHandler_con :: "semp \<Rightarrow> u8 list \<Rightarrow> unit conop" where
  "interruptHandler_con fresh [] s = Some (Inr ((), s))"
| "interruptHandler_con fresh (ch # rx) s = bindR (receive_char fresh ch s) (\<lambda>(_, s1). interruptHandler_con fresh rx s1)"

text \<open>What follows the semaphore; the result is \<open>None\<close> when there is no character, and the loop goes round again.\<close>

definition kgetc_take :: "u8 option conop" where
  "kgetc_take s =
     bindR (lock_con s) (\<lambda>(_, c, k).
       if cb_head c = cb_tail c then Some (Inr (None, unlock_con (c, k)))
       else Some (Inr (Some (cb_buffer c ! cb_head c),
              unlock_con (c\<lparr>cb_head := (cb_head c + 1) mod CONSOLE_BUFFER_SIZE\<rparr>, k))))"

text \<open>The value is \<open>None\<close> when the process is blocked; it goes on with \<open>kgetc_take\<close> when it runs again.\<close>

partial_function (option) kgetc :: "semp \<Rightarrow> u8 option conop" where
  "kgetc fresh s =
     (case con_sem fresh s of (i, c, k) \<Rightarrow>
       bindR (sem_wait i k) (\<lambda>k1.
         if s_running k1 \<noteq> s_running k then Some (Inr (None, c, k1))
         else bindR (kgetc_take (c, k1)) (\<lambda>(r, s2).
           case r of Some ch \<Rightarrow> Some (Inr (Some ch, s2)) | None \<Rightarrow> kgetc fresh s2)))"
section \<open>Printed numbers\<close>

text \<open>The number a sequence of digits stands for, as a reader takes it.\<close>

definition digit_val :: "u8 \<Rightarrow> nat" where
  "digit_val c = (if c < 58 then unat c - 48 else if c < 97 then unat c - 55 else unat c - 87)"

definition digits_val :: "nat \<Rightarrow> u8 list \<Rightarrow> nat" where
  "digits_val base ds = foldl (\<lambda>v d. v * base + digit_val d) 0 ds"

definition parse_number :: "nat \<Rightarrow> u8 list \<Rightarrow> int" where
  "parse_number base s =
     (case s of
        [] \<Rightarrow> 0
      | c # ds \<Rightarrow> if c = of_char CHR ''-'' then - int (digits_val base ds) else int (digits_val base s))"

lemma digits_val_snoc [simp]: "digits_val base (ds @ [d]) = digits_val base ds * base + digit_val d"
  by (simp add: digits_val_def)

text \<open>A digit of the number, and not the sign.\<close>

definition digit_char :: "nat \<Rightarrow> u8 \<Rightarrow> bool" where
  "digit_char n c \<longleftrightarrow> digit_val c = n \<and> c \<noteq> of_char CHR ''-''"

lemma nat_below_16: "n < 16 \<Longrightarrow> n \<in> {0, 1, 2, 3, 4, 5, 6, 7, 8, 9, 10, 11, 12, 13, 14, 15 :: nat}"
  by (auto simp: numeral_eq_Suc less_Suc_eq)

lemma upper_digit: "n < 16 \<Longrightarrow> digit_char n (digits ! n)"
  by (drule nat_below_16) (auto simp: digits_def chars_def digit_char_def digit_val_def nth_append)

lemma lower_digit:
  "n < 16 \<Longrightarrow> digit_char n (ucast ((if (of_nat n :: u64) < 10 then of_nat n + 48 else of_nat n - 10 + 97) :: u64))"
  by (drule nat_below_16) (auto simp: digit_char_def digit_val_def)

lemma div_below_power: "(u :: nat) < b ^ Suc n \<Longrightarrow> u div b < b ^ n"
  by (metis less_mult_imp_div_less power_Suc2)

lemma digit_below: "2 \<le> unat base \<Longrightarrow> unat base \<le> 16 \<Longrightarrow> unat ((u :: u64) mod base) < 16"
  unfolding unat_mod_distrib by (rule less_le_trans [OF mod_less_divisor]) simp_all

lemma puti_loop_value:
  assumes "2 \<le> unat base" "unat base \<le> 16" "unat u < unat base ^ room"
  shows "\<exists>out. puti_loop room base u acc = Inr (out @ acc) \<and> digits_val (unat base) out = unat u \<and>
    (\<forall>d \<in> set out. \<exists>n. digit_char n d) \<and> (out = [] \<longleftrightarrow> u = 0)"
  using assms(3)
proof (induction room arbitrary: u acc)
  case 0
  then have "u = 0" by (simp add: unat_eq_0)
  then show ?case by (auto simp: digits_val_def)
next
  case (Suc room)
  show ?case
  proof (cases "u = 0")
    case True
    then show ?thesis by (auto simp: digits_val_def)
  next
    case False
    let ?d = "ucast (if u mod base < 10 then u mod base + 48 else u mod base - 10 + 97) :: u8"
    have r: "unat (u mod base) < 16" "u mod base = of_nat (unat (u mod base))"
      using digit_below [OF assms(1,2)] by simp_all
    have d: "digit_char (unat (u mod base)) ?d" using lower_digit [OF r(1)] unfolding r(2) [symmetric] .
    have "unat (u div base) < unat base ^ room" unfolding unat_div_distrib by (rule div_below_power) (rule Suc.prems)
    note IH = Suc.IH [OF this, of "?d # acc"]
    obtain out where o: "puti_loop room base (u div base) (?d # acc) = Inr (out @ ?d # acc)"
      "digits_val (unat base) out = unat (u div base)" "\<forall>d \<in> set out. \<exists>n. digit_char n d"
      by (rule exE [OF IH]) (elim conjE, rule that)
    have "puti_loop (Suc room) base u acc = Inr ((out @ [?d]) @ acc)"
      unfolding puti_loop.simps Let_def o(1) using False by (simp add: word_gt_0)
    moreover have "digits_val (unat base) (out @ [?d]) = unat u"
      using o(2) d unfolding digits_val_snoc digit_char_def unat_div_distrib unat_mod_distrib by simp
    moreover have "\<forall>d \<in> set (out @ [?d]). \<exists>n. digit_char n d" using o(3) d unfolding set_append by (metis UnE empty_iff insert_iff list.set)
    ultimately show ?thesis using False by (intro exI [of _ "out @ [?d]"]) blast
  qed
qed

lemma ulong_loop_value:
  assumes "2 \<le> unat base" "unat base \<le> 16" "unat u < unat base ^ Suc room"
  shows "\<exists>out. ulong_loop (Suc room) base u acc = Inr (out @ acc) \<and> digits_val (unat base) out = unat u \<and>
    (\<forall>d \<in> set out. \<exists>n. digit_char n d) \<and> out \<noteq> []"
  using assms(3)
proof (induction room arbitrary: u acc)
  have len: "length digits = 17" by (simp add: digits_def chars_def)
  note r = digit_below [OF assms(1,2)]
  have last: "ulong_loop (Suc room) base u acc = Inr ([digits ! unat (u mod base)] @ acc) \<and>
      digits_val (unat base) [digits ! unat (u mod base)] = unat u" if "unat u < unat base" for u acc room
  proof -
    have "u div base = 0" using that by (simp add: unat_div_distrib flip: unat_eq_0)
    moreover have "unat (u mod base) = unat u" using that by (simp add: unat_mod_distrib)
    ultimately show ?thesis using r [of u] upper_digit [OF r [of u]] by (simp add: Let_def len digit_char_def digits_val_def)
  qed
  {
    case 0
    then show ?case using last [of u 0 acc] upper_digit [OF r [of u]]
      by (intro exI [of _ "[digits ! unat (u mod base)]"]) auto
  next
    case (Suc room)
    let ?d = "digits ! unat (u mod base)"
    show ?case
    proof (cases "unat u < unat base")
      case True
      then show ?thesis using last [of u "Suc room" acc] upper_digit [OF r [of u]]
        by (intro exI [of _ "[digits ! unat (u mod base)]"]) auto
    next
      case False
      have nz: "u div base \<noteq> 0" using False assms(1) by (simp add: unat_div_distrib div_eq_0_iff flip: unat_eq_0)
      have "unat (u div base) < unat base ^ Suc room" unfolding unat_div_distrib by (rule div_below_power) (rule Suc.prems)
      note IH = Suc.IH [OF this, of "?d # acc"]
      obtain out where o: "ulong_loop (Suc room) base (u div base) (?d # acc) = Inr (out @ ?d # acc)"
        "digits_val (unat base) out = unat (u div base)" "\<forall>d \<in> set out. \<exists>n. digit_char n d"
        by (rule exE [OF IH]) (elim conjE, rule that)
      have "ulong_loop (Suc (Suc room)) base u acc = Inr ((out @ [?d]) @ acc)"
        unfolding ulong_loop.simps(2) [of "Suc room"] Let_def o(1) using nz r [of u] by (simp add: len)
      moreover have "digits_val (unat base) (out @ [?d]) = unat u"
        using o(2) upper_digit [OF r [of u]] unfolding digits_val_snoc digit_char_def unat_div_distrib unat_mod_distrib by simp
      moreover have "\<forall>d \<in> set (out @ [?d]). \<exists>n. digit_char n d"
        using o(3) upper_digit [OF r [of u]] unfolding set_append by (metis UnE empty_iff insert_iff list.set)
      ultimately show ?thesis by (intro exI [of _ "out @ [?d]"]) blast
    qed
  }
qed

lemma parse_digits:
  "out \<noteq> [] \<Longrightarrow> \<forall>d \<in> set out. \<exists>n. digit_char n d \<Longrightarrow> parse_number base out = int (digits_val base out)"
  by (auto simp: parse_number_def digit_char_def split: list.split)

lemma sint_two_complement: "sint (x :: i64) = (if uint x < 2 ^ 63 then uint x else uint x - 2 ^ 64)"
proof -
  have u: "uint x < 2 ^ 64" "0 \<le> uint x" using unsigned_less [of x, where ?'a = int] by simp_all
  have s: "sint x = (uint x + 2 ^ 63) mod 2 ^ 64 - 2 ^ 63"
    by (simp add: sint_uint signed_take_bit_eq_take_bit_shift take_bit_eq_mod)
  show ?thesis
  proof (cases "uint x < 2 ^ 63")
    case True
    then have "(uint x + 2 ^ 63) mod 2 ^ 64 = uint x + 2 ^ 63" using u by (intro mod_pos_pos_trivial) simp_all
    then show ?thesis using s True by simp
  next
    case False
    have "(uint x + 2 ^ 63) mod 2 ^ 64 = ((uint x - 2 ^ 63) + 2 ^ 64) mod 2 ^ 64" by (simp add: add.commute)
    also have "\<dots> = uint x - 2 ^ 63" unfolding mod_add_self2 using u False by (intro mod_pos_pos_trivial) simp_all
    finally show ?thesis using s False by simp
  qed
qed

lemma neg_unat:
  assumes "sint (x :: i64) < 0"
  shows "int (unat (- x)) = - sint x"
proof -
  have u: "uint x \<noteq> 0" "sint x = uint x - 2 ^ 64" using assms unsigned_less [of x, where ?'a = int]
    by (auto simp: sint_two_complement split: if_splits)
  have "uint (- x) = (- uint x) mod 2 ^ 64" by (simp add: uint_word_ariths)
  also have "\<dots> = 2 ^ 64 - uint x"
    using u(1) unsigned_less [of x, where ?'a = int] unsigned_greater_eq [of x, where ?'a = int] by (subst zmod_zminus1_eq_if) simp
  finally show ?thesis using u(2) by simp
qed


section \<open>The input buffer as a queue\<close>

text \<open>The buffer holds \<open>xs\<close>, and the semaphore, on which nobody waits, has a unit for each of them.\<close>

definition con_ok :: "semp \<Rightarrow> u8 list \<Rightarrow> pcbp list \<Rightarrow> con \<times> sstate \<Rightarrow> bool" where
  "con_ok i xs ys = (\<lambda>(c, k).
     length (cb_buffer c) = CONSOLE_BUFFER_SIZE \<and> cb_head c < CONSOLE_BUFFER_SIZE \<and>
     cb_tail c = (cb_head c + length xs) mod CONSOLE_BUFFER_SIZE \<and> length xs < CONSOLE_BUFFER_SIZE \<and>
     window (cb_buffer c) (cb_head c) (length xs) = xs \<and> \<not> m_locked (cb_lock c) \<and> cb_sem c = Some i \<and>
     sem_waiters i [] k \<and> m_value (sems k i) = of_nat (length xs) \<and> sched_ready k ys)"

lemma sem_waiters_sie [simp]: "sem_waiters i xs (k\<lparr>k_sie := b\<rparr>) = sem_waiters i xs k"
  by (simp add: sem_waiters_def sem_queue_def)

lemma sched_ready_sie [simp]: "sched_ready (k\<lparr>k_sie := b\<rparr>) ys = sched_ready k ys"
  by (rule sched_ready_cong) simp_all

lemma lock_con_free:
  assumes "\<not> m_locked (cb_lock c)"
  obtains l b where "lock_con (c, k) = Some (Inr ((), c\<lparr>cb_lock := l\<rparr>, k\<lparr>k_sie := b\<rparr>))"
  using assms that by (simp add: lock_con_def acquire_def)

lemma unlock_con_eq: "\<exists>l b. unlock_con (c, k) = (c\<lparr>cb_lock := l\<rparr>, k\<lparr>k_sie := b\<rparr>) \<and> \<not> m_locked l"
  by (intro exI [of _ "cb_lock c\<lparr>m_locked := False\<rparr>"] exI [of _ "k_sie k \<or> m_pie (cb_lock c)"]) (simp add: unlock_con_def release_def)

lemma ring_full:
  assumes "h < CONSOLE_BUFFER_SIZE" "n < CONSOLE_BUFFER_SIZE"
  shows "((h + n) mod CONSOLE_BUFFER_SIZE + 1) mod CONSOLE_BUFFER_SIZE = h \<longleftrightarrow> n + 1 = CONSOLE_BUFFER_SIZE"
proof -
  have e: "((h + n) mod CONSOLE_BUFFER_SIZE + 1) mod CONSOLE_BUFFER_SIZE = (h + (n + 1)) mod CONSOLE_BUFFER_SIZE"
    by (simp add: mod_Suc_eq)
  show ?thesis
  proof (cases "n + 1 = CONSOLE_BUFFER_SIZE")
    case True
    then have "(h + (n + 1)) mod CONSOLE_BUFFER_SIZE = h" using assms(1) by simp
    then show ?thesis using e True by simp
  next
    case False
    then have "(h + 0) mod CONSOLE_BUFFER_SIZE \<noteq> (h + (n + 1)) mod CONSOLE_BUFFER_SIZE"
      using assms(2) by (intro mod_window_distinct) simp_all
    then show ?thesis using e False assms(1) by simp
  qed
qed

lemma receive_char_queue:
  assumes "con_ok i xs ys s"
  obtains s' where "receive_char fresh ch s = Some (Inr ((), s'))"
    "con_ok i (if length xs + 1 < CONSOLE_BUFFER_SIZE then xs @ [ch] else xs) ys s'"
proof -
  obtain c k where s: "s = (c, k)" by (cases s)
  have ok: "length (cb_buffer c) = CONSOLE_BUFFER_SIZE" "cb_head c < CONSOLE_BUFFER_SIZE"
    "cb_tail c = (cb_head c + length xs) mod CONSOLE_BUFFER_SIZE" "length xs < CONSOLE_BUFFER_SIZE"
    "window (cb_buffer c) (cb_head c) (length xs) = xs" "\<not> m_locked (cb_lock c)" "cb_sem c = Some i"
    "sem_waiters i [] k" "m_value (sems k i) = of_nat (length xs)" "sched_ready k ys"
    using assms unfolding con_ok_def s by simp_all
  obtain l b where l: "lock_con (c, k) = Some (Inr ((), c\<lparr>cb_lock := l\<rparr>, k\<lparr>k_sie := b\<rparr>))" by (rule lock_con_free [OF ok(6)])
  show thesis
  proof (cases "length xs + 1 < CONSOLE_BUFFER_SIZE")
    case True
    then have room: "(cb_tail c + 1) mod CONSOLE_BUFFER_SIZE \<noteq> cb_head c" unfolding ok(3) ring_full [OF ok(2,4)] by simp
    let ?c1 = "c\<lparr>cb_lock := l, cb_buffer := (cb_buffer c)[cb_tail c := ch], cb_tail := (cb_tail c + 1) mod CONSOLE_BUFFER_SIZE\<rparr>"
    obtain l2 b2 where u: "unlock_con (?c1, k\<lparr>k_sie := b\<rparr>) = (?c1\<lparr>cb_lock := l2\<rparr>, k\<lparr>k_sie := b\<rparr>\<lparr>k_sie := b2\<rparr>)" "\<not> m_locked l2"
      using unlock_con_eq by blast
    let ?k = "k\<lparr>k_sie := b\<rparr>\<lparr>k_sie := b2\<rparr>"
    have "sem_waiters i [] ?k" "sched_ready ?k ys" using ok(8,10) by simp_all
    then obtain k' where k': "sem_signal i ?k = Some (Inr k')" "m_value (sems k' i) = m_value (sems ?k i) + 1"
      "sem_waiters i [] k'" "sched_ready k' ys"
      by (rule sem_signal_idle)
    have "receive_char fresh ch s = Some (Inr ((), ?c1\<lparr>cb_lock := l2\<rparr>, k'))"
      using room u(1) k'(1) ok(7) by (simp add: receive_char_def s l con_sem_def Let_def)
    moreover have "window ((cb_buffer c)[cb_tail c := ch]) (cb_head c) (Suc (length xs)) = xs @ [ch]"
      unfolding ok(3) window_snoc [OF ok(1,4)] ok(5) ..
    then have "con_ok i (xs @ [ch]) ys (?c1\<lparr>cb_lock := l2\<rparr>, k')"
      using True ok(1,2,3,7) u(2) k' ok(9) by (simp add: con_ok_def mod_Suc_eq)
    ultimately show thesis using that True by simp
  next
    case False
    then have full: "(cb_tail c + 1) mod CONSOLE_BUFFER_SIZE = cb_head c" using ok(4) unfolding ok(3) ring_full [OF ok(2,4)] by simp
    obtain l2 b2 where u: "unlock_con (c\<lparr>cb_lock := l\<rparr>, k\<lparr>k_sie := b\<rparr>) = (c\<lparr>cb_lock := l\<rparr>\<lparr>cb_lock := l2\<rparr>, k\<lparr>k_sie := b\<rparr>\<lparr>k_sie := b2\<rparr>)"
      "\<not> m_locked l2" using unlock_con_eq by blast
    have "receive_char fresh ch s = Some (Inr ((), c\<lparr>cb_lock := l\<rparr>\<lparr>cb_lock := l2\<rparr>, k\<lparr>k_sie := b\<rparr>\<lparr>k_sie := b2\<rparr>))"
      using full u(1) by (simp add: receive_char_def s l)
    then show thesis using that [of "(c\<lparr>cb_lock := l\<rparr>\<lparr>cb_lock := l2\<rparr>, k\<lparr>k_sie := b\<rparr>\<lparr>k_sie := b2\<rparr>)"] False ok u(2) s
      by (simp add: con_ok_def)
  qed
qed

lemma kgetc_take_queue:
  assumes "cb_head c < CONSOLE_BUFFER_SIZE" "cb_tail c = (cb_head c + length (x # xs)) mod CONSOLE_BUFFER_SIZE"
    "length (x # xs) < CONSOLE_BUFFER_SIZE" "window (cb_buffer c) (cb_head c) (length (x # xs)) = x # xs" "\<not> m_locked (cb_lock c)"
  obtains l b where "kgetc_take (c, k) =
      Some (Inr (Some x, c\<lparr>cb_head := (cb_head c + 1) mod CONSOLE_BUFFER_SIZE, cb_lock := l\<rparr>, k\<lparr>k_sie := b\<rparr>))" "\<not> m_locked l"
    "window (cb_buffer c) ((cb_head c + 1) mod CONSOLE_BUFFER_SIZE) (length xs) = xs"
proof -
  obtain l b where l: "lock_con (c, k) = Some (Inr ((), c\<lparr>cb_lock := l\<rparr>, k\<lparr>k_sie := b\<rparr>))" by (rule lock_con_free [OF assms(5)])
  have ne: "cb_head c \<noteq> cb_tail c"
    using mod_window_distinct [of 0 "length (x # xs)" "cb_head c"] assms(1,2,3) by simp
  have w: "cb_buffer c ! cb_head c = x" "window (cb_buffer c) (cb_head c + 1) (length xs) = xs"
    using assms(4) window_Suc [OF assms(1), of "cb_buffer c" "length xs"] by simp_all
  let ?c1 = "c\<lparr>cb_lock := l, cb_head := (cb_head c + 1) mod CONSOLE_BUFFER_SIZE\<rparr>"
  obtain l2 b2 where u: "unlock_con (?c1, k\<lparr>k_sie := b\<rparr>) = (?c1\<lparr>cb_lock := l2\<rparr>, k\<lparr>k_sie := b\<rparr>\<lparr>k_sie := b2\<rparr>)" "\<not> m_locked l2"
    using unlock_con_eq by blast
  have "kgetc_take (c, k) = Some (Inr (Some x, c\<lparr>cb_head := (cb_head c + 1) mod CONSOLE_BUFFER_SIZE, cb_lock := l2\<rparr>, k\<lparr>k_sie := b2\<rparr>))"
    using ne u(1) w(1) by (simp add: kgetc_take_def l)
  then show thesis using that u(2) w(2) by simp
qed

text \<open>
  C18: the input buffer is a queue of characters. The interrupt handler appends what the receiver holds, as far as there is room for 4095
  characters, and drops the rest. A reader gets the oldest character without waiting when there is one, and is blocked, with the processor
  given to the first ready process, exactly when there is none. The semaphore keeps a unit for every character.
\<close>

theorem console_input_is_a_queue:
  assumes "con_ok i xs ys (c, k)"
  shows "(\<exists>s'. interruptHandler_con fresh rx (c, k) = Some (Inr ((), s')) \<and>
      con_ok i (xs @ take (CONSOLE_BUFFER_SIZE - 1 - length xs) rx) ys s') \<and>
    (case xs of
       x # xs' \<Rightarrow> \<exists>c' k'. kgetc fresh (c, k) = Some (Inr (Some x, c', k')) \<and> con_ok i xs' ys (c', k') \<and> s_running k' = s_running k
     | [] \<Rightarrow> \<forall>p vs. dropWhile (\<lambda>q. q = s_running k \<or> m_state (k_pcb k q) \<noteq> READY) ys = p # vs \<and> p \<noteq> s_running k \<longrightarrow>
         (\<exists>k'. kgetc fresh (c, k) = Some (Inr (None, c, k')) \<and> sem_waiters i [s_running k] k' \<and> s_running k' = p \<and>
               m_state (k_pcb k' (s_running k)) = BLOCKED))"
proof
  show "\<exists>s'. interruptHandler_con fresh rx (c, k) = Some (Inr ((), s')) \<and>
      con_ok i (xs @ take (CONSOLE_BUFFER_SIZE - 1 - length xs) rx) ys s'"
    using assms
  proof (induction rx arbitrary: c k xs)
    case (Cons ch rx)
    obtain c1 k1 where s1: "receive_char fresh ch (c, k) = Some (Inr ((), c1, k1))"
      "con_ok i (if length xs + 1 < CONSOLE_BUFFER_SIZE then xs @ [ch] else xs) ys (c1, k1)"
      using receive_char_queue [OF Cons.prems, of fresh ch] by (metis surj_pair)
    have "length xs < CONSOLE_BUFFER_SIZE" using Cons.prems by (simp add: con_ok_def)
    then show ?case using Cons.IH [OF s1(2)] s1(1) by (auto simp: take_Cons' split: if_splits)
  qed simp
next
  have ok: "length (cb_buffer c) = CONSOLE_BUFFER_SIZE" "cb_head c < CONSOLE_BUFFER_SIZE"
    "cb_tail c = (cb_head c + length xs) mod CONSOLE_BUFFER_SIZE" "length xs < CONSOLE_BUFFER_SIZE"
    "window (cb_buffer c) (cb_head c) (length xs) = xs" "\<not> m_locked (cb_lock c)" "cb_sem c = Some i"
    "sem_waiters i [] k" "m_value (sems k i) = of_nat (length xs)" "sched_ready k ys"
    using assms unfolding con_ok_def by simp_all
  show "case xs of
       x # xs' \<Rightarrow> \<exists>c' k'. kgetc fresh (c, k) = Some (Inr (Some x, c', k')) \<and> con_ok i xs' ys (c', k') \<and> s_running k' = s_running k
     | [] \<Rightarrow> \<forall>p vs. dropWhile (\<lambda>q. q = s_running k \<or> m_state (k_pcb k q) \<noteq> READY) ys = p # vs \<and> p \<noteq> s_running k \<longrightarrow>
         (\<exists>k'. kgetc fresh (c, k) = Some (Inr (None, c, k')) \<and> sem_waiters i [s_running k] k' \<and> s_running k' = p \<and>
               m_state (k_pcb k' (s_running k)) = BLOCKED)"
  proof (cases xs)
    case Nil
    have "\<exists>k'. kgetc fresh (c, k) = Some (Inr (None, c, k')) \<and> sem_waiters i [s_running k] k' \<and> s_running k' = p \<and>
               m_state (k_pcb k' (s_running k)) = BLOCKED"
      if p: "dropWhile (\<lambda>q. q = s_running k \<or> m_state (k_pcb k q) \<noteq> READY) ys = p # vs" "p \<noteq> s_running k" for p vs
    proof -
      obtain k' where k': "sem_wait i k = Some (Inr k')" "m_value (sems k' i) = 0" "sem_waiters i ([] @ [s_running k]) k'"
        "sched_ready k' vs" "s_running k' = p"
        "\<And>q. m_state (k_pcb k' q) = (if q = p then RUNNING else if q = s_running k then BLOCKED else m_state (k_pcb k q))"
        by (rule sem_wait_blocks [OF ok(8,10) _ _ p(1)]) (simp_all add: ok(9) Nil)
      have "kgetc fresh (c, k) = Some (Inr (None, c, k'))"
        using k'(1,5) p(2) by (subst kgetc.simps) (simp add: con_sem_def ok(7))
      then show ?thesis using k' p(2) by auto
    qed
    then show ?thesis using Nil by simp
  next
    case (Cons x xs')
    have len: "Suc (length xs') < CONSOLE_BUFFER_SIZE" using ok(4) Cons by simp
    have v: "m_value (sems k i) \<noteq> 0"
    proof
      assume "m_value (sems k i) = 0"
      then have "unat (of_nat (Suc (length xs')) :: u32) = 0" using ok(9) Cons by simp
      then show False using len unfolding unat_of_nat PIPE_BUF_SIZE_def by simp
    qed
    obtain k1 where k1: "sem_wait i k = Some (Inr k1)" "m_value (sems k1 i) = m_value (sems k i) - 1" "sem_waiters i [] k1"
      "sched_ready k1 ys" "s_running k1 = s_running k"
      by (rule sem_wait_takes [OF ok(8,10) v])
    obtain l b where t: "kgetc_take (c, k1) =
        Some (Inr (Some x, c\<lparr>cb_head := (cb_head c + 1) mod CONSOLE_BUFFER_SIZE, cb_lock := l\<rparr>, k1\<lparr>k_sie := b\<rparr>))" "\<not> m_locked l"
      "window (cb_buffer c) ((cb_head c + 1) mod CONSOLE_BUFFER_SIZE) (length xs') = xs'"
      by (rule kgetc_take_queue [of c x xs' k1]) (use ok Cons in simp_all)
    let ?c = "c\<lparr>cb_head := (cb_head c + 1) mod CONSOLE_BUFFER_SIZE, cb_lock := l\<rparr>" and ?k = "k1\<lparr>k_sie := b\<rparr>"
    have "kgetc fresh (c, k) = Some (Inr (Some x, ?c, ?k))"
      using k1(1,5) t(1) by (subst kgetc.simps) (simp add: con_sem_def ok(7))
    moreover have "con_ok i xs' ys (?c, ?k)"
      using ok(1,3,7,9) len t(2,3) k1 Cons by (simp add: con_ok_def mod_Suc_eq PIPE_BUF_SIZE_def mod_add_left_eq)
    ultimately show ?thesis using k1(5) Cons by auto
  qed
qed

definition demo_con :: con where
  "demo_con = \<lparr>cb_buffer = replicate CONSOLE_BUFFER_SIZE 0, cb_head = 0, cb_tail = 0, cb_lock = Lock_ctor, cb_sem = Some 9\<rparr>"

theorem console_input_is_a_queue_witness:
  "(\<exists>s'. interruptHandler_con 0 [104, 105] (demo_con, demo_sync) = Some (Inr ((), s')) \<and> con_ok 9 [104, 105] [1, 2] s') \<and>
   (\<exists>k'. kgetc 0 (demo_con, demo_sync) = Some (Inr (None, demo_con, k')) \<and> s_running k' = 1)"
proof -
  have ok: "con_ok 9 [] [1, 2] (demo_con, demo_sync)"
    using demo_sync_facts(1)
    by (simp add: con_ok_def demo_con_def Lock_ctor_def window_def PIPE_BUF_SIZE_def sem_waiters_def sem_queue_def demo_sync_defs queue_of_def)
  have d: "dropWhile (\<lambda>q. q = s_running demo_sync \<or> m_state (k_pcb demo_sync q) \<noteq> READY) [1, 2] = [1, 2]"
    by (simp add: demo_sync_defs)
  show ?thesis
    using console_input_is_a_queue [OF ok, of 0 "[104, 105]"] d demo_sync_facts(4) by (simp add: PIPE_BUF_SIZE_def) blast
qed

end
