(* ===== verification/Ext2File.thy ===== *)
theory Ext2File
  imports Ext2Disk
begin

text \<open>
  The contents of ext2 files (\<^verbatim>\<open>Ext2Inode\<close> in \<^verbatim>\<open>kernel/fs/ext2/ext2.cpp\<close>): the block map with its three levels of
  indirection, reading, writing and truncation. An inode object holds its number and its own copy of the raw inode.
  The mutex of the mount brackets these operations and is taken by nobody else in between.
\<close>

record Ext2Inode =
  in_num :: u32
  in_raw :: bytes

definition ext2_isDir :: "Ext2Inode \<Rightarrow> bool" where
  "ext2_isDir n = (i_mode (in_raw n) AND 0xF000 = EXT2_S_IFDIR)"

definition ext2_isSymlink :: "Ext2Inode \<Rightarrow> bool" where
  "ext2_isSymlink n = (i_mode (in_raw n) AND 0xF000 = EXT2_S_IFLNK)"

definition ext2_size :: "Ext2Inode \<Rightarrow> u64" where
  "ext2_size n = ucast (i_size (in_raw n))"

definition ext2_getInode :: "u32 \<Rightarrow> ext2 \<Rightarrow> Ext2Inode" where
  "ext2_getInode num m = \<lparr>in_num = num, in_raw = readRawInode m num\<rparr>"

definition ext2_getRoot :: "ext2 \<Rightarrow> Ext2Inode" where
  "ext2_getRoot m = ext2_getInode EXT2_ROOT_INODE m"

text \<open>The fields of \<^verbatim>\<open>InodeStat\<close> but for its padding.\<close>

record InodeStat =
  st_dev :: u64
  st_ino :: u64
  st_mode :: u32
  st_nlink :: u32
  st_uid :: u32
  st_gid :: u32
  st_rdev :: u64
  st_size :: u64
  st_blksize :: u32
  st_blocks :: u64
  st_atime_sec :: u64
  st_atime_nsec :: u64
  st_mtime_sec :: u64
  st_mtime_nsec :: u64
  st_ctime_sec :: u64
  st_ctime_nsec :: u64

definition stat_zero :: InodeStat where
  "stat_zero =
     \<lparr>st_dev = 0, st_ino = 0, st_mode = 0, st_nlink = 0, st_uid = 0, st_gid = 0, st_rdev = 0, st_size = 0, st_blksize = 0,
      st_blocks = 0, st_atime_sec = 0, st_atime_nsec = 0, st_mtime_sec = 0, st_mtime_nsec = 0, st_ctime_sec = 0,
      st_ctime_nsec = 0\<rparr>"

definition ext2_stat :: "Ext2Inode \<Rightarrow> ext2 \<Rightarrow> InodeStat" where
  "ext2_stat n m =
     (let r = in_raw n in
      stat_zero\<lparr>st_ino := ucast (in_num n), st_mode := ucast (i_mode r), st_nlink := ucast (i_links_count r),
        st_uid := ucast (i_uid r), st_gid := ucast (i_gid r), st_size := ucast (i_size r),
        st_blocks := ucast (i_blocks r), st_blksize := m_blockSize m,
        st_atime_sec := ucast (i_atime r), st_mtime_sec := ucast (i_mtime r), st_ctime_sec := ucast (i_ctime r)\<rparr>)"

section \<open>The block map\<close>

definition ptrsPerBlock :: "ext2 \<Rightarrow> u32" where
  "ptrsPerBlock m = m_blockSize m div 4"

text \<open>One step down: the \<open>k\<close>-th pointer in block \<open>b\<close>, and zero when there is no such block.\<close>

definition follow :: "ext2 \<Rightarrow> u32 \<Rightarrow> u32 \<Rightarrow> u32" where
  "follow m b k = (if b = 0 then 0 else rd32 (readBlock m b) (4 * unat k))"

lemma follow_0 [simp]: "follow m 0 k = 0"
  by (simp add: follow_def)

text \<open>An index past the end of the last pointer block reads behind the buffer.\<close>

definition blockMap :: "ext2 \<Rightarrow> bytes \<Rightarrow> u32 \<Rightarrow> u32 res" where
  "blockMap m raw logical =
     (let p = ptrsPerBlock m in
      if logical < 12 then Inr (i_block raw (unat logical))
      else let l = logical - 12 in
      if l < p then Inr (follow m (i_block raw 12) l)
      else let l = l - p in
      if l < p * p then Inr (follow m (follow m (i_block raw 13) (l div p)) (l mod p))
      else let l = l - p * p; ptrs2 = p * p in
      if i_block raw 14 \<noteq> 0 then
        (if p \<le> l div ptrs2 then Inl Undefined
         else Inr (follow m (follow m (follow m (i_block raw 14) (l div ptrs2)) ((l mod ptrs2) div p)) (l mod p)))
      else Inr 0)"

text \<open>The pointer at a place of the inode or of a pointer block, allocated when it is still zero.\<close>

definition ensure_root :: "u32 \<Rightarrow> nat \<Rightarrow> Ext2Inode \<Rightarrow> ext2 \<Rightarrow> u32 \<times> Ext2Inode \<times> ext2" where
  "ensure_root grp k n m =
     (if i_block (in_raw n) k \<noteq> 0 then (i_block (in_raw n) k, n, m)
      else let (b, m1) = allocBlock grp m; n1 = n\<lparr>in_raw := set_i_block k b (in_raw n)\<rparr> in
      if b = 0 then (0, n1, m1) else (b, n1, writeRawInode (in_num n1) (in_raw n1) m1))"

definition ensure_ptr :: "u32 \<Rightarrow> u32 \<Rightarrow> u32 \<Rightarrow> ext2 \<Rightarrow> u32 \<times> ext2" where
  "ensure_ptr grp b k m =
     (let buf = readBlock m b; q = rd32 buf (4 * unat k) in
      if q \<noteq> 0 then (q, m)
      else let (q, m1) = allocBlock grp m in
      if q = 0 then (0, m1) else (q, writeBlock b (put buf (4 * unat k) (le32 q)) m1))"

text \<open>Following a list of indices through pointer blocks, stopping where no block could be had.\<close>

primrec ensure_path :: "u32 \<Rightarrow> u32 \<Rightarrow> u32 list \<Rightarrow> ext2 \<Rightarrow> u32 \<times> ext2" where
  "ensure_path grp b [] m = (b, m)"
| "ensure_path grp b (k # ks) m =
     (if b = 0 then (0, m) else let (q, m1) = ensure_ptr grp b k m in ensure_path grp q ks m1)"

definition ensure_tree :: "u32 \<Rightarrow> nat \<Rightarrow> u32 list \<Rightarrow> Ext2Inode \<Rightarrow> ext2 \<Rightarrow> u32 \<times> Ext2Inode \<times> ext2" where
  "ensure_tree grp k ks n m =
     (let (b, n1, m1) = ensure_root grp k n m; (q, m2) = ensure_path grp b ks m1 in (q, n1, m2))"

definition blockMapAlloc :: "u32 \<Rightarrow> Ext2Inode \<Rightarrow> ext2 \<Rightarrow> u32 \<times> Ext2Inode \<times> ext2" where
  "blockMapAlloc logical n m =
     (let p = ptrsPerBlock m; grp = inode_group m (in_num n) in
      if logical < 12 then ensure_root grp (unat logical) n m
      else let l = logical - 12 in
      if l < p then ensure_tree grp 12 [l] n m
      else let l = l - p in
      if l < p * p then ensure_tree grp 13 [l div p, l mod p] n m
      else let l = l - p * p; ptrs2 = p * p in
      if l < p * ptrs2 then ensure_tree grp 14 [l div ptrs2, (l mod ptrs2) div p, l mod p] n m
      else (0, n, m))"

section \<open>Reading, writing and truncating\<close>

text \<open>
  \<open>remaining\<close> and \<open>pos\<close> are the loop's variables; \<open>None\<close> would be a loop that never ends. The bytes are those put
  into the caller's buffer.
\<close>

partial_function (option) read_loop :: "ext2 \<Rightarrow> bytes \<Rightarrow> u64 \<Rightarrow> u64 \<Rightarrow> bytes run" where
  "read_loop m raw pos remaining =
     (if remaining = 0 then Some (Inr [])
      else
        let bs = ucast (m_blockSize m) :: u64; logical = ucast (pos div bs) :: u32;
            blockOffset = ucast (pos mod bs) :: u32; c = m_blockSize m - blockOffset;
            canRead = (if ucast c > remaining then ucast remaining else c) in
        bindR (Some (blockMap m raw logical)) (\<lambda>physical.
          let chunk = (if physical = 0 then replicate (unat canRead) 0
                       else sub_bytes (readBlock m physical) (unat blockOffset) (unat canRead)) in
          bindR (read_loop m raw (pos + ucast canRead) (remaining - ucast canRead))
            (\<lambda>rest. Some (Inr (chunk @ rest)))))"

definition ext2_read :: "ext2 \<Rightarrow> Ext2Inode \<Rightarrow> u64 \<Rightarrow> bool \<Rightarrow> u64 \<Rightarrow> (int \<times> bytes) run" where
  "ext2_read m n offset hasBuf len =
     (if \<not> hasBuf then Some (Inr (- 1, []))
      else if len = 0 then Some (Inr (0, []))
      else if offset \<ge> ext2_size n then Some (Inr (0, []))
      else if ext2_isDir n then Some (Inr (- 1, []))
      else
        let len = (if offset + len > ext2_size n then ext2_size n - offset else len) in
        bindR (read_loop m (in_raw n) offset len) (\<lambda>bs. Some (Inr (sint (ucast len :: i32), bs))))"

text \<open>
  A block that is written as a whole is not read first; \<open>put\<close> then replaces every byte of it, so the buffer's old
  contents do not show.
\<close>

partial_function (option) write_loop :: "Ext2Inode \<Rightarrow> ext2 \<Rightarrow> u64 \<Rightarrow> bytes \<Rightarrow> (bool \<times> Ext2Inode \<times> ext2) run" where
  "write_loop n m pos src =
     (if src = [] then Some (Inr (True, n, m))
      else
        let bs = ucast (m_blockSize m) :: u64; logical = ucast (pos div bs) :: u32;
            blockOff = ucast (pos mod bs) :: u32; c = m_blockSize m - blockOff;
            canWrite = (if unat c > length src then of_nat (length src) else c);
            (physical, n1, m1) = blockMapAlloc logical n m in
        if physical = 0 then Some (Inr (False, n1, m1))
        else
          let buf = readBlock m1 physical;
              m2 = writeBlock physical (put buf (unat blockOff) (take (unat canWrite) src)) m1 in
          write_loop n1 m2 (pos + ucast canWrite) (drop (unat canWrite) src))"

definition ext2_write :: "Ext2Inode \<Rightarrow> u64 \<Rightarrow> bytes option \<Rightarrow> ext2 \<Rightarrow> (int \<times> Ext2Inode \<times> ext2) run" where
  "ext2_write n offset src m =
     (case src of
        None \<Rightarrow> Some (Inr (- 1, n, m))
      | Some bs \<Rightarrow>
          if bs = [] then Some (Inr (- 1, n, m))
          else
            let offset = (if offset = - 1 then ext2_size n else offset); len = of_nat (length bs) :: u64 in
            bindR (write_loop n m offset bs) (\<lambda>(ok, n1, m1).
              if \<not> ok then Some (Inr (- 1, n1, m1))
              else if offset + len > ext2_size n1 then
                let n2 = n1\<lparr>in_raw := set_i_size (ucast (len + offset)) (in_raw n1)\<rparr> in
                Some (Inr (sint (ucast len :: i32), n2, writeRawInode (in_num n2) (in_raw n2) m1))
              else Some (Inr (sint (ucast len :: i32), n1, m1))))"
text \<open>The pointers of a pointer block, as one buffer read at the start.\<close>

definition block_ptrs :: "ext2 \<Rightarrow> u32 \<Rightarrow> u32 list" where
  "block_ptrs m b = map (\<lambda>k. rd32 (readBlock m b) (4 * k)) [0..<unat (ptrsPerBlock m)]"

definition free_if :: "u32 \<Rightarrow> ext2 \<Rightarrow> ext2" where
  "free_if b m = (if b \<noteq> 0 then freeBlock b m else m)"

definition freeSingleIndirect :: "u32 \<Rightarrow> ext2 \<Rightarrow> ext2" where
  "freeSingleIndirect b m = (if b = 0 then m else freeBlock b (fold free_if (block_ptrs m b) m))"

definition freeDoubleIndirect :: "u32 \<Rightarrow> ext2 \<Rightarrow> ext2" where
  "freeDoubleIndirect b m = (if b = 0 then m else freeBlock b (fold freeSingleIndirect (block_ptrs m b) m))"

definition freeTripleIndirect :: "u32 \<Rightarrow> ext2 \<Rightarrow> ext2" where
  "freeTripleIndirect b m = (if b = 0 then m else freeBlock b (fold freeDoubleIndirect (block_ptrs m b) m))"

definition free_file_blocks :: "bytes \<Rightarrow> ext2 \<Rightarrow> ext2" where
  "free_file_blocks raw m =
     freeTripleIndirect (i_block raw 14) (freeDoubleIndirect (i_block raw 13) (freeSingleIndirect (i_block raw 12)
       (fold (\<lambda>k. free_if (i_block raw k)) [0..<12] m)))"

definition zero_i_blocks :: "bytes \<Rightarrow> bytes" where
  "zero_i_blocks raw = fold (\<lambda>k. set_i_block k 0) [0..<15] raw"

definition ext2_truncate :: "Ext2Inode \<Rightarrow> u64 \<Rightarrow> ext2 \<Rightarrow> int \<times> Ext2Inode \<times> ext2" where
  "ext2_truncate n sz m =
     (if sz \<noteq> 0 then (- 1, n, m)
      else
        let m1 = free_file_blocks (in_raw n) m;
            n1 = n\<lparr>in_raw := set_i_blocks 0 (set_i_size 0 (zero_i_blocks (in_raw n)))\<rparr> in
        (0, n1, writeRawInode (in_num n1) (in_raw n1) m1))"

definition ext2_readlink :: "Ext2Inode \<Rightarrow> u64 \<Rightarrow> int \<times> bytes" where
  "ext2_readlink n bufsize =
     (if \<not> ext2_isSymlink n then (- 1, [])
      else
        let len = ext2_size n in
        if len > 60 then (- 1, [])
        else let toCopy = (if len < bufsize then len else bufsize) in
          (int (unat toCopy), sub_bytes (in_raw n) 40 (unat toCopy)))"

section \<open>The block map as a flat list\<close>

text \<open>
  The reference: the leaves under a pointer block of a given depth, from left to right. A missing pointer block stands for
  as many zeros.
\<close>

fun leaves :: "ext2 \<Rightarrow> nat \<Rightarrow> u32 \<Rightarrow> u32 list" where
  "leaves m 0 b = [b]"
| "leaves m (Suc d) b = concat (map (\<lambda>k. leaves m d (follow m b k)) (map of_nat [0..<unat (ptrsPerBlock m)]))"

definition file_blocks :: "ext2 \<Rightarrow> bytes \<Rightarrow> u32 list" where
  "file_blocks m raw =
     map (i_block raw) [0..<12] @ leaves m 1 (i_block raw 12) @ leaves m 2 (i_block raw 13) @ leaves m 3 (i_block raw 14)"

lemma concat_uniform:
  assumes "\<And>x. x \<in> set xs \<Longrightarrow> length (f x) = n" and "i < length xs * n"
  shows "concat (map f xs) ! i = f (xs ! (i div n)) ! (i mod n)"
  using assms
proof (induction xs arbitrary: i)
  case (Cons x xs)
  have n: "0 < n" using Cons.prems(2) by (cases n) auto
  show ?case
  proof (cases "i < n")
    case True
    then show ?thesis using Cons.prems(1) by (simp add: nth_append)
  next
    case False
    then have "concat (map f xs) ! (i - n) = f (xs ! ((i - n) div n)) ! ((i - n) mod n)"
      using Cons by simp
    moreover have "i div n = Suc ((i - n) div n)" "i mod n = (i - n) mod n"
      using False n by (simp_all add: le_div_geq le_mod_geq)
    ultimately show ?thesis using False Cons.prems(1) by (simp add: nth_append)
  qed
qed simp

lemma length_leaves: "length (leaves m d b) = unat (ptrsPerBlock m) ^ d"
proof (induction d arbitrary: b)
  case (Suc d)
  have "length (concat (map f xs)) = length xs * n" if "\<And>x. length (f x) = n" for f :: "u32 \<Rightarrow> u32 list" and xs n
    using that by (induction xs) simp_all
  from this [of "\<lambda>k. leaves m d (follow m b k)" "unat (ptrsPerBlock m) ^ d" "map of_nat [0..<unat (ptrsPerBlock m)]"] Suc
  show ?case by (simp del: map_map)
qed simp

lemma leaves_nth:
  assumes "i < unat (ptrsPerBlock m) ^ Suc d"
  shows "leaves m (Suc d) b ! i =
    leaves m d (follow m b (of_nat (i div unat (ptrsPerBlock m) ^ d))) ! (i mod unat (ptrsPerBlock m) ^ d)"
proof -
  let ?p = "unat (ptrsPerBlock m)"
  let ?xs = "map of_nat [0..<?p] :: u32 list"
  have "?p ^ d \<noteq> 0" using assms by (cases "?p = 0"; cases d) auto
  then have "i div ?p ^ d < ?p" using assms by (simp add: div_less_iff_less_mult)
  then have "?xs ! (i div ?p ^ d) = of_nat (i div ?p ^ d)" by simp
  then show ?thesis
    using concat_uniform [of ?xs "\<lambda>k. leaves m d (follow m b k)" "?p ^ d" i] assms by (simp add: length_leaves)
qed
declare leaves.simps(2) [simp del]

lemma ptrs_cases: "geom m \<Longrightarrow> ptrsPerBlock m \<in> {256, 512, 1024}"
  by (auto simp: geom_def ptrsPerBlock_def)

lemma ptrs_bytes: "geom m \<Longrightarrow> 4 * unat (ptrsPerBlock m) = unat (m_blockSize m)"
  by (auto simp: geom_def ptrsPerBlock_def)

lemma unat_ptrs:
  assumes "geom m"
  defines "P \<equiv> unat (ptrsPerBlock m)"
  shows "unat (ptrsPerBlock m * ptrsPerBlock m) = P * P"
    "unat (ptrsPerBlock m * (ptrsPerBlock m * ptrsPerBlock m)) = P * (P * P)" "0 < P" "P \<le> 1024"
  using ptrs_cases [OF assms(1)] unfolding P_def by auto

text \<open>The indices of the three indirect ranges, read as natural numbers.\<close>

lemma digits_2:
  assumes "geom m" and "unat l < unat (ptrsPerBlock m) * unat (ptrsPerBlock m)"
  shows "leaves m 2 b ! unat l = follow m (follow m b (l div ptrsPerBlock m)) (l mod ptrsPerBlock m)"
proof -
  let ?p = "ptrsPerBlock m"
  have "leaves m (Suc (Suc 0)) b ! unat l =
      leaves m (Suc 0) (follow m b (of_nat (unat l div unat ?p))) ! (unat l mod unat ?p)"
    using assms(2) leaves_nth [of "unat l" m "Suc 0" b] by simp
  also have "\<dots> = follow m (follow m b (of_nat (unat l div unat ?p))) (of_nat (unat l mod unat ?p))"
    using leaves_nth [of "unat l mod unat ?p" m 0] unat_ptrs(3) [OF assms(1)] by simp
  finally show ?thesis
    by (simp add: numeral_2_eq_2 word_arith_nat_div word_arith_nat_mod)
qed

lemma digits_3:
  assumes "geom m" and "unat l < unat (ptrsPerBlock m) * (unat (ptrsPerBlock m) * unat (ptrsPerBlock m))"
  defines "p \<equiv> ptrsPerBlock m"
  shows "leaves m 3 b ! unat l = follow m (follow m (follow m b (l div (p * p))) ((l mod (p * p)) div p)) (l mod p)"
proof -
  let ?P = "unat p"
  note U = unat_ptrs [OF assms(1), folded p_def]
  have "leaves m (Suc 2) b ! unat l = leaves m 2 (follow m b (of_nat (unat l div ?P ^ 2))) ! (unat l mod ?P ^ 2)"
    using assms(2) leaves_nth [of "unat l" m 2 b] by (simp add: p_def power2_eq_square power3_eq_cube mult.assoc)
  moreover have "unat l mod ?P ^ 2 = unat (l mod (p * p))" "of_nat (unat l div ?P ^ 2) = l div (p * p)"
    using U(1) by (simp_all add: unat_mod word_arith_nat_div power2_eq_square)
  moreover have "unat (l mod (p * p)) < ?P * ?P" using U by (simp add: unat_mod)
  ultimately have "leaves m (Suc 2) b ! unat l =
      follow m (follow m (follow m b (l div (p * p))) ((l mod (p * p)) div p)) ((l mod (p * p)) mod p)"
    using digits_2 [OF assms(1), of "l mod (p * p)"] by (simp add: p_def)
  moreover have "(l mod (p * p)) mod p = l mod p"
    using U(1) by (simp add: word_unat_eq_iff unat_mod mod_mult2_eq)
  ultimately show ?thesis by (simp add: numeral_3_eq_3 numeral_2_eq_2)
qed

lemma blockMap_flat:
  assumes geom: "geom m"
    and range: "unat logical < 12 + unat (ptrsPerBlock m) + unat (ptrsPerBlock m) ^ 2 + unat (ptrsPerBlock m) ^ 3"
  shows "blockMap m raw logical = Inr (file_blocks m raw ! unat logical)"
proof -
  define p where "p = ptrsPerBlock m"
  let ?P = "unat p"
  note U = unat_ptrs [OF geom, folded p_def]
  have len: "length (leaves m d b) = ?P ^ d" for d b by (simp add: length_leaves p_def)
  have l12: "logical < 12 \<longleftrightarrow> unat logical < 12" by (simp add: word_less_nat_alt)
  show ?thesis
  proof (cases "logical < 12")
    case True
    then show ?thesis by (simp add: blockMap_def file_blocks_def l12 nth_append)
  next
    case f1: False
    define l where "l = logical - 12"
    have l: "unat l = unat logical - 12" using f1 by (simp add: l_def unat_sub word_le_nat_alt not_less)
    show ?thesis
    proof (cases "l < p")
      case True
      then have u: "unat l < ?P" by (simp add: word_less_nat_alt)
      have "leaves m 1 b ! unat l = follow m b l" for b
        using leaves_nth [of "unat l" m 0 b] u by (simp add: p_def)
      then show ?thesis using f1 True u l
        by (simp add: blockMap_def file_blocks_def Let_def p_def [symmetric] l_def [symmetric] nth_append len l12)
    next
      case f2: False
      define l' where "l' = l - p"
      have l': "unat l' = unat logical - 12 - ?P" using f2 l by (simp add: l'_def unat_sub word_le_nat_alt not_less)
      have ge: "?P \<le> unat logical - 12" using f2 l by (simp add: word_less_nat_alt)
      show ?thesis
      proof (cases "l' < p * p")
        case True
        then have "unat l' < ?P * ?P" using U(1) by (simp add: word_less_nat_alt)
        then show ?thesis using f1 f2 True l' ge digits_2 [OF geom, of l' "i_block raw 13"]
          by (simp add: blockMap_def file_blocks_def Let_def p_def [symmetric] l_def [symmetric] l'_def [symmetric]
              nth_append len l12 power2_eq_square)
      next
        case f3: False
        define l'' where "l'' = l' - p * p"
        have ge': "?P * ?P \<le> unat logical - 12 - ?P" using f3 l' U(1) by (simp add: word_less_nat_alt)
        have l'': "unat l'' = unat logical - 12 - ?P - ?P * ?P"
          using f3 l' U(1) by (simp add: l''_def unat_sub word_le_nat_alt not_less)
        have "0 < ?P * (?P * ?P)" using U(3) by simp
        moreover have "unat logical < 12 + ?P + ?P * ?P + ?P * (?P * ?P)"
          using range by (simp add: p_def power2_eq_square power3_eq_cube mult.assoc)
        ultimately have b: "unat l'' < ?P * (?P * ?P)" unfolding l'' by linarith
        have "unat l'' div (?P * ?P) < ?P" using b U(3) by (simp add: div_less_iff_less_mult)
        then have in_range: "\<not> p \<le> l'' div (p * p)" using U(1) by (simp add: word_le_nat_alt unat_div)
        have "file_blocks m raw ! unat logical = leaves m 3 (i_block raw 14) ! unat l''"
          using f1 ge ge' unfolding l''
          by (simp add: file_blocks_def nth_append len l12 power2_eq_square)
        also have "\<dots> = follow m (follow m (follow m (i_block raw 14) (l'' div (p * p))) ((l'' mod (p * p)) div p)) (l'' mod p)"
          using digits_3 [OF geom, of l'' "i_block raw 14"] b by (simp add: p_def)
        finally show ?thesis using f1 f2 f3 in_range
          by (simp add: blockMap_def Let_def p_def [symmetric] l_def [symmetric] l'_def [symmetric] l''_def [symmetric]
              follow_def)
      qed
    qed
  qed
qed
section \<open>Data blocks and the blocks on a path\<close>

definition data_block :: "ext2 \<Rightarrow> u32 \<Rightarrow> bool" where
  "data_block m b \<longleftrightarrow> b \<noteq> 0 \<and> valid_block m b \<and> \<not> meta_block m b \<and> b \<notin> free_blocks m"

text \<open>What every operation on file contents keeps: the layout, and the places of all structures.\<close>

definition keeps :: "ext2 \<Rightarrow> ext2 \<Rightarrow> bool" where
  "keeps m n \<longleftrightarrow>
     layout n \<and> same_shape m n \<and> meta_block n = meta_block m \<and> free_blocks n \<subseteq> free_blocks m
     \<and> (\<forall>h < m_groupCount m. bg_inode_table (readGroupDesc n h) = bg_inode_table (readGroupDesc m h))"

lemma keeps_refl: "layout m \<Longrightarrow> keeps m m"
  by (simp add: keeps_def same_shape_def)

lemma keeps_trans: "keeps m n \<Longrightarrow> keeps n k \<Longrightarrow> keeps m k"
  unfolding keeps_def by (auto intro: same_shape_trans simp: same_shape_def)

lemma keeps_data:
  assumes "keeps m n" and "data_block m b"
  shows "data_block n b"
  using assms same_shape_places [of m n] unfolding keeps_def data_block_def by auto

lemma keeps_ptrs: "keeps m n \<Longrightarrow> ptrsPerBlock n = ptrsPerBlock m"
  by (simp add: keeps_def same_shape_def ptrsPerBlock_def)

lemma keeps_blockSize: "keeps m n \<Longrightarrow> m_blockSize n = m_blockSize m"
  by (simp add: keeps_def same_shape_def)

lemma alloc_keeps:
  assumes "layout m" and "allocBlock grp m = (b, m')" and "b \<noteq> 0"
  shows "keeps m m'" "data_block m' b" "b \<in> free_blocks m" "readBlock m' b = replicate (unat (m_blockSize m)) 0"
    "data_block m c \<Longrightarrow> readBlock m' c = readBlock m c"
proof -
  note A = allocBlock_correct [OF assms]
  have tables: "\<forall>h < m_groupCount m. bg_inode_table (readGroupDesc m' h) = bg_inode_table (readGroupDesc m h)"
    using A(8) by blast
  show "keeps m m'" unfolding keeps_def using A(2-4,7) tables by auto
  show "data_block m' b"
    using free_block_data [OF assms(1) A(1)] A(2,7) same_shape_places [OF A(4)] by (simp add: data_block_def)
  show "b \<in> free_blocks m" "readBlock m' b = replicate (unat (m_blockSize m)) 0" by (fact A(1), fact A(5))
  show "readBlock m' c = readBlock m c" if "data_block m c"
    using A(1,6) that unfolding data_block_def by blast
qed

lemma write_keeps:
  assumes lay: "layout m" and b: "data_block m b" and len: "length buf = unat (m_blockSize m)"
  shows "keeps m (writeBlock b buf m)" "readBlock (writeBlock b buf m) b = buf" "free_blocks (writeBlock b buf m) = free_blocks m"
    "valid_block m c \<Longrightarrow> c \<noteq> b \<Longrightarrow> readBlock (writeBlock b buf m) c = readBlock m c"
proof -
  let ?n = "writeBlock b buf m"
  have v: "valid_block m b" "\<not> meta_block m b" using b by (simp_all add: data_block_def)
  have geom: "geom m" using lay by (simp add: layout_def)
  have g: "geom ?n" using writeBlock_geometry [OF geom] len by simp
  have same: "same_shape m ?n" by (rule same_shape_write)
  note P = same_shape_places [OF same]
  show other: "readBlock ?n c = readBlock m c" if "valid_block m c" "c \<noteq> b" for c
    using that v(1) by (intro read_other) auto
  have desc: "readGroupDesc ?n h = readGroupDesc m h" if h: "h < m_groupCount m" for h
  proof -
    have "desc_block m h \<noteq> b" using v(2) h by (auto simp: meta_block_def)
    from other [OF layoutD(2) [OF lay h] this] show ?thesis by (simp only: readGroupDesc_def P)
  qed
  have used: "block_used ?n h j = block_used m h j" if h: "h < m_groupCount m" for h j
  proof -
    have "bitmap_block m h \<noteq> b" using v(2) h by (auto simp: meta_block_def)
    then show ?thesis using other [OF layoutD(4) [OF lay h]] desc [OF h] by (simp add: block_used_def)
  qed
  show fr: "free_blocks ?n = free_blocks m" unfolding free_blocks_def using used P(7) by auto
  have bb: "bitmap_block ?n h = bitmap_block m h" if "h < m_groupCount m" for h using desc [OF that] by simp
  have "layout ?n"
    by (rule layout_transfer [OF lay g same bb]) (use fr free_block_data [OF lay] in auto)
  moreover have "meta_block ?n = meta_block m" by (rule same_meta [OF same]) (rule bb)
  ultimately show "keeps m ?n" unfolding keeps_def using same fr desc by auto
  show "readBlock ?n b = buf" using read_written [OF geom v(1), of buf] len by simp
qed

text \<open>The pointer blocks that a list of indices passes through.\<close>

fun pblocks :: "ext2 \<Rightarrow> u32 \<Rightarrow> u32 list \<Rightarrow> u32 list" where
  "pblocks m b [] = []"
| "pblocks m b (k # ks) = (if b = 0 then [] else b # pblocks m (follow m b k) ks)"

definition path_ok :: "ext2 \<Rightarrow> u32 \<Rightarrow> u32 list \<Rightarrow> bool" where
  "path_ok m b ks \<longleftrightarrow>
     distinct (pblocks m b ks) \<and> (\<forall>c \<in> set (pblocks m b ks). data_block m c) \<and> (\<forall>k \<in> set ks. k < ptrsPerBlock m)"

lemma pblocks_zero [simp]: "pblocks m 0 ks = []"
  by (cases ks) simp_all

lemma pblocks_cong:
  "(\<And>c. c \<in> set (pblocks m b ks) \<Longrightarrow> readBlock n c = readBlock m c) \<Longrightarrow> pblocks n b ks = pblocks m b ks"
  by (induction ks arbitrary: b) (auto simp: follow_def)

lemma foldl_follow_cong:
  "(\<And>c. c \<in> set (pblocks m b ks) \<Longrightarrow> readBlock n c = readBlock m c) \<Longrightarrow> foldl (follow n) b ks = foldl (follow m) b ks"
proof (induction ks arbitrary: b)
  case (Cons k ks)
  show ?case
  proof (cases "b = 0")
    case True
    have "foldl (follow x) 0 js = 0" for x js by (induction js) simp_all
    then show ?thesis unfolding True by simp
  next
    case False
    then have "follow n b k = follow m b k" using Cons.prems [of b] by (simp add: follow_def)
    then show ?thesis using Cons.IH [of "follow m b k"] Cons.prems False by simp
  qed
qed simp
lemma follow_zeros: "readBlock m b = replicate n 0 \<Longrightarrow> 4 * unat k + 4 \<le> n \<Longrightarrow> follow m b k = 0"
  by (simp add: follow_def rd32_def)

lemma ptr_fits:
  assumes "geom m" and "k < ptrsPerBlock m"
  shows "4 * unat k + 4 \<le> unat (m_blockSize m)"
  using ptrs_bytes [OF assms(1)] assms(2) by (simp add: word_less_nat_alt)

section \<open>Allocation along a path\<close>

lemma ensure_ptr_correct:
  assumes lay: "layout m" and b: "data_block m b" and k: "k < ptrsPerBlock m"
    and run: "ensure_ptr grp b k m = (q, m1)" and q: "q \<noteq> 0"
  shows "keeps m m1" "follow m1 b k = q" "data_block m c \<Longrightarrow> c \<noteq> b \<Longrightarrow> readBlock m1 c = readBlock m c"
    "(m1 = m \<and> q = follow m b k)
     \<or> (q \<in> free_blocks m \<and> data_block m1 q \<and> readBlock m1 q = replicate (unat (m_blockSize m)) 0)"
proof -
  let ?buf = "readBlock m b"
  have geom: "geom m" using lay by (simp add: layout_def)
  have bn: "b \<noteq> 0" using b by (simp add: data_block_def)
  have all: "keeps m m1 \<and> follow m1 b k = q \<and> (\<forall>c. data_block m c \<and> c \<noteq> b \<longrightarrow> readBlock m1 c = readBlock m c)
    \<and> ((m1 = m \<and> q = follow m b k)
     \<or> (q \<in> free_blocks m \<and> data_block m1 q \<and> readBlock m1 q = replicate (unat (m_blockSize m)) 0))"
  proof (cases "rd32 ?buf (4 * unat k) = 0")
    case False
    then show ?thesis using run keeps_refl [OF lay] bn by (auto simp: ensure_ptr_def Let_def follow_def)
  next
    case True
    obtain q' m' where al: "allocBlock grp m = (q', m')" by (cases "allocBlock grp m")
    with True run q have q': "q' = q" "m1 = writeBlock b (put ?buf (4 * unat k) (le32 q)) m'"
      by (auto simp: ensure_ptr_def Let_def split: if_splits)
    note A = alloc_keeps [OF lay al [unfolded q'(1)] q]
    have lay': "layout m'" using A(1) by (simp add: keeps_def)
    have b': "data_block m' b" by (rule keeps_data [OF A(1) b])
    have fits: "4 * unat k + length (le32 q) \<le> length ?buf"
      using ptr_fits [OF geom k] by (simp add: readBlock_length [OF geom])
    then have len: "length (put ?buf (4 * unat k) (le32 q)) = unat (m_blockSize m')"
      using keeps_blockSize [OF A(1)] by (simp add: readBlock_length [OF geom])
    note W = write_keeps [OF lay' b' len, folded q'(2)]
    have "q \<noteq> b" using A(3) b by (auto simp: data_block_def)
    then have zero: "readBlock m1 q = replicate (unat (m_blockSize m)) 0"
      using W(4) [of q] A(2,4) by (simp add: data_block_def)
    have "follow m1 b k = q" using W(2) bn fits by (simp add: follow_def)
    moreover have "readBlock m1 c = readBlock m c" if "data_block m c" "c \<noteq> b" for c
      using W(4) [of c] A(5) [OF that(1)] keeps_data [OF A(1) that(1)] that(2) by (simp add: data_block_def)
    ultimately show ?thesis
      using keeps_trans [OF A(1) W(1)] A(3) zero keeps_data [OF W(1) A(2)] by blast
  qed
  show "keeps m m1" "follow m1 b k = q" "data_block m c \<Longrightarrow> c \<noteq> b \<Longrightarrow> readBlock m1 c = readBlock m c"
    "(m1 = m \<and> q = follow m b k)
     \<or> (q \<in> free_blocks m \<and> data_block m1 q \<and> readBlock m1 q = replicate (unat (m_blockSize m)) 0)"
    using all by auto
qed

lemma ensure_path_correct:
  "layout m \<Longrightarrow> path_ok m b ks \<Longrightarrow> ensure_path grp b ks m = (p, m') \<Longrightarrow> p \<noteq> 0 \<Longrightarrow>
   keeps m m' \<and> foldl (follow m') b ks = p
   \<and> (\<forall>c. data_block m c \<and> c \<notin> set (pblocks m b ks) \<longrightarrow> readBlock m' c = readBlock m c)"
proof (induction ks arbitrary: b m)
  case Nil
  then show ?case using keeps_refl by auto
next
  case (Cons k ks)
  have b: "b \<noteq> 0" using Cons.prems(3,4) by (auto split: if_splits)
  obtain q m1 where e: "ensure_ptr grp b k m = (q, m1)" by (cases "ensure_ptr grp b k m")
  then have rest: "ensure_path grp q ks m1 = (p, m')" using Cons.prems(3) b by simp
  have q: "q \<noteq> 0" using rest Cons.prems(4) by (cases ks) auto
  have data: "data_block m b" and k: "k < ptrsPerBlock m" and fresh: "b \<notin> set (pblocks m (follow m b k) ks)"
    and sub: "path_ok m (follow m b k) ks"
    using Cons.prems(2) b by (auto simp: path_ok_def)
  note E = ensure_ptr_correct [OF Cons.prems(1) data k e q]
  have geom: "geom m" using Cons.prems(1) by (simp add: layout_def)
  from E(4) show ?case
  proof
    assume "m1 = m \<and> q = follow m b k"
    then have old: "m1 = m" "q = follow m b k" by simp_all
    with Cons.IH [OF Cons.prems(1) sub] rest Cons.prems(4)
    have IH: "keeps m m'" "foldl (follow m') q ks = p"
      "\<forall>c. data_block m c \<and> c \<notin> set (pblocks m q ks) \<longrightarrow> readBlock m' c = readBlock m c" by auto
    have "readBlock m' b = readBlock m b" using IH(3) data fresh old(2) by blast
    then have "follow m' b k = q" by (simp add: old(2) follow_def)
    then show ?thesis using IH b old(2) by auto
  next
    assume "q \<in> free_blocks m \<and> data_block m1 q \<and> readBlock m1 q = replicate (unat (m_blockSize m)) 0"
    then have new: "q \<in> free_blocks m" "data_block m1 q" "readBlock m1 q = replicate (unat (m_blockSize m)) 0" by simp_all
    have lt: "\<forall>j \<in> set ks. j < ptrsPerBlock m" using Cons.prems(2) by (simp add: path_ok_def)
    have pb: "set (pblocks m1 q ks) \<subseteq> {q}" "distinct (pblocks m1 q ks)"
      using lt follow_zeros [OF new(3) ptr_fits [OF geom]] by (cases ks; simp)+
    have lay1: "layout m1" using E(1) by (simp add: keeps_def)
    have "path_ok m1 q ks" using pb new(2) lt keeps_ptrs [OF E(1)] by (auto simp: path_ok_def)
    with Cons.IH [OF lay1 _ rest Cons.prems(4)]
    have IH: "keeps m1 m'" "foldl (follow m') q ks = p"
      "\<forall>c. data_block m1 c \<and> c \<notin> set (pblocks m1 q ks) \<longrightarrow> readBlock m' c = readBlock m1 c" by auto
    have old: "readBlock m' c = readBlock m1 c" if "data_block m c" for c
    proof -
      have "c \<noteq> q" using that new(1) by (auto simp: data_block_def)
      then show ?thesis using IH(3) keeps_data [OF E(1) that] pb(1) by blast
    qed
    have "follow m' b k = q" using E(2) old [OF data] b by (simp add: follow_def)
    then show ?thesis using IH(2) keeps_trans [OF E(1) IH(1)] old E(3) b by auto
  qed
qed
section \<open>The inode on disk\<close>

definition inode_ok :: "ext2 \<Rightarrow> Ext2Inode \<Rightarrow> bool" where
  "inode_ok m n \<longleftrightarrow>
     inode_group m (in_num n) < m_groupCount m \<and> data_block m (inode_block m (in_num n))
     \<and> inode_offset m (in_num n) + 128 \<le> unat (m_blockSize m) \<and> length (in_raw n) = 128"

lemma keeps_inode_place:
  assumes "keeps m m'" and "inode_group m num < m_groupCount m"
  shows "inode_group m' num = inode_group m num" "inode_block m' num = inode_block m num" "inode_offset m' num = inode_offset m num"
  using assms
  by (simp_all add: keeps_def same_shape_def inode_group_def inode_index_def inode_block_def inode_offset_def Let_def)

lemma keeps_inode_ok:
  assumes "keeps m m'" and "inode_ok m n" and "length (in_raw n') = 128" and "in_num n' = in_num n"
  shows "inode_ok m' n'"
  using assms keeps_inode_place [OF assms(1), of "in_num n"] keeps_data [OF assms(1)] keeps_blockSize [OF assms(1)]
  by (simp add: inode_ok_def keeps_def same_shape_def)

lemma writeRawInode_correct:
  assumes lay: "layout m" and ok: "inode_ok m n"
  defines "m' \<equiv> writeRawInode (in_num n) (in_raw n) m"
  shows "keeps m m'" "readRawInode m' (in_num n) = in_raw n" "free_blocks m' = free_blocks m"
    "valid_block m c \<Longrightarrow> c \<noteq> inode_block m (in_num n) \<Longrightarrow> readBlock m' c = readBlock m c"
proof -
  let ?b = "inode_block m (in_num n)" and ?o = "inode_offset m (in_num n)"
  have geom: "geom m" using lay by (simp add: layout_def)
  have b: "data_block m ?b" and gr: "inode_group m (in_num n) < m_groupCount m" using ok by (simp_all add: inode_ok_def)
  have fits: "?o + length (in_raw n) \<le> length (readBlock m ?b)"
    using ok by (simp add: inode_ok_def readBlock_length [OF geom])
  then have len: "length (put (readBlock m ?b) ?o (in_raw n)) = unat (m_blockSize m)"
    by (simp add: readBlock_length [OF geom])
  note W = write_keeps [OF lay b len, folded writeRawInode_def m'_def]
  show "keeps m m'" "free_blocks m' = free_blocks m"
    "valid_block m c \<Longrightarrow> c \<noteq> ?b \<Longrightarrow> readBlock m' c = readBlock m c"
    by (fact W(1), fact W(3), rule W(4))
  show "readRawInode m' (in_num n) = in_raw n"
    using W(2) sub_bytes_put_same [OF fits] ok keeps_inode_place [OF W(1) gr] by (simp add: readRawInode_def inode_ok_def)
qed

lemma i_block_set:
  assumes "length raw = 128" and "k < 15" and "j < 15"
  shows "i_block (set_i_block k v raw) j = (if j = k then v else i_block raw j)" "length (set_i_block k v raw) = 128"
proof -
  show "length (set_i_block k v raw) = 128" using assms by (simp add: set_i_block_def)
  have "40 + 4 * j + 4 \<le> 40 + 4 * k \<or> 40 + 4 * k + 4 \<le> 40 + 4 * j" if "j \<noteq> k" using that by arith
  then show "i_block (set_i_block k v raw) j = (if j = k then v else i_block raw j)"
    using assms by (simp add: i_block_def set_i_block_def rd32_put_other)
qed

text \<open>Where a logical block is found: a slot of the inode and the indices through the pointer blocks.\<close>

definition block_path :: "ext2 \<Rightarrow> u32 \<Rightarrow> (nat \<times> u32 list) option" where
  "block_path m logical =
     (let p = ptrsPerBlock m in
      if logical < 12 then Some (unat logical, [])
      else let l = logical - 12 in
      if l < p then Some (12, [l])
      else let l = l - p in
      if l < p * p then Some (13, [l div p, l mod p])
      else let l = l - p * p in
      if l < p * (p * p) then Some (14, [l div (p * p), (l mod (p * p)) div p, l mod p])
      else None)"

lemma blockMapAlloc_path:
  "blockMapAlloc logical n m =
     (case block_path m logical of
        None \<Rightarrow> (0, n, m)
      | Some (k, ks) \<Rightarrow> ensure_tree (inode_group m (in_num n)) k ks n m)"
  by (simp add: blockMapAlloc_def block_path_def ensure_tree_def Let_def split: prod.split)

lemma block_path_range:
  assumes "geom m" and "block_path m logical = Some (k, ks)"
  shows "k < 15" "\<forall>j \<in> set ks. j < ptrsPerBlock m"
proof -
  let ?p = "ptrsPerBlock m"
  note U = unat_ptrs [OF assms(1)]
  have md: "x mod ?p < ?p" for x using U(3) by (simp add: word_less_nat_alt unat_mod)
  have d2: "x div ?p < ?p" if "x < ?p * ?p" for x
    using that U by (simp add: word_less_nat_alt unat_div div_less_iff_less_mult)
  have d3: "x div (?p * ?p) < ?p" if "x < ?p * (?p * ?p)" for x
    using that U by (simp add: word_less_nat_alt unat_div div_less_iff_less_mult)
  have m2: "x mod (?p * ?p) < ?p * ?p" for x using U by (simp add: word_less_nat_alt unat_mod)
  show "k < 15" using assms(2) by (auto simp: block_path_def Let_def word_less_nat_alt split: if_splits)
  show "\<forall>j \<in> set ks. j < ?p"
    using assms(2) md d2 d3 d2 [OF m2] by (auto simp: block_path_def Let_def split: if_splits)
qed

lemma blockMap_path:
  assumes "geom m" and "block_path m logical = Some (k, ks)"
  shows "blockMap m raw logical = Inr (foldl (follow m) (i_block raw k) ks)"
proof -
  let ?p = "ptrsPerBlock m"
  note U = unat_ptrs [OF assms(1)]
  have d3: "\<not> ?p \<le> x div (?p * ?p)" if "x < ?p * (?p * ?p)" for x
    using that U by (simp add: word_less_nat_alt word_le_nat_alt unat_div div_less_iff_less_mult not_le)
  show ?thesis
    using assms(2) d3 by (auto simp: block_path_def blockMap_def Let_def split: if_splits)
qed
text \<open>The blocks of a file on the way to a logical block are data blocks, all different and not the inode's own.\<close>

definition file_ok :: "ext2 \<Rightarrow> Ext2Inode \<Rightarrow> nat \<Rightarrow> u32 list \<Rightarrow> bool" where
  "file_ok m n k ks \<longleftrightarrow>
     inode_ok m n \<and> path_ok m (i_block (in_raw n) k) ks
     \<and> inode_block m (in_num n) \<notin> set (pblocks m (i_block (in_raw n) k) ks)"

lemma ensure_root_correct:
  assumes lay: "layout m" and ok: "file_ok m n k ks" and k: "k < 15" and ks: "\<forall>j \<in> set ks. j < ptrsPerBlock m"
    and run: "ensure_root grp k n m = (b, n1, m1)" and b: "b \<noteq> 0"
  shows "keeps m m1" "file_ok m1 n1 k ks" "i_block (in_raw n1) k = b" "in_num n1 = in_num n"
    "readRawInode m (in_num n) = in_raw n \<Longrightarrow> readRawInode m1 (in_num n) = in_raw n1"
    "data_block m c \<Longrightarrow> c \<noteq> inode_block m (in_num n) \<Longrightarrow> readBlock m1 c = readBlock m c"
    "set (pblocks m1 b ks) \<subseteq> set (pblocks m (i_block (in_raw n) k) ks) \<union> free_blocks m"
proof -
  let ?i = "inode_block m (in_num n)"
  have geom: "geom m" using lay by (simp add: layout_def)
  have iok: "inode_ok m n" using ok by (simp add: file_ok_def)
  have all: "keeps m m1 \<and> file_ok m1 n1 k ks \<and> i_block (in_raw n1) k = b \<and> in_num n1 = in_num n
    \<and> (readRawInode m (in_num n) = in_raw n \<longrightarrow> readRawInode m1 (in_num n) = in_raw n1)
    \<and> (\<forall>c. data_block m c \<and> c \<noteq> ?i \<longrightarrow> readBlock m1 c = readBlock m c)
    \<and> set (pblocks m1 b ks) \<subseteq> set (pblocks m (i_block (in_raw n) k) ks) \<union> free_blocks m"
  proof (cases "i_block (in_raw n) k = 0")
    case False
    then show ?thesis using run ok keeps_refl [OF lay] by (auto simp: ensure_root_def)
  next
    case True
    obtain q m' where al: "allocBlock grp m = (q, m')" by (cases "allocBlock grp m")
    with True run b have q: "q = b" and n1: "n1 = n\<lparr>in_raw := set_i_block k b (in_raw n)\<rparr>"
      and m1: "m1 = writeRawInode (in_num n1) (in_raw n1) m'"
      by (auto simp: ensure_root_def Let_def split: if_splits)
    note A = alloc_keeps [OF lay al [unfolded q] b]
    have lay': "layout m'" using A(1) by (simp add: keeps_def)
    have raw: "length (in_raw n) = 128" using iok by (simp add: inode_ok_def)
    note I = i_block_set [OF raw k k, of b]
    have iok': "inode_ok m' n1" using keeps_inode_ok [OF A(1) iok, of n1] I(2) by (simp add: n1)
    note W = writeRawInode_correct [OF lay' iok', folded m1]
    have place: "inode_block m' (in_num n1) = ?i"
      using keeps_inode_place [OF A(1), of "in_num n"] iok by (simp add: n1 inode_ok_def)
    have K: "keeps m m1" by (rule keeps_trans [OF A(1) W(1)])
    have bi: "b \<noteq> ?i" using A(3) iok by (auto simp: inode_ok_def data_block_def)
    have "readBlock m1 b = replicate (unat (m_blockSize m)) 0"
      using W(4) [of b] place bi A(2,4) by (simp add: data_block_def)
    then have z: "follow m1 b j = 0" if "j < ptrsPerBlock m" for j using follow_zeros ptr_fits [OF geom that] by blast
    have pb: "set (pblocks m1 b ks) \<subseteq> {b}" "distinct (pblocks m1 b ks)" using ks z by (cases ks; simp)+
    have db: "data_block m1 b" by (rule keeps_data [OF W(1) A(2)])
    have place1: "inode_block m1 (in_num n1) = ?i"
      using keeps_inode_place [OF K, of "in_num n"] iok by (simp add: n1 inode_ok_def)
    have "file_ok m1 n1 k ks"
      using keeps_inode_ok [OF K iok, of n1] I pb db ks keeps_ptrs [OF K] bi place1
      by (auto simp: file_ok_def path_ok_def n1)
    moreover have "readBlock m1 c = readBlock m c" if "data_block m c" "c \<noteq> ?i" for c
      using W(4) [of c] place that A(5) keeps_data [OF A(1) that(1)] by (simp add: data_block_def)
    ultimately show ?thesis using K I(1) W(2) pb(1) A(3) by (auto simp: n1)
  qed
  show "keeps m m1" "file_ok m1 n1 k ks" "i_block (in_raw n1) k = b" "in_num n1 = in_num n"
    "readRawInode m (in_num n) = in_raw n \<Longrightarrow> readRawInode m1 (in_num n) = in_raw n1"
    "data_block m c \<Longrightarrow> c \<noteq> inode_block m (in_num n) \<Longrightarrow> readBlock m1 c = readBlock m c"
    "set (pblocks m1 b ks) \<subseteq> set (pblocks m (i_block (in_raw n) k) ks) \<union> free_blocks m"
    using all by auto
qed

lemma blockMapAlloc_correct:
  assumes lay: "layout m" and path: "block_path m logical = Some (k, ks)" and ok: "file_ok m n k ks"
    and run: "blockMapAlloc logical n m = (p, n', m')" and p: "p \<noteq> 0"
  shows "keeps m m'" "blockMap m' (in_raw n') logical = Inr p"
    "readRawInode m (in_num n) = in_raw n \<Longrightarrow> readRawInode m' (in_num n) = in_raw n'"
    "data_block m c \<Longrightarrow> c \<noteq> inode_block m (in_num n) \<Longrightarrow> c \<notin> set (pblocks m (i_block (in_raw n) k) ks)
     \<Longrightarrow> readBlock m' c = readBlock m c"
proof -
  let ?i = "inode_block m (in_num n)" and ?grp = "inode_group m (in_num n)"
  have geom: "geom m" using lay by (simp add: layout_def)
  note R = block_path_range [OF geom path]
  obtain b n1 m1 where root: "ensure_root ?grp k n m = (b, n1, m1)" by (cases "ensure_root ?grp k n m") auto
  with run path have n': "n' = n1" and ep: "ensure_path ?grp b ks m1 = (p, m')"
    by (auto simp: blockMapAlloc_path ensure_tree_def split: prod.splits)
  have b: "b \<noteq> 0" using ep p by (cases ks) auto
  note E = ensure_root_correct [OF lay ok R root b]
  have lay1: "layout m1" using E(1) by (simp add: keeps_def)
  have pok: "path_ok m1 b ks" and ni: "inode_block m1 (in_num n1) \<notin> set (pblocks m1 b ks)" and iok1: "inode_ok m1 n1"
    using E(2,3) by (simp_all add: file_ok_def)
  from ensure_path_correct [OF lay1 pok ep p]
  have P: "keeps m1 m'" "foldl (follow m') b ks = p"
    "\<forall>c. data_block m1 c \<and> c \<notin> set (pblocks m1 b ks) \<longrightarrow> readBlock m' c = readBlock m1 c" by auto
  show K: "keeps m m'" by (rule keeps_trans [OF E(1) P(1)])
  have geom': "geom m'" using K by (simp add: keeps_def layout_def)
  have "block_path m' logical = block_path m logical" using keeps_ptrs [OF K] by (simp add: block_path_def)
  then show "blockMap m' (in_raw n') logical = Inr p"
    using blockMap_path [OF geom'] path P(2) E(3) n' by simp
  have iok: "inode_ok m n" using ok by (simp add: file_ok_def)
  have di: "data_block m1 (inode_block m1 (in_num n1))" using iok1 by (simp add: inode_ok_def)
  have same_i: "readBlock m' (inode_block m1 (in_num n1)) = readBlock m1 (inode_block m1 (in_num n1))"
    using P(3) di ni by blast
  show "readRawInode m' (in_num n) = in_raw n'" if "readRawInode m (in_num n) = in_raw n"
  proof -
    have "readRawInode m' (in_num n1) = readRawInode m1 (in_num n1)"
      using same_i keeps_inode_place [OF P(1), of "in_num n1"] iok1 by (simp add: readRawInode_def inode_ok_def)
    then show ?thesis using E(4,5) that n' by simp
  qed
  show "readBlock m' c = readBlock m c"
    if "data_block m c" "c \<noteq> ?i" "c \<notin> set (pblocks m (i_block (in_raw n) k) ks)"
  proof -
    have "c \<notin> set (pblocks m1 b ks)" using E(7) that by (auto simp: data_block_def)
    then show ?thesis using P(3) keeps_data [OF E(1) that(1)] E(6) [OF that(1,2)] by simp
  qed
qed
section \<open>Reading\<close>

text \<open>The bytes of a file, one by one; a block that is not there reads as zeros.\<close>

definition file_byte :: "ext2 \<Rightarrow> bytes \<Rightarrow> nat \<Rightarrow> u8" where
  "file_byte m raw i =
     (let b = file_blocks m raw ! (i div unat (m_blockSize m)) in
      if b = 0 then 0 else readBlock m b ! (i mod unat (m_blockSize m)))"

lemma bs_unat: "geom m \<Longrightarrow> unat (ucast (m_blockSize m) :: u64) = unat (m_blockSize m)"
  by (rule unat_widen)

lemma bs_pos: "geom m \<Longrightarrow> 0 < unat (m_blockSize m)"
  by (auto simp: geom_def)

lemma ucast_down: "unat (x :: u64) < 2 ^ 32 \<Longrightarrow> unat (ucast x :: u32) = unat x"
  by (simp add: unsigned_ucast_eq take_bit_nat_eq_self)

lemma logical_range:
  assumes geom: "geom m" and "i < 2 ^ 32"
  shows "i div unat (m_blockSize m) < 12 + unat (ptrsPerBlock m) + unat (ptrsPerBlock m) ^ 2 + unat (ptrsPerBlock m) ^ 3"
proof -
  let ?B = "unat (m_blockSize m)"
  have "i div ?B \<le> (2 ^ 32 - 1) div ?B" using assms(2) by (intro div_le_mono) simp
  moreover have "(2 ^ 32 - 1) div ?B < 12 + unat (ptrsPerBlock m) + unat (ptrsPerBlock m) ^ 2 + unat (ptrsPerBlock m) ^ 3"
    using geom by (auto simp: geom_def ptrsPerBlock_def)
  ultimately show ?thesis by (rule le_less_trans)
qed

text \<open>The variables of one round: the block, the place in it, and how much of it is wanted.\<close>

lemma chunk_words:
  fixes pos remaining :: u64
  assumes geom: "geom m" and pos: "unat pos + unat remaining \<le> 2 ^ 32" and rem: "remaining \<noteq> 0"
  defines "off \<equiv> (ucast (pos mod ucast (m_blockSize m)) :: u32)" and "B \<equiv> unat (m_blockSize m)"
  defines "c \<equiv> (if ucast (m_blockSize m - off) > remaining then ucast remaining else m_blockSize m - off :: u32)"
  shows "unat (ucast (pos div ucast (m_blockSize m)) :: u32) = unat pos div B" "unat off = unat pos mod B"
    "unat c = min (B - unat pos mod B) (unat remaining)" "0 < unat c"
    "unat (pos + ucast c) = unat pos + unat c" "unat (remaining - ucast c) = unat remaining - unat c"
proof -
  have B: "0 < B" "B \<le> 4096" using geom by (auto simp: geom_def B_def)
  have "0 < unat remaining" using rem by (simp add: unat_gt_0)
  then have p32: "unat pos < 2 ^ 32" using pos by simp
  have "unat (pos div ucast (m_blockSize m)) = unat pos div B" by (simp add: unat_div unat_widen B_def)
  moreover have "unat pos div B \<le> unat pos" by (rule div_le_dividend)
  ultimately show "unat (ucast (pos div ucast (m_blockSize m)) :: u32) = unat pos div B"
    using p32 ucast_down [of "pos div ucast (m_blockSize m)"] by linarith
  have md: "unat (pos mod ucast (m_blockSize m)) = unat pos mod B" by (simp add: unat_mod unat_widen B_def)
  have mB: "unat pos mod B < B" using B(1) by simp
  then show off: "unat off = unat pos mod B" using md B(2) by (simp add: off_def ucast_down)
  have "off \<le> m_blockSize m" using off mB by (simp add: word_le_nat_alt B_def)
  then have diff: "unat (m_blockSize m - off) = B - unat pos mod B" by (simp add: unat_sub off B_def)
  have gt: "ucast (m_blockSize m - off) > remaining \<longleftrightarrow> unat remaining < B - unat pos mod B"
    by (simp add: word_less_nat_alt unat_widen diff)
  show c: "unat c = min (B - unat pos mod B) (unat remaining)"
  proof (cases "unat remaining < B - unat pos mod B")
    case True
    then have "unat remaining < 2 ^ 32" using B(2) by simp
    then show ?thesis using True gt by (simp add: c_def ucast_down)
  qed (use gt diff in \<open>simp add: c_def\<close>)
  show "0 < unat c" using c mB \<open>0 < unat remaining\<close> by simp
  have "unat pos + unat c < 2 ^ 64" using pos c by simp
  then show "unat (pos + ucast c) = unat pos + unat c" by (simp add: unat_word_ariths unat_widen)
  have "ucast c \<le> remaining" using c by (simp add: word_le_nat_alt unat_widen)
  then show "unat (remaining - ucast c) = unat remaining - unat c" by (simp add: unat_sub unat_widen)
qed

lemma split_at: "r < (B :: nat) \<Longrightarrow> (q * B + r) div B = q \<and> (q * B + r) mod B = r"
  by simp

lemma read_loop_bytes:
  assumes geom: "geom m"
  shows "unat pos + unat remaining \<le> 2 ^ 32 \<Longrightarrow>
    read_loop m raw pos remaining = Some (Inr (map (file_byte m raw) [unat pos..<unat pos + unat remaining]))"
proof (induction "unat remaining" arbitrary: pos remaining rule: less_induct)
  case less
  show ?case
  proof (cases "remaining = 0")
    case True
    then show ?thesis by (simp add: read_loop.simps)
  next
    case False
    define off where "off = (ucast (pos mod ucast (m_blockSize m)) :: u32)"
    define c where "c = (if ucast (m_blockSize m - off) > remaining then ucast remaining else m_blockSize m - off :: u32)"
    define lg where "lg = (ucast (pos div ucast (m_blockSize m)) :: u32)"
    let ?B = "unat (m_blockSize m)"
    note C = chunk_words [OF geom less.prems False, folded off_def, folded c_def lg_def]
    have le: "unat c \<le> unat remaining" using C(3) by simp
    let ?phys = "file_blocks m raw ! (unat pos div ?B)"
    have lt: "unat pos < 2 ^ 32" using less.prems False by (simp add: word_neq_0_conv word_less_nat_alt)
    have map: "blockMap m raw lg = Inr ?phys"
      using blockMap_flat [OF geom, of lg raw] logical_range [OF geom lt] C(1) by simp
    let ?chunk = "if ?phys = 0 then replicate (unat c) 0 else sub_bytes (readBlock m ?phys) (unat off) (unat c)"
    have rec: "read_loop m raw (pos + ucast c) (remaining - ucast c) =
      Some (Inr (map (file_byte m raw) [unat pos + unat c..<unat pos + unat remaining]))"
      using less.hyps [of "remaining - ucast c" "pos + ucast c"] C(4-6) le less.prems by simp
    have fit: "unat pos mod ?B + unat c \<le> ?B" 
    proof -
      have "unat pos mod ?B < ?B" using bs_pos [OF geom] by simp
      then show ?thesis using C(3) by linarith
    qed
    have chunk: "?chunk = map (file_byte m raw) [unat pos..<unat pos + unat c]"
    proof (rule nth_equalityI)
      show len: "length ?chunk = length (map (file_byte m raw) [unat pos..<unat pos + unat c])"
        using fit C(2) by (simp add: readBlock_length [OF geom])
      fix i assume "i < length ?chunk"
      then have i: "i < unat c" using len by simp
      have lt: "unat pos mod ?B + i < ?B" using i fit by simp
      have eq: "unat pos + i = (unat pos div ?B) * ?B + (unat pos mod ?B + i)" by simp
      have dm: "(unat pos + i) div ?B = unat pos div ?B" "(unat pos + i) mod ?B = unat pos mod ?B + i"
        using split_at [OF lt, of "unat pos div ?B", folded eq] by blast+
      show "?chunk ! i = map (file_byte m raw) [unat pos..<unat pos + unat c] ! i"
        using i fit C(2) by (simp add: file_byte_def dm Let_def sub_bytes_def readBlock_length [OF geom])
    qed
    have "[unat pos..<unat pos + unat remaining] = [unat pos..<unat pos + unat c] @ [unat pos + unat c..<unat pos + unat remaining]"
      using upt_add_eq_append [of "unat pos" "unat pos + unat c" "unat remaining - unat c"] le by simp
    moreover have "read_loop m raw pos remaining = (if remaining = 0 then Some (Inr [])
      else bindR (Some (blockMap m raw lg)) (\<lambda>physical.
        bindR (read_loop m raw (pos + ucast c) (remaining - ucast c))
          (\<lambda>rest. Some (Inr ((if physical = 0 then replicate (unat c) 0
             else sub_bytes (readBlock m physical) (unat off) (unat c)) @ rest)))))"
      unfolding off_def c_def lg_def by (subst read_loop.simps) (simp only: Let_def)
    ultimately show ?thesis using False map rec chunk by simp
  qed
qed
lemma sint_small: "unat (x :: i32) < 2 ^ 31 \<Longrightarrow> sint x = int (unat x)"
proof -
  assume "unat x < 2 ^ 31"
  then have "int (unat x) < int (2 ^ 31)" by (simp only: of_nat_less_iff)
  then have "- (2 ^ 31) \<le> uint x \<and> uint x < 2 ^ 31" using uint_ge_0 [of x] by (auto intro: order_trans [of _ 0])
  then show ?thesis by (simp add: sint_uint signed_take_bit_int_eq_self)
qed

lemma ext2_read_bytes:
  assumes geom: "geom m" and reg: "\<not> ext2_isDir n" and sz: "unat (ext2_size n) < 2 ^ 31"
    and wrap: "unat offset + unat len < 2 ^ 64"
  defines "l \<equiv> min (unat len) (unat (ext2_size n) - unat offset)"
  shows "ext2_read m n offset True len =
    Some (Inr (int l, map (file_byte m (in_raw n)) [unat offset..<unat offset + l]))"
proof (cases "len = 0 \<or> ext2_size n \<le> offset")
  case True
  then have "l = 0" by (auto simp: l_def word_le_nat_alt)
  then show ?thesis using True by (auto simp: ext2_read_def)
next
  case False
  define w where "w = (if offset + len > ext2_size n then ext2_size n - offset else len)"
  have lt: "unat offset < unat (ext2_size n)" using False by (simp add: word_le_nat_alt not_le)
  have "unat (offset + len) = unat offset + unat len" using wrap by (simp add: unat_word_ariths)
  then have w: "unat w = l"
    using lt by (auto simp: w_def l_def word_less_nat_alt unat_sub word_le_nat_alt)
  have l31: "l < 2 ^ 31" using sz by (simp add: l_def)
  have "sint (ucast w :: i32) = int l"
  proof -
    have "unat (ucast w :: i32) = l" using ucast_down [of w] w l31 by simp
    then show ?thesis using l31 sint_small [of "ucast w :: i32"] by simp
  qed
  moreover have "unat offset + unat w \<le> 2 ^ 32" using w lt sz by (simp add: l_def)
  ultimately show ?thesis
    using False reg read_loop_bytes [OF geom, of offset w "in_raw n"] w
    by (simp add: ext2_read_def Let_def w_def [symmetric])
qed

section \<open>Properties\<close>

text \<open>
  \<^verbatim>\<open>Ext2Inode::blockMap\<close>, with its direct pointers and one, two and three levels of indirection, finds the same block
  as indexing the list of all leaves of the file from left to right, for every block number up to the end of the triply
  indirect range; missing pointer blocks count as zeros.
\<close>

theorem blockMap_indexes_leaves:
  assumes "geom m"
    and "unat logical < 12 + unat (ptrsPerBlock m) + unat (ptrsPerBlock m) ^ 2 + unat (ptrsPerBlock m) ^ 3"
  shows "blockMap m raw logical = Inr (file_blocks m raw ! unat logical)"
  using assms by (rule blockMap_flat)

theorem blockMap_indexes_leaves_witness:
  "blockMap demo_ext2 (set_i_block 12 6 (zeros 128)) 14 = Inr (file_blocks demo_ext2 (set_i_block 12 6 (zeros 128)) ! 14)"
  using blockMap_indexes_leaves [OF demo_geom, of 14 "set_i_block 12 6 (zeros 128)"]
  by (simp add: ptrsPerBlock_def demo_ext2_def)

text \<open>
  C31: \<^verbatim>\<open>Ext2Inode::read\<close> of a file below 2 GiB returns, and gives the bytes of the file from the offset on, as many as
  asked for and present, with the count as its value; blocks that were never written read as zeros.
\<close>

theorem ext2_read_returns_bytes:
  assumes "geom m" and "\<not> ext2_isDir n" and "unat (ext2_size n) < 2 ^ 31" and "unat offset + unat len < 2 ^ 64"
  shows "ext2_read m n offset True len =
    (let l = min (unat len) (unat (ext2_size n) - unat offset) in
     Some (Inr (int l, map (file_byte m (in_raw n)) [unat offset..<unat offset + l])))"
  unfolding Let_def by (rule ext2_read_bytes [OF assms])

definition demo_inode :: Ext2Inode where
  "demo_inode = \<lparr>in_num = 2, in_raw = put (put (zeros 128) 0 (le16 EXT2_S_IFREG)) 4 (le32 3)\<rparr>"

lemma demo_inode_fields:
  "length (in_raw demo_inode) = 128" "i_mode (in_raw demo_inode) = EXT2_S_IFREG" "i_size (in_raw demo_inode) = 3"
  "k < 15 \<Longrightarrow> i_block (in_raw demo_inode) k = 0"
  by (simp_all add: demo_inode_def i_mode_def i_size_def i_block_def rd32_put_other rd16_put_other)

theorem ext2_read_returns_bytes_witness:
  "ext2_read demo_ext2 demo_inode 1 True 5 = Some (Inr (2, map (file_byte demo_ext2 (in_raw demo_inode)) [1, 2]))"
proof -
  have "\<not> ext2_isDir demo_inode" "ext2_size demo_inode = 3"
    by (simp_all add: ext2_isDir_def ext2_size_def demo_inode_fields EXT2_S_IFREG_def EXT2_S_IFDIR_def)
  moreover have "[Suc 0..<2] = [Suc 0]" by (simp add: upt_conv_Cons)
  ultimately show ?thesis
    using ext2_read_returns_bytes [OF demo_geom, of demo_inode 1 5] by simp
qed

text \<open>
  \<^verbatim>\<open>Ext2Inode::blockMapAlloc\<close> gives a block that \<^verbatim>\<open>blockMap\<close> then finds at the same place. It keeps the file system well
  formed, brings the inode on disk up to date, and changes no data block but the inode's own and the pointer blocks on the
  way.
\<close>

theorem blockMapAlloc_then_blockMap:
  assumes "layout m" and "block_path m logical = Some (k, ks)" and "file_ok m n k ks"
    and "readRawInode m (in_num n) = in_raw n" and "blockMapAlloc logical n m = (p, n', m')" and "p \<noteq> 0"
  shows "blockMap m' (in_raw n') logical = Inr p \<and> layout m' \<and> readRawInode m' (in_num n) = in_raw n'
    \<and> (\<forall>c. data_block m c \<and> c \<noteq> inode_block m (in_num n) \<and> c \<notin> set (pblocks m (i_block (in_raw n) k) ks)
         \<longrightarrow> readBlock m' c = readBlock m c)"
  using blockMapAlloc_correct [OF assms(1-3,5,6)] assms(4) by (simp add: keeps_def)
definition demo_root :: Ext2Inode where
  "demo_root = ext2_getRoot demo_ext2"

lemma demo_data: "data_block demo_ext2 5"
proof -
  have sb: "m_sb demo_ext2 = demo_sb" "m_blockSize demo_ext2 = 1024" "m_groupCount demo_ext2 = 1"
    by (simp_all add: demo_ext2_def)
  have one: "g < (1 :: u32) \<longleftrightarrow> g = 0" for g by (simp add: word_less_1)
  have "5 \<notin> free_blocks demo_ext2"
  proof
    assume "5 \<in> free_blocks demo_ext2"
    then obtain i where i: "i < 8" "5 = block_number demo_ext2 0 i" "\<not> block_used demo_ext2 0 i"
      by (auto simp: free_blocks_def sb one demo_sb_fields)
    have "in_group demo_ext2 0 i" "in_group demo_ext2 0 4" "block_number demo_ext2 0 4 = 5"
      using i(1) by (simp_all add: in_group_def sb demo_sb_fields block_number_def)
    then have "i = 4" using block_number_inj [OF demo_layout, of 0 i 0 4] i(2) by metis
    then show False using i(3) demo_block_used [of 4] by simp
  qed
  then show ?thesis
    by (auto simp: data_block_def valid_block_def sectorsPerBlock_def sb SECTOR_SIZE_def meta_block_def sb_block_def one
        demo_group(1,3))
qed

lemma demo_inode_place: "inode_group demo_ext2 2 = 0" "inode_block demo_ext2 2 = 5" "inode_offset demo_ext2 2 = 128"
proof -
  have sb: "m_sb demo_ext2 = demo_sb" "m_blockSize demo_ext2 = 1024" by (simp_all add: demo_ext2_def)
  show g: "inode_group demo_ext2 2 = 0" by (simp add: inode_group_def sb demo_sb_fields)
  have ix: "inode_index demo_ext2 2 = 1" by (simp add: inode_index_def sb demo_sb_fields)
  have "bg_inode_table (readGroupDesc demo_ext2 0) = 5"
    using demo_desc_fields unfolding demo_group(2) bg_inode_table_def by (simp add: rd_sub_bytes)
  then show "inode_block demo_ext2 2 = 5" by (simp add: inode_block_def g ix sb demo_sb_fields Let_def)
  show "inode_offset demo_ext2 2 = 128" by (simp add: inode_offset_def ix sb demo_sb_fields Let_def)
qed

lemma demo_root_raw: "in_num demo_root = 2" "in_raw demo_root = zeros 128" "readRawInode demo_ext2 2 = zeros 128"
proof -
  have "readBlock demo_ext2 5 = zeros 512 @ zeros 512" by (simp add: demo_read demo_dsk_def)
  then show "readRawInode demo_ext2 2 = zeros 128"
    by (simp add: readRawInode_def demo_inode_place sub_bytes_def zeros_def min_def)
  then show "in_num demo_root = 2" "in_raw demo_root = zeros 128"
    by (simp_all add: demo_root_def ext2_getRoot_def ext2_getInode_def EXT2_ROOT_INODE_def)
qed

lemma demo_root_ok: "file_ok demo_ext2 demo_root k []"
  by (simp add: file_ok_def path_ok_def inode_ok_def demo_root_raw demo_inode_place demo_data) (simp add: demo_ext2_def)

lemma demo_alloc: "fst (allocBlock 0 demo_ext2) \<noteq> 0"
proof
  assume "fst (allocBlock 0 demo_ext2) = 0"
  then have "alloc_block_from 0 0 demo_ext2 = (0, snd (allocBlock 0 demo_ext2))"
    by (metis allocBlock_def prod.collapse)
  from alloc_block_from_fails [OF demo_layout this]
  have "bg_free_blocks_count (readGroupDesc demo_ext2 0) = 0 \<or> (\<forall>i. in_group demo_ext2 0 i \<longrightarrow> block_used demo_ext2 0 i)"
    by (auto simp: Let_def demo_ext2_def)
  moreover have "in_group demo_ext2 0 5" "\<not> block_used demo_ext2 0 5"
    using demo_block_used [of 5] by (simp_all add: in_group_def demo_ext2_def demo_sb_fields)
  ultimately show False using demo_group(4) by auto
qed

theorem blockMapAlloc_then_blockMap_witness:
  "\<exists>p n' m'. blockMapAlloc 3 demo_root demo_ext2 = (p, n', m') \<and> p \<noteq> 0 \<and> blockMap m' (in_raw n') 3 = Inr p"
proof -
  obtain p m1 where al: "allocBlock 0 demo_ext2 = (p, m1)" and p: "p \<noteq> 0"
    using demo_alloc by (cases "allocBlock 0 demo_ext2") auto
  have z: "i_block (in_raw demo_root) 3 = 0" by (simp add: demo_root_raw i_block_def)
  obtain n' m' where run: "blockMapAlloc 3 demo_root demo_ext2 = (p, n', m')"
    using al p z by (simp add: blockMapAlloc_def ensure_root_def demo_root_raw demo_inode_place Let_def)
  have path: "block_path demo_ext2 3 = Some (3, [])" by (simp add: block_path_def)
  have sync: "readRawInode demo_ext2 (in_num demo_root) = in_raw demo_root" by (simp add: demo_root_raw)
  show ?thesis
    using blockMapAlloc_then_blockMap [OF demo_layout path demo_root_ok sync run p] run p by blast
qed

end
