(* ===== verification/Terminal.thy ===== *)
theory Terminal
  imports Console Ext2File
begin

text \<open>
  The terminal (\<^verbatim>\<open>kernel/io/terminal/tty_inode.cpp\<close>, \<^verbatim>\<open>tty_inode.h\<close>, \<^verbatim>\<open>termios.h\<close>) and the plain console file
  (\<^verbatim>\<open>kernel/io/console/uart_inode.cpp\<close>): line editing with echo, signals from the keyboard, and the settings. The characters that
  \<^verbatim>\<open>Console::kgetc\<close> returns one after another are an argument; a call that finds none left waits, and goes on from the state it
  has reached when there are more. What the terminal does to the outside, printing a character and signalling a process
  group, are events in the order in which they happen.
\<close>

section \<open>Settings\<close>

definition TCGETS :: u64 where "TCGETS = 0x5401"
definition TCSETS :: u64 where "TCSETS = 0x5402"
definition TCSETSW :: u64 where "TCSETSW = 0x5403"
definition TCSETSF :: u64 where "TCSETSF = 0x5404"
definition TIOCGPGRP :: u64 where "TIOCGPGRP = 0x540F"
definition TIOCSPGRP :: u64 where "TIOCSPGRP = 0x5410"
definition TIOCGWINSZ :: u64 where "TIOCGWINSZ = 0x5413"
definition FIONREAD :: u64 where "FIONREAD = 0x541B"

lemmas tty_requests = TCGETS_def TCSETS_def TCSETSW_def TCSETSF_def TIOCGPGRP_def TIOCSPGRP_def TIOCGWINSZ_def FIONREAD_def

definition VINTR :: nat where "VINTR = 0"
definition VQUIT :: nat where "VQUIT = 1"
definition VERASE :: nat where "VERASE = 2"
definition VKILL :: nat where "VKILL = 3"
definition VEOF :: nat where "VEOF = 4"
definition VTIME :: nat where "VTIME = 5"
definition VMIN :: nat where "VMIN = 6"
definition VSTART :: nat where "VSTART = 8"
definition VSTOP :: nat where "VSTOP = 9"
definition VSUSP :: nat where "VSUSP = 10"

definition ICRNL :: u32 where "ICRNL = 0x100"
definition OPOST :: u32 where "OPOST = 0x1"
definition ONLCR :: u32 where "ONLCR = 0x4"
definition ISIG :: u32 where "ISIG = 0x1"
definition ICANON :: u32 where "ICANON = 0x2"
definition ECHO :: u32 where "ECHO = 0x8"
definition ECHOE :: u32 where "ECHOE = 0x10"
definition ECHOK :: u32 where "ECHOK = 0x20"

record ktermios =
  c_iflag :: u32
  c_oflag :: u32
  c_cflag :: u32
  c_lflag :: u32
  c_line :: u8
  c_cc :: "u8 list"
  c_ispeed :: u32
  c_ospeed :: u32

record kwinsize =
  ws_row :: u16
  ws_col :: u16
  ws_xpixel :: u16
  ws_ypixel :: u16

section \<open>The terminal\<close>

text \<open>\<open>m_line\<close> is the part of \<^verbatim>\<open>m_lineBuffer\<close> below \<^verbatim>\<open>m_lineLen\<close>.\<close>

definition TTY_BUFFER_SIZE :: nat where "TTY_BUFFER_SIZE = 1024"

record TTYInode =
  m_line :: "u8 list"
  m_echo :: bool
  m_canonical :: bool
  m_termios :: ktermios
  m_winsize :: kwinsize
  m_fgPgid :: u64

definition default_termios :: ktermios where
  "default_termios =
     \<lparr>c_iflag = ICRNL, c_oflag = OPOST OR ONLCR, c_cflag = 0, c_lflag = ISIG OR ICANON OR ECHO OR ECHOE OR ECHOK, c_line = 0,
      c_cc = (replicate 32 0)[VINTR := 3, VQUIT := 28, VERASE := 127, VKILL := 21, VEOF := 4, VSUSP := 26, VSTART := 17,
        VSTOP := 19, VMIN := 1, VTIME := 0],
      c_ispeed = 38400, c_ospeed = 38400\<rparr>"

definition TTYInode_ctor :: TTYInode where
  "TTYInode_ctor =
     \<lparr>m_line = [], m_echo = True, m_canonical = True, m_termios = default_termios,
      m_winsize = \<lparr>ws_row = 24, ws_col = 80, ws_xpixel = 0, ws_ypixel = 0\<rparr>, m_fgPgid = 0\<rparr>"

definition setForegroundPgid :: "u64 \<Rightarrow> TTYInode \<Rightarrow> TTYInode" where
  "setForegroundPgid pgid t = t\<lparr>m_fgPgid := pgid\<rparr>"

datatype tty_event = Put u8 | SignalGroup u64 int

definition echo :: "TTYInode \<Rightarrow> u8 list \<Rightarrow> tty_event list" where
  "echo t cs = (if m_echo t then map Put cs else [])"

definition tty_write :: "u8 list \<Rightarrow> int \<times> tty_event list" where
  "tty_write buf = (sint (of_nat (length buf) :: i32), map Put buf)"

text \<open>The signal a character stands for, or 0.\<close>

definition tty_signal :: "TTYInode \<Rightarrow> u8 \<Rightarrow> int" where
  "tty_signal t c =
     (let cc = c_cc (m_termios t) in
      if c_lflag (m_termios t) AND ISIG \<noteq> 0 \<and> m_fgPgid t > 0 then
        if c = cc ! VINTR then SIGINT else if c = cc ! VQUIT then SIGQUIT else if c = cc ! VSUSP then SIGTSTP else 0
      else 0)"

definition tty_erases :: "TTYInode \<Rightarrow> u8 \<Rightarrow> bool" where
  "tty_erases t c \<longleftrightarrow> c = c_cc (m_termios t) ! VERASE \<or> c = 8 \<or> c = 127"

definition tty_ends_file :: "TTYInode \<Rightarrow> u8 \<Rightarrow> bool" where
  "tty_ends_file t c \<longleftrightarrow> c_lflag (m_termios t) AND ICANON \<noteq> 0 \<and> c = c_cc (m_termios t) ! VEOF"

text \<open>
  The inner loop of \<^verbatim>\<open>read\<close>: the result is \<open>None\<close> when it waits for a character and else tells whether the input has ended;
  then come the terminal, what is left of the input, and the events.
\<close>

primrec tty_getline :: "TTYInode \<Rightarrow> u8 list \<Rightarrow> bool option \<times> TTYInode \<times> u8 list \<times> tty_event list" where
  "tty_getline t [] = (None, t, [], [])"
| "tty_getline t (c # inp) =
     (if tty_signal t c \<noteq> 0 then
        (case tty_getline (t\<lparr>m_line := []\<rparr>) inp of
           (r, t1, rest, ev) \<Rightarrow> (r, t1, rest, echo t [13, 10] @ SignalGroup (m_fgPgid t) (tty_signal t c) # ev))
      else if tty_ends_file t c then (Some True, t, inp, [])
      else if tty_erases t c then
        (if m_line t \<noteq> [] then
           (case tty_getline (t\<lparr>m_line := butlast (m_line t)\<rparr>) inp of (r, t1, rest, ev) \<Rightarrow> (r, t1, rest, echo t [8, 32, 8] @ ev))
         else tty_getline t inp)
      else if c = 13 \<or> c = 10 then
        (Some False, t\<lparr>m_line := (if length (m_line t) < TTY_BUFFER_SIZE then m_line t @ [10] else m_line t)\<rparr>, inp, echo t [13, 10])
      else if length (m_line t) < TTY_BUFFER_SIZE then
        (case tty_getline (t\<lparr>m_line := m_line t @ [c]\<rparr>) inp of (r, t1, rest, ev) \<Rightarrow> (r, t1, rest, echo t [c] @ ev))
      else tty_getline t inp)"

lemma tty_getline_shorter: "tty_getline t inp = (Some b, t1, rest, ev) \<Longrightarrow> length rest < length inp"
  by (induction inp arbitrary: t ev) (auto split: if_splits prod.splits intro: less_SucI)

text \<open>
  The outer loop, until the line buffer is not empty or the input has ended. The first component is \<open>None\<close> when the call waits, and
  else tells whether there is anything to return.
\<close>

function tty_fill :: "TTYInode \<Rightarrow> u8 list \<Rightarrow> bool option \<times> TTYInode \<times> u8 list \<times> tty_event list" where
  "tty_fill t inp =
     (if m_line t \<noteq> [] then (Some True, t, inp, [])
      else case tty_getline t inp of
        (None, t1, rest, ev) \<Rightarrow> (None, t1, rest, ev)
      | (Some True, t1, rest, ev) \<Rightarrow> (Some (m_line t1 \<noteq> []), t1, rest, ev)
      | (Some False, t1, rest, ev) \<Rightarrow> (case tty_fill t1 rest of (r, t2, rest2, ev2) \<Rightarrow> (r, t2, rest2, ev @ ev2)))"
  by pat_completeness auto
termination by (relation "measure (\<lambda>(_, inp). length inp)") (auto dest: tty_getline_shorter [OF sym])

declare tty_fill.simps [simp del]

text \<open>
  The value returned with the bytes; \<open>None\<close> when the call waits. A call that waits in raw mode has stored the bytes it got so
  far.
\<close>

definition tty_read :: "nat \<Rightarrow> TTYInode \<Rightarrow> u8 list \<Rightarrow> (int \<times> u8 list) option \<times> TTYInode \<times> u8 list \<times> tty_event list" where
  "tty_read len t inp =
     (if len = 0 then (Some (0, []), t, inp, [])
      else if m_canonical t then
        (case tty_fill t inp of
           (None, t1, rest, ev) \<Rightarrow> (None, t1, rest, ev)
         | (Some False, t1, rest, ev) \<Rightarrow> (Some (0, []), t1, rest, ev)
         | (Some True, t1, rest, ev) \<Rightarrow>
             let n = min len (length (m_line t1)) in
             (Some (sint (of_nat n :: i32), take n (m_line t1)), t1\<lparr>m_line := drop n (m_line t1)\<rparr>, rest, ev))
      else if length inp < len then (None, t, [], echo t inp)
      else (Some (sint (of_nat len :: i32), take len inp), t, drop len inp, echo t (take len inp)))"

definition tty_stat :: InodeStat where
  "tty_stat = stat_zero\<lparr>st_mode := 0x21B6, st_nlink := 1, st_rdev := 0x400, st_blksize := 4096\<rparr>"

text \<open>
  The object that the argument of \<^verbatim>\<open>ioctl\<close> points to. A request to set something takes it for an object of its own kind.
\<close>

datatype ioarg = IoTermios ktermios | IoWinsize kwinsize | IoInt u32

definition tty_ioctl :: "u64 \<Rightarrow> ioarg option \<Rightarrow> TTYInode \<Rightarrow> (int \<times> ioarg option \<times> TTYInode) res" where
  "tty_ioctl req argp t =
     (case argp of
        None \<Rightarrow> Inr (- 1, None, t)
      | Some a \<Rightarrow>
          if req = TCGETS then Inr (0, Some (IoTermios (m_termios t)), t)
          else if req \<in> {TCSETS, TCSETSW, TCSETSF} then
            (case a of
               IoTermios k \<Rightarrow> Inr (0, argp, t\<lparr>m_termios := k, m_canonical := (c_lflag k AND ICANON \<noteq> 0), m_echo := (c_lflag k AND ECHO \<noteq> 0)\<rparr>)
             | _ \<Rightarrow> Inl Undefined)
          else if req = TIOCGWINSZ then Inr (0, Some (IoWinsize (m_winsize t)), t)
          else if req = TIOCGPGRP then Inr (0, Some (IoInt (ucast (m_fgPgid t))), t)
          else if req = TIOCSPGRP then (case a of IoInt v \<Rightarrow> Inr (0, argp, t\<lparr>m_fgPgid := scast v\<rparr>) | _ \<Rightarrow> Inl Undefined)
          else Inr (- 1, argp, t))"

text \<open>The console file passes bytes on as they are.\<close>

definition uart_read :: "nat \<Rightarrow> u8 list \<Rightarrow> (int \<times> u8 list) option \<times> u8 list" where
  "uart_read len inp =
     (if length inp < len then (None, []) else (Some (sint (of_nat len :: i32), take len inp), drop len inp))"

definition uart_write :: "u8 list \<Rightarrow> int \<times> u8 list" where
  "uart_write buf = (sint (of_nat (length buf) :: i32), buf)"
section \<open>Typing a line\<close>

text \<open>
  A row of a screen: its cells and the column of the cursor. A backspace moves the cursor, a line feed starts an empty row.
\<close>

definition screen_put :: "u8 list \<times> nat \<Rightarrow> u8 \<Rightarrow> u8 list \<times> nat" where
  "screen_put scr b =
     (case scr of (cells, col) \<Rightarrow>
        if b = 8 then (cells, col - 1)
        else if b = 13 then (cells, 0)
        else if b = 10 then ([], col)
        else (if col < length cells then cells[col := b] else cells @ [b], col + 1))"

primrec display :: "u8 list \<times> nat \<Rightarrow> tty_event list \<Rightarrow> u8 list \<times> nat" where
  "display scr [] = scr"
| "display scr (e # es) = display (case e of Put b \<Rightarrow> screen_put scr b | SignalGroup _ _ \<Rightarrow> scr) es"

text \<open>The row shows a text: the text is followed by blanks only, and the cursor stands behind it.\<close>

definition shown :: "u8 list \<times> nat \<Rightarrow> u8 list \<Rightarrow> bool" where
  "shown scr text \<longleftrightarrow> (\<exists>n. scr = (text @ replicate n 32, length text))"

lemma display_append [simp]: "display scr (es @ fs) = display (display scr es) fs"
  by (induction es arbitrary: scr) auto

lemma shown_newline: "display scr [Put 13, Put 10] = ([], 0)"
  by (simp add: screen_put_def split: prod.split)

lemma shown_char: "shown scr text \<Longrightarrow> c \<noteq> 8 \<Longrightarrow> c \<noteq> 13 \<Longrightarrow> c \<noteq> 10 \<Longrightarrow> shown (display scr [Put c]) (text @ [c])"
  unfolding shown_def
proof (elim exE)
  fix n assume a: "scr = (text @ replicate n 32, length text)" "c \<noteq> 8" "c \<noteq> 13" "c \<noteq> 10"
  show "\<exists>n. display scr [Put c] = ((text @ [c]) @ replicate n 32, length (text @ [c]))"
    using a by (cases n) (auto simp: screen_put_def list_update_append intro: exI [of _ "0 :: nat"])
qed

lemma shown_erase: "shown scr text \<Longrightarrow> text \<noteq> [] \<Longrightarrow> shown (display scr [Put 8, Put 32, Put 8]) (butlast text)"
  unfolding shown_def
proof (elim exE)
  fix n assume "scr = (text @ replicate n 32, length text)" "text \<noteq> []"
  then obtain xs x where "text = xs @ [x]" "scr = (xs @ x # replicate n 32, Suc (length xs))" by (cases "text" rule: rev_cases) auto
  then show "\<exists>n. display scr [Put 8, Put 32, Put 8] = (butlast text @ replicate n 32, length (butlast text))"
    by (auto simp: screen_put_def list_update_append intro!: exI [of _ "Suc n"])
qed

lemma tty_getline_settings:
  "tty_getline t inp = (r, t1, rest, ev) \<Longrightarrow>
   m_echo t1 = m_echo t \<and> m_canonical t1 = m_canonical t \<and> m_termios t1 = m_termios t \<and> m_fgPgid t1 = m_fgPgid t"
  by (induction inp arbitrary: t ev) (force split: if_splits prod.splits)+

lemma tty_getline_shown:
  "tty_getline t inp = (None, t1, rest, ev) \<Longrightarrow> m_echo t \<Longrightarrow> shown scr (m_line t) \<Longrightarrow> shown (display scr ev) (m_line t1) \<and> rest = []"
proof (induction inp arbitrary: t ev scr)
  case (Cons c inp)
  have e: "echo t cs = map Put cs" for cs using Cons.prems(2) by (simp add: echo_def)
  consider (sig) "tty_signal t c \<noteq> 0"
    | (erase) "tty_signal t c = 0" "\<not> tty_ends_file t c" "tty_erases t c" "m_line t \<noteq> []"
    | (store) "tty_signal t c = 0" "\<not> tty_ends_file t c" "\<not> tty_erases t c" "\<not> (c = 13 \<or> c = 10)" "length (m_line t) < TTY_BUFFER_SIZE"
    | (skip) "tty_getline t inp = (None, t1, rest, ev)"
    using Cons.prems(1) by (auto split: if_splits)
  then show ?case
  proof cases
    case sig
    then obtain ev1 where ev: "tty_getline (t\<lparr>m_line := []\<rparr>) inp = (None, t1, rest, ev1)"
      "ev = map Put [13, 10] @ SignalGroup (m_fgPgid t) (tty_signal t c) # ev1"
      using Cons.prems(1) by (auto simp: e split: prod.splits)
    have "shown ([], 0) (m_line (t\<lparr>m_line := []\<rparr>))" by (simp add: shown_def)
    then show ?thesis using Cons.IH [OF ev(1)] Cons.prems(2) shown_newline [of scr] by (simp add: ev(2))
  next
    case erase
    then obtain ev1 where ev: "tty_getline (t\<lparr>m_line := butlast (m_line t)\<rparr>) inp = (None, t1, rest, ev1)" "ev = map Put [8, 32, 8] @ ev1"
      using Cons.prems(1) by (auto simp: e split: prod.splits)
    show ?thesis using Cons.IH [OF ev(1) _ , of "display scr [Put 8, Put 32, Put 8]"] shown_erase [OF Cons.prems(3) erase(4)] Cons.prems(2)
      by (simp add: ev(2))
  next
    case store
    then obtain ev1 where ev: "tty_getline (t\<lparr>m_line := m_line t @ [c]\<rparr>) inp = (None, t1, rest, ev1)" "ev = map Put [c] @ ev1"
      using Cons.prems(1) by (auto simp: e split: prod.splits)
    have "c \<noteq> 8" using store(3) by (auto simp: tty_erases_def)
    then show ?thesis using Cons.IH [OF ev(1) _, of "display scr [Put c]"] shown_char [OF Cons.prems(3)] store(4) Cons.prems(2)
      by (simp add: ev(2))
  next
    case skip
    then show ?thesis using Cons.IH [OF skip Cons.prems(2,3)] by simp
  qed
qed (auto simp: shown_def)

lemma tty_getline_resumes:
  "tty_getline t inp = (None, t1, rest, ev) \<Longrightarrow>
   tty_getline t (inp @ later) = (case tty_getline t1 later of (r, t2, rest2, ev2) \<Rightarrow> (r, t2, rest2, ev @ ev2))"
  by (induction inp arbitrary: t ev) (auto split: if_splits prod.splits)
lemma tty_read_line:
  assumes "m_canonical t" "m_line t = []" "0 < len" "tty_getline t inp = (Some False, t1, rest, ev)" "m_line t1 \<noteq> []" "len < 2 ^ 31"
  shows "tty_read len t inp =
    (Some (int (min len (length (m_line t1))), take len (m_line t1)), t1\<lparr>m_line := drop len (m_line t1)\<rparr>, rest, ev)"
proof -
  have "tty_fill t1 rest = (Some True, t1, rest, [])" using assms(5) by (subst tty_fill.simps) simp
  then have f: "tty_fill t inp = (Some True, t1, rest, ev)" using assms(2,4) by (subst tty_fill.simps) simp
  have "sint (of_nat (min len (length (m_line t1))) :: i32) = int (min len (length (m_line t1)))"
    using assms(6) by (subst sint_small) (simp_all add: unat_of_nat)
  then show ?thesis using assms(1,3) by (simp add: tty_read_def f Let_def min_def)
qed

text \<open>
  C14: the terminal returns what it shows. While a line is typed in canonical mode with echo, the row of the screen shows the line buffer:
  stored characters appear, erased ones vanish, and a character that stands for a signal clears both and is sent to the foreground
  group. When the line ends, the reader gets what the row showed with a newline, as much as it asked for; the rest of the line is
  what the next read returns, without waiting. Waiting in between makes no difference.
\<close>

theorem terminal_returns_what_it_shows:
  assumes "m_canonical t" "m_echo t" "m_line t = []" "tty_getline t inp = (None, t1, rest, ev)" "length (m_line t1) < TTY_BUFFER_SIZE"
    and nl: "c = 13 \<or> c = 10" "tty_signal t c = 0" "\<not> tty_ends_file t c" "\<not> tty_erases t c" and len: "0 < len" "len < 2 ^ 31"
  shows "shown (display ([], 0) ev) (m_line t1) \<and>
    (\<exists>t2. tty_read len t (inp @ c # later) =
       (Some (int (min len (length (m_line t1) + 1)), take len (m_line t1 @ [10])), t2, later, ev @ [Put 13, Put 10]) \<and>
     display ([], 0) (ev @ [Put 13, Put 10]) = ([], 0) \<and>
     (drop len (m_line t1 @ [10]) \<noteq> [] \<longrightarrow> (\<exists>t3. tty_read TTY_BUFFER_SIZE t2 [] =
        (Some (int (length (m_line t1) + 1 - len), drop len (m_line t1 @ [10])), t3, [], [])))) \<and>
    (\<forall>k. tty_signal t k \<noteq> 0 \<longrightarrow> tty_getline t (inp @ [k]) =
       (None, t1\<lparr>m_line := []\<rparr>, [], ev @ [Put 13, Put 10, SignalGroup (m_fgPgid t) (tty_signal t k)]))"
proof -
  have same: "m_echo t1 = m_echo t" "m_canonical t1 = m_canonical t" "m_termios t1 = m_termios t" "m_fgPgid t1 = m_fgPgid t"
    using tty_getline_settings [OF assms(4)] by simp_all
  have k1: "tty_signal t1 k = tty_signal t k" "tty_ends_file t1 k = tty_ends_file t k" "tty_erases t1 k = tty_erases t k" for k
    by (simp_all add: tty_signal_def tty_ends_file_def tty_erases_def same)
  have e1: "echo t1 cs = map Put cs" for cs using assms(2) by (simp add: echo_def same)
  have s: "shown (display ([], 0) ev) (m_line t1)" using tty_getline_shown [OF assms(4,2), of "([], 0)"] assms(3) by (simp add: shown_def)
  let ?t1 = "t1\<lparr>m_line := m_line t1 @ [10]\<rparr>"
  have "tty_getline t1 (c # later) = (Some False, ?t1, later, [Put 13, Put 10])"
    using nl assms(5) by (auto simp: k1 e1)
  then have g: "tty_getline t (inp @ c # later) = (Some False, ?t1, later, ev @ [Put 13, Put 10])"
    unfolding tty_getline_resumes [OF assms(4)] by simp
  let ?t2 = "?t1\<lparr>m_line := drop len (m_line ?t1)\<rparr>"
  have r: "tty_read len t (inp @ c # later) =
      (Some (int (min len (length (m_line t1) + 1)), take len (m_line t1 @ [10])), ?t2, later, ev @ [Put 13, Put 10])"
    using tty_read_line [OF assms(1,3) len(1) g _ len(2)] by simp
  have next_read: "\<exists>t3. tty_read TTY_BUFFER_SIZE ?t2 [] =
      (Some (int (length (m_line t1) + 1 - len), drop len (m_line t1 @ [10])), t3, [], [])" if "drop len (m_line t1 @ [10]) \<noteq> []"
  proof -
    define xs where "xs = drop len (m_line t1 @ [10])"
    have n: "length xs = length (m_line t1) + 1 - len" "length xs \<le> TTY_BUFFER_SIZE" "xs \<noteq> []"
      using assms(5) len(1) that by (simp_all add: xs_def)
    define t' where "t' = t1\<lparr>m_line := xs\<rparr>"
    have t': "m_line t' = xs" "m_canonical t'" "?t2 = t'" using assms(1) same(2) by (simp_all add: t'_def xs_def)
    have "tty_fill t' [] = (Some True, t', [], [])" using n(3) t'(1) by (subst tty_fill.simps) simp
    moreover have "sint (of_nat (length xs) :: i32) = int (length xs)"
      using n(2) by (subst sint_small) (simp_all add: unat_of_nat TTY_BUFFER_SIZE_def)
    moreover have "min TTY_BUFFER_SIZE (length xs) = length xs" "TTY_BUFFER_SIZE \<noteq> 0" using n(2) by (simp_all add: TTY_BUFFER_SIZE_def)
    ultimately have "tty_read TTY_BUFFER_SIZE t' [] = (Some (int (length xs), xs), t'\<lparr>m_line := []\<rparr>, [], [])"
      using t'(1,2) by (simp add: tty_read_def Let_def)
    then show ?thesis unfolding t'(3) n(1) [symmetric] xs_def [symmetric] by blast
  qed
  have sig: "tty_getline t (inp @ [k]) = (None, t1\<lparr>m_line := []\<rparr>, [], ev @ [Put 13, Put 10, SignalGroup (m_fgPgid t) (tty_signal t k)])"
    if "tty_signal t k \<noteq> 0" for k
    unfolding tty_getline_resumes [OF assms(4)] using that by (simp add: k1 e1 same)
  show ?thesis using s r next_read sig shown_newline by (intro conjI exI [of _ ?t2]) simp_all
qed

theorem terminal_returns_what_it_shows_witness:
  "\<exists>t2. tty_read 2 (setForegroundPgid 7 TTYInode_ctor) (chars ''cxat'' @ [127, 127, 127] @ chars ''at'' @ [13]) =
     (Some (2, chars ''ca''), t2, [], map Put (chars ''cxat'' @ [8, 32, 8, 8, 32, 8, 8, 32, 8] @ chars ''at'' @ [13, 10]))"
proof -
  let ?t = "setForegroundPgid 7 TTYInode_ctor" and ?in = "chars ''cxat'' @ [127, 127, 127] @ chars ''at''"
  have f: "m_canonical ?t" "m_echo ?t" "m_line ?t = []" "tty_signal ?t 13 = 0" "\<not> tty_ends_file ?t 13" "\<not> tty_erases ?t 13"
    by code_simp+
  have g: "tty_getline ?t ?in = (None, ?t\<lparr>m_line := chars ''cat''\<rparr>, [],
      map Put (chars ''cxat'' @ [8, 32, 8, 8, 32, 8, 8, 32, 8] @ chars ''at''))"
    by code_simp
  show ?thesis
    using terminal_returns_what_it_shows [OF f(1,2,3) g _ _ f(4,5,6), of 2 "[]"] by (simp add: chars_def TTY_BUFFER_SIZE_def) blast
qed

end
