(* ===== verification/ProcMem.thy ===== *)
theory ProcMem
  imports Procs
begin

text \<open>
  The life of a process's resources (\<^verbatim>\<open>kernel/proc/process/process.cpp\<close>, \<^verbatim>\<open>kernel/proc/pcb.cpp\<close>, \<^verbatim>\<open>kernel/proc/thread/thread.cpp\<close>):
  construction of control blocks, processes and threads, \<^verbatim>\<open>fork\<close>, \<^verbatim>\<open>exec\<close>, the heap of \<^verbatim>\<open>brk\<close> and the mapping calls. The address of
  a new object is an argument, and so is what a field holds that no constructor writes. Registers of the processor and the contents of
  \<^verbatim>\<open>Context\<close> belong to the switch in assembly and are not part of the state.
\<close>

definition HEAP_START :: u64 where "HEAP_START = 0x1000000"
definition PAGE_USER :: u64 where "PAGE_USER = PAGE_V OR PAGE_R OR PAGE_W OR PAGE_U"

section \<open>The heap\<close>

primrec brk_grow :: "u64 \<Rightarrow> u64 \<Rightarrow> nat list \<Rightarrow> u64 \<Rightarrow> vmstate \<Rightarrow> (u64 option \<times> vmstate) res" where
  "brk_grow pmt alignedOld [] heapEnd st = Inr (Some heapEnd, st)"
| "brk_grow pmt alignedOld (i # is) heapEnd st =
     (case vs_take st of
        (None, st1) \<Rightarrow> Inr (None, st1)
      | (Some page, st1) \<Rightarrow>
          bindE (vs_map pmt (alignedOld + of_nat i * PAGE_SIZE) (v2p page) PAGE_USER st1) (\<lambda>(ok, st2).
            if ok then brk_grow pmt alignedOld is (alignedOld + of_nat (i + 1) * PAGE_SIZE) st2 else Inr (None, st2)))"

primrec brk_shrink :: "u64 \<Rightarrow> u64 \<Rightarrow> nat list \<Rightarrow> u64 \<Rightarrow> vmstate \<Rightarrow> (u64 option \<times> vmstate) option" where
  "brk_shrink pmt alignedOld [] heapEnd st = Some (Some heapEnd, st)"
| "brk_shrink pmt alignedOld (i # is) heapEnd st =
     (let va = alignedOld - of_nat (i + 1) * PAGE_SIZE; pagePa = translate pmt va (vs_pt st); (r, st1) = vs_unmapPage pmt va st in
      if r \<noteq> 0 then Option.bind (vs_give (p2v pagePa) st1) (brk_shrink pmt alignedOld is va) else Some (None, st1))"

definition page_count :: "u64 \<Rightarrow> nat" where
  "page_count bytes = unat (ucast (bytes div PAGE_SIZE) :: u32)"

text \<open>The new end of the heap, or \<open>None\<close> for the value -1, on the address space and the current bounds.\<close>

definition brk_range :: "u64 \<Rightarrow> u64 \<Rightarrow> u64 \<Rightarrow> vmstate \<Rightarrow> (u64 option \<times> vmstate) run" where
  "brk_range pmt heapEnd newHeapEnd st =
     (let alignedNew = pageRoundUp newHeapEnd; alignedOld = pageRoundUp heapEnd in
      if newHeapEnd > heapEnd then Some (brk_grow pmt alignedOld [0..<page_count (alignedNew - alignedOld)] heapEnd st)
      else
        Option.bind (brk_shrink pmt alignedOld [0..<page_count (alignedOld - alignedNew)] heapEnd st) (\<lambda>(r, st1).
          case r of
            None \<Rightarrow> Some (Inr (None, st1))
          | Some e \<Rightarrow>
              Option.bind (pmt_clean kfreePage 3 pmt (vs_pt st1) (vs_heap st1)) (\<lambda>(pt, h).
                Some (Inr (Some e, st1\<lparr>vs_pt := pt, vs_heap := h\<rparr>)))))"

definition process_brk :: "pcbp \<Rightarrow> u64 \<Rightarrow> ('f, 'w) pstate \<Rightarrow> (u64 \<times> ('f, 'w) pstate) run" where
  "process_brk p newHeapEnd s =
     bindR (lock_space p s) (\<lambda>s1.
       case Option.bind (m_segTable (p_proc s1 p)) m_heap of
         None \<Rightarrow> Some (Inl NullDeref)
       | Some d \<Rightarrow>
           let heapStart = sd_start d; heapEnd = sd_end d; vm = mw_vm (p_mw s1) in
           if newHeapEnd = 0 \<or> newHeapEnd < heapStart \<or> newHeapEnd = heapEnd then Some (Inr (heapEnd, unlock_space p s1))
           else if newHeapEnd > heapEnd + freePages (vs_heap vm) * PAGE_SIZE then Some (Inr (- 1, unlock_space p s1))
           else
             bindR (brk_range (m_pmt (k_pcb (p_k s1) p)) heapEnd newHeapEnd vm) (\<lambda>(r, vm1).
               let s2 = upd_vm (\<lambda>_. vm1) s1 in
               case r of
                 None \<Rightarrow> Some (Inr (- 1, unlock_space p s2))
               | Some e \<Rightarrow>
                   Some (Inr (e, unlock_space p
                     (upd_proc p (m_segTable_update (map_option (m_heap_update (map_option (sd_end_update (\<lambda>_. e)))))) s2)))))"

section \<open>Mappings\<close>

text \<open>The calls that only bracket those of the region manager with the lock of the address space.\<close>

definition with_mmap ::
  "pcbp \<Rightarrow> 'r \<Rightarrow> (mmap \<Rightarrow> mworld \<Rightarrow> ('r \<times> mmap \<times> mworld) run) \<Rightarrow> ('f, 'w) pstate \<Rightarrow> ('r \<times> ('f, 'w) pstate) run" where
  "with_mmap p failed f s =
     (case m_mmap (p_proc s p) of
        None \<Rightarrow> Some (Inr (failed, s))
      | Some mm \<Rightarrow>
          bindR (lock_space p s) (\<lambda>s1.
          bindR (f mm (p_mw s1)) (\<lambda>(r, mm1, w).
            Some (Inr (r, unlock_space p (upd_proc p (m_mmap_update (\<lambda>_. Some mm1)) (s1\<lparr>p_mw := w\<rparr>)))))))"

definition process_munmap :: "pcbp \<Rightarrow> u64 \<Rightarrow> u64 \<Rightarrow> ('f, 'w) pstate \<Rightarrow> (int \<times> ('f, 'w) pstate) run" where
  "process_munmap p addr len = with_mmap p (- 1) (mm_unmap addr len)"

definition process_mprotect :: "pcbp \<Rightarrow> u64 \<Rightarrow> u64 \<Rightarrow> u32 \<Rightarrow> ('f, 'w) pstate \<Rightarrow> (int \<times> ('f, 'w) pstate) run" where
  "process_mprotect p addr len prot =
     with_mmap p (- 1) (\<lambda>mm w. bindR (mm_protect addr len prot mm (mw_vm w)) (\<lambda>(r, st). Some (Inr (r, mm, w\<lparr>mw_vm := st\<rparr>))))"

definition process_mmap ::
  "(u64 \<Rightarrow> 'h \<Rightarrow> int \<times> 'h) \<Rightarrow> (u64 \<Rightarrow> 'h \<Rightarrow> int \<times> u8 list \<times> 'h) \<Rightarrow> 'h option \<Rightarrow> nat \<Rightarrow> pcbp
   \<Rightarrow> u64 \<Rightarrow> u64 \<Rightarrow> u32 \<Rightarrow> u32 \<Rightarrow> int \<Rightarrow> u64 \<Rightarrow> ('f, 'w) pstate \<Rightarrow> ((u64 \<times> 'h option) \<times> ('f, 'w) pstate) run" where
  "process_mmap f_seek f_read opened fresh p addr len prot flags fd offset =
     with_mmap p (- 1, opened) (\<lambda>mm w.
       bindR (mm_map f_seek f_read opened fresh addr len prot flags fd offset mm w) (\<lambda>(va, mm1, w1, f1). Some (Inr ((va, f1), mm1, w1))))"

section \<open>Construction\<close>

definition lock_pid :: "('f, 'w) pop" where
  "lock_pid s =
     (case acquire (s_pidLock s) (k_sie (p_k s)) of
        None \<Rightarrow> None
      | Some (l, sie) \<Rightarrow> Some (Inr (setK (k_sie_update (\<lambda>_. sie)) (s\<lparr>s_pidLock := l\<rparr>))))"

definition unlock_pid :: "('f, 'w) pstate \<Rightarrow> ('f, 'w) pstate" where
  "unlock_pid s =
     (case release (s_pidLock s) (k_sie (p_k s)) of (l, sie) \<Rightarrow> setK (k_sie_update (\<lambda>_. sie)) (s\<lparr>s_pidLock := l\<rparr>))"

text \<open>Pages for a stack; a request that fails gives the null pointer, which no constructor looks at.\<close>

definition new_stack :: "('f, 'w) pstate \<Rightarrow> u64 \<times> ('f, 'w) pstate" where
  "new_stack s =
     (case kallocPages (of_nat stack_pages) (vs_heap (mw_vm (p_mw s))) of
        (r, h) \<Rightarrow> (case r of None \<Rightarrow> 0 | Some a \<Rightarrow> a, upd_vm (vs_heap_update (\<lambda>_. h)) s))"

text \<open>
  \<open>wsem\<close> is the semaphore inside the object, and \<open>tf0\<close> what the top of the kernel stack holds, which becomes the trap frame; \<open>tg0\<close> is what
  \<^verbatim>\<open>m_tgid\<close> holds.
\<close>

definition PCB_ctor :: "semp \<Rightarrow> TrapFrame \<Rightarrow> u64 \<Rightarrow> pcbp \<Rightarrow> u64 \<Rightarrow> u64 \<Rightarrow> bool \<Rightarrow> ('f, 'w) pop" where
  "PCB_ctor wsem tf0 tg0 p entry pmt usermode s =
     bindR (lock_pid s) (\<lambda>s1.
       let pid = s_pid s1; s2 = unlock_pid (s1\<lparr>s_pid := pid + 1\<rparr>);
           (kstack, s3) = (if entry \<noteq> 0 then new_stack s2 else (0, s2));
           (ustack, s4) = (if entry \<noteq> 0 \<and> usermode then new_stack s3 else (0, s3));
           pcb = \<lparr>m_state = READY, m_pmt = pmt, m_next = None, m_nextSleep = None, m_semNext = None, m_futexNext = None,
                  m_waitingOn = None, m_waitingOnFutexKey = 0, m_relativeSleepTime = 0, m_usermode = usermode,
                  m_kstack = kstack, tf_kstack = tf0 KSTACK\<rparr>;
           t = \<lparr>m_pid = pid, m_tgid = tg0, m_timeSlice = DEFAULT_TIME_SLICE, m_entry = entry, m_args = 0, m_ustack = ustack,
                m_trapFrame = tf0, m_waitSem = wsem, m_tidAddress = 0, m_sigMask = 0, m_signalHandler = None, pcb_lock = Lock_ctor\<rparr>;
           s5 = setK (\<lambda>k. upd_sem wsem (\<lambda>_. Semaphore_ctor 0) (upd_pcb p (\<lambda>_. pcb) k)) (upd_task p (\<lambda>_. t) (s4\<lparr>p_live := (p_live s4)(p := True)\<rparr>)) in
       if entry \<noteq> 0 then onK (Scheduler_put (Some p)) s5
       else Some (Inr (setK (\<lambda>k. setState p RUNNING (k\<lparr>s_running := p\<rparr>)) s5)))"

text \<open>
  The constructor of a process. \<open>x0\<close> is what the memory of the object holds; \<open>d\<close> and \<open>h\<close> are the addresses of a new descriptor table
  and of a new signal handler, and \<open>tty\<close> makes the terminal for a process group.
\<close>

definition Process_fields :: "Process \<Rightarrow> semp \<Rightarrow> pcbp option \<Rightarrow> Process" where
  "Process_fields x0 selfSem parent =
     x0\<lparr>m_threads := None, m_parent := parent, m_nextSibling := None, m_firstChild := None, m_exitCode := 0, m_termSignal := 0,
        m_selfSem := selfSem, m_spaceLock := Lock_ctor, m_mmap := None, m_reaped := False, m_fdTable := None, m_pgid := 0, m_sid := 0,
        m_allNext := None\<rparr>"

definition inherit :: "('i, 'm, 'w) file_env \<Rightarrow> fdtp \<Rightarrow> pcbp \<Rightarrow> pcbp \<Rightarrow> fdtp option \<Rightarrow> (('i, 'm) File, 'w) pop" where
  "inherit env d p q fdTable s =
     (let x = p_proc s q;
          set = (\<lambda>t. upd_proc p (\<lambda>y. y\<lparr>m_fdTable := Some t, m_cwdInode := m_cwdInode x, m_cwdPath := kstrdup (m_cwdPath x) PATH_MAX,
                   m_pgid := m_pgid x, m_sid := m_sid x, m_umask := m_umask x\<rparr>)) in
      case fdTable of
        Some t \<Rightarrow> Some (Inr (set t s))
      | None \<Rightarrow>
          (case Option.bind (m_fdTable x) (p_fdt s) of
             None \<Rightarrow> Some (Inl NullDeref)
           | Some t \<Rightarrow> case fd_clone env t (p_fw s) of
               (t1, w) \<Rightarrow> Some (Inr (set d (s\<lparr>p_fdt := (p_fdt s)(d := Some t1), p_fw := w\<rparr>)))))"

definition map_stack :: "u64 \<Rightarrow> u64 \<Rightarrow> u64 \<Rightarrow> ('f, 'w) pop" where
  "map_stack pmt va ustack s =
     (let vm = mw_vm (p_mw s) in
      case mapPages kallocPage pmt va (v2p ustack) stack_pages PAGE_USER (vs_pt vm) (vs_heap vm) of
        Inl e \<Rightarrow> Some (Inl e)
      | Inr (_, pt, hp) \<Rightarrow> Some (Inr (upd_vm (\<lambda>v. v\<lparr>vs_pt := pt, vs_heap := hp\<rparr>) s)))"
definition map_trampoline :: "u64 \<Rightarrow> u64 \<Rightarrow> ('f, 'w) pop" where
  "map_trampoline tramp pmt s =
     (case vs_map pmt USER_TRAMPOLINE_ADDR (v2p tramp) (PAGE_X OR PAGE_R OR PAGE_U OR PAGE_V) (mw_vm (p_mw s)) of
        Inl e \<Rightarrow> Some (Inl e)
      | Inr (_, vm) \<Rightarrow> Some (Inr (upd_vm (\<lambda>_. vm) s)))"

definition user_stack_segment :: "bool \<Rightarrow> SegmentTable \<Rightarrow> SegmentTable" where
  "user_stack_segment room = setStack room (ucast (SEG_R OR SEG_W)) (USER_STACK_TOP - USER_STACK_SIZE) USER_STACK_TOP"

definition first_process ::
  "(u64 \<Rightarrow> 'w \<Rightarrow> 'i \<times> 'w) \<Rightarrow> u64 \<Rightarrow> bool \<Rightarrow> fdtp \<Rightarrow> shp \<Rightarrow> pcbp \<Rightarrow> (('i, 'm) File, 'w) pop" where
  "first_process tty tramp room d h p s =
     (let pmt = m_pmt (k_pcb (p_k s) p); pid = m_pid (p_task s p) in
      bindR (map_trampoline tramp pmt s) (\<lambda>s1.
      bindR (map_stack pmt (USER_STACK_TOP - USER_STACK_SIZE) (m_ustack (p_task s1 p)) s1) (\<lambda>s2.
        let (terminal, w) = tty pid (p_fw s2); f = File_ctor (Some terminal) None O_RDWR in
        case bindE (fd_alloc f 0 FdTable_ctor) (\<lambda>(_, t1). bindE (fd_alloc f 0 t1) (\<lambda>(_, t2). fd_alloc f 0 t2)) of
          Inl e \<Rightarrow> Some (Inl e)
        | Inr (_, t) \<Rightarrow>
            Some (Inr (upd_task p (\<lambda>y. y\<lparr>m_signalHandler := Some h, m_sigMask := 0\<rparr>)
              (upd_proc p (\<lambda>y. y\<lparr>m_segTable := Some (user_stack_segment room SegmentTable_ctor), m_cwdInode := 2, m_cwdPath := Some [slash],
                  m_pgid := pid, m_sid := pid, m_fdTable := Some d, m_mmap := Some (Mmap_ctor pmt)\<rparr>)
                (s2\<lparr>p_fdt := (p_fdt s2)(d := Some t), p_fw := w, p_sh := (p_sh s2)(h := SignalHandler_ctor)\<rparr>)))))))"

definition Process_ctor ::
  "('i, 'm, 'w) file_env \<Rightarrow> (u64 \<Rightarrow> 'w \<Rightarrow> 'i \<times> 'w) \<Rightarrow> u64 \<Rightarrow> bool \<Rightarrow> fdtp \<Rightarrow> shp \<Rightarrow> semp \<Rightarrow> semp \<Rightarrow> TrapFrame \<Rightarrow> u64 \<Rightarrow> Process
   \<Rightarrow> pcbp \<Rightarrow> u64 \<Rightarrow> u64 \<Rightarrow> pcbp option \<Rightarrow> fdtp option \<Rightarrow> (('i, 'm) File, 'w) pop" where
  "Process_ctor env tty tramp room d h wsem selfSem tf0 tg0 x0 p pmt entry parent fdTable s =
     bindR (PCB_ctor wsem tf0 tg0 p entry pmt True s) (\<lambda>s1.
       let s2 = upd_task p (\<lambda>t. t\<lparr>m_tgid := m_pid t\<rparr>) (upd_proc p (\<lambda>_. Process_fields x0 selfSem parent)
                  (setK (upd_sem selfSem (\<lambda>_. Semaphore_ctor 0)) (s1\<lparr>isProcess := (isProcess s1)(p := True)\<rparr>))) in
       bindR (case parent of Some q \<Rightarrow> inherit env d p q fdTable s2 | None \<Rightarrow> first_process tty tramp room d h p s2) (registerProcess p))"

section \<open>Threads\<close>

definition share_handler :: "pcbp \<Rightarrow> pcbp \<Rightarrow> ('f, 'w) pop" where
  "share_handler p q s =
     (case m_signalHandler (p_task s q) of
        None \<Rightarrow> Some (Inl NullDeref)
      | Some h \<Rightarrow> Some (Inr (upd_task p (\<lambda>t. t\<lparr>m_signalHandler := Some h, m_sigMask := m_sigMask (p_task s q)\<rparr>)
          (s\<lparr>p_sh := (p_sh s)(h := sh_acquire (p_sh s h))\<rparr>))))"

definition Thread_fields :: "pcbp option \<Rightarrow> Thread" where
  "Thread_fields parent = \<lparr>th_parent = parent, m_nextThread = None, m_clearTidAddr = 0\<rparr>"

definition as_thread :: "pcbp \<Rightarrow> pcbp option \<Rightarrow> ('f, 'w) pstate \<Rightarrow> ('f, 'w) pstate" where
  "as_thread p parent s = upd_thr p (\<lambda>_. Thread_fields parent) (s\<lparr>isProcess := (isProcess s)(p := False)\<rparr>)"

definition Thread_ctor :: "semp \<Rightarrow> TrapFrame \<Rightarrow> u64 \<Rightarrow> pcbp \<Rightarrow> pcbp \<Rightarrow> u64 \<Rightarrow> u64 \<Rightarrow> ('f, 'w) pop" where
  "Thread_ctor wsem tf0 tg0 p q entry args s =
     bindR (PCB_ctor wsem tf0 tg0 p entry (m_pmt (k_pcb (p_k s) q)) True s) (\<lambda>s1.
     bindR (lock_space q (as_thread p (Some q) s1)) (\<lambda>s2.
       let stackTop = thread_stack (m_pid (p_task s2 p)) in
       bindR (map_stack (m_pmt (k_pcb (p_k s2) p)) (stackTop - USER_STACK_SIZE) (m_ustack (p_task s2 p)) s2) (\<lambda>s3.
         share_handler p q (upd_task p (\<lambda>t. t\<lparr>m_trapFrame := (m_trapFrame t)(SP := stackTop), m_args := args\<rparr>) (unlock_space q s3)))))"

definition Thread_kernel_ctor :: "semp \<Rightarrow> TrapFrame \<Rightarrow> u64 \<Rightarrow> pcbp \<Rightarrow> u64 \<Rightarrow> u64 \<Rightarrow> ('f, 'w) pop" where
  "Thread_kernel_ctor wsem tf0 tg0 p entry args s =
     bindR (PCB_ctor wsem tf0 tg0 p entry 0 False s) (\<lambda>s1. Some (Inr (upd_task p (m_args_update (\<lambda>_. args)) (as_thread p None s1))))"

definition put_tid :: "u64 \<Rightarrow> u64 \<Rightarrow> ('f, 'w) pstate \<Rightarrow> ('f, 'w) pstate" where
  "put_tid a pid s = (if a \<noteq> 0 then setK (\<lambda>k. k\<lparr>k_uword := (k_uword k)(a := ucast pid)\<rparr>) s else s)"

definition Thread_clone_ctor ::
  "semp \<Rightarrow> TrapFrame \<Rightarrow> u64 \<Rightarrow> pcbp \<Rightarrow> pcbp \<Rightarrow> u64 \<Rightarrow> u64 \<Rightarrow> u64 \<Rightarrow> u64 \<Rightarrow> u64 \<Rightarrow> ('f, 'w) pop" where
  "Thread_clone_ctor wsem tf0 tg0 p q entry userStack tls childTidPtr clearTidPtr s =
     bindR (PCB_ctor wsem tf0 tg0 p entry (m_pmt (k_pcb (p_k s) q)) True s) (\<lambda>s1.
       let s2 = upd_thr p (m_clearTidAddr_update (\<lambda>_. clearTidPtr)) (upd_task p (\<lambda>t. t\<lparr>m_trapFrame :=
                  (m_trapFrame t)(SEPC := entry, SP := userStack, TP := tls, A0 := 0)\<rparr>) (as_thread p (Some q) s1));
           s3 = put_tid childTidPtr (m_pid (p_task s2 p)) s2 in
       share_handler p q (upd_task p (m_tgid_update (\<lambda>_. m_pid (p_task s3 q))) s3))"

definition push_thread :: "pcbp \<Rightarrow> pcbp \<Rightarrow> ('f, 'w) pop" where
  "push_thread q t s =
     bindR (lock_pcb q s) (\<lambda>s1.
       Some (Inr (unlock_pcb q (upd_proc q (m_threads_update (\<lambda>_. Some t)) (upd_thr t (m_nextThread_update (\<lambda>_. m_threads (p_proc s1 q))) s1)))))"

definition createThread :: "semp \<Rightarrow> TrapFrame \<Rightarrow> u64 \<Rightarrow> pcbp \<Rightarrow> pcbp \<Rightarrow> u64 \<Rightarrow> u64 \<Rightarrow> ('f, 'w) pop" where
  "createThread wsem tf0 tg0 t q entry args s = bindR (Thread_ctor wsem tf0 tg0 t q entry args s) (push_thread q t)"

definition cloneThread ::
  "semp \<Rightarrow> TrapFrame \<Rightarrow> u64 \<Rightarrow> pcbp \<Rightarrow> pcbp \<Rightarrow> u64 \<Rightarrow> u64 \<Rightarrow> u64 \<Rightarrow> u64 \<Rightarrow> u64 \<Rightarrow> u64 \<Rightarrow> ('f, 'w) pop" where
  "cloneThread wsem tf0 tg0 t q entry userStack tls parentTidPtr childTidPtr clearTidPtr s =
     bindR (Thread_clone_ctor wsem tf0 tg0 t q entry userStack tls childTidPtr clearTidPtr s) (\<lambda>s1.
       let s2 = put_tid parentTidPtr (m_pid (p_task s1 t)) s1 in
       case m_fdTable (p_proc s2 q) of
         None \<Rightarrow> Some (Inl NullDeref)
       | Some d \<Rightarrow> push_thread q t (s2\<lparr>p_fdt := (p_fdt s2)(d := map_option fd_acquire (p_fdt s2 d))\<rparr>))"

section \<open>Fork\<close>

definition in_region :: "mmap option \<Rightarrow> u64 \<Rightarrow> bool" where
  "in_region mm va \<longleftrightarrow> (case mm of None \<Rightarrow> False | Some m \<Rightarrow> mm_find (mm_head m) va \<noteq> None)"

text \<open>The page tables of the child: \<open>None\<close> when memory runs out.\<close>

definition fork_space :: "pcbp \<Rightarrow> ('f, 'w) pstate \<Rightarrow> (u64 option \<times> ('f, 'w) pstate) run" where
  "fork_space p s =
     (case createPMT (mw_vm (p_mw s)) of
        (None, vm) \<Rightarrow> Some (Inr (None, upd_vm (\<lambda>_. vm) s))
      | (Some pmt, vm) \<Rightarrow>
          Option.bind (copyPMT (in_region (m_mmap (p_proc s p))) pmt (m_pmt (k_pcb (p_k s) p)) vm) (\<lambda>(ok, vm1).
            if ok then Some (Inr (Some pmt, upd_vm (\<lambda>_. vm1) s))
            else Option.bind (vs_give pmt vm1) (\<lambda>vm2. Some (Inr (None, upd_vm (\<lambda>_. vm2) s)))))"

definition fork_regs :: "TrapFrame \<Rightarrow> u64 \<Rightarrow> TrapFrame" where
  "fork_regs tf kstack = tf(A0 := 0, KSTACK := kstack + KERNEL_STACK_SIZE)"

text \<open>What the child gets of its parent once it is constructed.\<close>

definition fork_fill :: "bool \<Rightarrow> shp \<Rightarrow> pcbp \<Rightarrow> pcbp \<Rightarrow> ('f, 'w) pop" where
  "fork_fill room h p c s =
     (case m_signalHandler (p_task s p) of
        None \<Rightarrow> Some (Inl NullDeref)
      | Some hp \<Rightarrow>
          let t = p_task s p; x = p_proc s p; kst = m_kstack (k_pcb (p_k s) c);
              s1 = setK (upd_pcb c (tf_kstack_update (\<lambda>_. kst + KERNEL_STACK_SIZE)))
                (upd_task c (\<lambda>y. y\<lparr>m_signalHandler := Some h, m_sigMask := m_sigMask t, m_trapFrame := fork_regs (m_trapFrame t) kst,
                    m_entry := m_trapFrame t SEPC\<rparr>)
                  (upd_proc c (\<lambda>y. y\<lparr>m_segTable := map_option (seg_copy room) (m_segTable x), m_cwdInode := m_cwdInode x, m_cwdPath := m_cwdPath x\<rparr>)
                    (s\<lparr>p_sh := (p_sh s)(h := sh_clone (p_sh s hp))\<rparr>))) in
          (case m_mmap x of
             None \<Rightarrow> Some (Inr (upd_proc c (m_mmap_update (\<lambda>_. Some (Mmap_ctor (m_pmt (k_pcb (p_k s1) c))))) s1))
           | Some mm \<Rightarrow>
               bindR (mm_clone (m_pmt (k_pcb (p_k s1) c)) mm (p_mw s1)) (\<lambda>(mm1, w).
                 Some (Inr (upd_proc c (m_mmap_update (\<lambda>_. mm1)) (s1\<lparr>p_mw := w\<rparr>))))))"

definition push_child :: "pcbp \<Rightarrow> pcbp \<Rightarrow> ('f, 'w) pop" where
  "push_child p c s =
     bindR (lock_pcb p s) (\<lambda>s1.
       Some (Inr (unlock_pcb p (upd_proc p (m_firstChild_update (\<lambda>_. Some c))
         (upd_proc c (m_nextSibling_update (\<lambda>_. m_firstChild (p_proc s1 p))) s1)))))"

definition process_fork ::
  "('i, 'm, 'w) file_env \<Rightarrow> (u64 \<Rightarrow> 'w \<Rightarrow> 'i \<times> 'w) \<Rightarrow> u64 \<Rightarrow> bool \<Rightarrow> fdtp \<Rightarrow> shp \<Rightarrow> semp \<Rightarrow> semp \<Rightarrow> TrapFrame \<Rightarrow> u64 \<Rightarrow> Process
   \<Rightarrow> pcbp \<Rightarrow> pcbp \<Rightarrow> (('i, 'm) File, 'w) pstate \<Rightarrow> (pcbp option \<times> (('i, 'm) File, 'w) pstate) run" where
  "process_fork env tty tramp room d h wsem selfSem tf0 tg0 x0 c p s =
     bindR (lock_space p s) (\<lambda>s1.
     bindR (fork_space p s1) (\<lambda>(r, s2).
       case r of
         None \<Rightarrow> Some (Inr (None, unlock_space p s2))
       | Some pmt \<Rightarrow>
           (case Option.bind (m_fdTable (p_proc s2 p)) (p_fdt s2) of
              None \<Rightarrow> Some (Inl NullDeref)
            | Some t \<Rightarrow>
                let (t1, w) = fd_clone env t (p_fw s2) in
                bindR (Process_ctor env tty tramp room d h wsem selfSem tf0 tg0 x0 c pmt (- 1) (Some p) (Some d)
                         (s2\<lparr>p_fdt := (p_fdt s2)(d := Some t1), p_fw := w\<rparr>)) (\<lambda>s3.
                bindR (fork_fill room h p c s3) (\<lambda>s4.
                bindR (push_child p c (unlock_space p s4)) (\<lambda>s5. Some (Inr (Some c, s5))))))))"
section \<open>Starting a program\<close>

definition user_segments :: "bool \<Rightarrow> SegmentTable \<Rightarrow> SegmentTable" where
  "user_segments room t = user_stack_segment room (setHeap room (ucast (SEG_R OR SEG_W)) HEAP_START HEAP_START t)"

definition clear_space :: "u64 \<Rightarrow> ('f, 'w) pop" where
  "clear_space pmt s = Option.bind (clearUserPages pmt (mw_vm (p_mw s))) (\<lambda>vm. Some (Inr (upd_vm (\<lambda>_. vm) s)))"

definition load_program ::
  "(u64 \<Rightarrow> 'h \<Rightarrow> int \<times> 'h) \<Rightarrow> (u64 \<Rightarrow> 'h \<Rightarrow> int \<times> u8 list \<times> 'h) \<Rightarrow> ('h \<Rightarrow> 'h) \<Rightarrow> bool \<Rightarrow> bytes \<Rightarrow> (nat \<Rightarrow> bytes)
   \<Rightarrow> pcbp \<Rightarrow> 'h option \<Rightarrow> ('f, 'w) pstate \<Rightarrow> (ElfLoadInfo option \<times> 'h option \<times> ('f, 'w) pstate) run" where
  "load_program f_seek f_read f_close room hdr0 ph0 p opened s =
     (case elf_load f_seek f_read f_close room hdr0 ph0 (m_pmt (k_pcb (p_k s) p)) opened (mw_vm (p_mw s)) (m_segTable (p_proc s p)) of
        Inl e \<Rightarrow> Some (Inl e)
      | Inr (info, f, vm, segs) \<Rightarrow> Some (Inr (info, f, upd_proc p (m_segTable_update (\<lambda>_. segs)) (upd_vm (\<lambda>_. vm) s))))"

definition fill_stack :: "path \<Rightarrow> ElfLoadInfo \<Rightarrow> path list option \<Rightarrow> path list option \<Rightarrow> (nat \<Rightarrow> u64) \<Rightarrow> pcbp
   \<Rightarrow> ('f, 'w) pstate \<Rightarrow> u64 \<times> ('f, 'w) pstate" where
  "fill_stack elfPath info argv envp junk p s =
     (case setupInitialStack (m_ustack (p_task s p)) elfPath info (replicate 16 0) argv envp junk (vs_data (mw_vm (p_mw s))) of
        (sp, data) \<Rightarrow> (sp, upd_vm (vs_data_update (\<lambda>_. data)) s))"

definition exec_regs :: "TrapFrame \<Rightarrow> u64 \<Rightarrow> u64 \<Rightarrow> TrapFrame" where
  "exec_regs tf entry sp = (\<lambda>_. 0)(KSTACK := tf KSTACK, SEPC := entry, SP := sp)"

definition reset_handler :: "pcbp \<Rightarrow> ('f, 'w) pstate \<Rightarrow> ('f, 'w) pstate" where
  "reset_handler p s =
     (case m_signalHandler (p_task s p) of None \<Rightarrow> s | Some h \<Rightarrow> s\<lparr>p_sh := (p_sh s)(h := resetForExec (p_sh s h))\<rparr>)"

text \<open>
  \<open>opened1\<close> and \<open>opened2\<close> are the files that \<^verbatim>\<open>VFS::open\<close> returns for the path, first to see whether it exists and then to load it.
\<close>

definition process_exec ::
  "(u64 \<Rightarrow> 'h \<Rightarrow> int \<times> 'h) \<Rightarrow> (u64 \<Rightarrow> 'h \<Rightarrow> int \<times> u8 list \<times> 'h) \<Rightarrow> ('h \<Rightarrow> 'h) \<Rightarrow> bool \<Rightarrow> bytes \<Rightarrow> (nat \<Rightarrow> bytes) \<Rightarrow> (nat \<Rightarrow> u64)
   \<Rightarrow> pcbp \<Rightarrow> path \<Rightarrow> path list option \<Rightarrow> path list option \<Rightarrow> 'h option \<Rightarrow> 'h option \<Rightarrow> ('f, 'w) pstate
   \<Rightarrow> (int \<times> 'h option \<times> 'h option \<times> ('f, 'w) pstate) run" where
  "process_exec f_seek f_read f_close room hdr0 ph0 junk p elfPath argv envp opened1 opened2 s =
     bindR (lock_space p s) (\<lambda>s1.
       if opened1 = None then Some (Inr (- 1, opened1, opened2, unlock_space p s1))
       else
         let f1 = map_option f_close opened1; (newUstack, s2) = new_stack s1 in
         if newUstack = 0 then Some (Inr (- 1, f1, opened2, unlock_space p s2))
         else
           bindR (clear_space (m_pmt (k_pcb (p_k s2) p)) s2) (\<lambda>s3.
           bindR (load_program f_seek f_read f_close room hdr0 ph0 p opened2 (upd_proc p (m_segTable_update (map_option seg_clear)) s3)) (\<lambda>(r, f2, s4).
             case r of
               None \<Rightarrow> bindR (free_stack newUstack (of_nat stack_pages) s4) (\<lambda>s5. Some (Inr (- 1, f1, f2, unlock_space p s5)))
             | Some info \<Rightarrow>
                 bindR (map_stack (m_pmt (k_pcb (p_k s4) p)) (USER_STACK_TOP - USER_STACK_SIZE) newUstack
                          (upd_task p (m_ustack_update (\<lambda>_. newUstack)) (reset_handler p s4))) (\<lambda>s5.
                   let (initialSp, s6) = fill_stack elfPath info argv envp junk p s5 in
                   Some (Inr (0, f1, f2, unlock_space p
                     (upd_proc p (m_segTable_update (map_option (user_segments room)))
                       (upd_task p (\<lambda>t. t\<lparr>m_trapFrame := exec_regs (m_trapFrame t) (li_entry info) initialSp, m_entry := li_entry info\<rparr>) s6))))))))"

definition cstr :: "string \<Rightarrow> path" where
  "cstr = map of_char"

definition default_envp :: "path list" where
  "default_envp = [cstr ''PATH=/bin:/usr/bin'', cstr ''TERM=vt100'', cstr ''HOME=/'', cstr ''PWD=/'']"

definition createInit ::
  "('i, 'm, 'w) file_env \<Rightarrow> (u64 \<Rightarrow> 'w \<Rightarrow> 'i \<times> 'w) \<Rightarrow> u64 \<Rightarrow> bool \<Rightarrow> fdtp \<Rightarrow> shp \<Rightarrow> semp \<Rightarrow> semp \<Rightarrow> TrapFrame \<Rightarrow> u64 \<Rightarrow> Process
   \<Rightarrow> (u64 \<Rightarrow> 'h \<Rightarrow> int \<times> 'h) \<Rightarrow> (u64 \<Rightarrow> 'h \<Rightarrow> int \<times> u8 list \<times> 'h) \<Rightarrow> ('h \<Rightarrow> 'h) \<Rightarrow> bytes \<Rightarrow> (nat \<Rightarrow> bytes) \<Rightarrow> (nat \<Rightarrow> u64)
   \<Rightarrow> pcbp \<Rightarrow> path \<Rightarrow> 'h option \<Rightarrow> (('i, 'm) File, 'w) pstate \<Rightarrow> ('h option \<times> (('i, 'm) File, 'w) pstate) run" where
  "createInit env tty tramp room d h wsem selfSem tf0 tg0 x0 f_seek f_read f_close hdr0 ph0 junk p initPath opened s =
     (case createPMT (mw_vm (p_mw s)) of
        (None, vm) \<Rightarrow> Some (Inl NullDeref)
      | (Some pmt, vm) \<Rightarrow>
          bindR (Process_ctor env tty tramp room d h wsem selfSem tf0 tg0 x0 p pmt (- 1) None None
                   (upd_vm (\<lambda>_. vm) s)) (\<lambda>s1.
          bindR (load_program f_seek f_read f_close room hdr0 ph0 p opened s1) (\<lambda>(r, f, s2).
            case r of
              None \<Rightarrow> Some (Inl (Panic ''Process::createInit(): failed to load ELF''))
            | Some info \<Rightarrow>
                if li_entry info = 0 then Some (Inl (Panic ''Process::createInit(): failed to load ELF''))
                else
                  let (initialSp, s3) = fill_stack initPath info (Some [initPath]) (Some default_envp) junk p s2 in
                  Some (Inr (f, (upd_proc p (m_segTable_update (map_option (setHeap room (ucast (SEG_R OR SEG_W)) HEAP_START HEAP_START)))
                    (upd_task p (\<lambda>t. t\<lparr>m_entry := li_entry info, m_trapFrame := (m_trapFrame t)(SEPC := li_entry info, SP := initialSp)\<rparr>) s3))
                    \<lparr>s_init := Some p\<rparr>)))))"

text \<open>
  Where a new control block continues: user code with its registers, or a kernel function. The two checks of \<^verbatim>\<open>sstatus\<close> read back the bits
  written just before.
\<close>

datatype start = UserReturn TrapFrame | KernelCall u64 u64

definition pcbEntry :: "('f, 'w) pstate \<Rightarrow> start \<times> ('f, 'w) pstate" where
  "pcbEntry s =
     (let p = s_running (p_k s); t = p_task s p in
      if m_usermode (k_pcb (p_k s) p) then
        let kst = m_kstack (k_pcb (p_k s) p) + KERNEL_STACK_SIZE;
            tf1 = (m_trapFrame t)(KSTACK := kst);
            tf2 = (if m_entry t \<noteq> tf1 SEPC then tf1(SP := USER_STACK_TOP, SEPC := m_entry t) else tf1) in
        (UserReturn tf2, setK (\<lambda>k. upd_pcb p (tf_kstack_update (\<lambda>_. kst)) (k\<lparr>k_sie := False, k_sscratch := kst\<rparr>))
          (upd_task p (m_trapFrame_update (\<lambda>_. tf2)) s))
      else (KernelCall (m_entry t) (m_args t), setK (k_sie_update (\<lambda>_. True)) s))"

section \<open>How the heap grows\<close>

lemma vpn_nat: "vpn va l = unat va div 2 ^ (12 + l * 9) mod 512"
proof -
  have m: "(0x1FF :: u64) = mask 9" by (simp add: mask_eq_exp_minus_1)
  have u: "take_bit LENGTH(64) (unat va) = unat va" using unsigned_less [of va, where ?'a = nat] by (simp add: take_bit_nat_eq_self)
  show ?thesis
    unfolding vpn_def m take_bit_eq_mask [symmetric] unsigned_take_bit_eq unsigned_drop_bit_eq u by (simp add: take_bit_eq_mod drop_bit_eq_div)
qed

lemma page_number_digits: "x < 2 ^ 27 \<Longrightarrow> x = x mod 512 + 512 * (x div 512 mod 512) + 262144 * (x div 262144 mod 512)" for x :: nat
proof -
  assume x: "x < 2 ^ 27"
  have "x div 262144 < 512" using x by (simp add: less_mult_imp_div_less)
  then have "x div 262144 mod 512 = x div 262144" by simp
  moreover have "x div 262144 = x div 512 div 512" by (simp add: div_mult2_eq)
  moreover have "x div 512 = 512 * (x div 512 div 512) + x div 512 mod 512" "x = 512 * (x div 512) + x mod 512" by simp_all
  ultimately show ?thesis by linarith
qed

text \<open>Below the end of the 39-bit addresses, addresses with the same entry are in the same page.\<close>

lemma same_page_below:
  assumes "same_page a b" and "unat a < 2 ^ 39" and "unat b < 2 ^ 39"
  shows "pageRoundDown a = pageRoundDown b"
proof -
  have d: "unat c div 4096 div 512 mod 512 = vpn c 1" "unat c div 4096 div 262144 mod 512 = vpn c 2" "unat c div 4096 mod 512 = vpn c 0" for c
    by (simp_all add: vpn_nat div_mult2_eq [symmetric])
  have "unat a div 4096 < 2 ^ 27" "unat b div 4096 < 2 ^ 27" using assms(2,3) by (simp_all add: less_mult_imp_div_less)
  from page_number_digits [OF this(1)] page_number_digits [OF this(2)] have "unat a div 4096 = unat b div 4096"
    using assms(1) unfolding d same_page_def by simp
  then show ?thesis by (simp add: word_unat_eq_iff unat_pageRoundDown)
qed

lemma PAGE_USER_flags: "flag_bits PAGE_USER" "PAGE_USER AND PAGE_V \<noteq> 0"
  by (simp_all add: PAGE_USER_def page_flag_defs)

definition heap_page :: "u64 \<Rightarrow> nat \<Rightarrow> u64" where
  "heap_page a j = a + of_nat j * PAGE_SIZE"

lemma vs_take_wf:
  assumes "pt_wf (vs_pt st) pmt (vs_heap st)"
  shows "case vs_take st of
      (None, st1) \<Rightarrow> st1 = st \<and> buddy_pool (vs_heap st) = {}
    | (Some pg, st1) \<Rightarrow> vs_pt st1 = vs_pt st \<and> pt_wf (vs_pt st1) pmt (vs_heap st1) \<and> pg \<in> buddy_pool (vs_heap st) \<and>
        buddy_pool (vs_heap st1) \<subseteq> buddy_pool (vs_heap st)"
proof -
  have good: "buddy_good (vs_heap st)" using assms by (simp add: pt_wf_def)
  obtain r h where k: "kallocPage (vs_heap st) = (r, h)" by (cases "kallocPage (vs_heap st)")
  show ?thesis
  proof (cases r)
    case None
    then show ?thesis using buddy_pages.take_none [OF good] k by (simp add: vs_take_def)
  next
    case (Some pg)
    then show ?thesis using buddy_pages.take_some [OF good] k assms by (auto simp: vs_take_def pt_wf_def)
  qed
qed

lemma brk_grow_run:
  assumes "pt_wf (vs_pt st) pmt (vs_heap st)"
    and "\<forall>j \<in> {i..<n}. \<not> pteValid (pte_of (vs_pt st) pmt (heap_page a j))"
    and "\<forall>j \<in> {i..<n}. \<forall>k \<in> {i..<n}. same_page (heap_page a j) (heap_page a k) \<longrightarrow> j = k"
  shows "\<exists>r st'. brk_grow pmt a [i..<n] e st = Inr (r, st') \<and> pt_wf (vs_pt st') pmt (vs_heap st') \<and>
    (\<forall>x. (\<forall>j \<in> {i..<n}. \<not> same_page (heap_page a j) x) \<longrightarrow> pte_of (vs_pt st') pmt x = pte_of (vs_pt st) pmt x) \<and>
    (case r of
       None \<Rightarrow> buddy_pool (vs_heap st') = {}
     | Some e' \<Rightarrow> e' = (if i < n then heap_page a n else e) \<and> (\<forall>j \<in> {i..<n}. \<exists>pg \<in> buddy_pool (vs_heap st).
         pte_of (vs_pt st') pmt (heap_page a j) = makePte (v2p pg) PAGE_USER))"
  using assms
proof (induction "n - i" arbitrary: i e st)
  case 0
  then show ?case by simp
next
  case (Suc m)
  have i: "i < n" and l: "[i..<n] = i # [Suc i..<n]" using Suc.hyps(2) by (simp_all add: upt_conv_Cons)
  note tk = vs_take_wf [OF Suc.prems(1)]
  show ?case
  proof (cases "vs_take st")
    case (Pair r st1)
    show ?thesis
    proof (cases r)
      case None
      then show ?thesis using tk Suc.prems(1) by (simp add: l Pair)
    next
      case (Some pg)
      have t: "vs_pt st1 = vs_pt st" "pt_wf (vs_pt st1) pmt (vs_heap st1)" "pg \<in> buddy_pool (vs_heap st)"
        "buddy_pool (vs_heap st1) \<subseteq> buddy_pool (vs_heap st)"
        using tk unfolding Pair Some prod.case option.case by blast+
      let ?va = "heap_page a i"
      have iv: "\<not> pteValid (pte_of (vs_pt st1) pmt ?va)" using Suc.prems(2) i t(1) by simp
      note c = buddy_pages.mapPage_cases [unfolded pt_wf_ok, OF t(2), of ?va "v2p pg" PAGE_USER]
      obtain b pt h where mp: "mapPage kallocPage pmt ?va (v2p pg) PAGE_USER (vs_pt st1) (vs_heap st1) = Inr (b, pt, h)"
        using c iv by (cases "mapPage kallocPage pmt ?va (v2p pg) PAGE_USER (vs_pt st1) (vs_heap st1)") auto
      define st2 where "st2 = st1\<lparr>vs_pt := pt, vs_heap := h\<rparr>"
      have c': "pt_wf pt pmt h" "buddy_pool h \<subseteq> buddy_pool (vs_heap st1)"
        "if b then (\<forall>x. pte_of pt pmt x = (if same_page ?va x then makePte (v2p pg) PAGE_USER else pte_of (vs_pt st1) pmt x))
         else buddy_pool h = {} \<and> pte_of pt pmt = pte_of (vs_pt st1) pmt"
        using c iv by (auto simp: mp)
      have vm: "vs_map pmt (a + of_nat i * PAGE_SIZE) (v2p pg) PAGE_USER st1 = Inr (b, st2)"
        using mp by (simp add: vs_map_def heap_page_def st2_def)
      show ?thesis
      proof (cases b)
        case False
        then show ?thesis using c' t vm by (simp add: l Pair Some st2_def)
      next
        case True
        have p2: "pte_of (vs_pt st2) pmt x = (if same_page ?va x then makePte (v2p pg) PAGE_USER else pte_of (vs_pt st) pmt x)" for x
          using c'(3) True t(1) by (simp add: st2_def)
        have w2: "pt_wf (vs_pt st2) pmt (vs_heap st2)" using c'(1) by (simp add: st2_def)
        have un: "\<forall>j \<in> {Suc i..<n}. \<not> same_page ?va (heap_page a j)"
          using Suc.prems(3) i by (metis atLeastLessThan_iff less_irrefl Suc_le_lessD less_imp_le order_refl)
        have "\<exists>r st'. brk_grow pmt a [Suc i..<n] (heap_page a (Suc i)) st2 = Inr (r, st') \<and> pt_wf (vs_pt st') pmt (vs_heap st') \<and>
            (\<forall>x. (\<forall>j \<in> {Suc i..<n}. \<not> same_page (heap_page a j) x) \<longrightarrow> pte_of (vs_pt st') pmt x = pte_of (vs_pt st2) pmt x) \<and>
            (case r of
               None \<Rightarrow> buddy_pool (vs_heap st') = {}
             | Some e' \<Rightarrow> e' = (if Suc i < n then heap_page a n else heap_page a (Suc i)) \<and> (\<forall>j \<in> {Suc i..<n}. \<exists>pg \<in> buddy_pool (vs_heap st2).
                 pte_of (vs_pt st') pmt (heap_page a j) = makePte (v2p pg) PAGE_USER))"
          by (rule Suc.hyps(1)) (use Suc.hyps(2) Suc.prems(2,3) w2 un in \<open>auto simp: p2\<close>)
        then obtain r' st' where g: "brk_grow pmt a [Suc i..<n] (heap_page a (Suc i)) st2 = Inr (r', st')" "pt_wf (vs_pt st') pmt (vs_heap st')"
          "\<And>x. (\<forall>j \<in> {Suc i..<n}. \<not> same_page (heap_page a j) x) \<Longrightarrow> pte_of (vs_pt st') pmt x = pte_of (vs_pt st2) pmt x"
          "case r' of None \<Rightarrow> buddy_pool (vs_heap st') = {}
           | Some e' \<Rightarrow> e' = (if Suc i < n then heap_page a n else heap_page a (Suc i)) \<and> (\<forall>j \<in> {Suc i..<n}. \<exists>pg \<in> buddy_pool (vs_heap st2).
               pte_of (vs_pt st') pmt (heap_page a j) = makePte (v2p pg) PAGE_USER)"
          by blast
        have run: "brk_grow pmt a [i..<n] e st = Inr (r', st')"
          using g(1) vm True by (simp add: l Pair Some heap_page_def)
        have here: "pte_of (vs_pt st') pmt ?va = makePte (v2p pg) PAGE_USER"
          using g(3) [of ?va] un p2 [of ?va] by (auto dest: same_page_sym)
        have sub: "buddy_pool (vs_heap st2) \<subseteq> buddy_pool (vs_heap st)" using c'(2) t(4) by (auto simp: st2_def)
        have out: "pte_of (vs_pt st') pmt x = pte_of (vs_pt st) pmt x" if "\<forall>j \<in> {i..<n}. \<not> same_page (heap_page a j) x" for x
          using g(3) [of x] p2 [of x] that i by simp
        have "case r' of None \<Rightarrow> buddy_pool (vs_heap st') = {}
          | Some e' \<Rightarrow> e' = (if i < n then heap_page a n else e) \<and> (\<forall>j \<in> {i..<n}. \<exists>pg \<in> buddy_pool (vs_heap st).
              pte_of (vs_pt st') pmt (heap_page a j) = makePte (v2p pg) PAGE_USER)"
        proof (cases r')
          case (Some e')
          have "e' = heap_page a n" using g(4) i Some by (cases "Suc i < n") (simp_all, metis Suc_lessI)
          moreover have "\<exists>pg \<in> buddy_pool (vs_heap st). pte_of (vs_pt st') pmt (heap_page a j) = makePte (v2p pg) PAGE_USER"
            if "j \<in> {i..<n}" for j
          proof (cases "j = i")
            case True
            then show ?thesis using here t(3) by blast
          next
            case False
            then have "j \<in> {Suc i..<n}" using that by simp
            then have "\<exists>pg \<in> buddy_pool (vs_heap st2). pte_of (vs_pt st') pmt (heap_page a j) = makePte (v2p pg) PAGE_USER"
              using g(4) unfolding Some option.case by blast
            then show ?thesis using sub by blast
          qed
          ultimately show ?thesis using i by (simp add: Some)
        qed (use g(4) in simp)
        then show ?thesis using run g(2) out by blast
      qed
    qed
  qed
qed

lemma pageRoundUp_page_aligned: "page_aligned a \<Longrightarrow> unat a + 4095 < 2 ^ 64 \<Longrightarrow> pageRoundUp a = a"
proof -
  assume a: "page_aligned a" "unat a + 4095 < 2 ^ 64"
  obtain q where q: "unat a = 4096 * q" using a(1) page_aligned_iff [of a] unfolding dvd_def by blast
  have "unat (pageRoundUp a) = unat a" unfolding unat_pageRoundUp [OF a(2)] q by simp
  then show ?thesis by (simp add: word_unat_eq_iff)
qed

text \<open>The pages between two aligned addresses.\<close>

lemma heap_pages:
  assumes "page_aligned a" and "page_aligned b" and "a \<le> b" and "unat b < 2 ^ 39"
  defines "n \<equiv> page_count (b - a)"
  shows "unat b = unat a + 4096 * n" and "heap_page a n = b"
    and "j \<le> n \<Longrightarrow> unat (heap_page a j) = unat a + 4096 * j" and "page_aligned (heap_page a j)"
    and "a \<le> x \<Longrightarrow> x < b \<Longrightarrow> \<exists>j < n. pageRoundDown x = heap_page a j"
proof -
  obtain q r where q: "unat a = 4096 * q" "unat b = 4096 * r"
    using assms(1,2) page_aligned_iff [of a] page_aligned_iff [of b] unfolding dvd_def by blast
  have le: "unat a \<le> unat b" using assms(3) by (simp add: word_le_nat_alt)
  have d: "unat (b - a) = 4096 * (r - q)" using assms(3) by (simp add: unat_sub q diff_mult_distrib2)
  have dv: "unat ((b - a) div PAGE_SIZE) = r - q" unfolding unat_div d by (simp add: PAGE_SIZE_def)
  have "r - q < 2 ^ 32" using assms(4) q(2) by simp
  then have n: "n = r - q" unfolding n_def page_count_def unsigned_ucast_eq dv by (simp add: take_bit_nat_eq_self)
  show ub: "unat b = unat a + 4096 * n" using le q n by simp
  show hj: "unat (heap_page a j) = unat a + 4096 * j" if "j \<le> n" for j
  proof -
    have lt: "unat a + 4096 * j < 2 ^ 39" using that ub assms(4) by linarith
    have w: "of_nat j * PAGE_SIZE = of_nat (4096 * j)" by (simp add: PAGE_SIZE_def mult.commute)
    have uw: "unat (of_nat (4096 * j) :: u64) = 4096 * j" using lt by (simp only: unat_of_nat) (simp add: take_bit_nat_eq_self)
    have "unat a + unat (of_nat (4096 * j) :: u64) < 2 ^ 64" using lt uw by simp
    then have "unat (a + of_nat (4096 * j)) = unat a + unat (of_nat (4096 * j) :: u64)" using unat_add_lem [of a "of_nat (4096 * j)"] by simp
    then show ?thesis unfolding heap_page_def w uw .
  qed
  show "heap_page a n = b" using hj [of n] ub by (simp add: word_unat_eq_iff)
  show al: "page_aligned (heap_page a j)" for j
  proof -
    have "4096 dvd unat (of_nat j * PAGE_SIZE :: u64)"
      unfolding unat_word_ariths PAGE_SIZE_def by (intro dvd_mod) auto
    then have "page_aligned (of_nat j * PAGE_SIZE)" by (simp only: page_aligned_iff)
    then show ?thesis using pageRoundDown_aligned [OF assms(1), of "of_nat j * PAGE_SIZE"] by (simp add: heap_page_def)
  qed
  show "\<exists>j < n. pageRoundDown x = heap_page a j" if x: "a \<le> x" "x < b"
  proof -
    let ?j = "unat x div 4096 - q"
    have ux: "4096 * q \<le> unat x" "unat x < 4096 * r" using x q by (simp_all add: word_le_nat_alt word_less_nat_alt)
    then have dq: "q \<le> unat x div 4096" "unat x div 4096 < r" by (simp_all add: div_le_mono less_mult_imp_div_less)
    then have j: "?j < n" using n by linarith
    have "unat (heap_page a ?j) = 4096 * (unat x div 4096)" using hj [of ?j] j q(1) dq(1) by (simp add: diff_mult_distrib2)
    then have "unat (pageRoundDown x) = unat (heap_page a ?j)" by (simp add: unat_pageRoundDown)
    then show ?thesis using j by (auto simp: word_unat_eq_iff)
  qed
qed
abbreviation vm_of :: "('f, 'w) pstate \<Rightarrow> vmstate" where
  "vm_of s \<equiv> mw_vm (p_mw s)"

abbreviation pte_at :: "('f, 'w) pstate \<Rightarrow> pcbp \<Rightarrow> u64 \<Rightarrow> u64" where
  "pte_at s p va \<equiv> pte_of (vs_pt (vm_of s)) (m_pmt (k_pcb (p_k s) p)) va"

definition heap_of :: "('f, 'w) pstate \<Rightarrow> pcbp \<Rightarrow> SegmentDesc option" where
  "heap_of s p = Option.bind (m_segTable (p_proc s p)) m_heap"

definition space_wf :: "('f, 'w) pstate \<Rightarrow> pcbp \<Rightarrow> bool" where
  "space_wf s p \<longleftrightarrow> pt_wf (vs_pt (vm_of s)) (m_pmt (k_pcb (p_k s) p)) (vs_heap (vm_of s))"

lemma lock_space_free:
  assumes "\<not> m_locked (m_spaceLock (p_proc s p))"
  obtains s1 where "lock_space p s = Some (Inr s1)" "p_mw s1 = p_mw s" "k_pcb (p_k s1) = k_pcb (p_k s)" "heap_of s1 p = heap_of s p"
    "m_segTable (p_proc s1 p) = m_segTable (p_proc s p)"
  using assms that by (simp add: lock_space_def acquire_def heap_of_def)

lemma unlock_space_simps [simp]:
  "p_mw (unlock_space p s) = p_mw s" "k_pcb (p_k (unlock_space p s)) = k_pcb (p_k s)" "heap_of (unlock_space p s) q = heap_of s q"
  by (simp_all add: unlock_space_def release_def heap_of_def)

lemma upd_vm_simps [simp]:
  "p_k (upd_vm f s) = p_k s" "p_proc (upd_vm f s) = p_proc s" "vm_of (upd_vm f s) = f (vm_of s)" "heap_of (upd_vm f s) q = heap_of s q"
  by (simp_all add: upd_vm_def heap_of_def)


text \<open>
  When memory runs out in the middle, the pages mapped so far stay mapped while the heap ends where it did, so the next request for the
  same addresses finds them in use and the kernel panics.
\<close>

theorem brk_retry_panics:
  assumes "pt_wf (vs_pt st) pmt (vs_heap st)" and "pteValid (pte_of (vs_pt st) pmt (heap_page a 0))" and "buddy_pool (vs_heap st) \<noteq> {}" and "0 < n"
  shows "brk_grow pmt a [0..<n] e st = Inl (Panic ''PMT::mapPage: page already mapped'')"
proof -
  obtain pg st1 where t: "vs_take st = (Some pg, st1)" "vs_pt st1 = vs_pt st" "pt_wf (vs_pt st1) pmt (vs_heap st1)"
    using vs_take_wf [OF assms(1)] assms(3) by (cases "vs_take st"; cases "fst (vs_take st)") auto
  let ?va = "heap_page a 0"
  have h: "has0 (vs_pt st) pmt (vpn ?va 2) (vpn ?va 1)" using assms(2) by (auto simp: pte_of_def split: if_splits)
  have "pteValid (vs_pt st (l0_table (vs_pt st) pmt (vpn ?va 2) (vpn ?va 1)) (vpn ?va 0))" using assms(2) h by (simp add: pte_of_def)
  then have "mapPage kallocPage pmt ?va (v2p pg) PAGE_USER (vs_pt st1) (vs_heap st1) = Inl (Panic ''PMT::mapPage: page already mapped'')"
    unfolding mapPage_def t(2) walk_present [OF h] prod.case option.case by simp
  then have "vs_map pmt (a + of_nat 0 * PAGE_SIZE) (v2p pg) PAGE_USER st1 = Inl (Panic ''PMT::mapPage: page already mapped'')"
    by (simp add: vs_map_def heap_page_def)
  moreover have "[0..<n] = 0 # [1..<n]" using assms(4) by (simp add: upt_conv_Cons)
  ultimately show ?thesis by (simp add: t(1))
qed

text \<open>A process with an empty heap above an empty address space.\<close>

definition demo_space :: "(nat, unit) pstate" where
  "demo_space = (demo_family (upd_pcb 0 (m_pmt_update (\<lambda>_. 0x1000)) demo_sync) 1 0 1)
     \<lparr>p_mw := \<lparr>mw_vm = demo_vm, mw_refs = (\<lambda>_. None)\<rparr>,
      p_proc := (\<lambda>_. demo_proc\<lparr>m_segTable := Some (user_segments True SegmentTable_ctor)\<rparr>)\<rparr>"

lemma demo_space_facts:
  "heap_of demo_space 0 = Some \<lparr>sd_type = HEAP, sd_flags = 6, sd_start = 0x1000000, sd_end = 0x1000000\<rparr>"
  "space_wf demo_space 0" "pte_at demo_space 0 x = 0" "vm_of demo_space = demo_vm"
  "\<not> m_locked (m_spaceLock (p_proc demo_space 0))"
proof -
  have k: "m_pmt (k_pcb (p_k demo_space) 0) = 0x1000" "vm_of demo_space = demo_vm"
    by (simp_all add: demo_space_def demo_family_def upd_pcb_def demo_sync_defs)
  show "heap_of demo_space 0 = Some \<lparr>sd_type = HEAP, sd_flags = 6, sd_start = 0x1000000, sd_end = 0x1000000\<rparr>"
    by (simp add: demo_space_def heap_of_def demo_proc_def user_segments_def user_stack_segment_def setHeap_def setStack_def allocDesc_def HEAP_START_def
        SEG_R_def SEG_W_def)
  show "space_wf demo_space 0" "pte_at demo_space 0 x = 0" using demo_wf demo_pte unfolding space_wf_def k by (simp_all add: demo_vm_def)
qed (simp_all add: demo_space_def demo_proc_def Lock_ctor_def demo_family_def)


end
