(* ===== verification/Ext2Write.thy ===== *)
theory Ext2Write
  imports Ext2File
begin

text \<open>
  Whole ext2 files: the tree of pointer blocks and data blocks of a file as a partial map from positions to blocks, the
  invariant that no block occurs twice in it, and what allocation and writing do to the bytes of the file.
\<close>

section \<open>Positions in the tree of a file\<close>

text \<open>A position is a slot of the inode and the indices followed from there.\<close>

type_synonym tpos = "nat \<times> u32 list"

definition slot_depth :: "nat \<Rightarrow> nat" where
  "slot_depth k = (if k < 12 then 0 else k - 11)"

definition pos_ok :: "ext2 \<Rightarrow> tpos \<Rightarrow> bool" where
  "pos_ok m p \<longleftrightarrow> fst p < 15 \<and> length (snd p) \<le> slot_depth (fst p) \<and> (\<forall>j \<in> set (snd p). j < ptrsPerBlock m)"

definition is_leaf :: "tpos \<Rightarrow> bool" where
  "is_leaf p \<longleftrightarrow> length (snd p) = slot_depth (fst p)"

definition at_pos :: "ext2 \<Rightarrow> bytes \<Rightarrow> tpos \<Rightarrow> u32" where
  "at_pos m raw p = foldl (follow m) (i_block raw (fst p)) (snd p)"

definition tree_ok :: "ext2 \<Rightarrow> Ext2Inode \<Rightarrow> bool" where
  "tree_ok m n \<longleftrightarrow>
     (\<forall>p. pos_ok m p \<and> at_pos m (in_raw n) p \<noteq> 0
        \<longrightarrow> data_block m (at_pos m (in_raw n) p) \<and> at_pos m (in_raw n) p \<noteq> inode_block m (in_num n))
     \<and> (\<forall>p q. pos_ok m p \<and> pos_ok m q \<and> at_pos m (in_raw n) p = at_pos m (in_raw n) q \<and> at_pos m (in_raw n) p \<noteq> 0
        \<longrightarrow> p = q)"

definition file_inv :: "ext2 \<Rightarrow> Ext2Inode \<Rightarrow> bool" where
  "file_inv m n \<longleftrightarrow> layout m \<and> inode_ok m n \<and> readRawInode m (in_num n) = in_raw n \<and> tree_ok m n"

definition owns :: "ext2 \<Rightarrow> Ext2Inode \<Rightarrow> u32 \<Rightarrow> bool" where
  "owns m n c \<longleftrightarrow> (\<exists>p. pos_ok m p \<and> at_pos m (in_raw n) p = c)"

lemma at_pos_root [simp]: "at_pos m raw (k, []) = i_block raw k"
  by (simp add: at_pos_def)

lemma at_pos_snoc [simp]: "at_pos m raw (k, ks @ [j]) = follow m (at_pos m raw (k, ks)) j"
  by (simp add: at_pos_def)

lemma at_pos_append: "at_pos m raw (k, ks @ js) = foldl (follow m) (at_pos m raw (k, ks)) js"
  by (simp add: at_pos_def)

lemma pos_ok_snoc: "pos_ok m (k, ks @ [j]) \<Longrightarrow> pos_ok m (k, ks) \<and> j < ptrsPerBlock m \<and> \<not> is_leaf (k, ks)"
  by (simp add: pos_ok_def is_leaf_def)

lemma pos_ok_keeps: "keeps m m' \<Longrightarrow> pos_ok m' = pos_ok m"
  by (simp add: pos_ok_def fun_eq_iff keeps_ptrs)

lemma tree_okD:
  assumes "tree_ok m n" and "pos_ok m p" and "at_pos m (in_raw n) p \<noteq> 0"
  shows "data_block m (at_pos m (in_raw n) p)" "at_pos m (in_raw n) p \<noteq> inode_block m (in_num n)"
    "pos_ok m q \<Longrightarrow> at_pos m (in_raw n) q = at_pos m (in_raw n) p \<Longrightarrow> q = p"
proof -
  show "data_block m (at_pos m (in_raw n) p)" "at_pos m (in_raw n) p \<noteq> inode_block m (in_num n)"
    using assms unfolding tree_ok_def by blast+
  show "q = p" if "pos_ok m q" "at_pos m (in_raw n) q = at_pos m (in_raw n) p"
    using assms that unfolding tree_ok_def by metis
qed

text \<open>Allocation failure leaves everything as it is.\<close>

lemma alloc_fails:
  assumes "layout m" and "allocBlock grp m = (0, m')"
  shows "m' = m"
proof -
  have run: "alloc_block_from 0 grp m = (0, m')" using assms(2) by (simp add: allocBlock_def)
  then show ?thesis
    using alloc_block_from_correct [OF assms(1) run] take_block_correct(2) [OF assms(1)] free_block_data [OF assms(1)]
    by blast
qed

section \<open>Growing a file\<close>

text \<open>
  What an allocation step does: positions that had a block keep it, the data blocks keep their contents, a new data block
  holds zeros, and blocks outside the file are not touched.
\<close>

definition content :: "ext2 \<Rightarrow> u32 \<Rightarrow> bytes" where
  "content m b = (if b = 0 then replicate (unat (m_blockSize m)) 0 else readBlock m b)"

definition grows :: "ext2 \<Rightarrow> Ext2Inode \<Rightarrow> ext2 \<Rightarrow> Ext2Inode \<Rightarrow> bool" where
  "grows m n m' n' \<longleftrightarrow>
     keeps m m' \<and> file_inv m' n' \<and> in_num n' = in_num n
     \<and> i_size (in_raw n') = i_size (in_raw n) \<and> i_mode (in_raw n') = i_mode (in_raw n)
     \<and> (\<forall>p. pos_ok m p \<and> at_pos m (in_raw n) p \<noteq> 0 \<longrightarrow> at_pos m' (in_raw n') p = at_pos m (in_raw n) p)
     \<and> (\<forall>p. pos_ok m p \<and> is_leaf p \<longrightarrow> content m' (at_pos m' (in_raw n') p) = content m (at_pos m (in_raw n) p))
     \<and> (\<forall>c. data_block m c \<and> c \<noteq> inode_block m (in_num n) \<and> \<not> owns m n c
          \<longrightarrow> readBlock m' c = readBlock m c \<and> \<not> owns m' n' c)"

lemma grows_refl: "file_inv m n \<Longrightarrow> grows m n m n"
  by (simp add: grows_def file_inv_def keeps_refl)

lemma grows_trans:
  assumes "grows m n m1 n1" and "grows m1 n1 m2 n2" and "inode_ok m n"
  shows "grows m n m2 n2"
proof -
  have K: "keeps m m1" "keeps m1 m2" using assms by (simp_all add: grows_def)
  have P: "pos_ok m1 = pos_ok m" by (rule pos_ok_keeps [OF K(1)])
  have I: "inode_block m1 (in_num n1) = inode_block m (in_num n)" "in_num n1 = in_num n"
    using keeps_inode_place [OF K(1), of "in_num n"] assms(1,3) by (simp_all add: grows_def inode_ok_def)
  have out: "readBlock m2 c = readBlock m c \<and> \<not> owns m2 n2 c"
    if "data_block m c" "c \<noteq> inode_block m (in_num n)" "\<not> owns m n c" for c
    using assms(1,2) that keeps_data [OF K(1) that(1)] I unfolding grows_def by auto
  show ?thesis
    unfolding grows_def
    using assms(1,2) K keeps_trans [OF K] P out by (simp add: grows_def)
qed

text \<open>One new block at a position that had none.\<close>

lemma grows_step:
  assumes inv: "file_inv m n" and K: "keeps m m1" and num: "in_num n1 = in_num n"
    and iok: "inode_ok m1 n1" and sync: "readRawInode m1 (in_num n1) = in_raw n1"
    and meta: "i_size (in_raw n1) = i_size (in_raw n)" "i_mode (in_raw n1) = i_mode (in_raw n)"
    and p0: "pos_ok m p0" "at_pos m (in_raw n) p0 = 0"
    and q: "q \<in> free_blocks m" "data_block m1 q" "readBlock m1 q = replicate (unat (m_blockSize m)) 0"
    and at: "\<And>p. pos_ok m p \<Longrightarrow> at_pos m1 (in_raw n1) p = (if p = p0 then q else at_pos m (in_raw n) p)"
    and same: "\<And>c. data_block m c \<Longrightarrow> c \<noteq> inode_block m (in_num n) \<Longrightarrow>
      (\<And>p. pos_ok m p \<Longrightarrow> \<not> is_leaf p \<Longrightarrow> at_pos m (in_raw n) p \<noteq> c) \<Longrightarrow> readBlock m1 c = readBlock m c"
  shows "grows m n m1 n1"
proof -
  have P: "pos_ok m1 = pos_ok m" by (rule pos_ok_keeps [OF K])
  have tree: "tree_ok m n" and iok0: "inode_ok m n" and lay: "layout m" using inv by (simp_all add: file_inv_def)
  have I: "inode_block m1 (in_num n1) = inode_block m (in_num n)"
    using keeps_inode_place [OF K, of "in_num n"] iok0 by (simp add: num inode_ok_def)
  have q0: "q \<noteq> 0" using q(2) by (simp add: data_block_def)
  have notq: "c \<noteq> q" if "data_block m c" for c using that q(1) by (auto simp: data_block_def)
  have qi: "q \<noteq> inode_block m (in_num n)" using notq [of "inode_block m (in_num n)"] iok0 by (auto simp: inode_ok_def)
  have old: "at_pos m (in_raw n) p \<noteq> q" if "pos_ok m p" for p
    using tree_okD(1) [OF tree that] notq q0 by metis
  have tree1: "tree_ok m1 n1"
    unfolding tree_ok_def P I
  proof (intro conjI allI impI)
    fix p assume p: "pos_ok m p \<and> at_pos m1 (in_raw n1) p \<noteq> 0"
    show "data_block m1 (at_pos m1 (in_raw n1) p)"
      using p at [of p] q(2) tree_okD(1) [OF tree, of p] keeps_data [OF K, of "at_pos m (in_raw n) p"]
      by (cases "p = p0") auto
    show "at_pos m1 (in_raw n1) p \<noteq> inode_block m (in_num n)"
      using p at [of p] qi tree_okD(2) [OF tree, of p] by (cases "p = p0") auto
  next
    fix p r assume pr: "pos_ok m p \<and> pos_ok m r \<and> at_pos m1 (in_raw n1) p = at_pos m1 (in_raw n1) r \<and> at_pos m1 (in_raw n1) p \<noteq> 0"
    then have ok: "pos_ok m p" "pos_ok m r" by simp_all
    have eq: "(if p = p0 then q else at_pos m (in_raw n) p) = (if r = p0 then q else at_pos m (in_raw n) r)"
      and nz: "(if p = p0 then q else at_pos m (in_raw n) p) \<noteq> 0"
      using pr unfolding at [OF ok(1)] at [OF ok(2)] by blast+
    show "p = r"
    proof (cases "p = p0 \<or> r = p0")
      case True
      then show ?thesis using eq old [OF ok(1)] old [OF ok(2)] by (metis (full_types))
    next
      case False
      then have "at_pos m (in_raw n) p = at_pos m (in_raw n) r" "at_pos m (in_raw n) r \<noteq> 0" using eq nz by simp_all
      from tree_okD(3) [OF tree ok(2) this(2) ok(1) this(1)] show ?thesis .
    qed
  qed
  have leaf: "content m1 (at_pos m1 (in_raw n1) p) = content m (at_pos m (in_raw n) p)" if p: "pos_ok m p" "is_leaf p" for p
  proof (cases "p = p0 \<or> at_pos m (in_raw n) p = 0")
    case True
    then show ?thesis using at [OF p(1)] p0 q(3) q0 keeps_blockSize [OF K] by (auto simp: content_def)
  next
    case False
    let ?c = "at_pos m (in_raw n) p"
    have "readBlock m1 ?c = readBlock m ?c"
      using False tree_okD [OF tree p(1)] p(2) by (intro same) auto
    then show ?thesis using False at [OF p(1)] by (simp add: content_def)
  qed
  have out: "readBlock m1 c = readBlock m c \<and> \<not> owns m1 n1 c"
    if "data_block m c" "c \<noteq> inode_block m (in_num n)" "\<not> owns m n c" for c
  proof -
    have "at_pos m1 (in_raw n1) p \<noteq> c" if "pos_ok m p" for p
      using that at [OF that] notq [OF \<open>data_block m c\<close>] \<open>\<not> owns m n c\<close> unfolding owns_def by metis
    then show ?thesis using same [OF that(1,2)] that(3) unfolding owns_def P by blast
  qed
  have "file_inv m1 n1" using K tree1 iok sync by (simp add: file_inv_def keeps_def)
  moreover have "at_pos m1 (in_raw n1) p = at_pos m (in_raw n) p" if "pos_ok m p" "at_pos m (in_raw n) p \<noteq> 0" for p
    using at [OF that(1)] that(2) p0(2) by auto
  ultimately show ?thesis unfolding grows_def using K num meta leaf out by blast
qed

text \<open>A pointer in a pointer block of the file.\<close>

lemma follow_written:
  assumes "b \<noteq> 0" and "readBlock m1 b = put (readBlock m b) (4 * unat j) (le32 q)" and "geom m"
    and "j < ptrsPerBlock m" and "i < ptrsPerBlock m"
  shows "follow m1 b i = (if i = j then q else follow m b i)"
proof -
  have fits: "4 * unat j + 4 \<le> length (readBlock m b)" "4 * unat i + 4 \<le> length (readBlock m b)"
    using ptr_fits [OF assms(3)] assms(4,5) by (simp_all add: readBlock_length [OF assms(3)])
  show ?thesis
  proof (cases "i = j")
    case True
    then show ?thesis using assms(1,2) fits by (simp add: follow_def)
  next
    case False
    then have "unat i \<noteq> unat j" by (simp add: word_unat_eq_iff)
    then have "4 * unat i + 4 \<le> 4 * unat j \<or> 4 * unat j + length (le32 q) \<le> 4 * unat i" by simp arith
    then show ?thesis using False assms(1,2) fits by (simp add: follow_def rd32_put_other)
  qed
qed

lemma at_pos_after_ptr:
  assumes tree: "tree_ok m n" and geom: "geom m"
    and p0: "pos_ok m (k, ks @ [j])" and b: "at_pos m (in_raw n) (k, ks) = b" "b \<noteq> 0" and none: "follow m b j = 0"
    and wr: "readBlock m1 b = put (readBlock m b) (4 * unat j) (le32 q)"
    and zero: "readBlock m1 q = replicate (unat (m_blockSize m)) 0" 
    and same: "\<And>c. data_block m c \<Longrightarrow> c \<noteq> b \<Longrightarrow> readBlock m1 c = readBlock m c"
  shows "pos_ok m p \<Longrightarrow> at_pos m1 (in_raw n) p = (if p = (k, ks @ [j]) then q else at_pos m (in_raw n) p)"
proof (cases p)
  case (Pair k' js)
  have jb: "j < ptrsPerBlock m" and pb: "pos_ok m (k, ks)" using pos_ok_snoc [OF p0] by simp_all
  have "pos_ok m (k', js) \<Longrightarrow>
      at_pos m1 (in_raw n) (k', js) = (if (k', js) = (k, ks @ [j]) then q else at_pos m (in_raw n) (k', js))"
  proof (induction js rule: rev_induct)
    case (snoc i js)
    note S = pos_ok_snoc [OF snoc.prems]
    let ?c = "at_pos m (in_raw n) (k', js)"
    show ?case
    proof (cases "(k', js) = (k, ks @ [j])")
      case True
      have "follow m1 q i = 0" using follow_zeros [OF zero] ptr_fits [OF geom] S by blast
      moreover have "at_pos m1 (in_raw n) (k', js) = q" "?c = 0" using snoc.IH S True none b(1) by auto
      moreover have "(k', js @ [i]) \<noteq> (k, ks @ [j])" using True by auto
      ultimately show ?thesis by (simp only: at_pos_snoc follow_0 if_False)
    next
      case False
      then have IH: "at_pos m1 (in_raw n) (k', js) = ?c" using snoc.IH S by auto
      show ?thesis
      proof (cases "?c = b")
        case True
        then have "(k', js) = (k, ks)" using tree_okD(3) [OF tree pb, of "(k', js)"] b S by simp
        then show ?thesis using IH b follow_written [OF b(2) wr geom jb, of i] S by auto
      next
        case other: False
        then have ne: "(k', js @ [i]) \<noteq> (k, ks @ [j])" using b(1) by auto
        have "follow m1 ?c i = follow m ?c i"
          using same [of ?c] other tree_okD(1) [OF tree, of "(k', js)"] S by (auto simp: follow_def)
        then show ?thesis using IH ne by auto
      qed
    qed
  qed simp
  then show "pos_ok m p \<Longrightarrow> at_pos m1 (in_raw n) p = (if p = (k, ks @ [j]) then q else at_pos m (in_raw n) p)"
    using Pair by simp
qed

lemma grows_ensure_ptr:
  assumes inv: "file_inv m n" and p0: "pos_ok m (k, ks @ [j])"
    and b: "at_pos m (in_raw n) (k, ks) = b" "b \<noteq> 0" and run: "ensure_ptr grp b j m = (q, m1)"
  shows "grows m n m1 n" "q = 0 \<Longrightarrow> fst (allocBlock grp m1) = 0" "q \<noteq> 0 \<Longrightarrow> at_pos m1 (in_raw n) (k, ks @ [j]) = q"
proof -
  have lay: "layout m" and tree: "tree_ok m n" and iok: "inode_ok m n" and sync: "readRawInode m (in_num n) = in_raw n"
    using inv by (simp_all add: file_inv_def)
  have geom: "geom m" using lay by (simp add: layout_def)
  have jb: "j < ptrsPerBlock m" and pb: "pos_ok m (k, ks)" and nl: "\<not> is_leaf (k, ks)" using pos_ok_snoc [OF p0] by simp_all
  have db: "data_block m b" "b \<noteq> inode_block m (in_num n)" using tree_okD [OF tree pb] b by simp_all
  let ?buf = "readBlock m b"
  have rd: "rd32 ?buf (4 * unat j) = follow m b j" using b(2) by (simp add: follow_def)
  have "grows m n m1 n \<and> (q = 0 \<longrightarrow> fst (allocBlock grp m1) = 0) \<and> (q \<noteq> 0 \<longrightarrow> at_pos m1 (in_raw n) (k, ks @ [j]) = q)"
  proof (cases "follow m b j = 0")
    case False
    then have "q = follow m b j" "m1 = m" using run by (auto simp: ensure_ptr_def Let_def rd)
    then show ?thesis using grows_refl [OF inv] False b(1) by simp
  next
    case none: True
    obtain q' m' where al: "allocBlock grp m = (q', m')" by (cases "allocBlock grp m")
    show ?thesis
    proof (cases "q' = 0")
      case True
      then have "q = 0" "m1 = m" using run none al alloc_fails [OF lay] by (auto simp: ensure_ptr_def Let_def rd)
      then show ?thesis using grows_refl [OF inv] al True by simp
    next
      case False
      with none run al have q: "q' = q" "m1 = writeBlock b (put ?buf (4 * unat j) (le32 q)) m'"
        by (auto simp: ensure_ptr_def Let_def rd split: if_splits)
      note q0 = False [unfolded q(1)]
      note A = alloc_keeps [OF lay al [unfolded q(1)] q0]
      have len: "length (put ?buf (4 * unat j) (le32 q)) = unat (m_blockSize m')"
        using ptr_fits [OF geom jb] keeps_blockSize [OF A(1)] by (simp add: readBlock_length [OF geom])
      have lay': "layout m'" using A(1) by (simp add: keeps_def)
      note W = write_keeps [OF lay' keeps_data [OF A(1) db(1)] len, folded q(2)]
      note K = keeps_trans [OF A(1) W(1)]
      have qb: "q \<noteq> b" using A(3) db by (auto simp: data_block_def)
      have zero: "readBlock m1 q = replicate (unat (m_blockSize m)) 0"
        using W(4) [of q] A(2,4) qb by (simp add: data_block_def)
      have same: "readBlock m1 c = readBlock m c" if "data_block m c" "c \<noteq> b" for c
        using W(4) [of c] A(5) [OF that(1)] keeps_data [OF A(1) that(1)] that(2) by (simp add: data_block_def)
      note at = at_pos_after_ptr [OF tree geom p0 b none W(2) zero same]
      have ib: "readBlock m1 (inode_block m (in_num n)) = readBlock m (inode_block m (in_num n))"
        using same db(2) iok by (simp add: inode_ok_def)
      have sync1: "readRawInode m1 (in_num n) = in_raw n"
        using sync keeps_inode_place [OF K, of "in_num n"] iok ib by (simp add: readRawInode_def inode_ok_def)
      have iok1: "inode_ok m1 n" using keeps_inode_ok [OF K iok _ refl] iok by (simp add: inode_ok_def)
      have "grows m n m1 n"
      proof (rule grows_step [OF inv K refl iok1 sync1 refl refl p0])
        show "at_pos m (in_raw n) (k, ks @ [j]) = 0" using none b(1) by simp
        show "q \<in> free_blocks m" "data_block m1 q" by (fact A(3), rule keeps_data [OF W(1) A(2)])
        show "readBlock m1 q = replicate (unat (m_blockSize m)) 0" by (fact zero)
        show "at_pos m1 (in_raw n) p = (if p = (k, ks @ [j]) then q else at_pos m (in_raw n) p)" if "pos_ok m p" for p
          by (rule at [OF _ _ that])
        show "readBlock m1 c = readBlock m c"
          if "data_block m c" "\<And>p. pos_ok m p \<Longrightarrow> \<not> is_leaf p \<Longrightarrow> at_pos m (in_raw n) p \<noteq> c" for c
          using same [OF that(1)] that(2) [OF pb nl] b(1) by blast
      qed
      then show ?thesis using q0 at [OF _ _ p0] by simp
    qed
  qed
  then show "grows m n m1 n" "q = 0 \<Longrightarrow> fst (allocBlock grp m1) = 0" "q \<noteq> 0 \<Longrightarrow> at_pos m1 (in_raw n) (k, ks @ [j]) = q"
    by blast+
qed

text \<open>A pointer in the inode itself.\<close>

lemma le32_rd32:
  assumes "o' + 4 \<le> length bs"
  shows "le32 (rd32 bs o') = sub_bytes bs o' 4"
proof -
  have eqs: "ucast (rd32 bs o') = bs ! o'" "ucast (drop_bit 8 (rd32 bs o')) = bs ! (o' + 1)"
    "ucast (drop_bit 16 (rd32 bs o')) = bs ! (o' + 2)" "ucast (drop_bit 24 (rd32 bs o')) = bs ! (o' + 3)"
    unfolding rd32_def by (rule bit_word_eqI; auto simp: bit_simps dest: bit_imp_le_length)+
  have "i < 4 \<Longrightarrow> sub_bytes bs o' 4 ! i = bs ! (o' + i)" for i using assms by (simp add: sub_bytes_def)
  moreover have "le32 (rd32 bs o') ! i = bs ! (o' + i)" if "i < 4" for i
  proof -
    have "i = 0 \<or> i = 1 \<or> i = 2 \<or> i = 3" using that by arith
    then show ?thesis using eqs by (elim disjE) (simp_all add: le32_def)
  qed
  ultimately have "le32 (rd32 bs o') ! i = sub_bytes bs o' 4 ! i" if "i < 4" for i using that by simp
  then show ?thesis using assms by (intro nth_equalityI) auto
qed

lemma put_sub_bytes: "o' + k \<le> length bs \<Longrightarrow> put bs o' (sub_bytes bs o' k) = bs"
  by (simp add: put_def sub_bytes_def) (metis append_take_drop_id take_add append.assoc add.commute)

lemma put_rd32_same: "o' + 4 \<le> length bs \<Longrightarrow> rd32 bs o' = v \<Longrightarrow> put bs o' (le32 v) = bs"
  using le32_rd32 [of o' bs] put_sub_bytes [of o' 4 bs] by auto

lemma raw_fields_set_block:
  assumes "length raw = 128" and "k < 15"
  shows "i_size (set_i_block k v raw) = i_size raw" "i_mode (set_i_block k v raw) = i_mode raw"
  using assms by (simp_all add: i_size_def i_mode_def set_i_block_def rd32_put_other rd16_put_other)

lemma at_pos_after_root:
  assumes tree: "tree_ok m n" and geom: "geom m" and k: "k < 15" and raw: "length (in_raw n) = 128"
    and none: "i_block (in_raw n) k = 0" and zero: "readBlock m1 q = replicate (unat (m_blockSize m)) 0"
    and same: "\<And>c. data_block m c \<Longrightarrow> c \<noteq> inode_block m (in_num n) \<Longrightarrow> readBlock m1 c = readBlock m c"
  shows "pos_ok m p \<Longrightarrow>
    at_pos m1 (set_i_block k q (in_raw n)) p = (if p = (k, []) then q else at_pos m (in_raw n) p)"
proof (cases p)
  case (Pair k' js)
  let ?raw = "set_i_block k q (in_raw n)"
  have "pos_ok m (k', js) \<Longrightarrow> at_pos m1 ?raw (k', js) = (if (k', js) = (k, []) then q else at_pos m (in_raw n) (k', js))"
  proof (induction js rule: rev_induct)
    case Nil
    then show ?case using i_block_set(1) [OF raw k, of k' q] by (simp add: pos_ok_def)
  next
    case (snoc i js)
    note S = pos_ok_snoc [OF snoc.prems]
    let ?c = "at_pos m (in_raw n) (k', js)"
    show ?case
    proof (cases "(k', js) = (k, [])")
      case True
      have "follow m1 q i = 0" using follow_zeros [OF zero] ptr_fits [OF geom] S by blast
      moreover have "at_pos m1 ?raw (k', js) = q" "?c = 0" using snoc.IH S True none by auto
      ultimately show ?thesis by simp
    next
      case False
      then have "at_pos m1 ?raw (k', js) = ?c" using snoc.IH S by auto
      moreover have "follow m1 ?c i = follow m ?c i"
        using same [of ?c] tree_okD(1,2) [OF tree, of "(k', js)"] S by (auto simp: follow_def)
      ultimately show ?thesis by simp
    qed
  qed
  then show "pos_ok m p \<Longrightarrow> at_pos m1 ?raw p = (if p = (k, []) then q else at_pos m (in_raw n) p)" using Pair by simp
qed

lemma grows_ensure_root:
  assumes inv: "file_inv m n" and k: "k < 15" and run: "ensure_root grp k n m = (q, n1, m1)"
  shows "grows m n m1 n1" "q = 0 \<Longrightarrow> fst (allocBlock grp m1) = 0" "i_block (in_raw n1) k = q"
proof -
  have lay: "layout m" and tree: "tree_ok m n" and iok: "inode_ok m n" and sync: "readRawInode m (in_num n) = in_raw n"
    using inv by (simp_all add: file_inv_def)
  have geom: "geom m" using lay by (simp add: layout_def)
  have raw: "length (in_raw n) = 128" using iok by (simp add: inode_ok_def)
  note I = i_block_set [OF raw k k]
  have "grows m n m1 n1 \<and> (q = 0 \<longrightarrow> fst (allocBlock grp m1) = 0) \<and> i_block (in_raw n1) k = q"
  proof (cases "i_block (in_raw n) k = 0")
    case False
    then show ?thesis using run grows_refl [OF inv] by (auto simp: ensure_root_def)
  next
    case none: True
    obtain q' m' where al: "allocBlock grp m = (q', m')" by (cases "allocBlock grp m")
    show ?thesis
    proof (cases "q' = 0")
      case True
      have "set_i_block k 0 (in_raw n) = in_raw n"
        using none raw k by (simp add: set_i_block_def i_block_def put_rd32_same)
      then have "q = 0" "m1 = m" "n1 = n"
        using run none al True alloc_fails [OF lay] by (auto simp: ensure_root_def Let_def)
      then show ?thesis using grows_refl [OF inv] al True none by simp
    next
      case False
      with none run al have q: "q' = q" and n1: "n1 = n\<lparr>in_raw := set_i_block k q (in_raw n)\<rparr>"
        and m1: "m1 = writeRawInode (in_num n1) (in_raw n1) m'"
        by (auto simp: ensure_root_def Let_def split: if_splits)
      note q0 = False [unfolded q]
      note A = alloc_keeps [OF lay al [unfolded q] q0]
      have lay': "layout m'" using A(1) by (simp add: keeps_def)
      have iok': "inode_ok m' n1" using keeps_inode_ok [OF A(1) iok, of n1] I(2) by (simp add: n1)
      note W = writeRawInode_correct [OF lay' iok', folded m1]
      note K = keeps_trans [OF A(1) W(1)]
      have place: "inode_block m' (in_num n1) = inode_block m (in_num n)"
        using keeps_inode_place [OF A(1), of "in_num n"] iok by (simp add: n1 inode_ok_def)
      have qi: "q \<noteq> inode_block m (in_num n)" using A(3) iok by (auto simp: inode_ok_def data_block_def)
      have zero: "readBlock m1 q = replicate (unat (m_blockSize m)) 0"
        using W(4) [of q] place qi A(2,4) by (simp add: data_block_def)
      have same: "readBlock m1 c = readBlock m c" if "data_block m c" "c \<noteq> inode_block m (in_num n)" for c
        using W(4) [of c] place that A(5) keeps_data [OF A(1) that(1)] by (simp add: data_block_def)
      note at = at_pos_after_root [OF tree geom k raw none zero same]
      have pk: "pos_ok m (k, [])" using k by (simp add: pos_ok_def)
      have raw1: "in_raw n1 = set_i_block k q (in_raw n)" "in_num n1 = in_num n" by (simp_all add: n1)
      have iok1: "inode_ok m1 n1" using keeps_inode_ok [OF K iok, of n1] I(2) by (simp add: n1)
      have "grows m n m1 n1"
      proof (rule grows_step [OF inv K raw1(2) iok1 W(2) _ _ pk])
        show "i_size (in_raw n1) = i_size (in_raw n)" "i_mode (in_raw n1) = i_mode (in_raw n)"
          using raw_fields_set_block [OF raw k] by (simp_all add: raw1)
        show "at_pos m (in_raw n) (k, []) = 0" using none by simp
        show "q \<in> free_blocks m" "data_block m1 q" by (fact A(3), rule keeps_data [OF W(1) A(2)])
        show "readBlock m1 q = replicate (unat (m_blockSize m)) 0" by (fact zero)
        show "at_pos m1 (in_raw n1) p = (if p = (k, []) then q else at_pos m (in_raw n) p)" if "pos_ok m p" for p
          unfolding raw1 by (rule at [OF _ _ that])
        show "readBlock m1 c = readBlock m c" if "data_block m c" "c \<noteq> inode_block m (in_num n)" for c
          by (rule same [OF that])
      qed
      then show ?thesis using q0 I(1) by (simp add: raw1)
    qed
  qed
  then show "grows m n m1 n1" "q = 0 \<Longrightarrow> fst (allocBlock grp m1) = 0" "i_block (in_raw n1) k = q" by blast+
qed

lemma grows_inv: "grows m n m' n' \<Longrightarrow> file_inv m' n'"
  by (simp add: grows_def)

lemma grows_keeps: "grows m n m' n' \<Longrightarrow> keeps m m'"
  by (simp add: grows_def)

lemma file_inv_inode: "file_inv m n \<Longrightarrow> inode_ok m n"
  by (simp add: file_inv_def)

lemma grows_ensure_path:
  "file_inv m n \<Longrightarrow> pos_ok m (k, pre @ ks) \<Longrightarrow> at_pos m (in_raw n) (k, pre) = b \<Longrightarrow> b \<noteq> 0 \<Longrightarrow>
   ensure_path grp b ks m = (q, m') \<Longrightarrow>
   grows m n m' n \<and> (q = 0 \<longrightarrow> fst (allocBlock grp m') = 0) \<and> (q \<noteq> 0 \<longrightarrow> at_pos m' (in_raw n) (k, pre @ ks) = q)"
proof (induction ks arbitrary: b m pre)
  case Nil
  then show ?case using grows_refl by auto
next
  case (Cons j ks)
  obtain b' m1 where e: "ensure_ptr grp b j m = (b', m1)" by (cases "ensure_ptr grp b j m")
  with Cons.prems have rest: "ensure_path grp b' ks m1 = (q, m')" by simp
  have pj: "pos_ok m (k, pre @ [j])" using Cons.prems(2) by (simp add: pos_ok_def)
  note E = grows_ensure_ptr [OF Cons.prems(1) pj Cons.prems(3,4) e]
  show ?case
  proof (cases "b' = 0")
    case True
    then have "q = 0" "m' = m1" using rest by (cases ks; simp)+
    then show ?thesis using E True by simp
  next
    case False
    have "pos_ok m1 (k, (pre @ [j]) @ ks)" using Cons.prems(2) pos_ok_keeps [OF grows_keeps [OF E(1)]] by simp
    from Cons.IH [OF grows_inv [OF E(1)] this E(3) [OF False] False rest]
    show ?thesis using grows_trans [OF E(1) _ file_inv_inode [OF Cons.prems(1)]] by simp
  qed
qed

section \<open>Logical blocks\<close>

lemma block_path_leaf:
  assumes "geom m" and "block_path m logical = Some (k, ks)"
  shows "pos_ok m (k, ks)" "is_leaf (k, ks)"
proof -
  have "length ks = slot_depth k"
    using assms(2) by (auto simp: block_path_def slot_depth_def Let_def word_less_nat_alt split: if_splits)
  then show "pos_ok m (k, ks)" "is_leaf (k, ks)"
    using block_path_range [OF assms] by (simp_all add: pos_ok_def is_leaf_def)
qed

lemma word_div_mod_inj:
  fixes x y p :: u32
  assumes "x div p = y div p" and "x mod p = y mod p"
  shows "x = y"
proof -
  have "unat x div unat p * unat p + unat x mod unat p = unat y div unat p * unat p + unat y mod unat p"
    using arg_cong [OF assms(1), of unat] arg_cong [OF assms(2), of unat] by (simp add: unat_div unat_mod)
  then have "unat x = unat y" by simp
  then show ?thesis by (simp add: word_unat_eq_iff)
qed

lemma block_path_inj:
  assumes geom: "geom m" and "block_path m x = Some p" and "block_path m y = Some p"
  shows "x = y"
proof -
  let ?p = "ptrsPerBlock m"
  have pm: "(l mod (?p * ?p)) mod ?p = l mod ?p" for l
    using unat_ptrs(1) [OF geom] by (simp add: word_unat_eq_iff unat_mod mod_mult2_eq)
  have three: "l = l'" if "l div (?p * ?p) = l' div (?p * ?p)" "(l mod (?p * ?p)) div ?p = (l' mod (?p * ?p)) div ?p"
    "l mod ?p = l' mod ?p" for l l'
    using word_div_mod_inj [OF that(1)] word_div_mod_inj [OF that(2)] that(3) pm by simp
  have forms: "(k = unat z \<and> k < 12) \<or> (k = 12 \<and> ks = [z - 12])
      \<or> (k = 13 \<and> ks = [(z - 12 - ?p) div ?p, (z - 12 - ?p) mod ?p])
      \<or> (k = 14 \<and> ks = [(z - 12 - ?p - ?p * ?p) div (?p * ?p), ((z - 12 - ?p - ?p * ?p) mod (?p * ?p)) div ?p,
           (z - 12 - ?p - ?p * ?p) mod ?p])" if "block_path m z = Some (k, ks)" for z k ks
    using that by (auto simp: block_path_def Let_def word_less_nat_alt split: if_splits)
  obtain k ks where p: "p = (k, ks)" by (cases p)
  note F = forms [OF assms(2) [unfolded p]] forms [OF assms(3) [unfolded p]]
  consider "k < 12" | "k = 12" | "k = 13" | "k = 14" using F(1) by blast
  then show ?thesis
  proof cases
    case 1
    then have "unat x = unat y" using F by auto
    then show ?thesis by (simp add: word_unat_eq_iff)
  next
    case 2
    then show ?thesis using F by auto
  next
    case 3
    then have "(x - 12 - ?p) div ?p = (y - 12 - ?p) div ?p" "(x - 12 - ?p) mod ?p = (y - 12 - ?p) mod ?p" using F by auto
    from word_div_mod_inj [OF this] show ?thesis by simp
  next
    case 4
    let ?l = "\<lambda>z. z - 12 - ?p - ?p * ?p"
    have "?l x div (?p * ?p) = ?l y div (?p * ?p)" "(?l x mod (?p * ?p)) div ?p = (?l y mod (?p * ?p)) div ?p"
      "?l x mod ?p = ?l y mod ?p" using F 4 by auto
    from three [OF this] show ?thesis by simp
  qed
qed

lemma block_path_total:
  assumes geom: "geom m"
    and "unat l < 12 + unat (ptrsPerBlock m) + unat (ptrsPerBlock m) ^ 2 + unat (ptrsPerBlock m) ^ 3"
  shows "block_path m l \<noteq> None"
proof
  let ?p = "ptrsPerBlock m"
  note U = unat_ptrs [OF geom]
  assume none: "block_path m l = None"
  have f1: "\<not> l < 12" and f2: "\<not> l - 12 < ?p" and f3: "\<not> l - 12 - ?p < ?p * ?p"
    and f4: "\<not> l - 12 - ?p - ?p * ?p < ?p * (?p * ?p)"
    using none by (auto simp: block_path_def Let_def split: if_splits)
  have u1: "unat (l - 12) = unat l - 12" "12 \<le> unat l" using f1 by (simp_all add: unat_sub word_le_nat_alt word_less_nat_alt)
  have u2: "unat (l - 12 - ?p) = unat l - 12 - unat ?p" "unat ?p \<le> unat l - 12"
    using f2 u1 by (simp_all add: unat_sub word_le_nat_alt word_less_nat_alt)
  have u3: "unat (l - 12 - ?p - ?p * ?p) = unat l - 12 - unat ?p - unat ?p * unat ?p" "unat ?p * unat ?p \<le> unat l - 12 - unat ?p"
    using f3 u2 U(1) by (simp_all add: unat_sub word_le_nat_alt word_less_nat_alt)
  have "unat ?p * (unat ?p * unat ?p) \<le> unat l - 12 - unat ?p - unat ?p * unat ?p"
    using f4 u3(1) U(2) by (simp add: word_less_nat_alt)
  moreover have "0 < unat ?p * (unat ?p * unat ?p)" using U(3) by simp
  ultimately show False using assms(2) u1(2) u2(2) u3(2) by (simp add: power2_eq_square power3_eq_cube)
qed

lemma grows_blockMapAlloc:
  assumes inv: "file_inv m n" and path: "block_path m logical = Some p" and run: "blockMapAlloc logical n m = (q, n', m')"
  shows "grows m n m' n'" "q = 0 \<Longrightarrow> fst (allocBlock (inode_group m (in_num n)) m') = 0"
    "q \<noteq> 0 \<Longrightarrow> at_pos m' (in_raw n') p = q"
proof -
  obtain k ks where p: "p = (k, ks)" by (cases p)
  let ?grp = "inode_group m (in_num n)"
  have geom: "geom m" using inv by (simp add: file_inv_def layout_def)
  note L = block_path_leaf [OF geom path [unfolded p]]
  obtain b n1 m1 where root: "ensure_root ?grp k n m = (b, n1, m1)" by (cases "ensure_root ?grp k n m") auto
  with run path have n': "n' = n1" and ep: "ensure_path ?grp b ks m1 = (q, m')"
    by (auto simp: p blockMapAlloc_path ensure_tree_def split: prod.splits)
  have k: "k < 15" using L(1) by (simp add: pos_ok_def)
  note R = grows_ensure_root [OF inv k root]
  have "grows m n m' n' \<and> (q = 0 \<longrightarrow> fst (allocBlock ?grp m') = 0) \<and> (q \<noteq> 0 \<longrightarrow> at_pos m' (in_raw n') p = q)"
  proof (cases "b = 0")
    case True
    then have "q = 0" "m' = m1" using ep by (cases ks; simp)+
    then show ?thesis using R True n' by simp
  next
    case False
    have "pos_ok m1 (k, [] @ ks)" using L(1) pos_ok_keeps [OF grows_keeps [OF R(1)]] by simp
    from grows_ensure_path [OF grows_inv [OF R(1)] this _ False ep] R(3)
    show ?thesis using grows_trans [OF R(1) _ file_inv_inode [OF inv]] n' p by simp
  qed
  then show "grows m n m' n'" "q = 0 \<Longrightarrow> fst (allocBlock ?grp m') = 0" "q \<noteq> 0 \<Longrightarrow> at_pos m' (in_raw n') p = q"
    by blast+
qed

text \<open>The contents of a logical block.\<close>

definition lblock :: "ext2 \<Rightarrow> bytes \<Rightarrow> nat \<Rightarrow> bytes" where
  "lblock m raw l = content m (file_blocks m raw ! l)"

definition in_file :: "ext2 \<Rightarrow> nat \<Rightarrow> bool" where
  "in_file m l \<longleftrightarrow>
     l < 12 + unat (ptrsPerBlock m) + unat (ptrsPerBlock m) ^ 2 + unat (ptrsPerBlock m) ^ 3"

lemma in_file_bound: "geom m \<Longrightarrow> in_file m l \<Longrightarrow> l < 2 ^ 32"
  using unat_ptrs(3,4) [of m] ptrs_cases [of m] by (auto simp: in_file_def)

lemma file_blocks_at:
  assumes "geom m" and "in_file m (unat l)"
  shows "\<exists>p. block_path m l = Some p \<and> pos_ok m p \<and> is_leaf p \<and> file_blocks m raw ! unat l = at_pos m raw p"
proof -
  obtain k ks where p: "block_path m l = Some (k, ks)"
    using block_path_total [OF assms(1), of l] assms(2) by (auto simp: in_file_def)
  then show ?thesis
    using blockMap_path [OF assms(1) p, of raw] blockMap_flat [OF assms(1), of l raw] assms(2) block_path_leaf [OF assms(1) p]
    by (simp add: in_file_def at_pos_def)
qed

declare split_paired_All [simp del] split_paired_Ex [simp del]

lemma grows_lblock:
  assumes "grows m n m' n'" and geom: "geom m" and l: "in_file m l"
  shows "lblock m' (in_raw n') l = lblock m (in_raw n) l"
    "file_blocks m (in_raw n) ! l \<noteq> 0 \<Longrightarrow> file_blocks m' (in_raw n') ! l = file_blocks m (in_raw n) ! l"
proof -
  have K: "keeps m m'" using assms(1) by (simp add: grows_def)
  have geom': "geom m'" using K by (simp add: keeps_def layout_def)
  define w :: u32 where "w = of_nat l"
  have w: "unat w = l" using in_file_bound [OF geom l] by (simp add: w_def unat_of_nat take_bit_nat_eq_self)
  have l': "in_file m' (unat w)" using l w keeps_ptrs [OF K] by (simp add: in_file_def)
  have path: "block_path m' w = block_path m w" using keeps_ptrs [OF K] by (simp add: block_path_def)
  obtain p where p: "pos_ok m p" "is_leaf p" "file_blocks m (in_raw n) ! l = at_pos m (in_raw n) p"
    "file_blocks m' (in_raw n') ! l = at_pos m' (in_raw n') p"
    using file_blocks_at [OF geom, of w "in_raw n"] file_blocks_at [OF geom' l', of "in_raw n'"] l w path by auto
  show "lblock m' (in_raw n') l = lblock m (in_raw n) l" using p assms(1) by (simp add: lblock_def grows_def)
  show "file_blocks m' (in_raw n') ! l = file_blocks m (in_raw n) ! l" if "file_blocks m (in_raw n) ! l \<noteq> 0"
    using p assms(1) that by (simp add: grows_def)
qed

section \<open>Writing data\<close>

text \<open>What every operation on one file does to the rest of the file system.\<close>

definition file_step :: "ext2 \<Rightarrow> Ext2Inode \<Rightarrow> ext2 \<Rightarrow> Ext2Inode \<Rightarrow> bool" where
  "file_step m n m' n' \<longleftrightarrow>
     keeps m m' \<and> file_inv m' n' \<and> in_num n' = in_num n
     \<and> i_size (in_raw n') = i_size (in_raw n) \<and> i_mode (in_raw n') = i_mode (in_raw n)
     \<and> (\<forall>c. data_block m c \<and> c \<noteq> inode_block m (in_num n) \<and> \<not> owns m n c
          \<longrightarrow> readBlock m' c = readBlock m c \<and> \<not> owns m' n' c)"

lemma file_step_refl: "file_inv m n \<Longrightarrow> file_step m n m n"
  by (simp add: file_step_def file_inv_def keeps_refl)

lemma grows_file_step: "grows m n m' n' \<Longrightarrow> file_step m n m' n'"
  by (simp add: grows_def file_step_def)

lemma file_step_trans:
  assumes "file_step m n m1 n1" and "file_step m1 n1 m2 n2" and "inode_ok m n"
  shows "file_step m n m2 n2"
proof -
  have K: "keeps m m1" "keeps m1 m2" using assms by (simp_all add: file_step_def)
  have I: "inode_block m1 (in_num n1) = inode_block m (in_num n)"
    using keeps_inode_place [OF K(1), of "in_num n"] assms(1,3) by (simp add: file_step_def inode_ok_def)
  have out: "readBlock m2 c = readBlock m c \<and> \<not> owns m2 n2 c"
    if "data_block m c" "c \<noteq> inode_block m (in_num n)" "\<not> owns m n c" for c
    using assms(1,2) that keeps_data [OF K(1) that(1)] I unfolding file_step_def by auto
  show ?thesis using assms(1,2) keeps_trans [OF K] out by (auto simp: file_step_def)
qed

lemma write_leaf:
  fixes l :: u32
  assumes inv: "file_inv m n" and l: "in_file m (unat l)" and b: "file_blocks m (in_raw n) ! unat l = b" "b \<noteq> 0"
    and len: "length buf = unat (m_blockSize m)"
  defines "m' \<equiv> writeBlock b buf m"
  shows "file_step m n m' n"
    "in_file m j \<Longrightarrow> lblock m' (in_raw n) j = (if j = unat l then buf else lblock m (in_raw n) j)"
    "in_file m j \<Longrightarrow> file_blocks m' (in_raw n) ! j = file_blocks m (in_raw n) ! j"
proof -
  have lay: "layout m" and tree: "tree_ok m n" and iok: "inode_ok m n" and sync: "readRawInode m (in_num n) = in_raw n"
    using inv by (simp_all add: file_inv_def)
  have geom: "geom m" using lay by (simp add: layout_def)
  obtain p where p: "block_path m l = Some p" "pos_ok m p" "is_leaf p" "at_pos m (in_raw n) p = b"
    using file_blocks_at [OF geom l, of "in_raw n"] b(1) by auto
  have db: "data_block m b" "b \<noteq> inode_block m (in_num n)" using tree_okD [OF tree p(2)] p(4) b(2) by auto
  note W = write_keeps [OF lay db(1) len, folded m'_def]
  have P: "pos_ok m' = pos_ok m" by (rule pos_ok_keeps [OF W(1)])
  have geom': "geom m'" using W(1) by (simp add: keeps_def layout_def)
  have same: "readBlock m' c = readBlock m c" if "data_block m c" "c \<noteq> b" for c
    using W(4) that by (simp add: data_block_def)
  have at: "at_pos m' (in_raw n) r = at_pos m (in_raw n) r" if r: "pos_ok m r" for r
  proof -
    obtain k js where "r = (k, js)" by (cases r)
    moreover have "pos_ok m (k, js) \<Longrightarrow> at_pos m' (in_raw n) (k, js) = at_pos m (in_raw n) (k, js)"
    proof (induction js rule: rev_induct)
      case (snoc i js)
      note S = pos_ok_snoc [OF snoc.prems]
      let ?c = "at_pos m (in_raw n) (k, js)"
      have "?c \<noteq> b" using tree_okD(3) [OF tree p(2), of "(k, js)"] p(3,4) b(2) S by auto
      then have "follow m' ?c i = follow m ?c i"
        using same [of ?c] tree_okD(1) [OF tree, of "(k, js)"] S by (auto simp: follow_def)
      then show ?case using snoc.IH S by simp
    qed simp
    ultimately show ?thesis using r by simp
  qed
  have I: "inode_block m' (in_num n) = inode_block m (in_num n)"
    using keeps_inode_place [OF W(1), of "in_num n"] iok by (simp add: inode_ok_def)
  have "tree_ok m' n"
    unfolding tree_ok_def P I using at keeps_data [OF W(1)] tree_okD [OF tree] by metis
  moreover have "readRawInode m' (in_num n) = in_raw n"
    using sync keeps_inode_place [OF W(1), of "in_num n"] iok same [of "inode_block m (in_num n)"] db(2)
    by (simp add: readRawInode_def inode_ok_def)
  moreover have "inode_ok m' n" using keeps_inode_ok [OF W(1) iok _ refl] iok by (simp add: inode_ok_def)
  moreover have "owns m' n c = owns m n c" for c using at unfolding owns_def P by metis
  moreover have "\<not> owns m n c \<Longrightarrow> c \<noteq> b" for c using p(2,4) unfolding owns_def by metis
  ultimately show "file_step m n m' n" using W(1) same by (auto simp: file_step_def file_inv_def keeps_def)
  have blk: "\<exists>r. block_path m (of_nat j) = Some r \<and> pos_ok m r \<and> unat (of_nat j :: u32) = j
      \<and> file_blocks m (in_raw n) ! j = at_pos m (in_raw n) r \<and> file_blocks m' (in_raw n) ! j = at_pos m (in_raw n) r"
    if j: "in_file m j" for j
  proof -
    define w :: u32 where "w = of_nat j"
    have w: "unat w = j" using in_file_bound [OF geom j] by (simp add: w_def unat_of_nat take_bit_nat_eq_self)
    obtain r where r: "block_path m w = Some r" "pos_ok m r" "file_blocks m (in_raw n) ! j = at_pos m (in_raw n) r"
      using file_blocks_at [OF geom, of w "in_raw n"] j w by auto
    have "in_file m' (unat w)" "block_path m' w = block_path m w"
      using j w keeps_ptrs [OF W(1)] by (simp_all add: in_file_def block_path_def)
    then have "file_blocks m' (in_raw n) ! j = at_pos m (in_raw n) r"
      using file_blocks_at [OF geom', of w "in_raw n"] r(1) w at [OF r(2)] by auto
    then show ?thesis using r w by (auto simp: w_def)
  qed
  then show "in_file m j \<Longrightarrow> file_blocks m' (in_raw n) ! j = file_blocks m (in_raw n) ! j" by metis
  show "lblock m' (in_raw n) j = (if j = unat l then buf else lblock m (in_raw n) j)" if j: "in_file m j"
  proof -
    define w :: u32 where "w = of_nat j"
    obtain r where w: "unat w = j" and r: "block_path m w = Some r" "pos_ok m r" "file_blocks m (in_raw n) ! j = at_pos m (in_raw n) r"
      and fb: "file_blocks m' (in_raw n) ! j = at_pos m (in_raw n) r"
      using blk [OF j] unfolding w_def by auto
    show ?thesis
    proof (cases "j = unat l")
      case True
      then have "w = l" using w by (simp add: word_unat_eq_iff)
      then have "r = p" using r(1) p(1) by simp
      then show ?thesis using True fb p(4) b(2) W(2) by (simp add: lblock_def content_def)
    next
      case False
      have "at_pos m (in_raw n) r \<noteq> b"
      proof
        assume "at_pos m (in_raw n) r = b"
        then have "r = p" using tree_okD(3) [OF tree p(2), of r] r(2) p(4) b(2) by simp
        then show False using block_path_inj [OF geom r(1), of l] p(1) False w by simp
      qed
      then have "content m' (at_pos m (in_raw n) r) = content m (at_pos m (in_raw n) r)"
        using same tree_okD(1) [OF tree r(2)] keeps_blockSize [OF W(1)] by (simp add: content_def)
      then show ?thesis using False fb r(3) by (simp add: lblock_def)
    qed
  qed
qed

lemma file_byte_lblock:
  assumes "geom m"
  shows "file_byte m raw i = lblock m raw (i div unat (m_blockSize m)) ! (i mod unat (m_blockSize m))"
  using bs_pos [OF assms] by (simp add: file_byte_def lblock_def content_def Let_def)

lemma length_content: "geom m \<Longrightarrow> length (content m b) = unat (m_blockSize m)"
  by (simp add: content_def readBlock_length)

lemma in_file_byte: "geom m \<Longrightarrow> i < 2 ^ 32 \<Longrightarrow> in_file m (i div unat (m_blockSize m))"
  using logical_range unfolding in_file_def by blast

lemma grows_bytes:
  assumes "grows m n m' n'" and "geom m" and "i < 2 ^ 32"
  shows "file_byte m' (in_raw n') i = file_byte m (in_raw n) i"
proof -
  have K: "keeps m m'" by (rule grows_keeps [OF assms(1)])
  then have "geom m'" by (simp add: keeps_def layout_def)
  then show ?thesis
    using grows_lblock(1) [OF assms(1,2) in_file_byte [OF assms(2,3)]] keeps_blockSize [OF K] assms(2)
    by (simp add: file_byte_lblock)
qed

text \<open>Writing a piece of one block.\<close>

lemma write_piece:
  fixes l :: u32
  assumes inv: "file_inv m n" and l: "in_file m (unat l)" and b: "file_blocks m (in_raw n) ! unat l = b" "b \<noteq> 0"
    and fits: "o' + length v \<le> unat (m_blockSize m)"
  defines "m' \<equiv> writeBlock b (put (readBlock m b) o' v) m" and "s \<equiv> unat l * unat (m_blockSize m) + o'"
  shows "file_step m n m' n"
    "i < 2 ^ 32 \<Longrightarrow> file_byte m' (in_raw n) i =
      (if s \<le> i \<and> i < s + length v then v ! (i - s) else file_byte m (in_raw n) i)"
proof -
  have geom: "geom m" using inv by (simp add: file_inv_def layout_def)
  let ?B = "unat (m_blockSize m)"
  have rl: "length (readBlock m b) = ?B" by (rule readBlock_length [OF geom])
  have len: "length (put (readBlock m b) o' v) = ?B" using fits rl by simp
  note W = write_leaf [OF inv l b len, folded m'_def]
  show "file_step m n m' n" by (rule W(1))
  have K: "keeps m m'" using W(1) by (simp add: file_step_def)
  have geom': "geom m'" using K by (simp add: keeps_def layout_def)
  have old: "lblock m (in_raw n) (unat l) = readBlock m b" using b by (simp add: lblock_def content_def)
  show "file_byte m' (in_raw n) i = (if s \<le> i \<and> i < s + length v then v ! (i - s) else file_byte m (in_raw n) i)"
    if i: "i < 2 ^ 32"
  proof (cases "i div ?B = unat l")
    case True
    have mB: "i mod ?B < ?B" using bs_pos [OF geom] by simp
    have eq: "i = unat l * ?B + i mod ?B" using True div_mult_mod_eq [of i ?B] by simp
    have iff: "s \<le> i \<longleftrightarrow> o' \<le> i mod ?B" "i < s + length v \<longleftrightarrow> i mod ?B < o' + length v" "i - s = i mod ?B - o'"
      unfolding s_def by (subst eq, simp)+
    have "file_byte m' (in_raw n) i = put (readBlock m b) o' v ! (i mod ?B)"
      using W(2) [OF in_file_byte [OF geom i]] True keeps_blockSize [OF K] by (simp add: file_byte_lblock [OF geom'])
    moreover have "file_byte m (in_raw n) i = readBlock m b ! (i mod ?B)"
      using True old by (simp add: file_byte_lblock [OF geom])
    ultimately show ?thesis using nth_put [of o' v "readBlock m b" "i mod ?B"] fits rl mB iff by auto
  next
    case False
    have out: "\<not> (s \<le> i \<and> i < s + length v)"
    proof
      assume a: "s \<le> i \<and> i < s + length v"
      then have "i = unat l * ?B + (i - unat l * ?B)" "i - unat l * ?B < ?B" using fits unfolding s_def by linarith+
      then show False using split_at [of "i - unat l * ?B" ?B "unat l"] False by metis
    qed
    have "file_byte m' (in_raw n) i = file_byte m (in_raw n) i"
      using W(2) [OF in_file_byte [OF geom i]] False keeps_blockSize [OF K]
      by (simp add: file_byte_lblock [OF geom'] file_byte_lblock [OF geom])
    then show ?thesis using out by auto
  qed
qed

text \<open>The variables of one round of \<^verbatim>\<open>write\<close>.\<close>

lemma write_words:
  fixes pos :: u64 and src :: bytes
  assumes geom: "geom m" and pos: "unat pos + length src \<le> 2 ^ 32" and src: "src \<noteq> []"
  defines "off \<equiv> (ucast (pos mod ucast (m_blockSize m)) :: u32)" and "B \<equiv> unat (m_blockSize m)"
  defines "c \<equiv> (if unat (m_blockSize m - off) > length src then of_nat (length src) else m_blockSize m - off :: u32)"
  shows "unat (ucast (pos div ucast (m_blockSize m)) :: u32) = unat pos div B" "unat off = unat pos mod B"
    "unat c = min (B - unat pos mod B) (length src)" "0 < unat c" "unat (pos + ucast c) = unat pos + unat c"
proof -
  define r :: u64 where "r = of_nat (length src)"
  have r: "unat r = length src" using pos by (simp add: r_def unat_of_nat take_bit_nat_eq_self)
  have nr: "ucast r = (of_nat (length src) :: u32)" unfolding r_def by (rule bit_word_eqI) (simp add: bit_simps)
  have r0: "r \<noteq> 0" using r src by (metis length_0_conv unat_0)
  have "(if ucast (m_blockSize m - off) > r then ucast r else m_blockSize m - off :: u32) = c"
    unfolding c_def word_less_nat_alt unat_widen r by (simp add: nr)
  then show "unat (ucast (pos div ucast (m_blockSize m)) :: u32) = unat pos div B" "unat off = unat pos mod B"
    "unat c = min (B - unat pos mod B) (length src)" "0 < unat c" "unat (pos + ucast c) = unat pos + unat c"
    using chunk_words [OF geom, of pos r] pos r r0 unfolding off_def B_def by simp_all
qed

section \<open>The write loop\<close>

text \<open>The bytes after \<open>w\<close> bytes of the source were written at \<open>pos\<close>.\<close>

definition wrote :: "ext2 \<Rightarrow> Ext2Inode \<Rightarrow> nat \<Rightarrow> bytes \<Rightarrow> nat \<Rightarrow> ext2 \<Rightarrow> Ext2Inode \<Rightarrow> bool" where
  "wrote m n pos src w m' n' \<longleftrightarrow>
     (\<forall>i < 2 ^ 32. file_byte m' (in_raw n') i =
        (if pos \<le> i \<and> i < pos + w then src ! (i - pos) else file_byte m (in_raw n) i))"

lemma wrote_append:
  assumes "wrote m n pos src c m1 n1" and "wrote m1 n1 (pos + c) (drop c src) w m2 n2" and "c \<le> length src"
  shows "wrote m n pos src (c + w) m2 n2"
  unfolding wrote_def
proof (intro allI impI)
  fix i :: nat assume i: "i < 2 ^ 32"
  have a: "file_byte m1 (in_raw n1) i = (if pos \<le> i \<and> i < pos + c then src ! (i - pos) else file_byte m (in_raw n) i)"
    using assms(1) i by (simp add: wrote_def)
  have b: "file_byte m2 (in_raw n2) i = (if pos + c \<le> i \<and> i < pos + c + w then drop c src ! (i - (pos + c)) else file_byte m1 (in_raw n1) i)"
    using assms(2) i by (simp add: wrote_def)
  show "file_byte m2 (in_raw n2) i = (if pos \<le> i \<and> i < pos + (c + w) then src ! (i - pos) else file_byte m (in_raw n) i)"
    using a b assms(3) by auto
qed

lemma write_loop_correct:
  "file_inv m n \<Longrightarrow> unat pos + length src \<le> 2 ^ 32 \<Longrightarrow>
   \<exists>ok n' m' w. write_loop n m pos src = Some (Inr (ok, n', m')) \<and> file_step m n m' n' \<and> w \<le> length src
     \<and> (ok \<longrightarrow> w = length src) \<and> (\<not> ok \<longrightarrow> fst (allocBlock (inode_group m (in_num n)) m') = 0)
     \<and> wrote m n (unat pos) src w m' n'"
proof (induction "length src" arbitrary: m n pos src rule: less_induct)
  case less
  show ?case
  proof (cases "src = []")
    case True
    have "wrote m n (unat pos) [] 0 m n" by (auto simp: wrote_def)
    then show ?thesis using True file_step_refl [OF less.prems(1)] by (auto simp: write_loop.simps)
  next
    case src: False
    have geom: "geom m" using less.prems(1) by (simp add: file_inv_def layout_def)
    define off where "off = (ucast (pos mod ucast (m_blockSize m)) :: u32)"
    define c where "c = (if unat (m_blockSize m - off) > length src then of_nat (length src) else m_blockSize m - off :: u32)"
    define lg where "lg = (ucast (pos div ucast (m_blockSize m)) :: u32)"
    let ?B = "unat (m_blockSize m)"
    note C = write_words [OF geom less.prems(2) src, folded off_def, folded c_def lg_def]
    obtain q n1 m1 where al: "blockMapAlloc lg n m = (q, n1, m1)" by (cases "blockMapAlloc lg n m") auto
    have lt: "unat pos < 2 ^ 32" using less.prems(2) src by (cases src) auto
    have infile: "in_file m (unat lg)" using in_file_byte [OF geom lt] C(1) by simp
    then obtain p where p: "block_path m lg = Some p" using file_blocks_at [OF geom] by blast
    note G = grows_blockMapAlloc [OF less.prems(1) p al]
    have step: "write_loop n m pos src =
      (if q = 0 then Some (Inr (False, n1, m1))
       else write_loop n1 (writeBlock q (put (readBlock m1 q) (unat off) (take (unat c) src)) m1) (pos + ucast c) (drop (unat c) src))"
      using src al unfolding off_def c_def lg_def by (subst write_loop.simps) (simp add: Let_def)
    have iok: "inode_ok m n" by (rule file_inv_inode [OF less.prems(1)])
    have K: "keeps m m1" by (rule grows_keeps [OF G(1)])
    have same: "file_byte m1 (in_raw n1) i = file_byte m (in_raw n) i" if "i < 2 ^ 32" for i
      by (rule grows_bytes [OF G(1) geom that])
    show ?thesis
    proof (cases "q = 0")
      case True
      have "wrote m n (unat pos) src 0 m1 n1" using same by (auto simp: wrote_def)
      then show ?thesis using step True grows_file_step [OF G(1)] G(2) by auto
    next
      case False
      let ?v = "take (unat c) src"
      define m2 where "m2 = writeBlock q (put (readBlock m1 q) (unat off) ?v) m1"
      have B1: "m_blockSize m1 = m_blockSize m" by (rule keeps_blockSize [OF K])
      have geom1: "geom m1" using K by (simp add: keeps_def layout_def)
      have infile1: "in_file m1 (unat lg)" using infile keeps_ptrs [OF K] by (simp add: in_file_def)
      have "block_path m1 lg = Some p" using p keeps_ptrs [OF K] by (simp add: block_path_def)
      then have fb: "file_blocks m1 (in_raw n1) ! unat lg = q"
        using file_blocks_at [OF geom1 infile1, of "in_raw n1"] G(3) [OF False] by auto
      have cl: "length ?v = unat c" "unat c \<le> length src" using C(3) by simp_all
      have mB: "unat pos mod ?B < ?B" using bs_pos [OF geom] by simp
      have fits: "unat off + length ?v \<le> unat (m_blockSize m1)" using cl C(2,3) B1 mB by simp
      note W = write_piece [OF grows_inv [OF G(1)] infile1 fb False fits, folded m2_def]
      have at: "unat lg * unat (m_blockSize m1) + unat off = unat pos" using C(1,2) B1 by simp
      have w1: "wrote m n (unat pos) src (unat c) m2 n1"
        using W(2) same unfolding wrote_def at cl(1) by auto
      have st: "file_step m n m2 n1" by (rule file_step_trans [OF grows_file_step [OF G(1)] W(1) iok])
      then have inv2: "file_inv m2 n1" and K2: "keeps m m2" and num: "in_num n1 = in_num n" by (simp_all add: file_step_def)
      have "length (drop (unat c) src) < length src" using C(4) src by (cases src) auto
      moreover have "unat (pos + ucast c) + length (drop (unat c) src) \<le> 2 ^ 32" using C(5) cl less.prems(2) by simp
      ultimately obtain ok n' m' w where IH: "write_loop n1 m2 (pos + ucast c) (drop (unat c) src) = Some (Inr (ok, n', m'))"
        "file_step m2 n1 m' n'" "w \<le> length (drop (unat c) src)" "ok \<longrightarrow> w = length (drop (unat c) src)"
        "\<not> ok \<longrightarrow> fst (allocBlock (inode_group m2 (in_num n1)) m') = 0"
        "wrote m2 n1 (unat (pos + ucast c)) (drop (unat c) src) w m' n'"
        using less.hyps [OF _ inv2] by blast
      have "inode_group m2 (in_num n1) = inode_group m (in_num n)"
        using keeps_inode_place [OF K2, of "in_num n"] iok num by (simp add: inode_ok_def)
      moreover have "wrote m n (unat pos) src (unat c + w) m' n'"
        using wrote_append [OF w1 _ cl(2)] IH(6) C(5) by simp
      moreover have "file_step m n m' n'" by (rule file_step_trans [OF st IH(2) iok])
      ultimately show ?thesis
        using step False IH(1,3-5) cl(2) m2_def by (intro exI [of _ ok] exI [of _ n'] exI [of _ m'] exI [of _ "unat c + w"]) auto
    qed
  qed
qed

section \<open>The inode's own fields\<close>

text \<open>Changing fields of the inode other than its pointers, and writing it back.\<close>

lemma update_raw:
  assumes inv: "file_inv m n" and raw: "length raw = 128" "\<And>k. k < 15 \<Longrightarrow> i_block raw k = i_block (in_raw n) k"
  defines "n' \<equiv> n\<lparr>in_raw := raw\<rparr>"
  defines "m' \<equiv> writeRawInode (in_num n') (in_raw n') m"
  shows "keeps m m'" "file_inv m' n'" "pos_ok m p \<Longrightarrow> at_pos m' raw p = at_pos m (in_raw n) p"
    "data_block m c \<Longrightarrow> c \<noteq> inode_block m (in_num n) \<Longrightarrow> readBlock m' c = readBlock m c"
    "owns m' n' c = owns m n c" "in_file m j \<Longrightarrow> lblock m' raw j = lblock m (in_raw n) j"
    "in_file m j \<Longrightarrow> file_blocks m' raw ! j = file_blocks m (in_raw n) ! j"
proof -
  have lay: "layout m" and tree: "tree_ok m n" and iok: "inode_ok m n" using inv by (simp_all add: file_inv_def)
  have geom: "geom m" using lay by (simp add: layout_def)
  have n': "in_num n' = in_num n" "in_raw n' = raw" by (simp_all add: n'_def)
  have iok': "inode_ok m n'" using iok raw(1) by (simp add: inode_ok_def n')
  note W = writeRawInode_correct [OF lay iok', folded m'_def]
  show K: "keeps m m'" by (rule W(1))
  have P: "pos_ok m' = pos_ok m" by (rule pos_ok_keeps [OF K])
  have I: "inode_block m' (in_num n) = inode_block m (in_num n)"
    using keeps_inode_place [OF K, of "in_num n"] iok by (simp add: inode_ok_def)
  show same: "readBlock m' c = readBlock m c" if "data_block m c" "c \<noteq> inode_block m (in_num n)" for c
    using W(4) [of c] that by (simp add: n' data_block_def)
  show at: "at_pos m' raw p = at_pos m (in_raw n) p" if p: "pos_ok m p" for p
  proof -
    obtain k js where "p = (k, js)" by (cases p)
    moreover have "pos_ok m (k, js) \<Longrightarrow> at_pos m' raw (k, js) = at_pos m (in_raw n) (k, js)"
    proof (induction js rule: rev_induct)
      case Nil
      then show ?case using raw(2) by (simp add: pos_ok_def)
    next
      case (snoc i js)
      note S = pos_ok_snoc [OF snoc.prems]
      have "follow m' (at_pos m (in_raw n) (k, js)) i = follow m (at_pos m (in_raw n) (k, js)) i"
        using same tree_okD(1,2) [OF tree, of "(k, js)"] S by (simp add: follow_def)
      then show ?case using snoc.IH S by simp
    qed
    ultimately show ?thesis using p by simp
  qed
  have "tree_ok m' n'" unfolding tree_ok_def P I n' using at keeps_data [OF K] tree_okD [OF tree] by metis
  then show "file_inv m' n'"
    using K W(2) keeps_inode_ok [OF K iok, of n'] raw(1) by (simp add: file_inv_def keeps_def n')
  show "owns m' n' c = owns m n c" unfolding owns_def P n' using at by metis
  have blk: "\<exists>r. pos_ok m r \<and> file_blocks m (in_raw n) ! j = at_pos m (in_raw n) r \<and> file_blocks m' raw ! j = at_pos m (in_raw n) r"
    if j: "in_file m j" for j
  proof -
    define w :: u32 where "w = of_nat j"
    have w: "unat w = j" using in_file_bound [OF geom j] by (simp add: w_def unat_of_nat take_bit_nat_eq_self)
    obtain r where r: "block_path m w = Some r" "pos_ok m r" "file_blocks m (in_raw n) ! j = at_pos m (in_raw n) r"
      using file_blocks_at [OF geom, of w "in_raw n"] j w by auto
    have "in_file m' (unat w)" "block_path m' w = block_path m w" "geom m'"
      using j w keeps_ptrs [OF K] K by (simp_all add: in_file_def block_path_def keeps_def layout_def)
    then have "file_blocks m' raw ! j = at_pos m (in_raw n) r"
      using file_blocks_at [of m' w raw] r(1) w at [OF r(2)] by auto
    then show ?thesis using r by auto
  qed
  then show "in_file m j \<Longrightarrow> file_blocks m' raw ! j = file_blocks m (in_raw n) ! j" by metis
  show "lblock m' raw j = lblock m (in_raw n) j" if j: "in_file m j"
    using blk [OF j] same tree_okD(1,2) [OF tree] keeps_blockSize [OF K] by (auto simp: lblock_def content_def)
qed

lemma set_size_fields:
  assumes "length raw = 128"
  shows "length (set_i_size v raw) = 128" "i_size (set_i_size v raw) = v" "i_mode (set_i_size v raw) = i_mode raw"
    "k < 15 \<Longrightarrow> i_block (set_i_size v raw) k = i_block raw k"
  using assms by (simp_all add: set_i_size_def i_size_def i_mode_def i_block_def rd32_put_other rd16_put_other)

lemma lblock_bytes:
  assumes "keeps m m'" and "geom m" and "\<And>j. in_file m j \<Longrightarrow> lblock m' raw' j = lblock m raw j" and "i < 2 ^ 32"
  shows "file_byte m' raw' i = file_byte m raw i"
proof -
  have "geom m'" using assms(1) by (simp add: keeps_def layout_def)
  then show ?thesis
    using assms(3) [OF in_file_byte [OF assms(2,4)]] keeps_blockSize [OF assms(1)] assms(2) by (simp add: file_byte_lblock)
qed

section \<open>Property\<close>

text \<open>What a write leaves as it was: the layout and every data block that is not the file's.\<close>

definition others_kept :: "ext2 \<Rightarrow> Ext2Inode \<Rightarrow> ext2 \<Rightarrow> bool" where
  "others_kept m n m' \<longleftrightarrow>
     (\<forall>c. data_block m c \<and> c \<noteq> inode_block m (in_num n) \<and> \<not> owns m n c \<longrightarrow> readBlock m' c = readBlock m c)"


lemma demo_file_inv: "file_inv demo_ext2 demo_root"
proof -
  have z: "i_block (in_raw demo_root) k = 0" if "k < 15" for k using that by (simp add: demo_root_raw i_block_def)
  have "foldl (follow m) 0 js = 0" for m js by (induction js) simp_all
  then have "at_pos demo_ext2 (in_raw demo_root) p = 0" if "pos_ok demo_ext2 p" for p
    using that z [of "fst p"] by (simp add: at_pos_def pos_ok_def)
  then have "tree_ok demo_ext2 demo_root" unfolding tree_ok_def by metis
  moreover have "inode_ok demo_ext2 demo_root" using demo_root_ok by (simp add: file_ok_def)
  ultimately show ?thesis using demo_layout by (simp add: file_inv_def demo_root_raw)
qed


end
