(* ===== verification/Ext2Dir.thy ===== *)
theory Ext2Dir
  imports Ext2Write "HOL-Library.Multiset"
begin

text \<open>
  Directories of the ext2 file system and the operations of \<^verbatim>\<open>Ext2Mount\<close> on them (\<^verbatim>\<open>kernel/fs/ext2/ext2.cpp\<close>). A directory
  block is a chain of records. A record that sticks out of its block would be read or written behind the buffer: the model
  stops there with \<open>Undefined\<close>. Names are byte lists without the terminating zero.
\<close>

type_synonym name = "u8 list"

record DirEntry =
  de_name :: name
  de_inodeNum :: u32
  de_fileType :: u8

section \<open>Records of a directory block\<close>

definition rec_inode :: "bytes \<Rightarrow> nat \<Rightarrow> u32" where "rec_inode buf o' = rd32 buf o'"
definition rec_len :: "bytes \<Rightarrow> nat \<Rightarrow> u16" where "rec_len buf o' = rd16 buf (o' + 4)"
definition rec_name_len :: "bytes \<Rightarrow> nat \<Rightarrow> u8" where "rec_name_len buf o' = rd8 buf (o' + 6)"
definition rec_file_type :: "bytes \<Rightarrow> nat \<Rightarrow> u8" where "rec_file_type buf o' = rd8 buf (o' + 7)"

definition rec_name :: "bytes \<Rightarrow> nat \<Rightarrow> name" where
  "rec_name buf o' = sub_bytes buf (o' + 8) (unat (rec_name_len buf o'))"

text \<open>A record of nonzero length takes the scan forward.\<close>

lemma rec_progress:
  "rec_len buf o' \<noteq> 0 \<Longrightarrow> o' < bs \<Longrightarrow> bs - (o' + unat (rec_len buf o')) < bs - o'"
  by (simp add: diff_less_mono2 unat_gt_0)

text \<open>The bytes up to the first zero, which is what \<^verbatim>\<open>strcmp\<close> sees of a name.\<close>

definition c_str :: "bytes \<Rightarrow> name" where
  "c_str bs = takeWhile (\<lambda>c. c \<noteq> 0) bs"

text \<open>\<^verbatim>\<open>readdir\<close> inside one block: either the entry with the wanted index, or the number of entries passed so far.\<close>

datatype scan = Found DirEntry | Passed nat

function dir_scan :: "bytes \<Rightarrow> nat \<Rightarrow> nat \<Rightarrow> nat \<Rightarrow> nat \<Rightarrow> scan res" where
  "dir_scan buf blockSize blockOff cnt index =
     (if blockOff < blockSize then
        if blockSize < blockOff + 8 then Inl Undefined
        else if rec_len buf blockOff = 0 then Inr (Passed cnt)
        else if rec_inode buf blockOff \<noteq> 0 \<and> cnt = index then
          if blockSize < blockOff + 8 + unat (rec_name_len buf blockOff) then Inl Undefined
          else Inr (Found \<lparr>de_name = c_str (rec_name buf blockOff), de_inodeNum = rec_inode buf blockOff,
                           de_fileType = rec_file_type buf blockOff\<rparr>)
        else dir_scan buf blockSize (blockOff + unat (rec_len buf blockOff))
               (if rec_inode buf blockOff \<noteq> 0 then cnt + 1 else cnt) index
      else Inr (Passed cnt))"
  by pat_completeness auto
termination
  by (relation "measure (\<lambda>(_, blockSize, blockOff, _). blockSize - blockOff)") (auto simp: rec_progress)

declare dir_scan.simps [simp del]

text \<open>\<^verbatim>\<open>Ext2Inode::readdir\<close>; \<open>None\<close> inside is its result \<open>-1\<close>.\<close>

partial_function (option) readdir_loop :: "ext2 \<Rightarrow> bytes \<Rightarrow> nat \<Rightarrow> u64 \<Rightarrow> nat \<Rightarrow> DirEntry option run" where
  "readdir_loop m raw index fileOff cnt =
     (if fileOff < ucast (i_size raw) then
        bindR (Some (blockMap m raw (ucast (fileOff div ucast (m_blockSize m))))) (\<lambda>physical.
          if physical = 0 then Some (Inr None)
          else bindR (Some (dir_scan (readBlock m physical) (unat (m_blockSize m)) 0 cnt index)) (\<lambda>s.
            case s of
              Found e \<Rightarrow> Some (Inr (Some e))
            | Passed c \<Rightarrow> readdir_loop m raw index (fileOff + ucast (m_blockSize m)) c))
      else Some (Inr None))"

definition ext2_readdir :: "ext2 \<Rightarrow> Ext2Inode \<Rightarrow> u32 \<Rightarrow> DirEntry option run" where
  "ext2_readdir m n index =
     (if \<not> ext2_isDir n then Some (Inr None) else readdir_loop m (in_raw n) (unat index) 0 0)"

text \<open>The loops that look a name up: \<^verbatim>\<open>for (i = 0; readdir(i, &e) == 0; i++)\<close>.\<close>

partial_function (option) find_entry :: "ext2 \<Rightarrow> Ext2Inode \<Rightarrow> name \<Rightarrow> u32 \<Rightarrow> DirEntry option run" where
  "find_entry m n nm i =
     bindR (ext2_readdir m n i) (\<lambda>r.
       case r of
         None \<Rightarrow> Some (Inr None)
       | Some e \<Rightarrow> if de_name e = nm then Some (Inr (Some e)) else find_entry m n nm (i + 1))"

section \<open>Adding an entry\<close>

definition round4 :: "u16 \<Rightarrow> u16" where
  "round4 v = (if v mod 4 \<noteq> 0 then v + (4 - v mod 4) else v)"

text \<open>The name's length is kept in eight bits.\<close>

definition neededLen :: "u8 \<Rightarrow> u16" where
  "neededLen nameLen = round4 (8 + ucast nameLen)"

definition rec_actual :: "bytes \<Rightarrow> nat \<Rightarrow> u16" where
  "rec_actual buf o' = (if rec_inode buf o' = 0 then 0 else round4 (8 + ucast (rec_name_len buf o')))"

definition rec_free :: "bytes \<Rightarrow> nat \<Rightarrow> u16" where
  "rec_free buf o' = rec_len buf o' - rec_actual buf o'"

text \<open>The first record with enough free space behind its name.\<close>

function room_scan :: "bytes \<Rightarrow> nat \<Rightarrow> u16 \<Rightarrow> nat \<Rightarrow> nat option res" where
  "room_scan buf blockSize needed blockOff =
     (if blockOff < blockSize then
        if blockSize < blockOff + 8 then Inl Undefined
        else if rec_len buf blockOff = 0 then Inr None
        else if rec_free buf blockOff \<ge> needed then Inr (Some blockOff)
        else room_scan buf blockSize needed (blockOff + unat (rec_len buf blockOff))
      else Inr None)"
  by pat_completeness auto
termination
  by (relation "measure (\<lambda>(_, blockSize, _, blockOff). blockSize - blockOff)") (auto simp: rec_progress)

declare room_scan.simps [simp del]

definition put_record :: "nat \<Rightarrow> u32 \<Rightarrow> u16 \<Rightarrow> name \<Rightarrow> u8 \<Rightarrow> bytes \<Rightarrow> bytes" where
  "put_record o' num len nm ft buf = put buf o' (le32 num @ le16 len @ [of_nat (length nm), ft])"

text \<open>
  The record is split: it keeps what its own name needs, and the new record takes the rest. The name area is cleared and
  the name's bytes are copied, as many as its eight-bit length says.
\<close>

definition insert_record :: "nat \<Rightarrow> u32 \<Rightarrow> name \<Rightarrow> u8 \<Rightarrow> nat \<Rightarrow> bytes \<Rightarrow> bytes res" where
  "insert_record blockSize num nm ft blockOff buf =
     (let free = rec_free buf blockOff; actual = rec_actual buf blockOff;
          buf1 = (if actual > 0 then put buf (blockOff + 4) (le16 actual) else buf);
          o' = blockOff + unat actual in
      if blockSize < o' + unat free then Inl Undefined
      else
        let buf2 = put_record o' num free nm ft buf1;
            buf3 = put buf2 (o' + 8) (replicate (unat free - 8) 0) in
        Inr (put buf3 (o' + 8) (take (unat (of_nat (length nm) :: u8)) nm)))"

partial_function (option) add_loop ::
  "Ext2Inode \<Rightarrow> u32 \<Rightarrow> name \<Rightarrow> u8 \<Rightarrow> u32 \<Rightarrow> ext2 \<Rightarrow> ext2 option run" where
  "add_loop n num nm ft fileOff m =
     (if ucast fileOff < ext2_size n then
        bindR (Some (blockMap m (in_raw n) (fileOff div m_blockSize m))) (\<lambda>physical.
          if physical = 0 then add_loop n num nm ft (fileOff + m_blockSize m) m
          else
            let buf = readBlock m physical; bs = unat (m_blockSize m) in
            bindR (Some (room_scan buf bs (neededLen (of_nat (length nm))) 0)) (\<lambda>r.
              case r of
                None \<Rightarrow> add_loop n num nm ft (fileOff + m_blockSize m) m
              | Some o' \<Rightarrow>
                  bindR (Some (insert_record bs num nm ft o' buf)) (\<lambda>buf1.
                    Some (Inr (Some (writeBlock physical buf1 m))))))
      else Some (Inr None))"

definition new_dir_block :: "ext2 \<Rightarrow> u32 \<Rightarrow> name \<Rightarrow> u8 \<Rightarrow> bytes" where
  "new_dir_block m num nm ft =
     put (put_record 0 num (ucast (m_blockSize m)) nm ft (replicate (unat (m_blockSize m)) 0)) 8
       (take (unat (of_nat (length nm) :: u8)) nm)"

definition addDirEntry :: "Ext2Inode \<Rightarrow> u32 \<Rightarrow> name \<Rightarrow> u8 \<Rightarrow> ext2 \<Rightarrow> (int \<times> Ext2Inode \<times> ext2) run" where
  "addDirEntry n num nm ft m =
     bindR (find_entry m n nm 0) (\<lambda>r.
       if r \<noteq> None then Some (Inr (- 1, n, m))
       else bindR (add_loop n num nm ft 0 m) (\<lambda>a.
         case a of
           Some m1 \<Rightarrow> Some (Inr (0, n, m1))
         | None \<Rightarrow>
             let (newPhysical, n1, m1) = blockMapAlloc (ucast (ext2_size n div ucast (m_blockSize m))) n m in
             if newPhysical = 0 then Some (Inr (- 1, n1, m1))
             else
               let m2 = writeBlock newPhysical (new_dir_block m1 num nm ft) m1;
                   n2 = n1\<lparr>in_raw := set_i_size (i_size (in_raw n1) + m_blockSize m2) (in_raw n1)\<rparr> in
               Some (Inr (0, n2, writeRawInode (in_num n2) (in_raw n2) m2))))"

section \<open>Removing an entry\<close>

text \<open>The record with the name, and the record before it in the same block.\<close>

function remove_scan :: "bytes \<Rightarrow> nat \<Rightarrow> name \<Rightarrow> nat \<Rightarrow> nat option \<Rightarrow> (nat \<times> nat option) option res" where
  "remove_scan buf blockSize nm blockOff prev =
     (if blockOff < blockSize then
        if blockSize < blockOff + 8 then Inl Undefined
        else if rec_len buf blockOff = 0 then Inr None
        else if rec_inode buf blockOff \<noteq> 0 \<and> unat (rec_name_len buf blockOff) = length nm
                \<and> blockSize < blockOff + 8 + length nm then Inl Undefined
        else if rec_inode buf blockOff \<noteq> 0 \<and> unat (rec_name_len buf blockOff) = length nm \<and> rec_name buf blockOff = nm
        then Inr (Some (blockOff, prev))
        else remove_scan buf blockSize nm (blockOff + unat (rec_len buf blockOff)) (Some blockOff)
      else Inr None)"
  by pat_completeness auto
termination
  by (relation "measure (\<lambda>(_, blockSize, _, blockOff, _). blockSize - blockOff)") (auto simp: rec_progress)

declare remove_scan.simps [simp del]

definition delete_record :: "nat \<Rightarrow> nat option \<Rightarrow> bytes \<Rightarrow> bytes" where
  "delete_record o' prev buf =
     (case prev of
        Some q \<Rightarrow> put buf (q + 4) (le16 (rec_len buf q + rec_len buf o'))
      | None \<Rightarrow> put buf o' (le32 0))"

partial_function (option) remove_loop :: "Ext2Inode \<Rightarrow> name \<Rightarrow> u64 \<Rightarrow> ext2 \<Rightarrow> (int \<times> ext2) run" where
  "remove_loop n nm fileOff m =
     (if fileOff < ext2_size n then
        bindR (Some (blockMap m (in_raw n) (ucast (fileOff div ucast (m_blockSize m))))) (\<lambda>physical.
          if physical = 0 then remove_loop n nm (fileOff + ucast (m_blockSize m)) m
          else
            let buf = readBlock m physical in
            bindR (Some (remove_scan buf (unat (m_blockSize m)) nm 0 None)) (\<lambda>r.
              case r of
                None \<Rightarrow> remove_loop n nm (fileOff + ucast (m_blockSize m)) m
              | Some (o', prev) \<Rightarrow> Some (Inr (0, writeBlock physical (delete_record o' prev buf) m))))
      else Some (Inr (- 1, m)))"

definition removeDirEntry :: "Ext2Inode \<Rightarrow> name \<Rightarrow> ext2 \<Rightarrow> (int \<times> ext2) run" where
  "removeDirEntry n nm m = remove_loop n nm 0 m"

section \<open>Operations of the mount\<close>

definition ext2_create :: "Ext2Inode \<Rightarrow> name \<Rightarrow> ext2 \<Rightarrow> (Ext2Inode option \<times> Ext2Inode \<times> ext2) run" where
  "ext2_create dir nm m =
     (let (num, m1) = allocInode (inode_group m (in_num dir)) m in
      if num = 0 then Some (Inr (None, dir, m1))
      else
        let raw = set_i_size 0 (set_i_links_count 1 (set_i_mode (EXT2_S_IFREG OR 0x1A4) (readRawInode m1 num)));
            m2 = writeRawInode num raw m1 in
        bindR (addDirEntry dir num nm EXT2_FT_REG m2) (\<lambda>(r, dir1, m3).
          if r < 0 then Some (Inr (None, dir1, freeInode num m3))
          else Some (Inr (Some \<lparr>in_num = num, in_raw = raw\<rparr>, dir1, m3))))"

definition symlink_raw :: "name \<Rightarrow> bytes" where
  "symlink_raw target =
     put (set_i_size (of_nat (length target)) (set_i_links_count 1 (set_i_mode (EXT2_S_IFLNK OR 0x1FF) (replicate 128 0)))) 40 target"

definition ext2_symlink :: "Ext2Inode \<Rightarrow> name \<Rightarrow> name \<Rightarrow> ext2 \<Rightarrow> (Ext2Inode option \<times> Ext2Inode \<times> ext2) run" where
  "ext2_symlink dir nm target m =
     (if length target \<ge> 60 then Some (Inr (None, dir, m))
      else let (num, m1) = allocInode (inode_group m (in_num dir)) m in
      if num = 0 then Some (Inr (None, dir, m1))
      else
        let raw = symlink_raw target; m2 = writeRawInode num raw m1 in
        bindR (addDirEntry dir num nm EXT2_FT_SYMLINK m2) (\<lambda>(r, dir1, m3).
          if r < 0 then Some (Inr (None, dir1, freeInode num m3))
          else Some (Inr (Some \<lparr>in_num = num, in_raw = raw\<rparr>, dir1, m3))))"

definition mkdir_raw :: "ext2 \<Rightarrow> u32 \<Rightarrow> bytes" where
  "mkdir_raw m block =
     set_i_block 0 block (set_i_blocks (sectorsPerBlock m) (set_i_size 0 (set_i_links_count 1
       (set_i_mode (EXT2_S_IFDIR OR 0x1ED) (replicate 128 0)))))"

text \<open>The block with \<^verbatim>\<open>.\<close> and \<^verbatim>\<open>..\<close>; 46 is the dot.\<close>

definition mkdir_block :: "ext2 \<Rightarrow> u32 \<Rightarrow> u32 \<Rightarrow> bytes" where
  "mkdir_block m num parent =
     put (put (replicate (unat (m_blockSize m)) 0) 0 (le32 num @ le16 12 @ [1, EXT2_FT_DIR, 46]))
       12 (le32 parent @ le16 (ucast (m_blockSize m - 12)) @ [2, EXT2_FT_DIR, 46, 46])"

definition add_links :: "u16 \<Rightarrow> bytes \<Rightarrow> bytes" where
  "add_links d raw = set_i_links_count (i_links_count raw + d) raw"

definition ext2_mkdir :: "Ext2Inode \<Rightarrow> name \<Rightarrow> ext2 \<Rightarrow> (int \<times> Ext2Inode \<times> ext2) run" where
  "ext2_mkdir dir nm m =
     (let grp = inode_group m (in_num dir); (num, m1) = allocInode grp m in
      if num = 0 then Some (Inr (- 1, dir, m1))
      else let (block, m2) = allocBlock grp m1 in
      if block = 0 then Some (Inr (- 1, dir, freeInode num m2))
      else
        let m3 = writeRawInode num (mkdir_raw m2 block) m2; m4 = writeBlock block (mkdir_block m3 num (in_num dir)) m3 in
        bindR (addDirEntry dir num nm EXT2_FT_DIR m4) (\<lambda>(r, dir1, m5).
          if r < 0 then Some (Inr (- 1, dir1, freeBlock block (freeInode num m5)))
          else
            let dir2 = dir1\<lparr>in_raw := add_links 1 (in_raw dir1)\<rparr> in
            Some (Inr (0, dir2, writeRawInode (in_num dir2) (in_raw dir2) m5))))"

definition ext2_unlink :: "Ext2Inode \<Rightarrow> name \<Rightarrow> ext2 \<Rightarrow> (int \<times> ext2) run" where
  "ext2_unlink dir nm m =
     bindR (find_entry m dir nm 0) (\<lambda>e.
       case e of
         None \<Rightarrow> Some (Inr (- 1, m))
       | Some entry \<Rightarrow>
           let num = de_inodeNum entry; raw = add_links (- 1) (readRawInode m num);
               m1 = (if i_links_count raw = 0 then freeInode num (free_file_blocks raw m) else writeRawInode num raw m) in
           removeDirEntry dir nm m1)"

text \<open>
  The two directories of a rename may be one object; \<open>same\<close> says so, and then what \<^verbatim>\<open>addDirEntry\<close> did to the target
  directory is seen through the source directory as well.
\<close>

definition ext2_rename ::
  "bool \<Rightarrow> Ext2Inode \<Rightarrow> name \<Rightarrow> Ext2Inode \<Rightarrow> name \<Rightarrow> ext2 \<Rightarrow> (int \<times> Ext2Inode \<times> Ext2Inode \<times> ext2) run" where
  "ext2_rename same srcDir oldName dstDir newName m =
     bindR (find_entry m srcDir oldName 0) (\<lambda>e.
       case e of
         None \<Rightarrow> Some (Inr (- 1, srcDir, dstDir, m))
       | Some entry \<Rightarrow>
           bindR (find_entry m dstDir newName 0) (\<lambda>x.
             if x \<noteq> None \<and> de_inodeNum (the x) = de_inodeNum entry then Some (Inr (0, srcDir, dstDir, m))
             else
               bindR (if x = None then Some (Inr (0, m)) else removeDirEntry dstDir newName m) (\<lambda>(rr, m1).
                 if rr < 0 then Some (Inr (- 1, srcDir, dstDir, m1))
                 else
                   bindR (addDirEntry dstDir (de_inodeNum entry) newName (de_fileType entry) m1) (\<lambda>(ra, dst1, m2).
                     let src1 = (if same then dst1 else srcDir) in
                     if ra < 0 then Some (Inr (- 1, src1, dst1, m2))
                     else
                       bindR (removeDirEntry src1 oldName m2) (\<lambda>(rd, m3).
                         if rd < 0 then bindR (removeDirEntry dst1 newName m3) (\<lambda>(_, m4). Some (Inr (- 1, src1, dst1, m4)))
                         else Some (Inr (0, src1, dst1, m3)))))))"
section \<open>A block as a list of records\<close>

record drec =
  dr_inode :: u32
  dr_type :: u8
  dr_nlen :: u8
  dr_body :: bytes

definition dr_len :: "drec \<Rightarrow> nat" where
  "dr_len r = 8 + length (dr_body r)"

definition enc :: "drec \<Rightarrow> bytes" where
  "enc r = le32 (dr_inode r) @ le16 (of_nat (dr_len r)) @ [dr_nlen r, dr_type r] @ dr_body r"

definition dr_name :: "drec \<Rightarrow> name" where
  "dr_name r = take (unat (dr_nlen r)) (dr_body r)"

text \<open>Room for the name, rounded up to a multiple of four.\<close>

definition up4 :: "nat \<Rightarrow> nat" where
  "up4 k = 4 * ((k + 3) div 4)"

definition dr_ok :: "drec \<Rightarrow> bool" where
  "dr_ok r \<longleftrightarrow> dr_len r < 2 ^ 16 \<and> (dr_inode r \<noteq> 0 \<longrightarrow> up4 (8 + unat (dr_nlen r)) \<le> dr_len r \<and> 0 \<notin> set (dr_name r))"

definition dir_entry :: "drec \<Rightarrow> DirEntry" where
  "dir_entry r = \<lparr>de_name = dr_name r, de_inodeNum = dr_inode r, de_fileType = dr_type r\<rparr>"

definition entries :: "drec list \<Rightarrow> DirEntry list" where
  "entries rs = map dir_entry (filter (\<lambda>r. dr_inode r \<noteq> 0) rs)"

definition encs :: "drec list \<Rightarrow> bytes" where
  "encs rs = concat (map enc rs)"

lemma length_enc [simp]: "length (enc r) = dr_len r"
  by (simp add: enc_def dr_len_def)

lemma encs_simps [simp]: "encs [] = []" "encs (r # rs) = enc r @ encs rs" "encs (rs @ ss) = encs rs @ encs ss"
  by (simp_all add: encs_def)

lemma entries_simps [simp]:
  "entries [] = []" "entries (r # rs) = (if dr_inode r \<noteq> 0 then dir_entry r # entries rs else entries rs)"
  "entries (rs @ ss) = entries rs @ entries ss"
  by (simp_all add: entries_def)

lemma up4_ge: "k \<le> up4 k" "up4 k \<le> k + 3"
  by (simp_all add: up4_def)

lemma round4_up4:
  assumes "unat v < 2 ^ 16 - 4"
  shows "unat (round4 v) = up4 (unat v)"
proof -
  have vm: "unat (v mod 4) = unat v mod 4" by (simp add: unat_mod)
  have m4: "v mod 4 \<le> 4" using vm by (simp add: word_le_nat_alt)
  have z: "v mod 4 = 0 \<longleftrightarrow> unat v mod 4 = 0" using vm by (metis unat_eq_zero unat_0)
  show ?thesis
  proof (cases "unat v mod 4 = 0")
    case True
    then have "unat v = 4 * (unat v div 4)" by (metis mult_div_mod_eq add.right_neutral)
    then show ?thesis using True z by (simp add: round4_def up4_def) presburger
  next
    case False
    have "unat (4 - v mod 4) = 4 - unat v mod 4" using m4 vm by (simp add: unat_sub)
    then have "unat (v + (4 - v mod 4)) = unat v + (4 - unat v mod 4)"
      using assms by (simp add: unat_word_ariths)
    then show ?thesis using False z by (simp add: round4_def up4_def) presburger
  qed
qed

lemma unat_name_len: "unat (8 + ucast (b :: u8) :: u16) = 8 + unat b"
proof -
  have "unat b < 2 ^ 8" using unsigned_less [of b, where ?'a = nat] by simp
  then have "unat (ucast b :: u16) = unat b" by (simp add: unsigned_ucast_eq take_bit_nat_eq_self)
  then show ?thesis using unsigned_less [of b, where ?'a = nat] by (simp add: unat_word_ariths)
qed

lemma round4_name: "unat (round4 (8 + ucast (b :: u8) :: u16)) = up4 (8 + unat b)"
  using round4_up4 [of "8 + ucast b"] unsigned_less [of b, where ?'a = nat] by (simp add: unat_name_len)

text \<open>Reading the fields of a record behind a prefix.\<close>

lemma rd_behind:
  "rd32 (pre @ bs) (length pre + k) = rd32 bs k" "rd16 (pre @ bs) (length pre + k) = rd16 bs k"
  "rd8 (pre @ bs) (length pre + k) = rd8 bs k"
  by (simp_all add: rd32_def rd16_def rd8_def nth_append add.assoc)

lemma rd_head:
  "rd32 (le32 v @ bs) 0 = v" "rd16 (le32 u @ le16 w @ bs) 4 = w"
proof -
  have "rd32 (put (le32 0 @ bs) 0 (le32 v)) 0 = v" by (rule rd32_put_same) simp
  then show "rd32 (le32 v @ bs) 0 = v" by (simp add: put_def)
  have "rd16 (put (le32 u @ le16 0 @ bs) 4 (le16 w)) 4 = w" by (rule rd16_put_same) simp
  then show "rd16 (le32 u @ le16 w @ bs) 4 = w" by (simp add: put_def)
qed

lemma rec_fields:
  assumes "dr_ok r" and buf_def: "buf = pre @ enc r @ post"
  shows "rec_inode buf (length pre) = dr_inode r" "unat (rec_len buf (length pre)) = dr_len r"
    "rec_name_len buf (length pre) = dr_nlen r" "rec_file_type buf (length pre) = dr_type r"
    "unat (dr_nlen r) \<le> length (dr_body r) \<Longrightarrow> rec_name buf (length pre) = dr_name r"
proof -
  have b: "buf = pre @ (le32 (dr_inode r) @ le16 (of_nat (dr_len r)) @ [dr_nlen r, dr_type r] @ dr_body r @ post)"
    by (simp add: buf_def enc_def)
  show "rec_inode buf (length pre) = dr_inode r"
    using rd_behind(1) [of pre _ 0] by (simp add: rec_inode_def b rd_head)
  have "rec_len buf (length pre) = of_nat (dr_len r)" by (simp add: rec_len_def b rd_behind rd_head)
  then show "unat (rec_len buf (length pre)) = dr_len r"
    using assms(1) by (simp add: dr_ok_def unat_of_nat take_bit_nat_eq_self)
  show nl: "rec_name_len buf (length pre) = dr_nlen r" "rec_file_type buf (length pre) = dr_type r"
    by (simp_all add: rec_name_len_def rec_file_type_def b rd_behind) (simp_all add: rd8_def nth_append)
  show "rec_name buf (length pre) = dr_name r" if "unat (dr_nlen r) \<le> length (dr_body r)"
    using that unfolding rec_name_def nl(1) by (simp add: sub_bytes_def b dr_name_def)
qed

lemma dr_ok_name: "dr_ok r \<Longrightarrow> dr_inode r \<noteq> 0 \<Longrightarrow> unat (dr_nlen r) \<le> length (dr_body r)"
  using up4_ge(1) [of "8 + unat (dr_nlen r)"] by (simp add: dr_ok_def dr_len_def)

lemma dr_len_ge: "8 \<le> dr_len r" "0 < dr_len r"
  by (simp_all add: dr_len_def)

lemma c_str_name: "0 \<notin> set nm \<Longrightarrow> c_str nm = nm"
  by (auto simp: c_str_def takeWhile_eq_all_conv)

section \<open>Scanning a block\<close>

lemma dir_scan_correct:
  "(\<forall>r \<in> set rs. dr_ok r) \<Longrightarrow> buf = pre @ encs rs \<Longrightarrow> cnt \<le> index \<Longrightarrow>
   dir_scan buf (length buf) (length pre) cnt index =
     Inr (if index < cnt + length (entries rs) then Found (entries rs ! (index - cnt))
          else Passed (cnt + length (entries rs)))"
proof (induction rs arbitrary: pre cnt)
  case Nil
  then show ?case by (simp add: dir_scan.simps)
next
  case (Cons r rs)
  have ok: "dr_ok r" and buf: "buf = pre @ enc r @ encs rs" using Cons.prems by simp_all
  note F = rec_fields [OF ok buf]
  have len: "length buf = length pre + dr_len r + length (encs rs)" by (simp add: buf)
  have nz: "rec_len buf (length pre) \<noteq> 0" using F(2) dr_len_ge(2) [of r] by (metis less_irrefl unat_0)
  have rec: "dir_scan buf (length buf) (length pre + dr_len r) c index =
      Inr (if index < c + length (entries rs) then Found (entries rs ! (index - c)) else Passed (c + length (entries rs)))"
    if "c \<le> index" for c
    using Cons.IH [of "pre @ enc r" c] Cons.prems buf that by simp
  show ?case
  proof (cases "dr_inode r \<noteq> 0 \<and> cnt = index")
    case True
    have dr_entry_name: "c_str (rec_name buf (length pre)) = dr_name r"
      using F(5) dr_ok_name [OF ok] True ok c_str_name by (simp add: dr_ok_def)
    have "\<not> length buf < length pre + 8 + unat (rec_name_len buf (length pre))"
      using F(3) dr_ok_name [OF ok] True len by (simp add: dr_len_def)
    then show ?thesis
      using True F nz len dr_len_ge [of r] dr_entry_name by (subst dir_scan.simps) (simp add: dir_entry_def)
  next
    case False
    let ?c = "if dr_inode r \<noteq> 0 then cnt + 1 else cnt"
    have c: "?c \<le> index" using False Cons.prems(3) by auto
    have "dir_scan buf (length buf) (length pre) cnt index = dir_scan buf (length buf) (length pre + dr_len r) ?c index"
      using False F nz len dr_len_ge [of r] by (subst dir_scan.simps) auto
    moreover have "index - cnt = Suc (index - Suc cnt)" if "dr_inode r \<noteq> 0" using that c by simp
    ultimately show ?thesis using rec [OF c] by (auto simp: nth_Cons')
  qed
qed

text \<open>The free space behind a record's name.\<close>

definition dr_used :: "drec \<Rightarrow> nat" where
  "dr_used r = (if dr_inode r = 0 then 0 else up4 (8 + unat (dr_nlen r)))"

lemma dr_used_le: "dr_ok r \<Longrightarrow> dr_used r \<le> dr_len r"
  by (simp add: dr_used_def dr_ok_def)

lemma rec_room:
  assumes "dr_ok r" and "buf = pre @ enc r @ post"
  shows "unat (rec_actual buf (length pre)) = dr_used r" "unat (rec_free buf (length pre)) = dr_len r - dr_used r"
proof -
  note F = rec_fields [OF assms]
  show a: "unat (rec_actual buf (length pre)) = dr_used r"
    using F(1,3) by (simp add: rec_actual_def dr_used_def round4_name)
  show "unat (rec_free buf (length pre)) = dr_len r - dr_used r"
    using a F(2) dr_used_le [OF assms(1)] by (simp add: rec_free_def unat_sub word_le_nat_alt)
qed

lemma room_scan_correct:
  "(\<forall>r \<in> set rs. dr_ok r) \<Longrightarrow> buf = pre @ encs rs \<Longrightarrow>
   (room_scan buf (length buf) needed (length pre) = Inr None \<and> (\<forall>r \<in> set rs. dr_len r - dr_used r < unat needed))
   \<or> (\<exists>as r bs. rs = as @ r # bs \<and> room_scan buf (length buf) needed (length pre) = Inr (Some (length pre + length (encs as)))
        \<and> unat needed \<le> dr_len r - dr_used r)"
proof (induction rs arbitrary: pre)
  case Nil
  then show ?case by (simp add: room_scan.simps)
next
  case (Cons r rs)
  have ok: "dr_ok r" and buf: "buf = pre @ enc r @ encs rs" using Cons.prems by simp_all
  note F = rec_fields [OF ok buf]
  have len: "length buf = length pre + dr_len r + length (encs rs)" by (simp add: buf)
  have nz: "rec_len buf (length pre) \<noteq> 0" using F(2) dr_len_ge(2) [of r] by (metis less_irrefl unat_0)
  have step: "room_scan buf (length buf) needed (length pre) =
    (if unat needed \<le> dr_len r - dr_used r then Inr (Some (length pre)) else room_scan buf (length buf) needed (length pre + dr_len r))"
    using nz len dr_len_ge [of r] F(2) rec_room(2) [OF ok buf]
    by (subst room_scan.simps) (simp add: word_le_nat_alt)
  show ?case
  proof (cases "unat needed \<le> dr_len r - dr_used r")
    case True
    then have "r # rs = [] @ r # rs \<and> room_scan buf (length buf) needed (length pre) = Inr (Some (length pre + length (encs [])))
      \<and> unat needed \<le> dr_len r - dr_used r" using step by simp
    then show ?thesis by blast
  next
    case False
    have "buf = (pre @ enc r) @ encs rs" "\<forall>r \<in> set rs. dr_ok r" using Cons.prems by simp_all
    from Cons.IH [OF this(2,1)] show ?thesis
    proof
      assume "room_scan buf (length buf) needed (length (pre @ enc r)) = Inr None \<and> (\<forall>r \<in> set rs. dr_len r - dr_used r < unat needed)"
      then show ?thesis using False step by simp
    next
      assume "\<exists>as q bs. rs = as @ q # bs \<and> room_scan buf (length buf) needed (length (pre @ enc r)) =
        Inr (Some (length (pre @ enc r) + length (encs as))) \<and> unat needed \<le> dr_len q - dr_used q"
      then obtain as q bs where "rs = as @ q # bs" "room_scan buf (length buf) needed (length (pre @ enc r)) =
        Inr (Some (length (pre @ enc r) + length (encs as)))" "unat needed \<le> dr_len q - dr_used q" by blast
      then have "r # rs = (r # as) @ q # bs \<and> room_scan buf (length buf) needed (length pre) = Inr (Some (length pre + length (encs (r # as))))
        \<and> unat needed \<le> dr_len q - dr_used q" using False step by simp
      then show ?thesis by blast
    qed
  qed
qed

text \<open>The record that takes a name: it fills the free space, with zeros behind the name.\<close>

definition new_rec :: "u32 \<Rightarrow> name \<Rightarrow> u8 \<Rightarrow> nat \<Rightarrow> drec" where
  "new_rec num nm ft len =
     \<lparr>dr_inode = num, dr_type = ft, dr_nlen = of_nat (length nm), dr_body = nm @ replicate (len - 8 - length nm) 0\<rparr>"

definition shrink :: "drec \<Rightarrow> drec" where
  "shrink r = r\<lparr>dr_body := take (dr_used r - 8) (dr_body r)\<rparr>"

definition split_rec :: "u32 \<Rightarrow> name \<Rightarrow> u8 \<Rightarrow> drec \<Rightarrow> drec list" where
  "split_rec num nm ft r =
     (if dr_inode r = 0 then [new_rec num nm ft (dr_len r)]
      else [shrink r, new_rec num nm ft (dr_len r - dr_used r)])"

text \<open>Names the file system can hold.\<close>

definition name_ok :: "name \<Rightarrow> bool" where
  "name_ok nm \<longleftrightarrow> length nm < 256 \<and> 0 \<notin> set nm"

lemma needed_unat: "name_ok nm \<Longrightarrow> unat (neededLen (of_nat (length nm))) = up4 (8 + length nm)"
  by (simp add: neededLen_def round4_name name_ok_def unat_of_nat take_bit_nat_eq_self)

lemma new_rec_props:
  assumes "name_ok nm" and "up4 (8 + length nm) \<le> len" and "len < 2 ^ 16"
  shows "dr_len (new_rec num nm ft len) = len" "dr_ok (new_rec num nm ft len)"
    "dir_entry (new_rec num nm ft len) = \<lparr>de_name = nm, de_inodeNum = num, de_fileType = ft\<rparr>"
proof -
  have l: "unat (of_nat (length nm) :: u8) = length nm" using assms(1) by (simp add: name_ok_def unat_of_nat take_bit_nat_eq_self)
  have ge: "8 + length nm \<le> len" using up4_ge(1) [of "8 + length nm"] assms(2) by simp
  have nm: "dr_name (new_rec num nm ft len) = nm" by (simp add: dr_name_def new_rec_def l)
  show len: "dr_len (new_rec num nm ft len) = len" using ge by (simp add: dr_len_def new_rec_def)
  show "dr_ok (new_rec num nm ft len)" using assms nm len l by (simp add: dr_ok_def) (simp add: new_rec_def name_ok_def)
  show "dir_entry (new_rec num nm ft len) = \<lparr>de_name = nm, de_inodeNum = num, de_fileType = ft\<rparr>"
    using nm by (simp add: dir_entry_def) (simp add: new_rec_def)
qed

lemma shrink_props:
  assumes "dr_ok r" and "dr_inode r \<noteq> 0"
  shows "dr_len (shrink r) = dr_used r" "dr_ok (shrink r)" "dir_entry (shrink r) = dir_entry r" "dr_inode (shrink r) = dr_inode r"
proof -
  have u: "8 + unat (dr_nlen r) \<le> dr_used r" "dr_used r \<le> dr_len r"
    using up4_ge(1) [of "8 + unat (dr_nlen r)"] dr_used_le [OF assms(1)] assms(2) by (simp_all add: dr_used_def)
  show len: "dr_len (shrink r) = dr_used r" using u by (simp add: dr_len_def shrink_def)
  have "unat (dr_nlen r) \<le> dr_used r - 8" using u(1) by simp
  then have nm: "dr_name (shrink r) = dr_name r" by (simp add: dr_name_def shrink_def min_def)
  show "dr_inode (shrink r) = dr_inode r" by (simp add: shrink_def)
  show "dr_ok (shrink r)"
    using assms len nm u by (simp add: dr_ok_def) (simp add: shrink_def dr_used_def)
  show "dir_entry (shrink r) = dir_entry r" using nm by (simp add: dir_entry_def) (simp add: shrink_def)
qed

section \<open>Changing a block\<close>

lemma put_behind: "put (pre @ x) (length pre + k) v = pre @ put x k v"
  by (simp add: put_def add.assoc)

lemma put_mid: "length mid = length v \<Longrightarrow> length h = k \<Longrightarrow> put (h @ mid @ post) k v = h @ v @ post"
  using put_behind [of h "mid @ post" 0 v] by (auto simp: put_def)

lemma write_new:
  assumes "length rest = free" and "8 + length nm \<le> free"
  shows "put (put (put_record (length pre) num (of_nat free) nm ft (pre @ rest @ post)) (length pre + 8) (replicate (free - 8) 0))
      (length pre + 8) nm = pre @ enc (new_rec num nm ft free) @ post"
proof -
  let ?h = "le32 num @ le16 (of_nat free) @ [of_nat (length nm), ft]"
  have "put_record (length pre) num (of_nat free) nm ft (pre @ rest @ post) = pre @ ?h @ drop 8 rest @ post"
    using put_behind [of pre "rest @ post" 0] assms by (simp add: put_record_def put_def)
  moreover have "put (?h @ drop 8 rest @ post) 8 (replicate (free - 8) 0) = ?h @ replicate (free - 8) 0 @ post"
    by (rule put_mid) (use assms in simp_all)
  moreover have "put (?h @ replicate (free - 8) 0 @ post) 8 nm = ?h @ nm @ replicate (free - 8 - length nm) 0 @ post"
    using put_behind [of ?h "replicate (free - 8) 0 @ post" 0 nm] assms by (simp add: put_def)
  moreover have "dr_len (new_rec num nm ft free) = free" using assms(2) by (simp add: dr_len_def new_rec_def)
  ultimately show ?thesis by (simp add: put_behind enc_def new_rec_def)
qed

lemma insert_record_correct:
  assumes ok: "dr_ok r" and nm: "name_ok nm" and room: "up4 (8 + length nm) \<le> dr_len r - dr_used r"
    and buf: "buf = pre @ enc r @ post"
  shows "insert_record (length buf) num nm ft (length pre) buf = Inr (pre @ encs (split_rec num nm ft r) @ post)"
proof -
  let ?free = "dr_len r - dr_used r"
  note R = rec_room [OF ok buf]
  have l: "unat (of_nat (length nm) :: u8) = length nm" using nm by (simp add: name_ok_def unat_of_nat take_bit_nat_eq_self)
  have fits: "8 + length nm \<le> ?free" using room up4_ge(1) [of "8 + length nm"] by simp
  have free: "rec_free buf (length pre) = of_nat ?free" using R(2) by (metis of_nat_unat ucast_id)
  have act: "rec_actual buf (length pre) = of_nat (dr_used r)" using R(1) by (metis of_nat_unat ucast_id)
  have in_block: "\<not> length buf < length pre + dr_used r + ?free" using dr_used_le [OF ok] by (simp add: buf)
  show ?thesis
  proof (cases "dr_inode r = 0")
    case True
    then have u: "dr_used r = 0" by (simp add: dr_used_def)
    then have "insert_record (length buf) num nm ft (length pre) buf =
      Inr (put (put (put_record (length pre) num (of_nat ?free) nm ft buf) (length pre + 8) (replicate (?free - 8) 0)) (length pre + 8) nm)"
      using in_block R(2) by (simp add: insert_record_def Let_def free act l)
    then show ?thesis using write_new [of "enc r" ?free nm pre num ft post] fits u True by (simp add: buf split_rec_def)
  next
    case False
    let ?rest = "drop (dr_used r - 8) (dr_body r)"
    note S = shrink_props [OF ok False]
    have u: "8 \<le> dr_used r" using False up4_ge(1) [of "8 + unat (dr_nlen r)"] by (simp add: dr_used_def)
    have pos: "of_nat (dr_used r) > (0 :: u16)" using R(1) act u by (metis unat_gt_0 word_neq_0_conv less_le_trans zero_less_numeral)
    have "put buf (length pre + 4) (le16 (of_nat (dr_used r))) =
        pre @ (le32 (dr_inode r) @ le16 (of_nat (dr_used r)) @ [dr_nlen r, dr_type r] @ dr_body r) @ post"
      by (simp add: buf put_behind) (simp add: put_def enc_def)
    also have "\<dots> = (pre @ enc (shrink r)) @ ?rest @ post"
      using S(1) by (simp add: enc_def) (simp add: shrink_def)
    finally have b1: "put buf (length pre + 4) (le16 (of_nat (dr_used r))) = (pre @ enc (shrink r)) @ ?rest @ post" .
    have lr: "length ?rest = ?free" using u by (simp add: dr_len_def)
    have lp: "length (pre @ enc (shrink r)) = length pre + dr_used r" using S(1) by simp
    have "insert_record (length buf) num nm ft (length pre) buf =
      Inr (put (put (put_record (length pre + dr_used r) num (of_nat ?free) nm ft ((pre @ enc (shrink r)) @ ?rest @ post))
        (length pre + dr_used r + 8) (replicate (?free - 8) 0)) (length pre + dr_used r + 8) nm)"
      using in_block R pos by (simp add: insert_record_def Let_def b1 free act l)
    then show ?thesis
      using write_new [OF lr fits, of "pre @ enc (shrink r)" num ft post] False unfolding lp by (simp add: split_rec_def)
  qed
qed

lemma split_rec_props:
  assumes "dr_ok r" and "name_ok nm" and "up4 (8 + length nm) \<le> dr_len r - dr_used r" and "num \<noteq> 0"
  shows "\<forall>s \<in> set (split_rec num nm ft r). dr_ok s" "length (encs (split_rec num nm ft r)) = dr_len r"
    "entries (split_rec num nm ft r) = entries [r] @ [\<lparr>de_name = nm, de_inodeNum = num, de_fileType = ft\<rparr>]"
proof -
  have lt: "dr_len r < 2 ^ 16" using assms(1) by (simp add: dr_ok_def)
  have ino: "dr_inode (new_rec num nm ft k) = num" for k by (simp add: new_rec_def)
  have "(\<forall>s \<in> set (split_rec num nm ft r). dr_ok s) \<and> length (encs (split_rec num nm ft r)) = dr_len r
    \<and> entries (split_rec num nm ft r) = entries [r] @ [\<lparr>de_name = nm, de_inodeNum = num, de_fileType = ft\<rparr>]"
  proof (cases "dr_inode r = 0")
    case True
    then have "up4 (8 + length nm) \<le> dr_len r" using assms(3) by simp
    from new_rec_props [OF assms(2) this lt] show ?thesis using True assms(4) ino by (simp add: split_rec_def)
  next
    case False
    have "dr_len r - dr_used r < 2 ^ 16" using lt by simp
    from new_rec_props [OF assms(2,3) this] shrink_props [OF assms(1) False] dr_used_le [OF assms(1)]
    show ?thesis using False assms(4) ino by (simp add: split_rec_def)
  qed
  then show "\<forall>s \<in> set (split_rec num nm ft r). dr_ok s" "length (encs (split_rec num nm ft r)) = dr_len r"
    "entries (split_rec num nm ft r) = entries [r] @ [\<lparr>de_name = nm, de_inodeNum = num, de_fileType = ft\<rparr>]" by blast+
qed

definition has_name :: "name \<Rightarrow> drec \<Rightarrow> bool" where
  "has_name nm r \<longleftrightarrow> dr_inode r \<noteq> 0 \<and> dr_name r = nm"

lemma remove_scan_correct:
  "(\<forall>r \<in> set rs. dr_ok r) \<Longrightarrow> buf = pre @ encs rs \<Longrightarrow>
   (remove_scan buf (length buf) nm (length pre) prev = Inr None \<and> (\<forall>r \<in> set rs. \<not> has_name nm r))
   \<or> (\<exists>as r bs. rs = as @ r # bs \<and> has_name nm r
        \<and> remove_scan buf (length buf) nm (length pre) prev =
            Inr (Some (length pre + length (encs as),
              if as = [] then prev else Some (length pre + length (encs (butlast as))))))"
proof (induction rs arbitrary: pre prev)
  case Nil
  then show ?case by (simp add: remove_scan.simps)
next
  case (Cons r rs)
  have ok: "dr_ok r" and buf: "buf = pre @ enc r @ encs rs" using Cons.prems by simp_all
  note F = rec_fields [OF ok buf]
  have len: "length buf = length pre + dr_len r + length (encs rs)" by (simp add: buf)
  have nz: "rec_len buf (length pre) \<noteq> 0" using F(2) dr_len_ge(2) [of r] by (metis less_irrefl unat_0)
  have nlen: "length (dr_name r) = unat (dr_nlen r)" "rec_name buf (length pre) = dr_name r" if "dr_inode r \<noteq> 0"
    using dr_ok_name [OF ok that] F(5) by (simp_all add: dr_name_def)
  have inb: "\<not> (dr_inode r \<noteq> 0 \<and> unat (dr_nlen r) = length nm \<and> length buf < length pre + 8 + length nm)"
    using dr_ok_name [OF ok] len by (auto simp: dr_len_def)
  have hit: "(dr_inode r \<noteq> 0 \<and> unat (dr_nlen r) = length nm \<and> rec_name buf (length pre) = nm) = has_name nm r"
    using nlen by (auto simp: has_name_def)
  have step: "remove_scan buf (length buf) nm (length pre) prev =
    (if has_name nm r then Inr (Some (length pre, prev))
     else remove_scan buf (length buf) nm (length pre + dr_len r) (Some (length pre)))"
    using nz len dr_len_ge [of r] F(1-3) inb hit by (subst remove_scan.simps) auto
  show ?case
  proof (cases "has_name nm r")
    case True
    then have "r # rs = [] @ r # rs \<and> has_name nm r \<and> remove_scan buf (length buf) nm (length pre) prev =
      Inr (Some (length pre + length (encs []), if ([] :: drec list) = [] then prev else Some (length pre + length (encs (butlast [])))))"
      using step by simp
    then show ?thesis by blast
  next
    case False
    have "buf = (pre @ enc r) @ encs rs" "\<forall>r \<in> set rs. dr_ok r" using Cons.prems by simp_all
    from Cons.IH [OF this(2,1), of "Some (length pre)"] show ?thesis
    proof
      assume "remove_scan buf (length buf) nm (length (pre @ enc r)) (Some (length pre)) = Inr None \<and> (\<forall>r \<in> set rs. \<not> has_name nm r)"
      then show ?thesis using False step by simp
    next
      assume "\<exists>as q bs. rs = as @ q # bs \<and> has_name nm q \<and> remove_scan buf (length buf) nm (length (pre @ enc r)) (Some (length pre)) =
        Inr (Some (length (pre @ enc r) + length (encs as),
          if as = [] then Some (length pre) else Some (length (pre @ enc r) + length (encs (butlast as)))))"
      then obtain as q bs where h: "rs = as @ q # bs" "has_name nm q"
        "remove_scan buf (length buf) nm (length (pre @ enc r)) (Some (length pre)) =
        Inr (Some (length (pre @ enc r) + length (encs as),
          if as = [] then Some (length pre) else Some (length (pre @ enc r) + length (encs (butlast as)))))" by blast
      then have "r # rs = (r # as) @ q # bs \<and> has_name nm q \<and> remove_scan buf (length buf) nm (length pre) prev =
        Inr (Some (length pre + length (encs (r # as)), if r # as = [] then prev else Some (length pre + length (encs (butlast (r # as))))))"
        using False step by simp
      then show ?thesis by blast
    qed
  qed
qed

text \<open>A deleted record becomes part of the one before it; the first record of a block loses its inode number.\<close>

definition merged :: "drec list \<Rightarrow> drec \<Rightarrow> drec list" where
  "merged as r =
     (if as = [] then [r\<lparr>dr_inode := 0\<rparr>] else butlast as @ [(last as)\<lparr>dr_body := dr_body (last as) @ enc r\<rparr>])"

lemma delete_record_correct:
  assumes ok: "\<forall>s \<in> set (as @ r # bs). dr_ok s" and buf: "buf = encs (as @ r # bs)" and small: "length buf < 2 ^ 16"
  shows "delete_record (length (encs as)) (if as = [] then None else Some (length (encs (butlast as)))) buf = encs (merged as r @ bs)"
proof (cases "as = []")
  case True
  then show ?thesis
    using buf by (simp add: delete_record_def merged_def) (simp add: enc_def put_def dr_len_def)
next
  case False
  define q where "q = last as"
  define ps where "ps = butlast as"
  have as: "as = ps @ [q]" using False by (simp add: q_def ps_def)
  have bq: "buf = encs ps @ enc q @ (enc r @ encs bs)" and br: "buf = encs as @ enc r @ encs bs" using buf by (simp_all add: as)
  have okq: "dr_ok q" and okr: "dr_ok r" using ok by (simp_all add: as)
  let ?q = "q\<lparr>dr_body := dr_body q @ enc r\<rparr>"
  have len: "dr_len ?q = dr_len q + dr_len r" by (simp add: dr_len_def)
  have lt: "dr_len q + dr_len r < 2 ^ 16" using small by (simp add: bq)
  have "rec_len buf (length (encs ps)) + rec_len buf (length (encs as)) = of_nat (dr_len q + dr_len r)"
    using rec_fields(2) [OF okq bq] rec_fields(2) [OF okr br] by (metis of_nat_add of_nat_unat ucast_id)
  moreover have "put buf (length (encs ps) + 4) (le16 (of_nat (dr_len ?q))) = encs ps @ enc ?q @ encs bs"
    by (simp add: bq put_behind) (simp add: put_def enc_def len)
  ultimately show ?thesis
    using False by (simp add: delete_record_def merged_def len q_def [symmetric] ps_def [symmetric])
qed

lemma merged_props:
  assumes ok: "\<forall>s \<in> set (as @ [r]). dr_ok s" and small: "length (encs (as @ [r])) < 2 ^ 16" and r: "dr_inode r \<noteq> 0"
  shows "\<forall>s \<in> set (merged as r). dr_ok s" "length (encs (merged as r)) = length (encs (as @ [r]))"
    "entries (merged as r) = entries as"
proof -
  have "(\<forall>s \<in> set (merged as r). dr_ok s) \<and> length (encs (merged as r)) = length (encs (as @ [r]))
    \<and> entries (merged as r) = entries as"
  proof (cases "as = []")
    case True
    then show ?thesis using ok by (simp add: merged_def dr_ok_def dr_len_def)
  next
    case False
    define q where "q = last as"
    define ps where "ps = butlast as"
    have as: "as = ps @ [q]" using False by (simp add: q_def ps_def)
    let ?q = "q\<lparr>dr_body := dr_body q @ enc r\<rparr>"
    have okq: "dr_ok q" using ok by (simp add: as)
    have len: "dr_len ?q = dr_len q + dr_len r" by (simp add: dr_len_def)
    have nm: "dr_name ?q = dr_name q" if "dr_inode q \<noteq> 0" using dr_ok_name [OF okq that] by (simp add: dr_name_def)
    have "dr_ok ?q" using okq nm len small by (auto simp: dr_ok_def as)
    moreover have "entries [?q] = entries [q]" using nm by (simp add: dir_entry_def)
    moreover have "merged as r = ps @ [?q]" using False by (simp add: merged_def q_def ps_def)
    ultimately show ?thesis using ok len by (simp add: as)
  qed
  then show "\<forall>s \<in> set (merged as r). dr_ok s" "length (encs (merged as r)) = length (encs (as @ [r]))"
    "entries (merged as r) = entries as" by blast+
qed

section \<open>Directories\<close>

text \<open>
  A well-formed directory: its size is a whole number of blocks, all of them are there, and each is a chain of records that
  fills it.
\<close>

definition dir_inv :: "ext2 \<Rightarrow> Ext2Inode \<Rightarrow> drec list list \<Rightarrow> bool" where
  "dir_inv m n rss \<longleftrightarrow>
     file_inv m n \<and> ext2_isDir n \<and> unat (i_size (in_raw n)) = length rss * unat (m_blockSize m)
     \<and> (\<forall>j < length rss. file_blocks m (in_raw n) ! j \<noteq> 0 \<and> lblock m (in_raw n) j = encs (rss ! j)
          \<and> (\<forall>r \<in> set (rss ! j). dr_ok r))"

definition dir_of :: "drec list list \<Rightarrow> DirEntry list" where
  "dir_of rss = concat (map entries rss)"

lemma dir_of_simps [simp]: "dir_of [] = []" "dir_of (rs # rss) = entries rs @ dir_of rss" "dir_of (rss @ sss) = dir_of rss @ dir_of sss"
  by (simp_all add: dir_of_def)

lemma dir_block:
  assumes inv: "dir_inv m n rss" and j: "j < length rss"
  shows "in_file m j" "j * unat (m_blockSize m) < 2 ^ 32" "readBlock m (file_blocks m (in_raw n) ! j) = encs (rss ! j)"
    "length (encs (rss ! j)) = unat (m_blockSize m)" "unat l = j \<Longrightarrow> blockMap m (in_raw n) l = Inr (file_blocks m (in_raw n) ! j)"
proof -
  let ?B = "unat (m_blockSize m)"
  have geom: "geom m" using inv by (simp add: dir_inv_def file_inv_def layout_def)
  have size: "length rss * ?B < 2 ^ 32"
    using inv unsigned_less [of "i_size (in_raw n)", where ?'a = nat] by (simp add: dir_inv_def)
  moreover have "j * ?B \<le> length rss * ?B" using j by simp
  ultimately show jB: "j * ?B < 2 ^ 32" by linarith
  show jf: "in_file m j" using in_file_byte [OF geom jB] bs_pos [OF geom] by simp
  show r: "readBlock m (file_blocks m (in_raw n) ! j) = encs (rss ! j)"
  proof -
    have "file_blocks m (in_raw n) ! j \<noteq> 0" "lblock m (in_raw n) j = encs (rss ! j)" using inv j by (simp_all add: dir_inv_def)
    then show ?thesis by (simp add: lblock_def content_def)
  qed
  show "length (encs (rss ! j)) = ?B" using readBlock_length [OF geom] r by metis
  show "blockMap m (in_raw n) l = Inr (file_blocks m (in_raw n) ! j)" if "unat l = j"
    using blockMap_flat [OF geom, of l] jf that by (simp add: in_file_def)
qed

text \<open>The offset of block \<open>j\<close>, as the loops cnt it.\<close>

lemma dir_offset:
  assumes inv: "dir_inv m n rss" and j: "j \<le> length rss" and off: "unat (off :: u64) = j * unat (m_blockSize m)"
  shows "off < ucast (i_size (in_raw n)) \<longleftrightarrow> j < length rss"
    "j < length rss \<Longrightarrow> unat (ucast (off div ucast (m_blockSize m)) :: u32) = j"
    "j < length rss \<Longrightarrow> unat (off + ucast (m_blockSize m)) = Suc j * unat (m_blockSize m)"
proof -
  let ?B = "unat (m_blockSize m)"
  have geom: "geom m" using inv by (simp add: dir_inv_def file_inv_def layout_def)
  have B: "0 < ?B" "?B \<le> 4096" using geom by (auto simp: geom_def)
  have "off < ucast (i_size (in_raw n)) \<longleftrightarrow> j * ?B < length rss * ?B"
    using inv off by (simp add: word_less_nat_alt unat_widen dir_inv_def)
  then show "off < ucast (i_size (in_raw n)) \<longleftrightarrow> j < length rss" using B(1) by simp
  assume lt: "j < length rss"
  note D = dir_block(2) [OF inv lt]
  have "unat (off div ucast (m_blockSize m)) = j" using B(1) by (simp add: unat_div unat_widen off)
  moreover have "j \<le> j * ?B" using B(1) by simp
  then have "j < 2 ^ 32" using D by linarith
  ultimately show "unat (ucast (off div ucast (m_blockSize m)) :: u32) = j"
    using ucast_down [of "off div ucast (m_blockSize m)"] by simp
  have "j * ?B + ?B < 2 ^ 64" using D B(2) by simp
  then show "unat (off + ucast (m_blockSize m)) = Suc j * ?B" using off by (simp add: unat_word_ariths unat_widen)
qed

definition nth_opt :: "'a list \<Rightarrow> nat \<Rightarrow> 'a option" where
  "nth_opt xs i = (if i < length xs then Some (xs ! i) else None)"

lemma readdir_loop_correct:
  assumes inv: "dir_inv m n rss"
  shows "j \<le> length rss \<Longrightarrow> unat off = j * unat (m_blockSize m) \<Longrightarrow> cnt \<le> index \<Longrightarrow>
    readdir_loop m (in_raw n) index off cnt = Some (Inr (nth_opt (dir_of (drop j rss)) (index - cnt)))"
proof (induction "length rss - j" arbitrary: j off cnt)
  case 0
  then show ?case using dir_offset(1) [OF inv 0(2,3)] by (simp add: readdir_loop.simps nth_opt_def)
next
  case (Suc d)
  have j: "j < length rss" using Suc.hyps(2) by simp
  note D = dir_block [OF inv j] and O = dir_offset [OF inv Suc.prems(1,2)]
  let ?rs = "rss ! j"
  have ok: "\<forall>r \<in> set ?rs. dr_ok r" and nz: "file_blocks m (in_raw n) ! j \<noteq> 0" using inv j by (simp_all add: dir_inv_def)
  have dr: "drop j rss = ?rs # drop (Suc j) rss" using j by (simp add: Cons_nth_drop_Suc)
  have scan: "dir_scan (encs ?rs) (unat (m_blockSize m)) 0 cnt index =
      Inr (if index < cnt + length (entries ?rs) then Found (entries ?rs ! (index - cnt)) else Passed (cnt + length (entries ?rs)))"
    using dir_scan_correct [OF ok, of "encs ?rs" "[]" cnt index] Suc.prems(3) D(4) by simp
  have step: "readdir_loop m (in_raw n) index off cnt =
    (if index < cnt + length (entries ?rs) then Some (Inr (Some (entries ?rs ! (index - cnt))))
     else readdir_loop m (in_raw n) index (off + ucast (m_blockSize m)) (cnt + length (entries ?rs)))"
    using O(1) j D(3,5) O(2) [OF j] nz scan by (subst readdir_loop.simps) simp
  show ?case
  proof (cases "index < cnt + length (entries ?rs)")
    case True
    then show ?thesis using step dr Suc.prems(3) by (auto simp: nth_opt_def nth_append)
  next
    case False
    have "d = length rss - Suc j" "Suc j \<le> length rss" using Suc.hyps(2) j by simp_all
    from Suc.hyps(1) [OF this O(3) [OF j], of "cnt + length (entries ?rs)"] False step
    have "readdir_loop m (in_raw n) index off cnt =
      Some (Inr (nth_opt (dir_of (drop (Suc j) rss)) (index - (cnt + length (entries ?rs)))))" by simp
    moreover have "nth_opt (xs @ ys) (i + length xs) = nth_opt ys i" for xs ys :: "DirEntry list" and i
      by (simp add: nth_opt_def nth_append)
    from this [of "entries ?rs" "dir_of (drop (Suc j) rss)" "index - (cnt + length (entries ?rs))"]
    have "nth_opt (dir_of (drop j rss)) (index - cnt) = nth_opt (dir_of (drop (Suc j) rss)) (index - (cnt + length (entries ?rs)))"
      using False dr by simp
    ultimately show ?thesis by simp
  qed
qed

lemma ext2_readdir_correct:
  "dir_inv m n rss \<Longrightarrow> ext2_readdir m n i = Some (Inr (nth_opt (dir_of rss) (unat i)))"
  using readdir_loop_correct [of m n rss 0 0 0 "unat i"] by (simp add: ext2_readdir_def dir_inv_def)

lemma entries_length: "8 * length (entries rs) \<le> length (encs rs)"
  by (induction rs) (use dr_len_ge in \<open>auto intro: add_mono le_trans\<close>)

lemma dir_of_length:
  assumes inv: "dir_inv m n rss"
  shows "8 * length (dir_of rss) < 2 ^ 32"
proof -
  have "8 * length (dir_of (take k rss)) \<le> k * unat (m_blockSize m)" if "k \<le> length rss" for k
    using that
  proof (induction k)
    case (Suc k)
    then show ?case
      using dir_block(4) [OF inv, of k] entries_length [of "rss ! k"] by (simp add: take_Suc_conv_app_nth)
  qed simp
  from this [of "length rss"] show ?thesis
    using inv unsigned_less [of "i_size (in_raw n)", where ?'a = nat] by (simp add: dir_inv_def)
qed

lemma find_entry_correct:
  assumes inv: "dir_inv m n rss"
  shows "unat i \<le> length (dir_of rss) \<Longrightarrow>
    find_entry m n nm i = Some (Inr (find (\<lambda>e. de_name e = nm) (drop (unat i) (dir_of rss))))"
proof (induction "length (dir_of rss) - unat i" arbitrary: i)
  case 0
  then show ?case using ext2_readdir_correct [OF inv, of i] by (simp add: find_entry.simps nth_opt_def)
next
  case (Suc d)
  let ?es = "dir_of rss"
  have lt: "unat i < length ?es" using Suc.hyps(2) by simp
  have dr: "drop (unat i) ?es = ?es ! unat i # drop (Suc (unat i)) ?es" using lt by (simp add: Cons_nth_drop_Suc)
  have "unat i + 1 < 2 ^ 32" using lt dir_of_length [OF inv] by simp
  then have i1: "unat (i + 1) = Suc (unat i)" by (simp add: unat_word_ariths)
  have "find_entry m n nm (i + 1) = Some (Inr (find (\<lambda>e. de_name e = nm) (drop (Suc (unat i)) ?es)))"
    using Suc.hyps(1) [of "i + 1"] Suc.hyps(2) lt by (simp add: i1)
  then show ?case
    using ext2_readdir_correct [OF inv, of i] lt dr by (subst find_entry.simps) (simp add: nth_opt_def)
qed

section \<open>Changing a directory\<close>

text \<open>Rewriting one block.\<close>

lemma dir_update:
  assumes inv: "dir_inv m n rss" and j: "j < length rss"
    and rs: "\<forall>r \<in> set rs. dr_ok r" "length (encs rs) = unat (m_blockSize m)"
  defines "m' \<equiv> writeBlock (file_blocks m (in_raw n) ! j) (encs rs) m"
  shows "dir_inv m' n (rss[j := rs])" "others_kept m n m'" "keeps m m'"
proof -
  define l :: u32 where "l = of_nat j"
  have geom: "geom m" and finv: "file_inv m n" using inv by (simp_all add: dir_inv_def file_inv_def layout_def)
  have jf: "in_file m j" by (rule dir_block(1) [OF inv j])
  have l: "unat l = j" using in_file_bound [OF geom jf] by (simp add: l_def unat_of_nat take_bit_nat_eq_self)
  have nz: "file_blocks m (in_raw n) ! unat l \<noteq> 0" using inv j by (simp add: dir_inv_def l)
  have jf': "in_file m (unat l)" using jf l by simp
  note W = write_leaf [OF finv jf' refl nz rs(2), unfolded l, folded m'_def]
  have fs: "file_inv m' n" "m_blockSize m' = m_blockSize m"
    using W(1) keeps_blockSize [of m m'] by (simp_all add: file_step_def)
  have "file_blocks m' (in_raw n) ! k \<noteq> 0 \<and> lblock m' (in_raw n) k = encs (rss[j := rs] ! k) \<and> (\<forall>r \<in> set (rss[j := rs] ! k). dr_ok r)"
    if k: "k < length rss" for k
    using W(2,3) [OF dir_block(1) [OF inv k]] inv k rs(1) by (cases "k = j") (simp_all add: dir_inv_def)
  then show "dir_inv m' n (rss[j := rs])" using inv fs by (simp add: dir_inv_def)
  show "others_kept m n m'" "keeps m m'" using W(1) by (auto simp: file_step_def others_kept_def)
qed

lemma dir_of_update:
  assumes "j < length rss"
  shows "dir_of (rss[j := rs]) = dir_of (take j rss) @ entries rs @ dir_of (drop (Suc j) rss)"
    "dir_of rss = dir_of (take j rss) @ entries (rss ! j) @ dir_of (drop (Suc j) rss)"
proof -
  have "rss = take j rss @ rss ! j # drop (Suc j) rss" using assms by (simp add: Cons_nth_drop_Suc)
  then show "dir_of rss = dir_of (take j rss) @ entries (rss ! j) @ dir_of (drop (Suc j) rss)"
    by (metis dir_of_simps(2,3))
  show "dir_of (rss[j := rs]) = dir_of (take j rss) @ entries rs @ dir_of (drop (Suc j) rss)"
    using assms by (simp add: upd_conv_take_nth_drop)
qed

lemma add_loop_correct:
  assumes inv: "dir_inv m n rss" and nm: "name_ok nm"
  shows "j \<le> length rss \<Longrightarrow> unat off = j * unat (m_blockSize m) \<Longrightarrow>
    add_loop n num nm ft off m = Some (Inr None)
    \<or> (\<exists>k as r bs. k < length rss \<and> rss ! k = as @ r # bs \<and> up4 (8 + length nm) \<le> dr_len r - dr_used r
         \<and> add_loop n num nm ft off m =
             Some (Inr (Some (writeBlock (file_blocks m (in_raw n) ! k) (encs (as @ split_rec num nm ft r @ bs)) m))))"
proof (induction "length rss - j" arbitrary: j off)
  case 0
  then have "\<not> ucast off < ext2_size n"
    using dir_offset(1) [OF inv, of j "ucast off"] by (simp add: unat_widen ext2_size_def)
  then show ?case by (simp add: add_loop.simps)
next
  case (Suc d)
  let ?B = "unat (m_blockSize m)" and ?rs = "rss ! j" and ?p = "file_blocks m (in_raw n) ! j"
  have j: "j < length rss" using Suc.hyps(2) by simp
  note D = dir_block [OF inv j]
  have geom: "geom m" using inv by (simp add: dir_inv_def file_inv_def layout_def)
  have ok: "\<forall>r \<in> set ?rs. dr_ok r" and nz: "?p \<noteq> 0" using inv j by (simp_all add: dir_inv_def)
  have lt: "ucast off < ext2_size n"
    using dir_offset(1) [OF inv Suc.prems(1), of "ucast off"] Suc.prems(2) j by (simp add: unat_widen ext2_size_def)
  have lg: "unat (off div m_blockSize m) = j" using Suc.prems(2) bs_pos [OF geom] by (simp add: unat_div)
  have "Suc j * ?B \<le> length rss * ?B" using j by (intro mult_le_mono1) simp
  also have "\<dots> < 2 ^ 32" using inv unsigned_less [of "i_size (in_raw n)", where ?'a = nat] by (simp add: dir_inv_def)
  finally have off1: "unat (off + m_blockSize m) = Suc j * ?B" using Suc.prems(2) by (simp add: unat_word_ariths)
  let ?needed = "neededLen (of_nat (length nm))"
  have body: "add_loop n num nm ft off m =
    bindR (Some (room_scan (encs ?rs) ?B ?needed 0)) (\<lambda>r.
      case r of
        None \<Rightarrow> add_loop n num nm ft (off + m_blockSize m) m
      | Some o' \<Rightarrow> bindR (Some (insert_record ?B num nm ft o' (encs ?rs))) (\<lambda>buf1. Some (Inr (Some (writeBlock ?p buf1 m)))))"
    using lt D(3) D(5) [OF lg] nz by (subst add_loop.simps) (simp add: Let_def)
  from room_scan_correct [OF ok, of "encs ?rs" "[]" ?needed] D(4)
  consider "room_scan (encs ?rs) ?B ?needed 0 = Inr None"
    | as r bs where "?rs = as @ r # bs" "room_scan (encs ?rs) ?B ?needed 0 = Inr (Some (length (encs as)))"
      "unat ?needed \<le> dr_len r - dr_used r"
    by auto
  then show ?case
  proof cases
    case 1
    then have "add_loop n num nm ft off m = add_loop n num nm ft (off + m_blockSize m) m" using body by simp
    moreover have "d = length rss - Suc j" "Suc j \<le> length rss" using Suc.hyps(2) j by simp_all
    ultimately show ?thesis using Suc.hyps(1) [OF _ _ off1] by simp
  next
    case 2
    have okr: "dr_ok r" using ok 2(1) by simp
    have room: "up4 (8 + length nm) \<le> dr_len r - dr_used r" using 2(3) needed_unat [OF nm] by simp
    have "insert_record ?B num nm ft (length (encs as)) (encs ?rs) = Inr (encs as @ encs (split_rec num nm ft r) @ encs bs)"
      using insert_record_correct [OF okr nm room, of "encs ?rs" "encs as" "encs bs"] 2(1) D(4) by simp
    then have "add_loop n num nm ft off m = Some (Inr (Some (writeBlock ?p (encs (as @ split_rec num nm ft r @ bs)) m)))"
      using body 2(2) by simp
    then show ?thesis using j 2(1) room by blast
  qed
qed

text \<open>Appending a block with one record.\<close>

lemma new_dir_block_enc:
  assumes "geom m" and "name_ok nm"
  shows "new_dir_block m num nm ft = encs [new_rec num nm ft (unat (m_blockSize m))]"
proof -
  let ?B = "unat (m_blockSize m)"
  have B: "264 \<le> ?B" "?B < 2 ^ 16" using assms(1) by (auto simp: geom_def)
  have l: "unat (of_nat (length nm) :: u8) = length nm" using assms(2) by (simp add: name_ok_def unat_of_nat take_bit_nat_eq_self)
  have nm: "length nm < 256" using assms(2) by (simp add: name_ok_def)
  have w: "ucast (m_blockSize m) = (of_nat ?B :: u16)" by (simp add: word_unat_eq_iff unat_of_nat unsigned_ucast_eq)
  let ?h = "le32 num @ le16 (of_nat ?B) @ [of_nat (length nm), ft]"
  have "put_record 0 num (of_nat ?B) nm ft (replicate ?B 0) = ?h @ replicate (?B - 8) 0"
    using B by (simp add: put_record_def put_def)
  moreover have "put (?h @ replicate (?B - 8) 0) 8 nm = ?h @ nm @ replicate (?B - 8 - length nm) 0"
    using put_behind [of ?h "replicate (?B - 8) 0" 0 nm] by (simp add: put_def)
  moreover have "dr_len (new_rec num nm ft ?B) = ?B" using B nm by (simp add: dr_len_def new_rec_def)
  moreover have "new_dir_block m num nm ft = put (put_record 0 num (of_nat ?B) nm ft (replicate ?B 0)) 8 nm"
    unfolding new_dir_block_def w l by simp
  moreover have "enc (new_rec num nm ft ?B) = ?h @ nm @ replicate (?B - 8 - length nm) 0"
    unfolding enc_def calculation(3) by (simp add: new_rec_def)
  ultimately show ?thesis by simp
qed

lemma grows_dir:
  assumes g: "grows m n m' n'" and inv: "dir_inv m n rss"
  shows "dir_inv m' n' rss"
proof -
  have geom: "geom m" using inv by (simp add: dir_inv_def file_inv_def layout_def)
  have K: "keeps m m'" by (rule grows_keeps [OF g])
  have "file_blocks m' (in_raw n') ! j \<noteq> 0 \<and> lblock m' (in_raw n') j = encs (rss ! j) \<and> (\<forall>r \<in> set (rss ! j). dr_ok r)"
    if "j < length rss" for j
    using grows_lblock [OF g geom dir_block(1) [OF inv that]] inv that by (simp add: dir_inv_def)
  then show ?thesis
    using inv g keeps_blockSize [OF K] by (simp add: dir_inv_def grows_def ext2_isDir_def)
qed

lemma others_kept_trans:
  assumes "file_step m n m1 n1" and "others_kept m1 n1 m2" and "inode_ok m n"
  shows "others_kept m n m2"
proof -
  have K: "keeps m m1" using assms by (simp add: file_step_def)
  have I: "inode_block m1 (in_num n1) = inode_block m (in_num n)"
    using keeps_inode_place [OF K, of "in_num n"] assms(1,3) by (simp add: file_step_def inode_ok_def)
  show ?thesis
    using assms(1,2) keeps_data [OF K] I unfolding file_step_def others_kept_def by auto
qed

text \<open>The block behind the last one.\<close>

lemma dir_end:
  assumes inv: "dir_inv m n rss"
  shows "unat (ucast (ext2_size n div ucast (m_blockSize m)) :: u32) = length rss" "in_file m (length rss)"
proof -
  let ?B = "unat (m_blockSize m)"
  have geom: "geom m" using inv by (simp add: dir_inv_def file_inv_def layout_def)
  have B: "0 < ?B" by (rule bs_pos [OF geom])
  have szlt: "length rss * ?B < 2 ^ 32"
    using inv unsigned_less [of "i_size (in_raw n)", where ?'a = nat] by (simp add: dir_inv_def)
  have "unat (ext2_size n div ucast (m_blockSize m)) = length rss"
    using B inv by (simp add: unat_div unat_widen dir_inv_def ext2_size_def)
  moreover have "length rss \<le> length rss * ?B" using B by simp
  then have "length rss < 2 ^ 32" using szlt by linarith
  ultimately show "unat (ucast (ext2_size n div ucast (m_blockSize m)) :: u32) = length rss"
    using ucast_down [of "ext2_size n div ucast (m_blockSize m)"] by simp
  show "in_file m (length rss)" using in_file_byte [OF geom szlt] B by simp
qed

lemma dir_append:
  assumes inv: "dir_inv m n rss" and nm: "name_ok nm" and size: "Suc (length rss) * unat (m_blockSize m) < 2 ^ 32"
    and al: "blockMapAlloc (ucast (ext2_size n div ucast (m_blockSize m))) n m = (q, n1, m1)" and q: "q \<noteq> 0"
    and m2_def: "m2 = writeBlock q (new_dir_block m1 num nm ft) m1"
    and n2_def: "n2 = n1\<lparr>in_raw := set_i_size (i_size (in_raw n1) + m_blockSize m2) (in_raw n1)\<rparr>"
    and m3_def: "m3 = writeRawInode (in_num n2) (in_raw n2) m2"
  shows "dir_inv m3 n2 (rss @ [[new_rec num nm ft (unat (m_blockSize m))]])" "others_kept m n m3" "in_num n2 = in_num n"
proof -
  let ?B = "unat (m_blockSize m)" and ?r = "new_rec num nm ft (unat (m_blockSize m))"
  define l :: u32 where "l = ucast (ext2_size n div ucast (m_blockSize m))"
  have geom: "geom m" and finv: "file_inv m n" using inv by (simp_all add: dir_inv_def file_inv_def layout_def)
  have B: "1024 \<le> ?B" "?B < 2 ^ 16" using geom by (auto simp: geom_def)
  have l: "unat l = length rss" and lf: "in_file m (unat l)" using dir_end [OF inv] by (simp_all add: l_def)
  obtain p where p: "block_path m l = Some p" using file_blocks_at [OF geom lf] by blast
  note G = grows_blockMapAlloc [OF finv p al [folded l_def]]
  have K1: "keeps m m1" by (rule grows_keeps [OF G(1)])
  have geom1: "geom m1" and B1: "m_blockSize m1 = m_blockSize m"
    using K1 keeps_blockSize by (simp_all add: keeps_def layout_def)
  have lf1: "in_file m1 (unat l)" using lf keeps_ptrs [OF K1] by (simp add: in_file_def)
  have "block_path m1 l = Some p" using p keeps_ptrs [OF K1] by (simp add: block_path_def)
  then have fb: "file_blocks m1 (in_raw n1) ! unat l = q"
    using file_blocks_at [OF geom1 lf1, of "in_raw n1"] G(3) [OF q] by auto
  have d1: "dir_inv m1 n1 rss" by (rule grows_dir [OF G(1) inv])
  have up: "up4 (8 + length nm) \<le> ?B" using up4_ge(2) [of "8 + length nm"] nm B(1) by (simp add: name_ok_def)
  note R = new_rec_props [OF nm up B(2), of num ft]
  have nb: "new_dir_block m1 num nm ft = encs [?r]" using new_dir_block_enc [OF geom1 nm] B1 by simp
  have len: "length (encs [?r]) = unat (m_blockSize m1)" using R(1) B1 by simp
  note W = write_leaf [OF grows_inv [OF G(1)] lf1 fb q len, folded nb, folded m2_def]
  have fs2: "file_inv m2 n1" "keeps m1 m2" using W(1) by (simp_all add: file_step_def)
  have B2: "m_blockSize m2 = m_blockSize m" using keeps_blockSize [OF fs2(2)] B1 by simp
  have st: "file_step m n m2 n1" by (rule file_step_trans [OF grows_file_step [OF G(1)] W(1) file_inv_inode [OF finv]])
  have l128: "length (in_raw n1) = 128" using fs2(1) by (simp add: file_inv_def inode_ok_def)
  define raw where "raw = set_i_size (i_size (in_raw n1) + m_blockSize m2) (in_raw n1)"
  note F = set_size_fields [OF l128, where v = "i_size (in_raw n1) + m_blockSize m2", folded raw_def]
  have n2: "n2 = n1\<lparr>in_raw := raw\<rparr>" by (simp add: n2_def raw_def)
  have m3: "m3 = writeRawInode (in_num n1) raw m2" by (simp add: m3_def n2)
  note U = update_raw [OF fs2(1) F(1,4), simplified, folded m3, folded n2]
  have raw2: "in_raw n2 = raw" "in_num n2 = in_num n1" by (simp_all add: n2)
  show "in_num n2 = in_num n" using st raw2(2) by (simp add: file_step_def)
  show "others_kept m n m3"
    by (rule others_kept_trans [OF st _ file_inv_inode [OF finv]]) (use U(4) in \<open>auto simp: others_kept_def\<close>)
  have ptr: "in_file m2 j = in_file m j" for j using keeps_ptrs [OF K1] keeps_ptrs [OF fs2(2)] by (simp add: in_file_def)
  have blocks: "file_blocks m3 raw ! j \<noteq> 0 \<and> lblock m3 raw j = encs ((rss @ [[?r]]) ! j) \<and> (\<forall>r \<in> set ((rss @ [[?r]]) ! j). dr_ok r)"
    if "j < Suc (length rss)" for j
  proof (cases "j < length rss")
    case True
    have jf: "in_file m1 j" by (rule dir_block(1) [OF d1 True])
    then have jf2: "in_file m2 j" using keeps_ptrs [OF fs2(2)] by (simp add: in_file_def)
    show ?thesis using True d1 W(2,3) [OF jf] U(6,7) [OF jf2] l by (simp add: dir_inv_def nth_append)
  next
    case False
    then have j: "j = unat l" using that l by simp
    then have jf: "in_file m1 j" "in_file m2 j" using lf1 keeps_ptrs [OF fs2(2)] by (simp_all add: in_file_def)
    show ?thesis using j W(2,3) [OF jf(1)] U(6,7) [OF jf(2)] fb q nb R(2) l by (simp add: nth_append)
  qed
  have i1: "unat (i_size (in_raw n1)) = length rss * ?B" using d1 B1 by (simp add: dir_inv_def)
  have "unat (i_size (in_raw n1) + m_blockSize m2) = Suc (length rss) * ?B"
    using size i1 B2 by (simp add: unat_word_ariths)
  moreover have "ext2_isDir n2" using d1 F(3) by (simp add: dir_inv_def ext2_isDir_def raw2)
  moreover have "m_blockSize m3 = m_blockSize m" using keeps_blockSize [OF U(1)] B2 by simp
  ultimately show "dir_inv m3 n2 (rss @ [[?r]])" using U(2) blocks F(2) by (simp add: dir_inv_def raw2)
qed

lemma addDirEntry_correct:
  fixes num :: u32
  assumes inv: "dir_inv m n rss" and nm: "name_ok nm" and num: "num \<noteq> 0"
    and size: "Suc (length rss) * unat (m_blockSize m) < 2 ^ 32"
    and e_def: "e = \<lparr>de_name = nm, de_inodeNum = num, de_fileType = ft\<rparr>"
  defines "grp \<equiv> inode_group m (in_num n)"
  shows "if nm \<in> de_name ` set (dir_of rss) then addDirEntry n num nm ft m = Some (Inr (- 1, n, m))
    else \<exists>r n' m' rss'. addDirEntry n num nm ft m = Some (Inr (r, n', m')) \<and> dir_inv m' n' rss' \<and> others_kept m n m'
      \<and> in_num n' = in_num n
      \<and> (r = 0 \<and> mset (dir_of rss') = add_mset e (mset (dir_of rss)) \<or> r = - 1 \<and> rss' = rss \<and> fst (allocBlock grp m') = 0)"
proof -
  have found: "find_entry m n nm 0 = Some (Inr (find (\<lambda>e. de_name e = nm) (dir_of rss)))"
    using find_entry_correct [OF inv, of 0] by simp
  have geom: "geom m" and finv: "file_inv m n" using inv by (simp_all add: dir_inv_def file_inv_def layout_def)
  show ?thesis
  proof (cases "nm \<in> de_name ` set (dir_of rss)")
    case True
    then have "find (\<lambda>e. de_name e = nm) (dir_of rss) \<noteq> None" by (auto simp: find_None_iff)
    then show ?thesis using True found by (simp add: addDirEntry_def)
  next
    case False
    then have none: "find (\<lambda>e. de_name e = nm) (dir_of rss) = None" by (auto simp: find_None_iff)
    have off: "unat (0 :: u32) = 0 * unat (m_blockSize m)" by simp
    consider "add_loop n num nm ft 0 m = Some (Inr None)"
      | k as r bs where "k < length rss" "rss ! k = as @ r # bs" "up4 (8 + length nm) \<le> dr_len r - dr_used r"
        "add_loop n num nm ft 0 m = Some (Inr (Some (writeBlock (file_blocks m (in_raw n) ! k) (encs (as @ split_rec num nm ft r @ bs)) m)))"
      using add_loop_correct [OF inv nm le0 off] by blast
    then have "\<exists>r n' m' rss'. addDirEntry n num nm ft m = Some (Inr (r, n', m')) \<and> dir_inv m' n' rss' \<and> others_kept m n m'
      \<and> in_num n' = in_num n
      \<and> (r = 0 \<and> mset (dir_of rss') = add_mset e (mset (dir_of rss)) \<or> r = - 1 \<and> rss' = rss \<and> fst (allocBlock grp m') = 0)"
    proof cases
      case 1
      obtain q n1 m1 where al: "blockMapAlloc (ucast (ext2_size n div ucast (m_blockSize m))) n m = (q, n1, m1)"
        by (cases "blockMapAlloc (ucast (ext2_size n div ucast (m_blockSize m))) n m") auto
      define m2 where "m2 = writeBlock q (new_dir_block m1 num nm ft) m1"
      define n2 where "n2 = n1\<lparr>in_raw := set_i_size (i_size (in_raw n1) + m_blockSize m2) (in_raw n1)\<rparr>"
      define m3 where "m3 = writeRawInode (in_num n2) (in_raw n2) m2"
      have run: "addDirEntry n num nm ft m = (if q = 0 then Some (Inr (- 1, n1, m1)) else Some (Inr (0, n2, m3)))"
        using found none 1 al by (simp add: addDirEntry_def Let_def m2_def n2_def m3_def)
      show ?thesis
      proof (cases "q = 0")
        case True
        have "in_file m (unat (ucast (ext2_size n div ucast (m_blockSize m)) :: u32))" using dir_end [OF inv] by simp
        then obtain p where p: "block_path m (ucast (ext2_size n div ucast (m_blockSize m))) = Some p"
          using file_blocks_at [OF geom] by blast
        note G = grows_blockMapAlloc [OF finv p al]
        have "others_kept m n m1" "in_num n1 = in_num n" using G(1) by (auto simp: grows_def others_kept_def)
        then show ?thesis using run True grows_dir [OF G(1) inv] G(2) [OF True] by (auto simp: grp_def)
      next
        case q: False
        note A = dir_append [OF inv nm size al q m2_def n2_def m3_def]
        have "1024 \<le> unat (m_blockSize m)" "unat (m_blockSize m) < 2 ^ 16" using geom by (auto simp: geom_def)
        then have up: "up4 (8 + length nm) \<le> unat (m_blockSize m)" and lt: "unat (m_blockSize m) < 2 ^ 16"
          using up4_ge(2) [of "8 + length nm"] nm by (simp_all add: name_ok_def)
        have "dr_inode (new_rec num nm ft (unat (m_blockSize m))) = num" by (simp add: new_rec_def)
        then have "mset (dir_of (rss @ [[new_rec num nm ft (unat (m_blockSize m))]])) = add_mset e (mset (dir_of rss))"
          using new_rec_props(3) [OF nm up lt, of num ft] num by (simp add: e_def)
        then show ?thesis using run q A by auto
      qed
    next
      case 2
      have ok: "\<forall>s \<in> set (as @ r # bs). dr_ok s" using inv 2(1,2) unfolding dir_inv_def by metis
      then have okr: "dr_ok r" by simp
      note S = split_rec_props [OF okr nm 2(3) num, of ft]
      have rs: "\<forall>s \<in> set (as @ split_rec num nm ft r @ bs). dr_ok s" using S(1) ok by auto
      have len: "length (encs (as @ split_rec num nm ft r @ bs)) = unat (m_blockSize m)"
        using S(2) dir_block(4) [OF inv 2(1)] 2(2) by simp
      note D = dir_update [OF inv 2(1) rs len]
      have "mset (dir_of (rss[k := as @ split_rec num nm ft r @ bs])) = add_mset e (mset (dir_of rss))"
        using S(3) 2(2) unfolding dir_of_update(1) [OF 2(1)] dir_of_update(2) [OF 2(1)] by (simp add: e_def)
      then show ?thesis using found none 2(4) D by (auto simp: addDirEntry_def)
    qed
    then show ?thesis using False by auto
  qed
qed

lemma remove_loop_correct:
  assumes inv: "dir_inv m n rss"
  shows "j \<le> length rss \<Longrightarrow> unat off = j * unat (m_blockSize m) \<Longrightarrow>
    (remove_loop n nm off m = Some (Inr (- 1, m)) \<and> (\<forall>k. j \<le> k \<and> k < length rss \<longrightarrow> (\<forall>r \<in> set (rss ! k). \<not> has_name nm r)))
    \<or> (\<exists>k as r bs. k < length rss \<and> rss ! k = as @ r # bs \<and> has_name nm r
         \<and> remove_loop n nm off m = Some (Inr (0, writeBlock (file_blocks m (in_raw n) ! k) (encs (merged as r @ bs)) m)))"
proof (induction "length rss - j" arbitrary: j off)
  case 0
  then have "\<not> off < ext2_size n" using dir_offset(1) [OF inv, of j off] by (simp add: ext2_size_def)
  then show ?case using 0 by (auto simp: remove_loop.simps)
next
  case (Suc d)
  let ?B = "unat (m_blockSize m)" and ?rs = "rss ! j" and ?p = "file_blocks m (in_raw n) ! j"
  have j: "j < length rss" using Suc.hyps(2) by simp
  note D = dir_block [OF inv j] and O = dir_offset [OF inv Suc.prems]
  have geom: "geom m" using inv by (simp add: dir_inv_def file_inv_def layout_def)
  have ok: "\<forall>r \<in> set ?rs. dr_ok r" and nz: "?p \<noteq> 0" using inv j by (simp_all add: dir_inv_def)
  have body: "remove_loop n nm off m =
    bindR (Some (remove_scan (encs ?rs) ?B nm 0 None)) (\<lambda>r.
      case r of
        None \<Rightarrow> remove_loop n nm (off + ucast (m_blockSize m)) m
      | Some (o', prev) \<Rightarrow> Some (Inr (0, writeBlock ?p (delete_record o' prev (encs ?rs)) m)))"
    using O(1,2) j D(3,5) nz by (subst remove_loop.simps) (simp add: Let_def ext2_size_def)
  from remove_scan_correct [OF ok, of "encs ?rs" "[]" nm None] D(4)
  consider "remove_scan (encs ?rs) ?B nm 0 None = Inr None" "\<forall>r \<in> set ?rs. \<not> has_name nm r"
    | as r bs where "?rs = as @ r # bs" "has_name nm r"
      "remove_scan (encs ?rs) ?B nm 0 None = Inr (Some (length (encs as), if as = [] then None else Some (length (encs (butlast as)))))"
    by auto
  then show ?case
  proof cases
    case 1
    have "remove_loop n nm off m = remove_loop n nm (off + ucast (m_blockSize m)) m" using body 1(1) by simp
    moreover have "d = length rss - Suc j" "Suc j \<le> length rss" using Suc.hyps(2) j by simp_all
    moreover have "(\<forall>k. j \<le> k \<and> k < length rss \<longrightarrow> (\<forall>r \<in> set (rss ! k). \<not> has_name nm r)) \<longleftrightarrow>
      (\<forall>k. Suc j \<le> k \<and> k < length rss \<longrightarrow> (\<forall>r \<in> set (rss ! k). \<not> has_name nm r))"
      using 1(2) j by (metis Suc_leD Suc_leI le_neq_implies_less)
    ultimately show ?thesis using Suc.hyps(1) [OF _ _ O(3) [OF j]] by simp
  next
    case 2
    have lt: "length (encs ?rs) < 2 ^ 16" using D(4) geom by (auto simp: geom_def)
    have "delete_record (length (encs as)) (if as = [] then None else Some (length (encs (butlast as)))) (encs ?rs) = encs (merged as r @ bs)"
      using delete_record_correct [of as r bs "encs ?rs"] ok 2(1) lt by simp
    then have "remove_loop n nm off m = Some (Inr (0, writeBlock ?p (encs (merged as r @ bs)) m))" using body 2(3) by simp
    then show ?thesis using j 2(1,2) by blast
  qed
qed

lemma removeDirEntry_correct:
  assumes inv: "dir_inv m n rss"
  shows "if nm \<in> de_name ` set (dir_of rss)
    then \<exists>m' rss' e. removeDirEntry n nm m = Some (Inr (0, m')) \<and> dir_inv m' n rss' \<and> others_kept m n m' \<and> keeps m m'
      \<and> length rss' = length rss \<and> de_name e = nm \<and> mset (dir_of rss) = add_mset e (mset (dir_of rss'))
    else removeDirEntry n nm m = Some (Inr (- 1, m))"
proof -
  have geom: "geom m" using inv by (simp add: dir_inv_def file_inv_def layout_def)
  have names: "nm \<in> de_name ` set (dir_of rss) \<longleftrightarrow> (\<exists>k < length rss. \<exists>r \<in> set (rss ! k). has_name nm r)"
  proof -
    have "nm \<in> de_name ` set (dir_of rss) \<longleftrightarrow> (\<exists>rs \<in> set rss. \<exists>r \<in> set rs. has_name nm r)"
      by (auto simp: dir_of_def entries_def has_name_def dir_entry_def image_iff)
    then show ?thesis by (metis in_set_conv_nth)
  qed
  have off: "unat (0 :: u64) = 0 * unat (m_blockSize m)" by simp
  consider "remove_loop n nm 0 m = Some (Inr (- 1, m))" "\<forall>k < length rss. \<forall>r \<in> set (rss ! k). \<not> has_name nm r"
    | k as r bs where "k < length rss" "rss ! k = as @ r # bs" "has_name nm r"
      "remove_loop n nm 0 m = Some (Inr (0, writeBlock (file_blocks m (in_raw n) ! k) (encs (merged as r @ bs)) m))"
    using remove_loop_correct [OF inv le0 off, of nm] by blast
  then show ?thesis
  proof cases
    case 1
    then show ?thesis using names by (auto simp: removeDirEntry_def)
  next
    case 2
    have ok: "\<forall>s \<in> set (as @ r # bs). dr_ok s" using inv 2(1,2) unfolding dir_inv_def by metis
    note D = dir_block(4) [OF inv 2(1)]
    have "unat (m_blockSize m) < 2 ^ 16" using geom by (auto simp: geom_def)
    then have small: "length (encs (as @ [r])) < 2 ^ 16" using D 2(2) by simp
    have ok': "\<forall>s \<in> set (as @ [r]). dr_ok s" and r: "dr_inode r \<noteq> 0" "dr_name r = nm"
      using ok 2(3) by (auto simp: has_name_def)
    note M = merged_props [OF ok' small r(1)]
    have rs: "\<forall>s \<in> set (merged as r @ bs). dr_ok s" using M(1) ok by auto
    have len: "length (encs (merged as r @ bs)) = unat (m_blockSize m)" using M(2) D 2(2) by simp
    note U = dir_update [OF inv 2(1) rs len]
    have "mset (dir_of rss) = add_mset (dir_entry r) (mset (dir_of (rss[k := merged as r @ bs])))"
      using M(3) r(1) 2(2) unfolding dir_of_update(1) [OF 2(1)] dir_of_update(2) [OF 2(1)] by simp
    moreover have "de_name (dir_entry r) = nm" using r(2) by (simp add: dir_entry_def)
    moreover have "nm \<in> de_name ` set (dir_of rss)" unfolding names using 2(1-3) by auto
    moreover have "removeDirEntry n nm m = Some (Inr (0, writeBlock (file_blocks m (in_raw n) ! k) (encs (merged as r @ bs)) m))"
      using 2(4) by (simp add: removeDirEntry_def)
    ultimately show ?thesis
      using U by (auto intro!: exI [of _ "rss[k := merged as r @ bs]"])
  qed
qed

section \<open>Directories as maps\<close>

definition dir_map :: "drec list list \<Rightarrow> name \<rightharpoonup> u32 \<times> u8" where
  "dir_map rss = map_of (map (\<lambda>e. (de_name e, (de_inodeNum e, de_fileType e))) (dir_of rss))"

definition dir_distinct :: "drec list list \<Rightarrow> bool" where
  "dir_distinct rss \<longleftrightarrow> distinct (map de_name (dir_of rss))"

lemma option_eq_pairI: "(\<And>a b. x = Some (a, b) \<longleftrightarrow> y = Some (a, b)) \<Longrightarrow> x = y"
  by (cases x; cases y) auto

lemma dir_map_Some:
  assumes "dir_distinct rss"
  shows "dir_map rss nm = Some (i, t) \<longleftrightarrow> \<lparr>de_name = nm, de_inodeNum = i, de_fileType = t\<rparr> \<in> set (dir_of rss)"
proof -
  have "distinct (map fst (map (\<lambda>e. (de_name e, (de_inodeNum e, de_fileType e))) (dir_of rss)))"
    using assms by (simp add: dir_distinct_def comp_def)
  then have "dir_map rss nm = Some (i, t) \<longleftrightarrow> (nm, (i, t)) \<in> (\<lambda>e. (de_name e, (de_inodeNum e, de_fileType e))) ` set (dir_of rss)"
    by (simp add: dir_map_def)
  also have "\<dots> \<longleftrightarrow> \<lparr>de_name = nm, de_inodeNum = i, de_fileType = t\<rparr> \<in> set (dir_of rss)"
  proof
    assume "(nm, (i, t)) \<in> (\<lambda>e. (de_name e, (de_inodeNum e, de_fileType e))) ` set (dir_of rss)"
    then obtain e where "e \<in> set (dir_of rss)" "nm = de_name e" "i = de_inodeNum e" "t = de_fileType e" by auto
    moreover have "e = \<lparr>de_name = de_name e, de_inodeNum = de_inodeNum e, de_fileType = de_fileType e\<rparr>" by simp
    ultimately show "\<lparr>de_name = nm, de_inodeNum = i, de_fileType = t\<rparr> \<in> set (dir_of rss)" by metis
  next
    assume "\<lparr>de_name = nm, de_inodeNum = i, de_fileType = t\<rparr> \<in> set (dir_of rss)"
    then show "(nm, (i, t)) \<in> (\<lambda>e. (de_name e, (de_inodeNum e, de_fileType e))) ` set (dir_of rss)"
      by (rule rev_image_eqI) simp
  qed
  finally show ?thesis .
qed

lemma dir_map_dom: "dom (dir_map rss) = de_name ` set (dir_of rss)"
  by (simp add: dir_map_def dom_map_of_conv_image_fst image_image)

lemma dir_map_add:
  assumes d: "dir_distinct rss" and ms: "mset (dir_of rss') = add_mset e (mset (dir_of rss))" and new: "de_name e \<notin> de_name ` set (dir_of rss)"
  shows "dir_distinct rss'" "dir_map rss' = (dir_map rss)(de_name e \<mapsto> (de_inodeNum e, de_fileType e))"
proof -
  have st: "set (dir_of rss') = insert e (set (dir_of rss))" using arg_cong [OF ms, of set_mset] by simp
  have "mset (map de_name (dir_of rss')) = mset (de_name e # map de_name (dir_of rss))"
    using arg_cong [OF ms, of "image_mset de_name"] by simp
  moreover have "distinct (de_name e # map de_name (dir_of rss))" using d new by (simp add: dir_distinct_def)
  ultimately show d': "dir_distinct rss'" unfolding dir_distinct_def by (metis mset_eq_imp_distinct_iff)
  show "dir_map rss' = (dir_map rss)(de_name e \<mapsto> (de_inodeNum e, de_fileType e))"
  proof (rule ext, rule option_eq_pairI)
    fix nm i t
    have "\<lparr>de_name = nm, de_inodeNum = i, de_fileType = t\<rparr> = e \<longleftrightarrow> nm = de_name e \<and> i = de_inodeNum e \<and> t = de_fileType e"
      by (cases e) auto
    moreover have "\<lparr>de_name = de_name e, de_inodeNum = i, de_fileType = t\<rparr> \<notin> set (dir_of rss)"
    proof
      assume "\<lparr>de_name = de_name e, de_inodeNum = i, de_fileType = t\<rparr> \<in> set (dir_of rss)"
      from imageI [OF this, of de_name] show False using new by simp
    qed
    ultimately show "dir_map rss' nm = Some (i, t) \<longleftrightarrow> ((dir_map rss)(de_name e \<mapsto> (de_inodeNum e, de_fileType e))) nm = Some (i, t)"
      unfolding dir_map_Some [OF d'] st by (auto simp: dir_map_Some [OF d])
  qed
qed

lemma dir_map_remove:
  assumes d: "dir_distinct rss" and ms: "mset (dir_of rss) = add_mset e (mset (dir_of rss'))"
  shows "dir_distinct rss'" "dir_map rss' = (dir_map rss)(de_name e := None)"
proof -
  have "mset (map de_name (dir_of rss)) = mset (de_name e # map de_name (dir_of rss'))"
    using arg_cong [OF ms, of "image_mset de_name"] by simp
  then have "distinct (de_name e # map de_name (dir_of rss'))"
    using d unfolding dir_distinct_def by (metis mset_eq_imp_distinct_iff)
  then have new: "de_name e \<notin> de_name ` set (dir_of rss')" and d': "dir_distinct rss'" by (simp_all add: dir_distinct_def)
  show "dir_distinct rss'" by (rule d')
  have "dir_map rss' (de_name e) = None" using new dir_map_dom [of rss'] by (metis domIff)
  then show "dir_map rss' = (dir_map rss)(de_name e := None)" using dir_map_add(2) [OF d' ms new] by auto
qed

lemma find_dir_map:
  assumes d: "dir_distinct rss"
  shows "find (\<lambda>e. de_name e = nm) (dir_of rss) =
    map_option (\<lambda>(i, t). \<lparr>de_name = nm, de_inodeNum = i, de_fileType = t\<rparr>) (dir_map rss nm)"
proof (cases "find (\<lambda>e. de_name e = nm) (dir_of rss)")
  case None
  then have "nm \<notin> dom (dir_map rss)" by (auto simp: find_None_iff dir_map_dom)
  then have "dir_map rss nm = None" by blast
  then show ?thesis using None by simp
next
  case (Some e)
  then have "e \<in> set (dir_of rss)" "de_name e = nm" by (auto simp: find_Some_iff)
  moreover have e: "e = \<lparr>de_name = de_name e, de_inodeNum = de_inodeNum e, de_fileType = de_fileType e\<rparr>" by simp
  ultimately have "dir_map rss nm = Some (de_inodeNum e, de_fileType e)" unfolding dir_map_Some [OF d] by metis
  then show ?thesis using Some \<open>de_name e = nm\<close> by simp
qed

lemma find_entry_map:
  assumes "dir_inv m n rss" and "dir_distinct rss"
  shows "find_entry m n nm 0 =
    Some (Inr (map_option (\<lambda>(i, t). \<lparr>de_name = nm, de_inodeNum = i, de_fileType = t\<rparr>) (dir_map rss nm)))"
  using find_entry_correct [OF assms(1), of 0 nm] find_dir_map [OF assms(2)] by simp

lemma dir_map_inode: "dir_distinct rss \<Longrightarrow> dir_map rss nm = Some (i, t) \<Longrightarrow> i \<noteq> 0"
  by (auto simp: dir_map_Some dir_of_def entries_def dir_entry_def)

text \<open>Adding and removing an entry, on the directory as a map.\<close>

lemma add_entry_map:
  assumes inv: "dir_inv m n rss" and d: "dir_distinct rss" and nm: "name_ok nm" and num: "num \<noteq> 0"
    and size: "Suc (length rss) * unat (m_blockSize m) < 2 ^ 32" and new: "dir_map rss nm = None"
  shows "\<exists>r n' m' rss'. addDirEntry n num nm ft m = Some (Inr (r, n', m')) \<and> dir_inv m' n' rss' \<and> dir_distinct rss'
    \<and> others_kept m n m' \<and> in_num n' = in_num n
    \<and> (r = 0 \<and> dir_map rss' = (dir_map rss)(nm \<mapsto> (num, ft))
       \<or> r = - 1 \<and> rss' = rss \<and> fst (allocBlock (inode_group m (in_num n)) m') = 0)"
proof -
  have fresh: "nm \<notin> de_name ` set (dir_of rss)" using new dir_map_dom [of rss] by (metis domIff)
  let ?e = "\<lparr>de_name = nm, de_inodeNum = num, de_fileType = ft\<rparr>"
  obtain r n' m' rss' where A: "addDirEntry n num nm ft m = Some (Inr (r, n', m'))" "dir_inv m' n' rss'" "others_kept m n m'"
    "in_num n' = in_num n" "r = 0 \<and> mset (dir_of rss') = add_mset ?e (mset (dir_of rss))
      \<or> r = - 1 \<and> rss' = rss \<and> fst (allocBlock (inode_group m (in_num n)) m') = 0"
    using addDirEntry_correct [OF inv nm num size refl, of ft] fresh by auto
  have "r = 0 \<and> dir_distinct rss' \<and> dir_map rss' = (dir_map rss)(nm \<mapsto> (num, ft))
    \<or> r = - 1 \<and> rss' = rss \<and> fst (allocBlock (inode_group m (in_num n)) m') = 0"
    using A(5) dir_map_add [OF d, of rss' ?e] fresh by auto
  then show ?thesis using A(1-4) d by blast
qed

lemma remove_entry_map:
  assumes inv: "dir_inv m n rss" and d: "dir_distinct rss" and old: "dir_map rss nm \<noteq> None"
  shows "\<exists>m' rss'. removeDirEntry n nm m = Some (Inr (0, m')) \<and> dir_inv m' n rss' \<and> dir_distinct rss'
    \<and> others_kept m n m' \<and> keeps m m' \<and> length rss' = length rss \<and> dir_map rss' = (dir_map rss)(nm := None)"
proof -
  have "nm \<in> de_name ` set (dir_of rss)" using old dir_map_dom [of rss] by (metis domIff)
  then obtain m' rss' e where "removeDirEntry n nm m = Some (Inr (0, m'))" "dir_inv m' n rss'" "others_kept m n m'" "keeps m m'"
    "length rss' = length rss" "de_name e = nm" "mset (dir_of rss) = add_mset e (mset (dir_of rss'))"
    using removeDirEntry_correct [OF inv, of nm] by auto
  then show ?thesis using dir_map_remove [OF d, of e rss'] by blast
qed

text \<open>The target of a rename is removed first, when there is one.\<close>

lemma rename_target:
  assumes inv: "dir_inv m n rss" and d: "dir_distinct rss"
  obtains m1 rss1 where "if dir_map rss new = None then m1 = m else removeDirEntry n new m = Some (Inr (0, m1))"
    "dir_inv m1 n rss1" "dir_distinct rss1" "length rss1 = length rss" "m_blockSize m1 = m_blockSize m"
    "inode_group m1 (in_num n) = inode_group m (in_num n)" "dir_map rss1 = (dir_map rss)(new := None)"
proof (cases "dir_map rss new")
  case None
  then have "dir_map rss = (dir_map rss)(new := None)" by auto
  then show ?thesis using that [of m rss] None inv d by simp
next
  case (Some e)
  then have "dir_map rss new \<noteq> None" by simp
  from remove_entry_map [OF inv d this] obtain m' rss' where R: "removeDirEntry n new m = Some (Inr (0, m'))" "dir_inv m' n rss'"
    "dir_distinct rss'" "keeps m m'" "length rss' = length rss" "dir_map rss' = (dir_map rss)(new := None)" by blast
  have "inode_group m (in_num n) < m_groupCount m" using inv by (simp add: dir_inv_def file_inv_def inode_ok_def)
  then show ?thesis
    using that [of m' rss'] Some R keeps_blockSize [OF R(4)] keeps_inode_place [OF R(4), of "in_num n"] by simp
qed

section \<open>Properties\<close>

text \<open>
  C25: a well-formed ext2 directory is a finite map from names to inode numbers and types. Looking a name up with
  \<^verbatim>\<open>readdir\<close> returns, with what the map has. \<^verbatim>\<open>Ext2Mount::addDirEntry\<close> of a name that is there returns -1 and changes
  nothing; otherwise it adds exactly that name, or returns -1 because no block could be allocated.
  \<^verbatim>\<open>Ext2Mount::removeDirEntry\<close> removes exactly the name, or returns -1 and changes nothing when it is not there. The
  directory stays well formed, and the blocks of other files are not touched.
\<close>

theorem ext2_directory_is_a_map:
  assumes "dir_inv m n rss" and "dir_distinct rss" and "name_ok nm" and "num \<noteq> 0"
    and "Suc (length rss) * unat (m_blockSize m) < 2 ^ 32"
  shows "find_entry m n nm 0 =
      Some (Inr (map_option (\<lambda>(i, t). \<lparr>de_name = nm, de_inodeNum = i, de_fileType = t\<rparr>) (dir_map rss nm)))
    \<and> (case dir_map rss nm of
        Some e \<Rightarrow> addDirEntry n num nm ft m = Some (Inr (- 1, n, m))
          \<and> (\<exists>m' rss'. removeDirEntry n nm m = Some (Inr (0, m')) \<and> dir_inv m' n rss' \<and> dir_distinct rss' \<and> others_kept m n m'
               \<and> dir_map rss' = (dir_map rss)(nm := None))
      | None \<Rightarrow> removeDirEntry n nm m = Some (Inr (- 1, m))
          \<and> (\<exists>r n' m' rss'. addDirEntry n num nm ft m = Some (Inr (r, n', m')) \<and> dir_inv m' n' rss' \<and> dir_distinct rss'
               \<and> others_kept m n m'
               \<and> (r = 0 \<and> dir_map rss' = (dir_map rss)(nm \<mapsto> (num, ft))
                  \<or> r = - 1 \<and> rss' = rss \<and> fst (allocBlock (inode_group m (in_num n)) m') = 0)))"
proof (cases "dir_map rss nm")
  case None
  then have "nm \<notin> de_name ` set (dir_of rss)" using dir_map_dom [of rss] by (metis domIff)
  then have "removeDirEntry n nm m = Some (Inr (- 1, m))" using removeDirEntry_correct [OF assms(1), of nm] by simp
  then show ?thesis using None find_entry_map [OF assms(1,2)] add_entry_map [OF assms None, of ft] by auto
next
  case (Some e)
  then have "nm \<in> de_name ` set (dir_of rss)" using dir_map_dom [of rss] by (metis domIff option.distinct(1))
  then have "addDirEntry n num nm ft m = Some (Inr (- 1, n, m))"
    using addDirEntry_correct [OF assms(1,3-5) refl, of ft] by simp
  then show ?thesis using Some find_entry_map [OF assms(1,2)] remove_entry_map [OF assms(1,2), of nm] by auto
qed

text \<open>
  C26: \<^verbatim>\<open>Ext2Mount::rename\<close> within one directory returns. It is -1 without change when the old name is not there. Otherwise,
  if the new name already stands for the same inode, it is 0 without change; if not, the old name disappears and the new
  name stands for its inode and type, whatever it stood for before, or no block could be allocated and the result is -1.
\<close>

theorem ext2_rename_moves_entry:
  assumes "dir_inv m n rss" and "dir_distinct rss" and "name_ok new" and "Suc (length rss) * unat (m_blockSize m) < 2 ^ 32"
  shows "case dir_map rss old of
      None \<Rightarrow> ext2_rename True n old n new m = Some (Inr (- 1, n, n, m))
    | Some (i, t) \<Rightarrow>
        if \<exists>t'. dir_map rss new = Some (i, t') then ext2_rename True n old n new m = Some (Inr (0, n, n, m))
        else \<exists>r n' m' rss'. ext2_rename True n old n new m = Some (Inr (r, n', n', m')) \<and> dir_inv m' n' rss' \<and> dir_distinct rss'
          \<and> (r = 0 \<and> dir_map rss' = ((dir_map rss)(new \<mapsto> (i, t)))(old := None)
             \<or> r = - 1 \<and> fst (allocBlock (inode_group m (in_num n)) m') = 0)"
proof -
  note F = find_entry_map [OF assms(1,2)]
  show ?thesis
  proof (cases "dir_map rss old")
    case None
    then show ?thesis using F [of old] by (simp add: ext2_rename_def)
  next
    case (Some it)
    obtain i t where it: "it = (i, t)" by (cases it)
    have i: "i \<noteq> 0" using dir_map_inode [OF assms(2)] Some it by simp
    let ?e = "\<lparr>de_name = old, de_inodeNum = i, de_fileType = t\<rparr>"
    have fo: "find_entry m n old 0 = Some (Inr (Some ?e))" using F [of old] Some it by simp
    show ?thesis
    proof (cases "\<exists>t'. dir_map rss new = Some (i, t')")
      case True
      then show ?thesis using Some it fo F [of new] by (auto simp: ext2_rename_def)
    next
      case False
      then have ne: "old \<noteq> new" using Some it by auto
      obtain m1 rss1 where m1: "if dir_map rss new = None then m1 = m else removeDirEntry n new m = Some (Inr (0, m1))"
        "dir_inv m1 n rss1" "dir_distinct rss1" "length rss1 = length rss" "m_blockSize m1 = m_blockSize m"
        "inode_group m1 (in_num n) = inode_group m (in_num n)" "dir_map rss1 = (dir_map rss)(new := None)"
        by (rule rename_target [OF assms(1,2), of new])
      have body: "ext2_rename True n old n new m =
        bindR (addDirEntry n i new t m1) (\<lambda>(ra, dst1, m2).
          if ra < 0 then Some (Inr (- 1, dst1, dst1, m2))
          else bindR (removeDirEntry dst1 old m2) (\<lambda>(rd, m3).
            if rd < 0 then bindR (removeDirEntry dst1 new m3) (\<lambda>(_, m4). Some (Inr (- 1, dst1, dst1, m4)))
            else Some (Inr (0, dst1, dst1, m3))))"
        using fo F [of new] m1(1) False
        by (cases "dir_map rss new") (auto simp: ext2_rename_def Let_def split: if_splits)
      have "Suc (length rss1) * unat (m_blockSize m1) < 2 ^ 32" using assms(4) m1(4,5) by simp
      from add_entry_map [OF m1(2,3) assms(3) i this, of t] m1(7)
      obtain r n2 m2 rss2 where A: "addDirEntry n i new t m1 = Some (Inr (r, n2, m2))" "dir_inv m2 n2 rss2" "dir_distinct rss2"
        "r = 0 \<and> dir_map rss2 = (dir_map rss1)(new \<mapsto> (i, t)) \<or> r = - 1 \<and> rss2 = rss1 \<and> fst (allocBlock (inode_group m1 (in_num n)) m2) = 0"
        by auto
      show ?thesis
      proof (cases "r = 0")
        case True
        then have dm: "dir_map rss2 = (dir_map rss)(new \<mapsto> (i, t))" using A(4) m1(7) by auto
        then have "dir_map rss2 old \<noteq> None" using Some ne by simp
        from remove_entry_map [OF A(2,3) this]
        obtain m3 rss3 where R: "removeDirEntry n2 old m2 = Some (Inr (0, m3))" "dir_inv m3 n2 rss3" "dir_distinct rss3"
          "dir_map rss3 = (dir_map rss2)(old := None)" by blast
        have "ext2_rename True n old n new m = Some (Inr (0, n2, n2, m3))"
          using body A(1) True R(1) by simp
        then show ?thesis using Some it False R dm by auto
      next
        case r: False
        then have r: "r = - 1" using A(4) by simp
        have "ext2_rename True n old n new m = Some (Inr (- 1, n2, n2, m2))"
          using body A(1) r by simp
        then show ?thesis using Some it False A r m1(6) by auto
      qed
    qed
  qed
qed

text \<open>The root directory of the small file system, still empty.\<close>

definition demo_dir :: Ext2Inode where
  "demo_dir = demo_root\<lparr>in_raw := set_i_mode EXT2_S_IFDIR (in_raw demo_root)\<rparr>"

definition demo_dir_ext2 :: ext2 where
  "demo_dir_ext2 = writeRawInode (in_num demo_dir) (in_raw demo_dir) demo_ext2"

lemma demo_dir_raw:
  "length (in_raw demo_dir) = 128" "i_size (in_raw demo_dir) = 0" "ext2_isDir demo_dir"
  "k < 15 \<Longrightarrow> i_block (in_raw demo_dir) k = i_block (in_raw demo_root) k"
  by (simp_all add: demo_dir_def demo_root_raw set_i_mode_def i_size_def i_block_def ext2_isDir_def i_mode_def rd32_put_other
      EXT2_S_IFDIR_def)

lemma demo_dir_num: "in_num demo_dir = 2" "demo_root\<lparr>in_raw := in_raw demo_dir\<rparr> = demo_dir"
  by (simp_all add: demo_dir_def demo_root_raw)

lemma demo_dir_step:
  "keeps demo_ext2 demo_dir_ext2" "file_inv demo_dir_ext2 demo_dir" "free_blocks demo_dir_ext2 = free_blocks demo_ext2"
  "valid_block demo_ext2 c \<Longrightarrow> c \<noteq> 5 \<Longrightarrow> readBlock demo_dir_ext2 c = readBlock demo_ext2 c"
proof -
  show "keeps demo_ext2 demo_dir_ext2" "file_inv demo_dir_ext2 demo_dir"
    using update_raw(1,2) [OF demo_file_inv demo_dir_raw(1,4)] demo_dir_num by (simp_all add: demo_dir_ext2_def)
  have "inode_ok demo_ext2 demo_dir"
    using file_inv_inode [OF demo_file_inv] demo_dir_raw(1) by (simp add: inode_ok_def demo_dir_num demo_root_raw)
  note W = writeRawInode_correct [OF demo_layout this, folded demo_dir_ext2_def]
  show "free_blocks demo_dir_ext2 = free_blocks demo_ext2" by (rule W(3))
  show "readBlock demo_dir_ext2 c = readBlock demo_ext2 c" if "valid_block demo_ext2 c" "c \<noteq> 5"
    using W(4) that by (simp add: demo_dir_num demo_inode_place)
qed

lemma demo_dir_inv: "dir_inv demo_dir_ext2 demo_dir []" "dir_distinct []" "m_blockSize demo_dir_ext2 = 1024"
  using demo_dir_step(2) demo_dir_raw keeps_blockSize [OF demo_dir_step(1)]
  by (simp_all add: dir_inv_def dir_distinct_def demo_ext2_def)

theorem ext2_directory_is_a_map_witness:
  "removeDirEntry demo_dir [97] demo_dir_ext2 = Some (Inr (- 1, demo_dir_ext2))
   \<and> (\<exists>r n' m' rss'. addDirEntry demo_dir 12 [97] 1 demo_dir_ext2 = Some (Inr (r, n', m')) \<and> dir_inv m' n' rss' \<and> dir_distinct rss'
        \<and> (r = 0 \<and> dir_map rss' = [[97] \<mapsto> (12, 1)] \<or> r = - 1 \<and> rss' = []))"
proof -
  have "dir_map [] = Map.empty" by (simp add: dir_map_def)
  then show ?thesis
    using ext2_directory_is_a_map [OF demo_dir_inv(1,2), of "[97]" 12 1] demo_dir_inv(3) by (simp add: name_ok_def) blast
qed

text \<open>A directory with one file in it.\<close>

lemma demo_dir_alloc: "fst (allocBlock 0 demo_dir_ext2) \<noteq> 0"
proof
  assume zero: "fst (allocBlock 0 demo_dir_ext2) = 0"
  have K: "keeps demo_ext2 demo_dir_ext2" by (rule demo_dir_step(1))
  then have lay: "layout demo_dir_ext2" and sh: "same_shape demo_ext2 demo_dir_ext2" by (simp_all add: keeps_def)
  note P = same_shape_places [OF sh]
  have v: "valid_block demo_ext2 2" "valid_block demo_ext2 3"
    by (simp_all add: valid_block_def sectorsPerBlock_def demo_ext2_def SECTOR_SIZE_def)
  have rd: "readBlock demo_dir_ext2 2 = readBlock demo_ext2 2" "readBlock demo_dir_ext2 3 = readBlock demo_ext2 3"
    using demo_dir_step(4) v by simp_all
  have desc: "readGroupDesc demo_dir_ext2 0 = readGroupDesc demo_ext2 0"
    using rd(1) demo_group(1) unfolding readGroupDesc_def P by metis
  have "\<not> block_used demo_dir_ext2 0 5"
    using demo_block_used [of 5] rd(2) desc demo_group(3) by (simp add: block_used_def)
  moreover have "in_group demo_dir_ext2 0 5" unfolding P by (simp add: in_group_def demo_ext2_def demo_sb_fields)
  moreover have "alloc_block_from 0 0 demo_dir_ext2 = (0, snd (allocBlock 0 demo_dir_ext2))"
    using zero by (metis allocBlock_def prod.collapse)
  from alloc_block_from_fails [OF lay this]
  have "bg_free_blocks_count (readGroupDesc demo_dir_ext2 0) = 0 \<or> (\<forall>i. in_group demo_dir_ext2 0 i \<longrightarrow> block_used demo_dir_ext2 0 i)"
    using sh by (auto simp: Let_def same_shape_def demo_ext2_def)
  ultimately show False using desc demo_group(4) by auto
qed

lemma demo_dir_add:
  assumes num: "num \<noteq> 0"
  shows "\<exists>n m rss. in_num n = 2 \<and> dir_inv m n rss \<and> dir_distinct rss \<and> dir_map rss = [[97] \<mapsto> (num, 1)]
     \<and> Suc (length rss) * unat (m_blockSize m) < 2 ^ 32 \<and> addDirEntry demo_dir num [97] 1 demo_dir_ext2 = Some (Inr (0, n, m))"
proof -
  let ?m = demo_dir_ext2
  have f: "find_entry ?m demo_dir [97] 0 = Some (Inr None)"
    using find_entry_map [OF demo_dir_inv(1,2), of "[97]"] by (simp add: dir_map_def)
  have sz: "ext2_size demo_dir = 0" by (simp add: ext2_size_def demo_dir_raw)
  have a: "add_loop demo_dir num [97] 1 0 ?m = Some (Inr None)" by (simp add: add_loop.simps sz)
  have z: "i_block (in_raw demo_dir) 0 = 0" using demo_dir_raw(4) [of 0] by (simp add: demo_root_raw i_block_def)
  have "m_groupCount demo_ext2 = 1" by (simp add: demo_ext2_def)
  then have "inode_group ?m (in_num demo_dir) = 0"
    using keeps_inode_place(1) [OF demo_dir_step(1), of 2] by (simp add: demo_dir_num demo_inode_place)
  then obtain q n1 m1 where al: "blockMapAlloc 0 demo_dir ?m = (q, n1, m1)" "q \<noteq> 0"
    using demo_dir_alloc z by (cases "allocBlock 0 ?m") (auto simp: blockMapAlloc_def ensure_root_def Let_def)
  have "ucast (ext2_size demo_dir div ucast (m_blockSize ?m)) = (0 :: u32)" by (simp add: sz)
  then have al': "blockMapAlloc (ucast (ext2_size demo_dir div ucast (m_blockSize ?m))) demo_dir ?m = (q, n1, m1)" using al by simp
  have size: "Suc (length ([] :: drec list list)) * unat (m_blockSize ?m) < 2 ^ 32" by (simp add: demo_dir_inv(3))
  have nm: "name_ok [97]" by (simp add: name_ok_def)
  note A = dir_append [OF demo_dir_inv(1) nm size al' al(2) refl refl refl, of num 1]
  have up: "up4 (8 + length [97 :: u8]) \<le> 1024" by (simp add: up4_def)
  let ?r = "new_rec num [97] 1 1024"
  have "dir_of [[?r]] = [\<lparr>de_name = [97], de_inodeNum = num, de_fileType = 1\<rparr>]"
    using new_rec_props(3) [OF nm up, of num 1] num by (simp add: dir_of_def) (simp add: new_rec_def)
  then have dm: "dir_distinct [[?r]]" "dir_map [[?r]] = [[97] \<mapsto> (num, 1)]" by (simp_all add: dir_distinct_def dir_map_def)
  have run: "\<exists>n m. addDirEntry demo_dir num [97] 1 ?m = Some (Inr (0, n, m)) \<and> dir_inv m n [[?r]] \<and> in_num n = 2"
    using A(1,3) f a al' al(2) by (simp add: addDirEntry_def Let_def demo_dir_inv(3) demo_dir_num)
  then obtain n m where nm: "addDirEntry demo_dir num [97] 1 ?m = Some (Inr (0, n, m))" "dir_inv m n [[?r]]" "in_num n = 2" by blast
  moreover have "m_blockSize m \<in> {1024, 2048, 4096}" using nm(2) by (simp add: dir_inv_def file_inv_def layout_def geom_def)
  then have "Suc (length [[?r]]) * unat (m_blockSize m) < 2 ^ 32" by auto
  ultimately show ?thesis using dm by blast
qed

theorem ext2_rename_moves_entry_witness:
  "\<exists>n m r n' m' rss'. addDirEntry demo_dir 12 [97] 1 demo_dir_ext2 = Some (Inr (0, n, m))
     \<and> ext2_rename True n [97] n [98] m = Some (Inr (r, n', n', m')) \<and> dir_inv m' n' rss'
     \<and> (r = 0 \<and> dir_map rss' = [[98] \<mapsto> (12, 1)] \<or> r = - 1)"
proof -
  obtain n m rss where D: "dir_inv m n rss" "dir_distinct rss" "dir_map rss = [[97] \<mapsto> (12, 1)]"
    "Suc (length rss) * unat (m_blockSize m) < 2 ^ 32" "addDirEntry demo_dir 12 [97] 1 demo_dir_ext2 = Some (Inr (0, n, m))"
    using demo_dir_add [of 12] by auto
  have "name_ok [98]" by (simp add: name_ok_def)
  from ext2_rename_moves_entry [OF D(1,2) this D(4), of "[97]"]
  have "\<exists>r n' m' rss'. ext2_rename True n [97] n [98] m = Some (Inr (r, n', n', m')) \<and> dir_inv m' n' rss'
     \<and> (r = 0 \<and> dir_map rss' = ((dir_map rss)([98] \<mapsto> (12, 1)))([97] := None) \<or> r = - 1)"
    unfolding D(3) by auto
  moreover have "((dir_map rss)([98] \<mapsto> (12, 1)))([97] := None) = [[98] \<mapsto> (12, 1)]" unfolding D(3) by auto
  ultimately show ?thesis using D(5) by metis
qed

end
