(* ===== verification/FsCaches.thy ===== *)
theory FsCaches
  imports Ext2Dir Paths LRUCache
begin

text \<open>
  The inode cache and the path cache (\<^verbatim>\<open>kernel/fs/inode_cache.cpp\<close>, \<^verbatim>\<open>kernel/fs/path_cache.cpp\<close>). Both are
  \<^verbatim>\<open>LRUCache\<close>s; they are represented by the recency list that the class implements (theory \<open>LRUCache\<close>), \<open>None\<close> while the
  cache does not exist. Inode objects live in a store and are named by their address, so that a cached inode, an open file
  and a local variable can mean the same object; deleting an object that is gone has no defined result. Every operation
  runs under the lock of its cache, which nobody else holds.
\<close>

record CachedInode =
  ci_inode :: nat
  ci_num :: u32
  ci_ref :: u32

record vfs =
  v_mounted :: bool
  v_fs :: ext2
  v_objs :: "nat \<Rightarrow> Ext2Inode option"
  v_fresh :: nat
  ic_cache :: "(u32 \<times> CachedInode) list option"
  pc_cache :: "(path \<times> u32) list option"

abbreviation trait_path :: "path trait" where "trait_path \<equiv> trait_cstr id"

definition list_of :: "'a list option \<Rightarrow> 'a list" where
  "list_of x = (case x of None \<Rightarrow> [] | Some xs \<Rightarrow> xs)"

section \<open>Inode objects\<close>

definition new_object :: "Ext2Inode \<Rightarrow> vfs \<Rightarrow> nat \<times> vfs" where
  "new_object n s = (v_fresh s, s\<lparr>v_objs := (v_objs s)(v_fresh s \<mapsto> n), v_fresh := v_fresh s + 1\<rparr>)"

definition ext2_putInode :: "nat \<Rightarrow> vfs \<Rightarrow> vfs res" where
  "ext2_putInode obj s =
     (if v_objs s obj = None then Inl Undefined else Inr (s\<lparr>v_objs := (v_objs s)(obj := None)\<rparr>))"

section \<open>The inode cache\<close>

definition ci_poke :: "u32 \<Rightarrow> (CachedInode \<Rightarrow> CachedInode) \<Rightarrow> (u32 \<times> CachedInode) list \<Rightarrow> (u32 \<times> CachedInode) list" where
  "ci_poke k f xs = map (\<lambda>(j, ci). (j, if j = k then f ci else ci)) xs"

definition freeCachedInode :: "CachedInode \<Rightarrow> vfs \<Rightarrow> vfs res" where
  "freeCachedInode ci s = ext2_putInode (ci_inode ci) s"

text \<open>\<^verbatim>\<open>LRUCache::insert\<close>: when the cache is full the oldest inode goes, whatever its reference count.\<close>

definition ic_put :: "u32 \<Rightarrow> CachedInode \<Rightarrow> vfs \<Rightarrow> vfs res" where
  "ic_put k ci s =
     (let xs = list_of (ic_cache s) in
      if spec_has trait_u32 k xs then Inr (s\<lparr>ic_cache := Some (spec_touch trait_u32 k xs)\<rparr>)
      else if length xs \<ge> LRU_DEFAULT_CAPACITY then
        bindE (freeCachedInode (snd (last xs)) s) (\<lambda>s1. Inr (s1\<lparr>ic_cache := Some ((k, ci) # butlast xs)\<rparr>))
      else Inr (s\<lparr>ic_cache := Some ((k, ci) # xs)\<rparr>))"

definition ref_inc :: "CachedInode \<Rightarrow> CachedInode" where
  "ref_inc ci = ci\<lparr>ci_ref := ci_ref ci + 1\<rparr>"

definition ref_dec :: "CachedInode \<Rightarrow> CachedInode" where
  "ref_dec ci = ci\<lparr>ci_ref := ci_ref ci - 1\<rparr>"

definition ic_touch_poke :: "u32 \<Rightarrow> (CachedInode \<Rightarrow> CachedInode) \<Rightarrow> vfs \<Rightarrow> vfs" where
  "ic_touch_poke k f s = s\<lparr>ic_cache := Some (ci_poke k f (spec_touch trait_u32 k (list_of (ic_cache s))))\<rparr>"

definition ic_erase :: "u32 \<Rightarrow> vfs \<Rightarrow> vfs" where
  "ic_erase k s = s\<lparr>ic_cache := Some (spec_drop trait_u32 k (list_of (ic_cache s)))\<rparr>"

definition ic_find :: "u32 \<Rightarrow> vfs \<Rightarrow> CachedInode option" where
  "ic_find k s = map_of (list_of (ic_cache s)) k"

definition makeKey :: "u32 \<Rightarrow> u32" where
  "makeKey inodeNum = inodeNum"

definition InodeCache_lookup :: "u32 \<Rightarrow> vfs \<Rightarrow> nat option \<times> vfs" where
  "InodeCache_lookup num s =
     (case ic_find (makeKey num) s of
        None \<Rightarrow> (None, s)
      | Some ci \<Rightarrow> (Some (ci_inode ci), ic_touch_poke (makeKey num) ref_inc s))"

definition InodeCache_insert :: "u32 \<Rightarrow> nat \<Rightarrow> vfs \<Rightarrow> (nat \<times> vfs) res" where
  "InodeCache_insert num obj s =
     (let k = makeKey num in
      case ic_find k s of
        Some ci \<Rightarrow> bindE (ext2_putInode obj (ic_touch_poke k ref_inc s)) (\<lambda>s1. Inr (ci_inode ci, s1))
      | None \<Rightarrow> bindE (ic_put k \<lparr>ci_inode = obj, ci_num = num, ci_ref = 1\<rparr> s) (\<lambda>s1. Inr (obj, s1)))"

definition InodeCache_acquire :: "u32 \<Rightarrow> vfs \<Rightarrow> vfs res" where
  "InodeCache_acquire num s =
     (if ic_cache s = None then Inl (Panic ''InodeCache::acquire(): cache not initialized'')
      else if ic_find (makeKey num) s = None then Inl (Panic ''InodeCache::acquire(): inode not in cache'')
      else Inr (ic_touch_poke (makeKey num) ref_inc s))"

definition InodeCache_release :: "u32 \<Rightarrow> vfs \<Rightarrow> vfs res" where
  "InodeCache_release num s =
     (let k = makeKey num in
      case ic_find k s of
        None \<Rightarrow> Inr s
      | Some ci \<Rightarrow>
          if ci_ref ci = 0 then Inl (Panic ''InodeCache::release(): refCount already zero'')
          else if ci_ref ci - 1 = 0 then ext2_putInode (ci_inode ci) (ic_erase k s)
          else Inr (ic_touch_poke k ref_dec s))"

text \<open>An inode that is still in use is kept under another key, unless that key is taken: then it is deleted.\<close>

definition InodeCache_invalidate :: "u32 \<Rightarrow> vfs \<Rightarrow> vfs res" where
  "InodeCache_invalidate num s =
     (let k = makeKey num in
      case ic_find k s of
        None \<Rightarrow> Inr s
      | Some ci \<Rightarrow>
          let s1 = ic_erase k s in
          if ci_ref ci = 0 then ext2_putInode (ci_inode ci) s1
          else
            let ghostKey = k OR 0x80000000 in
            if ic_find ghostKey s1 \<noteq> None then
              ext2_putInode (ci_inode ci) (s1\<lparr>ic_cache := Some (spec_touch trait_u32 ghostKey (list_of (ic_cache s1)))\<rparr>)
            else ic_put ghostKey ci s1)"

primrec free_inodes :: "(u32 \<times> CachedInode) list \<Rightarrow> vfs \<Rightarrow> vfs res" where
  "free_inodes [] s = Inr s"
| "free_inodes (x # xs) s = bindE (freeCachedInode (snd x) s) (free_inodes xs)"

definition InodeCache_flush :: "vfs \<Rightarrow> vfs res" where
  "InodeCache_flush s =
     (case ic_cache s of
        None \<Rightarrow> Inr s
      | Some xs \<Rightarrow> bindE (free_inodes xs s) (\<lambda>s1. Inr (s1\<lparr>ic_cache := None\<rparr>)))"

section \<open>The path cache\<close>

definition pc_find :: "path \<Rightarrow> vfs \<Rightarrow> u32 option" where
  "pc_find p s = map_of (list_of (pc_cache s)) p"

definition pc_touch :: "path \<Rightarrow> vfs \<Rightarrow> vfs" where
  "pc_touch p s = s\<lparr>pc_cache := Some (spec_touch trait_path p (list_of (pc_cache s)))\<rparr>"

definition PathCache_lookup :: "path \<Rightarrow> vfs \<Rightarrow> u32 \<times> vfs" where
  "PathCache_lookup p s = (case pc_find p s of None \<Rightarrow> (0, s) | Some num \<Rightarrow> (num, pc_touch p s))"

text \<open>
  The key of an entry is the entry's own copy of the path. When the cache is full, \<^verbatim>\<open>LRUCache::insert\<close> calls
  \<^verbatim>\<open>freePathEntry\<close>, which frees that copy, and then erases the entry from the hash map by the key it has just freed.
\<close>

definition PathCache_insert :: "path \<Rightarrow> u32 \<Rightarrow> vfs \<Rightarrow> vfs res" where
  "PathCache_insert p num s =
     (if num = 0 then Inr s
      else
        let xs = list_of (pc_cache s) in
        if pc_find p s \<noteq> None then
          Inr (s\<lparr>pc_cache := Some (map (\<lambda>(q, i). (q, if q = p then num else i)) (spec_touch trait_path p xs))\<rparr>)
        else if length xs \<ge> LRU_DEFAULT_CAPACITY then Inl Undefined
        else Inr (s\<lparr>pc_cache := Some ((p, num) # xs)\<rparr>))"

definition PathCache_invalidate :: "path \<Rightarrow> vfs \<Rightarrow> vfs" where
  "PathCache_invalidate p s =
     (if pc_find p s = None then s else s\<lparr>pc_cache := Some (spec_drop trait_path p (list_of (pc_cache s)))\<rparr>)"

definition under_prefix :: "path \<Rightarrow> path \<Rightarrow> bool" where
  "under_prefix prefix p \<longleftrightarrow>
     take (length prefix) p = prefix \<and> (length p = length prefix \<or> p ! length prefix = slash)"

text \<open>\<^verbatim>\<open>eraseIf\<close> also frees the key before it erases the entry by it.\<close>

definition PathCache_invalidatePrefix :: "path \<Rightarrow> vfs \<Rightarrow> vfs res" where
  "PathCache_invalidatePrefix prefix s =
     (if list_ex (\<lambda>e. under_prefix prefix (fst e)) (list_of (pc_cache s)) then Inl Undefined else Inr s)"

definition PathCache_flush :: "vfs \<Rightarrow> vfs" where
  "PathCache_flush s = s\<lparr>pc_cache := None\<rparr>"

end
