(* ===== verification/VFS.thy ===== *)
theory VFS
  imports FsCaches FileTable
begin

text \<open>
  The virtual file system over a mounted ext2 file system (\<^verbatim>\<open>kernel/fs/vfs.cpp\<close>): path resolution with symbolic links,
  and the operations on names. The working directory of the running process is an argument, \<open>None\<close> when no process runs.
  Inodes are the objects of theory \<open>FsCaches\<close>; reading one that was deleted has no defined result. Null results of
  \<^verbatim>\<open>kmalloc\<close> are not modelled.
\<close>

section \<open>Sequencing\<close>

type_synonym 'a vm = "vfs \<Rightarrow> ('a \<times> vfs) run"

definition retV :: "'a \<Rightarrow> 'a vm" where
  "retV x s = Some (Inr (x, s))"

definition bindV :: "'a vm \<Rightarrow> ('a \<Rightarrow> 'b vm) \<Rightarrow> 'b vm" where
  "bindV f g s = bindR (f s) (\<lambda>(x, s1). g x s1)"

definition resV :: "(vfs \<Rightarrow> ('a \<times> vfs) res) \<Rightarrow> 'a vm" where
  "resV f s = Some (f s)"

definition updV :: "(vfs \<Rightarrow> vfs res) \<Rightarrow> unit vm" where
  "updV f s = Some (bindE (f s) (\<lambda>s1. Inr ((), s1)))"

definition objV :: "nat \<Rightarrow> Ext2Inode vm" where
  "objV obj s = (case v_objs s obj of None \<Rightarrow> Some (Inl Undefined) | Some n \<Rightarrow> Some (Inr (n, s)))"

definition set_obj :: "nat \<Rightarrow> Ext2Inode \<Rightarrow> ext2 \<Rightarrow> vfs \<Rightarrow> vfs" where
  "set_obj obj n m s = s\<lparr>v_objs := (v_objs s)(obj \<mapsto> n), v_fs := m\<rparr>"

section \<open>Inodes\<close>

definition MAX_SYMLINK_DEPTH :: nat where "MAX_SYMLINK_DEPTH = 8"
definition AT_REMOVEDIR :: u32 where "AT_REMOVEDIR = 0x200"

definition VFS_mount :: "ext2 \<Rightarrow> vfs \<Rightarrow> vfs" where
  "VFS_mount m s = s\<lparr>v_mounted := True, v_fs := m\<rparr>"

definition VFS_getInode :: "u32 \<Rightarrow> nat vm" where
  "VFS_getInode num s =
     (case InodeCache_lookup num s of
        (Some obj, s1) \<Rightarrow> Some (Inr (obj, s1))
      | (None, s1) \<Rightarrow>
          let (fresh, s2) = new_object (ext2_getInode num (v_fs s1)) s1 in Some (InodeCache_insert num fresh s2))"

definition VFS_putInode :: "u32 \<Rightarrow> unit vm" where
  "VFS_putInode num = updV (InodeCache_release num)"

text \<open>\<^verbatim>\<open>putInode(x, x->inodeNum())\<close>\<close>

definition put_obj :: "nat \<Rightarrow> unit vm" where
  "put_obj obj = bindV (objV obj) (\<lambda>n. VFS_putInode (in_num n))"

section \<open>Path resolution\<close>

text \<open>The target of a relative link is taken in the directory part of the whole path.\<close>

definition link_target :: "path \<Rightarrow> path \<Rightarrow> path option" where
  "link_target absolutePath link =
     (if link \<noteq> [] \<and> hd link = slash then kstrdup (Some link) PATH_MAX
      else
        let dirLen = (case findLastSlash absolutePath of None \<Rightarrow> 1 | Some i \<Rightarrow> if i \<noteq> 0 then i else 1);
            base = take dirLen absolutePath in
        Some (base @ (if last base \<noteq> slash then [slash] else []) @ link))"

definition with_rest :: "path \<Rightarrow> path \<Rightarrow> path" where
  "with_rest target rest =
     target @ (if rest \<noteq> [] then (if last target \<noteq> slash then [slash] else []) @ rest else [])"

text \<open>
  The loop over the components. \<open>p\<close> is what is left of the path, \<open>cur\<close> the current inode, and \<open>rec\<close> the recursive call
  for a path through a symbolic link.
\<close>

function walk_path :: "(path \<Rightarrow> nat option vm) \<Rightarrow> bool \<Rightarrow> path \<Rightarrow> path \<Rightarrow> nat \<Rightarrow> nat option vm" where
  "walk_path rec followFinal absolutePath p cur =
     (if p = [] then
        bindV (objV cur) (\<lambda>n.
          if followFinal \<and> \<not> ext2_isSymlink n
          then bindV (updV (PathCache_insert absolutePath (in_num n))) (\<lambda>_. retV (Some cur))
          else retV (Some cur))
      else
        let c = component p; isLast = (drop (length c) p = []); p1 = after_component p in
        if c = [] then walk_path rec followFinal absolutePath p1 cur
        else bindV (objV cur) (\<lambda>n.
          if \<not> ext2_isDir n then bindV (VFS_putInode (in_num n)) (\<lambda>_. retV None)
          else (\<lambda>s. bindR (find_entry (v_fs s) n c 0) (\<lambda>e.
            (case e of
               None \<Rightarrow> bindV (VFS_putInode (in_num n)) (\<lambda>_. retV None)
             | Some entry \<Rightarrow>
                 bindV (VFS_putInode (in_num n)) (\<lambda>_. bindV (VFS_getInode (de_inodeNum entry)) (\<lambda>cur1. bindV (objV cur1) (\<lambda>n1.
                   if ext2_isSymlink n1 \<and> (\<not> isLast \<or> followFinal) then
                     bindV (VFS_putInode (in_num n1)) (\<lambda>_.
                       let (k, link) = ext2_readlink n1 (of_nat PATH_MAX) in
                       if k \<le> 0 then retV None
                       else case link_target absolutePath (c_str link) of
                         None \<Rightarrow> retV None
                       | Some target \<Rightarrow> rec (with_rest target p1))
                   else walk_path rec followFinal absolutePath p1 cur1)))) s))))"
  by pat_completeness auto
termination by (relation "measure (\<lambda>(_, _, _, p, _). length p)") (auto simp: after_component_shorter)

declare walk_path.simps [simp del]

definition abs_path :: "path option \<Rightarrow> path \<Rightarrow> path option" where
  "abs_path cwd p =
     (if p \<noteq> [] \<and> hd p = slash then kstrdup (Some p) PATH_MAX
      else case cwd of None \<Rightarrow> None | Some d \<Rightarrow> resolveRelative d p)"

text \<open>
  The first argument is the number of levels that are left: \<^verbatim>\<open>depth\<close> may go from 0 to \<open>MAX_SYMLINK_DEPTH\<close>. A path in the
  cache is used when its inode is not a link.
\<close>

primrec resolve :: "path option \<Rightarrow> bool \<Rightarrow> nat \<Rightarrow> path \<Rightarrow> nat option vm" where
  "resolve cwd followFinal 0 p = retV None"
| "resolve cwd followFinal (Suc levels) p =
     (case abs_path cwd p of
        None \<Rightarrow> retV None
      | Some absolutePath \<Rightarrow>
          let go = bindV (VFS_getInode EXT2_ROOT_INODE) (\<lambda>root.
                walk_path (resolve cwd followFinal levels) followFinal absolutePath (tl absolutePath) root) in
          if \<not> followFinal then go
          else (\<lambda>s. case PathCache_lookup absolutePath s of
            (num, s1) \<Rightarrow>
              if num = 0 then go s1
              else bindV (VFS_getInode num) (\<lambda>obj. bindV (objV obj) (\<lambda>n.
                if \<not> ext2_isSymlink n then retV (Some obj)
                else bindV (VFS_putInode num) (\<lambda>_. bindV (updV (\<lambda>s. Inr (PathCache_invalidate absolutePath s))) (\<lambda>_. go)))) s1))"

definition resolvePath :: "path option \<Rightarrow> path \<Rightarrow> bool \<Rightarrow> nat option vm" where
  "resolvePath cwd p followFinal s =
     (if \<not> v_mounted s then Some (Inr (None, s)) else resolve cwd followFinal (Suc MAX_SYMLINK_DEPTH) p s)"

text \<open>The inode of the directory part, and the last name.\<close>

definition last_slash :: "path \<Rightarrow> nat" where
  "last_slash p = (case findLastSlash p of None \<Rightarrow> 0 | Some i \<Rightarrow> i)"

definition resolveParent :: "path option \<Rightarrow> path \<Rightarrow> (nat option \<times> path) vm" where
  "resolveParent cwd p s =
     (if \<not> v_mounted s \<or> p = [] \<or> hd p \<noteq> slash then Some (Inr ((None, []), s))
      else
        let i = last_slash p; nm = drop (i + 1) p in
        if i = 0 then bindV (VFS_getInode EXT2_ROOT_INODE) (\<lambda>obj. retV (Some obj, nm)) s
        else bindV (resolvePath cwd (take i p) True) (\<lambda>r. retV (r, nm)) s)"

section \<open>Operations on names\<close>

text \<open>The checks that \<^verbatim>\<open>mkdir\<close>, \<^verbatim>\<open>create\<close>, \<^verbatim>\<open>symlink\<close>, \<^verbatim>\<open>unlink\<close> and \<^verbatim>\<open>rename\<close> make on a parent.\<close>

definition with_parent :: "path option \<Rightarrow> path \<Rightarrow> (nat \<Rightarrow> Ext2Inode \<Rightarrow> name \<Rightarrow> int vm) \<Rightarrow> int vm" where
  "with_parent cwd p body =
     bindV (resolveParent cwd p) (\<lambda>(r, nm).
       case r of
         None \<Rightarrow> retV (- 1)
       | Some parent \<Rightarrow> bindV (objV parent) (\<lambda>dir.
           if \<not> ext2_isDir dir \<or> nm = [] then bindV (VFS_putInode (in_num dir)) (\<lambda>_. retV (- 1))
           else body parent dir nm))"

definition VFS_mkdir :: "path option \<Rightarrow> path \<Rightarrow> int vm" where
  "VFS_mkdir cwd p =
     with_parent cwd p (\<lambda>parent dir nm s.
       bindR (ext2_mkdir dir nm (v_fs s)) (\<lambda>(ret, dir1, m1).
         bindV (put_obj parent) (\<lambda>_. bindV (updV (\<lambda>s. Inr (PathCache_invalidate p s))) (\<lambda>_. retV ret)) (set_obj parent dir1 m1 s)))"

definition enter_new :: "Ext2Inode \<Rightarrow> nat vm" where
  "enter_new n s = (let (obj, s1) = new_object n s in Some (InodeCache_insert (in_num n) obj s1))"

definition VFS_create :: "path option \<Rightarrow> path \<Rightarrow> int vm" where
  "VFS_create cwd p =
     with_parent cwd p (\<lambda>parent dir nm s.
       bindR (ext2_create dir nm (v_fs s)) (\<lambda>(created, dir1, m1).
         bindV (put_obj parent) (\<lambda>_.
           case created of
             None \<Rightarrow> retV (- 1)
           | Some n \<Rightarrow>
               bindV (updV (PathCache_insert p (in_num n))) (\<lambda>_. bindV (enter_new n) (\<lambda>_.
                 bindV (VFS_putInode (in_num n)) (\<lambda>_. retV 0)))) (set_obj parent dir1 m1 s)))"

definition VFS_symlink :: "path option \<Rightarrow> name \<Rightarrow> path \<Rightarrow> int vm" where
  "VFS_symlink cwd target linkPath =
     with_parent cwd linkPath (\<lambda>parent dir nm s.
       bindR (ext2_symlink dir nm target (v_fs s)) (\<lambda>(created, dir1, m1).
         bindV (put_obj parent) (\<lambda>_.
           case created of
             None \<Rightarrow> retV (- 1)
           | Some n \<Rightarrow> bindV (enter_new n) (\<lambda>_. bindV (VFS_putInode (in_num n)) (\<lambda>_. retV 0))) (set_obj parent dir1 m1 s)))"

definition VFS_unlink :: "path option \<Rightarrow> path \<Rightarrow> u32 \<Rightarrow> int vm" where
  "VFS_unlink cwd p flags =
     with_parent cwd p (\<lambda>parent dir0 nm.
       bindV (resolvePath cwd p True) (\<lambda>target.
         bindV (case target of
                  None \<Rightarrow> retV (0, False)
                | Some t \<Rightarrow> bindV (objV t) (\<lambda>n. bindV (VFS_putInode (in_num n)) (\<lambda>_. retV (in_num n, ext2_isDir n)))) (\<lambda>(targetNum, isDir).
           if isDir \<and> flags AND AT_REMOVEDIR = 0 then bindV (put_obj parent) (\<lambda>_. retV (- 1))
           else bindV (objV parent) (\<lambda>dir s.
             bindR (ext2_unlink dir nm (v_fs s)) (\<lambda>(ret, m1).
               bindV (put_obj parent) (\<lambda>_.
                 if ret = 0 \<and> targetNum \<noteq> 0 then
                   bindV (updV (\<lambda>s. Inr (PathCache_invalidate p s))) (\<lambda>_.
                     bindV (updV (InodeCache_invalidate targetNum)) (\<lambda>_. retV ret))
                 else retV ret) (s\<lparr>v_fs := m1\<rparr>))))))"

definition VFS_rename :: "path option \<Rightarrow> path \<Rightarrow> path \<Rightarrow> int vm" where
  "VFS_rename cwd oldPath newPath =
     with_parent cwd oldPath (\<lambda>oldParent _ oldName.
       bindV (resolveParent cwd newPath) (\<lambda>(r, newName).
         case r of
           None \<Rightarrow> bindV (put_obj oldParent) (\<lambda>_. retV (- 1))
         | Some newParent \<Rightarrow> bindV (objV newParent) (\<lambda>dst.
             if \<not> ext2_isDir dst \<or> newName = [] then
               bindV (put_obj oldParent) (\<lambda>_. bindV (put_obj newParent) (\<lambda>_. retV (- 1)))
             else bindV (objV oldParent) (\<lambda>src s.
               bindR (ext2_rename (oldParent = newParent) src oldName dst newName (v_fs s)) (\<lambda>(ret, src1, dst1, m1).
                 bindV (put_obj oldParent) (\<lambda>_. bindV (put_obj newParent) (\<lambda>_.
                   if ret = 0 then
                     bindV (updV (\<lambda>s. Inr (PathCache_invalidate newPath (PathCache_invalidate oldPath s)))) (\<lambda>_. retV ret)
                   else retV ret)) (set_obj newParent dst1 m1 (set_obj oldParent src1 m1 s)))))))"

text \<open>\<^verbatim>\<open>open\<close> creates a missing file in whatever its parent is.\<close>

definition VFS_open :: "path option \<Rightarrow> path \<Rightarrow> u32 \<Rightarrow> (nat, unit) File option vm" where
  "VFS_open cwd p flags s0 =
     (if \<not> v_mounted s0 then Some (Inr (None, s0))
      else bindV (resolvePath cwd p True) (\<lambda>r.
        case r of
          None \<Rightarrow>
            if flags AND O_CREAT = 0 then retV None
            else (case abs_path cwd p of
              None \<Rightarrow> retV None
            | Some absPath \<Rightarrow> bindV (resolveParent cwd absPath) (\<lambda>(q, nm).
                case q of
                  None \<Rightarrow> retV None
                | Some parent \<Rightarrow> bindV (objV parent) (\<lambda>dir s.
                    bindR (ext2_create dir nm (v_fs s)) (\<lambda>(created, dir1, m1).
                      bindV (put_obj parent) (\<lambda>_.
                        case created of
                          None \<Rightarrow> retV None
                        | Some n \<Rightarrow> bindV (enter_new n) (\<lambda>obj. bindV (updV (PathCache_insert absPath (in_num n))) (\<lambda>_.
                            retV (Some (File_ctor (Some obj) (Some ()) flags))))) (set_obj parent dir1 m1 s)))))
        | Some obj \<Rightarrow> bindV (objV obj) (\<lambda>n.
            let accessMode = flags AND 0x3; canWrite = (accessMode = O_WRONLY \<or> accessMode = O_RDWR) in
            if flags AND O_TRUNC \<noteq> 0 \<and> canWrite then
              if ext2_isDir n then bindV (VFS_putInode (in_num n)) (\<lambda>_. retV None)
              else (\<lambda>s. case ext2_truncate n 0 (v_fs s) of
                (_, n1, m1) \<Rightarrow> retV (Some (File_ctor (Some obj) (Some ()) flags)) (set_obj obj n1 m1 s))
            else retV (Some (File_ctor (Some obj) (Some ()) flags)))) s0)"

section \<open>What the caches hold\<close>

text \<open>The references to each inode number, and the object that a number stands for.\<close>

definition refs :: "vfs \<Rightarrow> u32 \<Rightarrow> nat" where
  "refs s k = (case ic_find k s of None \<Rightarrow> 0 | Some ci \<Rightarrow> unat (ci_ref ci))"

definition ic_obj :: "vfs \<Rightarrow> u32 \<Rightarrow> nat option" where
  "ic_obj s k = map_option ci_inode (ic_find k s)"

text \<open>Every cached inode is referenced, and has an object of its own that exists.\<close>

definition ic_ok :: "vfs \<Rightarrow> bool" where
  "ic_ok s \<longleftrightarrow>
     distinct (map fst (list_of (ic_cache s)))
     \<and> (\<forall>k ci. ic_find k s = Some ci \<longrightarrow> ci_ref ci \<noteq> 0 \<and> ci_inode ci < v_fresh s \<and> v_objs s (ci_inode ci) \<noteq> None)
     \<and> (\<forall>j k o'. ic_obj s j = Some o' \<and> ic_obj s k = Some o' \<longrightarrow> j = k)"

lemma map_of_filter: "map_of (filter (\<lambda>e. P (fst e)) xs) k = (if P k then map_of xs k else None)"
  by (induction xs) auto

lemma map_of_ci_touch: "map_of (spec_touch trait_u32 k xs) = map_of xs"
  using map_of_filter [of "\<lambda>j. j = k" xs] map_of_filter [of "\<lambda>j. j \<noteq> k" xs]
  by (auto simp: spec_touch_def trait_u32_def map_add_def fun_eq_iff split: option.splits)

lemma map_of_ci_poke:
  "map_of (ci_poke k f xs) j = (if j = k then map_option f (map_of xs j) else map_of xs j)"
  by (induction xs) (auto simp: ci_poke_def)

lemma keys_touch: "distinct (map fst xs) \<Longrightarrow> distinct (map fst (spec_touch trait_u32 k xs))"
  by (auto simp: spec_touch_def trait_u32_def distinct_map_filter)

lemma ci_keys_poke [simp]: "map fst (ci_poke k f xs) = map fst xs"
  by (induction xs) (auto simp: ci_poke_def)

lemma keys_touch_poke:
  "distinct (map fst (list_of (ic_cache s))) \<Longrightarrow> distinct (map fst (list_of (ic_cache (ic_touch_poke k f s))))"
  using keys_touch [of "list_of (ic_cache s)" k] by (simp add: ic_touch_poke_def) (simp add: list_of_def)

lemma map_of_drop: "map_of (spec_drop trait_u32 k xs) = (map_of xs)(k := None)"
  using map_of_filter [of "\<lambda>j. j \<noteq> k" xs] by (auto simp: spec_drop_def trait_u32_def)

lemma ic_find_touch_poke: "ic_find j (ic_touch_poke k f s) = (if j = k then map_option f (ic_find j s) else ic_find j s)"
  by (simp add: ic_find_def ic_touch_poke_def list_of_def map_of_ci_poke map_of_ci_touch)

lemma ic_find_erase: "ic_find j (ic_erase k s) = (if j = k then None else ic_find j s)"
  by (simp add: ic_find_def ic_erase_def list_of_def map_of_drop)

lemma ic_find_frame [simp]:
  "ic_find k (s\<lparr>v_objs := a\<rparr>) = ic_find k s" "ic_find k (s\<lparr>v_fresh := b\<rparr>) = ic_find k s"
  "ic_find k (s\<lparr>v_fs := m\<rparr>) = ic_find k s" "ic_find k (s\<lparr>pc_cache := d\<rparr>) = ic_find k s"
  by (simp_all add: ic_find_def)

lemma ic_length:
  assumes "ic_ok s"
  shows "length (list_of (ic_cache s)) = card {k. refs s k \<noteq> 0}"
proof -
  have "{k. refs s k \<noteq> 0} = dom (map_of (list_of (ic_cache s)))"
    using assms unfolding ic_ok_def refs_def ic_find_def by (auto split: option.splits) (metis unat_eq_zero not_gr_zero)+
  then show ?thesis using assms distinct_card [of "map fst (list_of (ic_cache s))"] by (simp add: ic_ok_def dom_map_of_conv_image_fst)
qed

section \<open>Taking and giving back references\<close>

text \<open>A step that leaves the inodes that are held under \<open>base\<close> where they are.\<close>

definition keeps_held :: "(u32 \<Rightarrow> nat) \<Rightarrow> vfs \<Rightarrow> vfs \<Rightarrow> bool" where
  "keeps_held base s s' \<longleftrightarrow>
     v_fs s' = v_fs s \<and> v_mounted s' = v_mounted s
     \<and> (\<forall>k o'. base k \<noteq> 0 \<and> ic_obj s k = Some o' \<longrightarrow> ic_obj s' k = Some o' \<and> v_objs s' o' = v_objs s o')"

lemma keeps_held_refl: "keeps_held base s s"
  by (simp add: keeps_held_def)

lemma keeps_held_trans: "keeps_held base s s1 \<Longrightarrow> keeps_held base s1 s2 \<Longrightarrow> keeps_held base s s2"
  unfolding keeps_held_def by metis

text \<open>The cached inodes of \<open>D\<close> are what is on the disk.\<close>

definition coherent :: "u32 set \<Rightarrow> vfs \<Rightarrow> bool" where
  "coherent D s \<longleftrightarrow> (\<forall>k \<in> D. \<forall>o'. ic_obj s k = Some o' \<longrightarrow> v_objs s o' = Some (ext2_getInode k (v_fs s)))"

lemma ref_word:
  fixes r :: u32
  shows "unat r + 1 < 2 ^ 32 \<Longrightarrow> unat (r + 1) = unat r + 1" "r \<noteq> 0 \<Longrightarrow> unat (r - 1) = unat r - 1"
    "unat r + 1 < 2 ^ 32 \<Longrightarrow> r + 1 \<noteq> 0"
proof -
  show "unat (r + 1) = unat r + 1" if "unat r + 1 < 2 ^ 32"
    using that by (simp add: unat_word_ariths take_bit_nat_eq_self)
  then show "r + 1 \<noteq> 0" if "unat r + 1 < 2 ^ 32" using that by (metis Suc_eq_plus1 nat.distinct(1) unsigned_0)
  show "unat (r - 1) = unat r - 1" if "r \<noteq> 0" using that by (simp add: unat_minus_one)
qed

lemma getInode_takes_reference:
  assumes ok: "ic_ok s" and co: "coherent D s" and cap: "card {k. refs s k \<noteq> 0} < LRU_DEFAULT_CAPACITY"
    and bd: "refs s k + 1 < 2 ^ 32"
  shows "\<exists>obj s'. VFS_getInode k s = Some (Inr (obj, s')) \<and> ic_ok s' \<and> coherent D s' \<and> ic_obj s' k = Some obj
     \<and> refs s' = (refs s)(k := refs s k + 1) \<and> keeps_held (refs s) s s' \<and> pc_cache s' = pc_cache s"
proof (cases "ic_find k s")
  case (Some ci)
  let ?s = "ic_touch_poke k ref_inc s"
  have run: "VFS_getInode k s = Some (Inr (ci_inode ci, ?s))"
    using Some by (simp add: VFS_getInode_def InodeCache_lookup_def makeKey_def)
  have f: "ic_find j ?s = (if j = k then Some (ref_inc ci) else ic_find j s)" for j
    using Some by (simp add: ic_find_touch_poke)
  have o: "ic_obj ?s = ic_obj s" using Some by (auto simp: ic_obj_def f ref_inc_def fun_eq_iff)
  have st: "v_objs ?s = v_objs s" "v_fresh ?s = v_fresh s" "v_fs ?s = v_fs s" "v_mounted ?s = v_mounted s" "pc_cache ?s = pc_cache s"
    by (simp_all add: ic_touch_poke_def)
  have keys: "distinct (map fst (list_of (ic_cache ?s)))"
    using ok by (simp add: ic_ok_def keys_touch_poke)
  have r: "unat (ci_ref ci) + 1 < 2 ^ 32" using bd Some by (simp add: refs_def)
  have "ic_ok ?s" using ok keys ref_word(3) [OF r] Some unfolding ic_ok_def o st f by (auto simp: ref_inc_def)
  moreover have "refs ?s = (refs s)(k := refs s k + 1)"
    using ref_word(1) [OF r] Some by (auto simp: refs_def f ref_inc_def fun_eq_iff)
  moreover have "ic_obj s k = Some (ci_inode ci)" using Some by (simp add: ic_obj_def)
  ultimately show ?thesis using run co o st by (auto simp: coherent_def keeps_held_def)
next
  case None
  let ?n = "ext2_getInode k (v_fs s)" and ?o = "v_fresh s"
  let ?c = "\<lparr>ci_inode = ?o, ci_num = k, ci_ref = 1\<rparr>"
  let ?s = "s\<lparr>v_objs := (v_objs s)(?o \<mapsto> ?n), v_fresh := Suc ?o, ic_cache := Some ((k, ?c) # list_of (ic_cache s))\<rparr>"
  have miss: "\<not> spec_has trait_u32 k (list_of (ic_cache s))" "k \<notin> fst ` set (list_of (ic_cache s))"
    using None by (auto simp: spec_has_def trait_u32_def ic_find_def map_of_eq_None_iff)
  have len: "length (list_of (ic_cache s)) < LRU_DEFAULT_CAPACITY" using cap ic_length [OF ok] by simp
  have run: "VFS_getInode k s = Some (Inr (?o, ?s))"
    using None miss len
    by (simp add: VFS_getInode_def InodeCache_lookup_def InodeCache_insert_def makeKey_def new_object_def ic_put_def Let_def)
  have f: "ic_find j ?s = (if j = k then Some ?c else ic_find j s)" for j by (simp add: ic_find_def list_of_def)
  have o: "ic_obj ?s j = (if j = k then Some ?o else ic_obj s j)" for j unfolding ic_obj_def f by simp
  have old: "o' < ?o" if "ic_obj s j = Some o'" for j o' using that ok by (auto simp: ic_ok_def ic_obj_def)
  have "distinct (map fst (list_of (ic_cache ?s)))" using ok miss by (simp add: list_of_def ic_ok_def)
  moreover have "\<forall>j ci. ic_find j ?s = Some ci \<longrightarrow> ci_ref ci \<noteq> 0 \<and> ci_inode ci < v_fresh ?s \<and> v_objs ?s (ci_inode ci) \<noteq> None"
    using ok unfolding f ic_ok_def by (auto intro: less_SucI)
  moreover have "\<forall>i j o'. ic_obj ?s i = Some o' \<and> ic_obj ?s j = Some o' \<longrightarrow> i = j"
    using ok old unfolding o ic_ok_def by (auto split: if_splits)
  ultimately have "ic_ok ?s" unfolding ic_ok_def by blast
  moreover have "refs ?s j = (if j = k then refs s k + 1 else refs s j)" for j using None unfolding refs_def f by simp
  then have "refs ?s = (refs s)(k := refs s k + 1)" by (simp add: fun_eq_iff)
  moreover have "coherent D ?s" using co old unfolding coherent_def o by auto
  moreover have "keeps_held (refs s) s ?s" using None old unfolding keeps_held_def o refs_def by auto
  ultimately show ?thesis using run o by auto
qed

lemma putInode_drops_reference:
  assumes ok: "ic_ok s" and co: "coherent D s" and r: "refs s k = Suc r"
  shows "\<exists>s'. VFS_putInode k s = Some (Inr ((), s')) \<and> ic_ok s' \<and> coherent D s' \<and> refs s' = (refs s)(k := r)
     \<and> keeps_held ((refs s)(k := r)) s s' \<and> pc_cache s' = pc_cache s"
proof -
  obtain ci where ci: "ic_find k s = Some ci" "unat (ci_ref ci) = Suc r" using r by (auto simp: refs_def split: option.splits)
  have nz: "ci_ref ci \<noteq> 0" using ci(2) by auto
  have w: "unat (ci_ref ci - 1) = r" using ref_word(2) [OF nz] ci(2) by simp
  show ?thesis
  proof (cases "r = 0")
    case False
    let ?s = "ic_touch_poke k ref_dec s"
    have "ci_ref ci - 1 \<noteq> 0" using w False by auto
    then have run: "VFS_putInode k s = Some (Inr ((), ?s))"
      using ci(1) nz by (simp add: VFS_putInode_def updV_def InodeCache_release_def makeKey_def)
    have f: "ic_find j ?s = (if j = k then Some (ref_dec ci) else ic_find j s)" for j using ci(1) by (simp add: ic_find_touch_poke)
    have o: "ic_obj ?s = ic_obj s" using ci(1) by (auto simp: ic_obj_def f ref_dec_def fun_eq_iff)
    have st: "v_objs ?s = v_objs s" "v_fresh ?s = v_fresh s" "v_fs ?s = v_fs s" "v_mounted ?s = v_mounted s" "pc_cache ?s = pc_cache s"
      by (simp_all add: ic_touch_poke_def)
    have keys: "distinct (map fst (list_of (ic_cache ?s)))"
      using ok by (simp add: ic_ok_def keys_touch_poke)
    have "ic_ok ?s" using ok keys \<open>ci_ref ci - 1 \<noteq> 0\<close> ci(1) unfolding ic_ok_def o st f by (auto simp: ref_dec_def)
    moreover have "refs ?s = (refs s)(k := r)" using w by (auto simp: refs_def f ref_dec_def fun_eq_iff)
    ultimately show ?thesis using run co o st by (auto simp: coherent_def keeps_held_def)
  next
    case True
    let ?o = "ci_inode ci"
    let ?s = "(ic_erase k s)\<lparr>v_objs := (v_objs s)(?o := None)\<rparr>"
    have "v_objs s ?o \<noteq> None" using ok ci(1) by (auto simp: ic_ok_def)
    moreover have "ci_ref ci - 1 = 0" using w True by (simp add: unat_eq_zero)
    ultimately have run: "VFS_putInode k s = Some (Inr ((), ?s))"
      using ci(1) nz by (simp add: VFS_putInode_def updV_def InodeCache_release_def makeKey_def ext2_putInode_def) (simp add: ic_erase_def)
    have f: "ic_find j ?s = (if j = k then None else ic_find j s)" for j by (simp add: ic_find_erase)
    have o: "ic_obj ?s j = (if j = k then None else ic_obj s j)" for j unfolding ic_obj_def f by simp
    have own: "ic_obj s j = Some ?o \<Longrightarrow> j = k" for j using ok ci(1) by (auto simp: ic_ok_def ic_obj_def)
    have st: "v_fresh ?s = v_fresh s" "v_fs ?s = v_fs s" "v_mounted ?s = v_mounted s" "pc_cache ?s = pc_cache s"
      by (simp_all add: ic_erase_def)
    have "distinct (map fst (list_of (ic_cache ?s)))"
      using ok by (simp add: ic_erase_def list_of_def ic_ok_def spec_drop_def distinct_map_filter)
    moreover have "ci_ref cj \<noteq> 0 \<and> ci_inode cj < v_fresh ?s \<and> v_objs ?s (ci_inode cj) \<noteq> None" if "ic_find j ?s = Some cj" for j cj
    proof -
      have "j \<noteq> k" "ic_find j s = Some cj" using that unfolding f by (auto split: if_splits)
      moreover from this have "ci_inode cj \<noteq> ?o" using own [of j] by (auto simp: ic_obj_def)
      ultimately show ?thesis using ok st(1) by (auto simp: ic_ok_def)
    qed
    moreover have "\<forall>i j o'. ic_obj ?s i = Some o' \<and> ic_obj ?s j = Some o' \<longrightarrow> i = j"
      using ok unfolding o ic_ok_def by (auto split: if_splits)
    ultimately have "ic_ok ?s" unfolding ic_ok_def by blast
    moreover have "refs ?s j = (if j = k then r else refs s j)" for j using True unfolding refs_def f by simp
    then have "refs ?s = (refs s)(k := r)" by (simp add: fun_eq_iff)
    moreover have "coherent D ?s" using co own st(2) unfolding coherent_def o by auto
    moreover have "keeps_held ((refs s)(k := r)) s ?s" using True own st by (auto simp: keeps_held_def o)
    ultimately show ?thesis using run st(4) by auto
  qed
qed

section \<open>The tree of a file system\<close>

datatype vnode = KDir "name \<Rightarrow> u32 option" | KFile | KLink

datatype outcome = Missing | At u32 | Linked

text \<open>The reference for a walk: from directory to directory by name. A walk that meets a link is given up.\<close>

fun tree_walk :: "(u32 \<Rightarrow> vnode option) \<Rightarrow> u32 \<Rightarrow> name list \<Rightarrow> outcome" where
  "tree_walk T k [] = At k"
| "tree_walk T k (c # cs) =
     (case T k of
        Some (KDir ents) \<Rightarrow>
          (case ents c of
             None \<Rightarrow> Missing
           | Some j \<Rightarrow> if T j = Some KLink then Linked else tree_walk T j cs)
      | _ \<Rightarrow> Missing)"

definition node_ok :: "ext2 \<Rightarrow> (u32 \<Rightarrow> vnode option) \<Rightarrow> u32 \<Rightarrow> vnode \<Rightarrow> bool" where
  "node_ok m T k nd \<longleftrightarrow>
     (case nd of
        KDir ents \<Rightarrow>
          \<exists>rss. dir_inv m (ext2_getInode k m) rss \<and> dir_distinct rss
            \<and> (\<forall>c. ents c = map_option fst (dir_map rss c)) \<and> (\<forall>c j. ents c = Some j \<longrightarrow> T j \<noteq> None)
      | KFile \<Rightarrow> \<not> ext2_isDir (ext2_getInode k m) \<and> \<not> ext2_isSymlink (ext2_getInode k m)
      | KLink \<Rightarrow> ext2_isSymlink (ext2_getInode k m))"

definition tree_on :: "ext2 \<Rightarrow> (u32 \<Rightarrow> vnode option) \<Rightarrow> bool" where
  "tree_on m T \<longleftrightarrow> (\<exists>ents. T EXT2_ROOT_INODE = Some (KDir ents)) \<and> (\<forall>k nd. T k = Some nd \<longrightarrow> node_ok m T k nd)"

text \<open>Every path in the cache leads to its inode.\<close>

definition pc_sound :: "(u32 \<Rightarrow> vnode option) \<Rightarrow> vfs \<Rightarrow> bool" where
  "pc_sound T s \<longleftrightarrow>
     (\<forall>p num. pc_find p s = Some num \<longrightarrow>
        (\<exists>q. p = slash # q \<and> tree_walk T EXT2_ROOT_INODE (path_names q) = At num \<and> T num \<noteq> None))"

definition fs_view :: "(u32 \<Rightarrow> vnode option) \<Rightarrow> vfs \<Rightarrow> bool" where
  "fs_view T s \<longleftrightarrow> v_mounted s \<and> tree_on (v_fs s) T \<and> ic_ok s \<and> coherent (dom T) s \<and> pc_sound T s"

lemma isDir_not_symlink: "ext2_isDir n \<Longrightarrow> \<not> ext2_isSymlink n"
  by (simp add: ext2_isDir_def ext2_isSymlink_def EXT2_S_IFDIR_def EXT2_S_IFLNK_def)

lemma node_kind:
  assumes "tree_on m T" and "T k = Some nd"
  shows "ext2_isSymlink (ext2_getInode k m) \<longleftrightarrow> nd = KLink" "ext2_isDir (ext2_getInode k m) \<longleftrightarrow> (\<exists>ents. nd = KDir ents)"
proof -
  have "node_ok m T k nd" using assms by (simp add: tree_on_def)
  then show "ext2_isSymlink (ext2_getInode k m) \<longleftrightarrow> nd = KLink" "ext2_isDir (ext2_getInode k m) \<longleftrightarrow> (\<exists>ents. nd = KDir ents)"
    using isDir_not_symlink by (cases nd; auto simp: node_ok_def dir_inv_def)+
qed

lemma tree_entry:
  assumes "tree_on m T" and "T k = Some (KDir ents)"
  shows "case ents c of
      None \<Rightarrow> find_entry m (ext2_getInode k m) c 0 = Some (Inr None)
    | Some j \<Rightarrow> T j \<noteq> None \<and> (\<exists>e. find_entry m (ext2_getInode k m) c 0 = Some (Inr (Some e)) \<and> de_inodeNum e = j)"
proof -
  have "node_ok m T k (KDir ents)" using assms by (simp add: tree_on_def)
  then obtain rss where R: "dir_inv m (ext2_getInode k m) rss" "dir_distinct rss" "ents c = map_option fst (dir_map rss c)"
    "\<And>j. ents c = Some j \<Longrightarrow> T j \<noteq> None"
    unfolding node_ok_def by auto
  show ?thesis using find_entry_map [OF R(1,2), of c] R(3,4) by (auto split: option.splits)
qed

lemma tree_walk_node:
  assumes "tree_on m T" shows "T k \<noteq> None \<Longrightarrow> T k \<noteq> Some KLink \<Longrightarrow> tree_walk T k cs = At j \<Longrightarrow> T j \<noteq> None \<and> T j \<noteq> Some KLink"
proof (induction cs arbitrary: k)
  case (Cons c cs)
  obtain ents i where D: "T k = Some (KDir ents)" "ents c = Some i" "T i \<noteq> Some KLink" "tree_walk T i cs = At j"
    using Cons.prems(3) by (auto split: option.splits vnode.splits if_splits)
  moreover have "T i \<noteq> None" using tree_entry [OF assms D(1), of c] D(2) by simp
  ultimately show ?case using Cons.IH by blast
qed auto

section \<open>Resolving follows the tree\<close>

lemma objV_held: "coherent D s \<Longrightarrow> k \<in> D \<Longrightarrow> ic_obj s k = Some cur \<Longrightarrow> objV cur s = Some (Inr (ext2_getInode k (v_fs s), s))"
  by (simp add: coherent_def objV_def)

lemma pc_frame [simp]:
  "ic_find k (s\<lparr>pc_cache := d\<rparr>) = ic_find k s" "pc_find p (s\<lparr>ic_cache := e\<rparr>) = pc_find p s"
  by (simp_all add: ic_find_def pc_find_def)

lemma fs_view_pc:
  assumes "fs_view T s" and "pc_sound T (s\<lparr>pc_cache := d\<rparr>)"
  shows "fs_view T (s\<lparr>pc_cache := d\<rparr>)" "refs (s\<lparr>pc_cache := d\<rparr>) = refs s" "ic_obj (s\<lparr>pc_cache := d\<rparr>) = ic_obj s"
    "keeps_held b s (s\<lparr>pc_cache := d\<rparr>)"
proof -
  show r: "refs (s\<lparr>pc_cache := d\<rparr>) = refs s" and o: "ic_obj (s\<lparr>pc_cache := d\<rparr>) = ic_obj s"
    by (simp_all add: refs_def ic_obj_def fun_eq_iff)
  show "fs_view T (s\<lparr>pc_cache := d\<rparr>)" "keeps_held b s (s\<lparr>pc_cache := d\<rparr>)"
    using assms o by (simp_all add: fs_view_def ic_ok_def coherent_def keeps_held_def)
qed

text \<open>A lookup in the path cache moves an entry to the front, an insertion adds one.\<close>

lemma map_of_path_touch: "map_of (spec_touch trait_path p xs) = map_of xs"
  using map_of_filter [of "\<lambda>j. j = p" xs] map_of_filter [of "\<lambda>j. j \<noteq> p" xs]
  by (auto simp: spec_touch_def trait_cstr_def map_add_def fun_eq_iff split: option.splits)

lemma PathCache_lookup_view:
  assumes "fs_view T s" and "PathCache_lookup p s = (num, s1)"
  shows "fs_view T s1" "refs s1 = refs s" "ic_obj s1 = ic_obj s" "keeps_held b s s1" "pc_find p s1 = pc_find p s"
    "num = (case pc_find p s of None \<Rightarrow> 0 | Some i \<Rightarrow> i)" "length (list_of (pc_cache s1)) = length (list_of (pc_cache s))"
proof -
  have ex: "\<exists>d. s1 = s\<lparr>pc_cache := d\<rparr> \<and> pc_find q (s\<lparr>pc_cache := d\<rparr>) = pc_find q s \<and> length (list_of d) = length (list_of (pc_cache s))" for q
  proof (cases "pc_find p s")
    case None
    then show ?thesis using assms(2) by (intro exI [of _ "pc_cache s"]) (simp add: PathCache_lookup_def)
  next
    case (Some i)
    have "length (spec_touch trait_path p xs) = length xs" for xs :: "(path \<times> u32) list"
      using sum_length_filter_compl [of "\<lambda>e. fst e = p" xs] by (simp add: spec_touch_def trait_cstr_def)
    then show ?thesis using Some assms(2)
      by (intro exI [of _ "Some (spec_touch trait_path p (list_of (pc_cache s)))"])
        (auto simp: PathCache_lookup_def pc_touch_def pc_find_def list_of_def map_of_path_touch)
  qed
  obtain d where d: "s1 = s\<lparr>pc_cache := d\<rparr>" "length (list_of d) = length (list_of (pc_cache s))" using ex by blast
  have q: "pc_find q s1 = pc_find q s" for q using ex by metis
  have "pc_sound T s1" using assms(1) q by (simp add: fs_view_def pc_sound_def)
  from fs_view_pc [OF assms(1), of d] this
  show "fs_view T s1" "refs s1 = refs s" "ic_obj s1 = ic_obj s" "keeps_held b s s1" by (simp_all add: d)
  show "pc_find p s1 = pc_find p s" by (rule q)
  show "num = (case pc_find p s of None \<Rightarrow> 0 | Some i \<Rightarrow> i)" using assms(2) by (auto simp: PathCache_lookup_def split: option.splits)
  show "length (list_of (pc_cache s1)) = length (list_of (pc_cache s))" using d by simp
qed

lemma PathCache_insert_view:
  assumes v: "fs_view T s" and walk: "tree_walk T EXT2_ROOT_INODE (path_names q) = At num" "T num \<noteq> None"
    and room: "pc_find (slash # q) s \<noteq> None \<or> length (list_of (pc_cache s)) < LRU_DEFAULT_CAPACITY"
  shows "\<exists>s'. PathCache_insert (slash # q) num s = Inr s' \<and> fs_view T s' \<and> refs s' = refs s \<and> ic_obj s' = ic_obj s \<and> keeps_held b s s'"
proof -
  have upd: "map_of (map (\<lambda>(p, i). (p, if p = r then num else i)) xs) p = (if p = r then map_option (\<lambda>_. num) (map_of xs p) else map_of xs p)"
    for r p and xs :: "(path \<times> u32) list" by (induction xs) auto
  have "\<exists>d. PathCache_insert (slash # q) num s = Inr (s\<lparr>pc_cache := d\<rparr>)
    \<and> (\<forall>p i. pc_find p (s\<lparr>pc_cache := d\<rparr>) = Some i \<longrightarrow> pc_find p s = Some i \<or> p = slash # q \<and> i = num)"
  proof (cases "num = 0")
    case True
    then show ?thesis by (intro exI [of _ "pc_cache s"]) (simp add: PathCache_insert_def)
  next
    case nz: False
    show ?thesis
    proof (cases "pc_find (slash # q) s")
      case None
      then show ?thesis using nz room
        by (intro exI [of _ "Some ((slash # q, num) # list_of (pc_cache s))"]) (auto simp: PathCache_insert_def pc_find_def list_of_def)
    next
      case (Some i)
      then show ?thesis using nz
        by (intro exI [of _ "Some (map (\<lambda>(r, i). (r, if r = slash # q then num else i)) (spec_touch trait_path (slash # q) (list_of (pc_cache s))))"])
          (auto simp: PathCache_insert_def pc_find_def list_of_def upd map_of_path_touch split: if_splits)
    qed
  qed
  then obtain d where d: "PathCache_insert (slash # q) num s = Inr (s\<lparr>pc_cache := d\<rparr>)"
    "\<And>p i. pc_find p (s\<lparr>pc_cache := d\<rparr>) = Some i \<Longrightarrow> pc_find p s = Some i \<or> p = slash # q \<and> i = num" by blast
  have "pc_sound T (s\<lparr>pc_cache := d\<rparr>)"
    unfolding pc_sound_def
  proof (intro allI impI)
    fix p i assume "pc_find p (s\<lparr>pc_cache := d\<rparr>) = Some i"
    from d(2) [OF this] show "\<exists>r. p = slash # r \<and> tree_walk T EXT2_ROOT_INODE (path_names r) = At i \<and> T i \<noteq> None"
      using v walk by (auto simp: fs_view_def pc_sound_def)
  qed
  then show ?thesis using fs_view_pc [OF v] d(1) by blast
qed

lemma get_view:
  assumes v: "fs_view T s" and base: "refs s = base" and cap: "card {k. base k \<noteq> 0} < LRU_DEFAULT_CAPACITY" and bd: "base k + 1 < 2 ^ 32"
  shows "\<exists>obj s'. VFS_getInode k s = Some (Inr (obj, s')) \<and> fs_view T s' \<and> ic_obj s' k = Some obj
     \<and> refs s' = base(k := base k + 1) \<and> keeps_held base s s' \<and> pc_cache s' = pc_cache s"
proof -
  have "ic_ok s" "coherent (dom T) s" using v by (simp_all add: fs_view_def)
  from getInode_takes_reference [OF this] cap bd base
  obtain obj s' where G: "VFS_getInode k s = Some (Inr (obj, s'))" "ic_ok s'" "coherent (dom T) s'" "ic_obj s' k = Some obj"
     "refs s' = base(k := base k + 1)" "keeps_held base s s'" "pc_cache s' = pc_cache s" by blast
  then show ?thesis using v by (auto simp: fs_view_def keeps_held_def pc_sound_def pc_find_def)
qed

lemma put_view:
  assumes v: "fs_view T s" and r: "refs s = base(k := base k + 1)"
  shows "\<exists>s'. VFS_putInode k s = Some (Inr ((), s')) \<and> fs_view T s' \<and> refs s' = base \<and> keeps_held base s s' \<and> pc_cache s' = pc_cache s"
proof -
  have "ic_ok s" "coherent (dom T) s" "refs s k = Suc (base k)" using v r by (simp_all add: fs_view_def)
  from putInode_drops_reference [OF this] r
  obtain s' where P: "VFS_putInode k s = Some (Inr ((), s'))" "ic_ok s'" "coherent (dom T) s'" "refs s' = base"
     "keeps_held base s s'" "pc_cache s' = pc_cache s" by auto
  then show ?thesis using v by (auto simp: fs_view_def keeps_held_def pc_sound_def pc_find_def)
qed

text \<open>What a resolution gives: nothing and no reference, or the inode with one more reference.\<close>

definition resolved :: "(u32 \<Rightarrow> vnode option) \<Rightarrow> (u32 \<Rightarrow> nat) \<Rightarrow> vfs \<Rightarrow> outcome \<Rightarrow> (nat option \<times> vfs) run \<Rightarrow> bool" where
  "resolved T base s w x \<longleftrightarrow>
     (\<exists>r s'. x = Some (Inr (r, s')) \<and> fs_view T s' \<and> keeps_held base s s'
        \<and> (case w of
             Missing \<Rightarrow> r = None \<and> refs s' = base
           | At j \<Rightarrow> (\<exists>obj. r = Some obj \<and> ic_obj s' j = Some obj) \<and> refs s' = base(j := base j + 1)
           | Linked \<Rightarrow> True))"

lemma resolved_step: "keeps_held base s s1 \<Longrightarrow> resolved T base s1 w x \<Longrightarrow> resolved T base s w x"
  unfolding resolved_def using keeps_held_trans by blast

lemma bindV_run: "f s = Some (Inr (x, s1)) \<Longrightarrow> bindV f g s = g x s1"
  by (simp add: bindV_def)

lemma give_back:
  assumes "fs_view T s" and "refs s = base(k := base k + 1)"
  shows "resolved T base s Missing (bindV (VFS_putInode k) (\<lambda>_. retV None) s)"
proof -
  obtain s' where "VFS_putInode k s = Some (Inr ((), s'))" "fs_view T s'" "refs s' = base" "keeps_held base s s'"
    using put_view [OF assms] by blast
  then show ?thesis by (simp add: bindV_run resolved_def retV_def)
qed

text \<open>One component: the end of the path, a step down, or no way on.\<close>

lemma walk_obj:
  assumes "fs_view T s" and "ic_obj s k = Some cur" and "T k \<noteq> None"
  shows "objV cur s = Some (Inr (ext2_getInode k (v_fs s), s))"
  by (rule objV_held [of "dom T"]) (use assms in \<open>auto simp: fs_view_def\<close>)

lemma in_num_getInode [simp]: "in_num (ext2_getInode k m) = k"
  by (simp add: ext2_getInode_def)

lemma walk_end:
  assumes v: "fs_view T s" and cur: "ic_obj s k = Some cur" and r: "refs s = base(k := base k + 1)"
    and Tk: "T k = Some nd" "nd \<noteq> KLink" and w: "tree_walk T EXT2_ROOT_INODE (path_names q0) = At k"
    and room: "pc_find (slash # q0) s \<noteq> None \<or> length (list_of (pc_cache s)) < LRU_DEFAULT_CAPACITY"
  shows "resolved T base s (At k) (walk_path rec f (slash # q0) [] cur s)"
proof (cases f)
  case False
  then show ?thesis using v cur r walk_obj [OF v cur] Tk(1)
    by (simp add: walk_path.simps bindV_run resolved_def retV_def keeps_held_refl)
next
  case True
  have tr: "tree_on (v_fs s) T" using v by (simp add: fs_view_def)
  have "T k \<noteq> None" using Tk by simp
  from PathCache_insert_view [OF v w this room, of base]
  obtain s' where I: "PathCache_insert (slash # q0) k s = Inr s'" "fs_view T s'" "refs s' = refs s" "ic_obj s' = ic_obj s" "keeps_held base s s'"
    by auto
  have "walk_path rec f (slash # q0) [] cur s = Some (Inr (Some cur, s'))"
    using True walk_obj [OF v cur] I(1) node_kind(1) [OF tr Tk(1)] Tk by (simp add: walk_path.simps bindV_run updV_def retV_def)
  then show ?thesis using I(2-5) cur r by (simp add: resolved_def)
qed

lemma walk_stops:
  assumes v: "fs_view T s" and cur: "ic_obj s k = Some cur" and Tk: "T k = Some nd" and p: "p \<noteq> []" "component p \<noteq> []"
    and no: "\<And>ents. nd = KDir ents \<Longrightarrow> ents (component p) = None"
  shows "walk_path rec f ap p cur s = bindV (VFS_putInode k) (\<lambda>_. retV None) s"
proof -
  have tr: "tree_on (v_fs s) T" using v by (simp add: fs_view_def)
  have obj: "objV cur s = Some (Inr (ext2_getInode k (v_fs s), s))" using walk_obj [OF v cur] Tk by simp
  show ?thesis
  proof (cases "\<exists>ents. nd = KDir ents")
    case True
    then obtain ents where e: "nd = KDir ents" by blast
    have "find_entry (v_fs s) (ext2_getInode k (v_fs s)) (component p) 0 = Some (Inr None)"
      using tree_entry [OF tr Tk [unfolded e], of "component p"] no [OF e] by simp
    then show ?thesis using p obj node_kind(2) [OF tr Tk] True by (subst walk_path.simps) (simp add: Let_def bindV_run)
  next
    case False
    then show ?thesis using p obj node_kind(2) [OF tr Tk] by (subst walk_path.simps) (simp add: Let_def bindV_run)
  qed
qed

lemma walk_down:
  assumes cap: "card {k. base k \<noteq> 0} < LRU_DEFAULT_CAPACITY" and bd: "\<And>k. base k + 1 < 2 ^ 32"
    and v: "fs_view T s" and cur: "ic_obj s k = Some cur" and r: "refs s = base(k := base k + 1)"
    and Tk: "T k = Some (KDir ents)" and p: "p \<noteq> []" "component p \<noteq> []" and j: "ents (component p) = Some j" "T j \<noteq> Some KLink"
  shows "\<exists>cur1 s1. walk_path rec f ap p cur s = walk_path rec f ap (after_component p) cur1 s1 \<and> fs_view T s1 \<and> ic_obj s1 j = Some cur1
    \<and> refs s1 = base(j := base j + 1) \<and> keeps_held base s s1 \<and> pc_cache s1 = pc_cache s \<and> T j \<noteq> None"
proof -
  let ?n = "ext2_getInode k (v_fs s)"
  have tr: "tree_on (v_fs s) T" using v by (simp add: fs_view_def)
  have obj: "objV cur s = Some (Inr (?n, s))" using walk_obj [OF v cur] Tk by simp
  obtain e nj where e: "find_entry (v_fs s) ?n (component p) 0 = Some (Inr (Some e))" "de_inodeNum e = j" "T j = Some nj"
    using tree_entry [OF tr Tk, of "component p"] j(1) by auto
  obtain s1 where P: "VFS_putInode k s = Some (Inr ((), s1))" "fs_view T s1" "refs s1 = base" "keeps_held base s s1" "pc_cache s1 = pc_cache s"
    using put_view [OF v r] by blast
  obtain cur1 s2 where G: "VFS_getInode j s1 = Some (Inr (cur1, s2))" "fs_view T s2" "ic_obj s2 j = Some cur1"
    "refs s2 = base(j := base j + 1)" "keeps_held base s1 s2" "pc_cache s2 = pc_cache s1" using get_view [OF P(2,3) cap bd] by blast
  have fs: "v_fs s2 = v_fs s" using P(4) G(5) by (simp add: keeps_held_def)
  have "objV cur1 s2 = Some (Inr (ext2_getInode j (v_fs s), s2))" using walk_obj [OF G(2,3)] e(3) fs by simp
  moreover have "\<not> ext2_isSymlink (ext2_getInode j (v_fs s))" using node_kind(1) [OF tr e(3)] e(3) j(2) by simp
  moreover have "ext2_isDir ?n" using node_kind(2) [OF tr Tk] by blast
  ultimately have "walk_path rec f ap p cur s = walk_path rec f ap (after_component p) cur1 s2"
    using p obj e(1,2) P(1) G(1) by (subst walk_path.simps) (simp add: Let_def bindV_run)
  then show ?thesis using G(2-4,6) P(5) e(3) keeps_held_trans [OF P(4) G(5)] by auto
qed

lemma walk_path_tree:
  assumes cap: "card {k. base k \<noteq> 0} < LRU_DEFAULT_CAPACITY" and bd: "\<And>k. base k + 1 < 2 ^ 32"
  shows "fs_view T s \<Longrightarrow> ic_obj s k = Some cur \<Longrightarrow> refs s = base(k := base k + 1) \<Longrightarrow> T k \<noteq> None \<Longrightarrow> T k \<noteq> Some KLink
    \<Longrightarrow> length p < PATH_MAX \<Longrightarrow> pc_find (slash # q0) s \<noteq> None \<or> length (list_of (pc_cache s)) < LRU_DEFAULT_CAPACITY
    \<Longrightarrow> tree_walk T EXT2_ROOT_INODE (path_names q0) = tree_walk T k (path_names p)
    \<Longrightarrow> tree_walk T k (path_names p) \<noteq> Linked
    \<Longrightarrow> resolved T base s (tree_walk T k (path_names p)) (walk_path rec f (slash # q0) p cur s)"
proof (induction "length p" arbitrary: p k cur s rule: less_induct)
  case less
  note v = less.prems(1) and cur = less.prems(2) and r = less.prems(3) and Tk = less.prems(4,5)
  obtain nd where nd: "T k = Some nd" "nd \<noteq> KLink" using Tk by auto
  let ?c = "component p" and ?q = "after_component p"
  have lenc: "length ?c < PATH_MAX"
    using less.prems(6) length_takeWhile_le [of "\<lambda>c. c \<noteq> slash" p] by (simp add: component_def)
  consider "p = []" | "p \<noteq> []" "?c = []" | "p \<noteq> []" "?c \<noteq> []" by blast
  then show ?case
  proof cases
    case 1
    then show ?thesis using walk_end [OF v cur r nd _ less.prems(7)] less.prems(8) by (simp add: path_names_simps)
  next
    case 2
    have "walk_path rec f (slash # q0) p cur s = walk_path rec f (slash # q0) ?q cur s"
      using 2 by (subst walk_path.simps) (simp add: Let_def)
    then show ?thesis using less.hyps [OF after_component_shorter [OF 2(1)] v cur r Tk] less.prems(6-9) after_component_shorter [OF 2(1)]
      by (simp add: first_name(1) [OF 2])
  next
    case 3
    note names = first_name(2) [OF 3 lenc] and short = after_component_shorter [OF 3(1)]
    show ?thesis
    proof (cases "\<exists>ents j. nd = KDir ents \<and> ents ?c = Some j")
      case False
      then have "tree_walk T k (path_names p) = Missing" using names nd by (cases nd) auto
      then show ?thesis using give_back [OF v r] walk_stops [OF v cur nd(1) 3] False by auto
    next
      case True
      then obtain ents j where e: "nd = KDir ents" "ents ?c = Some j" by blast
      have nl: "T j \<noteq> Some KLink" using less.prems(9) names nd(1) e by auto
      have w: "tree_walk T k (path_names p) = tree_walk T j (path_names ?q)" using names nd(1) e nl by simp
      obtain cur1 s1 where D: "walk_path rec f (slash # q0) p cur s = walk_path rec f (slash # q0) ?q cur1 s1" "fs_view T s1" "ic_obj s1 j = Some cur1"
        "refs s1 = base(j := base j + 1)" "keeps_held base s s1" "pc_cache s1 = pc_cache s" "T j \<noteq> None"
        using walk_down [OF cap bd v cur r nd(1) [unfolded e(1)] 3 e(2) nl] by blast
      have "resolved T base s1 (tree_walk T j (path_names ?q)) (walk_path rec f (slash # q0) ?q cur1 s1)"
        using less.hyps [OF short D(2-4,7) nl] less.prems(6-9) short w D(6) by (simp add: pc_find_def)
      then show ?thesis unfolding D(1) w by (rule resolved_step [OF D(5)])
    qed
  qed
qed

lemma abs_path_length: "abs_path cwd p = Some ap \<Longrightarrow> length ap \<le> PATH_MAX"
  by (auto simp: abs_path_def resolveRelative_def kstrdup_def Let_def split: if_splits option.splits)

lemma resolve_from_root:
  assumes v: "fs_view T s" and base: "refs s = base" and cap: "card {k. base k \<noteq> 0} < LRU_DEFAULT_CAPACITY" and bd: "\<And>k. base k + 1 < 2 ^ 32"
    and room: "pc_find (slash # q) s \<noteq> None \<or> length (list_of (pc_cache s)) < LRU_DEFAULT_CAPACITY" and len: "length q < PATH_MAX"
    and nl: "tree_walk T EXT2_ROOT_INODE (path_names q) \<noteq> Linked"
  shows "resolved T base s (tree_walk T EXT2_ROOT_INODE (path_names q))
    (bindV (VFS_getInode EXT2_ROOT_INODE) (\<lambda>root. walk_path rec f (slash # q) q root) s)"
proof -
  obtain ents where root: "T EXT2_ROOT_INODE = Some (KDir ents)" using v by (auto simp: fs_view_def tree_on_def)
  obtain cur s1 where G: "VFS_getInode EXT2_ROOT_INODE s = Some (Inr (cur, s1))" "fs_view T s1" "ic_obj s1 EXT2_ROOT_INODE = Some cur"
    "refs s1 = base(EXT2_ROOT_INODE := base EXT2_ROOT_INODE + 1)" "keeps_held base s s1" "pc_cache s1 = pc_cache s"
    using get_view [OF v base cap bd] by blast
  have "resolved T base s1 (tree_walk T EXT2_ROOT_INODE (path_names q)) (walk_path rec f (slash # q) q cur s1)"
    by (rule walk_path_tree [OF cap bd G(2-4)]) (use root room len nl G(6) in \<open>auto simp: pc_find_def\<close>)
  then show ?thesis unfolding bindV_run [of "VFS_getInode EXT2_ROOT_INODE", OF G(1)] by (rule resolved_step [OF G(5)])
qed


text \<open>A root directory with one entry \<^verbatim>\<open>a\<close>, which is the root again, and empty caches.\<close>

definition demo_vfs :: "ext2 \<Rightarrow> vfs" where
  "demo_vfs m = \<lparr>v_mounted = True, v_fs = m, v_objs = (\<lambda>_. None), v_fresh = 0, ic_cache = None, pc_cache = None\<rparr>"

lemma demo_vfs_view:
  assumes "in_num n = 2" and "dir_inv m n rss" and "dir_distinct rss" and "dir_map rss = [[97] \<mapsto> (2, 1)]"
  shows "fs_view [2 \<mapsto> KDir [[97] \<mapsto> 2]] (demo_vfs m)" "refs (demo_vfs m) = (\<lambda>_. 0)"
proof -
  have "ext2_getInode 2 m = n" using assms(1,2) by (simp add: ext2_getInode_def dir_inv_def file_inv_def)
  then have "node_ok m [2 \<mapsto> KDir [[97] \<mapsto> 2]] 2 (KDir [[97] \<mapsto> 2])"
    using assms(2-4) unfolding node_ok_def by (auto intro!: exI [of _ rss])
  then have "tree_on m [2 \<mapsto> KDir [[97] \<mapsto> 2]]" by (simp add: tree_on_def EXT2_ROOT_INODE_def)
  then show "fs_view [2 \<mapsto> KDir [[97] \<mapsto> 2]] (demo_vfs m)" "refs (demo_vfs m) = (\<lambda>_. 0)"
    by (simp_all add: fs_view_def demo_vfs_def ic_ok_def coherent_def pc_sound_def ic_obj_def ic_find_def pc_find_def list_of_def refs_def fun_eq_iff)
qed


section \<open>An unlinked file that is still open\<close>

text \<open>
  Unlinking an open file moves its cached inode to a ghost key. When its number is given to a new file, the holder of the old
  inode, who closes it by number, releases the new one: the new inode is deleted although it is in use, and the old one stays
  for ever.
\<close>

theorem release_of_unlinked_inode_hits_successor:
  assumes a: "ic_find k s = Some a" "ci_ref a \<noteq> 0" "k OR 0x80000000 \<noteq> k" "ic_find (k OR 0x80000000) s = None"
    and cap: "length (list_of (ic_cache s)) < LRU_DEFAULT_CAPACITY" and b: "v_objs s b = Some n" "b \<noteq> ci_inode a"
  shows "\<exists>s1 s2 s3. InodeCache_invalidate k s = Inr s1 \<and> InodeCache_insert k b s1 = Inr (b, s2) \<and> InodeCache_release k s2 = Inr s3
    \<and> v_objs s3 b = None \<and> v_objs s3 (ci_inode a) = v_objs s (ci_inode a) \<and> ic_find (k OR 0x80000000) s3 = Some a"
proof -
  let ?g = "k OR 0x80000000" and ?xs = "spec_drop trait_u32 k (list_of (ic_cache s))"
  let ?b = "\<lparr>ci_inode = b, ci_num = k, ci_ref = 1\<rparr>"
  let ?s1 = "s\<lparr>ic_cache := Some ((?g, a) # ?xs)\<rparr>" and ?s2 = "s\<lparr>ic_cache := Some ((k, ?b) # (?g, a) # ?xs)\<rparr>"
  have mem: "(k, a) \<in> set (list_of (ic_cache s))" using a(1) by (auto simp: ic_find_def dest: map_of_SomeD)
  have "length ?xs < length (list_of (ic_cache s))"
    unfolding spec_drop_def using mem by (auto intro!: length_filter_less simp: trait_u32_def)
  then have len: "length ?xs + 1 < LRU_DEFAULT_CAPACITY" using cap by simp
  have miss: "\<not> spec_has trait_u32 ?g ?xs"
    using a(4) by (force simp: spec_has_def spec_drop_def trait_u32_def ic_find_def map_of_eq_None_iff)
  have missk: "\<not> spec_has trait_u32 k ((?g, a) # ?xs)"
    using a(3) by (auto simp: spec_has_def spec_drop_def trait_u32_def)
  have "ic_find ?g (ic_erase k s) = None" using a(3,4) by (simp add: ic_find_erase)
  then have inv: "InodeCache_invalidate k s = Inr ?s1"
    using a(1,2) miss len
    by (simp add: InodeCache_invalidate_def makeKey_def Let_def ic_put_def) (simp add: ic_erase_def list_of_def)
  have "ic_find k ?s1 = None" using a(3) by (simp add: ic_find_def list_of_def map_of_drop)
  then have ins: "InodeCache_insert k b ?s1 = Inr (b, ?s2)"
    using missk len by (simp add: InodeCache_insert_def makeKey_def Let_def ic_put_def list_of_def)
  have "ic_find k ?s2 = Some ?b" by (simp add: ic_find_def list_of_def)
  then have rel: "InodeCache_release k ?s2 = Inr ((ic_erase k ?s2)\<lparr>v_objs := (v_objs s)(b := None)\<rparr>)"
    using b(1) by (simp add: InodeCache_release_def makeKey_def Let_def ext2_putInode_def) (simp add: ic_erase_def)
  have "ic_find ?g (ic_erase k ?s2) = Some a" using a(3) by (simp add: ic_find_erase) (simp add: ic_find_def list_of_def)
  then show ?thesis using inv ins rel b(2) by auto
qed

end
