(* ===== verification/UserMem.thy ===== *)
theory UserMem
  imports ProcMem VFS
begin

text \<open>
  How the kernel reaches the memory of the running program during a system call: the helper functions at the top of
  \<^verbatim>\<open>kernel/trap/syscall/syscall.cpp\<close> and \<^verbatim>\<open>kstrdup_user\<close> of \<^verbatim>\<open>kernel/fs/path_utils.h\<close>. An access goes through the page table
  of the running control block. With \<^verbatim>\<open>SUM\<close> set the kernel may touch the pages of the program as well as its own. An access that
  the table does not allow is a page fault inside the kernel, which ends in a panic, but for a store to a copy-on-write
  page, which is repeated on the private copy. Words that futexes use are kept in the scheduler's state. Null results
  of \<^verbatim>\<open>kmalloc\<close> are not modelled.
\<close>

section \<open>Sequencing\<close>

type_synonym ('s, 'a) sm = "'s \<Rightarrow> ('a \<times> 's) run"

definition retS :: "'a \<Rightarrow> ('s, 'a) sm" where
  "retS x s = Some (Inr (x, s))"

definition failS :: "fault \<Rightarrow> ('s, 'a) sm" where
  "failS e s = Some (Inl e)"

definition bindS :: "('s, 'a) sm \<Rightarrow> ('a \<Rightarrow> ('s, 'b) sm) \<Rightarrow> ('s, 'b) sm" where
  "bindS f g s = bindR (f s) (\<lambda>(x, s1). g x s1)"

definition getS :: "('s \<Rightarrow> 'a) \<Rightarrow> ('s, 'a) sm" where
  "getS f s = Some (Inr (f s, s))"

definition modS :: "('s \<Rightarrow> 's) \<Rightarrow> ('s, unit) sm" where
  "modS f s = Some (Inr ((), f s))"

lemmas sm_defs = retS_def failS_def bindS_def getS_def modS_def

section \<open>Bytes of user memory\<close>

abbreviation user_pmt :: "('f, 'w) pstate \<Rightarrow> u64" where
  "user_pmt s \<equiv> m_pmt (k_pcb (p_k s) (s_running (p_k s)))"

definition user_flags :: "('f, 'w) pstate \<Rightarrow> u64 \<Rightarrow> u64" where
  "user_flags s a = getFlags (user_pmt s) a (vs_pt (mw_vm (p_mw s)))"

text \<open>Where the page table puts an address, as the kernel addresses memory.\<close>

definition user_place :: "('f, 'w) pstate \<Rightarrow> u64 \<Rightarrow> u64" where
  "user_place s a = p2v (translate (user_pmt s) a (vs_pt (mw_vm (p_mw s))))"

definition kernel_trap :: fault where
  "kernel_trap = Panic ''kernel trap''"

definition load8 :: "u64 \<Rightarrow> (('f, 'w) pstate, u8) sm" where
  "load8 a s =
     (if user_flags s a AND PAGE_R \<noteq> 0 then Some (Inr (vs_data (mw_vm (p_mw s)) (user_place s a), s))
      else Some (Inl kernel_trap))"

definition poke8 :: "u64 \<Rightarrow> u8 \<Rightarrow> ('f, 'w) pstate \<Rightarrow> ('f, 'w) pstate" where
  "poke8 a b s = upd_vm (\<lambda>vm. vm\<lparr>vs_data := (vs_data vm)(user_place s a := b)\<rparr>) s"

text \<open>The store is tried again after a fault that \<^verbatim>\<open>handleCowFault\<close> has resolved.\<close>

definition store8 :: "u64 \<Rightarrow> u8 \<Rightarrow> (('f, 'w) pstate, unit) sm" where
  "store8 a b s =
     (if user_flags s a AND PAGE_W \<noteq> 0 then Some (Inr ((), poke8 a b s))
      else
        bindR (handleCowFault (Some (user_pmt s)) a (mw_vm (p_mw s))) (\<lambda>(ok, vm).
          let s1 = upd_vm (\<lambda>_. vm) s in
          if ok \<and> user_flags s1 a AND PAGE_W \<noteq> 0 then Some (Inr ((), poke8 a b s1)) else Some (Inl kernel_trap)))"

primrec loads :: "u64 \<Rightarrow> nat \<Rightarrow> (('f, 'w) pstate, u8 list) sm" where
  "loads a 0 = retS []"
| "loads a (Suc n) = bindS (load8 a) (\<lambda>b. bindS (loads (a + 1) n) (\<lambda>bs. retS (b # bs)))"

primrec stores :: "u64 \<Rightarrow> u8 list \<Rightarrow> (('f, 'w) pstate, unit) sm" where
  "stores a [] = retS ()"
| "stores a (b # bs) = bindS (store8 a b) (\<lambda>_. stores (a + 1) bs)"

text \<open>Numbers are stored with their lowest byte first.\<close>

definition le64 :: "u64 \<Rightarrow> u8 list" where
  "le64 v = map (\<lambda>i. ucast (drop_bit (8 * i) v)) [0..<8]"

definition of_le64 :: "u8 list \<Rightarrow> u64" where
  "of_le64 bs = foldr (\<lambda>b v. ucast b OR push_bit 8 v) bs 0"

definition load64 :: "u64 \<Rightarrow> (('f, 'w) pstate, u64) sm" where
  "load64 a = bindS (loads a 8) (\<lambda>bs. retS (of_le64 bs))"

definition store64 :: "u64 \<Rightarrow> u64 \<Rightarrow> (('f, 'w) pstate, unit) sm" where
  "store64 a v = stores a (le64 v)"

definition store32 :: "u64 \<Rightarrow> u32 \<Rightarrow> (('f, 'w) pstate, unit) sm" where
  "store32 a v = stores a (le32 v)"

section \<open>Checked access\<close>

text \<open>The process of a control block: itself, or the parent of a thread, which a kernel thread does not have.\<close>

definition owner :: "('f, 'w) pstate \<Rightarrow> pcbp \<Rightarrow> pcbp option" where
  "owner s p = (if isProcess s p then Some p else th_parent (p_thr s p))"

definition runningProcess :: "(('f, 'w) pstate, pcbp) sm" where
  "runningProcess s = (case owner s (s_running (p_k s)) of None \<Rightarrow> Some (Inl NullDeref) | Some p \<Rightarrow> Some (Inr (p, s)))"

definition can_access :: "pcbp \<Rightarrow> u64 \<Rightarrow> u64 \<Rightarrow> u32 \<Rightarrow> (('f, 'w) pstate, bool) sm" where
  "can_access p a len op s =
     (if a > a + len then Some (Inr (False, s))
      else case m_segTable (p_proc s p) of
        None \<Rightarrow> Some (Inl NullDeref)
      | Some t \<Rightarrow>
          if seg_checkOperation t a (a + len) op then Some (Inr (True, s))
          else case m_mmap (p_proc s p) of
            None \<Rightarrow> Some (Inl NullDeref)
          | Some mm \<Rightarrow> Some (Inr (mm_checkOperation (mm_head mm) a (a + len) (mmapOp op), s)))"

text \<open>The string at an address, \<open>None\<close> when it has more than \<open>n\<close> characters.\<close>

primrec user_string :: "nat \<Rightarrow> u64 \<Rightarrow> (('f, 'w) pstate, path option) sm" where
  "user_string 0 a = bindS (load8 a) (\<lambda>c. retS (if c = 0 then Some [] else None))"
| "user_string (Suc n) a = bindS (load8 a) (\<lambda>c. if c = 0 then retS (Some []) else
     bindS (user_string n (a + 1)) (\<lambda>r. retS (map_option (Cons c) r)))"

definition kstrdup_user :: "u64 \<Rightarrow> nat \<Rightarrow> (('f, 'w) pstate, path option) sm" where
  "kstrdup_user userSrc maxLen = (if userSrc = 0 then retS None else user_string maxLen userSrc)"

text \<open>The length of the result is taken before the result is looked at.\<close>

definition copyPathFromUser :: "u64 \<Rightarrow> (('f, 'w) pstate, path option) sm" where
  "copyPathFromUser userAddr =
     (if userAddr = 0 then retS None
      else bindS runningProcess (\<lambda>p. bindS (can_access p userAddr 1 SEG_R) (\<lambda>ok.
        if \<not> ok then retS None
        else bindS (kstrdup_user userAddr PATH_MAX) (\<lambda>result.
          case result of
            None \<Rightarrow> failS NullDeref
          | Some str \<Rightarrow> bindS (can_access p userAddr (of_nat (length str)) SEG_R) (\<lambda>ok2. retS (if ok2 then Some str else None))))))"

definition MAX_ARGS :: nat where "MAX_ARGS = 256"

text \<open>The pointers up to the null pointer, \<open>None\<close> when there are more than \<open>n\<close>.\<close>

primrec user_pointers :: "nat \<Rightarrow> u64 \<Rightarrow> (('f, 'w) pstate, u64 list option) sm" where
  "user_pointers 0 a = bindS (load64 a) (\<lambda>w. retS (if w = 0 then Some [] else None))"
| "user_pointers (Suc n) a = bindS (load64 a) (\<lambda>w. if w = 0 then retS (Some []) else
     bindS (user_pointers n (a + 8)) (\<lambda>r. retS (map_option (Cons w) r)))"

primrec copy_args :: "pcbp \<Rightarrow> u64 list \<Rightarrow> (('f, 'w) pstate, path list option) sm" where
  "copy_args p [] = retS (Some [])"
| "copy_args p (strAddr # rest) =
     bindS (can_access p strAddr 1 SEG_R) (\<lambda>ok.
       if \<not> ok then retS None
       else bindS (kstrdup_user strAddr PATH_MAX) (\<lambda>r.
         case r of
           None \<Rightarrow> retS None
         | Some str \<Rightarrow> bindS (can_access p strAddr (of_nat (length str)) SEG_R) (\<lambda>ok2.
             if \<not> ok2 then retS None
             else bindS (copy_args p rest) (\<lambda>ss. retS (map_option (Cons str) ss)))))"

definition copyArgvFromUser :: "u64 \<Rightarrow> (('f, 'w) pstate, path list option) sm" where
  "copyArgvFromUser userAddr =
     (if userAddr = 0 then retS None
      else bindS runningProcess (\<lambda>p. bindS (can_access p userAddr 8 SEG_R) (\<lambda>ok.
        if \<not> ok then retS None
        else bindS (user_pointers MAX_ARGS userAddr) (\<lambda>r.
          case r of
            None \<Rightarrow> retS None
          | Some ptrs \<Rightarrow> bindS (can_access p userAddr (of_nat (length ptrs + 1) * 8) SEG_R) (\<lambda>ok2.
              if ok2 then copy_args p ptrs else retS None)))))"

partial_function (option) validate_pages :: "(u64 \<Rightarrow> u64) \<Rightarrow> u64 \<Rightarrow> u64 \<Rightarrow> u64 \<Rightarrow> bool option" where
  "validate_pages flags op page last_page =
     (if flags page AND PAGE_V = 0 \<or> flags page AND PAGE_U = 0 \<or> flags page AND op \<noteq> op then Some False
      else if page = last_page then Some True
      else validate_pages flags op (page + PAGE_SIZE) last_page)"

definition validateUserBufferByPte :: "pcbp \<Rightarrow> u64 \<Rightarrow> u64 \<Rightarrow> u32 \<Rightarrow> (('f, 'w) pstate, bool) sm" where
  "validateUserBufferByPte p addr len op s =
     (if len = 0 then Some (Inr (True, s))
      else if addr > addr + len - 1 then Some (Inr (False, s))
      else
        let pageMask = PAGE_SIZE - 1;
            flags = (\<lambda>page. getFlags (m_pmt (k_pcb (p_k s) p)) page (vs_pt (mw_vm (p_mw s)))) in
        Option.bind (validate_pages flags (ucast op) (addr AND NOT pageMask) ((addr + len - 1) AND NOT pageMask)) (\<lambda>ok. Some (Inr (ok, s))))"
section \<open>The check against the page table\<close>

definition page_grants :: "u64 \<Rightarrow> u64 \<Rightarrow> bool" where
  "page_grants op flags \<longleftrightarrow> flags AND PAGE_V \<noteq> 0 \<and> flags AND PAGE_U \<noteq> 0 \<and> flags AND op = op"

lemma unat_pages: "4096 * k < 2 ^ 64 \<Longrightarrow> unat (4096 * of_nat k :: u64) = 4096 * k"
  using unat_of_nat [of "4096 * k", where ?'a = 64] by simp

lemma validate_pages_all:
  assumes "unat page + 4096 * n < 2 ^ 64"
  shows "validate_pages flags op page (page + 4096 * of_nat n) = Some (\<forall>i \<le> n. page_grants op (flags (page + 4096 * of_nat i)))"
  using assms
proof (induction n arbitrary: page)
  case 0
  then show ?case by (subst validate_pages.simps) (auto simp: page_grants_def)
next
  case (Suc n)
  have ne: "page \<noteq> page + 4096 * of_nat (Suc n)"
  proof
    assume "page = page + 4096 * of_nat (Suc n)"
    then have "unat (4096 * of_nat (Suc n) :: u64) = 0" by simp
    moreover have "unat (4096 * of_nat (Suc n) :: u64) = 4096 * Suc n" by (rule unat_pages) (use Suc.prems in simp)
    ultimately show False by simp
  qed
  have "unat (page + PAGE_SIZE) = unat page + 4096" using Suc.prems by (simp add: PAGE_SIZE_def unat_add_lem [THEN iffD1])
  then have IH: "validate_pages flags op (page + PAGE_SIZE) (page + PAGE_SIZE + 4096 * of_nat n) =
      Some (\<forall>i \<le> n. page_grants op (flags (page + PAGE_SIZE + 4096 * of_nat i)))"
    by (intro Suc.IH) (use Suc.prems in simp)
  have all: "(\<forall>i \<le> Suc n. P i) \<longleftrightarrow> P 0 \<and> (\<forall>i \<le> n. P (Suc i))" for P
    by (metis Suc_le_mono le0 not0_implies_Suc)
  show ?case
    using ne IH by (subst validate_pages.simps) (auto simp: page_grants_def all PAGE_SIZE_def algebra_simps)
qed

text \<open>
  C16: \<^verbatim>\<open>validateUserBufferByPte\<close> decides access by the page table. It returns for every range, and says yes exactly when the range is empty, or
  does not wrap around and every address of it lies on a valid page of the program that grants the operation.
\<close>

theorem validateUserBufferByPte_exact:
  "\<exists>ok. validateUserBufferByPte p addr len op s = Some (Inr (ok, s)) \<and>
     (ok \<longleftrightarrow> len = 0 \<or> addr \<le> addr + len - 1 \<and>
       (\<forall>x. addr \<le> x \<and> x \<le> addr + len - 1 \<longrightarrow> page_grants (ucast op) (getFlags (m_pmt (k_pcb (p_k s) p)) x (vs_pt (mw_vm (p_mw s))))))"
proof (cases "len = 0 \<or> addr > addr + len - 1")
  case True
  then show ?thesis by (auto simp: validateUserBufferByPte_def)
next
  case False
  define e where "e = addr + len - 1"
  define flags where "flags x = getFlags (m_pmt (k_pcb (p_k s) p)) x (vs_pt (mw_vm (p_mw s)))" for x
  let ?a = "pageRoundDown addr" and ?l = "pageRoundDown e"
  define n where "n = unat e div 4096 - unat addr div 4096"
  have ae: "addr \<le> e" "unat addr \<le> unat e" using False by (simp_all add: e_def linorder_not_less flip: word_le_nat_alt)
  have le: "unat addr div 4096 \<le> unat e div 4096" using ae(2) by (rule div_le_mono)
  have ln: "unat ?a + 4096 * n = unat ?l" using le by (simp add: n_def unat_pageRoundDown algebra_simps)
  then have lt: "unat ?a + 4096 * n < 2 ^ 64" using unsigned_less [of ?l, where ?'a = nat] by simp
  have at: "unat (?a + 4096 * of_nat i) = unat ?a + 4096 * i" if "i \<le> n" for i
    using lt that by (subst unat_add_lem [THEN iffD1]) (simp_all add: unat_pages)
  have l: "?l = ?a + 4096 * of_nat n" using at [of n] ln by (simp add: word_unat_eq_iff)
  have flags_page: "flags x = flags (pageRoundDown x)" for x
    using same_page_pte [OF pageRoundDown_same_page [of x "pageRoundDown x"]] by (simp add: flags_def getFlags_pte)
  have "(\<forall>i \<le> n. page_grants (ucast op) (flags (?a + 4096 * of_nat i))) \<longleftrightarrow> (\<forall>x. addr \<le> x \<and> x \<le> e \<longrightarrow> page_grants (ucast op) (flags x))"
  proof (intro iffI allI impI)
    fix x assume g: "\<forall>i \<le> n. page_grants (ucast op) (flags (?a + 4096 * of_nat i))" and x: "addr \<le> x \<and> x \<le> e"
    let ?i = "unat x div 4096 - unat addr div 4096"
    have xs: "unat addr div 4096 \<le> unat x div 4096" "unat x div 4096 \<le> unat e div 4096"
      using x by (simp_all add: word_le_nat_alt div_le_mono)
    have i: "?i \<le> n" unfolding n_def using xs(2) by (rule diff_le_mono)
    have "pageRoundDown x = ?a + 4096 * of_nat ?i"
      using at [OF i] xs by (simp add: word_unat_eq_iff unat_pageRoundDown algebra_simps)
    then show "page_grants (ucast op) (flags x)" using g i flags_page [of x] by simp
  next
    fix i assume g: "\<forall>x. addr \<le> x \<and> x \<le> e \<longrightarrow> page_grants (ucast op) (flags x)" and i: "i \<le> n"
    show "page_grants (ucast op) (flags (?a + 4096 * of_nat i))"
    proof (cases i)
      case 0
      then show ?thesis using g [rule_format, of addr] ae(1) flags_page [of addr] by simp
    next
      case (Suc j)
      have "unat (?a + 4096 * of_nat i) \<le> unat e"
        using at [OF i] ln i pageRoundDown_le [of e] unfolding word_le_nat_alt by linarith
      moreover have "unat addr \<le> unat (?a + 4096 * of_nat i)" 
        using at [OF i] Suc mod_less_divisor [of 4096 "unat addr"] div_mult_mod_eq [of "unat addr" 4096] unfolding unat_pageRoundDown by linarith
      ultimately show ?thesis using g by (simp add: word_le_nat_alt)
    qed
  qed
  moreover have "validate_pages flags (ucast op) ?a ?l = Some (\<forall>i \<le> n. page_grants (ucast op) (flags (?a + 4096 * of_nat i)))"
    unfolding l by (rule validate_pages_all [OF lt])
  ultimately show ?thesis
    using False ae(1) by (simp add: validateUserBufferByPte_def flags_def [abs_def] Let_def flip: e_def pageRoundDown_def)
qed

theorem validateUserBufferByPte_exact_witness:
  "validateUserBufferByPte 0 0x1000 16 SEG_W demo_space = Some (Inr (False, demo_space)) \<and>
   validateUserBufferByPte 0 0x1000 0 SEG_W demo_space = Some (Inr (True, demo_space))"
proof -
  have "\<not> page_grants (ucast SEG_W) (getFlags (m_pmt (k_pcb (p_k demo_space) 0)) 0x1000 (vs_pt (mw_vm (p_mw demo_space))))"
    using demo_space_facts(3) [of "0x1000"] by (simp add: getFlags_pte pteValid_def page_grants_def)
  then show ?thesis
    using validateUserBufferByPte_exact [of 0 "0x1000" 16 SEG_W demo_space] validateUserBufferByPte_exact [of 0 "0x1000" 0 SEG_W demo_space]
    by auto
qed

section \<open>Strings of the program\<close>

text \<open>The bytes at an address can be read and are these.\<close>

definition holds_bytes :: "('f, 'w) pstate \<Rightarrow> u64 \<Rightarrow> u8 list \<Rightarrow> bool" where
  "holds_bytes s a bs \<longleftrightarrow> (\<forall>i < length bs. user_flags s (a + of_nat i) AND PAGE_R \<noteq> 0 \<and>
     vs_data (mw_vm (p_mw s)) (user_place s (a + of_nat i)) = bs ! i)"

lemma holds_bytes_Cons:
  "holds_bytes s a (b # bs) \<longleftrightarrow> load8 a s = Some (Inr (b, s)) \<and> holds_bytes s (a + 1) bs"
proof -
  have all: "(\<forall>i < Suc n. P i) \<longleftrightarrow> P 0 \<and> (\<forall>i < n. P (Suc i))" for P n by (metis less_Suc_eq_0_disj)
  have "a + of_nat (Suc i) = a + 1 + of_nat i" for i by simp
  then show ?thesis unfolding holds_bytes_def load8_def list.size add_Suc_right add_0_right all by (auto simp: ac_simps)
qed

lemma user_string_short:
  "holds_bytes s a (str @ [0]) \<Longrightarrow> 0 \<notin> set str \<Longrightarrow> length str \<le> n \<Longrightarrow> user_string n a s = Some (Inr (Some str, s))"
proof (induction str arbitrary: n a)
  case Nil
  then show ?case by (cases n) (simp_all add: holds_bytes_Cons sm_defs)
next
  case (Cons c str)
  then obtain n' where n: "n = Suc n'" "length str \<le> n'" by (cases n) auto
  show ?case using Cons.IH [of "a + 1" n'] Cons.prems n by (simp add: holds_bytes_Cons sm_defs)
qed

lemma user_string_long:
  "holds_bytes s a str \<Longrightarrow> 0 \<notin> set str \<Longrightarrow> length str = Suc n \<Longrightarrow> user_string n a s = Some (Inr (None, s))"
proof (induction n arbitrary: str a)
  case 0
  then show ?case by (cases str) (auto simp: holds_bytes_Cons sm_defs)
next
  case (Suc n)
  then obtain c cs where "str = c # cs" by (cases str) auto
  then show ?case using Suc.IH [of "a + 1" cs] Suc.prems by (auto simp: holds_bytes_Cons sm_defs)
qed


text \<open>A program whose addresses all lead to one page, which holds the path of the root at offset 3840.\<close>

definition demo_string :: "(nat, unit) pstate" where
  "demo_string = demo_space\<lparr>p_mw := \<lparr>mw_vm = demo_vm\<lparr>vs_pt := (\<lambda>_ _. makePte 0x5000 (PAGE_V OR PAGE_R OR PAGE_U)),
     vs_data := (\<lambda>x. if x = p2v 0x5F00 then slash else 0)\<rparr>, mw_refs = (\<lambda>_. None)\<rparr>\<rparr>"


end
