(* ===== verification/Spec2Isabelle.thy ===== *)
theory Spec2Isabelle
  imports LRUCache KVector Slab Mmap Sync Signal Pipe FileTable Terminal UserMem
begin

text \<open>
  Verification of the kernel of Hobby-OS, a small operating system for one RISC-V hart that runs statically linked
  programs of the Linux ABI. All paths below are under \<^verbatim>\<open>src/kernel\<close>.

  \<^bold>\<open>Conventions.\<close> A definition bears the name of the function it models, with a prefix or suffix where several classes use the
  same name or where HOL has taken it. Machine integers are words of their width. A routine that may panic, dereference null or
  leave what the language defines returns a value of type \<open>'a res\<close> (\<open>Inl\<close> is the fault); one that may also run for ever returns an
  \<open>'a run\<close>, where \<open>None\<close> is a call that does not return. Theorems about such routines state that they return. Objects that the code
  reaches through pointers live in explicit stores, so that aliasing is what it is in the code. The kernel runs on one hart with
  interrupts off inside its locks, so a routine between two points where it gives up the processor is one step; taking a lock that is
  held never returns. A routine that gives up the processor in the middle is split there. Values that the code reads without having set
  them, addresses that an allocation returns to a client, device answers and linker symbols are arguments.

  \<^bold>\<open>Foundations.\<close>
  \<^item> \<open>Prelude\<close>: faults, sequencing, and the shared lemmas on lists, linked chains and words. \<open>MemLayout\<close> (\<^verbatim>\<open>hw/memlayout.h\<close>): page
    rounding and the offset between physical and kernel addresses. \<open>MemUtil\<close> (\<^verbatim>\<open>mm/mem.h\<close>): \<^verbatim>\<open>memcpy\<close>, \<^verbatim>\<open>strcpy\<close> and the like on a byte
    memory.
  \<^item> \<open>KList\<close>, \<open>KVector\<close>, \<open>KHashMap\<close>, \<open>LRUCache\<close> (\<^verbatim>\<open>lib\<close>): the containers. The doubly linked list works on nodes in a store; the hash map
    refines a partial function for every hash trait (locale \<open>hash_trait\<close>, interpreted for the four key types of the kernel) and its
    iteration ends; the cache refines a list in order of use.

  \<^bold>\<open>Memory.\<close>
  \<^item> \<open>Buddy\<close>, \<open>Slab\<close>, \<open>PageAlloc\<close> (\<^verbatim>\<open>mm/kalloc\<close>): the page allocator on the free lists it keeps inside free pages, with the set of
    free pages as its specification; slabs and the size classes of \<^verbatim>\<open>kmalloc\<close>. What page tables need of an allocator is the locale
    \<open>page_source\<close>, interpreted by the buddy allocator.
  \<^item> \<open>Pmt\<close>, \<open>PageRef\<close>, \<open>Segment\<close>, \<open>VM\<close>, \<open>Mmap\<close> (\<^verbatim>\<open>mm/vm\<close>): three-level page tables as a tree in memory, counts of page users (locale
    \<open>ref_counter\<close>), segments, copying of address spaces with copy-on-write and its faults, and the list of mapped regions.

  \<^bold>\<open>Processes.\<close>
  \<^item> \<open>Sched\<close>, \<open>Sync\<close> (\<^verbatim>\<open>proc/scheduler.cpp\<close>, \<^verbatim>\<open>proc/pcb.cpp\<close>, \<^verbatim>\<open>proc/list\<close>, \<^verbatim>\<open>proc/sync\<close>): ready list, sleep queue, dispatch, locks, semaphores,
    conditions and futexes. The intrusive queues share the locales \<open>intrusive_queue\<close> and \<open>removable_queue\<close>, interpreted for the ready list, the
    waiters of a semaphore and those of a futex. The sleep queue is shown to implement absolute deadlines.
  \<^item> \<open>UserAccess\<close>, \<open>Signal\<close> (\<^verbatim>\<open>proc/signal\<close> and the signal calls): access checks, actions, pending signals, and delivery on the user stack with
    its return.
  \<^item> \<open>Procs\<close> (\<^verbatim>\<open>proc/process/process.cpp\<close>, \<^verbatim>\<open>proc/thread/thread.cpp\<close>, \<^verbatim>\<open>proc/garbage.h\<close>): the table of processes, parents and children, groups,
    signals, exit, wait and deletion. \<open>ProcMem\<close>: construction of processes and threads, fork, exec, heap and mappings. \<open>Elf\<close>, \<open>ExecStack\<close>: loading
    a program and laying out its first stack.

  \<^bold>\<open>Files and devices.\<close>
  \<^item> \<open>Disk\<close> (\<^verbatim>\<open>io/disk\<close>): the virtio driver, with the device as a parameter, and the write-back cache of blocks, which together implement an
    array of sectors.
  \<^item> \<open>Ext2Disk\<close>, \<open>Ext2File\<close>, \<open>Ext2Write\<close>, \<open>Ext2Dir\<close> (\<^verbatim>\<open>fs/ext2\<close>): allocation of blocks and inodes, the map from file offsets to blocks through up
    to three levels, reading and writing files, and directories as finite maps from names.
  \<^item> \<open>Paths\<close>, \<open>FsCaches\<close>, \<open>VFS\<close> (\<^verbatim>\<open>fs/vfs.cpp\<close> and the caches): path resolution with symbolic links and both caches, against a walk in a tree.
  \<^item> \<open>FileTable\<close>, \<open>Pipe\<close> (\<^verbatim>\<open>fs/file.cpp\<close>, \<^verbatim>\<open>fs/fd_table.cpp\<close>, \<^verbatim>\<open>fs/pipe\<close>): open files over the interface of an inode, descriptor tables, and the ring
    buffer of a pipe.
  \<^item> \<open>Console\<close>, \<open>Terminal\<close> (\<^verbatim>\<open>io/console\<close>, \<^verbatim>\<open>io/terminal\<close>): printing, the buffer of received characters, line editing, keyboard signals and settings.
  \<^item> \<open>UserMem\<close> (\<^verbatim>\<open>trap/syscall/syscall.cpp\<close>): access to the memory of the running program through its page table, with the copying of paths and
    argument vectors and the check of a buffer against the table.

  \<^bold>\<open>What is shown.\<close> For every data structure, that its operations implement an abstract one (a set of free pages, a partial function, a list in
  order of use, a sequence of deadlines, a bounded queue, a finite map of names, an array of sectors, a list of processes). For memory, that mapping,
  unmapping, copying and faults change exactly the translations they should and never the bytes another process sees, and that the heap grows
  by fresh pages only. For processes, that dispatch, semaphores and futexes serve in order, that a signal wakes a blocked process, that its
  delivery and return restore all registers, and that exit and wait keep one unit per ended child. For files, that reading returns and
  writing stores the bytes of the file, that rename and lookup act on names as on a map, and that a started program finds its segments, arguments
  and environment. Error paths are branches of the same definitions. Some theorems record faults of the code that the modelling
  brought to light.

  \<^bold>\<open>Bounds.\<close> There is no fuel: loops over lists and counters are structural recursions or have termination proofs, and loops whose end depends on the
  state are partial functions whose return is proved under the invariant that ends them. The depth of symbolic links is the code's own bound.

  \<^bold>\<open>Not modelled.\<close> Register access, the entry and return of traps, the switch of kernel registers and the start code are assembly; the interrupt controller
  is writes to device registers. The handlers of system calls other than those above unpack registers, check a pointer and forward to an
  operation that is modelled with its component; \<^verbatim>\<open>handleTrap\<close> selects among them. Running out of memory in \<^verbatim>\<open>kmalloc\<close> for paths and small objects is
  not modelled; running out of pages is. Interleaving inside the disk driver and inside the file system, whose mutexes serialise it, is
  not modelled. The programs under \<^verbatim>\<open>src/user\<close> run on the kernel and are not part of it.
\<close>

end
